(* ===== verification/TL_Prelude.thy ===== *)
theory TL_Prelude
  imports Main "HOL-Library.Word"
begin

unbundle bit_operations_syntax

text \<open>
  Shared vocabulary of the development: names for the C integer types, the byte-order
  codecs that the wire formats use (little endian in the WireGuard headers, big endian
  in DISCO, STUN, DERP and TAI64N), buffer slices, and the lemmas about them that the
  component theories use through the collections \<open>tl_codec\<close> and \<open>tl_bits\<close>.

  Conventions of the model.  Unsigned C integers are words of their width.  A
  \<open>size_t\<close> that only measures a buffer is a \<open>nat\<close> (it never exceeds the length of an
  existing buffer).  \<open>int64_t\<close> microsecond clocks are \<open>int\<close>: signed overflow is undefined
  in C and the monotonic clock stays far below \<open>2 ^ 63\<close>.  A byte buffer with its length
  is a \<open>u8 list\<close>; an output buffer is its capacity plus the bytes written.
\<close>

named_theorems tl_codec \<open>byte-order codecs and their lengths\<close>
named_theorems tl_bits \<open>bit-level facts about words\<close>

type_synonym u8 = "8 word"
type_synonym u16 = "16 word"
type_synonym u32 = "32 word"
type_synonym u64 = "64 word"
type_synonym bytes = "u8 list"
type_synonym i64 = int

section \<open>Slices\<close>

text \<open>\<open>bytes_at off n bs\<close>: the \<open>n\<close> bytes at \<open>bs + off\<close>.\<close>

definition bytes_at :: "nat \<Rightarrow> nat \<Rightarrow> 'a list \<Rightarrow> 'a list" where
  "bytes_at off n bs = take n (drop off bs)"

lemma length_bytes_at [simp]: "length (bytes_at off n bs) = min n (length bs - off)"
  by (simp add: bytes_at_def)

lemma bytes_at_0 [simp]: "bytes_at 0 n bs = take n bs"
  by (simp add: bytes_at_def)

lemma bytes_at_append_exact [simp]:
  "length xs = off \<Longrightarrow> length ys = n \<Longrightarrow> bytes_at off n (xs @ ys @ zs) = ys"
  by (simp add: bytes_at_def)

lemma bytes_at_append_end [simp]:
  "length xs = off \<Longrightarrow> length ys = n \<Longrightarrow> bytes_at off n (xs @ ys) = ys"
  by (simp add: bytes_at_def)

lemma bytes_at_append_right:
  "length xs \<le> off \<Longrightarrow> bytes_at off n (xs @ ys) = bytes_at (off - length xs) n ys"
  by (simp add: bytes_at_def)

lemma bytes_at_append_left:
  "off + n \<le> length xs \<Longrightarrow> bytes_at off n (xs @ ys) = bytes_at off n xs"
  by (simp add: bytes_at_def)

lemma nth_bytes_at: "i < n \<Longrightarrow> off + i < length bs \<Longrightarrow> bytes_at off n bs ! i = bs ! (off + i)"
  by (simp add: bytes_at_def)

lemma take_add_bytes_at: "take (a + n) xs = take a xs @ bytes_at a n xs"
  by (simp add: bytes_at_def take_add)

lemma take_bytes_at_drop: "off + n \<le> length bs \<Longrightarrow> take off bs @ bytes_at off n bs @ drop (off + n) bs = bs"
  by (simp add: bytes_at_def) (metis add.commute append_take_drop_id drop_drop)

section \<open>Byte-order codecs\<close>

text \<open>The \<open>n\<close> low bytes of a word, least significant first, and back.\<close>

definition le_bytes :: "nat \<Rightarrow> 'a::len word \<Rightarrow> bytes" where
  "le_bytes n v = map (\<lambda>i. ucast (drop_bit (8 * i) v)) [0..<n]"

fun le_word :: "bytes \<Rightarrow> 'a::len word" where
  "le_word [] = 0"
| "le_word (b # bs) = ucast b OR push_bit 8 (le_word bs)"

definition be_bytes :: "nat \<Rightarrow> 'a::len word \<Rightarrow> bytes" where
  "be_bytes n v = rev (le_bytes n v)"

definition be_word :: "bytes \<Rightarrow> 'a::len word" where
  "be_word bs = le_word (rev bs)"

lemma length_le_bytes [simp, tl_codec]: "length (le_bytes n v) = n"
  by (simp add: le_bytes_def)

lemma length_be_bytes [simp, tl_codec]: "length (be_bytes n v) = n"
  by (simp add: be_bytes_def)

lemma le_bytes_0 [simp]: "le_bytes 0 v = []"
  by (simp add: le_bytes_def)

lemma le_bytes_Suc: "le_bytes (Suc n) v = ucast v # le_bytes n (drop_bit 8 v)"
  unfolding le_bytes_def
  by (simp add: upt_conv_Cons map_Suc_upt [symmetric] del: upt_Suc)
     (simp add: comp_def drop_bit_drop_bit add.commute)

lemma ucast_or_push_take_bit:
  fixes v :: "'a::len word"
  shows "ucast (ucast v :: u8) OR push_bit 8 (take_bit k (drop_bit 8 v)) = take_bit (8 + k) v"
  by (rule bit_word_eqI)
     (auto simp: bit_or_iff bit_push_bit_iff bit_take_bit_iff bit_drop_bit_eq bit_ucast_iff
           not_less dest: bit_imp_le_length)

lemma le_word_le_bytes: "le_word (le_bytes n v) = take_bit (8 * n) (v :: 'a::len word)"
proof (induction n arbitrary: v)
  case 0
  show ?case by simp
next
  case (Suc n)
  show ?case
    by (simp add: le_bytes_Suc Suc ucast_or_push_take_bit)
qed

lemma le_roundtrip [simp, tl_codec]:
  "LENGTH('a) \<le> 8 * n \<Longrightarrow> le_word (le_bytes n v) = (v :: 'a::len word)"
  by (simp add: le_word_le_bytes take_bit_word_eq_self)

lemma be_roundtrip [simp, tl_codec]:
  "LENGTH('a) \<le> 8 * n \<Longrightarrow> be_word (be_bytes n v) = (v :: 'a::len word)"
  by (simp add: be_word_def be_bytes_def)

lemma le_bytes_inj:
  "LENGTH('a) \<le> 8 * n \<Longrightarrow> le_bytes n (v :: 'a::len word) = le_bytes n w \<longleftrightarrow> v = w"
  by (metis le_roundtrip)

lemma be_bytes_inj:
  "LENGTH('a) \<le> 8 * n \<Longrightarrow> be_bytes n (v :: 'a::len word) = be_bytes n w \<longleftrightarrow> v = w"
  by (metis be_roundtrip)

lemma le_bytes_step:
  fixes v :: "'a::len word"
  assumes "8 \<le> LENGTH('a)"
  shows "(ucast (ucast b OR push_bit 8 v :: 'a word) :: u8) = b"
  using assms
  by (intro bit_word_eqI) (auto simp: bit_or_iff bit_push_bit_iff bit_ucast_iff)

lemma drop_bit_le_word_step:
  fixes v :: "'a::len word"
  assumes "8 * Suc k \<le> LENGTH('a)" and "v = take_bit (8 * k) v"
  shows "drop_bit 8 (ucast (b :: u8) OR push_bit 8 v) = v"
proof (rule bit_word_eqI)
  fix i
  assume "i < LENGTH('a)"
  have "bit v i \<Longrightarrow> i < 8 * k"
    using assms(2) by (metis bit_take_bit_iff)
  moreover have "\<not> bit b (8 + i)"
    using bit_imp_le_length [of b "8 + i"] by auto
  ultimately show "bit (drop_bit 8 (ucast b OR push_bit 8 v)) i \<longleftrightarrow> bit v i"
    using assms(1) by (auto simp: bit_drop_bit_eq bit_or_iff bit_push_bit_iff bit_ucast_iff)
qed

lemma le_word_take_bit:
  "8 * length bs \<le> LENGTH('a) \<Longrightarrow> le_word bs = take_bit (8 * length bs) (le_word bs :: 'a::len word)"
proof (induction bs)
  case Nil
  show ?case by simp
next
  case (Cons b bs)
  have IH: "le_word bs = take_bit (8 * length bs) (le_word bs :: 'a word)"
    using Cons by simp
  show ?case
  proof (rule bit_word_eqI)
    fix i
    assume "i < LENGTH('a)"
    have "bit (le_word bs :: 'a word) (i - 8) \<Longrightarrow> i - 8 < 8 * length bs"
      using IH by (metis bit_take_bit_iff)
    moreover have "bit b i \<Longrightarrow> i < 8"
      using bit_imp_le_length [of b i] by simp
    ultimately show "bit (le_word (b # bs) :: 'a word) i
        \<longleftrightarrow> bit (take_bit (8 * length (b # bs)) (le_word (b # bs)) :: 'a word) i"
      by (auto simp: bit_or_iff bit_push_bit_iff bit_ucast_iff bit_take_bit_iff)
  qed
qed

lemma le_bytes_le_word [simp, tl_codec]:
  "8 * length bs \<le> LENGTH('a) \<Longrightarrow> le_bytes (length bs) (le_word bs :: 'a::len word) = bs"
proof (induction bs)
  case Nil
  show ?case by simp
next
  case (Cons b bs)
  have "8 \<le> LENGTH('a)" and len: "8 * length bs \<le> LENGTH('a)"
    using Cons.prems by simp_all
  moreover have "drop_bit 8 (ucast b OR push_bit 8 (le_word bs)) = (le_word bs :: 'a word)"
    using Cons.prems le_word_take_bit [OF len] by (intro drop_bit_le_word_step) simp_all
  ultimately show ?case
    using Cons.IH by (simp add: le_bytes_Suc le_bytes_step)
qed

lemma be_bytes_be_word [tl_codec]:
  "8 * length bs \<le> LENGTH('a) \<Longrightarrow> be_bytes (length bs) (be_word bs :: 'a::len word) = bs"
  unfolding be_bytes_def be_word_def
  using le_bytes_le_word [of "rev bs", where 'a = 'a] by simp

text \<open>The codecs of the C helpers, by width.\<close>

definition put_u16_be :: "u16 \<Rightarrow> bytes" where
  "put_u16_be v = [ucast (drop_bit 8 v), ucast v]"

definition get_u16_be :: "bytes \<Rightarrow> u16" where
  "get_u16_be p = push_bit 8 (ucast (p ! 0)) OR ucast (p ! 1)"

definition put_u32_be :: "u32 \<Rightarrow> bytes" where
  "put_u32_be v = [ucast (drop_bit 24 v), ucast (drop_bit 16 v), ucast (drop_bit 8 v), ucast v]"

lemma length_put_u16_be [simp, tl_codec]: "length (put_u16_be v) = 2"
  by (simp add: put_u16_be_def)

lemma length_put_u32_be [simp, tl_codec]: "length (put_u32_be v) = 4"
  by (simp add: put_u32_be_def)

lemma put_u16_be_eq: "put_u16_be v = be_bytes 2 v"
  by (simp add: put_u16_be_def be_bytes_def le_bytes_def numeral_2_eq_2)

lemma put_u32_be_eq: "put_u32_be v = be_bytes 4 v"
  by (simp add: put_u32_be_def be_bytes_def le_bytes_def eval_nat_numeral)

lemma get_u16_be_eq: "get_u16_be (a # b # r) = be_word [a, b]"
  by (simp add: get_u16_be_def be_word_def or.commute)

lemma get_put_u16_be [simp, tl_codec]: "get_u16_be (put_u16_be v @ r) = v"
proof -
  have "get_u16_be (put_u16_be v @ r) = be_word (put_u16_be v)"
    by (simp add: put_u16_be_def get_u16_be_eq)
  then show ?thesis by (simp add: put_u16_be_eq)
qed

lemma get_put_u16_be_exact [simp, tl_codec]: "get_u16_be (put_u16_be v) = v"
  using get_put_u16_be [of v "[]"] by simp

section \<open>Words as numbers\<close>

lemma unat_take_bit: "unat (take_bit n w :: 'a::len word) = unat w mod 2 ^ n"
  by (subst unsigned_take_bit_eq) (rule take_bit_eq_mod)

lemma unat_drop_bit: "unat (drop_bit n w :: 'a::len word) = unat w div 2 ^ n"
proof -
  have "unat (drop_bit n w) = drop_bit n (take_bit LENGTH('a) (unat w))"
    by (rule unsigned_drop_bit_eq)
  also have "\<dots> = unat w div 2 ^ n"
    by (simp add: take_bit_nat_eq_self drop_bit_eq_div)
  finally show ?thesis .
qed

lemma unat_push_bit: "unat (push_bit n w :: 'a::len word) = (unat w * 2 ^ n) mod 2 ^ LENGTH('a)"
proof -
  have "unat (push_bit n w) = take_bit LENGTH('a) (push_bit n (unat w))"
    by (rule unsigned_push_bit_eq)
  then show ?thesis by (simp only: push_bit_eq_mult take_bit_eq_mod)
qed

lemma unat_ucast_mod: "unat (ucast (w :: 'a::len word) :: 'b::len word) = unat w mod 2 ^ LENGTH('b)"
  by (simp only: unsigned_ucast_eq take_bit_eq_mod)

lemma unat_and_mask_eq: "m = mask n \<Longrightarrow> unat (w AND m :: 'a::len word) = unat w mod 2 ^ n"
  by (simp only: take_bit_eq_mask [symmetric] unat_take_bit)

lemma or_push_bit_eq_add:
  fixes a b :: "'a::len word"
  assumes "unat a < 2 ^ k"
  shows "a OR push_bit k b = a + push_bit k b"
proof (rule disjunctive_add [symmetric])
  fix i
  have "a = take_bit k a"
    using assms by (metis mod_less unat_take_bit word_unat_eq_iff)
  then show "\<not> bit a i \<or> \<not> bit (push_bit k b) i"
    by (metis bit_push_bit_iff bit_take_bit_iff not_less)
qed

text \<open>A byte string as a little-endian number.\<close>

fun le_num :: "bytes \<Rightarrow> nat" where
  "le_num [] = 0"
| "le_num (b # bs) = unat b + 256 * le_num bs"

lemma le_num_append: "le_num (xs @ ys) = le_num xs + 256 ^ length xs * le_num ys"
  by (induction xs) (simp_all add: algebra_simps)

lemma le_num_less: "le_num bs < 256 ^ length bs"
proof (induction bs)
  case (Cons b bs)
  have "unat b < 256" using unsigned_less [of b] by simp
  then show ?case using Cons by simp
qed simp

lemma le_num_replicate_0 [simp]: "le_num (replicate n 0) = 0"
  by (induction n) simp_all

lemma unat_le_word:
  "8 * length bs \<le> LENGTH('a) \<Longrightarrow> unat (le_word bs :: 'a::len word) = le_num bs"
proof (induction bs)
  case (Cons b bs)
  have IH: "unat (le_word bs :: 'a word) = le_num bs" using Cons by simp
  have len: "8 * Suc (length bs) \<le> LENGTH('a)" using Cons.prems by simp
  have bnd: "le_num (b # bs) < 2 ^ LENGTH('a)"
  proof -
    have "le_num (b # bs) < (2 ^ 8) ^ Suc (length bs)" using le_num_less [of "b # bs"] by simp
    also have "\<dots> = 2 ^ (8 * Suc (length bs))" by (simp only: power_mult)
    also have "\<dots> \<le> 2 ^ LENGTH('a)" using len by (intro power_increasing) simp_all
    finally show ?thesis .
  qed
  have b8: "unat b < 2 ^ 8" using unsigned_less [of b] by simp
  have ub: "unat (ucast b :: 'a word) = unat b"
    using bnd by (simp add: unat_ucast_mod)
  have up: "unat (push_bit 8 (le_word bs :: 'a word)) = 256 * le_num bs"
    using bnd IH by (simp add: unat_push_bit mult.commute)
  have "unat (le_word (b # bs) :: 'a word) = unat ((ucast b :: 'a word) + push_bit 8 (le_word bs))"
    using or_push_bit_eq_add [of "ucast b :: 'a word" 8 "le_word bs"] ub b8 by simp
  also have "\<dots> = unat b + 256 * le_num bs"
    using bnd by (simp add: unat_word_ariths ub up)
  finally show ?case by simp
qed simp

section \<open>Lists and arithmetic\<close>

lemma mod_add_assoc: "((p + a) mod n + b) mod n = (p + (a + b)) mod (n :: nat)"
  by (metis add.assoc mod_add_left_eq)

lemma mod_eq_close:
  assumes "a mod n = b mod n" "a < b + n" "b < a + n"
  shows "a = (b :: nat)"
proof (rule ccontr)
  assume "a \<noteq> b"
  then consider "a < b" | "b < a" by linarith
  then show False
  proof cases
    case 1
    then have "n dvd b - a" using assms(1) mod_eq_dvd_iff_nat [of a b n] by simp
    then have "n \<le> b - a" using 1 by (intro dvd_imp_le) simp_all
    then show False using assms(3) 1 by linarith
  next
    case 2
    then have "n dvd a - b" using assms(1) by (simp add: mod_eq_dvd_iff_nat)
    then have "n \<le> a - b" using 2 by (intro dvd_imp_le) simp_all
    then show False using assms(2) 2 by linarith
  qed
qed

lemma u8_bound [simp]: "unat (x :: u8) < 256"
  using unsigned_less [of x] by simp

lemma u64_bound [simp]: "unat (x :: u64) < 2 ^ 64"
  using unsigned_less [of x] by simp

lemma u32_bound [simp]: "unat (x :: u32) < 2 ^ 32"
  using unsigned_less [of x] by simp

lemma nth_update_if: "i < length xs \<Longrightarrow> xs[i := y] ! j = (if j = i then y else xs ! j)"
  by (simp add: nth_list_update)

end
