(* ===== verification/WG_Replay.thy ===== *)
theory WG_Replay
  imports TL_Prelude
begin

unbundle bit_operations_syntax

text \<open>
  The RFC 6479 anti-replay window of \<open>wg_transport.c\<close>: a ring of 8192 bits, one per
  counter modulo 8192, and the highest counter accepted so far.  The model keeps the
  byte array, the three loops that clear slots and the 64-bit arithmetic of the source.
  The lemmas give the window its meaning: it refines the set of counters accepted so
  far, so no counter is ever accepted twice.
\<close>

section \<open>The code\<close>

definition WG_REPLAY_WINDOW_BITS :: nat where
  "WG_REPLAY_WINDOW_BITS = 8192"

definition WG_REPLAY_WINDOW_BYTES :: nat where
  "WG_REPLAY_WINDOW_BYTES = WG_REPLAY_WINDOW_BITS div 8"

definition WG_COUNTER_REJECT_AT :: u64 where
  "WG_COUNTER_REJECT_AT = 0xFFFFFFFFFFFFFFFF"

record wg_replay_window =
  highest :: u64
  bitmap :: bytes

text \<open>The slot of a counter: \<open>counter & (WG_REPLAY_WINDOW_BITS - 1)\<close>.\<close>

definition slot_of :: "u64 \<Rightarrow> nat" where
  "slot_of counter = unat (counter AND (of_nat WG_REPLAY_WINDOW_BITS - 1))"

definition wg_replay_check :: "wg_replay_window \<Rightarrow> u64 \<Rightarrow> int" where
  "wg_replay_check w counter =
     (if counter = WG_COUNTER_REJECT_AT then -1
      else if counter > highest w then 0
      else if counter + of_nat WG_REPLAY_WINDOW_BITS \<le> highest w then -1
      else let pos = slot_of counter
           in if (bitmap w ! (pos div 8)) AND push_bit (pos mod 8) 1 \<noteq> 0 then -1 else 0)"

text \<open>\<open>bm[pos / 8] &= ~(1u << (pos % 8))\<close> and \<open>bm[pos / 8] |= 1u << (pos % 8)\<close>.\<close>

definition clear_bit_at :: "bytes \<Rightarrow> nat \<Rightarrow> bytes" where
  "clear_bit_at bm pos = bm[pos div 8 := (bm ! (pos div 8)) AND NOT (push_bit (pos mod 8) 1)]"

definition set_bit_at :: "bytes \<Rightarrow> nat \<Rightarrow> bytes" where
  "set_bit_at bm pos = bm[pos div 8 := (bm ! (pos div 8)) OR push_bit (pos mod 8) 1]"

text \<open>
  The three loops of \<open>replay_clear_slots\<close>; each returns the bitmap, the position and the
  number of slots that are left.
\<close>

fun clear_to_byte :: "bytes \<Rightarrow> nat \<Rightarrow> nat \<Rightarrow> bytes \<times> nat \<times> nat" where
  "clear_to_byte bm pos n =
     (if n > 0 \<and> pos mod 8 \<noteq> 0
      then clear_to_byte (clear_bit_at bm pos) ((pos + 1) mod WG_REPLAY_WINDOW_BITS) (n - 1)
      else (bm, pos, n))"

fun clear_whole_bytes :: "bytes \<Rightarrow> nat \<Rightarrow> nat \<Rightarrow> bytes \<times> nat \<times> nat" where
  "clear_whole_bytes bm pos n =
     (if n \<ge> 8
      then clear_whole_bytes (bm[pos div 8 := 0]) ((pos + 8) mod WG_REPLAY_WINDOW_BITS) (n - 8)
      else (bm, pos, n))"

fun clear_rest :: "bytes \<Rightarrow> nat \<Rightarrow> nat \<Rightarrow> bytes" where
  "clear_rest bm pos n =
     (if n > 0
      then clear_rest (clear_bit_at bm pos) ((pos + 1) mod WG_REPLAY_WINDOW_BITS) (n - 1)
      else bm)"

definition replay_clear_slots :: "bytes \<Rightarrow> u64 \<Rightarrow> nat \<Rightarrow> bytes" where
  "replay_clear_slots bm first n =
     (let (bm1, pos1, n1) = clear_to_byte bm (slot_of first) n;
          (bm2, pos2, n2) = clear_whole_bytes bm1 pos1 n1
      in clear_rest bm2 pos2 n2)"

definition wg_replay_update :: "wg_replay_window \<Rightarrow> u64 \<Rightarrow> wg_replay_window" where
  "wg_replay_update w counter =
     (let w1 = (if counter > highest w
                then let diff = counter - highest w;
                         bm = (if diff \<ge> of_nat WG_REPLAY_WINDOW_BITS
                               then replicate WG_REPLAY_WINDOW_BYTES 0
                               else replay_clear_slots (bitmap w) (highest w + 1) (unat diff))
                     in \<lparr>highest = counter, bitmap = bm\<rparr>
                else w)
      in w1\<lparr>bitmap := set_bit_at (bitmap w1) (slot_of counter)\<rparr>)"

definition wg_replay_check_and_update :: "wg_replay_window \<Rightarrow> u64 \<Rightarrow> int \<times> wg_replay_window" where
  "wg_replay_check_and_update w counter =
     (if wg_replay_check w counter \<noteq> 0 then (-1, w) else (0, wg_replay_update w counter))"

text \<open>\<open>memset(&s->replay, 0, sizeof(s->replay))\<close>.\<close>

definition replay_zero :: wg_replay_window where
  "replay_zero = \<lparr>highest = 0, bitmap = replicate WG_REPLAY_WINDOW_BYTES 0\<rparr>"

declare clear_to_byte.simps [simp del] clear_whole_bytes.simps [simp del] clear_rest.simps [simp del]

section \<open>The bitmap as a set of slots\<close>

lemma window_size: "WG_REPLAY_WINDOW_BYTES = 1024"
  by (simp add: WG_REPLAY_WINDOW_BYTES_def WG_REPLAY_WINDOW_BITS_def)

definition slot_set :: "bytes \<Rightarrow> nat \<Rightarrow> bool" where
  "slot_set bm p = bit (bm ! (p div 8)) (p mod 8)"

lemma slot_of_eq: "slot_of c = unat c mod 8192"
proof -
  have "c AND 8191 = take_bit 13 c"
    by (simp add: take_bit_eq_mask mask_eq_exp_minus_1)
  then show ?thesis
    by (simp add: slot_of_def WG_REPLAY_WINDOW_BITS_def take_bit_eq_mod unat_mod)
qed

lemma slot_of_less [simp]: "slot_of c < 8192"
  by (simp add: slot_of_eq)

lemma and_push_bit_nonzero:
  fixes b :: "'a::len word"
  assumes "k < LENGTH('a)"
  shows "b AND push_bit k 1 \<noteq> 0 \<longleftrightarrow> bit b k"
proof -
  have "b AND push_bit k 1 = (if bit b k then push_bit k 1 else 0)"
    using assms by (intro bit_word_eqI) (auto simp: bit_and_iff bit_exp_iff)
  moreover have "push_bit k (1 :: 'a word) \<noteq> 0"
    using assms by simp
  ultimately show ?thesis by simp
qed

lemma wg_replay_check_eq:
  "wg_replay_check w c =
     (if c = WG_COUNTER_REJECT_AT then -1
      else if c > highest w then 0
      else if c + 8192 \<le> highest w then -1
      else if slot_set (bitmap w) (slot_of c) then -1 else 0)"
  unfolding wg_replay_check_def Let_def slot_set_def WG_REPLAY_WINDOW_BITS_def
  by (subst and_push_bit_nonzero) simp_all

lemma length_clear_bit_at [simp]: "length (clear_bit_at bm p) = length bm"
  by (simp add: clear_bit_at_def)

lemma length_set_bit_at [simp]: "length (set_bit_at bm p) = length bm"
  by (simp add: set_bit_at_def)

lemma same_slot: "q div 8 = p div 8 \<Longrightarrow> q mod 8 = p mod 8 \<Longrightarrow> q = (p :: nat)"
  by (metis div_mult_mod_eq)

lemma slot_set_clear:
  "p < 8 * length bm \<Longrightarrow> slot_set (clear_bit_at bm p) q \<longleftrightarrow> slot_set bm q \<and> q \<noteq> p"
  by (auto simp: slot_set_def clear_bit_at_def nth_update_if bit_and_iff bit_not_iff
        bit_exp_iff dest: same_slot)

lemma slot_set_set:
  "p < 8 * length bm \<Longrightarrow> slot_set (set_bit_at bm p) q \<longleftrightarrow> slot_set bm q \<or> q = p"
  by (auto simp: slot_set_def set_bit_at_def nth_update_if bit_or_iff
        bit_exp_iff dest: same_slot)

lemma slot_set_zero_byte:
  "k < length bm \<Longrightarrow> slot_set (bm[k := 0]) q \<longleftrightarrow> slot_set bm q \<and> q div 8 \<noteq> k"
  by (auto simp: slot_set_def nth_update_if)

lemma slot_set_replicate [simp]: "p < 8 * n \<Longrightarrow> \<not> slot_set (replicate n 0) p"
  by (simp add: slot_set_def)

section \<open>Clearing slots\<close>

text \<open>
  The slots of \<open>n\<close> consecutive positions from \<open>pos\<close> on, around the ring.
\<close>

definition ring_range :: "nat \<Rightarrow> nat \<Rightarrow> nat set" where
  "ring_range pos n = (\<lambda>k. (pos + k) mod 8192) ` {..<n}"

lemma ring_range_0 [simp]: "ring_range pos 0 = {}"
  by (simp add: ring_range_def)

lemma ring_range_add: "ring_range pos (m + n) = ring_range pos m \<union> ring_range ((pos + m) mod 8192) n"
proof -
  have "{..<m + n} = {..<m} \<union> (\<lambda>k. m + k) ` {..<n}"
  proof (intro set_eqI iffI)
    fix x
    assume "x \<in> {..<m + n}"
    then show "x \<in> {..<m} \<union> (\<lambda>k. m + k) ` {..<n}"
      by (cases "x < m") (auto intro!: image_eqI [of _ _ "x - m"])
  qed auto
  then show ?thesis
    by (simp only: ring_range_def image_Un image_image mod_add_assoc)
qed

lemma ring_range_1 [simp]: "ring_range pos (Suc 0) = {pos mod 8192}"
  by (simp add: ring_range_def lessThan_Suc)

lemma ring_range_Suc: "ring_range pos (Suc n) = insert (pos mod 8192) (ring_range ((pos + 1) mod 8192) n)"
  using ring_range_add [of pos 1 n] by simp

lemma ring_range_byte:
  assumes "pos mod 8 = 0" "pos < 8192"
  shows "ring_range pos 8 = {q. q div 8 = pos div 8}"
proof
  show "ring_range pos 8 \<subseteq> {q. q div 8 = pos div 8}"
  proof
    fix q
    assume "q \<in> ring_range pos 8"
    then obtain k where "k < 8" "q = (pos + k) mod 8192"
      by (auto simp: ring_range_def)
    moreover from this assms have "pos + k < 8192" by presburger
    ultimately have "q = pos + k" by simp
    then show "q \<in> {q. q div 8 = pos div 8}"
      using assms(1) \<open>k < 8\<close> by (simp add: div_add1_eq)
  qed
  show "{q. q div 8 = pos div 8} \<subseteq> ring_range pos 8"
  proof
    fix q
    assume "q \<in> {q. q div 8 = pos div 8}"
    then have q: "q = pos + q mod 8" and "q < 8192"
      using assms by (auto simp: minus_mod_eq_mult_div [symmetric])
    then have "q = (pos + q mod 8) mod 8192" by simp
    then show "q \<in> ring_range pos 8"
      unfolding ring_range_def by (intro image_eqI [of _ _ "q mod 8"]) simp_all
  qed
qed

text \<open>
  What each loop establishes: it preserves the length, clears exactly a prefix of the
  range, and says which part of the range is left.
\<close>

definition cleared :: "bytes \<Rightarrow> bytes \<Rightarrow> nat set \<Rightarrow> bool" where
  "cleared bm bm' R \<longleftrightarrow>
     length bm' = length bm \<and> (\<forall>q<8192. slot_set bm' q \<longleftrightarrow> slot_set bm q \<and> q \<notin> R)"

lemma cleared_trans: "cleared a b R \<Longrightarrow> cleared b c S \<Longrightarrow> cleared a c (R \<union> S)"
  by (auto simp: cleared_def)

lemma cleared_refl [simp]: "cleared a a {}"
  by (simp add: cleared_def)

lemma cleared_one: "length bm = 1024 \<Longrightarrow> pos < 8192 \<Longrightarrow> cleared bm (clear_bit_at bm pos) {pos}"
  by (auto simp: cleared_def slot_set_clear)

lemma cleared_byte:
  "length bm = 1024 \<Longrightarrow> pos < 8192 \<Longrightarrow> pos mod 8 = 0 \<Longrightarrow>
     cleared bm (bm[pos div 8 := 0]) (ring_range pos 8)"
  by (auto simp: cleared_def slot_set_zero_byte ring_range_byte)

lemma clear_rest_cleared:
  "length bm = 1024 \<Longrightarrow> pos < 8192 \<Longrightarrow> cleared bm (clear_rest bm pos n) (ring_range pos n)"
proof (induction bm pos n rule: clear_rest.induct)
  case (1 bm pos n)
  show ?case
  proof (cases n)
    case 0
    then show ?thesis by (simp add: clear_rest.simps)
  next
    case (Suc m)
    have "cleared (clear_bit_at bm pos)
            (clear_rest (clear_bit_at bm pos) ((pos + 1) mod 8192) m) (ring_range ((pos + 1) mod 8192) m)"
      using "1.IH" "1.prems" Suc by (simp add: WG_REPLAY_WINDOW_BITS_def)
    from cleared_trans [OF cleared_one [OF "1.prems"] this] show ?thesis
      using Suc "1.prems" by (simp add: clear_rest.simps [of bm pos "Suc m"] WG_REPLAY_WINDOW_BITS_def ring_range_Suc)
  qed
qed

lemma clear_to_byte_cleared:
  assumes "length bm = 1024" "pos < 8192" "clear_to_byte bm pos n = (bm', pos', n')"
  shows "\<exists>m. n = m + n' \<and> pos' = (pos + m) mod 8192 \<and> (n' = 0 \<or> pos' mod 8 = 0)
           \<and> cleared bm bm' (ring_range pos m)"
  using assms
proof (induction bm pos n rule: clear_to_byte.induct)
  case (1 bm pos n)
  show ?case
  proof (cases "n > 0 \<and> pos mod 8 \<noteq> 0")
    case False
    then show ?thesis
      using "1.prems" by (intro exI [of _ 0]) (auto simp: clear_to_byte.simps [of bm pos n])
  next
    case True
    let ?bm = "clear_bit_at bm pos" and ?pos = "(pos + 1) mod 8192"
    have "clear_to_byte ?bm ?pos (n - 1) = (bm', pos', n')"
      using True "1.prems"(3) by (simp add: clear_to_byte.simps [of bm pos n] WG_REPLAY_WINDOW_BITS_def)
    then obtain m where m: "n - 1 = m + n'" "pos' = (?pos + m) mod 8192"
      "n' = 0 \<or> pos' mod 8 = 0" "cleared ?bm bm' (ring_range ?pos m)"
      using "1.IH" [OF True] "1.prems"(1) by (auto simp: WG_REPLAY_WINDOW_BITS_def)
    have "cleared bm bm' (ring_range pos (Suc m))"
      using cleared_trans [OF cleared_one [OF "1.prems"(1,2)] m(4)] "1.prems"(2)
      by (simp add: ring_range_Suc)
    moreover have "n = Suc m + n'" using m(1) True by linarith
    moreover have "pos' = (pos + Suc m) mod 8192"
      using m(2) by (simp only: mod_add_assoc plus_1_eq_Suc)
    ultimately show ?thesis using m(3) by (intro exI [of _ "Suc m"] conjI)
  qed
qed

lemma clear_whole_bytes_cleared:
  assumes "length bm = 1024" "pos < 8192" "n < 8 \<or> pos mod 8 = 0"
    "clear_whole_bytes bm pos n = (bm', pos', n')"
  shows "\<exists>m. n = m + n' \<and> pos' = (pos + m) mod 8192 \<and> cleared bm bm' (ring_range pos m)"
  using assms
proof (induction bm pos n rule: clear_whole_bytes.induct)
  case (1 bm pos n)
  show ?case
  proof (cases "n \<ge> 8")
    case False
    then show ?thesis
      using "1.prems" by (intro exI [of _ 0]) (auto simp: clear_whole_bytes.simps [of bm pos n])
  next
    case True
    let ?bm = "bm[pos div 8 := 0]" and ?pos = "(pos + 8) mod 8192"
    have al: "pos mod 8 = 0" using True "1.prems"(3) by simp
    have "?pos mod 8 = 0" using al by (simp add: mod_mod_cancel)
    moreover have "clear_whole_bytes ?bm ?pos (n - 8) = (bm', pos', n')"
      using True "1.prems"(4) by (simp add: clear_whole_bytes.simps [of bm pos n] WG_REPLAY_WINDOW_BITS_def)
    ultimately have "\<exists>m. n - 8 = m + n' \<and> pos' = (?pos + m) mod 8192 \<and> cleared ?bm bm' (ring_range ?pos m)"
      using "1.IH" [OF True] "1.prems"(1) by (simp add: WG_REPLAY_WINDOW_BITS_def)
    then obtain m where m: "n - 8 = m + n'" "pos' = (?pos + m) mod 8192"
      "cleared ?bm bm' (ring_range ?pos m)"
      by (elim exE conjE)
    have "cleared bm bm' (ring_range pos (8 + m))"
      unfolding ring_range_add
      using cleared_trans [OF cleared_byte [OF "1.prems"(1,2) al] m(3)] .
    moreover have "n = (8 + m) + n'" using m(1) True by linarith
    moreover have "pos' = (pos + (8 + m)) mod 8192"
      using m(2) by (simp only: mod_add_assoc)
    ultimately show ?thesis by (intro exI [of _ "8 + m"] conjI)
  qed
qed

lemma replay_clear_slots_cleared:
  assumes "length bm = 1024"
  shows "cleared bm (replay_clear_slots bm first n) (ring_range (slot_of first) n)"
proof -
  obtain bm1 pos1 n1 where 1: "clear_to_byte bm (slot_of first) n = (bm1, pos1, n1)"
    by (metis prod_cases3)
  obtain bm2 pos2 n2 where 2: "clear_whole_bytes bm1 pos1 n1 = (bm2, pos2, n2)"
    by (metis prod_cases3)
  obtain m1 where m1: "n = m1 + n1" "pos1 = (slot_of first + m1) mod 8192"
      "n1 = 0 \<or> pos1 mod 8 = 0" "cleared bm bm1 (ring_range (slot_of first) m1)"
    using clear_to_byte_cleared [OF assms slot_of_less 1] by (elim exE conjE)
  have len1: "length bm1 = 1024" using m1(4) assms by (simp add: cleared_def)
  have pos1: "pos1 < 8192" and al1: "n1 < 8 \<or> pos1 mod 8 = 0" using m1(2,3) by auto
  obtain m2 where m2: "n1 = m2 + n2" "pos2 = (pos1 + m2) mod 8192" "cleared bm1 bm2 (ring_range pos1 m2)"
    using clear_whole_bytes_cleared [OF len1 pos1 al1 2] by (elim exE conjE)
  have "length bm2 = 1024" using m2(3) len1 by (simp add: cleared_def)
  then have "cleared bm2 (clear_rest bm2 pos2 n2) (ring_range pos2 n2)"
    using m2(2) by (intro clear_rest_cleared) simp_all
  from cleared_trans [OF m1(4) cleared_trans [OF m2(3) this]]
  have "cleared bm (clear_rest bm2 pos2 n2) (ring_range (slot_of first) n)"
    by (simp only: m1(1,2) m2(1,2) ring_range_add mod_add_assoc Un_assoc)
  then show ?thesis by (simp add: replay_clear_slots_def 1 2)
qed

section \<open>The window as a set of accepted counters\<close>

text \<open>
  The abstract window is the set of all counters accepted so far, as numbers.  A window
  stands for a set when the bitmap has its size, \<open>highest\<close> bounds the set, and inside the
  last 8192 counters a slot is set exactly for the members.
\<close>

definition window_of :: "wg_replay_window \<Rightarrow> nat set \<Rightarrow> bool" where
  "window_of w S \<longleftrightarrow>
     length (bitmap w) = 1024 \<and> (\<forall>c\<in>S. c \<le> unat (highest w)) \<and>
     (\<forall>c. c \<le> unat (highest w) \<and> unat (highest w) < c + 8192
           \<longrightarrow> (slot_set (bitmap w) (c mod 8192) \<longleftrightarrow> c \<in> S))"

lemma window_of_zero: "window_of replay_zero {}"
  by (simp add: window_of_def replay_zero_def slot_set_def window_size)

lemma u64_max: "WG_COUNTER_REJECT_AT = - 1"
  by (simp add: WG_COUNTER_REJECT_AT_def)

text \<open>
  The code compares \<open>counter + 8192 <= highest\<close> in 64 bits; up to \<open>2 ^ 64 - 8192\<close> the sum
  does not wrap.
\<close>

lemma window_no_wrap:
  fixes c h :: u64
  assumes "c \<le> h" "unat h < 2 ^ 64 - 8192"
  shows "c + 8192 \<le> h \<longleftrightarrow> unat c + 8192 \<le> unat h"
proof -
  have "unat c + unat (8192 :: u64) < 2 ^ 64"
    using assms by (simp add: word_le_nat_alt)
  then have "unat (c + 8192) = unat c + 8192"
    by (simp add: unat_word_ariths)
  then show ?thesis by (simp add: word_le_nat_alt)
qed

lemma window_past:
  fixes c h :: u64
  assumes "c \<le> h" "\<not> c + 8192 \<le> h"
  shows "unat h < unat c + 8192"
proof (cases "unat c + 8192 < 2 ^ 64")
  case True
  then have "unat (c + 8192) = unat c + 8192"
    by (simp add: unat_word_ariths)
  then show ?thesis using assms(2) by (simp add: word_le_nat_alt)
next
  case False
  then show ?thesis using u64_bound [of h] by simp
qed

lemma ring_range_clears:
  assumes "h < c" "c < h + 8192" "d \<le> c" "c < d + 8192"
  shows "d mod 8192 \<in> ring_range ((h + 1) mod 8192) (c - h) \<longleftrightarrow> h < d"
proof
  assume "h < d"
  then have "d mod 8192 = ((h + 1) mod 8192 + (d - (h + 1))) mod 8192"
    by (simp only: mod_add_assoc) simp
  then show "d mod 8192 \<in> ring_range ((h + 1) mod 8192) (c - h)"
    using assms \<open>h < d\<close> unfolding ring_range_def by (intro image_eqI [of _ _ "d - (h + 1)"]) auto
next
  assume "d mod 8192 \<in> ring_range ((h + 1) mod 8192) (c - h)"
  then obtain k where k: "k < c - h" "d mod 8192 = (h + (1 + k)) mod 8192"
    unfolding ring_range_def mod_add_assoc by blast
  show "h < d"
  proof (rule ccontr)
    assume "\<not> h < d"
    then have "d < h + (1 + k) + 8192" "h + (1 + k) < d + 8192"
      using assms k(1) by linarith+
    with k(2) have "d = h + (1 + k)" by (rule mod_eq_close)
    then show False using \<open>\<not> h < d\<close> by linarith
  qed
qed

lemma window_of_update:
  assumes w: "window_of w S" and ok: "wg_replay_check w c = 0"
  shows "window_of (wg_replay_update w c) (insert (unat c) S)"
proof (cases "c > highest w")
  case new: True
  let ?h = "unat (highest w)" and ?c = "unat c"
  have hc: "?h < ?c" using new by (simp add: word_less_nat_alt)
  have diff: "unat (c - highest w) = ?c - ?h"
    using new by (simp add: unat_sub)
  define bm where "bm = (if c - highest w \<ge> of_nat WG_REPLAY_WINDOW_BITS
      then replicate WG_REPLAY_WINDOW_BYTES 0
      else replay_clear_slots (bitmap w) (highest w + 1) (unat (c - highest w)))"
  have upd: "wg_replay_update w c = \<lparr>highest = c, bitmap = set_bit_at bm (slot_of c)\<rparr>"
    using new by (simp add: wg_replay_update_def Let_def bm_def)
  have len: "length (bitmap w) = 1024" using w by (simp add: window_of_def)
  have clr: "cleared (bitmap w) (replay_clear_slots (bitmap w) (highest w + 1) (?c - ?h))
               (ring_range (slot_of (highest w + 1)) (?c - ?h))"
    by (rule replay_clear_slots_cleared [OF len])
  have lenbm: "length bm = 1024"
    using clr len by (simp add: bm_def cleared_def diff window_size)
  have "?h + 1 < 2 ^ 64" using hc u64_bound [of c] by simp
  then have s1: "slot_of (highest w + 1) = (?h + 1) mod 8192"
    by (simp add: slot_of_eq unat_word_ariths)
  have bits: "slot_set bm (d mod 8192) \<longleftrightarrow> d \<in> S" if d: "d \<le> ?c" "?c < d + 8192" "d \<noteq> ?c" for d
  proof (cases "?c - ?h \<ge> 8192")
    case True
    then have "bm = replicate WG_REPLAY_WINDOW_BYTES 0"
      by (simp add: bm_def word_le_nat_alt diff WG_REPLAY_WINDOW_BITS_def)
    moreover have "d \<notin> S"
      using w True d hc by (auto simp: window_of_def)
    ultimately show ?thesis by (simp add: window_size slot_set_def)
  next
    case False
    then have "bm = replay_clear_slots (bitmap w) (highest w + 1) (?c - ?h)"
      by (simp add: bm_def word_le_nat_alt diff WG_REPLAY_WINDOW_BITS_def)
    then have "slot_set bm (d mod 8192) \<longleftrightarrow> slot_set (bitmap w) (d mod 8192) \<and> \<not> ?h < d"
      using clr ring_range_clears [of ?h ?c d] hc False d by (simp add: cleared_def s1)
    also have "\<dots> \<longleftrightarrow> d \<in> S"
      using w d hc by (auto simp: window_of_def)
    finally show ?thesis .
  qed
  have ne: "d mod 8192 \<noteq> ?c mod 8192" if "d \<le> ?c" "?c < d + 8192" "d \<noteq> ?c" for d
    using that mod_eq_close [of d 8192 ?c] by auto
  show ?thesis
    unfolding window_of_def upd
    using lenbm bits ne hc w
    by (auto simp: slot_set_set slot_of_eq window_of_def)
next
  case False
  let ?h = "unat (highest w)" and ?c = "unat c"
  have le: "c \<le> highest w" using False by simp
  have upd: "wg_replay_update w c = w\<lparr>bitmap := set_bit_at (bitmap w) (slot_of c)\<rparr>"
    using False by (simp add: wg_replay_update_def)
  have inw: "\<not> c + 8192 \<le> highest w"
    using ok False by (auto simp: wg_replay_check_eq split: if_splits)
  have hc: "?c \<le> ?h" "?h < ?c + 8192"
    using le window_past [OF le inw] by (simp_all add: word_le_nat_alt)
  have ne: "d mod 8192 = ?c mod 8192 \<longleftrightarrow> d = ?c" if "d \<le> ?h" "?h < d + 8192" for d
    using that hc mod_eq_close [of d 8192 ?c] by auto
  show ?thesis
    unfolding window_of_def upd
    using w ne hc by (auto simp: slot_set_set slot_of_eq window_of_def)
qed

lemma window_check_fresh:
  assumes w: "window_of w S" and ok: "wg_replay_check w c = 0"
  shows "unat c \<notin> S"
proof (cases "c > highest w")
  case True
  then show ?thesis using w by (auto simp: window_of_def word_less_nat_alt)
next
  case False
  then have le: "c \<le> highest w" by simp
  have "\<not> c + 8192 \<le> highest w" and "\<not> slot_set (bitmap w) (slot_of c)"
    using ok False by (auto simp: wg_replay_check_eq split: if_splits)
  with window_past [OF le] le w show ?thesis
    by (auto simp: window_of_def slot_of_eq word_le_nat_alt)
qed

lemma window_check_exact:
  assumes w: "window_of w S" and lim: "unat (highest w) < 2 ^ 64 - 8192"
  shows "wg_replay_check w c = 0 \<longleftrightarrow>
           c \<noteq> WG_COUNTER_REJECT_AT \<and>
           (unat (highest w) < unat c \<or> unat (highest w) < unat c + 8192 \<and> unat c \<notin> S)"
proof (cases "c > highest w")
  case True
  then show ?thesis by (simp add: wg_replay_check_eq word_less_nat_alt)
next
  case False
  then have le: "c \<le> highest w" by simp
  then have "unat c \<le> unat (highest w)" by (simp add: word_le_nat_alt)
  moreover have "unat (highest w) < unat c + 8192 \<Longrightarrow>
      slot_set (bitmap w) (unat c mod 8192) \<longleftrightarrow> unat c \<in> S"
    using w calculation by (simp add: window_of_def)
  ultimately show ?thesis
    using False window_no_wrap [OF le lim] by (auto simp: wg_replay_check_eq slot_of_eq)
qed

section \<open>The interface of an anti-replay filter\<close>

text \<open>
  What a session relies on: a filter state stands for a set of identifiers, a check that
  passes is for an identifier outside the set, and recording it adds it to the set.
\<close>

fun filter_run :: "('w \<Rightarrow> 'c \<Rightarrow> bool) \<Rightarrow> ('w \<Rightarrow> 'c \<Rightarrow> 'w) \<Rightarrow> 'w \<Rightarrow> 'c list \<Rightarrow> 'c list \<times> 'w" where
  "filter_run check mark w [] = ([], w)"
| "filter_run check mark w (c # cs) =
     (if check w c
      then (let (acc, w') = filter_run check mark (mark w c) cs in (c # acc, w'))
      else filter_run check mark w cs)"

locale replay_filter =
  fixes check :: "'w \<Rightarrow> 'c \<Rightarrow> bool"
    and mark :: "'w \<Rightarrow> 'c \<Rightarrow> 'w"
    and ident :: "'c \<Rightarrow> nat"
    and stands_for :: "'w \<Rightarrow> nat set \<Rightarrow> bool"
  assumes check_fresh: "stands_for w S \<Longrightarrow> check w c \<Longrightarrow> ident c \<notin> S"
    and mark_adds: "stands_for w S \<Longrightarrow> check w c \<Longrightarrow> stands_for (mark w c) (insert (ident c) S)"
begin

lemma run_accepts_once:
  assumes "stands_for w S" "filter_run check mark w cs = (acc, w')"
  shows "distinct (map ident acc) \<and> ident ` set acc \<inter> S = {} \<and> stands_for w' (S \<union> ident ` set acc)"
  using assms
proof (induction cs arbitrary: w S acc)
  case Nil
  then show ?case by simp
next
  case (Cons c cs)
  show ?case
  proof (cases "check w c")
    case False
    then show ?thesis using Cons by simp
  next
    case True
    then obtain acc1 where run: "filter_run check mark (mark w c) cs = (acc1, w')"
      and acc: "acc = c # acc1"
      using Cons.prems(2) by (auto split: prod.splits)
    have "distinct (map ident acc1) \<and> ident ` set acc1 \<inter> insert (ident c) S = {}
        \<and> stands_for w' (insert (ident c) S \<union> ident ` set acc1)"
      using Cons.IH [OF mark_adds [OF Cons.prems(1) True] run] .
    then show ?thesis
      using acc check_fresh [OF Cons.prems(1) True] by auto
  qed
qed

lemma no_accept_after_mark:
  "stands_for w S \<Longrightarrow> check w c \<Longrightarrow> ident d = ident c \<Longrightarrow> \<not> check (mark w c) d"
  using check_fresh mark_adds by fastforce

end

interpretation wg_window: replay_filter
  "\<lambda>w c. wg_replay_check w c = 0" wg_replay_update unat window_of
  by unfold_locales (simp_all add: window_check_fresh window_of_update)

text \<open>A sequence of received counters through \<open>wg_replay_check_and_update\<close>.\<close>

fun replay_run :: "wg_replay_window \<Rightarrow> u64 list \<Rightarrow> u64 list \<times> wg_replay_window" where
  "replay_run w [] = ([], w)"
| "replay_run w (c # cs) =
     (let (rc, w1) = wg_replay_check_and_update w c;
          (acc, w2) = replay_run w1 cs
      in (if rc = 0 then c # acc else acc, w2))"

lemma replay_run_filter:
  "replay_run w cs = filter_run (\<lambda>w c. wg_replay_check w c = 0) wg_replay_update w cs"
  by (induction cs arbitrary: w) (auto simp: wg_replay_check_and_update_def split: prod.splits)

section \<open>Properties\<close>

text \<open>whatever sequence of counters arrives, from a fresh window or any later one,
  \<open>wg_replay_check_and_update\<close> never accepts the same counter twice.\<close>

theorem replay_accepts_once:
  "distinct (fst (replay_run replay_zero cs))"
proof -
  obtain acc w' where run: "replay_run replay_zero cs = (acc, w')" by fastforce
  then have "distinct (map unat acc)"
    using wg_window.run_accepts_once [OF window_of_zero] by (auto simp: replay_run_filter)
  then show ?thesis using run by (simp add: distinct_map)
qed

text \<open>C6: below the last 8192 counters of the 64-bit space the check is exact: after any
  history of received counters it accepts a counter if and only if it is not the reserved
  sentinel and is either newer than every accepted one or inside the window and not
  accepted before.\<close>

theorem replay_check_exact:
  assumes "replay_run replay_zero cs = (acc, w)" "unat (highest w) < 2 ^ 64 - 8192"
  shows "wg_replay_check w c = 0 \<longleftrightarrow>
           c \<noteq> WG_COUNTER_REJECT_AT \<and>
           (highest w < c \<or> unat (highest w) < unat c + 8192 \<and> c \<notin> set acc)"
proof -
  have "window_of w (unat ` set acc)"
    using assms(1) wg_window.run_accepts_once [OF window_of_zero] by (simp add: replay_run_filter)
  moreover have "unat c \<in> unat ` set acc \<longleftrightarrow> c \<in> set acc"
    by (auto simp: image_iff) (metis word_unat_eq_iff)
  ultimately show ?thesis
    using window_check_exact [OF _ assms(2)] by (simp add: word_less_nat_alt)
qed

theorem replay_check_exact_witness:
  "wg_replay_check (snd (replay_run replay_zero [5])) 5 \<noteq> 0
     \<and> wg_replay_check (snd (replay_run replay_zero [5])) 3 = 0"
proof -
  have "wg_replay_check replay_zero 5 = 0"
    by (simp add: wg_replay_check_def replay_zero_def WG_COUNTER_REJECT_AT_def)
  then have run: "replay_run replay_zero [5] = ([5], wg_replay_update replay_zero 5)"
    by (simp add: wg_replay_check_and_update_def)
  have hi: "highest (wg_replay_update replay_zero 5) = 5"
    by (simp add: wg_replay_update_def replay_zero_def Let_def)
  have "unat (highest (wg_replay_update replay_zero 5)) < 2 ^ 64 - 8192" by (simp add: hi)
  note exact = replay_check_exact [OF run this]
  show ?thesis
    unfolding run using exact [of 5] exact [of 3] by (simp add: hi WG_COUNTER_REJECT_AT_def)
qed

text \<open>the byte-wise \<open>replay_clear_slots\<close> (round 1.3.3) leaves the same bitmap as
  clearing the slots one bit at a time, the loop it replaced.\<close>

theorem replay_clear_slots_bitwise:
  assumes "length bm = WG_REPLAY_WINDOW_BYTES"
  shows "replay_clear_slots bm first n = clear_rest bm (slot_of first) n"
proof -
  have len: "length bm = 1024" using assms by (simp add: window_size)
  have a: "cleared bm (replay_clear_slots bm first n) (ring_range (slot_of first) n)"
    by (rule replay_clear_slots_cleared [OF len])
  have b: "cleared bm (clear_rest bm (slot_of first) n) (ring_range (slot_of first) n)"
    by (rule clear_rest_cleared [OF len slot_of_less])
  show ?thesis
  proof (rule nth_equalityI)
    show "length (replay_clear_slots bm first n) = length (clear_rest bm (slot_of first) n)"
      using a b by (simp add: cleared_def)
    fix i
    assume "i < length (replay_clear_slots bm first n)"
    then have i: "i < 1024" using a len by (simp add: cleared_def)
    show "replay_clear_slots bm first n ! i = clear_rest bm (slot_of first) n ! i"
    proof (rule bit_word_eqI)
      fix k
      assume "k < LENGTH(8)"
      then have "k < 8" by simp
      with i have "8 * i + k < 8192" by linarith
      then have "slot_set (replay_clear_slots bm first n) (8 * i + k)
          \<longleftrightarrow> slot_set (clear_rest bm (slot_of first) n) (8 * i + k)"
        using a b by (simp add: cleared_def)
      then show "bit (replay_clear_slots bm first n ! i) k
          \<longleftrightarrow> bit (clear_rest bm (slot_of first) n ! i) k"
        using \<open>k < 8\<close> by (simp add: slot_set_def)
    qed
  qed
qed

theorem replay_clear_slots_bitwise_witness:
  "replay_clear_slots (replicate WG_REPLAY_WINDOW_BYTES 0xFF) 5 20
     = clear_rest (replicate WG_REPLAY_WINDOW_BYTES 0xFF) (slot_of 5) 20"
  by (rule replay_clear_slots_bitwise) simp

text \<open>
  The boundary case that \<open>replay_check_exact\<close> leaves out: near \<open>2 ^ 64\<close> the sum
  \<open>counter + WG_REPLAY_WINDOW_BITS\<close> wraps and a fresh counter inside the window is refused.
\<close>

lemma replay_check_wraps:
  "wg_replay_check \<lparr>highest = 0xFFFFFFFFFFFFFFF0, bitmap = replicate 1024 0\<rparr> 0xFFFFFFFFFFFFFFE0 = -1"
  by (simp add: wg_replay_check_eq WG_COUNTER_REJECT_AT_def)

end
