(* ===== verification/AEAD_Interface.thy ===== *)
theory AEAD_Interface
  imports TL_Prelude
begin

unbundle bit_operations_syntax

text \<open>
  What the transport, the handshakes and the DISCO codec rely on when they seal and open
  messages, and the byte helpers the two implementations (ChaCha20-Poly1305 and NaCl box)
  share.  \<open>seal\<close> may refuse a message (NaCl box has a size limit); a sealed message opens to
  what was sealed, and nothing else opens.
\<close>

locale aead_scheme =
  fixes seal :: "bytes \<Rightarrow> bytes \<Rightarrow> bytes \<Rightarrow> bytes \<Rightarrow> bytes option"
    and unseal :: "bytes \<Rightarrow> bytes \<Rightarrow> bytes \<Rightarrow> bytes \<Rightarrow> bytes option"
    and overhead :: nat
  assumes unseal_seal: "seal m aad key nonce = Some c \<Longrightarrow> unseal c aad key nonce = Some m"
    and unseal_sealed: "unseal c aad key nonce = Some m \<Longrightarrow> seal m aad key nonce = Some c"
    and length_seal: "seal m aad key nonce = Some c \<Longrightarrow> length c = length m + overhead"
begin

lemma unseal_iff: "unseal c aad key nonce = Some m \<longleftrightarrow> seal m aad key nonce = Some c"
  using unseal_seal unseal_sealed by blast

lemma seal_inj: "seal m aad key nonce = Some c \<Longrightarrow> seal m' aad key nonce = Some c \<Longrightarrow> m = m'"
  by (metis option.inject unseal_seal)

lemma length_unseal: "unseal c aad key nonce = Some m \<Longrightarrow> length c = length m + overhead"
  using unseal_sealed length_seal by blast

lemma unseal_rejects: "unseal c aad key nonce = None \<longleftrightarrow> (\<forall>m. seal m aad key nonce \<noteq> Some c)"
  using unseal_iff by (metis not_Some_eq)

lemma unseal_short: "length c < overhead \<Longrightarrow> unseal c aad key nonce = None"
  using length_unseal by (metis not_Some_eq le_add2 not_less)

end

text \<open>A difference accumulated by OR over XORs is zero exactly when the buffers agree.\<close>

lemma xor_zero_iff: "a XOR b = 0 \<longleftrightarrow> a = (b :: u8)"
  by (metis xor.assoc xor.left_neutral xor.right_neutral xor_self_eq)

lemma fold_diff_zero:
  "fold (\<lambda>i diff. diff OR (a ! i XOR b ! i)) is (d :: u8) = 0 \<longleftrightarrow> d = 0 \<and> (\<forall>i\<in>set is. a ! i = b ! i)"
  by (induction "is" arbitrary: d) (auto simp: or_eq_0_iff xor_zero_iff)

end
