(* ===== verification/Crypto_ChaCha20.thy ===== *)
theory Crypto_ChaCha20
  imports TL_Prelude
begin

unbundle bit_operations_syntax

text \<open>
  ChaCha20 as in \<open>crypto/chacha20.c\<close>: the lockstep quarter-round pairs on the sixteen
  state words, the block function with the feed-forward fused into the output, and the
  stream function with its two paths (fused word-aligned blocks, and keystream block plus
  byte XOR for the last partial block and for unaligned buffers).  The alignment of the
  buffers, which the code reads off their addresses, is an argument.
  The lemmas show that the lockstep pairs are RFC 8439's eight quarter rounds and that
  both paths XOR the input with the same key stream.
\<close>

section \<open>The block function\<close>

definition ROTL32 :: "u32 \<Rightarrow> nat \<Rightarrow> u32" where
  "ROTL32 v n = push_bit n v OR drop_bit (32 - n) v"

text \<open>The macros name state words; the state is the list of the sixteen words.\<close>

definition QR_STEP :: "nat \<Rightarrow> nat \<Rightarrow> nat \<Rightarrow> nat \<Rightarrow> nat \<Rightarrow> u32 list \<Rightarrow> u32 list" where
  "QR_STEP a b c d n x =
     (let x1 = x[a := x ! a + x ! b];
          x2 = x1[d := x1 ! d XOR x1 ! a]
      in x2[d := ROTL32 (x2 ! d) n])"

definition QR_STEP2 :: "nat \<Rightarrow> nat \<Rightarrow> nat \<Rightarrow> nat \<Rightarrow> nat \<Rightarrow> u32 list \<Rightarrow> u32 list" where
  "QR_STEP2 a b c d n x =
     (let x1 = x[c := x ! c + x ! d];
          x2 = x1[b := x1 ! b XOR x1 ! c]
      in x2[b := ROTL32 (x2 ! b) n])"

definition QR_PAIR :: "nat \<Rightarrow> nat \<Rightarrow> nat \<Rightarrow> nat \<Rightarrow> nat \<Rightarrow> nat \<Rightarrow> nat \<Rightarrow> nat \<Rightarrow> u32 list \<Rightarrow> u32 list" where
  "QR_PAIR a0 b0 c0 d0 a1 b1 c1 d1 x =
     (let x = QR_STEP a0 b0 c0 d0 16 x;  x = QR_STEP a1 b1 c1 d1 16 x;
          x = QR_STEP2 a0 b0 c0 d0 12 x; x = QR_STEP2 a1 b1 c1 d1 12 x;
          x = QR_STEP a0 b0 c0 d0 8 x;   x = QR_STEP a1 b1 c1 d1 8 x;
          x = QR_STEP2 a0 b0 c0 d0 7 x
      in QR_STEP2 a1 b1 c1 d1 7 x)"

definition double_round :: "u32 list \<Rightarrow> u32 list" where
  "double_round x =
     (let x = QR_PAIR 0 4 8 12 1 5 9 13 x;
          x = QR_PAIR 2 6 10 14 3 7 11 15 x;
          x = QR_PAIR 0 5 10 15 1 6 11 12 x
      in QR_PAIR 2 7 8 13 3 4 9 14 x)"

definition chacha20_block :: "u32 list option \<Rightarrow> u32 list \<Rightarrow> u32 list" where
  "chacha20_block inp st =
     (let x = (double_round ^^ 10) st
      in map (\<lambda>i. (case inp of Some w \<Rightarrow> w ! i | None \<Rightarrow> 0) XOR (x ! i + st ! i)) [0..<16])"

section \<open>The stream function\<close>

definition load32_le_unaligned :: "bytes \<Rightarrow> u32" where
  "load32_le_unaligned p =
     ucast (p ! 0) OR push_bit 8 (ucast (p ! 1)) OR push_bit 16 (ucast (p ! 2))
       OR push_bit 24 (ucast (p ! 3))"

definition store32_le_unaligned :: "u32 \<Rightarrow> bytes" where
  "store32_le_unaligned v =
     [ucast v, ucast (drop_bit 8 v), ucast (drop_bit 16 v), ucast (drop_bit 24 v)]"

text \<open>A word array read from and written to memory (little endian).\<close>

definition le_words :: "nat \<Rightarrow> bytes \<Rightarrow> u32 list" where
  "le_words n bs = map (\<lambda>i. le_word (bytes_at (4 * i) 4 bs)) [0..<n]"

definition word_bytes :: "u32 list \<Rightarrow> bytes" where
  "word_bytes ws = concat (map (le_bytes 4) ws)"

text \<open>
  \<open>xor_block_u32\<close>: whole words first, by aligned word access or by the byte-assembling
  helpers, then the bytes of the tail.
\<close>

definition xor_block_u32 :: "bool \<Rightarrow> bytes \<Rightarrow> u32 list \<Rightarrow> nat \<Rightarrow> bytes" where
  "xor_block_u32 aligned inp ks n =
     (let words = n div 4;
          head = (if aligned
                  then concat (map (\<lambda>w. le_bytes 4 (le_word (bytes_at (4 * w) 4 inp) XOR ks ! w)) [0..<words])
                  else concat (map (\<lambda>w. store32_le_unaligned
                                 (load32_le_unaligned (bytes_at (4 * w) 4 inp) XOR ks ! w)) [0..<words]))
      in head @ map (\<lambda>i. inp ! i XOR word_bytes ks ! i) [4 * words..<n])"

definition bump_counter :: "u32 list \<Rightarrow> u32 list" where
  "bump_counter st = st[12 := st ! 12 + 1]"

text \<open>The fused loop over full aligned blocks: state, output so far, rest of the input.\<close>

fun chacha20_fused :: "u32 list \<Rightarrow> bytes \<Rightarrow> u32 list \<times> bytes \<times> bytes" where
  "chacha20_fused st inp =
     (if length inp \<ge> 64
      then (let o1 = word_bytes (chacha20_block (Some (le_words 16 inp)) st);
                (st', o2, rest) = chacha20_fused (bump_counter st) (drop 64 inp)
            in (st', o1 @ o2, rest))
      else (st, [], inp))"

fun chacha20_tail :: "bool \<Rightarrow> u32 list \<Rightarrow> bytes \<Rightarrow> u32 list \<times> bytes" where
  "chacha20_tail aligned st inp =
     (if inp = [] then (st, [])
      else (let ks = chacha20_block None st;
                n = (if length inp < 64 then length inp else 64);
                o1 = xor_block_u32 aligned inp ks n;
                (st', o2) = chacha20_tail aligned (bump_counter st) (drop n inp)
            in (st', o1 @ o2)))"

definition chacha20 :: "bool \<Rightarrow> u32 list \<Rightarrow> bytes \<Rightarrow> u32 list \<times> bytes" where
  "chacha20 aligned st inp =
     (let (st1, o1, rest) = (if aligned then chacha20_fused st inp else (st, [], inp));
          (st2, o2) = chacha20_tail aligned st1 rest
      in (st2, o1 @ o2))"

definition chacha20_init :: "bytes \<Rightarrow> u64 \<Rightarrow> u32 list" where
  "chacha20_init key nonce =
     [0x61707865, 0x3320646e, 0x79622d32, 0x6b206574] @ le_words 8 key
       @ [0, 0, ucast (nonce AND 0xFFFFFFFF), ucast (drop_bit 32 nonce)]"

definition hchacha20 :: "bytes \<Rightarrow> bytes \<Rightarrow> bytes" where
  "hchacha20 nonce key =
     (let state = [0x61707865, 0x3320646e, 0x79622d32, 0x6b206574] @ le_words 8 key @ le_words 4 nonce;
          x = chacha20_block None state
      in word_bytes (map (\<lambda>i. x ! i - state ! i) [0, 1, 2, 3, 12, 13, 14, 15]))"

declare chacha20_fused.simps [simp del] chacha20_tail.simps [simp del]

section \<open>The lockstep rounds are the rounds of RFC 8439\<close>

text \<open>RFC 8439, section 2.1 and 2.2: the quarter round on words \<open>a b c d\<close> of the state.\<close>

definition quarter_round :: "nat \<Rightarrow> nat \<Rightarrow> nat \<Rightarrow> nat \<Rightarrow> u32 list \<Rightarrow> u32 list" where
  "quarter_round a b c d x =
     QR_STEP2 a b c d 7 (QR_STEP a b c d 8 (QR_STEP2 a b c d 12 (QR_STEP a b c d 16 x)))"

definition rfc_double_round :: "u32 list \<Rightarrow> u32 list" where
  "rfc_double_round x =
     (let x = quarter_round 0 4 8 12 x; x = quarter_round 1 5 9 13 x;
          x = quarter_round 2 6 10 14 x; x = quarter_round 3 7 11 15 x;
          x = quarter_round 0 5 10 15 x; x = quarter_round 1 6 11 12 x;
          x = quarter_round 2 7 8 13 x
      in quarter_round 3 4 9 14 x)"

lemma length_QR_STEP [simp]: "length (QR_STEP a b c d n x) = length x"
  by (simp add: QR_STEP_def Let_def)

lemma length_QR_STEP2 [simp]: "length (QR_STEP2 a b c d n x) = length x"
  by (simp add: QR_STEP2_def Let_def)

lemma length_double_round [simp]: "length (double_round x) = length x"
  by (simp add: double_round_def QR_PAIR_def Let_def)

lemma length_double_rounds [simp]: "length ((double_round ^^ n) x) = length x"
  by (induction n) simp_all

text \<open>Steps on disjoint sets of words commute.\<close>

definition disjoint4 :: "nat \<times> nat \<times> nat \<times> nat \<Rightarrow> nat \<times> nat \<times> nat \<times> nat \<Rightarrow> bool" where
  "disjoint4 p q = (case p of (a, b, c, d) \<Rightarrow> case q of (a', b', c', d') \<Rightarrow>
     {a, b, c, d} \<inter> {a', b', c', d'} = {})"

lemma QR_STEP_eq: "a \<noteq> d \<Longrightarrow> a < length x \<Longrightarrow> d < length x \<Longrightarrow>
   QR_STEP a b c d n x = x[a := x ! a + x ! b, d := ROTL32 (x ! d XOR (x ! a + x ! b)) n]"
  by (simp add: QR_STEP_def Let_def)

lemma QR_STEP2_eq: "b \<noteq> c \<Longrightarrow> b < length x \<Longrightarrow> c < length x \<Longrightarrow>
   QR_STEP2 a b c d n x = x[c := x ! c + x ! d, b := ROTL32 (x ! b XOR (x ! c + x ! d)) n]"
  by (simp add: QR_STEP2_def Let_def)

lemma update4_commute:
  assumes "i \<noteq> k" "i \<noteq> l" "j \<noteq> k" "j \<noteq> l"
  shows "xs[i := u, j := v, k := p, l := q] = xs[k := p, l := q, i := u, j := v]"
  using assms by (metis list_update_swap)

lemma QR_commute:
  assumes "disjoint4 (a, b, c, d) (a', b', c', d')" "distinct [a, b, c, d]" "distinct [a', b', c', d']"
    "list_all (\<lambda>i. i < length x) [a, b, c, d, a', b', c', d']"
  shows "QR_STEP a' b' c' d' m (QR_STEP a b c d n x) = QR_STEP a b c d n (QR_STEP a' b' c' d' m x)"
    "QR_STEP a' b' c' d' m (QR_STEP2 a b c d n x) = QR_STEP2 a b c d n (QR_STEP a' b' c' d' m x)"
    "QR_STEP2 a' b' c' d' m (QR_STEP2 a b c d n x) = QR_STEP2 a b c d n (QR_STEP2 a' b' c' d' m x)"
  using assms
  by (simp_all add: QR_STEP_eq QR_STEP2_eq disjoint4_def nth_list_update update4_commute eq_commute)

lemma QR_PAIR_quarter_rounds:
  assumes "disjoint4 (a, b, c, d) (a', b', c', d')" "distinct [a, b, c, d]" "distinct [a', b', c', d']"
    "list_all (\<lambda>i. i < length x) [a, b, c, d, a', b', c', d']"
  shows "QR_PAIR a b c d a' b' c' d' x = quarter_round a' b' c' d' (quarter_round a b c d x)"
proof -
  have sym: "disjoint4 (a', b', c', d') (a, b, c, d)"
    using assms(1) by (auto simp: disjoint4_def)
  note comm = QR_commute [OF assms(1-3), symmetric] QR_commute(2) [OF sym assms(3,2)]
  show ?thesis
    unfolding QR_PAIR_def quarter_round_def Let_def
    using assms(4) by (simp add: comm)
qed

lemma double_round_rfc: "length x = 16 \<Longrightarrow> double_round x = rfc_double_round x"
  by (simp add: double_round_def rfc_double_round_def Let_def QR_PAIR_quarter_rounds disjoint4_def
        quarter_round_def)

lemma length_rfc_double_rounds [simp]: "length ((rfc_double_round ^^ n) x) = length x"
  by (induction n) (simp_all add: rfc_double_round_def quarter_round_def Let_def)

lemma double_rounds_rfc: "length x = 16 \<Longrightarrow> (double_round ^^ n) x = (rfc_double_round ^^ n) x"
proof (induction n)
  case (Suc n)
  then show ?case using double_round_rfc [of "(rfc_double_round ^^ n) x"] by simp
qed simp

section \<open>Both paths XOR the same key stream\<close>

text \<open>The key stream: block \<open>j\<close> is the block function at counter word plus \<open>j\<close>.\<close>

definition keystream_block :: "u32 list \<Rightarrow> bytes" where
  "keystream_block st = word_bytes (chacha20_block None st)"

fun keystream :: "u32 list \<Rightarrow> nat \<Rightarrow> bytes" where
  "keystream st 0 = []"
| "keystream st (Suc n) = keystream_block st @ keystream (bump_counter st) n"

definition xor_bytes :: "bytes \<Rightarrow> bytes \<Rightarrow> bytes" where
  "xor_bytes = map2 (XOR)"

definition blocks_of :: "nat \<Rightarrow> nat" where
  "blocks_of n = (n + 63) div 64"

lemma length_chacha20_block [simp]: "length (chacha20_block inp st) = 16"
  by (simp add: chacha20_block_def Let_def)

lemma length_word_bytes [simp]: "length (word_bytes ws) = 4 * length ws"
  by (induction ws) (simp_all add: word_bytes_def)

lemma length_keystream_block [simp]: "length (keystream_block st) = 64"
  by (simp add: keystream_block_def)

lemma length_keystream [simp]: "length (keystream st n) = 64 * n"
  by (induction n arbitrary: st) simp_all

lemma length_le_words [simp]: "length (le_words n bs) = n"
  by (simp add: le_words_def)

lemma length_xor_bytes [simp]: "length (xor_bytes a b) = min (length a) (length b)"
  by (simp add: xor_bytes_def)

lemma xor_bytes_append:
  "length a = length c \<Longrightarrow> xor_bytes (a @ b) (c @ d) = xor_bytes a c @ xor_bytes b d"
  by (simp add: xor_bytes_def)

lemma xor_bytes_twice: "length m \<le> length k \<Longrightarrow> xor_bytes (xor_bytes m k) k = m"
  by (rule nth_equalityI) (simp_all add: xor_bytes_def ac_simps)

lemma nth_word_bytes: "i < 4 * length ws \<Longrightarrow> word_bytes ws ! i = le_bytes 4 (ws ! (i div 4)) ! (i mod 4)"
proof (induction ws arbitrary: i)
  case (Cons w ws)
  show ?case
  proof (cases "i < 4")
    case True
    then show ?thesis by (simp add: word_bytes_def nth_append)
  next
    case False
    then obtain j where "i = j + 4" using le_Suc_ex [of 4 i] by (auto simp: add.commute)
    moreover from this have "i div 4 = Suc (j div 4)" by simp
    ultimately show ?thesis using Cons by (simp add: word_bytes_def nth_append)
  qed
qed simp

lemma nth_le_bytes: "i < n \<Longrightarrow> le_bytes n v ! i = ucast (drop_bit (8 * i) v)"
  by (simp add: le_bytes_def)

lemma nth_le_bytes_xor:
  "i < n \<Longrightarrow> le_bytes n (v XOR w) ! i = le_bytes n v ! i XOR le_bytes n (w :: 'a::len word) ! i"
  by (simp add: nth_le_bytes) (rule bit_word_eqI, auto simp: bit_xor_iff bit_ucast_iff bit_drop_bit_eq)

lemma load32_eq: "length p = 4 \<Longrightarrow> load32_le_unaligned p = le_word p"
  by (auto simp: load32_le_unaligned_def length_Suc_conv eval_nat_numeral push_bit_or or.assoc)

lemma store32_eq: "store32_le_unaligned v = le_bytes 4 v"
  by (simp add: store32_le_unaligned_def le_bytes_def upt_rec)

lemma nth_le_bytes_le_word:
  "length p = 4 \<Longrightarrow> i < 4 \<Longrightarrow> le_bytes 4 (le_word p :: u32) ! i = p ! i"
  using le_bytes_le_word [of p, where 'a = 32] by simp

lemma nth_concat_map_le_bytes:
  assumes "i < 4 * k"
  shows "concat (map (\<lambda>w. le_bytes 4 (f w)) [0..<k]) ! i = le_bytes 4 (f (i div 4) :: u32) ! (i mod 4)"
  using nth_word_bytes [of i "map f [0..<k]"] assms by (simp add: word_bytes_def comp_def)

lemma xor_block_u32_eq:
  assumes "n \<le> length inp" "n \<le> 64" "length ks = 16"
  shows "xor_block_u32 aligned inp ks n = xor_bytes (take n inp) (word_bytes ks)"
proof -
  let ?k = "n div 4"
  let ?head = "concat (map (\<lambda>w. le_bytes 4 (le_word (bytes_at (4 * w) 4 inp) XOR ks ! w)) [0..<?k])"
  have sl: "length (bytes_at (4 * w) 4 inp) = 4" if "w < ?k" for w
    using that assms(1) by simp
  have unal: "concat (map (\<lambda>w. store32_le_unaligned
      (load32_le_unaligned (bytes_at (4 * w) 4 inp) XOR ks ! w)) [0..<?k]) = ?head"
    by (intro arg_cong [of _ _ concat] map_cong) (simp_all add: load32_eq [OF sl] store32_eq)
  have len: "length ?head = 4 * ?k"
    using length_word_bytes [of "map (\<lambda>w. le_word (bytes_at (4 * w) 4 inp) XOR ks ! w) [0..<?k]"]
    by (simp add: word_bytes_def comp_def)
  have head: "?head ! i = inp ! i XOR word_bytes ks ! i" if i: "i < 4 * ?k" for i
  proof -
    have d: "i div 4 < ?k" using i by (simp add: less_mult_imp_div_less mult.commute)
    have "?head ! i = bytes_at (4 * (i div 4)) 4 inp ! (i mod 4) XOR le_bytes 4 (ks ! (i div 4)) ! (i mod 4)"
      using i d by (simp add: nth_concat_map_le_bytes nth_le_bytes_xor nth_le_bytes_le_word [OF sl])
    also have "bytes_at (4 * (i div 4)) 4 inp ! (i mod 4) = inp ! i"
      using i assms(1) by (subst nth_bytes_at) simp_all
    also have "le_bytes 4 (ks ! (i div 4)) ! (i mod 4) = word_bytes ks ! i"
      using i assms(2,3) by (simp add: nth_word_bytes)
    finally show ?thesis .
  qed
  have "xor_block_u32 aligned inp ks n = ?head @ map (\<lambda>i. inp ! i XOR word_bytes ks ! i) [4 * ?k..<n]"
    by (simp add: xor_block_u32_def Let_def unal)
  also have "\<dots> = xor_bytes (take n inp) (word_bytes ks)"
  proof (rule nth_equalityI)
    show "length (?head @ map (\<lambda>i. inp ! i XOR word_bytes ks ! i) [4 * ?k..<n])
        = length (xor_bytes (take n inp) (word_bytes ks))"
      using assms by (simp add: len)
    fix i
    assume "i < length (?head @ map (\<lambda>i. inp ! i XOR word_bytes ks ! i) [4 * ?k..<n])"
    then have "i < n" by (simp add: len)
    then show "(?head @ map (\<lambda>i. inp ! i XOR word_bytes ks ! i) [4 * ?k..<n]) ! i
        = xor_bytes (take n inp) (word_bytes ks) ! i"
      using assms nth_upt [of "4 * ?k" "i - 4 * ?k" n]
      by (cases "i < 4 * ?k") (simp_all add: nth_append len head xor_bytes_def not_less)
  qed
  finally show ?thesis .
qed

lemma fused_block_eq:
  assumes "64 \<le> length inp" "length st = 16"
  shows "word_bytes (chacha20_block (Some (le_words 16 inp)) st) = xor_bytes (take 64 inp) (keystream_block st)"
proof (rule nth_equalityI)
  show "length (word_bytes (chacha20_block (Some (le_words 16 inp)) st))
      = length (xor_bytes (take 64 inp) (keystream_block st))"
    using assms by simp
  fix i
  assume "i < length (word_bytes (chacha20_block (Some (le_words 16 inp)) st))"
  then have i: "i < 64" by simp
  then have d: "i div 4 < 16" by simp
  have "le_bytes 4 (le_words 16 inp ! (i div 4)) ! (i mod 4) = bytes_at (4 * (i div 4)) 4 inp ! (i mod 4)"
    using assms d by (simp add: le_words_def nth_le_bytes_le_word)
  also have "\<dots> = inp ! i"
    using assms i by (subst nth_bytes_at) simp_all
  finally show "word_bytes (chacha20_block (Some (le_words 16 inp)) st) ! i
      = xor_bytes (take 64 inp) (keystream_block st) ! i"
    using assms i d
    by (simp add: nth_word_bytes keystream_block_def xor_bytes_def chacha20_block_def Let_def
          nth_le_bytes_xor)
qed

lemma length_bump [simp]: "length (bump_counter st) = length st"
  by (simp add: bump_counter_def)

lemma chacha20_tail_eq:
  "length st = 16 \<Longrightarrow> chacha20_tail aligned st inp =
     ((bump_counter ^^ blocks_of (length inp)) st, xor_bytes inp (keystream st (blocks_of (length inp))))"
proof (induction aligned st inp rule: chacha20_tail.induct)
  case (1 aligned st inp)
  show ?case
  proof (cases "inp = []")
    case True
    then show ?thesis by (simp add: chacha20_tail.simps blocks_of_def xor_bytes_def)
  next
    case False
    let ?n = "if length inp < 64 then length inp else 64"
    have o1: "xor_block_u32 aligned inp (chacha20_block None st) ?n = xor_bytes (take ?n inp) (keystream_block st)"
      by (simp add: xor_block_u32_eq keystream_block_def)
    have bl: "blocks_of (length inp) = Suc (blocks_of (length (drop ?n inp)))"
      using False by (cases "length inp < 64") (auto simp: blocks_of_def neq_Nil_conv)
    have rec: "chacha20_tail aligned (bump_counter st) (drop ?n inp) =
        ((bump_counter ^^ blocks_of (length (drop ?n inp))) (bump_counter st),
         xor_bytes (drop ?n inp) (keystream (bump_counter st) (blocks_of (length (drop ?n inp)))))"
      using "1.IH" [OF False refl refl refl] "1.prems" by simp
    have split: "xor_bytes (take ?n inp) (keystream_block st)
        @ xor_bytes (drop ?n inp) (keystream (bump_counter st) k) =
        xor_bytes inp (keystream_block st @ keystream (bump_counter st) k)" for k
    proof (cases "length inp < 64")
      case True
      then show ?thesis by (simp add: xor_bytes_def zip_append2)
    next
      case False
      then show ?thesis
        using xor_bytes_append [of "take 64 inp" "keystream_block st" "drop 64 inp"] by simp
    qed
    show ?thesis
      using False o1 rec split
      by (simp add: chacha20_tail.simps [of aligned st inp] Let_def bl funpow_swap1 split del: if_split)
  qed
qed

lemma chacha20_fused_eq:
  "length st = 16 \<Longrightarrow> chacha20_fused st inp =
     (let k = length inp div 64
      in ((bump_counter ^^ k) st, xor_bytes (take (64 * k) inp) (keystream st k), drop (64 * k) inp))"
proof (induction st inp rule: chacha20_fused.induct)
  case (1 st inp)
  show ?case
  proof (cases "length inp \<ge> 64")
    case False
    then show ?thesis by (simp add: chacha20_fused.simps xor_bytes_def)
  next
    case True
    define k where "k = length (drop 64 inp) div 64"
    have k: "length inp div 64 = Suc k"
      using True by (simp add: k_def le_div_geq)
    have rec: "chacha20_fused (bump_counter st) (drop 64 inp) =
        ((bump_counter ^^ k) (bump_counter st), xor_bytes (take (64 * k) (drop 64 inp)) (keystream (bump_counter st) k),
         drop (64 * k) (drop 64 inp))"
      using "1.IH" [OF True refl] "1.prems" by (simp add: k_def Let_def)
    have "64 * k \<le> length inp - 64" by (simp add: k_def)
    then have "xor_bytes (take 64 inp) (keystream_block st)
        @ xor_bytes (take (64 * k) (drop 64 inp)) (keystream (bump_counter st) k)
        = xor_bytes (take (64 * Suc k) inp) (keystream st (Suc k))"
      using True xor_bytes_append [of "take 64 inp" "keystream_block st" "take (64 * k) (drop 64 inp)"]
      by (simp add: take_add)
    then show ?thesis
      using True "1.prems" fused_block_eq [OF True "1.prems"] rec
      by (simp add: chacha20_fused.simps [of st inp] k Let_def funpow_swap1 add.commute)
  qed
qed

lemma keystream_add: "keystream st (m + n) = keystream st m @ keystream ((bump_counter ^^ m) st) n"
  by (induction m arbitrary: st) (simp_all add: funpow_swap1)

lemma length_funpow_bump [simp]: "length ((bump_counter ^^ n) st) = length st"
  by (induction n) simp_all

lemma chacha20_eq:
  assumes "length st = 16"
  shows "chacha20 aligned st inp =
     ((bump_counter ^^ blocks_of (length inp)) st, xor_bytes inp (keystream st (blocks_of (length inp))))"
proof (cases aligned)
  case False
  then show ?thesis using assms by (simp add: chacha20_def chacha20_tail_eq)
next
  case True
  let ?k = "length inp div 64"
  let ?rest = "drop (64 * ?k) inp"
  have bl: "blocks_of (length inp) = ?k + blocks_of (length ?rest)"
    by (simp add: blocks_of_def)
  have "xor_bytes (take (64 * ?k) inp) (keystream st ?k)
      @ xor_bytes ?rest (keystream ((bump_counter ^^ ?k) st) (blocks_of (length ?rest)))
      = xor_bytes inp (keystream st (blocks_of (length inp)))"
    unfolding bl keystream_add
    using xor_bytes_append [of "take (64 * ?k) inp" "keystream st ?k" ?rest] by simp
  moreover have "(bump_counter ^^ blocks_of (length inp)) st
      = (bump_counter ^^ blocks_of (length ?rest)) ((bump_counter ^^ ?k) st)"
    by (simp only: bl add.commute [of ?k] funpow_add o_apply)
  ultimately show ?thesis
    using True assms by (simp add: chacha20_def chacha20_fused_eq chacha20_tail_eq Let_def)
qed

lemma length_chacha20_init [simp]: "length (chacha20_init key nonce) = 16"
  by (simp add: chacha20_init_def)

lemma length_chacha20 [simp]: "length st = 16 \<Longrightarrow> length (snd (chacha20 aligned st inp)) = length inp"
  by (simp add: chacha20_eq blocks_of_def)

section \<open>Properties\<close>

text \<open>C32: \<open>chacha20()\<close> is the ChaCha20 stream cipher of RFC 8439 on every path: for aligned
  and unaligned buffers and every length, the output is the input XORed with the key
  stream, whose block \<open>j\<close> is the serialised sum of the state and its image under ten
  double rounds of eight RFC quarter rounds, at counter word plus \<open>j\<close>; the counter word
  is left advanced by the number of blocks used.\<close>

theorem chacha20_is_rfc8439:
  assumes "length st = 16"
  shows "chacha20 aligned st inp =
           ((bump_counter ^^ blocks_of (length inp)) st,
            xor_bytes inp (keystream st (blocks_of (length inp))))
         \<and> keystream_block st = word_bytes (map2 (+) ((rfc_double_round ^^ 10) st) st)"
proof (rule conjI)
  show "chacha20 aligned st inp = ((bump_counter ^^ blocks_of (length inp)) st,
            xor_bytes inp (keystream st (blocks_of (length inp))))"
    by (rule chacha20_eq [OF assms])
  have "chacha20_block None st = map2 (+) ((rfc_double_round ^^ 10) st) st"
    using assms by (intro nth_equalityI)
      (simp_all add: chacha20_block_def Let_def double_rounds_rfc del: funpow.simps)
  then show "keystream_block st = word_bytes (map2 (+) ((rfc_double_round ^^ 10) st) st)"
    by (simp add: keystream_block_def)
qed

theorem chacha20_is_rfc8439_witness:
  "chacha20 True (chacha20_init (replicate 32 7) 9) [1, 2, 3]
     = chacha20 False (chacha20_init (replicate 32 7) 9) [1, 2, 3]"
  unfolding chacha20_is_rfc8439 [OF length_chacha20_init, THEN conjunct1] by (rule refl)

text \<open>The test vector of RFC 8439, section 2.1.1, for the quarter round.\<close>

lemma quarter_round_rfc_vector:
  "quarter_round 0 1 2 3 [0x11111111, 0x01020304, 0x9b8d6f43, 0x01234567]
     = [0xea2a92f4, 0xcb1cf8ce, 0x4581472e, 0x5881c4bb]"
  by (simp add: quarter_round_def QR_STEP_def QR_STEP2_def ROTL32_def)

end
