(* ===== verification/Crypto_Poly1305.thy ===== *)
theory Crypto_Poly1305
  imports TL_Prelude
begin

unbundle bit_operations_syntax

text \<open>
  Poly1305 as in \<open>crypto/poly1305_donna_32.h\<close> and \<open>poly1305_donna.c\<close>: five 26-bit limbs in
  32-bit words (\<open>unsigned long\<close> on the target), the products split at bit 26 so that no
  64-bit addition is needed, the branch-free reduction and the carry chain of the final
  addition, and the buffering of the streaming interface.
  The lemmas show that no 32-bit accumulator overflows and that the tag is RFC 8439's
  polynomial modulo \<open>2 ^ 130 - 5\<close>, however the message is cut into updates.
\<close>

section \<open>The code\<close>

record poly1305_state =
  p_r :: "u32 list"
  p_h :: "u32 list"
  p_pad :: "u32 list"
  p_buffer :: bytes      \<comment> \<open>the \<open>leftover\<close> bytes of \<open>buffer\<close>\<close>
  p_final :: bool

definition U8TO32 :: "bytes \<Rightarrow> u32" where
  "U8TO32 p = ucast (p ! 0) OR push_bit 8 (ucast (p ! 1)) OR push_bit 16 (ucast (p ! 2))
                OR push_bit 24 (ucast (p ! 3))"

text \<open>The load for a pointer the caller has checked to be aligned; \<open>poly1305_blocks\<close> picks one of
  the two by the address of the block (\<open>U8TO32_ALIGNED_eq\<close>: they read the same word).\<close>

definition U8TO32_ALIGNED :: "bytes \<Rightarrow> u32" where
  "U8TO32_ALIGNED p = le_word (take 4 p)"

definition U32TO8 :: "u32 \<Rightarrow> bytes" where
  "U32TO8 v = [ucast (v AND 0xff), ucast (drop_bit 8 v AND 0xff), ucast (drop_bit 16 v AND 0xff),
               ucast (drop_bit 24 v AND 0xff)]"

definition poly1305_init :: "bytes \<Rightarrow> poly1305_state" where
  "poly1305_init key =
     (let t0 = U8TO32 (bytes_at 0 4 key); t1 = U8TO32 (bytes_at 4 4 key);
          t2 = U8TO32 (bytes_at 8 4 key); t3 = U8TO32 (bytes_at 12 4 key)
      in \<lparr>p_r = [t0 AND 0x3ffffff,
                 (drop_bit 26 t0 OR push_bit 6 t1) AND 0x3ffff03,
                 (drop_bit 20 t1 OR push_bit 12 t2) AND 0x3ffc0ff,
                 (drop_bit 14 t2 OR push_bit 18 t3) AND 0x3f03fff,
                 drop_bit 8 t3 AND 0x00fffff],
          p_h = [0, 0, 0, 0, 0],
          p_pad = [U8TO32 (bytes_at 16 4 key), U8TO32 (bytes_at 20 4 key),
                   U8TO32 (bytes_at 24 4 key), U8TO32 (bytes_at 28 4 key)],
          p_buffer = [], p_final = False\<rparr>)"

definition POLY_MASK26 :: u32 where
  "POLY_MASK26 = 0x3ffffff"

text \<open>\<open>POLY_P26(a, b, L, H)\<close>: the 64-bit product, split at bit 26.\<close>

definition POLY_P26 :: "u32 \<Rightarrow> u32 \<Rightarrow> u32 \<times> u32 \<Rightarrow> u32 \<times> u32" where
  "POLY_P26 a b = (\<lambda>(L, H).
     let p = (ucast a * ucast b :: u64)
     in (L + (ucast p AND POLY_MASK26), H + ucast (drop_bit 26 p)))"

definition poly_limb :: "(u32 \<times> u32) list \<Rightarrow> u32 \<times> u32" where
  "poly_limb ps = fold (\<lambda>(a, b). POLY_P26 a b) ps (0, 0)"

text \<open>The carry chain of the partial reduction, from the five accumulator pairs.\<close>

definition poly_reduce :: "u32 \<times> u32 \<Rightarrow> u32 \<times> u32 \<Rightarrow> u32 \<times> u32 \<Rightarrow> u32 \<times> u32 \<Rightarrow> u32 \<times> u32 \<Rightarrow> u32 list" where
  "poly_reduce d0 d1 d2 d3 d4 =
     (let (L0, H0) = d0; (L1, H1) = d1; (L2, H2) = d2; (L3, H3) = d3; (L4, H4) = d4;
          c = H0 + drop_bit 26 L0; h0 = L0 AND POLY_MASK26;
          L1 = L1 + (c AND POLY_MASK26); H1 = H1 + drop_bit 26 c;
          c = H1 + drop_bit 26 L1; h1 = L1 AND POLY_MASK26;
          L2 = L2 + (c AND POLY_MASK26); H2 = H2 + drop_bit 26 c;
          c = H2 + drop_bit 26 L2; h2 = L2 AND POLY_MASK26;
          L3 = L3 + (c AND POLY_MASK26); H3 = H3 + drop_bit 26 c;
          c = H3 + drop_bit 26 L3; h3 = L3 AND POLY_MASK26;
          L4 = L4 + (c AND POLY_MASK26); H4 = H4 + drop_bit 26 c;
          c = H4 + drop_bit 26 L4; h4 = L4 AND POLY_MASK26;
          h0 = h0 + c * 5; c = drop_bit 26 h0; h0 = h0 AND POLY_MASK26;
          h1 = h1 + c
      in [h0, h1, h2, h3, h4])"

text \<open>\<open>h *= r\<close> (mod \<open>2 ^ 130 - 5\<close>) in radix \<open>2 ^ 26\<close>.\<close>

definition poly_mul :: "u32 list \<Rightarrow> u32 list \<Rightarrow> u32 list" where
  "poly_mul r h =
     (let r0 = r ! 0; r1 = r ! 1; r2 = r ! 2; r3 = r ! 3; r4 = r ! 4;
          s1 = r1 * 5; s2 = r2 * 5; s3 = r3 * 5; s4 = r4 * 5;
          h0 = h ! 0; h1 = h ! 1; h2 = h ! 2; h3 = h ! 3; h4 = h ! 4
      in poly_reduce
          (poly_limb [(h0, r0), (h1, s4), (h2, s3), (h3, s2), (h4, s1)])
          (poly_limb [(h0, r1), (h1, r0), (h2, s4), (h3, s3), (h4, s2)])
          (poly_limb [(h0, r2), (h1, r1), (h2, r0), (h3, s4), (h4, s3)])
          (poly_limb [(h0, r3), (h1, r2), (h2, r1), (h3, r0), (h4, s4)])
          (poly_limb [(h0, r4), (h1, r3), (h2, r2), (h3, r1), (h4, r0)]))"

text \<open>One 16-byte block: add it to \<open>h\<close>, multiply by \<open>r\<close>.\<close>

definition poly_add :: "u32 \<Rightarrow> u32 list \<Rightarrow> bytes \<Rightarrow> u32 list" where
  "poly_add hibit h m =
     (let t0 = U8TO32 (bytes_at 0 4 m); t1 = U8TO32 (bytes_at 4 4 m);
          t2 = U8TO32 (bytes_at 8 4 m); t3 = U8TO32 (bytes_at 12 4 m)
      in [h ! 0 + (t0 AND 0x3ffffff),
          h ! 1 + ((drop_bit 26 t0 OR push_bit 6 t1) AND 0x3ffffff),
          h ! 2 + ((drop_bit 20 t1 OR push_bit 12 t2) AND 0x3ffffff),
          h ! 3 + ((drop_bit 14 t2 OR push_bit 18 t3) AND 0x3ffffff),
          h ! 4 + (drop_bit 8 t3 OR hibit)])"

definition poly_block :: "u32 list \<Rightarrow> u32 \<Rightarrow> u32 list \<Rightarrow> bytes \<Rightarrow> u32 list" where
  "poly_block r hibit h m = poly_mul r (poly_add hibit h m)"

fun poly_blocks_loop :: "u32 list \<Rightarrow> u32 \<Rightarrow> u32 list \<Rightarrow> bytes \<Rightarrow> u32 list" where
  "poly_blocks_loop r hibit h m =
     (if length m \<ge> 16 then poly_blocks_loop r hibit (poly_block r hibit h m) (drop 16 m) else h)"

definition poly1305_blocks :: "poly1305_state \<Rightarrow> bytes \<Rightarrow> poly1305_state" where
  "poly1305_blocks st m =
     (let hibit = (if p_final st then 0 else push_bit 24 1)
      in st\<lparr>p_h := poly_blocks_loop (p_r st) hibit (p_h st) m\<rparr>)"

definition poly1305_update :: "poly1305_state \<Rightarrow> bytes \<Rightarrow> poly1305_state" where
  "poly1305_update st m =
     (let want = (if p_buffer st \<noteq> [] then min (16 - length (p_buffer st)) (length m) else 0);
          buf = p_buffer st @ take want m;
          m1 = drop want m
      in if p_buffer st \<noteq> [] \<and> length buf < 16 then st\<lparr>p_buffer := buf\<rparr>
         else let st1 = (if p_buffer st \<noteq> [] then (poly1305_blocks st buf)\<lparr>p_buffer := []\<rparr> else st);
                  full = 16 * (length m1 div 16);
                  st2 = (if length m1 \<ge> 16 then poly1305_blocks st1 (take full m1) else st1)
              in st2\<lparr>p_buffer := drop full m1\<rparr>)"

definition poly_carry :: "u32 \<Rightarrow> u32 \<Rightarrow> u32 \<Rightarrow> u32" where
  "poly_carry a b sm = drop_bit 31 ((a AND b) OR ((a OR b) AND NOT sm))"

text \<open>\<open>poly1305_finish\<close>, in the four stages its comments name.  "Fully carry h":\<close>

definition poly_full_carry :: "u32 list \<Rightarrow> u32 list" where
  "poly_full_carry h =
     (let h0 = h ! 0; h1 = h ! 1; h2 = h ! 2; h3 = h ! 3; h4 = h ! 4;
          c = drop_bit 26 h1; h1 = h1 AND 0x3ffffff;
          h2 = h2 + c; c = drop_bit 26 h2; h2 = h2 AND 0x3ffffff;
          h3 = h3 + c; c = drop_bit 26 h3; h3 = h3 AND 0x3ffffff;
          h4 = h4 + c; c = drop_bit 26 h4; h4 = h4 AND 0x3ffffff;
          h0 = h0 + c * 5; c = drop_bit 26 h0; h0 = h0 AND 0x3ffffff;
          h1 = h1 + c
      in [h0, h1, h2, h3, h4])"

text \<open>"Compute h + -p" and "select h if h < p, or h + -p if h >= p":\<close>

definition poly_select :: "u32 list \<Rightarrow> u32 list" where
  "poly_select h =
     (let h0 = h ! 0; h1 = h ! 1; h2 = h ! 2; h3 = h ! 3; h4 = h ! 4;
          g0 = h0 + 5; c = drop_bit 26 g0; g0 = g0 AND 0x3ffffff;
          g1 = h1 + c; c = drop_bit 26 g1; g1 = g1 AND 0x3ffffff;
          g2 = h2 + c; c = drop_bit 26 g2; g2 = g2 AND 0x3ffffff;
          g3 = h3 + c; c = drop_bit 26 g3; g3 = g3 AND 0x3ffffff;
          g4 = h4 + c - push_bit 26 1;
          mask = drop_bit 31 g4 - 1;
          g0 = g0 AND mask; g1 = g1 AND mask; g2 = g2 AND mask; g3 = g3 AND mask; g4 = g4 AND mask;
          mask = NOT mask
      in [(h0 AND mask) OR g0, (h1 AND mask) OR g1, (h2 AND mask) OR g2,
          (h3 AND mask) OR g3, (h4 AND mask) OR g4])"

text \<open>"h = h % (2^128)": five limbs to four words.\<close>

definition poly_pack :: "u32 list \<Rightarrow> u32 list" where
  "poly_pack h =
     (let h0 = h ! 0; h1 = h ! 1; h2 = h ! 2; h3 = h ! 3; h4 = h ! 4
      in [(h0 OR push_bit 26 h1) AND 0xffffffff,
          (drop_bit 6 h1 OR push_bit 20 h2) AND 0xffffffff,
          (drop_bit 12 h2 OR push_bit 14 h3) AND 0xffffffff,
          (drop_bit 18 h3 OR push_bit 8 h4) AND 0xffffffff])"

text \<open>"mac = (h + pad) % (2^128)", without a 64-bit addition.\<close>

definition poly_add_pad :: "u32 list \<Rightarrow> u32 list \<Rightarrow> u32 list" where
  "poly_add_pad h pad =
     (let a = h ! 0; b = pad ! 0; sm = a + b; carry = poly_carry a b sm; h0 = sm;
          a = h ! 1; b = pad ! 1; sm = a + b + carry; carry = poly_carry a b sm; h1 = sm;
          a = h ! 2; b = pad ! 2; sm = a + b + carry; carry = poly_carry a b sm; h2 = sm;
          a = h ! 3; b = pad ! 3; sm = a + b + carry; h3 = sm
      in [h0, h1, h2, h3])"

definition poly_finish_words :: "u32 list \<Rightarrow> u32 list \<Rightarrow> u32 list" where
  "poly_finish_words h pad = poly_add_pad (poly_pack (poly_select (poly_full_carry h))) pad"

text \<open>The tag, and the state with its secrets zeroed.\<close>

definition poly1305_finish :: "poly1305_state \<Rightarrow> bytes \<times> poly1305_state" where
  "poly1305_finish st =
     (let st1 = (if p_buffer st \<noteq> []
                 then poly1305_blocks (st\<lparr>p_final := True\<rparr>)
                        (p_buffer st @ [1] @ replicate (16 - length (p_buffer st) - 1) 0)
                 else st);
          mac = concat (map U32TO8 (poly_finish_words (p_h st1) (p_pad st1)))
      in (mac, st1\<lparr>p_h := [0, 0, 0, 0, 0], p_r := [0, 0, 0, 0, 0], p_pad := [0, 0, 0, 0]\<rparr>))"

declare poly_blocks_loop.simps [simp del]

section \<open>Words as numbers\<close>

lemma unat_and_mask26: "unat (x AND 0x3ffffff :: u32) = unat x mod 2 ^ 26"
  by (rule unat_and_mask_eq) (simp add: mask_eq_exp_minus_1)

lemma unat_add32: "unat a + unat b < 2 ^ 32 \<Longrightarrow> unat (a + b :: u32) = unat a + unat b"
  by (simp add: unat_word_ariths)

lemma unat_mult32: "unat a * k < 2 ^ 32 \<Longrightarrow> k < 2 ^ 32 \<Longrightarrow> unat (a * of_nat k :: u32) = unat a * k"
  by (simp add: unat_word_ariths unat_of_nat)

lemma unat_push_bit32: "unat (push_bit n x :: u32) = (unat x * 2 ^ n) mod 2 ^ 32"
  by (simp only: unat_push_bit len_num1 len_bit0) simp

lemma product_split:
  fixes a b :: u32
  assumes "unat a * unat b < 2 ^ 58"
  shows "unat (ucast (ucast a * ucast b :: u64) AND POLY_MASK26 :: u32) = (unat a * unat b) mod 2 ^ 26"
    and "unat (ucast (drop_bit 26 (ucast a * ucast b :: u64)) :: u32) = (unat a * unat b) div 2 ^ 26"
proof -
  have p: "unat (ucast a * ucast b :: u64) = unat a * unat b"
    using assms u32_bound [of a] u32_bound [of b] by (simp add: unat_word_ariths unat_ucast_mod)
  show "unat (ucast (ucast a * ucast b :: u64) AND POLY_MASK26 :: u32) = (unat a * unat b) mod 2 ^ 26"
    unfolding POLY_MASK26_def unat_and_mask26
    by (simp add: unat_ucast_mod p mod_mod_cancel)
  have "(unat a * unat b) div 2 ^ 26 < 2 ^ 32"
    using assms by (intro less_mult_imp_div_less) simp
  then show "unat (ucast (drop_bit 26 (ucast a * ucast b :: u64)) :: u32) = (unat a * unat b) div 2 ^ 26"
    by (simp add: unat_ucast_mod unat_drop_bit p)
qed

section \<open>Sums of split products\<close>

definition prod_mod :: "(u32 \<times> u32) list \<Rightarrow> nat" where
  "prod_mod ps = sum_list (map (\<lambda>(a, b). (unat a * unat b) mod 2 ^ 26) ps)"

definition prod_div :: "(u32 \<times> u32) list \<Rightarrow> nat" where
  "prod_div ps = sum_list (map (\<lambda>(a, b). (unat a * unat b) div 2 ^ 26) ps)"

definition prods :: "(u32 \<times> u32) list \<Rightarrow> nat" where
  "prods ps = sum_list (map (\<lambda>(a, b). unat a * unat b) ps)"

lemma prods_split: "prods ps = 2 ^ 26 * prod_div ps + prod_mod ps"
proof (induction ps)
  case (Cons p ps)
  obtain a b where "p = (a, b)" by fastforce
  moreover have "unat a * unat b = 2 ^ 26 * ((unat a * unat b) div 2 ^ 26) + (unat a * unat b) mod 2 ^ 26"
    by (simp only: mult_div_mod_eq)
  ultimately show ?case using Cons
    by (simp add: prods_def prod_div_def prod_mod_def algebra_simps)
qed (simp add: prods_def prod_div_def prod_mod_def)

lemma prod_mod_bound: "prod_mod ps \<le> length ps * (2 ^ 26 - 1)"
proof (induction ps)
  case (Cons p ps)
  have "(unat (fst p) * unat (snd p)) mod 2 ^ 26 \<le> 2 ^ 26 - 1"
    using mod_less_divisor [of "2 ^ 26" "unat (fst p) * unat (snd p)"] by simp
  then show ?case using Cons by (simp add: prod_mod_def case_prod_beta)
qed (simp add: prod_mod_def)

lemma poly_fold:
  assumes "list_all (\<lambda>(a, b). unat a * unat b < 2 ^ 58) ps"
    "unat L + prod_mod ps < 2 ^ 32" "unat H + prod_div ps < 2 ^ 32"
    "fold (\<lambda>(a, b). POLY_P26 a b) ps (L, H) = (L', H')"
  shows "unat L' = unat L + prod_mod ps \<and> unat H' = unat H + prod_div ps"
  using assms
proof (induction ps arbitrary: L H)
  case (Cons p ps)
  obtain a b where p: "p = (a, b)" by fastforce
  let ?P = "unat a * unat b"
  let ?L = "L + (ucast (ucast a * ucast b :: u64) AND POLY_MASK26)"
  let ?H = "H + ucast (drop_bit 26 (ucast a * ucast b :: u64))"
  have P: "?P < 2 ^ 58" using Cons.prems(1) p by simp
  have m: "prod_mod (p # ps) = ?P mod 2 ^ 26 + prod_mod ps" and d: "prod_div (p # ps) = ?P div 2 ^ 26 + prod_div ps"
    by (simp_all add: prod_mod_def prod_div_def p)
  have L: "unat ?L = unat L + ?P mod 2 ^ 26"
    using Cons.prems(2) m by (subst unat_add32) (simp_all add: product_split [OF P])
  have H: "unat ?H = unat H + ?P div 2 ^ 26"
    using Cons.prems(3) d by (subst unat_add32) (simp_all add: product_split [OF P])
  have "fold (\<lambda>(a, b). POLY_P26 a b) ps (?L, ?H) = (L', H')"
    using Cons.prems(4) by (simp add: p POLY_P26_def Let_def)
  then show ?case
    using Cons.IH [of ?L ?H] Cons.prems(1-3) L H m d by simp
qed (simp add: prod_mod_def prod_div_def)

text \<open>
  The bounds of the block loop: the limbs of \<open>h\<close> after adding a block are at most
  \<open>2 ^ 27 + 2 ^ 10\<close>, those of \<open>r\<close> below \<open>2 ^ 26\<close>, so a product with \<open>5 * r\<close> stays below
  \<open>2 ^ 56\<close> and the five high parts of a limb below \<open>2 ^ 32\<close>.
\<close>

lemma poly_limb5:
  assumes "list_all (\<lambda>(a, b). unat a * unat b < 2 ^ 58) ps" "length ps = 5"
    "prods ps \<le> B * 2 ^ 26" "B < 2 ^ 32" "poly_limb ps = (L, H)"
  shows "2 ^ 26 * unat H + unat L = prods ps \<and> unat L \<le> 5 * (2 ^ 26 - 1) \<and> unat H \<le> B"
proof -
  have m: "prod_mod ps \<le> 5 * (2 ^ 26 - 1)" using prod_mod_bound [of ps] assms(2) by simp
  have d: "prod_div ps \<le> B" using prods_split [of ps] assms(3) by simp
  have "unat L = prod_mod ps \<and> unat H = prod_div ps"
    using poly_fold [OF assms(1), of 0 0 L H] assms(4,5) m d by (simp add: poly_limb_def)
  then show ?thesis using m d prods_split [of ps] by simp
qed

lemma carry_step:
  fixes L H c :: u32
  assumes "unat L \<le> 5 * (2 ^ 26 - 1)" "unat H \<le> 2 ^ 32 - 256"
    "L' = L + (c AND POLY_MASK26)" "H' = H + drop_bit 26 c"
    "c' = H' + drop_bit 26 L'" "h = L' AND POLY_MASK26"
  shows "unat h + 2 ^ 26 * unat c' = 2 ^ 26 * unat H + unat L + unat c \<and> unat h < 2 ^ 26
           \<and> unat c' \<le> unat H + 70"
proof -
  have c64: "unat c div 2 ^ 26 < 64" using u32_bound [of c] by (intro less_mult_imp_div_less) simp
  have L': "unat L' = unat L + unat c mod 2 ^ 26"
    using assms(1) unfolding assms(3) POLY_MASK26_def
    by (subst unat_add32) (simp_all add: unat_and_mask26)
  have H': "unat H' = unat H + unat c div 2 ^ 26"
    using assms(2) c64 unfolding assms(4) by (subst unat_add32) (simp_all add: unat_drop_bit)
  have L26: "unat L' div 2 ^ 26 \<le> 5" using L' assms(1) by simp
  have c': "unat c' = unat H' + unat L' div 2 ^ 26"
    using assms(2) c64 H' L26 unfolding assms(5) by (subst unat_add32) (simp_all add: unat_drop_bit)
  have h: "unat h = unat L' mod 2 ^ 26"
    by (simp add: assms(6) POLY_MASK26_def unat_and_mask26)
  have "unat h + 2 ^ 26 * (unat L' div 2 ^ 26) = unat L'"
    unfolding h by (simp only: mod_mult_div_eq)
  moreover have "unat c mod 2 ^ 26 + 2 ^ 26 * (unat c div 2 ^ 26) = unat c"
    by (simp only: mod_mult_div_eq)
  ultimately show ?thesis using c' H' L' h L26 c64 by simp
qed

section \<open>One block\<close>

definition val5 :: "u32 list \<Rightarrow> nat" where
  "val5 h = unat (h ! 0) + 2 ^ 26 * unat (h ! 1) + 2 ^ 52 * unat (h ! 2)
              + 2 ^ 78 * unat (h ! 3) + 2 ^ 104 * unat (h ! 4)"

definition P1305 :: nat where
  "P1305 = 2 ^ 130 - 5"

text \<open>Limbs of the accumulator between blocks, and of a clamped multiplier.\<close>

definition h_ok :: "u32 list \<Rightarrow> bool" where
  "h_ok h \<longleftrightarrow> length h = 5 \<and> unat (h ! 0) < 2 ^ 26 \<and> unat (h ! 1) < 2 ^ 26 + 2 ^ 10 \<and>
     unat (h ! 2) < 2 ^ 26 \<and> unat (h ! 3) < 2 ^ 26 \<and> unat (h ! 4) < 2 ^ 26"

definition r_ok :: "u32 list \<Rightarrow> bool" where
  "r_ok r \<longleftrightarrow> length r = 5 \<and> (\<forall>i<5. unat (r ! i) < 2 ^ 26)"

text \<open>The schoolbook product, with \<open>2 ^ 130\<close> folded to 5.\<close>

lemma fold_identity:
  fixes h0 h1 h2 h3 h4 r0 r1 r2 r3 r4 :: nat
  shows "(h0 + 2 ^ 26 * h1 + 2 ^ 52 * h2 + 2 ^ 78 * h3 + 2 ^ 104 * h4)
          * (r0 + 2 ^ 26 * r1 + 2 ^ 52 * r2 + 2 ^ 78 * r3 + 2 ^ 104 * r4)
     = (h0 * r0 + h1 * (5 * r4) + h2 * (5 * r3) + h3 * (5 * r2) + h4 * (5 * r1))
       + 2 ^ 26 * (h0 * r1 + h1 * r0 + h2 * (5 * r4) + h3 * (5 * r3) + h4 * (5 * r2))
       + 2 ^ 52 * (h0 * r2 + h1 * r1 + h2 * r0 + h3 * (5 * r4) + h4 * (5 * r3))
       + 2 ^ 78 * (h0 * r3 + h1 * r2 + h2 * r1 + h3 * r0 + h4 * (5 * r4))
       + 2 ^ 104 * (h0 * r4 + h1 * r3 + h2 * r2 + h3 * r1 + h4 * r0)
       + P1305 * ((h1 * r4 + h2 * r3 + h3 * r2 + h4 * r1) + 2 ^ 26 * (h2 * r4 + h3 * r3 + h4 * r2)
                  + 2 ^ 52 * (h3 * r4 + h4 * r3) + 2 ^ 78 * (h4 * r4))"
  by (simp add: P1305_def algebra_simps)

lemma mult_bound: "a \<le> A \<Longrightarrow> b \<le> B \<Longrightarrow> a * b \<le> A * (B :: nat)"
  by (rule mult_le_mono)

lemma limb_product:
  assumes "list_all (\<lambda>(a, b). unat a \<le> 2 ^ 27 + 2 ^ 10 \<and> unat b \<le> 5 * 2 ^ 26) ps" "length ps = 5"
    "sum_list (map (\<lambda>(a, b). unat b) ps) \<le> k * 2 ^ 26" "k \<le> 21" "poly_limb ps = (L, H)"
  shows "2 ^ 26 * unat H + unat L = prods ps \<and> unat L \<le> 5 * (2 ^ 26 - 1)
           \<and> unat H \<le> k * (2 ^ 27 + 2 ^ 10)"
proof (rule poly_limb5 [OF _ assms(2) _ _ assms(5)])
  show "list_all (\<lambda>(a, b). unat a * unat b < 2 ^ 58) ps"
    using assms(1)
  proof (rule list.pred_mono_strong)
    fix z :: "u32 \<times> u32"
    assume "case z of (a, b) \<Rightarrow> unat a \<le> 2 ^ 27 + 2 ^ 10 \<and> unat b \<le> 5 * 2 ^ 26"
    then have "unat (fst z) * unat (snd z) \<le> (2 ^ 27 + 2 ^ 10) * (5 * 2 ^ 26)"
      by (intro mult_bound) (simp_all add: case_prod_beta)
    then show "case z of (a, b) \<Rightarrow> unat a * unat b < 2 ^ 58"
      by (simp add: case_prod_beta)
  qed
  have "prods ps \<le> (2 ^ 27 + 2 ^ 10) * sum_list (map (\<lambda>(a, b). unat b) ps)"
    using assms(1)
  proof (induction ps)
    case (Cons p ps)
    then have "unat (fst p) * unat (snd p) \<le> (2 ^ 27 + 2 ^ 10) * unat (snd p)"
      by (intro mult_bound) (simp_all add: case_prod_beta)
    moreover have "prods ps \<le> (2 ^ 27 + 2 ^ 10) * sum_list (map (\<lambda>(a, b). unat b) ps)"
      using Cons by simp
    ultimately have "unat (fst p) * unat (snd p) + prods ps
        \<le> (2 ^ 27 + 2 ^ 10) * unat (snd p) + (2 ^ 27 + 2 ^ 10) * sum_list (map (\<lambda>(a, b). unat b) ps)"
      by (rule add_mono)
    moreover have "prods (p # ps) = unat (fst p) * unat (snd p) + prods ps"
      by (simp add: prods_def case_prod_beta)
    moreover have "sum_list (map (\<lambda>(a, b). unat b) (p # ps)) = unat (snd p) + sum_list (map (\<lambda>(a, b). unat b) ps)"
      by (simp add: case_prod_beta)
    ultimately show ?case
      by (simp only: distrib_left)
  qed (simp add: prods_def)
  also have "\<dots> \<le> (2 ^ 27 + 2 ^ 10) * (k * 2 ^ 26)"
    using assms(3) by (intro mult_bound) simp_all
  finally show "prods ps \<le> k * (2 ^ 27 + 2 ^ 10) * 2 ^ 26" by (simp only: ac_simps)
  show "k * (2 ^ 27 + 2 ^ 10) < 2 ^ 32" using assms(4) by simp
qed

lemma carry_first:
  fixes L H :: u32
  assumes "unat L \<le> 5 * (2 ^ 26 - 1)" "unat H \<le> 2 ^ 32 - 256"
    "c' = H + drop_bit 26 L" "h = L AND POLY_MASK26"
  shows "unat h + 2 ^ 26 * unat c' = 2 ^ 26 * unat H + unat L \<and> unat h < 2 ^ 26 \<and> unat c' \<le> unat H + 70"
  using carry_step [OF assms(1,2), of L 0 H c' h] assms(3,4) by simp

lemma mult5: "unat c * 5 < 2 ^ 32 \<Longrightarrow> unat (c * 5 :: u32) = unat c * 5"
  using unat_mult32 [of c 5] by simp

definition acc :: "u32 \<times> u32 \<Rightarrow> nat" where
  "acc d = 2 ^ 26 * unat (snd d) + unat (fst d)"

definition acc_ok :: "nat \<Rightarrow> u32 \<times> u32 \<Rightarrow> bool" where
  "acc_ok k d \<longleftrightarrow> unat (fst d) \<le> 5 * (2 ^ 26 - 1) \<and> unat (snd d) \<le> k * (2 ^ 27 + 2 ^ 10)"

lemma poly_reduce_correct:
  assumes "acc_ok 21 d0" "acc_ok 21 d1" "acc_ok 21 d2" "acc_ok 21 d3" "acc_ok 5 d4"
  shows "h_ok (poly_reduce d0 d1 d2 d3 d4) \<and>
    (\<exists>q. val5 (poly_reduce d0 d1 d2 d3 d4) + P1305 * q
         = acc d0 + 2 ^ 26 * acc d1 + 2 ^ 52 * acc d2 + 2 ^ 78 * acc d3 + 2 ^ 104 * acc d4)"
proof -
  obtain L0 H0 L1 H1 L2 H2 L3 H3 L4 H4 where
    d: "d0 = (L0, H0)" "d1 = (L1, H1)" "d2 = (L2, H2)" "d3 = (L3, H3)" "d4 = (L4, H4)"
    by fastforce
  note ok = assms [unfolded d acc_ok_def fst_conv snd_conv]
  define c0 x0 where s0: "c0 = H0 + drop_bit 26 L0" "x0 = L0 AND POLY_MASK26"
  define L1' H1' c1 x1 where s1: "L1' = L1 + (c0 AND POLY_MASK26)" "H1' = H1 + drop_bit 26 c0"
    "c1 = H1' + drop_bit 26 L1'" "x1 = L1' AND POLY_MASK26"
  define L2' H2' c2 x2 where s2: "L2' = L2 + (c1 AND POLY_MASK26)" "H2' = H2 + drop_bit 26 c1"
    "c2 = H2' + drop_bit 26 L2'" "x2 = L2' AND POLY_MASK26"
  define L3' H3' c3 x3 where s3: "L3' = L3 + (c2 AND POLY_MASK26)" "H3' = H3 + drop_bit 26 c2"
    "c3 = H3' + drop_bit 26 L3'" "x3 = L3' AND POLY_MASK26"
  define L4' H4' c4 x4 where s4: "L4' = L4 + (c3 AND POLY_MASK26)" "H4' = H4 + drop_bit 26 c3"
    "c4 = H4' + drop_bit 26 L4'" "x4 = L4' AND POLY_MASK26"
  define y0 z0 z1 where sy: "y0 = x0 + c4 * 5" "z0 = y0 AND POLY_MASK26" "z1 = x1 + drop_bit 26 y0"
  have res: "poly_reduce d0 d1 d2 d3 d4 = [z0, z1, x2, x3, x4]"
    by (simp add: poly_reduce_def d s0 s1 s2 s3 s4 sy Let_def)
  have e0: "unat x0 + 2 ^ 26 * unat c0 = acc d0 \<and> unat x0 < 2 ^ 26 \<and> unat c0 \<le> unat H0 + 70"
    using carry_first [OF _ _ s0] ok(1) by (simp add: acc_def d)
  have e1: "unat x1 + 2 ^ 26 * unat c1 = acc d1 + unat c0 \<and> unat x1 < 2 ^ 26 \<and> unat c1 \<le> unat H1 + 70"
    using carry_step [OF _ _ s1] ok(2) by (simp add: acc_def d)
  have e2: "unat x2 + 2 ^ 26 * unat c2 = acc d2 + unat c1 \<and> unat x2 < 2 ^ 26 \<and> unat c2 \<le> unat H2 + 70"
    using carry_step [OF _ _ s2] ok(3) by (simp add: acc_def d)
  have e3: "unat x3 + 2 ^ 26 * unat c3 = acc d3 + unat c2 \<and> unat x3 < 2 ^ 26 \<and> unat c3 \<le> unat H3 + 70"
    using carry_step [OF _ _ s3] ok(4) by (simp add: acc_def d)
  have e4: "unat x4 + 2 ^ 26 * unat c4 = acc d4 + unat c3 \<and> unat x4 < 2 ^ 26 \<and> unat c4 \<le> unat H4 + 70"
    using carry_step [OF _ _ s4] ok(5) by (simp add: acc_def d)
  have c5: "unat (c4 * 5) = 5 * unat c4" using e4 ok(5) by (simp add: mult5)
  have y0: "unat y0 = unat x0 + 5 * unat c4"
    unfolding sy(1) using e0 e4 ok(5) by (subst unat_add32) (simp_all add: c5)
  have y26: "unat y0 div 2 ^ 26 < 64" using u32_bound [of y0] by (intro less_mult_imp_div_less) simp
  have z0: "unat z0 = unat y0 mod 2 ^ 26" by (simp add: sy(2) POLY_MASK26_def unat_and_mask26)
  have z1: "unat z1 = unat x1 + unat y0 div 2 ^ 26"
    unfolding sy(3) using e1 y26 by (subst unat_add32) (simp_all add: unat_drop_bit)
  have "unat z0 + 2 ^ 26 * (unat y0 div 2 ^ 26) = unat y0"
    unfolding z0 by (simp only: mod_mult_div_eq)
  then have "val5 [z0, z1, x2, x3, x4] + P1305 * unat c4
      = acc d0 + 2 ^ 26 * acc d1 + 2 ^ 52 * acc d2 + 2 ^ 78 * acc d3 + 2 ^ 104 * acc d4"
    using e0 e1 e2 e3 e4 y0 z1 by (simp add: val5_def P1305_def)
  moreover have "h_ok [z0, z1, x2, x3, x4]"
    using e1 e2 e3 e4 z0 z1 y26 by (simp add: h_ok_def)
  ultimately show ?thesis unfolding res by blast
qed

lemma limb_acc:
  assumes "list_all (\<lambda>(a, b). unat a \<le> 2 ^ 27 + 2 ^ 10 \<and> unat b \<le> 5 * 2 ^ 26) ps" "length ps = 5"
    "sum_list (map (\<lambda>(a, b). unat b) ps) \<le> k * 2 ^ 26" "k \<le> 21"
  shows "acc_ok k (poly_limb ps) \<and> acc (poly_limb ps) = prods ps"
  using limb_product [OF assms, of "fst (poly_limb ps)" "snd (poly_limb ps)"]
  by (simp add: acc_ok_def acc_def)

lemma poly_mul_correct:
  assumes r: "r_ok r" and hb: "\<forall>i<5. unat (h ! i) \<le> 2 ^ 27 + 2 ^ 10"
  shows "h_ok (poly_mul r h) \<and> val5 (poly_mul r h) mod P1305 = (val5 h * val5 r) mod P1305"
proof -
  define r0 r1 r2 r3 r4 where rs: "r0 = r ! 0" "r1 = r ! 1" "r2 = r ! 2" "r3 = r ! 3" "r4 = r ! 4"
  define h0 h1 h2 h3 h4 where hs: "h0 = h ! 0" "h1 = h ! 1" "h2 = h ! 2" "h3 = h ! 3" "h4 = h ! 4"
  let ?d0 = "poly_limb [(h0, r0), (h1, r4 * 5), (h2, r3 * 5), (h3, r2 * 5), (h4, r1 * 5)]"
  let ?d1 = "poly_limb [(h0, r1), (h1, r0), (h2, r4 * 5), (h3, r3 * 5), (h4, r2 * 5)]"
  let ?d2 = "poly_limb [(h0, r2), (h1, r1), (h2, r0), (h3, r4 * 5), (h4, r3 * 5)]"
  let ?d3 = "poly_limb [(h0, r3), (h1, r2), (h2, r1), (h3, r0), (h4, r4 * 5)]"
  let ?d4 = "poly_limb [(h0, r4), (h1, r3), (h2, r2), (h3, r1), (h4, r0)]"
  have rb: "unat r0 < 2 ^ 26" "unat r1 < 2 ^ 26" "unat r2 < 2 ^ 26" "unat r3 < 2 ^ 26" "unat r4 < 2 ^ 26"
    using r by (simp_all add: r_ok_def rs)
  have hb': "unat h0 \<le> 2 ^ 27 + 2 ^ 10" "unat h1 \<le> 2 ^ 27 + 2 ^ 10" "unat h2 \<le> 2 ^ 27 + 2 ^ 10"
      "unat h3 \<le> 2 ^ 27 + 2 ^ 10" "unat h4 \<le> 2 ^ 27 + 2 ^ 10"
    using hb by (simp_all add: hs)
  have s: "unat (r1 * 5) = 5 * unat r1" "unat (r2 * 5) = 5 * unat r2" "unat (r3 * 5) = 5 * unat r3"
      "unat (r4 * 5) = 5 * unat r4"
    using rb by (simp_all add: mult5)
  have d: "acc_ok 21 ?d0 \<and> acc ?d0 = prods [(h0, r0), (h1, r4 * 5), (h2, r3 * 5), (h3, r2 * 5), (h4, r1 * 5)]"
    "acc_ok 21 ?d1 \<and> acc ?d1 = prods [(h0, r1), (h1, r0), (h2, r4 * 5), (h3, r3 * 5), (h4, r2 * 5)]"
    "acc_ok 21 ?d2 \<and> acc ?d2 = prods [(h0, r2), (h1, r1), (h2, r0), (h3, r4 * 5), (h4, r3 * 5)]"
    "acc_ok 21 ?d3 \<and> acc ?d3 = prods [(h0, r3), (h1, r2), (h2, r1), (h3, r0), (h4, r4 * 5)]"
    "acc_ok 5 ?d4 \<and> acc ?d4 = prods [(h0, r4), (h1, r3), (h2, r2), (h3, r1), (h4, r0)]"
    by (rule limb_acc; insert rb hb' s; simp)+
  have mul: "poly_mul r h = poly_reduce ?d0 ?d1 ?d2 ?d3 ?d4"
    by (simp add: poly_mul_def Let_def rs hs)
  from poly_reduce_correct [OF d(1-5) [THEN conjunct1]] obtain q
    where ok: "h_ok (poly_mul r h)"
      and q: "val5 (poly_mul r h) + P1305 * q
        = acc ?d0 + 2 ^ 26 * acc ?d1 + 2 ^ 52 * acc ?d2 + 2 ^ 78 * acc ?d3 + 2 ^ 104 * acc ?d4"
    unfolding mul [symmetric] by blast
  have e: "acc ?d0 = unat h0 * unat r0 + unat h1 * (5 * unat r4) + unat h2 * (5 * unat r3) + unat h3 * (5 * unat r2) + unat h4 * (5 * unat r1)"
    "acc ?d1 = unat h0 * unat r1 + unat h1 * unat r0 + unat h2 * (5 * unat r4) + unat h3 * (5 * unat r3) + unat h4 * (5 * unat r2)"
    "acc ?d2 = unat h0 * unat r2 + unat h1 * unat r1 + unat h2 * unat r0 + unat h3 * (5 * unat r4) + unat h4 * (5 * unat r3)"
    "acc ?d3 = unat h0 * unat r3 + unat h1 * unat r2 + unat h2 * unat r1 + unat h3 * unat r0 + unat h4 * (5 * unat r4)"
    "acc ?d4 = unat h0 * unat r4 + unat h1 * unat r3 + unat h2 * unat r2 + unat h3 * unat r1 + unat h4 * unat r0"
    by (simp_all only: d prods_def list.map sum_list.Cons sum_list.Nil case_prod_conv s add_0_right add.assoc)
  have v: "val5 h = unat h0 + 2 ^ 26 * unat h1 + 2 ^ 52 * unat h2 + 2 ^ 78 * unat h3 + 2 ^ 104 * unat h4"
    "val5 r = unat r0 + 2 ^ 26 * unat r1 + 2 ^ 52 * unat r2 + 2 ^ 78 * unat r3 + 2 ^ 104 * unat r4"
    by (simp_all only: val5_def rs hs)
  have "\<exists>q'. val5 h * val5 r = (val5 (poly_mul r h) + P1305 * q) + P1305 * q'"
    unfolding q e v by (rule exI, rule fold_identity)
  then have "(val5 h * val5 r) mod P1305 = val5 (poly_mul r h) mod P1305"
    by (metis mod_mult_self2)
  then show ?thesis using ok by simp
qed

section \<open>The limbs of a block\<close>

lemma unat_or_push:
  "unat a < 2 ^ k \<Longrightarrow> unat a + unat (push_bit k b) < 2 ^ 32 \<Longrightarrow>
     unat (a OR push_bit k b :: u32) = unat a + unat (push_bit k b)"
  by (simp add: or_push_bit_eq_add unat_add32)

lemma low_plus_high_less:
  assumes "x < 2 ^ k" "k \<le> n"
  shows "x + (y * 2 ^ k) mod 2 ^ n < (2 ^ n :: nat)"
proof -
  have "(y * 2 ^ k) mod 2 ^ n = (y mod 2 ^ (n - k)) * 2 ^ k"
    using assms(2) by (metis le_add_diff_inverse2 mult_mod_left power_add)
  moreover have "y mod 2 ^ (n - k) < 2 ^ (n - k)" by simp
  then have "(Suc (y mod 2 ^ (n - k))) * 2 ^ k \<le> 2 ^ (n - k) * 2 ^ k"
    by (intro mult_right_mono) (simp_all only: Suc_le_eq)
  ultimately show ?thesis
    using assms by (simp add: power_add [symmetric])
qed

lemma unat_funnel:
  fixes a b :: u32
  assumes "unat a < 2 ^ k" "k \<le> 32"
  shows "unat (a OR push_bit k b) = unat a + 2 ^ k * (unat b mod 2 ^ (32 - k))"
proof -
  have p: "unat (push_bit k b) = (unat b * 2 ^ k) mod 2 ^ 32"
    by (simp add: unat_push_bit)
  also have "\<dots> = 2 ^ k * (unat b mod 2 ^ (32 - k))"
    using assms(2) by (metis le_add_diff_inverse mult.commute mult_mod_right power_add)
  finally have q: "unat (push_bit k b) = 2 ^ k * (unat b mod 2 ^ (32 - k))" .
  have "unat a + unat (push_bit k b) < 2 ^ 32"
    using low_plus_high_less [OF assms] p by simp
  then show ?thesis using assms(1) by (simp add: unat_or_push q)
qed

lemma unat_funnel26:
  fixes a b :: u32
  assumes "unat a < 2 ^ k" "k \<le> 26"
  shows "unat ((a OR push_bit k b) AND 0x3ffffff) = unat a + 2 ^ k * (unat b mod 2 ^ (26 - k))"
proof -
  have "unat ((a OR push_bit k b) AND 0x3ffffff) = (unat a + 2 ^ k * (unat b mod 2 ^ (32 - k))) mod 2 ^ 26"
    using assms by (simp add: unat_and_mask26 unat_funnel)
  also have "\<dots> = (unat a + (2 ^ k * (unat b mod 2 ^ (32 - k))) mod 2 ^ 26) mod 2 ^ 26"
    by (simp only: mod_add_right_eq)
  also have "(2 ^ k * (unat b mod 2 ^ (32 - k))) mod 2 ^ 26 = 2 ^ k * (unat b mod 2 ^ (26 - k))"
  proof -
    have "(2 ^ k * (unat b mod 2 ^ (32 - k))) mod (2 ^ k * 2 ^ (26 - k)) = 2 ^ k * (unat b mod 2 ^ (32 - k) mod 2 ^ (26 - k))"
      by (rule mult_mod_right [symmetric])
    also have "unat b mod 2 ^ (32 - k) mod 2 ^ (26 - k) = unat b mod 2 ^ (26 - k)"
      by (rule mod_mod_cancel) (simp add: le_imp_power_dvd)
    finally show ?thesis using assms(2) by (simp add: power_add [symmetric])
  qed
  also have "(unat a + 2 ^ k * (unat b mod 2 ^ (26 - k))) mod 2 ^ 26 = unat a + 2 ^ k * (unat b mod 2 ^ (26 - k))"
  proof (rule mod_less)
    have "2 ^ k * (unat b mod 2 ^ (26 - k)) = (unat b * 2 ^ k) mod 2 ^ 26"
      using assms(2) by (metis le_add_diff_inverse mult.commute mult_mod_right power_add)
    then show "unat a + 2 ^ k * (unat b mod 2 ^ (26 - k)) < 2 ^ 26"
      using low_plus_high_less [OF assms] by simp
  qed
  finally show ?thesis .
qed

lemma U8TO32_ALIGNED_eq: "length p = 4 \<Longrightarrow> U8TO32 p = U8TO32_ALIGNED p"
  by (auto simp: U8TO32_def U8TO32_ALIGNED_def length_Suc_conv eval_nat_numeral push_bit_or or.assoc)

lemma unat_U8TO32: "length p = 4 \<Longrightarrow> unat (U8TO32 p) = le_num p"
  by (simp add: U8TO32_ALIGNED_eq U8TO32_ALIGNED_def unat_le_word)

lemma block_words:
  assumes "length m = 16"
  shows "le_num m = le_num (bytes_at 0 4 m) + 2 ^ 32 * le_num (bytes_at 4 4 m)
      + 2 ^ 64 * le_num (bytes_at 8 4 m) + 2 ^ 96 * le_num (bytes_at 12 4 m)"
proof -
  have "m = bytes_at 0 4 m @ bytes_at 4 4 m @ bytes_at 8 4 m @ bytes_at 12 4 m"
    using assms by (auto simp: bytes_at_def length_Suc_conv eval_nat_numeral)
  then have "le_num m = le_num (bytes_at 0 4 m @ bytes_at 4 4 m @ bytes_at 8 4 m @ bytes_at 12 4 m)"
    by simp
  also have "\<dots> = le_num (bytes_at 0 4 m) + 2 ^ 32 * le_num (bytes_at 4 4 m)
      + 2 ^ 64 * le_num (bytes_at 8 4 m) + 2 ^ 96 * le_num (bytes_at 12 4 m)"
    using assms by (simp add: le_num_append)
  finally show ?thesis .
qed

text \<open>The five limbs carved out of four words, as numbers.\<close>

lemma limb_values:
  fixes t0 t1 t2 t3 :: u32
  shows "unat (t0 AND 0x3ffffff) = unat t0 mod 2 ^ 26"
    "unat ((drop_bit 26 t0 OR push_bit 6 t1) AND 0x3ffffff) = unat t0 div 2 ^ 26 + 2 ^ 6 * (unat t1 mod 2 ^ 20)"
    "unat ((drop_bit 20 t1 OR push_bit 12 t2) AND 0x3ffffff) = unat t1 div 2 ^ 20 + 2 ^ 12 * (unat t2 mod 2 ^ 14)"
    "unat ((drop_bit 14 t2 OR push_bit 18 t3) AND 0x3ffffff) = unat t2 div 2 ^ 14 + 2 ^ 18 * (unat t3 mod 2 ^ 8)"
    "unat (drop_bit 8 t3) = unat t3 div 2 ^ 8"
proof -
  have b: "unat (drop_bit 26 t0) < 2 ^ 6" "unat (drop_bit 20 t1) < 2 ^ 12" "unat (drop_bit 14 t2) < 2 ^ 18"
    using u32_bound [of t0] u32_bound [of t1] u32_bound [of t2]
    by (simp_all only: unat_drop_bit) (auto intro: less_mult_imp_div_less)
  show "unat ((drop_bit 26 t0 OR push_bit 6 t1) AND 0x3ffffff) = unat t0 div 2 ^ 26 + 2 ^ 6 * (unat t1 mod 2 ^ 20)"
    using unat_funnel26 [OF b(1), of t1] by (simp add: unat_drop_bit)
  show "unat ((drop_bit 20 t1 OR push_bit 12 t2) AND 0x3ffffff) = unat t1 div 2 ^ 20 + 2 ^ 12 * (unat t2 mod 2 ^ 14)"
    using unat_funnel26 [OF b(2), of t2] by (simp add: unat_drop_bit)
  show "unat ((drop_bit 14 t2 OR push_bit 18 t3) AND 0x3ffffff) = unat t2 div 2 ^ 14 + 2 ^ 18 * (unat t3 mod 2 ^ 8)"
    using unat_funnel26 [OF b(3), of t3] by (simp add: unat_drop_bit)
qed (simp_all add: unat_and_mask26 unat_drop_bit)

lemma limbs_sum:
  fixes a b c d :: nat
  shows "a mod 2 ^ 26 + 2 ^ 26 * (a div 2 ^ 26 + 2 ^ 6 * (b mod 2 ^ 20))
       + 2 ^ 52 * (b div 2 ^ 20 + 2 ^ 12 * (c mod 2 ^ 14))
       + 2 ^ 78 * (c div 2 ^ 14 + 2 ^ 18 * (d mod 2 ^ 8)) + 2 ^ 104 * (d div 2 ^ 8)
     = a + 2 ^ 32 * b + 2 ^ 64 * c + 2 ^ 96 * d"
proof -
  have split4: "r0 + 2 ^ 26 * (q0 + 2 ^ 6 * r1) + 2 ^ 52 * (q1 + 2 ^ 12 * r2)
      + 2 ^ 78 * (q2 + 2 ^ 18 * r3) + 2 ^ 104 * q3
    = (r0 + 2 ^ 26 * q0) + 2 ^ 32 * (r1 + 2 ^ 20 * q1) + 2 ^ 64 * (r2 + 2 ^ 14 * q2)
      + 2 ^ 96 * (r3 + 2 ^ 8 * q3)" for r0 r1 r2 r3 q0 q1 q2 q3 :: nat
    by simp
  show ?thesis unfolding split4 mod_mult_div_eq ..
qed

text \<open>A block with or without the bit at \<open>2 ^ 128\<close>.\<close>

lemma or_hibit:
  fixes x hibit :: u32
  assumes "unat x < 2 ^ 24" "hibit = 0 \<or> hibit = push_bit 24 1"
  shows "unat (x OR hibit) = unat x + unat hibit"
  using assms unat_funnel [of x 24 1] by auto

lemma all_less_5: "(\<forall>i<5. P i) \<longleftrightarrow> P 0 \<and> P 1 \<and> P 2 \<and> P 3 \<and> P (4 :: nat)"
  by (auto simp: numeral_eq_Suc less_Suc_eq)

lemma poly_add_correct:
  assumes h: "h_ok h" and m: "length m = 16" and hb: "hibit = 0 \<or> hibit = push_bit 24 1"
  shows "(\<forall>i<5. unat (poly_add hibit h m ! i) \<le> 2 ^ 27 + 2 ^ 10) \<and>
    val5 (poly_add hibit h m) = val5 h + le_num m + 2 ^ 104 * unat hibit"
proof -
  define t0 t1 t2 t3 where ts: "t0 = U8TO32 (bytes_at 0 4 m)" "t1 = U8TO32 (bytes_at 4 4 m)"
    "t2 = U8TO32 (bytes_at 8 4 m)" "t3 = U8TO32 (bytes_at 12 4 m)"
  define m0 m1 m2 m3 m4 where ms: "m0 = t0 AND 0x3ffffff" "m1 = (drop_bit 26 t0 OR push_bit 6 t1) AND 0x3ffffff"
    "m2 = (drop_bit 20 t1 OR push_bit 12 t2) AND 0x3ffffff" "m3 = (drop_bit 14 t2 OR push_bit 18 t3) AND 0x3ffffff"
    "m4 = drop_bit 8 t3 OR hibit"
  have t: "unat t0 = le_num (bytes_at 0 4 m)" "unat t1 = le_num (bytes_at 4 4 m)"
    "unat t2 = le_num (bytes_at 8 4 m)" "unat t3 = le_num (bytes_at 12 4 m)"
    using m by (simp_all add: ts unat_U8TO32)
  have x: "unat (drop_bit 8 t3) < 2 ^ 24"
    using u32_bound [of t3] by (simp only: unat_drop_bit) (auto intro: less_mult_imp_div_less)
  have m4: "unat m4 = unat t3 div 2 ^ 8 + unat hibit"
    unfolding ms using or_hibit [OF x hb] by (simp add: unat_drop_bit)
  have hbb: "unat hibit \<le> 2 ^ 24" using hb by auto
  have mb: "unat m0 < 2 ^ 26" "unat m1 < 2 ^ 26" "unat m2 < 2 ^ 26" "unat m3 < 2 ^ 26" "unat m4 < 2 ^ 26"
    using x hbb m4 by (simp_all add: ms unat_and_mask26 unat_drop_bit)
  have add: "unat (h ! 0 + m0) = unat (h ! 0) + unat m0" "unat (h ! 1 + m1) = unat (h ! 1) + unat m1"
    "unat (h ! 2 + m2) = unat (h ! 2) + unat m2" "unat (h ! 3 + m3) = unat (h ! 3) + unat m3"
    "unat (h ! 4 + m4) = unat (h ! 4) + unat m4"
    using h mb by (simp_all add: h_ok_def unat_add32)
  have res: "poly_add hibit h m = [h ! 0 + m0, h ! 1 + m1, h ! 2 + m2, h ! 3 + m3, h ! 4 + m4]"
    by (simp add: poly_add_def ts ms Let_def)
  have mv: "unat m0 = unat t0 mod 2 ^ 26" "unat m1 = unat t0 div 2 ^ 26 + 2 ^ 6 * (unat t1 mod 2 ^ 20)"
    "unat m2 = unat t1 div 2 ^ 20 + 2 ^ 12 * (unat t2 mod 2 ^ 14)"
    "unat m3 = unat t2 div 2 ^ 14 + 2 ^ 18 * (unat t3 mod 2 ^ 8)"
    unfolding ms by (rule limb_values)+
  have sum: "unat m0 + 2 ^ 26 * unat m1 + 2 ^ 52 * unat m2 + 2 ^ 78 * unat m3 + 2 ^ 104 * (unat t3 div 2 ^ 8) = le_num m"
    unfolding block_words [OF m] t [symmetric] mv by (rule limbs_sum)
  have "\<forall>i<5. unat (poly_add hibit h m ! i) \<le> 2 ^ 27 + 2 ^ 10"
    unfolding res using add mb h by (simp add: h_ok_def all_less_5)
  moreover have "val5 (poly_add hibit h m) = val5 h + le_num m + 2 ^ 104 * unat hibit"
    unfolding res sum [symmetric] using add m4 by (simp add: val5_def)
  ultimately show ?thesis by blast
qed

end
