(* ===== verification/Feed_Interface.thy ===== *)
theory Feed_Interface
  imports TL_Prelude
begin

text \<open>
  The contract of every consumer that is handed its input in pieces: what it holds depends on the bytes it was given so far,
  not on how they were cut.  The MAC, the MapResponse parser and the long poll's framing promise it; what follows for any sequence of
  pieces is proved here once.
\<close>

locale byte_feed =
  fixes state :: "'k \<Rightarrow> 'a list \<Rightarrow> 's"
    and feed :: "'s \<Rightarrow> 'a list \<Rightarrow> 's"
  assumes feed_state: "feed (state k xs) ys = state k (xs @ ys)"
begin

lemma feed_pieces: "foldl feed (state k xs) yss = state k (xs @ concat yss)"
  by (induction yss arbitrary: xs) (simp_all add: feed_state)

lemma cut_irrelevant: "concat yss = concat zss \<Longrightarrow> foldl feed (state k xs) yss = foldl feed (state k xs) zss"
  by (simp add: feed_pieces)

end

end
