(* ===== verification/Crypto_Poly1305_Tag.thy ===== *)
theory Crypto_Poly1305_Tag
  imports Crypto_Poly1305 Feed_Interface
begin

unbundle bit_operations_syntax

text \<open>
  The tag computed by \<open>poly1305_init\<close>, any number of \<open>poly1305_update\<close> calls and
  \<open>poly1305_finish\<close> is the one RFC 8439 defines: the clamped multiplier, the polynomial over
  16-byte blocks, the final reduction below \<open>2 ^ 130 - 5\<close>, the repacking and the addition of
  the pad with the branch-free carry.
\<close>

section \<open>RFC 8439, section 2.5\<close>

text \<open>Clamping as the RFC words it, byte by byte.\<close>

definition rfc_clamp :: "bytes \<Rightarrow> bytes" where
  "rfc_clamp r = r[3 := r ! 3 AND 15, 7 := r ! 7 AND 15, 11 := r ! 11 AND 15, 15 := r ! 15 AND 15,
                   4 := r ! 4 AND 252, 8 := r ! 8 AND 252, 12 := r ! 12 AND 252]"

fun rfc_poly :: "nat \<Rightarrow> nat \<Rightarrow> bytes \<Rightarrow> nat" where
  "rfc_poly r a m =
     (if m = [] then a
      else rfc_poly r (((a + le_num (take 16 m @ [1])) * r) mod P1305) (drop 16 m))"

definition poly1305_rfc :: "bytes \<Rightarrow> bytes \<Rightarrow> nat" where
  "poly1305_rfc key msg =
     (rfc_poly (le_num (rfc_clamp (take 16 key))) 0 msg + le_num (bytes_at 16 16 key)) mod 2 ^ 128"

declare rfc_poly.simps [simp del]

section \<open>The final stages\<close>

definition limbs26 :: "u32 list \<Rightarrow> bool" where
  "limbs26 h \<longleftrightarrow> length h = 5 \<and> (\<forall>i<5. unat (h ! i) < 2 ^ 26)"

lemma limbs26_list [simp]: "limbs26 [a, b, c, d, e] \<longleftrightarrow> unat a < 2 ^ 26 \<and> unat b < 2 ^ 26 \<and>
    unat c < 2 ^ 26 \<and> unat d < 2 ^ 26 \<and> unat e < 2 ^ 26"
  by (simp add: limbs26_def all_less_5)

lemma h_list: "length h = 5 \<Longrightarrow> h = [h ! 0, h ! 1, h ! 2, h ! 3, h ! 4]"
  by (auto simp: length_Suc_conv eval_nat_numeral)

text \<open>One carry: the sum, cut at bit 26.\<close>

lemma carry26:
  fixes a c :: u32
  assumes "unat a + unat c < 2 ^ 27"
  shows "unat ((a + c) AND 0x3ffffff) + 2 ^ 26 * unat (drop_bit 26 (a + c)) = unat a + unat c \<and>
    unat ((a + c) AND 0x3ffffff) < 2 ^ 26 \<and> unat (drop_bit 26 (a + c)) \<le> 1"
proof -
  have s: "unat (a + c) = unat a + unat c" using assms by (simp add: unat_add32)
  then have "unat (a + c) div 2 ^ 26 < 2" using assms by (intro less_mult_imp_div_less) simp
  then show ?thesis
    by (simp only: unat_and_mask26 unat_drop_bit mod_mult_div_eq s) simp
qed

lemma carry26_first:
  fixes a :: u32
  assumes "unat a < 2 ^ 27"
  shows "unat (a AND 0x3ffffff) + 2 ^ 26 * unat (drop_bit 26 a) = unat a \<and>
    unat (a AND 0x3ffffff) < 2 ^ 26 \<and> unat (drop_bit 26 a) \<le> 1"
  using carry26 [of a 0] assms by simp

lemma mult5_le1: "unat c \<le> 1 \<Longrightarrow> unat (c * 5 :: u32) = 5 * unat c"
  using mult5 [of c] by simp

lemma poly_full_carry_correct:
  assumes "h_ok h"
  shows "limbs26 (poly_full_carry h) \<and> val5 (poly_full_carry h) mod P1305 = val5 h mod P1305"
proof -
  define h0 h1 h2 h3 h4 where hs: "h0 = h ! 0" "h1 = h ! 1" "h2 = h ! 2" "h3 = h ! 3" "h4 = h ! 4"
  define c1 x1 where s1: "c1 = drop_bit 26 h1" "x1 = h1 AND 0x3ffffff"
  define c2 x2 where s2: "c2 = drop_bit 26 (h2 + c1)" "x2 = (h2 + c1) AND 0x3ffffff"
  define c3 x3 where s3: "c3 = drop_bit 26 (h3 + c2)" "x3 = (h3 + c2) AND 0x3ffffff"
  define c4 x4 where s4: "c4 = drop_bit 26 (h4 + c3)" "x4 = (h4 + c3) AND 0x3ffffff"
  define c5 x0 where s5: "c5 = drop_bit 26 (h0 + c4 * 5)" "x0 = (h0 + c4 * 5) AND 0x3ffffff"
  have res: "poly_full_carry h = [x0, x1 + c5, x2, x3, x4]"
    by (simp add: poly_full_carry_def hs s1 s2 s3 s4 s5 Let_def)
  have b: "unat h0 < 2 ^ 26" "unat h1 < 2 ^ 26 + 2 ^ 10" "unat h2 < 2 ^ 26" "unat h3 < 2 ^ 26" "unat h4 < 2 ^ 26"
    using assms by (simp_all add: h_ok_def hs)
  have e1: "unat x1 + 2 ^ 26 * unat c1 = unat h1 \<and> unat x1 < 2 ^ 26 \<and> unat c1 \<le> 1"
    unfolding s1 using b by (intro carry26_first) simp
  have e2: "unat x2 + 2 ^ 26 * unat c2 = unat h2 + unat c1 \<and> unat x2 < 2 ^ 26 \<and> unat c2 \<le> 1"
    unfolding s2 using b e1 by (intro carry26) simp
  have e3: "unat x3 + 2 ^ 26 * unat c3 = unat h3 + unat c2 \<and> unat x3 < 2 ^ 26 \<and> unat c3 \<le> 1"
    unfolding s3 using b e2 by (intro carry26) simp
  have e4: "unat x4 + 2 ^ 26 * unat c4 = unat h4 + unat c3 \<and> unat x4 < 2 ^ 26 \<and> unat c4 \<le> 1"
    unfolding s4 using b e3 by (intro carry26) simp
  have m5: "unat (c4 * 5) = 5 * unat c4" using e4 by (simp add: mult5_le1)
  have e5: "unat x0 + 2 ^ 26 * unat c5 = unat h0 + 5 * unat c4 \<and> unat x0 < 2 ^ 26 \<and> unat c5 \<le> 1"
    unfolding s5 m5 [symmetric] using b e4 m5 by (intro carry26) simp
  have x1: "unat x1 + unat c5 < 2 ^ 26"
    using b e1 e2 e3 e4 e5 by (cases "unat c4 = 0") auto
  then have z1: "unat (x1 + c5) = unat x1 + unat c5" by (simp add: unat_add32)
  have "val5 (poly_full_carry h) + P1305 * unat c4 = val5 h"
    unfolding res using e1 e2 e3 e4 e5 z1 by (simp add: val5_def P1305_def hs)
  then have "val5 (poly_full_carry h) mod P1305 = val5 h mod P1305"
    by (metis mod_mult_self2)
  then show ?thesis using e2 e3 e4 e5 x1 z1 by (simp add: res)
qed

lemma val5_less: "limbs26 h \<Longrightarrow> val5 h < 2 ^ 130"
  by (simp add: limbs26_def all_less_5 val5_def)

lemma top_bit:
  fixes g :: u32
  shows "drop_bit 31 g = (if unat g < 2 ^ 31 then 0 else 1)"
proof -
  have "unat (drop_bit 31 g) = (if unat g < 2 ^ 31 then 0 else 1)"
    using u32_bound [of g] by (auto simp: unat_drop_bit div_if)
  then show ?thesis by (simp add: word_unat_eq_iff split: if_splits)
qed

lemma borrow26:
  fixes t :: u32
  assumes "unat t \<le> 2 ^ 26"
  shows "drop_bit 31 (t - push_bit 26 1) = (if unat t = 2 ^ 26 then 0 else 1)"
proof (cases "unat t = 2 ^ 26")
  case True
  then have "t = push_bit 26 1" by (simp add: word_unat_eq_iff unat_push_bit)
  then show ?thesis by simp
next
  case False
  then have lt: "unat t < 2 ^ 26" using assms by simp
  then have "t < push_bit 26 1" by (simp add: word_less_nat_alt unat_push_bit)
  then have "unat (t - push_bit 26 1) = unat t + 2 ^ 32 - 2 ^ 26"
    using lt by (simp add: unat_sub_if_size word_less_nat_alt word_size not_le unat_push_bit)
  then show ?thesis using False by (simp add: top_bit)
qed

lemma poly_select_correct:
  assumes "limbs26 h"
  shows "limbs26 (poly_select h) \<and> val5 (poly_select h) = val5 h mod P1305"
proof -
  define h0 h1 h2 h3 h4 where hs: "h0 = h ! 0" "h1 = h ! 1" "h2 = h ! 2" "h3 = h ! 3" "h4 = h ! 4"
  define c0 x0 where s0: "c0 = drop_bit 26 (h0 + 5)" "x0 = (h0 + 5) AND 0x3ffffff"
  define c1 x1 where s1: "c1 = drop_bit 26 (h1 + c0)" "x1 = (h1 + c0) AND 0x3ffffff"
  define c2 x2 where s2: "c2 = drop_bit 26 (h2 + c1)" "x2 = (h2 + c1) AND 0x3ffffff"
  define c3 x3 where s3: "c3 = drop_bit 26 (h3 + c2)" "x3 = (h3 + c2) AND 0x3ffffff"
  define t where t: "t = h4 + c3"
  have b: "unat h0 < 2 ^ 26" "unat h1 < 2 ^ 26" "unat h2 < 2 ^ 26" "unat h3 < 2 ^ 26" "unat h4 < 2 ^ 26"
    using assms by (simp_all add: limbs26_def hs)
  have len: "length h = 5" using assms by (simp add: limbs26_def)
  have e0: "unat x0 + 2 ^ 26 * unat c0 = unat h0 + 5 \<and> unat x0 < 2 ^ 26 \<and> unat c0 \<le> 1"
    unfolding s0 using carry26 [of h0 5] b by simp
  have e1: "unat x1 + 2 ^ 26 * unat c1 = unat h1 + unat c0 \<and> unat x1 < 2 ^ 26 \<and> unat c1 \<le> 1"
    unfolding s1 using b e0 by (intro carry26) simp
  have e2: "unat x2 + 2 ^ 26 * unat c2 = unat h2 + unat c1 \<and> unat x2 < 2 ^ 26 \<and> unat c2 \<le> 1"
    unfolding s2 using b e1 by (intro carry26) simp
  have e3: "unat x3 + 2 ^ 26 * unat c3 = unat h3 + unat c2 \<and> unat x3 < 2 ^ 26 \<and> unat c3 \<le> 1"
    unfolding s3 using b e2 by (intro carry26) simp
  have ut: "unat t = unat h4 + unat c3" unfolding t using b e3 by (intro unat_add32) simp
  define g mk where g: "g = t - push_bit 26 1" "mk = drop_bit 31 g - 1"
  have sel: "poly_select h = [(h0 AND NOT mk) OR (x0 AND mk), (h1 AND NOT mk) OR (x1 AND mk),
      (h2 AND NOT mk) OR (x2 AND mk), (h3 AND NOT mk) OR (x3 AND mk), (h4 AND NOT mk) OR (g AND mk)]"
    by (simp only: poly_select_def Let_def hs s0 s1 s2 s3 t g)
  have tle: "unat t \<le> 2 ^ 26" using ut b e3 by simp
  have res: "poly_select h = (if unat t = 2 ^ 26 then [x0, x1, x2, x3, 0] else [h0, h1, h2, h3, h4])"
  proof (cases "unat t = 2 ^ 26")
    case True
    then have "t = push_bit 26 1" by (simp add: word_unat_eq_iff unat_push_bit)
    then have "g = 0" "mk = - 1" by (simp_all add: g)
    then show ?thesis using True by (simp add: sel)
  next
    case False
    then have "mk = 0" using borrow26 [OF tle] by (simp add: g)
    then show ?thesis using False by (simp add: sel)
  qed
  have v: "val5 h = unat h0 + 2 ^ 26 * unat h1 + 2 ^ 52 * unat h2 + 2 ^ 78 * unat h3 + 2 ^ 104 * unat h4"
    by (simp only: val5_def hs)
  have T: "val5 h + 5 = unat x0 + 2 ^ 26 * unat x1 + 2 ^ 52 * unat x2 + 2 ^ 78 * unat x3 + 2 ^ 104 * unat t"
    unfolding v using e0 e1 e2 e3 ut by simp
  have low: "unat x0 + 2 ^ 26 * unat x1 + 2 ^ 52 * unat x2 + 2 ^ 78 * unat x3 < 2 ^ 104"
    using e0 e1 e2 e3 by simp
  show ?thesis
  proof (cases "unat t = 2 ^ 26")
    case True
    then have "val5 h = val5 (poly_select h) + P1305" "val5 (poly_select h) < P1305"
      unfolding res using T low by (simp_all add: val5_def P1305_def)
    then show ?thesis using True e0 e1 e2 e3 by (simp add: res)
  next
    case False
    then have "unat t < 2 ^ 26" using ut b e3 by simp
    then have "val5 h < P1305" using T low by (simp add: P1305_def)
    then show ?thesis using False b v by (simp add: res val5_def)
  qed
qed

lemma and_ones32: "x AND 0xffffffff = (x :: u32)"
proof -
  have "(0xffffffff :: u32) = - 1" by simp
  then show ?thesis by (simp only: and.right_neutral)
qed

definition val4 :: "u32 list \<Rightarrow> nat" where
  "val4 w = unat (w ! 0) + 2 ^ 32 * unat (w ! 1) + 2 ^ 64 * unat (w ! 2) + 2 ^ 96 * unat (w ! 3)"

lemma limbs_pack_sum:
  fixes a b c d e :: nat
  shows "a + 2 ^ 26 * b + 2 ^ 52 * c + 2 ^ 78 * d + 2 ^ 104 * e
    = (a + 2 ^ 26 * (b mod 2 ^ 6)) + 2 ^ 32 * (b div 2 ^ 6 + 2 ^ 20 * (c mod 2 ^ 12))
      + 2 ^ 64 * (c div 2 ^ 12 + 2 ^ 14 * (d mod 2 ^ 18)) + 2 ^ 96 * (d div 2 ^ 18 + 2 ^ 8 * (e mod 2 ^ 24))
      + 2 ^ 128 * (e div 2 ^ 24)"
proof -
  have split: "(a + 2 ^ 26 * r1) + 2 ^ 32 * (q1 + 2 ^ 20 * r2) + 2 ^ 64 * (q2 + 2 ^ 14 * r3)
      + 2 ^ 96 * (q3 + 2 ^ 8 * r4) + 2 ^ 128 * q4
    = a + 2 ^ 26 * (r1 + 2 ^ 6 * q1) + 2 ^ 52 * (r2 + 2 ^ 12 * q2) + 2 ^ 78 * (r3 + 2 ^ 18 * q3)
      + 2 ^ 104 * (r4 + 2 ^ 24 * q4)" for r1 r2 r3 r4 q1 q2 q3 q4 :: nat
    by simp
  show ?thesis unfolding split mod_mult_div_eq ..
qed

lemma val4_less: "val4 w < 2 ^ 128"
  using u32_bound [of "w ! 0"] u32_bound [of "w ! 1"] u32_bound [of "w ! 2"] u32_bound [of "w ! 3"]
  by (simp add: val4_def)

lemma poly_pack_correct:
  assumes "limbs26 h"
  shows "val4 (poly_pack h) = val5 h mod 2 ^ 128"
proof -
  define h0 h1 h2 h3 h4 where hs: "h0 = h ! 0" "h1 = h ! 1" "h2 = h ! 2" "h3 = h ! 3" "h4 = h ! 4"
  have b: "unat h0 < 2 ^ 26" "unat h1 < 2 ^ 26" "unat h2 < 2 ^ 26" "unat h3 < 2 ^ 26" "unat h4 < 2 ^ 26"
    using assms by (simp_all add: limbs26_def hs)
  have d: "unat (drop_bit 6 h1) < 2 ^ 20" "unat (drop_bit 12 h2) < 2 ^ 14" "unat (drop_bit 18 h3) < 2 ^ 8"
    using b by (simp_all only: unat_drop_bit) (auto intro: less_mult_imp_div_less)
  have w: "unat (h0 OR push_bit 26 h1) = unat h0 + 2 ^ 26 * (unat h1 mod 2 ^ 6)"
    "unat (drop_bit 6 h1 OR push_bit 20 h2) = unat h1 div 2 ^ 6 + 2 ^ 20 * (unat h2 mod 2 ^ 12)"
    "unat (drop_bit 12 h2 OR push_bit 14 h3) = unat h2 div 2 ^ 12 + 2 ^ 14 * (unat h3 mod 2 ^ 18)"
    "unat (drop_bit 18 h3 OR push_bit 8 h4) = unat h3 div 2 ^ 18 + 2 ^ 8 * (unat h4 mod 2 ^ 24)"
    using unat_funnel [OF b(1), of h1] unat_funnel [OF d(1), of h2] unat_funnel [OF d(2), of h3]
      unat_funnel [OF d(3), of h4] by (simp_all add: unat_drop_bit)
  have v: "val5 h = unat h0 + 2 ^ 26 * unat h1 + 2 ^ 52 * unat h2 + 2 ^ 78 * unat h3 + 2 ^ 104 * unat h4"
    by (simp only: val5_def hs)
  have p: "poly_pack h = [h0 OR push_bit 26 h1, drop_bit 6 h1 OR push_bit 20 h2,
      drop_bit 12 h2 OR push_bit 14 h3, drop_bit 18 h3 OR push_bit 8 h4]"
    by (simp only: poly_pack_def Let_def hs and_ones32)
  have "val5 h = val4 (poly_pack h) + 2 ^ 128 * (unat h4 div 2 ^ 24)"
    unfolding v limbs_pack_sum [of "unat h0"] p val4_def nth_Cons_0 nth_Cons_numeral by (simp add: w)
  then show ?thesis using val4_less [of "poly_pack h"] by simp
qed

text \<open>The branch-free carry-out is the carry of the 33-bit sum.\<close>

lemma poly_carry_correct:
  assumes "unat cin \<le> 1" "sm = a + b + cin"
  shows "unat a + unat b + unat cin = unat sm + 2 ^ 32 * unat (poly_carry a b sm) \<and> unat (poly_carry a b sm) \<le> 1"
proof -
  have bit31: "bit x 31 \<longleftrightarrow> 2 ^ 31 \<le> unat x" for x :: u32
    using top_bit [of x] bit_iff_odd_drop_bit [of x 31] by (simp split: if_splits)
  have sm: "unat sm = (unat a + unat b + unat cin) mod 2 ^ 32"
    unfolding assms(2) by (simp add: unat_word_ariths mod_simps)
  let ?c = "(bit a 31 \<and> bit b 31) \<or> ((bit a 31 \<or> bit b 31) \<and> \<not> bit sm 31)"
  have "drop_bit 31 x = of_bool (bit x 31)" for x :: u32
    unfolding top_bit bit31 by simp
  then have c: "poly_carry a b sm = of_bool ?c"
    by (simp only: poly_carry_def bit_or_iff bit_and_iff bit_not_iff) simp
  define s where "s = unat a + unat b + unat cin"
  have s: "s < 2 * 2 ^ 32" using u32_bound [of a] u32_bound [of b] assms(1) by (simp add: s_def)
  show ?thesis
  proof (cases "s < 2 ^ 32")
    case True
    then have "unat sm = s" using sm by (simp add: s_def)
    then have "\<not> ?c" unfolding bit31 using True by (auto simp: s_def)
    then show ?thesis using \<open>unat sm = s\<close> by (simp add: c s_def)
  next
    case False
    then have "unat sm + 2 ^ 32 = s"
      using sm s le_mod_geq [of "2 ^ 32" s] by (simp add: s_def)
    then have "?c" unfolding bit31 using u32_bound [of a] u32_bound [of b] assms(1) False
      by (auto simp: s_def)
    then show ?thesis using \<open>unat sm + 2 ^ 32 = s\<close> by (simp add: c s_def)
  qed
qed

lemma poly_add_pad_correct: "val4 (poly_add_pad h pad) = (val4 h + val4 pad) mod 2 ^ 128"
proof -
  define a0 b0 s0 c0 where d0: "a0 = h ! 0" "b0 = pad ! 0" "s0 = a0 + b0" "c0 = poly_carry a0 b0 s0"
  define a1 b1 s1 c1 where d1: "a1 = h ! 1" "b1 = pad ! 1" "s1 = a1 + b1 + c0" "c1 = poly_carry a1 b1 s1"
  define a2 b2 s2 c2 where d2: "a2 = h ! 2" "b2 = pad ! 2" "s2 = a2 + b2 + c1" "c2 = poly_carry a2 b2 s2"
  define a3 b3 s3 c3 where d3: "a3 = h ! 3" "b3 = pad ! 3" "s3 = a3 + b3 + c2" "c3 = poly_carry a3 b3 s3"
  have res: "poly_add_pad h pad = [s0, s1, s2, s3]"
    by (simp add: poly_add_pad_def Let_def d0 d1 d2 d3)
  have e0: "unat a0 + unat b0 = unat s0 + 2 ^ 32 * unat c0 \<and> unat c0 \<le> 1"
    using poly_carry_correct [of 0 s0 a0 b0] by (simp add: d0)
  have e1: "unat a1 + unat b1 + unat c0 = unat s1 + 2 ^ 32 * unat c1 \<and> unat c1 \<le> 1"
    unfolding d1(4) using e0 d1(3) by (intro poly_carry_correct) simp_all
  have e2: "unat a2 + unat b2 + unat c1 = unat s2 + 2 ^ 32 * unat c2 \<and> unat c2 \<le> 1"
    unfolding d2(4) using e1 d2(3) by (intro poly_carry_correct) simp_all
  have e3: "unat a3 + unat b3 + unat c2 = unat s3 + 2 ^ 32 * unat c3 \<and> unat c3 \<le> 1"
    unfolding d3(4) using e2 d3(3) by (intro poly_carry_correct) simp_all
  have v: "val4 h = unat a0 + 2 ^ 32 * unat a1 + 2 ^ 64 * unat a2 + 2 ^ 96 * unat a3"
    "val4 pad = unat b0 + 2 ^ 32 * unat b1 + 2 ^ 64 * unat b2 + 2 ^ 96 * unat b3"
    by (simp_all only: val4_def d0 d1 d2 d3)
  have w: "val4 (poly_add_pad h pad) = unat s0 + 2 ^ 32 * unat s1 + 2 ^ 64 * unat s2 + 2 ^ 96 * unat s3"
    by (simp add: res val4_def)
  have "val4 h + val4 pad = val4 (poly_add_pad h pad) + 2 ^ 128 * unat c3"
    unfolding v w using e0 e1 e2 e3 by simp
  then show ?thesis using val4_less [of "poly_add_pad h pad"] by simp
qed

lemma poly_finish_words_correct:
  assumes "h_ok h"
  shows "val4 (poly_finish_words h pad) = (val5 h mod P1305 + val4 pad) mod 2 ^ 128"
proof -
  have "val5 (poly_select (poly_full_carry h)) = val5 h mod P1305"
    using poly_full_carry_correct [OF assms] poly_select_correct by simp
  then have "val4 (poly_pack (poly_select (poly_full_carry h))) = val5 h mod P1305 mod 2 ^ 128"
    using poly_full_carry_correct [OF assms] poly_select_correct poly_pack_correct by simp
  then show ?thesis
    unfolding poly_finish_words_def poly_add_pad_correct by (simp only: mod_add_left_eq)
qed

lemma ucast_and_ff: "(ucast (v AND 0xff :: u32) :: u8) = ucast v"
proof -
  have "(0xff :: u32) = mask 8" by (simp add: mask_eq_exp_minus_1)
  then have "v AND 0xff = take_bit 8 v" by (simp only: take_bit_eq_mask)
  then show ?thesis
    by (intro bit_word_eqI) (simp add: bit_ucast_iff bit_take_bit_iff)
qed

lemma le_num_U32TO8: "le_num (U32TO8 w) = unat w"
proof -
  have "U32TO8 w = le_bytes 4 w"
    by (simp add: U32TO8_def ucast_and_ff le_bytes_Suc numeral_eq_Suc drop_bit_drop_bit)
  moreover have "le_num (le_bytes 4 w) = unat (le_word (le_bytes 4 w) :: u32)"
    by (rule unat_le_word [symmetric]) simp
  ultimately show ?thesis by simp
qed

lemma length_U32TO8 [simp]: "length (U32TO8 w) = 4"
  by (simp add: U32TO8_def)

lemma finish_bytes:
  "length w = 4 \<Longrightarrow> le_num (concat (map U32TO8 w)) = val4 w \<and> length (concat (map U32TO8 w)) = 16"
proof -
  assume "length w = 4"
  then obtain a b c d where "w = [a, b, c, d]"
    by (auto simp: length_Suc_conv eval_nat_numeral)
  then show ?thesis by (simp add: le_num_append le_num_U32TO8 val4_def)
qed

section \<open>The multiplier\<close>

text \<open>The clamping masks of the limbs are the RFC's byte masks seen through the funnel shifts.\<close>

lemma drop_bit_and_range:
  fixes x :: u32
  shows "drop_bit 26 x = drop_bit 26 x AND 0x3f" "drop_bit 20 x = drop_bit 20 x AND 0xfff"
    "drop_bit 14 x = drop_bit 14 x AND 0x3ffff"
    "push_bit 6 x = push_bit 6 x AND 0xffffffc0" "push_bit 12 x = push_bit 12 x AND 0xfffff000"
    "push_bit 18 x = push_bit 18 x AND 0xfffc0000"
proof -
  have d: "drop_bit n x = drop_bit n x AND drop_bit n (- 1)" for n
    by (simp only: drop_bit_and [symmetric] and.right_neutral)
  have p: "push_bit n x = push_bit n x AND push_bit n (- 1)" for n
    by (simp only: push_bit_and [symmetric] and.right_neutral)
  have e: "drop_bit 26 (- 1 :: u32) = 0x3f" "drop_bit 20 (- 1 :: u32) = 0xfff" "drop_bit 14 (- 1 :: u32) = 0x3ffff"
    "push_bit 6 (- 1 :: u32) = 0xffffffc0" "push_bit 12 (- 1 :: u32) = 0xfffff000" "push_bit 18 (- 1 :: u32) = 0xfffc0000"
    by code_simp+
  show "drop_bit 26 x = drop_bit 26 x AND 0x3f" using d [of 26] unfolding e .
  show "drop_bit 20 x = drop_bit 20 x AND 0xfff" using d [of 20] unfolding e .
  show "drop_bit 14 x = drop_bit 14 x AND 0x3ffff" using d [of 14] unfolding e .
  show "push_bit 6 x = push_bit 6 x AND 0xffffffc0" using p [of 6] unfolding e .
  show "push_bit 12 x = push_bit 12 x AND 0xfffff000" using p [of 12] unfolding e .
  show "push_bit 18 x = push_bit 18 x AND 0xfffc0000" using p [of 18] unfolding e .
qed

lemma funnel_masks:
  fixes x y k m n c d :: u32
  assumes "x = x AND k" "y = y AND n" "k AND m = k AND c AND 0x3ffffff" "n AND m = n AND d AND 0x3ffffff"
  shows "(x OR y) AND m = ((x AND c) OR (y AND d)) AND 0x3ffffff"
proof -
  have "(x OR y) AND m = (x AND (k AND m)) OR (y AND (n AND m))"
    using assms(1,2) by (metis and.assoc bit.conj_disj_distrib2)
  also have "\<dots> = ((x AND k) AND c AND 0x3ffffff) OR ((y AND n) AND d AND 0x3ffffff)"
    unfolding assms(3,4) by (simp only: and.assoc)
  also have "\<dots> = ((x AND c) OR (y AND d)) AND 0x3ffffff"
    unfolding assms(1,2) [symmetric] by (simp only: bit.conj_disj_distrib2 and.assoc)
  finally show ?thesis .
qed

lemma clamp_limbs:
  fixes t0 t1 t2 t3 :: u32
  shows "(drop_bit 26 t0 OR push_bit 6 t1) AND 0x3ffff03
      = (drop_bit 26 (t0 AND 0x0fffffff) OR push_bit 6 (t1 AND 0x0ffffffc)) AND 0x3ffffff"
    "(drop_bit 20 t1 OR push_bit 12 t2) AND 0x3ffc0ff
      = (drop_bit 20 (t1 AND 0x0ffffffc) OR push_bit 12 (t2 AND 0x0ffffffc)) AND 0x3ffffff"
    "(drop_bit 14 t2 OR push_bit 18 t3) AND 0x3f03fff
      = (drop_bit 14 (t2 AND 0x0ffffffc) OR push_bit 18 (t3 AND 0x0ffffffc)) AND 0x3ffffff"
    "drop_bit 8 t3 AND 0x00fffff = drop_bit 8 (t3 AND 0x0ffffffc)"
    "t0 AND 0x3ffffff = (t0 AND 0x0fffffff) AND 0x3ffffff"
proof -
  show "(drop_bit 26 t0 OR push_bit 6 t1) AND 0x3ffff03
      = (drop_bit 26 (t0 AND 0x0fffffff) OR push_bit 6 (t1 AND 0x0ffffffc)) AND 0x3ffffff"
    unfolding drop_bit_and push_bit_and
    by (rule funnel_masks [OF drop_bit_and_range(1) drop_bit_and_range(4)]; code_simp)
  show "(drop_bit 20 t1 OR push_bit 12 t2) AND 0x3ffc0ff
      = (drop_bit 20 (t1 AND 0x0ffffffc) OR push_bit 12 (t2 AND 0x0ffffffc)) AND 0x3ffffff"
    unfolding drop_bit_and push_bit_and
    by (rule funnel_masks [OF drop_bit_and_range(2) drop_bit_and_range(5)]; code_simp)
  show "(drop_bit 14 t2 OR push_bit 18 t3) AND 0x3f03fff
      = (drop_bit 14 (t2 AND 0x0ffffffc) OR push_bit 18 (t3 AND 0x0ffffffc)) AND 0x3ffffff"
    unfolding drop_bit_and push_bit_and
    by (rule funnel_masks [OF drop_bit_and_range(3) drop_bit_and_range(6)]; code_simp)
  show "drop_bit 8 t3 AND 0x00fffff = drop_bit 8 (t3 AND 0x0ffffffc)"
    unfolding drop_bit_and by (rule arg_cong [where f = "\<lambda>x. drop_bit 8 t3 AND x"]) code_simp
  show "t0 AND 0x3ffffff = (t0 AND 0x0fffffff) AND 0x3ffffff"
    unfolding and.assoc by (rule arg_cong [where f = "\<lambda>x. t0 AND x"]) code_simp
qed

lemma U8TO32_and:
  "U8TO32 [a AND a', b AND b', c AND c', d AND d'] = U8TO32 [a, b, c, d] AND U8TO32 [a', b', c', d']"
  unfolding U8TO32_def
  by (intro bit_word_eqI) (auto simp: bit_or_iff bit_and_iff bit_push_bit_iff bit_ucast_iff dest: bit_imp_le_length)

lemma clamped_words:
  assumes "length k = 16"
  shows "U8TO32 (bytes_at 0 4 (rfc_clamp k)) = U8TO32 (bytes_at 0 4 k) AND 0x0fffffff"
    "U8TO32 (bytes_at 4 4 (rfc_clamp k)) = U8TO32 (bytes_at 4 4 k) AND 0x0ffffffc"
    "U8TO32 (bytes_at 8 4 (rfc_clamp k)) = U8TO32 (bytes_at 8 4 k) AND 0x0ffffffc"
    "U8TO32 (bytes_at 12 4 (rfc_clamp k)) = U8TO32 (bytes_at 12 4 k) AND 0x0ffffffc"
proof -
  obtain k0 k1 k2 k3 k4 k5 k6 k7 k8 k9 k10 k11 k12 k13 k14 k15 where
    k: "k = [k0, k1, k2, k3, k4, k5, k6, k7, k8, k9, k10, k11, k12, k13, k14, k15]"
    using assms by (auto simp: length_Suc_conv eval_nat_numeral)
  have m: "U8TO32 [- 1, - 1, - 1, 15] = 0x0fffffff" "U8TO32 [252, - 1, - 1, 15] = 0x0ffffffc"
    by code_simp+
  have c: "bytes_at 0 4 (rfc_clamp k) = [k0 AND - 1, k1 AND - 1, k2 AND - 1, k3 AND 15]"
    "bytes_at 4 4 (rfc_clamp k) = [k4 AND 252, k5 AND - 1, k6 AND - 1, k7 AND 15]"
    "bytes_at 8 4 (rfc_clamp k) = [k8 AND 252, k9 AND - 1, k10 AND - 1, k11 AND 15]"
    "bytes_at 12 4 (rfc_clamp k) = [k12 AND 252, k13 AND - 1, k14 AND - 1, k15 AND 15]"
    by (simp_all add: rfc_clamp_def k bytes_at_def)
  have w: "bytes_at 0 4 k = [k0, k1, k2, k3]" "bytes_at 4 4 k = [k4, k5, k6, k7]"
    "bytes_at 8 4 k = [k8, k9, k10, k11]" "bytes_at 12 4 k = [k12, k13, k14, k15]"
    by (simp_all add: k bytes_at_def)
  show "U8TO32 (bytes_at 0 4 (rfc_clamp k)) = U8TO32 (bytes_at 0 4 k) AND 0x0fffffff"
    "U8TO32 (bytes_at 4 4 (rfc_clamp k)) = U8TO32 (bytes_at 4 4 k) AND 0x0ffffffc"
    "U8TO32 (bytes_at 8 4 (rfc_clamp k)) = U8TO32 (bytes_at 8 4 k) AND 0x0ffffffc"
    "U8TO32 (bytes_at 12 4 (rfc_clamp k)) = U8TO32 (bytes_at 12 4 k) AND 0x0ffffffc"
    unfolding c w U8TO32_and m by (rule refl)+
qed

lemma length_rfc_clamp [simp]: "length (rfc_clamp k) = length k"
  by (simp add: rfc_clamp_def)

text \<open>The initial state: a clamped multiplier, and the pad.\<close>

lemma poly1305_init_r:
  assumes "length key = 32"
  shows "r_ok (p_r (poly1305_init key)) \<and> val5 (p_r (poly1305_init key)) = le_num (rfc_clamp (take 16 key))"
proof -
  let ?k = "take 16 key" and ?c = "rfc_clamp (take 16 key)"
  define u0 u1 u2 u3 where us: "u0 = U8TO32 (bytes_at 0 4 ?c)" "u1 = U8TO32 (bytes_at 4 4 ?c)"
    "u2 = U8TO32 (bytes_at 8 4 ?c)" "u3 = U8TO32 (bytes_at 12 4 ?c)"
  have len: "length ?k = 16" using assms by simp
  have sl: "bytes_at 0 4 key = bytes_at 0 4 ?k" "bytes_at 4 4 key = bytes_at 4 4 ?k"
    "bytes_at 8 4 key = bytes_at 8 4 ?k" "bytes_at 12 4 key = bytes_at 12 4 ?k"
    using assms by (simp_all add: bytes_at_def drop_take)
  define m1 m2 m3 where ms: "m1 = (drop_bit 26 u0 OR push_bit 6 u1) AND 0x3ffffff"
    "m2 = (drop_bit 20 u1 OR push_bit 12 u2) AND 0x3ffffff" "m3 = (drop_bit 14 u2 OR push_bit 18 u3) AND 0x3ffffff"
  have r: "p_r (poly1305_init key) = [u0 AND 0x3ffffff, m1, m2, m3, drop_bit 8 u3]"
    unfolding poly1305_init_def Let_def poly1305_state.simps us clamped_words [OF len] ms
      clamp_limbs [symmetric] sl by (rule refl)
  have mv: "unat m1 = unat u0 div 2 ^ 26 + 2 ^ 6 * (unat u1 mod 2 ^ 20)"
    "unat m2 = unat u1 div 2 ^ 20 + 2 ^ 12 * (unat u2 mod 2 ^ 14)"
    "unat m3 = unat u2 div 2 ^ 14 + 2 ^ 18 * (unat u3 mod 2 ^ 8)"
    unfolding ms by (rule limb_values)+
  have mb: "unat m1 < 2 ^ 26" "unat m2 < 2 ^ 26" "unat m3 < 2 ^ 26"
    by (simp_all add: ms unat_and_mask26)
  have uu: "unat u0 = le_num (bytes_at 0 4 ?c)" "unat u1 = le_num (bytes_at 4 4 ?c)"
    "unat u2 = le_num (bytes_at 8 4 ?c)" "unat u3 = le_num (bytes_at 12 4 ?c)"
    unfolding us using len by (simp_all add: unat_U8TO32 del: bytes_at_0)
  have lc: "length ?c = 16" using len by simp
  have "unat u0 mod 2 ^ 26 + 2 ^ 26 * unat m1 + 2 ^ 52 * unat m2 + 2 ^ 78 * unat m3 + 2 ^ 104 * (unat u3 div 2 ^ 8) = le_num ?c"
    unfolding block_words [OF lc] uu [symmetric] mv by (rule limbs_sum)
  moreover have "unat u3 div 2 ^ 8 < 2 ^ 24"
    using u32_bound [of u3] by (intro less_mult_imp_div_less) simp
  ultimately show ?thesis
    unfolding r r_ok_def all_less_5 using mb by (simp add: val5_def unat_and_mask26 unat_drop_bit)
qed

lemma poly1305_init_pad:
  assumes "length key = 32"
  shows "val4 (p_pad (poly1305_init key)) = le_num (bytes_at 16 16 key)"
proof -
  have sl: "bytes_at 16 4 key = bytes_at 0 4 (bytes_at 16 16 key)" "bytes_at 20 4 key = bytes_at 4 4 (bytes_at 16 16 key)"
    "bytes_at 24 4 key = bytes_at 8 4 (bytes_at 16 16 key)" "bytes_at 28 4 key = bytes_at 12 4 (bytes_at 16 16 key)"
    by (simp_all add: bytes_at_def drop_take)
  have "length (bytes_at 16 16 key) = 16" using assms by simp
  then show ?thesis
    unfolding block_words [OF \<open>length (bytes_at 16 16 key) = 16\<close>] sl [symmetric] using assms
    by (simp add: poly1305_init_def Let_def val4_def unat_U8TO32)
qed

section \<open>The block loop\<close>

definition HIBIT :: u32 where
  "HIBIT = push_bit 24 1"

lemma unat_HIBIT: "unat HIBIT = 2 ^ 24"
  by (simp add: HIBIT_def)

lemma poly_add_take: "poly_add hibit h (take 16 m) = poly_add hibit h m"
  by (simp add: poly_add_def bytes_at_def drop_take min_def)

lemma poly_block_correct:
  assumes "r_ok r" "h_ok h" "16 \<le> length m" "hibit = 0 \<or> hibit = push_bit 24 1"
  shows "h_ok (poly_block r hibit h m) \<and>
    val5 (poly_block r hibit h m) mod P1305 = ((val5 h + le_num (take 16 m) + 2 ^ 104 * unat hibit) * val5 r) mod P1305"
proof -
  have add: "(\<forall>i<5. unat (poly_add hibit h m ! i) \<le> 2 ^ 27 + 2 ^ 10) \<and>
      val5 (poly_add hibit h m) = val5 h + le_num (take 16 m) + 2 ^ 104 * unat hibit"
    using poly_add_correct [OF assms(2) _ assms(4), of "take 16 m"] assms(3) by (simp add: poly_add_take)
  show ?thesis
    unfolding poly_block_def using poly_mul_correct [OF assms(1)] add by simp
qed

lemma poly_step_mod:
  assumes "a' mod p = ((a + b) * r) mod p" "a mod p = c mod (p :: nat)"
  shows "a' mod p = ((c + b) * r) mod p"
  using assms by (metis mod_add_left_eq mod_mult_left_eq)

lemma le_num_hibit: "length m \<ge> 16 \<Longrightarrow> le_num (take 16 m @ [1]) = le_num (take 16 m) + 2 ^ 104 * unat HIBIT"
  by (simp add: le_num_append unat_HIBIT)

lemma poly_blocks_loop_correct:
  assumes "r_ok r" "h_ok h" "16 dvd length m" "val5 h mod P1305 = a mod P1305"
  shows "h_ok (poly_blocks_loop r HIBIT h m) \<and>
    val5 (poly_blocks_loop r HIBIT h m) mod P1305 = rfc_poly (val5 r) a m mod P1305"
  using assms(2-)
proof (induction m arbitrary: h a rule: length_induct)
  case (1 m)
  show ?case
  proof (cases "16 \<le> length m")
    case True
    let ?h = "poly_block r HIBIT h m"
    let ?a = "((a + le_num (take 16 m @ [1])) * val5 r) mod P1305"
    have b: "h_ok ?h \<and> val5 ?h mod P1305 = ((val5 h + le_num (take 16 m @ [1])) * val5 r) mod P1305"
      using poly_block_correct [OF assms(1) 1(2) True, of HIBIT] True
      by (simp only: le_num_hibit add.assoc) (simp add: HIBIT_def)
    then have "val5 ?h mod P1305 = ?a mod P1305"
      using poly_step_mod [OF _ 1(4)] by simp
    moreover have "16 dvd length (drop 16 m)" using 1(3) True by (simp add: dvd_diff_nat)
    moreover have "length (drop 16 m) < length m" using True by simp
    ultimately have "h_ok (poly_blocks_loop r HIBIT ?h (drop 16 m)) \<and>
        val5 (poly_blocks_loop r HIBIT ?h (drop 16 m)) mod P1305 = rfc_poly (val5 r) ?a (drop 16 m) mod P1305"
      using 1(1) b by blast
    moreover have "poly_blocks_loop r HIBIT h m = poly_blocks_loop r HIBIT ?h (drop 16 m)"
      using True by (simp add: poly_blocks_loop.simps [of r HIBIT h m])
    moreover have "rfc_poly (val5 r) a m = rfc_poly (val5 r) ?a (drop 16 m)"
      using True by (subst rfc_poly.simps) auto
    ultimately show ?thesis by simp
  next
    case False
    then have "m = []" using 1(3) by (auto dest: dvd_imp_le)
    then show ?thesis using 1
      by (simp add: poly_blocks_loop.simps [of r HIBIT h "[]"] rfc_poly.simps [of _ _ "[]"])
  qed
qed

section \<open>Streaming\<close>

lemma poly_block_append: "16 \<le> length xs \<Longrightarrow> poly_block r hb h (xs @ ys) = poly_block r hb h xs"
  by (simp add: poly_block_def poly_add_def bytes_at_append_left)

lemma poly_blocks_loop_append:
  "16 dvd length xs \<Longrightarrow> poly_blocks_loop r hb h (xs @ ys) = poly_blocks_loop r hb (poly_blocks_loop r hb h xs) ys"
proof (induction xs arbitrary: h rule: length_induct)
  case (1 xs)
  show ?case
  proof (cases "16 \<le> length xs")
    case True
    have "16 dvd length (drop 16 xs)" using 1(2) True by (simp add: dvd_diff_nat)
    moreover have "length (drop 16 xs) < length xs" using True by simp
    ultimately have "poly_blocks_loop r hb (poly_block r hb h xs) (drop 16 xs @ ys)
        = poly_blocks_loop r hb (poly_blocks_loop r hb (poly_block r hb h xs) (drop 16 xs)) ys"
      using 1(1) by blast
    then show ?thesis using True
      by (simp add: poly_blocks_loop.simps [of r hb h "xs @ ys"] poly_blocks_loop.simps [of r hb h xs] poly_block_append)
  next
    case False
    then have "xs = []" using 1(2) by (auto dest: dvd_imp_le)
    then show ?thesis by (simp add: poly_blocks_loop.simps [of r hb h "[]"])
  qed
qed

lemma poly_blocks_loop_short: "length m < 16 \<Longrightarrow> poly_blocks_loop r hb h m = h"
  by (simp add: poly_blocks_loop.simps [of r hb h m])

lemma poly_blocks_loop_one: "length m = 16 \<Longrightarrow> poly_blocks_loop r hb h m = poly_block r hb h m"
  by (simp add: poly_blocks_loop.simps [of r hb h m] poly_blocks_loop_short)

lemma rfc_poly_append: "16 dvd length xs \<Longrightarrow> rfc_poly r a (xs @ ys) = rfc_poly r (rfc_poly r a xs) ys"
proof (induction xs arbitrary: a rule: length_induct)
  case (1 xs)
  show ?case
  proof (cases "xs = []")
    case False
    then have len: "16 \<le> length xs" using 1(2) by (auto dest: dvd_imp_le)
    then have "16 dvd length (drop 16 xs)" "length (drop 16 xs) < length xs"
      using 1(2) by (simp_all add: dvd_diff_nat)
    moreover have "rfc_poly r a (xs @ ys) = rfc_poly r (((a + le_num (take 16 xs @ [1])) * r) mod P1305) (drop 16 xs @ ys)"
      using False len by (subst rfc_poly.simps) simp
    moreover have "rfc_poly r a xs = rfc_poly r (((a + le_num (take 16 xs @ [1])) * r) mod P1305) (drop 16 xs)"
      using False by (subst rfc_poly.simps) simp
    ultimately show ?thesis using 1(1) by simp
  qed (simp add: rfc_poly.simps [of _ _ "[]"])
qed

lemma rfc_poly_short: "B \<noteq> [] \<Longrightarrow> length B < 16 \<Longrightarrow> rfc_poly r a B = ((a + le_num (B @ [1])) * r) mod P1305"
  by (simp add: rfc_poly.simps [of r a B] rfc_poly.simps [of _ _ "[]"])

text \<open>The state after the bytes \<open>bs\<close>, however they were fed in.\<close>

definition poly_state :: "bytes \<Rightarrow> bytes \<Rightarrow> poly1305_state" where
  "poly_state key bs =
     (let full = 16 * (length bs div 16)
      in (poly1305_init key)\<lparr>p_h := poly_blocks_loop (p_r (poly1305_init key)) HIBIT [0, 0, 0, 0, 0] (take full bs),
            p_buffer := drop full bs\<rparr>)"

lemma poly_state_split:
  assumes "16 dvd length A" "length B < 16"
  shows "poly_state key (A @ B) = (poly1305_init key)\<lparr>p_h := poly_blocks_loop (p_r (poly1305_init key)) HIBIT [0, 0, 0, 0, 0] A,
      p_buffer := B\<rparr>"
proof -
  obtain n where n: "length A = 16 * n" using assms(1) by (rule dvdE)
  then have "16 * (length (A @ B) div 16) = length A" using assms(2) by simp
  then show ?thesis by (simp add: poly_state_def Let_def)
qed

lemma poly_init_final [simp]: "p_final (poly1305_init key) = False" "p_buffer (poly1305_init key) = []"
  "p_h (poly1305_init key) = [0, 0, 0, 0, 0]"
  by (simp_all add: poly1305_init_def Let_def)

lemma poly_state_Nil: "poly_state key [] = poly1305_init key"
proof -
  have "poly_state key ([] @ []) = poly1305_init key"
    by (subst poly_state_split)
       (simp_all add: poly_blocks_loop_short poly_init_final [symmetric] del: poly_init_final)
  then show ?thesis by simp
qed

lemma full_blocks_split:
  obtains "16 dvd length (take (16 * (length m div 16)) m)" "length (drop (16 * (length m div 16)) m) < 16"
    "m = take (16 * (length m div 16)) m @ drop (16 * (length m div 16)) m"
  by (simp add: min_absorb2 minus_mult_div_eq_mod)

lemma poly1305_blocks_state:
  assumes "16 dvd length A" "p_final st = False" "st = (poly1305_init key)\<lparr>p_h := poly_blocks_loop (p_r (poly1305_init key)) HIBIT [0, 0, 0, 0, 0] A, p_buffer := b\<rparr>"
  shows "poly1305_blocks st m = (poly1305_init key)\<lparr>p_h := poly_blocks_loop (p_r (poly1305_init key)) HIBIT [0, 0, 0, 0, 0] (A @ m), p_buffer := b\<rparr>"
  using assms by (simp add: poly1305_blocks_def poly_blocks_loop_append HIBIT_def Let_def)

lemma poly1305_update_state: "poly1305_update (poly_state key bs) m = poly_state key (bs @ m)"
proof -
  define A B where AB: "A = take (16 * (length bs div 16)) bs" "B = drop (16 * (length bs div 16)) bs"
  have A: "16 dvd length A" and B: "length B < 16" and bs: "bs = A @ B"
    unfolding AB by (rule full_blocks_split [of bs]; simp)+
  let ?st = "\<lambda>A b. (poly1305_init key)\<lparr>p_h := poly_blocks_loop (p_r (poly1305_init key)) HIBIT [0, 0, 0, 0, 0] A, p_buffer := b\<rparr>"
  have st: "poly_state key bs = ?st A B" unfolding bs by (rule poly_state_split [OF A B])
  have tail: "(let full = 16 * (length n div 16);
        st2 = (if length n \<ge> 16 then poly1305_blocks (?st C []) (take full n) else ?st C [])
      in st2\<lparr>p_buffer := drop full n\<rparr>) = poly_state key (C @ n)" if C: "16 dvd length C" for C n
  proof -
    let ?f = "16 * (length n div 16)"
    obtain d: "16 dvd length (take ?f n)" "length (drop ?f n) < 16" and n: "n = take ?f n @ drop ?f n"
      by (rule full_blocks_split)
    have "poly_state key (C @ n) = ?st (C @ take ?f n) (drop ?f n)"
      using poly_state_split [of "C @ take ?f n" "drop ?f n" key] C d n by simp
    moreover have "poly1305_blocks (?st C []) (take ?f n) = ?st (C @ take ?f n) []"
      using C by (intro poly1305_blocks_state) simp_all
    moreover have "length n < 16 \<Longrightarrow> ?f = 0" by simp
    ultimately show ?thesis by (simp add: Let_def)
  qed
  show ?thesis
  proof (cases "B = []")
    case True
    then show ?thesis using tail [OF A, of m] st bs
      by (simp add: poly1305_update_def Let_def split: if_splits)
  next
    case B0: False
    let ?w = "min (16 - length B) (length m)"
    show ?thesis
    proof (cases "length (B @ take ?w m) < 16")
      case True
      then have "take ?w m = m" using B by simp
      then have "poly1305_update (poly_state key bs) m = ?st A (B @ m)"
        using True B0 unfolding st poly1305_update_def by (simp add: Let_def)
      moreover have "poly_state key (A @ B @ m) = ?st A (B @ m)"
        using True \<open>take ?w m = m\<close> by (intro poly_state_split [OF A]) simp
      ultimately show ?thesis by (simp add: bs)
    next
      case False
      then have w: "?w = 16 - length B" "16 - length B \<le> length m" using B by simp_all
      let ?C = "A @ B @ take (16 - length B) m"
      have C: "16 dvd length ?C" using A B w by simp
      have "(poly1305_blocks (?st A B) (B @ take (16 - length B) m))\<lparr>p_buffer := []\<rparr> = ?st ?C []"
        using A by (subst poly1305_blocks_state [of A _ B key]) simp_all
      then have "poly1305_update (poly_state key bs) m = poly_state key (?C @ drop (16 - length B) m)"
        using B B0 tail [OF C, of "drop (16 - length B) m"] unfolding st poly1305_update_def
        by (simp add: Let_def w split: if_splits)
      then show ?thesis by (simp add: bs)
    qed
  qed
qed

section \<open>The tag\<close>

definition poly1305_auth :: "bytes \<Rightarrow> bytes list \<Rightarrow> bytes" where
  "poly1305_auth key ms = fst (poly1305_finish (fold (\<lambda>m st. poly1305_update st m) ms (poly1305_init key)))"

interpretation poly_feed: byte_feed poly_state poly1305_update
  by unfold_locales (rule poly1305_update_state)

lemma poly1305_updates: "fold (\<lambda>m st. poly1305_update st m) ms (poly_state key bs) = poly_state key (bs @ concat ms)"
  using poly_feed.feed_pieces [of key bs ms] by (simp add: foldl_conv_fold)

lemma h_ok_zero: "h_ok [0, 0, 0, 0, 0]" "val5 [0, 0, 0, 0, 0] = 0"
  by (simp_all add: h_ok_def val5_def)

lemma rfc_poly_less: "a < P1305 \<Longrightarrow> rfc_poly r a m < P1305"
proof (induction r a m rule: rfc_poly.induct)
  case (1 r a m)
  have "((a + le_num (take 16 m @ [1])) * r) mod P1305 < P1305" by (simp add: P1305_def)
  then show ?case using 1 by (subst rfc_poly.simps) auto
qed

text \<open>The accumulator when \<open>poly1305_finish\<close> has processed the last block.\<close>

lemma poly_finish_h:
  assumes "length key = 32" "16 dvd length A" "length B < 16"
  defines "st \<equiv> poly_state key (A @ B)"
  shows "\<exists>h. h_ok h \<and> val5 h mod P1305 = rfc_poly (le_num (rfc_clamp (take 16 key))) 0 (A @ B) \<and>
    fst (poly1305_finish st) = concat (map U32TO8 (poly_finish_words h (p_pad (poly1305_init key))))"
proof -
  let ?r = "p_r (poly1305_init key)" and ?R = "le_num (rfc_clamp (take 16 key))"
  define h where "h = poly_blocks_loop ?r HIBIT [0, 0, 0, 0, 0] A"
  have r: "r_ok ?r" "val5 ?r = ?R" using poly1305_init_r [OF assms(1)] by simp_all
  have h: "h_ok h \<and> val5 h mod P1305 = rfc_poly ?R 0 A mod P1305"
    unfolding h_def r(2) [symmetric] by (rule poly_blocks_loop_correct [OF r(1) _ assms(2)]) (simp_all add: h_ok_zero)
  have less: "rfc_poly ?R 0 m < P1305" for m by (rule rfc_poly_less) (simp add: P1305_def)
  have st: "st = (poly1305_init key)\<lparr>p_h := h, p_buffer := B\<rparr>"
    unfolding st_def h_def by (rule poly_state_split [OF assms(2,3)])
  show ?thesis
  proof (cases "B = []")
    case True
    then show ?thesis using h less [of A] by (intro exI [of _ h]) (simp add: st poly1305_finish_def Let_def)
  next
    case False
    let ?m = "B @ [1] @ replicate (16 - length B - 1) 0"
    have len: "length ?m = 16" using assms(3) by simp
    have num: "le_num ?m = le_num (B @ [1])" by (simp add: le_num_append)
    have b: "h_ok (poly_block ?r 0 h ?m) \<and> val5 (poly_block ?r 0 h ?m) mod P1305 = ((val5 h + le_num (B @ [1])) * ?R) mod P1305"
      using poly_block_correct [OF r(1) conjunct1 [OF h], of ?m 0] len num r(2) by simp
    then have "val5 (poly_block ?r 0 h ?m) mod P1305 = ((rfc_poly ?R 0 A + le_num (B @ [1])) * ?R) mod P1305"
      using poly_step_mod [OF _ conjunct2 [OF h]] by blast
    also have "\<dots> = rfc_poly ?R 0 (A @ B)"
      using False assms(2,3) by (simp add: rfc_poly_append rfc_poly_short)
    finally have v: "val5 (poly_block ?r 0 h ?m) mod P1305 = rfc_poly ?R 0 (A @ B)" .
    have "fst (poly1305_finish st) = concat (map U32TO8 (poly_finish_words (poly_block ?r 0 h ?m) (p_pad (poly1305_init key))))"
      using False poly_blocks_loop_one [OF len, of ?r 0 h] by (simp add: st poly1305_finish_def poly1305_blocks_def Let_def)
    then show ?thesis using b v by blast
  qed
qed

lemma length_poly_finish_words [simp]: "length (poly_finish_words h pad) = 4"
  by (simp add: poly_finish_words_def poly_add_pad_def Let_def)

lemma poly1305_auth_correct:
  assumes "length key = 32"
  shows "length (poly1305_auth key ms) = 16 \<and> le_num (poly1305_auth key ms) = poly1305_rfc key (concat ms)"
proof -
  define bs where "bs = concat ms"
  define f where "f = 16 * (length bs div 16)"
  obtain d: "16 dvd length (take f bs)" "length (drop f bs) < 16" and bs: "bs = take f bs @ drop f bs"
    unfolding f_def by (rule full_blocks_split [of bs])
  have "poly1305_auth key ms = fst (poly1305_finish (poly_state key (take f bs @ drop f bs)))"
    using poly1305_updates [of ms key "[]"] by (simp add: poly1305_auth_def poly_state_Nil bs_def)
  then obtain h where h: "h_ok h" "val5 h mod P1305 = rfc_poly (le_num (rfc_clamp (take 16 key))) 0 bs"
    and t: "poly1305_auth key ms = concat (map U32TO8 (poly_finish_words h (p_pad (poly1305_init key))))"
    using poly_finish_h [OF assms d] bs by auto
  have "val4 (poly_finish_words h (p_pad (poly1305_init key))) = poly1305_rfc key bs"
    unfolding poly_finish_words_correct [OF h(1)] poly1305_rfc_def h(2) poly1305_init_pad [OF assms] ..
  then show ?thesis
    using finish_bytes [of "poly_finish_words h (p_pad (poly1305_init key))"] by (simp add: t bs_def)
qed

text \<open>C31: Poly1305 is RFC 8439's: for a 32-byte key and a message fed to
  \<open>poly1305_update\<close> in pieces of any sizes, the 16 bytes \<open>poly1305_finish\<close> writes are, as a
  little-endian number, \<open>(((... + block) * r) mod (2 ^ 130 - 5) + s) mod 2 ^ 128\<close> for the clamped
  \<open>r\<close>: no 32-bit accumulator of the split products overflows, the branch-free reduction and carry
  chain are exact, and the tag does not depend on how the message was cut.\<close>

theorem poly1305_is_rfc8439:
  assumes "length key = 32"
  shows "length (poly1305_auth key ms) = 16 \<and> le_num (poly1305_auth key ms) = poly1305_rfc key (concat ms)"
  by (rule poly1305_auth_correct [OF assms])

text \<open>The test vector of RFC 8439, section 2.5.2, fed in three pieces.\<close>

definition rfc_2_5_2_key :: bytes where
  "rfc_2_5_2_key = [0x85, 0xd6, 0xbe, 0x78, 0x57, 0x55, 0x6d, 0x33, 0x7f, 0x44, 0x52, 0xfe, 0x42, 0xd5, 0x06, 0xa8,
     0x01, 0x03, 0x80, 0x8a, 0xfb, 0x0d, 0xb2, 0xfd, 0x4a, 0xbf, 0xf6, 0xaf, 0x41, 0x49, 0xf5, 0x1b]"

definition rfc_2_5_2_msg :: "bytes list" where
  "rfc_2_5_2_msg =
     [[0x43, 0x72, 0x79, 0x70, 0x74, 0x6f, 0x67],
      [0x72, 0x61, 0x70, 0x68, 0x69, 0x63, 0x20, 0x46, 0x6f, 0x72, 0x75, 0x6d, 0x20, 0x52, 0x65, 0x73, 0x65],
      [0x61, 0x72, 0x63, 0x68, 0x20, 0x47, 0x72, 0x6f, 0x75, 0x70]]"

theorem poly1305_is_rfc8439_witness:
  "length rfc_2_5_2_key = 32 \<and>
   le_num (poly1305_auth rfc_2_5_2_key rfc_2_5_2_msg) = poly1305_rfc rfc_2_5_2_key (concat rfc_2_5_2_msg) \<and>
   poly1305_auth rfc_2_5_2_key rfc_2_5_2_msg =
     [0xa8, 0x06, 0x1d, 0xc1, 0x30, 0x51, 0x36, 0xc6, 0xc2, 0x2b, 0x8b, 0xaf, 0x0c, 0x01, 0x27, 0xa9]"
proof -
  have len: "length rfc_2_5_2_key = 32" by (simp add: rfc_2_5_2_key_def)
  have "poly1305_auth rfc_2_5_2_key rfc_2_5_2_msg =
     [0xa8, 0x06, 0x1d, 0xc1, 0x30, 0x51, 0x36, 0xc6, 0xc2, 0x2b, 0x8b, 0xaf, 0x0c, 0x01, 0x27, 0xa9]"
    by code_simp
  then show ?thesis
    using len conjunct2 [OF poly1305_is_rfc8439 [OF len, of rfc_2_5_2_msg]] by simp
qed

end
