(* ===== verification/Crypto_AEAD.thy ===== *)
theory Crypto_AEAD
  imports AEAD_Interface Crypto_ChaCha20 Crypto_Poly1305_Tag
begin

unbundle bit_operations_syntax

text \<open>
  \<open>crypto/chacha20poly1305.c\<close>: the composition of RFC 8439, section 2.8, that the WireGuard
  transport, the Noise handshakes and the control-plane framing call.  Secret scrubbing
  (\<open>tl_secure_zero\<close>) acts on locals that no result depends on and has no counterpart.
  \<open>size_t\<close> is 32 bits wide on the target, so the cast \<open>(uint32_t)mlen\<close> is the identity.

  It is an \<open>aead_scheme\<close>: opening a sealed message gives the message back, and nothing but a
  sealed message opens.
\<close>

section \<open>The code\<close>

definition TAG_LEN :: nat where
  "TAG_LEN = 16"

definition ct_memeq :: "bytes \<Rightarrow> bytes \<Rightarrow> nat \<Rightarrow> u8" where
  "ct_memeq a b n = fold (\<lambda>i diff. diff OR (a ! i XOR b ! i)) [0..<n] 0"

definition init_ctx_with_nonce12 :: "bytes \<Rightarrow> bytes \<Rightarrow> u32 list" where
  "init_ctx_with_nonce12 key nonce =
     (chacha20_init key (le_word (bytes_at 4 8 nonce)))[13 := le_word (bytes_at 0 4 nonce)]"

definition poly1305_keygen :: "u32 list \<Rightarrow> bytes \<times> u32 list" where
  "poly1305_keygen ctx = (let (ctx', otk) = chacha20 True ctx (replicate 32 0) in (otk, ctx'))"

definition poly1305_pad16 :: "poly1305_state \<Rightarrow> nat \<Rightarrow> poly1305_state" where
  "poly1305_pad16 p already_in_len =
     (let pad = (16 - already_in_len mod 16) mod 16
      in if pad \<noteq> 0 then poly1305_update p (take pad (replicate 16 0)) else p)"

definition aead_tag :: "bytes \<Rightarrow> bytes \<Rightarrow> bytes \<Rightarrow> bytes" where
  "aead_tag otk aad ct =
     (let p = poly1305_init otk;
          p = (if length aad \<noteq> 0 then poly1305_update p aad else p);
          p = poly1305_pad16 p (length aad);
          p = (if length ct \<noteq> 0 then poly1305_update p ct else p);
          p = poly1305_pad16 p (length ct);
          lengths = le_bytes 8 (of_nat (length aad) :: u64) @ le_bytes 8 (of_nat (length ct) :: u64)
      in fst (poly1305_finish (poly1305_update p lengths)))"

text \<open>\<open>al\<close>: whether the caller's buffers are word aligned, which selects the path in \<open>chacha20()\<close>.\<close>

definition chacha20poly1305_encrypt :: "bool \<Rightarrow> bytes \<Rightarrow> bytes \<Rightarrow> bytes \<Rightarrow> bytes \<Rightarrow> bytes" where
  "chacha20poly1305_encrypt al m aad key nonce =
     (let (otk, ctx) = poly1305_keygen (init_ctx_with_nonce12 key nonce);
          out = (if length m \<noteq> 0 then snd (chacha20 al ctx m) else [])
      in out @ aead_tag otk aad out)"

definition chacha20poly1305_decrypt :: "bool \<Rightarrow> bytes \<Rightarrow> bytes \<Rightarrow> bytes \<Rightarrow> bytes \<Rightarrow> bytes option" where
  "chacha20poly1305_decrypt al c aad key nonce =
     (if length c < TAG_LEN then None
      else let mlen = length c - TAG_LEN;
               (otk, ctx) = poly1305_keygen (init_ctx_with_nonce12 key nonce);
               expected_tag = aead_tag otk aad (take mlen c)
           in if ct_memeq expected_tag (drop mlen c) TAG_LEN \<noteq> 0 then None
              else Some (if mlen \<noteq> 0 then snd (chacha20 al ctx (take mlen c)) else []))"

section \<open>Correctness\<close>

lemma ct_memeq_0: "ct_memeq a b n = 0 \<longleftrightarrow> (\<forall>i<n. a ! i = b ! i)"
  by (auto simp: ct_memeq_def fold_diff_zero)

lemma ct_memeq_eq: "length a = n \<Longrightarrow> length b = n \<Longrightarrow> ct_memeq a b n = 0 \<longleftrightarrow> a = b"
  by (auto simp: ct_memeq_0 intro: nth_equalityI)

text \<open>The one-time key and the message key stream of RFC 8439, section 2.6 and 2.8.\<close>

definition rfc_otk :: "bytes \<Rightarrow> bytes \<Rightarrow> bytes" where
  "rfc_otk key nonce = take 32 (keystream_block (init_ctx_with_nonce12 key nonce))"

definition pad16 :: "bytes \<Rightarrow> bytes" where
  "pad16 bs = replicate ((16 - length bs mod 16) mod 16) 0"

definition rfc_mac_data :: "bytes \<Rightarrow> bytes \<Rightarrow> bytes" where
  "rfc_mac_data aad ct = aad @ pad16 aad @ ct @ pad16 ct
     @ le_bytes 8 (of_nat (length aad) :: u64) @ le_bytes 8 (of_nat (length ct) :: u64)"

lemma length_init_ctx [simp]: "length (init_ctx_with_nonce12 key nonce) = 16"
  by (simp add: init_ctx_with_nonce12_def)

lemma poly1305_pad16_state:
  "poly1305_pad16 (poly_state otk bs) (length xs) = poly_state otk (bs @ pad16 xs)"
  by (simp add: poly1305_pad16_def pad16_def poly1305_update_state Let_def min_absorb1 less_imp_le)

lemma aead_tag_eq: "aead_tag otk aad ct = poly1305_auth otk [rfc_mac_data aad ct]"
proof -
  have upd: "(if length xs \<noteq> 0 then poly_state otk (bs @ xs) else poly_state otk bs) = poly_state otk (bs @ xs)" for bs xs
    by simp
  show ?thesis
    unfolding aead_tag_def Let_def poly_state_Nil [symmetric] upd poly1305_pad16_state poly1305_update_state
    by (simp add: poly1305_auth_def poly_state_Nil [symmetric] poly1305_update_state rfc_mac_data_def)
qed

lemma xor_bytes_zero: "n \<le> length k \<Longrightarrow> xor_bytes (replicate n 0) k = take n k"
  by (rule nth_equalityI) (simp_all add: xor_bytes_def)

lemma poly1305_keygen_eq:
  "poly1305_keygen (init_ctx_with_nonce12 key nonce) = (rfc_otk key nonce, bump_counter (init_ctx_with_nonce12 key nonce))"
proof -
  have b: "blocks_of 32 = Suc 0" by (simp add: blocks_of_def)
  show ?thesis
    by (simp add: poly1305_keygen_def chacha20_eq rfc_otk_def xor_bytes_zero b)
qed

lemma length_rfc_otk [simp]: "length (rfc_otk key nonce) = 32"
  by (simp add: rfc_otk_def)

definition rfc_cipher :: "bytes \<Rightarrow> bytes \<Rightarrow> bytes \<Rightarrow> bytes" where
  "rfc_cipher key nonce m =
     xor_bytes m (keystream (bump_counter (init_ctx_with_nonce12 key nonce)) (blocks_of (length m)))"

lemma cipher_eq: "(if length m \<noteq> 0 then snd (chacha20 al (bump_counter (init_ctx_with_nonce12 key nonce)) m) else []) = rfc_cipher key nonce m"
  by (simp add: chacha20_eq rfc_cipher_def xor_bytes_def)

lemma length_rfc_cipher [simp]: "length (rfc_cipher key nonce m) = length m"
  by (simp add: rfc_cipher_def blocks_of_def)

lemma rfc_cipher_twice: "rfc_cipher key nonce (rfc_cipher key nonce m) = m"
proof -
  have "length m \<le> 64 * blocks_of (length m)" by (simp add: blocks_of_def)
  then show ?thesis
    by (simp add: rfc_cipher_def [of _ _ "rfc_cipher key nonce m"]) (simp add: rfc_cipher_def xor_bytes_twice)
qed

lemma encrypt_eq:
  "chacha20poly1305_encrypt al m aad key nonce =
     rfc_cipher key nonce m @ aead_tag (rfc_otk key nonce) aad (rfc_cipher key nonce m)"
  unfolding chacha20poly1305_encrypt_def poly1305_keygen_eq Let_def case_prod_conv cipher_eq ..

lemma length_aead_tag [simp]: "length otk = 32 \<Longrightarrow> length (aead_tag otk aad ct) = 16"
  by (simp add: aead_tag_eq poly1305_auth_correct)

lemma decrypt_eq:
  "chacha20poly1305_decrypt al c aad key nonce =
     (if 16 \<le> length c \<and> drop (length c - 16) c = aead_tag (rfc_otk key nonce) aad (take (length c - 16) c)
      then Some (rfc_cipher key nonce (take (length c - 16) c)) else None)"
proof (cases "16 \<le> length c")
  case True
  have "(if length c - 16 \<noteq> 0 then snd (chacha20 al (bump_counter (init_ctx_with_nonce12 key nonce)) (take (length c - 16) c)) else [])
      = rfc_cipher key nonce (take (length c - 16) c)"
    using cipher_eq [of "take (length c - 16) c" al key nonce] by simp
  then show ?thesis
    using True
    by (auto simp: chacha20poly1305_decrypt_def TAG_LEN_def poly1305_keygen_eq Let_def ct_memeq_eq)
qed (simp add: chacha20poly1305_decrypt_def TAG_LEN_def)

lemma decrypt_encrypt: "chacha20poly1305_decrypt al (chacha20poly1305_encrypt al' m aad key nonce) aad key nonce = Some m"
  by (simp add: decrypt_eq encrypt_eq rfc_cipher_twice)

lemma decrypt_sealed:
  assumes "chacha20poly1305_decrypt al c aad key nonce = Some m"
  shows "c = chacha20poly1305_encrypt al' m aad key nonce"
proof -
  let ?n = "length c - 16"
  have t: "drop ?n c = aead_tag (rfc_otk key nonce) aad (take ?n c)" and m: "m = rfc_cipher key nonce (take ?n c)"
    using assms by (simp_all add: decrypt_eq split: if_splits)
  have "chacha20poly1305_encrypt al' m aad key nonce = take ?n c @ drop ?n c"
    unfolding encrypt_eq m rfc_cipher_twice t ..
  then show ?thesis by simp
qed

lemma length_encrypt: "length (chacha20poly1305_encrypt al m aad key nonce) = length m + 16"
  by (simp add: encrypt_eq)

lemma aligned_irrelevant:
  "chacha20poly1305_encrypt al m aad key nonce = chacha20poly1305_encrypt True m aad key nonce"
  "chacha20poly1305_decrypt al c aad key nonce = chacha20poly1305_decrypt True c aad key nonce"
  by (simp_all only: encrypt_eq decrypt_eq)

interpretation cc20: aead_scheme "\<lambda>m aad key nonce. Some (chacha20poly1305_encrypt True m aad key nonce)"
  "chacha20poly1305_decrypt True" 16
  by unfold_locales (auto simp: decrypt_encrypt length_encrypt dest: decrypt_sealed [where al' = True])

lemma decrypt_iff:
  "chacha20poly1305_decrypt al c aad key nonce = Some m \<longleftrightarrow> c = chacha20poly1305_encrypt True m aad key nonce"
  using cc20.unseal_iff [of c aad key nonce m] by (auto simp: aligned_irrelevant(2) [of al])

section \<open>Properties\<close>

text \<open>The AEAD is RFC 8439's: \<open>chacha20poly1305_encrypt\<close> outputs the message XORed with the key
  stream from block 1 on, followed by the Poly1305 tag under the first 32 bytes of block 0 of
  \<open>aad || pad16 || ciphertext || pad16 || len64(aad) || len64(ciphertext)\<close>, whatever the
  alignment of the caller's buffers.\<close>

theorem aead_is_rfc8439:
  "\<exists>tag. chacha20poly1305_encrypt al m aad key nonce = rfc_cipher key nonce m @ tag \<and> length tag = 16 \<and>
     le_num tag = poly1305_rfc (rfc_otk key nonce) (rfc_mac_data aad (rfc_cipher key nonce m))"
  using poly1305_auth_correct [of "rfc_otk key nonce" "[rfc_mac_data aad (rfc_cipher key nonce m)]"]
  by (intro exI [of _ "aead_tag (rfc_otk key nonce) aad (rfc_cipher key nonce m)"])
     (simp add: encrypt_eq aead_tag_eq)

text \<open>C33: Decryption accepts exactly the ciphertexts encryption produces: for a key, nonce and
  associated data, \<open>chacha20poly1305_decrypt\<close> returns \<open>m\<close> if and only if its input is the
  encryption of \<open>m\<close> (so a ciphertext with any bit changed opens to nothing or is itself the
  one encryption of another message), and an input shorter than the tag is refused.\<close>

theorem aead_decrypt_exact:
  "(chacha20poly1305_decrypt al c aad key nonce = Some m \<longleftrightarrow>
      c = chacha20poly1305_encrypt al' m aad key nonce) \<and>
   chacha20poly1305_decrypt al [] aad key nonce = None"
  using cc20.unseal_short [of "[]" aad key nonce]
  by (simp add: aligned_irrelevant(1) [of al'] decrypt_iff aligned_irrelevant(2) [of al "[]"])

end
