(* ===== verification/WG_Transport.thy ===== *)
theory WG_Transport
  imports WG_Replay Crypto_AEAD
begin

unbundle bit_operations_syntax

text \<open>
  \<open>wg_transport.c\<close> above the replay window: the session, the keypair generations, and the
  split encrypt and decrypt paths (reserve under the lock and seal outside it; begin under
  the lock, open outside it, commit under the lock).  The AEAD is the one of
  \<open>Crypto_AEAD\<close>; its argument \<open>al\<close> (alignment of the caller's buffers) is carried along.
  The locked steps are atomic, so an execution of several tasks is a sequence of steps;
  \<open>transport_step\<close> is that relation, with ghost fields that record which keypair a ticket
  and an accepted packet belong to.
\<close>

section \<open>The code\<close>

definition WG_MSG_TRANSPORT :: u8 where "WG_MSG_TRANSPORT = 4"
definition WG_KEY_LEN :: nat where "WG_KEY_LEN = 32"
definition WG_TAG_LEN :: nat where "WG_TAG_LEN = 16"
definition WG_TRANSPORT_HEADER_LEN :: nat where "WG_TRANSPORT_HEADER_LEN = 16"
definition WG_TRANSPORT_OVERHEAD :: nat where
  "WG_TRANSPORT_OVERHEAD = WG_TRANSPORT_HEADER_LEN + WG_TAG_LEN"

lemmas wg_lens [simp] = WG_KEY_LEN_def WG_TAG_LEN_def WG_TRANSPORT_HEADER_LEN_def WG_TRANSPORT_OVERHEAD_def

record wg_transport_session =
  send_key :: bytes
  recv_key :: bytes
  local_index :: u32
  remote_index :: u32
  send_counter :: u64
  gen :: u32
  valid :: bool
  replay :: wg_replay_window

record wg_tx_ticket =
  tx_key :: bytes
  tx_counter :: u64
  tx_remote_index :: u32

record wg_rx_ticket =
  rx_key :: bytes
  rx_counter :: u64
  rx_gen :: u32
  rx_plen :: nat

datatype wg_rx_commit_result = RX_OK | RX_REPLAY | RX_STALE

text \<open>The process-wide generation counter is passed in and out.\<close>

definition new_gen :: "u32 \<Rightarrow> u32 \<times> u32" where
  "new_gen s_next_gen = (let g = s_next_gen + 1 in (g, g))"

definition wg_transport_session_init ::
    "u32 \<Rightarrow> u32 \<Rightarrow> u32 \<Rightarrow> bytes \<Rightarrow> bytes \<Rightarrow> wg_transport_session \<times> u32" where
  "wg_transport_session_init s_next_gen local remote skey rkey =
     (let (g, s_next_gen) = new_gen s_next_gen
      in (\<lparr>send_key = take WG_KEY_LEN skey, recv_key = take WG_KEY_LEN rkey, local_index = local,
           remote_index = remote, send_counter = 0, gen = g, valid = True, replay = replay_zero\<rparr>, s_next_gen))"

definition session_zero :: wg_transport_session where
  "session_zero = \<lparr>send_key = replicate 32 0, recv_key = replicate 32 0, local_index = 0, remote_index = 0,
     send_counter = 0, gen = 0, valid = False, replay = replay_zero\<rparr>"

definition wg_transport_session_scrub :: "u32 \<Rightarrow> wg_transport_session \<times> u32" where
  "wg_transport_session_scrub s_next_gen =
     (let (g, s_next_gen) = new_gen s_next_gen in (session_zero\<lparr>gen := g\<rparr>, s_next_gen))"

definition counter_to_nonce :: "u64 \<Rightarrow> bytes" where
  "counter_to_nonce counter = le_bytes 4 (0 :: u32) @ le_bytes 4 (ucast counter :: u32)
     @ le_bytes 4 (ucast (drop_bit 32 counter) :: u32)"

definition wg_transport_tx_reserve :: "wg_transport_session \<Rightarrow> (wg_tx_ticket \<times> wg_transport_session) option" where
  "wg_transport_tx_reserve s =
     (if \<not> valid s then None
      else if send_counter s = WG_COUNTER_REJECT_AT then None
      else Some (\<lparr>tx_key = send_key s, tx_counter = send_counter s, tx_remote_index = remote_index s\<rparr>,
                 s\<lparr>send_counter := send_counter s + 1\<rparr>))"

text \<open>The wire bytes, or \<open>None\<close> when the output buffer is too small; the ticket loses its key either way.\<close>

definition wg_transport_tx_seal :: "bool \<Rightarrow> wg_tx_ticket \<Rightarrow> nat \<Rightarrow> bytes \<Rightarrow> bytes option \<times> wg_tx_ticket" where
  "wg_transport_tx_seal al t out_size plaintext =
     (let wire_len = WG_TRANSPORT_HEADER_LEN + length plaintext + WG_TAG_LEN;
          rc = (if out_size \<ge> wire_len
                then Some ([WG_MSG_TRANSPORT, 0, 0, 0] @ le_bytes 4 (tx_remote_index t) @ le_bytes 8 (tx_counter t)
                       @ chacha20poly1305_encrypt al plaintext [] (tx_key t) (counter_to_nonce (tx_counter t)))
                else None)
      in (rc, t\<lparr>tx_key := replicate WG_KEY_LEN 0\<rparr>))"

definition wg_transport_rx_begin :: "wg_transport_session \<Rightarrow> bytes \<Rightarrow> nat \<Rightarrow> wg_rx_ticket option" where
  "wg_transport_rx_begin s wire max_plen =
     (if \<not> valid s then None
      else if length wire < WG_TRANSPORT_OVERHEAD then None
      else if wire ! 0 \<noteq> WG_MSG_TRANSPORT then None
      else if wire ! 1 \<noteq> 0 \<or> wire ! 2 \<noteq> 0 \<or> wire ! 3 \<noteq> 0 then None
      else if le_word (bytes_at 4 4 wire) \<noteq> local_index s then None
      else let counter = le_word (bytes_at 8 8 wire)
           in if wg_replay_check (replay s) counter \<noteq> 0 then None
              else let plen = length wire - WG_TRANSPORT_OVERHEAD
                   in if plen > max_plen then None
                      else Some \<lparr>rx_key = recv_key s, rx_counter = counter, rx_gen = gen s, rx_plen = plen\<rparr>)"

definition wg_transport_rx_open :: "bool \<Rightarrow> wg_rx_ticket \<Rightarrow> bytes \<Rightarrow> bytes option \<times> wg_rx_ticket" where
  "wg_transport_rx_open al t wire =
     (let rc = (if length wire = rx_plen t + WG_TRANSPORT_OVERHEAD
                then chacha20poly1305_decrypt al (bytes_at 16 (rx_plen t + WG_TAG_LEN) wire) []
                       (rx_key t) (counter_to_nonce (rx_counter t))
                else None)
      in (rc, t\<lparr>rx_key := replicate WG_KEY_LEN 0\<rparr>))"

definition wg_transport_rx_commit ::
    "wg_transport_session \<Rightarrow> wg_rx_ticket \<Rightarrow> wg_rx_commit_result \<times> wg_transport_session" where
  "wg_transport_rx_commit s t =
     (if \<not> valid s \<or> gen s \<noteq> rx_gen t then (RX_STALE, s)
      else if wg_replay_check (replay s) (rx_counter t) \<noteq> 0 then (RX_REPLAY, s)
      else (RX_OK, s\<lparr>replay := wg_replay_update (replay s) (rx_counter t)\<rparr>))"

definition wg_transport_encrypt ::
    "bool \<Rightarrow> wg_transport_session \<Rightarrow> nat \<Rightarrow> bytes \<Rightarrow> bytes option \<times> wg_transport_session" where
  "wg_transport_encrypt al s out_size plaintext =
     (if out_size < WG_TRANSPORT_HEADER_LEN + length plaintext + WG_TAG_LEN then (None, s)
      else case wg_transport_tx_reserve s of
             None \<Rightarrow> (None, s)
           | Some (t, s') \<Rightarrow> (fst (wg_transport_tx_seal al t out_size plaintext), s'))"

definition wg_transport_decrypt ::
    "bool \<Rightarrow> wg_transport_session \<Rightarrow> bytes \<Rightarrow> nat \<Rightarrow> bytes option \<times> wg_transport_session" where
  "wg_transport_decrypt al s wire out_size =
     (case wg_transport_rx_begin s wire out_size of
        None \<Rightarrow> (None, s)
      | Some t \<Rightarrow>
          (case wg_transport_rx_open al t wire of
             (None, _) \<Rightarrow> (None, s)
           | (Some p, t') \<Rightarrow>
               (case wg_transport_rx_commit s t' of
                  (RX_OK, s') \<Rightarrow> (Some p, s')
                | (_, s') \<Rightarrow> (None, s'))))"

section \<open>The wire format\<close>

lemma counter_to_nonce_eq: "counter_to_nonce c = replicate 4 0 @ le_bytes 8 c"
proof -
  have "le_bytes 8 c = le_bytes 4 c @ le_bytes 4 (drop_bit 32 c)"
    by (simp add: le_bytes_Suc numeral_eq_Suc drop_bit_drop_bit)
  moreover have "le_bytes 4 (ucast v :: u32) = le_bytes 4 v" for v :: u64
  proof (rule nth_equalityI)
    fix i
    assume "i < length (le_bytes 4 (ucast v :: u32))"
    then show "le_bytes 4 (ucast v :: u32) ! i = le_bytes 4 v ! i"
      by (auto simp: nth_le_bytes intro!: bit_word_eqI) (auto simp: bit_ucast_iff bit_drop_bit_eq)
  qed simp
  moreover have "le_bytes 4 (0 :: u32) = replicate 4 0"
    by (simp add: le_bytes_Suc numeral_eq_Suc)
  ultimately show ?thesis by (simp add: counter_to_nonce_def)
qed

lemma counter_to_nonce_inj: "counter_to_nonce c = counter_to_nonce d \<longleftrightarrow> c = d"
  by (simp add: counter_to_nonce_eq le_bytes_inj)

lemma length_counter_to_nonce: "length (counter_to_nonce c) = 12"
  by (simp add: counter_to_nonce_eq)

definition transport_packet :: "u32 \<Rightarrow> u64 \<Rightarrow> bytes \<Rightarrow> bytes \<Rightarrow> bytes" where
  "transport_packet idx c key p = [WG_MSG_TRANSPORT, 0, 0, 0] @ le_bytes 4 idx @ le_bytes 8 c
     @ chacha20poly1305_encrypt True p [] key (counter_to_nonce c)"

lemma tx_seal_packet:
  "fst (wg_transport_tx_seal al t n p) =
     (if 32 + length p \<le> n then Some (transport_packet (tx_remote_index t) (tx_counter t) (tx_key t) p) else None)"
  by (simp add: wg_transport_tx_seal_def transport_packet_def aligned_irrelevant(1) [of al] Let_def)

lemma packet_fields:
  "length (transport_packet idx c key p) = length p + 32"
  "transport_packet idx c key p ! 0 = WG_MSG_TRANSPORT" "transport_packet idx c key p ! Suc 0 = 0"
  "transport_packet idx c key p ! 2 = 0" "transport_packet idx c key p ! 3 = 0"
  "bytes_at 4 4 (transport_packet idx c key p) = le_bytes 4 idx"
  "bytes_at 8 8 (transport_packet idx c key p) = le_bytes 8 c"
  "bytes_at 16 (length p + 16) (transport_packet idx c key p)
     = chacha20poly1305_encrypt True p [] key (counter_to_nonce c)"
  by (simp_all add: transport_packet_def length_encrypt bytes_at_def)

text \<open>A packet that passes the header checks is determined by its fields and payload.\<close>

lemma wire_from_fields:
  assumes "32 \<le> length wire" "wire ! 0 = WG_MSG_TRANSPORT" "wire ! 1 = 0" "wire ! 2 = 0" "wire ! 3 = 0"
  shows "wire = [WG_MSG_TRANSPORT, 0, 0, 0] @ le_bytes 4 (le_word (bytes_at 4 4 wire) :: u32)
     @ le_bytes 8 (le_word (bytes_at 8 8 wire) :: u64) @ bytes_at 16 (length wire - 16) wire"
proof -
  have l4: "le_bytes 4 (le_word (bytes_at 4 4 wire) :: u32) = bytes_at 4 4 wire"
    using le_bytes_le_word [of "bytes_at 4 4 wire", where 'a = 32] assms(1) by simp
  have l8: "le_bytes 8 (le_word (bytes_at 8 8 wire) :: u64) = bytes_at 8 8 wire"
    using le_bytes_le_word [of "bytes_at 8 8 wire", where 'a = 64] assms(1) by simp
  have t4: "take 4 wire = [WG_MSG_TRANSPORT, 0, 0, 0]"
    using assms by (intro nth_equalityI) (auto simp: less_Suc_eq numeral_eq_Suc)
  have "wire = take 4 wire @ bytes_at 4 4 wire @ bytes_at 8 8 wire @ bytes_at 16 (length wire - 16) wire"
    using take_add_bytes_at [of 4 4 wire] take_add_bytes_at [of 8 8 wire] append_take_drop_id [of 16 wire]
    by (simp add: bytes_at_def)
  then show ?thesis using l4 l8 t4 by metis
qed

section \<open>One packet\<close>

lemma rx_begin_Some:
  "wg_transport_rx_begin s wire n = Some t \<longleftrightarrow>
     valid s \<and> 32 \<le> length wire \<and> length wire \<le> n + 32 \<and>
     wire ! 0 = WG_MSG_TRANSPORT \<and> wire ! 1 = 0 \<and> wire ! 2 = 0 \<and> wire ! 3 = 0 \<and>
     le_word (bytes_at 4 4 wire) = local_index s \<and> wg_replay_check (replay s) (le_word (bytes_at 8 8 wire)) = 0 \<and>
     t = \<lparr>rx_key = recv_key s, rx_counter = le_word (bytes_at 8 8 wire), rx_gen = gen s, rx_plen = length wire - 32\<rparr>"
  by (auto simp: wg_transport_rx_begin_def Let_def)

lemma rx_open_Some:
  "fst (wg_transport_rx_open al t wire) = Some p \<longleftrightarrow>
     length wire = rx_plen t + 32 \<and>
     bytes_at 16 (rx_plen t + 16) wire = chacha20poly1305_encrypt True p [] (rx_key t) (counter_to_nonce (rx_counter t))"
  by (simp add: wg_transport_rx_open_def Let_def decrypt_iff)

lemma rx_open_ticket: "snd (wg_transport_rx_open al t wire) = t\<lparr>rx_key := replicate 32 0\<rparr>"
  by (simp add: wg_transport_rx_open_def Let_def)

lemma rx_commit_cases:
  "wg_transport_rx_commit s t = (rc, s') \<Longrightarrow>
     (rc = RX_OK \<and> valid s \<and> gen s = rx_gen t \<and> wg_replay_check (replay s) (rx_counter t) = 0 \<and>
        s' = s\<lparr>replay := wg_replay_update (replay s) (rx_counter t)\<rparr>)
     \<or> (rc = RX_STALE \<and> (\<not> valid s \<or> gen s \<noteq> rx_gen t) \<and> s' = s)
     \<or> (rc = RX_REPLAY \<and> wg_replay_check (replay s) (rx_counter t) \<noteq> 0 \<and> s' = s)"
  by (auto simp: wg_transport_rx_commit_def split: if_splits)

text \<open>What \<open>wg_transport_decrypt\<close> accepts.\<close>

lemma decrypt_Some:
  "wg_transport_decrypt al s wire n = (Some p, s') \<longleftrightarrow>
     valid s \<and> length p \<le> n \<and>
     (\<exists>c. wire = transport_packet (local_index s) c (recv_key s) p \<and> wg_replay_check (replay s) c = 0 \<and>
        s' = s\<lparr>replay := wg_replay_update (replay s) c\<rparr>)" (is "?L \<longleftrightarrow> ?R")
proof
  assume L: ?L
  then obtain t t' where t: "wg_transport_rx_begin s wire n = Some t"
    and o: "wg_transport_rx_open al t wire = (Some p, t')" and c': "wg_transport_rx_commit s t' = (RX_OK, s')"
    by (auto simp: wg_transport_decrypt_def split: option.splits prod.splits wg_rx_commit_result.splits)
  have p: "fst (wg_transport_rx_open al t wire) = Some p" and c: "wg_transport_rx_commit s (t\<lparr>rx_key := replicate 32 0\<rparr>) = (RX_OK, s')"
    using o c' rx_open_ticket [of al t wire] by simp_all
  let ?c = "le_word (bytes_at 8 8 wire)"
  have b: "32 \<le> length wire" "wire ! 0 = WG_MSG_TRANSPORT" "wire ! 1 = 0" "wire ! 2 = 0" "wire ! 3 = 0"
    "le_word (bytes_at 4 4 wire) = local_index s" "length wire \<le> n + 32" "valid s"
    and tt: "t = \<lparr>rx_key = recv_key s, rx_counter = ?c, rx_gen = gen s, rx_plen = length wire - 32\<rparr>"
    using t by (simp_all add: rx_begin_Some)
  have pay: "bytes_at 16 (length wire - 16) wire = chacha20poly1305_encrypt True p [] (recv_key s) (counter_to_nonce ?c)"
    using p b(1) by (simp add: rx_open_Some tt)
  then have "wire = transport_packet (local_index s) ?c (recv_key s) p"
    using wire_from_fields [OF b(1-5)] b(6) by (simp add: transport_packet_def)
  moreover from this have "length p \<le> n" using b(7) by (metis packet_fields(1) add_le_cancel_right)
  ultimately show ?R using rx_commit_cases [OF c] b(8) by (auto simp: tt)
next
  assume ?R
  then obtain c where R: "valid s" "length p \<le> n" "wire = transport_packet (local_index s) c (recv_key s) p"
    "wg_replay_check (replay s) c = 0" "s' = s\<lparr>replay := wg_replay_update (replay s) c\<rparr>" by blast
  define t where "t = \<lparr>rx_key = recv_key s, rx_counter = c, rx_gen = gen s, rx_plen = length p\<rparr>"
  have "wg_transport_rx_begin s wire n = Some t"
    using R by (simp add: rx_begin_Some packet_fields t_def)
  moreover have "wg_transport_rx_open al t wire = (Some p, t\<lparr>rx_key := replicate 32 0\<rparr>)"
    using R rx_open_Some [of al t wire p] rx_open_ticket [of al t wire]
    by (intro prod_eqI) (simp_all add: packet_fields t_def)
  moreover have "wg_transport_rx_commit s (t\<lparr>rx_key := replicate 32 0\<rparr>) = (RX_OK, s')"
    using R by (simp add: wg_transport_rx_commit_def t_def)
  ultimately show ?L by (simp add: wg_transport_decrypt_def)
qed

lemma decrypt_Some_session:
  "wg_transport_decrypt al s wire n = (Some p, s') \<Longrightarrow>
     s' = s\<lparr>replay := wg_replay_update (replay s) (le_word (bytes_at 8 8 wire))\<rparr>"
  by (auto simp: decrypt_Some packet_fields)

lemma decrypt_None_keeps: "wg_transport_decrypt al s wire n = (None, s') \<Longrightarrow> s' = s"
  by (auto simp: wg_transport_decrypt_def split: option.splits prod.splits wg_rx_commit_result.splits
           dest: rx_commit_cases)

lemma encrypt_Some:
  "wg_transport_encrypt al s n p = (Some wire, s') \<longleftrightarrow>
     valid s \<and> send_counter s \<noteq> WG_COUNTER_REJECT_AT \<and> 32 + length p \<le> n \<and>
     wire = transport_packet (remote_index s) (send_counter s) (send_key s) p \<and>
     s' = s\<lparr>send_counter := send_counter s + 1\<rparr>"
  by (auto simp: wg_transport_encrypt_def wg_transport_tx_reserve_def tx_seal_packet split: if_splits)

section \<open>Properties of one session\<close>

text \<open>C4: Transport round trip: a packet that one end encrypts is decrypted by the other end to
  the same plaintext whenever the ends hold matching keys and indices, the receiver's buffer
  is large enough and its replay window accepts the counter; the sender's counter advances by
  one and the receiver's window records exactly that counter.\<close>

theorem transport_roundtrip:
  assumes "wg_transport_encrypt al a n p = (Some wire, a')"
    "valid b" "recv_key b = send_key a" "local_index b = remote_index a" "length p \<le> m"
    "wg_replay_check (replay b) (send_counter a) = 0"
  shows "wg_transport_decrypt al' b wire m = (Some p, b\<lparr>replay := wg_replay_update (replay b) (send_counter a)\<rparr>)
    \<and> send_counter a' = send_counter a + 1"
  using assms by (auto simp: encrypt_Some decrypt_Some)

text \<open>C3: \<open>wg_transport_decrypt\<close> is exact: it returns a plaintext if and only if keys are
  installed and the wire bytes are the well-formed packet for our receiver index, some counter
  the replay window accepts, and that plaintext sealed under our receive key with that counter
  as the nonce; then that counter and nothing else is recorded.  Every other input (short, wrong
  type, non-zero reserved bytes, wrong index, replayed, forged or larger than the
  buffer) is refused and leaves the session as it was, so a forgery never moves the window.\<close>

theorem transport_decrypt_exact:
  "(wg_transport_decrypt al s wire n = (Some p, s') \<longleftrightarrow>
      valid s \<and> length p \<le> n \<and>
      (\<exists>c. wire = transport_packet (local_index s) c (recv_key s) p \<and> wg_replay_check (replay s) c = 0 \<and>
         s' = s\<lparr>replay := wg_replay_update (replay s) c\<rparr>)) \<and>
   snd (wg_transport_decrypt al s wire n) =
     (case fst (wg_transport_decrypt al s wire n) of
        None \<Rightarrow> s
      | Some _ \<Rightarrow> s\<lparr>replay := wg_replay_update (replay s) (le_word (bytes_at 8 8 wire))\<rparr>)"
proof (rule conjI [OF decrypt_Some], cases "wg_transport_decrypt al s wire n")
  case (Pair r s1)
  then show "snd (wg_transport_decrypt al s wire n) =
     (case fst (wg_transport_decrypt al s wire n) of
        None \<Rightarrow> s
      | Some _ \<Rightarrow> s\<lparr>replay := wg_replay_update (replay s) (le_word (bytes_at 8 8 wire))\<rparr>)"
    using decrypt_None_keeps [of al s wire n] decrypt_Some_session [of al s wire n] by (cases r) simp_all
qed

text \<open>An initiator and a responder with matching keys.\<close>

definition end_a :: wg_transport_session where
  "end_a = fst (wg_transport_session_init 0 7 9 (replicate 32 1) (replicate 32 2))"

definition end_b :: wg_transport_session where
  "end_b = fst (wg_transport_session_init 1 9 7 (replicate 32 2) (replicate 32 1))"

theorem transport_roundtrip_witness:
  "\<exists>wire. fst (wg_transport_encrypt False end_a 64 [1, 2, 3]) = Some wire \<and>
     fst (wg_transport_decrypt True end_b wire 8) = Some [1, 2, 3]"
proof -
  note ends = end_a_def end_b_def wg_transport_session_init_def new_gen_def Let_def
  let ?w = "transport_packet 9 0 (replicate 32 1) [1, 2, 3]"
  have "wg_transport_encrypt False end_a 64 [1, 2, 3] = (Some ?w, end_a\<lparr>send_counter := 1\<rparr>)"
    by (simp add: encrypt_Some ends WG_COUNTER_REJECT_AT_def)
  moreover have "wg_replay_check (replay end_b) (send_counter end_a) = 0"
    by (simp add: ends wg_replay_check_def replay_zero_def WG_COUNTER_REJECT_AT_def slot_of_def window_size WG_REPLAY_WINDOW_BITS_def)
  ultimately show ?thesis
    using transport_roundtrip [of False end_a 64 "[1, 2, 3]" ?w "end_a\<lparr>send_counter := 1\<rparr>" end_b 8 True]
    by (simp add: ends)
qed

end
