(* ===== verification/Crypto_NaclBox.thy ===== *)
theory Crypto_NaclBox
  imports AEAD_Interface Crypto_Poly1305_Tag
begin

unbundle bit_operations_syntax

text \<open>
  \<open>crypto/salsa20.c\<close>, \<open>crypto/curve25519.c\<close> and \<open>crypto/nacl_box.c\<close>: the XSalsa20-Poly1305 box
  that seals DISCO frames and the control plane's early payload.  The scalar multiplication
  (\<open>curve25519_fiat32\<close>) is an argument \<open>x25519\<close> of the definitions that use it.
\<close>

section \<open>The code\<close>

definition load32_le :: "bytes \<Rightarrow> u32" where
  "load32_le p = ucast (p ! 0) OR push_bit 8 (ucast (p ! 1)) OR push_bit 16 (ucast (p ! 2))
                   OR push_bit 24 (ucast (p ! 3))"

definition store32_le :: "u32 \<Rightarrow> bytes" where
  "store32_le w = [ucast w, ucast (drop_bit 8 w), ucast (drop_bit 16 w), ucast (drop_bit 24 w)]"

definition rotl32 :: "u32 \<Rightarrow> nat \<Rightarrow> u32" where
  "rotl32 x n = push_bit n x OR drop_bit (32 - n) x"

text \<open>One assignment \<open>t ^= rotl(u + v, n)\<close> of the quarter round.\<close>

definition SQ :: "nat \<Rightarrow> nat \<Rightarrow> nat \<Rightarrow> nat \<Rightarrow> u32 list \<Rightarrow> u32 list" where
  "SQ t u v n x = x[t := x ! t XOR rotl32 (x ! u + x ! v) n]"

definition SALSA_QR_PAIR :: "nat \<times> nat \<times> nat \<times> nat \<Rightarrow> nat \<times> nat \<times> nat \<times> nat \<Rightarrow> u32 list \<Rightarrow> u32 list" where
  "SALSA_QR_PAIR p q x =
     (let (a0, b0, c0, d0) = p; (a1, b1, c1, d1) = q;
          x = SQ b0 a0 d0 7 x;  x = SQ b1 a1 d1 7 x;
          x = SQ c0 b0 a0 9 x;  x = SQ c1 b1 a1 9 x;
          x = SQ d0 c0 b0 13 x; x = SQ d1 c1 b1 13 x;
          x = SQ a0 d0 c0 18 x
      in SQ a1 d1 c1 18 x)"

definition salsa20_doubleround :: "u32 list \<Rightarrow> u32 list" where
  "salsa20_doubleround x =
     (let x = SALSA_QR_PAIR (0, 4, 8, 12) (5, 9, 13, 1) x;
          x = SALSA_QR_PAIR (10, 14, 2, 6) (15, 3, 7, 11) x;
          x = SALSA_QR_PAIR (0, 1, 2, 3) (5, 6, 7, 4) x
      in SALSA_QR_PAIR (10, 11, 8, 9) (15, 12, 13, 14) x)"

definition salsa20_doublerounds :: "u32 list \<Rightarrow> nat \<Rightarrow> u32 list" where
  "salsa20_doublerounds x rounds = (salsa20_doubleround ^^ rounds) x"

definition SALSA_SIGMA :: "u32 list" where
  "SALSA_SIGMA = [0x61707865, 0x3320646E, 0x79622D32, 0x6B206574]"

definition salsa20_block :: "u32 list \<Rightarrow> u32 list \<Rightarrow> bytes" where
  "salsa20_block key0 blk =
     (let inp = [SALSA_SIGMA ! 0, key0 ! 0, key0 ! 1, key0 ! 2, key0 ! 3, SALSA_SIGMA ! 1, blk ! 0, blk ! 1,
                 blk ! 2, blk ! 3, SALSA_SIGMA ! 2, key0 ! 4, key0 ! 5, key0 ! 6, key0 ! 7, SALSA_SIGMA ! 3];
          x = salsa20_doublerounds inp 10
      in concat (map (\<lambda>i. store32_le (x ! i + inp ! i)) [0..<16]))"

definition hsalsa20 :: "bytes \<Rightarrow> bytes \<Rightarrow> bytes" where
  "hsalsa20 key nonce =
     (let ld = (\<lambda>bs i. load32_le (bytes_at i 4 bs));
          x = [SALSA_SIGMA ! 0, ld key 0, ld key 4, ld key 8, ld key 12, SALSA_SIGMA ! 1, ld nonce 0, ld nonce 4,
               ld nonce 8, ld nonce 12, SALSA_SIGMA ! 2, ld key 16, ld key 20, ld key 24, ld key 28, SALSA_SIGMA ! 3];
          x = salsa20_doublerounds x 10
      in concat (map (\<lambda>i. store32_le (x ! i)) [0, 5, 10, 15, 6, 7, 8, 9]))"

fun salsa20_loop :: "u32 list \<Rightarrow> u32 \<Rightarrow> u32 \<Rightarrow> u64 \<Rightarrow> nat \<Rightarrow> bytes" where
  "salsa20_loop key0 n0 n1 counter out_len =
     (let blk = [n0, n1, ucast (counter AND 0xFFFFFFFF), ucast (drop_bit 32 counter)]
      in if out_len \<ge> 64 then salsa20_block key0 blk @ salsa20_loop key0 n0 n1 (counter + 1) (out_len - 64)
         else if out_len > 0 then take out_len (salsa20_block key0 blk)
         else [])"

definition salsa20_keystream :: "nat \<Rightarrow> bytes \<Rightarrow> bytes \<Rightarrow> bytes" where
  "salsa20_keystream out_len key nonce =
     (let key0 = map (\<lambda>i. load32_le (bytes_at (4 * i) 4 key)) [0..<8]
      in salsa20_loop key0 (load32_le (bytes_at 0 4 nonce)) (load32_le (bytes_at 4 4 nonce)) 0 out_len)"

definition xsalsa20_keystream :: "nat \<Rightarrow> bytes \<Rightarrow> bytes \<Rightarrow> bytes" where
  "xsalsa20_keystream out_len key nonce =
     (let subkey = hsalsa20 key nonce in salsa20_keystream out_len subkey (drop 16 nonce))"

declare salsa20_loop.simps [simp del]

text \<open>\<open>curve25519.c\<close>.\<close>

definition curve25519_scalarmult :: "(bytes \<Rightarrow> bytes \<Rightarrow> bytes) \<Rightarrow> bytes \<Rightarrow> bytes \<Rightarrow> bytes option" where
  "curve25519_scalarmult x25519 n p =
     (let q = x25519 n p; acc = fold (\<lambda>i acc. acc OR q ! i) [0..<32] 0
      in if acc = 0 then None else Some q)"

definition curve25519_dh :: "(bytes \<Rightarrow> bytes \<Rightarrow> bytes) \<Rightarrow> bytes \<Rightarrow> bytes \<Rightarrow> bytes option" where
  "curve25519_dh x25519 my_priv peer_pub = curve25519_scalarmult x25519 my_priv peer_pub"

definition curve25519_derive_pub :: "(bytes \<Rightarrow> bytes \<Rightarrow> bytes) \<Rightarrow> bytes \<Rightarrow> bytes" where
  "curve25519_derive_pub x25519 priv = x25519 priv (9 # replicate 31 0)"

text \<open>The random bytes are the argument.\<close>

definition curve25519_keypair :: "(bytes \<Rightarrow> bytes \<Rightarrow> bytes) \<Rightarrow> bytes \<Rightarrow> bytes \<times> bytes" where
  "curve25519_keypair x25519 rnd =
     (let priv = rnd[0 := rnd ! 0 AND 0xF8]; priv = priv[31 := priv ! 31 AND 0x7F];
          priv = priv[31 := priv ! 31 OR 0x40]
      in (priv, curve25519_derive_pub x25519 priv))"

text \<open>\<open>nacl_box.c\<close>.\<close>

definition NACL_BOX_TAG_LEN :: nat where "NACL_BOX_TAG_LEN = 16"
definition NACL_BOX_MAX_INNER :: nat where "NACL_BOX_MAX_INNER = 256"

lemmas nacl_lens [simp] = NACL_BOX_TAG_LEN_def NACL_BOX_MAX_INNER_def

definition box_beforenm :: "(bytes \<Rightarrow> bytes \<Rightarrow> bytes) \<Rightarrow> bytes \<Rightarrow> bytes \<Rightarrow> bytes option" where
  "box_beforenm x25519 peer_pub my_priv =
     (case curve25519_dh x25519 my_priv peer_pub of
        None \<Rightarrow> None
      | Some shared \<Rightarrow> Some (hsalsa20 shared (replicate 16 0)))"

definition nacl_box_compute_shared :: "(bytes \<Rightarrow> bytes \<Rightarrow> bytes) \<Rightarrow> bytes \<Rightarrow> bytes \<Rightarrow> bytes option" where
  "nacl_box_compute_shared x25519 peer_pub my_priv = box_beforenm x25519 peer_pub my_priv"

definition onetimeauth :: "bytes \<Rightarrow> bytes \<Rightarrow> bytes" where
  "onetimeauth msg key = fst (poly1305_finish (poly1305_update (poly1305_init (take 32 key)) msg))"

definition nacl_ct_memeq :: "bytes \<Rightarrow> bytes \<Rightarrow> nat \<Rightarrow> u8" where
  "nacl_ct_memeq a b n = fold (\<lambda>i diff. diff OR (a ! i XOR b ! i)) [0..<n] 0"

definition nacl_box_after_shared :: "bytes \<Rightarrow> bytes \<Rightarrow> bytes \<Rightarrow> bytes option" where
  "nacl_box_after_shared msg nonce shared_k =
     (if length msg > NACL_BOX_MAX_INNER then None
      else let stream = xsalsa20_keystream (length msg + 32) shared_k nonce;
               ct = map (\<lambda>i. msg ! i XOR stream ! (32 + i)) [0..<length msg]
           in Some (onetimeauth ct stream @ ct))"

definition nacl_box :: "(bytes \<Rightarrow> bytes \<Rightarrow> bytes) \<Rightarrow> bytes \<Rightarrow> bytes \<Rightarrow> bytes \<Rightarrow> bytes \<Rightarrow> bytes option" where
  "nacl_box x25519 msg nonce peer_pub my_priv =
     (case box_beforenm x25519 peer_pub my_priv of
        None \<Rightarrow> None
      | Some k \<Rightarrow> nacl_box_after_shared msg nonce k)"

definition nacl_box_open_after_shared :: "bytes \<Rightarrow> bytes \<Rightarrow> bytes \<Rightarrow> bytes option" where
  "nacl_box_open_after_shared c nonce k =
     (if length c < NACL_BOX_TAG_LEN then None
      else let mlen = length c - NACL_BOX_TAG_LEN
           in if mlen > NACL_BOX_MAX_INNER then None
              else let stream = xsalsa20_keystream (mlen + 32) k nonce;
                       tag = onetimeauth (bytes_at NACL_BOX_TAG_LEN mlen c) stream
                   in if nacl_ct_memeq tag c NACL_BOX_TAG_LEN \<noteq> 0 then None
                      else Some (map (\<lambda>i. c ! (NACL_BOX_TAG_LEN + i) XOR stream ! (32 + i)) [0..<mlen]))"

definition nacl_box_open :: "(bytes \<Rightarrow> bytes \<Rightarrow> bytes) \<Rightarrow> bytes \<Rightarrow> bytes \<Rightarrow> bytes \<Rightarrow> bytes \<Rightarrow> bytes option" where
  "nacl_box_open x25519 c nonce peer_pub my_priv =
     (case box_beforenm x25519 peer_pub my_priv of
        None \<Rightarrow> None
      | Some k \<Rightarrow> nacl_box_open_after_shared c nonce k)"

section \<open>Salsa20 as specified\<close>

text \<open>The quarter round of the Salsa20 specification, and its row and column rounds.\<close>

definition salsa_quarterround :: "nat \<times> nat \<times> nat \<times> nat \<Rightarrow> u32 list \<Rightarrow> u32 list" where
  "salsa_quarterround p y = (case p of (i0, i1, i2, i3) \<Rightarrow>
     (let z1 = y ! i1 XOR rotl32 (y ! i0 + y ! i3) 7;
          z2 = y ! i2 XOR rotl32 (z1 + y ! i0) 9;
          z3 = y ! i3 XOR rotl32 (z2 + z1) 13;
          z0 = y ! i0 XOR rotl32 (z3 + z2) 18
      in y[i0 := z0, i1 := z1, i2 := z2, i3 := z3]))"

definition salsa_columnround :: "u32 list \<Rightarrow> u32 list" where
  "salsa_columnround = salsa_quarterround (15, 3, 7, 11) \<circ> salsa_quarterround (10, 14, 2, 6)
     \<circ> salsa_quarterround (5, 9, 13, 1) \<circ> salsa_quarterround (0, 4, 8, 12)"

definition salsa_rowround :: "u32 list \<Rightarrow> u32 list" where
  "salsa_rowround = salsa_quarterround (15, 12, 13, 14) \<circ> salsa_quarterround (10, 11, 8, 9)
     \<circ> salsa_quarterround (5, 6, 7, 4) \<circ> salsa_quarterround (0, 1, 2, 3)"

lemma length_SQ [simp]: "length (SQ t u v n x) = length x"
  by (simp add: SQ_def)

lemma SQ_commute:
  "t \<noteq> t' \<Longrightarrow> t \<noteq> u' \<Longrightarrow> t \<noteq> v' \<Longrightarrow> t' \<noteq> u \<Longrightarrow> t' \<noteq> v \<Longrightarrow> SQ t u v n (SQ t' u' v' m x) = SQ t' u' v' m (SQ t u v n x)"
  by (simp add: SQ_def list_update_swap)

definition salsa_seq :: "nat \<times> nat \<times> nat \<times> nat \<Rightarrow> u32 list \<Rightarrow> u32 list" where
  "salsa_seq p x = (case p of (a, b, c, d) \<Rightarrow> SQ a d c 18 (SQ d c b 13 (SQ c b a 9 (SQ b a d 7 x))))"

definition quad_ok :: "nat \<Rightarrow> nat \<times> nat \<times> nat \<times> nat \<Rightarrow> bool" where
  "quad_ok n p = (case p of (a, b, c, d) \<Rightarrow> distinct [a, b, c, d] \<and> a < n \<and> b < n \<and> c < n \<and> d < n)"

definition quad_disj :: "nat \<times> nat \<times> nat \<times> nat \<Rightarrow> nat \<times> nat \<times> nat \<times> nat \<Rightarrow> bool" where
  "quad_disj p q = (case p of (a, b, c, d) \<Rightarrow> case q of (a', b', c', d') \<Rightarrow>
     a \<notin> {a', b', c', d'} \<and> b \<notin> {a', b', c', d'} \<and> c \<notin> {a', b', c', d'} \<and> d \<notin> {a', b', c', d'})"

lemma salsa_seq_spec: "quad_ok (length x) p \<Longrightarrow> salsa_seq p x = salsa_quarterround p x"
  by (cases p rule: prod_cases4)
     (auto simp: salsa_seq_def salsa_quarterround_def SQ_def quad_ok_def Let_def list_update_swap)

lemma SALSA_QR_PAIR_seq:
  assumes "quad_disj p q"
  shows "SALSA_QR_PAIR p q x = salsa_seq q (salsa_seq p x)"
proof -
  obtain a b c d a' b' c' d' where pq: "p = (a, b, c, d)" "q = (a', b', c', d')" by (metis prod_cases4)
  have ne: "t \<noteq> t'" if "t \<in> {a, b, c, d}" "t' \<in> {a', b', c', d'}" for t t'
    using assms that unfolding quad_disj_def pq by auto
  have comm: "SQ t u v n (SQ t' u' v' m y) = SQ t' u' v' m (SQ t u v n y)"
    if "t \<in> {a, b, c, d}" "u \<in> {a, b, c, d}" "v \<in> {a, b, c, d}"
      "t' \<in> {a', b', c', d'}" "u' \<in> {a', b', c', d'}" "v' \<in> {a', b', c', d'}" for t u v n t' u' v' m y
    using that ne by (intro SQ_commute) blast+
  have past: "SQ c b a 9 (SQ b' a' d' 7 y) = SQ b' a' d' 7 (SQ c b a 9 y)"
    "SQ d c b 13 (SQ b' a' d' 7 y) = SQ b' a' d' 7 (SQ d c b 13 y)"
    "SQ d c b 13 (SQ c' b' a' 9 y) = SQ c' b' a' 9 (SQ d c b 13 y)"
    "SQ a d c 18 (SQ b' a' d' 7 y) = SQ b' a' d' 7 (SQ a d c 18 y)"
    "SQ a d c 18 (SQ c' b' a' 9 y) = SQ c' b' a' 9 (SQ a d c 18 y)"
    "SQ a d c 18 (SQ d' c' b' 13 y) = SQ d' c' b' 13 (SQ a d c 18 y)" for y
    by (rule comm; simp)+
  show ?thesis
    unfolding SALSA_QR_PAIR_def salsa_seq_def pq Let_def case_prod_conv by (simp only: past)
qed

lemma length_salsa_seq [simp]: "length (salsa_seq p x) = length x"
  by (simp add: salsa_seq_def split: prod.splits)

lemma length_salsa_quarterround [simp]: "length (salsa_quarterround p x) = length x"
  by (simp add: salsa_quarterround_def Let_def split: prod.splits)

lemma salsa20_doubleround_spec:
  assumes "length x = 16"
  shows "salsa20_doubleround x = salsa_rowround (salsa_columnround x)"
proof -
  have q: "quad_disj (0, 4, 8, 12) (5, 9, 13, 1)" "quad_disj (10, 14, 2, 6) (15, 3, 7, 11)"
    "quad_disj (0, 1, 2, 3) (5, 6, 7, 4)" "quad_disj (10, 11, 8, 9) (15, 12, 13, 14)"
    by (simp_all add: quad_disj_def)
  have ok: "quad_ok 16 (0, 4, 8, 12)" "quad_ok 16 (5, 9, 13, 1)" "quad_ok 16 (10, 14, 2, 6)" "quad_ok 16 (15, 3, 7, 11)"
    "quad_ok 16 (0, 1, 2, 3)" "quad_ok 16 (5, 6, 7, 4)" "quad_ok 16 (10, 11, 8, 9)" "quad_ok 16 (15, 12, 13, 14)"
    by (simp_all add: quad_ok_def)
  have seq: "salsa_seq p y = salsa_quarterround p y" if "quad_ok 16 p" "length y = 16" for p y
    using that by (simp add: salsa_seq_spec)
  show ?thesis
    unfolding salsa20_doubleround_def salsa_rowround_def salsa_columnround_def Let_def o_apply
    by (simp only: SALSA_QR_PAIR_seq q seq ok assms length_salsa_seq length_salsa_quarterround)
qed

lemma length_salsa_rounds [simp]:
  "length (salsa_rowround x) = length x" "length (salsa_columnround x) = length x"
  by (simp_all add: salsa_rowround_def salsa_columnround_def)

lemma salsa20_doublerounds_spec:
  "length x = 16 \<Longrightarrow> salsa20_doublerounds x n = ((salsa_rowround \<circ> salsa_columnround) ^^ n) x"
proof -
  assume len: "length x = 16"
  have "(salsa20_doubleround ^^ n) x = ((salsa_rowround \<circ> salsa_columnround) ^^ n) x \<and>
      length (((salsa_rowround \<circ> salsa_columnround) ^^ n) x) = 16"
    using len by (induction n) (simp_all add: salsa20_doubleround_spec)
  then show ?thesis by (simp add: salsa20_doublerounds_def)
qed

section \<open>The box\<close>

lemma length_store32_le [simp]: "length (store32_le w) = 4"
  by (simp add: store32_le_def)

lemma length_concat_store [simp]: "length (concat (map (\<lambda>i. store32_le (f i)) xs)) = 4 * length xs"
  by (induction xs) simp_all

lemma length_salsa20_block [simp]: "length (salsa20_block key0 blk) = 64"
  by (simp add: salsa20_block_def Let_def)

lemma length_salsa20_loop [simp]: "length (salsa20_loop key0 n0 n1 c n) = n"
proof (induction key0 n0 n1 c n rule: salsa20_loop.induct)
  case (1 key0 n0 n1 c n)
  then show ?case by (simp add: salsa20_loop.simps [of key0 n0 n1 c n] Let_def)
qed

lemma length_xsalsa20_keystream [simp]: "length (xsalsa20_keystream n k nonce) = n"
  by (simp add: xsalsa20_keystream_def salsa20_keystream_def Let_def)

definition box_key :: "nat \<Rightarrow> bytes \<Rightarrow> bytes \<Rightarrow> bytes" where
  "box_key n k nonce = take 32 (xsalsa20_keystream (n + 32) k nonce)"

definition box_xor :: "bytes \<Rightarrow> bytes \<Rightarrow> bytes \<Rightarrow> bytes" where
  "box_xor k nonce m = map2 (XOR) m (drop 32 (xsalsa20_keystream (length m + 32) k nonce))"

lemma length_box [simp]: "length (box_key n k nonce) = 32" "length (box_xor k nonce m) = length m"
  by (simp_all add: box_key_def box_xor_def)

lemma box_xor_twice: "box_xor k nonce (box_xor k nonce m) = m"
  by (rule nth_equalityI) (simp_all add: box_xor_def xor.assoc)

lemma box_xor_code:
  "length (xsalsa20_keystream (length m + 32) k nonce) = length m + 32 \<Longrightarrow>
   map (\<lambda>i. m ! i XOR xsalsa20_keystream (length m + 32) k nonce ! (32 + i)) [0..<length m] = box_xor k nonce m"
  by (rule nth_equalityI) (simp_all add: box_xor_def)

lemma onetimeauth_eq: "length key = 32 \<Longrightarrow> onetimeauth msg key = poly1305_auth key [msg]"
  by (simp add: onetimeauth_def poly1305_auth_def)

lemma onetimeauth_take: "onetimeauth msg (xsalsa20_keystream (n + 32) k nonce) = onetimeauth msg (box_key n k nonce)"
  by (simp add: onetimeauth_def box_key_def)

lemma length_onetimeauth [simp]: "length key = 32 \<Longrightarrow> length (onetimeauth msg key) = 16"
  by (simp add: onetimeauth_eq poly1305_auth_correct)

lemma nacl_ct_memeq_eq: "length a = n \<Longrightarrow> n \<le> length b \<Longrightarrow> nacl_ct_memeq a b n = 0 \<longleftrightarrow> a = take n b"
  by (auto simp: nacl_ct_memeq_def fold_diff_zero intro: nth_equalityI) (metis nth_take)

lemma nacl_box_after_shared_eq:
  "nacl_box_after_shared m nonce k =
     (if length m \<le> 256
      then Some (onetimeauth (box_xor k nonce m) (box_key (length m) k nonce) @ box_xor k nonce m) else None)"
  by (simp add: nacl_box_after_shared_def Let_def box_xor_code onetimeauth_take)

lemma nacl_box_open_after_shared_eq:
  "nacl_box_open_after_shared c nonce k =
     (if 16 \<le> length c \<and> length c \<le> 272 \<and> take 16 c = onetimeauth (drop 16 c) (box_key (length c - 16) k nonce)
      then Some (box_xor k nonce (drop 16 c)) else None)"
proof (cases "16 \<le> length c")
  case True
  have x: "map (\<lambda>i. c ! (16 + i) XOR xsalsa20_keystream (length c - 16 + 32) k nonce ! (32 + i)) [0..<length c - 16]
      = box_xor k nonce (drop 16 c)"
    using True by (intro nth_equalityI) (simp_all add: box_xor_def)
  show ?thesis
    using True unfolding nacl_box_open_after_shared_def nacl_lens Let_def x onetimeauth_take
    by (auto simp: nacl_ct_memeq_eq bytes_at_def)
qed (simp add: nacl_box_open_after_shared_def)

interpretation nacl: aead_scheme "\<lambda>m aad k nonce. nacl_box_after_shared m nonce k"
  "\<lambda>c aad k nonce. nacl_box_open_after_shared c nonce k" 16
proof unfold_locales
  fix m k nonce c :: bytes
  assume "nacl_box_after_shared m nonce k = Some c"
  then have c: "length m \<le> 256" "c = onetimeauth (box_xor k nonce m) (box_key (length m) k nonce) @ box_xor k nonce m"
    by (simp_all add: nacl_box_after_shared_eq split: if_splits)
  then show "nacl_box_open_after_shared c nonce k = Some m"
    by (simp add: nacl_box_open_after_shared_eq box_xor_twice)
  show "length c = length m + 16" using c by simp
next
  fix c k nonce m :: bytes
  assume "nacl_box_open_after_shared c nonce k = Some m"
  then have c: "16 \<le> length c" "length c \<le> 272" "take 16 c = onetimeauth (drop 16 c) (box_key (length c - 16) k nonce)"
    "m = box_xor k nonce (drop 16 c)"
    by (simp_all add: nacl_box_open_after_shared_eq split: if_splits)
  then have "nacl_box_after_shared m nonce k = Some (take 16 c @ drop 16 c)"
    by (simp add: nacl_box_after_shared_eq box_xor_twice)
  then show "nacl_box_after_shared m nonce k = Some c" by simp
qed

lemma nacl_box_open_iff:
  "nacl_box_open x25519 c nonce peer_pub my_priv = Some m \<longleftrightarrow>
     nacl_box x25519 m nonce peer_pub my_priv = Some c"
  by (simp add: nacl_box_open_def nacl_box_def nacl.unseal_iff split: option.split)

lemma dh_zero: "length (x25519 a b) = 32 \<Longrightarrow> curve25519_dh x25519 a b = None \<longleftrightarrow> x25519 a b = replicate 32 0"
proof -
  assume len: "length (x25519 a b) = 32"
  have f: "fold (\<lambda>i acc. acc OR q ! i) is (d :: u8) = 0 \<longleftrightarrow> d = 0 \<and> (\<forall>i\<in>set is. q ! i = 0)" for q "is" d
    by (induction "is" arbitrary: d) (auto simp: or_eq_0_iff)
  show ?thesis
    using len by (auto simp: curve25519_dh_def curve25519_scalarmult_def Let_def f intro: nth_equalityI)
qed

section \<open>Properties\<close>

text \<open>The Salsa20 core on paired quarter rounds is the one of the Salsa20 specification:
  \<open>salsa20_doublerounds\<close> is the iterated column round followed by row round.\<close>

theorem salsa20_is_specified:
  assumes "length x = 16"
  shows "salsa20_doublerounds x n = ((salsa_rowround \<circ> salsa_columnround) ^^ n) x"
  by (rule salsa20_doublerounds_spec [OF assms])

theorem salsa20_is_specified_witness:
  "salsa20_doublerounds (replicate 16 1) 10 = ((salsa_rowround \<circ> salsa_columnround) ^^ 10) (replicate 16 1)"
  by (rule salsa20_is_specified) simp

text \<open>NaCl box between two parties: when the scalar multiplication commutes for their key
  pairs, what one seals with its private and the other's public key the other opens to the same
  message, and the recipient opens nothing but what that sealing produces; a message over 256
  bytes is refused and a shared secret of zero (a low-order key) makes both ends refuse.\<close>

theorem nacl_box_exact:
  assumes "x25519 a_priv b_pub = x25519 b_priv a_pub" "length (x25519 a_priv b_pub) = 32"
  shows "(nacl_box_open x25519 c nonce a_pub b_priv = Some m \<longleftrightarrow> nacl_box x25519 m nonce b_pub a_priv = Some c) \<and>
    (nacl_box x25519 m nonce b_pub a_priv = None \<longleftrightarrow> 256 < length m \<or> x25519 a_priv b_pub = replicate 32 0)"
proof -
  have k: "box_beforenm x25519 b_pub a_priv = box_beforenm x25519 a_pub b_priv"
    using assms(1) by (simp add: box_beforenm_def curve25519_dh_def curve25519_scalarmult_def)
  have z: "box_beforenm x25519 b_pub a_priv = None \<longleftrightarrow> x25519 a_priv b_pub = replicate 32 0"
    using dh_zero [of x25519 a_priv b_pub, OF assms(2)] by (auto simp: box_beforenm_def split: option.splits)
  have "nacl_box x25519 m nonce b_pub a_priv = nacl_box x25519 m nonce a_pub b_priv"
    by (simp add: nacl_box_def k)
  moreover have "nacl_box x25519 m nonce b_pub a_priv = None \<longleftrightarrow> 256 < length m \<or> x25519 a_priv b_pub = replicate 32 0"
    unfolding z [symmetric] by (auto simp: nacl_box_def nacl_box_after_shared_eq split: option.splits)
  ultimately show ?thesis by (simp add: nacl_box_open_iff)
qed

theorem nacl_box_exact_witness:
  "let x = (\<lambda>a b. map2 (+) a b) in
     \<exists>c. nacl_box x [1, 2, 3] (replicate 24 0) (replicate 32 5) (replicate 32 4) = Some c \<and>
         nacl_box_open x c (replicate 24 0) (replicate 32 4) (replicate 32 5) = Some [1, 2, 3]"
proof -
  let ?x = "\<lambda>a b :: bytes. map2 (+) a b"
  have h: "?x (replicate 32 4) (replicate 32 5) = ?x (replicate 32 5) (replicate 32 4)"
    "length (?x (replicate 32 4) (replicate 32 5)) = 32"
    by (simp_all add: zip_replicate)
  have nz: "?x (replicate 32 4) (replicate 32 5) \<noteq> replicate 32 0"
    by (simp add: zip_replicate)
  note box = nacl_box_exact [of ?x "replicate 32 4" "replicate 32 5" "replicate 32 5" "replicate 32 4", OF h]
  obtain c where c: "nacl_box ?x [1, 2, 3] (replicate 24 0) (replicate 32 5) (replicate 32 4) = Some c"
    using conjunct2 [OF box, of "[1, 2, 3]" "replicate 24 0"] nz by fastforce
  then have "nacl_box_open ?x c (replicate 24 0) (replicate 32 4) (replicate 32 5) = Some [1, 2, 3]"
    using conjunct1 [OF box, of c "replicate 24 0" "[1, 2, 3]"] by blast
  then show ?thesis using c by (simp only: Let_def) blast
qed

end
