(* ===== verification/Disco.thy ===== *)
theory Disco
  imports Crypto_NaclBox
begin

unbundle bit_operations_syntax

text \<open>
  \<open>disco.c\<close>: the DISCO message codec.  An encoder with an output capacity returns the bytes it
  wrote, \<open>None\<close> standing for the return value 0; the frame functions carry the scalar
  multiplication \<open>x25519\<close> as an argument.  The union of the three message bodies is a datatype.
\<close>

section \<open>The code\<close>

definition DISCO_MAGIC :: bytes where
  "DISCO_MAGIC = [0x54, 0x53, 0xf0, 0x9f, 0x92, 0xac]"

definition DISCO_MAGIC_LEN :: nat where "DISCO_MAGIC_LEN = 6"
definition DISCO_KEY_LEN :: nat where "DISCO_KEY_LEN = 32"
definition DISCO_NONCE_LEN :: nat where "DISCO_NONCE_LEN = 24"
definition DISCO_TAG_LEN :: nat where "DISCO_TAG_LEN = 16"
definition DISCO_INNER_HDR_LEN :: nat where "DISCO_INNER_HDR_LEN = 2"
definition DISCO_OVERHEAD :: nat where
  "DISCO_OVERHEAD = DISCO_MAGIC_LEN + DISCO_KEY_LEN + DISCO_NONCE_LEN + DISCO_TAG_LEN"
definition DISCO_TXID_LEN :: nat where "DISCO_TXID_LEN = 12"
definition DISCO_NODEKEY_LEN :: nat where "DISCO_NODEKEY_LEN = 32"
definition DISCO_AP_LEN :: nat where "DISCO_AP_LEN = 18"
definition DISCO_CMM_MAX_ENDPOINTS :: nat where "DISCO_CMM_MAX_ENDPOINTS = 8"

definition DISCO_TYPE_PING :: u8 where "DISCO_TYPE_PING = 0x01"
definition DISCO_TYPE_PONG :: u8 where "DISCO_TYPE_PONG = 0x02"
definition DISCO_TYPE_CALLMEMAYBE :: u8 where "DISCO_TYPE_CALLMEMAYBE = 0x03"

lemmas disco_lens [simp] = DISCO_MAGIC_LEN_def DISCO_KEY_LEN_def DISCO_NONCE_LEN_def DISCO_TAG_LEN_def
  DISCO_INNER_HDR_LEN_def DISCO_OVERHEAD_def DISCO_TXID_LEN_def DISCO_NODEKEY_LEN_def DISCO_AP_LEN_def
  DISCO_CMM_MAX_ENDPOINTS_def
lemmas disco_types = DISCO_TYPE_PING_def DISCO_TYPE_PONG_def DISCO_TYPE_CALLMEMAYBE_def

record disco_ping_t =
  ping_txid :: bytes
  ping_node_key :: bytes
  has_node_key :: bool
  padding :: nat

record disco_pong_t =
  pong_txid :: bytes
  src_addr :: bytes
  src_port :: u16

record disco_addrport_t =
  ap_addr :: bytes
  ap_port :: u16

type_synonym disco_call_me_maybe_t = "disco_addrport_t list"

datatype disco_body =
    DISCO_PING disco_ping_t
  | DISCO_PONG disco_pong_t
  | DISCO_CALLMEMAYBE disco_call_me_maybe_t

record disco_msg_t =
  version :: u8
  body :: disco_body

definition disco_encode_ping :: "nat \<Rightarrow> disco_ping_t \<Rightarrow> bytes option" where
  "disco_encode_ping out_cap m =
     (let need = DISCO_INNER_HDR_LEN + DISCO_TXID_LEN + (if has_node_key m then DISCO_NODEKEY_LEN else 0) + padding m
      in if out_cap < need then None
         else Some ([DISCO_TYPE_PING, 0x00] @ take DISCO_TXID_LEN (ping_txid m)
                @ (if has_node_key m then take DISCO_NODEKEY_LEN (ping_node_key m) else [])
                @ replicate (padding m) 0))"

definition disco_encode_pong :: "nat \<Rightarrow> disco_pong_t \<Rightarrow> bytes option" where
  "disco_encode_pong out_cap m =
     (let need = DISCO_INNER_HDR_LEN + DISCO_TXID_LEN + 16 + 2
      in if out_cap < need then None
         else Some ([DISCO_TYPE_PONG, 0x00] @ take DISCO_TXID_LEN (pong_txid m) @ take 16 (src_addr m)
                @ put_u16_be (src_port m)))"

definition disco_encode_call_me_maybe :: "nat \<Rightarrow> disco_call_me_maybe_t \<Rightarrow> bytes option" where
  "disco_encode_call_me_maybe out_cap m =
     (if length m > DISCO_CMM_MAX_ENDPOINTS then None
      else let need = DISCO_INNER_HDR_LEN + DISCO_AP_LEN * length m
           in if out_cap < need then None
              else Some ([DISCO_TYPE_CALLMEMAYBE, 0x00]
                     @ concat (map (\<lambda>e. take 16 (ap_addr e) @ put_u16_be (ap_port e)) m)))"

definition disco_looks_like :: "bytes \<Rightarrow> bool" where
  "disco_looks_like buf =
     (if length buf < DISCO_MAGIC_LEN + DISCO_KEY_LEN + DISCO_NONCE_LEN then False
      else take DISCO_MAGIC_LEN buf = DISCO_MAGIC)"

definition put_seal_header :: "bytes \<Rightarrow> bytes \<Rightarrow> bytes" where
  "put_seal_header nonce sender_pub = DISCO_MAGIC @ take DISCO_KEY_LEN sender_pub @ take DISCO_NONCE_LEN nonce"

definition disco_seal :: "(bytes \<Rightarrow> bytes \<Rightarrow> bytes) \<Rightarrow> nat \<Rightarrow> bytes \<Rightarrow> bytes \<Rightarrow> bytes \<Rightarrow> bytes \<Rightarrow> bytes \<Rightarrow> bytes option" where
  "disco_seal x25519 out_cap plaintext nonce sender_pub recipient_pub my_priv =
     (let wire = DISCO_OVERHEAD + length plaintext
      in if out_cap < wire then None
         else case nacl_box x25519 plaintext nonce recipient_pub my_priv of
                None \<Rightarrow> None
              | Some box \<Rightarrow> Some (put_seal_header nonce sender_pub @ box))"

definition disco_seal_with_shared :: "nat \<Rightarrow> bytes \<Rightarrow> bytes \<Rightarrow> bytes \<Rightarrow> bytes \<Rightarrow> bytes option" where
  "disco_seal_with_shared out_cap plaintext nonce sender_pub shared_k =
     (let wire = DISCO_OVERHEAD + length plaintext
      in if out_cap < wire then None
         else case nacl_box_after_shared plaintext nonce shared_k of
                None \<Rightarrow> None
              | Some box \<Rightarrow> Some (put_seal_header nonce sender_pub @ box))"

text \<open>The plaintext and the sender's key.\<close>

definition disco_open :: "(bytes \<Rightarrow> bytes \<Rightarrow> bytes) \<Rightarrow> nat \<Rightarrow> bytes \<Rightarrow> bytes \<Rightarrow> (bytes \<times> bytes) option" where
  "disco_open x25519 pt_cap inp my_priv =
     (if \<not> disco_looks_like inp then None
      else if length inp < DISCO_OVERHEAD then None
      else let plen = length inp - DISCO_OVERHEAD
           in if pt_cap < plen then None
              else let sender = bytes_at 6 32 inp; nonce = bytes_at 38 24 inp;
                       box = bytes_at 62 (DISCO_TAG_LEN + plen) inp
                   in case nacl_box_open x25519 box nonce sender my_priv of
                        None \<Rightarrow> None
                      | Some pt \<Rightarrow> Some (pt, sender))"

definition disco_open_with_shared :: "nat \<Rightarrow> bytes \<Rightarrow> bytes \<Rightarrow> (bytes \<times> bytes) option" where
  "disco_open_with_shared pt_cap inp shared_k =
     (if \<not> disco_looks_like inp then None
      else if length inp < DISCO_OVERHEAD then None
      else let plen = length inp - DISCO_OVERHEAD
           in if pt_cap < plen then None
              else let sender = bytes_at 6 32 inp; nonce = bytes_at 38 24 inp;
                       box = bytes_at 62 (DISCO_TAG_LEN + plen) inp
                   in case nacl_box_open_after_shared box nonce shared_k of
                        None \<Rightarrow> None
                      | Some pt \<Rightarrow> Some (pt, sender))"

definition disco_parse :: "bytes \<Rightarrow> disco_msg_t option" where
  "disco_parse pt =
     (if length pt < DISCO_INNER_HDR_LEN then None
      else let ty = pt ! 0; ver = pt ! 1; p = drop DISCO_INNER_HDR_LEN pt; rem = length p
           in if ty = DISCO_TYPE_PING then
                (if rem < DISCO_TXID_LEN then None
                 else let txid = take DISCO_TXID_LEN p; p = drop DISCO_TXID_LEN p; rem = length p;
                          has = rem \<ge> DISCO_NODEKEY_LEN;
                          nk = (if has then take DISCO_NODEKEY_LEN p else replicate DISCO_NODEKEY_LEN 0);
                          rem = (if has then rem - DISCO_NODEKEY_LEN else rem)
                      in Some \<lparr>version = ver, body = DISCO_PING
                           \<lparr>ping_txid = txid, ping_node_key = nk, has_node_key = has, padding = rem\<rparr>\<rparr>)
              else if ty = DISCO_TYPE_PONG then
                (if rem < DISCO_TXID_LEN + 16 + 2 then None
                 else Some \<lparr>version = ver, body = DISCO_PONG
                        \<lparr>pong_txid = take DISCO_TXID_LEN p, src_addr = bytes_at 12 16 p, src_port = get_u16_be (drop 28 p)\<rparr>\<rparr>)
              else if ty = DISCO_TYPE_CALLMEMAYBE then
                (if ver \<noteq> 0 \<or> rem = 0 then Some \<lparr>version = ver, body = DISCO_CALLMEMAYBE []\<rparr>
                 else if rem mod DISCO_AP_LEN \<noteq> 0 then None
                 else let n = min (rem div DISCO_AP_LEN) DISCO_CMM_MAX_ENDPOINTS
                      in Some \<lparr>version = ver, body = DISCO_CALLMEMAYBE
                           (map (\<lambda>i. \<lparr>ap_addr = bytes_at (18 * i) 16 p, ap_port = get_u16_be (drop (18 * i + 16) p)\<rparr>) [0..<n])\<rparr>)
              else None)"

section \<open>Messages\<close>

text \<open>The messages the codec can represent: fields of the C sizes, a ping without a node key has
  a zeroed key field and less padding than a key, at most eight endpoints.\<close>

fun disco_body_ok :: "disco_body \<Rightarrow> bool" where
  "disco_body_ok (DISCO_PING m) \<longleftrightarrow> length (ping_txid m) = 12 \<and> length (ping_node_key m) = 32 \<and>
     (has_node_key m \<or> ping_node_key m = replicate 32 0 \<and> padding m < 32)"
| "disco_body_ok (DISCO_PONG m) \<longleftrightarrow> length (pong_txid m) = 12 \<and> length (src_addr m) = 16"
| "disco_body_ok (DISCO_CALLMEMAYBE es) \<longleftrightarrow> length es \<le> 8 \<and> (\<forall>e \<in> set es. length (ap_addr e) = 16)"

fun disco_encode :: "nat \<Rightarrow> disco_body \<Rightarrow> bytes option" where
  "disco_encode cap (DISCO_PING m) = disco_encode_ping cap m"
| "disco_encode cap (DISCO_PONG m) = disco_encode_pong cap m"
| "disco_encode cap (DISCO_CALLMEMAYBE m) = disco_encode_call_me_maybe cap m"

lemma parse_ping:
  assumes "disco_body_ok (DISCO_PING m)" "disco_encode_ping cap m = Some pt"
  shows "disco_parse pt = Some \<lparr>version = 0, body = DISCO_PING m\<rparr>"
proof -
  have pt: "pt = [DISCO_TYPE_PING, 0] @ ping_txid m @ (if has_node_key m then ping_node_key m else []) @ replicate (padding m) 0"
    using assms by (auto simp: disco_encode_ping_def Let_def split: if_splits)
  have len: "length (ping_txid m) = 12" "length (ping_node_key m) = 32" using assms(1) by simp_all
  show ?thesis
  proof (cases "has_node_key m")
    case True
    then show ?thesis unfolding pt using len by (simp add: disco_parse_def Let_def)
  next
    case False
    then show ?thesis unfolding pt using len assms(1) by (simp add: disco_parse_def Let_def)
  qed
qed

lemma parse_pong:
  assumes "disco_body_ok (DISCO_PONG m)" "disco_encode_pong cap m = Some pt"
  shows "disco_parse pt = Some \<lparr>version = 0, body = DISCO_PONG m\<rparr>"
proof -
  have pt: "pt = [DISCO_TYPE_PONG, 0] @ pong_txid m @ src_addr m @ put_u16_be (src_port m)"
    using assms by (auto simp: disco_encode_pong_def Let_def split: if_splits)
  have len: "length (pong_txid m) = 12" "length (src_addr m) = 16" using assms(1) by simp_all
  show ?thesis unfolding pt using len by (simp add: disco_parse_def Let_def disco_types)
qed

lemma nth_endpoint:
  assumes "\<forall>e \<in> set es. length (ap_addr e) = 16" "i < length es"
  shows "drop (18 * i) (concat (map (\<lambda>e. ap_addr e @ put_u16_be (ap_port e)) es))
    = ap_addr (es ! i) @ put_u16_be (ap_port (es ! i)) @ concat (map (\<lambda>e. ap_addr e @ put_u16_be (ap_port e)) (drop (Suc i) es))"
  using assms
proof (induction es arbitrary: i)
  case (Cons e es)
  show ?case
  proof (cases i)
    case (Suc j)
    have "18 * i = 18 + 18 * j" using Suc by simp
    then show ?thesis using Cons Suc by (simp add: drop_drop [symmetric] del: drop_drop)
  qed simp
qed simp

lemma length_endpoints:
  "\<forall>e \<in> set es. length (ap_addr e) = 16 \<Longrightarrow> length (concat (map (\<lambda>e. ap_addr e @ put_u16_be (ap_port e)) es)) = 18 * length es"
  by (induction es) simp_all

lemma parse_cmm:
  assumes "disco_body_ok (DISCO_CALLMEMAYBE es)" "disco_encode_call_me_maybe cap es = Some pt"
  shows "disco_parse pt = Some \<lparr>version = 0, body = DISCO_CALLMEMAYBE es\<rparr>"
proof -
  define eps where "eps = concat (map (\<lambda>e. ap_addr e @ put_u16_be (ap_port e)) es)"
  have ok: "length es \<le> 8" "\<forall>e \<in> set es. length (ap_addr e) = 16" using assms(1) by simp_all
  have tk: "map (\<lambda>e. take 16 (ap_addr e) @ put_u16_be (ap_port e)) es = map (\<lambda>e. ap_addr e @ put_u16_be (ap_port e)) es"
    using ok(2) by simp
  have pt: "pt = [DISCO_TYPE_CALLMEMAYBE, 0] @ eps"
    using assms(2) unfolding disco_encode_call_me_maybe_def Let_def eps_def tk by (simp split: if_splits)
  have len: "length eps = 18 * length es" unfolding eps_def by (rule length_endpoints [OF ok(2)])
  have e: "\<lparr>ap_addr = bytes_at (18 * i) 16 eps, ap_port = get_u16_be (drop (18 * i + 16) eps)\<rparr> = es ! i" if "i < length es" for i
  proof -
    note d = nth_endpoint [OF ok(2) that, folded eps_def]
    have "drop (18 * i + 16) eps = drop 16 (drop (18 * i) eps)" by (simp add: add.commute)
    then show ?thesis using ok(2) that by (simp add: bytes_at_def d)
  qed
  have "map (\<lambda>i. \<lparr>ap_addr = bytes_at (18 * i) 16 eps, ap_port = get_u16_be (drop (18 * i + 16) eps)\<rparr>) [0..<length es] = es"
    using e by (intro nth_equalityI) simp_all
  then show ?thesis
    unfolding pt using ok(1) len by (cases "es = []") (simp_all add: disco_parse_def Let_def disco_types min_absorb1)
qed

section \<open>Frames\<close>

definition disco_frame :: "bytes \<Rightarrow> bytes \<Rightarrow> bytes \<Rightarrow> bytes" where
  "disco_frame sender nonce box = DISCO_MAGIC @ sender @ nonce @ box"

lemma length_DISCO_MAGIC [simp]: "length DISCO_MAGIC = 6"
  by (simp add: DISCO_MAGIC_def)

lemma put_seal_header_frame:
  "length sender = 32 \<Longrightarrow> length nonce = 24 \<Longrightarrow> put_seal_header nonce sender @ box = disco_frame sender nonce box"
  by (simp add: put_seal_header_def disco_frame_def)

lemma disco_frame_fields:
  assumes "length sender = 32" "length nonce = 24"
  shows "length (disco_frame sender nonce box) = 62 + length box" "disco_looks_like (disco_frame sender nonce box)"
    "bytes_at 6 32 (disco_frame sender nonce box) = sender" "bytes_at 38 24 (disco_frame sender nonce box) = nonce"
    "bytes_at 62 (length box) (disco_frame sender nonce box) = box"
  using assms by (simp_all add: disco_frame_def disco_looks_like_def bytes_at_def)

lemma disco_frame_split:
  assumes "disco_looks_like inp" "78 \<le> length inp"
  shows "inp = disco_frame (bytes_at 6 32 inp) (bytes_at 38 24 inp) (bytes_at 62 (16 + (length inp - 78)) inp)"
proof -
  have "take 6 inp = DISCO_MAGIC" using assms by (simp add: disco_looks_like_def split: if_splits)
  then show ?thesis
    unfolding disco_frame_def
    using assms(2) take_add_bytes_at [of 6 32 inp] take_add_bytes_at [of 38 24 inp] append_take_drop_id [of 62 inp]
    by (simp add: bytes_at_def)
qed

text \<open>Opening, generically in the box: \<open>opn\<close> is one of the two ways to open it.\<close>

definition open_frame :: "(bytes \<Rightarrow> bytes \<Rightarrow> bytes \<Rightarrow> bytes option) \<Rightarrow> nat \<Rightarrow> bytes \<Rightarrow> (bytes \<times> bytes) option" where
  "open_frame opn cap inp =
     (if \<not> disco_looks_like inp then None
      else if length inp < 78 then None
      else if cap < length inp - 78 then None
      else case opn (bytes_at 62 (16 + (length inp - 78)) inp) (bytes_at 38 24 inp) (bytes_at 6 32 inp) of
             None \<Rightarrow> None | Some pt \<Rightarrow> Some (pt, bytes_at 6 32 inp))"

lemma disco_open_frame:
  "disco_open_with_shared cap inp k = open_frame (\<lambda>box nonce sender. nacl_box_open_after_shared box nonce k) cap inp"
  "disco_open x25519 cap inp my_priv = open_frame (\<lambda>box nonce sender. nacl_box_open x25519 box nonce sender my_priv) cap inp"
  by (simp_all add: disco_open_with_shared_def disco_open_def open_frame_def Let_def)

lemma open_frame_iff:
  assumes opn: "\<forall>box nonce sender m. opn box nonce sender = Some m \<longrightarrow> length box = length m + 16"
  shows "open_frame opn cap inp = Some (pt, sender)
    \<longleftrightarrow> length pt \<le> cap \<and> (\<exists>nonce box. length sender = 32 \<and> length nonce = 24 \<and>
          inp = disco_frame sender nonce box \<and> opn box nonce sender = Some pt)" (is "?L \<longleftrightarrow> ?R")
proof
  assume ?L
  then have *: "disco_looks_like inp" "78 \<le> length inp" "length inp - 78 \<le> cap" "sender = bytes_at 6 32 inp"
    "opn (bytes_at 62 (16 + (length inp - 78)) inp) (bytes_at 38 24 inp) sender = Some pt"
    by (auto simp: open_frame_def split: if_splits option.splits)
  have "length pt \<le> cap" using opn [rule_format, OF *(5)] *(2,3) by simp
  moreover have "length sender = 32" "length (bytes_at 38 24 inp) = 24" using * by simp_all
  ultimately show ?R using disco_frame_split [OF *(1,2)] * by metis
next
  assume ?R
  then obtain nonce box where *: "length pt \<le> cap" "length sender = 32" "length nonce = 24"
    "inp = disco_frame sender nonce box" "opn box nonce sender = Some pt" by blast
  have "length box = length pt + 16" by (rule opn [rule_format, OF *(5)])
  then show ?L using * disco_frame_fields [OF *(2,3), of box] by (simp add: open_frame_def add.commute)
qed

lemma disco_open_with_shared_iff:
  "disco_open_with_shared cap inp k = Some (pt, sender) \<longleftrightarrow>
     length pt \<le> cap \<and> (\<exists>nonce. length sender = 32 \<and> length nonce = 24 \<and>
       disco_seal_with_shared (78 + length pt) pt nonce sender k = Some inp)"
proof -
  have opn: "\<forall>box nonce (sender :: bytes) m. nacl_box_open_after_shared box nonce k = Some m \<longrightarrow> length box = length m + 16"
    by (auto dest: nacl.length_unseal)
  have seal: "disco_seal_with_shared (78 + length pt) pt nonce sender k = Some inp \<longleftrightarrow>
      (\<exists>box. nacl_box_after_shared pt nonce k = Some box \<and> inp = disco_frame sender nonce box)"
    if "length sender = 32" "length nonce = 24" for nonce
    using that by (auto simp: disco_seal_with_shared_def put_seal_header_frame split: option.splits)
  show ?thesis
    unfolding disco_open_frame open_frame_iff [OF opn] nacl.unseal_iff using seal by blast
qed

lemma disco_open_iff:
  "disco_open x25519 cap inp my_priv = Some (pt, sender) \<longleftrightarrow>
     length pt \<le> cap \<and> (\<exists>nonce. length sender = 32 \<and> length nonce = 24 \<and>
       (\<exists>box. nacl_box x25519 pt nonce sender my_priv = Some box \<and> inp = disco_frame sender nonce box))"
proof -
  have opn: "\<forall>box nonce sender m. nacl_box_open x25519 box nonce sender my_priv = Some m \<longrightarrow> length box = length m + 16"
    by (auto simp: nacl_box_open_def split: option.splits dest: nacl.length_unseal)
  show ?thesis
    unfolding disco_open_frame open_frame_iff [OF opn] using nacl_box_open_iff by auto
qed

section \<open>Properties\<close>

text \<open>DISCO messages survive the wire: every ping, pong and call-me-maybe the codec can
  represent, encoded into a large enough buffer, is parsed back to the same message (transaction
  id, optional node key, padding, address and port, and up to eight endpoints in order).\<close>

theorem disco_parse_encode:
  assumes "disco_body_ok b" "disco_encode cap b = Some pt"
  shows "disco_parse pt = Some \<lparr>version = 0, body = b\<rparr>"
  using assms parse_ping parse_pong parse_cmm by (cases b) auto

theorem disco_parse_encode_witness:
  "\<exists>pt. disco_encode 100 (DISCO_CALLMEMAYBE [\<lparr>ap_addr = replicate 16 3, ap_port = 443\<rparr>]) = Some pt \<and>
     disco_parse pt = Some \<lparr>version = 0, body = DISCO_CALLMEMAYBE [\<lparr>ap_addr = replicate 16 3, ap_port = 443\<rparr>]\<rparr>"
proof -
  let ?b = "DISCO_CALLMEMAYBE [\<lparr>ap_addr = replicate 16 3, ap_port = 443\<rparr>]"
  obtain pt where pt: "disco_encode 100 ?b = Some pt"
    by (auto simp: disco_encode_call_me_maybe_def)
  moreover have "disco_body_ok ?b" by simp
  ultimately show ?thesis using disco_parse_encode [of ?b 100 pt] by blast
qed

text \<open>A DISCO frame authenticates its sender: when the scalar multiplication commutes for two
  parties, the recipient opens a frame to a plaintext with the sender's key exactly when the frame is
  the one the sender's \<open>disco_seal\<close> (or \<open>disco_seal_with_shared\<close> with the precomputed key, which
  gives the same bytes) produces for that plaintext under some nonce.\<close>

theorem disco_open_exact:
  assumes "x25519 a_priv b_pub = x25519 b_priv a_pub" "length a_pub = 32"
    "nacl_box_compute_shared x25519 b_pub a_priv = Some k"
  shows "(disco_open x25519 cap inp b_priv = Some (pt, a_pub) \<longleftrightarrow>
      length pt \<le> cap \<and> (\<exists>nonce. length nonce = 24 \<and> disco_seal x25519 (78 + length pt) pt nonce a_pub b_pub a_priv = Some inp)) \<and>
    disco_seal x25519 cap pt nonce a_pub b_pub a_priv = disco_seal_with_shared cap pt nonce a_pub k"
proof -
  have kb: "box_beforenm x25519 b_pub a_priv = Some k" "box_beforenm x25519 a_pub b_priv = Some k"
    using assms(1,3) by (simp_all add: nacl_box_compute_shared_def box_beforenm_def curve25519_dh_def curve25519_scalarmult_def)
  have box: "nacl_box x25519 pt nonce b_pub a_priv = nacl_box_after_shared pt nonce k"
    "nacl_box x25519 pt nonce a_pub b_priv = nacl_box_after_shared pt nonce k" for nonce
    by (simp_all add: nacl_box_def kb)
  have seal: "disco_seal x25519 cap pt nonce a_pub b_pub a_priv = disco_seal_with_shared cap pt nonce a_pub k" for cap nonce
    by (simp add: disco_seal_def disco_seal_with_shared_def box)
  have fr: "disco_seal_with_shared (78 + length pt) pt nonce a_pub k = Some inp \<longleftrightarrow>
      (\<exists>b. nacl_box_after_shared pt nonce k = Some b \<and> inp = disco_frame a_pub nonce b)" if "length nonce = 24" for nonce
    using that assms(2) by (auto simp: disco_seal_with_shared_def put_seal_header_frame split: option.splits)
  show ?thesis
    unfolding disco_open_iff seal box using fr assms(2) by auto
qed

theorem disco_open_exact_witness:
  "let x = (\<lambda>a b. map2 (+) a b) in
     \<exists>wire. disco_seal x 200 [1, 0] (replicate 24 7) (replicate 32 4) (replicate 32 5) (replicate 32 4) = Some wire \<and>
       disco_open x 64 wire (replicate 32 5) = Some ([1, 0], replicate 32 4)"
proof -
  let ?x = "\<lambda>a b :: bytes. map2 (+) a b"
  let ?a = "replicate 32 4 :: bytes" and ?b = "replicate 32 5 :: bytes" and ?n = "replicate 24 7 :: bytes"
  have z: "?x ?a ?b \<noteq> replicate 32 0" "length (?x ?a ?b) = 32" by (simp_all add: zip_replicate)
  obtain k where k: "nacl_box_compute_shared ?x ?b ?a = Some k"
    using dh_zero [of ?x ?a ?b] z by (auto simp: nacl_box_compute_shared_def box_beforenm_def split: option.splits)
  have c: "?x ?a ?b = ?x ?b ?a" by (simp add: zip_replicate)
  have l: "length ?a = 32" by simp
  note ex = disco_open_exact [of ?x ?a ?b ?b ?a k, OF c l k]
  obtain w where w: "disco_seal_with_shared 80 [1, 0] ?n ?a k = Some w"
    by (auto simp: disco_seal_with_shared_def nacl_box_after_shared_eq)
  then have "disco_seal_with_shared 200 [1, 0] ?n ?a k = Some w"
    by (auto simp: disco_seal_with_shared_def nacl_box_after_shared_eq)
  then have s: "disco_seal ?x 200 [1, 0] ?n ?a ?b ?a = Some w" "disco_seal ?x 80 [1, 0] ?n ?a ?b ?a = Some w"
    using w conjunct2 [OF ex, of 200 "[1, 0]" ?n] conjunct2 [OF ex, of 80 "[1, 0]" ?n] by simp_all
  then have "disco_open ?x 64 w ?b = Some ([1, 0], ?a)"
    using conjunct1 [OF ex, of 64 w "[1, 0]"] by (auto intro!: exI [of _ ?n])
  then show ?thesis using s(1) by (simp only: Let_def) blast
qed

end
