(* ===== verification/STUN.thy ===== *)
theory STUN
  imports TL_Prelude
begin

unbundle bit_operations_syntax

text \<open>
  \<open>stun.c\<close>: the STUN binding client (RFC 5389).  A negative return code is a value of
  \<open>stun_err\<close> on the left of a sum.  \<open>stun_parse_response\<close> also returns what it wrote to
  \<open>out_txid\<close>, \<open>None\<close> when it returned before writing it.
\<close>

section \<open>The code\<close>

definition STUN_TXID_LEN :: nat where "STUN_TXID_LEN = 12"
definition STUN_HEADER_LEN :: nat where "STUN_HEADER_LEN = 20"
definition STUN_REQUEST_LEN :: nat where "STUN_REQUEST_LEN = 40"
definition STUN_MAGIC_COOKIE :: bytes where "STUN_MAGIC_COOKIE = [0x21, 0x12, 0xa4, 0x42]"
definition k_software :: bytes where "k_software = [0x74, 0x61, 0x69, 0x6c, 0x6e, 0x6f, 0x64, 0x65]"
definition STUN_SOFTWARE_LEN :: u16 where "STUN_SOFTWARE_LEN = 8"
definition STUN_SOFTWARE_ATTR_LEN :: u16 where "STUN_SOFTWARE_ATTR_LEN = 4 + STUN_SOFTWARE_LEN"
definition STUN_FINGERPRINT_ATTR_LEN :: u16 where "STUN_FINGERPRINT_ATTR_LEN = 4 + 4"

definition ATTR_MAPPED_ADDRESS :: u16 where "ATTR_MAPPED_ADDRESS = 0x0001"
definition ATTR_XOR_MAPPED_ADDRESS :: u16 where "ATTR_XOR_MAPPED_ADDRESS = 0x0020"
definition ATTR_XOR_MAPPED_ADDRESS_ALT :: u16 where "ATTR_XOR_MAPPED_ADDRESS_ALT = 0x8020"
definition ATTR_SOFTWARE :: u16 where "ATTR_SOFTWARE = 0x8022"
definition ATTR_FINGERPRINT :: u16 where "ATTR_FINGERPRINT = 0x8028"
definition FAMILY_IPV4 :: u8 where "FAMILY_IPV4 = 0x01"
definition FAMILY_IPV6 :: u8 where "FAMILY_IPV6 = 0x02"

lemmas stun_lens [simp] = STUN_TXID_LEN_def STUN_HEADER_LEN_def STUN_REQUEST_LEN_def
lemmas stun_attr_types = ATTR_MAPPED_ADDRESS_def ATTR_XOR_MAPPED_ADDRESS_def ATTR_XOR_MAPPED_ADDRESS_ALT_def

record stun_addr_t =
  sa_addr :: bytes
  sa_port :: u16
  is_v6 :: bool

datatype stun_err = STUN_ERR_NOT_STUN | STUN_ERR_NOT_SUCCESS | STUN_ERR_MALFORMED_ATTRS
  | STUN_ERR_NO_MAPPED_ADDR | STUN_ERR_TXID_MISMATCH | STUN_ERR_NOT_V4

text \<open>One iteration of the bit loop, and the loop over the bytes.\<close>

definition crc_bit :: "u32 \<Rightarrow> u32" where
  "crc_bit c = (let mask = 0 - (c AND 1) in drop_bit 1 c XOR (0xEDB88320 AND mask))"

definition crc_byte :: "u8 \<Rightarrow> u32 \<Rightarrow> u32" where
  "crc_byte b c = (crc_bit ^^ 8) (c XOR ucast b)"

definition crc32_ieee :: "bytes \<Rightarrow> u32" where
  "crc32_ieee p = NOT (fold crc_byte p 0xFFFFFFFF)"

definition stun_fingerprint :: "bytes \<Rightarrow> u32" where
  "stun_fingerprint p = crc32_ieee p XOR 0x5354554E"

definition stun_is :: "bytes \<Rightarrow> bool" where
  "stun_is buf =
     (if length buf < STUN_HEADER_LEN then False
      else if (buf ! 0 AND 0xC0) \<noteq> 0 then False
      else bytes_at 4 4 buf = STUN_MAGIC_COOKIE)"

definition stun_build_request :: "bytes \<Rightarrow> bytes" where
  "stun_build_request txid =
     (let hdr = [0x00, 0x01] @ put_u16_be (STUN_SOFTWARE_ATTR_LEN + STUN_FINGERPRINT_ATTR_LEN)
                @ STUN_MAGIC_COOKIE @ take STUN_TXID_LEN txid;
          sw = put_u16_be ATTR_SOFTWARE @ put_u16_be STUN_SOFTWARE_LEN @ k_software;
          fp = stun_fingerprint (hdr @ sw)
      in hdr @ sw @ put_u16_be ATTR_FINGERPRINT @ put_u16_be 4 @ put_u32_be fp)"

definition mapped_addr :: "bool \<Rightarrow> bytes \<Rightarrow> bytes" where
  "mapped_addr v6 raw = (if v6 then take 16 raw else replicate 10 0 @ [0xff, 0xff] @ take 4 raw)"

definition decode_xor_mapped :: "bytes \<Rightarrow> nat \<Rightarrow> bytes \<Rightarrow> stun_err + stun_addr_t" where
  "decode_xor_mapped attr alen txid =
     (if alen < 4 then Inl STUN_ERR_MALFORMED_ATTRS
      else let family = attr ! 1; port = get_u16_be (drop 2 attr) XOR 0x2112
           in if family \<noteq> FAMILY_IPV4 \<and> family \<noteq> FAMILY_IPV6 then Inl STUN_ERR_MALFORMED_ATTRS
              else let v6 = (family = FAMILY_IPV6); addr_len = (if v6 then 16 else 4)
                   in if alen < 4 + addr_len then Inl STUN_ERR_MALFORMED_ATTRS
                      else let raw = map (\<lambda>i. if i < 4 then attr ! (4 + i) XOR STUN_MAGIC_COOKIE ! i
                                              else attr ! (4 + i) XOR txid ! (i - 4)) [0..<addr_len]
                           in Inr \<lparr>sa_addr = mapped_addr v6 raw, sa_port = port, is_v6 = v6\<rparr>)"

definition decode_mapped :: "bytes \<Rightarrow> nat \<Rightarrow> stun_err + stun_addr_t" where
  "decode_mapped attr alen =
     (if alen < 4 then Inl STUN_ERR_MALFORMED_ATTRS
      else let family = attr ! 1; port = get_u16_be (drop 2 attr)
           in if family \<noteq> FAMILY_IPV4 \<and> family \<noteq> FAMILY_IPV6 then Inl STUN_ERR_MALFORMED_ATTRS
              else let v6 = (family = FAMILY_IPV6); addr_len = (if v6 then 16 else 4)
                   in if alen < 4 + addr_len then Inl STUN_ERR_MALFORMED_ATTRS
                      else Inr \<lparr>sa_addr = mapped_addr v6 (drop 4 attr), sa_port = port, is_v6 = v6\<rparr>)"

text \<open>The switch on the attribute type; the state is \<open>xor_addr\<close> and \<open>fallback\<close>, \<open>None\<close> while
  \<open>got_xor\<close> and \<open>got_mapped\<close> are false.  An attribute that does not decode is ignored.\<close>

definition stun_attr :: "bytes \<Rightarrow> u16 \<Rightarrow> bytes \<Rightarrow> nat \<Rightarrow> stun_addr_t option \<times> stun_addr_t option \<Rightarrow> stun_addr_t option \<times> stun_addr_t option" where
  "stun_attr txid atype p alen st =
     (if atype = ATTR_XOR_MAPPED_ADDRESS \<or> atype = ATTR_XOR_MAPPED_ADDRESS_ALT
      then (case decode_xor_mapped p alen txid of Inr a \<Rightarrow> (Some a, snd st) | Inl _ \<Rightarrow> st)
      else if atype = ATTR_MAPPED_ADDRESS
      then (case decode_mapped p alen of Inr a \<Rightarrow> (fst st, Some a) | Inl _ \<Rightarrow> st)
      else st)"

definition alen_pad :: "u16 \<Rightarrow> nat" where
  "alen_pad alen = unat ((ucast alen + 3) AND NOT 3 :: u32)"

function stun_attrs :: "bytes \<Rightarrow> nat \<Rightarrow> bytes \<Rightarrow> stun_addr_t option \<times> stun_addr_t option \<Rightarrow> stun_err + stun_addr_t option \<times> stun_addr_t option" where
  "stun_attrs p rem txid st =
     (if rem = 0 then Inr st
      else if rem < 4 then Inl STUN_ERR_MALFORMED_ATTRS
      else let atype = get_u16_be p; alen = get_u16_be (drop 2 p); pad = alen_pad alen;
               p' = drop 4 p; rem' = rem - 4
           in if pad > rem' then Inl STUN_ERR_MALFORMED_ATTRS
              else stun_attrs (drop pad p') (rem' - pad) txid (stun_attr txid atype p' (unat alen) st))"
  by auto
termination by (relation "measure (\<lambda>(p, rem, txid, st). rem)") auto

definition stun_parse_response :: "bytes \<Rightarrow> bytes option \<times> (stun_err + stun_addr_t)" where
  "stun_parse_response buf =
     (if \<not> stun_is buf then (None, Inl STUN_ERR_NOT_STUN)
      else let txid = bytes_at 8 STUN_TXID_LEN buf
           in (Some txid,
               if buf ! 0 \<noteq> 0x01 \<or> buf ! 1 \<noteq> 0x01 then Inl STUN_ERR_NOT_SUCCESS
               else let attrs_len = unat (get_u16_be (drop 2 buf)); p = drop STUN_HEADER_LEN buf;
                        rem = length buf - STUN_HEADER_LEN
                    in if attrs_len > rem then Inl STUN_ERR_MALFORMED_ATTRS
                       else case stun_attrs p attrs_len txid (None, None) of
                              Inl e \<Rightarrow> Inl e
                            | Inr (Some xor_addr, fallback) \<Rightarrow> Inr xor_addr
                            | Inr (None, Some fallback) \<Rightarrow> Inr fallback
                            | Inr (None, None) \<Rightarrow> Inl STUN_ERR_NO_MAPPED_ADDR))"

definition stun_match_v4 :: "bytes \<Rightarrow> bytes \<Rightarrow> stun_err + bytes \<times> u16" where
  "stun_match_v4 buf txid =
     (case stun_parse_response buf of
        (_, Inl e) \<Rightarrow> Inl e
      | (got, Inr addr) \<Rightarrow>
          if got \<noteq> Some (take STUN_TXID_LEN txid) then Inl STUN_ERR_TXID_MISMATCH
          else if is_v6 addr then Inl STUN_ERR_NOT_V4
          else Inr (bytes_at 12 4 (sa_addr addr), sa_port addr))"

declare stun_attrs.simps [simp del]

section \<open>The fingerprint\<close>

lemma crc_bit_eq: "crc_bit c = drop_bit 1 c XOR (if bit c 0 then 0xEDB88320 else 0)"
proof -
  have "c AND 1 = (if bit c 0 then 1 else 0)"
    by (simp add: and_one_eq odd_iff_mod_2_eq_one bit_0 flip: mod_2_eq_odd)
  then show ?thesis by (simp add: crc_bit_def Let_def)
qed

lemma xor_left_cancel: "x XOR y = x XOR z \<longleftrightarrow> y = (z :: 'a::len word)"
  by (metis xor.assoc xor.left_neutral xor_self_eq)

lemma crc_bit_inj: "inj crc_bit"
proof (rule injI)
  fix c d :: u32
  assume eq: "crc_bit c = crc_bit d"
  have top: "bit (crc_bit c) 31 = bit c 0" for c
  proof -
    have "bit (0xEDB88320 :: u32) 31" by simp
    moreover have "\<not> bit c 32" using bit_imp_le_length [of c 32] by auto
    ultimately show ?thesis by (simp add: crc_bit_eq bit_xor_iff bit_drop_bit_eq)
  qed
  have b0: "bit c 0 = bit d 0" using top [of c] top [of d] eq by simp
  then have "drop_bit 1 c = drop_bit 1 d"
    using eq unfolding crc_bit_eq by (simp only: xor.commute [of "drop_bit 1 _"] xor_left_cancel)
  then have "bit c (Suc n) = bit d (Suc n)" for n by (metis bit_drop_bit_eq comp_apply plus_1_eq_Suc)
  then show "c = d" using b0 by (intro bit_word_eqI) (metis not0_implies_Suc)
qed

lemma crc_byte_state: "crc_byte b c = crc_byte b d \<longleftrightarrow> c = d"
proof -
  have "inj (crc_bit ^^ 8)" by (rule inj_fn [OF crc_bit_inj])
  then show ?thesis
    unfolding crc_byte_def by (metis injD xor.commute xor_left_cancel)
qed

lemma crc_byte_input: "crc_byte a c = crc_byte b c \<longleftrightarrow> a = b"
proof -
  have "inj (crc_bit ^^ 8)" by (rule inj_fn [OF crc_bit_inj])
  moreover have "(ucast a :: u32) = ucast b \<longleftrightarrow> a = b"
  proof -
    have "unat (ucast w :: u32) = unat w" for w :: u8
      unfolding unat_ucast_mod by (intro mod_less order.strict_trans [OF u8_bound]) simp
    then show ?thesis by (metis word_unat_eq_iff)
  qed
  ultimately show ?thesis
    unfolding crc_byte_def by (metis injD xor_left_cancel)
qed

lemma crc_fold_state: "fold crc_byte p c = fold crc_byte p d \<longleftrightarrow> c = d"
  by (induction p arbitrary: c d) (simp_all add: crc_byte_state)

lemma fingerprint_one_byte:
  assumes "i < length p" "b \<noteq> p ! i"
  shows "stun_fingerprint (p[i := b]) \<noteq> stun_fingerprint p"
proof -
  have p: "p = take i p @ p ! i # drop (Suc i) p" using assms(1) by (rule id_take_nth_drop)
  have q: "p[i := b] = take i p @ b # drop (Suc i) p" using assms(1) by (rule upd_conv_take_nth_drop)
  have "fold crc_byte (p[i := b]) 0xFFFFFFFF \<noteq> fold crc_byte p 0xFFFFFFFF"
    unfolding q by (subst (2) p) (simp add: crc_fold_state crc_byte_input assms(2))
  then show ?thesis
    unfolding stun_fingerprint_def crc32_ieee_def by (metis bit.double_compl xor.commute xor_left_cancel)
qed

section \<open>Attribute lists\<close>

text \<open>An attribute as a server writes it: type, value, and the padding to a multiple of four.\<close>

type_synonym attribute = "u16 \<times> bytes \<times> bytes"

fun attr_ok :: "attribute \<Rightarrow> bool" where
  "attr_ok (t, v, pd) \<longleftrightarrow> length v < 65536 \<and> length v + length pd = (length v + 3) div 4 * 4"

fun attr_bytes :: "attribute \<Rightarrow> bytes" where
  "attr_bytes (t, v, pd) = put_u16_be t @ put_u16_be (of_nat (length v)) @ v @ pd"

fun attr_fold :: "bytes \<Rightarrow> attribute \<Rightarrow> stun_addr_t option \<times> stun_addr_t option \<Rightarrow> stun_addr_t option \<times> stun_addr_t option" where
  "attr_fold txid (t, v, pd) st = stun_attr txid t v (length v) st"

lemma alen_pad_eq: "n < 65536 \<Longrightarrow> alen_pad (of_nat n) = (n + 3) div 4 * 4"
proof -
  assume n: "n < 65536"
  have m: "(3 :: u32) = mask 2" by (simp add: mask_eq_exp_minus_1)
  have u: "unat (of_nat n :: u16) = n" using n by (simp add: unat_of_nat)
  have s: "unat (ucast (of_nat n :: u16) + 3 :: u32) = n + 3"
    using n by (simp add: unat_word_ariths unat_ucast_mod u)
  have "unat (push_bit 2 (drop_bit 2 (ucast (of_nat n :: u16) + 3 :: u32))) = (n + 3) div 4 * 4"
    using n by (simp only: unat_push_bit unat_drop_bit s) simp
  moreover have "w AND NOT (mask 2) = push_bit 2 (drop_bit 2 w)" for w :: u32
  proof (rule bit_word_eqI)
    fix n assume n: "n < LENGTH(32)"
    show "bit (w AND NOT (mask 2)) n = bit (push_bit 2 (drop_bit 2 w)) n"
      using n by (cases "2 \<le> n")
        (simp_all only: bit_and_iff bit_not_iff bit_mask_iff bit_push_bit_iff bit_drop_bit_eq comp_apply
          le_add_diff_inverse not_le simp_thms possible_bit_word not_less, auto)
  qed
  ultimately show ?thesis unfolding alen_pad_def m by simp
qed

lemma drop2_put_u16: "drop 2 (put_u16_be a @ r) = r" "drop 4 (put_u16_be a @ put_u16_be b @ r) = r"
  by (simp_all add: put_u16_be_def)

lemma decode_xor_local: "decode_xor_mapped (v @ r) (length v) txid = decode_xor_mapped v (length v) txid"
proof -
  have raw: "map (\<lambda>i. if i < 4 then (v @ r) ! (4 + i) XOR STUN_MAGIC_COOKIE ! i else (v @ r) ! (4 + i) XOR txid ! (i - 4)) [0..<n]
      = map (\<lambda>i. if i < 4 then v ! (4 + i) XOR STUN_MAGIC_COOKIE ! i else v ! (4 + i) XOR txid ! (i - 4)) [0..<n]"
    if "4 + n \<le> length v" for n
    using that by (intro map_cong) (simp_all add: nth_append)
  have hd: "(v @ r) ! 1 = v ! 1" "get_u16_be (drop 2 (v @ r)) = get_u16_be (drop 2 v)" if "\<not> length v < 4"
    using that by (auto simp: nth_append get_u16_be_def)
  show ?thesis
    unfolding decode_xor_mapped_def Let_def by (rule if_cong, rule refl, rule refl) (simp only: hd raw not_less cong: if_cong)
qed

lemma decode_mapped_local: "decode_mapped (v @ r) (length v) = decode_mapped v (length v)"
proof -
  have m: "mapped_addr v6 (drop 4 (v @ r)) = mapped_addr v6 (drop 4 v)" if "4 + (if v6 then 16 else 4) \<le> length v" for v6
    using that by (cases v6) (simp_all add: mapped_addr_def)
  have hd: "(v @ r) ! 1 = v ! 1" "get_u16_be (drop 2 (v @ r)) = get_u16_be (drop 2 v)" if "\<not> length v < 4"
    using that by (auto simp: nth_append get_u16_be_def)
  show ?thesis
    unfolding decode_mapped_def Let_def by (rule if_cong, rule refl, rule refl) (simp only: hd m not_less cong: if_cong)
qed

lemma stun_attr_local: "stun_attr txid t (v @ r) (length v) st = stun_attr txid t v (length v) st"
  by (simp add: stun_attr_def decode_xor_local decode_mapped_local)

lemma stun_attrs_list:
  assumes "\<forall>a \<in> set attrs. attr_ok a"
  shows "stun_attrs (concat (map attr_bytes attrs) @ tail) (length (concat (map attr_bytes attrs))) txid st = Inr (fold (attr_fold txid) attrs st)"
  using assms
proof (induction attrs arbitrary: st)
  case Nil
  then show ?case by (simp add: stun_attrs.simps [of _ 0])
next
  case (Cons a attrs)
  obtain t v pd where a: "a = (t, v, pd)" by (cases a)
  have ok: "length v < 65536" "length v + length pd = (length v + 3) div 4 * 4" using Cons.prems a by simp_all
  define rest where "rest = concat (map attr_bytes attrs)"
  let ?p = "put_u16_be t @ put_u16_be (of_nat (length v)) @ v @ pd @ rest @ tail"
  have pad: "alen_pad (of_nat (length v)) = length v + length pd" using alen_pad_eq [OF ok(1)] ok(2) by simp
  have u: "unat (of_nat (length v) :: u16) = length v" using ok(1) by (simp add: unat_of_nat)
  have d: "get_u16_be ?p = t" "get_u16_be (drop 2 ?p) = of_nat (length v)" "drop 4 ?p = v @ pd @ rest @ tail"
    by (simp_all add: drop2_put_u16)
  have "stun_attrs ?p (4 + (length v + length pd) + length rest) txid st =
      stun_attrs (rest @ tail) (length rest) txid (stun_attr txid t (v @ pd @ rest @ tail) (length v) st)"
    by (subst stun_attrs.simps) (simp add: d pad u Let_def)
  also have "\<dots> = Inr (fold (attr_fold txid) attrs (attr_fold txid a st))"
    using Cons by (simp add: a stun_attr_local rest_def)
  finally show ?case by (simp add: a rest_def [symmetric] add.assoc numeral_Bit0)
qed

section \<open>What a server sends\<close>

definition stun_success :: "bytes \<Rightarrow> attribute list \<Rightarrow> bytes \<Rightarrow> bytes" where
  "stun_success txid attrs tail =
     (let b = concat (map attr_bytes attrs)
      in [0x01, 0x01] @ put_u16_be (of_nat (length b)) @ STUN_MAGIC_COOKIE @ txid @ b @ tail)"

text \<open>An address as 16 bytes, and the XOR-MAPPED-ADDRESS value RFC 5389 gives for it.\<close>

fun addr_ok :: "stun_addr_t \<Rightarrow> bool" where
  "addr_ok a \<longleftrightarrow> length (sa_addr a) = 16 \<and> (is_v6 a \<or> take 12 (sa_addr a) = replicate 10 0 @ [0xff, 0xff])"

definition xor_mapped_value :: "bytes \<Rightarrow> stun_addr_t \<Rightarrow> bytes" where
  "xor_mapped_value txid a =
     [0, if is_v6 a then 2 else 1] @ put_u16_be (sa_port a XOR 0x2112) @
     map2 (XOR) (if is_v6 a then sa_addr a else drop 12 (sa_addr a)) (STUN_MAGIC_COOKIE @ txid)"

lemma length_COOKIE [simp]: "length STUN_MAGIC_COOKIE = 4"
  by (simp add: STUN_MAGIC_COOKIE_def)

lemma xor_twice: "(a XOR b) XOR b = (a :: 'a::len word)"
  by (simp add: xor.assoc)

lemma unxor_raw:
  assumes "length xs \<le> 16" "length txid = 12" "n = length xs"
  shows "map (\<lambda>i. if i < 4 then (h1 # h2 # h3 # h4 # map2 (XOR) xs (STUN_MAGIC_COOKIE @ txid)) ! (4 + i) XOR STUN_MAGIC_COOKIE ! i
      else (h1 # h2 # h3 # h4 # map2 (XOR) xs (STUN_MAGIC_COOKIE @ txid)) ! (4 + i) XOR txid ! (i - 4)) [0..<n] = xs"
  using assms by (intro nth_equalityI) (simp_all add: nth_append xor_twice)

lemma decode_xor_value:
  assumes "addr_ok a" "length txid = 12"
  shows "decode_xor_mapped (xor_mapped_value txid a) (length (xor_mapped_value txid a)) txid = Inr a"
proof -
  define xs where "xs = (if is_v6 a then sa_addr a else drop 12 (sa_addr a))"
  define n :: nat where "n = (if is_v6 a then 16 else 4)"
  define f :: u8 where "f = (if is_v6 a then 2 else 1)"
  define h where "h = put_u16_be (sa_port a XOR 0x2112)"
  have len: "length xs = n" "n \<le> 16" using assms(1) by (auto simp: xs_def n_def)
  have val: "xor_mapped_value txid a = 0 # f # h ! 0 # h ! 1 # map2 (XOR) xs (STUN_MAGIC_COOKIE @ txid)"
    by (simp add: xor_mapped_value_def xs_def f_def h_def put_u16_be_def)
  have lv: "length (xor_mapped_value txid a) = 4 + n" using len assms(2) by (simp add: val)
  have port: "get_u16_be (drop 2 (xor_mapped_value txid a)) = sa_port a XOR 0x2112"
    by (simp add: xor_mapped_value_def)
  have fam: "xor_mapped_value txid a ! 1 = f" by (simp add: val)
  have fv: "f = FAMILY_IPV6 \<longleftrightarrow> is_v6 a" "f \<noteq> FAMILY_IPV4 \<and> f \<noteq> FAMILY_IPV6 \<longleftrightarrow> False"
    by (simp_all add: f_def FAMILY_IPV4_def FAMILY_IPV6_def)
  have raw: "map (\<lambda>i. if i < 4 then xor_mapped_value txid a ! (4 + i) XOR STUN_MAGIC_COOKIE ! i
      else xor_mapped_value txid a ! (4 + i) XOR txid ! (i - 4)) [0..<n] = xs"
    unfolding val using len assms(2) by (intro unxor_raw) simp_all
  have m: "mapped_addr (is_v6 a) xs = sa_addr a"
  proof (cases "is_v6 a")
    case False
    then have "take 12 (sa_addr a) @ drop 12 (sa_addr a) = replicate 10 0 @ [0xff, 0xff] @ xs"
      using assms(1) by (simp add: xs_def)
    then show ?thesis using False len by (simp add: mapped_addr_def n_def)
  qed (use assms in \<open>simp add: mapped_addr_def xs_def\<close>)
  have "decode_xor_mapped (xor_mapped_value txid a) (length (xor_mapped_value txid a)) txid
      = Inr \<lparr>sa_addr = mapped_addr (is_v6 a) xs, sa_port = (sa_port a XOR 0x2112) XOR 0x2112, is_v6 = is_v6 a\<rparr>"
    unfolding decode_xor_mapped_def Let_def fam fv(2) unfolding fv(1) port lv n_def [symmetric] raw by simp
  then show ?thesis by (simp add: m xor_twice)
qed

lemma fold_no_xor:
  assumes "\<forall>(t, v, pd) \<in> set attrs. t \<noteq> ATTR_XOR_MAPPED_ADDRESS \<and> t \<noteq> ATTR_XOR_MAPPED_ADDRESS_ALT"
  shows "fst (fold (attr_fold txid) attrs st) = fst st"
  using assms
proof (induction attrs arbitrary: st)
  case (Cons a attrs)
  then show ?case by (cases a) (auto simp: stun_attr_def split: sum.splits)
qed simp

lemma parse_success:
  assumes "length txid = 12" "\<forall>a \<in> set attrs. attr_ok a" "length (concat (map attr_bytes attrs)) < 65536"
  shows "stun_parse_response (stun_success txid attrs tail) =
    (Some txid, case fold (attr_fold txid) attrs (None, None) of
       (Some x, _) \<Rightarrow> Inr x | (None, Some m) \<Rightarrow> Inr m | (None, None) \<Rightarrow> Inl STUN_ERR_NO_MAPPED_ADDR)"
proof -
  define b where "b = concat (map attr_bytes attrs)"
  define r where "r = stun_success txid attrs tail"
  have r: "r = [1, 1] @ put_u16_be (of_nat (length b)) @ STUN_MAGIC_COOKIE @ txid @ b @ tail"
    by (simp add: r_def stun_success_def b_def Let_def)
  have len: "length r = 20 + length b + length tail" using assms(1) by (simp add: r)
  have nth: "r ! 0 = 1" "r ! Suc 0 = 1" by (simp_all add: r)
  have cookie: "bytes_at 4 4 r = STUN_MAGIC_COOKIE" by (simp add: r bytes_at_def put_u16_be_def)
  have tx: "bytes_at 8 12 r = txid" using assms(1) by (simp add: r bytes_at_def put_u16_be_def STUN_MAGIC_COOKIE_def)
  have d: "drop 20 r = b @ tail" using assms(1) by (simp add: r put_u16_be_def STUN_MAGIC_COOKIE_def)
  have "get_u16_be (drop 2 r) = of_nat (length b)" by (simp add: r)
  then have al: "unat (get_u16_be (drop 2 r)) = length b" using assms(3) by (simp add: unat_of_nat b_def)
  have isr: "stun_is r" using len by (simp add: stun_is_def nth cookie)
  have attrs: "stun_attrs (b @ tail) (length b) txid (None, None) = Inr (fold (attr_fold txid) attrs (None, None))"
    unfolding b_def by (rule stun_attrs_list [OF assms(2)])
  show ?thesis
    unfolding r_def [symmetric] stun_parse_response_def
    by (simp add: isr nth tx al d len attrs Let_def split: prod.splits option.splits)
qed

section \<open>Properties\<close>

text \<open>The binding client learns its public address: a success response that carries the
  XOR-MAPPED-ADDRESS of an IPv4 or IPv6 address, among any other attributes (earlier address
  attributes of either kind, malformed ones included, unknown ones, padding and bytes behind
  the attribute list), is parsed to that address and port, unless a later attribute is an XOR
  address again; and \<open>stun_match_v4\<close> hands out the four IPv4 octets and the port to the request with
  the same transaction id only.\<close>

theorem stun_response_matched:
  assumes "addr_ok a" "length txid = 12" "attrs = before @ (ATTR_XOR_MAPPED_ADDRESS, xor_mapped_value txid a, []) # after"
    "\<forall>x \<in> set attrs. attr_ok x" "length (concat (map attr_bytes attrs)) < 65536" "length t = 12"
    "\<forall>(ty, v, pd) \<in> set after. ty \<noteq> ATTR_XOR_MAPPED_ADDRESS \<and> ty \<noteq> ATTR_XOR_MAPPED_ADDRESS_ALT"
  shows "stun_parse_response (stun_success txid attrs tail) = (Some txid, Inr a) \<and>
    stun_match_v4 (stun_success txid attrs tail) t =
      (if t \<noteq> txid then Inl STUN_ERR_TXID_MISMATCH else if is_v6 a then Inl STUN_ERR_NOT_V4
       else Inr (drop 12 (sa_addr a), sa_port a))"
proof -
  let ?x = "(ATTR_XOR_MAPPED_ADDRESS, xor_mapped_value txid a, [])"
  have "fst (attr_fold txid ?x st) = Some a" for st
    by (simp add: stun_attr_def decode_xor_value [OF assms(1,2)])
  then have "fst (fold (attr_fold txid) attrs (None, None)) = Some a"
    by (simp only: assms(3) fold_append fold_simps comp_apply fold_no_xor [OF assms(7)])
  then have p: "stun_parse_response (stun_success txid attrs tail) = (Some txid, Inr a)"
    unfolding parse_success [OF assms(2,4,5)] by (auto split: prod.splits)
  show ?thesis
    using assms(1,6) by (auto simp: stun_match_v4_def p bytes_at_def)
qed

theorem stun_response_matched_witness:
  "let a = \<lparr>sa_addr = replicate 10 0 @ [0xff, 0xff, 192, 0, 2, 1], sa_port = 41641, is_v6 = False\<rparr>;
       txid = replicate 12 7
   in stun_match_v4 (stun_success txid [(0x8022, [65], [0, 0, 0]), (ATTR_XOR_MAPPED_ADDRESS, xor_mapped_value txid a, [])] [9]) txid
      = Inr ([192, 0, 2, 1], 41641)"
proof -
  let ?a = "\<lparr>sa_addr = replicate 10 0 @ [0xff, 0xff, 192, 0, 2, 1], sa_port = 41641, is_v6 = False\<rparr> :: stun_addr_t"
  let ?t = "replicate 12 7 :: bytes"
  let ?attrs = "[(0x8022, [65], [0, 0, 0]), (ATTR_XOR_MAPPED_ADDRESS, xor_mapped_value ?t ?a, [])] :: attribute list"
  have l: "length (xor_mapped_value ?t ?a) = 8" by (simp add: xor_mapped_value_def)
  have "addr_ok ?a" "length ?t = 12" "?attrs = [(0x8022, [65], [0, 0, 0])] @ (ATTR_XOR_MAPPED_ADDRESS, xor_mapped_value ?t ?a, []) # []"
    "\<forall>x \<in> set ?attrs. attr_ok x" "length (concat (map attr_bytes ?attrs)) < 65536"
    by (simp_all add: l)
  from stun_response_matched [OF this, of ?t "[9]"] show ?thesis
    by (simp add: Let_def)
qed

text \<open>The fingerprint of a binding request detects every corruption confined to one byte:
  changing any single byte of the covered bytes to any other value changes the fingerprint.\<close>

theorem stun_fingerprint_detects:
  assumes "i < length p" "b \<noteq> p ! i"
  shows "stun_fingerprint (p[i := b]) \<noteq> stun_fingerprint p"
  by (rule fingerprint_one_byte [OF assms])

theorem stun_fingerprint_detects_witness:
  "stun_fingerprint ([0, 1, 2, 3][2 := 7]) \<noteq> stun_fingerprint [0, 1, 2, 3]"
  by (rule stun_fingerprint_detects) simp_all

end
