(* ===== verification/WG_Demux.thy ===== *)
theory WG_Demux
  imports WG_Transport Disco STUN
begin

text \<open>
  \<open>wg_demux.c\<close>: the classifier of the datagrams that arrive on the WireGuard socket.
\<close>

section \<open>The code\<close>

datatype wg_demux_kind_t = WG_DEMUX_DISCARD | WG_DEMUX_HANDSHAKE_INIT | WG_DEMUX_HANDSHAKE_RESP | WG_DEMUX_HANDSHAKE_COOKIE
  | WG_DEMUX_TRANSPORT | WG_DEMUX_STUN | WG_DEMUX_DISCO

definition MSG_INITIATION :: u8 where "MSG_INITIATION = 1"
definition MSG_RESPONSE :: u8 where "MSG_RESPONSE = 2"
definition MSG_COOKIE_REPLY :: u8 where "MSG_COOKIE_REPLY = 3"
definition MSG_TRANSPORT :: u8 where "MSG_TRANSPORT = 4"
definition DISCO_V1_MAGIC :: bytes where "DISCO_V1_MAGIC = [0x54, 0x53, 0xf0, 0x9f, 0x92, 0xac]"
definition WG_INIT_LEN :: nat where "WG_INIT_LEN = 148"
definition WG_RESP_LEN :: nat where "WG_RESP_LEN = 92"
definition WG_COOKIE_LEN :: nat where "WG_COOKIE_LEN = 64"
definition WG_TRANSPORT_MIN :: nat where "WG_TRANSPORT_MIN = 32"
definition STUN_HEADER_MIN :: nat where "STUN_HEADER_MIN = 20"
definition STUN_MAGIC_OFF :: nat where "STUN_MAGIC_OFF = 4"
definition STUN_MAGIC :: bytes where "STUN_MAGIC = [0x21, 0x12, 0xa4, 0x42]"
definition DISCO_HEADER_MIN :: nat where "DISCO_HEADER_MIN = length DISCO_V1_MAGIC + 32 + 24 + 16 + 2"

definition is_stun :: "bytes \<Rightarrow> bool" where
  "is_stun buf \<longleftrightarrow> length buf \<ge> STUN_HEADER_MIN \<and> bytes_at STUN_MAGIC_OFF 4 buf = STUN_MAGIC"

definition wg_demux_classify :: "bytes \<Rightarrow> wg_demux_kind_t" where
  "wg_demux_classify buf =
     (if length buf = 0 then WG_DEMUX_DISCARD
      else if buf ! 0 = 0x54
      then (if length buf \<ge> length DISCO_V1_MAGIC \<and> take 6 buf = DISCO_V1_MAGIC
            then (if length buf < DISCO_HEADER_MIN then WG_DEMUX_DISCARD else WG_DEMUX_DISCO)
            else WG_DEMUX_DISCARD)
      else if buf ! 0 = 0x00 then (if is_stun buf then WG_DEMUX_STUN else WG_DEMUX_DISCARD)
      else if buf ! 0 = MSG_INITIATION
      then (if is_stun buf then WG_DEMUX_STUN
            else if length buf = WG_INIT_LEN then WG_DEMUX_HANDSHAKE_INIT else WG_DEMUX_DISCARD)
      else if buf ! 0 = MSG_RESPONSE then (if length buf = WG_RESP_LEN then WG_DEMUX_HANDSHAKE_RESP else WG_DEMUX_DISCARD)
      else if buf ! 0 = MSG_COOKIE_REPLY then (if length buf = WG_COOKIE_LEN then WG_DEMUX_HANDSHAKE_COOKIE else WG_DEMUX_DISCARD)
      else if buf ! 0 = MSG_TRANSPORT then (if length buf \<ge> WG_TRANSPORT_MIN then WG_DEMUX_TRANSPORT else WG_DEMUX_DISCARD)
      else WG_DEMUX_DISCARD)"

section \<open>The classes\<close>

lemmas demux_consts = MSG_INITIATION_def MSG_RESPONSE_def MSG_COOKIE_REPLY_def MSG_TRANSPORT_def WG_INIT_LEN_def WG_RESP_LEN_def
  WG_COOKIE_LEN_def WG_TRANSPORT_MIN_def STUN_HEADER_MIN_def STUN_MAGIC_OFF_def DISCO_HEADER_MIN_def

lemma magic_eq: "DISCO_V1_MAGIC = DISCO_MAGIC" "STUN_MAGIC = STUN_MAGIC_COOKIE"
  by (simp_all add: DISCO_V1_MAGIC_def DISCO_MAGIC_def STUN_MAGIC_def STUN_MAGIC_COOKIE_def)

lemma disco_first: "take 6 buf = DISCO_MAGIC \<Longrightarrow> 6 \<le> length buf \<Longrightarrow> buf ! 0 = 0x54"
  by (drule arg_cong [where f = "\<lambda>xs. xs ! 0"]) (simp add: DISCO_MAGIC_def)

lemma is_stun_iff: "buf ! 0 = 0 \<or> buf ! 0 = 1 \<Longrightarrow> is_stun buf \<longleftrightarrow> stun_is buf"
  by (auto simp: is_stun_def stun_is_def demux_consts STUN_HEADER_LEN_def magic_eq)

lemma classify_disco: "wg_demux_classify buf = WG_DEMUX_DISCO \<longleftrightarrow> disco_looks_like buf \<and> 80 \<le> length buf"
  using disco_first [of buf] by (auto simp: wg_demux_classify_def demux_consts magic_eq disco_looks_like_def)

lemma classify_stun: "wg_demux_classify buf = WG_DEMUX_STUN \<longleftrightarrow> stun_is buf \<and> (buf ! 0 = 0 \<or> buf ! 0 = 1)"
proof -
  have "stun_is buf \<Longrightarrow> length buf \<noteq> 0" by (auto simp: stun_is_def STUN_HEADER_LEN_def split: if_splits)
  moreover have "buf ! 0 = 0 \<or> buf ! 0 = 1" if "wg_demux_classify buf = WG_DEMUX_STUN"
    by (rule ccontr) (use that in \<open>simp add: wg_demux_classify_def MSG_INITIATION_def split: if_splits\<close>)
  moreover have "wg_demux_classify buf = WG_DEMUX_STUN \<longleftrightarrow> stun_is buf" if "buf ! 0 = 0 \<or> buf ! 0 = 1" "length buf \<noteq> 0"
    using that(1)
  proof
    assume "buf ! 0 = 0"
    then show ?thesis using that(2) is_stun_iff [of buf] by (simp add: wg_demux_classify_def)
  next
    assume "buf ! 0 = 1"
    then show ?thesis using that(2) is_stun_iff [of buf] by (simp add: wg_demux_classify_def MSG_INITIATION_def)
  qed
  moreover have "length buf \<noteq> 0" if "wg_demux_classify buf = WG_DEMUX_STUN" using that by (auto simp: wg_demux_classify_def)
  ultimately show ?thesis by blast
qed

lemma classify_wg:
  "wg_demux_classify buf = WG_DEMUX_TRANSPORT \<longleftrightarrow> 32 \<le> length buf \<and> buf ! 0 = 4"
  "wg_demux_classify buf = WG_DEMUX_HANDSHAKE_INIT \<longleftrightarrow> length buf = 148 \<and> buf ! 0 = 1 \<and> \<not> stun_is buf"
  "wg_demux_classify buf = WG_DEMUX_HANDSHAKE_RESP \<longleftrightarrow> length buf = 92 \<and> buf ! 0 = 2"
  "wg_demux_classify buf = WG_DEMUX_HANDSHAKE_COOKIE \<longleftrightarrow> length buf = 64 \<and> buf ! 0 = 3"
proof -
  have e: "length buf = 0 \<Longrightarrow> wg_demux_classify buf = WG_DEMUX_DISCARD" by (simp add: wg_demux_classify_def)
  have d: "buf ! 0 = 0x54 \<Longrightarrow> wg_demux_classify buf \<in> {WG_DEMUX_DISCARD, WG_DEMUX_DISCO}"
    "buf ! 0 = 0 \<Longrightarrow> wg_demux_classify buf \<in> {WG_DEMUX_DISCARD, WG_DEMUX_STUN}"
    by (simp_all add: wg_demux_classify_def)
  show "wg_demux_classify buf = WG_DEMUX_TRANSPORT \<longleftrightarrow> 32 \<le> length buf \<and> buf ! 0 = 4"
    "wg_demux_classify buf = WG_DEMUX_HANDSHAKE_INIT \<longleftrightarrow> length buf = 148 \<and> buf ! 0 = 1 \<and> \<not> stun_is buf"
    "wg_demux_classify buf = WG_DEMUX_HANDSHAKE_RESP \<longleftrightarrow> length buf = 92 \<and> buf ! 0 = 2"
    "wg_demux_classify buf = WG_DEMUX_HANDSHAKE_COOKIE \<longleftrightarrow> length buf = 64 \<and> buf ! 0 = 3"
    using e d is_stun_iff [of buf]
    by (cases "buf ! 0 = 0x54 \<or> buf ! 0 = 0 \<or> length buf = 0"; force simp: wg_demux_classify_def demux_consts split: if_splits)+
qed

end
