(* ===== verification/WG_Transport_Steps.thy ===== *)
theory WG_Transport_Steps
  imports WG_Transport
begin

unbundle bit_operations_syntax

text \<open>
  Interleavings of the transport.  Several tasks use one session: the DERP reader, the direct
  path, the sender, the rekey.  Each locked call (\<open>session_init\<close>, \<open>session_scrub\<close>,
  \<open>tx_reserve\<close>, \<open>rx_begin\<close>, \<open>rx_commit\<close>) is one atomic step; \<open>rx_open\<close> runs
  between them on a ticket.  Tickets are never taken away from the pools, so the relation
  also covers callers that commit a ticket twice or much later.  Another session of the process
  may take a generation at any time (\<open>other_session\<close>).

  The ghost fields number the generations without wrap-around: \<open>tw_epoch\<close> counts the
  calls of \<open>new_gen\<close>, \<open>tw_current\<close> is the number of the keypair the session holds,
  \<open>tw_keys\<close> its keys.
\<close>

section \<open>Executions\<close>

record transport_world =
  tw_session :: wg_transport_session
  tw_next_gen :: u32
  tw_epoch :: nat
  tw_current :: nat
  tw_keys :: "nat \<Rightarrow> bytes \<times> bytes"
  tw_issued :: "(nat \<times> wg_tx_ticket) list"
  tw_begun :: "(nat \<times> wg_rx_ticket) list"
  tw_opened :: "(nat \<times> wg_rx_ticket \<times> bytes \<times> bytes) list"
  tw_accepted :: "(nat \<times> u64 \<times> bytes \<times> bytes) list"

definition world_start :: transport_world where
  "world_start = \<lparr>tw_session = session_zero, tw_next_gen = 0, tw_epoch = 0, tw_current = 0,
     tw_keys = (\<lambda>_. (replicate 32 0, replicate 32 0)), tw_issued = [], tw_begun = [], tw_opened = [], tw_accepted = []\<rparr>"

inductive transport_step :: "transport_world \<Rightarrow> transport_world \<Rightarrow> bool" where
  session_init:
    "wg_transport_session_init (tw_next_gen w) li ri sk rk = (s, g) \<Longrightarrow>
     transport_step w (w\<lparr>tw_session := s, tw_next_gen := g, tw_epoch := Suc (tw_epoch w), tw_current := Suc (tw_epoch w),
       tw_keys := (tw_keys w)(Suc (tw_epoch w) := (take 32 sk, take 32 rk))\<rparr>)"
| session_scrub:
    "wg_transport_session_scrub (tw_next_gen w) = (s, g) \<Longrightarrow>
     transport_step w (w\<lparr>tw_session := s, tw_next_gen := g, tw_epoch := Suc (tw_epoch w), tw_current := Suc (tw_epoch w)\<rparr>)"
| other_session:
    "new_gen (tw_next_gen w) = (h, g) \<Longrightarrow> transport_step w (w\<lparr>tw_next_gen := g, tw_epoch := Suc (tw_epoch w)\<rparr>)"
| tx_reserve:
    "wg_transport_tx_reserve (tw_session w) = Some (t, s) \<Longrightarrow>
     transport_step w (w\<lparr>tw_session := s, tw_issued := (tw_current w, t) # tw_issued w\<rparr>)"
| rx_begin:
    "wg_transport_rx_begin (tw_session w) wire n = Some t \<Longrightarrow>
     transport_step w (w\<lparr>tw_begun := (tw_current w, t) # tw_begun w\<rparr>)"
| rx_open:
    "(e, t) \<in> set (tw_begun w) \<Longrightarrow> wg_transport_rx_open al t wire = (Some p, t') \<Longrightarrow>
     transport_step w (w\<lparr>tw_opened := (e, t', p, wire) # tw_opened w\<rparr>)"
| rx_commit_ok:
    "(e, t, p, wire) \<in> set (tw_opened w) \<Longrightarrow> wg_transport_rx_commit (tw_session w) t = (RX_OK, s) \<Longrightarrow>
     transport_step w (w\<lparr>tw_session := s, tw_accepted := (tw_current w, rx_counter t, p, wire) # tw_accepted w\<rparr>)"
| rx_commit_refused:
    "(e, t, p, wire) \<in> set (tw_opened w) \<Longrightarrow> wg_transport_rx_commit (tw_session w) t = (rc, s) \<Longrightarrow> rc \<noteq> RX_OK \<Longrightarrow>
     transport_step w (w\<lparr>tw_session := s\<rparr>)"

abbreviation transport_reaches :: "transport_world \<Rightarrow> bool" where
  "transport_reaches w \<equiv> transport_step\<^sup>*\<^sup>* world_start w"

inductive_cases transport_stepE: "transport_step w w'"

section \<open>Invariants\<close>

lemmas session_ops = wg_transport_session_init_def wg_transport_session_scrub_def new_gen_def session_zero_def Let_def

text \<open>Generations: the words are the ghost numbers modulo \<open>2 ^ 32\<close>.\<close>

definition gen_inv :: "transport_world \<Rightarrow> bool" where
  "gen_inv w \<longleftrightarrow> tw_next_gen w = of_nat (tw_epoch w) \<and> gen (tw_session w) = of_nat (tw_current w) \<and>
     tw_current w \<le> tw_epoch w"

lemma gen_inv_cong:
  assumes "gen_inv w" "tw_next_gen w' = tw_next_gen w" "tw_epoch w' = tw_epoch w" "tw_current w' = tw_current w"
    "gen (tw_session w') = gen (tw_session w)"
  shows "gen_inv w'"
  using assms by (simp add: gen_inv_def)

lemma rx_commit_session: "wg_transport_rx_commit s t = (rc, s') \<Longrightarrow> s' = s\<lparr>replay := replay s'\<rparr>"
  by (auto dest!: rx_commit_cases)

lemma gen_inv_step:
  assumes "gen_inv w" "transport_step w w'"
  shows "gen_inv w'"
  using assms(2)
proof (cases rule: transport_step.cases)
  case (session_init li ri sk rk s g)
  then show ?thesis using assms(1) by (auto simp: gen_inv_def session_ops)
next
  case (session_scrub s g)
  then show ?thesis using assms(1) by (auto simp: gen_inv_def session_ops)
next
  case (other_session h g)
  then show ?thesis using assms(1) by (auto simp: gen_inv_def session_ops)
next
  case (tx_reserve t s)
  then show ?thesis
    by (intro gen_inv_cong [OF assms(1)]) (auto simp: wg_transport_tx_reserve_def split: if_splits)
next
  case (rx_commit_ok e t p wire s)
  then show ?thesis by (intro gen_inv_cong [OF assms(1)]) (auto dest!: rx_commit_cases)
next
  case (rx_commit_refused e t p wire rc s)
  then show ?thesis by (intro gen_inv_cong [OF assms(1)]) (auto dest!: rx_commit_cases)
qed (auto intro: gen_inv_cong [OF assms(1)])

text \<open>Sending: tickets of the current keypair lie below the session's counter.\<close>

definition tx_inv :: "transport_world \<Rightarrow> bool" where
  "tx_inv w \<longleftrightarrow>
     (valid (tw_session w) \<longrightarrow> send_key (tw_session w) = fst (tw_keys w (tw_current w))) \<and>
     (\<forall>(e, t) \<in> set (tw_issued w). e \<le> tw_current w \<and> tx_key t = fst (tw_keys w e) \<and> tx_counter t \<noteq> WG_COUNTER_REJECT_AT \<and>
        (e = tw_current w \<longrightarrow> valid (tw_session w) \<and> unat (tx_counter t) < unat (send_counter (tw_session w)))) \<and>
     distinct (map (\<lambda>(e, t). (e, tx_counter t)) (tw_issued w))"

lemma unat_Suc_u64: "c \<noteq> WG_COUNTER_REJECT_AT \<Longrightarrow> unat (c + 1) = Suc (unat c)"
  using unatSuc [of c] by (simp add: u64_max add_eq_0_iff add.commute [of c 1])

lemma tx_inv_reserve:
  assumes "tx_inv w" "wg_transport_tx_reserve (tw_session w) = Some (t, s)"
  shows "tx_inv (w\<lparr>tw_session := s, tw_issued := (tw_current w, t) # tw_issued w\<rparr>)"
proof -
  have v: "valid (tw_session w)" "send_counter (tw_session w) \<noteq> WG_COUNTER_REJECT_AT"
    and t: "tx_key t = send_key (tw_session w)" "tx_counter t = send_counter (tw_session w)"
    and s: "s = (tw_session w)\<lparr>send_counter := send_counter (tw_session w) + 1\<rparr>"
    using assms(2) by (auto simp: wg_transport_tx_reserve_def split: if_splits)
  have u: "unat (send_counter s) = Suc (unat (send_counter (tw_session w)))"
    using v by (simp add: s unat_Suc_u64)
  have "(tw_current w, tx_counter t) \<notin> (\<lambda>(e, t). (e, tx_counter t)) ` set (tw_issued w)"
    using assms(1) t by (force simp: tx_inv_def)
  then show ?thesis
    using assms(1) v t u by (fastforce simp: tx_inv_def s)
qed

lemma tx_inv_new_keypair:
  assumes "tx_inv w" "gen_inv w" "\<And>e. e \<le> tw_current w \<Longrightarrow> tw_keys w' e = tw_keys w e"
    "tw_current w' = Suc (tw_epoch w)" "tw_issued w' = tw_issued w"
    "valid (tw_session w') \<Longrightarrow> send_key (tw_session w') = fst (tw_keys w' (tw_current w'))"
  shows "tx_inv w'"
  using assms by (fastforce simp: tx_inv_def gen_inv_def)

lemma tx_inv_cong:
  assumes "tx_inv w" "tw_keys w' = tw_keys w" "tw_current w' = tw_current w" "tw_issued w' = tw_issued w"
    "valid (tw_session w') = valid (tw_session w)" "send_key (tw_session w') = send_key (tw_session w)"
    "send_counter (tw_session w') = send_counter (tw_session w)"
  shows "tx_inv w'"
  using assms by (simp add: tx_inv_def)

lemma tx_inv_step:
  assumes "tx_inv w" "gen_inv w" "transport_step w w'"
  shows "tx_inv w'"
  using assms(3)
proof (cases rule: transport_step.cases)
  case (session_init li ri sk rk s g)
  then show ?thesis
    using assms by (intro tx_inv_new_keypair [OF assms(1,2)]) (auto simp: session_ops gen_inv_def)
next
  case (session_scrub s g)
  then show ?thesis
    using assms by (intro tx_inv_new_keypair [OF assms(1,2)]) (auto simp: session_ops)
next
  case (tx_reserve t s)
  then show ?thesis using tx_inv_reserve [OF assms(1)] by simp
next
  case (rx_commit_ok e t p wire s)
  then show ?thesis by (intro tx_inv_cong [OF assms(1)]) (auto dest!: rx_commit_cases)
next
  case (rx_commit_refused e t p wire rc s)
  then show ?thesis by (intro tx_inv_cong [OF assms(1)]) (auto dest!: rx_commit_cases)
qed (auto intro: tx_inv_cong [OF assms(1)])

text \<open>Receiving: tickets carry the generation and key they were begun under, the bytes that
  were opened were sealed under that key, and the window of the session stands for the accepted
  counters.\<close>

definition sealed_under :: "bytes \<Rightarrow> u64 \<Rightarrow> bytes \<Rightarrow> bytes \<Rightarrow> bool" where
  "sealed_under key c p wire \<longleftrightarrow> drop 16 wire = chacha20poly1305_encrypt True p [] key (counter_to_nonce c)"

definition rx_inv :: "transport_world \<Rightarrow> bool" where
  "rx_inv w \<longleftrightarrow>
     (valid (tw_session w) \<longrightarrow> recv_key (tw_session w) = snd (tw_keys w (tw_current w))) \<and>
     (\<forall>(e, t) \<in> set (tw_begun w). e \<le> tw_current w \<and> rx_gen t = of_nat e \<and> rx_key t = snd (tw_keys w e)) \<and>
     (\<forall>(e, t, p, wire) \<in> set (tw_opened w). e \<le> tw_current w \<and> rx_gen t = of_nat e \<and>
        sealed_under (snd (tw_keys w e)) (rx_counter t) p wire)"

definition window_inv :: "transport_world \<Rightarrow> bool" where
  "window_inv w \<longleftrightarrow>
     window_of (replay (tw_session w)) (unat ` {c. \<exists>p wire. (tw_current w, c, p, wire) \<in> set (tw_accepted w)}) \<and>
     (\<forall>(e, c, p, wire) \<in> set (tw_accepted w). e \<le> tw_current w) \<and>
     distinct (map (\<lambda>(e, c, p, wire). (e, c)) (tw_accepted w))"

lemma rx_inv_new_keypair:
  assumes "rx_inv w" "gen_inv w" "\<And>e. e \<le> tw_current w \<Longrightarrow> tw_keys w' e = tw_keys w e"
    "tw_current w' = Suc (tw_epoch w)" "tw_begun w' = tw_begun w" "tw_opened w' = tw_opened w"
    "valid (tw_session w') \<Longrightarrow> recv_key (tw_session w') = snd (tw_keys w' (tw_current w'))"
  shows "rx_inv w'"
  using assms by (fastforce simp: rx_inv_def gen_inv_def)

lemma rx_inv_cong:
  assumes "rx_inv w" "tw_keys w' = tw_keys w" "tw_current w' = tw_current w" "tw_begun w' = tw_begun w"
    "tw_opened w' = tw_opened w" "valid (tw_session w') = valid (tw_session w)"
    "recv_key (tw_session w') = recv_key (tw_session w)"
  shows "rx_inv w'"
  using assms by (simp add: rx_inv_def)

lemma rx_inv_step:
  assumes "rx_inv w" "gen_inv w" "transport_step w w'"
  shows "rx_inv w'"
  using assms(3)
proof (cases rule: transport_step.cases)
  case (session_init li ri sk rk s g)
  then show ?thesis
    using assms by (intro rx_inv_new_keypair [OF assms(1,2)]) (auto simp: session_ops gen_inv_def)
next
  case (session_scrub s g)
  then show ?thesis
    using assms by (intro rx_inv_new_keypair [OF assms(1,2)]) (auto simp: session_ops)
next
  case (tx_reserve t s)
  then show ?thesis
    by (intro rx_inv_cong [OF assms(1)]) (auto simp: wg_transport_tx_reserve_def split: if_splits)
next
  case (rx_begin wire n t)
  then show ?thesis using assms(1,2) by (auto simp: rx_inv_def gen_inv_def rx_begin_Some)
next
  case (rx_open e t al wire p t')
  then have "t' = t\<lparr>rx_key := replicate 32 0\<rparr>" using rx_open_ticket [of al t wire] by simp
  moreover have "sealed_under (rx_key t) (rx_counter t) p wire"
    using rx_open(3) rx_open_Some [of al t wire p] by (auto simp: sealed_under_def bytes_at_def)
  ultimately show ?thesis using assms(1) rx_open by (auto simp: rx_inv_def)
next
  case (rx_commit_ok e t p wire s)
  then show ?thesis by (intro rx_inv_cong [OF assms(1)]) (auto dest!: rx_commit_cases)
next
  case (rx_commit_refused e t p wire rc s)
  then show ?thesis by (intro rx_inv_cong [OF assms(1)]) (auto dest!: rx_commit_cases)
qed (auto intro: rx_inv_cong [OF assms(1)])

lemma window_inv_new_keypair:
  assumes "window_inv w" "gen_inv w" "tw_current w' = Suc (tw_epoch w)" "tw_accepted w' = tw_accepted w"
    "replay (tw_session w') = replay_zero"
  shows "window_inv w'"
proof -
  have "{c. \<exists>p wire. (tw_current w', c, p, wire) \<in> set (tw_accepted w')} = {}"
    using assms by (force simp: window_inv_def gen_inv_def)
  then show ?thesis
    using assms window_of_zero by (fastforce simp: window_inv_def gen_inv_def)
qed

lemma window_inv_cong:
  assumes "window_inv w" "tw_current w' = tw_current w" "tw_accepted w' = tw_accepted w"
    "replay (tw_session w') = replay (tw_session w)"
  shows "window_inv w'"
  using assms by (simp add: window_inv_def)

lemma window_inv_accept:
  assumes "window_inv w" "wg_replay_check (replay (tw_session w)) c = 0"
  shows "window_inv (w\<lparr>tw_session := (tw_session w)\<lparr>replay := wg_replay_update (replay (tw_session w)) c\<rparr>,
    tw_accepted := (tw_current w, c, p, wire) # tw_accepted w\<rparr>)"
proof -
  let ?S = "\<lambda>acc. unat ` {c. \<exists>p wire. (tw_current w, c, p, wire) \<in> set acc}"
  have w: "window_of (replay (tw_session w)) (?S (tw_accepted w))" using assms(1) by (simp add: window_inv_def)
  have fresh: "unat c \<notin> ?S (tw_accepted w)" using wg_window.check_fresh [OF w assms(2)] .
  have "?S ((tw_current w, c, p, wire) # tw_accepted w) = insert (unat c) (?S (tw_accepted w))" by auto
  then have "window_of (wg_replay_update (replay (tw_session w)) c) (?S ((tw_current w, c, p, wire) # tw_accepted w))"
    using wg_window.mark_adds [OF w assms(2)] by simp
  moreover have "(tw_current w, c) \<notin> (\<lambda>(e, c, p, wire). (e, c)) ` set (tw_accepted w)"
    using fresh by force
  ultimately show ?thesis using assms(1) by (auto simp: window_inv_def)
qed

lemma window_inv_step:
  assumes "window_inv w" "gen_inv w" "transport_step w w'"
  shows "window_inv w'"
  using assms(3)
proof (cases rule: transport_step.cases)
  case (session_init li ri sk rk s g)
  then show ?thesis by (intro window_inv_new_keypair [OF assms(1,2)]) (auto simp: session_ops)
next
  case (session_scrub s g)
  then show ?thesis by (intro window_inv_new_keypair [OF assms(1,2)]) (auto simp: session_ops)
next
  case (tx_reserve t s)
  then show ?thesis
    by (intro window_inv_cong [OF assms(1)]) (auto simp: wg_transport_tx_reserve_def split: if_splits)
next
  case (rx_commit_ok e t p wire s)
  then have "wg_replay_check (replay (tw_session w)) (rx_counter t) = 0"
    "s = (tw_session w)\<lparr>replay := wg_replay_update (replay (tw_session w)) (rx_counter t)\<rparr>"
    by (auto dest!: rx_commit_cases)
  then show ?thesis using window_inv_accept [OF assms(1)] rx_commit_ok(1) by simp
next
  case (rx_commit_refused e t p wire rc s)
  then show ?thesis by (intro window_inv_cong [OF assms(1)]) (auto dest!: rx_commit_cases)
qed (auto intro: window_inv_cong [OF assms(1)])

text \<open>Authenticity needs the generations not to have wrapped: then the generation comparison in
  \<open>rx_commit\<close> identifies the keypair.\<close>

definition auth_inv :: "transport_world \<Rightarrow> bool" where
  "auth_inv w \<longleftrightarrow> (tw_epoch w < 2 ^ 32 \<longrightarrow>
     (\<forall>(e, c, p, wire) \<in> set (tw_accepted w). sealed_under (snd (tw_keys w e)) c p wire))"

lemma keys_epoch_mono:
  assumes "gen_inv w" "transport_step w w'"
  shows "tw_epoch w \<le> tw_epoch w' \<and> (\<forall>e \<le> tw_current w. tw_keys w' e = tw_keys w e)"
  using assms(2,1) by (cases rule: transport_step.cases) (auto simp: gen_inv_def)

lemma auth_inv_step:
  assumes "auth_inv w" "gen_inv w" "rx_inv w" "window_inv w" "transport_step w w'"
  shows "auth_inv w'"
proof -
  have keep: "sealed_under (snd (tw_keys w' e)) c p wire"
    if "tw_epoch w' < 2 ^ 32" "(e, c, p, wire) \<in> set (tw_accepted w)" for e c p wire
  proof -
    have "tw_epoch w < 2 ^ 32" using keys_epoch_mono [OF assms(2,5)] that(1) by simp
    moreover have "e \<le> tw_current w" using assms(4) that(2) by (auto simp: window_inv_def)
    ultimately show ?thesis
      using assms(1) that(2) keys_epoch_mono [OF assms(2,5)] by (auto simp: auth_inv_def)
  qed
  show ?thesis
    using assms(5)
  proof (cases rule: transport_step.cases)
    case (rx_commit_ok e t p wire s)
    have "sealed_under (snd (tw_keys w (tw_current w))) (rx_counter t) p wire" if "tw_epoch w < 2 ^ 32"
    proof -
      have g: "rx_gen t = of_nat e" "e \<le> tw_current w" "sealed_under (snd (tw_keys w e)) (rx_counter t) p wire"
        using assms(3) rx_commit_ok(2) by (auto simp: rx_inv_def)
      have "(of_nat (tw_current w) :: u32) = of_nat e"
        using rx_commit_cases [OF rx_commit_ok(3)] g(1) assms(2) by (auto simp: gen_inv_def)
      then have "unat (of_nat (tw_current w) :: u32) = unat (of_nat e :: u32)" by simp
      then have "tw_current w = e"
        using that g(2) assms(2) by (simp add: gen_inv_def unat_of_nat)
      then show ?thesis using g(3) by simp
    qed
    then show ?thesis using keep by (auto simp: auth_inv_def rx_commit_ok(1))
  qed (use keep in \<open>auto simp: auth_inv_def\<close>)
qed

definition transport_inv :: "transport_world \<Rightarrow> bool" where
  "transport_inv w \<longleftrightarrow> gen_inv w \<and> tx_inv w \<and> rx_inv w \<and> window_inv w \<and> auth_inv w"

lemma transport_inv_start: "transport_inv world_start"
  by (simp add: transport_inv_def gen_inv_def tx_inv_def rx_inv_def window_inv_def auth_inv_def
        world_start_def session_zero_def window_of_zero)

lemma transport_inv_reaches: "transport_reaches w \<Longrightarrow> transport_inv w"
proof (induction rule: rtranclp_induct)
  case (step w w')
  then show ?case
    unfolding transport_inv_def
    using gen_inv_step tx_inv_step rx_inv_step window_inv_step auth_inv_step by blast
qed (rule transport_inv_start)

section \<open>Properties of every interleaving\<close>

text \<open>That the handshakes derived different send keys: the keypairs anything was sent under have different ones.  It is not up to this code; each
  handshake feeds a fresh ephemeral key to the key derivation.\<close>

definition send_keys_fresh :: "transport_world \<Rightarrow> bool" where
  "send_keys_fresh w \<longleftrightarrow> inj_on (\<lambda>e. fst (tw_keys w e)) (fst ` set (tw_issued w))"

lemma distinct_map_pairs:
  assumes "distinct (map f xs)" "\<And>x y. x \<in> set xs \<Longrightarrow> y \<in> set xs \<Longrightarrow> g x = g y \<Longrightarrow> f x = f y"
  shows "distinct (map g xs)"
proof -
  have d: "distinct xs" and i: "inj_on f (set xs)" using assms(1) by (simp_all add: distinct_map)
  have "inj_on g (set xs)" by (rule inj_onI) (use assms(2) inj_onD [OF i] in metis)
  then show ?thesis using d by (simp add: distinct_map)
qed

text \<open>C2: No (key, nonce) pair is ever used twice.  In every interleaving of rekeys, scrubs, reservations and receives: each ticket carries
  the send key of the keypair it was reserved under, even when a rekey happens between reserving and sealing; the tickets
  of one keypair all have different AEAD nonces; and if the keypairs were installed with different send keys, no two tickets have
  the same send key and nonce.\<close>

theorem tx_nonces_unique:
  assumes "transport_reaches w"
  shows "(\<forall>(e, t) \<in> set (tw_issued w). tx_key t = fst (tw_keys w e)) \<and>
    distinct (map (\<lambda>(e, t). (e, counter_to_nonce (tx_counter t))) (tw_issued w)) \<and>
    (send_keys_fresh w \<longrightarrow> distinct (map (\<lambda>(e, t). (tx_key t, counter_to_nonce (tx_counter t))) (tw_issued w)))"
proof (intro conjI impI)
  have inv: "tx_inv w" using transport_inv_reaches [OF assms] by (simp add: transport_inv_def)
  then show key: "\<forall>(e, t) \<in> set (tw_issued w). tx_key t = fst (tw_keys w e)" by (auto simp: tx_inv_def)
  have "distinct (map (\<lambda>(e, t). (e, tx_counter t)) (tw_issued w))" using inv by (simp add: tx_inv_def)
  then show nonce: "distinct (map (\<lambda>(e, t). (e, counter_to_nonce (tx_counter t))) (tw_issued w))"
    by (rule distinct_map_pairs) (auto simp: counter_to_nonce_inj)
  assume fresh: "send_keys_fresh w"
  have same: "e = e'" if "(e, t) \<in> set (tw_issued w)" "(e', t') \<in> set (tw_issued w)" "tx_key t = tx_key t'" for e t e' t'
  proof -
    have "fst (tw_keys w e) = fst (tw_keys w e')" using bspec [OF key that(1)] bspec [OF key that(2)] that(3) by simp
    moreover have "e \<in> fst ` set (tw_issued w)" "e' \<in> fst ` set (tw_issued w)" using that(1,2) by force+
    ultimately show ?thesis using fresh by (auto simp: send_keys_fresh_def dest: inj_onD)
  qed
  show "distinct (map (\<lambda>(e, t). (tx_key t, counter_to_nonce (tx_counter t))) (tw_issued w))"
    using nonce by (rule distinct_map_pairs) (auto dest: same)
qed

text \<open>C1: No packet is delivered twice and none under the wrong keys: in every interleaving of the
  receive steps of several tasks with rekeys and scrubs (copies of one packet racing on two
  paths, tickets committed late or twice), each counter of a keypair is accepted at most
  once, and, as long as fewer than \<open>2 ^ 32\<close> generations were taken, every accepted
  packet was sealed, with its counter as the nonce, under the receive key of the very
  keypair it is accounted to.\<close>

theorem rx_accepts_once:
  assumes "transport_reaches w" "tw_epoch w < 2 ^ 32"
  shows "distinct (map (\<lambda>(e, c, p, wire). (e, c)) (tw_accepted w)) \<and>
    (\<forall>(e, c, p, wire) \<in> set (tw_accepted w). sealed_under (snd (tw_keys w e)) c p wire)"
  using transport_inv_reaches [OF assms(1)] assms(2)
  by (simp add: transport_inv_def window_inv_def auth_inv_def)

section \<open>A concrete execution\<close>

text \<open>A keypair is installed; two counters are reserved, and one packet is received.\<close>

definition demo_session :: wg_transport_session where
  "demo_session = fst (wg_transport_session_init 0 7 9 (replicate 32 1) (replicate 32 2))"

definition demo_wire :: bytes where
  "demo_wire = transport_packet 7 0 (replicate 32 2) [5, 6]"

definition demo_ticket :: wg_rx_ticket where
  "demo_ticket = \<lparr>rx_key = replicate 32 2, rx_counter = 0, rx_gen = 1, rx_plen = 2\<rparr>"

lemma demo_session_eq: "demo_session = \<lparr>send_key = replicate 32 1, recv_key = replicate 32 2, local_index = 7,
    remote_index = 9, send_counter = 0, gen = 1, valid = True, replay = replay_zero\<rparr>"
  by (simp add: demo_session_def session_ops)

definition demo_world :: transport_world where
  "demo_world = world_start\<lparr>tw_session := demo_session, tw_next_gen := 1, tw_epoch := 1, tw_current := 1,
     tw_keys := (tw_keys world_start)(1 := (replicate 32 1, replicate 32 2))\<rparr>"

lemma demo_init: "transport_reaches demo_world"
proof -
  have "transport_step world_start demo_world"
    using session_init [of world_start 7 9 "replicate 32 1" "replicate 32 2" demo_session 1]
    by (simp add: demo_world_def demo_session_eq session_ops) (simp add: world_start_def session_ops)
  then show ?thesis by blast
qed

text \<open>A counter is reserved, a rekey installs other keys, and the same counter is reserved again: the nonces agree, the keys do not.\<close>

theorem tx_nonces_unique_witness:
  "\<exists>w. transport_reaches w \<and> send_keys_fresh w \<and> map (tx_counter \<circ> snd) (tw_issued w) = [0, 0] \<and>
     distinct (map (\<lambda>(e, t). (tx_key t, counter_to_nonce (tx_counter t))) (tw_issued w))"
proof -
  let ?t = "\<lambda>k. \<lparr>tx_key = replicate 32 k, tx_counter = 0, tx_remote_index = 9\<rparr>"
  let ?s = "fst (wg_transport_session_init 1 8 9 (replicate 32 3) (replicate 32 4))"
  let ?w1 = "demo_world\<lparr>tw_session := demo_session\<lparr>send_counter := 1\<rparr>, tw_issued := [(1, ?t 1)]\<rparr>"
  let ?w2 = "?w1\<lparr>tw_session := ?s, tw_next_gen := 2, tw_epoch := 2, tw_current := 2, tw_keys := (tw_keys ?w1)(2 := (replicate 32 3, replicate 32 4))\<rparr>"
  let ?w3 = "?w2\<lparr>tw_session := ?s\<lparr>send_counter := 1\<rparr>, tw_issued := [(2, ?t 3), (1, ?t 1)]\<rparr>"
  have "transport_step demo_world ?w1"
    using tx_reserve [of demo_world "?t 1" "demo_session\<lparr>send_counter := 1\<rparr>"]
    by (simp add: demo_world_def demo_session_eq wg_transport_tx_reserve_def WG_COUNTER_REJECT_AT_def world_start_def)
  moreover have "transport_step ?w1 ?w2"
    using session_init [of ?w1 8 9 "replicate 32 3" "replicate 32 4" ?s 2]
    by (simp add: demo_world_def session_ops numeral_2_eq_2 [symmetric])
  moreover have "transport_step ?w2 ?w3"
    using tx_reserve [of ?w2 "?t 3" "?s\<lparr>send_counter := 1\<rparr>"]
    by (simp add: session_ops wg_transport_tx_reserve_def WG_COUNTER_REJECT_AT_def)
  ultimately have r: "transport_reaches ?w3" using demo_init by (meson rtranclp.rtrancl_into_rtrancl)
  have f: "send_keys_fresh ?w3" by (simp add: send_keys_fresh_def demo_world_def)
  have d: "distinct (map (\<lambda>(e, t). (tx_key t, counter_to_nonce (tx_counter t))) (tw_issued ?w3))" using tx_nonces_unique [OF r] f by blast
  show ?thesis by (intro exI [of _ ?w3] conjI r f d) simp
qed

theorem rx_accepts_once_witness:
  "\<exists>w. transport_reaches w \<and> tw_epoch w < 2 ^ 32 \<and> tw_accepted w = [(1, 0, [5, 6], demo_wire)] \<and>
     (\<forall>(e, c, p, wire) \<in> set (tw_accepted w). sealed_under (snd (tw_keys w e)) c p wire)"
proof -
  let ?t = "demo_ticket\<lparr>rx_key := replicate 32 0\<rparr>"
  let ?w1 = "demo_world\<lparr>tw_begun := [(1, demo_ticket)]\<rparr>"
  let ?w2 = "?w1\<lparr>tw_opened := [(1, ?t, [5, 6], demo_wire)]\<rparr>"
  let ?s = "demo_session\<lparr>replay := wg_replay_update replay_zero 0\<rparr>"
  let ?w3 = "?w2\<lparr>tw_session := ?s, tw_accepted := [(1, 0, [5, 6], demo_wire)]\<rparr>"
  have ck: "wg_replay_check replay_zero 0 = 0"
    by (simp add: wg_replay_check_def replay_zero_def WG_COUNTER_REJECT_AT_def slot_of_def window_size WG_REPLAY_WINDOW_BITS_def)
  have "transport_step demo_world ?w1"
    using rx_begin [of demo_world demo_wire 2 demo_ticket] ck
    by (simp add: rx_begin_Some demo_wire_def packet_fields demo_world_def demo_session_eq demo_ticket_def world_start_def)
  moreover have "wg_transport_rx_open True demo_ticket demo_wire = (Some [5, 6], ?t)"
    using rx_open_Some [of True demo_ticket demo_wire "[5, 6]"] rx_open_ticket [of True demo_ticket demo_wire]
      packet_fields(8) [of "[5, 6]"]
    by (intro prod_eqI) (simp_all add: demo_wire_def packet_fields demo_ticket_def)
  then have "transport_step ?w1 ?w2"
    using rx_open [of 1 demo_ticket ?w1 True demo_wire "[5, 6]" ?t] by (simp add: demo_world_def world_start_def)
  moreover have "transport_step ?w2 ?w3"
    using rx_commit_ok [of 1 ?t "[5, 6]" demo_wire ?w2 ?s] ck
    by (simp add: wg_transport_rx_commit_def demo_world_def demo_session_eq demo_ticket_def world_start_def)
  ultimately have r: "transport_reaches ?w3" using demo_init by (meson rtranclp.rtrancl_into_rtrancl)
  have e: "tw_epoch ?w3 < 2 ^ 32" by (simp add: demo_world_def)
  show ?thesis using r e conjunct2 [OF rx_accepts_once [OF r e]] by (intro exI [of _ ?w3]) simp
qed

end
