(* ===== verification/Crypto_Blake2s.thy ===== *)
theory Crypto_Blake2s
  imports TL_Prelude
begin

unbundle bit_operations_syntax

text \<open>
  \<open>crypto/blake2s.c\<close>: BLAKE2s with the lockstep pairs of G functions, the 64-bit byte
  counter kept in two words, and the lazy buffering of the streaming interface (a full block
  is held back until more input arrives, because the last block is compressed with the final
  flag).  A buffer argument is its bytes, so the \<open>NULL\<close> checks of the C code (a null pointer
  with a non-zero length) have no counterpart; every other error return is \<open>None\<close>.
  The specification is RFC 7693, written apart from the code: its own initialisation vector (the fractional parts of square roots)
  and message schedule, the sequential mixing function with the rotations of section 2.1, and the block loop
  of section 3.3; the vector of appendix B is computed from it.
\<close>

section \<open>The code\<close>

definition BLAKE2S_BLOCK_LEN :: nat where "BLAKE2S_BLOCK_LEN = 64"
definition BLAKE2S_OUT_LEN :: nat where "BLAKE2S_OUT_LEN = 32"
definition BLAKE2S_KEY_MAX :: nat where "BLAKE2S_KEY_MAX = 32"

lemmas blake2s_lens [simp] = BLAKE2S_BLOCK_LEN_def BLAKE2S_OUT_LEN_def BLAKE2S_KEY_MAX_def

record blake2s_state =
  b_h :: "u32 list"
  b_t0 :: u32
  b_t1 :: u32
  b_f0 :: u32
  b_f1 :: u32
  b_buf :: bytes       \<comment> \<open>the \<open>buflen\<close> bytes of \<open>buf\<close>\<close>
  b_outlen :: nat

definition blake2s_iv :: "u32 list" where
  "blake2s_iv = [0x6A09E667, 0xBB67AE85, 0x3C6EF372, 0xA54FF53A,
                 0x510E527F, 0x9B05688C, 0x1F83D9AB, 0x5BE0CD19]"

definition blake2s_sigma :: "nat list list" where
  "blake2s_sigma =
     [[ 0,  1,  2,  3,  4,  5,  6,  7,  8,  9, 10, 11, 12, 13, 14, 15],
      [14, 10,  4,  8,  9, 15, 13,  6,  1, 12,  0,  2, 11,  7,  5,  3],
      [11,  8, 12,  0,  5,  2, 15, 13, 10, 14,  3,  6,  7,  1,  9,  4],
      [ 7,  9,  3,  1, 13, 12, 11, 14,  2,  6,  5, 10,  4,  0, 15,  8],
      [ 9,  0,  5,  7,  2,  4, 10, 15, 14,  1, 11, 12,  6,  8,  3, 13],
      [ 2, 12,  6, 10,  0, 11,  8,  3,  4, 13,  7,  5, 15, 14,  1,  9],
      [12,  5,  1, 15, 14, 13,  4, 10,  0,  7,  6,  3,  9,  2,  8, 11],
      [13, 11,  7, 14, 12,  1,  3,  9,  5,  0, 15,  4,  8,  6,  2, 10],
      [ 6, 15, 14,  9, 11,  3,  0,  8, 12,  2, 13,  7,  1,  4, 10,  5],
      [10,  2,  8,  4,  7,  6,  1,  5, 15, 11,  9, 14,  3, 12, 13,  0]]"

definition load32 :: "bytes \<Rightarrow> u32" where
  "load32 p = ucast (p ! 0) OR push_bit 8 (ucast (p ! 1)) OR push_bit 16 (ucast (p ! 2))
                OR push_bit 24 (ucast (p ! 3))"

definition store32 :: "u32 \<Rightarrow> bytes" where
  "store32 w = [ucast w, ucast (drop_bit 8 w), ucast (drop_bit 16 w), ucast (drop_bit 24 w)]"

definition rotr32 :: "u32 \<Rightarrow> nat \<Rightarrow> u32" where
  "rotr32 x n = drop_bit n x OR push_bit (32 - n) x"

text \<open>The steps of G on the words \<open>a b c d\<close> of the work vector.\<close>

definition G1 :: "nat \<Rightarrow> nat \<Rightarrow> nat \<Rightarrow> nat \<Rightarrow> u32 \<Rightarrow> u32 list \<Rightarrow> u32 list" where
  "G1 a b c d x v = (let v = v[a := v ! a + v ! b + x] in v[d := rotr32 (v ! d XOR v ! a) 16])"

definition G2 :: "nat \<Rightarrow> nat \<Rightarrow> nat \<Rightarrow> nat \<Rightarrow> u32 list \<Rightarrow> u32 list" where
  "G2 a b c d v = (let v = v[c := v ! c + v ! d] in v[b := rotr32 (v ! b XOR v ! c) 12])"

definition G3 :: "nat \<Rightarrow> nat \<Rightarrow> nat \<Rightarrow> nat \<Rightarrow> u32 \<Rightarrow> u32 list \<Rightarrow> u32 list" where
  "G3 a b c d y v = (let v = v[a := v ! a + v ! b + y] in v[d := rotr32 (v ! d XOR v ! a) 8])"

definition G4 :: "nat \<Rightarrow> nat \<Rightarrow> nat \<Rightarrow> nat \<Rightarrow> u32 list \<Rightarrow> u32 list" where
  "G4 a b c d v = (let v = v[c := v ! c + v ! d] in v[b := rotr32 (v ! b XOR v ! c) 7])"

text \<open>\<open>G_PAIR\<close>: two G functions in lockstep, with the message words the schedule selects.\<close>

definition G_PAIR :: "u32 list \<Rightarrow> nat \<Rightarrow> nat \<Rightarrow> nat \<times> nat \<times> nat \<times> nat \<Rightarrow> nat \<Rightarrow> nat \<times> nat \<times> nat \<times> nat \<Rightarrow> u32 list \<Rightarrow> u32 list" where
  "G_PAIR m r i p j q v =
     (let (a0, b0, c0, d0) = p; (a1, b1, c1, d1) = q;
          v = G1 a0 b0 c0 d0 (m ! (blake2s_sigma ! r ! (2 * i))) v;
          v = G1 a1 b1 c1 d1 (m ! (blake2s_sigma ! r ! (2 * j))) v;
          v = G2 a0 b0 c0 d0 v; v = G2 a1 b1 c1 d1 v;
          v = G3 a0 b0 c0 d0 (m ! (blake2s_sigma ! r ! (2 * i + 1))) v;
          v = G3 a1 b1 c1 d1 (m ! (blake2s_sigma ! r ! (2 * j + 1))) v;
          v = G4 a0 b0 c0 d0 v
      in G4 a1 b1 c1 d1 v)"

definition ROUND :: "u32 list \<Rightarrow> nat \<Rightarrow> u32 list \<Rightarrow> u32 list" where
  "ROUND m r v =
     (let v = G_PAIR m r 0 (0, 4, 8, 12) 1 (1, 5, 9, 13) v;
          v = G_PAIR m r 2 (2, 6, 10, 14) 3 (3, 7, 11, 15) v;
          v = G_PAIR m r 4 (0, 5, 10, 15) 5 (1, 6, 11, 12) v
      in G_PAIR m r 6 (2, 7, 8, 13) 7 (3, 4, 9, 14) v)"

definition blake2s_compress :: "blake2s_state \<Rightarrow> bytes \<Rightarrow> blake2s_state" where
  "blake2s_compress S block =
     (let m = map (\<lambda>i. load32 (bytes_at (4 * i) 4 block)) [0..<16];
          v = b_h S @ [blake2s_iv ! 0, blake2s_iv ! 1, blake2s_iv ! 2, blake2s_iv ! 3,
                       b_t0 S XOR blake2s_iv ! 4, b_t1 S XOR blake2s_iv ! 5,
                       b_f0 S XOR blake2s_iv ! 6, b_f1 S XOR blake2s_iv ! 7];
          v = fold (ROUND m) [0, 1, 2, 3, 4, 5, 6, 7, 8, 9] v
      in S\<lparr>b_h := map (\<lambda>i. b_h S ! i XOR (v ! i XOR v ! (i + 8))) [0..<8]\<rparr>)"

definition blake2s_increment_counter :: "blake2s_state \<Rightarrow> u32 \<Rightarrow> blake2s_state" where
  "blake2s_increment_counter S inc =
     (let t0 = b_t0 S + inc in S\<lparr>b_t0 := t0, b_t1 := b_t1 S + (if t0 < inc then 1 else 0)\<rparr>)"

fun blake2s_update_loop :: "blake2s_state \<Rightarrow> bytes \<Rightarrow> blake2s_state \<times> bytes" where
  "blake2s_update_loop S p =
     (if length p > BLAKE2S_BLOCK_LEN
      then blake2s_update_loop
             (blake2s_compress (blake2s_increment_counter S (of_nat BLAKE2S_BLOCK_LEN)) (take 64 p)) (drop 64 p)
      else (S, p))"

definition blake2s_update :: "blake2s_state \<Rightarrow> bytes \<Rightarrow> blake2s_state" where
  "blake2s_update S inp =
     (if length inp = 0 then S
      else let fill = BLAKE2S_BLOCK_LEN - length (b_buf S)
           in if length (b_buf S) > 0 \<and> length inp \<le> fill then S\<lparr>b_buf := b_buf S @ inp\<rparr>
              else let (S, p) = (if length (b_buf S) > 0
                      then ((blake2s_compress (blake2s_increment_counter S (of_nat BLAKE2S_BLOCK_LEN))
                               (b_buf S @ take fill inp))\<lparr>b_buf := []\<rparr>, drop fill inp)
                      else (S, inp));
                       (S, p) = blake2s_update_loop S p
                   in S\<lparr>b_buf := p\<rparr>)"

definition blake2s_init_key :: "nat \<Rightarrow> bytes \<Rightarrow> blake2s_state option" where
  "blake2s_init_key outlen key =
     (if outlen = 0 \<or> outlen > BLAKE2S_OUT_LEN then None
      else if length key > BLAKE2S_KEY_MAX then None
      else let h0 = blake2s_iv ! 0 XOR (0x01010000 XOR push_bit 8 (of_nat (length key)) XOR of_nat outlen);
               S = \<lparr>b_h = blake2s_iv[0 := h0], b_t0 = 0, b_t1 = 0, b_f0 = 0, b_f1 = 0, b_buf = [], b_outlen = outlen\<rparr>
           in Some (if length key > 0
                    then blake2s_update S (key @ replicate (BLAKE2S_BLOCK_LEN - length key) 0) else S))"

definition blake2s_init :: "nat \<Rightarrow> blake2s_state option" where
  "blake2s_init outlen = blake2s_init_key outlen []"

text \<open>The digest; the state is scrubbed afterwards.\<close>

definition blake2s_final :: "blake2s_state \<Rightarrow> nat \<Rightarrow> bytes option" where
  "blake2s_final S outlen =
     (if outlen \<noteq> b_outlen S then None
      else if b_f0 S \<noteq> 0 then None
      else let S = blake2s_increment_counter S (of_nat (length (b_buf S)));
               S = S\<lparr>b_f0 := 0xFFFFFFFF\<rparr>;
               S = blake2s_compress S (b_buf S @ replicate (BLAKE2S_BLOCK_LEN - length (b_buf S)) 0)
           in Some (take outlen (concat (map store32 (b_h S)))))"

definition blake2s :: "nat \<Rightarrow> bytes \<Rightarrow> bytes \<Rightarrow> bytes option" where
  "blake2s outlen inp key =
     (case blake2s_init_key outlen key of
        None \<Rightarrow> None
      | Some S \<Rightarrow> blake2s_final (blake2s_update S inp) outlen)"

declare blake2s_update_loop.simps [simp del]

section \<open>RFC 7693\<close>

text \<open>The tables of sections 2.6 and 2.7 and the mixing function of section 3.1, written from the RFC: the initialisation vector is the fractional
  part of the square roots of the first eight primes, the rotations are those of the word library.\<close>

definition rfc_iv :: "u32 list" where
  "rfc_iv = [1779033703, 3144134277, 1013904242, 2773480762, 1359893119, 2600822924, 528734635, 1541459225]"

definition rfc_sigma :: "nat list list" where
  "rfc_sigma =
     [[0x0, 0x1, 0x2, 0x3, 0x4, 0x5, 0x6, 0x7, 0x8, 0x9, 0xA, 0xB, 0xC, 0xD, 0xE, 0xF],
      [0xE, 0xA, 0x4, 0x8, 0x9, 0xF, 0xD, 0x6, 0x1, 0xC, 0x0, 0x2, 0xB, 0x7, 0x5, 0x3],
      [0xB, 0x8, 0xC, 0x0, 0x5, 0x2, 0xF, 0xD, 0xA, 0xE, 0x3, 0x6, 0x7, 0x1, 0x9, 0x4],
      [0x7, 0x9, 0x3, 0x1, 0xD, 0xC, 0xB, 0xE, 0x2, 0x6, 0x5, 0xA, 0x4, 0x0, 0xF, 0x8],
      [0x9, 0x0, 0x5, 0x7, 0x2, 0x4, 0xA, 0xF, 0xE, 0x1, 0xB, 0xC, 0x6, 0x8, 0x3, 0xD],
      [0x2, 0xC, 0x6, 0xA, 0x0, 0xB, 0x8, 0x3, 0x4, 0xD, 0x7, 0x5, 0xF, 0xE, 0x1, 0x9],
      [0xC, 0x5, 0x1, 0xF, 0xE, 0xD, 0x4, 0xA, 0x0, 0x7, 0x6, 0x3, 0x9, 0x2, 0x8, 0xB],
      [0xD, 0xB, 0x7, 0xE, 0xC, 0x1, 0x3, 0x9, 0x5, 0x0, 0xF, 0x4, 0x8, 0x6, 0x2, 0xA],
      [0x6, 0xF, 0xE, 0x9, 0xB, 0x3, 0x0, 0x8, 0xC, 0x2, 0xD, 0x7, 0x1, 0x4, 0xA, 0x5],
      [0xA, 0x2, 0x8, 0x4, 0x7, 0x6, 0x1, 0x5, 0xF, 0xB, 0x9, 0xE, 0x3, 0xC, 0xD, 0x0]]"

definition rfc_mix :: "nat \<Rightarrow> nat \<Rightarrow> nat \<Rightarrow> nat \<Rightarrow> u32 \<Rightarrow> u32 \<Rightarrow> u32 list \<Rightarrow> u32 list" where
  "rfc_mix a b c d x y v =
     (let v = v[a := v ! a + v ! b + x]; v = v[d := word_rotr 16 (v ! d XOR v ! a)];
          v = v[c := v ! c + v ! d]; v = v[b := word_rotr 12 (v ! b XOR v ! c)];
          v = v[a := v ! a + v ! b + y]; v = v[d := word_rotr 8 (v ! d XOR v ! a)];
          v = v[c := v ! c + v ! d] in v[b := word_rotr 7 (v ! b XOR v ! c)])"

definition rfc_G :: "u32 list \<Rightarrow> nat \<Rightarrow> nat \<Rightarrow> nat \<times> nat \<times> nat \<times> nat \<Rightarrow> u32 list \<Rightarrow> u32 list" where
  "rfc_G m r i p v = (case p of (a, b, c, d) \<Rightarrow> rfc_mix a b c d (m ! (rfc_sigma ! r ! (2 * i))) (m ! (rfc_sigma ! r ! (2 * i + 1))) v)"

definition rfc_round :: "u32 list \<Rightarrow> nat \<Rightarrow> u32 list \<Rightarrow> u32 list" where
  "rfc_round m r v =
     (let v = rfc_G m r 0 (0, 4, 8, 12) v; v = rfc_G m r 1 (1, 5, 9, 13) v;
          v = rfc_G m r 2 (2, 6, 10, 14) v; v = rfc_G m r 3 (3, 7, 11, 15) v;
          v = rfc_G m r 4 (0, 5, 10, 15) v; v = rfc_G m r 5 (1, 6, 11, 12) v;
          v = rfc_G m r 6 (2, 7, 8, 13) v
      in rfc_G m r 7 (3, 4, 9, 14) v)"

text \<open>The compression function F with its 64-bit offset counter \<open>t\<close> and final flag.\<close>

definition rfc_F :: "u32 list \<Rightarrow> bytes \<Rightarrow> nat \<Rightarrow> bool \<Rightarrow> u32 list" where
  "rfc_F h block t fin =
     (let m = map (\<lambda>i. le_word (bytes_at (4 * i) 4 block)) [0..<16];
          v = h @ rfc_iv;
          v = v[12 := v ! 12 XOR of_nat t, 13 := v ! 13 XOR of_nat (t div 2 ^ 32)];
          v = (if fin then v[14 := v ! 14 XOR 0xFFFFFFFF] else v);
          v = fold (rfc_round m) [0, 1, 2, 3, 4, 5, 6, 7, 8, 9] v
      in map (\<lambda>i. h ! i XOR v ! i XOR v ! (i + 8)) [0..<8])"

text \<open>The block loop: every block but the last, then the zero-padded last one.\<close>

fun rfc_absorb :: "u32 list \<Rightarrow> nat \<Rightarrow> bytes \<Rightarrow> u32 list \<times> nat \<times> bytes" where
  "rfc_absorb h t d =
     (if length d > 64 then rfc_absorb (rfc_F h (take 64 d) (t + 64) False) (t + 64) (drop 64 d) else (h, t, d))"

definition blake2s_rfc :: "nat \<Rightarrow> bytes \<Rightarrow> bytes \<Rightarrow> bytes" where
  "blake2s_rfc nn msg key =
     (let h0 = rfc_iv[0 := rfc_iv ! 0 XOR 0x01010000 XOR push_bit 8 (of_nat (length key)) XOR of_nat nn];
          d = (if key = [] then [] else key @ replicate (64 - length key) 0) @ msg;
          (h, t, r) = rfc_absorb h0 0 d;
          h = rfc_F h (r @ replicate (64 - length r) 0) (t + length r) True
      in take nn (concat (map (le_bytes 4) h)))"

declare rfc_absorb.simps [simp del]

section \<open>The lockstep rounds\<close>

text \<open>The tables of the code are the RFC's, and these are the fractional parts of \<open>sqrt p\<close>.\<close>

lemma tables_rfc: "blake2s_iv = rfc_iv" "blake2s_sigma = rfc_sigma"
  by (simp_all add: blake2s_iv_def rfc_iv_def blake2s_sigma_def rfc_sigma_def)

lemma rfc_iv_sqrt:
  "list_all2 (\<lambda>(p, n :: nat) w. (n * 2 ^ 32 + unat w)\<^sup>2 \<le> p * 2 ^ 64 \<and> p * 2 ^ 64 < (n * 2 ^ 32 + unat w + 1)\<^sup>2)
     [(2, 1), (3, 1), (5, 2), (7, 2), (11, 3), (13, 3), (17, 4), (19, 4)] rfc_iv"
  by (simp add: rfc_iv_def)

lemma rotr32_rotr: "0 < k \<Longrightarrow> k < 32 \<Longrightarrow> rotr32 x k = word_rotr k x"
proof (rule bit_word_eqI)
  fix n assume k: "0 < k" "k < 32" and "n < LENGTH(32)"
  then have n: "n < 32" by simp
  show "bit (rotr32 x k) n = bit (word_rotr k x) n"
  proof (cases "n + k < 32")
    case True
    then show ?thesis using k n by (auto simp: rotr32_def bit_simps bit_word_rotr_iff add.commute)
  next
    case False
    then have m: "(n + k) mod 32 = n + k - 32" using k n by (subst le_mod_geq) simp_all
    have "\<not> bit x (k + n)" using False by (intro notI) (drule bit_imp_le_length, simp)
    then show ?thesis using k n m False by (auto simp: rotr32_def bit_simps bit_word_rotr_iff)
  qed
qed

lemma rfc_mix_steps: "rfc_mix a b c d x y v = G4 a b c d (G3 a b c d y (G2 a b c d (G1 a b c d x v)))"
  by (simp add: rfc_mix_def G1_def G2_def G3_def G4_def Let_def rotr32_rotr)

lemma length_G [simp]: "length (G1 a b c d x v) = length v" "length (G2 a b c d v) = length v"
  "length (G3 a b c d x v) = length v" "length (G4 a b c d v) = length v"
  by (simp_all add: G1_def G2_def G3_def G4_def Let_def)

definition quads_disjoint :: "nat \<times> nat \<times> nat \<times> nat \<Rightarrow> nat \<times> nat \<times> nat \<times> nat \<Rightarrow> nat \<Rightarrow> bool" where
  "quads_disjoint p q n = (case p of (a, b, c, d) \<Rightarrow> case q of (a', b', c', d') \<Rightarrow>
     {a, b, c, d} \<inter> {a', b', c', d'} = {} \<and> distinct [a, b, c, d] \<and> distinct [a', b', c', d'] \<and>
     (\<forall>i \<in> {a, b, c, d, a', b', c', d'}. i < n))"

lemma G_upd: "a \<noteq> d \<Longrightarrow> a < length v \<Longrightarrow> d < length v \<Longrightarrow>
    G1 a b c d x v = v[a := v ! a + v ! b + x, d := rotr32 (v ! d XOR (v ! a + v ! b + x)) 16]"
  "a \<noteq> d \<Longrightarrow> a < length v \<Longrightarrow> d < length v \<Longrightarrow>
    G3 a b c d x v = v[a := v ! a + v ! b + x, d := rotr32 (v ! d XOR (v ! a + v ! b + x)) 8]"
  "b \<noteq> c \<Longrightarrow> b < length v \<Longrightarrow> c < length v \<Longrightarrow>
    G2 a b c d v = v[c := v ! c + v ! d, b := rotr32 (v ! b XOR (v ! c + v ! d)) 12]"
  "b \<noteq> c \<Longrightarrow> b < length v \<Longrightarrow> c < length v \<Longrightarrow>
    G4 a b c d v = v[c := v ! c + v ! d, b := rotr32 (v ! b XOR (v ! c + v ! d)) 7]"
  by (simp_all add: G1_def G2_def G3_def G4_def Let_def)

lemma upd4_commute:
  assumes "i \<noteq> k" "i \<noteq> l" "j \<noteq> k" "j \<noteq> l"
  shows "xs[i := u, j := v, k := p, l := q] = xs[k := p, l := q, i := u, j := v]"
  using assms by (metis list_update_swap)

lemma G_commute:
  assumes "quads_disjoint (a, b, c, d) (a', b', c', d') (length v)"
  shows "G1 a' b' c' d' y (G2 a b c d v) = G2 a b c d (G1 a' b' c' d' y v)"
    "G1 a' b' c' d' y (G3 a b c d x v) = G3 a b c d x (G1 a' b' c' d' y v)"
    "G1 a' b' c' d' y (G4 a b c d v) = G4 a b c d (G1 a' b' c' d' y v)"
    "G2 a' b' c' d' (G3 a b c d x v) = G3 a b c d x (G2 a' b' c' d' v)"
    "G2 a' b' c' d' (G4 a b c d v) = G4 a b c d (G2 a' b' c' d' v)"
    "G3 a' b' c' d' y (G4 a b c d v) = G4 a b c d (G3 a' b' c' d' y v)"
  using assms
  by (simp_all add: G_upd quads_disjoint_def nth_list_update upd4_commute eq_commute)

lemma G_PAIR_sequential:
  assumes "quads_disjoint p q (length v)"
  shows "G_PAIR m r i p j q v = rfc_G m r j q (rfc_G m r i p v)"
proof -
  obtain a b c d a' b' c' d' where pq: "p = (a, b, c, d)" "q = (a', b', c', d')" by (metis prod_cases4)
  show ?thesis
    unfolding G_PAIR_def rfc_G_def pq Let_def case_prod_conv rfc_mix_steps tables_rfc
    using assms unfolding pq by (simp add: G_commute)
qed

lemma length_rfc_G [simp]: "length (rfc_G m r i p v) = length v"
  by (simp add: rfc_G_def rfc_mix_steps split: prod.splits)

lemma ROUND_rfc: "length v = 16 \<Longrightarrow> ROUND m r v = rfc_round m r v"
proof -
  assume len: "length v = 16"
  have d: "quads_disjoint (0, 4, 8, 12) (1, 5, 9, 13) 16" "quads_disjoint (2, 6, 10, 14) (3, 7, 11, 15) 16"
    "quads_disjoint (0, 5, 10, 15) (1, 6, 11, 12) 16" "quads_disjoint (2, 7, 8, 13) (3, 4, 9, 14) 16"
    by (simp_all add: quads_disjoint_def)
  have seq: "G_PAIR m r i p j q w = rfc_G m r j q (rfc_G m r i p w)"
    if "quads_disjoint p q 16" "length w = 16" for i p j q w
    using that by (simp add: G_PAIR_sequential)
  show ?thesis
    unfolding ROUND_def rfc_round_def Let_def by (simp only: seq d len length_rfc_G)
qed

lemma length_rfc_round [simp]: "length (rfc_round m r v) = length v"
  by (simp add: rfc_round_def Let_def)

lemma fold_ROUND_rfc: "length v = 16 \<Longrightarrow> fold (ROUND m) rs v = fold (rfc_round m) rs v"
  by (induction rs arbitrary: v) (simp_all add: ROUND_rfc)

section \<open>Streaming\<close>

text \<open>A state of the code that has absorbed \<open>t\<close> bytes into \<open>h\<close> and buffers \<open>r\<close>.\<close>

definition b2s :: "nat \<Rightarrow> u32 list \<times> nat \<times> bytes \<Rightarrow> blake2s_state" where
  "b2s outlen a = (case a of (h, t, r) \<Rightarrow>
     \<lparr>b_h = h, b_t0 = of_nat t, b_t1 = of_nat (t div 2 ^ 32), b_f0 = 0, b_f1 = 0, b_buf = r, b_outlen = outlen\<rparr>)"

lemma carry_add:
  fixes n inc :: nat
  assumes "inc < 2 ^ 32"
  shows "(of_nat (n div 2 ^ 32) + (if (of_nat (n + inc) :: u32) < of_nat inc then 1 else 0) :: u32) = of_nat ((n + inc) div 2 ^ 32)"
proof -
  define q r where qr: "q = n div 2 ^ 32" "r = n mod 2 ^ 32"
  have n: "n = 2 ^ 32 * q + r" and r: "r < 2 ^ 32" by (simp_all add: qr)
  have lt: "(of_nat (n + inc) :: u32) < of_nat inc \<longleftrightarrow> (n + inc) mod 2 ^ 32 < inc"
    using assms by (simp only: word_less_nat_alt unat_of_nat) simp
  have m: "(n + inc) mod 2 ^ 32 = (r + inc) mod 2 ^ 32" "(n + inc) div 2 ^ 32 = q + (r + inc) div 2 ^ 32"
    unfolding n by (simp_all add: add.assoc)
  show ?thesis
  proof (cases "r + inc < 2 ^ 32")
    case True
    then show ?thesis unfolding lt m using qr(1) by simp
  next
    case False
    then have "(r + inc) mod 2 ^ 32 = r + inc - 2 ^ 32" "(r + inc) div 2 ^ 32 = 1"
      using r assms le_mod_geq [of "2 ^ 32" "r + inc"] le_div_geq [of "2 ^ 32" "r + inc"] by simp_all
    then show ?thesis unfolding lt m using qr(1) r False by simp
  qed
qed

lemma increment_b2s:
  "inc < 2 ^ 32 \<Longrightarrow> blake2s_increment_counter (b2s n (h, t, r)) (of_nat inc) = b2s n (h, t + inc, r)"
  using carry_add [of inc t] by (simp add: blake2s_increment_counter_def b2s_def Let_def)

lemma load32_eq_le: "length p = 4 \<Longrightarrow> load32 p = le_word p"
  by (auto simp: load32_def length_Suc_conv eval_nat_numeral push_bit_or or.assoc)

lemma store32_eq_le: "store32 w = le_bytes 4 w"
  by (simp add: store32_def le_bytes_Suc numeral_eq_Suc drop_bit_drop_bit)

lemma length_rfc_F [simp]: "length (rfc_F h block t fin) = 8"
  by (simp add: rfc_F_def Let_def)

lemma compress_rfc_F:
  assumes "length (b_h S) = 8" "length block = 64" "b_t0 S = of_nat t" "b_t1 S = of_nat (t div 2 ^ 32)"
    "b_f0 S = (if fin then 0xFFFFFFFF else 0)" "b_f1 S = 0"
  shows "blake2s_compress S block = S\<lparr>b_h := rfc_F (b_h S) block t fin\<rparr>"
proof -
  have m: "map (\<lambda>i. load32 (bytes_at (4 * i) 4 block)) [0..<16] = map (\<lambda>i. le_word (bytes_at (4 * i) 4 block)) [0..<16]"
    using assms(2) by (intro map_cong) (simp_all add: load32_eq_le)
  let ?v = "b_h S @ rfc_iv"
  let ?x = "?v[12 := ?v ! 12 XOR of_nat t, 13 := ?v ! 13 XOR of_nat (t div 2 ^ 32)]"
  let ?y = "b_h S @ [blake2s_iv ! 0, blake2s_iv ! 1, blake2s_iv ! 2, blake2s_iv ! 3,
         b_t0 S XOR blake2s_iv ! 4, b_t1 S XOR blake2s_iv ! 5, b_f0 S XOR blake2s_iv ! 6, b_f1 S XOR blake2s_iv ! 7]"
  have v: "(if fin then ?x[14 := ?x ! 14 XOR 0xFFFFFFFF] else ?x) = ?y"
    using assms by (simp add: tables_rfc rfc_iv_def nth_append list_update_append xor.commute)
  have len: "length ?y = 16" using assms(1) by simp
  show ?thesis
    unfolding blake2s_compress_def rfc_F_def Let_def m v fold_ROUND_rfc [OF len] xor.assoc ..
qed

lemma compress_b2s:
  "length h = 8 \<Longrightarrow> length block = 64 \<Longrightarrow> blake2s_compress (b2s n (h, t, r)) block = b2s n (rfc_F h block t False, t, r)"
  by (subst compress_rfc_F [where t = t and fin = False]) (simp_all add: b2s_def)

lemma update_loop_b2s:
  "length h = 8 \<Longrightarrow> blake2s_update_loop (b2s n (h, t, r)) p
     = (case rfc_absorb h t p of (h', t', r') \<Rightarrow> (b2s n (h', t', r), r'))"
proof (induction p arbitrary: h t rule: length_induct)
  case (1 p)
  show ?case
  proof (cases "length p > 64")
    case True
    then have "length (drop 64 p) < length p" by simp
    note IH = 1(1) [rule_format, OF this, of "rfc_F h (take 64 p) (t + 64) False" "t + 64"]
    have "blake2s_increment_counter (b2s n (h, t, r)) 64 = b2s n (h, t + 64, r)"
      using increment_b2s [of 64 n h t r] by simp
    then show ?thesis using True IH 1(2)
      by (subst blake2s_update_loop.simps, subst rfc_absorb.simps) (simp add: compress_b2s)
  next
    case False
    then show ?thesis by (subst blake2s_update_loop.simps, subst rfc_absorb.simps) simp
  qed
qed

lemma rfc_absorb_short: "length d \<le> 64 \<Longrightarrow> rfc_absorb h t d = (h, t, d)"
  by (simp add: rfc_absorb.simps [of h t d])

lemma rfc_absorb_append:
  "rfc_absorb h t (d @ e) = (case rfc_absorb h t d of (h', t', r) \<Rightarrow> rfc_absorb h' t' (r @ e))"
proof (induction d arbitrary: h t rule: length_induct)
  case (1 d)
  show ?case
  proof (cases "length d > 64")
    case True
    then have "length (drop 64 d) < length d" by simp
    note IH = 1(1) [rule_format, OF this, of "rfc_F h (take 64 d) (t + 64) False" "t + 64"]
    show ?thesis using True IH
      by (simp add: rfc_absorb.simps [of h t "d @ e"] rfc_absorb.simps [of h t d])
  next
    case False
    then show ?thesis by (simp add: rfc_absorb_short)
  qed
qed

lemma rfc_absorb_inv: "length h = 8 \<Longrightarrow> rfc_absorb h t d = (h', t', r) \<Longrightarrow> length h' = 8 \<and> length r \<le> 64"
proof (induction d arbitrary: h t rule: length_induct)
  case (1 d)
  show ?case
  proof (cases "length d > 64")
    case True
    then have "length (drop 64 d) < length d" by simp
    note IH = 1(1) [rule_format, OF this, of "rfc_F h (take 64 d) (t + 64) False" "t + 64"]
    show ?thesis using True IH 1(3) by (simp add: rfc_absorb.simps [of h t d])
  next
    case False
    then show ?thesis using 1 by (auto simp: rfc_absorb_short)
  qed
qed

lemma update_b2s:
  assumes "length h = 8" "length r \<le> 64"
  shows "blake2s_update (b2s n (h, t, r)) p = b2s n (rfc_absorb h t (r @ p))"
proof -
  have buf: "b_buf (b2s n (h, t, r)) = r" for h t r by (simp add: b2s_def)
  have set_buf: "(b2s n (h, t, r))\<lparr>b_buf := r'\<rparr> = b2s n (h, t, r')" for h t r r' by (simp add: b2s_def)
  consider "p = []" | "p \<noteq> []" "r = []" | "p \<noteq> []" "r \<noteq> []" "length p \<le> 64 - length r"
    | "p \<noteq> []" "r \<noteq> []" "length p > 64 - length r" by linarith
  then show ?thesis
  proof cases
    case 1
    then show ?thesis using assms by (simp add: blake2s_update_def rfc_absorb_short)
  next
    case 2
    obtain h' t' r' where ab: "rfc_absorb h t p = (h', t', r')" by (metis prod_cases3)
    have "blake2s_update_loop (b2s n (h, t, [])) p = (b2s n (h', t', []), r')"
      using assms(1) by (simp add: update_loop_b2s ab)
    then show ?thesis using 2 by (simp add: blake2s_update_def buf set_buf ab)
  next
    case 3
    then have "length (r @ p) \<le> 64" using assms by simp
    then show ?thesis using 3 by (simp add: blake2s_update_def buf set_buf rfc_absorb_short Let_def)
  next
    case 4
    let ?f = "64 - length r"
    let ?h = "rfc_F h (r @ take ?f p) (t + 64) False"
    have l: "length (r @ take ?f p) = 64" using 4 assms by simp
    have inc: "blake2s_increment_counter (b2s n (h, t, r)) 64 = b2s n (h, t + 64, r)"
      using increment_b2s [of 64 n h t r] by simp
    have big: "64 < length (r @ p)" using 4 assms by simp
    obtain h' t' r' where ab: "rfc_absorb ?h (t + 64) (drop ?f p) = (h', t', r')" by (metis prod_cases3)
    have res: "rfc_absorb h t (r @ p) = (h', t', r')"
      using big assms(2) ab by (simp add: rfc_absorb.simps [of h t "r @ p"])
    have "blake2s_update_loop (b2s n (?h, t + 64, [])) (drop ?f p) = (b2s n (h', t', []), r')"
      by (simp add: update_loop_b2s ab)
    then show ?thesis
      using 4 l assms(1) by (simp add: blake2s_update_def buf inc compress_b2s set_buf res Let_def)
  qed
qed

section \<open>The digest\<close>

definition blake2s_stream :: "nat \<Rightarrow> bytes list \<Rightarrow> bytes \<Rightarrow> bytes option" where
  "blake2s_stream outlen chunks key =
     (case blake2s_init_key outlen key of
        None \<Rightarrow> None
      | Some S \<Rightarrow> blake2s_final (fold (\<lambda>p S. blake2s_update S p) chunks S) outlen)"

definition rfc_h0 :: "nat \<Rightarrow> bytes \<Rightarrow> u32 list" where
  "rfc_h0 nn key = rfc_iv[0 := rfc_iv ! 0 XOR 0x01010000 XOR push_bit 8 (of_nat (length key)) XOR of_nat nn]"

definition rfc_key_block :: "bytes \<Rightarrow> bytes" where
  "rfc_key_block key = (if key = [] then [] else key @ replicate (64 - length key) 0)"

lemma length_rfc_h0 [simp]: "length (rfc_h0 n key) = 8"
  by (simp add: rfc_h0_def rfc_iv_def)

lemma updates_b2s:
  "length h = 8 \<Longrightarrow> fold (\<lambda>p S. blake2s_update S p) chunks (b2s n (rfc_absorb h t d)) = b2s n (rfc_absorb h t (d @ concat chunks))"
proof (induction chunks arbitrary: d)
  case (Cons p ps)
  obtain h' t' r where ab: "rfc_absorb h t d = (h', t', r)" by (metis prod_cases3)
  then have "length h' = 8 \<and> length r \<le> 64" using rfc_absorb_inv Cons.prems by blast
  then have "blake2s_update (b2s n (rfc_absorb h t d)) p = b2s n (rfc_absorb h t (d @ p))"
    by (simp add: ab update_b2s rfc_absorb_append [of h t d p])
  then show ?case using Cons by simp
qed simp

lemma init_key_b2s:
  assumes "0 < n" "n \<le> 32" "length key \<le> 32"
  shows "blake2s_init_key n key = Some (b2s n (rfc_absorb (rfc_h0 n key) 0 (rfc_key_block key)))"
proof -
  have h: "blake2s_iv[0 := blake2s_iv ! 0 XOR (0x01010000 XOR push_bit 8 (of_nat (length key)) XOR of_nat n)] = rfc_h0 n key"
    by (simp add: rfc_h0_def tables_rfc xor.assoc)
  have s: "\<lparr>b_h = rfc_h0 n key, b_t0 = 0, b_t1 = 0, b_f0 = 0, b_f1 = 0, b_buf = [], b_outlen = n\<rparr> = b2s n (rfc_h0 n key, 0, [])"
    by (simp add: b2s_def)
  show ?thesis
    using assms unfolding blake2s_init_key_def Let_def h s
    by (simp add: update_b2s rfc_key_block_def rfc_absorb_short)
qed

lemma final_b2s:
  assumes "length h = 8" "length r \<le> 64"
  shows "blake2s_final (b2s n (h, t, r)) n
    = Some (take n (concat (map (le_bytes 4) (rfc_F h (r @ replicate (64 - length r) 0) (t + length r) True))))"
proof -
  have f: "b_outlen (b2s n a) = n" "b_f0 (b2s n a) = 0" for a by (simp_all add: b2s_def split: prod.splits)
  have i: "blake2s_increment_counter (b2s n (h, t, r)) (of_nat (length r)) = b2s n (h, t + length r, r)"
    using assms by (intro increment_b2s) simp
  have buf: "b_buf (b2s n (h, t, r)) = r" for h t r by (simp add: b2s_def)
  have buf': "b_buf ((b2s n (h, t, r))\<lparr>b_f0 := f\<rparr>) = r" for h t r f by (simp add: b2s_def)
  have "blake2s_compress ((b2s n (h, t + length r, r))\<lparr>b_f0 := 0xFFFFFFFF\<rparr>) (r @ replicate (64 - length r) 0)
    = ((b2s n (h, t + length r, r))\<lparr>b_f0 := 0xFFFFFFFF\<rparr>)\<lparr>b_h := rfc_F h (r @ replicate (64 - length r) 0) (t + length r) True\<rparr>"
    using assms by (subst compress_rfc_F [where t = "t + length r" and fin = True]) (simp_all add: b2s_def)
  then show ?thesis
    unfolding blake2s_final_def Let_def f buf i buf' by (simp add: store32_eq_le [abs_def])
qed

lemma blake2s_rfc_eq:
  "blake2s_rfc n msg key = (case rfc_absorb (rfc_h0 n key) 0 (rfc_key_block key @ msg) of
     (h, t, r) \<Rightarrow> take n (concat (map (le_bytes 4) (rfc_F h (r @ replicate (64 - length r) 0) (t + length r) True))))"
  by (simp add: blake2s_rfc_def rfc_h0_def rfc_key_block_def Let_def)

lemma blake2s_stream_eq:
  assumes "0 < n" "n \<le> 32" "length key \<le> 32"
  shows "blake2s_stream n chunks key = Some (blake2s_rfc n (concat chunks) key)"
proof -
  obtain h t r where ab: "rfc_absorb (rfc_h0 n key) 0 (rfc_key_block key @ concat chunks) = (h, t, r)"
    by (metis prod_cases3)
  then have "length h = 8" "length r \<le> 64" using rfc_absorb_inv length_rfc_h0 by blast+
  then show ?thesis
    by (simp add: blake2s_stream_def init_key_b2s [OF assms] updates_b2s ab final_b2s blake2s_rfc_eq)
qed

lemma blake2s_eq_stream: "blake2s n msg key = blake2s_stream n [msg] key"
  by (simp add: blake2s_def blake2s_stream_def split: option.split)

lemma length_blake2s_rfc: "n \<le> 32 \<Longrightarrow> length (blake2s_rfc n msg key) = n"
proof -
  assume n: "n \<le> 32"
  have "length (concat (map (le_bytes 4) hs)) = 4 * length hs" for hs :: "u32 list" by (induction hs) simp_all
  then show ?thesis using n by (simp add: blake2s_rfc_eq split: prod.splits)
qed

section \<open>Properties\<close>

section \<open>The test vector\<close>

text \<open>RFC 7693, appendix B: the ten rounds on the message \<open>abc\<close>.  The mixing function on four words, so that each round
  evaluates in the kernel.\<close>

definition mix4 :: "u32 \<Rightarrow> u32 \<Rightarrow> u32 \<Rightarrow> u32 \<Rightarrow> u32 \<Rightarrow> u32 \<Rightarrow> u32 \<times> u32 \<times> u32 \<times> u32" where
  "mix4 a b c d x y =
     (let a = a + b + x; d = rotr32 (d XOR a) 16; c = c + d; b = rotr32 (b XOR c) 12;
          a = a + b + y; d = rotr32 (d XOR a) 8; c = c + d; b = rotr32 (b XOR c) 7 in (a, b, c, d))"

lemma mix_words:
  "distinct [a, b, c, d] \<Longrightarrow> a < length v \<Longrightarrow> b < length v \<Longrightarrow> c < length v \<Longrightarrow> d < length v \<Longrightarrow>
   rfc_mix a b c d x y v = (case mix4 (v ! a) (v ! b) (v ! c) (v ! d) x y of (p, q, r, s) \<Rightarrow> v[a := p, b := q, c := r, d := s])"
  by (rule nth_equalityI) (simp_all add: rfc_mix_def mix4_def Let_def rotr32_rotr nth_list_update)

definition abc_words :: "u32 list" where "abc_words = [0x636261, 0, 0, 0, 0, 0, 0, 0, 0, 0, 0, 0, 0, 0, 0, 0]"

lemmas abc_eval = rfc_round_def rfc_G_def mix_words mix4_def rotr32_def rfc_sigma_def abc_words_def

lemma abc_round0:
  "rfc_round abc_words 0
     [0x6B08E647, 0xBB67AE85, 0x3C6EF372, 0xA54FF53A, 0x510E527F, 0x9B05688C, 0x1F83D9AB, 0x5BE0CD19,
      0x6A09E667, 0xBB67AE85, 0x3C6EF372, 0xA54FF53A, 0x510E527C, 0x9B05688C, 0xE07C2654, 0x5BE0CD19] =
     [0x16A3242E, 0xD7B5E238, 0xCE8CE24B, 0x927AEDE1, 0xA7B430D9, 0x93A4A14E, 0xA44E7C31, 0x41D4759B,
      0x95BF33D3, 0x9A99C181, 0x608A3A6B, 0xB666383E, 0x7A8DD50F, 0xBE378ED7, 0x353D1EE6, 0x3BB44C6B]"
  by (simp add: abc_eval cong: let_weak_cong)

lemma abc_round1:
  "rfc_round abc_words 1
     [0x16A3242E, 0xD7B5E238, 0xCE8CE24B, 0x927AEDE1, 0xA7B430D9, 0x93A4A14E, 0xA44E7C31, 0x41D4759B,
      0x95BF33D3, 0x9A99C181, 0x608A3A6B, 0xB666383E, 0x7A8DD50F, 0xBE378ED7, 0x353D1EE6, 0x3BB44C6B] =
     [0x3AE30FE3, 0x0982A96B, 0xE88185B4, 0x3E339B16, 0xF24338CD, 0x0E66D326, 0xE005ED0C, 0xD591A277,
      0x180B1F3A, 0xFCF43914, 0x30DB62D6, 0x4847831C, 0x7F00C58E, 0xFB847886, 0xC544E836, 0x524AB0E2]"
  by (simp add: abc_eval cong: let_weak_cong)

lemma abc_round2:
  "rfc_round abc_words 2
     [0x3AE30FE3, 0x0982A96B, 0xE88185B4, 0x3E339B16, 0xF24338CD, 0x0E66D326, 0xE005ED0C, 0xD591A277,
      0x180B1F3A, 0xFCF43914, 0x30DB62D6, 0x4847831C, 0x7F00C58E, 0xFB847886, 0xC544E836, 0x524AB0E2] =
     [0x7A3BE783, 0x997546C1, 0xD45246DF, 0xEDB5F821, 0x7F98A742, 0x10E864E2, 0xD4AB70D0, 0xC63CB1AB,
      0x6038DA9E, 0x414594B0, 0xF2C218B5, 0x8DA0DCB7, 0xD7CD7AF5, 0xAB4909DF, 0x85031A52, 0xC4EDFC98]"
  by (simp add: abc_eval cong: let_weak_cong)

lemma abc_round3:
  "rfc_round abc_words 3
     [0x7A3BE783, 0x997546C1, 0xD45246DF, 0xEDB5F821, 0x7F98A742, 0x10E864E2, 0xD4AB70D0, 0xC63CB1AB,
      0x6038DA9E, 0x414594B0, 0xF2C218B5, 0x8DA0DCB7, 0xD7CD7AF5, 0xAB4909DF, 0x85031A52, 0xC4EDFC98] =
     [0x2A8B8CB7, 0x1ACA82B2, 0x14045D7F, 0xCC7258ED, 0x383CF67C, 0xE090E7F9, 0x3025D276, 0x57D04DE4,
      0x994BACF0, 0xF0982759, 0xF17EE300, 0xD48FC2D5, 0xDC854C10, 0x523898A9, 0xC03A0F89, 0x47D6CD88]"
  by (simp add: abc_eval cong: let_weak_cong)

lemma abc_round4:
  "rfc_round abc_words 4
     [0x2A8B8CB7, 0x1ACA82B2, 0x14045D7F, 0xCC7258ED, 0x383CF67C, 0xE090E7F9, 0x3025D276, 0x57D04DE4,
      0x994BACF0, 0xF0982759, 0xF17EE300, 0xD48FC2D5, 0xDC854C10, 0x523898A9, 0xC03A0F89, 0x47D6CD88] =
     [0xC4AA2DDB, 0x111343A3, 0xD54A700A, 0x574A00A9, 0x857D5A48, 0xB1E11989, 0x6F5C52DF, 0xDD2C53A3,
      0x678E5F8E, 0x9718D4E9, 0x622CB684, 0x92976076, 0x0E41A517, 0x359DC2BE, 0x87A87DDD, 0x643F9CEC]"
  by (simp add: abc_eval cong: let_weak_cong)

lemma abc_round5:
  "rfc_round abc_words 5
     [0xC4AA2DDB, 0x111343A3, 0xD54A700A, 0x574A00A9, 0x857D5A48, 0xB1E11989, 0x6F5C52DF, 0xDD2C53A3,
      0x678E5F8E, 0x9718D4E9, 0x622CB684, 0x92976076, 0x0E41A517, 0x359DC2BE, 0x87A87DDD, 0x643F9CEC] =
     [0x3453921C, 0xD7595EE1, 0x592E776D, 0x3ED6A974, 0x4D997CB3, 0xDE9212C3, 0x35ADF5C9, 0x9916FD65,
      0x96562E89, 0x4EAD0792, 0xEBFC2712, 0x2385F5B2, 0xF34600FB, 0xD7BC20FB, 0xEB452A7B, 0xECE1AA40]"
  by (simp add: abc_eval cong: let_weak_cong)

lemma abc_round6:
  "rfc_round abc_words 6
     [0x3453921C, 0xD7595EE1, 0x592E776D, 0x3ED6A974, 0x4D997CB3, 0xDE9212C3, 0x35ADF5C9, 0x9916FD65,
      0x96562E89, 0x4EAD0792, 0xEBFC2712, 0x2385F5B2, 0xF34600FB, 0xD7BC20FB, 0xEB452A7B, 0xECE1AA40] =
     [0xBE851B2D, 0xA85F6358, 0x81E6FC3B, 0x0BB28000, 0xFA55A33A, 0x87BE1FAD, 0x4119370F, 0x1E2261AA,
      0xA1318FD3, 0xF4329816, 0x071783C2, 0x6E536A8D, 0x9A81A601, 0xE7EC80F1, 0xACC09948, 0xF849A584]"
  by (simp add: abc_eval cong: let_weak_cong)

lemma abc_round7:
  "rfc_round abc_words 7
     [0xBE851B2D, 0xA85F6358, 0x81E6FC3B, 0x0BB28000, 0xFA55A33A, 0x87BE1FAD, 0x4119370F, 0x1E2261AA,
      0xA1318FD3, 0xF4329816, 0x071783C2, 0x6E536A8D, 0x9A81A601, 0xE7EC80F1, 0xACC09948, 0xF849A584] =
     [0x07E5B85A, 0x069CC164, 0xF9DE3141, 0xA56F4680, 0x9E440AD2, 0x9AB659EA, 0x3C84B971, 0x21DBD9CF,
      0x46699F8C, 0x765257EC, 0xAF1D998C, 0x75E4C3B6, 0x523878DC, 0x30715015, 0x397FEE81, 0x4F1FA799]"
  by (simp add: abc_eval cong: let_weak_cong)

lemma abc_round8:
  "rfc_round abc_words 8
     [0x07E5B85A, 0x069CC164, 0xF9DE3141, 0xA56F4680, 0x9E440AD2, 0x9AB659EA, 0x3C84B971, 0x21DBD9CF,
      0x46699F8C, 0x765257EC, 0xAF1D998C, 0x75E4C3B6, 0x523878DC, 0x30715015, 0x397FEE81, 0x4F1FA799] =
     [0x435148C4, 0xA5AA2D11, 0x4B354173, 0xD543BC9E, 0xBDA2591C, 0xBF1D2569, 0x4FCB3120, 0x707ADA48,
      0x565B3FDE, 0x32C9C916, 0xEAF4A1AB, 0xB1018F28, 0x8078D978, 0x68ADE4B5, 0x9778FDA3, 0x2863B92E]"
  by (simp add: abc_eval cong: let_weak_cong)

lemma abc_round9:
  "rfc_round abc_words 9
     [0x435148C4, 0xA5AA2D11, 0x4B354173, 0xD543BC9E, 0xBDA2591C, 0xBF1D2569, 0x4FCB3120, 0x707ADA48,
      0x565B3FDE, 0x32C9C916, 0xEAF4A1AB, 0xB1018F28, 0x8078D978, 0x68ADE4B5, 0x9778FDA3, 0x2863B92E] =
     [0xD9C994AA, 0xCFEC3AA6, 0x700D0AB2, 0x2C38670E, 0xAF6A1F66, 0x1D023EF3, 0x1D9EC27D, 0x945357A5,
      0x3E9FFEBD, 0x969FE811, 0xEF485E21, 0xA632797A, 0xDEEF082E, 0xAF3D80E1, 0x4E86829B, 0x4DEAFD3A]"
  by (simp add: abc_eval cong: let_weak_cong)

lemma zeros_word: "le_word (replicate n 0) = 0"
  by (induction n) simp_all

lemma abc_block: "map (\<lambda>i. le_word (bytes_at (4 * i) 4 ([0x61, 0x62, 0x63] @ replicate 61 0))) [0..<16] = abc_words"
  by (simp add: abc_words_def upt_rec bytes_at_def zeros_word)

lemma abc_F: "rfc_F [0x6B08E647, 0xBB67AE85, 0x3C6EF372, 0xA54FF53A, 0x510E527F, 0x9B05688C, 0x1F83D9AB, 0x5BE0CD19] ([0x61, 0x62, 0x63] @ replicate 61 0) 3 True =
    [0x8C5E8C50, 0xE2147C32, 0xA32BA7E1, 0x2F45EB4E, 0x208B4537, 0x293AD69E, 0x4C9B994D, 0x82596786]"
proof -
  define v :: "u32 list" where "v = [0x6B08E647, 0xBB67AE85, 0x3C6EF372, 0xA54FF53A, 0x510E527F, 0x9B05688C, 0x1F83D9AB, 0x5BE0CD19,
      0x6A09E667, 0xBB67AE85, 0x3C6EF372, 0xA54FF53A, 0x510E527C, 0x9B05688C, 0xE07C2654, 0x5BE0CD19]"
  have "fold (rfc_round abc_words) [0, 1, 2, 3, 4, 5, 6, 7, 8, 9] v =
    [0xD9C994AA, 0xCFEC3AA6, 0x700D0AB2, 0x2C38670E, 0xAF6A1F66, 0x1D023EF3, 0x1D9EC27D, 0x945357A5,
      0x3E9FFEBD, 0x969FE811, 0xEF485E21, 0xA632797A, 0xDEEF082E, 0xAF3D80E1, 0x4E86829B, 0x4DEAFD3A]" unfolding v_def fold_simps abc_round0 abc_round1 abc_round2 abc_round3 abc_round4 abc_round5 abc_round6 abc_round7 abc_round8 abc_round9 ..
  then show ?thesis unfolding rfc_F_def abc_block by (simp add: v_def rfc_iv_def upt_rec)
qed

lemma blake2s_rfc_abc:
  "blake2s_rfc 32 [0x61, 0x62, 0x63] [] =
    [0x50, 0x8c, 0x5e, 0x8c, 0x32, 0x7c, 0x14, 0xe2, 0xe1, 0xa7, 0x2b, 0xa3, 0x4e, 0xeb, 0x45, 0x2f,
     0x37, 0x45, 0x8b, 0x20, 0x9e, 0xd6, 0x3a, 0x29, 0x4d, 0x99, 0x9b, 0x4c, 0x86, 0x67, 0x59, 0x82]"
  unfolding blake2s_rfc_def using abc_F by (simp add: rfc_absorb_short rfc_iv_def numeral_3_eq_3 le_bytes_def upt_rec)

text \<open>C38: BLAKE2s is RFC 7693's, however the input is fed: for a digest length of 1 to 32
  bytes and a key of at most 32, \<open>blake2s_init_key\<close>, any sequence of \<open>blake2s_update\<close> calls
  and \<open>blake2s_final\<close> give the digest of the concatenated input that the RFC's block loop
  defines, with the RFC's own tables, rotations and mixing order (lockstep pairs, split counter with carry and lazy
  buffering included); any other digest or key length is refused.  The digest of \<open>abc\<close>, fed in any pieces, is the one of
  the RFC's appendix B.\<close>

theorem blake2s_is_rfc7693:
  "blake2s_stream n chunks key =
     (if 0 < n \<and> n \<le> 32 \<and> length key \<le> 32 then Some (blake2s_rfc n (concat chunks) key) else None) \<and>
   (concat chunks = [0x61, 0x62, 0x63] \<longrightarrow> blake2s_stream 32 chunks [] = Some
     [0x50, 0x8c, 0x5e, 0x8c, 0x32, 0x7c, 0x14, 0xe2, 0xe1, 0xa7, 0x2b, 0xa3, 0x4e, 0xeb, 0x45, 0x2f,
      0x37, 0x45, 0x8b, 0x20, 0x9e, 0xd6, 0x3a, 0x29, 0x4d, 0x99, 0x9b, 0x4c, 0x86, 0x67, 0x59, 0x82])"
proof -
  have e: "blake2s_stream n chunks key = (if 0 < n \<and> n \<le> 32 \<and> length key \<le> 32 then Some (blake2s_rfc n (concat chunks) key) else None)" for n key
    using blake2s_stream_eq [of n key chunks] by (auto simp: blake2s_stream_def blake2s_init_key_def)
  show ?thesis unfolding e using blake2s_rfc_abc by simp
qed

theorem blake2s_is_rfc7693_witness:
  "blake2s_stream 32 [[0x61], [], [0x62, 0x63]] [] = Some
     [0x50, 0x8c, 0x5e, 0x8c, 0x32, 0x7c, 0x14, 0xe2, 0xe1, 0xa7, 0x2b, 0xa3, 0x4e, 0xeb, 0x45, 0x2f,
      0x37, 0x45, 0x8b, 0x20, 0x9e, 0xd6, 0x3a, 0x29, 0x4d, 0x99, 0x9b, 0x4c, 0x86, 0x67, 0x59, 0x82]"
  by (rule mp [OF conjunct2 [OF blake2s_is_rfc7693 [of 32 "[[0x61], [], [0x62, 0x63]]" "[]"]]]) simp

end
