(* ===== verification/Crypto_HKDF.thy ===== *)
theory Crypto_HKDF
  imports Crypto_Blake2s
begin

unbundle bit_operations_syntax

text \<open>
  \<open>crypto/hkdf_blake2s.c\<close> (HMAC-BLAKE2s, the HKDF of Noise with one to three outputs, RFC 5869
  extract and expand) and the key-schedule helpers of \<open>wg_proto.c\<close> that build on it
  (\<open>wg_mix_hash\<close>, \<open>wg_mix_key\<close>, \<open>wg_mix_chain_only\<close>, \<open>wg_mac1_key\<close>, \<open>wg_keyed_mac16\<close>, the
  initial chain key and hash).  Scrubbing of locals has no counterpart.
\<close>

section \<open>The code\<close>

definition HKDF_BLAKE2S_HASHLEN :: nat where "HKDF_BLAKE2S_HASHLEN = 32"
definition HMAC_BLOCK_LEN :: nat where "HMAC_BLOCK_LEN = 64"

lemmas hkdf_lens [simp] = HKDF_BLAKE2S_HASHLEN_def HMAC_BLOCK_LEN_def

definition hmac_blake2s :: "bytes \<Rightarrow> bytes \<Rightarrow> bytes option" where
  "hmac_blake2s key data =
     (case (if length key > HMAC_BLOCK_LEN then blake2s HKDF_BLAKE2S_HASHLEN key [] else Some key) of
        None \<Rightarrow> None
      | Some k0 \<Rightarrow>
          (let k = k0 @ replicate (HMAC_BLOCK_LEN - length k0) 0;
               ipad = map (\<lambda>b. b XOR 0x36) k;
               opad = map (\<lambda>b. b XOR 0x5C) k
           in case blake2s_init HKDF_BLAKE2S_HASHLEN of
                None \<Rightarrow> None
              | Some S \<Rightarrow>
                  (case blake2s_final (blake2s_update (blake2s_update S ipad) data) HKDF_BLAKE2S_HASHLEN of
                     None \<Rightarrow> None
                   | Some inner \<Rightarrow>
                       (case blake2s_init HKDF_BLAKE2S_HASHLEN of
                          None \<Rightarrow> None
                        | Some S \<Rightarrow> blake2s_final (blake2s_update (blake2s_update S opad) inner) HKDF_BLAKE2S_HASHLEN))))"

definition noise_hkdf1 :: "bytes \<Rightarrow> bytes \<Rightarrow> bytes option" where
  "noise_hkdf1 ck inp =
     (case hmac_blake2s ck inp of
        None \<Rightarrow> None
      | Some temp_key \<Rightarrow> hmac_blake2s temp_key [0x01])"

definition noise_hkdf2 :: "bytes \<Rightarrow> bytes \<Rightarrow> (bytes \<times> bytes) option" where
  "noise_hkdf2 ck inp =
     (case hmac_blake2s ck inp of
        None \<Rightarrow> None
      | Some temp_key \<Rightarrow>
          (case hmac_blake2s temp_key [0x01] of
             None \<Rightarrow> None
           | Some out1 \<Rightarrow>
               (case hmac_blake2s temp_key (out1 @ [0x02]) of
                  None \<Rightarrow> None
                | Some out2 \<Rightarrow> Some (out1, out2))))"

definition noise_hkdf3 :: "bytes \<Rightarrow> bytes \<Rightarrow> (bytes \<times> bytes \<times> bytes) option" where
  "noise_hkdf3 ck inp =
     (case hmac_blake2s ck inp of
        None \<Rightarrow> None
      | Some temp_key \<Rightarrow>
          (case hmac_blake2s temp_key [0x01] of
             None \<Rightarrow> None
           | Some out1 \<Rightarrow>
               (case hmac_blake2s temp_key (out1 @ [0x02]) of
                  None \<Rightarrow> None
                | Some out2 \<Rightarrow>
                    (case hmac_blake2s temp_key (out2 @ [0x03]) of
                       None \<Rightarrow> None
                     | Some out3 \<Rightarrow> Some (out1, out2, out3)))))"

definition hkdf_blake2s_extract :: "bytes \<Rightarrow> bytes \<Rightarrow> bytes option" where
  "hkdf_blake2s_extract salt ikm =
     (if length salt = 0 then hmac_blake2s (replicate HKDF_BLAKE2S_HASHLEN 0) ikm else hmac_blake2s salt ikm)"

fun hkdf_expand_loop :: "bytes \<Rightarrow> bytes \<Rightarrow> bytes \<Rightarrow> u8 \<Rightarrow> nat \<Rightarrow> bytes option" where
  "hkdf_expand_loop prk info t counter rest =
     (if rest = 0 then Some []
      else case hmac_blake2s prk (t @ info @ [counter]) of
             None \<Rightarrow> None
           | Some t' \<Rightarrow>
               (let n = (if rest < HKDF_BLAKE2S_HASHLEN then rest else HKDF_BLAKE2S_HASHLEN)
                in map_option (\<lambda>r. take n t' @ r) (hkdf_expand_loop prk info t' (counter + 1) (rest - n))))"

definition hkdf_blake2s_expand :: "bytes \<Rightarrow> bytes \<Rightarrow> nat \<Rightarrow> bytes option" where
  "hkdf_blake2s_expand prk info out_len =
     (if out_len > 255 * HKDF_BLAKE2S_HASHLEN then None
      else if length info > 256 then None
      else hkdf_expand_loop prk info [] 1 out_len)"

declare hkdf_expand_loop.simps [simp del]

text \<open>\<open>wg_proto.c\<close>.  The C helpers ignore the return codes of the hash functions; a failure
  would leave the output untouched, and \<open>None\<close> stands for that.\<close>

definition ascii_bytes :: "string \<Rightarrow> bytes" where
  "ascii_bytes s = map (\<lambda>c. of_nat (of_char c)) s"

definition WG_CONSTRUCTION :: bytes where
  "WG_CONSTRUCTION = ascii_bytes ''Noise_IKpsk2_25519_ChaChaPoly_BLAKE2s''"

definition WG_IDENTIFIER :: bytes where
  "WG_IDENTIFIER = ascii_bytes ''WireGuard v1 zx2c4 Jason@zx2c4.com''"

definition WG_LABEL_MAC1 :: bytes where
  "WG_LABEL_MAC1 = ascii_bytes ''mac1----''"

definition compute_initial_constants :: "(bytes \<times> bytes) option" where
  "compute_initial_constants =
     (case blake2s_stream 32 [WG_CONSTRUCTION] [] of
        None \<Rightarrow> None
      | Some chain_key \<Rightarrow>
          (case blake2s_stream 32 [chain_key, WG_IDENTIFIER] [] of
             None \<Rightarrow> None
           | Some hash \<Rightarrow> Some (chain_key, hash)))"

definition wg_mix_hash :: "bytes \<Rightarrow> bytes \<Rightarrow> bytes option" where
  "wg_mix_hash h data = blake2s_stream 32 (if length data \<noteq> 0 then [h, data] else [h]) []"

definition wg_mix_key :: "bytes \<Rightarrow> bytes \<Rightarrow> (bytes \<times> bytes) option" where
  "wg_mix_key ck x = noise_hkdf2 ck x"

definition wg_mix_chain_only :: "bytes \<Rightarrow> bytes \<Rightarrow> bytes option" where
  "wg_mix_chain_only ck x = noise_hkdf1 ck x"

definition wg_mac1_key :: "bytes \<Rightarrow> bytes option" where
  "wg_mac1_key responder_static_pub = blake2s_stream 32 [WG_LABEL_MAC1, responder_static_pub] []"

definition wg_keyed_mac16 :: "bytes \<Rightarrow> bytes \<Rightarrow> bytes option" where
  "wg_keyed_mac16 key data = blake2s_stream 16 (if length data \<noteq> 0 then [data] else []) key"

section \<open>HMAC and HKDF as the RFCs define them\<close>

definition hmac_rfc :: "bytes \<Rightarrow> bytes \<Rightarrow> bytes" where
  "hmac_rfc key data =
     (let k0 = (if length key > 64 then blake2s_rfc 32 key [] else key);
          k = k0 @ replicate (64 - length k0) 0
      in blake2s_rfc 32 (map (\<lambda>b. b XOR 0x5C) k @ blake2s_rfc 32 (map (\<lambda>b. b XOR 0x36) k @ data) []) [])"

text \<open>RFC 5869, section 2.3: \<open>T(0)\<close> is empty, \<open>T(i) = HMAC(PRK, T(i-1) | info | i)\<close>.\<close>

fun rfc5869_T :: "bytes \<Rightarrow> bytes \<Rightarrow> nat \<Rightarrow> bytes" where
  "rfc5869_T prk info 0 = []"
| "rfc5869_T prk info (Suc i) = hmac_rfc prk (rfc5869_T prk info i @ info @ [of_nat (Suc i)])"

definition rfc5869_okm :: "bytes \<Rightarrow> bytes \<Rightarrow> nat \<Rightarrow> nat \<Rightarrow> bytes" where
  "rfc5869_okm prk info i n = concat (map (rfc5869_T prk info) [Suc i..<Suc i + n])"

lemma stream2:
  "(case blake2s_init 32 of None \<Rightarrow> None | Some S \<Rightarrow> blake2s_final (blake2s_update (blake2s_update S a) b) 32)
     = Some (blake2s_rfc 32 (a @ b) [])"
  using blake2s_stream_eq [of 32 "[]" "[a, b]"] by (simp add: blake2s_stream_def blake2s_init_def split: option.splits)

lemma hmac_blake2s_eq: "hmac_blake2s key data = Some (hmac_rfc key data)"
proof -
  let ?k0 = "if length key > 64 then blake2s_rfc 32 key [] else key"
  have k: "(if length key > 64 then blake2s 32 key [] else Some key) = Some ?k0"
    by (simp add: blake2s_eq_stream blake2s_stream_eq)
  have nested: "(case blake2s_init 32 of None \<Rightarrow> None | Some S \<Rightarrow>
        (case blake2s_final (blake2s_update (blake2s_update S a) b) 32 of None \<Rightarrow> None | Some x \<Rightarrow> f x))
      = f (blake2s_rfc 32 (a @ b) [])" for a b and f :: "bytes \<Rightarrow> bytes option"
    using stream2 [of a b] by (auto split: option.splits)
  show ?thesis
    unfolding hmac_blake2s_def hkdf_lens k hmac_rfc_def Let_def option.case nested stream2 ..
qed

lemma length_hmac_rfc [simp]: "length (hmac_rfc key data) = 32"
  by (simp add: hmac_rfc_def Let_def length_blake2s_rfc)

lemma okm_Suc: "rfc5869_okm prk info i (Suc n) = rfc5869_T prk info (Suc i) @ rfc5869_okm prk info (Suc i) n"
proof -
  have "[Suc i..<Suc i + Suc n] = Suc i # [Suc (Suc i)..<Suc (Suc i) + n]" by (simp add: upt_rec)
  then show ?thesis unfolding rfc5869_okm_def by simp
qed

lemma expand_loop_eq:
  "rest \<le> 32 * n \<Longrightarrow> hkdf_expand_loop prk info (rfc5869_T prk info i) (of_nat (Suc i)) rest
     = Some (take rest (rfc5869_okm prk info i n))"
proof (induction n arbitrary: i rest)
  case 0
  then show ?case by (simp add: hkdf_expand_loop.simps [of _ _ _ _ 0])
next
  case (Suc n)
  let ?T = "rfc5869_T prk info (Suc i)"
  have h: "hmac_blake2s prk (rfc5869_T prk info i @ info @ [of_nat (Suc i)]) = Some ?T"
    by (simp add: hmac_blake2s_eq)
  have len: "length ?T = 32" by simp
  have step: "hkdf_expand_loop prk info ?T (of_nat (Suc i) + 1) (rest - min rest 32)
      = Some (take (rest - min rest 32) (rfc5869_okm prk info (Suc i) n))"
    using Suc.IH [of "rest - min rest 32" "Suc i"] Suc.prems by (simp add: add.commute)
  show ?case
  proof (cases "rest = 0")
    case True
    then show ?thesis by (simp add: hkdf_expand_loop.simps [of _ _ _ _ 0])
  next
    case False
    have "(if rest < 32 then rest else 32) = min rest 32" by simp
    then have "hkdf_expand_loop prk info (rfc5869_T prk info i) (of_nat (Suc i)) rest
        = Some (take (min rest 32) ?T @ take (rest - min rest 32) (rfc5869_okm prk info (Suc i) n))"
      unfolding hkdf_expand_loop.simps [of prk info "rfc5869_T prk info i" "of_nat (Suc i)" rest]
      using False by (simp only: h hkdf_lens Let_def step if_False option.case option.map)
    then show ?thesis unfolding okm_Suc using len by (cases "rest \<le> 32") simp_all
  qed
qed

section \<open>Properties\<close>

text \<open>The key derivations are the RFCs': \<open>hmac_blake2s\<close> never fails and is RFC 2104's HMAC;
  the one-, two- and three-output Noise HKDFs are the first outputs of one chain (so KDF1 is
  the prefix of KDF2 and KDF3 that the header promises), and \<open>hkdf_blake2s_expand\<close> is RFC
  5869's expansion, the first \<open>out_len\<close> bytes of \<open>T(1) | T(2) | ...\<close>, refused exactly when
  more than 255 blocks or more than 256 bytes of \<open>info\<close> are asked for.\<close>

theorem hkdf_is_rfc5869:
  "hmac_blake2s key data = Some (hmac_rfc key data) \<and>
   (let prk = hmac_rfc ck inp; T = rfc5869_T prk [] in
      noise_hkdf1 ck inp = Some (T 1) \<and> noise_hkdf2 ck inp = Some (T 1, T 2) \<and>
      noise_hkdf3 ck inp = Some (T 1, T 2, T 3)) \<and>
   hkdf_blake2s_expand prk0 info out_len =
     (if out_len \<le> 255 * 32 \<and> length info \<le> 256 then Some (take out_len (rfc5869_okm prk0 info 0 255)) else None)"
proof (intro conjI)
  show "let prk = hmac_rfc ck inp; T = rfc5869_T prk [] in
      noise_hkdf1 ck inp = Some (T 1) \<and> noise_hkdf2 ck inp = Some (T 1, T 2) \<and>
      noise_hkdf3 ck inp = Some (T 1, T 2, T 3)"
    by (simp add: noise_hkdf1_def noise_hkdf2_def noise_hkdf3_def hmac_blake2s_eq Let_def numeral_2_eq_2 numeral_3_eq_3)
  show "hkdf_blake2s_expand prk0 info out_len =
     (if out_len \<le> 255 * 32 \<and> length info \<le> 256 then Some (take out_len (rfc5869_okm prk0 info 0 255)) else None)"
    using expand_loop_eq [of out_len 255 prk0 info 0] by (auto simp: hkdf_blake2s_expand_def)
qed (rule hmac_blake2s_eq)

text \<open>The WireGuard key schedule: \<open>wg_mix_hash\<close> is \<open>BLAKE2s(H || data)\<close> (also for empty
  data), \<open>wg_mix_key\<close> and \<open>wg_mix_chain_only\<close> advance the chain key to the same value,
  \<open>wg_mac1_key\<close> and \<open>wg_keyed_mac16\<close> are the labelled hash and the 16-byte keyed hash, and none
  of them fails on keys of at most 32 bytes.\<close>

theorem wg_key_schedule:
  assumes "length key \<le> 32"
  shows "wg_mix_hash h data = Some (blake2s_rfc 32 (h @ data) []) \<and>
    wg_mix_chain_only ck x = map_option fst (wg_mix_key ck x) \<and> wg_mix_key ck x \<noteq> None \<and>
    wg_mac1_key pub = Some (blake2s_rfc 32 (WG_LABEL_MAC1 @ pub) []) \<and>
    wg_keyed_mac16 key data = Some (blake2s_rfc 16 data key)"
  using assms
  by (simp add: wg_mix_hash_def wg_mix_key_def wg_mix_chain_only_def wg_mac1_key_def wg_keyed_mac16_def
        blake2s_stream_eq noise_hkdf1_def noise_hkdf2_def hmac_blake2s_eq)

theorem wg_key_schedule_witness:
  "wg_keyed_mac16 (replicate 32 7) [1, 2] = Some (blake2s_rfc 16 [1, 2] (replicate 32 7))"
  using wg_key_schedule [of "replicate 32 7"] by simp

end
