(* ===== verification/WG_Tai64n.thy ===== *)
theory WG_Tai64n
  imports TL_Prelude
begin

unbundle bit_operations_syntax

text \<open>
  The handshake timestamp: \<open>wg_tai64n_init\<close>, \<open>wg_tai64n_now\<close> of \<open>wg_proto.c\<close> and the boot-time
  floor of \<open>tinylink.c\<close> (\<open>tai64n_persist_cb\<close>, \<open>tinylink_tai64n_floor_init\<close>).  A responder
  refuses a handshake whose timestamp is not newer than the last one it saw, so the
  timestamps must increase across reboots, on a device whose clock restarts at zero.

  The clocks and the flash are inputs: each call gets the wall clock, the uptime in
  microseconds and the outcome of the flash write it may attempt.  The flash value lives on
  across reboots, the RAM state does not.
\<close>

section \<open>The code\<close>

definition WG_TAI64N_RESERVE_CHUNK_SECS :: u64 where
  "WG_TAI64N_RESERVE_CHUNK_SECS = 86400"

record tai64n_state =
  s_emitted_high :: u64
  s_reservation :: u64
  s_persist_fn :: bool     \<comment> \<open>the callback is installed\<close>

text \<open>What a flash write reports, and for a failure whether the value reached the flash all the same.\<close>

datatype nvs_write = Write_ok | Write_failed bool

definition tai64n_persist_cb :: "nvs_write \<Rightarrow> u64 option \<Rightarrow> u64 \<Rightarrow> int \<times> u64 option" where
  "tai64n_persist_cb wr nvs reservation_secs =
     (case wr of
        Write_ok \<Rightarrow> (0, Some reservation_secs)
      | Write_failed stored \<Rightarrow> (-1, if stored then Some reservation_secs else nvs))"

definition wg_tai64n_init :: "u64 \<Rightarrow> u64 \<Rightarrow> bool \<Rightarrow> tai64n_state" where
  "wg_tai64n_init floor reservation persist_fn =
     \<lparr>s_emitted_high = floor, s_reservation = reservation, s_persist_fn = persist_fn\<rparr>"

definition wg_tai64n_high_water_secs :: "tai64n_state \<Rightarrow> u64" where
  "wg_tai64n_high_water_secs st = s_emitted_high st"

text \<open>\<open>open_ok\<close> and \<open>read_ok\<close>: \<open>nvs_open\<close> succeeds, \<open>nvs_get_u64\<close> reports no error but "not found".\<close>

definition tinylink_tai64n_floor_init ::
    "bool \<Rightarrow> bool \<Rightarrow> nvs_write \<Rightarrow> u64 option \<Rightarrow> bool \<times> tai64n_state \<times> u64 option" where
  "tinylink_tai64n_floor_init open_ok read_ok wr nvs =
     (if \<not> open_ok then (False, wg_tai64n_init 0 0 False, nvs)
      else if \<not> read_ok then (False, wg_tai64n_init 0 0 False, nvs)
      else let persisted = (case nvs of None \<Rightarrow> 0 | Some v \<Rightarrow> v);
               reservation = persisted + WG_TAI64N_RESERVE_CHUNK_SECS;
               (prst, nvs) = tai64n_persist_cb wr nvs reservation
           in if prst \<noteq> 0 then (False, wg_tai64n_init persisted persisted False, nvs)
              else (True, wg_tai64n_init persisted reservation True, nvs))"

definition monotonic_seconds :: "u64 \<Rightarrow> u64" where
  "monotonic_seconds us = us div 1000000"

definition monotonic_nanos_partial :: "u64 \<Rightarrow> u32" where
  "monotonic_nanos_partial us = ucast ((us mod 1000000) * 1000)"

definition wg_tai64n_now :: "u64 \<Rightarrow> u64 \<Rightarrow> nvs_write \<Rightarrow> tai64n_state \<Rightarrow> u64 option \<Rightarrow> bytes \<times> tai64n_state \<times> u64 option" where
  "wg_tai64n_now wall us wr st nvs =
     (let secs = (if wall = 0 then monotonic_seconds us else wall);
          nanos = monotonic_nanos_partial us;
          secs = (if secs \<le> s_emitted_high st then s_emitted_high st + 1 else secs);
          (st, nvs) =
            (if s_persist_fn st \<and> secs \<ge> s_reservation st
             then (let new_reservation = secs + WG_TAI64N_RESERVE_CHUNK_SECS;
                       (rc, nvs) = tai64n_persist_cb wr nvs new_reservation
                   in (if rc = 0 then st\<lparr>s_reservation := new_reservation\<rparr> else st, nvs))
             else (st, nvs));
          st = st\<lparr>s_emitted_high := secs\<rparr>;
          tai = secs + 0x4000000000000000
      in (map (\<lambda>i. ucast (drop_bit (8 * (7 - i)) tai)) [0..<8] @ map (\<lambda>i. ucast (drop_bit (8 * (3 - i)) nanos)) [0..<4],
          st, nvs))"

section \<open>Executions across reboots\<close>

datatype tai_event =
    Boot bool bool nvs_write
  | Now u64 u64 nvs_write     \<comment> \<open>wall clock, uptime, outcome of a write\<close>

fun tai_run :: "tai_event list \<Rightarrow> tai64n_state \<Rightarrow> u64 option \<Rightarrow> bytes list" where
  "tai_run [] st nvs = []"
| "tai_run (Boot open_ok read_ok wr # es) st nvs =
     (let (ok, st, nvs) = tinylink_tai64n_floor_init open_ok read_ok wr nvs in tai_run es st nvs)"
| "tai_run (Now wall us wr # es) st nvs =
     (let (out, st, nvs) = wg_tai64n_now wall us wr st nvs in out # tai_run es st nvs)"

text \<open>The flash works: every open, read and write succeeds.  The clocks are below \<open>b\<close>.\<close>

fun tai_event_ok :: "nat \<Rightarrow> tai_event \<Rightarrow> bool" where
  "tai_event_ok b (Boot open_ok read_ok wr) \<longleftrightarrow> open_ok \<and> read_ok \<and> wr = Write_ok"
| "tai_event_ok b (Now wall us wr) \<longleftrightarrow> wr = Write_ok \<and> unat wall \<le> b \<and> unat us \<le> b"

text \<open>The seconds field of a timestamp.\<close>

definition tai_secs :: "bytes \<Rightarrow> nat" where
  "tai_secs out = unat (be_word (take 8 out) :: u64)"

lemma now_bytes:
  "map (\<lambda>i. ucast (drop_bit (8 * (7 - i)) (v :: u64))) [0..<8] = be_bytes 8 v"
  "map (\<lambda>i. ucast (drop_bit (8 * (3 - i)) (w :: u32))) [0..<4] = be_bytes 4 w"
  by (auto intro!: nth_equalityI simp: be_bytes_def le_bytes_def rev_nth)

text \<open>Between calls the flash value is the reservation and lies above everything emitted.\<close>

definition tai_inv :: "nat \<Rightarrow> nat \<Rightarrow> tai64n_state \<Rightarrow> u64 option \<Rightarrow> bool" where
  "tai_inv B high st nvs \<longleftrightarrow>
     s_persist_fn st \<and> nvs = Some (s_reservation st) \<and> high \<le> unat (s_emitted_high st) \<and>
     unat (s_emitted_high st) \<le> unat (s_reservation st) \<and> unat (s_reservation st) \<le> B"

lemma unat_plus_chunk: "unat x + 86400 < 2 ^ 64 \<Longrightarrow> unat (x + WG_TAI64N_RESERVE_CHUNK_SECS) = unat x + 86400"
  by (simp add: WG_TAI64N_RESERVE_CHUNK_SECS_def unat_word_ariths)

lemma unat_plus_one: "unat x + 1 < 2 ^ 64 \<Longrightarrow> unat (x + 1 :: u64) = unat x + 1"
  by (simp add: unat_word_ariths)

lemma now_step:
  assumes inv: "tai_inv B high st nvs" and ok: "unat wall \<le> B" "unat us \<le> B" and B: "B + 86401 < 2 ^ 62"
    and run: "wg_tai64n_now wall us Write_ok st nvs = (out, st', nvs')"
  shows "tai_inv (B + 86401) (tai_secs out - 2 ^ 62) st' nvs' \<and> high + 2 ^ 62 < tai_secs out \<and>
    length out = 12 \<and> 2 ^ 62 \<le> tai_secs out"
proof -
  define raw where "raw = (if wall = 0 then monotonic_seconds us else wall)"
  define secs where "secs = (if raw \<le> s_emitted_high st then s_emitted_high st + 1 else raw)"
  have hi: "high \<le> unat (s_emitted_high st)" "unat (s_emitted_high st) \<le> B" using inv by (simp_all add: tai_inv_def)
  have rawB: "unat raw \<le> B" using ok div_le_dividend [of "unat us" 1000000]
    by (auto simp: raw_def monotonic_seconds_def unat_div_distrib intro: order_trans)
  have secs: "unat (s_emitted_high st) < unat secs" "unat secs \<le> B + 1"
    using hi rawB B unat_plus_one [of "s_emitted_high st"] by (auto simp: secs_def word_le_nat_alt)
  have ch: "unat (secs + WG_TAI64N_RESERVE_CHUNK_SECS) = unat secs + 86400"
    using secs B by (intro unat_plus_chunk) simp
  have st': "st' = st\<lparr>s_reservation := (if s_reservation st \<le> secs then secs + WG_TAI64N_RESERVE_CHUNK_SECS else s_reservation st),
      s_emitted_high := secs\<rparr>"
    and nvs': "nvs' = Some (s_reservation st')"
    and out: "out = be_bytes 8 (secs + 0x4000000000000000) @ be_bytes 4 (monotonic_nanos_partial us)"
    using run inv unfolding wg_tai64n_now_def Let_def raw_def [symmetric] secs_def [symmetric] now_bytes
    by (auto simp: tai_inv_def tai64n_persist_cb_def split: if_splits)
  have t: "unat (secs + 0x4000000000000000) = unat secs + 2 ^ 62"
    using secs B by (simp add: unat_word_ariths)
  have ts: "tai_secs out = unat secs + 2 ^ 62"
    by (simp add: tai_secs_def out t)
  have "tai_inv (B + 86401) (tai_secs out - 2 ^ 62) st' nvs'"
    using inv secs ch hi ts by (auto simp: tai_inv_def st' nvs' word_le_nat_alt)
  then show ?thesis using ts secs hi by (simp add: out)
qed

lemma boot_step:
  assumes "tai_inv B high st nvs" "B + 86400 < 2 ^ 62" "tinylink_tai64n_floor_init True True Write_ok nvs = (ok, st', nvs')"
  shows "tai_inv (B + 86401) high st' nvs'"
proof -
  have r: "unat (s_reservation st) + 86400 < 2 ^ 64" "nvs = Some (s_reservation st)" "high \<le> unat (s_reservation st)"
    "unat (s_reservation st) \<le> B"
    using assms(1,2) by (auto simp: tai_inv_def)
  then show ?thesis
    using assms(3) unat_plus_chunk [OF r(1)]
    by (auto simp: tinylink_tai64n_floor_init_def tai64n_persist_cb_def wg_tai64n_init_def tai_inv_def Let_def)
qed

lemma tai_run_increasing:
  assumes "tai_inv B high st nvs" "list_all (tai_event_ok B) es" "B + length es * 86401 + 86401 < 2 ^ 62"
  shows "sorted_wrt (<) ((high + 2 ^ 62) # map tai_secs (tai_run es st nvs)) \<and> list_all (\<lambda>t. length t = 12) (tai_run es st nvs)"
  using assms
proof (induction es arbitrary: B high st nvs)
  case (Cons e es)
  have mono: "list_all (tai_event_ok (B + 86401)) es"
  proof -
    have "tai_event_ok B e \<Longrightarrow> tai_event_ok (B + 86401) e" for e by (cases e) auto
    then show ?thesis using Cons.prems(2) by (auto simp: list_all_iff)
  qed
  have bnd: "B + 86401 + length es * 86401 + 86401 < 2 ^ 62" using Cons.prems(3) by simp
  have small: "B + 86401 < 2 ^ 62" using Cons.prems(3) by simp
  show ?case
  proof (cases e)
    case (Boot a b wr)
    then have e: "e = Boot True True Write_ok" using Cons.prems(2) by simp
    obtain ok st' nvs' where r: "tinylink_tai64n_floor_init True True Write_ok nvs = (ok, st', nvs')" by (metis prod_cases3)
    have "tai_inv (B + 86401) high st' nvs'" using boot_step [OF Cons.prems(1) _ r] small by simp
    from Cons.IH [OF this mono bnd] show ?thesis by (simp add: e r)
  next
    case (Now wall us wr)
    then have e: "e = Now wall us Write_ok" "unat wall \<le> B" "unat us \<le> B" using Cons.prems(2) by simp_all
    obtain out st' nvs' where r: "wg_tai64n_now wall us Write_ok st nvs = (out, st', nvs')" by (metis prod_cases3)
    note s = now_step [OF Cons.prems(1) e(2,3) small r]
    then have "sorted_wrt (<) ((tai_secs out - 2 ^ 62 + 2 ^ 62) # map tai_secs (tai_run es st' nvs')) \<and>
        list_all (\<lambda>t. length t = 12) (tai_run es st' nvs')"
      using Cons.IH [OF _ mono bnd] by blast
    then show ?thesis using s by (auto simp: e r)
  qed
qed simp

section \<open>Properties\<close>

text \<open>C13: Handshake timestamps increase across reboots: starting from a boot with any flash
  contents, for every sequence of handshakes and further reboots in which the flash works,
  and whatever the clocks do (no wall clock at all, a wall clock that is set, jumps back
  or restarts), the seconds of the emitted TAI64N values increase strictly and lie above the
  value the flash held, as long as the clocks stay below a bound that leaves room for one
  reservation chunk per event below \<open>2 ^ 62\<close> seconds.\<close>

theorem tai64n_increases_across_reboots:
  assumes "unat (case nvs of None \<Rightarrow> 0 | Some v \<Rightarrow> v) \<le> B" "list_all (tai_event_ok B) es"
    "B + (length es + 3) * 86401 < 2 ^ 62"
  shows "sorted_wrt (<) (map tai_secs (tai_run (Boot True True Write_ok # es) st nvs)) \<and>
    list_all (\<lambda>t. length t = 12 \<and> unat (case nvs of None \<Rightarrow> 0 | Some v \<Rightarrow> v) + 2 ^ 62 < tai_secs t)
      (tai_run (Boot True True Write_ok # es) st nvs)"
proof -
  define p where "p = (case nvs of None \<Rightarrow> 0 | Some v \<Rightarrow> v)"
  let ?st = "wg_tai64n_init p (p + WG_TAI64N_RESERVE_CHUNK_SECS) True"
  let ?nvs = "Some (p + WG_TAI64N_RESERVE_CHUNK_SECS)"
  have ch: "unat (p + WG_TAI64N_RESERVE_CHUNK_SECS) = unat p + 86400"
    using assms(1,3) by (intro unat_plus_chunk) (simp add: p_def)
  have inv: "tai_inv (B + 86401) (unat p) ?st ?nvs"
    using assms(1) ch by (simp add: tai_inv_def wg_tai64n_init_def p_def)
  have mono: "list_all (tai_event_ok (B + 86401)) es"
  proof -
    have "tai_event_ok B e \<Longrightarrow> tai_event_ok (B + 86401) e" for e by (cases e) auto
    then show ?thesis using assms(2) by (auto simp: list_all_iff)
  qed
  have run: "tai_run (Boot True True Write_ok # es) st nvs = tai_run es ?st ?nvs"
    by (simp add: tinylink_tai64n_floor_init_def tai64n_persist_cb_def p_def Let_def)
  have "sorted_wrt (<) ((unat p + 2 ^ 62) # map tai_secs (tai_run es ?st ?nvs)) \<and>
      list_all (\<lambda>t. length t = 12) (tai_run es ?st ?nvs)"
    using tai_run_increasing [OF inv mono] assms(3) by simp
  then show ?thesis unfolding run p_def [symmetric] by (auto simp: list_all_iff)
qed

theorem tai64n_increases_across_reboots_witness:
  "sorted_wrt (<) (map tai_secs (tai_run
     [Boot True True Write_ok, Now 0 5000000 Write_ok, Now 1700000000 9000000 Write_ok, Boot True True Write_ok, Now 0 1000000 Write_ok]
     (wg_tai64n_init 7 7 False) None))"
  using tai64n_increases_across_reboots [of None 2000000000
      "[Now 0 5000000 Write_ok, Now 1700000000 9000000 Write_ok, Boot True True Write_ok, Now 0 1000000 Write_ok]"
      "wg_tai64n_init 7 7 False"]
  by simp

text \<open>Without the flash the guarantee is gone: when the pre-reserving write of each boot fails, two
  boots emit the same timestamp.\<close>

lemma tai64n_rewinds_without_flash:
  "let es = [Boot True True (Write_failed False), Now 0 1000000 Write_ok]
   in tai_run (es @ es) (wg_tai64n_init 0 0 False) (Some 5000)
        = (let t = be_bytes 8 (0x4000000000000000 + 5001 :: u64) @ be_bytes 4 (0 :: u32) in [t, t])"
  by (simp add: wg_tai64n_now_def Let_def tinylink_tai64n_floor_init_def tai64n_persist_cb_def wg_tai64n_init_def
        now_bytes monotonic_seconds_def monotonic_nanos_partial_def)

end
