(* ===== verification/WG_Handshake.thy ===== *)
theory WG_Handshake
  imports Crypto_NaclBox Crypto_HKDF Crypto_AEAD WG_Tai64n
begin

unbundle bit_operations_syntax

text \<open>
  \<open>wg_handshake.c\<close>: the initiator's side of the WireGuard handshake (Noise IKpsk2).  The scalar
  multiplication \<open>x25519\<close>, the random bytes of the ephemeral key and the clocks and flash of
  the timestamp are arguments.  A return code of \<open>-1\<close> is \<open>None\<close>; scrubbing of locals has no
  counterpart.  The packed message structures are records with their memory image.  Return
  codes of the hash helpers that the code ignores are ignored here too, the destination then
  keeping its contents (they never fail, \<open>hs_mix_simps\<close>).
\<close>

section \<open>The code\<close>

definition WG_MSG_INITIATION :: u8 where "WG_MSG_INITIATION = 1"
definition WG_MSG_RESPONSE :: u8 where "WG_MSG_RESPONSE = 2"

record wg_msg_initiation =
  mi_message_type :: u8
  mi_reserved :: bytes
  mi_sender_index :: u32
  mi_ephemeral :: bytes
  mi_encrypted_static :: bytes
  mi_encrypted_timestamp :: bytes
  mi_mac1 :: bytes
  mi_mac2 :: bytes

record wg_msg_response =
  mr_message_type :: u8
  mr_reserved :: bytes
  mr_sender_index :: u32
  mr_receiver_index :: u32
  mr_ephemeral :: bytes
  mr_encrypted_nothing :: bytes
  mr_mac1 :: bytes
  mr_mac2 :: bytes

text \<open>The bytes before \<open>mac1\<close> and the whole message, integers little-endian.\<close>

definition initiation_macd :: "wg_msg_initiation \<Rightarrow> bytes" where
  "initiation_macd m = [mi_message_type m] @ mi_reserved m @ le_bytes 4 (mi_sender_index m) @ mi_ephemeral m
     @ mi_encrypted_static m @ mi_encrypted_timestamp m"

definition initiation_bytes :: "wg_msg_initiation \<Rightarrow> bytes" where
  "initiation_bytes m = initiation_macd m @ mi_mac1 m @ mi_mac2 m"

definition response_macd :: "wg_msg_response \<Rightarrow> bytes" where
  "response_macd m = [mr_message_type m] @ mr_reserved m @ le_bytes 4 (mr_sender_index m) @ le_bytes 4 (mr_receiver_index m)
     @ mr_ephemeral m @ mr_encrypted_nothing m"

definition response_bytes :: "wg_msg_response \<Rightarrow> bytes" where
  "response_bytes m = response_macd m @ mr_mac1 m @ mr_mac2 m"

record wg_handshake_state =
  hs_local_static_priv :: bytes
  hs_local_static_pub :: bytes
  hs_peer_static_pub :: bytes
  hs_preshared_key :: bytes
  hs_mac1_key :: bytes
  hs_mac1_key_self :: bytes
  hs_static_static_dh :: bytes
  hs_identity_valid :: bool
  hs_chain_key :: bytes
  hs_hash :: bytes
  hs_ephemeral_priv :: bytes
  hs_ephemeral_pub :: bytes
  hs_local_index :: u32
  hs_armed :: bool

definition wg_handshake_scrub :: wg_handshake_state where
  "wg_handshake_scrub = \<lparr>hs_local_static_priv = replicate 32 0, hs_local_static_pub = replicate 32 0,
     hs_peer_static_pub = replicate 32 0, hs_preshared_key = replicate 32 0, hs_mac1_key = replicate 32 0,
     hs_mac1_key_self = replicate 32 0, hs_static_static_dh = replicate 32 0, hs_identity_valid = False,
     hs_chain_key = replicate 32 0, hs_hash = replicate 32 0, hs_ephemeral_priv = replicate 32 0,
     hs_ephemeral_pub = replicate 32 0, hs_local_index = 0, hs_armed = False\<rparr>"

definition wg_handshake_scrub_live :: "wg_handshake_state \<Rightarrow> wg_handshake_state" where
  "wg_handshake_scrub_live st = st\<lparr>hs_chain_key := replicate 32 0, hs_hash := replicate 32 0,
     hs_ephemeral_priv := replicate 32 0, hs_ephemeral_pub := replicate 32 0, hs_local_index := 0, hs_armed := False\<rparr>"

definition diff_bytes :: "bytes \<Rightarrow> bytes \<Rightarrow> nat \<Rightarrow> u8" where
  "diff_bytes a b n = fold (\<lambda>i d. d OR (a ! i XOR b ! i)) [0..<n] 0"

definition identity_cached :: "wg_handshake_state \<Rightarrow> bytes \<Rightarrow> bytes \<Rightarrow> bytes \<Rightarrow> bytes option \<Rightarrow> bool" where
  "identity_cached st local_static_priv local_static_pub peer_static_pub preshared_key =
     (if \<not> hs_identity_valid st then False
      else let d = diff_bytes (hs_local_static_priv st) local_static_priv 32;
               d = d OR diff_bytes (hs_local_static_pub st) local_static_pub 32;
               d = d OR diff_bytes (hs_peer_static_pub st) peer_static_pub 32;
               d = d OR diff_bytes (hs_preshared_key st) (case preshared_key of Some psk \<Rightarrow> psk | None \<Rightarrow> replicate 32 0) 32
           in d = 0)"

text \<open>In-place mixing with the return codes ignored.\<close>

definition hs_mix_hash :: "bytes \<Rightarrow> bytes \<Rightarrow> bytes" where
  "hs_mix_hash h data = (case wg_mix_hash h data of None \<Rightarrow> h | Some h' \<Rightarrow> h')"

definition hs_mix_chain :: "bytes \<Rightarrow> bytes \<Rightarrow> bytes" where
  "hs_mix_chain ck x = (case wg_mix_chain_only ck x of None \<Rightarrow> ck | Some ck' \<Rightarrow> ck')"

definition hs_mix_key :: "bytes \<Rightarrow> bytes \<Rightarrow> bytes \<times> bytes" where
  "hs_mix_key ck x = (case wg_mix_key ck x of None \<Rightarrow> (ck, replicate 32 0) | Some r \<Rightarrow> r)"

definition hs_mac16 :: "bytes \<Rightarrow> bytes \<Rightarrow> bytes" where
  "hs_mac16 key data = (case wg_keyed_mac16 key data of None \<Rightarrow> replicate 16 0 | Some m \<Rightarrow> m)"

definition hs_mac1_key_of :: "bytes \<Rightarrow> bytes" where
  "hs_mac1_key_of pub = (case wg_mac1_key pub of None \<Rightarrow> replicate 32 0 | Some k \<Rightarrow> k)"

definition hs_initial :: "bytes \<times> bytes" where
  "hs_initial = (case compute_initial_constants of None \<Rightarrow> (replicate 32 0, replicate 32 0) | Some r \<Rightarrow> r)"

definition zero_nonce :: bytes where "zero_nonce = replicate 12 0"

text \<open>The return code and the state.\<close>

definition wg_handshake_init :: "(bytes \<Rightarrow> bytes \<Rightarrow> bytes) \<Rightarrow> wg_handshake_state \<Rightarrow> bytes \<Rightarrow> bytes \<Rightarrow> bytes \<Rightarrow> bytes option \<Rightarrow> bool \<times> wg_handshake_state" where
  "wg_handshake_init x25519 st local_static_priv local_static_pub peer_static_pub preshared_key =
     (if identity_cached st local_static_priv local_static_pub peer_static_pub preshared_key
      then (True, wg_handshake_scrub_live st)
      else let st = wg_handshake_scrub;
               st = st\<lparr>hs_local_static_priv := take 32 local_static_priv, hs_local_static_pub := take 32 local_static_pub,
                       hs_peer_static_pub := take 32 peer_static_pub\<rparr>;
               st = (case preshared_key of Some psk \<Rightarrow> st\<lparr>hs_preshared_key := take 32 psk\<rparr> | None \<Rightarrow> st);
               st = st\<lparr>hs_mac1_key := hs_mac1_key_of peer_static_pub\<rparr>;
               st = st\<lparr>hs_mac1_key_self := hs_mac1_key_of local_static_pub\<rparr>
           in case curve25519_dh x25519 (hs_local_static_priv st) (hs_peer_static_pub st) of
                None \<Rightarrow> (False, wg_handshake_scrub)
              | Some dh \<Rightarrow> (True, st\<lparr>hs_static_static_dh := dh, hs_identity_valid := True\<rparr>))"

text \<open>\<open>rnd\<close> are the ephemeral key's random bytes; \<open>clk\<close> (wall clock, uptime, outcome of a flash
  write) and \<open>ts\<close> (timestamp state, flash value) are those of \<open>wg_tai64n_now\<close>.  The message is
  \<open>None\<close> when the ephemeral-static product is of low order.\<close>

definition wg_handshake_create_initiation ::
    "(bytes \<Rightarrow> bytes \<Rightarrow> bytes) \<Rightarrow> bool \<Rightarrow> bytes \<Rightarrow> u64 \<times> u64 \<times> nvs_write \<Rightarrow> tai64n_state \<times> u64 option \<Rightarrow> wg_handshake_state \<Rightarrow> u32
      \<Rightarrow> wg_msg_initiation option \<times> wg_handshake_state \<times> tai64n_state \<times> u64 option" where
  "wg_handshake_create_initiation x25519 al rnd clk ts st local_index =
     (let (ck, h) = hs_initial;
          h = hs_mix_hash h (hs_peer_static_pub st);
          (e_priv, e_pub) = curve25519_keypair x25519 rnd;
          ck = hs_mix_chain ck e_pub;
          h = hs_mix_hash h e_pub
      in case curve25519_dh x25519 e_priv (hs_peer_static_pub st) of
           None \<Rightarrow> (None, st\<lparr>hs_chain_key := ck, hs_hash := h, hs_ephemeral_priv := e_priv, hs_ephemeral_pub := e_pub\<rparr>, ts)
         | Some dh_e_s \<Rightarrow>
             let (ck, key) = hs_mix_key ck dh_e_s;
                 encrypted_static = chacha20poly1305_encrypt al (hs_local_static_pub st) h key zero_nonce;
                 h = hs_mix_hash h encrypted_static;
                 (ck, key) = hs_mix_key ck (hs_static_static_dh st);
                 (timestamp, ts) = (case clk of (wall, us, wr) \<Rightarrow> wg_tai64n_now wall us wr (fst ts) (snd ts));
                 encrypted_timestamp = chacha20poly1305_encrypt al timestamp h key zero_nonce;
                 h = hs_mix_hash h encrypted_timestamp;
                 msg = \<lparr>mi_message_type = WG_MSG_INITIATION, mi_reserved = [0, 0, 0], mi_sender_index = local_index,
                        mi_ephemeral = e_pub, mi_encrypted_static = encrypted_static,
                        mi_encrypted_timestamp = encrypted_timestamp, mi_mac1 = replicate 16 0, mi_mac2 = replicate 16 0\<rparr>;
                 msg = msg\<lparr>mi_mac1 := hs_mac16 (hs_mac1_key st) (initiation_macd msg)\<rparr>
             in (Some msg, st\<lparr>hs_chain_key := ck, hs_hash := h, hs_ephemeral_priv := e_priv, hs_ephemeral_pub := e_pub,
                              hs_local_index := local_index, hs_armed := True\<rparr>, ts))"

text \<open>The keys and the responder's index; the state is only read.\<close>

definition wg_handshake_process_response ::
    "(bytes \<Rightarrow> bytes \<Rightarrow> bytes) \<Rightarrow> bool \<Rightarrow> wg_handshake_state \<Rightarrow> wg_msg_response \<Rightarrow> (bytes \<times> bytes \<times> u32) option" where
  "wg_handshake_process_response x25519 al st msg =
     (if \<not> hs_armed st then None
      else if mr_message_type msg \<noteq> WG_MSG_RESPONSE then None
      else if (mr_reserved msg ! 0 OR mr_reserved msg ! 1 OR mr_reserved msg ! 2) \<noteq> 0 then None
      else if mr_receiver_index msg \<noteq> hs_local_index st then None
      else if fold (\<lambda>i diff. diff OR (hs_mac16 (hs_mac1_key_self st) (response_macd msg) ! i XOR mr_mac1 msg ! i)) [0..<16] 0 \<noteq> 0
      then None
      else let ck = hs_mix_chain (hs_chain_key st) (mr_ephemeral msg);
               h = hs_mix_hash (hs_hash st) (mr_ephemeral msg)
           in case curve25519_dh x25519 (hs_ephemeral_priv st) (mr_ephemeral msg) of
                None \<Rightarrow> None
              | Some dh_e_e \<Rightarrow>
                  let ck = hs_mix_chain ck dh_e_e
                  in case curve25519_dh x25519 (hs_local_static_priv st) (mr_ephemeral msg) of
                       None \<Rightarrow> None
                     | Some dh_e_s \<Rightarrow>
                         let ck = hs_mix_chain ck dh_e_s
                         in case noise_hkdf3 ck (hs_preshared_key st) of
                              None \<Rightarrow> None
                            | Some (ck, tau, key) \<Rightarrow>
                                let h = hs_mix_hash h tau
                                in case chacha20poly1305_decrypt al (mr_encrypted_nothing msg) h key zero_nonce of
                                     None \<Rightarrow> None
                                   | Some _ \<Rightarrow>
                                       (case noise_hkdf2 ck [] of
                                          None \<Rightarrow> None
                                        | Some (send_key, recv_key) \<Rightarrow> Some (send_key, recv_key, mr_sender_index msg)))"

section \<open>The key schedule never fails\<close>

definition HASH :: "bytes \<Rightarrow> bytes" where "HASH x = blake2s_rfc 32 x []"
definition MAC16 :: "bytes \<Rightarrow> bytes \<Rightarrow> bytes" where "MAC16 key x = blake2s_rfc 16 x key"
definition KDF :: "bytes \<Rightarrow> bytes \<Rightarrow> nat \<Rightarrow> bytes" where "KDF ck x i = rfc5869_T (hmac_rfc ck x) [] i"

lemma noise_hkdf_eq:
  "noise_hkdf1 ck x = Some (KDF ck x 1)" "noise_hkdf2 ck x = Some (KDF ck x 1, KDF ck x 2)"
  "noise_hkdf3 ck x = Some (KDF ck x 1, KDF ck x 2, KDF ck x 3)"
  by (simp_all add: noise_hkdf1_def noise_hkdf2_def noise_hkdf3_def hmac_blake2s_eq KDF_def numeral_2_eq_2 numeral_3_eq_3)

lemma hs_mix_simps:
  "hs_mix_hash h data = HASH (h @ data)" "hs_mix_chain ck x = KDF ck x 1" "hs_mix_key ck x = (KDF ck x 1, KDF ck x 2)"
  "hs_mac1_key_of pub = HASH (WG_LABEL_MAC1 @ pub)"
  by (simp_all add: hs_mix_hash_def hs_mix_chain_def hs_mix_key_def hs_mac1_key_of_def wg_mix_hash_def wg_mix_chain_only_def
      wg_mix_key_def wg_mac1_key_def noise_hkdf_eq blake2s_stream_eq HASH_def)

lemma hs_mac16_eq: "length key \<le> 32 \<Longrightarrow> hs_mac16 key data = MAC16 key data"
  by (simp add: hs_mac16_def wg_keyed_mac16_def blake2s_stream_eq MAC16_def)

lemma hs_initial_eq: "hs_initial = (HASH WG_CONSTRUCTION, HASH (HASH WG_CONSTRUCTION @ WG_IDENTIFIER))"
  by (simp add: hs_initial_def compute_initial_constants_def blake2s_stream_eq HASH_def)

lemma length_HASH [simp]: "length (HASH x) = 32"
  by (simp add: HASH_def length_blake2s_rfc)

lemma length_MAC16 [simp]: "length (MAC16 k x) = 16"
  by (simp add: MAC16_def length_blake2s_rfc)

section \<open>The protocol, as the WireGuard paper states it\<close>

text \<open>The transcript of the first message: chain key and hash after it, and its two ciphertexts.\<close>

definition ik_msg1 :: "bytes \<Rightarrow> bytes \<Rightarrow> bytes \<Rightarrow> bytes \<Rightarrow> bytes \<Rightarrow> bytes \<Rightarrow> bytes \<times> bytes \<times> bytes \<times> bytes" where
  "ik_msg1 r_pub e_pub dh_es i_pub dh_ss timestamp =
     (let ck = KDF (HASH WG_CONSTRUCTION) e_pub 1;
          h = HASH (HASH (HASH (HASH WG_CONSTRUCTION @ WG_IDENTIFIER) @ r_pub) @ e_pub);
          c1 = chacha20poly1305_encrypt True i_pub h (KDF ck dh_es 2) zero_nonce;
          h = HASH (h @ c1);
          ck = KDF ck dh_es 1;
          c2 = chacha20poly1305_encrypt True timestamp h (KDF ck dh_ss 2) zero_nonce
      in (KDF ck dh_ss 1, HASH (h @ c2), c1, c2))"

text \<open>The second message: its tag and the two transport keys.\<close>

definition ik_msg2 :: "bytes \<Rightarrow> bytes \<Rightarrow> bytes \<Rightarrow> bytes \<Rightarrow> bytes \<Rightarrow> bytes \<Rightarrow> bytes \<times> bytes \<times> bytes" where
  "ik_msg2 ck h e_pub dh_ee dh_se psk =
     (let ck = KDF (KDF (KDF ck e_pub 1) dh_ee 1) dh_se 1;
          h = HASH (HASH (h @ e_pub) @ KDF ck psk 2);
          tag = chacha20poly1305_encrypt True [] h (KDF ck psk 3) zero_nonce;
          ck = KDF ck psk 1
      in (tag, KDF ck [] 1, KDF ck [] 2))"

text \<open>The responder: it checks \<open>mac1\<close>, decrypts the initiator's static key and timestamp and
  answers.  It returns the initiator's key, the timestamp, the response, and the keys it
  receives and sends with.\<close>

definition responder :: "(bytes \<Rightarrow> bytes \<Rightarrow> bytes) \<Rightarrow> bytes \<Rightarrow> bytes \<Rightarrow> bytes \<Rightarrow> bytes \<Rightarrow> bytes \<Rightarrow> u32 \<Rightarrow> wg_msg_initiation
    \<Rightarrow> (bytes \<times> bytes \<times> wg_msg_response \<times> bytes \<times> bytes) option" where
  "responder x25519 r_priv r_pub psk e_priv e_pub r_index m =
     (if mi_message_type m \<noteq> 1 \<or> mi_mac1 m \<noteq> MAC16 (HASH (WG_LABEL_MAC1 @ r_pub)) (initiation_macd m) then None
      else let ck = KDF (HASH WG_CONSTRUCTION) (mi_ephemeral m) 1;
               h = HASH (HASH (HASH (HASH WG_CONSTRUCTION @ WG_IDENTIFIER) @ r_pub) @ mi_ephemeral m);
               dh_es = x25519 r_priv (mi_ephemeral m)
           in case chacha20poly1305_decrypt True (mi_encrypted_static m) h (KDF ck dh_es 2) zero_nonce of
                None \<Rightarrow> None
              | Some i_pub \<Rightarrow>
                  let h = HASH (h @ mi_encrypted_static m);
                      ck = KDF ck dh_es 1;
                      dh_ss = x25519 r_priv i_pub
                  in case chacha20poly1305_decrypt True (mi_encrypted_timestamp m) h (KDF ck dh_ss 2) zero_nonce of
                       None \<Rightarrow> None
                     | Some timestamp \<Rightarrow>
                         let (tag, t_send, t_recv) = ik_msg2 (KDF ck dh_ss 1) (HASH (h @ mi_encrypted_timestamp m)) e_pub
                               (x25519 e_priv (mi_ephemeral m)) (x25519 e_priv i_pub) psk;
                             r = \<lparr>mr_message_type = 2, mr_reserved = [0, 0, 0], mr_sender_index = r_index,
                                  mr_receiver_index = mi_sender_index m, mr_ephemeral = e_pub, mr_encrypted_nothing = tag,
                                  mr_mac1 = replicate 16 0, mr_mac2 = replicate 16 0\<rparr>;
                             r = r\<lparr>mr_mac1 := MAC16 (HASH (WG_LABEL_MAC1 @ i_pub)) (response_macd r)\<rparr>
                         in Some (i_pub, timestamp, r, t_send, t_recv))"

lemma responder_reads:
  assumes "ik_msg1 r_pub (mi_ephemeral m) (x25519 r_priv (mi_ephemeral m)) i_pub (x25519 r_priv i_pub) t
      = (ck, h, mi_encrypted_static m, mi_encrypted_timestamp m)"
    "mi_message_type m = 1" "mi_mac1 m = MAC16 (HASH (WG_LABEL_MAC1 @ r_pub)) (initiation_macd m)"
    "ik_msg2 ck h e_pub (x25519 e_priv (mi_ephemeral m)) (x25519 e_priv i_pub) psk = (tag, t_send, t_recv)"
    "r = \<lparr>mr_message_type = 2, mr_reserved = [0, 0, 0], mr_sender_index = r_index,
          mr_receiver_index = mi_sender_index m, mr_ephemeral = e_pub, mr_encrypted_nothing = tag,
          mr_mac1 = replicate 16 0, mr_mac2 = replicate 16 0\<rparr>"
  shows "responder x25519 r_priv r_pub psk e_priv e_pub r_index m =
    Some (i_pub, t, r\<lparr>mr_mac1 := MAC16 (HASH (WG_LABEL_MAC1 @ i_pub)) (response_macd r)\<rparr>, t_send, t_recv)"
proof -
  define ck1 where "ck1 = KDF (HASH WG_CONSTRUCTION) (mi_ephemeral m) 1"
  define h1 where "h1 = HASH (HASH (HASH (HASH WG_CONSTRUCTION @ WG_IDENTIFIER) @ r_pub) @ mi_ephemeral m)"
  define es where "es = x25519 r_priv (mi_ephemeral m)"
  define ss where "ss = x25519 r_priv i_pub"
  have c1: "mi_encrypted_static m = chacha20poly1305_encrypt True i_pub h1 (KDF ck1 es 2) zero_nonce"
    and c2: "mi_encrypted_timestamp m = chacha20poly1305_encrypt True t (HASH (h1 @ mi_encrypted_static m)) (KDF (KDF ck1 es 1) ss 2) zero_nonce"
    and ckh: "ck = KDF (KDF ck1 es 1) ss 1" "h = HASH (HASH (h1 @ mi_encrypted_static m) @ mi_encrypted_timestamp m)"
    using assms(1) by (auto simp: ik_msg1_def Let_def ck1_def h1_def es_def ss_def)
  have d1: "chacha20poly1305_decrypt True (mi_encrypted_static m) h1 (KDF ck1 es 2) zero_nonce = Some i_pub"
    by (simp add: decrypt_iff c1)
  have d2: "chacha20poly1305_decrypt True (mi_encrypted_timestamp m) (HASH (h1 @ mi_encrypted_static m)) (KDF (KDF ck1 es 1) ss 2) zero_nonce = Some t"
    by (simp only: decrypt_iff c2)
  show ?thesis
    unfolding responder_def Let_def ck1_def [symmetric] h1_def [symmetric] es_def [symmetric] d1 option.case
      ss_def [symmetric] d2 ckh [symmetric] assms(4)
    using assms(2,3,5) by simp
qed

text \<open>What \<open>wg_handshake_create_initiation\<close> writes.\<close>

lemma create_initiation_spec:
  assumes "curve25519_keypair x25519 rnd = (e_priv, e_pub)" "curve25519_dh x25519 e_priv (hs_peer_static_pub st) = Some dh"
    "wg_tai64n_now wall us wr (fst ts) (snd ts) = (t, ts')" "length (hs_mac1_key st) \<le> 32"
    "ik_msg1 (hs_peer_static_pub st) e_pub dh (hs_local_static_pub st) (hs_static_static_dh st) t = (ck, h, c1, c2)"
    "m0 = \<lparr>mi_message_type = 1, mi_reserved = [0, 0, 0], mi_sender_index = idx, mi_ephemeral = e_pub, mi_encrypted_static = c1,
       mi_encrypted_timestamp = c2, mi_mac1 = replicate 16 0, mi_mac2 = replicate 16 0\<rparr>"
  shows "wg_handshake_create_initiation x25519 al rnd (wall, us, wr) ts st idx =
    (Some (m0\<lparr>mi_mac1 := MAC16 (hs_mac1_key st) (initiation_macd m0)\<rparr>),
     st\<lparr>hs_chain_key := ck, hs_hash := h, hs_ephemeral_priv := e_priv, hs_ephemeral_pub := e_pub,
        hs_local_index := idx, hs_armed := True\<rparr>, ts')"
proof -
  define ck1 where "ck1 = KDF (HASH WG_CONSTRUCTION) e_pub 1"
  define h1 where "h1 = HASH (HASH (HASH (HASH WG_CONSTRUCTION @ WG_IDENTIFIER) @ hs_peer_static_pub st) @ e_pub)"
  have c1: "chacha20poly1305_encrypt True (hs_local_static_pub st) h1 (KDF ck1 dh 2) zero_nonce = c1"
    and c2: "chacha20poly1305_encrypt True t (HASH (h1 @ c1)) (KDF (KDF ck1 dh 1) (hs_static_static_dh st) 2) zero_nonce = c2"
    and ckh: "KDF (KDF ck1 dh 1) (hs_static_static_dh st) 1 = ck" "HASH (HASH (h1 @ c1) @ c2) = h"
    using assms(5) by (auto simp: ik_msg1_def Let_def ck1_def h1_def)
  show ?thesis
    unfolding wg_handshake_create_initiation_def hs_initial_eq hs_mix_simps assms(1) prod.case Let_def
      ck1_def [symmetric] h1_def [symmetric] assms(2) option.case aligned_irrelevant(1) [of al] c1 assms(3) c2 ckh
      WG_MSG_INITIATION_def assms(6) [symmetric] hs_mac16_eq [OF assms(4)] ..
qed

text \<open>When \<open>wg_handshake_process_response\<close> accepts.\<close>

definition response_ok :: "wg_msg_response \<Rightarrow> bool" where
  "response_ok m \<longleftrightarrow> length (mr_reserved m) = 3 \<and> length (mr_ephemeral m) = 32 \<and> length (mr_encrypted_nothing m) = 16 \<and>
     length (mr_mac1 m) = 16 \<and> length (mr_mac2 m) = 16"

lemma decrypt_empty:
  assumes "length c = 16"
  shows "chacha20poly1305_decrypt al c aad key nonce = (if c = chacha20poly1305_encrypt True [] aad key nonce then Some [] else None)"
proof (cases "chacha20poly1305_decrypt al c aad key nonce")
  case None
  then show ?thesis using decrypt_iff [of al c aad key nonce "[]"] by auto
next
  case (Some p)
  then have c: "c = chacha20poly1305_encrypt True p aad key nonce" using decrypt_iff by blast
  then have "p = []" using assms length_encrypt [of True p aad key nonce] by simp
  then show ?thesis using Some c by simp
qed

lemma process_response_iff:
  assumes "length (hs_mac1_key_self st) \<le> 32" "response_ok m"
  shows "wg_handshake_process_response x25519 al st m = Some (sk, rk, idx) \<longleftrightarrow>
    hs_armed st \<and> mr_message_type m = 2 \<and> mr_reserved m = [0, 0, 0] \<and>
    mr_receiver_index m = hs_local_index st \<and> mr_mac1 m = MAC16 (hs_mac1_key_self st) (response_macd m) \<and> mr_sender_index m = idx \<and>
    (\<exists>ee se. curve25519_dh x25519 (hs_ephemeral_priv st) (mr_ephemeral m) = Some ee \<and>
       curve25519_dh x25519 (hs_local_static_priv st) (mr_ephemeral m) = Some se \<and>
       ik_msg2 (hs_chain_key st) (hs_hash st) (mr_ephemeral m) ee se (hs_preshared_key st) = (mr_encrypted_nothing m, sk, rk))"
proof -
  have len: "length (mr_mac1 m) = 16" "length (mr_encrypted_nothing m) = 16" "length (mr_reserved m) = 3"
    using assms(2) by (simp_all add: response_ok_def)
  have mac: "fold (\<lambda>i diff. diff OR (MAC16 k d ! i XOR mr_mac1 m ! i)) [0..<16] 0 = 0 \<longleftrightarrow> mr_mac1 m = MAC16 k d" for k d
    using nacl_ct_memeq_eq [of "MAC16 k d" 16 "mr_mac1 m"] len unfolding nacl_ct_memeq_def by auto
  have res: "mr_reserved m ! 0 OR mr_reserved m ! 1 OR mr_reserved m ! 2 = 0 \<longleftrightarrow> mr_reserved m = [0, 0, 0]"
    using len(3) by (auto simp: or_eq_0_iff list_eq_iff_nth_eq less_Suc_eq numeral_3_eq_3 numeral_2_eq_2)
  show ?thesis
    unfolding wg_handshake_process_response_def hs_mix_simps hs_mac16_eq [OF assms(1)] mac res WG_MSG_RESPONSE_def
      noise_hkdf_eq option.case prod.case Let_def decrypt_empty [OF len(2)]
    by (auto simp: ik_msg2_def Let_def split: option.splits if_splits)
qed

section \<open>Handshake states\<close>

text \<open>What X25519 promises for 32-byte strings (RFC 7748): its outputs have 32 bytes, the two
  parties of an exchange agree, and no product with an honest public key is of low order.\<close>

definition x25519_laws :: "(bytes \<Rightarrow> bytes \<Rightarrow> bytes) \<Rightarrow> bool" where
  "x25519_laws x25519 \<longleftrightarrow>
     (\<forall>a b. length a = 32 \<and> length b = 32 \<longrightarrow> length (x25519 a b) = 32 \<and>
        x25519 a (curve25519_derive_pub x25519 b) = x25519 b (curve25519_derive_pub x25519 a) \<and>
        x25519 a (curve25519_derive_pub x25519 b) \<noteq> replicate 32 0)"

lemma x25519_lawsD:
  assumes "x25519_laws x25519" "length a = 32" "length b = 32"
  shows "length (curve25519_derive_pub x25519 b) = 32"
    "x25519 a (curve25519_derive_pub x25519 b) = x25519 b (curve25519_derive_pub x25519 a)"
    "curve25519_dh x25519 a (curve25519_derive_pub x25519 b) = Some (x25519 a (curve25519_derive_pub x25519 b))"
proof -
  let ?p = "curve25519_derive_pub x25519 b"
  show p: "length ?p = 32" using assms by (simp add: x25519_laws_def curve25519_derive_pub_def)
  show "x25519 a ?p = x25519 b (curve25519_derive_pub x25519 a)" using assms by (simp add: x25519_laws_def)
  have "length (x25519 a ?p) = 32" "x25519 a ?p \<noteq> replicate 32 0" using assms p by (simp_all add: x25519_laws_def)
  then have "curve25519_dh x25519 a ?p \<noteq> None" using dh_zero [of x25519 a ?p] by simp
  then show "curve25519_dh x25519 a ?p = Some (x25519 a ?p)"
    by (auto simp: curve25519_dh_def curve25519_scalarmult_def Let_def split: if_splits)
qed

text \<open>The states the code can be in, and their invariant: a valid identity comes with its
  derivations.\<close>

definition psk_bytes :: "bytes option \<Rightarrow> bytes" where
  "psk_bytes psk = (case psk of Some k \<Rightarrow> k | None \<Rightarrow> replicate 32 0)"

inductive hs_reach :: "(bytes \<Rightarrow> bytes \<Rightarrow> bytes) \<Rightarrow> wg_handshake_state \<Rightarrow> bool" for x25519 where
  reach_scrub: "hs_reach x25519 wg_handshake_scrub"
| reach_init: "hs_reach x25519 st \<Longrightarrow> length a = 32 \<Longrightarrow> length b = 32 \<Longrightarrow> length c = 32 \<Longrightarrow> length (psk_bytes psk) = 32 \<Longrightarrow>
    wg_handshake_init x25519 st a b c psk = (ok, st') \<Longrightarrow> hs_reach x25519 st'"
| reach_create: "hs_reach x25519 st \<Longrightarrow> wg_handshake_create_initiation x25519 al rnd clk ts st idx = (r, st', ts') \<Longrightarrow> hs_reach x25519 st'"
| reach_live: "hs_reach x25519 st \<Longrightarrow> hs_reach x25519 (wg_handshake_scrub_live st)"

definition hs_inv :: "(bytes \<Rightarrow> bytes \<Rightarrow> bytes) \<Rightarrow> wg_handshake_state \<Rightarrow> bool" where
  "hs_inv x25519 st \<longleftrightarrow>
     length (hs_local_static_priv st) = 32 \<and> length (hs_local_static_pub st) = 32 \<and> length (hs_peer_static_pub st) = 32 \<and>
     length (hs_preshared_key st) = 32 \<and> length (hs_mac1_key st) = 32 \<and> length (hs_mac1_key_self st) = 32 \<and>
     (hs_identity_valid st \<longrightarrow> hs_mac1_key st = HASH (WG_LABEL_MAC1 @ hs_peer_static_pub st) \<and>
        hs_mac1_key_self st = HASH (WG_LABEL_MAC1 @ hs_local_static_pub st) \<and>
        curve25519_dh x25519 (hs_local_static_priv st) (hs_peer_static_pub st) = Some (hs_static_static_dh st))"

lemma diff_bytes_eq: "length a = n \<Longrightarrow> length b = n \<Longrightarrow> diff_bytes a b n = 0 \<longleftrightarrow> a = b"
  using nacl_ct_memeq_eq [of a n b] by (simp add: diff_bytes_def nacl_ct_memeq_def)

lemma identity_cached_iff:
  assumes "hs_inv x25519 st" "length a = 32" "length b = 32" "length c = 32" "length (psk_bytes psk) = 32"
  shows "identity_cached st a b c psk \<longleftrightarrow> hs_identity_valid st \<and> hs_local_static_priv st = a \<and> hs_local_static_pub st = b \<and>
     hs_peer_static_pub st = c \<and> hs_preshared_key st = psk_bytes psk"
  using assms
  by (simp add: identity_cached_def Let_def or_eq_0_iff diff_bytes_eq hs_inv_def psk_bytes_def [symmetric] conj_assoc)

text \<open>The state after an initialisation from scratch.\<close>

definition hs_fresh :: "bytes \<Rightarrow> bytes \<Rightarrow> bytes \<Rightarrow> bytes \<Rightarrow> bytes \<Rightarrow> wg_handshake_state" where
  "hs_fresh a b c psk dh = wg_handshake_scrub\<lparr>hs_local_static_priv := a, hs_local_static_pub := b, hs_peer_static_pub := c,
     hs_preshared_key := psk, hs_mac1_key := HASH (WG_LABEL_MAC1 @ c), hs_mac1_key_self := HASH (WG_LABEL_MAC1 @ b),
     hs_static_static_dh := dh, hs_identity_valid := True\<rparr>"

lemma init_eq:
  assumes "hs_inv x25519 st" "length a = 32" "length b = 32" "length c = 32" "length (psk_bytes psk) = 32"
  shows "wg_handshake_init x25519 st a b c psk =
    (case curve25519_dh x25519 a c of None \<Rightarrow> (False, wg_handshake_scrub) | Some dh \<Rightarrow> (True, hs_fresh a b c (psk_bytes psk) dh))"
proof (cases "identity_cached st a b c psk")
  case True
  then have id: "hs_identity_valid st" "hs_local_static_priv st = a" "hs_local_static_pub st = b" "hs_peer_static_pub st = c"
    "hs_preshared_key st = psk_bytes psk" using identity_cached_iff [OF assms] by simp_all
  then have "curve25519_dh x25519 a c = Some (hs_static_static_dh st)" "hs_mac1_key st = HASH (WG_LABEL_MAC1 @ c)"
    "hs_mac1_key_self st = HASH (WG_LABEL_MAC1 @ b)" using assms(1) by (simp_all add: hs_inv_def)
  then show ?thesis using True id
    by (simp add: wg_handshake_init_def wg_handshake_scrub_live_def hs_fresh_def wg_handshake_scrub_def)
next
  case False
  have "length (psk_bytes psk) = 32 \<Longrightarrow> take 32 (psk_bytes psk) = psk_bytes psk" by simp
  then show ?thesis using False assms(2-5)
    by (cases psk) (simp_all add: wg_handshake_init_def hs_mix_simps psk_bytes_def hs_fresh_def wg_handshake_scrub_def
        Let_def split: option.split)
qed

lemma inv_scrub: "hs_inv x25519 wg_handshake_scrub"
  by (simp add: hs_inv_def wg_handshake_scrub_def)

lemma inv_live: "hs_inv x25519 (st\<lparr>hs_chain_key := ck, hs_hash := h, hs_ephemeral_priv := e, hs_ephemeral_pub := p\<rparr>) = hs_inv x25519 st"
  "hs_inv x25519 (st\<lparr>hs_chain_key := ck, hs_hash := h, hs_ephemeral_priv := e, hs_ephemeral_pub := p, hs_local_index := i, hs_armed := ar\<rparr>) = hs_inv x25519 st"
  by (simp_all add: hs_inv_def)

lemma create_inv:
  assumes "wg_handshake_create_initiation x25519 al rnd clk ts st idx = (r, st', ts')"
  shows "hs_inv x25519 st' = hs_inv x25519 st"
  using assms unfolding wg_handshake_create_initiation_def Let_def hs_initial_eq hs_mix_simps prod.case
  by (auto split: prod.splits option.splits simp: inv_live)

lemma reach_inv: "hs_reach x25519 st \<Longrightarrow> hs_inv x25519 st"
proof (induction rule: hs_reach.induct)
  case (reach_init st a b c psk ok st')
  show ?case
  proof (cases "curve25519_dh x25519 a c")
    case None
    then show ?thesis using reach_init init_eq [of x25519 st a b c psk] inv_scrub by simp
  next
    case (Some dh)
    then have "st' = hs_fresh a b c (psk_bytes psk) dh" using reach_init init_eq [of x25519 st a b c psk] by simp
    then show ?thesis using Some reach_init by (simp add: hs_inv_def hs_fresh_def wg_handshake_scrub_def)
  qed
next
  case (reach_create st al rnd clk ts idx r st' ts')
  then show ?case using create_inv [OF reach_create(2)] by simp
qed (simp_all add: inv_scrub wg_handshake_scrub_live_def inv_live(2))

section \<open>Properties\<close>

lemma length_keypair: "length rnd = 32 \<Longrightarrow> curve25519_keypair x25519 rnd = (e, p) \<Longrightarrow> length e = 32 \<and> p = curve25519_derive_pub x25519 e"
  by (auto simp: curve25519_keypair_def Let_def)

lemma initiation_built:
  assumes "x25519_laws x25519" "hs_reach x25519 st" "length i_priv = 32" "length r_priv = 32"
    "length rnd = 32" "length (psk_bytes psk) = 32"
    "wg_handshake_init x25519 st i_priv (curve25519_derive_pub x25519 i_priv) (curve25519_derive_pub x25519 r_priv) psk = (ok, st1)"
    "wg_handshake_create_initiation x25519 al rnd (wall, us, wr) ts st1 idx = (r, st2, ts2)"
    "D = curve25519_derive_pub x25519"
  obtains e m where "ok" "r = Some m" "length e = 32" "hs_ephemeral_priv st2 = e" "hs_armed st2" "hs_local_index st2 = idx"
    "hs_local_static_priv st2 = i_priv" "hs_mac1_key_self st2 = HASH (WG_LABEL_MAC1 @ D i_priv)" "hs_preshared_key st2 = psk_bytes psk"
    "mi_ephemeral m = D e" "mi_message_type m = 1" "mi_sender_index m = idx"
    "mi_mac1 m = MAC16 (HASH (WG_LABEL_MAC1 @ D r_priv)) (initiation_macd m)"
    "ik_msg1 (D r_priv) (D e) (x25519 e (D r_priv)) (D i_priv) (x25519 i_priv (D r_priv)) (fst (wg_tai64n_now wall us wr (fst ts) (snd ts)))
      = (hs_chain_key st2, hs_hash st2, mi_encrypted_static m, mi_encrypted_timestamp m)"
proof -
  obtain e p where kp: "curve25519_keypair x25519 rnd = (e, p)" by (cases "curve25519_keypair x25519 rnd")
  then have e: "length e = 32" "p = D e" using length_keypair [OF assms(5)] assms(9) by simp_all
  note law = x25519_lawsD [OF assms(1), folded assms(9)]
  have lp: "length (D i_priv) = 32" "length (D r_priv) = 32" using law(1) assms(3,4) by simp_all
  have st1: "ok" "st1 = hs_fresh i_priv (D i_priv) (D r_priv) (psk_bytes psk) (x25519 i_priv (D r_priv))"
    using assms(7) init_eq [OF reach_inv [OF assms(2)] assms(3) lp assms(6)] law(3) [OF assms(3,4)] by (simp_all add: assms(9))
  have sel: "hs_peer_static_pub st1 = D r_priv" "hs_local_static_pub st1 = D i_priv" "hs_local_static_priv st1 = i_priv"
    "hs_static_static_dh st1 = x25519 i_priv (D r_priv)" "hs_mac1_key st1 = HASH (WG_LABEL_MAC1 @ D r_priv)"
    "hs_mac1_key_self st1 = HASH (WG_LABEL_MAC1 @ D i_priv)" "hs_preshared_key st1 = psk_bytes psk"
    by (simp_all add: st1(2) hs_fresh_def)
  obtain t ts' where t: "wg_tai64n_now wall us wr (fst ts) (snd ts) = (t, ts')" by (cases "wg_tai64n_now wall us wr (fst ts) (snd ts)")
  obtain ck h c1 c2 where m1: "ik_msg1 (D r_priv) p (x25519 e (D r_priv)) (D i_priv) (x25519 i_priv (D r_priv)) t = (ck, h, c1, c2)"
    by (metis prod_cases4)
  define m0 where "m0 = \<lparr>mi_message_type = 1, mi_reserved = [0, 0, 0], mi_sender_index = idx, mi_ephemeral = p, mi_encrypted_static = c1,
       mi_encrypted_timestamp = c2, mi_mac1 = replicate 16 0, mi_mac2 = replicate 16 0\<rparr>"
  define m where "m = m0\<lparr>mi_mac1 := MAC16 (HASH (WG_LABEL_MAC1 @ D r_priv)) (initiation_macd m0)\<rparr>"
  have dh: "curve25519_dh x25519 e (hs_peer_static_pub st1) = Some (x25519 e (D r_priv))"
    unfolding sel by (rule law(3) [OF e(1) assms(4)])
  have mac32: "length (hs_mac1_key st1) \<le> 32" by (simp add: sel)
  have res: "r = Some m" "st2 = st1\<lparr>hs_chain_key := ck, hs_hash := h, hs_ephemeral_priv := e, hs_ephemeral_pub := p,
        hs_local_index := idx, hs_armed := True\<rparr>"
    using assms(8) create_initiation_spec [OF kp dh t mac32, of ck h c1 c2 m0 idx al] m1 by (simp_all add: sel m0_def m_def)
  have macd: "initiation_macd m = initiation_macd m0" by (simp add: initiation_macd_def m_def)
  have mac: "mi_mac1 m = MAC16 (HASH (WG_LABEL_MAC1 @ D r_priv)) (initiation_macd m)" unfolding macd by (simp add: m_def)
  show ?thesis
    using m1 t by (intro that [of m e] st1(1) res(1) e(1) mac) (simp_all add: res(2) sel m_def m0_def e(2) [symmetric])
qed

text \<open>C14: Both ends of a handshake derive the same keys.  From any reachable state, initialising
  with an identity and building an initiation succeeds; the responder of the WireGuard
  protocol accepts the message, reads from it our static key and the timestamp drawn for it,
  and its response is accepted by \<open>wg_handshake_process_response\<close>, which returns
  exactly the responder's receive key as send key, its send key as receive key, and its index.\<close>

theorem handshake_agreement:
  assumes "x25519_laws x25519" "hs_reach x25519 st" "length i_priv = 32" "length r_priv = 32" "length e_priv = 32"
    "length rnd = 32" "length (psk_bytes psk) = 32"
    "wg_handshake_init x25519 st i_priv (curve25519_derive_pub x25519 i_priv) (curve25519_derive_pub x25519 r_priv) psk = (ok, st1)"
    "wg_handshake_create_initiation x25519 al rnd (wall, us, wr) ts st1 idx = (r, st2, ts2)"
  shows "ok \<and> (\<exists>m resp t_send t_recv. r = Some m \<and>
    responder x25519 r_priv (curve25519_derive_pub x25519 r_priv) (psk_bytes psk) e_priv (curve25519_derive_pub x25519 e_priv) r_idx m
      = Some (curve25519_derive_pub x25519 i_priv, fst (wg_tai64n_now wall us wr (fst ts) (snd ts)), resp, t_send, t_recv) \<and>
    wg_handshake_process_response x25519 al' st2 resp = Some (t_send, t_recv, r_idx))"
proof -
  define D where "D = curve25519_derive_pub x25519"
  define t where "t = fst (wg_tai64n_now wall us wr (fst ts) (snd ts))"
  obtain e m where ok: "ok" "r = Some m" and e: "length e = 32" "hs_ephemeral_priv st2 = e"
    and st: "hs_armed st2" "hs_local_index st2 = idx" "hs_local_static_priv st2 = i_priv"
      "hs_mac1_key_self st2 = HASH (WG_LABEL_MAC1 @ D i_priv)" "hs_preshared_key st2 = psk_bytes psk"
    and m: "mi_ephemeral m = D e" "mi_message_type m = 1" "mi_sender_index m = idx"
      "mi_mac1 m = MAC16 (HASH (WG_LABEL_MAC1 @ D r_priv)) (initiation_macd m)"
    and m1: "ik_msg1 (D r_priv) (D e) (x25519 e (D r_priv)) (D i_priv) (x25519 i_priv (D r_priv)) t
      = (hs_chain_key st2, hs_hash st2, mi_encrypted_static m, mi_encrypted_timestamp m)"
    unfolding t_def by (rule initiation_built [OF assms(1-4,6-9) D_def])
  note law = x25519_lawsD [OF assms(1), folded D_def]
  have comm: "x25519 r_priv (D e) = x25519 e (D r_priv)" "x25519 r_priv (D i_priv) = x25519 i_priv (D r_priv)"
    "x25519 e_priv (D e) = x25519 e (D e_priv)" "x25519 e_priv (D i_priv) = x25519 i_priv (D e_priv)"
    using law(2) assms(3-5) e(1) by simp_all
  obtain tag ks kr where m2: "ik_msg2 (hs_chain_key st2) (hs_hash st2) (D e_priv) (x25519 e (D e_priv)) (x25519 i_priv (D e_priv)) (psk_bytes psk) = (tag, ks, kr)"
    by (metis prod_cases3)
  define r0 where "r0 = \<lparr>mr_message_type = 2, mr_reserved = [0, 0, 0], mr_sender_index = r_idx, mr_receiver_index = mi_sender_index m,
      mr_ephemeral = D e_priv, mr_encrypted_nothing = tag, mr_mac1 = replicate 16 0, mr_mac2 = replicate 16 0\<rparr>"
  define resp where "resp = r0\<lparr>mr_mac1 := MAC16 (HASH (WG_LABEL_MAC1 @ D i_priv)) (response_macd r0)\<rparr>"
  have rsp: "responder x25519 r_priv (D r_priv) (psk_bytes psk) e_priv (D e_priv) r_idx m = Some (D i_priv, t, resp, ks, kr)"
    unfolding resp_def using m1 m2 m by (intro responder_reads [OF _ _ _ _ r0_def]) (simp_all add: comm)
  have rmacd: "response_macd resp = response_macd r0" by (simp add: response_macd_def resp_def)
  have "length tag = 16" using m2 by (auto simp: ik_msg2_def Let_def length_encrypt)
  then have rok: "response_ok resp" using law(1) [OF assms(5,5)] by (simp add: response_ok_def resp_def r0_def)
  have self32: "length (hs_mac1_key_self st2) \<le> 32" by (simp add: st)
  have dh2: "curve25519_dh x25519 e (D e_priv) = Some (x25519 e (D e_priv))"
    "curve25519_dh x25519 i_priv (D e_priv) = Some (x25519 i_priv (D e_priv))"
    by (rule law(3) [OF e(1) assms(5)], rule law(3) [OF assms(3,5)])
  have rf: "mr_ephemeral resp = D e_priv" "mr_encrypted_nothing resp = tag" "mr_message_type resp = 2" "mr_reserved resp = [0, 0, 0]"
    "mr_receiver_index resp = idx" "mr_sender_index resp = r_idx" "mr_mac1 resp = MAC16 (HASH (WG_LABEL_MAC1 @ D i_priv)) (response_macd resp)"
    unfolding rmacd by (simp_all add: resp_def r0_def m)
  have "wg_handshake_process_response x25519 al' st2 resp = Some (ks, kr, r_idx)"
    unfolding process_response_iff [OF self32 rok] using rf dh2 m2 by (simp add: st e(2))
  then show ?thesis using ok rsp unfolding D_def t_def by blast
qed

text \<open>A stand-in for X25519 that satisfies its laws: bitwise OR of the two strings.\<close>

definition toy_x25519 :: "bytes \<Rightarrow> bytes \<Rightarrow> bytes" where
  "toy_x25519 a b = map2 (OR) a b"

lemma toy_laws: "x25519_laws toy_x25519"
proof -
  have "toy_x25519 a (curve25519_derive_pub toy_x25519 b) = toy_x25519 b (curve25519_derive_pub toy_x25519 a)"
    if "length a = 32" "length b = 32" for a b
    using that unfolding toy_x25519_def curve25519_derive_pub_def
    by (intro nth_equalityI) (simp_all add: or.left_commute)
  moreover have "toy_x25519 a (curve25519_derive_pub toy_x25519 b) ! 0 \<noteq> 0" if "length a = 32" "length b = 32" for a b
    using that by (simp add: toy_x25519_def curve25519_derive_pub_def or_eq_0_iff)
  moreover have "replicate 32 0 ! 0 = (0 :: u8)" by simp
  ultimately show ?thesis unfolding x25519_laws_def toy_x25519_def by (metis (no_types, lifting) length_map length_zip min.idem)
qed

theorem handshake_agreement_witness:
  "let k = replicate 32; D = curve25519_derive_pub toy_x25519;
       (ok, st1) = wg_handshake_init toy_x25519 wg_handshake_scrub (k 1) (D (k 1)) (D (k 2)) None;
       (r, st2, ts2) = wg_handshake_create_initiation toy_x25519 True (k 4) (1000, 1, Write_ok) (wg_tai64n_init 0 0 False, None) st1 7
   in ok \<and> (\<exists>m resp t_send t_recv tn. r = Some m \<and>
        responder toy_x25519 (k 2) (D (k 2)) (k 0) (k 8) (D (k 8)) 9 m = Some (D (k 1), tn, resp, t_send, t_recv) \<and>
        wg_handshake_process_response toy_x25519 True st2 resp = Some (t_send, t_recv, 9))"
proof -
  let ?D = "curve25519_derive_pub toy_x25519" and ?k = "replicate 32 :: u8 \<Rightarrow> bytes"
  obtain ok st1 where i: "wg_handshake_init toy_x25519 wg_handshake_scrub (?k 1) (?D (?k 1)) (?D (?k 2)) None = (ok, st1)" by (rule prod.exhaust)
  obtain r st2 ts2 where c: "wg_handshake_create_initiation toy_x25519 True (?k 4) (1000, 1, Write_ok) (wg_tai64n_init 0 0 False, None) st1 7 = (r, st2, ts2)"
    by (rule prod_cases3)
  have l: "length (?k 1) = 32" "length (?k 2) = 32" "length (?k 8) = 32" "length (?k 4) = 32" "length (psk_bytes None) = 32"
    by (simp_all add: psk_bytes_def)
  have p: "psk_bytes None = ?k 0" by (simp add: psk_bytes_def)
  from handshake_agreement [OF toy_laws reach_scrub l i c, of 9 True] show ?thesis
    unfolding Let_def i c prod.case p by blast
qed

text \<open>Caching a peer's derivations changes nothing: in every state the code can reach,
  \<open>wg_handshake_init\<close> returns exactly what it returns on a wiped state, so a retry or rekey that
  skips the static Diffie-Hellman builds byte-identical messages, and a new peer key, local key or
  preshared key is never served from the cache.\<close>

theorem handshake_cache_transparent:
  assumes "hs_reach x25519 st" "length a = 32" "length b = 32" "length c = 32" "length (psk_bytes psk) = 32"
  shows "wg_handshake_init x25519 st a b c psk = wg_handshake_init x25519 wg_handshake_scrub a b c psk"
  using init_eq [OF reach_inv [OF assms(1)] assms(2-5)] init_eq [OF inv_scrub assms(2-5), of x25519] by simp

theorem handshake_cache_transparent_witness:
  "let k = replicate 32; st = snd (wg_handshake_init toy_x25519 wg_handshake_scrub (k 1) (k 3) (k 2) None)
   in wg_handshake_init toy_x25519 st (k 1) (k 3) (k 2) (Some (k 5)) = wg_handshake_init toy_x25519 wg_handshake_scrub (k 1) (k 3) (k 2) (Some (k 5))"
proof -
  let ?k = "replicate 32 :: u8 \<Rightarrow> bytes"
  obtain ok st where i: "wg_handshake_init toy_x25519 wg_handshake_scrub (?k 1) (?k 3) (?k 2) None = (ok, st)" by (rule prod.exhaust)
  have "hs_reach toy_x25519 st" by (rule reach_init [OF reach_scrub _ _ _ _ i]) (simp_all add: psk_bytes_def)
  from handshake_cache_transparent [OF this, of "?k 1" "?k 3" "?k 2" "Some (?k 5)"] show ?thesis
    by (simp add: Let_def psk_bytes_def i)
qed

text \<open>C15: A response is accepted exactly when it authenticates: the state must be armed, the type,
  reserved bytes and receiver index must be right, \<open>mac1\<close> must be keyed with our public key, no
  product may be of low order, and the tag must be the one the second Noise message has for the
  transcript so far; the keys are then those of the protocol.  A state that was wiped or whose
  handshake was already answered accepts nothing.\<close>

theorem response_accepted_iff:
  assumes "hs_reach x25519 st" "response_ok m"
  shows "(wg_handshake_process_response x25519 al st m = Some (sk, rk, idx) \<longleftrightarrow>
    hs_armed st \<and> mr_message_type m = 2 \<and> mr_reserved m = [0, 0, 0] \<and>
    mr_receiver_index m = hs_local_index st \<and> mr_mac1 m = MAC16 (hs_mac1_key_self st) (response_macd m) \<and> mr_sender_index m = idx \<and>
    (\<exists>ee se. curve25519_dh x25519 (hs_ephemeral_priv st) (mr_ephemeral m) = Some ee \<and>
       curve25519_dh x25519 (hs_local_static_priv st) (mr_ephemeral m) = Some se \<and>
       ik_msg2 (hs_chain_key st) (hs_hash st) (mr_ephemeral m) ee se (hs_preshared_key st) = (mr_encrypted_nothing m, sk, rk))) \<and>
    wg_handshake_process_response x25519 al (wg_handshake_scrub_live st) m = None"
proof
  have "length (hs_mac1_key_self st) \<le> 32" using reach_inv [OF assms(1)] by (simp add: hs_inv_def)
  from process_response_iff [OF this assms(2)]
  show "wg_handshake_process_response x25519 al st m = Some (sk, rk, idx) \<longleftrightarrow>
    hs_armed st \<and> mr_message_type m = 2 \<and> mr_reserved m = [0, 0, 0] \<and>
    mr_receiver_index m = hs_local_index st \<and> mr_mac1 m = MAC16 (hs_mac1_key_self st) (response_macd m) \<and> mr_sender_index m = idx \<and>
    (\<exists>ee se. curve25519_dh x25519 (hs_ephemeral_priv st) (mr_ephemeral m) = Some ee \<and>
       curve25519_dh x25519 (hs_local_static_priv st) (mr_ephemeral m) = Some se \<and>
       ik_msg2 (hs_chain_key st) (hs_hash st) (mr_ephemeral m) ee se (hs_preshared_key st) = (mr_encrypted_nothing m, sk, rk))" .
qed (simp add: wg_handshake_process_response_def wg_handshake_scrub_live_def)

theorem response_accepted_iff_witness:
  "wg_handshake_process_response toy_x25519 True (wg_handshake_scrub_live wg_handshake_scrub)
     \<lparr>mr_message_type = 2, mr_reserved = [0, 0, 0], mr_sender_index = 1, mr_receiver_index = 0, mr_ephemeral = replicate 32 1,
      mr_encrypted_nothing = replicate 16 0, mr_mac1 = replicate 16 0, mr_mac2 = replicate 16 0\<rparr> = None"
  using response_accepted_iff [OF reach_scrub] by (simp add: response_ok_def)

end
