(* ===== verification/WG_Timers.thy ===== *)
theory WG_Timers
  imports TL_Prelude
begin

text \<open>
  \<open>wg_timers.h\<close>: the timer predicate of the receive task and the receive timeout computed from
  the earliest deadline.  Times in microseconds are integers (the code's \<open>int64_t\<close> values are
  uptimes, far from overflow, or \<open>INT64_MAX\<close>); the timeout is computed on the code's 64-bit words.
\<close>

section \<open>The code\<close>

definition wg_timer_due :: "i64 \<Rightarrow> i64 \<Rightarrow> i64 \<Rightarrow> bool" where
  "wg_timer_due now_us t_us period_us \<longleftrightarrow> now_us - t_us > period_us"

definition wg_timer_at :: "i64 \<Rightarrow> i64 \<Rightarrow> i64" where
  "wg_timer_at t_us period_us = t_us + period_us + 1"

definition wg_recv_timeout_ms :: "i64 \<Rightarrow> i64 \<Rightarrow> u32 \<Rightarrow> u32 \<Rightarrow> u32" where
  "wg_recv_timeout_ms now_us deadline_us cap_ms tick_ms =
     (let tick_ms = (if tick_ms = 0 then 1 else tick_ms);
          cap_ms = (if cap_ms < tick_ms then tick_ms else cap_ms)
      in if deadline_us \<le> now_us then tick_ms
         else let rem_us = word_of_int (deadline_us - now_us) :: u64;
                  tick_us = ucast tick_ms * 1000 :: u64
              in if rem_us \<ge> ucast cap_ms * 1000 then cap_ms
                 else let ms = ((rem_us + tick_us - 1) div tick_us + 1) * ucast tick_ms
                      in if ms > ucast cap_ms then cap_ms else ucast ms)"

section \<open>The timeout on numbers\<close>

lemma unat_ucast64 [simp]: "unat (ucast (w :: u32) :: u64) = unat w"
  using u32_bound [of w] by (simp add: unat_ucast_mod)

lemma unat_ms:
  fixes rem :: u64 and tick cap :: u32
  assumes "0 < unat tick" "unat rem < unat cap * 1000" "unat tick \<le> unat cap"
  shows "unat (((rem + ucast tick * 1000 - 1) div (ucast tick * 1000) + 1) * ucast tick :: u64) =
    ((unat rem + unat tick * 1000 - 1) div (unat tick * 1000) + 1) * unat tick"
proof -
  have c: "unat cap < 2 ^ 32" "unat tick < 2 ^ 32" by (rule u32_bound)+
  have t: "unat (ucast tick * 1000 :: u64) = unat tick * 1000" using c(2) by (simp add: unat_word_ariths)
  have "unat (rem + ucast tick * 1000 :: u64) = unat rem + unat tick * 1000"
    using c assms(2) by (simp only: unat_word_ariths t) simp
  then have s: "unat (rem + ucast tick * 1000 - 1 :: u64) = unat rem + unat tick * 1000 - 1"
    using assms(1) by (subst unat_sub) (simp_all add: word_le_nat_alt)
  define q where "q = (unat rem + unat tick * 1000 - 1) div (unat tick * 1000)"
  have "q * (unat tick * 1000) \<le> unat rem + unat tick * 1000 - 1" unfolding q_def by (rule div_times_less_eq_dividend)
  then have b: "q * unat tick * 1000 \<le> unat rem + unat tick * 1000" by (simp add: algebra_simps)
  have qb: "q * unat tick < 2 ^ 34" using b assms(2) c by simp
  have "q * 1 \<le> q * unat tick" using assms(1) by (intro mult_le_mono) simp_all
  then have "q < 2 ^ 34" using qb by linarith
  then have q: "q + 1 < 2 ^ 64" by simp
  have "unat ((rem + ucast tick * 1000 - 1) div (ucast tick * 1000) :: u64) = q"
    by (simp only: unat_div_distrib s t q_def)
  then have "unat ((rem + ucast tick * 1000 - 1) div (ucast tick * 1000) + 1 :: u64) = q + 1"
    using q by (simp add: unat_word_ariths(1))
  moreover have "(q + 1) * unat tick < 2 ^ 64" using qb c(2) by (simp add: algebra_simps)
  ultimately show ?thesis by (simp add: unat_word_ariths(2) q_def)
qed

lemma recv_timeout_unat:
  assumes "deadline - now < 2 ^ 63"
  shows "unat (wg_recv_timeout_ms now deadline cap tick) =
    (let t = max 1 (unat tick); c = max (unat cap) t; rem = nat (deadline - now)
     in if deadline \<le> now then t else if c * 1000 \<le> rem then c
        else min c (((rem + t * 1000 - 1) div (t * 1000) + 1) * t))"
proof -
  define tk :: u32 where "tk = (if tick = 0 then 1 else tick)"
  define cp :: u32 where "cp = (if cap < tk then tk else cap)"
  define rem :: u64 where "rem = word_of_int (deadline - now)"
  define ms :: u64 where "ms = ((rem + ucast tk * 1000 - 1) div (ucast tk * 1000) + 1) * ucast tk"
  have t: "unat tk = max 1 (unat tick)"
    using unat_gt_0 [of tick] by (simp add: tk_def max_def Suc_leI)
  have c: "unat cp = max (unat cap) (unat tk)" by (auto simp: cp_def word_less_nat_alt max_def)
  have r: "wg_recv_timeout_ms now deadline cap tick =
     (if deadline \<le> now then tk else if ucast cp * 1000 \<le> rem then cp else if ms > ucast cp then cp else ucast ms)"
    by (simp add: wg_recv_timeout_ms_def tk_def cp_def rem_def ms_def Let_def)
  have c32: "unat cp < 2 ^ 32" by (rule u32_bound)
  have c1000: "unat (ucast cp * 1000 :: u64) = unat cp * 1000" using c32 by (simp add: unat_word_ariths)
  have rem: "unat rem = nat (deadline - now)" if "now < deadline"
  proof -
    define d where "d = deadline - now"
    have "0 \<le> d" "d < 2 ^ 64" using assms that by (simp_all add: d_def)
    then have "unat (word_of_int d :: u64) = nat d" by (simp add: unsigned_of_int take_bit_int_eq_self)
    then show ?thesis by (simp only: rem_def d_def)
  qed
  show ?thesis
  proof (cases "now < deadline \<and> unat rem < unat cp * 1000")
    case True
    have ms: "unat ms = ((unat rem + unat tk * 1000 - 1) div (unat tk * 1000) + 1) * unat tk"
      unfolding ms_def using True t c by (intro unat_ms [where cap = cp]) simp_all
    have "unat (ucast ms :: u32) = unat ms" if "unat ms \<le> unat cp"
      using that c32 by (simp add: unat_ucast_mod)
    then have "unat (wg_recv_timeout_ms now deadline cap tick) = min (unat cp) (unat ms)"
      using True by (simp add: r word_le_nat_alt word_less_nat_alt c1000 min_def)
    moreover have "unat rem = nat (deadline - now)" using True rem by simp
    ultimately show ?thesis using True unfolding Let_def t [symmetric] c [symmetric] by (simp add: ms)
  next
    case False
    then show ?thesis unfolding Let_def t [symmetric] c [symmetric]
      by (auto simp: r word_le_nat_alt c1000 rem)
  qed
qed

lemma round_up:
  assumes "0 < (T :: nat)"
  shows "rem \<le> (rem + T - 1) div T * T" "(rem + T - 1) div T * T < rem + T"
proof -
  have "(rem + T - 1) div T * T + (rem + T - 1) mod T = rem + T - 1" by (rule div_mult_mod_eq)
  moreover have "(rem + T - 1) mod T < T" using assms by simp
  ultimately show "rem \<le> (rem + T - 1) div T * T" "(rem + T - 1) div T * T < rem + T" using assms by linarith+
qed

section \<open>Properties\<close>

text \<open>The receive task neither wakes early nor sleeps forever.  The timeout is positive and at
  most the cap; an overdue deadline gives one tick and a deadline beyond the cap the cap;
  otherwise, unless it is the cap, the timeout is a whole number of ticks whose wait, even when the
  first tick is only partial, ends at or after the deadline and less than a tick later than needed.
  It also agrees with the timer predicate: \<open>wg_timer_at\<close> is the first instant at which the
  timer is due.\<close>

theorem recv_timeout_sound:
  assumes "deadline - now < 2 ^ 63"
  shows "let r = unat (wg_recv_timeout_ms now deadline cap tick); t = max 1 (unat tick); c = max (unat cap) t;
             rem = nat (deadline - now)
         in 0 < r \<and> r \<le> c \<and>
            (if deadline \<le> now then r = t
             else if c * 1000 \<le> rem then r = c
             else r = c \<or> (t dvd r \<and> rem \<le> (r - t) * 1000 \<and> (r - t) * 1000 < rem + t * 1000)) \<and>
            (wg_timer_due x y p \<longleftrightarrow> wg_timer_at y p \<le> x)"
proof -
  define t where "t = max 1 (unat tick)"
  define c where "c = max (unat cap) t"
  define rem where "rem = nat (deadline - now)"
  define q where "q = (rem + t * 1000 - 1) div (t * 1000)"
  define r where "r = unat (wg_recv_timeout_ms now deadline cap tick)"
  have r: "r = (if deadline \<le> now then t else if c * 1000 \<le> rem then c else min c ((q + 1) * t))"
    using recv_timeout_unat [OF assms, of cap tick] by (simp only: r_def q_def rem_def t_def c_def Let_def)
  have t0: "0 < t" "t \<le> c" by (simp_all add: t_def c_def)
  have q: "rem \<le> q * t * 1000" "q * t * 1000 < rem + t * 1000"
    using round_up [of "t * 1000" rem] t0 by (simp_all add: q_def mult.assoc)
  have sub: "(q + 1) * t - t = q * t" by simp
  have near: "r = c \<or> (t dvd r \<and> rem \<le> (r - t) * 1000 \<and> (r - t) * 1000 < rem + t * 1000)" if "\<not> deadline \<le> now" "\<not> c * 1000 \<le> rem"
  proof (cases "(q + 1) * t \<le> c")
    case True
    then have "r = (q + 1) * t" using r that by simp
    then show ?thesis using q sub by simp
  qed (use r that in simp)
  have "0 < r \<and> r \<le> c" using t0 by (auto simp: r)
  then show ?thesis
    unfolding Let_def r_def [symmetric] t_def [symmetric] c_def [symmetric] rem_def [symmetric]
    using r near by (auto simp: wg_timer_due_def wg_timer_at_def)
qed

theorem recv_timeout_sound_witness:
  "unat (wg_recv_timeout_ms 0 12345 1000 10) \<in> {0<..1000} \<and> wg_recv_timeout_ms 0 12345 1000 10 = 30"
proof -
  have "wg_recv_timeout_ms 0 12345 1000 10 = 30" by (simp add: wg_recv_timeout_ms_def Let_def)
  moreover have "unat (wg_recv_timeout_ms 0 12345 1000 10) \<le> 1000"
    using recv_timeout_sound [of 12345 0 1000 10 0 0 0] by (simp add: Let_def)
  ultimately show ?thesis by simp
qed

end
