(* ===== verification/WG_Rescue.thy ===== *)
theory WG_Rescue
  imports WG_Timers
begin

text \<open>
  \<open>wg_rescue.h\<close>: the ring of copies of data frames that went direct only, re-sent through the
  relay when a lapse of the direct path is confirmed, and the summary another task uses to
  decide whether a new handshake would make pending frames undecryptable.  The callback
  \<open>send\<close> is a function on the caller's state \<open>user\<close>; a slot's buffer is its first \<open>len\<close> bytes.
\<close>

section \<open>The code\<close>

definition WG_RESCUE_SLOTS :: nat where "WG_RESCUE_SLOTS = 10"
definition WG_RESCUE_MAX :: nat where "WG_RESCUE_MAX = 224"
definition WG_RESCUE_TRANSIT_MS :: int where "WG_RESCUE_TRANSIT_MS = 5000"

lemmas rescue_consts [simp] = WG_RESCUE_SLOTS_def WG_RESCUE_MAX_def

record wg_rescue_t =
  at_us :: i64
  rs_gen :: u32
  owed :: bool
  rs_buf :: bytes

record wg_rescue_ring_t =
  slot :: "wg_rescue_t list"
  rs_head :: nat
  sent_gen :: "u32 \<times> u32"
  sent_us :: "i64 \<times> i64"

definition wg_rescue_keep :: "wg_rescue_ring_t \<Rightarrow> bytes \<Rightarrow> i64 \<Rightarrow> u32 \<Rightarrow> wg_rescue_ring_t" where
  "wg_rescue_keep r buf now g =
     (if length buf > WG_RESCUE_MAX then r
      else r\<lparr>slot := (slot r)[rs_head r := \<lparr>at_us = now, rs_gen = g, owed = False, rs_buf = buf\<rparr>],
             rs_head := (rs_head r + 1) mod WG_RESCUE_SLOTS\<rparr>)"

definition wg_rescue_pending :: "wg_rescue_t \<Rightarrow> i64 \<Rightarrow> i64 \<Rightarrow> i64 \<Rightarrow> bool" where
  "wg_rescue_pending s now from_us max_age_us \<longleftrightarrow>
     at_us s \<noteq> 0 \<and> (owed s \<or> at_us s \<ge> from_us) \<and> \<not> wg_timer_due now (at_us s) max_age_us"

text \<open>One iteration of the loop, at slot \<open>j\<close>; the state is the ring, \<open>sent\<close>, \<open>left\<close> and \<open>user\<close>.\<close>

definition wg_rescue_flush_slot :: "i64 \<Rightarrow> i64 \<Rightarrow> i64 \<Rightarrow> (bytes \<Rightarrow> 'u \<Rightarrow> bool \<times> 'u) \<Rightarrow> nat
    \<Rightarrow> wg_rescue_ring_t \<times> nat \<times> nat \<times> 'u \<Rightarrow> wg_rescue_ring_t \<times> nat \<times> nat \<times> 'u" where
  "wg_rescue_flush_slot now from_us max_age_us send j = (\<lambda>(r, sent, left, user).
     (let s = slot r ! j
      in if at_us s = 0 then (r, sent, left, user)
         else if \<not> wg_rescue_pending s now from_us max_age_us
         then (r\<lparr>slot := (slot r)[j := s\<lparr>at_us := 0\<rparr>]\<rparr>, sent, left, user)
         else let (took, user) = (if left = 0 then send (rs_buf s) user else (False, user))
              in if took
                 then (let r = r\<lparr>slot := (slot r)[j := s\<lparr>at_us := 0\<rparr>]\<rparr>;
                           r = (if rs_gen s \<noteq> fst (sent_gen r)
                                then r\<lparr>sent_gen := (rs_gen s, fst (sent_gen r)), sent_us := (fst (sent_us r), fst (sent_us r))\<rparr>
                                else r)
                       in (r\<lparr>sent_us := (now, snd (sent_us r))\<rparr>, sent + 1, left, user))
                 else (r\<lparr>slot := (slot r)[j := s\<lparr>owed := True\<rparr>]\<rparr>, sent, left + 1, user)))"

definition wg_rescue_flush :: "wg_rescue_ring_t \<Rightarrow> i64 \<Rightarrow> i64 \<Rightarrow> i64 \<Rightarrow> (bytes \<Rightarrow> 'u \<Rightarrow> bool \<times> 'u) \<Rightarrow> 'u
    \<Rightarrow> wg_rescue_ring_t \<times> nat \<times> nat \<times> 'u" where
  "wg_rescue_flush r now from_us max_age_us send user =
     fold (\<lambda>i. wg_rescue_flush_slot now from_us max_age_us send ((rs_head r + i) mod WG_RESCUE_SLOTS))
       [0..<WG_RESCUE_SLOTS] (r, 0, 0, user)"

definition wg_rescue_sent_by :: "wg_rescue_ring_t \<Rightarrow> i64 \<Rightarrow> i64 \<Rightarrow> wg_rescue_ring_t" where
  "wg_rescue_sent_by r flushed_at left_at =
     (let upd = (\<lambda>g t. if g \<noteq> 0 \<and> t = flushed_at then left_at else t)
      in r\<lparr>sent_us := (upd (fst (sent_gen r)) (fst (sent_us r)), upd (snd (sent_gen r)) (snd (sent_us r)))\<rparr>)"

text \<open>An entry of the summary: keypair, newest frame, newest owed frame.\<close>

record rescue_block =
  b_gen :: u32
  newest_us :: i64
  owed_us :: i64

record wg_rescue_sum_t =
  blk0 :: rescue_block
  blk1 :: rescue_block
  sum_sent_gen :: "u32 \<times> u32"
  sum_sent_us :: "i64 \<times> i64"

definition wg_rescue_sum_slot :: "wg_rescue_t \<Rightarrow> rescue_block \<times> rescue_block \<Rightarrow> rescue_block \<times> rescue_block" where
  "wg_rescue_sum_slot s = (\<lambda>(b0, b1).
     if at_us s = 0 then (b0, b1)
     else let (b0, b1) = (if rs_gen s \<noteq> b_gen b0 then (\<lparr>b_gen = rs_gen s, newest_us = 0, owed_us = 0\<rparr>, b0) else (b0, b1));
              b0 = b0\<lparr>newest_us := at_us s\<rparr>
          in (if owed s then b0\<lparr>owed_us := at_us s\<rparr> else b0, b1))"

definition wg_rescue_summarize :: "wg_rescue_ring_t \<Rightarrow> wg_rescue_sum_t" where
  "wg_rescue_summarize r =
     (let z = \<lparr>b_gen = 0, newest_us = 0, owed_us = 0\<rparr>;
          (b0, b1) = fold (\<lambda>i. wg_rescue_sum_slot (slot r ! ((rs_head r + i) mod WG_RESCUE_SLOTS))) [0..<WG_RESCUE_SLOTS] (z, z)
      in \<lparr>blk0 = b0, blk1 = b1, sum_sent_gen = sent_gen r, sum_sent_us = sent_us r\<rparr>)"

definition wg_rescue_gen_at_risk :: "u32 \<Rightarrow> u32 \<Rightarrow> bool \<Rightarrow> bool" where
  "wg_rescue_gen_at_risk g cur_gen confirmed \<longleftrightarrow> g \<noteq> 0 \<and> (g = cur_gen - 1 \<or> (\<not> confirmed \<and> g = cur_gen))"

definition block_risk :: "rescue_block \<Rightarrow> i64 \<Rightarrow> i64 \<Rightarrow> i64 \<Rightarrow> u32 \<Rightarrow> bool \<Rightarrow> bool" where
  "block_risk b now from_us max_age_us cur_gen confirmed =
     (if \<not> wg_rescue_gen_at_risk (b_gen b) cur_gen confirmed then False
      else let lst = (if owed_us b \<noteq> 0 \<and> newest_us b < from_us then owed_us b else newest_us b)
           in (owed_us b \<noteq> 0 \<or> newest_us b \<ge> from_us) \<and> \<not> wg_timer_due now lst max_age_us)"

definition wg_rescue_init_risk :: "wg_rescue_sum_t \<Rightarrow> i64 \<Rightarrow> i64 \<Rightarrow> i64 \<Rightarrow> u32 \<Rightarrow> bool \<Rightarrow> bool" where
  "wg_rescue_init_risk sm now from_us max_age_us cur_gen confirmed =
     (let transit = (\<lambda>g t. wg_rescue_gen_at_risk g cur_gen confirmed \<and> \<not> wg_timer_due now t (WG_RESCUE_TRANSIT_MS * 1000))
      in if transit (fst (sum_sent_gen sm)) (fst (sum_sent_us sm)) then True
         else if block_risk (blk0 sm) now from_us max_age_us cur_gen confirmed then True
         else if transit (snd (sum_sent_gen sm)) (snd (sum_sent_us sm)) then True
         else block_risk (blk1 sm) now from_us max_age_us cur_gen confirmed)"

section \<open>The ring as a queue\<close>

text \<open>The slots, oldest first.\<close>

definition ring_view :: "wg_rescue_ring_t \<Rightarrow> wg_rescue_t list" where
  "ring_view r = map (\<lambda>i. slot r ! ((rs_head r + i) mod 10)) [0..<10]"

definition ring_ok :: "wg_rescue_ring_t \<Rightarrow> bool" where
  "ring_ok r \<longleftrightarrow> length (slot r) = 10 \<and> rs_head r < 10"

definition occupied :: "wg_rescue_t list \<Rightarrow> wg_rescue_t list" where
  "occupied xs = filter (\<lambda>s. at_us s \<noteq> 0) xs"

lemma ring_view_rotate: "ring_ok r \<Longrightarrow> ring_view r = rotate (rs_head r) (slot r)"
  by (intro nth_equalityI) (simp_all add: ring_view_def ring_ok_def nth_rotate add.commute)

lemma length_ring_view [simp]: "length (ring_view r) = 10"
  by (simp add: ring_view_def)

lemma keep_ok: "ring_ok r \<Longrightarrow> ring_ok (wg_rescue_keep r buf now g)"
  by (simp add: ring_ok_def wg_rescue_keep_def)

lemma keep_view:
  assumes "ring_ok r" "length buf \<le> 224"
  shows "ring_view (wg_rescue_keep r buf now g) = tl (ring_view r) @ [\<lparr>at_us = now, rs_gen = g, owed = False, rs_buf = buf\<rparr>]"
proof (rule nth_equalityI)
  show "length (ring_view (wg_rescue_keep r buf now g)) = length (tl (ring_view r) @ [\<lparr>at_us = now, rs_gen = g, owed = False, rs_buf = buf\<rparr>])"
    by simp
  fix i assume "i < length (ring_view (wg_rescue_keep r buf now g))"
  then have i: "i < 10" by simp
  have h: "rs_head r < 10" "length (slot r) = 10" using assms(1) by (simp_all add: ring_ok_def)
  have m: "((rs_head r + 1) mod 10 + i) mod 10 = (rs_head r + Suc i) mod 10" by (simp add: mod_simps)
  show "ring_view (wg_rescue_keep r buf now g) ! i = (tl (ring_view r) @ [\<lparr>at_us = now, rs_gen = g, owed = False, rs_buf = buf\<rparr>]) ! i"
  proof (cases "i = 9")
    case True
    then have "(rs_head r + Suc i) mod 10 = rs_head r" using h by simp
    then show ?thesis using True h assms(2) m by (simp add: ring_view_def wg_rescue_keep_def nth_append)
  next
    case False
    then have "(rs_head r + Suc i) mod 10 \<noteq> rs_head r" using i h(1) mod_eq_close [of "rs_head r + Suc i" 10 "rs_head r"] by auto
    then show ?thesis using False i h assms(2) m by (simp add: ring_view_def wg_rescue_keep_def nth_append nth_tl)
  qed
qed

section \<open>Flushing\<close>

text \<open>What an iteration does to its slot and the counters, and the loop over a list of slots.\<close>

fun flush_one :: "i64 \<Rightarrow> i64 \<Rightarrow> i64 \<Rightarrow> (bytes \<Rightarrow> 'u \<Rightarrow> bool \<times> 'u) \<Rightarrow> wg_rescue_t \<Rightarrow> nat \<times> nat \<times> 'u \<Rightarrow> wg_rescue_t \<times> nat \<times> nat \<times> 'u" where
  "flush_one now from_us age send s (sent, left, user) =
     (if at_us s = 0 then (s, sent, left, user)
      else if \<not> wg_rescue_pending s now from_us age then (s\<lparr>at_us := 0\<rparr>, sent, left, user)
      else let (took, user) = (if left = 0 then send (rs_buf s) user else (False, user))
           in if took then (s\<lparr>at_us := 0\<rparr>, sent + 1, left, user) else (s\<lparr>owed := True\<rparr>, sent, left + 1, user))"

fun flush_list :: "i64 \<Rightarrow> i64 \<Rightarrow> i64 \<Rightarrow> (bytes \<Rightarrow> 'u \<Rightarrow> bool \<times> 'u) \<Rightarrow> wg_rescue_t list \<Rightarrow> nat \<times> nat \<times> 'u \<Rightarrow> wg_rescue_t list \<times> nat \<times> nat \<times> 'u" where
  "flush_list now from_us age send [] st = ([], st)"
| "flush_list now from_us age send (s # ss) st =
     (case flush_one now from_us age send s st of (s', st) \<Rightarrow>
        (case flush_list now from_us age send ss st of (ss', st) \<Rightarrow> (s' # ss', st)))"

lemma flush_list_snoc:
  "flush_list now from_us age send (xs @ [y]) st =
     (case flush_list now from_us age send xs st of (xs', st) \<Rightarrow>
        (case flush_one now from_us age send y st of (y', st) \<Rightarrow> (xs' @ [y'], st)))"
  by (induction xs arbitrary: st) (simp_all del: flush_one.simps split: prod.splits)

lemma flush_slot_one:
  assumes "j < length (slot r)" "flush_one now from_us age send (slot r ! j) st = (s', st')"
  obtains r' where "wg_rescue_flush_slot now from_us age send j (r, st) = (r', st')"
    "slot r' = (slot r)[j := s']" "rs_head r' = rs_head r"
proof -
  obtain a b c where st: "st = (a, b, c)" by (cases st)
  have "\<exists>r'. wg_rescue_flush_slot now from_us age send j (r, st) = (r', st') \<and> slot r' = (slot r)[j := s'] \<and> rs_head r' = rs_head r"
    using assms(2) by (auto simp: st wg_rescue_flush_slot_def Let_def split: prod.splits if_splits)
  then show ?thesis using that by blast
qed

declare flush_one.simps [simp del]

lemma flush_prefix:
  assumes "ring_ok r" "n \<le> 10"
  shows "case fold (\<lambda>i. wg_rescue_flush_slot now from_us age send ((rs_head r + i) mod 10)) [0..<n] (r, st) of
    (r', st') \<Rightarrow> ring_ok r' \<and> rs_head r' = rs_head r \<and>
      flush_list now from_us age send (take n (ring_view r)) st = (take n (ring_view r'), st') \<and> drop n (ring_view r') = drop n (ring_view r)"
  using assms(2)
proof (induction n)
  case 0
  then show ?case using assms(1) by simp
next
  case (Suc n)
  obtain r1 st1 where f: "fold (\<lambda>i. wg_rescue_flush_slot now from_us age send ((rs_head r + i) mod 10)) [0..<n] (r, st) = (r1, st1)"
    by (rule prod.exhaust)
  have IH: "ring_ok r1" "rs_head r1 = rs_head r" "flush_list now from_us age send (take n (ring_view r)) st = (take n (ring_view r1), st1)"
    "drop n (ring_view r1) = drop n (ring_view r)" using Suc f by simp_all
  let ?j = "(rs_head r + n) mod 10"
  have len: "length (slot r1) = 10" "rs_head r < 10" using IH(1) assms(1) by (simp_all add: ring_ok_def)
  have sj: "slot r1 ! ?j = ring_view r1 ! n" using Suc.prems IH(2) by (simp add: ring_view_def)
  have nth: "ring_view r1 ! n = ring_view r ! n"
    using IH(4) Suc.prems by (metis Cons_nth_drop_Suc Suc_le_eq length_ring_view list.inject)
  obtain y st2 where y: "flush_one now from_us age send (ring_view r ! n) st1 = (y, st2)" by (rule prod.exhaust)
  have jl: "?j < length (slot r1)" using len by simp
  have y1: "flush_one now from_us age send (slot r1 ! ?j) st1 = (y, st2)" using y sj nth by simp
  obtain r2 where r2: "wg_rescue_flush_slot now from_us age send ?j (r1, st1) = (r2, st2)" "slot r2 = (slot r1)[?j := y]" "rs_head r2 = rs_head r1"
    by (rule flush_slot_one [OF jl y1])
  have ok: "ring_ok r2" using IH(1) r2 by (simp add: ring_ok_def)
  have j: "(rs_head r + i) mod 10 = ?j \<longleftrightarrow> i = n" if "i < 10" for i
    using that Suc.prems mod_eq_close [of "rs_head r + i" 10 "rs_head r + n"] by auto
  have v: "ring_view r2 = (ring_view r1)[n := y]"
  proof (rule nth_equalityI)
    fix i assume "i < length (ring_view r2)"
    then have i: "i < 10" by simp
    then show "ring_view r2 ! i = (ring_view r1)[n := y] ! i"
      using j [OF i] len Suc.prems by (cases "i = n") (simp_all add: ring_view_def r2(2,3) IH(2))
  qed simp
  have t: "take (Suc n) (ring_view r) = take n (ring_view r) @ [ring_view r ! n]" using Suc.prems by (simp add: take_Suc_conv_app_nth)
  have t2: "take (Suc n) (ring_view r2) = take n (ring_view r1) @ [y]" using Suc.prems by (simp add: v take_Suc_conv_app_nth)
  have "drop (Suc n) (ring_view r2) = drop (Suc n) (ring_view r)"
    using IH(4) by (simp add: v) (metis drop_Suc tl_drop)
  moreover have "flush_list now from_us age send (take (Suc n) (ring_view r)) st = (take (Suc n) (ring_view r2), st2)"
    unfolding t t2 flush_list_snoc IH(3) by (simp add: y)
  ultimately show ?case using f r2(1,3) IH(2) ok by simp
qed

lemma flush_view:
  assumes "ring_ok r" "wg_rescue_flush r now from_us age send user = (r', st)"
  shows "ring_ok r'" "flush_list now from_us age send (ring_view r) (0, 0, user) = (ring_view r', st)"
  using flush_prefix [OF assms(1) order_refl, of now from_us age send "(0, 0, user)"] assms(2)
  by (simp_all add: wg_rescue_flush_def)

fun send_all :: "(bytes \<Rightarrow> 'u \<Rightarrow> bool \<times> 'u) \<Rightarrow> bytes list \<Rightarrow> 'u \<Rightarrow> nat \<times> 'u" where
  "send_all send [] user = (0, user)"
| "send_all send (b # bs) user =
     (let (took, user) = send b user
      in if took then (let (n, user) = send_all send bs user in (Suc n, user)) else (0, user))"

lemma occupied_simps [simp]:
  "occupied [] = []" "occupied (s # ss) = (if at_us s = 0 then occupied ss else s # occupied ss)"
  by (simp_all add: occupied_def)

lemma flush_one_drop:
  assumes "\<not> wg_rescue_pending s now from_us age"
  shows "flush_one now from_us age send s st = (s\<lparr>at_us := 0\<rparr>, st)"
proof -
  obtain a b c where st: "st = (a, b, c)" by (cases st)
  have "at_us s = 0 \<Longrightarrow> s\<lparr>at_us := 0\<rparr> = s" by simp
  then show ?thesis using assms by (simp add: st flush_one.simps)
qed

lemma flush_one_cases:
  "wg_rescue_pending s now from_us age \<Longrightarrow> send (rs_buf s) user = (True, u) \<Longrightarrow>
     flush_one now from_us age send s (sent, 0, user) = (s\<lparr>at_us := 0\<rparr>, sent + 1, 0, u)"
  "wg_rescue_pending s now from_us age \<Longrightarrow> send (rs_buf s) user = (False, u) \<Longrightarrow>
     flush_one now from_us age send s (sent, 0, user) = (s\<lparr>owed := True\<rparr>, sent, 1, u)"
  "wg_rescue_pending s now from_us age \<Longrightarrow> flush_one now from_us age send s (sent, Suc l, user) = (s\<lparr>owed := True\<rparr>, sent, Suc (Suc l), user)"
  by (simp_all add: flush_one.simps wg_rescue_pending_def)

lemma pending_at: "wg_rescue_pending s now from_us age \<Longrightarrow> at_us s \<noteq> 0"
  by (simp add: wg_rescue_pending_def)

lemma flush_list_stopped:
  "\<exists>ss'. flush_list now from_us age send ss (sent, Suc l, user)
      = (ss', sent, Suc l + length (filter (\<lambda>s. wg_rescue_pending s now from_us age) ss), user) \<and>
    occupied ss' = map (\<lambda>s. s\<lparr>owed := True\<rparr>) (filter (\<lambda>s. wg_rescue_pending s now from_us age) ss)"
proof (induction ss arbitrary: l)
  case (Cons s ss)
  show ?case
  proof (cases "wg_rescue_pending s now from_us age")
    case True
    then show ?thesis using Cons [of "Suc l"] by (auto simp: flush_one_cases pending_at)
  next
    case False
    then show ?thesis using Cons [of l] by (auto simp: flush_one_drop)
  qed
qed simp

lemma flush_list_sends:
  assumes "send_all send (map rs_buf (filter (\<lambda>s. wg_rescue_pending s now from_us age) ss)) user = (k, u)"
  shows "\<exists>ss' left'. flush_list now from_us age send ss (sent, 0, user) = (ss', sent + k, left', u) \<and>
    k + left' = length (filter (\<lambda>s. wg_rescue_pending s now from_us age) ss) \<and>
    occupied ss' = map (\<lambda>s. s\<lparr>owed := True\<rparr>) (drop k (filter (\<lambda>s. wg_rescue_pending s now from_us age) ss))"
  using assms
proof (induction ss arbitrary: sent user k)
  case (Cons s ss)
  show ?case
  proof (cases "wg_rescue_pending s now from_us age")
    case True
    obtain took u1 where sd: "send (rs_buf s) user = (took, u1)" by (rule prod.exhaust)
    show ?thesis
    proof (cases took)
      case t: True
      obtain k1 u2 where k1: "send_all send (map rs_buf (filter (\<lambda>s. wg_rescue_pending s now from_us age) ss)) u1 = (k1, u2)"
        by (rule prod.exhaust)
      have "k = Suc k1" "u2 = u" using Cons.prems True sd t k1 by simp_all
      then show ?thesis using Cons.IH [of u1 k1 "sent + 1"] k1 True sd t by (auto simp: flush_one_cases)
    next
      case f: False
      have "k = 0" "u = u1" using Cons.prems True sd f by simp_all
      then show ?thesis
        using flush_list_stopped [of now from_us age send ss sent 0 u1] True sd f by (auto simp: flush_one_cases pending_at)
    qed
  next
    case False
    then show ?thesis using Cons.IH [of user k sent] Cons.prems by (auto simp: flush_one_drop)
  qed
qed simp

section \<open>The summary\<close>

text \<open>Frames in send order: times and generations do not decrease, and no frame is newer than \<open>(t, g)\<close>.\<close>

definition frame_le :: "wg_rescue_t \<Rightarrow> wg_rescue_t \<Rightarrow> bool" where
  "frame_le s s' \<longleftrightarrow> rs_gen s \<le> rs_gen s' \<and> at_us s \<le> at_us s'"

definition frames_ok :: "wg_rescue_t list \<Rightarrow> i64 \<Rightarrow> u32 \<Rightarrow> bool" where
  "frames_ok L t g \<longleftrightarrow> sorted_wrt frame_le L \<and> (\<forall>s \<in> set L. rs_gen s \<noteq> 0 \<and> rs_gen s \<le> g \<and> 0 < at_us s \<and> at_us s \<le> t)"

definition blk_ok :: "wg_rescue_t list \<Rightarrow> rescue_block \<Rightarrow> bool" where
  "blk_ok L b \<longleftrightarrow> (\<exists>s \<in> set L. rs_gen s = b_gen b \<and> at_us s = newest_us b) \<and>
     (\<forall>s \<in> set L. rs_gen s = b_gen b \<longrightarrow> at_us s \<le> newest_us b \<and> (owed s \<longrightarrow> at_us s \<le> owed_us b)) \<and>
     (owed_us b = 0 \<or> (\<exists>s \<in> set L. rs_gen s = b_gen b \<and> owed s \<and> at_us s = owed_us b))"

definition blk_zero :: rescue_block where "blk_zero = \<lparr>b_gen = 0, newest_us = 0, owed_us = 0\<rparr>"

definition sum_inv :: "wg_rescue_t list \<Rightarrow> rescue_block \<times> rescue_block \<Rightarrow> bool" where
  "sum_inv L = (\<lambda>(b0, b1). if L = [] then b0 = blk_zero \<and> b1 = blk_zero
     else blk_ok L b0 \<and> (\<forall>s \<in> set L. rs_gen s \<le> b_gen b0) \<and>
       (if \<forall>s \<in> set L. rs_gen s = b_gen b0 then b1 = blk_zero
        else blk_ok L b1 \<and> b_gen b1 < b_gen b0 \<and> (\<forall>s \<in> set L. rs_gen s = b_gen b0 \<or> rs_gen s \<le> b_gen b1)))"

lemma blk_ok_other: "rs_gen s \<noteq> b_gen b \<Longrightarrow> blk_ok (L @ [s]) b = blk_ok L b"
  by (auto simp: blk_ok_def)

lemma blk_ok_new: "blk_ok L \<lparr>b_gen = rs_gen s, newest_us = at_us s, owed_us = (if owed s then at_us s else 0)\<rparr>"
  if "s \<in> set L" "\<forall>s' \<in> set L. rs_gen s' = rs_gen s \<longrightarrow> s' = s"
  using that by (auto simp: blk_ok_def)

lemma blk_ok_same:
  assumes "blk_ok L b" "rs_gen s = b_gen b" "\<forall>s' \<in> set L. at_us s' \<le> at_us s"
  shows "blk_ok (L @ [s]) (b\<lparr>newest_us := at_us s, owed_us := (if owed s then at_us s else owed_us b)\<rparr>)"
  using assms by (auto simp: blk_ok_def)

lemma sum_slot_eq:
  "at_us s \<noteq> 0 \<Longrightarrow> wg_rescue_sum_slot s (b0, b1) =
     (if rs_gen s = b_gen b0 then (b0\<lparr>newest_us := at_us s, owed_us := (if owed s then at_us s else owed_us b0)\<rparr>, b1)
      else (\<lparr>b_gen = rs_gen s, newest_us = at_us s, owed_us = (if owed s then at_us s else 0)\<rparr>, b0))"
  by (simp add: wg_rescue_sum_slot_def Let_def)

lemma sum_inv_step:
  assumes "sum_inv L bs" "\<forall>s' \<in> set L. frame_le s' s \<and> rs_gen s' \<noteq> 0" "at_us s \<noteq> 0" "rs_gen s \<noteq> 0"
  shows "sum_inv (L @ [s]) (wg_rescue_sum_slot s bs)"
proof -
  obtain b0 b1 where bs: "bs = (b0, b1)" by (cases bs)
  have ge: "rs_gen s' \<le> rs_gen s" "at_us s' \<le> at_us s" if "s' \<in> set L" for s' using assms(2) that by (simp_all add: frame_le_def)
  show ?thesis
  proof (cases "L = []")
    case True
    then have "b_gen b0 \<noteq> rs_gen s" "b0 = blk_zero" using assms(1,4) by (simp_all add: bs sum_inv_def blk_zero_def)
    then show ?thesis using True assms(3) blk_ok_new [of s "[s]"] by (simp add: bs sum_slot_eq sum_inv_def)
  next
    case False
    note inv = assms(1) [unfolded bs sum_inv_def, simplified False if_False prod.case]
    show ?thesis
    proof (cases "rs_gen s = b_gen b0")
      case True
      have "blk_ok (L @ [s]) (b0\<lparr>newest_us := at_us s, owed_us := (if owed s then at_us s else owed_us b0)\<rparr>)"
        using inv True ge by (intro blk_ok_same) simp_all
      then show ?thesis
        using inv True assms(3) blk_ok_other [of s b1 L] by (auto simp: bs sum_slot_eq sum_inv_def split: if_splits)
    next
      case g: False
      obtain s0 where "s0 \<in> set L" "rs_gen s0 = b_gen b0" using inv by (auto simp: blk_ok_def)
      then have lt: "b_gen b0 < rs_gen s" using g ge(1) [of s0] by simp
      have "blk_ok (L @ [s]) b0" using inv g blk_ok_other by simp
      moreover have new: "\<forall>s' \<in> set (L @ [s]). rs_gen s' = rs_gen s \<longrightarrow> s' = s"
        using inv lt by (auto simp: leD)
      have "blk_ok (L @ [s]) \<lparr>b_gen = rs_gen s, newest_us = at_us s, owed_us = (if owed s then at_us s else 0)\<rparr>"
        by (rule blk_ok_new [OF _ new]) simp
      moreover have "\<exists>s' \<in> set L. rs_gen s' \<noteq> rs_gen s" using inv lt False by (metis leD last_in_set)
      ultimately show ?thesis
        using inv g lt ge assms(3) by (auto simp: bs sum_slot_eq sum_inv_def)
    qed
  qed
qed

lemma sum_fold:
  "frames_ok (occupied L) t g \<Longrightarrow> sum_inv (occupied L) (fold wg_rescue_sum_slot L (blk_zero, blk_zero))"
proof (induction L rule: rev_induct)
  case Nil
  then show ?case by (simp add: sum_inv_def)
next
  case (snoc s L)
  have oc: "occupied (L @ [s]) = occupied L @ (if at_us s = 0 then [] else [s])" by (simp add: occupied_def)
  have ok: "frames_ok (occupied L) t g" using snoc.prems by (auto simp: frames_ok_def oc sorted_wrt_append split: if_splits)
  note IH = snoc.IH [OF ok]
  show ?case
  proof (cases "at_us s = 0")
    case True
    then show ?thesis using IH by (simp add: oc wg_rescue_sum_slot_def case_prod_unfold)
  next
    case False
    have "\<forall>s' \<in> set (occupied L). frame_le s' s \<and> rs_gen s' \<noteq> 0" "rs_gen s \<noteq> 0"
      using snoc.prems False by (auto simp: frames_ok_def oc sorted_wrt_append)
    then show ?thesis using sum_inv_step [OF IH _ False] False by (simp add: oc)
  qed
qed

lemma blk_pending:
  assumes "blk_ok L b" "\<forall>s \<in> set L. 0 < at_us s"
  shows "block_risk b now from_us age cur conf \<longleftrightarrow>
    wg_rescue_gen_at_risk (b_gen b) cur conf \<and> (\<exists>s \<in> set L. rs_gen s = b_gen b \<and> wg_rescue_pending s now from_us age)"
    (is "?L \<longleftrightarrow> ?g \<and> ?R")
proof -
  let ?l = "if owed_us b \<noteq> 0 \<and> newest_us b < from_us then owed_us b else newest_us b"
  have "?R \<longleftrightarrow> (owed_us b \<noteq> 0 \<or> newest_us b \<ge> from_us) \<and> now - ?l \<le> age" (is "_ \<longleftrightarrow> ?T")
  proof
    assume ?R
    then obtain s where s: "s \<in> set L" "rs_gen s = b_gen b" "owed s \<or> from_us \<le> at_us s" "now - at_us s \<le> age"
      by (auto simp: wg_rescue_pending_def wg_timer_due_def not_less)
    have "0 < at_us s" "at_us s \<le> newest_us b" "owed s \<longrightarrow> at_us s \<le> owed_us b" using assms s by (auto simp: blk_ok_def)
    then show ?T using s(3,4) by auto
  next
    assume T: ?T
    obtain n where n: "n \<in> set L" "rs_gen n = b_gen b" "at_us n = newest_us b" using assms(1) by (auto simp: blk_ok_def)
    show ?R
    proof (cases "owed_us b \<noteq> 0 \<and> newest_us b < from_us")
      case True
      then obtain w where w: "w \<in> set L" "rs_gen w = b_gen b" "owed w" "at_us w = owed_us b" using assms(1) by (auto simp: blk_ok_def)
      then have "wg_rescue_pending w now from_us age" using T True by (simp add: wg_rescue_pending_def wg_timer_due_def)
      then show ?thesis using w by blast
    next
      case False
      then have "wg_rescue_pending n now from_us age"
        using T n assms(2) by (auto simp: wg_rescue_pending_def wg_timer_due_def dest: bspec)
      then show ?thesis using n by blast
    qed
  qed
  then show ?thesis by (simp add: block_risk_def wg_timer_due_def Let_def not_less)
qed

lemma zero_block_no_risk: "\<not> block_risk blk_zero now from_us age cur conf"
  by (simp add: block_risk_def blk_zero_def wg_rescue_gen_at_risk_def)

lemma blocks_exact:
  assumes "sum_inv L (b0, b1)" "frames_ok L t cur"
  shows "block_risk b0 now from_us age cur conf \<or> block_risk b1 now from_us age cur conf \<longleftrightarrow>
    (\<exists>s \<in> set L. wg_rescue_pending s now from_us age \<and> wg_rescue_gen_at_risk (rs_gen s) cur conf)"
proof (cases "L = []")
  case True
  then show ?thesis using assms(1) zero_block_no_risk by (simp add: sum_inv_def)
next
  case False
  note inv = assms(1) [unfolded sum_inv_def, simplified False if_False prod.case]
  have pos: "\<forall>s \<in> set L. 0 < at_us s" "\<forall>s \<in> set L. rs_gen s \<le> cur" using assms(2) by (simp_all add: frames_ok_def)
  have p0: "block_risk b0 now from_us age cur conf \<longleftrightarrow> wg_rescue_gen_at_risk (b_gen b0) cur conf \<and>
      (\<exists>s \<in> set L. rs_gen s = b_gen b0 \<and> wg_rescue_pending s now from_us age)"
    using inv pos(1) by (intro blk_pending) simp_all
  show ?thesis
  proof (cases "\<forall>s \<in> set L. rs_gen s = b_gen b0")
    case True
    then show ?thesis using inv zero_block_no_risk p0 by auto
  next
    case other: False
    have b1: "blk_ok L b1" "b_gen b1 < b_gen b0" "\<forall>s \<in> set L. rs_gen s = b_gen b0 \<or> rs_gen s \<le> b_gen b1"
      using inv other by simp_all
    have p1: "block_risk b1 now from_us age cur conf \<longleftrightarrow> wg_rescue_gen_at_risk (b_gen b1) cur conf \<and>
        (\<exists>s \<in> set L. rs_gen s = b_gen b1 \<and> wg_rescue_pending s now from_us age)"
      by (rule blk_pending [OF b1(1) pos(1)])
    have cur: "b_gen b0 \<le> cur" using inv pos(2) by (auto simp: blk_ok_def)
    have "rs_gen s = b_gen b0 \<or> rs_gen s = b_gen b1" if "s \<in> set L" "wg_rescue_gen_at_risk (rs_gen s) cur conf" for s
    proof (rule ccontr)
      assume n: "\<not> (rs_gen s = b_gen b0 \<or> rs_gen s = b_gen b1)"
      then have "rs_gen s < b_gen b1" using b1(3) that(1) by (auto simp: order_less_le)
      then have "unat (rs_gen s) + 2 \<le> unat cur" using b1(2) cur unfolding word_less_nat_alt word_le_nat_alt by linarith
      moreover from this have "unat (cur - 1) = unat cur - 1" by (intro unat_minus_one) auto
      ultimately show False using that(2) by (auto simp: wg_rescue_gen_at_risk_def)
    qed
    then show ?thesis unfolding p0 p1 by metis
  qed
qed

section \<open>Reachable rings\<close>

definition ring_zero :: wg_rescue_ring_t where
  "ring_zero = \<lparr>slot = replicate 10 \<lparr>at_us = 0, rs_gen = 0, owed = False, rs_buf = []\<rparr>, rs_head = 0, sent_gen = (0, 0), sent_us = (0, 0)\<rparr>"

text \<open>The rings of the transmit task: frames are kept at increasing times under keypairs whose
  generations grow; \<open>t\<close> and \<open>g\<close> bound what was kept so far.\<close>

inductive ring_run :: "wg_rescue_ring_t \<Rightarrow> i64 \<Rightarrow> u32 \<Rightarrow> bool" where
  run_zero: "ring_run ring_zero 0 0"
| run_keep: "ring_run r t g \<Longrightarrow> t \<le> now \<Longrightarrow> 0 < now \<Longrightarrow> g \<le> g' \<Longrightarrow> g' \<noteq> 0 \<Longrightarrow> ring_run (wg_rescue_keep r buf now g') now g'"
| run_flush: "ring_run r t g \<Longrightarrow> wg_rescue_flush r now from_us age send (user :: nat) = (r', st) \<Longrightarrow> ring_run r' t g"
| run_sent_by: "ring_run r t g \<Longrightarrow> ring_run (wg_rescue_sent_by r flushed_at left_at) t g"

lemma frames_ok_mono: "frames_ok L t g \<Longrightarrow> t \<le> t' \<Longrightarrow> g \<le> g' \<Longrightarrow> frames_ok L t' g'"
  unfolding frames_ok_def by (meson order_trans)

lemma frames_ok_keep:
  assumes "frames_ok (occupied L) t g" "t \<le> now" "0 < now" "g \<le> g'" "g' \<noteq> 0"
  shows "frames_ok (occupied (tl L @ [\<lparr>at_us = now, rs_gen = g', owed = False, rs_buf = buf\<rparr>])) now g'"
proof -
  let ?s = "\<lparr>at_us = now, rs_gen = g', owed = False, rs_buf = buf\<rparr>"
  have "occupied (tl L @ [?s]) = occupied (tl L) @ [?s]" using assms(3) by (simp add: occupied_def)
  moreover have "frames_ok (occupied (tl L)) t g"
    using assms(1) by (cases L) (auto simp: frames_ok_def split: if_splits)
  then have "frames_ok (occupied (tl L)) now g'" using frames_ok_mono assms(2,4) by blast
  ultimately show ?thesis using assms(3,5) by (auto simp: frames_ok_def sorted_wrt_append frame_le_def)
qed

lemma frames_ok_owed: "frames_ok (map (\<lambda>s. s\<lparr>owed := True\<rparr>) L) t g = frames_ok L t g"
proof -
  have "(\<lambda>x y. frame_le (x\<lparr>owed := True\<rparr>) (y\<lparr>owed := True\<rparr>)) = frame_le" by (simp add: frame_le_def fun_eq_iff)
  then show ?thesis by (simp add: frames_ok_def sorted_wrt_map)
qed

lemma frames_ok_sub: "frames_ok L t g \<Longrightarrow> frames_ok (drop k (filter P L)) t g"
  unfolding frames_ok_def by (auto intro: sorted_wrt_drop sorted_wrt_filter dest: in_set_dropD)

lemma filter_occupied: "filter (\<lambda>s. wg_rescue_pending s now from_us age) (occupied L) = filter (\<lambda>s. wg_rescue_pending s now from_us age) L"
  by (simp add: occupied_def conj_commute) (metis (mono_tags, lifting) pending_at)

lemma flush_result:
  assumes "ring_ok r" "wg_rescue_flush r now from_us age send user = (r', sent, left, user')"
    "P = filter (\<lambda>s. wg_rescue_pending s now from_us age) (ring_view r)"
  shows "(sent, user') = send_all send (map rs_buf P) user" "sent + left = length P"
    "occupied (ring_view r') = map (\<lambda>s. s\<lparr>owed := True\<rparr>) (drop sent P)"
proof -
  obtain k u where k: "send_all send (map rs_buf P) user = (k, u)" by (rule prod.exhaust)
  obtain ss' l where "flush_list now from_us age send (ring_view r) (0, 0, user) = (ss', 0 + k, l, u)" "k + l = length P"
    "occupied ss' = map (\<lambda>s. s\<lparr>owed := True\<rparr>) (drop k P)"
    using flush_list_sends [of send now from_us age "ring_view r" user k u 0] k assms(3) by blast
  then show "(sent, user') = send_all send (map rs_buf P) user" "sent + left = length P"
    "occupied (ring_view r') = map (\<lambda>s. s\<lparr>owed := True\<rparr>) (drop sent P)"
    using flush_view(2) [OF assms(1,2)] k by simp_all
qed

lemma ring_run_inv: "ring_run r t g \<Longrightarrow> ring_ok r \<and> frames_ok (occupied (ring_view r)) t g"
proof (induction rule: ring_run.induct)
  case run_zero
  have "ring_view ring_zero = replicate 10 \<lparr>at_us = 0, rs_gen = 0, owed = False, rs_buf = []\<rparr>"
    by (intro nth_equalityI) (simp_all add: ring_view_def ring_zero_def)
  then have "occupied (ring_view ring_zero) = []" by (simp add: occupied_def)
  then show ?case by (simp add: ring_ok_def ring_zero_def frames_ok_def)
next
  case (run_keep r t g now g' buf)
  show ?case
  proof (cases "length buf \<le> 224")
    case True
    moreover have "frames_ok (occupied (tl (ring_view r) @ [\<lparr>at_us = now, rs_gen = g', owed = False, rs_buf = buf\<rparr>])) now g'"
      using run_keep by (intro frames_ok_keep [of _ t g]) simp_all
    ultimately show ?thesis using run_keep keep_ok keep_view [of r buf now g'] by simp
  next
    case False
    then have "wg_rescue_keep r buf now g' = r" by (simp add: wg_rescue_keep_def)
    then show ?thesis using run_keep frames_ok_mono by metis
  qed
next
  case (run_flush r t g now from_us age send user r' st)
  obtain a b c where st: "st = (a, b, c)" by (cases st)
  have "occupied (ring_view r') = map (\<lambda>s. s\<lparr>owed := True\<rparr>) (drop a (filter (\<lambda>s. wg_rescue_pending s now from_us age) (occupied (ring_view r))))"
    using flush_result(3) [of r now from_us age send user r' a b c] run_flush st by (simp add: filter_occupied)
  moreover have "ring_ok r'" using flush_view(1) [OF _ run_flush(2)] run_flush by simp
  ultimately show ?case using run_flush by (simp add: frames_ok_owed frames_ok_sub)
next
  case (run_sent_by r t g flushed_at left_at)
  then show ?case by (simp add: wg_rescue_sent_by_def Let_def ring_ok_def ring_view_def)
qed

section \<open>Properties\<close>

text \<open>C39: A confirmed lapse re-sends exactly the frames that may be lost: with the pending frames
  listed oldest first (owed, or sent since the last proof of delivery, and not too old),
  \<open>wg_rescue_flush\<close> offers them to the relay in that order up to the first refusal, returns how many it
  took, and keeps exactly the refused rest, in order and marked owed; every other frame is
  dropped.  Keeping a frame of at most 224 bytes appends it behind the nine newest slots.\<close>

theorem rescue_flush_exact:
  assumes "ring_run r t g"
  shows "(case wg_rescue_flush r now from_us age send user of (r', sent, left, user') \<Rightarrow>
      let P = filter (\<lambda>s. wg_rescue_pending s now from_us age) (ring_view r)
      in (sent, user') = send_all send (map rs_buf P) user \<and> sent + left = length P \<and>
         occupied (ring_view r') = map (\<lambda>s. s\<lparr>owed := True\<rparr>) (drop sent P)) \<and>
    (if length buf \<le> 224
     then ring_view (wg_rescue_keep r buf now g') = tl (ring_view r) @ [\<lparr>at_us = now, rs_gen = g', owed = False, rs_buf = buf\<rparr>]
     else wg_rescue_keep r buf now g' = r)"
proof -
  have ok: "ring_ok r" using ring_run_inv [OF assms] by simp
  obtain r' sent left user' where f: "wg_rescue_flush r now from_us age send user = (r', sent, left, user')" by (metis prod_cases4)
  show ?thesis
    using flush_result [OF ok f refl] keep_view [OF ok, of buf now g'] unfolding f by (simp add: Let_def wg_rescue_keep_def)
qed

theorem rescue_flush_exact_witness:
  "case wg_rescue_flush (wg_rescue_keep ring_zero [1, 2] 5 1) 9 0 100 (\<lambda>b n. (False, n + 1)) (0 :: nat) of (r', sent, left, n) \<Rightarrow>
     sent = 0 \<and> left = 1 \<and> n = 1 \<and> occupied (ring_view r') = [\<lparr>at_us = 5, rs_gen = 1, owed = True, rs_buf = [1, 2]\<rparr>]"
proof -
  let ?r = "wg_rescue_keep ring_zero [1, 2] 5 1"
  have run: "ring_run ?r 5 1" by (rule run_keep [OF run_zero]) simp_all
  have "ring_view ring_zero = replicate 10 \<lparr>at_us = 0, rs_gen = 0, owed = False, rs_buf = []\<rparr>"
    by (intro nth_equalityI) (simp_all add: ring_view_def ring_zero_def)
  moreover have "ring_ok ring_zero" by (simp add: ring_ok_def ring_zero_def)
  ultimately have "ring_view ?r = tl (replicate 10 \<lparr>at_us = 0, rs_gen = 0, owed = False, rs_buf = []\<rparr>) @ [\<lparr>at_us = 5, rs_gen = 1, owed = False, rs_buf = [1, 2]\<rparr>]"
    by (simp add: keep_view)
  then have P: "filter (\<lambda>s. wg_rescue_pending s 9 0 100) (ring_view ?r) = [\<lparr>at_us = 5, rs_gen = 1, owed = False, rs_buf = [1, 2]\<rparr>]"
    by (simp add: wg_rescue_pending_def wg_timer_due_def)
  show ?thesis
    using conjunct1 [OF rescue_flush_exact [OF run, of 9 0 100 "\<lambda>b n. (False, n + 1)" "0 :: nat" "[]" 1]] unfolding P Let_def
    by (auto split: prod.splits)
qed

text \<open>The summary is as good as the ring for deciding on a handshake: for frames kept in send order
  under growing keypair generations, none newer than the current one, the receive task's test on the
  published summary answers yes exactly when a pending frame of the ring is sealed under a keypair
  the new initiation would delete, or a re-sent one may still be in transit.\<close>

theorem rescue_risk_exact:
  assumes "ring_run r t g" "g \<le> cur_gen"
  shows "wg_rescue_init_risk (wg_rescue_summarize r) now from_us age cur_gen confirmed \<longleftrightarrow>
    (\<exists>s \<in> set (ring_view r). wg_rescue_pending s now from_us age \<and> wg_rescue_gen_at_risk (rs_gen s) cur_gen confirmed) \<or>
    (wg_rescue_gen_at_risk (fst (sent_gen r)) cur_gen confirmed \<and> now - fst (sent_us r) \<le> 5000000) \<or>
    (wg_rescue_gen_at_risk (snd (sent_gen r)) cur_gen confirmed \<and> now - snd (sent_us r) \<le> 5000000)"
proof -
  define L where "L = occupied (ring_view r)"
  have ok: "frames_ok L t cur_gen" using ring_run_inv [OF assms(1)] frames_ok_mono assms(2) unfolding L_def by blast
  obtain b0 b1 where b: "fold wg_rescue_sum_slot (ring_view r) (blk_zero, blk_zero) = (b0, b1)" by (rule prod.exhaust)
  have inv: "sum_inv L (b0, b1)" using sum_fold [of "ring_view r"] ok unfolding L_def b by blast
  have fold: "fold (\<lambda>i. wg_rescue_sum_slot (slot r ! ((rs_head r + i) mod 10))) [0..<10] st = fold wg_rescue_sum_slot (ring_view r) st" for st
    unfolding ring_view_def fold_map comp_def ..
  have sm: "blk0 (wg_rescue_summarize r) = b0" "blk1 (wg_rescue_summarize r) = b1"
    "sum_sent_gen (wg_rescue_summarize r) = sent_gen r" "sum_sent_us (wg_rescue_summarize r) = sent_us r"
    unfolding wg_rescue_summarize_def rescue_consts fold by (simp_all add: b blk_zero_def [symmetric] Let_def)
  have pend: "(\<exists>s \<in> set L. wg_rescue_pending s now from_us age \<and> wg_rescue_gen_at_risk (rs_gen s) cur_gen confirmed) \<longleftrightarrow>
      (\<exists>s \<in> set (ring_view r). wg_rescue_pending s now from_us age \<and> wg_rescue_gen_at_risk (rs_gen s) cur_gen confirmed)"
    using pending_at by (auto simp: L_def occupied_def)
  show ?thesis
    unfolding pend [symmetric] blocks_exact [OF inv ok, symmetric]
    by (auto simp: wg_rescue_init_risk_def Let_def sm WG_RESCUE_TRANSIT_MS_def wg_timer_due_def)
qed

theorem rescue_risk_exact_witness:
  "wg_rescue_init_risk (wg_rescue_summarize (wg_rescue_keep ring_zero [1, 2] 5 1)) 9 0 100 1 False"
proof -
  let ?s = "\<lparr>at_us = 5, rs_gen = 1, owed = False, rs_buf = [1, 2]\<rparr>"
  have run: "ring_run (wg_rescue_keep ring_zero [1, 2] 5 1) 5 1" by (rule run_keep [OF run_zero]) simp_all
  have "ring_ok ring_zero" by (simp add: ring_ok_def ring_zero_def)
  then have "?s \<in> set (ring_view (wg_rescue_keep ring_zero [1, 2] 5 1))" by (simp add: keep_view)
  moreover have "wg_rescue_pending ?s 9 0 100" "wg_rescue_gen_at_risk (rs_gen ?s) 1 False"
    by (simp_all add: wg_rescue_pending_def wg_timer_due_def wg_rescue_gen_at_risk_def)
  ultimately show ?thesis using rescue_risk_exact [OF run order_refl, of 9 0 100 False] by blast
qed

end
