(* ===== verification/WG_Path.thy ===== *)
theory WG_Path
  imports WG_Timers WG_Rescue
begin

unbundle bit_operations_syntax

text \<open>
  \<open>wg_path.h\<close>: the path selection of a WireGuard session, a state machine over the modes DUAL
  (send by both paths), DIRECT and RELAY (via DERP).  It is driven by the frames sent, the packets of
  the peer, DISCO pongs, endpoint changes and the timer pass of the receive task, and returns a bit
  mask of actions to the caller.  Times are integers in microseconds (uptimes); counters keep their
  width and wrap or saturate as in the code.  The output arguments \<open>*mode\<close> and \<open>*act\<close> are results.
\<close>

section \<open>The code\<close>

definition WG_PATH_KEEPALIVE_TIMEOUT_MS :: int where "WG_PATH_KEEPALIVE_TIMEOUT_MS = 10000"
definition WG_PATH_ANSWER_SLACK_MS :: int where "WG_PATH_ANSWER_SLACK_MS = 2000"
definition WG_PATH_ANSWER_MS :: int where "WG_PATH_ANSWER_MS = WG_PATH_KEEPALIVE_TIMEOUT_MS + WG_PATH_ANSWER_SLACK_MS"
definition WG_PATH_PING_TIMEOUT_MS :: int where "WG_PATH_PING_TIMEOUT_MS = 5000"
definition WG_PATH_ACTIVE_MS :: int where "WG_PATH_ACTIVE_MS = 45000"
definition WG_PATH_REPROBE_MIN_MS :: u32 where "WG_PATH_REPROBE_MIN_MS = 10000"
definition WG_PATH_REPROBE_MAX_MS :: u32 where "WG_PATH_REPROBE_MAX_MS = 60000"
definition WG_PATH_TRUST_MS :: int where "WG_PATH_TRUST_MS = 30000"
definition WG_PATH_ROUND_MS :: int where "WG_PATH_ROUND_MS = 1000"
definition WG_PATH_BETTER_POINTS :: int where "WG_PATH_BETTER_POINTS = 15"
definition WG_PATH_BETTER_MIN_US :: nat where "WG_PATH_BETTER_MIN_US = 25000"
definition WG_PATH_PRIVATE_POINTS :: int where "WG_PATH_PRIVATE_POINTS = 20"
definition WG_INIT_FRESH_AFTER_MS :: int where "WG_INIT_FRESH_AFTER_MS = 2500"
definition WG_PATH_RESCUE_MAX_MS :: int where "WG_PATH_RESCUE_MAX_MS = 180000"
definition WG_PATH_REKEY_TIMEOUT_MS :: int where "WG_PATH_REKEY_TIMEOUT_MS = 5000"
definition WG_PATH_INIT_HOLD_MS :: int where "WG_PATH_INIT_HOLD_MS = WG_PATH_REKEY_TIMEOUT_MS"
definition INT64_MAX :: i64 where "INT64_MAX = 2 ^ 63 - 1"

definition WG_PATH_ACT_PING :: u32 where "WG_PATH_ACT_PING = 0x01"
definition WG_PATH_ACT_PROBE :: u32 where "WG_PATH_ACT_PROBE = 0x02"
definition WG_PATH_ACT_RESCUE :: u32 where "WG_PATH_ACT_RESCUE = 0x04"
definition WG_PATH_ACT_REKEY :: u32 where "WG_PATH_ACT_REKEY = 0x08"
definition WG_PATH_ACT_TEST :: u32 where "WG_PATH_ACT_TEST = 0x10"

datatype wg_path_mode_t = WG_PATH_DUAL | WG_PATH_DIRECT | WG_PATH_RELAY

datatype wg_path_why_t = WG_PATH_WHY_START | WG_PATH_WHY_ANSWER | WG_PATH_WHY_IDLE | WG_PATH_WHY_ENDPOINT
  | WG_PATH_WHY_DOUBT | WG_PATH_WHY_SILENT | WG_PATH_WHY_UNDELIVERED

datatype wg_path_pong_t = WG_PATH_PONG_KEPT | WG_PATH_PONG_CONFIRMED | WG_PATH_PONG_ROAM | WG_PATH_PONG_ROAM_CAND | WG_PATH_PONG_DOUBT

datatype wg_rekey_gate_t = WG_REKEY_GO | WG_REKEY_NO_SESSION | WG_REKEY_IN_FLIGHT | WG_REKEY_TOO_SOON

datatype wg_init_route_t = WG_INIT_ANY_PATH | WG_INIT_DERP_BEHIND_RESEND

record wg_path_t =
  managed :: bool
  mode :: wg_path_mode_t
  why :: wg_path_why_t
  since_us :: i64
  off_direct_us :: i64
  proof_us :: i64
  ka_us :: i64
  await_us :: i64
  last_data_us :: i64
  last_relay_data_us :: i64
  hs_us :: i64
  init_hold_us :: i64
  peer_wg_us :: i64
  peer_tr_us :: i64
  lapse_from_us :: i64
  test_at_us :: i64
  delivered_us :: i64
  doubts :: u8
  silent_streak :: u8
  grace_used :: bool
  ping_us :: i64
  reprobe_us :: i64
  reprobe_ms :: u32
  rtt_us :: u32
  rtt_at_us :: i64
  cand_valid :: bool
  cand_private :: bool
  cand_port :: u16
  cand_v4_be :: u32
  cand_rtt_us :: u32
  cand_at_us :: i64
  unconfirmed_us :: i64
  was_off_us :: i64
  lapses :: u32
  deaths :: u32
  confirms :: u32
  roams :: u32
  doubts_total :: u32
  silences :: u32
  undelivered :: u32
  tests :: u32

definition WG_PATH_LAPSE_PENDING :: "wg_path_t \<Rightarrow> bool" where
  "WG_PATH_LAPSE_PENDING p \<longleftrightarrow> mode p = WG_PATH_DUAL \<and>
     (why p = WG_PATH_WHY_ANSWER \<or> why p = WG_PATH_WHY_IDLE \<or> why p = WG_PATH_WHY_DOUBT)"

definition WG_PATH_IN_DOUBT :: "wg_path_t \<Rightarrow> bool" where
  "WG_PATH_IN_DOUBT p \<longleftrightarrow> mode p = WG_PATH_DUAL \<and> why p = WG_PATH_WHY_DOUBT"

definition wg_path_v4_private :: "u32 \<Rightarrow> bool" where
  "wg_path_v4_private v4 \<longleftrightarrow> drop_bit 24 v4 = 10 \<or> drop_bit 20 v4 = (push_bit 4 172 OR 1) \<or>
     drop_bit 16 v4 = (push_bit 8 192 OR 168) \<or> drop_bit 16 v4 = (push_bit 8 169 OR 254)"

text \<open>The products fit in the code's 64-bit words, so they are taken on numbers.\<close>

definition wg_path_better :: "u32 \<Rightarrow> bool \<Rightarrow> u32 \<Rightarrow> bool \<Rightarrow> bool" where
  "wg_path_better a_rtt_us a_priv b_rtt_us b_priv =
     (let (a_pts, b_pts) =
            (if unat a_rtt_us + WG_PATH_BETTER_MIN_US < unat b_rtt_us
             then (100 - int ((unat a_rtt_us * 100) div unat b_rtt_us), 0)
             else if unat b_rtt_us + WG_PATH_BETTER_MIN_US < unat a_rtt_us
             then (0, 100 - int ((unat b_rtt_us * 100) div unat a_rtt_us))
             else (0, 0));
          a_pts = (if a_priv then a_pts + WG_PATH_PRIVATE_POINTS else a_pts);
          b_pts = (if b_priv then b_pts + WG_PATH_PRIVATE_POINTS else b_pts)
      in a_pts > b_pts + WG_PATH_BETTER_POINTS)"

definition wg_path_enter_dual :: "wg_path_t \<Rightarrow> i64 \<Rightarrow> wg_path_why_t \<Rightarrow> wg_path_t" where
  "wg_path_enter_dual p now w =
     (let p = (if mode p = WG_PATH_DIRECT then p\<lparr>off_direct_us := now\<rparr> else p)
      in p\<lparr>mode := WG_PATH_DUAL, why := w, since_us := now, await_us := 0, reprobe_ms := 0\<rparr>)"

definition wg_path_init :: "i64 \<Rightarrow> bool \<Rightarrow> wg_path_t" where
  "wg_path_init now mgd =
     \<lparr>managed = mgd, mode = WG_PATH_DUAL, why = WG_PATH_WHY_START, since_us = now, off_direct_us = now, proof_us = 0, ka_us = 0,
      await_us = 0, last_data_us = 0, last_relay_data_us = 0, hs_us = 0, init_hold_us = 0, peer_wg_us = 0, peer_tr_us = 0,
      lapse_from_us = 0, test_at_us = 0, delivered_us = 0, doubts = 0, silent_streak = 0, grace_used = False, ping_us = 0,
      reprobe_us = 0, reprobe_ms = 0, rtt_us = 0, rtt_at_us = 0, cand_valid = False, cand_private = False, cand_port = 0,
      cand_v4_be = 0, cand_rtt_us = 0, cand_at_us = 0, unconfirmed_us = 0, was_off_us = 0, lapses = 0, deaths = 0,
      confirms = 0, roams = 0, doubts_total = 0, silences = 0, undelivered = 0, tests = 0\<rparr>"

definition wg_path_set_managed :: "wg_path_t \<Rightarrow> i64 \<Rightarrow> bool \<Rightarrow> wg_path_t" where
  "wg_path_set_managed p now mgd =
     (if managed p = mgd then p
      else if mgd then (wg_path_init now True)\<lparr>lapses := lapses p, deaths := deaths p, confirms := confirms p, roams := roams p,
             doubts_total := doubts_total p, silences := silences p, undelivered := undelivered p, tests := tests p\<rparr>
      else p\<lparr>managed := False\<rparr>)"

definition wg_path_valid :: "wg_path_t \<Rightarrow> i64 \<Rightarrow> bool" where
  "wg_path_valid p now \<longleftrightarrow> mode p = WG_PATH_DIRECT \<and> proof_us p \<noteq> 0 \<and> \<not> wg_timer_due now (proof_us p) (WG_PATH_TRUST_MS * 1000)"

definition wg_path_may_roam :: "wg_path_t \<Rightarrow> i64 \<Rightarrow> bool" where
  "wg_path_may_roam p now \<longleftrightarrow> \<not> managed p \<or> \<not> wg_path_valid p now"

definition wg_path_init_wants_relay :: "wg_path_t \<Rightarrow> i64 \<Rightarrow> bool" where
  "wg_path_init_wants_relay p now \<longleftrightarrow> \<not> wg_path_valid p now"

definition wg_path_lapse :: "wg_path_t \<Rightarrow> i64 \<Rightarrow> wg_path_why_t \<Rightarrow> i64 \<Rightarrow> u32 \<times> wg_path_t" where
  "wg_path_lapse p now w from_us =
     (let p = wg_path_enter_dual p now w
      in (WG_PATH_ACT_PING, p\<lparr>unconfirmed_us := now - from_us, lapse_from_us := from_us, ping_us := now, lapses := lapses p + 1\<rparr>))"

definition wg_path_check_answer :: "wg_path_t \<Rightarrow> i64 \<Rightarrow> u32 \<times> wg_path_t" where
  "wg_path_check_answer p now =
     (if mode p = WG_PATH_DIRECT \<and> await_us p \<noteq> 0 \<and> wg_timer_due now (await_us p) (WG_PATH_ANSWER_MS * 1000)
      then wg_path_lapse p now WG_PATH_WHY_ANSWER (await_us p) else (0, p))"

definition wg_path_on_send :: "wg_path_t \<Rightarrow> i64 \<Rightarrow> bool \<Rightarrow> u32 \<times> wg_path_mode_t \<times> wg_path_t" where
  "wg_path_on_send p now data =
     (if \<not> managed p then (0, WG_PATH_DIRECT, p)
      else case wg_path_check_answer p now of
        (act, p) \<Rightarrow>
          if data then
            (let win = WG_PATH_ANSWER_MS * 1000;
                 seen = (if ka_us p > proof_us p then ka_us p else proof_us p);
                 (act, p) = (if mode p = WG_PATH_DIRECT \<and> (last_data_us p = 0 \<or> wg_timer_due now (last_data_us p) win) \<and> wg_timer_due now seen win
                             then (case wg_path_lapse p now WG_PATH_WHY_IDLE seen of (a, p) \<Rightarrow> (act OR a, p))
                             else (act, p));
                 p = (if (mode p = WG_PATH_DIRECT \<or> WG_PATH_IN_DOUBT p) \<and> await_us p = 0 then p\<lparr>await_us := now\<rparr> else p);
                 p = (if mode p \<noteq> WG_PATH_DIRECT then p\<lparr>last_relay_data_us := now\<rparr> else p);
                 p = p\<lparr>last_data_us := now\<rparr>
             in (act, mode p, p))
          else (act, mode p, p))"

definition wg_path_reprobe_live :: "wg_path_t \<Rightarrow> bool" where
  "wg_path_reprobe_live p \<longleftrightarrow> last_data_us p \<noteq> 0 \<and> reprobe_us p \<le> last_data_us p + WG_PATH_ACTIVE_MS * 1000"

definition wg_path_rescue :: "wg_path_t \<Rightarrow> i64 \<Rightarrow> u32 \<times> wg_path_t" where
  "wg_path_rescue p now = (WG_PATH_ACT_RESCUE, p\<lparr>last_relay_data_us := now\<rparr>)"

definition wg_path_enter_relay :: "wg_path_t \<Rightarrow> i64 \<Rightarrow> wg_path_why_t \<Rightarrow> wg_path_t" where
  "wg_path_enter_relay p now w =
     (let p = p\<lparr>mode := WG_PATH_RELAY, why := w, since_us := now, cand_valid := False\<rparr>;
          shift = (if doubts p > 3 then 3 else if doubts p > 0 then unat (doubts p) - 1 else 0);
          ms = push_bit shift WG_PATH_REPROBE_MIN_MS;
          ms = (if ms > WG_PATH_REPROBE_MAX_MS then WG_PATH_REPROBE_MAX_MS else ms)
      in p\<lparr>reprobe_ms := ms, reprobe_us := now + uint ms * 1000\<rparr>)"

definition wg_path_silent :: "wg_path_t \<Rightarrow> i64 \<Rightarrow> u32 \<times> wg_path_t" where
  "wg_path_silent p now =
     (let p = (if silent_streak p < 255 then p\<lparr>silent_streak := silent_streak p + 1\<rparr> else p);
          p = p\<lparr>silences := silences p + 1, unconfirmed_us := now - lapse_from_us p\<rparr>;
          p = wg_path_enter_relay p now WG_PATH_WHY_SILENT
      in case wg_path_rescue p now of
           (act, p) \<Rightarrow> (act OR (if silent_streak p = 1 then WG_PATH_ACT_REKEY else 0), p))"

definition wg_path_confirm :: "wg_path_t \<Rightarrow> i64 \<Rightarrow> wg_path_t" where
  "wg_path_confirm p now =
     (let p = (if mode p \<noteq> WG_PATH_DIRECT
               then p\<lparr>was_off_us := now - off_direct_us p, mode := WG_PATH_DIRECT, since_us := now, reprobe_ms := 0, await_us := 0,
                      confirms := confirms p + 1\<rparr>
               else p)
      in p\<lparr>proof_us := now\<rparr>)"

definition wg_path_resolve :: "wg_path_t \<Rightarrow> i64 \<Rightarrow> u32 \<times> wg_path_t" where
  "wg_path_resolve p now =
     (if doubts p < 2 then (0, wg_path_confirm p now)
      else let p = p\<lparr>undelivered := undelivered p + 1, unconfirmed_us := now - lapse_from_us p\<rparr>;
               p = wg_path_enter_relay p now WG_PATH_WHY_UNDELIVERED
           in wg_path_rescue p now)"

definition tick_doubt :: "wg_path_t \<Rightarrow> i64 \<Rightarrow> u32 \<times> wg_path_t" where
  "tick_doubt p now =
     (let (act, p) = (if test_at_us p \<noteq> 0 \<and> now \<ge> test_at_us p
                      then (WG_PATH_ACT_TEST, p\<lparr>test_at_us := 0, tests := tests p + 1\<rparr>) else (0, p))
      in if await_us p \<noteq> 0 \<and> wg_timer_due now (await_us p) (WG_PATH_ANSWER_MS * 1000)
         then (case wg_path_silent p now of (a, p) \<Rightarrow> (act OR a, p)) else (act, p))"

definition wg_path_tick :: "wg_path_t \<Rightarrow> i64 \<Rightarrow> u32 \<times> wg_path_t" where
  "wg_path_tick p now =
     (if \<not> managed p then (0, p)
      else case mode p of
        WG_PATH_DIRECT \<Rightarrow> wg_path_check_answer p now
      | WG_PATH_DUAL \<Rightarrow>
          if why p = WG_PATH_WHY_DOUBT then tick_doubt p now
          else if ping_us p < since_us p
          then (WG_PATH_ACT_PING, p\<lparr>ping_us := (if now > since_us p then now else since_us p)\<rparr>)
          else if wg_timer_due now (ping_us p) (WG_PATH_PING_TIMEOUT_MS * 1000)
          then (let lapsed = WG_PATH_LAPSE_PENDING p;
                    p = p\<lparr>mode := WG_PATH_RELAY, since_us := now, reprobe_ms := WG_PATH_REPROBE_MIN_MS,
                          reprobe_us := now + uint WG_PATH_REPROBE_MIN_MS * 1000, deaths := deaths p + 1\<rparr>;
                    (r, p) = (if lapsed then wg_path_rescue p now else (0, p))
                in (WG_PATH_ACT_PROBE OR r, p))
          else (0, p)
      | WG_PATH_RELAY \<Rightarrow>
          if wg_path_reprobe_live p \<and> now \<ge> reprobe_us p
          then (let ms = (if reprobe_ms p * 2 > WG_PATH_REPROBE_MAX_MS then WG_PATH_REPROBE_MAX_MS else reprobe_ms p * 2)
                in (WG_PATH_ACT_PING OR WG_PATH_ACT_PROBE, p\<lparr>ping_us := now, reprobe_ms := ms, reprobe_us := now + uint ms * 1000\<rparr>))
          else (0, p))"

definition wg_path_next_deadline :: "wg_path_t \<Rightarrow> i64" where
  "wg_path_next_deadline p =
     (if \<not> managed p then INT64_MAX
      else case mode p of
        WG_PATH_DIRECT \<Rightarrow> if await_us p \<noteq> 0 then wg_timer_at (await_us p) (WG_PATH_ANSWER_MS * 1000) else INT64_MAX
      | WG_PATH_DUAL \<Rightarrow>
          if why p = WG_PATH_WHY_DOUBT
          then (let w2 = (if await_us p \<noteq> 0 then wg_timer_at (await_us p) (WG_PATH_ANSWER_MS * 1000) else INT64_MAX)
                in if test_at_us p \<noteq> 0 \<and> test_at_us p < w2 then test_at_us p else w2)
          else if ping_us p < since_us p then since_us p
          else wg_timer_at (ping_us p) (WG_PATH_PING_TIMEOUT_MS * 1000)
      | WG_PATH_RELAY \<Rightarrow> if wg_path_reprobe_live p then reprobe_us p else INT64_MAX)"

definition wg_path_on_keepalive :: "wg_path_t \<Rightarrow> i64 \<Rightarrow> u32 \<times> wg_path_t" where
  "wg_path_on_keepalive p now =
     (let p = p\<lparr>peer_wg_us := now, peer_tr_us := now, silent_streak := 0\<rparr>
      in if WG_PATH_IN_DOUBT p then wg_path_resolve p now
         else if mode p \<noteq> WG_PATH_DIRECT then (0, p)
         else let p = p\<lparr>await_us := 0, ka_us := now\<rparr>
              in if last_relay_data_us p = 0 \<or> wg_timer_due now (last_relay_data_us p) (WG_PATH_ANSWER_MS * 1000)
                 then (let p = p\<lparr>proof_us := now, doubts := 0\<rparr>;
                           d = now - WG_PATH_ANSWER_MS * 1000
                       in (0, if d > delivered_us p then p\<lparr>delivered_us := d\<rparr> else p))
                 else (0, p))"

definition wg_path_rescue_from :: "wg_path_t \<Rightarrow> i64" where
  "wg_path_rescue_from p = delivered_us p"

definition wg_path_keys_confirmed :: "wg_path_t \<Rightarrow> bool" where
  "wg_path_keys_confirmed p \<longleftrightarrow> peer_tr_us p > hs_us p"

definition wg_path_rekey_gate :: "bool \<Rightarrow> bool \<Rightarrow> i64 \<Rightarrow> i64 \<Rightarrow> wg_rekey_gate_t" where
  "wg_path_rekey_gate up in_flight now last_init_us =
     (if \<not> up then WG_REKEY_NO_SESSION
      else if in_flight then WG_REKEY_IN_FLIGHT
      else if \<not> wg_timer_due now last_init_us (WG_PATH_REKEY_TIMEOUT_MS * 1000) then WG_REKEY_TOO_SOON
      else WG_REKEY_GO)"

definition wg_path_init_route :: "wg_path_t \<Rightarrow> wg_rescue_sum_t \<Rightarrow> bool \<Rightarrow> bool \<Rightarrow> i64 \<Rightarrow> u32 \<Rightarrow> wg_init_route_t \<times> wg_path_t" where
  "wg_path_init_route p ring rekey relay_up now cur_gen =
     (if \<not> rekey \<or> \<not> relay_up \<or>
         \<not> wg_rescue_init_risk ring now (wg_path_rescue_from p) (WG_PATH_RESCUE_MAX_MS * 1000) cur_gen (wg_path_keys_confirmed p)
      then (WG_INIT_ANY_PATH, p\<lparr>init_hold_us := 0\<rparr>)
      else let p = (if init_hold_us p = 0 then p\<lparr>init_hold_us := now\<rparr> else p)
           in (if wg_timer_due now (init_hold_us p) (WG_PATH_INIT_HOLD_MS * 1000)
               then WG_INIT_ANY_PATH else WG_INIT_DERP_BEHIND_RESEND, p))"

definition wg_path_on_peer_data :: "wg_path_t \<Rightarrow> i64 \<Rightarrow> u32 \<times> wg_path_t" where
  "wg_path_on_peer_data p now =
     (let p = p\<lparr>peer_wg_us := now, peer_tr_us := now, silent_streak := 0\<rparr>
      in if WG_PATH_IN_DOUBT p then wg_path_resolve p now
         else if mode p = WG_PATH_DIRECT \<and> hs_us p \<noteq> 0 \<and> \<not> grace_used p \<and> \<not> wg_timer_due now (hs_us p) (WG_PATH_ANSWER_MS * 1000)
         then (0, p\<lparr>grace_used := True, await_us := 0\<rparr>) else (0, p))"

definition wg_path_on_handshake :: "wg_path_t \<Rightarrow> i64 \<Rightarrow> u32 \<times> wg_path_t" where
  "wg_path_on_handshake p now =
     (let p = p\<lparr>hs_us := now, peer_wg_us := now, grace_used := False, init_hold_us := 0\<rparr>
      in if WG_PATH_IN_DOUBT p then wg_path_resolve p now
         else if mode p = WG_PATH_DIRECT then (0, p\<lparr>await_us := 0\<rparr>) else (0, p))"

definition wg_path_on_endpoint_change :: "wg_path_t \<Rightarrow> i64 \<Rightarrow> u32 \<times> wg_path_t" where
  "wg_path_on_endpoint_change p now =
     (let (act, p) = (if WG_PATH_LAPSE_PENDING p then wg_path_rescue p now else (0, p));
          p = wg_path_enter_dual p now WG_PATH_WHY_ENDPOINT
      in (act, p\<lparr>ping_us := 0, proof_us := 0, rtt_us := 0, rtt_at_us := 0, cand_valid := False\<rparr>))"

definition wg_path_retest_hold :: "wg_path_t \<Rightarrow> i64 \<Rightarrow> bool" where
  "wg_path_retest_hold p now \<longleftrightarrow> mode p = WG_PATH_RELAY \<and> (why p = WG_PATH_WHY_SILENT \<or> why p = WG_PATH_WHY_UNDELIVERED) \<and>
     \<not> (ping_us p \<ge> since_us p \<and> \<not> wg_timer_due now (ping_us p) (WG_PATH_PING_TIMEOUT_MS * 1000))"

text \<open>A pong from the current endpoint, and one from another.\<close>

definition pong_current :: "wg_path_t \<Rightarrow> i64 \<Rightarrow> u32 \<Rightarrow> bool \<Rightarrow> wg_path_pong_t \<times> u32 \<times> wg_path_t" where
  "pong_current p now rtt cur_private =
     (let p = p\<lparr>rtt_us := rtt, rtt_at_us := now\<rparr>
      in if WG_PATH_IN_DOUBT p then (WG_PATH_PONG_KEPT, 0, p\<lparr>cand_valid := False\<rparr>)
         else if mode p = WG_PATH_DUAL \<and> why p = WG_PATH_WHY_ANSWER \<and> peer_wg_us p < lapse_from_us p
         then (let p = (if doubts p < 255 then p\<lparr>doubts := doubts p + 1\<rparr> else p)
               in (WG_PATH_PONG_DOUBT, 0,
                   p\<lparr>doubts_total := doubts_total p + 1, why := WG_PATH_WHY_DOUBT, await_us := 0,
                     unconfirmed_us := now - lapse_from_us p, cand_valid := False,
                     test_at_us := (if silent_streak p = 0 then now else 0)\<rparr>))
         else let p = wg_path_confirm p now;
                  cand = (cand_valid p \<and> \<not> wg_timer_due now (cand_at_us p) (WG_PATH_ROUND_MS * 1000));
                  p = p\<lparr>cand_valid := False\<rparr>
              in if cand \<and> wg_path_better (cand_rtt_us p) (cand_private p) rtt cur_private
                 then (WG_PATH_PONG_ROAM_CAND, 0, p\<lparr>rtt_us := cand_rtt_us p, rtt_at_us := cand_at_us p, roams := roams p + 1\<rparr>)
                 else (WG_PATH_PONG_CONFIRMED, 0, p))"

definition pong_other :: "wg_path_t \<Rightarrow> i64 \<Rightarrow> u32 \<Rightarrow> u32 \<Rightarrow> u16 \<Rightarrow> bool \<Rightarrow> bool \<Rightarrow> wg_path_pong_t \<times> u32 \<times> wg_path_t" where
  "pong_other p now rtt src_v4_be src_port src_private cur_private =
     (let rnd = WG_PATH_ROUND_MS * 1000;
          take_it = ((\<not> wg_path_valid p now \<and> \<not> WG_PATH_IN_DOUBT p) \<or>
                  (rtt_at_us p \<noteq> 0 \<and> \<not> wg_timer_due now (rtt_at_us p) rnd \<and> wg_path_better rtt src_private (rtt_us p) cur_private))
      in if take_it
         then (let (act, p) = (if WG_PATH_LAPSE_PENDING p then wg_path_rescue p now else (0, p));
                   p = wg_path_confirm (p\<lparr>rtt_us := rtt, rtt_at_us := now, cand_valid := False\<rparr>) now
               in (WG_PATH_PONG_ROAM, act, p\<lparr>roams := roams p + 1\<rparr>))
         else if \<not> cand_valid p \<or> wg_timer_due now (cand_at_us p) rnd \<or> (src_private \<and> \<not> cand_private p) \<or>
                 (src_private = cand_private p \<and> rtt < cand_rtt_us p)
         then (WG_PATH_PONG_KEPT, 0,
               p\<lparr>cand_valid := True, cand_v4_be := src_v4_be, cand_port := src_port, cand_private := src_private,
                 cand_rtt_us := rtt, cand_at_us := now\<rparr>)
         else (WG_PATH_PONG_KEPT, 0, p))"

definition wg_path_on_pong :: "wg_path_t \<Rightarrow> i64 \<Rightarrow> u32 \<Rightarrow> bool \<Rightarrow> u32 \<Rightarrow> u16 \<Rightarrow> bool \<Rightarrow> bool \<Rightarrow> wg_path_pong_t \<times> u32 \<times> wg_path_t" where
  "wg_path_on_pong p now rtt from_current src_v4_be src_port src_private cur_private =
     (if wg_path_retest_hold p now
      then (WG_PATH_PONG_KEPT, 0, if from_current then p\<lparr>rtt_us := rtt, rtt_at_us := now\<rparr> else p)
      else if from_current then pong_current p now rtt cur_private
      else pong_other p now rtt src_v4_be src_port src_private cur_private)"

definition wg_init_fresh_due :: "i64 \<Rightarrow> i64 \<Rightarrow> bool" where
  "wg_init_fresh_due now init_us = wg_timer_due now init_us (WG_INIT_FRESH_AFTER_MS * 1000)"

section \<open>Runs\<close>

text \<open>The calls that drive the machine, each with the instant it is made at.\<close>

datatype path_event = Send bool | Tick | Keepalive | Peer_Data | Handshake | Endpoint_Change
  | Pong u32 bool u32 u16 bool bool | Set_Managed bool | Init_Route wg_rescue_sum_t bool bool u32

fun path_step :: "i64 \<Rightarrow> path_event \<Rightarrow> wg_path_t \<Rightarrow> u32 \<times> wg_path_t" where
  "path_step now (Send data) p = (case wg_path_on_send p now data of (act, _, p) \<Rightarrow> (act, p))"
| "path_step now Tick p = wg_path_tick p now"
| "path_step now Keepalive p = wg_path_on_keepalive p now"
| "path_step now Peer_Data p = wg_path_on_peer_data p now"
| "path_step now Handshake p = wg_path_on_handshake p now"
| "path_step now Endpoint_Change p = wg_path_on_endpoint_change p now"
| "path_step now (Pong rtt cur v4 port sp cp) p = (case wg_path_on_pong p now rtt cur v4 port sp cp of (_, act, p) \<Rightarrow> (act, p))"
| "path_step now (Set_Managed b) p = (0, wg_path_set_managed p now b)"
| "path_step now (Init_Route ring rekey up gen) p = (0, snd (wg_path_init_route p ring rekey up now gen))"

inductive path_reach :: "wg_path_t \<Rightarrow> bool" where
  path_start: "path_reach (wg_path_init now mgd)"
| path_next: "path_reach p \<Longrightarrow> path_step now ev p = (act, p') \<Longrightarrow> path_reach p'"

fun path_run :: "(i64 \<times> path_event) list \<Rightarrow> wg_path_t \<Rightarrow> u32 list \<times> wg_path_t" where
  "path_run [] p = ([], p)"
| "path_run ((now, ev) # evs) p =
     (case path_step now ev p of (act, p) \<Rightarrow> (case path_run evs p of (acts, p) \<Rightarrow> (act # acts, p)))"

lemmas path_ms = WG_PATH_ANSWER_MS_def WG_PATH_KEEPALIVE_TIMEOUT_MS_def WG_PATH_ANSWER_SLACK_MS_def WG_PATH_PING_TIMEOUT_MS_def
  WG_PATH_REPROBE_MIN_MS_def WG_PATH_REPROBE_MAX_MS_def WG_PATH_INIT_HOLD_MS_def WG_PATH_REKEY_TIMEOUT_MS_def

lemmas path_acts = WG_PATH_ACT_PING_def WG_PATH_ACT_PROBE_def WG_PATH_ACT_RESCUE_def WG_PATH_ACT_REKEY_def WG_PATH_ACT_TEST_def

lemmas path_small = wg_path_enter_dual_def wg_path_lapse_def wg_path_check_answer_def wg_path_rescue_def wg_path_confirm_def
  wg_path_resolve_def wg_path_silent_def WG_PATH_LAPSE_PENDING_def WG_PATH_IN_DOUBT_def Let_def

section \<open>Invariant\<close>

definition path_inv :: "wg_path_t \<Rightarrow> bool" where
  "path_inv p \<longleftrightarrow>
     (mode p = WG_PATH_RELAY \<longrightarrow> WG_PATH_REPROBE_MIN_MS \<le> reprobe_ms p \<and> reprobe_ms p \<le> WG_PATH_REPROBE_MAX_MS \<and> why p \<noteq> WG_PATH_WHY_DOUBT) \<and>
     (mode p \<noteq> WG_PATH_RELAY \<longrightarrow> reprobe_ms p = 0) \<and>
     (mode p = WG_PATH_DUAL \<longrightarrow> why p \<noteq> WG_PATH_WHY_SILENT \<and> why p \<noteq> WG_PATH_WHY_UNDELIVERED \<and>
        (why p \<noteq> WG_PATH_WHY_DOUBT \<longrightarrow> await_us p = 0)) \<and>
     (WG_PATH_IN_DOUBT p \<longrightarrow> 0 < doubts p)"

lemma relay_ms:
  "(let shift = (if d > 3 then 3 else if d > 0 then unat (d :: u8) - 1 else 0); ms = push_bit shift WG_PATH_REPROBE_MIN_MS
    in if ms > WG_PATH_REPROBE_MAX_MS then WG_PATH_REPROBE_MAX_MS else ms) \<in> {WG_PATH_REPROBE_MIN_MS, 20000, 40000, WG_PATH_REPROBE_MAX_MS}"
proof -
  have n: "unat (0 :: u8) = 0" "unat (1 :: u8) = 1" "unat (2 :: u8) = 2" "unat (3 :: u8) = 3" by simp_all
  have "d > 3 \<or> d = 0 \<or> d = 1 \<or> d = 2 \<or> d = 3"
    unfolding word_unat_eq_iff word_less_nat_alt n by linarith
  then consider "d > 3" | "d = 0" | "d = 1" | "d = 2" | "d = 3" by blast
  then show ?thesis by cases (simp_all add: path_ms Let_def push_bit_eq_mult)
qed

lemma enter_relay_eq:
  obtains ms where "wg_path_enter_relay p now w =
      p\<lparr>mode := WG_PATH_RELAY, why := w, since_us := now, cand_valid := False, reprobe_ms := ms, reprobe_us := now + uint ms * 1000\<rparr>"
    "WG_PATH_REPROBE_MIN_MS \<le> ms" "ms \<le> WG_PATH_REPROBE_MAX_MS"
proof -
  define ms where "ms = (let shift = (if doubts p > 3 then 3 else if doubts p > 0 then unat (doubts p) - 1 else 0); ms = push_bit shift WG_PATH_REPROBE_MIN_MS
    in if ms > WG_PATH_REPROBE_MAX_MS then WG_PATH_REPROBE_MAX_MS else ms)"
  have "ms \<in> {WG_PATH_REPROBE_MIN_MS, 20000, 40000, WG_PATH_REPROBE_MAX_MS}" unfolding ms_def by (rule relay_ms)
  then show ?thesis by (intro that [of ms]) (auto simp: wg_path_enter_relay_def ms_def Let_def path_ms)
qed

lemma u8_succ_pos: "d < 255 \<Longrightarrow> 0 < d + (1 :: u8)"
proof -
  assume "d < 255"
  then have "unat d < 255" by (simp add: word_less_nat_alt)
  then have "unat (d + 1) = unat d + 1" by (simp add: unat_word_ariths(1))
  then show ?thesis by (simp add: word_less_nat_alt)
qed

lemma inv_lapse: "path_inv (snd (wg_path_lapse p now w t))" if "w = WG_PATH_WHY_ANSWER \<or> w = WG_PATH_WHY_IDLE"
  using that by (auto simp: path_inv_def path_small)

lemma inv_check_answer: "path_inv p \<Longrightarrow> path_inv (snd (wg_path_check_answer p now))"
  by (simp add: wg_path_check_answer_def inv_lapse)

lemma inv_on_send: "path_inv p \<Longrightarrow> path_inv (snd (snd (wg_path_on_send p now data)))"
proof -
  assume "path_inv p"
  obtain a q where c: "wg_path_check_answer p now = (a, q)" by (rule prod.exhaust)
  have q: "path_inv q" using inv_check_answer [OF \<open>path_inv p\<close>, of now] c by simp
  obtain b r where l: "wg_path_lapse q now WG_PATH_WHY_IDLE (if ka_us q > proof_us q then ka_us q else proof_us q) = (b, r)" by (rule prod.exhaust)
  have r: "path_inv r" using inv_lapse [of WG_PATH_WHY_IDLE q now] l by (metis snd_conv)
  have upd: "path_inv s \<Longrightarrow> path_inv ((let p = (if (mode s = WG_PATH_DIRECT \<or> WG_PATH_IN_DOUBT s) \<and> await_us s = 0 then s\<lparr>await_us := now\<rparr> else s);
      p = (if mode p \<noteq> WG_PATH_DIRECT then p\<lparr>last_relay_data_us := now\<rparr> else p) in p\<lparr>last_data_us := now\<rparr>))" for s :: wg_path_t
    by (auto simp: path_inv_def WG_PATH_IN_DOUBT_def Let_def)
  show ?thesis
    using \<open>path_inv p\<close> q r upd [of q] upd [of r] by (simp add: wg_path_on_send_def c l Let_def)
qed

lemma inv_resolve: "path_inv p \<Longrightarrow> path_inv (snd (wg_path_resolve p now))"
proof (cases "doubts p < 2")
  case False
  define q where "q = p\<lparr>undelivered := undelivered p + 1, unconfirmed_us := now - lapse_from_us p\<rparr>"
  obtain ms where "wg_path_enter_relay q now WG_PATH_WHY_UNDELIVERED =
      q\<lparr>mode := WG_PATH_RELAY, why := WG_PATH_WHY_UNDELIVERED, since_us := now, cand_valid := False, reprobe_ms := ms, reprobe_us := now + uint ms * 1000\<rparr>"
    "WG_PATH_REPROBE_MIN_MS \<le> ms" "ms \<le> WG_PATH_REPROBE_MAX_MS" by (rule enter_relay_eq)
  then show ?thesis using False by (simp add: wg_path_resolve_def Let_def q_def [symmetric] wg_path_rescue_def path_inv_def WG_PATH_IN_DOUBT_def)
qed (auto simp: path_inv_def path_small)

lemma inv_silent: "path_inv (snd (wg_path_silent p now))"
proof -
  define q where "q = (if silent_streak p < 255 then p\<lparr>silent_streak := silent_streak p + 1\<rparr> else p)"
  define r where "r = q\<lparr>silences := silences q + 1, unconfirmed_us := now - lapse_from_us q\<rparr>"
  obtain ms where "wg_path_enter_relay r now WG_PATH_WHY_SILENT =
      r\<lparr>mode := WG_PATH_RELAY, why := WG_PATH_WHY_SILENT, since_us := now, cand_valid := False, reprobe_ms := ms, reprobe_us := now + uint ms * 1000\<rparr>"
    "WG_PATH_REPROBE_MIN_MS \<le> ms" "ms \<le> WG_PATH_REPROBE_MAX_MS" by (rule enter_relay_eq)
  then show ?thesis by (simp add: wg_path_silent_def Let_def q_def [symmetric] r_def [symmetric] wg_path_rescue_def path_inv_def WG_PATH_IN_DOUBT_def)
qed

lemma snd_case [simp]: "snd (case x of (a, q) \<Rightarrow> (f a, q)) = snd x"
  by (simp split: prod.split)

lemma inv_tick_doubt: "path_inv p \<Longrightarrow> path_inv (snd (tick_doubt p now))"
proof -
  assume "path_inv p"
  moreover from this have "path_inv (p\<lparr>test_at_us := 0, tests := tests p + 1\<rparr>)" by (simp add: path_inv_def WG_PATH_IN_DOUBT_def)
  ultimately show ?thesis by (simp add: tick_doubt_def inv_silent)
qed

lemma inv_tick: "path_inv p \<Longrightarrow> path_inv (snd (wg_path_tick p now))"
proof (cases "mode p")
  case WG_PATH_RELAY
  assume inv: "path_inv p"
  define ms where "ms = (if reprobe_ms p * 2 > WG_PATH_REPROBE_MAX_MS then WG_PATH_REPROBE_MAX_MS else reprobe_ms p * 2)"
  have b: "unat (reprobe_ms p) \<le> 60000" "10000 \<le> unat (reprobe_ms p)"
    using inv WG_PATH_RELAY by (simp_all add: path_inv_def path_ms word_le_nat_alt)
  then have "unat (reprobe_ms p * 2) = unat (reprobe_ms p) * 2" by (simp add: unat_word_ariths(2))
  then have "WG_PATH_REPROBE_MIN_MS \<le> ms \<and> ms \<le> WG_PATH_REPROBE_MAX_MS"
    using b by (auto simp: ms_def path_ms word_le_nat_alt word_less_nat_alt)
  then show ?thesis using inv WG_PATH_RELAY
    by (simp add: wg_path_tick_def ms_def [symmetric] Let_def path_inv_def WG_PATH_IN_DOUBT_def)
next
  case WG_PATH_DUAL
  assume inv: "path_inv p"
  then show ?thesis using WG_PATH_DUAL inv_tick_doubt [of p now]
    by (auto simp: wg_path_tick_def Let_def path_inv_def WG_PATH_IN_DOUBT_def wg_path_rescue_def path_ms)
next
  case WG_PATH_DIRECT
  assume inv: "path_inv p"
  then show ?thesis using WG_PATH_DIRECT inv_check_answer [of p now] by (simp add: wg_path_tick_def)
qed

lemma inv_packets:
  assumes "path_inv p"
  shows "path_inv (snd (wg_path_on_keepalive p now))" "path_inv (snd (wg_path_on_peer_data p now))" "path_inv (snd (wg_path_on_handshake p now))"
proof -
  have a: "path_inv (p\<lparr>peer_wg_us := now, peer_tr_us := now, silent_streak := 0\<rparr>)"
    "path_inv (p\<lparr>hs_us := now, peer_wg_us := now, grace_used := False, init_hold_us := 0\<rparr>)"
    using assms by (simp_all add: path_inv_def WG_PATH_IN_DOUBT_def)
  show "path_inv (snd (wg_path_on_keepalive p now))"
    using inv_resolve [OF a(1), of now] a(1) by (auto simp: wg_path_on_keepalive_def Let_def path_inv_def WG_PATH_IN_DOUBT_def)
  show "path_inv (snd (wg_path_on_peer_data p now))"
    using inv_resolve [OF a(1), of now] a(1) by (auto simp: wg_path_on_peer_data_def Let_def path_inv_def WG_PATH_IN_DOUBT_def)
  show "path_inv (snd (wg_path_on_handshake p now))"
    using inv_resolve [OF a(2), of now] a(2) by (auto simp: wg_path_on_handshake_def Let_def path_inv_def WG_PATH_IN_DOUBT_def)
qed

lemma inv_endpoint: "path_inv (snd (wg_path_on_endpoint_change p now))"
  by (simp add: wg_path_on_endpoint_change_def path_small path_inv_def)

lemma inv_confirm: "path_inv p \<Longrightarrow> path_inv (wg_path_confirm p now)"
  by (simp add: path_inv_def path_small)

lemma inv_pong: "path_inv p \<Longrightarrow> path_inv (snd (snd (wg_path_on_pong p now rtt cur v4 port sp cp)))"
proof -
  assume inv: "path_inv p"
  have cf: "path_inv (wg_path_confirm (p\<lparr>rtt_us := rtt, rtt_at_us := now\<rparr>) now)" for now
    using inv by (intro inv_confirm) (simp add: path_inv_def WG_PATH_IN_DOUBT_def)
  have a: "path_inv (snd (snd (pong_current p now rtt cp)))"
  proof -
    define r where "r = p\<lparr>rtt_us := rtt, rtt_at_us := now\<rparr>"
    have upd: "path_inv (s\<lparr>cand_valid := False\<rparr>)" "path_inv (s\<lparr>cand_valid := False, rtt_us := x, rtt_at_us := y, roams := z\<rparr>)"
      if "path_inv s" for s x y z using that by (simp_all add: path_inv_def WG_PATH_IN_DOUBT_def)
    have doubt: "path_inv (r\<lparr>doubts := d, doubts_total := x, why := WG_PATH_WHY_DOUBT, await_us := 0, unconfirmed_us := y, cand_valid := False, test_at_us := z\<rparr>)"
      if "mode r = WG_PATH_DUAL" "0 < d" for d x y z using inv that by (simp add: path_inv_def WG_PATH_IN_DOUBT_def r_def)
    have "0 < (if doubts p < 255 then doubts p + 1 else doubts p)" using u8_succ_pos [of "doubts p"] by (auto simp: word_gt_0)
    moreover have "(if doubts r < 255 then r\<lparr>doubts := doubts r + 1\<rparr> else r) = r\<lparr>doubts := if doubts p < 255 then doubts p + 1 else doubts p\<rparr>"
      by (simp add: r_def)
    moreover have "path_inv r" using inv by (simp add: path_inv_def WG_PATH_IN_DOUBT_def r_def)
    ultimately show ?thesis using cf [of now] upd doubt unfolding pong_current_def r_def [symmetric] Let_def by simp
  qed
  have b: "path_inv (snd (snd (pong_other p now rtt v4 port sp cp)))"
    using inv by (simp add: pong_other_def path_small path_inv_def)
  show ?thesis using inv a b by (auto simp: wg_path_on_pong_def path_inv_def WG_PATH_IN_DOUBT_def)
qed

lemma inv_step: "path_inv p \<Longrightarrow> path_inv (snd (path_step now ev p))"
proof (cases ev)
  case (Set_Managed b)
  assume "path_inv p"
  then show ?thesis using Set_Managed by (auto simp: wg_path_set_managed_def wg_path_init_def path_inv_def WG_PATH_IN_DOUBT_def)
next
  case (Init_Route ring rekey up gen)
  assume "path_inv p"
  then show ?thesis using Init_Route by (auto simp: wg_path_init_route_def Let_def path_inv_def WG_PATH_IN_DOUBT_def)
qed (use inv_on_send inv_tick inv_packets inv_endpoint inv_pong in \<open>auto split: prod.splits\<close>, (metis snd_conv)+)

lemma path_reach_inv: "path_reach p \<Longrightarrow> path_inv p"
proof (induction rule: path_reach.induct)
  case (path_start now mgd)
  then show ?case by (simp add: wg_path_init_def path_inv_def WG_PATH_IN_DOUBT_def)
next
  case (path_next p now ev act p')
  then show ?case using inv_step [of p now ev] by simp
qed

section \<open>The timer pass and its deadline\<close>

lemma silent_relay:
  assumes "wg_path_silent p now = (act, q)"
  shows "mode q = WG_PATH_RELAY \<and> now < reprobe_us q \<and> managed q = managed p \<and> act AND WG_PATH_ACT_RESCUE \<noteq> 0 \<and> act \<noteq> 0 \<and>
    (act AND WG_PATH_ACT_REKEY \<noteq> 0 \<longrightarrow> silent_streak p = 0) \<and> silent_streak q \<noteq> 0"
proof -
  define r where "r = (if silent_streak p < 255 then p\<lparr>silent_streak := silent_streak p + 1\<rparr> else p)"
  define s where "s = r\<lparr>silences := silences r + 1, unconfirmed_us := now - lapse_from_us r\<rparr>"
  obtain ms where ms: "wg_path_enter_relay s now WG_PATH_WHY_SILENT =
      s\<lparr>mode := WG_PATH_RELAY, why := WG_PATH_WHY_SILENT, since_us := now, cand_valid := False, reprobe_ms := ms, reprobe_us := now + uint ms * 1000\<rparr>"
    "WG_PATH_REPROBE_MIN_MS \<le> ms" "ms \<le> WG_PATH_REPROBE_MAX_MS" by (rule enter_relay_eq)
  have pos: "0 < uint ms" using ms(2) by (simp add: path_ms word_le_def)
  have str: "silent_streak r \<noteq> 0 \<and> (silent_streak r = 1 \<longrightarrow> silent_streak p = 0)"
  proof (cases "silent_streak p < 255")
    case True
    then show ?thesis using u8_succ_pos [of "silent_streak p"] by (simp add: r_def word_gt_0)
  next
    case False
    then have "silent_streak p \<noteq> 0" "silent_streak p \<noteq> 1" by auto
    then show ?thesis using False by (simp add: r_def)
  qed
  have mr: "managed r = managed p" by (simp add: r_def)
  have "act = WG_PATH_ACT_RESCUE OR (if silent_streak r = 1 then WG_PATH_ACT_REKEY else 0)"
    "mode q = WG_PATH_RELAY" "reprobe_us q = now + uint ms * 1000" "managed q = managed p" "silent_streak q = silent_streak r"
    using assms unfolding wg_path_silent_def Let_def r_def [symmetric] s_def [symmetric] ms(1) wg_path_rescue_def
    by (auto simp: s_def mr)
  then show ?thesis using pos str by (cases "silent_streak r = 1") (simp_all add: path_acts)
qed

lemma tick_deadline:
  assumes "path_inv p" "now < INT64_MAX" "wg_path_tick p now = (act, q)"
  shows "(wg_path_next_deadline p \<le> now \<longrightarrow> act \<noteq> 0) \<and>
    (act \<noteq> 0 \<longrightarrow> wg_path_next_deadline p \<le> now \<or> (mode p = WG_PATH_DUAL \<and> ping_us p < since_us p)) \<and>
    (act = 0 \<longrightarrow> q = p) \<and> now < wg_path_next_deadline q"
proof (cases "managed p")
  case True
  note d = wg_path_tick_def wg_path_next_deadline_def wg_timer_at_def wg_timer_due_def
  show ?thesis
  proof (cases "mode p")
    case WG_PATH_DIRECT
    then show ?thesis using True assms(2,3) by (auto simp: d path_small path_ms path_acts split: if_splits)
  next
    case WG_PATH_RELAY
    have q: "path_inv q" using inv_tick [OF assms(1), of now] assms(3) by simp
    have "0 < uint (reprobe_ms q)" if "mode q = WG_PATH_RELAY"
      using q that by (auto simp: path_inv_def path_ms word_le_def)
    then show ?thesis using WG_PATH_RELAY True assms(2,3) by (auto simp: d Let_def path_acts split: if_splits)
  next
    case dual: WG_PATH_DUAL
    show ?thesis
    proof (cases "why p = WG_PATH_WHY_DOUBT")
      case False
      then show ?thesis using dual True assms(2,3)
        by (auto simp: d path_ms path_acts wg_path_rescue_def Let_def split: if_splits)
    next
      case why: True
      define r where "r = (if test_at_us p \<noteq> 0 \<and> now \<ge> test_at_us p then p\<lparr>test_at_us := 0, tests := tests p + 1\<rparr> else p)"
      define a :: u32 where "a = (if test_at_us p \<noteq> 0 \<and> now \<ge> test_at_us p then WG_PATH_ACT_TEST else 0)"
      have t: "wg_path_tick p now = (if await_us p \<noteq> 0 \<and> wg_timer_due now (await_us p) (WG_PATH_ANSWER_MS * 1000)
          then (case wg_path_silent r now of (b, q) \<Rightarrow> (a OR b, q)) else (a, r))"
        using True dual why by (simp add: wg_path_tick_def tick_doubt_def r_def a_def)
      have r: "managed r" "mode r = WG_PATH_DUAL" "why r = WG_PATH_WHY_DOUBT" "await_us r = await_us p" using True dual why by (simp_all add: r_def)
      show ?thesis
      proof (cases "await_us p \<noteq> 0 \<and> wg_timer_due now (await_us p) (WG_PATH_ANSWER_MS * 1000)")
        case due: True
        obtain b q' where b: "wg_path_silent r now = (b, q')" by (rule prod.exhaust)
        have "act = a OR b" "q = q'" using assms(3) t due b by simp_all
        moreover have "b \<noteq> 0" "now < reprobe_us q" "mode q = WG_PATH_RELAY" "managed q" using silent_relay [OF b] r calculation by auto
        moreover have "wg_path_next_deadline p \<le> now"
          using True dual why due by (auto simp: wg_path_next_deadline_def wg_timer_at_def wg_timer_due_def Let_def)
        ultimately show ?thesis using assms(2) by (auto simp: wg_path_next_deadline_def or_eq_0_iff)
      next
        case nd: False
        then have "wg_path_tick p now = (a, r)" unfolding t by auto
        then have "act = a" "q = r" using assms(3) by simp_all
        moreover have "now < wg_path_next_deadline r"
          using nd r assms(2) by (cases "test_at_us p \<noteq> 0 \<and> now \<ge> test_at_us p")
            (simp_all add: wg_path_next_deadline_def wg_timer_at_def wg_timer_due_def Let_def r_def, auto)
        moreover have "wg_path_next_deadline p \<le> now \<longleftrightarrow> test_at_us p \<noteq> 0 \<and> now \<ge> test_at_us p"
          using nd True dual why assms(2) by (auto simp: wg_path_next_deadline_def wg_timer_at_def wg_timer_due_def Let_def)
        ultimately show ?thesis by (auto simp: a_def r_def WG_PATH_ACT_TEST_def)
      qed
    qed
  qed
qed (use assms in \<open>auto simp: wg_path_tick_def wg_path_next_deadline_def\<close>)

section \<open>Evidence and lapses\<close>

lemma resolve_eq:
  assumes "wg_path_resolve p now = (act, q)"
  shows "if doubts p < 2 then act = 0 \<and> mode q = WG_PATH_DIRECT \<and> silent_streak q = silent_streak p
    else act = WG_PATH_ACT_RESCUE \<and> mode q = WG_PATH_RELAY \<and> silent_streak q = silent_streak p"
proof (cases "doubts p < 2")
  case False
  define r where "r = p\<lparr>undelivered := undelivered p + 1, unconfirmed_us := now - lapse_from_us p\<rparr>"
  obtain ms where "wg_path_enter_relay r now WG_PATH_WHY_UNDELIVERED =
      r\<lparr>mode := WG_PATH_RELAY, why := WG_PATH_WHY_UNDELIVERED, since_us := now, cand_valid := False, reprobe_ms := ms, reprobe_us := now + uint ms * 1000\<rparr>"
    by (rule enter_relay_eq)
  then show ?thesis using False assms by (auto simp: wg_path_resolve_def Let_def r_def [symmetric] wg_path_rescue_def) (auto simp: r_def)
qed (use assms in \<open>auto simp: wg_path_resolve_def wg_path_confirm_def Let_def\<close>)

text \<open>What counts as evidence for the direct path in a state: a pong outside the re-test hold (in
  doubt: not one from the current endpoint), or a WireGuard packet that ends the first doubt.\<close>

fun direct_evidence :: "i64 \<Rightarrow> path_event \<Rightarrow> wg_path_t \<Rightarrow> bool" where
  "direct_evidence now (Pong rtt cur v4 port sp cp) p \<longleftrightarrow> \<not> wg_path_retest_hold p now \<and> \<not> (cur \<and> WG_PATH_IN_DOUBT p)"
| "direct_evidence now ev p \<longleftrightarrow> ev \<in> {Keepalive, Peer_Data, Handshake} \<and> WG_PATH_IN_DOUBT p \<and> doubts p < 2"

text \<open>What proves, without a re-send, that a lapse was harmless: a pong of the current endpoint after an idle lapse, or after a lapse since
  whose beginning WireGuard was heard; or the WireGuard packet that ends the first doubt.\<close>

fun lapse_settled :: "path_event \<Rightarrow> wg_path_t \<Rightarrow> bool" where
  "lapse_settled (Pong rtt cur v4 port sp cp) p \<longleftrightarrow> cur \<and> \<not> WG_PATH_IN_DOUBT p \<and> (why p = WG_PATH_WHY_IDLE \<or> lapse_from_us p \<le> peer_wg_us p)"
| "lapse_settled ev p \<longleftrightarrow> ev \<in> {Keepalive, Peer_Data, Handshake} \<and> WG_PATH_IN_DOUBT p \<and> doubts p < 2"

text \<open>What one step does to the mode, a pending lapse and the silent streak.\<close>

definition step_ok :: "i64 \<Rightarrow> path_event \<Rightarrow> wg_path_t \<Rightarrow> u32 \<Rightarrow> wg_path_t \<Rightarrow> bool" where
  "step_ok now ev p act q \<longleftrightarrow>
     (mode q = WG_PATH_DIRECT \<longrightarrow> mode p = WG_PATH_DIRECT \<or> direct_evidence now ev p) \<and>
     (WG_PATH_LAPSE_PENDING p \<longrightarrow> WG_PATH_LAPSE_PENDING q \<or> act AND WG_PATH_ACT_RESCUE \<noteq> 0 \<or>
        (mode q = WG_PATH_DIRECT \<and> lapse_settled ev p) \<or> (ev = Set_Managed True \<and> \<not> managed p)) \<and>
     (act AND WG_PATH_ACT_REKEY \<noteq> 0 \<longrightarrow> silent_streak p = 0 \<and> silent_streak q \<noteq> 0) \<and>
     (silent_streak q = 0 \<longrightarrow> silent_streak p = 0 \<or> ev \<in> {Keepalive, Peer_Data, Set_Managed True})"

lemma step_ok_send: "step_ok now (Send data) p act q" if "path_step now (Send data) p = (act, q)"
  using that by (auto simp: wg_path_on_send_def path_small step_ok_def path_acts split: if_splits)

lemma step_ok_tick:
  assumes "path_inv p" "wg_path_tick p now = (act, q)"
  shows "step_ok now Tick p act q"
proof (cases "managed p \<and> mode p = WG_PATH_DUAL \<and> why p = WG_PATH_WHY_DOUBT")
  case True
  define r where "r = (if test_at_us p \<noteq> 0 \<and> now \<ge> test_at_us p then p\<lparr>test_at_us := 0, tests := tests p + 1\<rparr> else p)"
  define a :: u32 where "a = (if test_at_us p \<noteq> 0 \<and> now \<ge> test_at_us p then WG_PATH_ACT_TEST else 0)"
  have t: "wg_path_tick p now = (if await_us p \<noteq> 0 \<and> wg_timer_due now (await_us p) (WG_PATH_ANSWER_MS * 1000)
      then (case wg_path_silent r now of (b, q) \<Rightarrow> (a OR b, q)) else (a, r))"
    using True by (simp add: wg_path_tick_def tick_doubt_def r_def a_def)
  have r: "mode r = WG_PATH_DUAL" "why r = WG_PATH_WHY_DOUBT" "silent_streak r = silent_streak p" using True by (simp_all add: r_def)
  obtain b q' where b: "wg_path_silent r now = (b, q')" by (rule prod.exhaust)
  have ab: "(a OR b) AND WG_PATH_ACT_RESCUE = b AND WG_PATH_ACT_RESCUE" "(a OR b) AND WG_PATH_ACT_REKEY = b AND WG_PATH_ACT_REKEY" "a AND WG_PATH_ACT_REKEY = 0"
    by (simp_all add: a_def path_acts bit.conj_disj_distrib2)
  consider "act = a OR b" "q = q'" | "act = a" "q = r" using assms(2) t b by (auto split: if_splits)
  then show ?thesis
  proof cases
    case 1
    then show ?thesis using silent_relay [OF b] r by (simp add: step_ok_def ab)
  next
    case 2
    then show ?thesis using r ab True by (simp add: step_ok_def WG_PATH_LAPSE_PENDING_def)
  qed
next
  case False
  then show ?thesis using assms
    by (cases "mode p") (auto simp: wg_path_tick_def step_ok_def path_small path_acts split: if_splits)
qed

lemma step_ok_packets:
  assumes "ev \<in> {Keepalive, Peer_Data, Handshake}" "path_step now ev p = (act, q)"
  shows "step_ok now ev p act q"
proof (cases "WG_PATH_IN_DOUBT p")
  case True
  obtain r where r: "wg_path_resolve r now = (act, q)" "doubts r = doubts p" "silent_streak r = 0 \<and> ev \<noteq> Handshake \<or> silent_streak r = silent_streak p"
  proof -
    have "WG_PATH_IN_DOUBT (p\<lparr>peer_wg_us := now, peer_tr_us := now, silent_streak := 0\<rparr>)"
      "WG_PATH_IN_DOUBT (p\<lparr>hs_us := now, peer_wg_us := now, grace_used := False, init_hold_us := 0\<rparr>)"
      using True by (simp_all add: WG_PATH_IN_DOUBT_def)
    then show ?thesis
      using assms that [of "p\<lparr>peer_wg_us := now, peer_tr_us := now, silent_streak := 0\<rparr>"]
        that [of "p\<lparr>hs_us := now, peer_wg_us := now, grace_used := False, init_hold_us := 0\<rparr>"]
      by (auto simp: wg_path_on_keepalive_def wg_path_on_peer_data_def wg_path_on_handshake_def Let_def)
  qed
  show ?thesis using resolve_eq [OF r(1)] r(2,3) True assms(1)
    by (cases "doubts p < 2") (auto simp: step_ok_def path_acts)
next
  case False
  then show ?thesis using assms
    by (auto simp: wg_path_on_keepalive_def wg_path_on_peer_data_def wg_path_on_handshake_def Let_def step_ok_def
        WG_PATH_IN_DOUBT_def WG_PATH_LAPSE_PENDING_def split: if_splits)
qed

lemma step_ok_endpoint: "wg_path_on_endpoint_change p now = (act, q) \<Longrightarrow> step_ok now Endpoint_Change p act q"
  by (auto simp: wg_path_on_endpoint_change_def path_small step_ok_def path_acts split: if_splits)

lemma step_ok_pong:
  assumes "path_step now (Pong rtt cur v4 port sp cp) p = (act, q)"
  shows "step_ok now (Pong rtt cur v4 port sp cp) p act q"
proof (cases "wg_path_retest_hold p now")
  case True
  then show ?thesis using assms by (cases cur) (auto simp: wg_path_on_pong_def step_ok_def WG_PATH_LAPSE_PENDING_def wg_path_retest_hold_def)
next
  case False
  show ?thesis
  proof (cases cur)
    case True
    then show ?thesis using False assms
      by (auto simp: wg_path_on_pong_def pong_current_def path_small step_ok_def split: if_splits)
  next
    case other: False
    define t where "t = ((\<not> wg_path_valid p now \<and> \<not> WG_PATH_IN_DOUBT p) \<or>
        (rtt_at_us p \<noteq> 0 \<and> \<not> wg_timer_due now (rtt_at_us p) (WG_PATH_ROUND_MS * 1000) \<and> wg_path_better rtt sp (rtt_us p) cp))"
    have act: "act = (if t \<and> WG_PATH_LAPSE_PENDING p then WG_PATH_ACT_RESCUE else 0)" "mode q = (if t then WG_PATH_DIRECT else mode p)"
      "silent_streak q = silent_streak p" "\<not> t \<Longrightarrow> why q = why p"
      using other False assms unfolding path_step.simps wg_path_on_pong_def pong_other_def Let_def t_def [symmetric]
      by (cases t; cases "WG_PATH_LAPSE_PENDING p"; cases "mode p = WG_PATH_DIRECT";
          auto simp: wg_path_rescue_def wg_path_confirm_def Let_def split: if_splits)+
    show ?thesis using act other False unfolding step_ok_def
      by (cases t) (simp_all add: path_acts WG_PATH_LAPSE_PENDING_def WG_PATH_IN_DOUBT_def)
  qed
qed

lemma step_ok_all:
  assumes "path_inv p" "path_step now ev p = (act, q)"
  shows "step_ok now ev p act q"
proof (cases ev)
  case Tick
  then show ?thesis using step_ok_tick assms by simp
next
  case (Set_Managed b)
  then show ?thesis using assms by (auto simp: wg_path_set_managed_def wg_path_init_def step_ok_def WG_PATH_LAPSE_PENDING_def split: if_splits)
next
  case (Init_Route ring rekey up gen)
  then show ?thesis using assms by (auto simp: wg_path_init_route_def Let_def step_ok_def WG_PATH_LAPSE_PENDING_def split: if_splits)
next
  case Endpoint_Change
  then show ?thesis using assms by (simp add: step_ok_endpoint)
qed (use assms step_ok_send step_ok_packets step_ok_pong in simp_all)


text \<open>Rekey requests against the packets that end a silent streak.\<close>

definition ends_streak :: "path_event \<Rightarrow> bool" where
  "ends_streak ev \<longleftrightarrow> ev = Keepalive \<or> ev = Peer_Data \<or> ev = Set_Managed True"

lemma rekeys_run:
  assumes "path_inv p" "path_run evs p = (acts, q)"
  shows "length (filter (\<lambda>a. a AND WG_PATH_ACT_REKEY \<noteq> 0) acts) + (if silent_streak q = 0 then 1 else 0)
    \<le> length (filter (\<lambda>(_, ev). ends_streak ev) evs) + (if silent_streak p = 0 then 1 else 0)"
  using assms
proof (induction evs arbitrary: p acts)
  case (Cons e evs)
  obtain now ev where e: "e = (now, ev)" by (rule prod.exhaust)
  obtain act r where r: "path_step now ev p = (act, r)" by (rule prod.exhaust)
  obtain as where as: "path_run evs r = (as, q)" "acts = act # as" using Cons.prems(2) by (auto simp: e r split: prod.splits)
  have inv: "path_inv r" using inv_step [OF Cons.prems(1), of now ev] r by simp
  have ok: "(act AND WG_PATH_ACT_REKEY \<noteq> 0 \<longrightarrow> silent_streak p = 0 \<and> silent_streak r \<noteq> 0) \<and> (silent_streak r = 0 \<longrightarrow> silent_streak p = 0 \<or> ends_streak ev)"
    using step_ok_all [OF Cons.prems(1) r] by (auto simp: step_ok_def ends_streak_def)
  show ?case using Cons.IH [OF inv as(1)] ok by (auto simp: e as(2) split: if_splits)
qed simp

section \<open>Properties\<close>

text \<open>C8: The timer pass and the deadline it sleeps until agree, so that the receive task neither
  misses a transition nor spins.  In every reachable state the pass acts whenever the deadline has
  come; it acts before that only to send the first ping of a DUAL phase; a pass that does not act
  changes nothing; and after a pass, however late, the next deadline lies ahead.  And a dead
  path is left on time: in DIRECT with an unanswered data frame, two passes at the announced
  deadlines, 12 s and 5 s later, ping the endpoint and then move to DERP and re-send.\<close>

theorem path_deadlines:
  assumes "path_reach p" "now < INT64_MAX" "wg_path_tick p now = (act, q)"
  shows "(wg_path_next_deadline p \<le> now \<longrightarrow> act \<noteq> 0) \<and>
    (act \<noteq> 0 \<longrightarrow> wg_path_next_deadline p \<le> now \<or> (mode p = WG_PATH_DUAL \<and> ping_us p < since_us p)) \<and>
    (act = 0 \<longrightarrow> q = p) \<and> now < wg_path_next_deadline q \<and>
    (managed p \<and> mode p = WG_PATH_DIRECT \<and> await_us p \<noteq> 0 \<and> now = wg_path_next_deadline p \<longrightarrow>
      now = await_us p + 12000001 \<and> act = WG_PATH_ACT_PING \<and> mode q = WG_PATH_DUAL \<and>
      (let t = wg_path_next_deadline q; (act', r) = wg_path_tick q t
       in t = now + 5000001 \<and> act' = WG_PATH_ACT_PROBE OR WG_PATH_ACT_RESCUE \<and> mode r = WG_PATH_RELAY))"
proof -
  have "now = await_us p + 12000001 \<and> act = WG_PATH_ACT_PING \<and> mode q = WG_PATH_DUAL \<and>
      (let t = wg_path_next_deadline q; (act', r) = wg_path_tick q t
       in t = now + 5000001 \<and> act' = WG_PATH_ACT_PROBE OR WG_PATH_ACT_RESCUE \<and> mode r = WG_PATH_RELAY)"
    if c: "managed p" "mode p = WG_PATH_DIRECT" "await_us p \<noteq> 0" "now = wg_path_next_deadline p"
  proof -
    have now: "now = await_us p + 12000001" using c by (simp add: wg_path_next_deadline_def wg_timer_at_def path_ms)
    then have "wg_timer_due now (await_us p) (WG_PATH_ANSWER_MS * 1000)" by (simp add: wg_timer_due_def path_ms)
    then have t: "wg_path_tick p now = wg_path_lapse p now WG_PATH_WHY_ANSWER (await_us p)"
      using c(1-3) by (simp add: wg_path_tick_def wg_path_check_answer_def)
    then have q: "act = WG_PATH_ACT_PING" "mode q = WG_PATH_DUAL" "why q = WG_PATH_WHY_ANSWER" "ping_us q = now" "since_us q = now" "managed q"
      using assms(3) c(1) by (auto simp: wg_path_lapse_def wg_path_enter_dual_def Let_def)
    then have d: "wg_path_next_deadline q = now + 5000001" by (simp add: wg_path_next_deadline_def wg_timer_at_def path_ms)
    show ?thesis using now q unfolding Let_def d
      by (auto simp: wg_path_tick_def wg_timer_due_def path_ms WG_PATH_LAPSE_PENDING_def wg_path_rescue_def Let_def)
  qed
  then show ?thesis using tick_deadline [OF path_reach_inv [OF assms(1)] assms(2,3)] by blast
qed

theorem path_deadlines_witness:
  "wg_path_tick (wg_path_init 5 True) 7 = (WG_PATH_ACT_PING, (wg_path_init 5 True)\<lparr>ping_us := 7\<rparr>) \<and>
   7 < wg_path_next_deadline ((wg_path_init 5 True)\<lparr>ping_us := 7\<rparr>)"
proof -
  have t: "wg_path_tick (wg_path_init 5 True) 7 = (WG_PATH_ACT_PING, (wg_path_init 5 True)\<lparr>ping_us := 7\<rparr>)"
    by (simp add: wg_path_tick_def wg_path_init_def)
  have "(7 :: i64) < INT64_MAX" by (simp add: INT64_MAX_def)
  then show ?thesis using path_deadlines [OF path_start _ t] t by blast
qed



text \<open>C7: No lapse is forgotten.  While a lapse is pending, direct-only frames sent before it may be lost; whatever the next step is, the lapse stays
  pending, or the step asks for the re-send via DERP, or the path is DIRECT again on proof: the current endpoint answered, and the
  lapse was an idle one or WireGuard was heard since it began, or the step is the WireGuard packet that ends the first doubt.  A pong
  of another endpoint is never enough.  The only other way out is that a session without a DiscoKey gets one and starts over.\<close>

theorem path_lapse_rescued:
  assumes "path_reach p" "path_step now ev p = (act, q)" "WG_PATH_LAPSE_PENDING p"
  shows "WG_PATH_LAPSE_PENDING q \<or> act AND WG_PATH_ACT_RESCUE \<noteq> 0 \<or>
    (mode q = WG_PATH_DIRECT \<and> lapse_settled ev p) \<or> (ev = Set_Managed True \<and> \<not> managed p)"
  using step_ok_all [OF path_reach_inv [OF assms(1)] assms(2)] assms(3) by (simp add: step_ok_def)

definition lapsed_path :: wg_path_t where
  "lapsed_path = snd (path_run [(9, Pong 100 True 1 2 False False), (10, Send True), (13000000, Send True)] (wg_path_init 5 True))"

lemma reach_run: "path_reach p \<Longrightarrow> path_reach (snd (path_run evs p))"
proof (induction evs arbitrary: p)
  case (Cons e evs)
  obtain now ev where e: "e = (now, ev)" by (rule prod.exhaust)
  obtain act r where r: "path_step now ev p = (act, r)" by (rule prod.exhaust)
  show ?case using Cons.IH [OF path_next [OF Cons.prems r]] by (simp add: e r)
qed simp

theorem path_lapse_rescued_witness:
  "fst (path_step 18000001 Tick lapsed_path) AND WG_PATH_ACT_RESCUE \<noteq> 0 \<and> mode (snd (path_step 18000001 Tick lapsed_path)) = WG_PATH_RELAY"
proof -
  have r: "path_reach lapsed_path" unfolding lapsed_path_def by (rule reach_run [OF path_start])
  have l: "WG_PATH_LAPSE_PENDING lapsed_path" by code_simp
  obtain act q where t: "path_step 18000001 Tick lapsed_path = (act, q)" by (rule prod.exhaust)
  have m: "mode (snd (path_step 18000001 Tick lapsed_path)) = WG_PATH_RELAY" by code_simp
  then show ?thesis using path_lapse_rescued [OF r t l] unfolding t by (simp add: WG_PATH_LAPSE_PENDING_def)
qed

text \<open>C10: A peer that stays silent is not flooded with handshakes: over any run from a reachable
  state, the path selection asks for at most one rekey more than transport packets (and
  restarts) that ended a silent streak, however many doubts and re-probes there were.\<close>

theorem path_rekeys_bounded:
  assumes "path_reach p" "path_run evs p = (acts, q)"
  shows "length (filter (\<lambda>a. a AND WG_PATH_ACT_REKEY \<noteq> 0) acts) \<le> length (filter (\<lambda>(_, ev). ends_streak ev) evs) + 1"
  using rekeys_run [OF path_reach_inv [OF assms(1)] assms(2)] by (auto split: if_splits)

theorem path_rekeys_bounded_witness:
  "length (filter (\<lambda>a. a AND WG_PATH_ACT_REKEY \<noteq> 0) (fst (path_run [(9, Tick), (5000100, Tick), (6000000, Peer_Data)] (wg_path_init 5 True)))) \<le> 2"
proof -
  obtain acts q where r: "path_run [(9, Tick), (5000100, Tick), (6000000, Peer_Data)] (wg_path_init 5 True) = (acts, q)" by (rule prod.exhaust)
  show ?thesis using path_rekeys_bounded [OF path_start r] unfolding r by (simp add: ends_streak_def)
qed

end
