(* ===== verification/Noise_IK.thy ===== *)
theory Noise_IK
  imports WG_Handshake
begin

unbundle bit_operations_syntax

text \<open>
  \<open>noise_ik.c\<close>: the Noise IK initiator of the control connection (ts2021) and its transport
  records.  Each function returns its \<open>esp_err_t\<close> code, its output and the state, which keeps
  whatever was written before a failure.  The random bytes of the ephemeral key and the
  scalar multiplication are arguments; the buffers' capacities are arguments where the code checks
  them.  Scrubbing of locals has no counterpart.
\<close>

section \<open>The code\<close>

datatype esp_err = ESP_OK | ESP_FAIL | ESP_ERR_INVALID_SIZE | ESP_ERR_INVALID_STATE

record noise_ik_state_t =
  nk_h :: bytes
  nk_ck :: bytes
  nk_k :: bytes
  nk_have_k :: bool
  nk_n :: u64
  nk_s_priv :: bytes
  nk_s_pub :: bytes
  nk_e_priv :: bytes
  nk_e_pub :: bytes
  nk_rs :: bytes
  nk_re :: bytes
  k_send :: bytes
  k_recv :: bytes
  n_send :: u64
  n_recv :: u64
  transport_ready :: bool

record noise_ik_pre_t =
  pre_ss :: bytes
  pre_e_priv :: bytes
  pre_e_pub :: bytes
  pre_es :: bytes
  have_ss :: bool
  have_e :: bool

definition nk_zero :: noise_ik_state_t where
  "nk_zero = \<lparr>nk_h = replicate 32 0, nk_ck = replicate 32 0, nk_k = replicate 32 0, nk_have_k = False, nk_n = 0,
     nk_s_priv = replicate 32 0, nk_s_pub = replicate 32 0, nk_e_priv = replicate 32 0, nk_e_pub = replicate 32 0,
     nk_rs = replicate 32 0, nk_re = replicate 32 0, k_send = replicate 32 0, k_recv = replicate 32 0,
     n_send = 0, n_recv = 0, transport_ready = False\<rparr>"

text \<open>\<open>if (f(st) != ESP_OK) return ...;\<close> and the rest.\<close>

definition esp_then :: "esp_err \<times> 's \<Rightarrow> ('s \<Rightarrow> esp_err \<times> 'a \<times> 's) \<Rightarrow> 'a \<Rightarrow> esp_err \<times> 'a \<times> 's" where
  "esp_then r f z = (case r of (ESP_OK, st) \<Rightarrow> f st | (_, st) \<Rightarrow> (ESP_FAIL, z, st))"

definition mix_hash :: "noise_ik_state_t \<Rightarrow> bytes \<Rightarrow> esp_err \<times> noise_ik_state_t" where
  "mix_hash st data =
     (case blake2s_stream 32 (if length data > 0 then [nk_h st, data] else [nk_h st]) [] of
        None \<Rightarrow> (ESP_FAIL, st)
      | Some h \<Rightarrow> (ESP_OK, st\<lparr>nk_h := h\<rparr>))"

definition mix_key :: "noise_ik_state_t \<Rightarrow> bytes \<Rightarrow> esp_err \<times> noise_ik_state_t" where
  "mix_key st inp =
     (case noise_hkdf2 (nk_ck st) inp of
        None \<Rightarrow> (ESP_FAIL, st)
      | Some (new_ck, new_k) \<Rightarrow> (ESP_OK, st\<lparr>nk_ck := new_ck, nk_k := new_k, nk_have_k := True, nk_n := 0\<rparr>))"

definition noise_nonce :: "u64 \<Rightarrow> bytes" where
  "noise_nonce n = replicate 4 0 @ map (\<lambda>i. ucast (drop_bit (8 * (7 - i)) n AND 0xFF)) [0..<8]"

definition encrypt_and_hash :: "bool \<Rightarrow> noise_ik_state_t \<Rightarrow> nat \<Rightarrow> bytes \<Rightarrow> esp_err \<times> bytes \<times> noise_ik_state_t" where
  "encrypt_and_hash al st out_max plaintext =
     (if out_max < length plaintext + 16 then (ESP_ERR_INVALID_SIZE, [], st)
      else let out = chacha20poly1305_encrypt al plaintext (nk_h st) (nk_k st) (noise_nonce (nk_n st))
           in case mix_hash st out of
                (ESP_OK, st) \<Rightarrow> (ESP_OK, out, st\<lparr>nk_n := nk_n st + 1\<rparr>)
              | (_, st) \<Rightarrow> (ESP_FAIL, out, st))"

definition decrypt_and_hash :: "bool \<Rightarrow> noise_ik_state_t \<Rightarrow> nat \<Rightarrow> bytes \<Rightarrow> esp_err \<times> bytes \<times> noise_ik_state_t" where
  "decrypt_and_hash al st out_max ciphertext =
     (if length ciphertext < 16 then (ESP_ERR_INVALID_SIZE, [], st)
      else if out_max < length ciphertext - 16 then (ESP_ERR_INVALID_SIZE, [], st)
      else case chacha20poly1305_decrypt al ciphertext (nk_h st) (nk_k st) (noise_nonce (nk_n st)) of
             None \<Rightarrow> (ESP_FAIL, [], st)
           | Some out \<Rightarrow>
               (case mix_hash st ciphertext of
                  (ESP_OK, st) \<Rightarrow> (ESP_OK, out, st\<lparr>nk_n := nk_n st + 1\<rparr>)
                | (_, st) \<Rightarrow> (ESP_FAIL, out, st)))"

definition noise_ik_init :: "bytes \<Rightarrow> bytes \<Rightarrow> bytes \<Rightarrow> bytes \<Rightarrow> bytes \<Rightarrow> esp_err \<times> noise_ik_state_t" where
  "noise_ik_init s_priv s_pub rs protocol_name prologue =
     (let st = nk_zero\<lparr>nk_s_priv := take 32 s_priv, nk_s_pub := take 32 s_pub, nk_rs := take 32 rs\<rparr>
      in case (if length protocol_name > 32 then blake2s 32 protocol_name []
               else Some (protocol_name @ replicate (32 - length protocol_name) 0)) of
           None \<Rightarrow> (ESP_FAIL, st)
         | Some h \<Rightarrow>
             (let st = st\<lparr>nk_h := h, nk_ck := h\<rparr>
              in case mix_hash st prologue of
                   (ESP_OK, st) \<Rightarrow>
                     (case mix_hash st (take 32 rs) of
                        (ESP_OK, st) \<Rightarrow> (ESP_OK, st)
                      | (_, st) \<Rightarrow> (ESP_FAIL, st))
                 | (_, st) \<Rightarrow> (ESP_FAIL, st)))"

definition noise_ik_precompute :: "(bytes \<Rightarrow> bytes \<Rightarrow> bytes) \<Rightarrow> bytes \<Rightarrow> noise_ik_pre_t \<Rightarrow> bytes \<Rightarrow> bytes \<Rightarrow> bool \<Rightarrow> esp_err \<times> noise_ik_pre_t" where
  "noise_ik_precompute x25519 rnd pre s_priv rs want_e =
     (let ss_step = (if \<not> have_ss pre
                     then (case curve25519_dh x25519 s_priv rs of
                             None \<Rightarrow> (ESP_FAIL, pre\<lparr>pre_ss := replicate 32 0\<rparr>)
                           | Some ss \<Rightarrow> (ESP_OK, pre\<lparr>pre_ss := ss, have_ss := True\<rparr>))
                     else (ESP_OK, pre))
      in case ss_step of
           (ESP_OK, pre) \<Rightarrow>
             if want_e \<and> \<not> have_e pre
             then (let (e_priv, e_pub) = curve25519_keypair x25519 rnd
                   in case curve25519_dh x25519 e_priv rs of
                        None \<Rightarrow> (ESP_FAIL, pre\<lparr>pre_e_priv := replicate 32 0, pre_e_pub := e_pub, pre_es := replicate 32 0\<rparr>)
                      | Some es \<Rightarrow> (ESP_OK, pre\<lparr>pre_e_priv := e_priv, pre_e_pub := e_pub, pre_es := es, have_e := True\<rparr>))
             else (ESP_OK, pre)
         | (_, pre) \<Rightarrow> (ESP_FAIL, pre))"

text \<open>The ephemeral key with the first Diffie-Hellman product, and the static product, taken from
  \<open>pre\<close> or computed.\<close>

definition msg1_ephemeral :: "(bytes \<Rightarrow> bytes \<Rightarrow> bytes) \<Rightarrow> bytes \<Rightarrow> noise_ik_state_t \<Rightarrow> noise_ik_pre_t option \<Rightarrow> bytes option \<times> noise_ik_state_t" where
  "msg1_ephemeral x25519 rnd st pre =
     (if (case pre of Some p \<Rightarrow> have_e p | None \<Rightarrow> False)
      then (let p = the pre in (Some (pre_es p), st\<lparr>nk_e_priv := pre_e_priv p, nk_e_pub := pre_e_pub p\<rparr>))
      else let (e_priv, e_pub) = curve25519_keypair x25519 rnd
           in (curve25519_dh x25519 e_priv (nk_rs st), st\<lparr>nk_e_priv := e_priv, nk_e_pub := e_pub\<rparr>))"

definition msg1_static :: "(bytes \<Rightarrow> bytes \<Rightarrow> bytes) \<Rightarrow> noise_ik_state_t \<Rightarrow> noise_ik_pre_t option \<Rightarrow> bytes option" where
  "msg1_static x25519 st pre =
     (if (case pre of Some p \<Rightarrow> have_ss p | None \<Rightarrow> False) then Some (pre_ss (the pre))
      else curve25519_dh x25519 (nk_s_priv st) (nk_rs st))"

definition noise_ik_write_msg1_pre :: "(bytes \<Rightarrow> bytes \<Rightarrow> bytes) \<Rightarrow> bool \<Rightarrow> bytes \<Rightarrow> noise_ik_state_t \<Rightarrow> noise_ik_pre_t option \<Rightarrow> esp_err \<times> bytes \<times> noise_ik_state_t" where
  "noise_ik_write_msg1_pre x25519 al rnd st pre =
     (case msg1_ephemeral x25519 rnd st pre of
        (None, st) \<Rightarrow> (ESP_FAIL, [], st)
      | (Some dh, st) \<Rightarrow>
          esp_then (mix_hash st (nk_e_pub st)) (\<lambda>st.
          esp_then (mix_key st dh) (\<lambda>st.
          (case encrypt_and_hash al st (96 - 32) (nk_s_pub st) of
             (ESP_OK, c1, st) \<Rightarrow>
               (case msg1_static x25519 st pre of
                  None \<Rightarrow> (ESP_FAIL, [], st)
                | Some dh \<Rightarrow>
                    esp_then (mix_key st dh) (\<lambda>st.
                    (case encrypt_and_hash al st 16 [] of
                       (ESP_OK, c2, st) \<Rightarrow> (ESP_OK, nk_e_pub st @ c1 @ c2, st)
                     | (_, _, st) \<Rightarrow> (ESP_FAIL, [], st))) [])
           | (_, _, st) \<Rightarrow> (ESP_FAIL, [], st))) []) [])"

definition noise_ik_write_msg1 :: "(bytes \<Rightarrow> bytes \<Rightarrow> bytes) \<Rightarrow> bool \<Rightarrow> bytes \<Rightarrow> noise_ik_state_t \<Rightarrow> esp_err \<times> bytes \<times> noise_ik_state_t" where
  "noise_ik_write_msg1 x25519 al rnd st = noise_ik_write_msg1_pre x25519 al rnd st None"

definition noise_ik_read_msg2 :: "(bytes \<Rightarrow> bytes \<Rightarrow> bytes) \<Rightarrow> bool \<Rightarrow> noise_ik_state_t \<Rightarrow> bytes \<Rightarrow> esp_err \<times> unit \<times> noise_ik_state_t" where
  "noise_ik_read_msg2 x25519 al st inp =
     (let st = st\<lparr>nk_re := take 32 inp\<rparr>
      in esp_then (mix_hash st (nk_re st)) (\<lambda>st.
         (case curve25519_dh x25519 (nk_e_priv st) (nk_re st) of
            None \<Rightarrow> (ESP_FAIL, (), st)
          | Some dh \<Rightarrow>
              esp_then (mix_key st dh) (\<lambda>st.
              (case curve25519_dh x25519 (nk_s_priv st) (nk_re st) of
                 None \<Rightarrow> (ESP_FAIL, (), st)
               | Some dh \<Rightarrow>
                   esp_then (mix_key st dh) (\<lambda>st.
                   (case decrypt_and_hash al st 1 (bytes_at 32 16 inp) of
                      (ESP_OK, _, st) \<Rightarrow>
                        (case noise_hkdf2 (nk_ck st) [] of
                           None \<Rightarrow> (ESP_FAIL, (), st)
                         | Some (ks, kr) \<Rightarrow>
                             (ESP_OK, (), st\<lparr>k_send := ks, k_recv := kr, n_send := 0, n_recv := 0, transport_ready := True\<rparr>))
                    | (_, _, st) \<Rightarrow> (ESP_FAIL, (), st))) ())) ())) ())"

definition noise_ik_encrypt :: "bool \<Rightarrow> noise_ik_state_t \<Rightarrow> nat \<Rightarrow> bytes \<Rightarrow> esp_err \<times> bytes \<times> noise_ik_state_t" where
  "noise_ik_encrypt al st out_max plaintext =
     (if \<not> transport_ready st then (ESP_ERR_INVALID_STATE, [], st)
      else if out_max < length plaintext + 16 then (ESP_ERR_INVALID_SIZE, [], st)
      else (ESP_OK, chacha20poly1305_encrypt al plaintext [] (k_send st) (noise_nonce (n_send st)), st\<lparr>n_send := n_send st + 1\<rparr>))"

definition noise_ik_decrypt :: "bool \<Rightarrow> noise_ik_state_t \<Rightarrow> nat \<Rightarrow> bytes \<Rightarrow> esp_err \<times> bytes \<times> noise_ik_state_t" where
  "noise_ik_decrypt al st out_max ciphertext =
     (if \<not> transport_ready st then (ESP_ERR_INVALID_STATE, [], st)
      else if length ciphertext < 16 then (ESP_ERR_INVALID_SIZE, [], st)
      else if out_max < length ciphertext - 16 then (ESP_ERR_INVALID_SIZE, [], st)
      else case chacha20poly1305_decrypt al ciphertext [] (k_recv st) (noise_nonce (n_recv st)) of
             None \<Rightarrow> (ESP_FAIL, [], st)
           | Some out \<Rightarrow> (ESP_OK, out, st\<lparr>n_recv := n_recv st + 1\<rparr>))"

section \<open>The symmetric state\<close>

lemma esp_then_ok [simp]: "esp_then (ESP_OK, st) f z = f st"
  by (simp add: esp_then_def)

lemma mix_hash_eq: "mix_hash st data = (ESP_OK, st\<lparr>nk_h := HASH (nk_h st @ data)\<rparr>)"
  by (simp add: mix_hash_def blake2s_stream_eq HASH_def)

lemma mix_key_eq: "mix_key st x = (ESP_OK, st\<lparr>nk_ck := KDF (nk_ck st) x 1, nk_k := KDF (nk_ck st) x 2, nk_have_k := True, nk_n := 0\<rparr>)"
  by (simp add: mix_key_def noise_hkdf_eq)

lemma noise_nonce_0: "noise_nonce 0 = zero_nonce"
  by (simp add: noise_nonce_def zero_nonce_def map_replicate_const replicate_add [symmetric])

lemma encrypt_and_hash_eq:
  "length m + 16 \<le> out_max \<Longrightarrow> encrypt_and_hash al st out_max m =
     (let c = chacha20poly1305_encrypt True m (nk_h st) (nk_k st) (noise_nonce (nk_n st))
      in (ESP_OK, c, st\<lparr>nk_h := HASH (nk_h st @ c), nk_n := nk_n st + 1\<rparr>))"
  by (simp add: encrypt_and_hash_def mix_hash_eq Let_def aligned_irrelevant(1) [of al])

lemma decrypt_tag_eq:
  "length c = 16 \<Longrightarrow> decrypt_and_hash al st 1 c =
     (if c = chacha20poly1305_encrypt True [] (nk_h st) (nk_k st) (noise_nonce (nk_n st))
      then (ESP_OK, [], st\<lparr>nk_h := HASH (nk_h st @ c), nk_n := nk_n st + 1\<rparr>) else (ESP_FAIL, [], st))"
  by (simp add: decrypt_and_hash_def mix_hash_eq decrypt_empty)

section \<open>Noise IK as specified\<close>

definition noise_h0 :: "bytes \<Rightarrow> bytes" where
  "noise_h0 name = (if length name > 32 then HASH name else name @ replicate (32 - length name) 0)"

definition noise_msg1 :: "bytes \<Rightarrow> bytes \<Rightarrow> bytes \<Rightarrow> bytes \<Rightarrow> bytes \<Rightarrow> bytes \<Rightarrow> bytes \<times> bytes \<times> bytes \<times> bytes" where
  "noise_msg1 ck h e es s_pub ss =
     (let h = HASH (h @ e);
          c1 = chacha20poly1305_encrypt True s_pub h (KDF ck es 2) zero_nonce;
          h = HASH (h @ c1);
          ck = KDF ck es 1;
          c2 = chacha20poly1305_encrypt True [] h (KDF ck ss 2) zero_nonce
      in (KDF ck ss 1, HASH (h @ c2), c1, c2))"

definition noise_msg2 :: "bytes \<Rightarrow> bytes \<Rightarrow> bytes \<Rightarrow> bytes \<Rightarrow> bytes \<Rightarrow> bytes \<times> bytes \<times> bytes" where
  "noise_msg2 ck h e ee se =
     (let h = HASH (h @ e);
          ck = KDF ck ee 1;
          tag = chacha20poly1305_encrypt True [] h (KDF ck se 2) zero_nonce;
          ck = KDF ck se 1
      in (tag, KDF ck [] 1, KDF ck [] 2))"

text \<open>The responder of the pattern: it learns the initiator's static key, answers, and holds the
  keys it receives and sends with.\<close>

definition noise_responder :: "(bytes \<Rightarrow> bytes \<Rightarrow> bytes) \<Rightarrow> bytes \<Rightarrow> bytes \<Rightarrow> bytes \<Rightarrow> bytes \<Rightarrow> bytes \<Rightarrow> bytes \<Rightarrow> bytes
    \<Rightarrow> (bytes \<times> bytes \<times> bytes \<times> bytes) option" where
  "noise_responder x25519 r_priv r_pub e_priv e_pub name prologue m =
     (let ck = noise_h0 name;
          e = take 32 m; c1 = bytes_at 32 48 m; c2 = bytes_at 80 16 m;
          h = HASH (HASH (HASH (ck @ prologue) @ r_pub) @ e);
          es = x25519 r_priv e
      in case chacha20poly1305_decrypt True c1 h (KDF ck es 2) zero_nonce of
           None \<Rightarrow> None
         | Some i_pub \<Rightarrow>
             (let h = HASH (h @ c1);
                  ck = KDF ck es 1;
                  ss = x25519 r_priv i_pub
              in case chacha20poly1305_decrypt True c2 h (KDF ck ss 2) zero_nonce of
                   None \<Rightarrow> None
                 | Some _ \<Rightarrow>
                     (case noise_msg2 (KDF ck ss 1) (HASH (h @ c2)) e_pub (x25519 e_priv e) (x25519 e_priv i_pub) of
                        (tag, k1, k2) \<Rightarrow> Some (i_pub, e_pub @ tag, k1, k2))))"

lemma noise_responder_reads:
  assumes "noise_msg1 (noise_h0 name) (HASH (HASH (noise_h0 name @ prologue) @ r_pub)) e (x25519 r_priv e) i_pub (x25519 r_priv i_pub) = (ck, h, c1, c2)"
    "noise_msg2 ck h e_pub (x25519 e_priv e) (x25519 e_priv i_pub) = (tag, k1, k2)" "length e = 32" "length i_pub = 32"
  shows "noise_responder x25519 r_priv r_pub e_priv e_pub name prologue (e @ c1 @ c2) = Some (i_pub, e_pub @ tag, k1, k2)"
proof -
  define ck0 where "ck0 = noise_h0 name"
  define h1 where "h1 = HASH (HASH (HASH (ck0 @ prologue) @ r_pub) @ e)"
  define es where "es = x25519 r_priv e"
  define ss where "ss = x25519 r_priv i_pub"
  have c1: "c1 = chacha20poly1305_encrypt True i_pub h1 (KDF ck0 es 2) zero_nonce"
    and c2: "c2 = chacha20poly1305_encrypt True [] (HASH (h1 @ c1)) (KDF (KDF ck0 es 1) ss 2) zero_nonce"
    and ckh: "ck = KDF (KDF ck0 es 1) ss 1" "h = HASH (HASH (h1 @ c1) @ c2)"
    using assms(1) by (auto simp: noise_msg1_def Let_def ck0_def h1_def es_def ss_def)
  have l: "length c1 = 48" "length c2 = 16" using c1 c2 assms(4) by (simp_all add: length_encrypt)
  have parts: "take 32 (e @ c1 @ c2) = e" "bytes_at 32 48 (e @ c1 @ c2) = c1" "bytes_at 80 16 (e @ c1 @ c2) = c2"
    using assms(3) l by (simp_all add: bytes_at_def)
  have d1: "chacha20poly1305_decrypt True c1 h1 (KDF ck0 es 2) zero_nonce = Some i_pub" by (simp add: decrypt_iff c1)
  have d2: "chacha20poly1305_decrypt True c2 (HASH (h1 @ c1)) (KDF (KDF ck0 es 1) ss 2) zero_nonce = Some []" by (simp only: decrypt_iff c2)
  show ?thesis
    unfolding noise_responder_def Let_def parts ck0_def [symmetric] h1_def [symmetric] es_def [symmetric] d1 option.case
      ss_def [symmetric] d2 ckh [symmetric] assms(2) by simp
qed

section \<open>What the initiator computes\<close>

lemma noise_init_eq:
  assumes "length s_priv = 32" "length s_pub = 32" "length rs = 32"
  shows "noise_ik_init s_priv s_pub rs name prologue =
    (ESP_OK, nk_zero\<lparr>nk_s_priv := s_priv, nk_s_pub := s_pub, nk_rs := rs, nk_h := HASH (HASH (noise_h0 name @ prologue) @ rs), nk_ck := noise_h0 name\<rparr>)"
proof -
  have "(if length name > 32 then blake2s 32 name [] else Some (name @ replicate (32 - length name) 0)) = Some (noise_h0 name)"
    by (simp add: noise_h0_def HASH_def blake2s_eq_stream blake2s_stream_eq)
  then show ?thesis using assms by (simp add: noise_ik_init_def Let_def mix_hash_eq)
qed

lemma write_msg1_eq:
  assumes "msg1_ephemeral x25519 rnd st pre = (Some es, st\<lparr>nk_e_priv := e_priv, nk_e_pub := e\<rparr>)"
    "msg1_static x25519 st pre = Some ss" "length (nk_s_pub st) = 32"
    "noise_msg1 (nk_ck st) (nk_h st) e es (nk_s_pub st) ss = (ck, h, c1, c2)"
  shows "\<exists>st'. noise_ik_write_msg1_pre x25519 al rnd st pre = (ESP_OK, e @ c1 @ c2, st') \<and>
    nk_ck st' = ck \<and> nk_h st' = h \<and> nk_e_priv st' = e_priv \<and> nk_s_priv st' = nk_s_priv st"
proof -
  define h1 where "h1 = HASH (nk_h st @ e)"
  have c1: "chacha20poly1305_encrypt True (nk_s_pub st) h1 (KDF (nk_ck st) es 2) zero_nonce = c1"
    and c2: "chacha20poly1305_encrypt True [] (HASH (h1 @ c1)) (KDF (KDF (nk_ck st) es 1) ss 2) zero_nonce = c2"
    and ckh: "ck = KDF (KDF (nk_ck st) es 1) ss 1" "h = HASH (HASH (h1 @ c1) @ c2)"
    using assms(4) by (auto simp: noise_msg1_def Let_def h1_def)
  have static: "nk_s_priv s = nk_s_priv st \<Longrightarrow> nk_rs s = nk_rs st \<Longrightarrow> msg1_static x25519 s pre = Some ss" for s :: noise_ik_state_t
    using assms(2) by (simp add: msg1_static_def split: if_splits)
  show ?thesis
    unfolding noise_ik_write_msg1_pre_def assms(1) prod.case option.case mix_hash_eq mix_key_eq esp_then_ok
    using assms(3) by (simp add: encrypt_and_hash_eq Let_def noise_nonce_0 h1_def [symmetric] c1 c2 [unfolded One_nat_def] ckh static mix_key_eq)
qed

lemma read_msg2_eq:
  assumes "curve25519_dh x25519 (nk_e_priv st) re = Some ee" "curve25519_dh x25519 (nk_s_priv st) re = Some se"
    "noise_msg2 (nk_ck st) (nk_h st) re ee se = (tag, k1, k2)" "length re = 32" "length t = 16"
  shows "\<exists>st'. noise_ik_read_msg2 x25519 al st (re @ t) = (if t = tag then ESP_OK else ESP_FAIL, (), st') \<and>
    (t = tag \<longrightarrow> k_send st' = k1 \<and> k_recv st' = k2 \<and> n_send st' = 0 \<and> n_recv st' = 0 \<and> transport_ready st')"
proof -
  have parts: "take 32 (re @ t) = re" "bytes_at 32 16 (re @ t) = t" using assms(4,5) by (simp_all add: bytes_at_def)
  have m2: "tag = chacha20poly1305_encrypt True [] (HASH (nk_h st @ re)) (KDF (KDF (nk_ck st) ee 1) se 2) zero_nonce"
    "k1 = KDF (KDF (KDF (nk_ck st) ee 1) se 1) [] 1" "k2 = KDF (KDF (KDF (nk_ck st) ee 1) se 1) [] 2"
    using assms(3) by (auto simp: noise_msg2_def Let_def)
  show ?thesis
    using assms(1,2) unfolding noise_ik_read_msg2_def Let_def parts
    by (auto simp: mix_hash_eq mix_key_eq decrypt_tag_eq [OF assms(5), unfolded One_nat_def] noise_nonce_0 noise_hkdf_eq m2 split: if_splits)
qed

section \<open>Transport records\<close>

fun send_records :: "bool \<Rightarrow> nat \<Rightarrow> noise_ik_state_t \<Rightarrow> bytes list \<Rightarrow> bytes list \<times> noise_ik_state_t" where
  "send_records al cap st [] = ([], st)"
| "send_records al cap st (m # ms) =
     (case noise_ik_encrypt al st cap m of (_, c, st) \<Rightarrow> (case send_records al cap st ms of (cs, st) \<Rightarrow> (c # cs, st)))"

fun receive_records :: "bool \<Rightarrow> nat \<Rightarrow> noise_ik_state_t \<Rightarrow> bytes list \<Rightarrow> (esp_err \<times> bytes) list" where
  "receive_records al cap st [] = []"
| "receive_records al cap st (c # cs) =
     (case noise_ik_decrypt al st cap c of (rc, m, st) \<Rightarrow> (rc, m) # receive_records al cap st cs)"

lemma noise_nonce_inj: "noise_nonce n = noise_nonce n' \<longleftrightarrow> n = n'"
proof
  assume "noise_nonce n = noise_nonce n'"
  then have eq: "map (\<lambda>i. ucast (drop_bit (8 * (7 - i)) n AND 0xFF)) [0..<8] = (map (\<lambda>i. ucast (drop_bit (8 * (7 - i)) n' AND 0xFF)) [0..<8] :: bytes)"
    by (simp add: noise_nonce_def)
  have m: "ucast (w AND 0xFF) = (ucast w :: u8)" for w :: u64
    by (rule unsigned_word_eqI, subst (1 2) unat_ucast_mod, subst unat_and_mask_eq [of _ 8]) (simp_all add: mask_eq_exp_minus_1)
  have "be_bytes 8 n = be_bytes 8 n'"
    using eq unfolding m by (simp add: be_bytes_def le_bytes_def rev_map upt_rec)
  then have "be_word (be_bytes 8 n) = (be_word (be_bytes 8 n') :: u64)" by simp
  then show "n = n'" by (simp add: tl_codec)
qed simp

lemma ik_encrypt_eq:
  "transport_ready st \<Longrightarrow> length m + 16 \<le> cap \<Longrightarrow> noise_ik_encrypt al st cap m =
     (ESP_OK, chacha20poly1305_encrypt True m [] (k_send st) (noise_nonce (n_send st)), st\<lparr>n_send := n_send st + 1\<rparr>)"
  by (simp add: noise_ik_encrypt_def aligned_irrelevant(1) [of al])

lemma ik_decrypt_eq:
  "transport_ready st \<Longrightarrow> length m \<le> cap \<Longrightarrow>
   noise_ik_decrypt al st cap (chacha20poly1305_encrypt True m [] (k_recv st) (noise_nonce (n_recv st))) = (ESP_OK, m, st\<lparr>n_recv := n_recv st + 1\<rparr>)"
  by (simp add: noise_ik_decrypt_def length_encrypt decrypt_iff [THEN iffD2])

lemma records_in_order:
  assumes "transport_ready st" "transport_ready st'" "k_recv st' = k_send st" "n_recv st' = n_send st" "list_all (\<lambda>m. length m + 16 \<le> cap) ms"
  shows "receive_records al' cap st' (fst (send_records al cap st ms)) = map (\<lambda>m. (ESP_OK, m)) ms"
  using assms
proof (induction ms arbitrary: st st')
  case (Cons m ms)
  let ?c = "chacha20poly1305_encrypt True m [] (k_recv st') (noise_nonce (n_recv st'))"
  have e: "noise_ik_encrypt al st cap m = (ESP_OK, ?c, st\<lparr>n_send := n_send st + 1\<rparr>)" using Cons.prems by (simp add: ik_encrypt_eq)
  have d: "noise_ik_decrypt al' st' cap ?c = (ESP_OK, m, st'\<lparr>n_recv := n_recv st' + 1\<rparr>)"
    using Cons.prems(2,5) by (intro ik_decrypt_eq) simp_all
  have ih: "receive_records al' cap (st'\<lparr>n_recv := n_recv st' + 1\<rparr>) (fst (send_records al cap (st\<lparr>n_send := n_send st + 1\<rparr>) ms)) = map (\<lambda>m. (ESP_OK, m)) ms"
    using Cons.prems by (intro Cons.IH) simp_all
  obtain cs s where r: "send_records al cap (st\<lparr>n_send := n_send st + 1\<rparr>) ms = (cs, s)" by (rule prod.exhaust)
  show ?case using ih by (simp add: e d r)
qed simp

section \<open>Properties\<close>

lemma ik_agreement:
  assumes "x25519_laws x25519" "length i_priv = 32" "length r_priv = 32" "length e_priv = 32" "length rnd = 32"
    "noise_ik_init i_priv (curve25519_derive_pub x25519 i_priv) (curve25519_derive_pub x25519 r_priv) name prologue = (rc0, st0)"
    "noise_ik_write_msg1 x25519 al rnd st0 = (rc1, msg1, st1)"
  shows "rc0 = ESP_OK \<and> rc1 = ESP_OK \<and> length msg1 = 96 \<and> (\<exists>msg2 k1 k2 st2.
    noise_responder x25519 r_priv (curve25519_derive_pub x25519 r_priv) e_priv (curve25519_derive_pub x25519 e_priv) name prologue msg1
      = Some (curve25519_derive_pub x25519 i_priv, msg2, k1, k2) \<and>
    noise_ik_read_msg2 x25519 al' st1 msg2 = (ESP_OK, (), st2) \<and>
    k_send st2 = k1 \<and> k_recv st2 = k2 \<and> n_send st2 = 0 \<and> n_recv st2 = 0 \<and> transport_ready st2)"
proof -
  define D where "D = curve25519_derive_pub x25519"
  note law = x25519_lawsD [OF assms(1), folded D_def]
  have lp: "length (D i_priv) = 32" "length (D r_priv) = 32" "length (D e_priv) = 32" using law(1) assms(2-4) by simp_all
  note init = noise_init_eq [OF assms(2) lp(1,2), of name prologue]
  have st0: "rc0 = ESP_OK" "nk_s_priv st0 = i_priv" "nk_s_pub st0 = D i_priv" "nk_rs st0 = D r_priv" "nk_ck st0 = noise_h0 name"
    "nk_h st0 = HASH (HASH (noise_h0 name @ prologue) @ D r_priv)"
    using assms(6) init unfolding D_def by auto
  obtain e p where kp: "curve25519_keypair x25519 rnd = (e, p)" by (cases "curve25519_keypair x25519 rnd")
  then have e: "length e = 32" "p = D e" using length_keypair [OF assms(5)] by (simp_all add: D_def)
  have comm: "x25519 r_priv (D e) = x25519 e (D r_priv)" "x25519 r_priv (D i_priv) = x25519 i_priv (D r_priv)"
    "x25519 e_priv (D e) = x25519 e (D e_priv)" "x25519 e_priv (D i_priv) = x25519 i_priv (D e_priv)"
    using law(2) assms(2-4) e(1) by simp_all
  obtain ck h c1 c2 where m1: "noise_msg1 (nk_ck st0) (nk_h st0) (D e) (x25519 e (D r_priv)) (D i_priv) (x25519 i_priv (D r_priv)) = (ck, h, c1, c2)"
    by (metis prod_cases4)
  have eph: "msg1_ephemeral x25519 rnd st0 None = (Some (x25519 e (D r_priv)), st0\<lparr>nk_e_priv := e, nk_e_pub := D e\<rparr>)"
    using law(3) [OF e(1) assms(3)] by (simp add: msg1_ephemeral_def kp e(2) st0)
  have sta: "msg1_static x25519 st0 None = Some (x25519 i_priv (D r_priv))"
    using law(3) [OF assms(2,3)] by (simp add: msg1_static_def st0)
  have st1: "rc1 = ESP_OK" "msg1 = D e @ c1 @ c2" "nk_ck st1 = ck" "nk_h st1 = h" "nk_e_priv st1 = e" "nk_s_priv st1 = i_priv"
    using write_msg1_eq [OF eph sta, of ck h c1 c2 al] m1 assms(7) lp by (auto simp: noise_ik_write_msg1_def st0)
  have "length c1 = 48" "length c2 = 16" using m1 lp by (auto simp: noise_msg1_def Let_def length_encrypt)
  then have len: "length msg1 = 96" using st1(2) law(1) [OF e(1,1)] by simp
  obtain tag k1 k2 where m2: "noise_msg2 ck h (D e_priv) (x25519 e (D e_priv)) (x25519 i_priv (D e_priv)) = (tag, k1, k2)" by (metis prod_cases3)
  have rsp: "noise_responder x25519 r_priv (D r_priv) e_priv (D e_priv) name prologue msg1 = Some (D i_priv, D e_priv @ tag, k1, k2)"
    unfolding st1(2) using m1 m2 lp law(1) [OF e(1,1)] by (intro noise_responder_reads) (simp_all add: comm st0)
  have tag16: "length tag = 16" using m2 by (auto simp: noise_msg2_def Let_def length_encrypt)
  have "\<exists>st2. noise_ik_read_msg2 x25519 al' st1 (D e_priv @ tag) = (ESP_OK, (), st2) \<and>
    k_send st2 = k1 \<and> k_recv st2 = k2 \<and> n_send st2 = 0 \<and> n_recv st2 = 0 \<and> transport_ready st2"
    using read_msg2_eq [of x25519 st1 "D e_priv" "x25519 e (D e_priv)" "x25519 i_priv (D e_priv)" tag k1 k2 tag al'] m2 tag16 lp
      law(3) [OF e(1) assms(4)] law(3) [OF assms(2,4)] by (simp add: st1)
  then show ?thesis using st0(1) st1(1) len rsp unfolding D_def by blast
qed

text \<open>C16: Both ends of the control connection derive the same transport keys: the initiator's
  first message is 96 bytes, a responder following Noise IK (any protocol name and prologue) learns
  our static key from it, and \<open>noise_ik_read_msg2\<close> accepts its answer and sets the
  responder's receive key as \<open>k_send\<close> and its send key as \<open>k_recv\<close>, with both counters at zero.\<close>

theorem noise_ik_agreement:
  assumes "x25519_laws x25519" "length i_priv = 32" "length r_priv = 32" "length e_priv = 32" "length rnd = 32"
    "noise_ik_init i_priv (curve25519_derive_pub x25519 i_priv) (curve25519_derive_pub x25519 r_priv) name prologue = (rc0, st0)"
    "noise_ik_write_msg1 x25519 al rnd st0 = (rc1, msg1, st1)"
  shows "rc0 = ESP_OK \<and> rc1 = ESP_OK \<and> length msg1 = 96 \<and> (\<exists>msg2 k1 k2 st2.
    noise_responder x25519 r_priv (curve25519_derive_pub x25519 r_priv) e_priv (curve25519_derive_pub x25519 e_priv) name prologue msg1
      = Some (curve25519_derive_pub x25519 i_priv, msg2, k1, k2) \<and>
    noise_ik_read_msg2 x25519 al' st1 msg2 = (ESP_OK, (), st2) \<and>
    k_send st2 = k1 \<and> k_recv st2 = k2 \<and> n_send st2 = 0 \<and> n_recv st2 = 0 \<and> transport_ready st2)"
  using ik_agreement [OF assms] by blast

theorem noise_ik_agreement_witness:
  "\<exists>st0 msg1 st1 msg2 k1 k2 st2.
    noise_ik_init (replicate 32 1) (curve25519_derive_pub toy_x25519 (replicate 32 1)) (curve25519_derive_pub toy_x25519 (replicate 32 2)) [78] [7] = (ESP_OK, st0) \<and>
    noise_ik_write_msg1 toy_x25519 True (replicate 32 5) st0 = (ESP_OK, msg1, st1) \<and> length msg1 = 96 \<and>
    noise_responder toy_x25519 (replicate 32 2) (curve25519_derive_pub toy_x25519 (replicate 32 2)) (replicate 32 3)
      (curve25519_derive_pub toy_x25519 (replicate 32 3)) [78] [7] msg1 = Some (curve25519_derive_pub toy_x25519 (replicate 32 1), msg2, k1, k2) \<and>
    noise_ik_read_msg2 toy_x25519 False st1 msg2 = (ESP_OK, (), st2) \<and> k_send st2 = k1 \<and> k_recv st2 = k2"
proof -
  obtain rc0 st0 where a: "noise_ik_init (replicate 32 1) (curve25519_derive_pub toy_x25519 (replicate 32 1)) (curve25519_derive_pub toy_x25519 (replicate 32 2)) [78] [7] = (rc0, st0)"
    by (rule prod.exhaust)
  obtain rc1 msg1 st1 where b: "noise_ik_write_msg1 toy_x25519 True (replicate 32 5) st0 = (rc1, msg1, st1)" by (rule prod_cases3)
  show ?thesis
    using noise_ik_agreement [OF toy_laws _ _ _ _ a b, of "replicate 32 3" False] a b by auto
qed

text \<open>Computing the Diffie-Hellman products ahead of time changes no byte of the first
  message: with the outcome of \<open>noise_ik_precompute\<close>, started from a record that holds no
  ephemeral key and, if it holds a static product, the right one, the first message and the state
  are those of the plain \<open>noise_ik_write_msg1\<close> with the random bytes the ephemeral key was drawn from.\<close>

theorem noise_precompute_transparent:
  assumes "noise_ik_precompute x25519 rnd pre s_priv rs want_e = (ESP_OK, pre')" "\<not> have_e pre"
    "have_ss pre \<longrightarrow> curve25519_dh x25519 s_priv rs = Some (pre_ss pre)" "nk_s_priv st = s_priv" "nk_rs st = rs"
  shows "noise_ik_write_msg1_pre x25519 al (if want_e then rnd' else rnd) st (Some pre') = noise_ik_write_msg1 x25519 al rnd st"
proof -
  have ss: "have_ss pre' \<and> Some (pre_ss pre') = curve25519_dh x25519 s_priv rs"
    using assms(1,3) by (auto simp: noise_ik_precompute_def Let_def split: if_splits option.splits prod.splits)
  have e: "have_e pre' = want_e" "want_e \<Longrightarrow> curve25519_keypair x25519 rnd = (pre_e_priv pre', pre_e_pub pre') \<and>
      curve25519_dh x25519 (pre_e_priv pre') rs = Some (pre_es pre')"
    using assms(1,2) by (auto simp: noise_ik_precompute_def Let_def split: if_splits option.splits prod.splits)
  have eph: "msg1_ephemeral x25519 (if want_e then rnd' else rnd) st (Some pre') = msg1_ephemeral x25519 rnd st None"
    using e assms(5) by (cases want_e) (simp_all add: msg1_ephemeral_def)
  have fields: "nk_s_priv st1 = s_priv \<and> nk_rs st1 = rs" if "msg1_ephemeral x25519 rnd st None = (es, st1)" for es st1
    using that assms(4,5) by (auto simp: msg1_ephemeral_def split: prod.splits)
  have static: "nk_s_priv s = s_priv \<Longrightarrow> nk_rs s = rs \<Longrightarrow> msg1_static x25519 s (Some pre') = msg1_static x25519 s None" for s :: noise_ik_state_t
    using ss by (simp add: msg1_static_def)
  obtain es st1 where m: "msg1_ephemeral x25519 rnd st None = (es, st1)" by (rule prod.exhaust)
  show ?thesis
    unfolding noise_ik_write_msg1_def noise_ik_write_msg1_pre_def eph m prod.case mix_hash_eq mix_key_eq esp_then_ok
    using fields [OF m] by (cases "length (nk_s_pub st1) \<le> 48"; cases es)
      (simp_all add: encrypt_and_hash_eq static Let_def, simp add: encrypt_and_hash_def)
qed

theorem noise_precompute_transparent_witness:
  "noise_ik_precompute toy_x25519 [1] \<lparr>pre_ss = [], pre_e_priv = [], pre_e_pub = [], pre_es = [], have_ss = False, have_e = False\<rparr>
     (replicate 32 1) (replicate 32 3) False = (ESP_OK, \<lparr>pre_ss = replicate 32 3, pre_e_priv = [], pre_e_pub = [], pre_es = [], have_ss = True, have_e = False\<rparr>) \<and>
   noise_ik_write_msg1_pre toy_x25519 True [1] (nk_zero\<lparr>nk_s_priv := replicate 32 1, nk_rs := replicate 32 3\<rparr>)
     (Some \<lparr>pre_ss = replicate 32 3, pre_e_priv = [], pre_e_pub = [], pre_es = [], have_ss = True, have_e = False\<rparr>)
   = noise_ik_write_msg1 toy_x25519 True [1] (nk_zero\<lparr>nk_s_priv := replicate 32 1, nk_rs := replicate 32 3\<rparr>)"
proof -
  have p: "noise_ik_precompute toy_x25519 [1] \<lparr>pre_ss = [], pre_e_priv = [], pre_e_pub = [], pre_es = [], have_ss = False, have_e = False\<rparr>
     (replicate 32 1) (replicate 32 3) False = (ESP_OK, \<lparr>pre_ss = replicate 32 3, pre_e_priv = [], pre_e_pub = [], pre_es = [], have_ss = True, have_e = False\<rparr>)"
    by code_simp
  show ?thesis
    using noise_precompute_transparent [OF p, of "nk_zero\<lparr>nk_s_priv := replicate 32 1, nk_rs := replicate 32 3\<rparr>" True "[1]"] p by simp
qed

text \<open>C17: Transport records: what one side encrypts in order, the other decrypts in order to the
  same messages.  A record is accepted exactly when it is the encryption of a message that fits under
  the receive key and the current counter, and anything else is an error that leaves the
  receiving state as it was, so that the next right record is still read.\<close>

theorem noise_record_integrity:
  assumes "transport_ready st" "transport_ready st'" "k_send st = k_recv st'" "n_send st = n_recv st'"
    "list_all (\<lambda>x. length x + 16 \<le> cap) ms" "noise_ik_decrypt al st' cap c = (rc, m, st'')"
  shows "(rc = ESP_OK \<longleftrightarrow> (\<exists>m. length m \<le> cap \<and> c = chacha20poly1305_encrypt True m [] (k_recv st') (noise_nonce (n_recv st')))) \<and>
    st'' = (if rc = ESP_OK then st'\<lparr>n_recv := n_recv st' + 1\<rparr> else st') \<and>
    receive_records al2 cap st' (fst (send_records al1 cap st ms)) = map (\<lambda>x. (ESP_OK, x)) ms \<and>
    (rc \<noteq> ESP_OK \<longrightarrow> receive_records al cap st' (c # fst (send_records al1 cap st ms)) = (rc, []) # map (\<lambda>x. (ESP_OK, x)) ms)"
proof -
  let ?E = "\<lambda>x. chacha20poly1305_encrypt True x [] (k_recv st') (noise_nonce (n_recv st'))"
  have fail: "rc \<noteq> ESP_OK \<Longrightarrow> m = [] \<and> st'' = st'"
    using assms(2,6) by (auto simp: noise_ik_decrypt_def split: if_splits option.splits)
  have ok: "rc = ESP_OK \<Longrightarrow> length m \<le> cap \<and> c = ?E m \<and> st'' = st'\<lparr>n_recv := n_recv st' + 1\<rparr>"
    using assms(2,6) by (auto simp: noise_ik_decrypt_def decrypt_iff length_encrypt split: if_splits option.splits)
  have ok': "rc = ESP_OK" if "length x \<le> cap" "c = ?E x" for x
    using assms(6) ik_decrypt_eq [OF assms(2) that(1), of al] unfolding that(2) [symmetric] by simp
  have run: "receive_records b cap st' (fst (send_records al1 cap st ms)) = map (\<lambda>x. (ESP_OK, x)) ms" for b
    by (rule records_in_order) (simp_all add: assms)
  have "(rc = ESP_OK) = (\<exists>m. length m \<le> cap \<and> c = ?E m)" using ok ok' by blast
  moreover have "st'' = (if rc = ESP_OK then st'\<lparr>n_recv := n_recv st' + 1\<rparr> else st')" using fail ok by simp
  moreover have "rc \<noteq> ESP_OK \<longrightarrow> receive_records al cap st' (c # fst (send_records al1 cap st ms)) = (rc, []) # map (\<lambda>x. (ESP_OK, x)) ms"
    using fail run [of al] by (simp add: assms(6))
  ultimately show ?thesis using run [of al2] by blast
qed

theorem noise_record_integrity_witness:
  "receive_records True 100 (nk_zero\<lparr>transport_ready := True\<rparr>) ([1, 2, 3] # fst (send_records True 100 (nk_zero\<lparr>transport_ready := True\<rparr>) [[1], [], [7, 8]]))
    = [(ESP_ERR_INVALID_SIZE, []), (ESP_OK, [1]), (ESP_OK, []), (ESP_OK, [7, 8])]"
proof -
  have d: "noise_ik_decrypt True (nk_zero\<lparr>transport_ready := True\<rparr>) 100 [1, 2, 3] = (ESP_ERR_INVALID_SIZE, [], nk_zero\<lparr>transport_ready := True\<rparr>)"
    by (simp add: noise_ik_decrypt_def)
  have r: "transport_ready (nk_zero\<lparr>transport_ready := True\<rparr>)" "k_send (nk_zero\<lparr>transport_ready := True\<rparr>) = k_recv (nk_zero\<lparr>transport_ready := True\<rparr>)"
    "n_send (nk_zero\<lparr>transport_ready := True\<rparr>) = n_recv (nk_zero\<lparr>transport_ready := True\<rparr>)" "list_all (\<lambda>x. length x + 16 \<le> 100) [[1 :: u8], [], [7, 8]]"
    by (simp_all add: nk_zero_def)
  show ?thesis
    using noise_record_integrity [OF r(1,1,2,3,4) d, of True True] by (simp del: receive_records.simps send_records.simps)
qed

end
