(* ===== verification/TLS_IO.thy ===== *)
theory TLS_IO
  imports TL_Prelude
begin

text \<open>
  \<open>tls_io.c\<close>: the loops that read and write a whole buffer over a transport that may take or give only part of it, or
  nothing within its socket timeout.

  The transport is its transcript: the list of what its polls return, in order.  A poll that has more bytes than the read asks for
  leaves the rest to the next read; one that has none is the peer's FIN.  When the transcript ends, the call is still waiting.
\<close>

section \<open>The transport\<close>

text \<open>\<open>PollWant\<close>: \<open>MBEDTLS_ERR_SSL_WANT_READ\<close> or \<open>MBEDTLS_ERR_SSL_WANT_WRITE\<close>; \<open>PollErr e\<close>: any other negative code.\<close>

datatype io_poll = PollData bytes | PollWant | PollErr int

datatype io_end = IoIdle | IoErr int

datatype io_read = ReadDone bytes "io_poll list" | ReadFail io_end | ReadWaits

section \<open>Reading\<close>

text \<open>\<open>idle\<close> never reaches \<open>2 ^ 32\<close> with a budget, and is not read without one.\<close>

fun read_loop :: "nat \<Rightarrow> nat \<Rightarrow> nat \<Rightarrow> bytes \<Rightarrow> io_poll list \<Rightarrow> io_read" where
  "read_loop need max_idle idle got [] = (if need \<le> length got then ReadDone got [] else ReadWaits)"
| "read_loop need max_idle idle got (p # ps) =
    (if need \<le> length got then ReadDone got (p # ps)
     else (case p of
        PollWant \<Rightarrow> if max_idle \<noteq> 0 \<and> max_idle \<le> idle + 1 then ReadFail IoIdle else read_loop need max_idle (idle + 1) got ps
      | PollErr e \<Rightarrow> ReadFail (IoErr e)
      | PollData d \<Rightarrow>
          if d = [] then ReadFail (IoErr (-1))
          else if length d \<le> need - length got then read_loop need max_idle 0 (got @ d) ps
          else ReadDone (got @ take (need - length got) d) (PollData (drop (need - length got) d) # ps)))"

definition tls_io_read_full :: "nat \<Rightarrow> nat \<Rightarrow> io_poll list \<Rightarrow> io_read" where
  "tls_io_read_full need max_idle ps = read_loop need max_idle 0 [] ps"

section \<open>Writing\<close>

text \<open>What the transport accepted, and how the call ended; \<open>None\<close>: still waiting.\<close>

datatype io_wpoll = PutSome nat | PutWant | PutErr int

fun write_loop :: "bytes \<Rightarrow> nat \<Rightarrow> nat \<Rightarrow> io_wpoll list \<Rightarrow> bytes \<times> io_end option option \<times> io_wpoll list" where
  "write_loop buf max_idle idle [] = ([], if buf = [] then Some None else None, [])"
| "write_loop buf max_idle idle (p # ps) =
    (if buf = [] then ([], Some None, p # ps)
     else (case p of
        PutWant \<Rightarrow> if max_idle \<noteq> 0 \<and> max_idle \<le> idle + 1 then ([], Some (Some IoIdle), ps) else write_loop buf max_idle (idle + 1) ps
      | PutErr e \<Rightarrow> ([], Some (Some (IoErr e)), ps)
      | PutSome n \<Rightarrow>
          if n = 0 then ([], Some (Some (IoErr (-1))), ps)
          else (case write_loop (drop n buf) max_idle 0 ps of (w, r) \<Rightarrow> (take n buf @ w, r))))"

definition tls_io_write_full :: "bytes \<Rightarrow> nat \<Rightarrow> io_wpoll list \<Rightarrow> bytes \<times> io_end option option \<times> io_wpoll list" where
  "tls_io_write_full buf max_idle ps = write_loop buf max_idle 0 ps"

section \<open>What a transcript carries\<close>

fun poll_data :: "io_poll list \<Rightarrow> bytes" where
  "poll_data [] = []"
| "poll_data (PollData d # ps) = d @ poll_data ps"
| "poll_data (_ # ps) = poll_data ps"

text \<open>No error, no FIN, and never \<open>max_idle\<close> silent polls in a row (\<open>idle\<close> of them already passed).\<close>

fun calm :: "nat \<Rightarrow> nat \<Rightarrow> io_poll list \<Rightarrow> bool" where
  "calm mi idle [] = True"
| "calm mi idle (PollData d # ps) = (d \<noteq> [] \<and> calm mi 0 ps)"
| "calm mi idle (PollWant # ps) = ((mi = 0 \<or> idle + 1 < mi) \<and> calm mi (idle + 1) ps)"
| "calm mi idle (PollErr e # ps) = False"

lemma calm_less: "calm mi i ps \<Longrightarrow> j \<le> i \<Longrightarrow> calm mi j ps"
  by (induction mi i ps arbitrary: j rule: calm.induct) auto

lemma read_loop_data:
  "read_loop need mi idle got ps = ReadDone a r \<Longrightarrow> length got \<le> need \<Longrightarrow> length a = need \<and> a @ poll_data r = got @ poll_data ps"
proof (induction need mi idle got ps rule: read_loop.induct)
  case (2 need mi idle got p ps)
  show ?case
  proof (cases "need \<le> length got")
    case True
    then show ?thesis using 2 by auto
  next
    case False
    then show ?thesis using 2 by (cases p) (auto split: if_splits)
  qed
qed (auto split: if_splits)

text \<open>On a calm transcript with enough bytes the read returns them, however they were cut into polls.\<close>

lemma read_loop_calm:
  "calm mi idle ps \<Longrightarrow> length got \<le> need \<Longrightarrow> need \<le> length got + length (poll_data ps) \<Longrightarrow>
     \<exists>r. read_loop need mi idle got ps = ReadDone (take need (got @ poll_data ps)) r \<and> poll_data r = drop need (got @ poll_data ps) \<and> calm mi 0 r"
proof (induction need mi idle got ps rule: read_loop.induct)
  case (2 need mi idle got p ps)
  show ?case
  proof (cases "need \<le> length got")
    case True
    then show ?thesis using 2 calm_less [of mi idle "p # ps" 0] by simp
  next
    case False
    show ?thesis
    proof (cases p)
      case (PollData d)
      show ?thesis
      proof (cases "length d \<le> need - length got")
        case True
        then show ?thesis using 2(1) [OF False PollData _ True] 2(3-) False PollData by auto
      next
        case b: False
        then show ?thesis using 2(3-) False PollData by auto
      qed
    next
      case PollWant
      then show ?thesis using 2(2) [OF False PollWant] 2(3-) False by auto
    next
      case (PollErr e)
      then show ?thesis using 2(3-) by simp
    qed
  qed
qed simp

text \<open>With too few bytes it waits; then \<open>max_idle\<close> silent polls end it.\<close>

lemma read_loop_waits:
  "calm mi idle ps \<Longrightarrow> length got + length (poll_data ps) < need \<Longrightarrow> read_loop need mi idle got ps = ReadWaits"
  by (induction need mi idle got ps rule: read_loop.induct) (auto split: io_poll.splits)

lemma read_loop_silent:
  "0 < mi \<Longrightarrow> idle < mi \<Longrightarrow> length got < need \<Longrightarrow> mi - idle \<le> n \<Longrightarrow> read_loop need mi idle got (replicate n PollWant @ ps) = ReadFail IoIdle"
proof (induction n arbitrary: idle)
  case (Suc n)
  then show ?case by (cases "mi \<le> idle + 1") auto
qed simp

lemma read_loop_dies:
  "calm mi idle ps \<Longrightarrow> 0 < mi \<Longrightarrow> idle < mi \<Longrightarrow> length got + length (poll_data ps) < need \<Longrightarrow> read_loop need mi idle got (ps @ replicate mi PollWant) = ReadFail IoIdle"
proof (induction need mi idle got ps rule: read_loop.induct)
  case (1 need mi idle got)
  then show ?case using read_loop_silent [of mi idle got need mi "[]"] by simp
next
  case (2 need mi idle got p ps)
  then show ?case by (cases p) auto
qed

text \<open>A read that succeeds is not changed by what follows on the transport.\<close>

lemma read_loop_more: "read_loop need mi idle got ps = ReadDone a r \<Longrightarrow> read_loop need mi idle got (ps @ qs) = ReadDone a (r @ qs)"
proof (induction need mi idle got ps rule: read_loop.induct)
  case (1 need mi idle got)
  then show ?case by (cases qs) (auto split: if_splits)
next
  case (2 need mi idle got p ps)
  then show ?case by (cases p) (auto split: if_splits)
qed

text \<open>A write puts a prefix of the buffer on the wire, all of it exactly when it reports success.\<close>

lemma write_loop_prefix:
  "write_loop buf mi idle ps = (w, e, r) \<Longrightarrow> (\<exists>v. buf = w @ v \<and> (e = Some None \<longleftrightarrow> v = []))"
proof (induction buf mi idle ps arbitrary: w e r rule: write_loop.induct)
  case (2 buf mi idle p ps)
  show ?case
  proof (cases "\<exists>n. p = PutSome n \<and> n \<noteq> 0 \<and> buf \<noteq> []")
    case True
    then obtain n w1 where n: "p = PutSome n" "n \<noteq> 0" "buf \<noteq> []" "write_loop (drop n buf) mi 0 ps = (w1, e, r)" "w = take n buf @ w1"
      using 2(3) by (auto split: prod.splits)
    from 2(1) [OF _ n(1) _ n(4)] n(2,3) obtain v where "drop n buf = w1 @ v" "e = Some None \<longleftrightarrow> v = []" by auto
    then show ?thesis using n(5) by (intro exI [of _ v]) (simp, metis append_take_drop_id)
  qed (use 2 in \<open>auto split: if_splits io_wpoll.splits\<close>)
qed (auto split: if_splits)

end
