(* ===== verification/TS2021.thy ===== *)
theory TS2021
  imports Noise_IK TLS_IO
begin

text \<open>
  \<open>ts2021_client.c\<close>, the control connection once its transport is open: Noise records on the wire (reading, opening, sealing,
  writing), the optional early payload before the HTTP/2 bytes, the deadlines of a request, and the base64 of the upgrade request.

  The transport is the transcript of what its polls return (\<open>TLS_IO\<close>); an abort or a passed deadline is a poll that fails with the
  code the adapters \<open>ts2021_conn_read\<close> and \<open>ts2021_conn_write\<close> return for it.  The record ring with its window
  \<open>[h2_rx_off, h2_rx_len)\<close> is the list of bytes in the window.  Log lines have no counterpart.
\<close>

section \<open>The connection\<close>

definition TS2021_HEADER_LEN :: nat where "TS2021_HEADER_LEN = 3"
definition TS2021_MSG_ERROR :: u8 where "TS2021_MSG_ERROR = 3"
definition TS2021_MSG_RECORD :: u8 where "TS2021_MSG_RECORD = 4"
definition TS2021_MAX_MESSAGE :: nat where "TS2021_MAX_MESSAGE = 4096"
definition TS2021_ERR_READ_ABORTED :: int where "TS2021_ERR_READ_ABORTED = - 0x10001"
definition TS2021_ERR_REQ_DEADLINE :: int where "TS2021_ERR_REQ_DEADLINE = - 0x10004"
definition TS2021_REQ_POLL_MS :: int where "TS2021_REQ_POLL_MS = 2000"
definition TS2021_TX_RECORD_MAX :: nat where "TS2021_TX_RECORD_MAX = 2048"
definition TS2021_TX_PLAINTEXT_MAX :: nat where "TS2021_TX_PLAINTEXT_MAX = TS2021_TX_RECORD_MAX - TS2021_HEADER_LEN - 16"
definition TS2021_SMALL_PLAINTEXT_MAX :: nat where "TS2021_SMALL_PLAINTEXT_MAX = 64"

text \<open>\<open>c_in\<close> and \<open>c_wp\<close> are what the coming read and write polls return, \<open>c_sent\<close> the bytes written so far.\<close>

record ts2021_conn_t =
  c_noise :: noise_ik_state_t
  c_connected :: bool
  c_io_failed :: bool
  c_hs_idle :: nat
  c_req_idle :: nat
  c_req_ms :: u32
  c_req_deadline :: i64
  c_aborted :: bool
  c_req_expired :: bool
  c_resp_wait :: bool
  c_resp_expired :: bool
  c_win :: bytes
  c_in :: "io_poll list"
  c_wp :: "io_wpoll list"
  c_sent :: bytes
  c_plain :: bool
  c_at_addr :: bool
  c_goaway :: bool
  c_up_us :: i64
  c_peer :: bytes

text \<open>How a call ended: with a value, with an error, or not yet (the transcript is exhausted).\<close>

datatype 'a ts_end = TsOk 'a | TsFail | TsWaits

text \<open>\<open>polls\<close> is \<open>TS2021_MAX_IDLE_POLLS\<close>, the configured stream budget.\<close>

definition idle_budget :: "nat \<Rightarrow> ts2021_conn_t \<Rightarrow> nat" where
  "idle_budget polls c = (if c_hs_idle c \<noteq> 0 then c_hs_idle c else if c_req_idle c \<noteq> 0 then c_req_idle c else polls)"

definition note_req_expired :: "ts2021_conn_t \<Rightarrow> ts2021_conn_t" where
  "note_req_expired c = (if c_resp_wait c then c\<lparr>c_resp_expired := True\<rparr> else c\<lparr>c_req_expired := True, c_io_failed := True\<rparr>)"

definition req_ran_out :: "ts2021_conn_t \<Rightarrow> io_end \<Rightarrow> bool" where
  "req_ran_out c e \<longleftrightarrow> e = IoErr TS2021_ERR_REQ_DEADLINE \<or> (e = IoIdle \<and> c_req_idle c \<noteq> 0)"

definition tls_read_full :: "nat \<Rightarrow> ts2021_conn_t \<Rightarrow> nat \<Rightarrow> bytes ts_end \<times> ts2021_conn_t" where
  "tls_read_full polls c need = (case tls_io_read_full need (idle_budget polls c) (c_in c) of
     ReadDone b r \<Rightarrow> (TsOk b, c\<lparr>c_in := r\<rparr>)
   | ReadWaits \<Rightarrow> (TsWaits, c)
   | ReadFail e \<Rightarrow> (TsFail,
       if e = IoErr TS2021_ERR_READ_ABORTED then c\<lparr>c_aborted := True\<rparr>
       else if req_ran_out c e then note_req_expired c
       else c\<lparr>c_io_failed := True\<rparr>))"

definition tls_write_full :: "nat \<Rightarrow> ts2021_conn_t \<Rightarrow> bytes \<Rightarrow> unit ts_end \<times> ts2021_conn_t" where
  "tls_write_full polls c buf = (case tls_io_write_full buf (idle_budget polls c) (c_wp c) of (w, e, wp) \<Rightarrow>
     (let c1 = c\<lparr>c_sent := c_sent c @ w, c_wp := wp\<rparr> in
      case e of None \<Rightarrow> (TsWaits, c1)
      | Some None \<Rightarrow> (TsOk (), c1)
      | Some (Some x) \<Rightarrow> (TsFail, if req_ran_out c1 x then note_req_expired c1 else c1\<lparr>c_io_failed := True\<rparr>)))"

section \<open>Records\<close>

definition read_record_frame :: "nat \<Rightarrow> ts2021_conn_t \<Rightarrow> nat \<Rightarrow> (u8 \<times> bytes) ts_end \<times> ts2021_conn_t" where
  "read_record_frame polls c payload_max = (case tls_read_full polls c TS2021_HEADER_LEN of
     (TsWaits, c1) \<Rightarrow> (TsWaits, c1) | (TsFail, c1) \<Rightarrow> (TsFail, c1)
   | (TsOk hdr, c1) \<Rightarrow>
      (let len = unat (hdr ! 1) * 256 + unat (hdr ! 2) in
       if len > payload_max then (TsFail, c1\<lparr>c_io_failed := True\<rparr>)
       else if len > 0 then (case tls_read_full polls c1 len of
           (TsOk p, c2) \<Rightarrow> (TsOk (hdr ! 0, p), c2) | (TsFail, c2) \<Rightarrow> (TsFail, c2) | (TsWaits, c2) \<Rightarrow> (TsWaits, c2))
       else (TsOk (hdr ! 0, []), c1)))"

definition recv_record :: "nat \<Rightarrow> ts2021_conn_t \<Rightarrow> bytes ts_end \<times> ts2021_conn_t" where
  "recv_record polls c0 = (let c = c0\<lparr>c_win := []\<rparr> in case read_record_frame polls c TS2021_MAX_MESSAGE of
     (TsWaits, c1) \<Rightarrow> (TsWaits, c1) | (TsFail, c1) \<Rightarrow> (TsFail, c1)
   | (TsOk (type, ct), c1) \<Rightarrow>
      (if type = TS2021_MSG_ERROR then (TsFail, c1)
       else if type \<noteq> TS2021_MSG_RECORD then (TsFail, c1\<lparr>c_io_failed := True\<rparr>)
       else (case noise_ik_decrypt True (c_noise c1) TS2021_MAX_MESSAGE ct of (rc, m, st) \<Rightarrow>
         if rc \<noteq> ESP_OK then (TsFail, c1\<lparr>c_noise := st, c_io_failed := True\<rparr>)
         else (TsOk m, c1\<lparr>c_noise := st, c_win := m\<rparr>))))"

definition ts2021_recv_record :: "nat \<Rightarrow> ts2021_conn_t \<Rightarrow> bytes ts_end \<times> ts2021_conn_t" where
  "ts2021_recv_record polls c = (if \<not> c_connected c then (TsFail, c) else recv_record polls c)"

text \<open>A record on the wire: type, length, ciphertext.\<close>

definition record_bytes :: "bytes \<Rightarrow> bytes" where
  "record_bytes ct = TS2021_MSG_RECORD # of_nat (length ct div 256) # of_nat (length ct mod 256) # ct"

definition seal_and_write :: "nat \<Rightarrow> ts2021_conn_t \<Rightarrow> bytes \<Rightarrow> unit ts_end \<times> ts2021_conn_t" where
  "seal_and_write polls c m = (case noise_ik_encrypt True (c_noise c) (length m + 16) m of (rc, ct, st) \<Rightarrow>
     if rc \<noteq> ESP_OK then (TsFail, c\<lparr>c_noise := st\<rparr>) else tls_write_full polls (c\<lparr>c_noise := st\<rparr>) (record_bytes ct))"

function send_loop :: "nat \<Rightarrow> ts2021_conn_t \<Rightarrow> bytes \<Rightarrow> unit ts_end \<times> ts2021_conn_t" where
  "send_loop polls c data = (case seal_and_write polls c (take TS2021_SMALL_PLAINTEXT_MAX data) of (r, c1) \<Rightarrow>
     if r \<noteq> TsOk () then (r, c1)
     else if length data > TS2021_SMALL_PLAINTEXT_MAX then send_loop polls c1 (drop TS2021_SMALL_PLAINTEXT_MAX data) else (r, c1))"
  by pat_completeness auto
termination by (relation "measure (\<lambda>(_, _, d). length d)") (auto simp: TS2021_SMALL_PLAINTEXT_MAX_def)

declare send_loop.simps [simp del]

definition ts2021_send :: "nat \<Rightarrow> ts2021_conn_t \<Rightarrow> bytes \<Rightarrow> unit ts_end \<times> ts2021_conn_t" where
  "ts2021_send polls c data = (if \<not> c_connected c then (TsFail, c) else send_loop polls c data)"

text \<open>\<open>ts2021_tx_buf\<close> drops the window; \<open>m\<close> is what the caller then built in the ring.\<close>

definition ts2021_tx_buf :: "ts2021_conn_t \<Rightarrow> ts2021_conn_t" where "ts2021_tx_buf c = c\<lparr>c_win := []\<rparr>"

definition ts2021_tx_send :: "nat \<Rightarrow> ts2021_conn_t \<Rightarrow> bytes \<Rightarrow> unit ts_end \<times> ts2021_conn_t" where
  "ts2021_tx_send polls c m =
    (if \<not> c_connected c \<or> length m > TS2021_TX_PLAINTEXT_MAX then (TsFail, c) else seal_and_write polls c m)"

section \<open>The early payload\<close>

definition TS2021_EARLY_PAYLOAD_HDR_LEN :: nat where "TS2021_EARLY_PAYLOAD_HDR_LEN = 9"
definition TS2021_EARLY_PAYLOAD_MAGIC :: bytes where "TS2021_EARLY_PAYLOAD_MAGIC = [0xFF, 0xFF, 0xFF, 0x54, 0x53]"
definition TS2021_EARLY_PAYLOAD_MAGIC_LEN :: nat where "TS2021_EARLY_PAYLOAD_MAGIC_LEN = 5"

text \<open>\<open>rest\<close> is what is left of the current record, \<open>rec[rec_off..rec_len)\<close>.  The loops read records until the server sends something else,
  which it need never do, so they carry fuel: one unit per byte taken and per record read.\<close>

datatype early_head = HeadDone bytes bytes | HeadHttp2 bytes | HeadFail | HeadWaits

definition keep_http2_start :: "bytes \<Rightarrow> nat \<Rightarrow> bytes" where
  "keep_http2_start rest matched = take matched TS2021_EARLY_PAYLOAD_MAGIC @ rest"

definition not_magic :: "bytes \<Rightarrow> u8 \<Rightarrow> bool" where
  "not_magic hdr b \<longleftrightarrow> length hdr < TS2021_EARLY_PAYLOAD_MAGIC_LEN \<and> b \<noteq> TS2021_EARLY_PAYLOAD_MAGIC ! length hdr"

fun head_loop :: "nat \<Rightarrow> nat \<Rightarrow> bytes \<Rightarrow> bytes \<Rightarrow> ts2021_conn_t \<Rightarrow> early_head \<times> ts2021_conn_t" where
  "head_loop polls 0 hdr rest c = (HeadWaits, c)"
| "head_loop polls (Suc f) hdr rest c =
    (if length hdr \<ge> TS2021_EARLY_PAYLOAD_HDR_LEN then (HeadDone hdr rest, c)
     else case rest of
       [] \<Rightarrow> (case recv_record polls c of
           (TsOk m, c1) \<Rightarrow> head_loop polls f hdr m c1 | (TsFail, c1) \<Rightarrow> (HeadFail, c1) | (TsWaits, c1) \<Rightarrow> (HeadWaits, c1))
     | b # bs \<Rightarrow> if not_magic hdr b then (HeadHttp2 (keep_http2_start (b # bs) (length hdr)), c) else head_loop polls f (hdr @ [b]) bs c)"

fun skip_loop :: "nat \<Rightarrow> nat \<Rightarrow> nat \<Rightarrow> bytes \<Rightarrow> ts2021_conn_t \<Rightarrow> bytes ts_end \<times> ts2021_conn_t" where
  "skip_loop polls 0 to_skip rest c = (TsWaits, c)"
| "skip_loop polls (Suc f) to_skip rest c =
    (if to_skip = 0 then (TsOk rest, c)
     else if rest = [] then (case recv_record polls c of
         (TsOk m, c1) \<Rightarrow> skip_loop polls f to_skip m c1 | (TsFail, c1) \<Rightarrow> (TsFail, c1) | (TsWaits, c1) \<Rightarrow> (TsWaits, c1))
     else if length rest \<le> to_skip then skip_loop polls f (to_skip - length rest) [] c
     else skip_loop polls f 0 (drop to_skip rest) c)"

definition consume_early_payload :: "nat \<Rightarrow> nat \<Rightarrow> ts2021_conn_t \<Rightarrow> unit ts_end \<times> ts2021_conn_t" where
  "consume_early_payload fuel polls c = (case head_loop polls fuel [] [] c of
     (HeadFail, c1) \<Rightarrow> (TsFail, c1)
   | (HeadWaits, c1) \<Rightarrow> (TsWaits, c1)
   | (HeadHttp2 win, c1) \<Rightarrow> (TsOk (), c1\<lparr>c_win := win\<rparr>)
   | (HeadDone hdr rest, c1) \<Rightarrow>
      (let ep_len = (be_word (drop 5 hdr) :: u32) in
       if unat ep_len > 64 * 1024 then (TsFail, c1)
       else (case skip_loop polls fuel (unat ep_len) rest c1 of
           (TsOk win, c2) \<Rightarrow> (TsOk (), c2\<lparr>c_win := win\<rparr>) | (TsFail, c2) \<Rightarrow> (TsFail, c2) | (TsWaits, c2) \<Rightarrow> (TsWaits, c2))))"

section \<open>Deadlines\<close>

text \<open>\<open>arm_deadline\<close>; \<open>timeouts_set\<close>: the socket options could be set.\<close>

definition deadline_polls :: "i64 \<Rightarrow> i64 \<Rightarrow> nat" where
  "deadline_polls now_us until_us = (let left_ms = (until_us - now_us) div 1000 in
     if until_us - now_us < 1000 then 1 else nat (min ((left_ms + TS2021_REQ_POLL_MS - 1) div TS2021_REQ_POLL_MS) 65535))"

definition arm_deadline :: "bool \<Rightarrow> u32 \<Rightarrow> i64 \<Rightarrow> i64 \<Rightarrow> bool \<Rightarrow> ts2021_conn_t \<Rightarrow> bool \<times> ts2021_conn_t" where
  "arm_deadline timeouts_set ms now_us until_us resp c =
    (if \<not> c_connected c then (False, c)
     else if \<not> timeouts_set then (False, c\<lparr>c_io_failed := True\<rparr>)
     else if ms = 0 then (True, c\<lparr>c_req_idle := 0, c_req_deadline := 0, c_resp_wait := False\<rparr>)
     else (let c1 = c\<lparr>c_req_idle := deadline_polls now_us until_us, c_req_ms := ms, c_resp_wait := resp, c_req_deadline := until_us\<rparr> in
           (True, if resp then c1\<lparr>c_resp_expired := False\<rparr> else c1\<lparr>c_req_expired := False\<rparr>)))"

definition ts2021_request_deadline :: "bool \<Rightarrow> u32 \<Rightarrow> i64 \<Rightarrow> ts2021_conn_t \<Rightarrow> bool \<times> ts2021_conn_t" where
  "ts2021_request_deadline ok ms now c = arm_deadline ok ms now (now + int (unat ms) * 1000) False c"

definition ts2021_response_deadline :: "bool \<Rightarrow> u32 \<Rightarrow> i64 \<Rightarrow> i64 \<Rightarrow> ts2021_conn_t \<Rightarrow> bool \<times> ts2021_conn_t" where
  "ts2021_response_deadline ok ms since now c = (if ms = 0 then (False, c) else arm_deadline ok ms now (since + int (unat ms) * 1000) True c)"

text \<open>\<open>req_overdue\<close>; \<open>rx_ready\<close>: received bytes wait unread.\<close>

definition req_overdue :: "i64 \<Rightarrow> bool \<Rightarrow> ts2021_conn_t \<Rightarrow> bool" where
  "req_overdue now rx_ready c \<longleftrightarrow> \<not> (c_req_deadline c = 0 \<or> now \<le> c_req_deadline c) \<and> \<not> (c_resp_wait c \<and> rx_ready)"

section \<open>The upgrade request\<close>

definition alphabet64 :: string where
  "alphabet64 = ''ABCDEFGHIJKLMNOPQRSTUVWXYZabcdefghijklmnopqrstuvwxyz0123456789+/''"

definition sextet :: "u32 \<Rightarrow> nat \<Rightarrow> char" where "sextet v sh = alphabet64 ! unat (drop_bit sh v AND 0x3F)"

fun b64_text :: "bytes \<Rightarrow> string" where
  "b64_text [] = []"
| "b64_text [a] = (let v = push_bit 16 (ucast a) in [sextet v 18, sextet v 12, CHR ''='', CHR ''=''])"
| "b64_text [a, b] = (let v = push_bit 16 (ucast a) OR push_bit 8 (ucast b) in [sextet v 18, sextet v 12, sextet v 6, CHR ''=''])"
| "b64_text (a # b # c # r) = (let v = push_bit 16 (ucast a) OR push_bit 8 (ucast b) OR ucast c in
     [sextet v 18, sextet v 12, sextet v 6, sextet v 0] @ b64_text r)"

definition b64_encode :: "bytes \<Rightarrow> nat \<Rightarrow> string option" where
  "b64_encode bs out_size = (if (length bs + 2) div 3 * 4 + 1 > out_size then None else Some (b64_text bs))"

section \<open>Records arrive as they were sent\<close>

abbreviation ts_sealed :: "noise_ik_state_t \<Rightarrow> bytes \<Rightarrow> bytes" where
  "ts_sealed st m \<equiv> chacha20poly1305_encrypt True m [] (k_send st) (noise_nonce (n_send st))"

text \<open>The wire bytes of a sequence of plaintexts, and the pieces \<open>ts2021_send\<close> cuts its data into.\<close>

fun wire_of :: "noise_ik_state_t \<Rightarrow> bytes list \<Rightarrow> bytes" where
  "wire_of st [] = []"
| "wire_of st (m # ms) = record_bytes (ts_sealed st m) @ wire_of (st\<lparr>n_send := n_send st + 1\<rparr>) ms"

function pieces :: "bytes \<Rightarrow> bytes list" where
  "pieces data = (if length data > TS2021_SMALL_PLAINTEXT_MAX then take TS2021_SMALL_PLAINTEXT_MAX data # pieces (drop TS2021_SMALL_PLAINTEXT_MAX data) else [data])"
  by pat_completeness auto
termination by (relation "measure length") (auto simp: TS2021_SMALL_PLAINTEXT_MAX_def)

declare pieces.simps [simp del]

lemma pieces_concat: "concat (pieces data) = data"
proof (induction data rule: pieces.induct)
  case (1 data)
  show ?case using "1.IH" by (subst pieces.simps) auto
qed

lemma pieces_small: "\<forall>m \<in> set (pieces data). length m \<le> TS2021_SMALL_PLAINTEXT_MAX"
proof (induction data rule: pieces.induct)
  case (1 data)
  show ?case using "1.IH" by (subst pieces.simps) auto
qed

lemma write_ok: "tls_write_full polls c buf = (TsOk (), c1) \<Longrightarrow> c_sent c1 = c_sent c @ buf \<and> c_noise c1 = c_noise c"
proof -
  assume a: "tls_write_full polls c buf = (TsOk (), c1)"
  obtain w e r where l: "write_loop buf (idle_budget polls c) 0 (c_wp c) = (w, e, r)" by (metis prod_cases3)
  have "e = Some None" "c1 = c\<lparr>c_sent := c_sent c @ w, c_wp := r\<rparr>"
    using a l by (auto simp: tls_write_full_def tls_io_write_full_def Let_def split: option.splits)
  moreover have "w = buf" using write_loop_prefix [OF l] \<open>e = Some None\<close> by auto
  ultimately show ?thesis by simp
qed

lemma seal_ok:
  assumes "transport_ready (c_noise c)" "seal_and_write polls c m = (TsOk (), c1)"
  shows "c_sent c1 = c_sent c @ record_bytes (ts_sealed (c_noise c) m) \<and> c_noise c1 = (c_noise c)\<lparr>n_send := n_send (c_noise c) + 1\<rparr>"
proof -
  have "tls_write_full polls (c\<lparr>c_noise := (c_noise c)\<lparr>n_send := n_send (c_noise c) + 1\<rparr>\<rparr>) (record_bytes (ts_sealed (c_noise c) m)) = (TsOk (), c1)"
    using assms(2) ik_encrypt_eq [OF assms(1), of m "length m + 16" True] by (simp add: seal_and_write_def)
  from write_ok [OF this] show ?thesis by simp
qed

lemma ts_send_ok:
  "transport_ready (c_noise c) \<Longrightarrow> send_loop polls c data = (TsOk (), c1) \<Longrightarrow> c_sent c1 = c_sent c @ wire_of (c_noise c) (pieces data)"
proof (induction polls c data rule: send_loop.induct)
  case (1 polls c data)
  obtain r c2 where s: "seal_and_write polls c (take TS2021_SMALL_PLAINTEXT_MAX data) = (r, c2)" by fastforce
  have r: "r = TsOk ()" using "1.prems"(2) s by (simp add: send_loop.simps [of polls c data] split: if_splits)
  have k: "c_sent c2 = c_sent c @ record_bytes (ts_sealed (c_noise c) (take TS2021_SMALL_PLAINTEXT_MAX data))" "c_noise c2 = (c_noise c)\<lparr>n_send := n_send (c_noise c) + 1\<rparr>"
    using seal_ok [OF "1.prems"(1), of polls "take TS2021_SMALL_PLAINTEXT_MAX data" c2] s r by simp_all
  show ?case
  proof (cases "length data > TS2021_SMALL_PLAINTEXT_MAX")
    case True
    then have l: "send_loop polls c2 (drop TS2021_SMALL_PLAINTEXT_MAX data) = (TsOk (), c1)" using "1.prems"(2) s r by (simp add: send_loop.simps [of polls c data])
    have p: "pieces data = take TS2021_SMALL_PLAINTEXT_MAX data # pieces (drop TS2021_SMALL_PLAINTEXT_MAX data)" using True by (subst pieces.simps) simp
    have "transport_ready (c_noise c2)" using k(2) "1.prems"(1) by simp
    from "1.IH" [OF s [symmetric] _ True this l] r k p show ?thesis by simp
  next
    case False
    then have "c1 = c2" "pieces data = [data]" using "1.prems"(2) s r by (simp_all add: send_loop.simps [of polls c data] pieces.simps [of data])
    then show ?thesis using k False by simp
  qed
qed

text \<open>A transport that carries bytes without an error, a FIN or more silent polls in a row than the budget allows.\<close>

definition carries :: "nat \<Rightarrow> ts2021_conn_t \<Rightarrow> bytes \<Rightarrow> bool" where
  "carries polls c bs \<longleftrightarrow> calm (idle_budget polls c) 0 (c_in c) \<and> poll_data (c_in c) = bs"

lemma budget_upd [simp]:
  "idle_budget polls (c\<lparr>c_in := r\<rparr>) = idle_budget polls c" "idle_budget polls (c\<lparr>c_win := w\<rparr>) = idle_budget polls c" "idle_budget polls (c\<lparr>c_noise := st\<rparr>) = idle_budget polls c"
  by (simp_all add: idle_budget_def)

lemma carries_upd [simp]: "carries polls (c\<lparr>c_win := w\<rparr>) bs = carries polls c bs" "carries polls (c\<lparr>c_noise := st\<rparr>) bs = carries polls c bs"
  by (simp_all add: carries_def)

lemma read_carried:
  assumes "carries polls c (xs @ ys)" "n = length xs"
  shows "\<exists>r. tls_read_full polls c n = (TsOk xs, c\<lparr>c_in := r\<rparr>) \<and> carries polls (c\<lparr>c_in := r\<rparr>) ys"
proof -
  obtain r where "read_loop n (idle_budget polls c) 0 [] (c_in c) = ReadDone xs r" "poll_data r = ys" "calm (idle_budget polls c) 0 r"
    using read_loop_calm [of "idle_budget polls c" 0 "c_in c" "[]" n] assms by (auto simp: carries_def)
  then show ?thesis by (intro exI [of _ r]) (simp add: tls_read_full_def tls_io_read_full_def carries_def)
qed

lemma record_length:
  assumes "length ct \<le> TS2021_MAX_MESSAGE"
  shows "unat (of_nat (length ct div 256) :: u8) * 256 + unat (of_nat (length ct mod 256) :: u8) = length ct"
  using assms by (simp add: TS2021_MAX_MESSAGE_def unat_of_nat)

lemma recv_carried:
  assumes "carries polls c (record_bytes ct @ ys)" "ct = chacha20poly1305_encrypt True m [] (k_recv (c_noise c)) (noise_nonce (n_recv (c_noise c)))"
    "length m + 16 \<le> TS2021_MAX_MESSAGE" "transport_ready (c_noise c)"
  shows "\<exists>r. recv_record polls c = (TsOk m, c\<lparr>c_noise := (c_noise c)\<lparr>n_recv := n_recv (c_noise c) + 1\<rparr>, c_win := m, c_in := r\<rparr>) \<and> carries polls (c\<lparr>c_in := r\<rparr>) ys"
proof -
  define hdr where "hdr = [TS2021_MSG_RECORD, of_nat (length ct div 256), of_nat (length ct mod 256)]"
  have ct: "length ct = length m + 16" unfolding assms(2) by (rule length_encrypt)
  then have len: "unat (hdr ! 1) * 256 + unat (hdr ! 2) = length ct" "length ct > 0" using record_length [of ct] assms(3) by (simp_all add: hdr_def)
  have c0: "carries polls (c\<lparr>c_win := []\<rparr>) (hdr @ ct @ ys)" using assms(1) by (simp add: hdr_def record_bytes_def)
  obtain r1 where r1: "tls_read_full polls (c\<lparr>c_win := []\<rparr>) TS2021_HEADER_LEN = (TsOk hdr, c\<lparr>c_win := []\<rparr>\<lparr>c_in := r1\<rparr>)" "carries polls (c\<lparr>c_win := []\<rparr>\<lparr>c_in := r1\<rparr>) (ct @ ys)"
    using read_carried [OF c0, of TS2021_HEADER_LEN] by (auto simp: hdr_def TS2021_HEADER_LEN_def)
  obtain r2 where r2: "tls_read_full polls (c\<lparr>c_win := []\<rparr>\<lparr>c_in := r1\<rparr>) (length ct) = (TsOk ct, c\<lparr>c_win := []\<rparr>\<lparr>c_in := r1\<rparr>\<lparr>c_in := r2\<rparr>)"
      "carries polls (c\<lparr>c_win := []\<rparr>\<lparr>c_in := r1\<rparr>\<lparr>c_in := r2\<rparr>) ys"
    using read_carried [OF r1(2) refl] by auto
  have f: "read_record_frame polls (c\<lparr>c_win := []\<rparr>) TS2021_MAX_MESSAGE = (TsOk (TS2021_MSG_RECORD, ct), c\<lparr>c_win := []\<rparr>\<lparr>c_in := r2\<rparr>)"
    unfolding read_record_frame_def r1(1) prod.case ts_end.case Let_def len(1) using r2(1) len(2) ct assms(3) by (simp add: hdr_def)
  have d: "noise_ik_decrypt True (c_noise c) TS2021_MAX_MESSAGE ct = (ESP_OK, m, (c_noise c)\<lparr>n_recv := n_recv (c_noise c) + 1\<rparr>)"
    unfolding assms(2) by (rule ik_decrypt_eq [OF assms(4)]) (use assms(3) in simp)
  have "recv_record polls c = (TsOk m, c\<lparr>c_noise := (c_noise c)\<lparr>n_recv := n_recv (c_noise c) + 1\<rparr>, c_win := m, c_in := r2\<rparr>)"
    unfolding recv_record_def Let_def f prod.case ts_end.case using d by (simp add: TS2021_MSG_RECORD_def TS2021_MSG_ERROR_def)
  moreover have "carries polls (c\<lparr>c_in := r2\<rparr>) ys" using r2(2) by (simp add: carries_def)
  ultimately show ?thesis by blast
qed

text \<open>The plaintexts of the next \<open>n\<close> records, as long as they can be read.\<close>

fun recv_run :: "nat \<Rightarrow> nat \<Rightarrow> ts2021_conn_t \<Rightarrow> bytes list \<times> ts2021_conn_t" where
  "recv_run polls 0 c = ([], c)"
| "recv_run polls (Suc n) c = (case recv_record polls c of
     (TsOk m, c1) \<Rightarrow> (case recv_run polls n c1 of (ms, c2) \<Rightarrow> (m # ms, c2)) | (_, c1) \<Rightarrow> ([], c1))"

lemma recv_run_wire:
  assumes "carries polls c (wire_of st ms @ ys)" "transport_ready (c_noise c)" "k_recv (c_noise c) = k_send st" "n_recv (c_noise c) = n_send st"
    "\<forall>m \<in> set ms. length m + 16 \<le> TS2021_MAX_MESSAGE"
  shows "\<exists>c1. recv_run polls (length ms) c = (ms, c1) \<and> carries polls c1 ys \<and> transport_ready (c_noise c1)"
  using assms
proof (induction ms arbitrary: st c)
  case (Cons m ms)
  have e: "ts_sealed st m = chacha20poly1305_encrypt True m [] (k_recv (c_noise c)) (noise_nonce (n_recv (c_noise c)))" using Cons.prems(3,4) by simp
  have w: "carries polls c (record_bytes (ts_sealed st m) @ wire_of (st\<lparr>n_send := n_send st + 1\<rparr>) ms @ ys)" using Cons.prems(1) by simp
  have l: "length m + 16 \<le> TS2021_MAX_MESSAGE" using Cons.prems(5) by simp
  obtain r where r: "recv_record polls c = (TsOk m, c\<lparr>c_noise := (c_noise c)\<lparr>n_recv := n_recv (c_noise c) + 1\<rparr>, c_win := m, c_in := r\<rparr>)"
      "carries polls (c\<lparr>c_in := r\<rparr>) (wire_of (st\<lparr>n_send := n_send st + 1\<rparr>) ms @ ys)"
    using recv_carried [OF w e l Cons.prems(2)] by blast
  define c2 where "c2 = c\<lparr>c_noise := (c_noise c)\<lparr>n_recv := n_recv (c_noise c) + 1\<rparr>, c_win := m, c_in := r\<rparr>"
  have c2: "carries polls c2 (wire_of (st\<lparr>n_send := n_send st + 1\<rparr>) ms @ ys)" "transport_ready (c_noise c2)" "k_recv (c_noise c2) = k_send (st\<lparr>n_send := n_send st + 1\<rparr>)"
      "n_recv (c_noise c2) = n_send (st\<lparr>n_send := n_send st + 1\<rparr>)"
    using r(2) Cons.prems(2-4) by (simp_all add: carries_def c2_def)
  obtain c1 where "recv_run polls (length ms) c2 = (ms, c1)" "carries polls c1 ys" "transport_ready (c_noise c1)"
    using Cons.IH [OF c2] Cons.prems(5) by auto
  then show ?case using r(1) by (simp add: c2_def)
qed simp

section \<open>The early payload is skipped exactly\<close>

text \<open>The same loops over a list of records: the result and the records not read.\<close>

function head_of :: "bytes \<Rightarrow> bytes \<Rightarrow> bytes list \<Rightarrow> early_head \<times> bytes list" where
  "head_of hdr rest recs =
    (if length hdr \<ge> TS2021_EARLY_PAYLOAD_HDR_LEN then (HeadDone hdr rest, recs)
     else case rest of
       [] \<Rightarrow> (case recs of [] \<Rightarrow> (HeadWaits, []) | r # rs \<Rightarrow> head_of hdr r rs)
     | b # bs \<Rightarrow> if not_magic hdr b then (HeadHttp2 (keep_http2_start (b # bs) (length hdr)), recs) else head_of (hdr @ [b]) bs recs)"
  by pat_completeness auto
termination by (relation "measures [\<lambda>(_, rest, recs). length rest + length (concat recs), \<lambda>(_, rest, recs). length recs]") auto

function skip_of :: "nat \<Rightarrow> bytes \<Rightarrow> bytes list \<Rightarrow> bytes ts_end \<times> bytes list" where
  "skip_of to_skip rest recs =
    (if to_skip = 0 then (TsOk rest, recs)
     else if rest = [] then (case recs of [] \<Rightarrow> (TsWaits, []) | r # rs \<Rightarrow> skip_of to_skip r rs)
     else if length rest \<le> to_skip then skip_of (to_skip - length rest) [] recs
     else skip_of 0 (drop to_skip rest) recs)"
  by pat_completeness auto
termination by (relation "measures [\<lambda>(n, rest, recs). length rest + length (concat recs), \<lambda>(n, rest, recs). length recs]") auto

declare head_of.simps [simp del] skip_of.simps [simp del]

text \<open>The connection delivers exactly \<open>recs\<close> next, and stands at \<open>c1\<close> after them.\<close>

definition delivers :: "nat \<Rightarrow> ts2021_conn_t \<Rightarrow> bytes list \<Rightarrow> ts2021_conn_t \<Rightarrow> bool" where
  "delivers polls c recs c1 \<longleftrightarrow> recv_run polls (length recs) c = (recs, c1)"

lemma delivers_Cons:
  assumes "delivers polls c (r # rs) cE"
  shows "\<exists>c1. recv_record polls c = (TsOk r, c1) \<and> delivers polls c1 rs cE"
  using assms by (auto simp: delivers_def split: prod.splits ts_end.splits)

lemma delivers_ConsI: "recv_record polls c = (TsOk r, c1) \<Longrightarrow> delivers polls c1 rs cE \<Longrightarrow> delivers polls c (r # rs) cE"
  by (simp add: delivers_def)

lemma delivers_append: "delivers polls c xs c1 \<Longrightarrow> delivers polls c1 ys c2 \<Longrightarrow> delivers polls c (xs @ ys) c2"
proof (induction xs arbitrary: c)
  case Nil
  then show ?case by (simp add: delivers_def)
next
  case (Cons x xs)
  obtain c' where "recv_record polls c = (TsOk x, c')" "delivers polls c' xs c1" using delivers_Cons [OF Cons.prems(1)] by blast
  then show ?case using Cons.IH Cons.prems(2) delivers_ConsI by fastforce
qed

lemma head_loop_of:
  "head_of hdr rest recs = (e, recs1) \<Longrightarrow> e \<noteq> HeadWaits \<Longrightarrow> delivers polls c recs cE \<Longrightarrow> length rest + length (concat recs) + length recs < f \<Longrightarrow>
   \<exists>ys c1. recs = ys @ recs1 \<and> delivers polls c ys c1 \<and> delivers polls c1 recs1 cE \<and> head_loop polls f hdr rest c = (e, c1)"
proof (induction hdr rest recs arbitrary: c f rule: head_of.induct)
  case (1 hdr rest recs)
  note step = head_of.simps [of hdr rest recs]
  obtain g where f: "f = Suc g" using "1.prems"(4) by (cases f) auto
  have stop: ?case if "head_loop polls f hdr rest c = (e, c)" "recs1 = recs"
    using that "1.prems"(3) by (intro exI [of _ "[]"] exI [of _ c]) (auto simp: delivers_def)
  show ?case
  proof (cases "length hdr \<ge> TS2021_EARLY_PAYLOAD_HDR_LEN")
    case True
    then show ?thesis using stop "1.prems"(1) step f by simp
  next
    case lt: False
    show ?thesis
    proof (cases rest)
      case Nil
      then obtain r rs where recs: "recs = r # rs" using "1.prems"(1,2) lt step by (cases recs) auto
      then obtain c1 where c1: "recv_record polls c = (TsOk r, c1)" "delivers polls c1 rs cE" using delivers_Cons "1.prems"(3) by blast
      have "head_of hdr r rs = (e, recs1)" using "1.prems"(1) lt Nil recs step by simp
      then obtain ys c2 where "rs = ys @ recs1" "delivers polls c1 ys c2" "delivers polls c2 recs1 cE" "head_loop polls g hdr r c1 = (e, c2)"
        using "1.IH"(1) [OF lt Nil recs _ "1.prems"(2) c1(2), of g] "1.prems"(4) recs f by auto
      then show ?thesis using recs c1(1) lt Nil f delivers_ConsI by (intro exI [of _ "r # ys"] exI [of _ c2]) auto
    next
      case (Cons b bs)
      show ?thesis
      proof (cases "not_magic hdr b")
        case True
        then show ?thesis using stop "1.prems"(1) step f lt Cons by simp
      next
        case False
        then have "head_of (hdr @ [b]) bs recs = (e, recs1)" using "1.prems"(1) lt Cons step by simp
        then show ?thesis using "1.IH"(2) [OF lt Cons False _ "1.prems"(2,3), of g] "1.prems"(4) Cons f lt False by simp
      qed
    qed
  qed
qed

lemma skip_loop_of:
  "skip_of n rest recs = (TsOk win, recs1) \<Longrightarrow> delivers polls c recs cE \<Longrightarrow> length rest + length (concat recs) + length recs + 1 < f \<Longrightarrow>
   \<exists>ys c1. recs = ys @ recs1 \<and> delivers polls c ys c1 \<and> delivers polls c1 recs1 cE \<and> skip_loop polls f n rest c = (TsOk win, c1)"
proof (induction n rest recs arbitrary: c f rule: skip_of.induct)
  case (1 n rest recs)
  note step = skip_of.simps [of n rest recs]
  obtain g where f: "f = Suc g" "g \<noteq> 0" using "1.prems"(3) by (cases f) auto
  have stop: ?case if "skip_loop polls f n rest c = (TsOk win, c)" "recs1 = recs"
    using that "1.prems"(2) by (intro exI [of _ "[]"] exI [of _ c]) (auto simp: delivers_def)
  consider (none) "n = 0" | (refill) "n \<noteq> 0" "rest = []" | (all) "n \<noteq> 0" "rest \<noteq> []" "length rest \<le> n" | (part) "n \<noteq> 0" "rest \<noteq> []" "\<not> length rest \<le> n" by blast
  then show ?case
  proof cases
    case none
    then show ?thesis using stop "1.prems"(1) step f by simp
  next
    case refill
    then obtain r rs where recs: "recs = r # rs" using "1.prems"(1) step by (cases recs) auto
    then obtain c1 where c1: "recv_record polls c = (TsOk r, c1)" "delivers polls c1 rs cE" using delivers_Cons "1.prems"(2) by blast
    have "skip_of n r rs = (TsOk win, recs1)" using "1.prems"(1) refill recs step by simp
    then obtain ys c2 where "rs = ys @ recs1" "delivers polls c1 ys c2" "delivers polls c2 recs1 cE" "skip_loop polls g n r c1 = (TsOk win, c2)"
      using "1.IH"(1) [OF refill recs _ c1(2), of g] "1.prems"(3) recs f by auto
    then show ?thesis using recs c1(1) refill f delivers_ConsI by (intro exI [of _ "r # ys"] exI [of _ c2]) auto
  next
    case all
    then have "skip_of (n - length rest) [] recs = (TsOk win, recs1)" using "1.prems"(1) step by simp
    moreover have "length [] + length (concat recs) + length recs + 1 < g" using all(2) "1.prems"(3) f(1) by (cases rest) auto
    ultimately have "\<exists>ys c1. recs = ys @ recs1 \<and> delivers polls c ys c1 \<and> delivers polls c1 recs1 cE \<and> skip_loop polls g (n - length rest) [] c = (TsOk win, c1)"
      using "1.IH"(2) [OF all _ "1.prems"(2), of g] by blast
    then show ?thesis using f(1) all by simp
  next
    case part
    then have "drop n rest = win" "recs1 = recs" using "1.prems"(1) step by (simp_all add: skip_of.simps [of 0])
    then show ?thesis using stop part f by (cases g) auto
  qed
qed

lemma head_matches:
  "length hdr \<le> 9 \<Longrightarrow> hdr @ rest @ concat recs = F @ tail \<Longrightarrow> length F = 9 \<Longrightarrow> take 5 F = TS2021_EARLY_PAYLOAD_MAGIC \<Longrightarrow> \<forall>x \<in> set (rest # recs). length x \<le> N \<Longrightarrow>
   \<exists>rest1 recs1. head_of hdr rest recs = (HeadDone F rest1, recs1) \<and> rest1 @ concat recs1 = tail \<and> (\<forall>x \<in> set (rest1 # recs1). length x \<le> N)"
proof (induction hdr rest recs rule: head_of.induct)
  case (1 hdr rest recs)
  note step = head_of.simps [of hdr rest recs]
  show ?case
  proof (cases "length hdr = 9")
    case True
    then have "hdr = F" "rest @ concat recs = tail" using "1.prems"(2,3) by (simp_all add: append_eq_append_conv)
    moreover have "head_of hdr rest recs = (HeadDone hdr rest, recs)" using True by (simp add: step TS2021_EARLY_PAYLOAD_HDR_LEN_def)
    ultimately show ?thesis using "1.prems"(5) by blast
  next
    case False
    then have lt: "\<not> length hdr \<ge> TS2021_EARLY_PAYLOAD_HDR_LEN" "length hdr < 9" using "1.prems"(1) by (simp_all add: TS2021_EARLY_PAYLOAD_HDR_LEN_def)
    show ?thesis
    proof (cases rest)
      case Nil
      show ?thesis
      proof (cases recs)
        case n: Nil
        then have "length hdr = length F + length tail" using "1.prems"(2) Nil by (metis append_Nil2 concat.simps(1) length_append)
        then show ?thesis using "1.prems"(3) lt(2) by simp
      next
        case (Cons r rs)
        then show ?thesis using "1.IH"(1) [OF lt(1) Nil Cons] "1.prems" Nil lt(1) step by simp
      qed
    next
      case (Cons b bs)
      have b: "F ! length hdr = b" using "1.prems"(2,3) lt(2) Cons by (metis append_Cons nth_append_length nth_append)
      have m: "b = TS2021_EARLY_PAYLOAD_MAGIC ! length hdr" if "length hdr < 5" using that b "1.prems"(4) by (metis nth_take)
      then have n: "\<not> not_magic hdr b" by (auto simp: not_magic_def TS2021_EARLY_PAYLOAD_MAGIC_LEN_def)
      then show ?thesis using "1.IH"(2) [OF lt(1) Cons n] "1.prems" Cons lt step by auto
    qed
  qed
qed

lemma magic_length: "length TS2021_EARLY_PAYLOAD_MAGIC = 5"
  by (simp add: TS2021_EARLY_PAYLOAD_MAGIC_def)

lemma head_differs:
  "hdr = take (length hdr) TS2021_EARLY_PAYLOAD_MAGIC \<Longrightarrow> length hdr \<le> k \<Longrightarrow> k < 5 \<Longrightarrow> hdr @ rest @ concat recs = take k TS2021_EARLY_PAYLOAD_MAGIC @ b # behind \<Longrightarrow>
     b \<noteq> TS2021_EARLY_PAYLOAD_MAGIC ! k \<Longrightarrow> \<forall>x \<in> set (rest # recs). length x \<le> N \<Longrightarrow>
   \<exists>win recs1. head_of hdr rest recs = (HeadHttp2 win, recs1) \<and> win @ concat recs1 = take k TS2021_EARLY_PAYLOAD_MAGIC @ b # behind \<and> length win \<le> 4 + N"
proof (induction hdr rest recs rule: head_of.induct)
  case (1 hdr rest recs)
  note step = head_of.simps [of hdr rest recs]
  have lt: "\<not> length hdr \<ge> TS2021_EARLY_PAYLOAD_HDR_LEN" using "1.prems"(2,3) by (simp add: TS2021_EARLY_PAYLOAD_HDR_LEN_def)
  show ?case
  proof (cases rest)
    case Nil
    show ?thesis
    proof (cases recs)
      case n: Nil
      then have "length hdr = length (take k TS2021_EARLY_PAYLOAD_MAGIC @ b # behind)" using "1.prems"(4) Nil by (metis append_Nil2 concat.simps(1))
      then show ?thesis using "1.prems"(2,3) by (simp add: magic_length)
    next
      case (Cons r rs)
      then show ?thesis using "1.IH"(1) [OF lt Nil Cons] "1.prems" Nil lt step by simp
    qed
  next
    case (Cons x xs)
    have x: "(take k TS2021_EARLY_PAYLOAD_MAGIC @ b # behind) ! length hdr = x" using "1.prems"(4) Cons by (metis append_Cons nth_append_length)
    show ?thesis
    proof (cases "length hdr = k")
      case True
      then have "x = b" using x "1.prems"(3) by (simp add: nth_append magic_length)
      then have d: "not_magic hdr x" using True "1.prems"(3,5) by (simp add: not_magic_def TS2021_EARLY_PAYLOAD_MAGIC_LEN_def)
      have "length (take (length hdr) TS2021_EARLY_PAYLOAD_MAGIC) \<le> 4" using True "1.prems"(3) by simp
      then show ?thesis using d Cons "1.prems" lt step by (auto simp: keep_http2_start_def)
    next
      case False
      then have k: "length hdr < k" using "1.prems"(2) by simp
      then have xm: "x = TS2021_EARLY_PAYLOAD_MAGIC ! length hdr" using x "1.prems"(3) by (simp add: nth_append magic_length)
      then have h: "hdr @ [x] = take (length (hdr @ [x])) TS2021_EARLY_PAYLOAD_MAGIC"
        using "1.prems"(1,3) k by (metis length_append_singleton less_trans magic_length take_Suc_conv_app_nth)
      have n: "\<not> not_magic hdr x" using xm by (simp add: not_magic_def)
      then show ?thesis using "1.IH"(2) [OF lt Cons n h] "1.prems" Cons k lt step by auto
    qed
  qed
qed

lemma skip_exact:
  "n \<le> length (rest @ concat recs) \<Longrightarrow> \<forall>x \<in> set (rest # recs). length x \<le> N \<Longrightarrow>
   \<exists>win recs1. skip_of n rest recs = (TsOk win, recs1) \<and> win @ concat recs1 = drop n (rest @ concat recs) \<and> length win \<le> N"
proof (induction n rest recs rule: skip_of.induct)
  case (1 n rest recs)
  note step = skip_of.simps [of n rest recs]
  consider (none) "n = 0" | (refill) "n \<noteq> 0" "rest = []" | (all) "n \<noteq> 0" "rest \<noteq> []" "length rest \<le> n" | (part) "n \<noteq> 0" "rest \<noteq> []" "\<not> length rest \<le> n" by blast
  then show ?case
  proof cases
    case none
    then show ?thesis using "1.prems" step by simp
  next
    case refill
    then obtain r rs where "recs = r # rs" using "1.prems"(1) by (cases recs) auto
    then show ?thesis using "1.IH"(1) refill "1.prems" step by simp
  next
    case all
    then show ?thesis using "1.IH"(2) "1.prems" step by simp
  next
    case part
    then have "skip_of n rest recs = (TsOk (drop n rest), recs)" using step by (simp add: skip_of.simps [of 0 "drop n rest" recs])
    moreover have "length (drop n rest) \<le> N" using "1.prems"(2) by auto
    ultimately show ?thesis using part by simp
  qed
qed

section \<open>The early payload on the connection\<close>

text \<open>\<open>bs\<close> is an early payload and then \<open>h2\<close>, or \<open>h2\<close> alone, told from the magic within its length.\<close>

definition early_stream :: "bytes \<Rightarrow> bytes \<Rightarrow> bytes \<Rightarrow> bool" where
  "early_stream json h2 bs \<longleftrightarrow>
     (bs = TS2021_EARLY_PAYLOAD_MAGIC @ be_bytes 4 (of_nat (length json) :: u32) @ json @ h2 \<and> length json \<le> 64 * 1024) \<or>
     (bs = h2 \<and> (\<exists>k < 5. k < length h2 \<and> take k h2 = take k TS2021_EARLY_PAYLOAD_MAGIC \<and> h2 ! k \<noteq> TS2021_EARLY_PAYLOAD_MAGIC ! k))"

lemma wire_of_append: "wire_of st (xs @ ys) = wire_of st xs @ wire_of (st\<lparr>n_send := n_send st + of_nat (length xs)\<rparr>) ys"
  by (induction xs arbitrary: st) (simp_all add: algebra_simps)

lemma delivers_wire:
  assumes "carries polls c (wire_of st recs @ ys)" "transport_ready (c_noise c)" "k_recv (c_noise c) = k_send st" "n_recv (c_noise c) = n_send st"
    "\<forall>x \<in> set recs. length x + 16 \<le> TS2021_MAX_MESSAGE"
  shows "delivers polls c recs (snd (recv_run polls (length recs) c))"
  using recv_run_wire [OF assms] by (auto simp: delivers_def)

lemma delivers_part:
  assumes "carries polls c (wire_of st recs @ ys)" "transport_ready (c_noise c)" "k_recv (c_noise c) = k_send st" "n_recv (c_noise c) = n_send st"
    "\<forall>x \<in> set recs. length x + 16 \<le> TS2021_MAX_MESSAGE" "delivers polls c (take k recs) cE"
  shows "carries polls cE (wire_of (st\<lparr>n_send := n_send st + of_nat (length (take k recs))\<rparr>) (drop k recs) @ ys)"
proof -
  have "carries polls c (wire_of st (take k recs) @ wire_of (st\<lparr>n_send := n_send st + of_nat (length (take k recs))\<rparr>) (drop k recs) @ ys)"
    using assms(1) wire_of_append [of st "take k recs" "drop k recs"] by simp
  from recv_run_wire [OF this assms(2-4)] assms(5,6) show ?thesis by (auto simp: delivers_def dest: in_set_takeD)
qed

lemma early_consumed:
  assumes "delivers polls c recs cE" "\<forall>x \<in> set recs. length x + 16 \<le> TS2021_MAX_MESSAGE" "length (concat recs) + length recs + 1 < fuel" "early_stream json h2 (concat recs)"
  shows "\<exists>win k c1. consume_early_payload fuel polls c = (TsOk (), c1\<lparr>c_win := win\<rparr>) \<and> win @ concat (drop k recs) = h2 \<and> length win \<le> TS2021_MAX_MESSAGE \<and>
    delivers polls c (take k recs) c1 \<and> k \<le> length recs"
proof -
  have small: "\<forall>x \<in> set recs. length x \<le> TS2021_MAX_MESSAGE - 16" using assms(2) by fastforce
  have fuel: "length [] + length (concat recs) + length recs < fuel" using assms(3) by simp
  have done_waits: "HeadDone F r \<noteq> HeadWaits" and http2_waits: "HeadHttp2 r \<noteq> HeadWaits" for F r by simp_all
  show ?thesis using assms(4) unfolding early_stream_def
proof
  assume a: "concat recs = TS2021_EARLY_PAYLOAD_MAGIC @ be_bytes 4 (of_nat (length json) :: u32) @ json @ h2 \<and> length json \<le> 64 * 1024"
  define F where "F = TS2021_EARLY_PAYLOAD_MAGIC @ be_bytes 4 (of_nat (length json) :: u32)"
  have F: "length F = 9" "take 5 F = TS2021_EARLY_PAYLOAD_MAGIC" "drop 5 F = be_bytes 4 (of_nat (length json) :: u32)" by (simp_all add: F_def magic_length)
  have n: "unat (be_word (drop 5 F) :: u32) = length json" using a unfolding F(3) by (simp add: unat_of_nat)
  obtain rest1 recs1 where h: "head_of [] [] recs = (HeadDone F rest1, recs1)" "rest1 @ concat recs1 = json @ h2" "\<forall>x \<in> set (rest1 # recs1). length x \<le> TS2021_MAX_MESSAGE - 16"
    using head_matches [of "[]" "[]" recs F "json @ h2" "TS2021_MAX_MESSAGE - 16"] a F small by (auto simp: F_def)
  obtain ys c1 where l: "recs = ys @ recs1" "delivers polls c ys c1" "delivers polls c1 recs1 cE" "head_loop polls fuel [] [] c = (HeadDone F rest1, c1)"
    using head_loop_of [OF h(1) done_waits assms(1) fuel] by blast
  obtain win recs2 where w: "skip_of (length json) rest1 recs1 = (TsOk win, recs2)" "win @ concat recs2 = h2" "length win \<le> TS2021_MAX_MESSAGE - 16"
    using skip_exact [of "length json" rest1 recs1 "TS2021_MAX_MESSAGE - 16"] h(2,3) by auto
  have "length (concat recs) = 9 + length (json @ h2)" using a by (simp add: magic_length)
  then have "length rest1 \<le> length (concat ys)" using l(1) arg_cong [OF h(2), of length] by simp
  then obtain zs c2 where z: "recs1 = zs @ recs2" "delivers polls c1 zs c2" "skip_loop polls fuel (length json) rest1 c1 = (TsOk win, c2)"
    using skip_loop_of [OF w(1) l(3), of fuel] assms(3) l(1) by auto
  have "consume_early_payload fuel polls c = (TsOk (), c2\<lparr>c_win := win\<rparr>)" using l(4) z(3) n a by (simp add: consume_early_payload_def Let_def)
  moreover have "delivers polls c (ys @ zs) c2" using delivers_append [OF l(2) z(2)] .
  ultimately show ?thesis using w(2,3) l(1) z(1) by (intro exI [of _ win] exI [of _ "length (ys @ zs)"] exI [of _ c2]) auto
next
  assume "concat recs = h2 \<and> (\<exists>k < 5. k < length h2 \<and> take k h2 = take k TS2021_EARLY_PAYLOAD_MAGIC \<and> h2 ! k \<noteq> TS2021_EARLY_PAYLOAD_MAGIC ! k)"
  then obtain k where a: "concat recs = h2" "k < 5" "k < length h2" "take k h2 = take k TS2021_EARLY_PAYLOAD_MAGIC" "h2 ! k \<noteq> TS2021_EARLY_PAYLOAD_MAGIC ! k" by blast
  have "h2 = take k TS2021_EARLY_PAYLOAD_MAGIC @ h2 ! k # drop (Suc k) h2" using a(3,4) id_take_nth_drop by metis
  then obtain win recs1 where h: "head_of [] [] recs = (HeadHttp2 win, recs1)" "win @ concat recs1 = h2" "length win \<le> 4 + (TS2021_MAX_MESSAGE - 16)"
    using head_differs [of "[]" k "[]" recs "h2 ! k" "drop (Suc k) h2" "TS2021_MAX_MESSAGE - 16"] a small by auto
  obtain ys c1 where l: "recs = ys @ recs1" "delivers polls c ys c1" "head_loop polls fuel [] [] c = (HeadHttp2 win, c1)"
    using head_loop_of [OF h(1) http2_waits assms(1) fuel] by blast
  then have "consume_early_payload fuel polls c = (TsOk (), c1\<lparr>c_win := win\<rparr>)" by (simp add: consume_early_payload_def)
  then show ?thesis using h(2,3) l by (intro exI [of _ win] exI [of _ "length ys"] exI [of _ c1]) (auto simp: TS2021_MAX_MESSAGE_def)
qed
qed

section \<open>The properties\<close>

text \<open>A side that can send, and a side that reads what the other's keys sealed.\<close>

definition demo_noise :: noise_ik_state_t where
  "demo_noise = \<lparr>nk_h = [], nk_ck = [], nk_k = [], nk_have_k = False, nk_n = 0, nk_s_priv = [], nk_s_pub = [], nk_e_priv = [], nk_e_pub = [],
     nk_rs = [], nk_re = [], k_send = replicate 32 1, k_recv = replicate 32 1, n_send = 0, n_recv = 0, transport_ready = True\<rparr>"

definition demo_conn :: "io_poll list \<Rightarrow> ts2021_conn_t" where
  "demo_conn ps = \<lparr>c_noise = demo_noise, c_connected = True, c_io_failed = False, c_hs_idle = 0, c_req_idle = 0, c_req_ms = 0, c_req_deadline = 0,
     c_aborted = False, c_req_expired = False, c_resp_wait = False, c_resp_expired = False, c_win = [], c_in = ps,
     c_wp = [PutSome 10, PutWant, PutSome 100], c_sent = [],
     c_plain = False, c_at_addr = False, c_goaway = False, c_up_us = 0, c_peer = [0, 0, 0, 0]\<rparr>"

lemma demo_sends: "\<exists>a1. ts2021_send 4 (demo_conn []) [1, 2] = (TsOk (), a1) \<and> c_sent a1 = wire_of demo_noise [[1, 2]]"
proof -
  define c1 where "c1 = (demo_conn [])\<lparr>c_noise := demo_noise\<lparr>n_send := 1\<rparr>\<rparr>"
  have e: "noise_ik_encrypt True demo_noise 18 [1, 2] = (ESP_OK, ts_sealed demo_noise [1, 2], demo_noise\<lparr>n_send := 1\<rparr>)"
    using ik_encrypt_eq [of demo_noise "[1, 2]" 18 True] by (simp add: demo_noise_def)
  have l: "length (record_bytes (ts_sealed demo_noise [1, 2])) = 21" by (simp add: record_bytes_def length_encrypt)
  have "seal_and_write 4 (demo_conn []) [1, 2] = tls_write_full 4 c1 (record_bytes (ts_sealed demo_noise [1, 2]))"
    using e by (simp add: seal_and_write_def demo_conn_def c1_def)
  moreover have "tls_write_full 4 c1 (record_bytes (ts_sealed demo_noise [1, 2])) = (TsOk (), c1\<lparr>c_sent := record_bytes (ts_sealed demo_noise [1, 2]), c_wp := []\<rparr>)"
    using l by (auto simp: tls_write_full_def tls_io_write_full_def c1_def demo_conn_def idle_budget_def)
  moreover have "c_connected (demo_conn [])" by (simp add: demo_conn_def)
  ultimately show ?thesis by (simp add: ts2021_send_def send_loop.simps [of 4 "demo_conn []"] TS2021_SMALL_PLAINTEXT_MAX_def)
qed

text \<open>C28: What one side of the control connection sends is what the other side's HTTP/2 layer gets.  When a send reports success, the
  bytes it put on the wire, carried by any calm transport (cut into reads in any way, with silent polls below the
  budget) and followed by anything, are read as records whose plaintexts, in order, concatenate to the data; the
  connection then stands exactly at what follows.\<close>

theorem ts2021_stream_roundtrip:
  assumes "ts2021_send polls a data = (TsOk (), a1)" "transport_ready (c_noise a)" "c_sent a1 = c_sent a @ wire"
    "carries polls' b (wire @ behind)" "transport_ready (c_noise b)" "k_recv (c_noise b) = k_send (c_noise a)" "n_recv (c_noise b) = n_send (c_noise a)"
  shows "\<exists>ms b1. recv_run polls' (length ms) b = (ms, b1) \<and> concat ms = data \<and> carries polls' b1 behind"
proof -
  have "send_loop polls a data = (TsOk (), a1)" using assms(1) by (simp add: ts2021_send_def split: if_splits)
  then have w: "wire = wire_of (c_noise a) (pieces data)" using ts_send_ok [OF assms(2)] assms(3) by simp
  have "\<forall>m \<in> set (pieces data). length m + 16 \<le> TS2021_MAX_MESSAGE" using pieces_small [of data] by (auto simp: TS2021_SMALL_PLAINTEXT_MAX_def TS2021_MAX_MESSAGE_def)
  from recv_run_wire [OF assms(4) [unfolded w] assms(5-7) this] pieces_concat [of data] show ?thesis by blast
qed

theorem ts2021_stream_roundtrip_witness:
  "\<exists>ms b1. recv_run 4 (length ms) (demo_conn [PollWant, PollData (wire_of demo_noise [[1, 2]]), PollWant, PollData [9]]) = (ms, b1) \<and> concat ms = [1, 2] \<and> carries 4 b1 [9]"
proof -
  obtain a1 where a1: "ts2021_send 4 (demo_conn []) [1, 2] = (TsOk (), a1)" "c_sent a1 = c_sent (demo_conn []) @ wire_of demo_noise [[1, 2]]"
    using demo_sends by (auto simp: demo_conn_def)
  show ?thesis
    by (rule ts2021_stream_roundtrip [OF a1(1) _ a1(2)]) (simp_all add: carries_def demo_conn_def demo_noise_def idle_budget_def record_bytes_def)
qed

text \<open>C29: The early payload is skipped exactly, wherever the record boundaries fall.  The server's records, carried by any calm transport, hold
  the magic, a length of at most 64 KiB and that many bytes, and then HTTP/2 bytes; or they start with bytes that differ from the magic within
  its first five.  Then, with fuel for the bytes and records carried, the call returns success, and the window left in the ring, followed by
  the records still to come, is exactly the HTTP/2 bytes: nothing of them is lost, not even a beginning of the magic that an earlier record
  held.  The window fits the ring.\<close>

theorem early_payload_exact:
  assumes "carries polls c (wire_of st recs @ behind)" "transport_ready (c_noise c)" "k_recv (c_noise c) = k_send st" "n_recv (c_noise c) = n_send st"
    "\<forall>x \<in> set recs. length x + 16 \<le> TS2021_MAX_MESSAGE" "length (concat recs) + length recs + 1 < fuel"
    "early_stream json h2 (concat recs)"
  shows "\<exists>k c1. k \<le> length recs \<and> consume_early_payload fuel polls c = (TsOk (), c1) \<and> c_win c1 @ concat (drop k recs) = h2 \<and> length (c_win c1) \<le> TS2021_MAX_MESSAGE \<and>
    carries polls c1 (wire_of (st\<lparr>n_send := n_send st + of_nat k\<rparr>) (drop k recs) @ behind)"
proof -
  obtain win k cE where k: "consume_early_payload fuel polls c = (TsOk (), cE\<lparr>c_win := win\<rparr>)" "win @ concat (drop k recs) = h2" "length win \<le> TS2021_MAX_MESSAGE"
      "delivers polls c (take k recs) cE" "k \<le> length recs"
    using early_consumed [OF delivers_wire [OF assms(1-5)] assms(5-7)] by blast
  have "carries polls cE (wire_of (st\<lparr>n_send := n_send st + of_nat k\<rparr>) (drop k recs) @ behind)"
    using delivers_part [OF assms(1-5) k(4)] k(5) by (simp add: min_absorb2)
  then show ?thesis using k by (intro exI [of _ k] exI [of _ "cE\<lparr>c_win := win\<rparr>"]) simp
qed

text \<open>The magic in a record of its own, as the control plane sends it; and HTTP/2 bytes whose first record ends inside the magic.\<close>

theorem early_payload_exact_witness:
  "(\<exists>k c1. consume_early_payload 100 4 (demo_conn [PollData (wire_of demo_noise [[0xFF, 0xFF, 0xFF, 0x54, 0x53], [0, 0], [0, 2, 7], [8, 0, 0, 9]])]) = (TsOk (), c1) \<and>
      c_win c1 @ concat (drop k [[0xFF, 0xFF, 0xFF, 0x54, 0x53], [0, 0], [0, 2, 7], [8, 0, 0, 9]]) = [0, 0, 9]) \<and>
   (\<exists>k c1. consume_early_payload 100 4 (demo_conn [PollData (wire_of demo_noise [[0xFF, 0xFF], [], [1], [2]])]) = (TsOk (), c1) \<and>
      c_win c1 @ concat (drop k [[0xFF, 0xFF], [], [1], [2]]) = [0xFF, 0xFF, 1, 2])"
proof -
  have ready: "carries 4 (demo_conn [PollData (wire_of demo_noise (r # rs))]) (wire_of demo_noise (r # rs) @ [])" "transport_ready (c_noise (demo_conn ps))"
      "k_recv (c_noise (demo_conn ps)) = k_send demo_noise" "n_recv (c_noise (demo_conn ps)) = n_send demo_noise" for r rs ps
    by (simp_all add: carries_def demo_conn_def demo_noise_def idle_budget_def record_bytes_def)
  have small: "\<forall>x \<in> set [[0xFF, 0xFF, 0xFF, 0x54, 0x53], [0, 0], [0, 2, 7], [8, 0, 0, 9 :: u8]]. length x + 16 \<le> TS2021_MAX_MESSAGE"
      "\<forall>x \<in> set [[0xFF, 0xFF], [], [1], [2 :: u8]]. length x + 16 \<le> TS2021_MAX_MESSAGE"
    by (simp_all add: TS2021_MAX_MESSAGE_def)
  have s1: "early_stream [7, 8] [0, 0, 9] (concat [[0xFF, 0xFF, 0xFF, 0x54, 0x53], [0, 0], [0, 2, 7], [8, 0, 0, 9]])"
    by (simp add: early_stream_def TS2021_EARLY_PAYLOAD_MAGIC_def be_bytes_def le_bytes_def upt_rec)
  have s2: "early_stream [] [0xFF, 0xFF, 1, 2] (concat [[0xFF, 0xFF], [], [1], [2]])"
    unfolding early_stream_def by (intro disjI2 conjI exI [of _ 2]) (simp_all add: TS2021_EARLY_PAYLOAD_MAGIC_def)
  show ?thesis
    using early_payload_exact [OF ready(1-4) small(1) _ s1, of 100] early_payload_exact [OF ready(1-4) small(2) _ s2, of 100] by fastforce
qed

end
