(* ===== verification/TL_Addr.thy ===== *)
theory TL_Addr
  imports TL_Prelude
begin

text \<open>
  \<open>tl_addr.h\<close> and the types of \<open>netmap.h\<close> it reads: IPv4 literals, the record of the home DERP node and of the control
  address in flash, and the rule that writes them only when they change.

  A C string is the \<open>bytes\<close> before its NUL.  A fixed \<open>char\<close> array is such a list, at most as long as the array; \<open>snprintf\<close>
  with \<open>%u\<close> prints \<open>udec\<close>.
\<close>

section \<open>Text\<close>

definition ascii :: "string \<Rightarrow> bytes" where "ascii s = map of_char s"

definition digit_byte :: "u8 \<Rightarrow> bool" where "digit_byte c \<longleftrightarrow> 48 \<le> c \<and> c \<le> 57"

text \<open>\<open>printf\<close>'s \<open>%u\<close>.\<close>

function udec :: "nat \<Rightarrow> bytes" where
  "udec n = (if n < 10 then [of_nat (48 + n)] else udec (n div 10) @ [of_nat (48 + n mod 10)])"
  by auto
termination by (relation "measure id") auto

declare udec.simps [simp del]

definition TL_ADDR_HOST_MAX :: nat where "TL_ADDR_HOST_MAX = 64"
definition TL_STUN_DEFAULT_PORT :: u16 where "TL_STUN_DEFAULT_PORT = 3478"

text \<open>At most three digits of a field: how many, their value, what follows.\<close>

fun ipv4_digits :: "nat \<Rightarrow> nat \<Rightarrow> bytes \<Rightarrow> nat \<times> nat \<times> bytes" where
  "ipv4_digits k v [] = (k, v, [])"
| "ipv4_digits k v (c # cs) = (if k < 3 \<and> digit_byte c then ipv4_digits (k + 1) (v * 10 + (unat c - 48)) cs else (k, v, c # cs))"

definition ipv4_field :: "bytes \<Rightarrow> (u8 \<times> bytes) option" where
  "ipv4_field s = (case ipv4_digits 0 0 s of (k, v, r) \<Rightarrow>
     if k = 0 \<or> v > 255 \<or> (k > 1 \<and> hd s = 48) then None
     else if r \<noteq> [] \<and> digit_byte (hd r) then None
     else Some (of_nat v, r))"

fun ipv4_fields :: "nat \<Rightarrow> bytes \<Rightarrow> (bytes \<times> bytes) option" where
  "ipv4_fields 0 s = Some ([], s)"
| "ipv4_fields (Suc f) s =
    (case s of [] \<Rightarrow> None | c # cs \<Rightarrow>
      if c \<noteq> 46 then None
      else (case ipv4_field cs of None \<Rightarrow> None | Some (v, r) \<Rightarrow>
        map_option (apfst (Cons v)) (ipv4_fields f r)))"

definition tl_ipv4_parse :: "bytes \<Rightarrow> bytes option" where
  "tl_ipv4_parse s = (case ipv4_field s of None \<Rightarrow> None | Some (v, r) \<Rightarrow>
     (case ipv4_fields 3 r of None \<Rightarrow> None | Some (vs, rest) \<Rightarrow> if rest \<noteq> [] then None else Some (v # vs)))"

definition tl_ipv4_usable :: "bytes \<Rightarrow> bool" where
  "tl_ipv4_usable ip \<longleftrightarrow> ip ! 0 \<noteq> 0 \<and> ip ! 0 \<noteq> 127 \<and> ip ! 0 < 224"

definition tl_ipv4_str :: "bytes \<Rightarrow> bytes" where
  "tl_ipv4_str ip = udec (unat (ip ! 0)) @ [46] @ udec (unat (ip ! 1)) @ [46] @ udec (unat (ip ! 2)) @ [46] @ udec (unat (ip ! 3))"

fun dec_loop :: "nat \<Rightarrow> bytes \<Rightarrow> nat option" where
  "dec_loop v [] = Some v"
| "dec_loop v (c # cs) = (if \<not> digit_byte c then None else dec_loop (v * 10 + (unat c - 48)) cs)"

definition tl_stun_port_parse :: "bytes \<Rightarrow> u16" where
  "tl_stun_port_parse s =
    (if s = [] \<or> length s > 6 then 0 else (case dec_loop 0 s of None \<Rightarrow> 0
      | Some v \<Rightarrow> if v = 0 then TL_STUN_DEFAULT_PORT else if v \<le> 65535 then of_nat v else 0))"

definition host_byte :: "u8 \<Rightarrow> bool" where
  "host_byte c \<longleftrightarrow> (97 \<le> c \<and> c \<le> 122) \<or> (65 \<le> c \<and> c \<le> 90) \<or> (48 \<le> c \<and> c \<le> 57) \<or> c = 45 \<or> c = 46"

definition tl_host_ok :: "bytes \<Rightarrow> bool" where
  "tl_host_ok h \<longleftrightarrow> h \<noteq> [] \<and> length h < TL_ADDR_HOST_MAX \<and> list_all host_byte h"

section \<open>The home DERP node\<close>

record tl_derp_addr_t =
  da_region :: u16
  da_port :: u16
  da_stun_port :: u16
  da_ipv4 :: bytes
  da_host :: bytes

record tl_derp_node_t =
  dn_region_id :: int
  dn_hostname :: bytes
  dn_port :: u16
  dn_stun_port :: u16
  dn_ipv4 :: bytes

record tl_derp_region_t =
  dr_region_id :: int
  dr_nodes :: "tl_derp_node_t list"

definition TL_ADDR_REC_V1 :: u8 where "TL_ADDR_REC_V1 = 1"
definition TL_DERP_ADDR_HDR :: nat where "TL_DERP_ADDR_HDR = 11"
definition TL_CTL_ADDR_HDR :: nat where "TL_CTL_ADDR_HDR = 5"
definition TL_ADDR_BLOB_MAX :: nat where "TL_ADDR_BLOB_MAX = TL_DERP_ADDR_HDR + TL_ADDR_HOST_MAX - 1"

definition put_le16 :: "u16 \<Rightarrow> bytes" where
  "put_le16 v = [ucast v, ucast (drop_bit 8 v)]"

definition get_le16 :: "bytes \<Rightarrow> u16" where
  "get_le16 b = ucast (b ! 0) OR push_bit 8 (ucast (b ! 1))"

definition tl_derp_addr_encode :: "tl_derp_addr_t \<Rightarrow> nat \<Rightarrow> bytes option" where
  "tl_derp_addr_encode a cap =
    (if \<not> tl_host_ok (da_host a) \<or> cap < TL_DERP_ADDR_HDR + length (da_host a) then None
     else Some ([TL_ADDR_REC_V1] @ put_le16 (da_region a) @ put_le16 (da_port a) @ put_le16 (da_stun_port a) @ take 4 (da_ipv4 a) @ da_host a))"

definition no_ipv4 :: bytes where "no_ipv4 = [0, 0, 0, 0]"

definition tl_derp_addr_decode :: "bytes \<Rightarrow> tl_derp_addr_t option" where
  "tl_derp_addr_decode b =
    (if length b \<le> TL_DERP_ADDR_HDR \<or> length b > TL_ADDR_BLOB_MAX \<or> b ! 0 \<noteq> TL_ADDR_REC_V1 then None
     else (let h = drop TL_DERP_ADDR_HDR b in if \<not> tl_host_ok h then None
     else Some \<lparr>da_region = get_le16 (bytes_at 1 2 b), da_port = get_le16 (bytes_at 3 2 b), da_stun_port = get_le16 (bytes_at 5 2 b),
       da_ipv4 = (if tl_ipv4_usable (bytes_at 7 4 b) then bytes_at 7 4 b else no_ipv4), da_host = h\<rparr>))"

fun tl_derp_addr_from_netmap :: "tl_derp_region_t list \<Rightarrow> int \<Rightarrow> tl_derp_addr_t option" where
  "tl_derp_addr_from_netmap [] region = None"
| "tl_derp_addr_from_netmap (r # rs) region =
    (if region \<le> 0 \<or> region > 0xffff then None
     else if dr_region_id r \<noteq> region \<or> dr_nodes r = [] \<or> dn_hostname (hd (dr_nodes r)) = [] then tl_derp_addr_from_netmap rs region
     else (let dn = hd (dr_nodes r) in
       Some \<lparr>da_region = of_int region, da_port = dn_port dn, da_stun_port = dn_stun_port dn,
         da_ipv4 = (if tl_ipv4_usable (dn_ipv4 dn) then dn_ipv4 dn else no_ipv4), da_host = take (TL_ADDR_HOST_MAX - 1) (dn_hostname dn)\<rparr>))"

definition tl_derp_addr_boot :: "bytes \<Rightarrow> int \<Rightarrow> bytes \<Rightarrow> tl_derp_addr_t" where
  "tl_derp_addr_boot b region kconfig_host = (case tl_derp_addr_decode b of
     Some a \<Rightarrow> if region > 0 \<and> int (unat (da_region a)) = region then a
       else \<lparr>da_region = of_int (if region > 0 then region else 0), da_port = 0, da_stun_port = 0, da_ipv4 = no_ipv4, da_host = take (TL_ADDR_HOST_MAX - 1) kconfig_host\<rparr>
   | None \<Rightarrow> \<lparr>da_region = of_int (if region > 0 then region else 0), da_port = 0, da_stun_port = 0, da_ipv4 = no_ipv4, da_host = take (TL_ADDR_HOST_MAX - 1) kconfig_host\<rparr>)"

definition TL_DERP_MOVED :: u32 where "TL_DERP_MOVED = 1"
definition TL_DERP_ADDR :: u32 where "TL_DERP_ADDR = 2"

definition tl_derp_addr_diff :: "tl_derp_addr_t \<Rightarrow> tl_derp_addr_t \<Rightarrow> u32" where
  "tl_derp_addr_diff cur nxt =
    (if da_host cur \<noteq> da_host nxt \<or> da_port cur \<noteq> da_port nxt \<or> da_region cur \<noteq> da_region nxt then TL_DERP_MOVED else 0)
    OR (if da_ipv4 cur \<noteq> da_ipv4 nxt \<or> da_stun_port cur \<noteq> da_stun_port nxt then TL_DERP_ADDR else 0)"

definition tl_derp_addr_stun :: "tl_derp_addr_t \<Rightarrow> (bytes \<times> u16) option" where
  "tl_derp_addr_stun a = (if \<not> tl_ipv4_usable (da_ipv4 a) \<or> da_stun_port a = 0 then None else Some (da_ipv4 a, da_stun_port a))"

section \<open>The control address\<close>

definition tl_ctl_addr_encode :: "bytes \<Rightarrow> bytes \<Rightarrow> nat \<Rightarrow> bytes option" where
  "tl_ctl_addr_encode ip host cap =
    (if \<not> tl_ipv4_usable ip \<or> \<not> tl_host_ok host \<or> cap < TL_CTL_ADDR_HDR + length host then None
     else Some ([TL_ADDR_REC_V1] @ take 4 ip @ host))"

definition tl_ctl_addr_decode :: "bytes \<Rightarrow> bytes \<Rightarrow> bytes option" where
  "tl_ctl_addr_decode b host =
    (if host = [] \<or> length b \<noteq> TL_CTL_ADDR_HDR + length host \<or> b ! 0 \<noteq> TL_ADDR_REC_V1 \<or> drop TL_CTL_ADDR_HDR b \<noteq> host \<or> \<not> tl_ipv4_usable (drop 1 b)
     then None else Some (bytes_at 1 4 b))"

section \<open>Written only on change\<close>

datatype store_rc = StoreUnchanged | StoreWritten | StoreFailed

text \<open>The mirror of the blob (empty: nothing stored) and the write that is made, if any; \<open>ok\<close> is whether the
  flash write succeeds.\<close>

definition tl_addr_store :: "bytes \<Rightarrow> bytes \<Rightarrow> bool \<Rightarrow> store_rc \<times> bytes \<times> bytes option" where
  "tl_addr_store m b ok =
    (if b = [] \<or> length b > TL_ADDR_BLOB_MAX then (StoreFailed, m, None)
     else if m = b then (StoreUnchanged, m, None)
     else (if ok then StoreWritten else StoreFailed, b, Some b))"

section \<open>Decimal text\<close>

definition canonical_dec :: "bytes \<Rightarrow> bool" where
  "canonical_dec s \<longleftrightarrow> s \<noteq> [] \<and> list_all digit_byte s \<and> (length s > 1 \<longrightarrow> hd s \<noteq> 48)"

definition dec_of :: "bytes \<Rightarrow> nat" where "dec_of s = foldl (\<lambda>v c. v * 10 + (unat c - 48)) 0 s"

lemma unat_digit: "n < 10 \<Longrightarrow> unat (of_nat (48 + n) :: u8) = 48 + n"
  by (simp add: unat_of_nat del: of_nat_add)

lemma digit_of_nat: "n < 10 \<Longrightarrow> digit_byte (of_nat (48 + n))"
  using unat_digit [of n] by (simp add: digit_byte_def word_le_nat_alt)

lemma digit_value: "digit_byte c \<Longrightarrow> unat c - 48 < 10 \<and> of_nat (48 + (unat c - 48)) = c"
  by (auto simp: digit_byte_def word_le_nat_alt)

lemma dec_of_snoc: "dec_of (s @ [c]) = dec_of s * 10 + (unat c - 48)"
  by (simp add: dec_of_def)

lemma udec_canonical: "canonical_dec (udec n) \<and> dec_of (udec n) = n \<and> (n \<noteq> 0 \<longrightarrow> hd (udec n) \<noteq> 48)"
proof (induction n rule: udec.induct)
  case (1 n)
  show ?case
  proof (cases "n < 10")
    case True
    have "of_nat (48 + n) = (48 :: u8) \<longleftrightarrow> n = 0" using True by (simp add: word_unat_eq_iff unat_digit del: of_nat_add)
    then show ?thesis using True digit_of_nat [OF True] unat_digit [OF True] by (simp add: udec.simps [of n] canonical_dec_def dec_of_def)
  next
    case False
    have d: "n mod 10 < 10" "n div 10 \<noteq> 0" using False by auto
    have ih: "canonical_dec (udec (n div 10))" "dec_of (udec (n div 10)) = n div 10" "hd (udec (n div 10)) \<noteq> 48" using 1 False d by auto
    then show ?thesis using False digit_of_nat [OF d(1)] unat_digit [OF d(1)]
      by (auto simp: udec.simps [of n] canonical_dec_def dec_of_snoc simp del: of_nat_add)
  qed
qed

lemma canonical_udec: "canonical_dec s \<Longrightarrow> udec (dec_of s) = s"
proof (induction s rule: rev_induct)
  case (snoc c s)
  have c: "digit_byte c" using snoc.prems by (simp add: canonical_dec_def)
  note cv = digit_value [OF c]
  show ?case
  proof (cases "s = []")
    case True
    then show ?thesis using cv by (simp add: dec_of_def udec.simps)
  next
    case False
    have s: "canonical_dec s" "hd s \<noteq> 48" using snoc.prems False by (auto simp: canonical_dec_def hd_append)
    have "dec_of s \<noteq> 0"
    proof
      assume "dec_of s = 0"
      then have "s = udec 0" using snoc.IH s(1) by simp
      then show False using s(2) by (simp add: udec.simps)
    qed
    then show ?thesis using snoc.IH s(1) cv by (simp add: dec_of_snoc udec.simps [of "dec_of s * 10 + (unat c - 48)"] div_add1_eq)
  qed
qed (simp add: canonical_dec_def)

abbreviation ends_field :: "bytes \<Rightarrow> bool" where "ends_field r \<equiv> r = [] \<or> \<not> digit_byte (hd r)"

lemma ipv4_digits_out:
  assumes "ipv4_digits k v s = (k1, v1, r)" "k \<le> 3"
  shows "\<exists>ds. s = ds @ r \<and> list_all digit_byte ds \<and> k1 = k + length ds \<and> k1 \<le> 3 \<and> v1 = foldl (\<lambda>v c. v * 10 + (unat c - 48)) v ds \<and> (k1 < 3 \<longrightarrow> ends_field r)"
  using assms
proof (induction k v s rule: ipv4_digits.induct)
  case (2 k v c cs)
  show ?case
  proof (cases "k < 3 \<and> digit_byte c")
    case True
    then obtain ds where "cs = ds @ r" "list_all digit_byte ds" "k1 = k + 1 + length ds" "k1 \<le> 3"
      "v1 = foldl (\<lambda>v c. v * 10 + (unat c - 48)) (v * 10 + (unat c - 48)) ds" "k1 < 3 \<longrightarrow> ends_field r" using 2 by auto
    then show ?thesis using True by (intro exI [of _ "c # ds"]) auto
  qed (use 2 in auto)
qed auto

lemma ipv4_digits_in:
  assumes "list_all digit_byte ds" "k + length ds \<le> 3" "ends_field r"
  shows "ipv4_digits k v (ds @ r) = (k + length ds, foldl (\<lambda>v c. v * 10 + (unat c - 48)) v ds, r)"
  using assms
proof (induction ds arbitrary: k v)
  case Nil
  then show ?case by (cases r) auto
qed auto

lemma length_udec: "n < 10 ^ d \<Longrightarrow> 0 < d \<Longrightarrow> length (udec n) \<le> d"
proof (induction n arbitrary: d rule: udec.induct)
  case (1 n)
  show ?case
  proof (cases "n < 10")
    case False
    then obtain e where e: "d = Suc e" "0 < e" using "1.prems" by (cases d; cases "d - 1") auto
    then have "n div 10 < 10 ^ e" using "1.prems" by (simp add: less_mult_imp_div_less)
    then show ?thesis using "1.IH" [OF False, of e] e False by (simp add: udec.simps [of n])
  qed (use "1.prems" in \<open>simp add: udec.simps [of n]\<close>)
qed

lemma ipv4_field_exact: "ipv4_field s = Some (v, r) \<longleftrightarrow> s = udec (unat v) @ r \<and> ends_field r"
proof
  assume a: "ipv4_field s = Some (v, r)"
  obtain k1 v1 where d: "ipv4_digits 0 0 s = (k1, v1, r)" "k1 \<noteq> 0" "v1 \<le> 255" "\<not> (k1 > 1 \<and> hd s = 48)" "ends_field r" "v = of_nat v1"
    using a by (auto simp: ipv4_field_def split: prod.splits if_splits)
  obtain ds where ds: "s = ds @ r" "list_all digit_byte ds" "k1 = length ds" "v1 = dec_of ds" using ipv4_digits_out [OF d(1)] by (auto simp: dec_of_def)
  then have "canonical_dec ds" using d by (cases ds) (auto simp: canonical_dec_def)
  then show "s = udec (unat v) @ r \<and> ends_field r" using d ds canonical_udec [of ds] by (simp add: unat_of_nat)
next
  assume a: "s = udec (unat v) @ r \<and> ends_field r"
  have c: "canonical_dec (udec (unat v))" "dec_of (udec (unat v)) = unat v" using udec_canonical by blast+
  have l: "length (udec (unat v)) \<le> 3" using length_udec [of "unat v" 3] u8_bound [of v] by (simp add: less_trans [of _ 256])
  have "ipv4_digits 0 0 s = (length (udec (unat v)), unat v, r)" using ipv4_digits_in [of "udec (unat v)" 0 r 0] a c l by (simp add: canonical_dec_def dec_of_def)
  moreover have "\<not> 255 < unat v" using u8_bound [of v] by linarith
  ultimately show "ipv4_field s = Some (v, r)" using a c by (auto simp: ipv4_field_def canonical_dec_def hd_append)
qed

lemma ipv4_fields_exact:
  "ipv4_fields f s = Some (vs, r) \<longleftrightarrow> length vs = f \<and> s = concat (map (\<lambda>v. 46 # udec (unat v)) vs) @ r \<and> (f = 0 \<or> ends_field r)"
proof (induction f arbitrary: s vs)
  case (Suc f)
  have dot: "ends_field (concat (map (\<lambda>v. 46 # udec (unat v)) us) @ r)" if "us = [] \<Longrightarrow> ends_field r" for us
    using that by (cases us) (auto simp: digit_byte_def)
  have step: "ipv4_fields (Suc f) s = Some (vs, r) \<longleftrightarrow>
      (\<exists>cs v q us. s = 46 # cs \<and> ipv4_field cs = Some (v, q) \<and> ipv4_fields f q = Some (us, r) \<and> vs = v # us)"
    by (auto split: list.splits option.splits)
  show ?case unfolding step ipv4_field_exact Suc.IH
  proof
    assume "\<exists>cs v q us. s = 46 # cs \<and> (cs = udec (unat v) @ q \<and> ends_field q) \<and> (length us = f \<and> q = concat (map (\<lambda>v. 46 # udec (unat v)) us) @ r \<and> (f = 0 \<or> ends_field r)) \<and> vs = v # us"
    then show "length vs = Suc f \<and> s = concat (map (\<lambda>v. 46 # udec (unat v)) vs) @ r \<and> (Suc f = 0 \<or> ends_field r)" by auto
  next
    assume a: "length vs = Suc f \<and> s = concat (map (\<lambda>v. 46 # udec (unat v)) vs) @ r \<and> (Suc f = 0 \<or> ends_field r)"
    then obtain v us where vs: "vs = v # us" "length us = f" by (cases vs) auto
    then show "\<exists>cs v q us. s = 46 # cs \<and> (cs = udec (unat v) @ q \<and> ends_field q) \<and> (length us = f \<and> q = concat (map (\<lambda>v. 46 # udec (unat v)) us) @ r \<and> (f = 0 \<or> ends_field r)) \<and> vs = v # us"
      using a dot [of us] by auto
  qed
qed auto

lemma list4: "length xs = 4 \<Longrightarrow> xs = [xs ! 0, xs ! 1, xs ! 2, xs ! 3]"
  by (auto simp: numeral_eq_Suc length_Suc_conv)

lemma list3: "length xs = 3 \<Longrightarrow> xs = [xs ! 0, xs ! 1, xs ! 2]"
  by (auto simp: numeral_eq_Suc length_Suc_conv)

lemma ipv4_parse_exact: "tl_ipv4_parse s = Some ip \<longleftrightarrow> length ip = 4 \<and> s = tl_ipv4_str ip"
proof
  assume "tl_ipv4_parse s = Some ip"
  then obtain v vs r where v: "ipv4_field s = Some (v, r)" "ipv4_fields 3 r = Some (vs, [])" "ip = v # vs"
    by (auto simp: tl_ipv4_parse_def split: option.splits if_splits)
  then have "s = udec (unat v) @ r" "length vs = 3" "r = concat (map (\<lambda>v. 46 # udec (unat v)) vs)" unfolding ipv4_field_exact ipv4_fields_exact by auto
  moreover from this(2) obtain a b c where "vs = [a, b, c]" by (metis list3)
  ultimately show "length ip = 4 \<and> s = tl_ipv4_str ip" using v(3) by (simp add: tl_ipv4_str_def)
next
  assume a: "length ip = 4 \<and> s = tl_ipv4_str ip"
  define v vs where "v = ip ! 0" and "vs = [ip ! 1, ip ! 2, ip ! 3]"
  define r where "r = concat (map (\<lambda>v. 46 # udec (unat v)) vs)"
  have "s = udec (unat v) @ r" "ends_field r" using a by (simp_all add: r_def v_def vs_def tl_ipv4_str_def digit_byte_def)
  then have "ipv4_field s = Some (v, r)" "ipv4_fields 3 r = Some (vs, [])" unfolding ipv4_field_exact ipv4_fields_exact by (auto simp: r_def vs_def)
  moreover have "ip = v # vs" using list4 [of ip] a by (simp add: v_def vs_def)
  ultimately show "tl_ipv4_parse s = Some ip" by (simp add: tl_ipv4_parse_def)
qed

section \<open>Records\<close>

lemma get_put_le16: "get_le16 (put_le16 v) = v"
  by (intro bit_word_eqI) (auto simp: get_le16_def put_le16_def bit_simps)

lemma put_get_le16: "length b = 2 \<Longrightarrow> put_le16 (get_le16 b) = b"
proof -
  assume "length b = 2"
  then obtain x y where "b = [x, y]" by (auto simp: numeral_eq_Suc length_Suc_conv)
  moreover have "\<not> bit x (8 + n)" for n using bit_imp_le_length [of x "8 + n"] by auto
  ultimately show ?thesis by (auto simp: get_le16_def put_le16_def intro!: bit_word_eqI simp: bit_simps)
qed

lemma length_put_le16 [simp]: "length (put_le16 v) = 2"
  by (simp add: put_le16_def)

lemma derp_addr_fields:
  assumes "tl_derp_addr_encode a cap = Some b" "length (da_ipv4 a) = 4"
  shows "b ! 0 = TL_ADDR_REC_V1 \<and> length b = 11 + length (da_host a) \<and> bytes_at 1 2 b = put_le16 (da_region a) \<and> bytes_at 3 2 b = put_le16 (da_port a) \<and>
    bytes_at 5 2 b = put_le16 (da_stun_port a) \<and> bytes_at 7 4 b = da_ipv4 a \<and> drop 11 b = da_host a \<and> tl_host_ok (da_host a)"
  using assms by (auto simp: tl_derp_addr_encode_def bytes_at_def put_le16_def split: if_splits)

text \<open>The records of \<open>tl_addr.h\<close> survive flash.  The IPv4 parser accepts exactly what the printer prints; a record of the home
  DERP node decodes to itself with an unusable address read as none; the control address decodes only under
  the host it was stored for; no decoded host can carry a byte that is not a letter, digit, dash or
  dot; and a record that is already mirrored costs no write, while one that changed costs exactly one.\<close>

theorem addr_records_roundtrip:
  assumes "tl_derp_addr_encode a cap = Some b" "length (da_ipv4 a) = 4" "tl_ctl_addr_encode ip host cap1 = Some c" "length ip = 4"
  shows "tl_derp_addr_decode b = Some (if tl_ipv4_usable (da_ipv4 a) then a else a\<lparr>da_ipv4 := no_ipv4\<rparr>) \<and>
    (\<forall>h. tl_ctl_addr_decode c h = (if h = host then Some ip else None)) \<and>
    (\<forall>b1 a1. tl_derp_addr_decode b1 = Some a1 \<longrightarrow> tl_host_ok (da_host a1)) \<and>
    (\<forall>s. tl_ipv4_parse s = Some ip \<longleftrightarrow> s = tl_ipv4_str ip) \<and>
    tl_addr_store b b ok = (StoreUnchanged, b, None) \<and>
    (m \<noteq> b \<longrightarrow> tl_addr_store m b ok = (if ok then StoreWritten else StoreFailed, b, Some b))"
proof -
  note f = derp_addr_fields [OF assms(1,2)]
  have h: "tl_host_ok (da_host a)" "da_host a \<noteq> []" "length (da_host a) < 64" using f by (auto simp: tl_host_ok_def TL_ADDR_HOST_MAX_def)
  have 1: "tl_derp_addr_decode b = Some (if tl_ipv4_usable (da_ipv4 a) then a else a\<lparr>da_ipv4 := no_ipv4\<rparr>)"
    using f h by (auto simp: tl_derp_addr_decode_def Let_def TL_DERP_ADDR_HDR_def TL_ADDR_BLOB_MAX_def TL_ADDR_HOST_MAX_def get_put_le16)
  have c: "c = [TL_ADDR_REC_V1] @ ip @ host" "tl_ipv4_usable ip" "host \<noteq> []"
    using assms(3,4) by (auto simp: tl_ctl_addr_encode_def tl_host_ok_def split: if_splits)
  have u: "tl_ipv4_usable (ip @ host)" using c(2) assms(4) by (simp add: tl_ipv4_usable_def nth_append)
  have 2: "tl_ctl_addr_decode c h = (if h = host then Some ip else None)" for h
    using c u assms(4) by (auto simp: tl_ctl_addr_decode_def TL_CTL_ADDR_HDR_def bytes_at_def)
  have 3: "tl_derp_addr_decode b1 = Some a1 \<Longrightarrow> tl_host_ok (da_host a1)" for b1 a1
    by (auto simp: tl_derp_addr_decode_def Let_def split: if_splits)
  have 4: "b \<noteq> []" "length b \<le> TL_ADDR_BLOB_MAX" using f h by (auto simp: TL_ADDR_BLOB_MAX_def TL_DERP_ADDR_HDR_def TL_ADDR_HOST_MAX_def)
  show ?thesis using 1 2 3 4 ipv4_parse_exact assms(4) by (auto simp: tl_addr_store_def not_less)
qed

theorem addr_records_roundtrip_witness:
  "\<exists>b c. tl_derp_addr_encode \<lparr>da_region = 16, da_port = 443, da_stun_port = 3478, da_ipv4 = [198, 51, 100, 7], da_host = ascii ''derp16.example''\<rparr> 75 = Some b \<and>
    tl_ctl_addr_encode [192, 0, 2, 1] (ascii ''ctl'') 20 = Some c \<and> tl_ctl_addr_decode c (ascii ''ctl'') = Some [192, 0, 2, 1] \<and> tl_ctl_addr_decode c (ascii ''other'') = None"
proof -
  let ?a = "\<lparr>da_region = 16, da_port = 443, da_stun_port = 3478, da_ipv4 = [198, 51, 100, 7], da_host = ascii ''derp16.example''\<rparr>"
  have h: "tl_host_ok (ascii ''derp16.example'')" "tl_host_ok (ascii ''ctl'')" by (simp_all add: tl_host_ok_def ascii_def host_byte_def TL_ADDR_HOST_MAX_def)
  obtain b where b: "tl_derp_addr_encode ?a 75 = Some b" using h by (simp add: tl_derp_addr_encode_def TL_DERP_ADDR_HDR_def ascii_def)
  obtain c where c: "tl_ctl_addr_encode [192, 0, 2, 1] (ascii ''ctl'') 20 = Some c"
    using h by (simp add: tl_ctl_addr_encode_def TL_CTL_ADDR_HDR_def tl_ipv4_usable_def ascii_def)
  then show ?thesis using addr_records_roundtrip [OF b _ c, of undefined undefined] b by (auto simp: ascii_def)
qed

end
