(* ===== verification/HPACK.thy ===== *)
theory HPACK
  imports TL_Prelude
begin

unbundle bit_operations_syntax

text \<open>
  \<open>hpack.c\<close>: the HPACK encoder and the streaming decoder of the HTTP/2 client.  The decoder's
  capture buffers \<open>name[]\<close> and \<open>value[]\<close> with their lengths are lists; the packed dynamic table
  \<open>tab[]\<close> is a list of bytes, read and written by offset as in the code.  Sizes and lengths that the
  code bounds (table sizes by the capacity, strings by \<open>HPACK_MAX_STRING\<close>) are natural numbers; the
  Huffman registers are 32-bit words, because the code relies on their wrapping subtraction.  The field
  callback is an argument that threads its own context and may stop the decoder.
\<close>

section \<open>The code\<close>

definition HPACK_NAME_CAP :: nat where "HPACK_NAME_CAP = 32"
definition HPACK_VALUE_CAP :: nat where "HPACK_VALUE_CAP = 64"
definition HPACK_MAX_STRING :: nat where "HPACK_MAX_STRING = 65536"
definition HPACK_STATIC_LEN :: nat where "HPACK_STATIC_LEN = 61"

definition HPACK_F_NAME_CUT :: u8 where "HPACK_F_NAME_CUT = 0x01"
definition HPACK_F_VALUE_CUT :: u8 where "HPACK_F_VALUE_CUT = 0x02"
definition HPACK_F_NAME_BAD :: u8 where "HPACK_F_NAME_BAD = 0x04"
definition HPACK_F_NAME_UPPER :: u8 where "HPACK_F_NAME_UPPER = 0x08"
definition HPACK_F_VALUE_BAD :: u8 where "HPACK_F_VALUE_BAD = 0x10"
definition HPACK_F_NEVER_INDEX :: u8 where "HPACK_F_NEVER_INDEX = 0x20"

record hpack_field_t =
  f_name :: bytes
  f_value :: bytes
  f_name_total :: nat
  f_value_total :: nat
  f_flags :: u8

datatype hpack_rc = HPACK_OK | HPACK_ERR | HPACK_ERR_UNSUPPORTED | HPACK_ERR_CB

datatype hpack_st = ST_FIRST | ST_INT | ST_STR_HDR | ST_STR
datatype hpack_int = INT_INDEXED | INT_NAME | INT_SIZE | INT_STRLEN
datatype hpack_rep = REP_INDEXED | REP_INCR | REP_NOIDX | REP_NEVER

record hpack_dec_t =
  d_tab :: bytes
  d_tab_cap :: nat
  d_max_size :: nat
  d_size_limit :: nat
  d_size :: nat
  d_used :: nat
  d_count :: nat
  d_st :: hpack_st
  d_rep :: hpack_rep
  d_int_for :: hpack_int
  d_block_start :: bool
  d_int_shift :: nat
  d_str_which :: bool
  d_str_huff :: bool
  d_fflags :: u8
  d_last_vbyte :: u8
  d_hlen :: nat
  d_hcode :: u32
  d_hfirst :: u32
  d_hindex :: u32
  d_int_val :: nat
  d_str_left :: nat
  d_str_total :: nat
  d_name_total :: nat
  d_name :: bytes
  d_value :: bytes

text \<open>The bytes of a string literal.\<close>

definition str_bytes :: "string \<Rightarrow> bytes" where
  "str_bytes s = map of_char s"

definition static_pairs :: "(string \<times> string) list" where
  "static_pairs =
    [('':authority'', ''''), ('':method'', ''GET''), ('':method'', ''POST''), ('':path'', ''/''), ('':path'', ''/index.html''),
     ('':scheme'', ''http''), ('':scheme'', ''https''), ('':status'', ''200''), ('':status'', ''204''), ('':status'', ''206''),
     ('':status'', ''304''), ('':status'', ''400''), ('':status'', ''404''), ('':status'', ''500''), (''accept-charset'', ''''),
     (''accept-encoding'', ''gzip, deflate''), (''accept-language'', ''''), (''accept-ranges'', ''''), (''accept'', ''''),
     (''access-control-allow-origin'', ''''), (''age'', ''''), (''allow'', ''''), (''authorization'', ''''), (''cache-control'', ''''),
     (''content-disposition'', ''''), (''content-encoding'', ''''), (''content-language'', ''''), (''content-length'', ''''),
     (''content-location'', ''''), (''content-range'', ''''), (''content-type'', ''''), (''cookie'', ''''), (''date'', ''''), (''etag'', ''''),
     (''expect'', ''''), (''expires'', ''''), (''from'', ''''), (''host'', ''''), (''if-match'', ''''), (''if-modified-since'', ''''),
     (''if-none-match'', ''''), (''if-range'', ''''), (''if-unmodified-since'', ''''), (''last-modified'', ''''), (''link'', ''''),
     (''location'', ''''), (''max-forwards'', ''''), (''proxy-authenticate'', ''''), (''proxy-authorization'', ''''), (''range'', ''''),
     (''referer'', ''''), (''refresh'', ''''), (''retry-after'', ''''), (''server'', ''''), (''set-cookie'', ''''),
     (''strict-transport-security'', ''''), (''transfer-encoding'', ''''), (''user-agent'', ''''), (''vary'', ''''), (''via'', ''''),
     (''www-authenticate'', '''')]"

definition pair_bytes :: "string \<times> string \<Rightarrow> bytes" where
  "pair_bytes p = of_nat (length (fst p)) # str_bytes (fst p) @ of_nat (length (snd p)) # str_bytes (snd p)"

definition k_static :: bytes where
  "k_static = concat (map pair_bytes static_pairs)"

definition k_huff_count :: "nat list" where
  "k_huff_count = [10, 26, 32, 6, 0, 5, 3, 2, 6, 2, 3, 0, 0, 0, 3, 8, 13, 26, 29, 12, 4, 15, 19, 29, 0, 4]"

definition k_huff_sym :: bytes where
  "k_huff_sym = [
    0x30, 0x31, 0x32, 0x61, 0x63, 0x65, 0x69, 0x6f, 0x73, 0x74, 0x20, 0x25, 0x2d, 0x2e, 0x2f, 0x33,
    0x34, 0x35, 0x36, 0x37, 0x38, 0x39, 0x3d, 0x41, 0x5f, 0x62, 0x64, 0x66, 0x67, 0x68, 0x6c, 0x6d,
    0x6e, 0x70, 0x72, 0x75, 0x3a, 0x42, 0x43, 0x44, 0x45, 0x46, 0x47, 0x48, 0x49, 0x4a, 0x4b, 0x4c,
    0x4d, 0x4e, 0x4f, 0x50, 0x51, 0x52, 0x53, 0x54, 0x55, 0x56, 0x57, 0x59, 0x6a, 0x6b, 0x71, 0x76,
    0x77, 0x78, 0x79, 0x7a, 0x26, 0x2a, 0x2c, 0x3b, 0x58, 0x5a, 0x21, 0x22, 0x28, 0x29, 0x3f, 0x27,
    0x2b, 0x7c, 0x23, 0x3e, 0x00, 0x24, 0x40, 0x5b, 0x5d, 0x7e, 0x5e, 0x7d, 0x3c, 0x60, 0x7b, 0x5c,
    0xc3, 0xd0, 0x80, 0x82, 0x83, 0xa2, 0xb8, 0xc2, 0xe0, 0xe2, 0x99, 0xa1, 0xa7, 0xac, 0xb0, 0xb1,
    0xb3, 0xd1, 0xd8, 0xd9, 0xe3, 0xe5, 0xe6, 0x81, 0x84, 0x85, 0x86, 0x88, 0x92, 0x9a, 0x9c, 0xa0,
    0xa3, 0xa4, 0xa9, 0xaa, 0xad, 0xb2, 0xb5, 0xb9, 0xba, 0xbb, 0xbd, 0xbe, 0xc4, 0xc6, 0xe4, 0xe8,
    0xe9, 0x01, 0x87, 0x89, 0x8a, 0x8b, 0x8c, 0x8d, 0x8f, 0x93, 0x95, 0x96, 0x97, 0x98, 0x9b, 0x9d,
    0x9e, 0xa5, 0xa6, 0xa8, 0xae, 0xaf, 0xb4, 0xb6, 0xb7, 0xbc, 0xbf, 0xc5, 0xe7, 0xef, 0x09, 0x8e,
    0x90, 0x91, 0x94, 0x9f, 0xab, 0xce, 0xd7, 0xe1, 0xec, 0xed, 0xc7, 0xcf, 0xea, 0xeb, 0xc0, 0xc1,
    0xc8, 0xc9, 0xca, 0xcd, 0xd2, 0xd5, 0xda, 0xdb, 0xee, 0xf0, 0xf2, 0xf3, 0xff, 0xcb, 0xcc, 0xd3,
    0xd4, 0xd6, 0xdd, 0xde, 0xdf, 0xf1, 0xf4, 0xf5, 0xf6, 0xf7, 0xf8, 0xfa, 0xfb, 0xfc, 0xfd, 0xfe,
    0x02, 0x03, 0x04, 0x05, 0x06, 0x07, 0x08, 0x0b, 0x0c, 0x0e, 0x0f, 0x10, 0x11, 0x12, 0x13, 0x14,
    0x15, 0x17, 0x18, 0x19, 0x1a, 0x1b, 0x1c, 0x1d, 0x1e, 0x1f, 0x7f, 0xdc, 0xf9, 0x0a, 0x0d, 0x16]"

definition HUFF_MIN_LEN :: nat where "HUFF_MIN_LEN = 5"
definition HUFF_MAX_LEN :: nat where "HUFF_MAX_LEN = 30"
definition HUFF_EOS_IDX :: u32 where "HUFF_EOS_IDX = 256"

text \<open>The static and the dynamic table.  A position in a packed table is its rest or its offset.\<close>

definition skip_pair :: "bytes \<Rightarrow> bytes" where
  "skip_pair p = (let p = drop (1 + unat (p ! 0)) p in drop (1 + unat (p ! 0)) p)"

fun static_walk :: "nat \<Rightarrow> bytes \<Rightarrow> bytes" where
  "static_walk 0 p = p"
| "static_walk (Suc n) p = static_walk n (skip_pair p)"

definition static_entry :: "nat \<Rightarrow> bytes" where
  "static_entry idx = static_walk (idx - 1) k_static"

fun name_search :: "bytes \<Rightarrow> nat \<Rightarrow> nat \<Rightarrow> bytes \<Rightarrow> nat" where
  "name_search name i 0 p = 0"
| "name_search name i (Suc n) p =
     (let nl = unat (p ! 0)
      in if nl = length name \<and> bytes_at 1 (length name) p = name then i
         else name_search name (i + 1) n (skip_pair p))"

definition hpack_static_name_index :: "bytes \<Rightarrow> nat" where
  "hpack_static_name_index name = name_search name 1 HPACK_STATIC_LEN k_static"

definition be16 :: "bytes \<Rightarrow> nat \<Rightarrow> nat" where
  "be16 t p = unat (t ! p) * 256 + unat (t ! (p + 1))"

fun dyn_entry :: "bytes \<Rightarrow> nat \<Rightarrow> nat \<Rightarrow> nat" where
  "dyn_entry t p 0 = p"
| "dyn_entry t p (Suc j) = dyn_entry t (p + (4 + be16 t p + be16 t (p + 2))) j"

function dyn_evict_to :: "hpack_dec_t \<Rightarrow> nat \<Rightarrow> hpack_dec_t" where
  "dyn_evict_to d limit =
     (if d_count d > 0 \<and> d_size d > limit
      then let e = dyn_entry (d_tab d) 0 (d_count d - 1); n = be16 (d_tab d) e; v = be16 (d_tab d) (e + 2)
           in dyn_evict_to (d\<lparr>d_size := d_size d - (32 + n + v), d_used := d_used d - (4 + n + v), d_count := d_count d - 1\<rparr>) limit
      else d)"
  by pat_completeness auto
termination by (relation "measure (\<lambda>(d, _). d_count d)") (auto simp: Let_def)

declare dyn_evict_to.simps [simp del]

definition dyn_insert :: "hpack_dec_t \<Rightarrow> hpack_rc \<times> hpack_dec_t" where
  "dyn_insert d =
     (let n = d_name_total d; v = d_str_total d; esz = 32 + n + v
      in if esz > d_size_limit d then (HPACK_OK, dyn_evict_to d 0)
         else if d_fflags d AND (HPACK_F_NAME_CUT OR HPACK_F_VALUE_CUT) \<noteq> 0 then (HPACK_ERR_UNSUPPORTED, d)
         else let d = dyn_evict_to d (d_size_limit d - esz); eb = 4 + n + v
              in if d_used d + eb > d_tab_cap d then (HPACK_ERR_UNSUPPORTED, d)
                 else (HPACK_OK,
                   d\<lparr>d_tab := [of_nat (n div 256), of_nat n, of_nat (v div 256), of_nat v] @ d_name d @ d_value d
                               @ take (d_used d) (d_tab d) @ drop (d_used d + eb) (d_tab d),
                     d_used := d_used d + eb, d_size := d_size d + esz, d_count := d_count d + 1\<rparr>))"

definition name_char_ok :: "u8 \<Rightarrow> bool" where
  "name_char_ok c \<longleftrightarrow> (c \<ge> 97 \<and> c \<le> 122) \<or> (c \<ge> 48 \<and> c \<le> 57) \<or> (c \<noteq> 0 \<and> c \<in> set (str_bytes ''!#$%&'' @ [0x27] @ str_bytes ''*+-.^_'' @ [0x60] @ str_bytes ''|~''))"

definition value_char_ok :: "u8 \<Rightarrow> bool" where
  "value_char_ok c \<longleftrightarrow> c = 9 \<or> (c \<ge> 0x20 \<and> c \<noteq> 0x7f)"

definition put_name_char :: "hpack_dec_t \<Rightarrow> nat \<Rightarrow> u8 \<Rightarrow> hpack_dec_t" where
  "put_name_char d pos c =
     (let d = (if length (d_name d) < HPACK_NAME_CAP then d\<lparr>d_name := d_name d @ [c]\<rparr> else d\<lparr>d_fflags := d_fflags d OR HPACK_F_NAME_CUT\<rparr>)
      in if c \<ge> 65 \<and> c \<le> 90 then d\<lparr>d_fflags := d_fflags d OR HPACK_F_NAME_UPPER\<rparr>
         else if \<not> (pos = 0 \<and> c = 58) \<and> \<not> name_char_ok c then d\<lparr>d_fflags := d_fflags d OR HPACK_F_NAME_BAD\<rparr>
         else d)"

definition put_value_char :: "hpack_dec_t \<Rightarrow> nat \<Rightarrow> u8 \<Rightarrow> hpack_dec_t" where
  "put_value_char d pos c =
     (let d = (if length (d_value d) < HPACK_VALUE_CAP then d\<lparr>d_value := d_value d @ [c]\<rparr> else d\<lparr>d_fflags := d_fflags d OR HPACK_F_VALUE_CUT\<rparr>);
          d = (if \<not> value_char_ok c \<or> (pos = 0 \<and> (c = 32 \<or> c = 9)) then d\<lparr>d_fflags := d_fflags d OR HPACK_F_VALUE_BAD\<rparr> else d)
      in d\<lparr>d_last_vbyte := c\<rparr>)"

definition put_char :: "hpack_dec_t \<Rightarrow> u8 \<Rightarrow> hpack_dec_t" where
  "put_char d c =
     (let pos = d_str_total d; d = d\<lparr>d_str_total := pos + 1\<rparr>
      in if \<not> d_str_which d then put_name_char d pos c else put_value_char d pos c)"

definition begin_name :: "hpack_dec_t \<Rightarrow> hpack_dec_t" where
  "begin_name d = d\<lparr>d_str_which := False, d_str_total := 0, d_name := []\<rparr>"

definition begin_value :: "hpack_dec_t \<Rightarrow> hpack_dec_t" where
  "begin_value d =
     (let d = d\<lparr>d_name_total := d_str_total d\<rparr>;
          d = (if d_name_total d = 0 \<or> (d_name_total d = 1 \<and> d_name d ! 0 = 58) then d\<lparr>d_fflags := d_fflags d OR HPACK_F_NAME_BAD\<rparr> else d)
      in d\<lparr>d_str_which := True, d_str_total := 0, d_value := [], d_last_vbyte := 0\<rparr>)"

definition emit :: "hpack_dec_t \<Rightarrow> (hpack_field_t \<Rightarrow> 'c \<Rightarrow> bool \<times> 'c) \<Rightarrow> 'c \<Rightarrow> hpack_rc \<times> hpack_dec_t \<times> 'c" where
  "emit d fn ctx =
     (let vt = d_str_total d;
          d = (if vt > 0 \<and> (d_last_vbyte d = 32 \<or> d_last_vbyte d = 9) then d\<lparr>d_fflags := d_fflags d OR HPACK_F_VALUE_BAD\<rparr> else d)
      in case (if d_rep d = REP_INCR then dyn_insert d else (HPACK_OK, d)) of
           (HPACK_OK, d) \<Rightarrow>
             (let f = \<lparr>f_name = d_name d, f_value = d_value d, f_name_total = d_name_total d, f_value_total = vt, f_flags = d_fflags d\<rparr>;
                  d = d\<lparr>d_st := ST_FIRST\<rparr>
              in case fn f ctx of (stop, ctx) \<Rightarrow> (if stop then HPACK_ERR_CB else HPACK_OK, d, ctx))
         | (rc, d) \<Rightarrow> (rc, d, ctx))"

definition put_bytes :: "hpack_dec_t \<Rightarrow> bytes \<Rightarrow> hpack_dec_t" where
  "put_bytes d s = foldl put_char d s"

definition table_field :: "hpack_dec_t \<Rightarrow> nat \<Rightarrow> bool \<Rightarrow> hpack_rc \<times> hpack_dec_t" where
  "table_field d idx with_value =
     (if idx = 0 then (HPACK_ERR, d)
      else let put = (\<lambda>n v. let d = begin_value (put_bytes (begin_name d) n) in (HPACK_OK, if with_value then put_bytes d v else d))
           in if idx \<le> HPACK_STATIC_LEN
              then (let e = static_entry idx; nl = unat (e ! 0); vl = unat (e ! (1 + nl))
                    in put (bytes_at 1 nl e) (bytes_at (2 + nl) vl e))
              else (let j = idx - HPACK_STATIC_LEN - 1
                    in if j \<ge> d_count d then (HPACK_ERR, d)
                       else let t = d_tab d; e = dyn_entry t 0 j; nl = be16 t e; vl = be16 t (e + 2)
                            in put (bytes_at (e + 4) nl t) (bytes_at (e + 4 + nl) vl t)))"

definition huff_reset :: "hpack_dec_t \<Rightarrow> hpack_dec_t" where
  "huff_reset d = d\<lparr>d_hcode := 0, d_hfirst := 0, d_hindex := 0, d_hlen := 1\<rparr>"

definition str_done :: "hpack_dec_t \<Rightarrow> (hpack_field_t \<Rightarrow> 'c \<Rightarrow> bool \<times> 'c) \<Rightarrow> 'c \<Rightarrow> hpack_rc \<times> hpack_dec_t \<times> 'c" where
  "str_done d fn ctx =
     (if d_str_huff d \<and> (let plen = d_hlen d - 1 in plen > 7 \<or> drop_bit 1 (d_hcode d) \<noteq> push_bit plen 1 - 1)
      then (HPACK_ERR, d, ctx)
      else if \<not> d_str_which d then (HPACK_OK, (begin_value d)\<lparr>d_st := ST_STR_HDR\<rparr>, ctx)
      else emit d fn ctx)"

definition huff_bit :: "hpack_dec_t \<Rightarrow> bool \<Rightarrow> hpack_rc \<times> hpack_dec_t" where
  "huff_bit d b =
     (let d = d\<lparr>d_hcode := d_hcode d OR (if b then 1 else 0)\<rparr>;
          cnt = (if d_hlen d \<ge> HUFF_MIN_LEN then of_nat (k_huff_count ! (d_hlen d - HUFF_MIN_LEN)) else 0 :: u32)
      in if d_hcode d - d_hfirst d < cnt
         then (let si = d_hindex d + (d_hcode d - d_hfirst d)
               in if si \<ge> HUFF_EOS_IDX then (HPACK_ERR, d)
                  else (HPACK_OK, huff_reset (put_char d (k_huff_sym ! unat si))))
         else if d_hlen d \<ge> HUFF_MAX_LEN then (HPACK_ERR, d)
         else (HPACK_OK, d\<lparr>d_hindex := d_hindex d + cnt, d_hfirst := push_bit 1 (d_hfirst d + cnt),
                           d_hcode := push_bit 1 (d_hcode d), d_hlen := d_hlen d + 1\<rparr>))"

fun huff_bits :: "hpack_dec_t \<Rightarrow> bool list \<Rightarrow> hpack_rc \<times> hpack_dec_t" where
  "huff_bits d [] = (HPACK_OK, d)"
| "huff_bits d (b # bs) = (case huff_bit d b of (HPACK_OK, d) \<Rightarrow> huff_bits d bs | (rc, d) \<Rightarrow> (rc, d))"

definition byte_bits :: "u8 \<Rightarrow> bool list" where
  "byte_bits b = map (bit b) [7, 6, 5, 4, 3, 2, 1, 0]"

definition huff_byte :: "hpack_dec_t \<Rightarrow> u8 \<Rightarrow> hpack_rc \<times> hpack_dec_t" where
  "huff_byte d b = huff_bits d (byte_bits b)"

definition int_done :: "hpack_dec_t \<Rightarrow> nat \<Rightarrow> (hpack_field_t \<Rightarrow> 'c \<Rightarrow> bool \<times> 'c) \<Rightarrow> 'c \<Rightarrow> hpack_rc \<times> hpack_dec_t \<times> 'c" where
  "int_done d v fn ctx =
     (let d = d\<lparr>d_st := ST_FIRST\<rparr>
      in case d_int_for d of
        INT_INDEXED \<Rightarrow>
          (case table_field d v True of (HPACK_OK, d) \<Rightarrow> emit d fn ctx | (_, d) \<Rightarrow> (HPACK_ERR, d, ctx))
      | INT_SIZE \<Rightarrow>
          if v > d_max_size d then (HPACK_ERR, d, ctx)
          else (HPACK_OK, dyn_evict_to (d\<lparr>d_size_limit := v\<rparr>) v, ctx)
      | INT_NAME \<Rightarrow>
          if v = 0 then (HPACK_OK, (begin_name d)\<lparr>d_st := ST_STR_HDR\<rparr>, ctx)
          else (case table_field d v False of
                  (HPACK_OK, d) \<Rightarrow> (HPACK_OK, d\<lparr>d_st := ST_STR_HDR\<rparr>, ctx)
                | (_, d) \<Rightarrow> (HPACK_ERR, d, ctx))
      | INT_STRLEN \<Rightarrow>
          if v > HPACK_MAX_STRING then (HPACK_ERR, d, ctx)
          else let d = huff_reset (d\<lparr>d_str_left := v\<rparr>)
               in if v = 0 then str_done d fn ctx else (HPACK_OK, d\<lparr>d_st := ST_STR\<rparr>, ctx))"

definition int_start :: "hpack_dec_t \<Rightarrow> hpack_int \<Rightarrow> nat \<Rightarrow> nat \<Rightarrow> (hpack_field_t \<Rightarrow> 'c \<Rightarrow> bool \<times> 'c) \<Rightarrow> 'c \<Rightarrow> hpack_rc \<times> hpack_dec_t \<times> 'c" where
  "int_start d what v msk fn ctx =
     (let d = d\<lparr>d_int_for := what\<rparr>
      in if v < msk then int_done d v fn ctx
         else (HPACK_OK, d\<lparr>d_int_val := msk, d_int_shift := 0, d_st := ST_INT\<rparr>, ctx))"

definition hpack_dec_init :: "bytes option \<Rightarrow> nat \<Rightarrow> nat \<Rightarrow> hpack_dec_t" where
  "hpack_dec_init tab tab_cap max_size =
     \<lparr>d_tab = (case tab of Some t \<Rightarrow> t | None \<Rightarrow> []), d_tab_cap = (case tab of Some _ \<Rightarrow> tab_cap | None \<Rightarrow> 0), d_max_size = max_size,
      d_size_limit = max_size, d_size = 0, d_used = 0, d_count = 0, d_st = ST_FIRST, d_rep = REP_INDEXED, d_int_for = INT_INDEXED,
      d_block_start = True, d_int_shift = 0, d_str_which = False, d_str_huff = False, d_fflags = 0, d_last_vbyte = 0, d_hlen = 0,
      d_hcode = 0, d_hfirst = 0, d_hindex = 0, d_int_val = 0, d_str_left = 0, d_str_total = 0, d_name_total = 0, d_name = [], d_value = []\<rparr>"

definition hpack_dec_begin :: "hpack_dec_t \<Rightarrow> hpack_dec_t" where
  "hpack_dec_begin d = d\<lparr>d_st := ST_FIRST, d_block_start := True\<rparr>"

definition hpack_dec_end :: "hpack_dec_t \<Rightarrow> hpack_rc" where
  "hpack_dec_end d = (if d_st d = ST_FIRST then HPACK_OK else HPACK_ERR)"

text \<open>The arms of the decoder's loop: the first byte of a representation, a continuation byte of an
  integer, the header of a string, and a run of string bytes.\<close>

definition feed_first :: "hpack_dec_t \<Rightarrow> u8 \<Rightarrow> (hpack_field_t \<Rightarrow> 'c \<Rightarrow> bool \<times> 'c) \<Rightarrow> 'c \<Rightarrow> hpack_rc \<times> hpack_dec_t \<times> 'c" where
  "feed_first d b fn ctx =
     (if b AND 0xe0 = 0x20
      then (if \<not> d_block_start d then (HPACK_ERR, d, ctx)
            else int_start d INT_SIZE (unat (b AND 0x1f)) 0x1f fn ctx)
      else let d = d\<lparr>d_block_start := False, d_fflags := 0\<rparr>
           in if b AND 0x80 \<noteq> 0 then int_start (d\<lparr>d_rep := REP_INDEXED\<rparr>) INT_INDEXED (unat (b AND 0x7f)) 0x7f fn ctx
              else if b AND 0x40 \<noteq> 0 then int_start (d\<lparr>d_rep := REP_INCR\<rparr>) INT_NAME (unat (b AND 0x3f)) 0x3f fn ctx
              else let d = d\<lparr>d_rep := (if b AND 0x10 \<noteq> 0 then REP_NEVER else REP_NOIDX)\<rparr>;
                       d = (if b AND 0x10 \<noteq> 0 then d\<lparr>d_fflags := d_fflags d OR HPACK_F_NEVER_INDEX\<rparr> else d)
                   in int_start d INT_NAME (unat (b AND 0x0f)) 0x0f fn ctx)"

definition feed_int :: "hpack_dec_t \<Rightarrow> u8 \<Rightarrow> (hpack_field_t \<Rightarrow> 'c \<Rightarrow> bool \<times> 'c) \<Rightarrow> 'c \<Rightarrow> hpack_rc \<times> hpack_dec_t \<times> 'c" where
  "feed_int d b fn ctx =
     (let v = d_int_val d + unat (b AND 0x7f) * 2 ^ d_int_shift d
      in if v > 0x7fffffff then (HPACK_ERR, d, ctx)
         else let d = d\<lparr>d_int_val := v, d_int_shift := d_int_shift d + 7\<rparr>
              in if b AND 0x80 \<noteq> 0
                 then (if d_int_shift d > 28 then (HPACK_ERR, d, ctx) else (HPACK_OK, d, ctx))
                 else int_done d (d_int_val d) fn ctx)"

definition feed_str_hdr :: "hpack_dec_t \<Rightarrow> u8 \<Rightarrow> (hpack_field_t \<Rightarrow> 'c \<Rightarrow> bool \<times> 'c) \<Rightarrow> 'c \<Rightarrow> hpack_rc \<times> hpack_dec_t \<times> 'c" where
  "feed_str_hdr d b fn ctx = int_start (d\<lparr>d_str_huff := (b AND 0x80 \<noteq> 0)\<rparr>) INT_STRLEN (unat (b AND 0x7f)) 0x7f fn ctx"

fun huff_run :: "hpack_dec_t \<Rightarrow> bytes \<Rightarrow> hpack_rc \<times> hpack_dec_t" where
  "huff_run d [] = (HPACK_OK, d)"
| "huff_run d (b # bs) = (case huff_byte d b of (HPACK_OK, d) \<Rightarrow> huff_run d bs | (rc, d) \<Rightarrow> (rc, d))"

definition feed_str :: "hpack_dec_t \<Rightarrow> bytes \<Rightarrow> (hpack_field_t \<Rightarrow> 'c \<Rightarrow> bool \<times> 'c) \<Rightarrow> 'c \<Rightarrow> hpack_rc \<times> hpack_dec_t \<times> 'c" where
  "feed_str d run fn ctx =
     (case (if d_str_huff d then huff_run d run else (HPACK_OK, put_bytes d run)) of
        (rc, d) \<Rightarrow>
          (let d = d\<lparr>d_str_left := d_str_left d - length run\<rparr>
           in if rc = HPACK_OK \<and> d_str_left d = 0 then str_done d fn ctx else (rc, d, ctx)))"

lemma emit_st: "emit d fn ctx = (HPACK_OK, d', ctx') \<Longrightarrow> d_st d' = ST_FIRST"
  by (auto simp: emit_def Let_def split: prod.splits hpack_rc.splits if_splits)

lemma str_done_st: "str_done d fn ctx = (HPACK_OK, d', ctx') \<Longrightarrow> d_st d' \<noteq> ST_STR"
  by (auto simp: str_done_def dest: emit_st split: if_splits)

lemma feed_str_0: "feed_str d [] fn ctx = (HPACK_OK, d', ctx') \<Longrightarrow> d_str_left d = 0 \<Longrightarrow> d_st d' \<noteq> ST_STR"
  by (auto simp: feed_str_def put_bytes_def dest: str_done_st split: if_splits)

function hpack_dec_feed :: "hpack_dec_t \<Rightarrow> bytes \<Rightarrow> (hpack_field_t \<Rightarrow> 'c \<Rightarrow> bool \<times> 'c) \<Rightarrow> 'c \<Rightarrow> hpack_rc \<times> hpack_dec_t \<times> 'c" where
  "hpack_dec_feed d inp fn ctx =
     (case inp of
        [] \<Rightarrow> (HPACK_OK, d, ctx)
      | b # rest \<Rightarrow>
          (case (case d_st d of
                   ST_FIRST \<Rightarrow> (feed_first d b fn ctx, rest)
                 | ST_INT \<Rightarrow> (feed_int d b fn ctx, rest)
                 | ST_STR_HDR \<Rightarrow> (feed_str_hdr d b fn ctx, rest)
                 | ST_STR \<Rightarrow> (let n = min (length inp) (d_str_left d) in (feed_str d (take n inp) fn ctx, drop n inp))) of
             ((HPACK_OK, d', ctx'), inp') \<Rightarrow> hpack_dec_feed d' inp' fn ctx'
           | (r, _) \<Rightarrow> r))"
  by pat_completeness auto
termination
proof (relation "measures [\<lambda>(d, inp, _). length inp, \<lambda>(d, _). if d_st d = ST_STR then 1 else 0]", simp, goal_cases)
  case (1 d inp fn ctx b rest r inp' rc dc d' ctx')
  have e: "(case d_st d of ST_FIRST \<Rightarrow> (feed_first d b fn ctx, rest) | ST_INT \<Rightarrow> (feed_int d b fn ctx, rest)
      | ST_STR_HDR \<Rightarrow> (feed_str_hdr d b fn ctx, rest)
      | ST_STR \<Rightarrow> (let n = min (length inp) (d_str_left d) in (feed_str d (take n inp) fn ctx, drop n inp))) = ((HPACK_OK, d', ctx'), inp')"
    using 1 by simp
  show ?case
  proof (cases "d_st d = ST_STR \<and> d_str_left d = 0")
    case True
    then show ?thesis using e 1(1) feed_str_0 [of d fn ctx d' ctx'] by simp
  next
    case False
    then show ?thesis using e 1(1) by (auto split: hpack_st.splits simp: Let_def)
  qed
qed

declare hpack_dec_feed.simps [simp del]

text \<open>The encoder: \<open>None\<close> is the code's result 0, no room.\<close>

fun put_int_tail :: "nat \<Rightarrow> nat \<Rightarrow> nat \<Rightarrow> bytes option" where
  "put_int_tail cap n v =
     (if n \<ge> cap then None
      else if v \<ge> 0x80 then map_option (\<lambda>r. (0x80 OR of_nat (v mod 128)) # r) (put_int_tail cap (n + 1) (v div 128))
      else Some [of_nat v])"

declare put_int_tail.simps [simp del]

definition hpack_put_int :: "nat \<Rightarrow> u8 \<Rightarrow> nat \<Rightarrow> nat \<Rightarrow> bytes option" where
  "hpack_put_int cap first prefix v =
     (let mx = 2 ^ prefix - 1
      in if cap = 0 then None
         else if v < mx then Some [first OR of_nat v]
         else map_option (\<lambda>r. (first OR of_nat mx) # r) (put_int_tail cap 1 (v - mx)))"

definition put_string :: "nat \<Rightarrow> bytes \<Rightarrow> bytes option" where
  "put_string cap s =
     (case hpack_put_int cap 0x00 7 (length s) of
        None \<Rightarrow> None
      | Some h \<Rightarrow> if length h + length s > cap then None else Some (h @ s))"

definition hpack_put_field :: "nat \<Rightarrow> bytes \<Rightarrow> bytes \<Rightarrow> bytes option" where
  "hpack_put_field cap name val =
     (let idx = hpack_static_name_index name
      in case (if idx \<noteq> 0 then hpack_put_int cap 0x00 4 idx
               else if cap < 1 then None
               else map_option ((#) 0x00) (put_string (cap - 1) name)) of
           None \<Rightarrow> None
         | Some n \<Rightarrow>
             (case put_string (cap - length n) val of
                None \<Rightarrow> None
              | Some v \<Rightarrow> Some (n @ v)))"

end
