(* ===== verification/H2_Core.thy ===== *)
theory H2_Core
  imports HPACK
begin

unbundle bit_operations_syntax

text \<open>
  \<open>h2_core.c\<close>: the HTTP/2 client engine.  Its state is the record \<open>h2_core_t\<close>; the two streams it
  tracks are named by \<open>h2_which\<close> where the code has a pointer to one of them.  The embedder's hooks
  \<open>h2_io_*\<close> are not part of the engine: each call of one is an event appended to the log that \<open>h_io\<close>
  holds, and what the hook returns is any function of that log (\<open>h2_embedder\<close>).  The staging buffer
  \<open>ctl[]\<close> with \<open>ctl_len\<close> is a list, as is the burst being built in the lent buffer, whose length is the
  code's \<open>off\<close>.  Windows are integers: that they stay within 32 bits is part of the invariant.  The two
  loops whose end depends on the state (\<open>feed\<close> and \<open>h2c_pump\<close>) are partial functions, \<open>None\<close> for a
  loop that does not end.
\<close>

section \<open>The code\<close>

definition H2_PREFACE :: bytes where
  "H2_PREFACE = str_bytes ''PRI * HTTP/2.0'' @ [13, 10, 13, 10] @ str_bytes ''SM'' @ [13, 10, 13, 10]"

definition H2_FRAME_HDR_LEN :: nat where "H2_FRAME_HDR_LEN = 9"
definition H2_DEFAULT_WINDOW :: int where "H2_DEFAULT_WINDOW = 65535"
definition H2_MAX_WINDOW :: int where "H2_MAX_WINDOW = 0x7fffffff"
definition H2_MAX_FRAME :: nat where "H2_MAX_FRAME = 16384"
definition H2_MAX_CONTINUATIONS :: nat where "H2_MAX_CONTINUATIONS = 8"
definition H2_CTL_CAP :: nat where "H2_CTL_CAP = 64"
definition H2_WU_THRESHOLD :: int where "H2_WU_THRESHOLD = H2_DEFAULT_WINDOW div 2"

definition H2_DATA :: u8 where "H2_DATA = 0x0"
definition H2_HEADERS :: u8 where "H2_HEADERS = 0x1"
definition H2_PRIORITY :: u8 where "H2_PRIORITY = 0x2"
definition H2_RST_STREAM :: u8 where "H2_RST_STREAM = 0x3"
definition H2_SETTINGS :: u8 where "H2_SETTINGS = 0x4"
definition H2_PUSH_PROMISE :: u8 where "H2_PUSH_PROMISE = 0x5"
definition H2_PING :: u8 where "H2_PING = 0x6"
definition H2_GOAWAY :: u8 where "H2_GOAWAY = 0x7"
definition H2_WINDOW_UPDATE :: u8 where "H2_WINDOW_UPDATE = 0x8"
definition H2_CONTINUATION :: u8 where "H2_CONTINUATION = 0x9"

definition H2_F_END_STREAM :: u8 where "H2_F_END_STREAM = 0x01"
definition H2_F_ACK :: u8 where "H2_F_ACK = 0x01"
definition H2_F_END_HEADERS :: u8 where "H2_F_END_HEADERS = 0x04"
definition H2_F_PADDED :: u8 where "H2_F_PADDED = 0x08"
definition H2_F_PRIORITY :: u8 where "H2_F_PRIORITY = 0x20"

definition H2_NO_ERROR :: nat where "H2_NO_ERROR = 0x0"
definition H2_PROTOCOL_ERROR :: nat where "H2_PROTOCOL_ERROR = 0x1"
definition H2_FLOW_CONTROL_ERROR :: nat where "H2_FLOW_CONTROL_ERROR = 0x3"
definition H2_FRAME_SIZE_ERROR :: nat where "H2_FRAME_SIZE_ERROR = 0x6"
definition H2_REFUSED_STREAM :: nat where "H2_REFUSED_STREAM = 0x7"
definition H2_CANCEL :: nat where "H2_CANCEL = 0x8"
definition H2_COMPRESSION_ERROR :: nat where "H2_COMPRESSION_ERROR = 0x9"
definition H2_ENHANCE_YOUR_CALM :: nat where "H2_ENHANCE_YOUR_CALM = 0xb"

definition H2_SET_HEADER_TABLE_SIZE :: nat where "H2_SET_HEADER_TABLE_SIZE = 0x1"
definition H2_SET_ENABLE_PUSH :: nat where "H2_SET_ENABLE_PUSH = 0x2"
definition H2_SET_MAX_CONCURRENT_STREAMS :: nat where "H2_SET_MAX_CONCURRENT_STREAMS = 0x3"
definition H2_SET_INITIAL_WINDOW_SIZE :: nat where "H2_SET_INITIAL_WINDOW_SIZE = 0x4"
definition H2_SET_MAX_FRAME_SIZE :: nat where "H2_SET_MAX_FRAME_SIZE = 0x5"
definition H2_SET_ENABLE_CONNECT_PROTOCOL :: nat where "H2_SET_ENABLE_CONNECT_PROTOCOL = 0x8"
definition H2_SET_NO_RFC7540_PRIORITIES :: nat where "H2_SET_NO_RFC7540_PRIORITIES = 0x9"

datatype h2_rc = H2C_OK | H2C_ERR_IO | H2C_ERR_PROTO | H2C_ERR_STATE | H2C_ERR_SIZE | H2C_ERR_STREAMS
datatype h2_phase = PH_PADLEN | PH_PRIO | PH_BODY | PH_PAD | PH_FIXED | PH_SKIP

record h2_stream_t =
  s_id :: nat
  s_open :: bool
  s_local_end :: bool
  s_remote_end :: bool
  s_closed :: bool
  s_stop :: bool
  s_have_status :: bool
  s_final :: bool
  s_pseudo_done :: bool
  s_close_err :: nat
  s_status :: int
  s_send_win :: int
  s_recv_win :: int
  s_consumed :: int
  s_content_length :: int
  s_recv_len :: int
  s_body :: bytes
  s_body_off :: nat

text \<open>What the embedder sees: the hook called and its arguments.\<close>

datatype h2_event = EvSend bytes | EvTxBuf | EvTxSend bytes | EvStatus int | EvHeader hpack_field_t | EvData bytes
  | EvSideStatus int | EvSideHeader hpack_field_t | EvGoaway nat nat

record h2_embedder =
  e_send :: "h2_event list \<Rightarrow> int"
  e_tx_buf :: "h2_event list \<Rightarrow> nat option"
  e_tx_send :: "h2_event list \<Rightarrow> int"
  e_on_data :: "h2_event list \<Rightarrow> int"

record h2_core_t =
  h_io :: "h2_event list"
  h_started :: bool
  h_dead :: bool
  h_goaway :: bool
  h_sent_size_update :: bool
  h_goaway_last :: nat
  h_next_id :: nat
  h_last_id :: nat
  h_settings_unacked :: nat
  h_conn_send_win :: int
  h_conn_recv_win :: int
  h_conn_consumed :: int
  h_peer_initial_win :: nat
  h_peer_max_frame :: nat
  h_peer_enable_connect :: nat
  h_peer_max_streams :: nat
  h_fh :: bytes
  h_fh_have :: nat
  h_f_type :: u8
  h_f_flags :: u8
  h_f_phase :: h2_phase
  h_f_pad :: nat
  h_f_fix_have :: nat
  h_f_ignore :: bool
  h_f_len :: nat
  h_f_sid :: nat
  h_f_left :: nat
  h_f_body_left :: nat
  h_f_fix :: bytes
  h_cont_sid :: nat
  h_cont_count :: nat
  h_blk_end_stream :: bool
  h_blk_ignore :: bool
  h_blk_trailer :: bool
  h_blk_error :: bool
  h_hpack :: hpack_dec_t
  h_s :: h2_stream_t
  h_side :: h2_stream_t
  h_ctl :: bytes

datatype h2_which = H2_MAIN | H2_SIDE

fun h2_get :: "h2_which \<Rightarrow> h2_core_t \<Rightarrow> h2_stream_t" where
  "h2_get H2_MAIN h = h_s h"
| "h2_get H2_SIDE h = h_side h"

fun h2_put :: "h2_which \<Rightarrow> h2_stream_t \<Rightarrow> h2_core_t \<Rightarrow> h2_core_t" where
  "h2_put H2_MAIN s h = h\<lparr>h_s := s\<rparr>"
| "h2_put H2_SIDE s h = h\<lparr>h_side := s\<rparr>"

definition put32 :: "nat \<Rightarrow> bytes" where
  "put32 v = [of_nat (v div 2 ^ 24), of_nat (v div 2 ^ 16), of_nat (v div 2 ^ 8), of_nat v]"

definition get32 :: "bytes \<Rightarrow> nat" where
  "get32 p = unat (p ! 0) * 2 ^ 24 + unat (p ! 1) * 2 ^ 16 + unat (p ! 2) * 2 ^ 8 + unat (p ! 3)"

definition put_fh :: "nat \<Rightarrow> u8 \<Rightarrow> u8 \<Rightarrow> nat \<Rightarrow> bytes" where
  "put_fh len type flags sid = [of_nat (len div 2 ^ 16), of_nat (len div 2 ^ 8), of_nat len, type, flags] @ put32 sid"

text \<open>A flag of the frame being parsed.\<close>

abbreviation f_has :: "h2_core_t \<Rightarrow> u8 \<Rightarrow> bool" where
  "f_has h flag \<equiv> h_f_flags h AND flag \<noteq> 0"

subsection \<open>Control frames\<close>

definition ctl_flush :: "h2_embedder \<Rightarrow> h2_core_t \<Rightarrow> h2_rc \<times> h2_core_t" where
  "ctl_flush E h =
     (if h_ctl h = [] then (H2C_OK, h)
      else let log = h_io h @ [EvSend (h_ctl h)]; h = h\<lparr>h_io := log, h_ctl := []\<rparr>
           in if e_send E log \<noteq> 0 then (H2C_ERR_IO, h\<lparr>h_dead := True\<rparr>) else (H2C_OK, h))"

definition ctl_frame :: "h2_embedder \<Rightarrow> h2_core_t \<Rightarrow> u8 \<Rightarrow> u8 \<Rightarrow> nat \<Rightarrow> bytes \<Rightarrow> h2_rc \<times> h2_core_t" where
  "ctl_frame E h type flags sid payload =
     (case (if length (h_ctl h) + H2_FRAME_HDR_LEN + length payload > H2_CTL_CAP then ctl_flush E h else (H2C_OK, h)) of
        (rc, h) \<Rightarrow>
          if rc \<noteq> H2C_OK then (rc, h)
          else (H2C_OK, h\<lparr>h_ctl := h_ctl h @ put_fh (length payload) type flags sid @ payload\<rparr>))"

definition ctl_u32 :: "h2_embedder \<Rightarrow> h2_core_t \<Rightarrow> u8 \<Rightarrow> nat \<Rightarrow> nat \<Rightarrow> h2_rc \<times> h2_core_t" where
  "ctl_u32 E h type sid v = ctl_frame E h type 0 sid (put32 v)"

definition conn_error :: "h2_embedder \<Rightarrow> h2_core_t \<Rightarrow> nat \<Rightarrow> h2_rc \<times> h2_core_t" where
  "conn_error E h code =
     (H2C_ERR_PROTO,
      if \<not> h_dead h
      then (let (rc, h) = ctl_frame E h H2_GOAWAY 0 0 (put32 0 @ put32 code);
                h = (if rc = H2C_OK then snd (ctl_flush E h) else h)
            in h\<lparr>h_dead := True\<rparr>)
      else h)"

definition close_stream :: "h2_stream_t \<Rightarrow> nat \<Rightarrow> h2_stream_t" where
  "close_stream s code = s\<lparr>s_open := False, s_closed := True, s_close_err := code\<rparr>"

definition stream_of :: "h2_core_t \<Rightarrow> nat \<Rightarrow> h2_which option" where
  "stream_of h sid =
     (if s_open (h_s h) \<and> sid = s_id (h_s h) then Some H2_MAIN
      else if s_open (h_side h) \<and> sid = s_id (h_side h) then Some H2_SIDE
      else None)"

definition stream_error :: "h2_embedder \<Rightarrow> h2_core_t \<Rightarrow> nat \<Rightarrow> h2_rc \<times> h2_core_t" where
  "stream_error E h code =
     (let (rc, h) =
            (case stream_of h (h_f_sid h) of
               None \<Rightarrow> (H2C_OK, h)
             | Some w \<Rightarrow>
                 (let (rc, h) = ctl_u32 E h H2_RST_STREAM (s_id (h2_get w h)) code
                  in (rc, h2_put w (close_stream (h2_get w h) code) h)))
      in (rc, h\<lparr>h_f_ignore := True, h_blk_error := True\<rparr>))"

definition idle_stream :: "h2_core_t \<Rightarrow> nat \<Rightarrow> bool" where
  "idle_stream h sid \<longleftrightarrow> sid \<noteq> 0 \<and> (sid mod 2 = 0 \<or> sid > h_last_id h)"

subsection \<open>Received DATA\<close>

text \<open>The stream a received DATA byte counts for.\<close>

abbreviation data_stream :: "h2_core_t \<Rightarrow> h2_which option" where
  "data_stream h \<equiv> (if h_f_ignore h then None else stream_of h (h_f_sid h))"

definition stream_consumed :: "h2_embedder \<Rightarrow> h2_core_t \<Rightarrow> nat \<Rightarrow> h2_rc \<times> h2_core_t" where
  "stream_consumed E h n =
     (case data_stream h of
        None \<Rightarrow> (H2C_OK, h)
      | Some w \<Rightarrow>
          (let s = (h2_get w h)\<lparr>s_consumed := s_consumed (h2_get w h) + int n\<rparr>; h = h2_put w s h
           in if s_consumed s \<ge> H2_WU_THRESHOLD \<and> \<not> f_has h H2_F_END_STREAM
              then (let (rc, h) = ctl_u32 E h H2_WINDOW_UPDATE (s_id s) (nat (s_consumed s))
                    in (rc, h2_put w (s\<lparr>s_recv_win := s_recv_win s + s_consumed s, s_consumed := 0\<rparr>) h))
              else (H2C_OK, h)))"

definition data_consumed :: "h2_embedder \<Rightarrow> h2_core_t \<Rightarrow> nat \<Rightarrow> h2_rc \<times> h2_core_t" where
  "data_consumed E h n =
     (let h = h\<lparr>h_conn_consumed := h_conn_consumed h + int n\<rparr>;
          (rc, h) = (if h_conn_consumed h \<ge> H2_WU_THRESHOLD
                     then (let (rc, h) = ctl_u32 E h H2_WINDOW_UPDATE 0 (nat (h_conn_consumed h))
                           in (rc, h\<lparr>h_conn_recv_win := h_conn_recv_win h + h_conn_consumed h, h_conn_consumed := 0\<rparr>))
                     else (H2C_OK, h))
      in if rc \<noteq> H2C_OK then (rc, h) else stream_consumed E h n)"

definition data_bytes :: "h2_embedder \<Rightarrow> h2_core_t \<Rightarrow> bytes \<Rightarrow> h2_rc \<times> h2_core_t" where
  "data_bytes E h p =
     (case data_stream h of
        None \<Rightarrow> (H2C_OK, h)
      | Some w \<Rightarrow>
          (let s = (h2_get w h)\<lparr>s_recv_len := s_recv_len (h2_get w h) + int (length p)\<rparr>; h = h2_put w s h
           in if \<not> s_final s \<or> (s_content_length s \<ge> 0 \<and> s_recv_len s > s_content_length s)
              then stream_error E h H2_PROTOCOL_ERROR
              else if w = H2_MAIN \<and> \<not> s_stop s \<and> length p > 0
              then (let log = h_io h @ [EvData p]; h = h\<lparr>h_io := log\<rparr>
                    in (H2C_OK, if e_on_data E log < 0 then h2_put w (s\<lparr>s_stop := True\<rparr>) h else h))
              else (H2C_OK, h)))"

definition remote_end :: "h2_embedder \<Rightarrow> h2_core_t \<Rightarrow> h2_which \<Rightarrow> h2_rc \<times> h2_core_t" where
  "remote_end E h w =
     (let s = h2_get w h
      in if \<not> s_final s \<or> (s_content_length s \<ge> 0 \<and> s_content_length s \<noteq> s_recv_len s)
         then stream_error E h H2_PROTOCOL_ERROR
         else let s = s\<lparr>s_remote_end := True\<rparr>
              in if s_local_end s then (H2C_OK, h2_put w (close_stream s H2_NO_ERROR) h)
                 else let (rc, h) = ctl_u32 E h H2_RST_STREAM (s_id s) H2_CANCEL
                      in (rc, h2_put w (close_stream s H2_NO_ERROR) h))"

subsection \<open>Response header fields\<close>

definition name_is :: "hpack_field_t \<Rightarrow> bytes \<Rightarrow> bool" where
  "name_is f n \<longleftrightarrow> f_name_total f = length n \<and> take (length n) (f_name f) = n"

definition to_lower :: "u8 \<Rightarrow> u8" where
  "to_lower c = (if c \<ge> 65 \<and> c \<le> 90 then c + 32 else c)"

definition value_ieq :: "hpack_field_t \<Rightarrow> bytes \<Rightarrow> bool" where
  "value_ieq f v \<longleftrightarrow> f_value_total f = length v \<and> list_all (\<lambda>i. to_lower (f_value f ! i) = v ! i) [0..<length v]"

fun parse_digits :: "int \<Rightarrow> bytes \<Rightarrow> int" where
  "parse_digits v [] = v"
| "parse_digits v (c # cs) =
     (if c < 48 \<or> c > 57 \<or> v > (2 ^ 63 - 1 - 9) div 10 then -1 else parse_digits (v * 10 + (uint c - 48)) cs)"

definition parse_uint :: "hpack_field_t \<Rightarrow> int" where
  "parse_uint f = (if f_value_total f = 0 \<or> f_flags f AND HPACK_F_VALUE_CUT \<noteq> 0 then -1 else parse_digits 0 (f_value f))"

definition field_status :: "h2_embedder \<Rightarrow> h2_core_t \<Rightarrow> h2_which \<Rightarrow> hpack_field_t \<Rightarrow> h2_core_t" where
  "field_status E h w f =
     (let s = h2_get w h; st = parse_uint f
      in if h_blk_trailer h \<or> s_pseudo_done s \<or> \<not> name_is f (str_bytes '':status'') \<or> s_have_status s \<or> f_value_total f \<noteq> 3 \<or> st < 0 \<or> st = 101
         then snd (stream_error E h H2_PROTOCOL_ERROR)
         else let h = h2_put w (s\<lparr>s_have_status := True, s_status := st\<rparr>) h
              in h\<lparr>h_io := h_io h @ [if w = H2_MAIN then EvStatus st else EvSideStatus st]\<rparr>)"

definition field_report :: "h2_core_t \<Rightarrow> h2_which \<Rightarrow> hpack_field_t \<Rightarrow> h2_core_t" where
  "field_report h w f =
     (if \<not> h_blk_trailer h then h\<lparr>h_io := h_io h @ [if w = H2_MAIN then EvHeader f else EvSideHeader f]\<rparr> else h)"

definition field_regular :: "h2_embedder \<Rightarrow> h2_core_t \<Rightarrow> h2_which \<Rightarrow> hpack_field_t \<Rightarrow> h2_core_t" where
  "field_regular E h w f =
     (let s = (h2_get w h)\<lparr>s_pseudo_done := True\<rparr>; h = h2_put w s h
      in if name_is f (str_bytes ''content-length'')
         then (if s_status s = 204
               then (if s_content_length s \<noteq> -1 \<or> \<not> value_ieq f (str_bytes ''0'') then snd (stream_error E h H2_PROTOCOL_ERROR)
                     else h2_put w (s\<lparr>s_content_length := 0\<rparr>) h)
               else if s_status s div 100 = 1 \<or> s_content_length s \<noteq> -1 then snd (stream_error E h H2_PROTOCOL_ERROR)
               else let s = s\<lparr>s_content_length := parse_uint f\<rparr>; h = h2_put w s h
                    in if s_content_length s < 0 then snd (stream_error E h H2_PROTOCOL_ERROR) else field_report h w f)
         else if name_is f (str_bytes ''connection'') \<or> name_is f (str_bytes ''keep-alive'') \<or> name_is f (str_bytes ''proxy-connection'')
                 \<or> name_is f (str_bytes ''transfer-encoding'') \<or> name_is f (str_bytes ''upgrade'')
         then snd (stream_error E h H2_PROTOCOL_ERROR)
         else if name_is f (str_bytes ''te'') \<and> \<not> value_ieq f (str_bytes ''trailers'') then snd (stream_error E h H2_PROTOCOL_ERROR)
         else field_report h w f)"

definition field_cb :: "h2_embedder \<Rightarrow> hpack_field_t \<Rightarrow> h2_core_t \<Rightarrow> bool \<times> h2_core_t" where
  "field_cb E f h =
     (False,
      if h_blk_ignore h \<or> h_blk_error h then h
      else case stream_of h (h_f_sid h) of
        None \<Rightarrow> h
      | Some w \<Rightarrow>
          (let pseudo = (length (f_name f) > 0 \<and> f_name f ! 0 = 58);
               skip = h2_put w ((h2_get w h)\<lparr>s_pseudo_done := True\<rparr>) h
           in if f_flags f AND (HPACK_F_NAME_BAD OR HPACK_F_NAME_UPPER) \<noteq> 0
              then (if pseudo \<or> f_flags f AND HPACK_F_NAME_UPPER \<noteq> 0 then snd (stream_error E h H2_PROTOCOL_ERROR) else skip)
              else if f_flags f AND HPACK_F_VALUE_BAD \<noteq> 0
              then (if pseudo then snd (stream_error E h H2_PROTOCOL_ERROR) else skip)
              else if pseudo then field_status E h w f
              else field_regular E h w f))"

definition block_end :: "h2_embedder \<Rightarrow> h2_core_t \<Rightarrow> h2_rc \<times> h2_core_t" where
  "block_end E h =
     (if hpack_dec_end (h_hpack h) \<noteq> HPACK_OK then conn_error E h H2_COMPRESSION_ERROR
      else let h = h\<lparr>h_cont_sid := 0\<rparr>
           in case (if h_blk_ignore h \<or> h_blk_error h then None else stream_of h (h_f_sid h)) of
                None \<Rightarrow> (H2C_OK, h)
              | Some w \<Rightarrow>
                  (let s = h2_get w h
                   in if \<not> h_blk_trailer h
                      then (if \<not> s_have_status s then stream_error E h H2_PROTOCOL_ERROR
                            else if s_status s div 100 = 1
                            then (let h = h2_put w (s\<lparr>s_have_status := False, s_pseudo_done := False, s_content_length := -1\<rparr>) h
                                  in if h_blk_end_stream h then stream_error E h H2_PROTOCOL_ERROR else (H2C_OK, h))
                            else let s = s\<lparr>s_final := True\<rparr>;
                                     s = (if s_status s = 204 \<or> s_status s = 304 then s\<lparr>s_content_length := 0\<rparr> else s);
                                     h = h2_put w s h
                                 in if h_blk_end_stream h then remote_end E h w else (H2C_OK, h))
                      else if \<not> h_blk_end_stream h then stream_error E h H2_PROTOCOL_ERROR
                      else remote_end E h w))"

definition block_bytes :: "h2_embedder \<Rightarrow> h2_core_t \<Rightarrow> bytes \<Rightarrow> h2_rc \<times> h2_core_t" where
  "block_bytes E h p =
     (let (rc, d, h) = hpack_dec_feed (h_hpack h) p (field_cb E) h; h = h\<lparr>h_hpack := d\<rparr>
      in if rc \<noteq> HPACK_OK then conn_error E h H2_COMPRESSION_ERROR
         else (if h_dead h then H2C_ERR_IO else H2C_OK, h))"

subsection \<open>Settings and fixed-size frames\<close>

definition setting_window :: "h2_embedder \<Rightarrow> h2_core_t \<Rightarrow> nat \<Rightarrow> h2_rc \<times> h2_core_t" where
  "setting_window E h v =
     (if int v > H2_MAX_WINDOW then conn_error E h H2_FLOW_CONTROL_ERROR
      else let delta = int v - int (h_peer_initial_win h); a = s_send_win (h_s h) + delta; b = s_send_win (h_side h) + delta
           in if s_open (h_s h) \<and> a > H2_MAX_WINDOW then conn_error E h H2_FLOW_CONTROL_ERROR
              else let h = (if s_open (h_s h) then h\<lparr>h_s := (h_s h)\<lparr>s_send_win := a\<rparr>\<rparr> else h)
                   in if s_open (h_side h) \<and> b > H2_MAX_WINDOW then conn_error E h H2_FLOW_CONTROL_ERROR
                      else let h = (if s_open (h_side h) then h\<lparr>h_side := (h_side h)\<lparr>s_send_win := b\<rparr>\<rparr> else h)
                           in (H2C_OK, h\<lparr>h_peer_initial_win := v\<rparr>))"

definition setting :: "h2_embedder \<Rightarrow> h2_core_t \<Rightarrow> nat \<Rightarrow> nat \<Rightarrow> h2_rc \<times> h2_core_t" where
  "setting E h ident v =
     (if ident = H2_SET_ENABLE_PUSH then (if v \<noteq> 0 then conn_error E h H2_PROTOCOL_ERROR else (H2C_OK, h))
      else if ident = H2_SET_INITIAL_WINDOW_SIZE then setting_window E h v
      else if ident = H2_SET_MAX_FRAME_SIZE
      then (if v < 16384 \<or> v > 0xffffff then conn_error E h H2_PROTOCOL_ERROR else (H2C_OK, h\<lparr>h_peer_max_frame := v\<rparr>))
      else if ident = H2_SET_ENABLE_CONNECT_PROTOCOL
      then (if v > 1 \<or> (h_peer_enable_connect h \<noteq> 0 \<and> v = 0) then conn_error E h H2_PROTOCOL_ERROR
            else (H2C_OK, h\<lparr>h_peer_enable_connect := v\<rparr>))
      else if ident = H2_SET_NO_RFC7540_PRIORITIES then (if v > 1 then conn_error E h H2_PROTOCOL_ERROR else (H2C_OK, h))
      else if ident = H2_SET_MAX_CONCURRENT_STREAMS then (H2C_OK, h\<lparr>h_peer_max_streams := v\<rparr>)
      else (H2C_OK, h))"

definition fixed_len :: "u8 \<Rightarrow> nat" where
  "fixed_len type = (if type = H2_SETTINGS then 6 else if type = H2_PING \<or> type = H2_GOAWAY then 8 else 4)"

definition goaway_done :: "h2_embedder \<Rightarrow> h2_core_t \<Rightarrow> h2_rc \<times> h2_core_t" where
  "goaway_done E h =
     (let p = h_f_fix h; lst = get32 p mod 2 ^ 31; err = get32 (drop 4 p)
      in if (lst \<noteq> 0 \<and> lst mod 2 = 0) \<or> lst > h_goaway_last h then conn_error E h H2_PROTOCOL_ERROR
         else let h = h\<lparr>h_goaway := True, h_goaway_last := lst, h_io := h_io h @ [EvGoaway lst err]\<rparr>;
                  h = (if s_open (h_s h) \<and> s_id (h_s h) > lst then h\<lparr>h_s := close_stream (h_s h) H2_REFUSED_STREAM\<rparr> else h);
                  h = (if s_open (h_side h) \<and> s_id (h_side h) > lst then h\<lparr>h_side := close_stream (h_side h) H2_REFUSED_STREAM\<rparr> else h)
              in (H2C_OK, h))"

definition window_update_done :: "h2_embedder \<Rightarrow> h2_core_t \<Rightarrow> h2_rc \<times> h2_core_t" where
  "window_update_done E h =
     (let inc = get32 (h_f_fix h) mod 2 ^ 31
      in if h_f_sid h = 0
         then (if inc = 0 then conn_error E h H2_PROTOCOL_ERROR
               else if h_conn_send_win h + int inc > H2_MAX_WINDOW then conn_error E h H2_FLOW_CONTROL_ERROR
               else (H2C_OK, h\<lparr>h_conn_send_win := h_conn_send_win h + int inc\<rparr>))
         else (case stream_of h (h_f_sid h) of
                 None \<Rightarrow> (H2C_OK, h)
               | Some w \<Rightarrow>
                   (let s = h2_get w h
                    in if inc = 0 then stream_error E h H2_PROTOCOL_ERROR
                       else if s_send_win s + int inc > H2_MAX_WINDOW then stream_error E h H2_FLOW_CONTROL_ERROR
                       else (H2C_OK, h2_put w (s\<lparr>s_send_win := s_send_win s + int inc\<rparr>) h))))"

definition fixed_done :: "h2_embedder \<Rightarrow> h2_core_t \<Rightarrow> h2_rc \<times> h2_core_t" where
  "fixed_done E h =
     (let p = h_f_fix h; t = h_f_type h
      in if t = H2_SETTINGS then setting E h (unat (p ! 0) * 256 + unat (p ! 1)) (get32 (drop 2 p))
         else if t = H2_PING then (if f_has h H2_F_ACK then (H2C_OK, h) else ctl_frame E h H2_PING H2_F_ACK 0 (take 8 p))
         else if t = H2_GOAWAY then goaway_done E h
         else if t = H2_RST_STREAM
         then (case stream_of h (h_f_sid h) of
                 None \<Rightarrow> (H2C_OK, h)
               | Some w \<Rightarrow> (H2C_OK, h2_put w (close_stream (h2_get w h) (get32 p)) h))
         else if t = H2_WINDOW_UPDATE then window_update_done E h
         else (H2C_OK, h))"

subsection \<open>Frame boundaries\<close>

definition charge_stream :: "h2_embedder \<Rightarrow> h2_core_t \<Rightarrow> h2_which option \<Rightarrow> h2_rc \<times> h2_core_t" where
  "charge_stream E h st =
     (case st of
        None \<Rightarrow> (H2C_OK, h)
      | Some w \<Rightarrow>
          (let s = h2_get w h; s = s\<lparr>s_recv_win := s_recv_win s - int (h_f_len h)\<rparr>; h = h2_put w s h
           in if s_recv_win s < 0 then stream_error E h H2_FLOW_CONTROL_ERROR else (H2C_OK, h)))"

definition begin_data :: "h2_embedder \<Rightarrow> h2_core_t \<Rightarrow> h2_rc \<times> h2_core_t" where
  "begin_data E h =
     (if h_f_sid h = 0 \<or> idle_stream h (h_f_sid h) then conn_error E h H2_PROTOCOL_ERROR
      else if f_has h H2_F_PADDED \<and> h_f_len h < 1 then conn_error E h H2_FRAME_SIZE_ERROR
      else let st = stream_of h (h_f_sid h); h = h\<lparr>h_conn_recv_win := h_conn_recv_win h - int (h_f_len h)\<rparr>
           in if h_conn_recv_win h < 0 then conn_error E h H2_FLOW_CONTROL_ERROR
              else let h = h\<lparr>h_f_ignore := (st = None)\<rparr>; (rc, h) = charge_stream E h st
                   in if rc \<noteq> H2C_OK then (rc, h)
                      else (H2C_OK, h\<lparr>h_f_body_left := h_f_len h, h_f_phase := (if f_has h H2_F_PADDED then PH_PADLEN else PH_BODY)\<rparr>))"

definition begin_headers :: "h2_embedder \<Rightarrow> h2_core_t \<Rightarrow> h2_rc \<times> h2_core_t" where
  "begin_headers E h =
     (if h_f_sid h = 0 \<or> idle_stream h (h_f_sid h) then conn_error E h H2_PROTOCOL_ERROR
      else if h_f_len h < (if f_has h H2_F_PADDED then 1 else 0) + (if f_has h H2_F_PRIORITY then 5 else 0)
      then conn_error E h H2_FRAME_SIZE_ERROR
      else let st = stream_of h (h_f_sid h)
           in (H2C_OK, h\<lparr>h_hpack := hpack_dec_begin (h_hpack h),
                 h_blk_ignore := (st = None), h_blk_error := False,
                 h_blk_trailer := (case st of None \<Rightarrow> False | Some w \<Rightarrow> s_final (h2_get w h)),
                 h_blk_end_stream := f_has h H2_F_END_STREAM,
                 h_cont_sid := (if f_has h H2_F_END_HEADERS then 0 else h_f_sid h),
                 h_cont_count := 0,
                 h_f_body_left := h_f_len h - (if f_has h H2_F_PRIORITY then 5 else 0),
                 h_f_phase := (if f_has h H2_F_PADDED then PH_PADLEN else if f_has h H2_F_PRIORITY then PH_PRIO else PH_BODY)\<rparr>))"

definition begin_cont :: "h2_embedder \<Rightarrow> h2_core_t \<Rightarrow> h2_rc \<times> h2_core_t" where
  "begin_cont E h =
     (if h_cont_sid h = 0 then conn_error E h H2_PROTOCOL_ERROR
      else let h = h\<lparr>h_cont_count := h_cont_count h + 1\<rparr>
           in if h_cont_count h > H2_MAX_CONTINUATIONS then conn_error E h H2_ENHANCE_YOUR_CALM
              else (H2C_OK, h\<lparr>h_cont_sid := (if f_has h H2_F_END_HEADERS then 0 else h_cont_sid h),
                              h_f_body_left := h_f_len h, h_f_phase := PH_BODY\<rparr>))"

definition parse_fh :: "h2_core_t \<Rightarrow> h2_core_t" where
  "parse_fh h =
     (let b = h_fh h; len = unat (b ! 0) * 2 ^ 16 + unat (b ! 1) * 2 ^ 8 + unat (b ! 2)
      in h\<lparr>h_f_len := len, h_f_type := b ! 3, h_f_flags := b ! 4, h_f_sid := get32 (drop 5 b) mod 2 ^ 31,
           h_f_left := len, h_f_fix_have := 0, h_f_pad := 0, h_f_ignore := False, h_f_phase := PH_SKIP\<rparr>)"

definition frame_begin :: "h2_embedder \<Rightarrow> h2_core_t \<Rightarrow> h2_rc \<times> h2_core_t" where
  "frame_begin E h0 =
     (let h = parse_fh h0; t = h_f_type h; fixed = (H2C_OK, h\<lparr>h_f_phase := PH_FIXED\<rparr>)
      in if h_f_len h > H2_MAX_FRAME then conn_error E h H2_FRAME_SIZE_ERROR
         else if h_cont_sid h \<noteq> 0 \<and> (t \<noteq> H2_CONTINUATION \<or> h_f_sid h \<noteq> h_cont_sid h) then conn_error E h H2_PROTOCOL_ERROR
         else if t = H2_DATA then begin_data E h
         else if t = H2_HEADERS then begin_headers E h
         else if t = H2_CONTINUATION then begin_cont E h
         else if t = H2_PRIORITY
         then (if h_f_sid h = 0 then conn_error E h H2_PROTOCOL_ERROR
               else if h_f_len h \<noteq> 5 then conn_error E h H2_FRAME_SIZE_ERROR else (H2C_OK, h))
         else if t = H2_RST_STREAM
         then (if h_f_sid h = 0 \<or> idle_stream h (h_f_sid h) then conn_error E h H2_PROTOCOL_ERROR
               else if h_f_len h \<noteq> 4 then conn_error E h H2_FRAME_SIZE_ERROR else fixed)
         else if t = H2_SETTINGS
         then (if h_f_sid h \<noteq> 0 then conn_error E h H2_PROTOCOL_ERROR
               else if (if f_has h H2_F_ACK then h_f_len h \<noteq> 0 else h_f_len h mod 6 \<noteq> 0) then conn_error E h H2_FRAME_SIZE_ERROR else fixed)
         else if t = H2_PUSH_PROMISE then conn_error E h H2_PROTOCOL_ERROR
         else if t = H2_PING
         then (if h_f_sid h \<noteq> 0 then conn_error E h H2_PROTOCOL_ERROR
               else if h_f_len h \<noteq> 8 then conn_error E h H2_FRAME_SIZE_ERROR else fixed)
         else if t = H2_GOAWAY
         then (if h_f_sid h \<noteq> 0 then conn_error E h H2_PROTOCOL_ERROR
               else if h_f_len h < 8 then conn_error E h H2_FRAME_SIZE_ERROR else fixed)
         else if t = H2_WINDOW_UPDATE
         then (if h_f_len h \<noteq> 4 then conn_error E h H2_FRAME_SIZE_ERROR
               else if idle_stream h (h_f_sid h) then conn_error E h H2_PROTOCOL_ERROR else fixed)
         else (H2C_OK, h))"

definition frame_end :: "h2_embedder \<Rightarrow> h2_core_t \<Rightarrow> h2_rc \<times> h2_core_t" where
  "frame_end E h =
     (let t = h_f_type h
      in if t = H2_DATA
         then (case data_stream h of
                 None \<Rightarrow> (H2C_OK, h)
               | Some w \<Rightarrow> if f_has h H2_F_END_STREAM then remote_end E h w else (H2C_OK, h))
         else if t = H2_HEADERS \<or> t = H2_CONTINUATION
         then (if f_has h H2_F_END_HEADERS then block_end E h else (H2C_OK, h))
         else if t = H2_SETTINGS
         then (if f_has h H2_F_ACK
               then (if h_settings_unacked h = 0 then conn_error E h H2_PROTOCOL_ERROR
                     else (H2C_OK, h\<lparr>h_settings_unacked := h_settings_unacked h - 1\<rparr>))
               else ctl_frame E h H2_SETTINGS H2_F_ACK 0 [])
         else if t = H2_PING \<or> t = H2_GOAWAY \<or> t = H2_RST_STREAM \<or> t = H2_WINDOW_UPDATE then fixed_done E h
         else (H2C_OK, h))"

text \<open>One turn of the loop of \<open>frame_payload\<close> on the \<open>n\<close> bytes left at \<open>p\<close>: how many bytes the phase takes,
  and what it does with them.  Where the code subtracts the unsigned \<open>f_fix_have\<close>, a count past the
  limit would wrap to a bound above \<open>n\<close>.\<close>

definition room_left :: "nat \<Rightarrow> nat \<Rightarrow> nat \<Rightarrow> nat" where
  "room_left n limit have = (if have \<le> limit then min n (limit - have) else n)"

definition phase_padlen :: "h2_embedder \<Rightarrow> h2_core_t \<Rightarrow> u8 \<Rightarrow> h2_rc \<times> h2_core_t" where
  "phase_padlen E h b =
     (let h = h\<lparr>h_f_pad := unat b\<rparr>; prio = (if f_has h H2_F_PRIORITY \<and> h_f_type h \<noteq> H2_DATA then 5 else 0)
      in if h_f_pad h + prio > h_f_left h - 1 then conn_error E h H2_PROTOCOL_ERROR
         else (H2C_OK, h\<lparr>h_f_body_left := h_f_left h - 1 - prio - h_f_pad h, h_f_phase := (if prio \<noteq> 0 then PH_PRIO else PH_BODY)\<rparr>))"

definition phase_prio :: "h2_core_t \<Rightarrow> nat \<Rightarrow> nat \<times> h2_core_t" where
  "phase_prio h n =
     (let k = room_left n 5 (h_f_fix_have h); h = h\<lparr>h_f_fix_have := h_f_fix_have h + k\<rparr>
      in (k, if h_f_fix_have h = 5 then h\<lparr>h_f_fix_have := 0, h_f_phase := PH_BODY\<rparr> else h))"

definition phase_body :: "h2_embedder \<Rightarrow> h2_core_t \<Rightarrow> bytes \<Rightarrow> nat \<times> h2_rc \<times> h2_core_t" where
  "phase_body E h p =
     (let k = min (length p) (h_f_body_left h);
          (rc, h) = (if k > 0
                     then (let (rc, h) = (if h_f_type h = H2_DATA then data_bytes E h (take k p) else block_bytes E h (take k p))
                           in (rc, h\<lparr>h_f_body_left := h_f_body_left h - k\<rparr>))
                     else (H2C_OK, h))
      in (k, rc, if h_f_body_left h = 0 then h\<lparr>h_f_phase := PH_PAD\<rparr> else h))"

definition phase_fixed :: "h2_embedder \<Rightarrow> h2_core_t \<Rightarrow> bytes \<Rightarrow> nat \<times> h2_rc \<times> h2_core_t" where
  "phase_fixed E h p =
     (let fl = fixed_len (h_f_type h); k = room_left (length p) fl (h_f_fix_have h);
          h = h\<lparr>h_f_fix := take (h_f_fix_have h) (h_f_fix h) @ take k p @ drop (h_f_fix_have h + k) (h_f_fix h),
                h_f_fix_have := h_f_fix_have h + k\<rparr>
      in if h_f_fix_have h = fl
         then (if h_f_type h = H2_SETTINGS
               then (let (rc, h) = fixed_done E h in (k, rc, h\<lparr>h_f_fix_have := 0\<rparr>))
               else (k, H2C_OK, h\<lparr>h_f_phase := PH_SKIP\<rparr>))
         else (k, H2C_OK, h))"

definition payload_turn :: "h2_embedder \<Rightarrow> h2_core_t \<Rightarrow> bytes \<Rightarrow> nat \<times> h2_rc \<times> h2_core_t" where
  "payload_turn E h p =
     (case h_f_phase h of
        PH_PADLEN \<Rightarrow> (1, phase_padlen E h (hd p))
      | PH_PRIO \<Rightarrow> (let (k, h) = phase_prio h (length p) in (k, H2C_OK, h))
      | PH_BODY \<Rightarrow> phase_body E h p
      | PH_FIXED \<Rightarrow> phase_fixed E h p
      | _ \<Rightarrow> (length p, H2C_OK, h))"

definition payload_count :: "h2_embedder \<Rightarrow> bool \<Rightarrow> nat \<times> h2_rc \<times> h2_core_t \<Rightarrow> nat \<times> h2_rc \<times> h2_core_t" where
  "payload_count E is_data r =
     (case r of (k, rc, h) \<Rightarrow>
        (let (rc, h) = (if rc = H2C_OK \<and> is_data then data_consumed E h k else (rc, h))
         in (k, rc, if rc = H2C_OK then h\<lparr>h_f_left := h_f_left h - k\<rparr> else h)))"

text \<open>The registers of the frame parser, which no handler touches.\<close>

definition parser_regs :: "h2_core_t \<Rightarrow> (bytes \<times> nat \<times> u8 \<times> u8 \<times> h2_phase \<times> nat) \<times> nat \<times> nat \<times> nat \<times> nat \<times> nat \<times> bytes" where
  "parser_regs h = ((h_fh h, h_fh_have h, h_f_type h, h_f_flags h, h_f_phase h, h_f_pad h),
     h_f_fix_have h, h_f_len h, h_f_sid h, h_f_left h, h_f_body_left h, h_f_fix h)"

lemma regs_put [simp]: "parser_regs (h2_put w s h) = parser_regs h"
  by (cases w) (simp_all add: parser_regs_def)

lemma regs_upd [simp]:
  "parser_regs (h\<lparr>h_io := l\<rparr>) = parser_regs h" "parser_regs (h\<lparr>h_ctl := c\<rparr>) = parser_regs h" "parser_regs (h\<lparr>h_dead := b\<rparr>) = parser_regs h"
  "parser_regs (h\<lparr>h_f_ignore := b\<rparr>) = parser_regs h" "parser_regs (h\<lparr>h_blk_error := b\<rparr>) = parser_regs h"
  "parser_regs (h\<lparr>h_conn_consumed := i\<rparr>) = parser_regs h" "parser_regs (h\<lparr>h_conn_recv_win := i\<rparr>) = parser_regs h"
  "parser_regs (h\<lparr>h_conn_send_win := i\<rparr>) = parser_regs h" "parser_regs (h\<lparr>h_cont_sid := n\<rparr>) = parser_regs h"
  "parser_regs (h\<lparr>h_hpack := d\<rparr>) = parser_regs h" "parser_regs (h\<lparr>h_s := s\<rparr>) = parser_regs h" "parser_regs (h\<lparr>h_side := s\<rparr>) = parser_regs h"
  "parser_regs (h\<lparr>h_peer_initial_win := n\<rparr>) = parser_regs h" "parser_regs (h\<lparr>h_peer_max_frame := n\<rparr>) = parser_regs h"
  "parser_regs (h\<lparr>h_peer_enable_connect := n\<rparr>) = parser_regs h" "parser_regs (h\<lparr>h_peer_max_streams := n\<rparr>) = parser_regs h"
  "parser_regs (h\<lparr>h_goaway := b\<rparr>) = parser_regs h" "parser_regs (h\<lparr>h_goaway_last := n\<rparr>) = parser_regs h"
  by (simp_all add: parser_regs_def)

lemma regs_ctl [simp]:
  "parser_regs (snd (ctl_flush E h)) = parser_regs h" "parser_regs (snd (ctl_frame E h t f i p)) = parser_regs h"
  "parser_regs (snd (ctl_u32 E h t i v)) = parser_regs h" "parser_regs (snd (conn_error E h c)) = parser_regs h"
proof -
  show flush: "parser_regs (snd (ctl_flush E h)) = parser_regs h" for h by (simp add: ctl_flush_def Let_def)
  then show frame: "parser_regs (snd (ctl_frame E h t f i p)) = parser_regs h" for h t f i p by (auto simp: ctl_frame_def split: prod.splits) (metis snd_conv)+
  then show "parser_regs (snd (ctl_u32 E h t i v)) = parser_regs h" by (simp add: ctl_u32_def)
  show "parser_regs (snd (conn_error E h c)) = parser_regs h"
    using frame [of h H2_GOAWAY 0 0] flush by (auto simp: conn_error_def Let_def split: prod.splits) (metis snd_conv)+
qed

lemma regs_stream_error [simp]: "parser_regs (snd (stream_error E h c)) = parser_regs h"
  by (simp add: stream_error_def case_prod_beta Let_def split: option.splits)

lemma regs_data_consumed [simp]: "parser_regs (snd (data_consumed E h n)) = parser_regs h"
  by (simp add: data_consumed_def stream_consumed_def case_prod_beta Let_def split: option.splits)

lemma regs_setting [simp]: "parser_regs (snd (setting E h i v)) = parser_regs h"
  by (simp add: setting_def setting_window_def Let_def)

lemma regs_fixed_done [simp]: "parser_regs (snd (fixed_done E h)) = parser_regs h"
proof -
  have "parser_regs (snd (goaway_done E h)) = parser_regs h" "parser_regs (snd (window_update_done E h)) = parser_regs h"
    by (simp_all add: goaway_done_def window_update_done_def Let_def split: option.splits)
  then show ?thesis by (simp add: fixed_done_def Let_def split: option.splits)
qed

definition phase_rank :: "h2_core_t \<Rightarrow> nat" where
  "phase_rank h = (case h_f_phase h of PH_PRIO \<Rightarrow> 3 | PH_BODY \<Rightarrow> 2 | PH_FIXED \<Rightarrow> if h_f_fix_have h = fixed_len (h_f_type h) then 1 else 0 | _ \<Rightarrow> 0)"

lemma phase_rank_regs: "parser_regs h' = parser_regs h \<Longrightarrow> phase_rank h' = phase_rank h"
  by (simp add: parser_regs_def phase_rank_def)

lemma room_left_0: "room_left n limit have = 0 \<longleftrightarrow> n = 0 \<or> have = limit"
  by (auto simp: room_left_def)

lemma turn_progress:
  assumes "p \<noteq> []" "payload_turn E h p = (0, rc, h')"
  shows "phase_rank h' < phase_rank h"
proof (cases "h_f_phase h")
  case PH_PRIO
  then show ?thesis using assms by (auto simp: payload_turn_def phase_prio_def room_left_0 Let_def phase_rank_def split: if_splits)
next
  case PH_BODY
  then have "h_f_body_left h = 0"
    using assms by (cases "h_f_body_left h = 0") (auto simp: payload_turn_def phase_body_def Let_def min_def split: if_splits prod.splits)
  then show ?thesis using assms PH_BODY by (simp add: payload_turn_def phase_body_def Let_def phase_rank_def) (auto simp: PH_BODY)
next
  case PH_FIXED
  have k: "h_f_fix_have h = fixed_len (h_f_type h)"
    using assms PH_FIXED by (auto simp: payload_turn_def phase_fixed_def room_left_0 Let_def split: if_splits prod.splits)
  have r: "h_f_phase (snd (fixed_done E g)) = h_f_phase g" "h_f_type (snd (fixed_done E g)) = h_f_type g" for g
    using regs_fixed_done [of E g] by (simp_all add: parser_regs_def)
  show ?thesis
  proof (cases "h_f_type h = H2_SETTINGS")
    case True
    then show ?thesis using assms PH_FIXED k r
      by (auto simp: payload_turn_def phase_fixed_def room_left_def Let_def phase_rank_def fixed_len_def case_prod_beta split: if_splits)
  next
    case False
    then show ?thesis using assms PH_FIXED k
      by (auto simp: payload_turn_def phase_fixed_def room_left_def Let_def phase_rank_def split: if_splits)
  qed
qed (use assms in \<open>simp_all add: payload_turn_def\<close>)

function frame_payload :: "h2_embedder \<Rightarrow> h2_core_t \<Rightarrow> bytes \<Rightarrow> h2_rc \<times> h2_core_t" where
  "frame_payload E h p =
     (if p = [] then (H2C_OK, h)
      else case payload_count E (h_f_type h = H2_DATA) (payload_turn E h p) of
        (k, rc, h) \<Rightarrow> if rc \<noteq> H2C_OK then (rc, h) else frame_payload E h (drop k p))"
  by pat_completeness auto
termination
proof (relation "measures [\<lambda>(E, h, p). length p, \<lambda>(E, h, p). phase_rank h]", simp, goal_cases)
  case (1 E h p k r rc h')
  obtain rc1 h1 where t: "payload_turn E h p = (k, rc1, h1)" using 1 by (cases "payload_turn E h p") (auto simp: payload_count_def split: prod.splits)
  have "parser_regs h' = parser_regs (h1\<lparr>h_f_left := h_f_left h1 - k\<rparr>)"
    using 1 regs_data_consumed [of E h1 k] by (auto simp: payload_count_def t parser_regs_def split: prod.splits if_splits)
  then have "phase_rank h' = phase_rank h1" by (simp add: parser_regs_def phase_rank_def)
  then show ?case using 1(1) turn_progress [of p E h rc1 h1] t by (cases "k = 0") simp_all
qed

declare frame_payload.simps [simp del]

definition feed_turn :: "h2_embedder \<Rightarrow> h2_core_t \<Rightarrow> bytes \<Rightarrow> h2_rc \<times> h2_core_t \<times> bytes" where
  "feed_turn E h p =
     (if h_fh_have h < H2_FRAME_HDR_LEN
      then (let n = min (length p) (H2_FRAME_HDR_LEN - h_fh_have h);
                h = h\<lparr>h_fh := take (h_fh_have h) (h_fh h) @ take n p @ drop (h_fh_have h + n) (h_fh h), h_fh_have := h_fh_have h + n\<rparr>
            in if h_fh_have h < H2_FRAME_HDR_LEN then (H2C_OK, h, drop n p)
               else let (rc, h) = frame_begin E h in (rc, h, drop n p))
      else (let n = min (length p) (h_f_left h); (rc, h) = frame_payload E h (take n p) in (rc, h, drop n p)))"

definition feed_close :: "h2_embedder \<Rightarrow> h2_rc \<Rightarrow> h2_core_t \<Rightarrow> h2_rc \<times> h2_core_t" where
  "feed_close E rc h =
     (if rc = H2C_OK \<and> h_fh_have h = H2_FRAME_HDR_LEN \<and> h_f_left h = 0
      then (let (rc, h) = frame_end E h in (rc, h\<lparr>h_fh_have := 0\<rparr>))
      else (rc, h))"

partial_function (option) feed_loop :: "h2_embedder \<Rightarrow> h2_core_t \<Rightarrow> bytes \<Rightarrow> (h2_rc \<times> h2_core_t) option" where
  "feed_loop E h p =
     (if p = [] then Some (H2C_OK, h)
      else case feed_turn E h p of (rc, h, p) \<Rightarrow>
        (case feed_close E rc h of (rc, h) \<Rightarrow> if rc = H2C_OK then feed_loop E h p else Some (rc, h)))"

declare feed_loop.simps [code]

definition feed :: "h2_embedder \<Rightarrow> h2_core_t \<Rightarrow> bytes \<Rightarrow> (h2_rc \<times> h2_core_t) option" where
  "feed E h p =
     (if h_dead h then Some (H2C_ERR_STATE, h)
      else map_option (\<lambda>(rc, h). (if h_dead h \<and> rc = H2C_OK then H2C_ERR_IO else rc, h)) (feed_loop E h p))"

definition h2c_feed :: "h2_embedder \<Rightarrow> h2_core_t \<Rightarrow> bytes \<Rightarrow> (h2_rc \<times> h2_core_t) option" where
  "h2c_feed E h p = map_option (\<lambda>(rc, h). if rc = H2C_OK then ctl_flush E h else (rc, h)) (feed E h p)"

definition h2c_feed_staged :: "h2_embedder \<Rightarrow> h2_core_t \<Rightarrow> bytes \<Rightarrow> (h2_rc \<times> h2_core_t) option" where
  "h2c_feed_staged E h p = feed E h p"

subsection \<open>Sending\<close>

text \<open>A burst in the making is the list \<open>b\<close> of its bytes; the code's \<open>off\<close> is its length.\<close>

definition data_len :: "h2_core_t \<Rightarrow> h2_stream_t \<Rightarrow> nat \<Rightarrow> nat \<Rightarrow> nat" where
  "data_len h s cap off =
     (let rem = length (s_body s) - s_body_off s; win = min (h_conn_send_win h) (s_send_win s);
          n = (if rem > 0 then min rem (nat win) else rem);
          n = min n (h_peer_max_frame h)
      in min n (cap - off - H2_FRAME_HDR_LEN))"

definition data_blocked :: "h2_core_t \<Rightarrow> h2_stream_t \<Rightarrow> bool" where
  "data_blocked h s \<longleftrightarrow> length (s_body s) - s_body_off s > 0 \<and> min (h_conn_send_win h) (s_send_win s) \<le> 0"

definition data_frame :: "h2_stream_t \<Rightarrow> nat \<Rightarrow> bytes" where
  "data_frame s n =
     put_fh n H2_DATA (if n = length (s_body s) - s_body_off s then H2_F_END_STREAM else 0) (s_id s) @ bytes_at (s_body_off s) n (s_body s)"

definition data_sent :: "h2_stream_t \<Rightarrow> nat \<Rightarrow> h2_stream_t" where
  "data_sent s n = s\<lparr>s_body_off := s_body_off s + n, s_send_win := s_send_win s - int n,
     s_local_end := (n = length (s_body s) - s_body_off s \<or> s_local_end s)\<rparr>"

function put_data :: "h2_core_t \<Rightarrow> h2_stream_t \<Rightarrow> bytes \<Rightarrow> nat \<Rightarrow> h2_core_t \<times> h2_stream_t \<times> bytes" where
  "put_data h s b cap =
     (if s_open s \<and> \<not> s_local_end s \<and> cap - length b \<ge> H2_FRAME_HDR_LEN \<and> \<not> data_blocked h s
      then (let rem = length (s_body s) - s_body_off s; n = data_len h s cap (length b)
            in if rem > 0 \<and> n = 0 then (h, s, b)
               else put_data (h\<lparr>h_conn_send_win := h_conn_send_win h - int n\<rparr>) (data_sent s n) (b @ data_frame s n) cap)
      else (h, s, b))"
  by pat_completeness auto
termination
  by (relation "measure (\<lambda>(h, s, b, cap). cap - length b)") (auto simp: H2_FRAME_HDR_LEN_def data_frame_def put_fh_def put32_def)

declare put_data.simps [simp del]

text \<open>\<open>put_data\<close> on a stream of the engine.\<close>

definition put_data_of :: "h2_core_t \<Rightarrow> h2_which \<Rightarrow> bytes \<Rightarrow> nat \<Rightarrow> h2_core_t \<times> bytes" where
  "put_data_of h w b cap = (let (h, s, b) = put_data h (h2_get w h) b cap in (h2_put w s h, b))"

definition tx_begin :: "h2_embedder \<Rightarrow> h2_core_t \<Rightarrow> h2_core_t \<times> (nat \<times> bytes) option" where
  "tx_begin E h =
     (let log = h_io h @ [EvTxBuf]; h = h\<lparr>h_io := log\<rparr>
      in case e_tx_buf E log of
           None \<Rightarrow> (h, None)
         | Some cap \<Rightarrow>
             if cap < H2_CTL_CAP + H2_FRAME_HDR_LEN + 1 then (h, None)
             else (h\<lparr>h_ctl := []\<rparr>, Some (cap, h_ctl h)))"

definition tx_end :: "h2_embedder \<Rightarrow> h2_core_t \<Rightarrow> bytes \<Rightarrow> h2_rc \<times> h2_core_t" where
  "tx_end E h b =
     (if b = [] then (H2C_OK, h)
      else let log = h_io h @ [EvTxSend b]; h = h\<lparr>h_io := log\<rparr>
           in if e_tx_send E log \<noteq> 0 then (H2C_ERR_IO, h\<lparr>h_dead := True\<rparr>) else (H2C_OK, h))"

partial_function (option) pump_loop :: "h2_embedder \<Rightarrow> h2_core_t \<Rightarrow> (h2_rc \<times> h2_core_t) option" where
  "pump_loop E h =
     (if s_open (h_s h) \<and> \<not> s_local_end (h_s h) \<and> \<not> data_blocked h (h_s h)
      then (case tx_begin E h of
              (h, None) \<Rightarrow> Some (H2C_ERR_IO, h)
            | (h, Some (cap, b)) \<Rightarrow>
                (case put_data_of h H2_MAIN b cap of (h, b) \<Rightarrow>
                   (case tx_end E h b of (rc, h) \<Rightarrow> if rc \<noteq> H2C_OK then Some (rc, h) else pump_loop E h)))
      else Some (H2C_OK, h))"

declare pump_loop.simps [code]

definition h2c_pump :: "h2_embedder \<Rightarrow> h2_core_t \<Rightarrow> (h2_rc \<times> h2_core_t) option" where
  "h2c_pump E h = (if h_dead h then Some (H2C_ERR_STATE, h) else pump_loop E h)"

record h2_req_t =
  r_fields :: "(bytes \<times> bytes) list"
  r_body :: "bytes option"

fun put_fields :: "(bytes \<times> bytes) list \<Rightarrow> bytes \<Rightarrow> nat \<Rightarrow> bytes option" where
  "put_fields [] b cap = Some b"
| "put_fields ((n, v) # fs) b cap =
     (case hpack_put_field (cap - length b) n v of
        None \<Rightarrow> None
      | Some x \<Rightarrow> put_fields fs (b @ x) cap)"

definition stream_zero :: h2_stream_t where
  "stream_zero = \<lparr>s_id = 0, s_open = False, s_local_end = False, s_remote_end = False, s_closed = False, s_stop = False, s_have_status = False,
     s_final = False, s_pseudo_done = False, s_close_err = 0, s_status = 0, s_send_win = 0, s_recv_win = 0, s_consumed = 0,
     s_content_length = 0, s_recv_len = 0, s_body = [], s_body_off = 0\<rparr>"

definition new_stream :: "h2_core_t \<Rightarrow> nat \<Rightarrow> h2_req_t \<Rightarrow> h2_stream_t" where
  "new_stream h sid r = stream_zero\<lparr>s_id := sid, s_open := True, s_send_win := int (h_peer_initial_win h), s_recv_win := H2_DEFAULT_WINDOW,
     s_content_length := -1, s_body := (case r_body r of None \<Rightarrow> [] | Some b \<Rightarrow> b)\<rparr>"

definition open_stream :: "h2_core_t \<Rightarrow> h2_which \<Rightarrow> h2_req_t \<Rightarrow> bytes \<Rightarrow> nat \<Rightarrow> h2_rc \<times> h2_core_t \<times> bytes" where
  "open_stream h w r b cap =
     (if cap - length b < H2_FRAME_HDR_LEN + 1 then (H2C_ERR_SIZE, h, b)
      else let upd = (if h_sent_size_update h then [] else [0x20])
           in case put_fields (r_fields r) (b @ replicate H2_FRAME_HDR_LEN 0 @ upd) cap of
                None \<Rightarrow> (H2C_ERR_SIZE, h, b)
              | Some o' \<Rightarrow>
                  (let blk = drop (length b + H2_FRAME_HDR_LEN) o'
                   in if length blk > h_peer_max_frame h then (H2C_ERR_SIZE, h, b)
                      else let sid = h_next_id h; h = h\<lparr>h_next_id := sid + 2, h_last_id := sid, h_sent_size_update := True\<rparr>;
                               h = h2_put w (new_stream h sid r) h;
                               (h, b) = put_data_of h w (b @ put_fh (length blk) H2_HEADERS H2_F_END_HEADERS sid @ blk) cap
                           in (H2C_OK, h, b)))"

definition open_pair :: "h2_core_t \<Rightarrow> h2_req_t option \<Rightarrow> h2_req_t \<Rightarrow> bytes \<Rightarrow> nat \<Rightarrow> h2_rc \<times> h2_core_t \<times> bytes" where
  "open_pair h side req b cap =
     (let (rc, h, b) = (case side of
            None \<Rightarrow> (H2C_OK, h, b)
          | Some r \<Rightarrow>
              (let (rc, h, b) = open_stream h H2_SIDE r b cap
               in (if rc = H2C_OK \<and> \<not> s_local_end (h_side h) then H2C_ERR_SIZE else rc, h, b)))
      in if rc = H2C_OK then open_stream h H2_MAIN req b cap else (rc, h, b))"

definition h2c_request_pair :: "h2_embedder \<Rightarrow> h2_core_t \<Rightarrow> h2_req_t option \<Rightarrow> h2_req_t \<Rightarrow> (h2_rc \<times> h2_core_t) option" where
  "h2c_request_pair E h side req =
     (if \<not> h_started h \<or> h_dead h \<or> h_goaway h \<or> s_open (h_s h) \<or> (side \<noteq> None \<and> s_open (h_side h)) then Some (H2C_ERR_STATE, h)
      else if h_next_id h > (if side \<noteq> None then 0x7ffffffd else 0x7fffffff) then Some (H2C_ERR_STATE, h)
      else if side \<noteq> None \<and> h_peer_max_streams h < 2 then Some (H2C_ERR_STREAMS, h)
      else case tx_begin E h of
             (h, None) \<Rightarrow> Some (H2C_ERR_IO, h)
           | (h, Some (cap, c)) \<Rightarrow>
               (case open_pair h side req c cap of (rc, h', b) \<Rightarrow>
                  if rc \<noteq> H2C_OK
                  then (let h' = (if side \<noteq> None then h'\<lparr>h_side := stream_zero\<rparr> else h');
                            h' = h'\<lparr>h_s := (h_s h')\<lparr>s_open := False\<rparr>, h_next_id := h_next_id h, h_last_id := h_last_id h,
                                    h_sent_size_update := h_sent_size_update h, h_conn_send_win := h_conn_send_win h\<rparr>;
                            (frc, h') = tx_end E h' c
                        in Some (if frc \<noteq> H2C_OK then frc else rc, h'))
                  else (case tx_end E h' b of (rc, h) \<Rightarrow> if rc \<noteq> H2C_OK then Some (rc, h) else h2c_pump E h)))"

definition h2c_request :: "h2_embedder \<Rightarrow> h2_core_t \<Rightarrow> (bytes \<times> bytes) list \<Rightarrow> bytes option \<Rightarrow> (h2_rc \<times> h2_core_t) option" where
  "h2c_request E h fs body = h2c_request_pair E h None \<lparr>r_fields = fs, r_body = body\<rparr>"

definition h2c_cancel_side :: "h2_embedder \<Rightarrow> h2_core_t \<Rightarrow> h2_rc \<times> h2_core_t" where
  "h2c_cancel_side E h =
     (if \<not> s_open (h_side h) then (H2C_OK, h)
      else if h_dead h then (H2C_ERR_STATE, h)
      else let (rc, h) = ctl_u32 E h H2_RST_STREAM (s_id (h_side h)) H2_CANCEL; h = h\<lparr>h_side := close_stream (h_side h) H2_CANCEL\<rparr>
           in if rc = H2C_OK then ctl_flush E h else (rc, h))"

definition h2c_start :: "h2_embedder \<Rightarrow> h2_core_t \<Rightarrow> h2_rc \<times> h2_core_t" where
  "h2c_start E h =
     (if h_started h then (H2C_ERR_STATE, h)
      else let p = [0, of_nat H2_SET_HEADER_TABLE_SIZE, 0, 0, 0, 0, 0, of_nat H2_SET_ENABLE_PUSH, 0, 0, 0, 0];
               (rc, h) = ctl_frame E (h\<lparr>h_ctl := H2_PREFACE\<rparr>) H2_SETTINGS 0 0 p;
               (rc, h) = (if rc = H2C_OK then ctl_flush E h else (rc, h))
           in if rc \<noteq> H2C_OK then (rc, h) else (H2C_OK, h\<lparr>h_settings_unacked := 1, h_started := True\<rparr>))"

definition h2c_init :: "h2_core_t" where
  "h2c_init = \<lparr>h_io = [], h_started = False, h_dead = False, h_goaway = False, h_sent_size_update = False, h_goaway_last = 0x7fffffff,
     h_next_id = 1, h_last_id = 0, h_settings_unacked = 0, h_conn_send_win = H2_DEFAULT_WINDOW, h_conn_recv_win = H2_DEFAULT_WINDOW,
     h_conn_consumed = 0, h_peer_initial_win = nat H2_DEFAULT_WINDOW, h_peer_max_frame = H2_MAX_FRAME, h_peer_enable_connect = 0,
     h_peer_max_streams = 0xffffffff, h_fh = replicate 9 0, h_fh_have = 0, h_f_type = 0, h_f_flags = 0, h_f_phase = PH_PADLEN, h_f_pad = 0,
     h_f_fix_have = 0, h_f_ignore = False, h_f_len = 0, h_f_sid = 0, h_f_left = 0, h_f_body_left = 0, h_f_fix = replicate 8 0,
     h_cont_sid = 0, h_cont_count = 0, h_blk_end_stream = False, h_blk_ignore = False, h_blk_trailer = False, h_blk_error = False,
     h_hpack = hpack_dec_init None 0 0, h_s = stream_zero, h_side = stream_zero, h_ctl = []\<rparr>"

end
