(* ===== verification/TS2021_Dial.thy ===== *)
theory TS2021_Dial
  imports TS2021 TL_Addr H2_Core
begin

text \<open>
  \<open>ts2021_client.c\<close>, how the control connection comes up and goes down: the HTTP/1.1 upgrade, the Noise IK handshake on an open
  transport, and which transport and which address a connect tries (:80 or :443, the cached address or the name).

  \<open>handshake\<close> runs on a connection whose polls are a transcript, as in \<open>TS2021\<close>.  For the dial policy an attempt is its outcome: \<open>net\<close> says
  how the attempt on a port, at an address or by name, ends in this connect; no attempt is made twice in one connect.  The TLS session,
  the resumption slot and the cipher offer below :443 are part of that outcome.
\<close>

section \<open>The handshake\<close>

definition TLS_TIMEOUT_MS :: nat where "TLS_TIMEOUT_MS = 30000"
definition TS2021_INIT_HEADER_LEN :: nat where "TS2021_INIT_HEADER_LEN = 5"
definition TS2021_MSG_INITIATION :: u8 where "TS2021_MSG_INITIATION = 1"
definition TS2021_MSG_RESPONSE :: u8 where "TS2021_MSG_RESPONSE = 2"
definition TINYLINK_CAPVER :: nat where "TINYLINK_CAPVER = 148"
definition TS2021_PROTOCOL_NAME :: bytes where "TS2021_PROTOCOL_NAME = ascii ''Noise_IK_25519_ChaChaPoly_BLAKE2s''"
definition TS2021_PROLOGUE_PREFIX :: bytes where "TS2021_PROLOGUE_PREFIX = ascii ''Tailscale Control Protocol v''"
definition UPGRADE_TOKEN :: bytes where "UPGRADE_TOKEN = ascii ''tailscale-control-protocol''"
definition HANDSHAKE_HDR :: bytes where "HANDSHAKE_HDR = ascii ''X-Tailscale-Handshake''"
definition CRLF :: bytes where "CRLF = [13, 10]"

text \<open>\<open>s_pre\<close>: the Diffie-Hellman work done ahead, and the key pair it is for.\<close>

record pre_cache_t =
  pc_machine_pub :: bytes
  pc_control_pub :: bytes
  pc_keyed :: bool
  pc_pre :: noise_ik_pre_t

definition pre_zero :: noise_ik_pre_t where
  "pre_zero = \<lparr>pre_ss = replicate 32 0, pre_e_priv = replicate 32 0, pre_e_pub = replicate 32 0, pre_es = replicate 32 0, have_ss = False, have_e = False\<rparr>"

definition pre_cache_zero :: pre_cache_t where
  "pre_cache_zero = \<lparr>pc_machine_pub = replicate 32 0, pc_control_pub = replicate 32 0, pc_keyed = False, pc_pre = pre_zero\<rparr>"

definition pre_for :: "bytes \<Rightarrow> bytes \<Rightarrow> pre_cache_t \<Rightarrow> pre_cache_t" where
  "pre_for machine_pub control_pub s =
    (if \<not> pc_keyed s \<or> pc_machine_pub s \<noteq> machine_pub \<or> pc_control_pub s \<noteq> control_pub
     then \<lparr>pc_machine_pub = machine_pub, pc_control_pub = control_pub, pc_keyed = True, pc_pre = pre_zero\<rparr> else s)"

definition ts2021_precompute :: "(bytes \<Rightarrow> bytes \<Rightarrow> bytes) \<Rightarrow> bytes \<Rightarrow> bytes \<Rightarrow> bytes \<Rightarrow> bytes \<Rightarrow> pre_cache_t \<Rightarrow> pre_cache_t" where
  "ts2021_precompute x25519 rnd machine_priv machine_pub control_pub s0 = (let s = pre_for machine_pub control_pub s0 in
     case noise_ik_precompute x25519 rnd (pc_pre s) machine_priv control_pub True of
       (rc, pre) \<Rightarrow> if rc \<noteq> ESP_OK then pre_cache_zero else s\<lparr>pc_pre := pre\<rparr>)"

text \<open>One handshake per ephemeral: what is left of the precomputed work once a first message was built from it.\<close>

definition drop_ephemeral :: "noise_ik_pre_t \<Rightarrow> noise_ik_pre_t" where
  "drop_ephemeral pre = (if have_e pre
     then pre\<lparr>pre_e_priv := replicate 32 0, pre_es := replicate 32 0, pre_e_pub := replicate 32 0, have_e := False\<rparr> else pre)"

definition init_frame :: "bytes \<Rightarrow> bytes" where
  "init_frame msg1 = [of_nat (TINYLINK_CAPVER div 256), of_nat (TINYLINK_CAPVER mod 256), TS2021_MSG_INITIATION, 0, 96] @ msg1"

definition upgrade_request :: "bytes \<Rightarrow> string \<Rightarrow> bytes" where
  "upgrade_request host init_b64 = ascii ''POST /ts2021 HTTP/1.1'' @ CRLF @ ascii ''Host: '' @ host @ CRLF @ ascii ''Upgrade: '' @ UPGRADE_TOKEN @ CRLF @
     ascii ''Connection: upgrade'' @ CRLF @ HANDSHAKE_HDR @ ascii '': '' @ ascii init_b64 @ CRLF @ ascii ''Content-Length: 0'' @ CRLF @ CRLF"

text \<open>One byte at a time, so that nothing behind the blank line is taken.\<close>

function ts_upgrade_loop :: "nat \<Rightarrow> nat \<Rightarrow> nat \<Rightarrow> bytes \<Rightarrow> io_poll list \<Rightarrow> bytes ts_end \<times> io_poll list" where
  "ts_upgrade_loop room budget idle got ps =
    (if room \<le> length got then (TsOk got, ps)
     else case ps of
       [] \<Rightarrow> (TsWaits, [])
     | PollWant # qs \<Rightarrow> if budget \<le> idle + 1 then (TsFail, qs) else ts_upgrade_loop room budget (idle + 1) got qs
     | PollErr e # qs \<Rightarrow> (TsFail, qs)
     | PollData [] # qs \<Rightarrow> (TsFail, qs)
     | PollData (b # d) # qs \<Rightarrow>
         (let got = got @ [b]; rest = (if d = [] then qs else PollData d # qs) in
          if length got \<ge> 4 \<and> drop (length got - 4) got = CRLF @ CRLF then (TsOk got, rest)
          else ts_upgrade_loop room budget 0 got rest))"
  by pat_completeness auto
termination by (relation "measure (\<lambda>(_, _, _, _, ps). length ps + length (poll_data ps))") auto

declare ts_upgrade_loop.simps [simp del]

definition read_upgrade_response_ts :: "nat \<Rightarrow> ts2021_conn_t \<Rightarrow> unit ts_end \<times> ts2021_conn_t" where
  "read_upgrade_response_ts polls c = (case ts_upgrade_loop (TS2021_MAX_MESSAGE - 1) (idle_budget polls c) 0 [] (c_in c) of
     (TsWaits, r) \<Rightarrow> (TsWaits, c\<lparr>c_in := r\<rparr>) | (TsFail, r) \<Rightarrow> (TsFail, c\<lparr>c_in := r\<rparr>)
   | (TsOk got, r) \<Rightarrow>
      (if length got \<ge> TS2021_MAX_MESSAGE - 1 then TsFail
       else if take 13 got \<noteq> ascii ''HTTP/1.1 101 '' \<and> take 13 got \<noteq> ascii ''HTTP/1.0 101 '' then TsFail else TsOk (), c\<lparr>c_in := r\<rparr>))"

definition hs_to_stream :: "bool \<Rightarrow> ts2021_conn_t \<Rightarrow> bool \<times> ts2021_conn_t" where
  "hs_to_stream timeouts_set c = (if \<not> timeouts_set then (False, c) else (True, c\<lparr>c_hs_idle := 0\<rparr>))"

text \<open>\<open>h2_session_init\<close>: the preface and SETTINGS that \<open>h2c_start\<close> flushes, through \<open>ts2021_send\<close>.\<close>

definition H2_START :: bytes where
  "H2_START = H2_PREFACE @ put_fh 12 H2_SETTINGS 0 0 @ [0, of_nat H2_SET_HEADER_TABLE_SIZE, 0, 0, 0, 0, 0, of_nat H2_SET_ENABLE_PUSH, 0, 0, 0, 0]"

definition h2_session_init :: "nat \<Rightarrow> ts2021_conn_t \<Rightarrow> unit ts_end \<times> ts2021_conn_t" where
  "h2_session_init polls c = ts2021_send polls (c\<lparr>c_goaway := False\<rparr>) H2_START"

text \<open>After the 101: the server's message, the switch to the stream's budget, the early payload, the HTTP/2 start.\<close>

definition finish_handshake :: "(bytes \<Rightarrow> bytes \<Rightarrow> bytes) \<Rightarrow> nat \<Rightarrow> nat \<Rightarrow> bool \<Rightarrow> i64 \<Rightarrow> ts2021_conn_t \<Rightarrow> unit ts_end \<times> ts2021_conn_t" where
  "finish_handshake x25519 fuel polls timeouts_set now c = (case read_record_frame polls c 48 of
     (TsWaits, c1) \<Rightarrow> (TsWaits, c1) | (TsFail, c1) \<Rightarrow> (TsFail, c1)
   | (TsOk (type, msg2), c1) \<Rightarrow>
      (if type = TS2021_MSG_ERROR then (TsFail, c1)
       else if type \<noteq> TS2021_MSG_RESPONSE \<or> length msg2 \<noteq> 48 then (TsFail, c1)
       else (case noise_ik_read_msg2 x25519 True (c_noise c1) msg2 of (rc, _, st) \<Rightarrow>
         (let c2 = c1\<lparr>c_noise := st\<rparr> in
          if rc \<noteq> ESP_OK then (TsFail, c2)
          else (case (if c_hs_idle c2 \<noteq> 0 then hs_to_stream timeouts_set (c2\<lparr>c_up_us := now\<rparr>) else (True, c2\<lparr>c_up_us := now\<rparr>)) of (ok, c3) \<Rightarrow>
            if \<not> ok then (TsFail, c3)
            else (case consume_early_payload fuel polls c3 of
                (TsWaits, c4) \<Rightarrow> (TsWaits, c4) | (TsFail, c4) \<Rightarrow> (TsFail, c4)
              | (TsOk _, c4) \<Rightarrow> h2_session_init polls (c4\<lparr>c_connected := True\<rparr>)))))))"

definition handshake :: "(bytes \<Rightarrow> bytes \<Rightarrow> bytes) \<Rightarrow> bytes \<Rightarrow> bytes \<Rightarrow> nat \<Rightarrow> nat \<Rightarrow> bool \<Rightarrow> i64 \<Rightarrow> bytes \<Rightarrow> bytes \<Rightarrow> bytes
    \<Rightarrow> pre_cache_t \<Rightarrow> ts2021_conn_t \<Rightarrow> unit ts_end \<times> pre_cache_t \<times> ts2021_conn_t" where
  "handshake x25519 rnd host fuel polls timeouts_set now machine_priv machine_pub control_pub s0 c =
    (case noise_ik_init machine_priv machine_pub control_pub TS2021_PROTOCOL_NAME (TS2021_PROLOGUE_PREFIX @ udec TINYLINK_CAPVER) of (rc, st) \<Rightarrow>
     if rc \<noteq> ESP_OK then (TsFail, s0, c\<lparr>c_noise := st\<rparr>)
     else (let s1 = pre_for machine_pub control_pub s0 in
       case noise_ik_precompute x25519 rnd (pc_pre s1) machine_priv control_pub False of (rc, pre) \<Rightarrow>
       if rc \<noteq> ESP_OK then (TsFail, s1\<lparr>pc_pre := pre\<rparr>, c\<lparr>c_noise := st\<rparr>)
       else (case noise_ik_write_msg1_pre x25519 True rnd st (Some pre) of (rc, msg1, st) \<Rightarrow>
         (let s2 = s1\<lparr>pc_pre := drop_ephemeral pre\<rparr>; c1 = c\<lparr>c_noise := st\<rparr> in
          if rc \<noteq> ESP_OK then (TsFail, s2, c1)
          else (case b64_encode (init_frame msg1) 137 of None \<Rightarrow> (TsFail, s2, c1)
            | Some t \<Rightarrow>
              (let req = upgrade_request host t in
               if length req \<ge> TS2021_MAX_MESSAGE then (TsFail, s2, c1)
               else (case tls_write_full polls c1 req of
                   (TsWaits, c2) \<Rightarrow> (TsWaits, s2, c2) | (TsFail, c2) \<Rightarrow> (TsFail, s2, c2)
                 | (TsOk _, c2) \<Rightarrow> (case read_upgrade_response_ts polls c2 of
                     (TsWaits, c3) \<Rightarrow> (TsWaits, s2, c3) | (TsFail, c3) \<Rightarrow> (TsFail, s2, c3)
                   | (TsOk _, c3) \<Rightarrow> (case finish_handshake x25519 fuel polls timeouts_set now c3 of (r, c4) \<Rightarrow> (r, s2, c4))))))))))"

section \<open>The dial policy\<close>

definition TS2021_PLAIN_EARLY_DROP_S :: int where "TS2021_PLAIN_EARLY_DROP_S = 120"
definition TS2021_ADDR_TTL_S :: int where "TS2021_ADDR_TTL_S = 600"

text \<open>The file's static state.\<close>

record dial_t =
  s_plain_off :: bool
  s_tls_next :: bool
  s_addr :: bytes
  s_addr_skip :: bool
  s_addr_until_us :: i64
  s_abort_reads :: bool

text \<open>How an attempt ends: whether the connection came up, the address it reached (\<open>0.0.0.0\<close> when unknown), and whether another task raised
  an abort meanwhile.\<close>

record attempt_t =
  at_ok :: bool
  at_peer :: bytes
  at_abort :: bool

type_synonym net_t = "bool \<Rightarrow> bytes option \<Rightarrow> attempt_t"
type_synonym dial_log = "(bool \<times> bytes option \<times> bool) list"

definition ts2021_set_addr :: "i64 \<Rightarrow> bytes option \<Rightarrow> dial_t \<Rightarrow> dial_t" where
  "ts2021_set_addr now ip d = d\<lparr>s_addr := (case ip of Some a \<Rightarrow> if tl_ipv4_usable a then a else [0, 0, 0, 0] | None \<Rightarrow> [0, 0, 0, 0]),
     s_addr_until_us := now + TS2021_ADDR_TTL_S * 1000000\<rparr>"

definition ts2021_abort_reads :: "dial_t \<Rightarrow> dial_t" where
  "ts2021_abort_reads d = d\<lparr>s_abort_reads := True\<rparr>"

text \<open>\<open>connect_on\<close>: one attempt; its result, the address reached, and the entry it leaves in the log.\<close>

definition connect_on :: "net_t \<Rightarrow> bool \<Rightarrow> bytes option \<Rightarrow> dial_t \<Rightarrow> bool \<times> bytes \<times> dial_log \<times> dial_t" where
  "connect_on net plain ip d = (let a = net plain ip in
     (at_ok a, case ip of Some x \<Rightarrow> x | None \<Rightarrow> at_peer a, [(plain, ip, at_ok a)], d\<lparr>s_abort_reads := s_abort_reads d \<or> at_abort a\<rparr>))"

text \<open>The result, the address reached, \<open>*at_addr\<close>, \<open>*try_addr\<close>, the log, the state.\<close>

definition connect_port :: "net_t \<Rightarrow> bool \<Rightarrow> bool \<Rightarrow> dial_t \<Rightarrow> bool \<times> bytes \<times> bool \<times> bool \<times> dial_log \<times> dial_t" where
  "connect_port net plain try_addr d =
    (if try_addr then
       (case connect_on net plain (Some (s_addr d)) d of (ok, peer, log1, d1) \<Rightarrow>
         if ok \<or> s_abort_reads d1 then (ok, peer, ok, try_addr, log1, d1)
         else (case connect_on net plain None d1 of (ok, peer, log2, d2) \<Rightarrow> (ok, peer, False, False, log1 @ log2, d2)))
     else (case connect_on net plain None d of (ok, peer, log2, d2) \<Rightarrow> (ok, peer, False, False, log2, d2)))"

text \<open>\<open>built\<close>: \<open>TS2021_PLAIN\<close>; \<open>t0\<close> and \<open>t1\<close>: the clock at the start and at the end of the connect.\<close>

definition try_plain :: "bool \<Rightarrow> bool \<Rightarrow> dial_t \<Rightarrow> bool" where
  "try_plain built key_pinned d \<longleftrightarrow> built \<and> key_pinned \<and> \<not> s_plain_off d \<and> \<not> s_tls_next d"

definition addr_first :: "i64 \<Rightarrow> dial_t \<Rightarrow> bool" where
  "addr_first t0 d \<longleftrightarrow> tl_ipv4_usable (s_addr d) \<and> \<not> s_addr_skip d \<and> t0 < s_addr_until_us d"

definition note_connected :: "i64 \<Rightarrow> bytes \<Rightarrow> bool \<Rightarrow> dial_t \<Rightarrow> dial_t" where
  "note_connected t1 peer at_addr d = (let d1 = d\<lparr>s_addr := peer\<rparr> in
     if at_addr then d1 else d1\<lparr>s_addr_until_us := t1 + TS2021_ADDR_TTL_S * 1000000\<rparr>)"

definition ts2021_connect :: "net_t \<Rightarrow> bool \<Rightarrow> bool \<Rightarrow> i64 \<Rightarrow> i64 \<Rightarrow> dial_t \<Rightarrow> bool \<times> bytes \<times> dial_log \<times> dial_t" where
  "ts2021_connect net built key_pinned t0 t1 d0 =
    (let plain = try_plain built key_pinned d0; addr = addr_first t0 d0;
         d1 = d0\<lparr>s_abort_reads := False, s_tls_next := False, s_addr_skip := False\<rparr>;
         (ok, peer, at_addr, addr, log1, d2) = (if plain then connect_port net True addr d1 else (False, [0, 0, 0, 0], False, addr, [], d1));
         fallback = (\<not> plain \<or> (\<not> ok \<and> \<not> s_abort_reads d2));
         (ok, peer, at_addr, log2, d3) = (if fallback
            then (case connect_port net False addr d2 of (ok, peer, at_addr, _, log2, d3) \<Rightarrow>
                  (ok, peer, at_addr, log2, if ok \<and> plain then d3\<lparr>s_plain_off := True\<rparr> else d3))
            else (ok, peer, at_addr, [], d2))
     in (ok, peer, log1 @ log2, if ok then note_connected t1 peer at_addr d3 else d3))"

definition conn_teardown :: "ts2021_conn_t \<Rightarrow> ts2021_conn_t" where
  "conn_teardown c = c\<lparr>c_goaway := False, c_win := [], c_plain := False, c_connected := False, c_noise := nk_zero\<rparr>"

definition young :: "i64 \<Rightarrow> ts2021_conn_t \<Rightarrow> bool" where
  "young now c \<longleftrightarrow> (now - c_up_us c) div 1000000 < TS2021_PLAIN_EARLY_DROP_S"

definition ts2021_close :: "i64 \<Rightarrow> ts2021_conn_t \<Rightarrow> dial_t \<Rightarrow> ts2021_conn_t \<times> dial_t" where
  "ts2021_close now c d =
    (let d1 = (if c_plain c \<and> c_connected c \<and> c_io_failed c \<and> young now c then d\<lparr>s_tls_next := True\<rparr> else d);
         d2 = (if c_connected c \<and> c_at_addr c \<and> \<not> c_aborted c \<and> (c_io_failed c \<or> c_goaway c) \<and> young now c then d1\<lparr>s_addr_skip := True\<rparr> else d1)
     in (conn_teardown c, d2))"

section \<open>What a connect may do\<close>

lemma connect_port_addr:
  "connect_port net plain True d =
    (let a = net plain (Some (s_addr d)); n = net plain None; d1 = d\<lparr>s_abort_reads := s_abort_reads d \<or> at_abort a\<rparr> in
     if at_ok a \<or> s_abort_reads d \<or> at_abort a then (at_ok a, s_addr d, at_ok a, True, [(plain, Some (s_addr d), at_ok a)], d1)
     else (at_ok n, at_peer n, False, False, [(plain, Some (s_addr d), False), (plain, None, at_ok n)], d1\<lparr>s_abort_reads := at_abort n\<rparr>))"
  by (simp add: connect_port_def connect_on_def Let_def)

lemma connect_port_name:
  "connect_port net plain False d =
    (at_ok (net plain None), at_peer (net plain None), False, False, [(plain, None, at_ok (net plain None))], d\<lparr>s_abort_reads := s_abort_reads d \<or> at_abort (net plain None)\<rparr>)"
  by (simp add: connect_port_def connect_on_def Let_def)

lemmas connect_port_eqs = connect_port_addr connect_port_name

text \<open>The entries of a log.\<close>

abbreviation plain_entry :: "bool \<times> bytes option \<times> bool \<Rightarrow> bool" where "plain_entry \<equiv> fst"
abbreviation entry_ip :: "bool \<times> bytes option \<times> bool \<Rightarrow> bytes option" where "entry_ip e \<equiv> fst (snd e)"

text \<open>C12: What one connect tries.  Port :80 is tried only when built in, with a key pinned before the boot, while it is not off for the boot and
  not sent to :443 by an early drop.  There are at most three attempts, none twice; the result is that of the last one.  The only address
  tried is the cached one, first, and only while it is usable, not to be skipped and within its ten minutes.  Unless an abort was
  raised, a connect that fails has tried :443 by name, and every failure at the address is followed by an attempt by name on the same port.
  Port :80 goes off exactly when it failed by name and :443 then came up; a connect never turns it on again.\<close>

theorem dial_policy:
  assumes "ts2021_connect net built key_pinned t0 t1 d = (ok, peer, log, d1)"
  shows "((\<exists>e \<in> set log. plain_entry e) \<longrightarrow> built \<and> key_pinned \<and> \<not> s_plain_off d \<and> \<not> s_tls_next d) \<and>
    0 < length log \<and> length log \<le> 3 \<and> distinct log \<and> ok = snd (snd (last log)) \<and>
    (\<forall>e \<in> set log. entry_ip e \<noteq> None \<longrightarrow> e = hd log \<and> entry_ip e = Some (s_addr d) \<and> addr_first t0 d) \<and>
    (\<not> ok \<and> \<not> s_abort_reads d1 \<longrightarrow> last log = (False, None, False)) \<and>
    (\<forall>p. (p, Some (s_addr d), False) \<in> set log \<and> \<not> s_abort_reads d1 \<longrightarrow> (\<exists>r. (p, None, r) \<in> set log)) \<and>
    s_plain_off d1 = (s_plain_off d \<or> ((True, None, False) \<in> set log \<and> (False, None, True) \<in> set log))"
proof -
  define pl ad where "pl = try_plain built key_pinned d" and "ad = addr_first t0 d"
  have c: "ts2021_connect net built key_pinned t0 t1 d = (ok, peer, log, d1)" "pl \<longrightarrow> built \<and> key_pinned \<and> \<not> s_plain_off d \<and> \<not> s_tls_next d"
    using assms by (simp_all add: pl_def try_plain_def)
  show ?thesis
    using c unfolding ts2021_connect_def pl_def [symmetric] ad_def [symmetric] Let_def
    by (cases pl; cases ad) (auto simp: connect_port_eqs note_connected_def Let_def split: if_splits)
qed

text \<open>:80 fails by name, :443 answers by name: with the cached address first, three attempts; :80 is off afterwards.\<close>

definition demo_dial :: dial_t where
  "demo_dial = \<lparr>s_plain_off = False, s_tls_next = False, s_addr = [192, 200, 0, 1], s_addr_skip = False, s_addr_until_us = 600000000, s_abort_reads = True\<rparr>"

definition demo_net :: net_t where
  "demo_net plain ip = \<lparr>at_ok = \<not> plain, at_peer = [192, 200, 0, 2], at_abort = False\<rparr>"

lemma demo_connect:
  "ts2021_connect demo_net True True 5 9 demo_dial =
    (True, [192, 200, 0, 2], [(True, Some [192, 200, 0, 1], False), (True, None, False), (False, None, True)],
     \<lparr>s_plain_off = True, s_tls_next = False, s_addr = [192, 200, 0, 2], s_addr_skip = False, s_addr_until_us = 600000009, s_abort_reads = False\<rparr>)"
  by (simp add: ts2021_connect_def try_plain_def addr_first_def tl_ipv4_usable_def demo_dial_def demo_net_def connect_port_eqs note_connected_def TS2021_ADDR_TTL_S_def)

theorem dial_policy_witness:
  "fst (snd (snd (ts2021_connect demo_net True True 5 9 demo_dial))) = [(True, Some [192, 200, 0, 1], False), (True, None, False), (False, None, True)] \<and>
   s_plain_off (snd (snd (snd (ts2021_connect demo_net True True 5 9 demo_dial))))"
  using dial_policy [OF demo_connect] by (simp add: demo_connect)

text \<open>A :80 connection whose transport failed young sends the next connect to :443; one at the cached address, to the name.\<close>

lemma early_drop_next_dial:
  assumes "ts2021_close now c d = (c1, d1)" "c_connected c" "c_io_failed c" "young now c" "ts2021_connect net built pinned t0 t1 d1 = (ok, peer, log, d2)"
  shows "(c_plain c \<longrightarrow> (\<forall>e \<in> set log. \<not> plain_entry e)) \<and> (c_at_addr c \<and> \<not> c_aborted c \<longrightarrow> (\<forall>e \<in> set log. entry_ip e = None)) \<and> \<not> s_tls_next d2 \<and> \<not> s_addr_skip d2"
proof -
  have d: "c_plain c \<longrightarrow> s_tls_next d1" "c_at_addr c \<and> \<not> c_aborted c \<longrightarrow> s_addr_skip d1"
    using assms(1-4) by (auto simp: ts2021_close_def Let_def split: if_splits)
  define pl ad where "pl = try_plain built pinned d1" and "ad = addr_first t0 d1"
  have p: "c_plain c \<longrightarrow> \<not> pl" "c_at_addr c \<and> \<not> c_aborted c \<longrightarrow> \<not> ad" using d by (auto simp: pl_def ad_def try_plain_def addr_first_def)
  show ?thesis
    using p assms(5) unfolding ts2021_connect_def pl_def [symmetric] ad_def [symmetric] Let_def
    by (cases pl; cases ad) (auto simp: connect_port_eqs note_connected_def Let_def split: if_splits)
qed

lemma close_scrubs: "ts2021_close now c d = (c1, d1) \<Longrightarrow> c_noise c1 = nk_zero \<and> \<not> c_connected c1 \<and> c_win c1 = []"
  by (auto simp: ts2021_close_def conn_teardown_def Let_def)

section \<open>A connection that is up has an authenticated peer\<close>

text \<open>What reading leaves alone.\<close>

definition same_tx :: "ts2021_conn_t \<Rightarrow> ts2021_conn_t \<Rightarrow> bool" where
  "same_tx c c1 \<longleftrightarrow> c_sent c1 = c_sent c \<and> c_connected c1 = c_connected c \<and> k_send (c_noise c1) = k_send (c_noise c) \<and> k_recv (c_noise c1) = k_recv (c_noise c) \<and>
     n_send (c_noise c1) = n_send (c_noise c) \<and> transport_ready (c_noise c1) = transport_ready (c_noise c)"

lemma same_tx_refl [simp]: "same_tx c c" and same_tx_trans: "same_tx a b \<Longrightarrow> same_tx b c \<Longrightarrow> same_tx a c"
  by (simp_all add: same_tx_def)

lemma same_tx_upd [simp]:
  "same_tx c (c1\<lparr>c_win := w\<rparr>) = same_tx c c1" "same_tx c (c1\<lparr>c_in := r\<rparr>) = same_tx c c1" "same_tx c (c1\<lparr>c_io_failed := i\<rparr>) = same_tx c c1"
  "same_tx c (c1\<lparr>c_aborted := a\<rparr>) = same_tx c c1" "same_tx (c\<lparr>c_win := w\<rparr>) c1 = same_tx c c1"
  by (simp_all add: same_tx_def)

lemma read_full_frame: "tls_read_full polls c n = (r, c1) \<Longrightarrow> same_tx c c1 \<and> c_noise c1 = c_noise c"
  by (auto simp: tls_read_full_def note_req_expired_def same_tx_def split: io_read.splits if_splits)

lemma record_frame: "read_record_frame polls c n = (r, c1) \<Longrightarrow> same_tx c c1 \<and> c_noise c1 = c_noise c"
  unfolding read_record_frame_def Let_def
  by (auto split: prod.splits ts_end.splits if_splits dest!: read_full_frame intro: same_tx_trans)

lemma decrypt_frame: "noise_ik_decrypt al st n ct = (rc, m, st1) \<Longrightarrow> k_send st1 = k_send st \<and> k_recv st1 = k_recv st \<and> n_send st1 = n_send st \<and> transport_ready st1 = transport_ready st"
  by (auto simp: noise_ik_decrypt_def split: if_splits option.splits)

lemma recv_frame: "recv_record polls c = (r, c1) \<Longrightarrow> same_tx c c1"
  unfolding recv_record_def Let_def
  by (auto split: prod.splits ts_end.splits if_splits dest!: record_frame decrypt_frame simp: same_tx_def)

lemma head_frame: "head_loop polls f hdr rest c = (e, c1) \<Longrightarrow> same_tx c c1"
proof (induction polls f hdr rest c rule: head_loop.induct)
  case (2 polls f hdr rest c)
  then show ?case
    by (auto split: if_splits list.splits prod.splits ts_end.splits dest!: recv_frame intro: same_tx_trans)
qed simp

lemma skip_frame: "skip_loop polls f n rest c = (e, c1) \<Longrightarrow> same_tx c c1"
proof (induction polls f n rest c rule: skip_loop.induct)
  case (2 polls f n rest c)
  then show ?case
    by (auto split: if_splits list.splits prod.splits ts_end.splits dest!: recv_frame intro: same_tx_trans)
qed simp

lemma early_frame: "consume_early_payload fuel polls c = (r, c1) \<Longrightarrow> same_tx c c1"
  unfolding consume_early_payload_def Let_def
  by (auto split: early_head.splits if_splits prod.splits ts_end.splits dest!: skip_frame head_frame intro: same_tx_trans)

lemma msg2_keys: "noise_ik_read_msg2 x25519 al st m = (ESP_OK, u, st1) \<Longrightarrow> transport_ready st1 \<and> n_send st1 = 0 \<and> n_recv st1 = 0"
  unfolding noise_ik_read_msg2_def Let_def esp_then_def
  by (auto split: prod.splits esp_err.splits option.splits)

lemma start_length: "length H2_START = 45"
  by (simp add: H2_START_def H2_PREFACE_def put_fh_def str_bytes_def put32_def)

lemma start_pieces: "pieces H2_START = [H2_START]"
  using start_length by (subst pieces.simps) (simp add: TS2021_SMALL_PLAINTEXT_MAX_def)

text \<open>What the engine's start sends.\<close>

lemma start_sent: "h_io (snd (h2c_start E h2c_init)) = [EvSend H2_START]"
  using start_length
  by (simp add: h2c_start_def ctl_frame_def ctl_flush_def h2c_init_def H2_START_def H2_FRAME_HDR_LEN_def H2_CTL_CAP_def put_fh_def H2_PREFACE_def str_bytes_def Let_def case_prod_beta)

lemma send_frame:
  assumes "ts2021_send polls c H2_START = (TsOk (), c1)" "transport_ready (c_noise c)"
  shows "c_sent c1 = c_sent c @ wire_of (c_noise c) [H2_START]"
  using assms ts_send_ok [OF assms(2), of polls H2_START c1] by (simp add: ts2021_send_def start_pieces split: if_splits)

lemma seal_frame: "tls_write_full polls c b = (r, c1) \<Longrightarrow> k_recv (c_noise c1) = k_recv (c_noise c) \<and> c_connected c1 = c_connected c"
  by (auto simp: tls_write_full_def note_req_expired_def Let_def split: prod.splits option.splits if_splits)

lemma send_connected: "send_loop polls c data = (r, c1) \<Longrightarrow> c_connected c1 = c_connected c"
proof (induction polls c data rule: send_loop.induct)
  case (1 polls c data)
  obtain r2 c2 where s: "seal_and_write polls c (take TS2021_SMALL_PLAINTEXT_MAX data) = (r2, c2)" by fastforce
  then have "c_connected c2 = c_connected c" by (auto simp: seal_and_write_def split: prod.splits if_splits dest!: seal_frame)
  then show ?case using "1.prems" "1.IH" [OF s [symmetric]] s by (auto simp: send_loop.simps [of polls c data] split: if_splits)
qed

lemma upgrade_frame: "read_upgrade_response_ts polls c = (r, c1) \<Longrightarrow> c_noise c1 = c_noise c \<and> c_sent c1 = c_sent c"
  by (auto simp: read_upgrade_response_ts_def split: prod.splits ts_end.splits)

section \<open>An honest server's handshake completes\<close>

text \<open>\<open>resp\<close> ends with its first blank line.\<close>

definition ends_blank :: "bytes \<Rightarrow> bool" where
  "ends_blank got \<longleftrightarrow> length got \<ge> 4 \<and> drop (length got - 4) got = CRLF @ CRLF"

lemma upgrade_reads:
  "calm budget idle ps \<Longrightarrow> budget \<noteq> 0 \<Longrightarrow> poll_data ps = xs @ ys \<Longrightarrow> xs \<noteq> [] \<Longrightarrow> length got + length xs \<le> room \<Longrightarrow>
     ends_blank (got @ xs) \<Longrightarrow> (\<forall>k. 0 < k \<and> k < length xs \<longrightarrow> \<not> ends_blank (got @ take k xs)) \<Longrightarrow>
   \<exists>r. ts_upgrade_loop room budget idle got ps = (TsOk (got @ xs), r) \<and> poll_data r = ys \<and> calm budget 0 r"
proof (induction room budget idle got ps arbitrary: xs rule: ts_upgrade_loop.induct)
  case (1 room budget idle got ps)
  note step = ts_upgrade_loop.simps [of room budget idle got ps, folded ends_blank_def]
  have lt: "\<not> room \<le> length got" using "1.prems"(4,5) by (cases xs) auto
  show ?case
  proof (cases ps)
    case Nil
    then show ?thesis using "1.prems"(3,4) by simp
  next
    case (Cons p qs)
    show ?thesis
    proof (cases p)
      case PollWant
      have nb: "\<not> budget \<le> idle + 1" "calm budget (idle + 1) qs" "poll_data qs = xs @ ys" using "1.prems"(1-3) Cons PollWant by auto
      show ?thesis using "1.IH"(2) [OF lt Cons PollWant nb(1,2) "1.prems"(2) nb(3) "1.prems"(4-7)] step lt Cons PollWant nb(1) by simp
    next
      case (PollErr e)
      then show ?thesis using "1.prems"(1) Cons by simp
    next
      case (PollData dd)
      then obtain b d where dd: "dd = b # d" using "1.prems"(1) Cons by (cases dd) auto
      obtain x xr where xs: "xs = x # xr" using "1.prems"(4) by (cases xs) auto
      define rest where "rest = (if d = [] then qs else PollData d # qs)"
      have b: "x = b" "poll_data rest = xr @ ys" "calm budget 0 rest" using "1.prems"(1,3) Cons PollData dd xs by (auto simp: rest_def)
      have st: "ts_upgrade_loop room budget idle got ps = (if ends_blank (got @ [b]) then (TsOk (got @ [b]), rest) else ts_upgrade_loop room budget 0 (got @ [b]) rest)"
        using step lt Cons PollData dd by (simp add: rest_def Let_def ends_blank_def)
      show ?thesis
      proof (cases "xr = []")
        case True
        then show ?thesis using st "1.prems"(6) xs b by (intro exI [of _ rest]) simp
      next
        case False
        then have n: "\<not> ends_blank (got @ [b])" using spec [OF "1.prems"(7), of 1] xs b(1) by simp
        have pre: "\<forall>k. 0 < k \<and> k < length xr \<longrightarrow> \<not> ends_blank ((got @ [b]) @ take k xr)"
        proof (intro allI impI)
          fix k assume "0 < k \<and> k < length xr"
          then show "\<not> ends_blank ((got @ [b]) @ take k xr)" using spec [OF "1.prems"(7), of "Suc k"] xs b(1) by simp
        qed
        have n2: "\<not> (length (got @ [b]) \<ge> 4 \<and> drop (length (got @ [b]) - 4) (got @ [b]) = CRLF @ CRLF)" using n unfolding ends_blank_def .
        have "\<exists>r. ts_upgrade_loop room budget 0 (got @ [b]) rest = (TsOk ((got @ [b]) @ xr), r) \<and> poll_data r = ys \<and> calm budget 0 r"
          using "1.IH"(1) [OF lt Cons PollData dd refl rest_def n2 b(3) "1.prems"(2) b(2) False _ _ pre] "1.prems"(5,6) xs b(1) by simp
        then show ?thesis using st n xs b(1) by simp
      qed
    qed
  qed
qed

definition good_101 :: "bytes \<Rightarrow> bool" where
  "good_101 resp \<longleftrightarrow> (take 13 resp = ascii ''HTTP/1.1 101 '' \<or> take 13 resp = ascii ''HTTP/1.0 101 '') \<and> length resp < TS2021_MAX_MESSAGE - 1 \<and>
     ends_blank resp \<and> (\<forall>k < length resp. \<not> ends_blank (take k resp))"

lemma read_101:
  assumes "carries polls c (resp @ ys)" "good_101 resp" "idle_budget polls c \<noteq> 0"
  shows "\<exists>r. read_upgrade_response_ts polls c = (TsOk (), c\<lparr>c_in := r\<rparr>) \<and> carries polls (c\<lparr>c_in := r\<rparr>) ys"
proof -
  have "resp \<noteq> []" using assms(2) by (auto simp: good_101_def ends_blank_def)
  then obtain r where "ts_upgrade_loop (TS2021_MAX_MESSAGE - 1) (idle_budget polls c) 0 [] (c_in c) = (TsOk resp, r)" "poll_data r = ys" "calm (idle_budget polls c) 0 r"
    using upgrade_reads [of "idle_budget polls c" 0 "c_in c" resp ys "[]" "TS2021_MAX_MESSAGE - 1"] assms by (auto simp: carries_def good_101_def)
  then show ?thesis using assms(2) by (intro exI [of _ r]) (auto simp: read_upgrade_response_ts_def good_101_def carries_def)
qed

lemma frame_carried:
  assumes "carries polls c ([t, 0, 48] @ msg @ ys)" "length msg = 48"
  shows "\<exists>r. read_record_frame polls c 48 = (TsOk (t, msg), c\<lparr>c_in := r\<rparr>) \<and> carries polls (c\<lparr>c_in := r\<rparr>) ys"
proof -
  obtain r1 where r1: "tls_read_full polls c TS2021_HEADER_LEN = (TsOk [t, 0, 48], c\<lparr>c_in := r1\<rparr>)" "carries polls (c\<lparr>c_in := r1\<rparr>) (msg @ ys)"
    using read_carried [OF assms(1), of TS2021_HEADER_LEN] by (auto simp: TS2021_HEADER_LEN_def)
  obtain r2 where "tls_read_full polls (c\<lparr>c_in := r1\<rparr>) 48 = (TsOk msg, c\<lparr>c_in := r2\<rparr>)" "carries polls (c\<lparr>c_in := r2\<rparr>) ys"
    using read_carried [OF r1(2), of 48] assms(2) by (auto simp: carries_def)
  then show ?thesis using r1(1) by (intro exI [of _ r2]) (simp add: read_record_frame_def)
qed

lemma write_whole:
  assumes "c_wp c = PutSome n # ws" "length b \<le> n" "b \<noteq> []"
  shows "tls_write_full polls c b = (TsOk (), c\<lparr>c_sent := c_sent c @ b, c_wp := ws\<rparr>)"
proof -
  have "write_loop b mi 0 (PutSome n # ws) = (b, Some None, ws)" for mi
    using assms(2,3) less_le_trans [of 0 "length b" n] by (cases ws) auto
  then show ?thesis using assms(1) by (simp add: tls_write_full_def tls_io_write_full_def Let_def)
qed

lemma start_whole:
  assumes "c_wp c = PutSome n # ws" "100 \<le> n" "transport_ready (c_noise c)" "c_connected c"
  shows "\<exists>c1. h2_session_init polls c = (TsOk (), c1) \<and> c_connected c1 \<and> c_win c1 = c_win c \<and> c_in c1 = c_in c \<and> c_hs_idle c1 = c_hs_idle c \<and> c_req_idle c1 = c_req_idle c"
proof -
  define c0 where "c0 = c\<lparr>c_goaway := False, c_noise := (c_noise c)\<lparr>n_send := n_send (c_noise c) + 1\<rparr>\<rparr>"
  define b where "b = record_bytes (ts_sealed (c_noise c) H2_START)"
  have e: "noise_ik_encrypt True (c_noise c) (length H2_START + 16) H2_START = (ESP_OK, ts_sealed (c_noise c) H2_START, c_noise c0)"
    using ik_encrypt_eq [OF assms(3), of H2_START] by (simp add: c0_def)
  have b: "length b = 64" "b \<noteq> []" by (simp_all add: b_def record_bytes_def length_encrypt start_length)
  have "seal_and_write polls (c\<lparr>c_goaway := False\<rparr>) H2_START = tls_write_full polls c0 b"
    using e by (simp add: seal_and_write_def b_def c0_def)
  also have "\<dots> = (TsOk (), c0\<lparr>c_sent := c_sent c0 @ b, c_wp := ws\<rparr>)" by (rule write_whole) (use assms(1) order_trans [OF _ assms(2), of 64] b in \<open>simp_all add: c0_def\<close>)
  finally have "h2_session_init polls c = (TsOk (), c0\<lparr>c_sent := c_sent c0 @ b, c_wp := ws\<rparr>)"
    using assms(4) by (simp add: h2_session_init_def ts2021_send_def send_loop.simps [of polls _ H2_START] start_length TS2021_SMALL_PLAINTEXT_MAX_def)
  then show ?thesis using assms(4) by (simp add: c0_def)
qed

text \<open>What the records of an honest server leave untouched on our side.\<close>

lemma recv_keeps_wp: "recv_record polls c = (r, c1) \<Longrightarrow> c_wp c1 = c_wp c"
proof -
  have f: "tls_read_full polls c n = (r, c1) \<Longrightarrow> c_wp c1 = c_wp c" for c r c1 n
    by (auto simp: tls_read_full_def note_req_expired_def split: io_read.splits if_splits)
  have g: "read_record_frame polls c n = (r, c1) \<Longrightarrow> c_wp c1 = c_wp c" for c r c1 n
    unfolding read_record_frame_def Let_def by (auto split: prod.splits ts_end.splits if_splits dest!: f)
  show "recv_record polls c = (r, c1) \<Longrightarrow> c_wp c1 = c_wp c"
    unfolding recv_record_def Let_def by (auto split: prod.splits ts_end.splits if_splits dest!: g)
qed

lemma head_keeps_wp: "head_loop polls f hdr rest c = (e, c1) \<Longrightarrow> c_wp c1 = c_wp c"
proof (induction polls f hdr rest c rule: head_loop.induct)
  case (2 polls f hdr rest c)
  then show ?case by (auto split: if_splits list.splits prod.splits ts_end.splits dest!: recv_keeps_wp)
qed simp

lemma skip_keeps_wp: "skip_loop polls f n rest c = (e, c1) \<Longrightarrow> c_wp c1 = c_wp c"
proof (induction polls f n rest c rule: skip_loop.induct)
  case (2 polls f n rest c)
  then show ?case by (auto split: if_splits list.splits prod.splits ts_end.splits dest!: recv_keeps_wp)
qed simp

lemma early_keeps_wp: "consume_early_payload fuel polls c = (r, c1) \<Longrightarrow> c_wp c1 = c_wp c"
  unfolding consume_early_payload_def Let_def
  by (auto split: early_head.splits if_splits prod.splits ts_end.splits dest!: skip_keeps_wp head_keeps_wp)

lemma finish_completes:
  assumes "carries polls c ([TS2021_MSG_RESPONSE, 0, 48] @ msg2 @ wire_of srv recs @ behind)" "length msg2 = 48" "c_hs_idle c = 0"
    "noise_ik_read_msg2 x25519 True (c_noise c) msg2 = (ESP_OK, (), st)" "k_recv st = k_send srv" "n_send srv = 0"
    "\<forall>x \<in> set recs. length x + 16 \<le> TS2021_MAX_MESSAGE" "length (concat recs) + length recs + 1 < fuel" "early_stream json h2 (concat recs)"
    "c_wp c = PutSome n # ws" "100 \<le> n"
  shows "\<exists>k c1. finish_handshake x25519 fuel polls ts now c = (TsOk (), c1) \<and> c_connected c1 \<and> c_win c1 @ concat (drop k recs) = h2"
proof -
  obtain r where r: "read_record_frame polls c 48 = (TsOk (TS2021_MSG_RESPONSE, msg2), c\<lparr>c_in := r\<rparr>)" "carries polls (c\<lparr>c_in := r\<rparr>) (wire_of srv recs @ behind)"
    using frame_carried [OF assms(1,2)] by blast
  define c3 where "c3 = c\<lparr>c_in := r, c_noise := st, c_up_us := now\<rparr>"
  have budget: "idle_budget polls c3 = idle_budget polls c" by (simp add: c3_def idle_budget_def)
  have st: "transport_ready st" "n_recv st = 0" using msg2_keys [OF assms(4)] by blast+
  have c3: "carries polls c3 (wire_of srv recs @ behind)" "c_noise c3 = st" using r(2) budget by (simp_all add: c3_def carries_def)
  have d: "delivers polls c3 recs (snd (recv_run polls (length recs) c3))"
    using delivers_wire [OF c3(1)] st assms(5-7) c3(2) by simp
  obtain win k c4 where e: "consume_early_payload fuel polls c3 = (TsOk (), c4\<lparr>c_win := win\<rparr>)" "win @ concat (drop k recs) = h2"
    using early_consumed [OF d assms(7-9)] by blast
  define c5 where "c5 = c4\<lparr>c_win := win, c_connected := True\<rparr>"
  have "c_wp c5 = PutSome n # ws" using early_keeps_wp [OF e(1)] assms(10) by (simp add: c5_def c3_def)
  moreover have "transport_ready (c_noise c5)" using early_frame [OF e(1)] c3(2) st(1) by (simp add: c5_def same_tx_def)
  ultimately obtain c1 where h: "h2_session_init polls c5 = (TsOk (), c1)" "c_connected c1" "c_win c1 = win"
    using start_whole [of c5 n ws polls] assms(11) by (auto simp: c5_def)
  have "finish_handshake x25519 fuel polls ts now c = (TsOk (), c1)"
    using r(1) assms(2-4) e(1) h(1) by (simp add: finish_handshake_def c3_def c5_def TS2021_MSG_RESPONSE_def TS2021_MSG_ERROR_def)
  then show ?thesis using h(2,3) e(2) by (intro exI [of _ k] exI [of _ c1]) simp
qed

lemma b64_length: "length (b64_text bs) = (length bs + 2) div 3 * 4"
proof (induction bs rule: b64_text.induct)
  case (4 a b c r)
  have "(length (a # b # c # r) + 2) div 3 = (length r + 2) div 3 + 1" by (simp add: div_add_self2 [of 3 "length r + 2", symmetric])
  then show ?case using 4 by (simp add: Let_def)
qed (simp_all add: Let_def)

lemma init_frame_length: "length (init_frame msg1) = 5 + length msg1"
  by (simp add: init_frame_def)

lemma request_length: "length (upgrade_request host t) = 135 + length host + length t"
  by (simp add: upgrade_request_def UPGRADE_TOKEN_def HANDSHAKE_HDR_def CRLF_def ascii_def)

lemma responder_length:
  assumes "noise_responder x25519 r_priv r_pub e_priv e_pub name prologue m = Some (p, msg2, k1, k2)"
  shows "length msg2 = length e_pub + 16"
  using assms by (auto simp: noise_responder_def noise_msg2_def Let_def length_encrypt split: option.splits)

text \<open>An honest server holds the private half of the pinned key and answers the request with a 101, the second message of Noise IK and its records; the
  transport carries both directions, and no work was done ahead.\<close>

lemma handshake_completes:
  assumes laws: "x25519_laws x25519" and lens: "length i_priv = 32" "length r_priv = 32" "length e_priv = 32" "length rnd = 32" "length host \<le> 1000"
    and i: "noise_ik_init i_priv (curve25519_derive_pub x25519 i_priv) (curve25519_derive_pub x25519 r_priv) TS2021_PROTOCOL_NAME (TS2021_PROLOGUE_PREFIX @ udec TINYLINK_CAPVER) = (rc0, st0)"
    and w: "noise_ik_write_msg1 x25519 True rnd st0 = (rc1, msg1, st1)"
    and srv: "noise_responder x25519 r_priv (curve25519_derive_pub x25519 r_priv) e_priv (curve25519_derive_pub x25519 e_priv) TS2021_PROTOCOL_NAME
      (TS2021_PROLOGUE_PREFIX @ udec TINYLINK_CAPVER) msg1 = Some (p, msg2, k1, k_send srv)" "n_send srv = 0" "length msg2 = 48"
    and io: "carries polls c (resp @ [TS2021_MSG_RESPONSE, 0, 48] @ msg2 @ wire_of srv recs @ behind)" "good_101 resp" "c_hs_idle c = 0" "idle_budget polls c \<noteq> 0"
      "c_wp c = PutSome n1 # PutSome n2 # ws" "4096 \<le> n1" "100 \<le> n2"
    and recs: "\<forall>x \<in> set recs. length x + 16 \<le> TS2021_MAX_MESSAGE" "length (concat recs) + length recs + 1 < fuel" "early_stream json h2 (concat recs)"
  shows "\<exists>k s1 c1. handshake x25519 rnd host fuel polls ts now i_priv (curve25519_derive_pub x25519 i_priv) (curve25519_derive_pub x25519 r_priv) pre_cache_zero c = (TsOk (), s1, c1) \<and>
    c_connected c1 \<and> c_win c1 @ concat (drop k recs) = h2"
proof -
  define ip rp where "ip = curve25519_derive_pub x25519 i_priv" and "rp = curve25519_derive_pub x25519 r_priv"
  obtain st2 where a: "rc0 = ESP_OK" "rc1 = ESP_OK" "length msg1 = 96" "noise_ik_read_msg2 x25519 True st1 msg2 = (ESP_OK, (), st2)" "k_recv st2 = k_send srv"
    using ik_agreement [OF laws lens(1-4) i w, of True] srv(1) by auto
  have dh: "curve25519_dh x25519 i_priv rp = Some (x25519 i_priv rp)" using x25519_lawsD(3) [OF laws lens(1,2)] by (simp add: rp_def)
  have ip: "length ip = 32" "length rp = 32" using x25519_lawsD(1) [OF laws lens(1)] lens(1,2) by (simp_all add: ip_def rp_def)
  define s2 where "s2 = pre_for ip rp pre_cache_zero"
  have s2: "pc_pre s2 = pre_zero" by (simp add: s2_def pre_for_def pre_cache_zero_def)
  define pre where "pre = pre_zero\<lparr>pre_ss := x25519 i_priv rp, have_ss := True\<rparr>"
  have p: "noise_ik_precompute x25519 rnd (pc_pre s2) i_priv rp False = (ESP_OK, pre)" using dh by (simp add: s2 noise_ik_precompute_def pre_zero_def pre_def)
  have s0: "nk_s_priv st0 = i_priv" "nk_rs st0 = rp"
    using i noise_init_eq [OF lens(1) ip] a(1) by (auto simp: ip_def rp_def)
  have m: "noise_ik_write_msg1_pre x25519 True rnd st0 (Some pre) = (ESP_OK, msg1, st1)"
    using noise_precompute_transparent [OF p, of st0 True rnd] w a(2) s0 by (simp add: s2 pre_zero_def)
  have b: "b64_encode (init_frame msg1) 137 = Some (b64_text (init_frame msg1))" "length (b64_text (init_frame msg1)) = 136"
    using a(3) by (simp_all add: b64_encode_def b64_length init_frame_length)
  define req where "req = upgrade_request host (b64_text (init_frame msg1))"
  have req: "length req < 4096" "req \<noteq> []" using b(2) lens(5) request_length [of host "b64_text (init_frame msg1)"] by (auto simp: req_def)
  define c2 where "c2 = c\<lparr>c_noise := st1, c_sent := c_sent c @ req, c_wp := PutSome n2 # ws\<rparr>"
  have budget: "idle_budget polls c2 = idle_budget polls c" by (simp add: c2_def idle_budget_def)
  have wr: "tls_write_full polls (c\<lparr>c_noise := st1\<rparr>) req = (TsOk (), c2)"
    using write_whole [of "c\<lparr>c_noise := st1\<rparr>" n1 "PutSome n2 # ws" req polls] io(5,6) req by (simp add: c2_def)
  have "carries polls c2 (resp @ [TS2021_MSG_RESPONSE, 0, 48] @ msg2 @ wire_of srv recs @ behind)" "idle_budget polls c2 \<noteq> 0"
    using io(1,4) budget by (simp_all add: c2_def carries_def)
  then obtain r where r: "read_upgrade_response_ts polls c2 = (TsOk (), c2\<lparr>c_in := r\<rparr>)" "carries polls (c2\<lparr>c_in := r\<rparr>) ([TS2021_MSG_RESPONSE, 0, 48] @ msg2 @ wire_of srv recs @ behind)"
    using read_101 [OF _ io(2), of polls c2] by blast
  obtain k c1 where f: "finish_handshake x25519 fuel polls ts now (c2\<lparr>c_in := r\<rparr>) = (TsOk (), c1)" "c_connected c1" "c_win c1 @ concat (drop k recs) = h2"
    using finish_completes [OF r(2) srv(3) _ _ a(5) srv(2) recs, of x25519 n2 ws ts now] io(3,7) a(4) by (auto simp: c2_def)
  have "handshake x25519 rnd host fuel polls ts now i_priv ip rp pre_cache_zero c = (TsOk (), s2\<lparr>pc_pre := drop_ephemeral pre\<rparr>, c1)"
    unfolding handshake_def ip_def [symmetric] rp_def [symmetric] Let_def s2_def [symmetric]
      i [folded ip_def rp_def] prod.case p m a(1) b(1) option.case req_def [symmetric] wr r(1) f(1) ts_end.case
    using req(1) by (simp add: TS2021_MAX_MESSAGE_def)
  then show ?thesis using f(2,3) unfolding ip_def rp_def by blast
qed

section \<open>What a success has read\<close>

text \<open>Each read that succeeds accounts for the bytes it took off the transport.\<close>

lemma read_full_took:
  assumes "tls_read_full polls c n = (TsOk b, c1)"
  shows "length b = n \<and> poll_data (c_in c) = b @ poll_data (c_in c1)"
  using assms read_loop_data [of n "idle_budget polls c" 0 "[]" "c_in c" b]
  by (auto simp: tls_read_full_def tls_io_read_full_def split: io_read.splits)

lemma record_took:
  assumes "read_record_frame polls c n = (TsOk (t, p), c1)"
  shows "\<exists>h1 h2. poll_data (c_in c) = t # h1 # h2 # p @ poll_data (c_in c1) \<and> length p = unat h1 * 256 + unat h2 \<and> length p \<le> n"
proof -
  obtain hdr c2 where h: "tls_read_full polls c TS2021_HEADER_LEN = (TsOk hdr, c2)" using assms by (auto simp: read_record_frame_def split: prod.splits ts_end.splits)
  note hd = read_full_took [OF h]
  then obtain a b d where e: "hdr = [a, b, d]" by (auto simp: TS2021_HEADER_LEN_def numeral_3_eq_3 length_Suc_conv)
  define len where "len = unat b * 256 + unat d"
  have l: "unat (hdr ! 1) * 256 + unat (hdr ! 2) = len" by (simp add: e len_def)
  note unf = assms [unfolded read_record_frame_def h prod.case ts_end.case Let_def l]
  have "len \<le> n" using unf by (auto split: if_splits)
  moreover have "t = a" "length p = len" "poll_data (c_in c2) = p @ poll_data (c_in c1)"
    using unf read_full_took [of polls c2 len] by (auto simp: e split: if_splits prod.splits ts_end.splits)
  ultimately show ?thesis using hd e by (intro exI [of _ b] exI [of _ d]) (auto simp: len_def)
qed

lemma recv_took:
  assumes "recv_record polls c = (TsOk m, c1)" "k_send srv = k_recv (c_noise c)" "n_send srv = n_recv (c_noise c)"
  shows "poll_data (c_in c) = record_bytes (ts_sealed srv m) @ poll_data (c_in c1) \<and> n_recv (c_noise c1) = n_recv (c_noise c) + 1"
proof -
  obtain t ct c2 where f: "read_record_frame polls (c\<lparr>c_win := []\<rparr>) TS2021_MAX_MESSAGE = (TsOk (t, ct), c2)"
    using assms(1) by (auto simp: recv_record_def Let_def split: prod.splits ts_end.splits)
  have n: "c_noise c2 = c_noise c" using record_frame [OF f] by simp
  obtain rc m2 st where d: "noise_ik_decrypt True (c_noise c) TS2021_MAX_MESSAGE ct = (rc, m2, st)" by (metis prod_cases3)
  note unf = assms(1) [unfolded recv_record_def Let_def f prod.case ts_end.case n d]
  have g: "t = TS2021_MSG_RECORD" "rc = ESP_OK" "m2 = m" "c1 = c2\<lparr>c_noise := st, c_win := m\<rparr>" using unf by (auto split: if_splits)
  have "chacha20poly1305_decrypt True ct [] (k_recv (c_noise c)) (noise_nonce (n_recv (c_noise c))) = Some m" "st = (c_noise c)\<lparr>n_recv := n_recv (c_noise c) + 1\<rparr>"
    using d g(2,3) by (auto simp: noise_ik_decrypt_def split: if_splits option.splits)
  then have ct: "ct = ts_sealed srv m" "n_recv st = n_recv (c_noise c) + 1" unfolding decrypt_iff by (simp_all add: assms(2,3))
  obtain h1 h2 where h: "poll_data (c_in c) = t # h1 # h2 # ct @ poll_data (c_in c2)" "length ct = unat h1 * 256 + unat h2" using record_took [OF f] by auto
  have "unat h2 < 256" using unsigned_less [of h2] by simp
  then have "of_nat (length ct div 256) = h1" "of_nat (length ct mod 256) = h2" using h(2) by simp_all
  then show ?thesis using h(1) g(1,4) ct by (simp add: record_bytes_def)
qed

lemma delivers_took:
  assumes "delivers polls c ms c1" "k_send srv = k_recv (c_noise c)" "n_send srv = n_recv (c_noise c)"
  shows "poll_data (c_in c) = wire_of srv ms @ poll_data (c_in c1)"
  using assms
proof (induction ms arbitrary: c srv)
  case Nil
  then show ?case by (simp add: delivers_def)
next
  case (Cons m ms)
  obtain c2 where c2: "recv_record polls c = (TsOk m, c2)" "delivers polls c2 ms c1" using delivers_Cons [OF Cons.prems(1)] by blast
  have "k_recv (c_noise c2) = k_recv (c_noise c)" using recv_frame [OF c2(1)] by (simp add: same_tx_def)
  then show ?case using recv_took [OF c2(1) Cons.prems(2,3)] Cons.IH [OF c2(2), of "srv\<lparr>n_send := n_send srv + 1\<rparr>"] Cons.prems(2,3) by simp
qed

text \<open>The bytes a header loop has seen, on top of those it was given.\<close>

lemma head_took:
  assumes "head_loop polls f hdr rest c = (e, c1)" "length hdr \<le> 9" "take 5 hdr = take (length hdr) TS2021_EARLY_PAYLOAD_MAGIC"
  shows "(\<forall>F rest1. e = HeadDone F rest1 \<longrightarrow> (\<exists>ms. delivers polls c ms c1 \<and> F @ rest1 = hdr @ rest @ concat ms \<and> length F = 9 \<and> take 5 F = TS2021_EARLY_PAYLOAD_MAGIC)) \<and>
    (\<forall>win. e = HeadHttp2 win \<longrightarrow> (\<exists>ms k. delivers polls c ms c1 \<and> win = hdr @ rest @ concat ms \<and> k < 5 \<and> k < length win \<and>
       take k win = take k TS2021_EARLY_PAYLOAD_MAGIC \<and> win ! k \<noteq> TS2021_EARLY_PAYLOAD_MAGIC ! k))"
  using assms
proof (induction polls f hdr rest c rule: head_loop.induct)
  case (2 polls f hdr rest c)
  have nil: "delivers polls c [] c" by (simp add: delivers_def)
  show ?case
  proof (cases "length hdr \<ge> TS2021_EARLY_PAYLOAD_HDR_LEN")
    case True
    then have "e = HeadDone hdr rest" "c1 = c" "length hdr = 9" using "2.prems"(1,2) by (simp_all add: TS2021_EARLY_PAYLOAD_HDR_LEN_def)
    then show ?thesis using nil "2.prems"(3) by (auto simp: magic_length intro!: exI [of _ "[]"])
  next
    case lt: False
    show ?thesis
    proof (cases rest)
      case Nil
      show ?thesis
      proof (cases "recv_record polls c")
        case (Pair res c2)
        show ?thesis
        proof (cases res)
          case (TsOk m)
          have "head_loop polls f hdr m c2 = (e, c1)" using "2.prems"(1) lt Nil Pair TsOk by simp
          note ih = "2.IH"(1) [OF lt Nil Pair [symmetric] TsOk this "2.prems"(2,3)]
          have d: "delivers polls c2 ms c1 \<Longrightarrow> delivers polls c (m # ms) c1" for ms using delivers_ConsI Pair TsOk by blast
          show ?thesis
          proof (intro conjI allI impI)
            fix F rest1 assume "e = HeadDone F rest1"
            then obtain ms where "delivers polls c2 ms c1" "F @ rest1 = hdr @ m @ concat ms" "length F = 9" "take 5 F = TS2021_EARLY_PAYLOAD_MAGIC" using ih by blast
            then show "\<exists>ms. delivers polls c ms c1 \<and> F @ rest1 = hdr @ rest @ concat ms \<and> length F = 9 \<and> take 5 F = TS2021_EARLY_PAYLOAD_MAGIC"
              using d Nil by (intro exI [of _ "m # ms"]) simp
          next
            fix win assume "e = HeadHttp2 win"
            then obtain ms k where "delivers polls c2 ms c1" "win = hdr @ m @ concat ms" "k < 5" "k < length win" "take k win = take k TS2021_EARLY_PAYLOAD_MAGIC"
              "win ! k \<noteq> TS2021_EARLY_PAYLOAD_MAGIC ! k" using ih by blast
            then show "\<exists>ms k. delivers polls c ms c1 \<and> win = hdr @ rest @ concat ms \<and> k < 5 \<and> k < length win \<and>
               take k win = take k TS2021_EARLY_PAYLOAD_MAGIC \<and> win ! k \<noteq> TS2021_EARLY_PAYLOAD_MAGIC ! k" using d Nil by (intro exI [of _ "m # ms"] exI [of _ k]) simp
          qed
        qed (use "2.prems"(1) lt Nil Pair in auto)
      qed
    next
      case (Cons b bs)
      show ?thesis
      proof (cases "not_magic hdr b")
        case True
        then have k: "length hdr < 5" "b \<noteq> TS2021_EARLY_PAYLOAD_MAGIC ! length hdr" by (simp_all add: not_magic_def TS2021_EARLY_PAYLOAD_MAGIC_LEN_def)
        then have h: "take (length hdr) TS2021_EARLY_PAYLOAD_MAGIC = hdr" using "2.prems"(3) by simp
        have "e = HeadHttp2 (hdr @ b # bs)" "c1 = c" using "2.prems"(1) lt Cons True h by (simp_all add: keep_http2_start_def)
        then show ?thesis using nil k h Cons by (auto intro!: exI [of _ "[]"] exI [of _ "length hdr"])
      next
        case False
        have g: "head_loop polls f (hdr @ [b]) bs c = (e, c1)" using "2.prems"(1) lt Cons False by simp
        have l: "length (hdr @ [b]) \<le> 9" using lt by (simp add: TS2021_EARLY_PAYLOAD_HDR_LEN_def)
        have "take 5 (hdr @ [b]) = take (length (hdr @ [b])) TS2021_EARLY_PAYLOAD_MAGIC"
        proof (cases "length hdr < 5")
          case True
          then have "b = TS2021_EARLY_PAYLOAD_MAGIC ! length hdr" using False by (simp add: not_magic_def TS2021_EARLY_PAYLOAD_MAGIC_LEN_def)
          then show ?thesis using True "2.prems"(3) by (simp add: take_Suc_conv_app_nth magic_length)
        qed (use "2.prems"(3) in \<open>simp add: magic_length\<close>)
        from "2.IH"(2) [OF lt Cons False g l this] show ?thesis using Cons by simp
      qed
    qed
  qed
qed simp

lemma skip_took:
  assumes "skip_loop polls f n rest c = (TsOk win, c1)"
  shows "\<exists>ms. delivers polls c ms c1 \<and> n \<le> length (rest @ concat ms) \<and> win = drop n (rest @ concat ms)"
  using assms
proof (induction polls f n rest c rule: skip_loop.induct)
  case (2 polls f n rest c)
  have nil: "delivers polls c [] c" by (simp add: delivers_def)
  consider (none) "n = 0" | (refill) "n \<noteq> 0" "rest = []" | (all) "n \<noteq> 0" "rest \<noteq> []" "length rest \<le> n" | (part) "n \<noteq> 0" "rest \<noteq> []" "\<not> length rest \<le> n" by blast
  then show ?case
  proof cases
    case none
    then show ?thesis using 2 nil by (intro exI [of _ "[]"]) auto
  next
    case refill
    then obtain m c2 where m: "recv_record polls c = (TsOk m, c2)" "skip_loop polls f n m c2 = (TsOk win, c1)" using "2.prems" by (auto split: prod.splits ts_end.splits)
    obtain ms where "delivers polls c2 ms c1" "n \<le> length (m @ concat ms)" "win = drop n (m @ concat ms)" using "2.IH"(1) [OF refill m(1) [symmetric] refl m(2)] by blast
    then show ?thesis using delivers_ConsI [OF m(1)] refill by (intro exI [of _ "m # ms"]) simp
  next
    case all
    then have "skip_loop polls f (n - length rest) [] c = (TsOk win, c1)" using "2.prems" by simp
    then obtain ms where "delivers polls c ms c1" "n - length rest \<le> length (concat ms)" "win = drop (n - length rest) (concat ms)" using "2.IH"(2) [OF all] by auto
    then show ?thesis using all by (intro exI [of _ ms]) auto
  next
    case part
    then have "skip_loop polls f 0 (drop n rest) c = (TsOk win, c1)" using "2.prems" by simp
    then have "win = drop n rest" "c1 = c" by (cases f; simp)+
    then show ?thesis using nil part by (intro exI [of _ "[]"]) auto
  qed
qed simp

lemma early_took:
  assumes "consume_early_payload fuel polls c = (TsOk (), c1)"
  shows "\<exists>ms json c2. delivers polls c ms c2 \<and> c_in c1 = c_in c2 \<and> early_stream json (c_win c1) (concat ms)"
proof -
  obtain e c2 where h: "head_loop polls fuel [] [] c = (e, c2)" by fastforce
  note took = head_took [OF h, simplified]
  show ?thesis
  proof (cases e)
    case (HeadHttp2 win)
    then have "c1 = c2\<lparr>c_win := win\<rparr>" using assms h by (simp add: consume_early_payload_def)
    moreover obtain ms k where "delivers polls c ms c2" "win = concat ms" "k < 5" "k < length win" "take k win = take k TS2021_EARLY_PAYLOAD_MAGIC"
      "win ! k \<noteq> TS2021_EARLY_PAYLOAD_MAGIC ! k" using took HeadHttp2 by blast
    moreover from this have "early_stream [] win (concat ms)" unfolding early_stream_def by blast
    ultimately show ?thesis by (intro exI [of _ ms] exI [of _ "[]"] exI [of _ c2]) simp
  next
    case (HeadDone F rest)
    then obtain ms where ms: "delivers polls c ms c2" "F @ rest = concat ms" "length F = 9" "take 5 F = TS2021_EARLY_PAYLOAD_MAGIC" using took by blast
    define n where "n = unat (be_word (drop 5 F) :: u32)"
    have F: "F = TS2021_EARLY_PAYLOAD_MAGIC @ be_bytes 4 (of_nat n :: u32)"
      using be_bytes_be_word [of "drop 5 F", where 'a = 32] ms(3) append_take_drop_id [of 5 F] by (simp add: n_def ms(4))
    note unf = assms [unfolded consume_early_payload_def h HeadDone prod.case early_head.case Let_def, folded n_def]
    obtain win c3 where w: "skip_loop polls fuel n rest c2 = (TsOk win, c3)" "c1 = c3\<lparr>c_win := win\<rparr>" "n \<le> 64 * 1024"
      using unf by (auto split: if_splits prod.splits ts_end.splits)
    obtain ms2 where m2: "delivers polls c2 ms2 c3" "n \<le> length (rest @ concat ms2)" "win = drop n (rest @ concat ms2)" using skip_took [OF w(1)] by blast
    define json where "json = take n (rest @ concat ms2)"
    have j: "length json = n" using m2(2) by (simp add: json_def)
    have jw: "json @ win = rest @ concat ms2" unfolding json_def m2(3) by (rule append_take_drop_id)
    have "concat (ms @ ms2) = TS2021_EARLY_PAYLOAD_MAGIC @ be_bytes 4 (of_nat (length json) :: u32) @ json @ win" using F j jw ms(2) [symmetric] by simp
    then have "early_stream json win (concat (ms @ ms2))" using w(3) j by (simp add: early_stream_def)
    then show ?thesis using delivers_append [OF ms(1) m2(1)] w(2) by (intro exI [of _ "ms @ ms2"] exI [of _ json] exI [of _ c3]) simp
  qed (use assms h in \<open>simp_all add: consume_early_payload_def\<close>)
qed

text \<open>Sending leaves what is to be read, and the window, alone.\<close>

lemma write_keeps_in: "tls_write_full polls c b = (r, c1) \<Longrightarrow> c_in c1 = c_in c \<and> c_win c1 = c_win c"
  by (auto simp: tls_write_full_def note_req_expired_def Let_def split: prod.splits option.splits if_splits)

lemma send_keeps_in: "send_loop polls c data = (r, c1) \<Longrightarrow> c_in c1 = c_in c \<and> c_win c1 = c_win c"
proof (induction polls c data rule: send_loop.induct)
  case (1 polls c data)
  obtain r2 c2 where s: "seal_and_write polls c (take TS2021_SMALL_PLAINTEXT_MAX data) = (r2, c2)" by fastforce
  then have "c_in c2 = c_in c \<and> c_win c2 = c_win c" by (auto simp: seal_and_write_def split: prod.splits if_splits dest!: write_keeps_in)
  then show ?case using "1.prems" "1.IH" [OF s [symmetric]] s by (auto simp: send_loop.simps [of polls c data] split: if_splits)
qed

text \<open>The server's side of the records: the key the handshake gave us to receive with, from counter zero.\<close>

definition peer_side :: "noise_ik_state_t \<Rightarrow> noise_ik_state_t" where
  "peer_side st = st\<lparr>k_send := k_recv st, n_send := 0\<rparr>"

lemma finish_took:
  assumes "finish_handshake x25519 fuel polls ts now c = (TsOk (), c1)"
  shows "\<exists>msg2 st recs json. poll_data (c_in c) = [TS2021_MSG_RESPONSE, 0, 48] @ msg2 @ wire_of (peer_side st) recs @ poll_data (c_in c1) \<and> length msg2 = 48 \<and>
    noise_ik_read_msg2 x25519 True (c_noise c) msg2 = (ESP_OK, (), st) \<and> early_stream json (c_win c1) (concat recs) \<and>
    c_connected c1 \<and> c_sent c1 = c_sent c @ wire_of st [H2_START]"
proof -
  obtain type msg2 c2 where f: "read_record_frame polls c 48 = (TsOk (type, msg2), c2)"
    using assms by (auto simp: finish_handshake_def split: prod.splits ts_end.splits)
  obtain rc u st where n: "noise_ik_read_msg2 x25519 True (c_noise c2) msg2 = (rc, u, st)" by (metis prod_cases3)
  define c3 where "c3 = c2\<lparr>c_noise := st\<rparr>"
  obtain ok c4 where h: "(if c_hs_idle c3 \<noteq> 0 then hs_to_stream ts (c3\<lparr>c_up_us := now\<rparr>) else (True, c3\<lparr>c_up_us := now\<rparr>)) = (ok, c4)" by fastforce
  note unf = assms [unfolded finish_handshake_def f prod.case ts_end.case n Let_def c3_def [symmetric] h]
  have g: "length msg2 = 48" "rc = ESP_OK" "ok" "type = TS2021_MSG_RESPONSE" using unf by (auto split: if_splits)
  obtain c5 where e: "consume_early_payload fuel polls c4 = (TsOk (), c5)" "h2_session_init polls (c5\<lparr>c_connected := True\<rparr>) = (TsOk (), c1)"
    using unf by (auto split: if_splits prod.splits ts_end.splits)
  have c4: "c_noise c4 = st" "c_sent c4 = c_sent c2" "c_in c4 = c_in c2" using h g(3) by (auto simp: hs_to_stream_def c3_def split: if_splits)
  have st: "transport_ready st" "n_send st = 0" "n_recv st = 0" using msg2_keys n g(2) by auto
  obtain h1 h2 where m: "poll_data (c_in c) = type # h1 # h2 # msg2 @ poll_data (c_in c2)" "48 = unat h1 * 256 + unat h2" using record_took [OF f] g(1) by auto
  have "unat h1 = 0" "unat h2 = 48" using m(2) by presburger+
  then have hh: "h1 = 0" "h2 = 48" by (simp_all add: word_unat_eq_iff)
  obtain recs json c6 where d: "delivers polls c4 recs c6" "c_in c5 = c_in c6" "early_stream json (c_win c5) (concat recs)" using early_took [OF e(1)] by blast
  have "poll_data (c_in c4) = wire_of (peer_side st) recs @ poll_data (c_in c6)" by (rule delivers_took [OF d(1)]) (simp_all add: peer_side_def c4(1) st(3))
  then have wire: "poll_data (c_in c) = [TS2021_MSG_RESPONSE, 0, 48] @ msg2 @ wire_of (peer_side st) recs @ poll_data (c_in c5)" using m(1) hh c4(3) d(2) g(4) by simp
  have c5: "same_tx c4 c5" by (rule early_frame [OF e(1)])
  have s: "ts2021_send polls (c5\<lparr>c_connected := True, c_goaway := False\<rparr>) H2_START = (TsOk (), c1)" using e(2) by (simp add: h2_session_init_def)
  have keep: "c_in c1 = c_in c5" "c_win c1 = c_win c5" "c_connected c1" using s send_keeps_in send_connected by (fastforce simp: ts2021_send_def)+
  have "c_sent c1 = c_sent c5 @ wire_of (c_noise c5) [H2_START]" using send_frame [OF s] c5 c4(1) st(1) by (simp add: same_tx_def)
  moreover have "wire_of (c_noise c5) [H2_START] = wire_of st [H2_START]" "c_sent c5 = c_sent c2" using c5 c4 by (simp_all add: same_tx_def)
  moreover have "c_noise c2 = c_noise c" "c_sent c2 = c_sent c" using record_frame [OF f] by (simp_all add: same_tx_def)
  ultimately show ?thesis using g(1,2) n wire d(3) keep by (intro exI [of _ msg2] exI [of _ st] exI [of _ recs] exI [of _ json]) simp
qed

lemma upgrade_took:
  "ts_upgrade_loop room budget idle got ps = (TsOk g, r) \<Longrightarrow> length g < room \<Longrightarrow>
   \<exists>xs. g = got @ xs \<and> poll_data ps = xs @ poll_data r \<and> ends_blank g \<and> (\<forall>k. length got < k \<and> k < length g \<longrightarrow> \<not> ends_blank (take k g))"
proof (induction room budget idle got ps rule: ts_upgrade_loop.induct)
  case (1 room budget idle got ps)
  note step = ts_upgrade_loop.simps [of room budget idle got ps, folded ends_blank_def]
  have lt: "\<not> room \<le> length got" using "1.prems" step by (auto split: if_splits)
  show ?case
  proof (cases ps)
    case Nil
    then show ?thesis using "1.prems"(1) step lt by simp
  next
    case (Cons p qs)
    show ?thesis
    proof (cases p)
      case PollWant
      then have nb: "\<not> budget \<le> idle + 1" "ts_upgrade_loop room budget (idle + 1) got qs = (TsOk g, r)" using "1.prems"(1) step lt Cons by (auto split: if_splits)
      show ?thesis using "1.IH"(2) [OF lt Cons PollWant nb "1.prems"(2)] Cons PollWant by simp
    next
      case (PollErr e)
      then show ?thesis using "1.prems"(1) step lt Cons by simp
    next
      case (PollData dd)
      then obtain b d where dd: "dd = b # d" using "1.prems"(1) step lt Cons by (cases dd) auto
      define rest where "rest = (if d = [] then qs else PollData d # qs)"
      have pd: "poll_data ps = b # poll_data rest" using Cons PollData dd by (auto simp: rest_def)
      have st: "ts_upgrade_loop room budget idle got ps = (if ends_blank (got @ [b]) then (TsOk (got @ [b]), rest) else ts_upgrade_loop room budget 0 (got @ [b]) rest)"
        using step lt Cons PollData dd by (simp add: rest_def Let_def ends_blank_def)
      show ?thesis
      proof (cases "ends_blank (got @ [b])")
        case True
        then have "g = got @ [b]" "r = rest" using st "1.prems"(1) by simp_all
        then show ?thesis using True pd by (intro exI [of _ "[b]"]) auto
      next
        case False
        then have n2: "\<not> (length (got @ [b]) \<ge> 4 \<and> drop (length (got @ [b]) - 4) (got @ [b]) = CRLF @ CRLF)" unfolding ends_blank_def .
        have "ts_upgrade_loop room budget 0 (got @ [b]) rest = (TsOk g, r)" using st False "1.prems"(1) by simp
        from "1.IH"(1) [OF lt Cons PollData dd refl rest_def n2 this "1.prems"(2)] obtain xs where
          x: "g = (got @ [b]) @ xs" "poll_data rest = xs @ poll_data r" "ends_blank g" "\<forall>k. length (got @ [b]) < k \<and> k < length g \<longrightarrow> \<not> ends_blank (take k g)" by blast
        have "\<not> ends_blank (take k g)" if "length got < k" "k < length g" for k
          using x(4) that False by (cases "k = length (got @ [b])") (auto simp: x(1))
        then show ?thesis using x(1-3) pd by (intro exI [of _ "b # xs"]) auto
      qed
    qed
  qed
qed

lemma read_101_took:
  assumes "read_upgrade_response_ts polls c = (TsOk (), c1)"
  shows "\<exists>resp. good_101 resp \<and> poll_data (c_in c) = resp @ poll_data (c_in c1)"
proof -
  obtain got r where l: "ts_upgrade_loop (TS2021_MAX_MESSAGE - 1) (idle_budget polls c) 0 [] (c_in c) = (TsOk got, r)"
    using assms by (auto simp: read_upgrade_response_ts_def split: prod.splits ts_end.splits)
  have g: "length got < TS2021_MAX_MESSAGE - 1" "take 13 got = ascii ''HTTP/1.1 101 '' \<or> take 13 got = ascii ''HTTP/1.0 101 ''" "c1 = c\<lparr>c_in := r\<rparr>"
    using assms unfolding read_upgrade_response_ts_def l by (auto split: if_splits)
  from upgrade_took [OF l g(1)] have u: "poll_data (c_in c) = got @ poll_data r" "ends_blank got" "\<forall>k. 0 < k \<and> k < length got \<longrightarrow> \<not> ends_blank (take k got)" by auto
  have "\<not> ends_blank (take k got)" if "k < length got" for k using u(3) that by (cases "k = 0") (auto simp: ends_blank_def)
  then show ?thesis using g u(1,2) by (intro exI [of _ got]) (simp add: good_101_def)
qed

section \<open>The property of the handshake\<close>

text \<open>C11: The control connection is up only with the pinned server.  When the handshake reports success, the bytes it took off the transport are, one
  after the other and with nothing between: a response that starts with a 101 status and ends at its first blank line; a response frame with
  the 48 bytes of a second Noise message, which the state that our first message left accepts, initialised with the pinned key; and
  records sealed, from counter zero on, with the key this message gives us to receive with, whose plaintexts are the early payload and
  the HTTP/2 bytes now in the window (or those bytes alone).  What is still on the transport was not touched.  The bytes written are exactly the upgrade
  request carrying that first message and one record with the HTTP/2 start.  The precomputed ephemeral key is gone, so no second
  handshake uses it.\<close>

theorem handshake_authenticated:
  assumes "handshake x25519 rnd host fuel polls timeouts_set now machine_priv machine_pub control_pub s c = (TsOk (), s1, c1)"
  shows "\<exists>st0 pre msg1 st1 resp msg2 st2 recs json.
    noise_ik_init machine_priv machine_pub control_pub TS2021_PROTOCOL_NAME (TS2021_PROLOGUE_PREFIX @ udec TINYLINK_CAPVER) = (ESP_OK, st0) \<and>
    noise_ik_precompute x25519 rnd (pc_pre (pre_for machine_pub control_pub s)) machine_priv control_pub False = (ESP_OK, pre) \<and>
    noise_ik_write_msg1_pre x25519 True rnd st0 (Some pre) = (ESP_OK, msg1, st1) \<and>
    poll_data (c_in c) = resp @ [TS2021_MSG_RESPONSE, 0, 48] @ msg2 @ wire_of (peer_side st2) recs @ poll_data (c_in c1) \<and>
    good_101 resp \<and> length msg2 = 48 \<and> noise_ik_read_msg2 x25519 True st1 msg2 = (ESP_OK, (), st2) \<and> early_stream json (c_win c1) (concat recs) \<and>
    c_connected c1 \<and> c_sent c1 = c_sent c @ upgrade_request host (b64_text (init_frame msg1)) @ wire_of st2 [H2_START] \<and>
    \<not> have_e (pc_pre s1)"
proof -
  obtain rc st0 where i: "noise_ik_init machine_priv machine_pub control_pub TS2021_PROTOCOL_NAME (TS2021_PROLOGUE_PREFIX @ udec TINYLINK_CAPVER) = (rc, st0)" by fastforce
  define s2 where "s2 = pre_for machine_pub control_pub s"
  obtain rc2 pre where p: "noise_ik_precompute x25519 rnd (pc_pre s2) machine_priv control_pub False = (rc2, pre)" by fastforce
  obtain rc3 msg1 st1 where w: "noise_ik_write_msg1_pre x25519 True rnd st0 (Some pre) = (rc3, msg1, st1)" by (metis prod_cases3)
  note unf = assms [unfolded handshake_def i prod.case Let_def s2_def [symmetric] p w]
  have ok: "rc = ESP_OK" "rc2 = ESP_OK" "rc3 = ESP_OK" using unf by (auto split: if_splits)
  obtain t where t: "b64_encode (init_frame msg1) 137 = Some t" using unf ok by (auto split: if_splits option.splits)
  then have tt: "t = b64_text (init_frame msg1)" by (simp add: b64_encode_def split: if_splits)
  obtain c2 where c2: "tls_write_full polls (c\<lparr>c_noise := st1\<rparr>) (upgrade_request host t) = (TsOk (), c2)"
    using unf ok t by (auto split: if_splits prod.splits ts_end.splits)
  obtain c3 where c3: "read_upgrade_response_ts polls c2 = (TsOk (), c3)" using unf ok t c2 by (auto split: if_splits prod.splits ts_end.splits)
  have f: "finish_handshake x25519 fuel polls timeouts_set now c3 = (TsOk (), c1)" and s1: "s1 = s2\<lparr>pc_pre := drop_ephemeral pre\<rparr>"
    using unf ok t c2 c3 by (auto split: if_splits prod.splits)
  have "c_sent c2 = c_sent c @ upgrade_request host t" "c_noise c2 = st1" "c_in c2 = c_in c" using write_ok [OF c2] write_keeps_in [OF c2] by simp_all
  then have n: "c_noise c3 = st1" "c_sent c3 = c_sent c @ upgrade_request host (b64_text (init_frame msg1))" "c_in c2 = c_in c" using upgrade_frame [OF c3] tt by simp_all
  have e: "\<not> have_e (pc_pre s1)" by (simp add: s1 drop_ephemeral_def)
  obtain resp where resp: "good_101 resp" "poll_data (c_in c) = resp @ poll_data (c_in c3)" using read_101_took [OF c3] n(3) by auto
  from finish_took [OF f] obtain msg2 st2 recs json where
    "poll_data (c_in c3) = [TS2021_MSG_RESPONSE, 0, 48] @ msg2 @ wire_of (peer_side st2) recs @ poll_data (c_in c1)" "length msg2 = 48"
    "noise_ik_read_msg2 x25519 True st1 msg2 = (ESP_OK, (), st2)" "early_stream json (c_win c1) (concat recs)"
    "c_connected c1" "c_sent c1 = c_sent c3 @ wire_of st2 [H2_START]" unfolding n(1) by blast
  then show ?thesis using i p [unfolded s2_def] w ok e n(2) resp
    by (intro exI [of _ st0] exI [of _ pre] exI [of _ msg1] exI [of _ st1] exI [of _ resp] exI [of _ msg2] exI [of _ st2] exI [of _ recs] exI [of _ json]) simp
qed

text \<open>An honest server on a calm transport, the 101 and the second message in one read.\<close>

theorem handshake_authenticated_witness:
  "\<exists>c s1 c1 resp msg2 st recs json. handshake toy_x25519 (replicate 32 5) (ascii ''control'') 100 4 True 0 (replicate 32 1) (curve25519_derive_pub toy_x25519 (replicate 32 1))
      (curve25519_derive_pub toy_x25519 (replicate 32 2)) pre_cache_zero c = (TsOk (), s1, c1) \<and> c_connected c1 \<and> \<not> have_e (pc_pre s1) \<and>
    poll_data (c_in c) = resp @ [TS2021_MSG_RESPONSE, 0, 48] @ msg2 @ wire_of (peer_side st) recs @ poll_data (c_in c1) \<and> good_101 resp \<and>
    early_stream json (c_win c1) (concat recs)"
proof -
  let ?D = "curve25519_derive_pub toy_x25519" and ?P = "TS2021_PROLOGUE_PREFIX @ udec TINYLINK_CAPVER"
  obtain rc0 st0 where i: "noise_ik_init (replicate 32 1) (?D (replicate 32 1)) (?D (replicate 32 2)) TS2021_PROTOCOL_NAME ?P = (rc0, st0)" by fastforce
  obtain rc1 msg1 st1 where w: "noise_ik_write_msg1 toy_x25519 True (replicate 32 5) st0 = (rc1, msg1, st1)" by (metis prod_cases3)
  obtain msg2 k1 k2 where r: "noise_responder toy_x25519 (replicate 32 2) (?D (replicate 32 2)) (replicate 32 3) (?D (replicate 32 3)) TS2021_PROTOCOL_NAME ?P msg1
      = Some (?D (replicate 32 1), msg2, k1, k2)"
    using ik_agreement [OF toy_laws _ _ _ _ i w, of "replicate 32 3" True] by auto
  have l: "length msg2 = 48" using responder_length [OF r] x25519_lawsD(1) [OF toy_laws, of "replicate 32 3" "replicate 32 3"] by simp
  define srv where "srv = demo_noise\<lparr>k_send := k2\<rparr>"
  define resp where "resp = ascii ''HTTP/1.1 101 '' @ CRLF @ CRLF"
  define c where "c = (demo_conn [PollData (resp @ [TS2021_MSG_RESPONSE, 0, 48] @ msg2), PollWant, PollData (wire_of srv [[0, 0, 9]])])\<lparr>c_wp := [PutSome 5000, PutSome 5000]\<rparr>"
  have resp: "good_101 resp"
    unfolding resp_def good_101_def ends_blank_def by code_simp
  have e: "early_stream [] [0, 0, 9] (concat [[0, 0, 9]])"
    unfolding early_stream_def by (intro disjI2 conjI exI [of _ 0]) (simp_all add: TS2021_EARLY_PAYLOAD_MAGIC_def)
  have io: "carries 4 c (resp @ [TS2021_MSG_RESPONSE, 0, 48] @ msg2 @ wire_of srv [[0, 0, 9]] @ [])" "c_hs_idle c = 0" "idle_budget 4 c \<noteq> 0" "c_wp c = [PutSome 5000, PutSome 5000]"
    by (simp_all add: carries_def c_def demo_conn_def idle_budget_def record_bytes_def)
  have srv: "n_send srv = 0" "k_send srv = k2" by (simp_all add: srv_def demo_noise_def)
  obtain s1 c1 where h: "handshake toy_x25519 (replicate 32 5) (ascii ''control'') 100 4 True 0 (replicate 32 1) (?D (replicate 32 1)) (?D (replicate 32 2)) pre_cache_zero c = (TsOk (), s1, c1)"
    using handshake_completes [OF toy_laws _ _ _ _ _ i w r [folded srv(2)] srv(1) l io(1) resp io(2-4) _ _ _ _ e, of "ascii ''control''" 100 True 0]
    by (auto simp: TS2021_MAX_MESSAGE_def ascii_def)
  from handshake_authenticated [OF h] h show ?thesis by blast
qed

end
