(* ===== verification/HPACK_Laws.thy ===== *)
theory HPACK_Laws
  imports HPACK
begin

unbundle bit_operations_syntax

text \<open>
  The decoder of \<open>hpack.c\<close> against reference definitions: feeding a header block in any pieces gives
  what feeding it whole gives, what the encoder writes is what the decoder reports, and the
  Huffman decoder inverts the canonical code of its tables.
\<close>

section \<open>Byte by byte\<close>

text \<open>The decoder as a machine that consumes one byte at a time.\<close>

definition hp_byte :: "hpack_dec_t \<Rightarrow> u8 \<Rightarrow> (hpack_field_t \<Rightarrow> 'c \<Rightarrow> bool \<times> 'c) \<Rightarrow> 'c \<Rightarrow> hpack_rc \<times> hpack_dec_t \<times> 'c" where
  "hp_byte d b fn ctx =
     (case d_st d of
        ST_FIRST \<Rightarrow> feed_first d b fn ctx
      | ST_INT \<Rightarrow> feed_int d b fn ctx
      | ST_STR_HDR \<Rightarrow> feed_str_hdr d b fn ctx
      | ST_STR \<Rightarrow> feed_str d [b] fn ctx)"

fun hp_bytes :: "hpack_dec_t \<Rightarrow> bytes \<Rightarrow> (hpack_field_t \<Rightarrow> 'c \<Rightarrow> bool \<times> 'c) \<Rightarrow> 'c \<Rightarrow> hpack_rc \<times> hpack_dec_t \<times> 'c" where
  "hp_bytes d [] fn ctx = (HPACK_OK, d, ctx)"
| "hp_bytes d (b # bs) fn ctx = (case hp_byte d b fn ctx of (HPACK_OK, d, ctx) \<Rightarrow> hp_bytes d bs fn ctx | r \<Rightarrow> r)"

text \<open>What a caller can see of a call: the code, the context, and the state unless it failed.\<close>

definition observe :: "hpack_rc \<times> hpack_dec_t \<times> 'c \<Rightarrow> hpack_rc \<times> 'c \<times> hpack_dec_t option" where
  "observe r = (case r of (rc, d, ctx) \<Rightarrow> (rc, ctx, if rc = HPACK_OK then Some d else None))"

lemma observe_eq: "observe r = observe r' \<longleftrightarrow> fst r = fst r' \<and> snd (snd r) = snd (snd r') \<and> (fst r = HPACK_OK \<longrightarrow> r = r')"
  by (cases r; cases r') (auto simp: observe_def)

definition str_inv :: "hpack_dec_t \<Rightarrow> bool" where
  "str_inv d \<longleftrightarrow> (d_st d = ST_STR \<longrightarrow> 0 < d_str_left d)"

lemma hp_bytes_append:
  "hp_bytes d (xs @ ys) fn ctx = (case hp_bytes d xs fn ctx of (HPACK_OK, d, ctx) \<Rightarrow> hp_bytes d ys fn ctx | r \<Rightarrow> r)"
  by (induction d xs fn ctx rule: hp_bytes.induct) (auto split: prod.splits hpack_rc.splits)

text \<open>String bytes leave the string state alone, and commute with the count of bytes left.\<close>

lemma put_name_frame:
  "put_name_char (d\<lparr>d_str_left := x, d_str_total := t\<rparr>) pos c = (put_name_char (d\<lparr>d_str_total := t\<rparr>) pos c)\<lparr>d_str_left := x\<rparr>"
  by (simp add: put_name_char_def Let_def)

lemma put_value_frame:
  "put_value_char (d\<lparr>d_str_left := x, d_str_total := t\<rparr>) pos c = (put_value_char (d\<lparr>d_str_total := t\<rparr>) pos c)\<lparr>d_str_left := x\<rparr>"
proof -
  define b where "b = (\<not> value_char_ok c \<or> (pos = 0 \<and> (c = 32 \<or> c = 9)))"
  show ?thesis unfolding put_value_char_def Let_def b_def [symmetric] by simp
qed

lemma put_char_frame [simp]:
  "d_st (put_char d c) = d_st d" "d_str_huff (put_char d c) = d_str_huff d" "d_str_left (put_char d c) = d_str_left d"
  "put_char (d\<lparr>d_str_left := x\<rparr>) c = (put_char d c)\<lparr>d_str_left := x\<rparr>"
proof -
  show "d_st (put_char d c) = d_st d" "d_str_huff (put_char d c) = d_str_huff d" "d_str_left (put_char d c) = d_str_left d"
    by (simp_all add: put_char_def put_name_char_def put_value_char_def Let_def)
  show "put_char (d\<lparr>d_str_left := x\<rparr>) c = (put_char d c)\<lparr>d_str_left := x\<rparr>"
    by (simp add: put_char_def Let_def put_name_frame put_value_frame)
qed

lemma huff_bit_frame:
  "huff_bit (d\<lparr>d_str_left := x\<rparr>) b = map_prod id (\<lambda>d. d\<lparr>d_str_left := x\<rparr>) (huff_bit d b)"
  "d_st (snd (huff_bit d b)) = d_st d" "d_str_huff (snd (huff_bit d b)) = d_str_huff d" "d_str_left (snd (huff_bit d b)) = d_str_left d"
proof -
  have c: "put_char (d\<lparr>d_str_left := x, d_hcode := y\<rparr>) z = (put_char (d\<lparr>d_hcode := y\<rparr>) z)\<lparr>d_str_left := x\<rparr>" for y z
  proof -
    have "d\<lparr>d_str_left := x, d_hcode := y\<rparr> = (d\<lparr>d_hcode := y\<rparr>)\<lparr>d_str_left := x\<rparr>" by simp
    then show ?thesis by (simp only: put_char_frame(4))
  qed
  show "huff_bit (d\<lparr>d_str_left := x\<rparr>) b = map_prod id (\<lambda>d. d\<lparr>d_str_left := x\<rparr>) (huff_bit d b)"
    by (simp add: huff_bit_def Let_def huff_reset_def c)
qed (simp_all add: huff_bit_def Let_def huff_reset_def)

text \<open>Being left alone, as one predicate on a run of the string decoder.\<close>

definition str_frame :: "hpack_dec_t \<Rightarrow> hpack_rc \<times> hpack_dec_t \<Rightarrow> hpack_rc \<times> hpack_dec_t \<Rightarrow> nat \<Rightarrow> bool" where
  "str_frame d r r' x \<longleftrightarrow> r' = map_prod id (\<lambda>d. d\<lparr>d_str_left := x\<rparr>) r \<and>
     d_st (snd r) = d_st d \<and> d_str_huff (snd r) = d_str_huff d \<and> d_str_left (snd r) = d_str_left d"

lemma str_frame_step:
  assumes "str_frame d r r' x" "\<And>d'. r = (HPACK_OK, d') \<Longrightarrow> str_frame d' (f d') (f (d'\<lparr>d_str_left := x\<rparr>)) x"
  shows "str_frame d (case r of (HPACK_OK, d) \<Rightarrow> f d | (rc, d) \<Rightarrow> (rc, d)) (case r' of (HPACK_OK, d) \<Rightarrow> f d | (rc, d) \<Rightarrow> (rc, d)) x"
  using assms by (cases r; cases "fst r") (simp_all add: str_frame_def)

lemma huff_bits_frame: "str_frame d (huff_bits d bs) (huff_bits (d\<lparr>d_str_left := x\<rparr>) bs) x"
proof (induction bs arbitrary: d)
  case (Cons b bs)
  have "str_frame d (huff_bit d b) (huff_bit (d\<lparr>d_str_left := x\<rparr>) b) x" by (simp add: str_frame_def huff_bit_frame)
  from str_frame_step [OF this, of "\<lambda>d. huff_bits d bs"] show ?case using Cons by simp
qed (simp add: str_frame_def)

lemma huff_run_frame: "str_frame d (huff_run d bs) (huff_run (d\<lparr>d_str_left := x\<rparr>) bs) x"
proof (induction bs arbitrary: d)
  case (Cons b bs)
  have "str_frame d (huff_byte d b) (huff_byte (d\<lparr>d_str_left := x\<rparr>) b) x" unfolding huff_byte_def by (rule huff_bits_frame)
  from str_frame_step [OF this, of "\<lambda>d. huff_run d bs"] show ?case using Cons by simp
qed (simp add: str_frame_def)

lemma put_bytes_frame: "str_frame d (HPACK_OK, put_bytes d bs) (HPACK_OK, put_bytes (d\<lparr>d_str_left := x\<rparr>) bs) x"
  unfolding put_bytes_def str_frame_def by (induction bs arbitrary: d) simp_all

definition str_run :: "hpack_dec_t \<Rightarrow> bytes \<Rightarrow> hpack_rc \<times> hpack_dec_t" where
  "str_run d bs = (if d_str_huff d then huff_run d bs else (HPACK_OK, put_bytes d bs))"

lemma str_run_frame:
  "str_run (d\<lparr>d_str_left := x\<rparr>) bs = map_prod id (\<lambda>d. d\<lparr>d_str_left := x\<rparr>) (str_run d bs)"
  "str_run d bs = (rc, d') \<Longrightarrow> d_st d' = d_st d \<and> d_str_huff d' = d_str_huff d \<and> d_str_left d' = d_str_left d"
proof -
  have "str_frame d (str_run d bs) (str_run (d\<lparr>d_str_left := x\<rparr>) bs) x" for x
    using huff_run_frame [of d bs x] put_bytes_frame [of d bs x] by (simp add: str_run_def)
  then show "str_run (d\<lparr>d_str_left := x\<rparr>) bs = map_prod id (\<lambda>d. d\<lparr>d_str_left := x\<rparr>) (str_run d bs)"
    "str_run d bs = (rc, d') \<Longrightarrow> d_st d' = d_st d \<and> d_str_huff d' = d_str_huff d \<and> d_str_left d' = d_str_left d"
    unfolding str_frame_def by (blast, metis snd_conv)
qed

lemma str_run_Cons:
  "str_run d (b # bs) = (case str_run d [b] of (HPACK_OK, d) \<Rightarrow> str_run d bs | r \<Rightarrow> r)"
proof (cases "d_str_huff d")
  case True
  obtain rc d' where h: "huff_byte d b = (rc, d')" by (rule prod.exhaust)
  have "d_str_huff d'" using huff_bits_frame [of d "byte_bits b" 0] h True by (simp add: str_frame_def huff_byte_def)
  then show ?thesis using True by (cases rc) (simp_all add: str_run_def h)
qed (simp add: str_run_def put_bytes_def)

lemma feed_str_run:
  "feed_str d bs fn ctx = (case str_run d bs of (rc, d) \<Rightarrow>
     (let d = d\<lparr>d_str_left := d_str_left d - length bs\<rparr> in if rc = HPACK_OK \<and> d_str_left d = 0 then str_done d fn ctx else (rc, d, ctx)))"
  by (simp add: feed_str_def str_run_def)

lemma feed_str_Cons:
  assumes "d_st d = ST_STR" "0 < length bs" "Suc (length bs) \<le> d_str_left d"
  shows "observe (feed_str d (b # bs) fn ctx) =
    observe (case hp_byte d b fn ctx of (HPACK_OK, d, ctx) \<Rightarrow> feed_str d bs fn ctx | r \<Rightarrow> r)"
proof -
  obtain rc d1 where h: "str_run d [b] = (rc, d1)" by (rule prod.exhaust)
  have f: "d_st d1 = ST_STR" "d_str_left d1 = d_str_left d" using str_run_frame(2) [OF h] assms(1) by simp_all
  have b: "hp_byte d b fn ctx = (rc, d1\<lparr>d_str_left := d_str_left d - 1\<rparr>, ctx)"
    using assms f unfolding hp_byte_def assms(1) feed_str_run h by (cases "length bs") (simp_all add: Let_def)
  show ?thesis
  proof (cases "rc = HPACK_OK")
    case True
    obtain rc2 d2 where r: "str_run d1 bs = (rc2, d2)" by (rule prod.exhaust)
    have "d_str_left d2 = d_str_left d" using str_run_frame(2) [OF r] f by simp
    then show ?thesis using True by (simp add: b feed_str_run [of d] str_run_Cons [of d b bs] h r feed_str_run [of "_\<lparr>d_str_left := _\<rparr>"] str_run_frame(1) Let_def le_diff_conv)
  next
    case False
    then show ?thesis by (cases rc) (simp_all add: b feed_str_run str_run_Cons [of d b bs] h observe_def Let_def)
  qed
qed

lemma feed_str_bytes:
  assumes "d_st d = ST_STR" "0 < length bs" "length bs \<le> d_str_left d"
  shows "observe (feed_str d bs fn ctx) = observe (hp_bytes d bs fn ctx)"
  using assms
proof (induction bs arbitrary: d ctx)
  case (Cons b bs)
  show ?case
  proof (cases bs)
    case Nil
    then show ?thesis using Cons.prems(1) by (cases "feed_str d [b] fn ctx") (auto simp: hp_byte_def split: hpack_rc.splits)
  next
    case (Cons c cs)
    obtain rc d1 c1 where h: "hp_byte d b fn ctx = (rc, d1, c1)" by (rule prod_cases3)
    obtain rc' d2 where r: "str_run d [b] = (rc', d2)" by (rule prod.exhaust)
    have f: "d_st d2 = ST_STR" "d_str_left d2 = d_str_left d" using str_run_frame(2) [OF r] Cons.prems(1) by simp_all
    then have d1: "d_st d1 = ST_STR" "d_str_left d1 = d_str_left d - 1"
      using h Cons.prems Cons by (auto simp: hp_byte_def feed_str_run r Let_def)
    show ?thesis using feed_str_Cons [of d bs b fn ctx] Cons.IH [of d1 c1] Cons.prems Cons d1
      by (cases rc) (simp_all add: h)
  qed
qed simp

lemma int_done_inv: "int_done d v fn ctx = (HPACK_OK, d', ctx') \<Longrightarrow> str_inv d'"
proof (cases "d_int_for d")
  case INT_STRLEN
  assume "int_done d v fn ctx = (HPACK_OK, d', ctx')"
  then show ?thesis using INT_STRLEN
    by (auto simp: int_done_def Let_def str_inv_def huff_reset_def dest: str_done_st split: if_splits)
next
  case INT_SIZE
  assume "int_done d v fn ctx = (HPACK_OK, d', ctx')"
  moreover have "d_st (dyn_evict_to x y) = d_st x" for x y
    by (induction x y rule: dyn_evict_to.induct) (subst dyn_evict_to.simps, simp add: Let_def)
  ultimately show ?thesis using INT_SIZE by (auto simp: int_done_def Let_def str_inv_def split: if_splits)
qed (auto simp: int_done_def Let_def str_inv_def begin_name_def dest: emit_st split: if_splits prod.splits hpack_rc.splits)

lemma int_start_inv: "int_start d what v msk fn ctx = (HPACK_OK, d', ctx') \<Longrightarrow> str_inv d'"
  by (auto simp: int_start_def Let_def str_inv_def [of "_\<lparr>d_st := _\<rparr>"] dest: int_done_inv split: if_splits)

lemma hp_byte_inv:
  assumes "hp_byte d b fn ctx = (HPACK_OK, d', ctx')" "str_inv d"
  shows "str_inv d'"
proof (cases "d_st d")
  case ST_FIRST
  then show ?thesis using assms by (auto simp: hp_byte_def feed_first_def Let_def dest: int_start_inv split: if_splits)
next
  case ST_INT
  then show ?thesis using assms by (auto simp: hp_byte_def feed_int_def Let_def str_inv_def [of "_\<lparr>d_int_val := _, d_int_shift := _\<rparr>"] dest: int_done_inv split: if_splits)
next
  case ST_STR_HDR
  then show ?thesis using assms by (auto simp: hp_byte_def feed_str_hdr_def dest: int_start_inv)
next
  case ST_STR
  obtain rc d1 where r: "str_run d [b] = (rc, d1)" by (rule prod.exhaust)
  then show ?thesis using assms ST_STR str_run_frame(2) [OF r]
    by (auto simp: hp_byte_def feed_str_run Let_def str_inv_def dest: str_done_st split: if_splits)
qed

lemma hp_bytes_inv: "hp_bytes d bs fn ctx = (HPACK_OK, d', ctx') \<Longrightarrow> str_inv d \<Longrightarrow> str_inv d'"
  by (induction d bs fn ctx rule: hp_bytes.induct) (auto split: prod.splits hpack_rc.splits dest: hp_byte_inv)

lemma feed_step:
  assumes "inp = b # rest"
    "(case d_st d of ST_FIRST \<Rightarrow> (feed_first d b fn ctx, rest) | ST_INT \<Rightarrow> (feed_int d b fn ctx, rest)
      | ST_STR_HDR \<Rightarrow> (feed_str_hdr d b fn ctx, rest)
      | ST_STR \<Rightarrow> (let n = min (length inp) (d_str_left d) in (feed_str d (take n inp) fn ctx, drop n inp))) = ((rc, d', ctx'), inp')"
  shows "hpack_dec_feed d inp fn ctx = (if rc = HPACK_OK then hpack_dec_feed d' inp' fn ctx' else (rc, d', ctx'))"
proof -
  have "hpack_dec_feed d inp fn ctx = (case ((rc, d', ctx'), inp') of ((HPACK_OK, d', ctx'), inp') \<Rightarrow> hpack_dec_feed d' inp' fn ctx' | (r, _) \<Rightarrow> r)"
    unfolding assms(2) [symmetric] by (subst hpack_dec_feed.simps) (simp only: assms(1) list.case)
  then show ?thesis by (cases rc) simp_all
qed

lemma feed_bytes: "str_inv d \<Longrightarrow> observe (hpack_dec_feed d inp fn ctx) = observe (hp_bytes d inp fn ctx)"
proof (induction d inp fn ctx rule: hpack_dec_feed.induct)
  case (1 d inp fn ctx)
  show ?case
  proof (cases inp)
    case Nil
    then show ?thesis by (simp add: hpack_dec_feed.simps)
  next
    case (Cons b rest)
    show ?thesis
    proof (cases "d_st d = ST_STR")
      case True
      define n where "n = min (length inp) (d_str_left d)"
      have n: "0 < n" "n \<le> length inp" "n \<le> d_str_left d" using True "1.prems" Cons by (auto simp: n_def str_inv_def)
      have bytes: "observe (feed_str d (take n inp) fn ctx) = observe (hp_bytes d (take n inp) fn ctx)"
        using True n by (intro feed_str_bytes) auto
      obtain rc d' ctx' where r: "feed_str d (take n inp) fn ctx = (rc, d', ctx')" by (rule prod_cases3)
      have arm: "(case d_st d of ST_FIRST \<Rightarrow> (feed_first d b fn ctx, rest) | ST_INT \<Rightarrow> (feed_int d b fn ctx, rest)
          | ST_STR_HDR \<Rightarrow> (feed_str_hdr d b fn ctx, rest)
          | ST_STR \<Rightarrow> (let n = min (length inp) (d_str_left d) in (feed_str d (take n inp) fn ctx, drop n inp))) = ((rc, d', ctx'), drop n inp)"
        using True r by (simp add: n_def)
      note feed = feed_step [OF Cons arm]
      show ?thesis
      proof (cases "rc = HPACK_OK")
        case ok: True
        then have h: "hp_bytes d (take n inp) fn ctx = (HPACK_OK, d', ctx')" using bytes r unfolding observe_eq by (metis fst_conv)
        have "observe (hpack_dec_feed d' (drop n inp) fn ctx') = observe (hp_bytes d' (drop n inp) fn ctx')"
          using "1.IH" [OF Cons arm [symmetric] refl ok refl] hp_bytes_inv [OF h "1.prems"] ok by simp
        then show ?thesis using hp_bytes_append [of d "take n inp" "drop n inp" fn ctx] ok by (simp add: feed h)
      next
        case err: False
        obtain rc2 d2 c2 where h: "hp_bytes d (take n inp) fn ctx = (rc2, d2, c2)" by (rule prod_cases3)
        then have "rc2 = rc" "c2 = ctx'" using bytes r unfolding observe_eq by simp_all
        then have "hp_bytes d (take n inp @ drop n inp) fn ctx = (rc, d2, ctx')"
          using err by (subst hp_bytes_append) (simp add: h split: hpack_rc.split)
        then show ?thesis using err by (simp add: feed observe_def)
      qed
    next
      case False
      obtain rc d' ctx' where r: "hp_byte d b fn ctx = (rc, d', ctx')" by (rule prod_cases3)
      have arm: "(case d_st d of ST_FIRST \<Rightarrow> (feed_first d b fn ctx, rest) | ST_INT \<Rightarrow> (feed_int d b fn ctx, rest)
          | ST_STR_HDR \<Rightarrow> (feed_str_hdr d b fn ctx, rest)
          | ST_STR \<Rightarrow> (let n = min (length inp) (d_str_left d) in (feed_str d (take n inp) fn ctx, drop n inp))) = ((rc, d', ctx'), rest)"
        using False r by (cases "d_st d") (simp_all add: hp_byte_def)
      note feed = feed_step [OF Cons arm]
      show ?thesis
      proof (cases "rc = HPACK_OK")
        case ok: True
        then show ?thesis
          using "1.IH" [OF Cons arm [symmetric] refl ok refl] hp_byte_inv [of d b fn ctx d' ctx'] "1.prems" r unfolding feed by (simp add: Cons)
      next
        case err: False
        then show ?thesis unfolding feed by (cases rc) (simp_all add: Cons r)
      qed
    qed
  qed
qed

section \<open>Pieces\<close>

fun feed_chunks :: "hpack_dec_t \<Rightarrow> bytes list \<Rightarrow> (hpack_field_t \<Rightarrow> 'c \<Rightarrow> bool \<times> 'c) \<Rightarrow> 'c \<Rightarrow> hpack_rc \<times> hpack_dec_t \<times> 'c" where
  "feed_chunks d [] fn ctx = (HPACK_OK, d, ctx)"
| "feed_chunks d (c # cs) fn ctx = (case hpack_dec_feed d c fn ctx of (HPACK_OK, d, ctx) \<Rightarrow> feed_chunks d cs fn ctx | r \<Rightarrow> r)"

lemma feed_chunks_bytes: "str_inv d \<Longrightarrow> observe (feed_chunks d cs fn ctx) = observe (hp_bytes d (concat cs) fn ctx)"
proof (induction cs arbitrary: d ctx)
  case (Cons c cs)
  obtain rc d' ctx' where r: "hpack_dec_feed d c fn ctx = (rc, d', ctx')" by (rule prod_cases3)
  obtain rc2 d2 c2 where h: "hp_bytes d c fn ctx = (rc2, d2, c2)" by (rule prod_cases3)
  have e: "rc2 = rc" "c2 = ctx'" "rc = HPACK_OK \<Longrightarrow> d2 = d'" using feed_bytes [OF Cons.prems, of c fn ctx] r h unfolding observe_eq by auto
  have "str_inv d'" if "rc = HPACK_OK" using hp_bytes_inv [of d c fn ctx d' ctx'] Cons.prems h e that by simp
  then show ?case using Cons.IH [of d' ctx'] e by (cases rc) (simp_all add: r h hp_bytes_append observe_def)
qed simp

section \<open>Integers\<close>

text \<open>The bytes of a prefixed integer, room permitting, and that the decoder reads it back.\<close>

fun int_tail :: "nat \<Rightarrow> bytes" where
  "int_tail v = (if v \<ge> 128 then (0x80 OR of_nat (v mod 128)) # int_tail (v div 128) else [of_nat v])"

declare int_tail.simps [simp del]

lemma put_int_tail_Some: "put_int_tail cap n v = Some r \<Longrightarrow> r = int_tail v \<and> n + length r \<le> cap"
proof (induction cap n v arbitrary: r rule: put_int_tail.induct)
  case (1 cap n v)
  show ?case
  proof (cases "128 \<le> v")
    case True
    then obtain t where t: "put_int_tail cap (n + 1) (v div 128) = Some t" "r = (0x80 OR of_nat (v mod 128)) # t" "\<not> cap \<le> n"
      using "1.prems" by (subst (asm) put_int_tail.simps) (auto split: if_splits)
    then show ?thesis using "1.IH" [of t] True by (subst int_tail.simps) auto
  next
    case False
    then show ?thesis using "1.prems" by (subst (asm) put_int_tail.simps, subst int_tail.simps) (auto split: if_splits)
  qed
qed

lemma cont_byte:
  assumes "x < 128"
  shows "unat ((0x80 OR of_nat x :: u8) AND 0x7f) = x" "(0x80 OR of_nat x :: u8) AND 0x80 \<noteq> 0"
    "unat ((of_nat x :: u8) AND 0x7f) = x" "(of_nat x :: u8) AND 0x80 = 0"
proof -
  have "list_all (\<lambda>x. unat ((0x80 OR of_nat x :: u8) AND 0x7f) = x \<and> (0x80 OR of_nat x :: u8) AND 0x80 \<noteq> 0 \<and>
      unat ((of_nat x :: u8) AND 0x7f) = x \<and> (of_nat x :: u8) AND 0x80 = 0) [0..<128]"
    by code_simp
  then show "unat ((0x80 OR of_nat x :: u8) AND 0x7f) = x" "(0x80 OR of_nat x :: u8) AND 0x80 \<noteq> 0"
    "unat ((of_nat x :: u8) AND 0x7f) = x" "(of_nat x :: u8) AND 0x80 = 0"
    using assms by (simp_all add: list_all_iff)
qed

lemma feed_int_tail:
  assumes "d_st d = ST_INT" "d_int_val d + v * 2 ^ d_int_shift d = w" "w \<le> 0x7fffffff" "d_int_shift d + 7 * (length (int_tail v) - 1) \<le> 28"
  shows "hp_bytes d (int_tail v @ rest) fn ctx =
    (case int_done (d\<lparr>d_int_val := w, d_int_shift := d_int_shift d + 7 * length (int_tail v)\<rparr>) w fn ctx of
       (HPACK_OK, d, ctx) \<Rightarrow> hp_bytes d rest fn ctx | r \<Rightarrow> r)"
  using assms
proof (induction v arbitrary: d rule: int_tail.induct)
  case (1 v)
  show ?case
  proof (cases "128 \<le> v")
    case True
    define d1 where "d1 = d\<lparr>d_int_val := d_int_val d + (v mod 128) * 2 ^ d_int_shift d, d_int_shift := d_int_shift d + 7\<rparr>"
    have t: "int_tail v = (0x80 OR of_nat (v mod 128)) # int_tail (v div 128)" using True by (subst int_tail.simps) simp
    obtain k where l: "length (int_tail (v div 128)) = Suc k" by (metis int_tail.simps length_Suc_conv)
    have split: "v mod 128 * 2 ^ d_int_shift d + v div 128 * 2 ^ (d_int_shift d + 7) = v * 2 ^ d_int_shift d"
    proof -
      have "v * 2 ^ d_int_shift d = (v mod 128 + v div 128 * 128) * 2 ^ d_int_shift d" by (simp only: mod_div_mult_eq)
      then show ?thesis by (simp only: power_add distrib_right mult.assoc) simp
    qed
    have w1: "d_int_val d1 + v div 128 * 2 ^ d_int_shift d1 = w" using "1.prems"(2) split by (simp add: d1_def)
    then have b: "d_int_val d1 \<le> 0x7fffffff" using "1.prems"(3) by linarith
    have sh: "d_int_shift d1 + 7 * (length (int_tail (v div 128)) - 1) \<le> 28" using "1.prems"(4) by (simp add: t d1_def l)
    have byte: "hp_byte d (0x80 OR of_nat (v mod 128)) fn ctx = (HPACK_OK, d1, ctx)"
      using b sh "1.prems"(1) cont_byte [of "v mod 128"] by (simp add: hp_byte_def feed_int_def d1_def Let_def)
    have ih: "hp_bytes d1 (int_tail (v div 128) @ rest) fn ctx =
      (case int_done (d1\<lparr>d_int_val := w, d_int_shift := d_int_shift d1 + 7 * length (int_tail (v div 128))\<rparr>) w fn ctx of
       (HPACK_OK, d, ctx) \<Rightarrow> hp_bytes d rest fn ctx | r \<Rightarrow> r)"
      using "1.IH" [OF True, of d1] w1 sh "1.prems"(1,3) by (simp add: d1_def)
    show ?thesis unfolding t by (simp add: byte ih) (simp add: d1_def algebra_simps)
  next
    case False
    then have t: "int_tail v = [of_nat v]" by (subst int_tail.simps) simp
    have "hp_byte d (of_nat v) fn ctx = int_done (d\<lparr>d_int_val := w, d_int_shift := d_int_shift d + 7\<rparr>) w fn ctx"
      using False "1.prems"(1-3) cont_byte(3,4) [of v] by (simp add: hp_byte_def feed_int_def Let_def)
    then show ?thesis by (simp add: t)
  qed
qed

section \<open>Strings\<close>

lemmas hp_flags = HPACK_F_NAME_CUT_def HPACK_F_VALUE_CUT_def HPACK_F_NAME_BAD_def HPACK_F_NAME_UPPER_def HPACK_F_VALUE_BAD_def HPACK_F_NEVER_INDEX_def

definition upper :: "u8 \<Rightarrow> bool" where
  "upper c \<longleftrightarrow> 65 \<le> c \<and> c \<le> 90"

definition bad_at :: "bytes \<Rightarrow> nat \<Rightarrow> bool" where
  "bad_at n i \<longleftrightarrow> \<not> upper (n ! i) \<and> \<not> (i = 0 \<and> n ! i = 58) \<and> \<not> name_char_ok (n ! i)"

definition flag :: "bool \<Rightarrow> u8 \<Rightarrow> u8" where
  "flag b m = (if b then m else 0)"

definition name_scan :: "bytes \<Rightarrow> u8" where
  "name_scan n = flag (32 < length n) HPACK_F_NAME_CUT OR flag (\<exists>c \<in> set n. upper c) HPACK_F_NAME_UPPER OR
     flag (\<exists>i < length n. bad_at n i) HPACK_F_NAME_BAD"

definition value_scan :: "bytes \<Rightarrow> u8" where
  "value_scan v = flag (64 < length v) HPACK_F_VALUE_CUT OR
     flag ((\<exists>c \<in> set v. \<not> value_char_ok c) \<or> (v \<noteq> [] \<and> (hd v = 32 \<or> hd v = 9))) HPACK_F_VALUE_BAD"

lemma put_bytes_snoc: "put_bytes d (xs @ [c]) = put_char (put_bytes d xs) c"
  by (simp add: put_bytes_def)

lemma flag_or: "flag (a \<or> b) m = flag a m OR flag b m"
  by (simp add: flag_def)

lemma flag_simps [simp]: "flag True m = m" "flag False m = 0"
  by (simp_all add: flag_def)

lemmas or_ac = or.assoc or.commute or.left_commute

lemma name_scan_snoc:
  "name_scan (n @ [c]) = name_scan n OR flag (32 \<le> length n) HPACK_F_NAME_CUT OR flag (upper c) HPACK_F_NAME_UPPER OR
     flag (\<not> upper c \<and> \<not> (length n = 0 \<and> c = 58) \<and> \<not> name_char_ok c) HPACK_F_NAME_BAD"
proof -
  have 1: "(\<exists>i < length (n @ [c]). bad_at (n @ [c]) i) \<longleftrightarrow> (\<exists>i < length n. bad_at n i) \<or> (\<not> upper c \<and> \<not> (length n = 0 \<and> c = 58) \<and> \<not> name_char_ok c)"
  proof -
    have "bad_at (n @ [c]) i = bad_at n i" if "i < length n" for i using that by (simp add: bad_at_def nth_append)
    moreover have "bad_at (n @ [c]) (length n) = (\<not> upper c \<and> \<not> (length n = 0 \<and> c = 58) \<and> \<not> name_char_ok c)" by (simp add: bad_at_def)
    ultimately show ?thesis by (auto simp del: length_0_conv simp: less_Suc_eq)
  qed
  have 2: "(32 < length (n @ [c])) = (32 < length n \<or> 32 \<le> length n)" "(\<exists>x \<in> set (n @ [c]). upper x) = ((\<exists>x \<in> set n. upper x) \<or> upper c)" by auto
  show ?thesis unfolding name_scan_def 1 2 flag_or by (simp only: or_ac)
qed

lemma put_name_bytes:
  assumes "\<not> d_str_which d" "d_str_total d = 0" "d_name d = []"
  shows "put_bytes d n = d\<lparr>d_str_total := length n, d_name := take 32 n, d_fflags := d_fflags d OR name_scan n\<rparr>"
proof (induction n rule: rev_induct)
  case Nil
  then show ?case using assms by (simp add: put_bytes_def name_scan_def)
next
  case (snoc c n)
  define b where "b = (\<not> upper c \<and> \<not> (length n = 0 \<and> c = 58) \<and> \<not> name_char_ok c)"
  have "put_char (d\<lparr>d_str_total := length n, d_name := take 32 n, d_fflags := d_fflags d OR name_scan n\<rparr>) c =
      d\<lparr>d_str_total := Suc (length n), d_name := take 32 (n @ [c]),
        d_fflags := ((d_fflags d OR name_scan n) OR flag (32 \<le> length n) HPACK_F_NAME_CUT) OR flag (upper c) HPACK_F_NAME_UPPER OR flag b HPACK_F_NAME_BAD\<rparr>"
    using assms(1) unfolding put_char_def put_name_char_def Let_def upper_def [symmetric]
    by (cases "length n < 32"; cases "upper c"; cases "length n = 0 \<and> c = 58"; cases "name_char_ok c")
      (simp_all add: HPACK_NAME_CAP_def b_def)
  then show ?case unfolding put_bytes_snoc snoc name_scan_snoc b_def [symmetric] by (simp add: or.assoc)
qed

lemma value_scan_snoc:
  "value_scan (v @ [c]) = value_scan v OR flag (64 \<le> length v) HPACK_F_VALUE_CUT OR
     flag (\<not> value_char_ok c \<or> (v = [] \<and> (c = 32 \<or> c = 9))) HPACK_F_VALUE_BAD"
proof -
  have 1: "(64 < length (v @ [c])) = (64 < length v \<or> 64 \<le> length v)"
    "((\<exists>x \<in> set (v @ [c]). \<not> value_char_ok x) \<or> (v @ [c] \<noteq> [] \<and> (hd (v @ [c]) = 32 \<or> hd (v @ [c]) = 9))) =
      (((\<exists>x \<in> set v. \<not> value_char_ok x) \<or> (v \<noteq> [] \<and> (hd v = 32 \<or> hd v = 9))) \<or> (\<not> value_char_ok c \<or> (v = [] \<and> (c = 32 \<or> c = 9))))"
    by (cases v; auto)+
  show ?thesis unfolding value_scan_def 1 flag_or by (simp only: or_ac)
qed

lemma put_value_bytes:
  assumes "d_str_which d" "d_str_total d = 0" "d_value d = []"
  shows "put_bytes d v = d\<lparr>d_str_total := length v, d_value := take 64 v, d_fflags := d_fflags d OR value_scan v,
    d_last_vbyte := (if v = [] then d_last_vbyte d else last v)\<rparr>"
proof (induction v rule: rev_induct)
  case Nil
  then show ?case using assms by (simp add: put_bytes_def value_scan_def)
next
  case (snoc c v)
  define b where "b = (\<not> value_char_ok c \<or> (length v = 0 \<and> (c = 32 \<or> c = 9)))"
  have b: "(\<not> value_char_ok c \<or> (v = [] \<and> (c = 32 \<or> c = 9))) = b" by (simp add: b_def)
  have "put_char (d\<lparr>d_str_total := length v, d_value := take 64 v, d_fflags := d_fflags d OR value_scan v, d_last_vbyte := l\<rparr>) c =
      d\<lparr>d_str_total := Suc (length v), d_value := take 64 (v @ [c]),
        d_fflags := ((d_fflags d OR value_scan v) OR flag (64 \<le> length v) HPACK_F_VALUE_CUT) OR flag b HPACK_F_VALUE_BAD, d_last_vbyte := c\<rparr>" for l
  proof -
    let ?d = "d\<lparr>d_str_total := length v, d_value := take 64 v, d_fflags := d_fflags d OR value_scan v, d_last_vbyte := l\<rparr>"
    have "put_char ?d c = put_value_char (?d\<lparr>d_str_total := length v + 1\<rparr>) (length v) c" using assms(1) by (simp add: put_char_def Let_def)
    also have "\<dots> = (let d = (if length v < 64 then ?d\<lparr>d_str_total := length v + 1, d_value := take 64 v @ [c]\<rparr>
          else ?d\<lparr>d_str_total := length v + 1, d_fflags := (d_fflags d OR value_scan v) OR HPACK_F_VALUE_CUT\<rparr>);
        d = (if b then d\<lparr>d_fflags := d_fflags d OR HPACK_F_VALUE_BAD\<rparr> else d) in d\<lparr>d_last_vbyte := c\<rparr>)"
      unfolding put_value_char_def b_def by (simp add: HPACK_VALUE_CAP_def)
    finally show ?thesis by (cases "length v < 64"; cases b) simp_all
  qed
  then show ?case unfolding put_bytes_snoc snoc value_scan_snoc b by (simp add: or.assoc)
qed

text \<open>A raw string literal: its length as a prefixed integer, then its bytes.\<close>

definition int_bytes :: "u8 \<Rightarrow> nat \<Rightarrow> nat \<Rightarrow> bytes" where
  "int_bytes first mx v = (if v < mx then [first OR of_nat v] else (first OR of_nat mx) # int_tail (v - mx))"

lemma put_int_Some: "hpack_put_int cap first prefix v = Some bs \<Longrightarrow> bs = int_bytes first (2 ^ prefix - 1) v"
  by (auto simp: hpack_put_int_def int_bytes_def Let_def dest: put_int_tail_Some split: if_splits)

lemma put_string_Some: "put_string cap s = Some bs \<Longrightarrow> bs = int_bytes 0 127 (length s) @ s"
  by (auto simp: put_string_def dest: put_int_Some split: option.splits if_splits)

lemma length_int_tail: "v < 128 ^ n \<Longrightarrow> 0 < n \<Longrightarrow> length (int_tail v) \<le> n"
proof (induction n arbitrary: v)
  case (Suc n)
  show ?case
  proof (cases "128 \<le> v")
    case True
    then have "v div 128 < 128 ^ n" "n \<noteq> 0" using Suc.prems by (simp add: div_less_iff_less_mult mult.commute) (use True Suc.prems in \<open>cases n; simp\<close>)
    then show ?thesis using Suc.IH [of "v div 128"] True by (subst int_tail.simps) simp
  next
    case False
    then show ?thesis by (subst int_tail.simps) simp
  qed
qed simp

text \<open>The decoder in a string header, given a raw string: it ends the string with its bytes put, in
  a state that agrees with the one before on all that a field is made of.\<close>

definition same_field :: "hpack_dec_t \<Rightarrow> hpack_dec_t \<Rightarrow> bool" where
  "same_field d e \<longleftrightarrow> d_rep e = d_rep d \<and> d_name e = d_name d \<and> d_name_total e = d_name_total d \<and> d_fflags e = d_fflags d \<and>
     d_str_which e = d_str_which d \<and> d_str_total e = d_str_total d \<and> d_value e = d_value d \<and> d_last_vbyte e = d_last_vbyte d"

definition continue :: "(hpack_field_t \<Rightarrow> 'c \<Rightarrow> bool \<times> 'c) \<Rightarrow> bytes \<Rightarrow> hpack_rc \<times> hpack_dec_t \<times> 'c \<Rightarrow> hpack_rc \<times> hpack_dec_t \<times> 'c" where
  "continue fn rest r = (case r of (HPACK_OK, d, ctx) \<Rightarrow> hp_bytes d rest fn ctx | r \<Rightarrow> r)"

lemma continue_observe: "observe r = observe r' \<Longrightarrow> observe (continue fn rest r) = observe (continue fn rest r')"
  unfolding observe_eq continue_def by (cases r; cases r'; cases "fst r") auto

lemma hp_bytes_continue: "hp_bytes d (xs @ ys) fn ctx = continue fn ys (hp_bytes d xs fn ctx)"
  by (simp add: continue_def hp_bytes_append)

lemma feed_int_bytes:
  assumes "mx \<le> 127" "v \<le> 0x7fffffff" "length (int_tail (v - mx)) \<le> 5"
  shows "\<exists>d1. (if v < mx then int_done (d\<lparr>d_int_for := what\<rparr>) v fn ctx
      else hp_bytes (d\<lparr>d_int_for := what, d_int_val := mx, d_int_shift := 0, d_st := ST_INT\<rparr>) (int_tail (v - mx)) fn ctx)
    = int_done d1 v fn ctx \<and> d_int_for d1 = what \<and> d_str_huff d1 = d_str_huff d \<and> same_field d d1"
proof (cases "v < mx")
  case True
  then show ?thesis by (intro exI [of _ "d\<lparr>d_int_for := what\<rparr>"]) (simp add: same_field_def)
next
  case False
  let ?d = "d\<lparr>d_int_for := what, d_int_val := mx, d_int_shift := 0, d_st := ST_INT\<rparr>"
  have "hp_bytes ?d (int_tail (v - mx) @ []) fn ctx = (case int_done (?d\<lparr>d_int_val := v, d_int_shift := d_int_shift ?d + 7 * length (int_tail (v - mx))\<rparr>) v fn ctx of
       (HPACK_OK, d, ctx) \<Rightarrow> hp_bytes d [] fn ctx | r \<Rightarrow> r)"
    using False assms by (intro feed_int_tail) simp_all
  then have "hp_bytes ?d (int_tail (v - mx)) fn ctx = int_done (?d\<lparr>d_int_val := v, d_int_shift := d_int_shift ?d + 7 * length (int_tail (v - mx))\<rparr>) v fn ctx"
    by (auto split: prod.splits hpack_rc.splits)
  then show ?thesis using False
    by (intro exI [of _ "?d\<lparr>d_int_val := v, d_int_shift := d_int_shift ?d + 7 * length (int_tail (v - mx))\<rparr>"]) (simp add: same_field_def)
qed

lemma feed_string:
  assumes "d_st d = ST_STR_HDR" "length s \<le> 65536"
  shows "\<exists>d1. observe (hp_bytes d (int_bytes 0 127 (length s) @ s) fn ctx) = observe (str_done (put_bytes d1 s) fn ctx) \<and>
    \<not> d_str_huff d1 \<and> same_field d d1"
proof -
  let ?h = "d\<lparr>d_str_huff := False\<rparr>"
  let ?n = "length s"
  have tail: "length (int_tail (?n - 127)) \<le> 5"
  proof -
    have "?n - 127 < 128 ^ 3" using assms(2) by simp
    then show ?thesis using length_int_tail [of "?n - 127" 3] by simp
  qed
  obtain d1 where d1: "(if ?n < 127 then int_done (?h\<lparr>d_int_for := INT_STRLEN\<rparr>) ?n fn ctx
      else hp_bytes (?h\<lparr>d_int_for := INT_STRLEN, d_int_val := 127, d_int_shift := 0, d_st := ST_INT\<rparr>) (int_tail (?n - 127)) fn ctx) = int_done d1 ?n fn ctx"
    "d_int_for d1 = INT_STRLEN" "\<not> d_str_huff d1" "same_field ?h d1"
    using feed_int_bytes [where mx = 127 and v = ?n and d = ?h and what = INT_STRLEN and fn = fn and ctx = ctx] tail assms(2) by auto
  have "hp_bytes d (int_bytes 0 127 ?n) fn ctx = int_done d1 ?n fn ctx"
  proof (cases "?n < 127")
    case True
    then have "hp_byte d (of_nat ?n) fn ctx = int_done d1 ?n fn ctx"
      using cont_byte(3,4) [of ?n] d1(1) assms(1) by (simp add: hp_byte_def feed_str_hdr_def int_start_def Let_def)
    then show ?thesis using True by (auto simp: int_bytes_def split: prod.splits hpack_rc.splits)
  next
    case False
    have "hp_byte d 127 fn ctx = (HPACK_OK, ?h\<lparr>d_int_for := INT_STRLEN, d_int_val := 127, d_int_shift := 0, d_st := ST_INT\<rparr>, ctx)"
      using assms(1) by (simp add: hp_byte_def feed_str_hdr_def int_start_def Let_def)
    then show ?thesis using False d1(1) by (simp add: int_bytes_def)
  qed
  then have h: "hp_bytes d (int_bytes 0 127 ?n @ s) fn ctx = continue fn s (int_done d1 ?n fn ctx)" by (simp add: hp_bytes_continue)
  define d2 where "d2 = huff_reset (d1\<lparr>d_st := ST_FIRST, d_str_left := ?n\<rparr>)"
  have sf: "same_field d (d2\<lparr>d_st := st, d_str_left := x\<rparr>)" "\<not> d_str_huff (d2\<lparr>d_st := st, d_str_left := x\<rparr>)" for st x
    using d1(3,4) by (simp_all add: d2_def same_field_def huff_reset_def)
  show ?thesis
  proof (cases "?n = 0")
    case True
    then have "int_done d1 ?n fn ctx = str_done d2 fn ctx" using d1(2) by (simp add: int_done_def Let_def d2_def)
    then have "hp_bytes d (int_bytes 0 127 ?n @ s) fn ctx = str_done (put_bytes d2 s) fn ctx"
      using h True by (auto simp: continue_def put_bytes_def split: prod.splits hpack_rc.splits)
    moreover have "d2 = d2\<lparr>d_st := d_st d2, d_str_left := d_str_left d2\<rparr>" by simp
    ultimately show ?thesis using sf by metis
  next
    case False
    define d3 where "d3 = d2\<lparr>d_st := ST_STR\<rparr>"
    have "int_done d1 ?n fn ctx = (HPACK_OK, d3, ctx)" using d1(2) False assms(2)
      by (simp add: int_done_def Let_def d2_def d3_def HPACK_MAX_STRING_def)
    then have "observe (hp_bytes d (int_bytes 0 127 ?n @ s) fn ctx) = observe (hp_bytes d3 s fn ctx)" using h by (simp add: continue_def)
    also have "\<dots> = observe (feed_str d3 s fn ctx)"
      using False by (intro feed_str_bytes [symmetric]) (simp_all add: d3_def d2_def huff_reset_def)
    also have "feed_str d3 s fn ctx = str_done (put_bytes (d3\<lparr>d_str_left := 0\<rparr>) s) fn ctx"
    proof -
      have "\<not> d_str_huff d3" using sf(2) [where st = ST_STR and x = ?n] by (simp add: d3_def)
      moreover have "d_str_left (put_bytes d3 s) = ?n" "put_bytes (d3\<lparr>d_str_left := 0\<rparr>) s = (put_bytes d3 s)\<lparr>d_str_left := 0\<rparr>"
        using put_bytes_frame [of d3 s 0] by (simp_all add: str_frame_def) (simp add: d3_def d2_def huff_reset_def)
      ultimately show ?thesis by (simp add: feed_str_def)
    qed
    finally show ?thesis using sf [where st = ST_STR and x = 0] unfolding d3_def by (intro exI [of _ "d2\<lparr>d_st := ST_STR, d_str_left := 0\<rparr>"]) simp
  qed
qed

section \<open>Fields\<close>

definition name_flags :: "bytes \<Rightarrow> u8" where
  "name_flags n = name_scan n OR flag (n = [] \<or> n = [58]) HPACK_F_NAME_BAD"

definition value_flags :: "bytes \<Rightarrow> u8" where
  "value_flags v = value_scan v OR flag (v \<noteq> [] \<and> (last v = 32 \<or> last v = 9)) HPACK_F_VALUE_BAD"

text \<open>What the decoder reports for a name and a value sent as a literal without indexing.\<close>

definition field_of :: "bytes \<Rightarrow> bytes \<Rightarrow> hpack_field_t" where
  "field_of n v = \<lparr>f_name = take 32 n, f_value = take 64 v, f_name_total = length n, f_value_total = length v, f_flags = name_flags n OR value_flags v\<rparr>"

text \<open>A literal without indexing whose name is complete.\<close>

definition named :: "bytes \<Rightarrow> hpack_dec_t \<Rightarrow> bool" where
  "named n d \<longleftrightarrow> d_rep d = REP_NOIDX \<and> d_name d = take 32 n \<and> d_name_total d = length n \<and> d_fflags d = name_flags n \<and>
     d_str_which d \<and> d_str_total d = 0 \<and> d_value d = [] \<and> d_last_vbyte d = 0"

lemma begin_value_named:
  assumes "\<not> d_str_which d" "d_str_total d = 0" "d_name d = []" "d_fflags d = 0" "d_rep d = REP_NOIDX"
  shows "named n (begin_value (put_bytes d n))"
proof -
  have "(length n = 0 \<or> (length n = 1 \<and> take 32 n ! 0 = 58)) = (n = [] \<or> n = [58])"
    by (cases n; cases "drop 1 n") auto
  then show ?thesis using assms unfolding put_name_bytes [OF assms(1-3)]
    by (auto simp: named_def begin_value_def Let_def name_flags_def)
qed

lemma name_search_Some:
  "name_search name i n p = k \<Longrightarrow> k \<noteq> 0 \<Longrightarrow> i \<le> k \<and> k < i + n \<and>
     unat (static_walk (k - i) p ! 0) = length name \<and> bytes_at 1 (length name) (static_walk (k - i) p) = name"
proof (induction name i n p arbitrary: k rule: name_search.induct)
  case (2 name i n p)
  show ?case
  proof (cases "unat (p ! 0) = length name \<and> bytes_at 1 (length name) p = name")
    case True
    then show ?thesis using 2(2,3) by auto
  next
    case False
    then have "name_search name (i + 1) n (skip_pair p) = k" using 2(2) by (simp add: Let_def split: if_splits)
    then have ih: "i + 1 \<le> k \<and> k < i + 1 + n \<and> unat (static_walk (k - (i + 1)) (skip_pair p) ! 0) = length name \<and>
        bytes_at 1 (length name) (static_walk (k - (i + 1)) (skip_pair p)) = name"
      using 2(1) [OF refl False] 2(3) by blast
    then have "k - i = Suc (k - (i + 1))" by linarith
    then have "static_walk (k - i) p = static_walk (k - (i + 1)) (skip_pair p)" by simp
    then show ?thesis using ih by auto
  qed
qed simp

lemma table_field_static:
  assumes "hpack_static_name_index n = idx" "idx \<noteq> 0"
  shows "idx \<le> 61" "table_field d idx False = (HPACK_OK, begin_value (put_bytes (begin_name d) n))"
proof -
  have *: "1 \<le> idx \<and> idx < 1 + 61 \<and> unat (static_walk (idx - 1) k_static ! 0) = length n \<and> bytes_at 1 (length n) (static_walk (idx - 1) k_static) = n"
    using name_search_Some [of n 1 HPACK_STATIC_LEN k_static idx] assms unfolding hpack_static_name_index_def HPACK_STATIC_LEN_def by blast
  then show "idx \<le> 61" by simp
  with * show "table_field d idx False = (HPACK_OK, begin_value (put_bytes (begin_name d) n))"
    using assms(2) by (simp add: table_field_def static_entry_def HPACK_STATIC_LEN_def Let_def)
qed

lemma first_byte:
  assumes "x < 16"
  shows "(of_nat x :: u8) AND 0xe0 = 0" "(of_nat x :: u8) AND 0x80 = 0" "(of_nat x :: u8) AND 0x40 = 0" "(of_nat x :: u8) AND 0x10 = 0"
    "unat ((of_nat x :: u8) AND 0x0f) = x"
proof -
  have "list_all (\<lambda>x. (of_nat x :: u8) AND 0xe0 = 0 \<and> (of_nat x :: u8) AND 0x80 = 0 \<and> (of_nat x :: u8) AND 0x40 = 0 \<and>
      (of_nat x :: u8) AND 0x10 = 0 \<and> unat ((of_nat x :: u8) AND 0x0f) = x) [0..<16]"
    by code_simp
  then show "(of_nat x :: u8) AND 0xe0 = 0" "(of_nat x :: u8) AND 0x80 = 0" "(of_nat x :: u8) AND 0x40 = 0" "(of_nat x :: u8) AND 0x10 = 0"
    "unat ((of_nat x :: u8) AND 0x0f) = x"
    using assms by (simp_all add: list_all_iff)
qed

lemma hp_byte_noidx:
  assumes "d_st d = ST_FIRST" "x < 16"
  shows "hp_byte d (of_nat x) fn ctx = int_start (d\<lparr>d_block_start := False, d_fflags := 0, d_rep := REP_NOIDX\<rparr>) INT_NAME x 15 fn ctx"
  using assms first_byte [OF assms(2)] by (simp add: hp_byte_def feed_first_def Let_def)

text \<open>Reading the name of a field the encoder wrote, and the whole field.\<close>

lemma feed_name:
  assumes "d_st d = ST_FIRST" "length n \<le> 65536"
    "(if hpack_static_name_index n \<noteq> 0 then hpack_put_int cap 0 4 (hpack_static_name_index n)
      else if cap < 1 then None else map_option ((#) 0) (put_string (cap - 1) n)) = Some bs"
  shows "\<exists>d1. hp_bytes d bs fn ctx = (HPACK_OK, d1, ctx) \<and> d_st d1 = ST_STR_HDR \<and> named n d1"
proof -
  let ?d = "d\<lparr>d_block_start := False, d_fflags := 0, d_rep := REP_NOIDX\<rparr>"
  define idx where "idx = hpack_static_name_index n"
  show ?thesis
  proof (cases "idx = 0")
    case False
    have bs: "bs = int_bytes 0 15 idx" using assms(3) False put_int_Some [of cap 0 4 idx bs] by (simp add: idx_def)
    note st = table_field_static [OF idx_def [symmetric] False]
    have "idx - 15 < 128 ^ 1" using st(1) by simp
    then have "length (int_tail (idx - 15)) \<le> 5" using length_int_tail [of "idx - 15" 1] by simp
    then obtain d1 where d1: "(if idx < 15 then int_done (?d\<lparr>d_int_for := INT_NAME\<rparr>) idx fn ctx
        else hp_bytes (?d\<lparr>d_int_for := INT_NAME, d_int_val := 15, d_int_shift := 0, d_st := ST_INT\<rparr>) (int_tail (idx - 15)) fn ctx) = int_done d1 idx fn ctx"
      "d_int_for d1 = INT_NAME" "same_field ?d d1"
      using feed_int_bytes [where mx = 15 and v = idx and d = ?d and what = INT_NAME and fn = fn and ctx = ctx] st(1) by auto
    have "hp_bytes d bs fn ctx = int_done d1 idx fn ctx"
    proof (cases "idx < 15")
      case True
      then show ?thesis using hp_byte_noidx [OF assms(1), of idx fn ctx] d1(1)
        by (auto simp: bs int_bytes_def int_start_def Let_def split: prod.splits hpack_rc.splits)
    next
      case False
      then show ?thesis using hp_byte_noidx [OF assms(1), of 15 fn ctx] d1(1) by (simp add: bs int_bytes_def int_start_def Let_def)
    qed
    also have "\<dots> = (HPACK_OK, (begin_value (put_bytes (begin_name (d1\<lparr>d_st := ST_FIRST\<rparr>)) n))\<lparr>d_st := ST_STR_HDR\<rparr>, ctx)"
      using d1(2) False by (simp add: int_done_def st(2) Let_def)
    finally show ?thesis
      using begin_value_named [of "begin_name (d1\<lparr>d_st := ST_FIRST\<rparr>)" n] d1(3) by (simp add: begin_name_def same_field_def named_def)
  next
    case True
    then obtain t where t: "bs = 0 # t" "put_string (cap - 1) n = Some t" using assms(3) by (auto simp: idx_def split: if_splits)
    let ?b = "(begin_name (?d\<lparr>d_int_for := INT_NAME, d_st := ST_FIRST\<rparr>))\<lparr>d_st := ST_STR_HDR\<rparr>"
    have 0: "hp_byte d 0 fn ctx = (HPACK_OK, ?b, ctx)"
      using hp_byte_noidx [OF assms(1), of 0 fn ctx] by (simp add: int_start_def int_done_def Let_def)
    obtain d1 where d1: "observe (hp_bytes ?b t fn ctx) = observe (str_done (put_bytes d1 n) fn ctx)" "\<not> d_str_huff d1" "same_field ?b d1"
      using feed_string [of ?b n fn ctx] assms(2) put_string_Some [OF t(2)] by auto
    have w: "\<not> d_str_which d1" "d_str_total d1 = 0" "d_name d1 = []" "d_fflags d1 = 0" "d_rep d1 = REP_NOIDX"
      using d1(3) by (simp_all add: same_field_def begin_name_def)
    have "\<not> d_str_huff (put_bytes d1 n)" "\<not> d_str_which (put_bytes d1 n)" using w d1(2) by (simp_all add: put_name_bytes)
    then have "str_done (put_bytes d1 n) fn ctx = (HPACK_OK, (begin_value (put_bytes d1 n))\<lparr>d_st := ST_STR_HDR\<rparr>, ctx)"
      by (simp add: str_done_def)
    then have "hp_bytes ?b t fn ctx = (HPACK_OK, (begin_value (put_bytes d1 n))\<lparr>d_st := ST_STR_HDR\<rparr>, ctx)"
      using d1(1) unfolding observe_eq by (metis fst_conv)
    then show ?thesis using begin_value_named [OF w, of n] by (simp add: t(1) 0 named_def)
  qed
qed

lemma feed_value:
  assumes "d_st d = ST_STR_HDR" "named n d" "length v \<le> 65536" "put_string cap v = Some bs"
  shows "\<exists>d1. observe (hp_bytes d bs fn ctx) = observe (case fn (field_of n v) ctx of (stop, ctx) \<Rightarrow> (if stop then HPACK_ERR_CB else HPACK_OK, d1, ctx)) \<and> d_st d1 = ST_FIRST"
proof -
  obtain d1 where d1: "observe (hp_bytes d bs fn ctx) = observe (str_done (put_bytes d1 v) fn ctx)" "\<not> d_str_huff d1" "same_field d d1"
    using feed_string [OF assms(1,3), of fn ctx] put_string_Some [OF assms(4)] by auto
  have w: "d_str_which d1" "d_str_total d1 = 0" "d_value d1 = []" "d_fflags d1 = name_flags n" "d_rep d1 = REP_NOIDX" "d_last_vbyte d1 = 0"
    "d_name d1 = take 32 n" "d_name_total d1 = length n"
    using d1(3) assms(2) by (simp_all add: same_field_def named_def)
  define l where "l = (v \<noteq> [] \<and> (last v = 32 \<or> last v = 9))"
  define d2 where "d2 = (put_bytes d1 v)\<lparr>d_fflags := name_flags n OR value_flags v\<rparr>"
  have "str_done (put_bytes d1 v) fn ctx = emit (put_bytes d1 v) fn ctx"
    using w(1-3) d1(2) by (simp add: str_done_def put_value_bytes)
  also have "\<dots> = (case fn (field_of n v) ctx of (stop, ctx) \<Rightarrow> (if stop then HPACK_ERR_CB else HPACK_OK, d2\<lparr>d_st := ST_FIRST\<rparr>, ctx))"
  proof -
    have "(if 0 < d_str_total (put_bytes d1 v) \<and> (d_last_vbyte (put_bytes d1 v) = 32 \<or> d_last_vbyte (put_bytes d1 v) = 9)
        then (put_bytes d1 v)\<lparr>d_fflags := d_fflags (put_bytes d1 v) OR HPACK_F_VALUE_BAD\<rparr> else put_bytes d1 v) = d2"
      using w(4) by (auto simp: put_value_bytes [OF w(1-3)] d2_def value_flags_def or.assoc)
    then have "emit (put_bytes d1 v) fn ctx = (case fn \<lparr>f_name = d_name d2, f_value = d_value d2, f_name_total = d_name_total d2,
        f_value_total = d_str_total (put_bytes d1 v), f_flags = d_fflags d2\<rparr> ctx of
        (stop, ctx) \<Rightarrow> (if stop then HPACK_ERR_CB else HPACK_OK, d2\<lparr>d_st := ST_FIRST\<rparr>, ctx))"
      using w(5) unfolding emit_def Let_def by (simp add: d2_def put_value_bytes [OF w(1-3)])
    then show ?thesis using w(7,8) by (simp add: d2_def put_value_bytes [OF w(1-3)] field_of_def)
  qed
  finally show ?thesis using d1(1) by (intro exI [of _ "d2\<lparr>d_st := ST_FIRST\<rparr>"]) simp
qed

definition collect :: "hpack_field_t \<Rightarrow> hpack_field_t list \<Rightarrow> bool \<times> hpack_field_t list" where
  "collect f fs = (False, fs @ [f])"

lemma feed_field:
  assumes "d_st d = ST_FIRST" "length n \<le> 65536" "length v \<le> 65536" "hpack_put_field cap n v = Some bs"
  shows "\<exists>d1. hp_bytes d bs collect fs = (HPACK_OK, d1, fs @ [field_of n v]) \<and> d_st d1 = ST_FIRST"
proof -
  obtain b1 b2 where b: "(if hpack_static_name_index n \<noteq> 0 then hpack_put_int cap 0 4 (hpack_static_name_index n)
      else if cap < 1 then None else map_option ((#) 0) (put_string (cap - 1) n)) = Some b1"
    "put_string (cap - length b1) v = Some b2" "bs = b1 @ b2"
  proof -
    define r where "r = (if hpack_static_name_index n \<noteq> 0 then hpack_put_int cap 0 4 (hpack_static_name_index n)
      else if cap < 1 then None else map_option ((#) 0) (put_string (cap - 1) n))"
    have "(case r of None \<Rightarrow> None | Some x \<Rightarrow> (case put_string (cap - length x) v of None \<Rightarrow> None | Some y \<Rightarrow> Some (x @ y))) = Some bs"
      using assms(4) unfolding hpack_put_field_def Let_def r_def .
    then obtain x y where "r = Some x" "put_string (cap - length x) v = Some y" "bs = x @ y" by (auto split: option.splits)
    then show ?thesis using that unfolding r_def by metis
  qed
  obtain d1 where d1: "hp_bytes d b1 collect fs = (HPACK_OK, d1, fs)" "d_st d1 = ST_STR_HDR" "named n d1"
    using feed_name [OF assms(1,2) b(1), of collect fs] by (elim exE conjE)
  obtain d2 where d2: "observe (hp_bytes d1 b2 collect fs) = observe (HPACK_OK, d2, fs @ [field_of n v])" "d_st d2 = ST_FIRST"
    using feed_value [OF d1(2,3) assms(3) b(2), of collect fs] by (auto simp: collect_def)
  then have "hp_bytes d1 b2 collect fs = (HPACK_OK, d2, fs @ [field_of n v])" unfolding observe_eq by (metis fst_conv)
  then show ?thesis using d1(1) d2(2) by (simp add: b(3) hp_bytes_append)
qed

lemma feed_fields:
  assumes "d_st d = ST_FIRST" "map (\<lambda>(n, v). hpack_put_field cap n v) hdrs = map Some pieces"
    "list_all (\<lambda>(n, v). length n \<le> 65536 \<and> length v \<le> 65536) hdrs"
  shows "\<exists>d1. hp_bytes d (concat pieces) collect fs = (HPACK_OK, d1, fs @ map (\<lambda>(n, v). field_of n v) hdrs) \<and> d_st d1 = ST_FIRST"
  using assms
proof (induction hdrs arbitrary: d pieces fs)
  case (Cons x hdrs)
  obtain n v where x: "x = (n, v)" by (rule prod.exhaust)
  obtain p ps where p: "pieces = p # ps" "hpack_put_field cap n v = Some p" "map (\<lambda>(n, v). hpack_put_field cap n v) hdrs = map Some ps"
    using Cons.prems(2) by (cases pieces) (auto simp: x)
  obtain d1 where d1: "hp_bytes d p collect fs = (HPACK_OK, d1, fs @ [field_of n v])" "d_st d1 = ST_FIRST"
    using feed_field [OF Cons.prems(1) _ _ p(2)] Cons.prems(3) by (auto simp: x)
  show ?case using Cons.IH [OF d1(2) p(3), of "fs @ [field_of n v]"] Cons.prems(3) d1(1) by (simp add: x p(1) hp_bytes_append)
qed simp

section \<open>Properties\<close>

text \<open>Header blocks may arrive split anywhere: feeding the pieces of a block one after another
  reports the same fields, ends with the same code and, unless it failed, leaves the decoder in the
  same state as feeding the whole block at once, for every block (valid or not), every split and
  every callback.\<close>

theorem hpack_streaming:
  "observe (feed_chunks (hpack_dec_begin d) chunks fn ctx) = observe (hpack_dec_feed (hpack_dec_begin d) (concat chunks) fn ctx)"
proof -
  have "str_inv (hpack_dec_begin d)" by (simp add: str_inv_def hpack_dec_begin_def)
  then show ?thesis by (simp add: feed_chunks_bytes feed_bytes)
qed

text \<open>What the encoder writes is what the decoder reports: a block of fields written by
  \<open>hpack_put_field\<close>, arriving in any pieces, is decoded to exactly these fields in order, with names
  and values cut at the capture sizes, their full lengths, and the flags that describe them;
  and the block ends cleanly.\<close>

theorem hpack_roundtrip:
  assumes "map (\<lambda>(n, v). hpack_put_field cap n v) hdrs = map Some pieces"
    "list_all (\<lambda>(n, v). length n \<le> 65536 \<and> length v \<le> 65536) hdrs" "concat chunks = concat pieces"
  shows "\<exists>d'. feed_chunks (hpack_dec_begin d) chunks collect [] = (HPACK_OK, d', map (\<lambda>(n, v). field_of n v) hdrs) \<and> hpack_dec_end d' = HPACK_OK"
proof -
  have b: "str_inv (hpack_dec_begin d)" "d_st (hpack_dec_begin d) = ST_FIRST" by (simp_all add: str_inv_def hpack_dec_begin_def)
  obtain d1 where d1: "hp_bytes (hpack_dec_begin d) (concat pieces) collect [] = (HPACK_OK, d1, map (\<lambda>(n, v). field_of n v) hdrs)" "d_st d1 = ST_FIRST"
    using feed_fields [OF b(2) assms(1,2), of "[]"] by auto
  then have "feed_chunks (hpack_dec_begin d) chunks collect [] = (HPACK_OK, d1, map (\<lambda>(n, v). field_of n v) hdrs)"
    using feed_chunks_bytes [OF b(1), of chunks collect "[]"] unfolding observe_eq assms(3) by (metis fst_conv)
  then show ?thesis using d1(2) by (simp add: hpack_dec_end_def)
qed

theorem hpack_roundtrip_witness:
  "hpack_put_field 100 (str_bytes '':method'') (str_bytes ''12'') = Some [2, 2, 49, 50] \<and>
   (\<exists>d'. feed_chunks (hpack_dec_begin (hpack_dec_init None 0 0)) [[2], [2, 49], [50]] collect [] =
      (HPACK_OK, d', [field_of (str_bytes '':method'') (str_bytes ''12'')]) \<and> hpack_dec_end d' = HPACK_OK)"
proof -
  have p: "hpack_put_field 100 (str_bytes '':method'') (str_bytes ''12'') = Some [2, 2, 49, 50]" by code_simp
  then show ?thesis
    using hpack_roundtrip [of 100 "[(str_bytes '':method'', str_bytes ''12'')]" "[[2, 2, 49, 50]]" "[[2], [2, 49], [50]]"]
    by (simp add: str_bytes_def)
qed

end
