(* ===== verification/HPACK_Huffman.thy ===== *)
theory HPACK_Huffman
  imports HPACK_Laws
begin

unbundle bit_operations_syntax

text \<open>
  The bit-serial Huffman decoder of \<open>hpack.c\<close> against the canonical code its two tables stand for:
  the codes of one length are consecutive numbers, continuing from the codes one bit shorter.
\<close>

section \<open>The canonical code\<close>

definition code_count :: "nat \<Rightarrow> nat" where
  "code_count L = (if 5 \<le> L \<and> L \<le> 30 then k_huff_count ! (L - 5) else 0)"

fun first_code :: "nat \<Rightarrow> nat" where
  "first_code 0 = 0"
| "first_code (Suc L) = 2 * (first_code L + code_count L)"

fun first_index :: "nat \<Rightarrow> nat" where
  "first_index 0 = 0"
| "first_index (Suc L) = first_index L + code_count L"

definition code_len :: "nat \<Rightarrow> nat" where
  "code_len s = hd (filter (\<lambda>L. s < first_index L + code_count L) [5..<31])"

definition code_val :: "nat \<Rightarrow> nat" where
  "code_val s = first_code (code_len s) + (s - first_index (code_len s))"

definition huff_code :: "nat \<Rightarrow> bool list" where
  "huff_code s = map (bit (code_val s)) (rev [0..<code_len s])"

text \<open>The code of a string of symbols, each given by its place in the symbol table.\<close>

definition huff_encode :: "nat list \<Rightarrow> bool list" where
  "huff_encode ss = concat (map huff_code ss)"

lemma first_code_num: "first_code (numeral k) = 2 * (first_code (pred_numeral k) + code_count (pred_numeral k))"
  by (simp add: numeral_eq_Suc)

lemma first_index_num: "first_index (numeral k) = first_index (pred_numeral k) + code_count (pred_numeral k)"
  by (simp add: numeral_eq_Suc)

lemma first_codes:
  "map first_code [0..<31] = [0, 0, 0, 0, 0, 0, 20, 92, 248, 508, 1016, 2042, 4090, 8184, 16380, 32764, 65534, 131068, 262136, 524272,
     1048550, 2097116, 4194258, 8388568, 16777194, 33554412, 67108832, 134217694, 268435426, 536870910, 1073741820]"
  by (simp add: upt_rec first_code_num code_count_def k_huff_count_def)

lemma code_tables:
  "first_code 30 + code_count 30 = 2 ^ 30" "first_index 31 = 257" "first_index 5 = 0" "first_index 30 = 253" "first_code 30 = 2 ^ 30 - 4"
  by (simp_all add: first_code_num first_index_num code_count_def k_huff_count_def)

lemma code_room: "L \<le> 30 \<Longrightarrow> first_code L + code_count L \<le> 2 ^ L"
proof (induction rule: inc_induct)
  case base
  then show ?case using code_tables(1) by simp
next
  case (step L)
  then show ?case by simp
qed

lemma code_room_strict: "L < 30 \<Longrightarrow> first_code L + code_count L < 2 ^ L"
proof -
  assume "L < 30"
  then have "L \<le> 29" by simp
  then show ?thesis
  proof (induction rule: inc_induct)
    case base
    have "first_code 30 = 2 * (first_code 29 + code_count 29)" using first_code.simps(2) [of 29] by simp
    then show ?case using code_tables(5) by simp
  next
    case (step L)
    then show ?case by simp
  qed
qed

section \<open>Reading a code bit by bit\<close>

text \<open>The decoder's registers after the bits of \<open>w\<close>, \<open>L\<close> of them, none of whose prefixes is a code.\<close>

definition regs :: "hpack_dec_t \<Rightarrow> nat \<Rightarrow> nat \<Rightarrow> hpack_dec_t" where
  "regs d L w = d\<lparr>d_hcode := of_nat (2 * w), d_hfirst := of_nat (first_code (Suc L)), d_hindex := of_nat (first_index (Suc L)), d_hlen := Suc L\<rparr>"

lemma regs_0: "regs d 0 0 = huff_reset d"
  by (simp add: regs_def huff_reset_def code_count_def)

lemma unat_of_nat32: "n < 2 ^ 32 \<Longrightarrow> unat (of_nat n :: u32) = n"
  by (simp add: unsigned_of_nat take_bit_nat_eq_self)

lemma sub_less32:
  fixes c f n :: nat
  assumes "f \<le> c" "c < 2 ^ 32" "n < 2 ^ 32"
  shows "(of_nat c - of_nat f :: u32) < of_nat n \<longleftrightarrow> c < f + n"
proof -
  have e: "(of_nat c - of_nat f :: u32) = of_nat (c - f)" using assms(1) by (simp add: of_nat_diff)
  have "c - f < 2 ^ 32" using assms(2) by linarith
  then show ?thesis unfolding e word_less_nat_alt using assms(1,3) by (simp only: unat_of_nat32) linarith
qed

lemma count_bound: "code_count L < 64"
proof -
  have "list_all (\<lambda>x. x < 64) k_huff_count" "length k_huff_count = 26" by (simp_all add: k_huff_count_def)
  moreover have "L - 5 < 26" if "L \<le> 30" using that by linarith
  ultimately show ?thesis by (simp add: code_count_def list_all_length)
qed

lemma index_mono: "L \<le> M \<Longrightarrow> first_index L \<le> first_index M"
  by (induction rule: inc_induct) simp_all

lemma put_char_regs: "huff_reset (put_char (d\<lparr>d_hcode := a, d_hfirst := b, d_hindex := e, d_hlen := n\<rparr>) c) = huff_reset (put_char d c)"
proof -
  define v where "v = (\<not> value_char_ok c \<or> (d_str_total d = 0 \<and> (c = 32 \<or> c = 9)))"
  have "huff_reset (put_name_char (d\<lparr>d_hcode := a, d_hfirst := b, d_hindex := e, d_hlen := n, d_str_total := t\<rparr>) pos c) =
      huff_reset (put_name_char (d\<lparr>d_str_total := t\<rparr>) pos c)" for t pos
    unfolding put_name_char_def huff_reset_def Let_def by simp
  moreover have "huff_reset (put_value_char (d\<lparr>d_hcode := a, d_hfirst := b, d_hindex := e, d_hlen := n, d_str_total := t\<rparr>) (d_str_total d) c) =
      huff_reset (put_value_char (d\<lparr>d_str_total := t\<rparr>) (d_str_total d) c)" for t
    unfolding put_value_char_def huff_reset_def Let_def v_def [symmetric] by simp
  ultimately show ?thesis by (simp add: put_char_def Let_def)
qed

lemma huff_bit_regs:
  assumes "L < 30" "w < 2 ^ L" "first_code (Suc L) \<le> 2 * w" "c = 2 * w + of_bool b"
  shows "huff_bit (regs d L w) b =
    (if c < first_code (Suc L) + code_count (Suc L)
     then (if first_index (Suc L) + (c - first_code (Suc L)) \<ge> 256 then (HPACK_ERR, (regs d L w)\<lparr>d_hcode := of_nat c\<rparr>)
           else (HPACK_OK, huff_reset (put_char d (k_huff_sym ! (first_index (Suc L) + (c - first_code (Suc L)))))))
     else (HPACK_OK, regs d (Suc L) c))"
    and "c < first_code (Suc L) + code_count (Suc L) \<or> Suc L < 30"
proof -
  let ?f = "first_code (Suc L)" and ?n = "code_count (Suc L)" and ?i = "first_index (Suc L)"
  have c32: "c < 2 ^ Suc L" using assms(2,4) by (cases b) simp_all
  moreover have "2 ^ Suc L \<le> (2 ^ 30 :: nat)" using assms(1) by (intro power_increasing) simp_all
  ultimately have c30: "c < 2 ^ 30" by linarith
  have fc: "?f \<le> c" using assms(3,4) by simp
  show safe: "c < ?f + ?n \<or> Suc L < 30"
  proof (cases "Suc L = 30")
    case True
    then show ?thesis using code_tables(1) c30 by simp
  qed (use assms(1) in simp)
  have n64: "?n < 64" by (rule count_bound)
  have code: "d_hcode (regs d L w) OR (if b then 1 else 0) = of_nat c"
    by (simp add: regs_def assms(4) or_one_eq)
  have less: "(of_nat c - of_nat ?f :: u32) < of_nat ?n \<longleftrightarrow> c < ?f + ?n"
    using fc c30 n64 by (intro sub_less32) simp_all
  have si: "(of_nat ?i + (of_nat c - of_nat ?f) :: u32) = of_nat (?i + (c - ?f))" using fc by (simp add: of_nat_diff)
  have i: "?i \<le> 257" using index_mono [of "Suc L" 31] code_tables(2) assms(1) by simp
  have u: "unat (of_nat (?i + (c - ?f)) :: u32) = ?i + (c - ?f)" using i c30 by (intro unat_of_nat32) simp
  have eos: "(of_nat (?i + (c - ?f)) :: u32) \<ge> HUFF_EOS_IDX \<longleftrightarrow> ?i + (c - ?f) \<ge> 256"
    unfolding word_le_nat_alt u by (simp add: HUFF_EOS_IDX_def)
  define d0 where "d0 = (regs d L w)\<lparr>d_hcode := of_nat c\<rparr>"
  have d0: "d_hcode d0 = of_nat c" "d_hfirst d0 = of_nat ?f" "d_hindex d0 = of_nat ?i" "d_hlen d0 = Suc L" by (simp_all add: d0_def regs_def)
  have cnt: "(if d_hlen d0 \<ge> HUFF_MIN_LEN then of_nat (k_huff_count ! (d_hlen d0 - HUFF_MIN_LEN)) else 0) = (of_nat ?n :: u32)"
    using assms(1) unfolding d0 by (simp add: code_count_def HUFF_MIN_LEN_def)
  have bit: "huff_bit (regs d L w) b = (if c < ?f + ?n
     then (if ?i + (c - ?f) \<ge> 256 then (HPACK_ERR, d0) else (HPACK_OK, huff_reset (put_char d0 (k_huff_sym ! (?i + (c - ?f))))))
     else if Suc L \<ge> HUFF_MAX_LEN then (HPACK_ERR, d0)
     else (HPACK_OK, d0\<lparr>d_hindex := of_nat ?i + of_nat ?n, d_hfirst := push_bit 1 (of_nat ?f + of_nat ?n), d_hcode := push_bit 1 (of_nat c), d_hlen := Suc L + 1\<rparr>))"
    unfolding huff_bit_def Let_def code d0_def [symmetric] cnt unfolding d0 less si eos u ..
  have up: "d0\<lparr>d_hindex := of_nat ?i + of_nat ?n, d_hfirst := push_bit 1 (of_nat ?f + of_nat ?n), d_hcode := push_bit 1 (of_nat c), d_hlen := Suc L + 1\<rparr> = regs d (Suc L) c"
    by (simp add: d0_def regs_def push_bit_eq_mult)
  have char: "huff_reset (put_char d0 x) = huff_reset (put_char d x)" for x
  proof -
    have "d0 = d\<lparr>d_hcode := of_nat c, d_hfirst := of_nat ?f, d_hindex := of_nat ?i, d_hlen := Suc L\<rparr>"
      unfolding d0_def regs_def by (cases d) simp
    then show ?thesis by (simp only: put_char_regs)
  qed
  have len: "\<not> HUFF_MAX_LEN \<le> Suc L" if "\<not> c < ?f + ?n" using safe that by (simp add: HUFF_MAX_LEN_def del: first_code.simps)
  show "huff_bit (regs d L w) b =
    (if c < ?f + ?n then (if ?i + (c - ?f) \<ge> 256 then (HPACK_ERR, (regs d L w)\<lparr>d_hcode := of_nat c\<rparr>)
           else (HPACK_OK, huff_reset (put_char d (k_huff_sym ! (?i + (c - ?f)))))) else (HPACK_OK, regs d (Suc L) c))"
    unfolding d0_def [symmetric] bit up char using len by (cases "c < ?f + ?n") (simp_all only: if_True if_False simp_thms)
qed

text \<open>A code is reached past its prefixes, none of which is a code.\<close>

lemma code_prefix: "k < L \<Longrightarrow> first_code L \<le> v \<Longrightarrow> first_code k + code_count k \<le> v div 2 ^ (L - k)"
proof (induction "L - k" arbitrary: L v)
  case (Suc n)
  obtain M where M: "L = Suc M" using Suc.prems(1) by (cases L) simp_all
  have v2: "first_code M + code_count M \<le> v div 2" using Suc.prems(2) by (simp add: M)
  show ?case
  proof (cases "k = M")
    case True
    then show ?thesis using v2 M by simp
  next
    case False
    then have "k < M" "n = M - k" using Suc.prems(1) Suc.hyps(2) M by simp_all
    then have "first_code k + code_count k \<le> v div 2 div 2 ^ (M - k)" using Suc.hyps(1) [of M "v div 2"] v2 by simp
    moreover have "2 ^ (L - k) = (2 * 2 ^ (M - k) :: nat)" using \<open>k < M\<close> M by (simp add: Suc_diff_le)
    ultimately show ?thesis by (simp add: div_mult2_eq)
  qed
qed simp

lemma first_le_prefix: "k < L \<Longrightarrow> first_code L \<le> v \<Longrightarrow> first_code (Suc k) \<le> 2 * (v div 2 ^ (L - k))"
  using code_prefix [of k L v] by simp

lemma read_prefix:
  assumes "first_code L \<le> v" "v < 2 ^ L" "L \<le> 30" "k < L"
  shows "huff_bits (huff_reset d) (map (bit v) (rev [L - k..<L]) @ rest) = huff_bits (regs d k (v div 2 ^ (L - k))) rest"
  using assms(4)
proof (induction k arbitrary: rest)
  case 0
  then show ?case using assms(2) by (simp add: regs_0)
next
  case (Suc k)
  let ?w = "v div 2 ^ (L - k)" and ?b = "bit v (L - Suc k)"
  have step: "rev [L - Suc k..<L] = rev [L - k..<L] @ [L - Suc k]"
    using Suc.prems by (subst upt_conv_Cons) (simp_all add: Suc_diff_Suc)
  have c: "v div 2 ^ (L - Suc k) = 2 * ?w + of_bool ?b"
  proof -
    have "2 ^ (L - k) = (2 ^ (L - Suc k) * 2 :: nat)" using Suc.prems by (simp add: power_Suc2 [symmetric] Suc_diff_Suc del: power_Suc2)
    then have "?w = v div 2 ^ (L - Suc k) div 2" by (simp add: div_mult2_eq)
    moreover have "of_bool ?b = v div 2 ^ (L - Suc k) mod 2" by (simp add: bit_iff_odd odd_iff_mod_2_eq_one)
    ultimately show ?thesis by simp
  qed
  have w: "?w < 2 ^ k"
  proof -
    have "v < 2 ^ k * 2 ^ (L - k)" using assms(2) Suc.prems by (simp add: power_add [symmetric])
    then show ?thesis by (simp add: div_less_iff_less_mult)
  qed
  have fw: "first_code (Suc k) \<le> 2 * ?w" using first_le_prefix [of k L v] assms(1) Suc.prems by simp
  have nc: "\<not> v div 2 ^ (L - Suc k) < first_code (Suc k) + code_count (Suc k)"
    using code_prefix [of "Suc k" L v] assms(1) Suc.prems by simp
  have "huff_bit (regs d k ?w) ?b = (HPACK_OK, regs d (Suc k) (v div 2 ^ (L - Suc k)))"
    using huff_bit_regs(1) [OF _ w fw c, of d] Suc.prems assms(3) nc by simp
  then show ?case using Suc.IH [of "?b # rest"] Suc.prems by (simp add: step)
qed

lemma code_len_bounds:
  assumes "s < 257"
  shows "5 \<le> code_len s" "code_len s \<le> 30" "first_index (code_len s) \<le> s" "s < first_index (code_len s) + code_count (code_len s)"
proof -
  define P where "P = (\<lambda>L. s < first_index L + code_count L)"
  have P30: "P 30" using assms code_tables(2) first_index.simps(2) [of 30] by (simp add: P_def)
  have ne: "filter P [5..<31] \<noteq> []" unfolding filter_empty_conv set_upt using P30 by (intro notI) (drule bspec [of _ _ 30], simp_all)
  then obtain L ls where l: "filter P [5..<31] = L # ls" by (metis list.exhaust)
  then have L: "code_len s = L" unfolding code_len_def P_def [symmetric] by (simp only: list.sel)
  obtain us vs where u: "[5..<31] = us @ L # vs" "\<forall>x \<in> set us. \<not> P x" "P L" using l filter_eq_ConsD by metis
  have len: "length us < 26" using arg_cong [OF u(1), of length] by simp
  have "[5..<31] ! length us = L" unfolding u(1) by simp
  moreover have "[5..<31] ! length us = 5 + length us" using len by (intro nth_upt) simp
  ultimately have L5: "L = 5 + length us" by simp
  have "us = take (length us) [5..<31]" unfolding u(1) by simp
  also have "\<dots> = [5..<L]" unfolding L5 using len by (intro take_upt) simp
  finally have us: "us = [5..<L]" "5 \<le> L" "L \<le> 30" using L5 len by simp_all
  show "5 \<le> code_len s" "code_len s \<le> 30" using us L by simp_all
  show "s < first_index (code_len s) + code_count (code_len s)" using u(3) L by (simp add: P_def)
  show "first_index (code_len s) \<le> s"
  proof (cases "L = 5")
    case True
    then show ?thesis using L code_tables(3) by simp
  next
    case False
    then obtain M where M: "L = Suc M" "M \<in> set us" using us by (cases L) auto
    then have "\<not> P M" using u(2) by blast
    then show ?thesis using L M by (simp add: P_def)
  qed
qed

lemma read_code:
  assumes "s < 257"
  shows "huff_bits (huff_reset d) (huff_code s @ rest) =
    (if s < 256 then huff_bits (huff_reset (put_char d (k_huff_sym ! s))) rest
     else (HPACK_ERR, (regs d 29 (code_val s div 2))\<lparr>d_hcode := of_nat (code_val s)\<rparr>))"
proof -
  obtain k where k: "code_len s = Suc k" using code_len_bounds(1) [OF assms] by (cases "code_len s") simp_all
  note b = code_len_bounds [OF assms, unfolded k]
  let ?v = "code_val s"
  have v: "first_code (Suc k) \<le> ?v" "?v < first_code (Suc k) + code_count (Suc k)" "?v < 2 ^ Suc k"
    using b code_room [OF b(2)] by (simp_all add: code_val_def k)
  have si: "first_index (Suc k) + (?v - first_code (Suc k)) = s" using b by (simp add: code_val_def k)
  have c: "?v = 2 * (?v div 2) + of_bool (bit ?v 0)" by (simp add: bit_0 of_bool_odd_eq_mod_2)
  have w: "?v div 2 < 2 ^ k" "first_code (Suc k) \<le> 2 * (?v div 2)" using v(3) first_le_prefix [of k "Suc k" ?v] v(1) by simp_all
  have code: "huff_code s = map (bit ?v) (rev [1..<Suc k]) @ [bit ?v 0]"
    by (simp add: huff_code_def k upt_conv_Cons del: upt_Suc)
  have bit: "huff_bit (regs d k (?v div 2)) (bit ?v 0) =
    (if s < 256 then (HPACK_OK, huff_reset (put_char d (k_huff_sym ! s))) else (HPACK_ERR, (regs d k (?v div 2))\<lparr>d_hcode := of_nat ?v\<rparr>))"
    using huff_bit_regs(1) [OF _ w c, of d] b(2) v(2) si by simp
  have k29: "k = 29" if "\<not> s < 256"
  proof -
    have "s = 256" using that assms by simp
    then show ?thesis using b(2,4) index_mono [of "Suc (Suc k)" 30] code_tables(4) by (cases "Suc k = 30") simp_all
  qed
  have "huff_bits (huff_reset d) (huff_code s @ rest) = huff_bits (regs d k (?v div 2)) (bit ?v 0 # rest)"
    using read_prefix [OF v(1,3) b(2), of k d "bit ?v 0 # rest"] by (simp add: code)
  then have run: "huff_bits (huff_reset d) (huff_code s @ rest) =
      (case huff_bit (regs d k (?v div 2)) (bit ?v 0) of (HPACK_OK, d) \<Rightarrow> huff_bits d rest | (rc, d) \<Rightarrow> (rc, d))" by simp
  show ?thesis
  proof (cases "s < 256")
    case True
    then show ?thesis unfolding run bit by simp
  next
    case False
    then show ?thesis unfolding run bit using k29 by simp
  qed
qed

section \<open>Whole strings\<close>

text \<open>The bits of a number, most significant first.\<close>

definition num_bits :: "nat \<Rightarrow> nat \<Rightarrow> bool list" where
  "num_bits L w = map (bit w) (rev [0..<L])"

lemma num_bits_0: "num_bits 0 w = []"
  by (simp add: num_bits_def)

lemma num_bits_Suc: "num_bits (Suc L) (2 * w + of_bool b) = num_bits L w @ [b]"
proof -
  have "map (bit (2 * w + of_bool b)) (rev [Suc 0..<Suc L]) = map (bit w) (rev [0..<L])"
    unfolding map_Suc_upt [symmetric] rev_map map_map by (rule map_cong) (auto simp: bit_Suc)
  then show ?thesis by (simp add: num_bits_def upt_conv_Cons bit_0 del: upt_Suc)
qed

lemma ones_Suc: "2 ^ Suc k - 1 = 2 * (2 ^ k - 1 :: nat) + of_bool True"
  by (cases "2 ^ k :: nat") simp_all

lemma num_bits_ones: "num_bits L (2 ^ L - 1) = replicate L True"
proof (induction L)
  case (Suc L)
  show ?case unfolding ones_Suc num_bits_Suc Suc.IH by (simp add: replicate_append_same)
qed (simp add: num_bits_0)

lemma code_len_unique:
  assumes "first_index M \<le> s" "s < first_index M + code_count M" "s < 257"
  shows "code_len s = M"
proof (rule ccontr)
  assume "code_len s \<noteq> M"
  then consider "Suc (code_len s) \<le> M" | "Suc M \<le> code_len s" by linarith
  then show False using index_mono [of "Suc (code_len s)" M] index_mono [of "Suc M" "code_len s"] code_len_bounds [OF assms(3)] assms(1,2)
    by cases simp_all
qed

lemma huff_code_of:
  assumes "first_code M \<le> c" "c < first_code M + code_count M" "s = first_index M + (c - first_code M)" "s < 257"
  shows "huff_code s = num_bits M c"
proof -
  have "code_len s = M" using assms by (intro code_len_unique) simp_all
  then show ?thesis using assms(1,3) by (simp add: huff_code_def num_bits_def code_val_def)
qed

lemma read_ones:
  assumes "p \<le> 7"
  shows "huff_bits (huff_reset d) (replicate p True) = (HPACK_OK, regs d p (2 ^ p - 1))"
proof -
  have "huff_bits (huff_reset d) (replicate k True @ rest) = huff_bits (regs d k (2 ^ k - 1)) rest" if "k \<le> 7" for k rest
    using that
  proof (induction k arbitrary: rest)
    case (Suc k)
    have k: "first_code (Suc k) \<le> 2 * (2 ^ k - 1)" using code_room_strict [of k] Suc.prems by simp
    have "\<not> 2 ^ Suc k - 1 < first_code (Suc k) + code_count (Suc k)" using code_room_strict [of "Suc k"] Suc.prems by simp
    then have "huff_bit (regs d k (2 ^ k - 1)) True = (HPACK_OK, regs d (Suc k) (2 ^ Suc k - 1))"
      using huff_bit_regs(1) [OF _ _ k ones_Suc, of d] Suc.prems by simp
    then show ?case using Suc.IH [of "True # rest"] Suc.prems by (simp add: replicate_app_Cons_same)
  qed (simp add: regs_0)
  from this [of p "[]"] assms show ?thesis by simp
qed

lemma read_string:
  "list_all (\<lambda>s. s < 256) ss \<Longrightarrow>
   huff_bits (huff_reset d) (huff_encode ss @ rest) = huff_bits (huff_reset (put_bytes d (map ((!) k_huff_sym) ss))) rest"
  by (induction ss arbitrary: d) (simp_all add: huff_encode_def put_bytes_def read_code)

definition pad_ok :: "hpack_dec_t \<Rightarrow> bool" where
  "pad_ok d \<longleftrightarrow> d_hlen d - 1 \<le> 7 \<and> drop_bit 1 (d_hcode d) = push_bit (d_hlen d - 1) 1 - 1"

lemma pad_ok_regs: "L < 30 \<Longrightarrow> w < 2 ^ L \<Longrightarrow> pad_ok (regs d L w) \<longleftrightarrow> L \<le> 7 \<and> w = 2 ^ L - 1"
proof -
  assume L: "L < 30" and w: "w < 2 ^ L"
  have "2 ^ L \<le> (2 ^ 30 :: nat)" using L by (intro power_increasing) simp_all
  then have w30: "w < 2 ^ 30" "2 ^ L - 1 < (2 ^ 30 :: nat)" using w by linarith+
  then have w32: "w < 2 ^ 32" "2 ^ L - 1 < (2 ^ 32 :: nat)" by simp_all
  have u: "unat (of_nat (2 * w) :: u32) = 2 * w" using w30 by (intro unat_of_nat32) simp
  have "drop_bit 1 (of_nat (2 * w) :: u32) = of_nat w"
    unfolding word_unat_eq_iff unat_drop_bit_eq u using w30 by (subst unat_of_nat32) (simp_all add: drop_bit_eq_div)
  moreover have "(push_bit L 1 - 1 :: u32) = of_nat (2 ^ L - 1)" by (simp add: push_bit_eq_mult of_nat_diff)
  moreover have "(of_nat w :: u32) = of_nat (2 ^ L - 1) \<longleftrightarrow> w = 2 ^ L - 1"
    unfolding word_unat_eq_iff using w32 by (simp only: unat_of_nat32)
  ultimately show ?thesis by (simp add: pad_ok_def regs_def del: of_nat_mult of_nat_diff)
qed

lemma read_back:
  assumes "huff_bits (regs d L w) bits = (HPACK_OK, d')" "pad_ok d'" "L < 30" "w < 2 ^ L" "first_code (Suc L) \<le> 2 * w"
  shows "\<exists>ss p. list_all (\<lambda>s. s < 256) ss \<and> p \<le> 7 \<and> num_bits L w @ bits = huff_encode ss @ replicate p True \<and>
           d' = regs (put_bytes d (map ((!) k_huff_sym) ss)) p (2 ^ p - 1)"
  using assms
proof (induction bits arbitrary: d L w)
  case Nil
  then have "d' = regs d L w" "L \<le> 7" "w = 2 ^ L - 1" using pad_ok_regs [of L w d] by auto
  then have "num_bits L w = huff_encode [] @ replicate L True" "d' = regs (put_bytes d (map ((!) k_huff_sym) [])) L (2 ^ L - 1)"
    by (simp_all add: huff_encode_def put_bytes_def num_bits_ones del: One_nat_def)
  then show ?case using \<open>L \<le> 7\<close> by (intro exI [of _ "[]"] exI [of _ L]) simp
next
  case (Cons b bits)
  define c where "c = 2 * w + of_bool b"
  define s where "s = first_index (Suc L) + (c - first_code (Suc L))"
  have nb: "num_bits (Suc L) c = num_bits L w @ [b]" unfolding c_def by (rule num_bits_Suc)
  have fc: "first_code (Suc L) \<le> c" using Cons.prems(5) by (simp add: c_def)
  note step = huff_bit_regs(1) [OF Cons.prems(3-5) c_def, of d, folded s_def] huff_bit_regs(2) [OF Cons.prems(3-5) c_def]
  show ?case
  proof (cases "c < first_code (Suc L) + code_count (Suc L)")
    case True
    then have s: "s < 256" using Cons.prems(1) step(1) by (cases "256 \<le> s") simp_all
    let ?d = "put_char d (k_huff_sym ! s)"
    have "huff_bits (regs ?d 0 0) bits = (HPACK_OK, d')" using Cons.prems(1) step(1) True s by (simp add: regs_0)
    from Cons.IH [OF this Cons.prems(2)] obtain ss p where
      *: "list_all (\<lambda>s. s < 256) ss" "p \<le> 7" "bits = huff_encode ss @ replicate p True" "d' = regs (put_bytes ?d (map ((!) k_huff_sym) ss)) p (2 ^ p - 1)"
      by (auto simp: num_bits_0 code_count_def)
    have "huff_code s = num_bits L w @ [b]" using huff_code_of [OF fc True s_def] s nb by simp
    then show ?thesis using * s by (intro exI [of _ "s # ss"] exI [of _ p]) (simp add: huff_encode_def put_bytes_def)
  next
    case False
    then have "Suc L < 30" using step(2) by simp
    moreover have "c < 2 ^ Suc L" using Cons.prems(4) by (cases b) (simp_all add: c_def)
    moreover have "huff_bits (regs d (Suc L) c) bits = (HPACK_OK, d')" using Cons.prems(1) step(1) False by simp
    moreover have "first_code (Suc (Suc L)) \<le> 2 * c" using False by simp
    ultimately show ?thesis using Cons.IH [of d "Suc L" c] Cons.prems(2) nb by simp
  qed
qed

lemma huff_bits_append: "huff_bits d (xs @ ys) = (case huff_bits d xs of (HPACK_OK, d) \<Rightarrow> huff_bits d ys | (rc, d) \<Rightarrow> (rc, d))"
  by (induction xs arbitrary: d) (auto split: prod.splits hpack_rc.splits)

lemma huff_run_bits: "huff_run d bs = huff_bits d (concat (map byte_bits bs))"
  by (induction bs arbitrary: d) (auto simp: huff_byte_def huff_bits_append split: prod.splits hpack_rc.splits)

text \<open>C40: The bit-serial Huffman decoder accepts exactly the padded codes.  Reading the bytes \<open>bs\<close> from a
  reset decoder ends without an error, with padding that \<open>str_done\<close> lets through, if and only if the bits
  of \<open>bs\<close> are the canonical codes of some symbols, none of them the end-of-string code, followed by at
  most seven one bits; and then the characters stored are those of the symbols, in order, with the flags
  and limits a plain literal of the same characters would have met.
\<close>

theorem huffman_exact:
  "(huff_run (huff_reset d) bs = (HPACK_OK, d') \<and> d_hlen d' - 1 \<le> 7 \<and> drop_bit 1 (d_hcode d') = push_bit (d_hlen d' - 1) 1 - 1) \<longleftrightarrow>
   (\<exists>ss p. list_all (\<lambda>s. s < 256) ss \<and> p \<le> 7 \<and> concat (map byte_bits bs) = huff_encode ss @ replicate p True \<and>
      d' = regs (put_bytes d (map ((!) k_huff_sym) ss)) p (2 ^ p - 1))"
  (is "?run \<longleftrightarrow> ?code")
proof
  assume ?run
  then show ?code using read_back [of d 0 0 "concat (map byte_bits bs)" d']
    by (simp add: pad_ok_def regs_0 huff_run_bits num_bits_0 code_count_def del: One_nat_def)
next
  assume ?code
  then obtain ss p where *: "list_all (\<lambda>s. s < 256) ss" "p \<le> 7" "concat (map byte_bits bs) = huff_encode ss @ replicate p True"
      "d' = regs (put_bytes d (map ((!) k_huff_sym) ss)) p (2 ^ p - 1)" by blast
  then have "huff_run (huff_reset d) bs = (HPACK_OK, d')" unfolding huff_run_bits by (simp only: read_string read_ones)
  moreover have "pad_ok d'" using * pad_ok_regs [of p "2 ^ p - 1"] by (simp del: One_nat_def)
  ultimately show ?run by (simp add: pad_ok_def del: One_nat_def)
qed

end
