(* ===== verification/H2_Laws.thy ===== *)
theory H2_Laws
  imports H2_Core HPACK_Laws
begin

unbundle bit_operations_syntax

text \<open>
  Laws of the HTTP/2 engine.  Most handlers are \<open>calm\<close>: they stage frames, report events, note what a
  response said or close a stream, but leave the windows, the settings and the frame parser alone.  The
  invariant of the engine is proved from that relation and from the few operations that move a window.
\<close>

section \<open>Calm handlers\<close>

definition flow_regs :: "h2_core_t \<Rightarrow> (int \<times> int \<times> int) \<times> (nat \<times> nat) \<times> nat \<times> nat \<times> bool \<times> bool" where
  "flow_regs h = ((h_conn_send_win h, h_conn_recv_win h, h_conn_consumed h), (h_peer_initial_win h, h_peer_max_frame h),
     h_next_id h, h_last_id h, h_started h, h_sent_size_update h)"

definition stream_flow :: "h2_stream_t \<Rightarrow> (bool \<times> nat \<times> bool) \<times> (int \<times> int \<times> int) \<times> bytes \<times> nat" where
  "stream_flow s = ((s_open s, s_id s, s_local_end s), (s_send_win s, s_recv_win s, s_consumed s), s_body s, s_body_off s)"

definition kept :: "h2_stream_t \<Rightarrow> h2_stream_t \<Rightarrow> bool" where
  "kept s s' \<longleftrightarrow> \<not> s_open s' \<or> stream_flow s' = stream_flow s"

definition ids_differ :: "h2_core_t \<Rightarrow> bool" where
  "ids_differ h \<longleftrightarrow> \<not> (s_open (h_s h) \<and> s_open (h_side h) \<and> s_id (h_s h) = s_id (h_side h))"

definition calm :: "h2_core_t \<Rightarrow> h2_core_t \<Rightarrow> bool" where
  "calm h h' \<longleftrightarrow> parser_regs h' = parser_regs h \<and> flow_regs h' = flow_regs h \<and> (\<forall>w. kept (h2_get w h) (h2_get w h')) \<and>
     (ids_differ h \<longrightarrow> (\<forall>w. s_open (h2_get w h') \<and> s_id (h2_get w h) = h_f_sid h \<longrightarrow> h_f_ignore h' = h_f_ignore h)) \<and>
     (length (h_ctl h) \<le> H2_CTL_CAP \<longrightarrow> length (h_ctl h') \<le> H2_CTL_CAP) \<and> (h_dead h \<longrightarrow> h_dead h')"

lemma which_all: "(\<forall>w. P w) \<longleftrightarrow> P H2_MAIN \<and> P H2_SIDE"
  by (metis h2_which.exhaust)

lemma get_put [simp]: "h2_get v (h2_put w s h) = (if v = w then s else h2_get v h)"
  by (cases v; cases w) simp_all

lemma kept_refl [simp]: "kept s s"
  by (simp add: kept_def)

lemma kept_trans: "kept a b \<Longrightarrow> kept b c \<Longrightarrow> kept a c"
  by (auto simp: kept_def stream_flow_def)

lemma kept_ids: "kept s s' \<Longrightarrow> s_open s' \<Longrightarrow> s_open s \<and> s_id s' = s_id s"
  by (auto simp: kept_def stream_flow_def)

lemma ids_differ_get: "ids_differ h \<longleftrightarrow> \<not> (s_open (h2_get H2_MAIN h) \<and> s_open (h2_get H2_SIDE h) \<and> s_id (h2_get H2_MAIN h) = s_id (h2_get H2_SIDE h))"
  by (simp add: ids_differ_def)

lemma calm_ids: "calm h h' \<Longrightarrow> ids_differ h \<Longrightarrow> ids_differ h'"
  unfolding calm_def ids_differ_get which_all by (metis kept_ids)

lemma calm_refl [simp]: "calm h h"
  by (simp add: calm_def)

lemma calm_trans: "calm a b \<Longrightarrow> calm b c \<Longrightarrow> calm a c"
proof -
  assume ab: "calm a b" and bc: "calm b c"
  have id: "ids_differ a \<Longrightarrow> ids_differ b" using ab by (rule calm_ids)
  have k: "kept (h2_get w a) (h2_get w b)" "kept (h2_get w b) (h2_get w c)" for w using ab bc by (simp_all add: calm_def)
  have sid: "h_f_sid b = h_f_sid a" using ab by (simp add: calm_def parser_regs_def)
  have "h_f_ignore c = h_f_ignore a" if "ids_differ a" "s_open (h2_get w c)" "s_id (h2_get w a) = h_f_sid a" for w
  proof -
    have o: "s_open (h2_get w b)" "s_id (h2_get w b) = h_f_sid b" using kept_ids [OF k(2) that(2)] kept_ids [OF k(1)] that(3) sid by auto
    have "h_f_ignore c = h_f_ignore b" using bc id that(1,2) o(2) unfolding calm_def by blast
    moreover have "h_f_ignore b = h_f_ignore a" using ab that(1,3) o(1) unfolding calm_def by blast
    ultimately show ?thesis by simp
  qed
  then show ?thesis using ab bc k kept_trans unfolding calm_def by metis
qed

text \<open>A handler's step from a calm successor is calm.\<close>

lemma calm_upd [simp]:
  "calm h (h\<lparr>h_io := l\<rparr>)" "calm h (h\<lparr>h_dead := True\<rparr>)" "calm h (h\<lparr>h_cont_sid := n\<rparr>)" "calm h (h\<lparr>h_hpack := d\<rparr>)"
  "calm h (h\<lparr>h_ctl := []\<rparr>)" "calm h (h\<lparr>h_goaway := b, h_goaway_last := n, h_io := l\<rparr>)"
  "calm h (h\<lparr>h_peer_enable_connect := n\<rparr>)" "calm h (h\<lparr>h_peer_max_streams := n\<rparr>)" "calm h (h\<lparr>h_settings_unacked := n\<rparr>)"
  by (simp_all add: calm_def parser_regs_def flow_regs_def which_all ids_differ_def)

lemma calm_put: "kept (h2_get w h) s \<Longrightarrow> calm h (h2_put w s h)"
  by (cases w) (simp_all add: calm_def parser_regs_def flow_regs_def which_all)

lemma calm_flush [simp]: "calm h (snd (ctl_flush E h))"
  by (simp add: ctl_flush_def Let_def calm_def parser_regs_def flow_regs_def which_all)

lemma put_fh_length [simp]: "length (put_fh n t f i) = 9" "length (put32 v) = 4"
  by (simp_all add: put_fh_def put32_def)

lemma ctl_flush_ctl: "h_ctl (snd (ctl_flush E h)) = []"
  by (simp add: ctl_flush_def Let_def)

lemma calm_append:
  "length (h_ctl h) + length x \<le> H2_CTL_CAP \<Longrightarrow> calm h (h\<lparr>h_ctl := h_ctl h @ x\<rparr>)"
  by (simp add: calm_def parser_regs_def flow_regs_def which_all)

lemma calm_frame [simp]:
  assumes "length p \<le> 55"
  shows "calm h (snd (ctl_frame E h t f i p))"
proof (cases "length (h_ctl h) + H2_FRAME_HDR_LEN + length p > H2_CTL_CAP")
  case True
  let ?h = "snd (ctl_flush E h)"
  have "calm ?h (?h\<lparr>h_ctl := h_ctl ?h @ put_fh (length p) t f i @ p\<rparr>)"
    using assms by (intro calm_append) (simp add: ctl_flush_ctl H2_CTL_CAP_def)
  then have "calm h (?h\<lparr>h_ctl := h_ctl ?h @ put_fh (length p) t f i @ p\<rparr>)" by (rule calm_trans [OF calm_flush])
  then show ?thesis using True by (simp add: ctl_frame_def case_prod_beta)
next
  case False
  then show ?thesis by (simp add: ctl_frame_def calm_append H2_FRAME_HDR_LEN_def)
qed

lemma calm_u32 [simp]: "calm h (snd (ctl_u32 E h t i v))"
  by (simp add: ctl_u32_def)

lemma calm_conn_error [simp]: "calm h (snd (conn_error E h c))"
proof -
  let ?h = "snd (ctl_frame E h H2_GOAWAY 0 0 (put32 0 @ put32 c))"
  have "calm h ?h" by simp
  moreover from this have "calm h (snd (ctl_flush E ?h))" by (rule calm_trans) simp
  ultimately show ?thesis by (auto simp: conn_error_def Let_def case_prod_beta intro: calm_trans [OF _ calm_upd(2)])
qed

lemma kept_closed [simp]: "kept s (close_stream s' c)"
  by (simp add: kept_def close_stream_def)

lemma stream_of_SomeD: "stream_of h i = Some w \<Longrightarrow> s_open (h2_get w h) \<and> s_id (h2_get w h) = i"
  by (auto simp: stream_of_def split: if_splits)

lemma stream_of_iff: "ids_differ h \<Longrightarrow> stream_of h i = Some w \<longleftrightarrow> s_open (h2_get w h) \<and> s_id (h2_get w h) = i"
  by (cases w) (auto simp: stream_of_def ids_differ_def)

lemma get_upd [simp]:
  "h2_get w (h\<lparr>h_f_ignore := b, h_blk_error := e\<rparr>) = h2_get w h" "h2_get w (h\<lparr>h_io := l\<rparr>) = h2_get w h" "h2_get w (h\<lparr>h_hpack := d\<rparr>) = h2_get w h"
  "h2_get w (h\<lparr>h_cont_sid := n\<rparr>) = h2_get w h" "h2_get w (h\<lparr>h_conn_recv_win := i\<rparr>) = h2_get w h" "h2_get w (h\<lparr>h_conn_send_win := i\<rparr>) = h2_get w h"
  "h2_get w (h\<lparr>h_conn_consumed := i\<rparr>) = h2_get w h" "h2_get w (h\<lparr>h_f_ignore := b\<rparr>) = h2_get w h" "h2_get w (h\<lparr>h_f_left := n\<rparr>) = h2_get w h"
  by (cases w; simp)+

lemma get_ctl [simp]: "h2_get w (snd (ctl_u32 E h t i v)) = h2_get w h" "h2_get w (snd (ctl_frame E h t f i p)) = h2_get w h"
proof -
  show f: "h2_get w (snd (ctl_frame E h t f i p)) = h2_get w h" for f p by (cases w) (simp_all add: ctl_frame_def ctl_flush_def Let_def case_prod_beta)
  then show "h2_get w (snd (ctl_u32 E h t i v)) = h2_get w h" by (simp add: ctl_u32_def)
qed

lemma ids_differD: "ids_differ h \<Longrightarrow> v \<noteq> w \<Longrightarrow> s_open (h2_get v h) \<Longrightarrow> s_open (h2_get w h) \<Longrightarrow> s_id (h2_get v h) \<noteq> s_id (h2_get w h)"
  by (cases v; cases w) (auto simp: ids_differ_def)

lemma calm_ignore:
  assumes "calm h g" "\<And>w. ids_differ h \<Longrightarrow> s_open (h2_get w g) \<Longrightarrow> s_id (h2_get w h) \<noteq> h_f_sid h"
  shows "calm h (g\<lparr>h_f_ignore := True, h_blk_error := True\<rparr>)"
proof -
  have "parser_regs (g\<lparr>h_f_ignore := True, h_blk_error := True\<rparr>) = parser_regs g" "flow_regs (g\<lparr>h_f_ignore := True, h_blk_error := True\<rparr>) = flow_regs g"
    by (simp_all add: parser_regs_def flow_regs_def)
  then show ?thesis using assms by (auto simp: calm_def)
qed

lemma calm_stream_error [simp]: "calm h (snd (stream_error E h c))"
proof (cases "stream_of h (h_f_sid h)")
  case None
  have "\<not> s_open (h2_get w h)" if "s_id (h2_get w h) = h_f_sid h" for w using None that by (cases w) (auto simp: stream_of_def split: if_splits)
  then have "calm h (h\<lparr>h_f_ignore := True, h_blk_error := True\<rparr>)" by (intro calm_ignore) auto
  then show ?thesis using None by (simp add: stream_error_def)
next
  case (Some w)
  note w = stream_of_SomeD [OF Some]
  let ?h = "snd (ctl_u32 E h H2_RST_STREAM (s_id (h2_get w h)) c)"
  let ?g = "h2_put w (close_stream (h2_get w ?h) c) ?h"
  have g: "calm h ?g" by (rule calm_trans [OF calm_u32 calm_put]) simp
  have "calm h (?g\<lparr>h_f_ignore := True, h_blk_error := True\<rparr>)"
  proof (rule calm_ignore [OF g])
    fix v assume v: "ids_differ h" "s_open (h2_get v ?g)"
    then have "v \<noteq> w" "s_open (h2_get v h)" by (auto simp: close_stream_def split: if_splits)
    then show "s_id (h2_get v h) \<noteq> h_f_sid h" using ids_differD [OF v(1), of v w] w by simp
  qed
  then show ?thesis using Some by (simp add: stream_error_def case_prod_beta Let_def)
qed

lemma calm_bool: "calm h a \<Longrightarrow> calm h b \<Longrightarrow> calm h (if x then a else b)"
  by simp

lemma calm_snd_bool: "calm h (snd a) \<Longrightarrow> calm h (snd b) \<Longrightarrow> calm h (snd (if x then a else b))"
  by simp

lemma kept_same: "stream_flow s' = stream_flow s \<Longrightarrow> kept s s'"
  by (simp add: kept_def)

lemma kept_upd [simp]:
  "kept s (s\<lparr>s_recv_len := i\<rparr>)" "kept s (s\<lparr>s_recv_len := i, s_stop := b\<rparr>)" "kept s (s\<lparr>s_remote_end := b\<rparr>)" "kept s (s\<lparr>s_have_status := b, s_status := i\<rparr>)"
  "kept s (s\<lparr>s_pseudo_done := b\<rparr>)" "kept s (s\<lparr>s_pseudo_done := b, s_content_length := i\<rparr>)" "kept s (s\<lparr>s_have_status := b, s_pseudo_done := c, s_content_length := i\<rparr>)"
  "kept s (s\<lparr>s_final := b\<rparr>)" "kept s (s\<lparr>s_final := b, s_content_length := i\<rparr>)"
  by (simp_all add: kept_same stream_flow_def)

lemma calm_error_after: "calm h g \<Longrightarrow> calm h (snd (stream_error E g c))"
  by (erule calm_trans) simp

lemma calm_data_bytes [simp]: "calm h (snd (data_bytes E h p))"
proof (cases "data_stream h")
  case (Some w)
  let ?s = "(h2_get w h)\<lparr>s_recv_len := s_recv_len (h2_get w h) + int (length p)\<rparr>"
  have h: "calm h (h2_put w ?s h)" by (simp add: calm_put)
  then have io: "calm h ((h2_put w ?s h)\<lparr>h_io := l\<rparr>)" for l by (rule calm_trans) simp
  have "calm h (h2_put w (?s\<lparr>s_stop := True\<rparr>) ((h2_put w ?s h)\<lparr>h_io := l\<rparr>))" for l
    by (rule calm_trans [OF io calm_put]) (simp add: kept_same stream_flow_def)
  then show ?thesis unfolding data_bytes_def Let_def Some option.case using h io
    by (simp only: calm_error_after snd_conv if_distrib [of snd] split: if_splits) simp
qed (simp add: data_bytes_def)

lemma calm_remote_end [simp]: "calm h (snd (remote_end E h w))"
proof -
  have "calm h (h2_put w (close_stream s c) (snd (ctl_u32 E h t i v)))" for s c t i v by (rule calm_trans [OF calm_u32 calm_put]) simp
  then show ?thesis by (simp add: remote_end_def Let_def case_prod_beta calm_put)
qed

lemma calm_field [simp]: "calm h (field_status E h w f)" "calm h (field_regular E h w f)" "calm h (snd (field_cb E f h))"
proof -
  have put: "calm h (h2_put w s h)" if "kept (h2_get w h) s" for w s using that by (rule calm_put)
  have report: "calm h (field_report g w f)" if "calm h g" for g w
    using that calm_trans [OF that calm_upd(1)] by (simp add: field_report_def)
  have put2: "calm h (h2_put w s (h2_put w t h))" if "kept (h2_get w h) s" "kept (h2_get w h) t" for w s t
    using that by (cases w) (simp_all add: calm_def parser_regs_def flow_regs_def which_all)
  show st: "calm h (field_status E h w f)" for w
    unfolding field_status_def Let_def using calm_trans [OF put calm_upd(1)] by simp
  show reg: "calm h (field_regular E h w f)" for w
    unfolding field_regular_def Let_def
    by (intro calm_bool calm_error_after report put2 put) (simp_all add: kept_same stream_flow_def)
  show "calm h (snd (field_cb E f h))"
    unfolding field_cb_def Let_def by (simp add: st reg put split: option.splits)
qed

text \<open>The decoder calls back only through its callback: what that keeps, the decoder keeps.\<close>

definition called :: "(hpack_field_t \<Rightarrow> 'c \<Rightarrow> bool \<times> 'c) \<Rightarrow> 'c \<Rightarrow> 'c \<Rightarrow> bool" where
  "called fn c c' \<longleftrightarrow> c' = c \<or> (\<exists>f. c' = snd (fn f c))"

lemma called_refl [simp]: "called fn c c" "called fn c (snd (fn f c))"
  by (auto simp: called_def)

lemma called_emit [simp]: "called fn c (snd (snd (emit d fn c)))"
  by (auto simp: emit_def Let_def case_prod_beta split: prod.splits hpack_rc.splits)

lemma called_str_done [simp]: "called fn c (snd (snd (str_done d fn c)))"
  by (simp add: str_done_def)

lemma called_int_done [simp]: "called fn c (snd (snd (int_done d v fn c)))"
  by (simp add: int_done_def Let_def split: hpack_int.splits prod.splits hpack_rc.splits)

lemma called_int_start [simp]: "called fn c (snd (snd (int_start d what v m fn c)))"
  by (simp add: int_start_def Let_def)

lemma called_arms [simp]:
  "called fn c (snd (snd (feed_first d b fn c)))" "called fn c (snd (snd (feed_int d b fn c)))"
  "called fn c (snd (snd (feed_str_hdr d b fn c)))" "called fn c (snd (snd (feed_str d run fn c)))"
  by (simp_all add: feed_first_def feed_int_def feed_str_hdr_def feed_str_def Let_def case_prod_beta)

lemma hpack_ctx_inv:
  assumes "\<And>f c. P c \<Longrightarrow> P (snd (fn f c))" "P c"
  shows "P (snd (snd (hpack_dec_feed d inp fn c)))"
  using assms
proof (induction d inp fn c rule: hpack_dec_feed.induct)
  case (1 d inp fn c)
  show ?case
  proof (cases inp)
    case Nil
    then show ?thesis using "1.prems" by (simp add: hpack_dec_feed.simps)
  next
    case (Cons b rest)
    define t where "t = (case d_st d of ST_FIRST \<Rightarrow> (feed_first d b fn c, rest) | ST_INT \<Rightarrow> (feed_int d b fn c, rest)
      | ST_STR_HDR \<Rightarrow> (feed_str_hdr d b fn c, rest)
      | ST_STR \<Rightarrow> (let n = min (length inp) (d_str_left d) in (feed_str d (take n inp) fn c, drop n inp)))"
    obtain rc d' c' inp' where t: "t = ((rc, d', c'), inp')" by (metis prod.exhaust)
    have "called fn c (snd (snd (fst t)))" unfolding t_def Let_def by (cases "d_st d") simp_all
    then have c': "P c'" using "1.prems" by (auto simp: called_def t)
    note arm = t [unfolded t_def]
    show ?thesis
    proof (cases "rc = HPACK_OK")
      case True
      then show ?thesis using "1.IH" [OF Cons arm [symmetric] refl True refl] "1.prems"(1) c' by (simp add: feed_step [OF Cons arm])
    next
      case False
      then show ?thesis using c' by (cases rc) (simp_all add: feed_step [OF Cons arm])
    qed
  qed
qed

lemma calm_block_bytes [simp]: "calm h (snd (block_bytes E h p))"
proof -
  have "calm h (snd (snd (hpack_dec_feed (h_hpack h) p (field_cb E) h)))"
    by (rule hpack_ctx_inv [where P = "calm h"]) (auto intro: calm_trans)
  then have "calm h ((snd (snd (hpack_dec_feed (h_hpack h) p (field_cb E) h)))\<lparr>h_hpack := d\<rparr>)" for d by (rule calm_trans) simp
  then show ?thesis by (auto simp: block_bytes_def Let_def case_prod_beta intro: calm_trans [OF _ calm_conn_error])
qed

lemma calm_block_end [simp]: "calm h (snd (block_end E h))"
proof -
  have c: "calm h (h\<lparr>h_cont_sid := 0\<rparr>)" by simp
  have put: "calm h (h2_put w s (h\<lparr>h_cont_sid := 0\<rparr>))" if "kept (h2_get w h) s" for w s
    by (rule calm_trans [OF c calm_put]) (use that in simp)
  have e: "calm h (snd (stream_error E g n))" "calm h (snd (remote_end E g w))" if "calm h g" for g n w
    using that by (auto intro: calm_trans)
  show ?thesis unfolding block_end_def Let_def
    by (simp add: e put split: option.splits)
qed

lemma calm_goaway [simp]: "calm h (snd (goaway_done E h))"
proof -
  have close: "calm h (if b then g\<lparr>h_s := close_stream s n\<rparr> else g)" "calm h (if b then g\<lparr>h_side := close_stream s n\<rparr> else g)" if "calm h g" for b g s n
    using calm_trans [OF that calm_put [of H2_MAIN g]] calm_trans [OF that calm_put [of H2_SIDE g]] that by simp_all
  show ?thesis unfolding goaway_done_def Let_def by (intro calm_snd_bool calm_conn_error) (simp only: snd_conv, intro close calm_upd)
qed

text \<open>An operation fails only by killing the connection.\<close>

definition err_dead :: "h2_rc \<times> h2_core_t \<Rightarrow> bool" where
  "err_dead r \<longleftrightarrow> fst r = H2C_OK \<or> h_dead (snd r)"

lemma dead_put [simp]: "h_dead (h2_put w s h) = h_dead h"
  by (cases w) simp_all

lemma err_dead_intros [simp]:
  "err_dead (H2C_OK, h)" "err_dead (rc, h\<lparr>h_dead := True\<rparr>)" "err_dead (fst r, h2_put w s (snd r)) = err_dead r"
  "err_dead (fst r, (snd r)\<lparr>h_f_ignore := b, h_blk_error := e\<rparr>) = err_dead r"
  "err_dead (fst r, (h2_put w s (snd r))\<lparr>h_f_ignore := b, h_blk_error := e\<rparr>) = err_dead r"
  by (auto simp: err_dead_def)

lemma err_dead_ctl [simp]: "err_dead (ctl_flush E h)" "err_dead (ctl_frame E h t f i p)" "err_dead (ctl_u32 E h t i v)" "err_dead (conn_error E h c)"
proof -
  show flush: "err_dead (ctl_flush E h)" for h by (simp add: ctl_flush_def Let_def)
  show frame: "err_dead (ctl_frame E h t f i p)" for t f i p
    using flush [of h] by (auto simp: ctl_frame_def case_prod_beta err_dead_def)
  show "err_dead (ctl_u32 E h t i v)" by (simp add: ctl_u32_def frame)
  show "err_dead (conn_error E h c)" by (simp add: err_dead_def conn_error_def Let_def case_prod_beta)
qed

lemma conn_error_dead [simp]: "h_dead (snd (conn_error E h c))" "fst (conn_error E h c) = H2C_ERR_PROTO"
  by (simp_all add: conn_error_def Let_def case_prod_beta)

lemma err_dead_stream_error [simp]: "err_dead (stream_error E h c)"
  by (simp add: stream_error_def case_prod_beta Let_def split: option.splits)

lemma err_dead_handlers [simp]:
  "err_dead (data_bytes E h p)" "err_dead (remote_end E h w)" "err_dead (block_end E h)" "err_dead (block_bytes E h p)"
proof -
  show "err_dead (data_bytes E h p)" by (simp add: data_bytes_def Let_def split: option.splits)
  show stop: "err_dead (remote_end E h w)" for h w by (simp add: remote_end_def Let_def case_prod_beta)
  show "err_dead (block_end E h)" by (simp add: block_end_def Let_def stop split: option.splits)
  show "err_dead (block_bytes E h p)" by (auto simp: block_bytes_def Let_def case_prod_beta) (simp_all add: err_dead_def)
qed

section \<open>Flow control\<close>

text \<open>\<open>flow_inv o os h\<close>: the receive windows the server may still use, the bytes consumed but not yet given back
  and the bytes announced by the frame being read (\<open>o\<close> of the connection, \<open>os w\<close> of stream \<open>w\<close>) add up to
  the default window; and the windows for what is sent stay within 32 bits.\<close>

definition stream_inv :: "int \<Rightarrow> nat \<Rightarrow> nat \<Rightarrow> h2_stream_t \<Rightarrow> bool" where
  "stream_inv owed init lst s \<longleftrightarrow> (s_open s \<longrightarrow>
     0 \<le> s_recv_win s \<and> 0 \<le> s_consumed s \<and> s_recv_win s + s_consumed s + owed = H2_DEFAULT_WINDOW \<and>
     s_send_win s \<le> H2_MAX_WINDOW \<and> - H2_MAX_WINDOW \<le> s_send_win s - int init \<and>
     0 < s_id s \<and> s_id s \<le> lst \<and> s_body_off s \<le> length (s_body s))"

definition conn_inv :: "int \<Rightarrow> h2_core_t \<Rightarrow> bool" where
  "conn_inv owed h \<longleftrightarrow>
     0 \<le> h_conn_recv_win h \<and> 0 \<le> h_conn_consumed h \<and> h_conn_consumed h < H2_WU_THRESHOLD \<and>
     h_conn_recv_win h + h_conn_consumed h + owed = H2_DEFAULT_WINDOW \<and>
     0 \<le> h_conn_send_win h \<and> h_conn_send_win h \<le> H2_MAX_WINDOW \<and>
     int (h_peer_initial_win h) \<le> H2_MAX_WINDOW \<and> H2_MAX_FRAME \<le> h_peer_max_frame h \<and> h_last_id h < h_next_id h"

definition flow_inv :: "int \<Rightarrow> (h2_which \<Rightarrow> int) \<Rightarrow> h2_core_t \<Rightarrow> bool" where
  "flow_inv owed os h \<longleftrightarrow> conn_inv owed h \<and> (\<forall>w. stream_inv (os w) (h_peer_initial_win h) (h_last_id h) (h2_get w h)) \<and> ids_differ h"

lemma stream_inv_kept: "kept s s' \<Longrightarrow> stream_inv q i l s \<Longrightarrow> stream_inv q i l s'"
  by (auto simp: kept_def stream_flow_def stream_inv_def)

lemma calm_flow: "calm h h' \<Longrightarrow> flow_inv q qs h \<Longrightarrow> flow_inv q qs h'"
proof -
  assume c: "calm h h'" and f: "flow_inv q qs h"
  have r: "flow_regs h' = flow_regs h" and k: "kept (h2_get w h) (h2_get w h')" for w using c by (simp_all add: calm_def)
  have "conn_inv q h'" using r f by (simp add: flow_inv_def conn_inv_def flow_regs_def)
  moreover have "stream_inv (qs w) (h_peer_initial_win h') (h_last_id h') (h2_get w h')" for w
    using f r stream_inv_kept [OF k] by (simp add: flow_inv_def flow_regs_def)
  ultimately show ?thesis using calm_ids [OF c] f by (simp add: flow_inv_def)
qed

lemma flow_put:
  assumes "flow_inv q qs h" "stream_inv (qs' w) (h_peer_initial_win h) (h_last_id h) s" "s_open s \<Longrightarrow> s_open (h2_get w h) \<and> s_id s = s_id (h2_get w h)"
    "\<And>v. v \<noteq> w \<Longrightarrow> qs' v = qs v"
  shows "flow_inv q qs' (h2_put w s h)"
proof -
  have "stream_inv (qs' v) (h_peer_initial_win h) (h_last_id h) (h2_get v (h2_put w s h))" for v
    using assms(1,2,4) by (cases "v = w") (simp_all add: flow_inv_def)
  moreover have "ids_differ (h2_put w s h)" using assms(1,3) by (cases w) (auto simp: flow_inv_def ids_differ_def)
  ultimately show ?thesis using assms(1) by (cases w) (simp_all add: flow_inv_def conn_inv_def)
qed

lemma flow_conn: "flow_inv q qs h \<Longrightarrow> conn_inv q' h' \<Longrightarrow> (\<And>w. h2_get w h' = h2_get w h) \<Longrightarrow> h_peer_initial_win h' = h_peer_initial_win h \<Longrightarrow>
    h_last_id h' = h_last_id h \<Longrightarrow> flow_inv q' qs h'"
  by (simp add: flow_inv_def ids_differ_get)

text \<open>What a DATA frame of \<open>n\<close> bytes takes from the windows, and what \<open>data_consumed\<close> gives back.\<close>

definition owes :: "h2_which option \<Rightarrow> nat \<Rightarrow> (h2_which \<Rightarrow> int) \<Rightarrow> h2_which \<Rightarrow> int" where
  "owes st n os w = (if st = Some w then os w + int n else os w)"

lemma stream_consumed_flow:
  assumes "flow_inv q (owes (data_stream h) n qs) h" "fst (stream_consumed E h n) = H2C_OK"
  shows "flow_inv q qs (snd (stream_consumed E h n))"
proof (cases "data_stream h")
  case None
  then show ?thesis using assms by (simp add: stream_consumed_def owes_def [abs_def])
next
  case (Some w)
  let ?s = "(h2_get w h)\<lparr>s_consumed := s_consumed (h2_get w h) + int n\<rparr>"
  have s: "stream_inv (qs w + int n) (h_peer_initial_win h) (h_last_id h) (h2_get w h)"
    using assms(1) unfolding flow_inv_def Some owes_def by (auto dest: spec [of _ w])
  have 1: "flow_inv q qs (h2_put w ?s h)"
    using s by (intro flow_put [OF assms(1)]) (auto simp: stream_inv_def owes_def Some)
  let ?g = "snd (ctl_u32 E (h2_put w ?s h) H2_WINDOW_UPDATE (s_id ?s) (nat (s_consumed ?s)))"
  have 2: "flow_inv q qs ?g" by (rule calm_flow [OF _ 1]) simp
  have 3: "flow_inv q qs (h2_put w (?s\<lparr>s_recv_win := s_recv_win ?s + s_consumed ?s, s_consumed := 0\<rparr>) ?g)"
  proof (rule flow_put [OF 2])
    have "h_peer_initial_win ?g = h_peer_initial_win h" "h_last_id ?g = h_last_id h"
      using calm_u32 [of "h2_put w ?s h" E H2_WINDOW_UPDATE "s_id ?s" "nat (s_consumed ?s)"] by (cases w; simp add: calm_def flow_regs_def)+
    then show "stream_inv (qs w) (h_peer_initial_win ?g) (h_last_id ?g) (?s\<lparr>s_recv_win := s_recv_win ?s + s_consumed ?s, s_consumed := 0\<rparr>)"
      using s by (auto simp: stream_inv_def)
  qed simp_all
  show ?thesis using 1 3 by (simp add: stream_consumed_def Some Let_def case_prod_beta)
qed

lemma data_stream_cong: "stream_flow (h_s h') = stream_flow (h_s h) \<Longrightarrow> stream_flow (h_side h') = stream_flow (h_side h) \<Longrightarrow>
    h_f_ignore h' = h_f_ignore h \<Longrightarrow> h_f_sid h' = h_f_sid h \<Longrightarrow> data_stream h' = data_stream h"
  by (simp add: stream_of_def stream_flow_def)

lemma u32_fields [simp]:
  "h_s (snd (ctl_u32 E h t i v)) = h_s h" "h_side (snd (ctl_u32 E h t i v)) = h_side h" "h_f_ignore (snd (ctl_u32 E h t i v)) = h_f_ignore h"
  "h_f_sid (snd (ctl_u32 E h t i v)) = h_f_sid h" "h_f_flags (snd (ctl_u32 E h t i v)) = h_f_flags h"
  "h_conn_recv_win (snd (ctl_u32 E h t i v)) = h_conn_recv_win h" "h_conn_consumed (snd (ctl_u32 E h t i v)) = h_conn_consumed h"
  "h_peer_initial_win (snd (ctl_u32 E h t i v)) = h_peer_initial_win h" "h_last_id (snd (ctl_u32 E h t i v)) = h_last_id h"
  by (simp_all add: ctl_u32_def ctl_frame_def ctl_flush_def Let_def case_prod_beta)

lemma err_dead_consumed [simp]: "err_dead (stream_consumed E h n)" "err_dead (data_consumed E h n)"
proof -
  show s: "err_dead (stream_consumed E h n)" for h by (simp add: stream_consumed_def Let_def case_prod_beta split: option.splits)
  have "err_dead (ctl_u32 E g t i v) \<Longrightarrow> fst (ctl_u32 E g t i v) \<noteq> H2C_OK \<Longrightarrow> err_dead (fst (ctl_u32 E g t i v), (snd (ctl_u32 E g t i v))\<lparr>h_conn_recv_win := a, h_conn_consumed := 0\<rparr>)" for g t i v a
    by (simp add: err_dead_def)
  then show "err_dead (data_consumed E h n)" by (simp add: data_consumed_def Let_def case_prod_beta s)
qed

lemma data_consumed_flow:
  assumes "flow_inv (q + int n) (owes (data_stream h) n qs) h" "fst (data_consumed E h n) = H2C_OK"
  shows "flow_inv q qs (snd (data_consumed E h n))"
proof -
  let ?h = "h\<lparr>h_conn_consumed := h_conn_consumed h + int n\<rparr>"
  let ?u = "ctl_u32 E ?h H2_WINDOW_UPDATE 0 (nat (h_conn_consumed ?h))"
  define r where "r = (if h_conn_consumed ?h \<ge> H2_WU_THRESHOLD
     then (fst ?u, (snd ?u)\<lparr>h_conn_recv_win := h_conn_recv_win (snd ?u) + h_conn_consumed (snd ?u), h_conn_consumed := 0\<rparr>) else (H2C_OK, ?h))"
  have def: "data_consumed E h n = (if fst r \<noteq> H2C_OK then r else stream_consumed E (snd r) n)"
    by (simp add: data_consumed_def Let_def case_prod_beta r_def)
  have c: "conn_inv (q + int n) h" using assms(1) by (simp add: flow_inv_def)
  have u: "flow_regs (snd ?u) = flow_regs ?h" using calm_u32 [of ?h E H2_WINDOW_UPDATE 0 "nat (h_conn_consumed ?h)"] by (simp add: calm_def)
  have "conn_inv q (snd r)"
    using c u by (auto simp: r_def conn_inv_def flow_regs_def H2_WU_THRESHOLD_def H2_DEFAULT_WINDOW_def)
  then have f: "flow_inv q (owes (data_stream h) n qs) (snd r)"
  proof (rule flow_conn [OF assms(1)])
    show "h2_get w (snd r) = h2_get w h" for w by (cases w) (simp_all add: r_def)
  qed (simp_all add: r_def)
  have "data_stream (snd r) = data_stream h" by (rule data_stream_cong) (simp_all add: r_def)
  then show ?thesis using f assms(2) stream_consumed_flow [of q "snd r" n qs E] by (simp add: def split: if_splits)
qed

lemma err_dead_setting [simp]: "err_dead (setting E h i v)"
  by (simp add: setting_def setting_window_def Let_def)

lemma setting_window_flow:
  assumes "flow_inv q qs h" "fst (setting_window E h v) = H2C_OK"
  shows "flow_inv q qs (snd (setting_window E h v))"
proof -
  have v: "int v \<le> H2_MAX_WINDOW" using assms(2) by (auto simp: setting_window_def split: if_splits)
  have ids: "ids_differ h" "conn_inv q h" and st: "stream_inv (qs w) (h_peer_initial_win h) (h_last_id h) (h2_get w h)" for w
    using assms(1) by (simp_all add: flow_inv_def)
  have w: "stream_inv (qs w) v (h_last_id h) ((h2_get w h)\<lparr>s_send_win := s_send_win (h2_get w h) + (int v - int (h_peer_initial_win h))\<rparr>)"
    if "s_open (h2_get w h)" "s_send_win (h2_get w h) + (int v - int (h_peer_initial_win h)) \<le> H2_MAX_WINDOW" for w
    using that st [of w] by (simp add: stream_inv_def)
  have closed: "stream_inv (qs w) v (h_last_id h) (h2_get w h)" if "\<not> s_open (h2_get w h)" for w using that by (simp add: stream_inv_def)
  show ?thesis
    using assms(2) v ids w [of H2_MAIN] w [of H2_SIDE] closed [of H2_MAIN] closed [of H2_SIDE]
    by (simp add: setting_window_def Let_def flow_inv_def which_all conn_inv_def ids_differ_def split: if_splits)
qed

lemma setting_flow: "flow_inv q qs h \<Longrightarrow> fst (setting E h i v) = H2C_OK \<Longrightarrow> flow_inv q qs (snd (setting E h i v))"
proof -
  assume f: "flow_inv q qs h" and ok: "fst (setting E h i v) = H2C_OK"
  have m: "flow_inv q qs (h\<lparr>h_peer_max_frame := n\<rparr>)" if "16384 \<le> n" for n
    using f that by (simp add: flow_inv_def conn_inv_def which_all ids_differ_def H2_MAX_FRAME_def)
  have c: "flow_inv q qs (h\<lparr>h_peer_enable_connect := n\<rparr>)" "flow_inv q qs (h\<lparr>h_peer_max_streams := n\<rparr>)" for n
    using f by (auto intro: calm_flow [OF _ f])
  show ?thesis using ok f m [of v] c setting_window_flow [OF f, of E v] calm_flow [OF calm_conn_error f] by (auto simp: setting_def split: if_splits)
qed

lemma err_dead_fixed [simp]: "err_dead (fixed_done E h)"
  by (simp add: fixed_done_def goaway_done_def window_update_done_def Let_def split: option.splits)

lemma window_update_flow:
  assumes f: "flow_inv q qs h" and "fst (window_update_done E h) = H2C_OK"
  shows "flow_inv q qs (snd (window_update_done E h))"
proof (cases "h_f_sid h = 0")
  case True
  have "flow_inv q qs (h\<lparr>h_conn_send_win := h_conn_send_win h + int n\<rparr>)" if "h_conn_send_win h + int n \<le> H2_MAX_WINDOW" for n
    using f that by (simp add: flow_inv_def conn_inv_def which_all ids_differ_def)
  then show ?thesis using True assms(2) by (auto simp: window_update_done_def Let_def split: if_splits)
next
  case False
  have "flow_inv q qs (h2_put w ((h2_get w h)\<lparr>s_send_win := s_send_win (h2_get w h) + int n\<rparr>) h)"
    if "s_send_win (h2_get w h) + int n \<le> H2_MAX_WINDOW" for w n
    using f that by (intro flow_put [OF f]) (auto simp: flow_inv_def stream_inv_def)
  then show ?thesis using False f calm_flow [OF calm_stream_error f]
    by (auto simp: window_update_done_def Let_def split: option.splits)
qed

lemma fixed_done_flow:
  assumes f: "flow_inv q qs h" and "fst (fixed_done E h) = H2C_OK"
  shows "flow_inv q qs (snd (fixed_done E h))"
proof -
  have "flow_inv q qs (h2_put w (close_stream s c) h)" for w s c by (rule calm_flow [OF calm_put f]) simp
  then show ?thesis
    using assms setting_flow [OF f] window_update_flow [OF f] calm_flow [OF calm_goaway f] calm_flow [OF calm_frame f]
    by (simp add: fixed_done_def Let_def split: if_splits option.splits)
qed

section \<open>The frame parser\<close>

definition in_data :: "h2_core_t \<Rightarrow> bool" where
  "in_data h \<longleftrightarrow> h_fh_have h = H2_FRAME_HDR_LEN \<and> h_f_type h = H2_DATA"

text \<open>The bytes the frame in progress has taken from the windows and not yet delivered.\<close>

definition frame_owed :: "h2_core_t \<Rightarrow> int" where
  "frame_owed h = (if in_data h then int (h_f_left h) else 0)"

definition stream_owed :: "h2_core_t \<Rightarrow> h2_which \<Rightarrow> int" where
  "stream_owed h w = (if in_data h \<and> data_stream h = Some w then int (h_f_left h) else 0)"

text \<open>The parser's buffers: the header in \<open>fh[9]\<close>, the fixed-size pieces in \<open>f_fix[8]\<close>.\<close>

definition parse_inv :: "h2_core_t \<Rightarrow> bool" where
  "parse_inv h \<longleftrightarrow> h_fh_have h \<le> H2_FRAME_HDR_LEN \<and> length (h_fh h) = 9 \<and> length (h_f_fix h) = 8 \<and>
     (h_f_phase h = PH_PADLEN \<or> h_f_phase h = PH_PRIO \<longrightarrow> h_f_fix_have h < 5) \<and> (h_f_phase h = PH_FIXED \<longrightarrow> h_f_fix_have h < fixed_len (h_f_type h)) \<and>
     (in_data h \<longrightarrow> h_f_sid h \<le> h_last_id h)"

definition live :: "h2_core_t \<Rightarrow> bool" where
  "live h \<longleftrightarrow> parse_inv h \<and> flow_inv (frame_owed h) (stream_owed h) h"

lemma calm_parse: "calm h h' \<Longrightarrow> parse_inv h \<Longrightarrow> parse_inv h'"
  by (simp add: calm_def parse_inv_def parser_regs_def in_data_def flow_regs_def)

lemma flow_inv_weaken: "flow_inv q qs h \<Longrightarrow> (\<And>w. s_open (h2_get w h) \<Longrightarrow> qs' w = qs w) \<Longrightarrow> flow_inv q qs' h"
  by (auto simp: flow_inv_def stream_inv_def)

lemma calm_live:
  assumes "calm h h'" "live h"
  shows "live h'"
proof -
  have f: "flow_inv (frame_owed h) (stream_owed h) h" "ids_differ h" "ids_differ h'"
    using assms calm_ids by (auto simp: live_def flow_inv_def)
  have r: "parser_regs h' = parser_regs h" using assms(1) by (simp add: calm_def)
  then have d: "in_data h' = in_data h" "h_f_left h' = h_f_left h" "h_f_sid h' = h_f_sid h" by (simp_all add: parser_regs_def in_data_def)
  have "stream_owed h' w = stream_owed h w" if o: "s_open (h2_get w h')" for w
  proof -
    have k: "s_open (h2_get w h)" "s_id (h2_get w h') = s_id (h2_get w h)" using assms(1) o kept_ids by (auto simp: calm_def)
    have "h_f_ignore h' = h_f_ignore h" if "s_id (h2_get w h) = h_f_sid h" using assms(1) f(2) o that by (auto simp: calm_def)
    then have "(data_stream h' = Some w) = (data_stream h = Some w)"
      using o k d(3) stream_of_iff [OF f(2), of "h_f_sid h" w] stream_of_iff [OF f(3), of "h_f_sid h" w] by auto
    then show ?thesis using d by (simp add: stream_owed_def)
  qed
  moreover have "frame_owed h' = frame_owed h" using d by (simp add: frame_owed_def)
  ultimately have "flow_inv (frame_owed h') (stream_owed h') h'"
    using flow_inv_weaken [OF calm_flow [OF assms(1) f(1)], of "stream_owed h'"] by simp
  then show ?thesis using assms calm_parse by (simp add: live_def)
qed

text \<open>The result of a step: alive and consistent, or the connection is dead.\<close>

definition sound :: "h2_rc \<times> h2_core_t \<Rightarrow> bool" where
  "sound r \<longleftrightarrow> err_dead r \<and> length (h_ctl (snd r)) \<le> H2_CTL_CAP \<and> (fst r = H2C_OK \<longrightarrow> live (snd r))"

lemma flow_cong: "flow_regs h' = flow_regs h \<Longrightarrow> h_s h' = h_s h \<Longrightarrow> h_side h' = h_side h \<Longrightarrow> flow_inv q qs h' = flow_inv q qs h"
  by (simp add: flow_inv_def conn_inv_def flow_regs_def which_all ids_differ_def)

lemma live_cong:
  assumes "flow_regs h' = flow_regs h" "h_s h' = h_s h" "h_side h' = h_side h" "h_f_ignore h' = h_f_ignore h" "h_fh_have h' = h_fh_have h"
    "h_f_type h' = h_f_type h" "h_f_left h' = h_f_left h" "h_f_sid h' = h_f_sid h" "parse_inv h'" "live h"
  shows "live h'"
proof -
  have "stream_owed h' = stream_owed h" "frame_owed h' = frame_owed h"
    using assms(2-8) by (auto simp: stream_owed_def frame_owed_def in_data_def stream_of_def)
  then show ?thesis using assms flow_cong [of h' h] by (simp add: live_def)
qed

lemma not_data_live: "\<not> in_data h \<Longrightarrow> live h \<longleftrightarrow> parse_inv h \<and> flow_inv 0 (\<lambda>_. 0) h"
proof -
  assume n: "\<not> in_data h"
  have "stream_owed h = (\<lambda>_. 0)" using n by (auto simp: stream_owed_def)
  then show ?thesis using n by (simp add: live_def frame_owed_def)
qed

lemma sound_conn_error [simp]: "length (h_ctl h) \<le> H2_CTL_CAP \<Longrightarrow> sound (conn_error E h c)"
  using calm_conn_error [of h E c] by (simp add: sound_def calm_def)

lemma sound_ifI: "(c \<Longrightarrow> sound a) \<Longrightarrow> (\<not> c \<Longrightarrow> sound b) \<Longrightarrow> sound (if c then a else b)"
  by simp

lemma sound_if: "sound a \<Longrightarrow> sound b \<Longrightarrow> sound (if c then a else b)"
  by simp

lemma sound_calm: "err_dead r \<Longrightarrow> calm h (snd r) \<Longrightarrow> live h \<Longrightarrow> length (h_ctl h) \<le> H2_CTL_CAP \<Longrightarrow> sound r"
  using calm_live [of h "snd r"] by (simp add: sound_def calm_def)

text \<open>A frame's header is complete: nothing is owed yet.\<close>

definition fh_ready :: "h2_core_t \<Rightarrow> bool" where
  "fh_ready h \<longleftrightarrow> h_fh_have h = H2_FRAME_HDR_LEN \<and> length (h_fh h) = 9 \<and> length (h_f_fix h) = 8 \<and> length (h_ctl h) \<le> H2_CTL_CAP \<and>
     flow_inv 0 (\<lambda>_. 0) h"

lemma fh_ready_parse: "fh_ready h \<Longrightarrow> fh_ready (parse_fh h)"
proof -
  have "flow_inv q qs (parse_fh h) = flow_inv q qs h" for q qs by (rule flow_cong) (simp_all add: parse_fh_def Let_def flow_regs_def)
  moreover have "h_fh_have (parse_fh h) = h_fh_have h" "h_fh (parse_fh h) = h_fh h" "h_f_fix (parse_fh h) = h_f_fix h" "h_ctl (parse_fh h) = h_ctl h"
    by (simp_all add: parse_fh_def Let_def)
  ultimately show "fh_ready h \<Longrightarrow> fh_ready (parse_fh h)" by (simp add: fh_ready_def)
qed

lemma fixed_len_pos [simp]: "0 < fixed_len t" "fixed_len t \<le> 8"
  by (simp_all add: fixed_len_def)

lemma sound_other:
  assumes "fh_ready h" "h_f_type h \<noteq> H2_DATA" "h_f_fix_have h' = 0" "h_fh_have h' = h_fh_have h" "h_fh h' = h_fh h" "h_f_fix h' = h_f_fix h"
    "h_f_type h' = h_f_type h" "h_ctl h' = h_ctl h" "flow_regs h' = flow_regs h" "h_s h' = h_s h" "h_side h' = h_side h"
  shows "sound (H2C_OK, h')"
proof -
  have "\<not> in_data h'" "parse_inv h'" using assms by (auto simp: in_data_def parse_inv_def fh_ready_def)
  moreover have "flow_inv 0 (\<lambda>_. 0) h'" using assms flow_cong [of h' h] by (simp add: fh_ready_def)
  ultimately show ?thesis using assms by (simp add: sound_def not_data_live fh_ready_def)
qed

lemma calm_ignoreD: "calm h h' \<Longrightarrow> ids_differ h \<Longrightarrow> s_open (h2_get w h') \<Longrightarrow> s_id (h2_get w h) = h_f_sid h \<Longrightarrow> h_f_ignore h' = h_f_ignore h"
  unfolding calm_def by blast

lemma calm_error_put:
  assumes "stream_of h (h_f_sid h) = Some w" "s_open s" "s_id s = s_id (h2_get w h)"
  shows "calm h (snd (stream_error E (h2_put w s h) c))"
proof -
  let ?g = "h2_put w s h" and ?r = "snd (stream_error E (h2_put w s h) c)"
  note w = stream_of_SomeD [OF assms(1)]
  have r: "parser_regs ?g = parser_regs h" "flow_regs ?g = flow_regs h" "h_f_sid ?g = h_f_sid h" "h_f_ignore ?g = h_f_ignore h" "h_ctl ?g = h_ctl h"
    by (cases w; simp add: parser_regs_def flow_regs_def)+
  have c: "calm ?g ?r" by simp
  have st: "stream_of ?g (h_f_sid ?g) = Some w"
    using assms w by (cases w) (auto simp: stream_of_def split: if_splits)
  have closed: "\<not> s_open (h2_get w ?r)" using st by (simp add: stream_error_def case_prod_beta Let_def close_stream_def)
  have ids: "ids_differ ?g = ids_differ h" using assms(2,3) w by (cases w) (auto simp: ids_differ_def)
  have k: "kept (h2_get v h) (h2_get v ?r)" for v
    using c closed by (cases "v = w") (auto simp: calm_def kept_def)
  have "h_f_ignore ?r = h_f_ignore h" if "ids_differ h" "s_open (h2_get v ?r)" "s_id (h2_get v h) = h_f_sid h" for v
  proof -
    have "v \<noteq> w" using that(2) closed by auto
    then show ?thesis using calm_ignoreD [OF c _ that(2)] that(1,3) ids r by simp
  qed
  then show ?thesis using c k r unfolding calm_def by auto
qed

lemma put_fields_same [simp]:
  "h_ctl (h2_put w s h) = h_ctl h" "h_last_id (h2_put w s h) = h_last_id h" "h_peer_initial_win (h2_put w s h) = h_peer_initial_win h"
  "h_f_ignore (h2_put w s h) = h_f_ignore h" "h_f_sid (h2_put w s h) = h_f_sid h" "flow_regs (h2_put w s h) = flow_regs h"
  by (cases w; simp add: flow_regs_def)+

text \<open>The stream of a DATA frame is charged for it, or closed.\<close>

lemma charge_sound:
  assumes f: "flow_inv q (\<lambda>_. 0) g" and st: "stream_of g (h_f_sid g) = st" and i: "h_f_ignore g = (st = None)"
  shows "calm g (snd (charge_stream E g st)) \<and> data_stream (snd (charge_stream E g st)) = None \<or>
    (\<exists>w s. snd (charge_stream E g st) = h2_put w s g \<and> data_stream (h2_put w s g) = Some w \<and> flow_inv q (owes (Some w) (h_f_len g) (\<lambda>_. 0)) (h2_put w s g))"
    and "err_dead (charge_stream E g st)"
proof -
  show "err_dead (charge_stream E g st)" by (simp add: charge_stream_def Let_def split: option.split)
  show "calm g (snd (charge_stream E g st)) \<and> data_stream (snd (charge_stream E g st)) = None \<or>
    (\<exists>w s. snd (charge_stream E g st) = h2_put w s g \<and> data_stream (h2_put w s g) = Some w \<and> flow_inv q (owes (Some w) (h_f_len g) (\<lambda>_. 0)) (h2_put w s g))"
  proof (cases st)
    case None
    then show ?thesis using i by (simp add: charge_stream_def)
  next
    case (Some w)
    let ?s = "(h2_get w g)\<lparr>s_recv_win := s_recv_win (h2_get w g) - int (h_f_len g)\<rparr>"
    have w: "s_open (h2_get w g) \<and> s_id (h2_get w g) = h_f_sid g" using stream_of_SomeD st Some by blast
    show ?thesis
    proof (cases "s_recv_win ?s < 0")
      case True
      then have r: "charge_stream E g st = stream_error E (h2_put w ?s g) H2_FLOW_CONTROL_ERROR" by (simp add: charge_stream_def Some Let_def)
      have "data_stream (snd (stream_error E h c)) = None" for h c by (simp add: stream_error_def case_prod_beta Let_def)
      then show ?thesis unfolding r using calm_error_put [of g w ?s E] st Some w by simp
    next
      case False
      then have r: "snd (charge_stream E g st) = h2_put w ?s g" by (simp add: charge_stream_def Some Let_def)
      have "stream_inv 0 (h_peer_initial_win g) (h_last_id g) (h2_get w g)" using f by (simp add: flow_inv_def)
      then have "flow_inv q (owes (Some w) (h_f_len g) (\<lambda>_. 0)) (h2_put w ?s g)"
        using False by (intro flow_put [OF f]) (auto simp: stream_inv_def owes_def)
      moreover have "data_stream (h2_put w ?s g) = Some w"
        using st Some w i by (cases w) (auto simp: stream_of_def split: if_splits)
      ultimately show ?thesis using r by blast
    qed
  qed
qed

lemma begin_data_sound:
  assumes h: "fh_ready h" "h_f_type h = H2_DATA" "h_f_left h = h_f_len h" "h_f_fix_have h = 0"
  shows "sound (begin_data E h)"
proof -
  have ctl: "length (h_ctl h) \<le> H2_CTL_CAP" and f: "flow_inv 0 (\<lambda>_. 0) h" using h(1) by (simp_all add: fh_ready_def)
  define st where "st = stream_of h (h_f_sid h)"
  define g where "g = h\<lparr>h_conn_recv_win := h_conn_recv_win h - int (h_f_len h), h_f_ignore := (st = None)\<rparr>"
  define r where "r = charge_stream E g st"
  define k where "k = (snd r)\<lparr>h_f_body_left := h_f_len (snd r), h_f_phase := (if f_has (snd r) H2_F_PADDED then PH_PADLEN else PH_BODY)\<rparr>"
  have def: "begin_data E h = (if h_f_sid h = 0 \<or> idle_stream h (h_f_sid h) then conn_error E h H2_PROTOCOL_ERROR
      else if f_has h H2_F_PADDED \<and> h_f_len h < 1 then conn_error E h H2_FRAME_SIZE_ERROR
      else if h_conn_recv_win h - int (h_f_len h) < 0 then conn_error E (h\<lparr>h_conn_recv_win := h_conn_recv_win h - int (h_f_len h)\<rparr>) H2_FLOW_CONTROL_ERROR
      else if fst r \<noteq> H2C_OK then r else (H2C_OK, k))"
    unfolding begin_data_def Let_def r_def st_def g_def k_def case_prod_beta by simp
  show ?thesis
  proof (cases "h_f_sid h = 0 \<or> idle_stream h (h_f_sid h) \<or> (f_has h H2_F_PADDED \<and> h_f_len h < 1) \<or> h_conn_recv_win h - int (h_f_len h) < 0")
    case True
    then show ?thesis using ctl unfolding def by auto
  next
    case False
    have g: "flow_inv (int (h_f_len h)) (\<lambda>_. 0) g"
    proof (rule flow_conn [OF f])
      show "h2_get w g = h2_get w h" for w by (cases w) (simp_all add: g_def)
      show "conn_inv (int (h_f_len h)) g" using f False by (simp add: g_def flow_inv_def conn_inv_def)
    qed (simp_all add: g_def)
    have stg: "stream_of g (h_f_sid g) = st" "h_f_ignore g = (st = None)" by (simp_all add: g_def st_def stream_of_def)
    have gh: "parser_regs g = parser_regs h" "h_ctl g = h_ctl h" "h_last_id g = h_last_id h" "h_f_len g = h_f_len h"
      by (simp_all add: g_def parser_regs_def)
    have regs: "parser_regs (snd r) = parser_regs h \<and> length (h_ctl (snd r)) \<le> H2_CTL_CAP \<and> h_last_id (snd r) = h_last_id h \<and>
      flow_inv (int (h_f_len h)) (\<lambda>w. if data_stream (snd r) = Some w then int (h_f_len h) else 0) (snd r)"
      using charge_sound(1) [OF g stg, of E] unfolding r_def [symmetric]
    proof (elim disjE conjE exE)
      assume c: "calm g (snd r)" "data_stream (snd r) = None"
      show ?thesis using calm_flow [OF c(1) g] c gh ctl unfolding calm_def flow_regs_def c(2) by simp
    next
      fix w s assume c: "snd r = h2_put w s g" "data_stream (h2_put w s g) = Some w" "flow_inv (int (h_f_len h)) (owes (Some w) (h_f_len g) (\<lambda>_. 0)) (h2_put w s g)"
      have o: "(\<lambda>v. if Some w = Some v then int (h_f_len h) else 0) = owes (Some w) (h_f_len g) (\<lambda>_. 0)" by (auto simp: owes_def gh)
      show ?thesis unfolding c(1) c(2) o using c(3) gh ctl by simp
    qed
    have idle: "h_f_sid h \<le> h_last_id h" using False by (auto simp: idle_stream_def)
    have k: "live k"
    proof -
      have pr: "h_fh_have k = 9" "h_fh k = h_fh h" "h_f_fix k = h_f_fix h" "h_f_type k = H2_DATA" "h_f_sid k = h_f_sid h" "h_f_left k = h_f_len h" "h_last_id k = h_last_id h" "h_f_fix_have k = 0"
        using regs h by (simp_all add: k_def parser_regs_def fh_ready_def H2_FRAME_HDR_LEN_def)
      have ds: "data_stream k = data_stream (snd r)" by (simp add: k_def stream_of_def)
      have "parse_inv k" using pr h(1) idle by (auto simp: parse_inv_def fh_ready_def H2_FRAME_HDR_LEN_def k_def)
      moreover have "flow_inv q qs k = flow_inv q qs (snd r)" for q qs by (rule flow_cong) (simp_all add: k_def flow_regs_def)
      moreover have "in_data k" using pr by (simp add: in_data_def H2_FRAME_HDR_LEN_def)
      moreover have "stream_owed k = (\<lambda>w. if data_stream (snd r) = Some w then int (h_f_len h) else 0)"
        by (rule ext) (use \<open>in_data k\<close> in \<open>simp only: stream_owed_def ds pr(6) simp_thms\<close>)
      ultimately show ?thesis using regs pr by (simp add: live_def frame_owed_def)
    qed
    have "length (h_ctl k) \<le> H2_CTL_CAP" using regs by (simp add: k_def)
    then show ?thesis using False k regs charge_sound(2) [OF g stg, of E] unfolding def r_def [symmetric] by (auto simp: sound_def)
  qed
qed

lemma frame_begin_sound:
  assumes "fh_ready h0"
  shows "sound (frame_begin E h0)"
proof -
  define h where "h = parse_fh h0"
  have h: "fh_ready h" "h_f_fix_have h = 0" "h_f_left h = h_f_len h" "h_f_phase h = PH_SKIP"
    using fh_ready_parse [OF assms] by (simp_all add: h_def) (simp_all add: parse_fh_def Let_def)
  have ctl: "length (h_ctl h) \<le> H2_CTL_CAP" using h(1) by (simp add: fh_ready_def)
  have e: "sound (conn_error E h c)" for c using ctl by simp
  have data: "sound (begin_data E h)" if "h_f_type h = H2_DATA" using begin_data_sound h that by blast
  note other = sound_other [OF h(1)]
  have fixed: "sound (H2C_OK, h\<lparr>h_f_phase := PH_FIXED\<rparr>)" "sound (H2C_OK, h)" if "h_f_type h \<noteq> H2_DATA"
    using h that by (auto intro!: other simp: flow_regs_def)
  have headers: "sound (begin_headers E h)" if "h_f_type h \<noteq> H2_DATA"
    unfolding begin_headers_def Let_def by (intro sound_if e other) (simp_all add: h(2) that flow_regs_def)
  have cont: "sound (begin_cont E h)" if "h_f_type h \<noteq> H2_DATA"
    unfolding begin_cont_def Let_def by (intro sound_if e other sound_conn_error) (simp_all add: h(2) that flow_regs_def ctl)
  show ?thesis unfolding frame_begin_def Let_def h_def [symmetric]
    by (intro sound_ifI e) (rule data fixed headers cont; assumption)+
qed

lemma ctl_kept: "calm h h' \<Longrightarrow> length (h_ctl h) \<le> H2_CTL_CAP \<Longrightarrow> length (h_ctl h') \<le> H2_CTL_CAP"
  by (simp add: calm_def)

lemma ctl_setting: "length (h_ctl h) \<le> H2_CTL_CAP \<Longrightarrow> length (h_ctl (snd (setting E h i v))) \<le> H2_CTL_CAP"
proof -
  assume a: "length (h_ctl h) \<le> H2_CTL_CAP"
  have e: "length (h_ctl (snd (conn_error E g c))) \<le> H2_CTL_CAP" if "h_ctl g = h_ctl h" for g c
    using ctl_kept [OF calm_conn_error [of g E c]] a that by simp
  show ?thesis using a by (simp add: setting_def setting_window_def Let_def e)
qed

lemma ctl_fixed: "length (h_ctl h) \<le> H2_CTL_CAP \<Longrightarrow> length (h_ctl (snd (fixed_done E h))) \<le> H2_CTL_CAP"
proof -
  assume a: "length (h_ctl h) \<le> H2_CTL_CAP"
  have e: "length (h_ctl (snd (conn_error E h c))) \<le> H2_CTL_CAP" "length (h_ctl (snd (stream_error E h c))) \<le> H2_CTL_CAP" for c
    using ctl_kept [OF calm_conn_error a] ctl_kept [OF calm_stream_error a] by simp_all
  have "length (h_ctl (snd (window_update_done E h))) \<le> H2_CTL_CAP" using a by (simp add: window_update_done_def Let_def e split: option.split)
  moreover have "length (h_ctl (snd (ctl_frame E h t f i (take 8 p)))) \<le> H2_CTL_CAP" for t f i p by (rule ctl_kept [OF calm_frame a]) simp
  ultimately show ?thesis using a ctl_setting [OF a] ctl_kept [OF calm_goaway a] by (simp add: fixed_done_def Let_def split: option.split)
qed

lemma frame_end_sound:
  assumes "live h" "h_fh_have h = H2_FRAME_HDR_LEN" "h_f_left h = 0" "length (h_ctl h) \<le> H2_CTL_CAP"
  shows "sound (fst (frame_end E h), (snd (frame_end E h))\<lparr>h_fh_have := 0\<rparr>)"
proof -
  let ?r = "frame_end E h"
  have "stream_owed h = (\<lambda>_. 0)" "frame_owed h = 0" using assms(3) by (auto simp: stream_owed_def frame_owed_def)
  then have f: "flow_inv 0 (\<lambda>_. 0) h" using assms(1) by (simp add: live_def)
  have fx: "fst (fixed_done E h) = H2C_OK \<Longrightarrow> flow_inv 0 (\<lambda>_. 0) (snd (fixed_done E h))" by (rule fixed_done_flow [OF f])
  have c: "fixed_done E h = ?r \<or> calm h (snd ?r)"
    unfolding frame_end_def Let_def by (auto split: option.split)
  then have flow: "fst ?r = H2C_OK \<Longrightarrow> flow_inv 0 (\<lambda>_. 0) (snd ?r)" and regs: "parser_regs (snd ?r) = parser_regs h"
    and ctl: "length (h_ctl (snd ?r)) \<le> H2_CTL_CAP"
    using fx calm_flow [OF _ f] ctl_fixed [OF assms(4), of E] ctl_kept [OF _ assms(4)] regs_fixed_done [of E h]
    by (auto simp: calm_def dest: sym)
  have dead: "err_dead ?r"
    by (simp add: frame_end_def Let_def split: option.split)
  let ?h = "(snd ?r)\<lparr>h_fh_have := 0\<rparr>"
  have "\<not> in_data ?h" by (simp add: in_data_def H2_FRAME_HDR_LEN_def)
  moreover have "parse_inv ?h"
    using regs assms(1) by (auto simp: parse_inv_def live_def parser_regs_def in_data_def H2_FRAME_HDR_LEN_def)
  moreover have "flow_inv 0 (\<lambda>_. 0) ?h = flow_inv 0 (\<lambda>_. 0) (snd ?r)" by (rule flow_cong) (simp_all add: flow_regs_def)
  ultimately show ?thesis using dead flow ctl by (simp add: sound_def not_data_live err_dead_def)
qed

end
