(* ===== verification/H2_Engine.thy ===== *)
theory H2_Engine
  imports H2_Laws
begin

unbundle bit_operations_syntax

text \<open>
  The engine as a whole: every operation keeps the invariant of \<open>H2_Laws\<close>, every loop of it ends, and
  what a request puts on the wire.
\<close>

section \<open>Reading a payload\<close>

lemma stream_of_put: "s_open s = s_open (h2_get w h) \<Longrightarrow> s_id s = s_id (h2_get w h) \<Longrightarrow> stream_of (h2_put w s h) i = stream_of h i"
  by (cases w) (simp_all add: stream_of_def)

lemma stream_consumed_fields:
  "data_stream (snd (stream_consumed E h n)) = data_stream h" "h_last_id (snd (stream_consumed E h n)) = h_last_id h"
  "h_f_ignore (snd (stream_consumed E h n)) = h_f_ignore h"
  "length (h_ctl h) \<le> H2_CTL_CAP \<Longrightarrow> length (h_ctl (snd (stream_consumed E h n))) \<le> H2_CTL_CAP"
proof -
  have u: "stream_of (snd (ctl_u32 E h t i v)) j = stream_of h j" for h t i v j by (simp add: stream_of_def)
  have c: "length (h_ctl h) \<le> H2_CTL_CAP \<Longrightarrow> length (h_ctl (snd (ctl_u32 E h t i v))) \<le> H2_CTL_CAP" for h t i v
    using ctl_kept [OF calm_u32] by blast
  show "h_last_id (snd (stream_consumed E h n)) = h_last_id h" "h_f_ignore (snd (stream_consumed E h n)) = h_f_ignore h"
    by (simp_all add: stream_consumed_def Let_def case_prod_beta split: option.split)
  show "length (h_ctl h) \<le> H2_CTL_CAP \<Longrightarrow> length (h_ctl (snd (stream_consumed E h n))) \<le> H2_CTL_CAP"
    by (simp add: stream_consumed_def Let_def case_prod_beta c split: option.split)
  show "data_stream (snd (stream_consumed E h n)) = data_stream h"
    by (simp add: stream_consumed_def Let_def case_prod_beta stream_of_put u split: option.split)
qed

lemma data_consumed_fields:
  "data_stream (snd (data_consumed E h n)) = data_stream h" "h_last_id (snd (data_consumed E h n)) = h_last_id h"
  "length (h_ctl h) \<le> H2_CTL_CAP \<Longrightarrow> length (h_ctl (snd (data_consumed E h n))) \<le> H2_CTL_CAP"
proof -
  define g where "g = h\<lparr>h_conn_consumed := h_conn_consumed h + int n\<rparr>"
  define r where "r = (if h_conn_consumed g \<ge> H2_WU_THRESHOLD
      then (let (rc, h) = ctl_u32 E g H2_WINDOW_UPDATE 0 (nat (h_conn_consumed g))
            in (rc, h\<lparr>h_conn_recv_win := h_conn_recv_win h + h_conn_consumed h, h_conn_consumed := 0\<rparr>)) else (H2C_OK, g))"
  have def: "snd (data_consumed E h n) = (if fst r \<noteq> H2C_OK then snd r else snd (stream_consumed E (snd r) n))"
    unfolding data_consumed_def Let_def r_def g_def by (simp add: case_prod_beta)
  have d: "data_stream (snd r) = data_stream h" by (rule data_stream_cong) (simp_all add: r_def g_def case_prod_beta)
  have l: "h_last_id (snd r) = h_last_id h" by (simp add: r_def g_def case_prod_beta)
  have c: "length (h_ctl h) \<le> H2_CTL_CAP \<Longrightarrow> length (h_ctl (snd r)) \<le> H2_CTL_CAP"
    using ctl_kept [OF calm_u32 [of g E H2_WINDOW_UPDATE 0 "nat (h_conn_consumed g)"]] by (simp add: r_def case_prod_beta) (simp add: g_def)
  show "data_stream (snd (data_consumed E h n)) = data_stream h"
    unfolding def using d stream_consumed_fields(1) [of E "snd r" n] by (cases "fst r = H2C_OK") (simp_all only: if_True if_False simp_thms)
  show "h_last_id (snd (data_consumed E h n)) = h_last_id h" unfolding def using l stream_consumed_fields(2) by simp
  show "length (h_ctl h) \<le> H2_CTL_CAP \<Longrightarrow> length (h_ctl (snd (data_consumed E h n))) \<le> H2_CTL_CAP"
    unfolding def using c stream_consumed_fields(4) by simp
qed

text \<open>The state in the middle of a frame: consistent, the frame's header read, \<open>n\<close> bytes of it left.\<close>

definition mid_frame :: "h2_core_t \<Rightarrow> bool" where
  "mid_frame h \<longleftrightarrow> live h \<and> h_fh_have h = H2_FRAME_HDR_LEN \<and> length (h_ctl h) \<le> H2_CTL_CAP"

text \<open>What a turn of the payload loop leaves: the connection dead, or the frame still in progress.\<close>

definition turn_ok :: "h2_core_t \<Rightarrow> h2_rc \<times> h2_core_t \<Rightarrow> bool" where
  "turn_ok h r \<longleftrightarrow> err_dead r \<and> length (h_ctl (snd r)) \<le> H2_CTL_CAP \<and>
     (fst r = H2C_OK \<longrightarrow> mid_frame (snd r) \<and> h_f_left (snd r) = h_f_left h \<and> h_f_type (snd r) = h_f_type h)"

lemma turn_ok_error: "length (h_ctl g) \<le> H2_CTL_CAP \<Longrightarrow> turn_ok h (conn_error E g c)"
  using ctl_kept [OF calm_conn_error] by (simp add: turn_ok_def)

lemma turn_ok_regs:
  assumes "mid_frame h" "flow_regs h' = flow_regs h" "h_s h' = h_s h" "h_side h' = h_side h" "h_f_ignore h' = h_f_ignore h" "h_fh_have h' = h_fh_have h"
    "h_f_type h' = h_f_type h" "h_f_left h' = h_f_left h" "h_f_sid h' = h_f_sid h" "h_ctl h' = h_ctl h" "parse_inv h'"
  shows "turn_ok h (H2C_OK, h')"
  using assms live_cong [of h' h] by (simp add: turn_ok_def mid_frame_def)

lemma parse_upd:
  assumes "parse_inv h" "h_fh_have h' = h_fh_have h" "h_fh h' = h_fh h" "length (h_f_fix h') = 8" "h_f_type h' = h_f_type h" "h_f_sid h' = h_f_sid h"
    "h_last_id h' = h_last_id h" "h_f_phase h' = PH_PADLEN \<or> h_f_phase h' = PH_PRIO \<Longrightarrow> h_f_fix_have h' < 5"
    "h_f_phase h' = PH_FIXED \<Longrightarrow> h_f_fix_have h' < fixed_len (h_f_type h)"
  shows "parse_inv h'"
  using assms by (simp add: parse_inv_def in_data_def)

lemma padlen_ok:
  assumes "mid_frame h" "h_f_phase h = PH_PADLEN"
  shows "turn_ok h (phase_padlen E h b)"
proof -
  have p: "parse_inv h" "h_f_fix_have h < 5" "length (h_f_fix h) = 8" and c: "length (h_ctl h) \<le> H2_CTL_CAP"
    using assms by (auto simp: mid_frame_def live_def parse_inv_def)
  show ?thesis unfolding phase_padlen_def Let_def
    using c by (auto intro!: turn_ok_error turn_ok_regs [OF assms(1)] parse_upd [OF p(1)] simp: flow_regs_def p)
qed

lemma room_left_le: "room_left n limit have \<le> n" "have < limit \<Longrightarrow> have + room_left n limit have \<le> limit"
  by (auto simp: room_left_def)

lemma prio_ok:
  assumes "mid_frame h" "h_f_phase h = PH_PRIO"
  shows "turn_ok h (H2C_OK, snd (phase_prio h n))"
proof -
  have p: "parse_inv h" "h_f_fix_have h < 5" "length (h_f_fix h) = 8" using assms by (auto simp: mid_frame_def live_def parse_inv_def)
  have k: "h_f_fix_have h + room_left n 5 (h_f_fix_have h) \<le> 5" using room_left_le(2) p(2) by blast
  show ?thesis unfolding phase_prio_def Let_def snd_conv
    using k by (cases "h_f_fix_have h + room_left n 5 (h_f_fix_have h) = 5")
      (auto intro!: turn_ok_regs [OF assms(1)] parse_upd [OF p(1)] simp: flow_regs_def p assms(2))
qed

lemma body_ok:
  assumes "mid_frame h" "h_f_phase h = PH_BODY"
  shows "turn_ok h (snd (phase_body E h p))"
proof -
  define k where "k = min (length p) (h_f_body_left h)"
  define u where "u = (if h_f_type h = H2_DATA then data_bytes E h (take k p) else block_bytes E h (take k p))"
  have u: "err_dead u" "calm h (snd u)" by (simp_all add: u_def)
  define v where "v = (if k > 0 then (fst u, (snd u)\<lparr>h_f_body_left := h_f_body_left (snd u) - k\<rparr>) else (H2C_OK, h))"
  have def: "snd (phase_body E h p) = (fst v, if h_f_body_left (snd v) = 0 then (snd v)\<lparr>h_f_phase := PH_PAD\<rparr> else snd v)"
    by (simp add: phase_body_def Let_def k_def [symmetric] u_def [symmetric] v_def case_prod_beta)
  have m: "mid_frame (snd u)" "h_f_left (snd u) = h_f_left h" "h_f_type (snd u) = h_f_type h" "h_f_phase (snd u) = h_f_phase h"
    using assms(1) u(2) calm_live [OF u(2)] ctl_kept [OF u(2)] by (auto simp: mid_frame_def calm_def parser_regs_def)
  have pu: "parse_inv (snd u)" "parse_inv h" "length (h_f_fix (snd u)) = 8" "length (h_f_fix h) = 8" using m(1) assms(1) by (auto simp: mid_frame_def live_def parse_inv_def)
  have ctl: "length (h_ctl (snd u)) \<le> H2_CTL_CAP" using m(1) by (simp add: mid_frame_def)
  show ?thesis
  proof (cases "k > 0")
    case True
    let ?g = "(snd u)\<lparr>h_f_body_left := h_f_body_left (snd u) - k\<rparr>"
    have "turn_ok (snd u) (H2C_OK, ?g)" "turn_ok (snd u) (H2C_OK, ?g\<lparr>h_f_phase := PH_PAD\<rparr>)"
      by (auto intro!: turn_ok_regs [OF m(1)] parse_upd [OF pu(1)] simp: flow_regs_def pu m assms(2))
    then show ?thesis unfolding def v_def using True u(1) m ctl by (auto simp: turn_ok_def err_dead_def)
  next
    case False
    have "turn_ok h (H2C_OK, h)" "turn_ok h (H2C_OK, h\<lparr>h_f_phase := PH_PAD\<rparr>)"
      by (auto intro!: turn_ok_regs [OF assms(1)] parse_upd [OF pu(2)] simp: flow_regs_def pu assms(2))
    then show ?thesis unfolding def v_def using False by simp
  qed
qed

lemma fixed_ok:
  assumes "mid_frame h" "h_f_phase h = PH_FIXED"
  shows "turn_ok h (snd (phase_fixed E h p))"
proof -
  let ?fl = "fixed_len (h_f_type h)"
  define k where "k = room_left (length p) ?fl (h_f_fix_have h)"
  define g where "g = h\<lparr>h_f_fix := take (h_f_fix_have h) (h_f_fix h) @ take k p @ drop (h_f_fix_have h + k) (h_f_fix h), h_f_fix_have := h_f_fix_have h + k\<rparr>"
  have p: "parse_inv h" "h_f_fix_have h < ?fl" "length (h_f_fix h) = 8" and live: "live h" and ctl: "length (h_ctl h) \<le> H2_CTL_CAP"
    using assms by (auto simp: mid_frame_def live_def parse_inv_def)
  have k: "k \<le> length p" "h_f_fix_have h + k \<le> ?fl" using room_left_le p(2) by (auto simp: k_def)
  have "h_f_fix_have h + k \<le> 8" using k(2) fixed_len_pos(2) le_trans by blast
  then have len: "length (h_f_fix g) = 8" using k(1) p(3) by (simp add: g_def)
  have gf: "h_f_fix_have g = h_f_fix_have h + k" "h_f_type g = h_f_type h" by (simp_all add: g_def)
  have def: "snd (phase_fixed E h p) = (if h_f_fix_have h + k = ?fl
      then if h_f_type h = H2_SETTINGS then (fst (fixed_done E g), (snd (fixed_done E g))\<lparr>h_f_fix_have := 0\<rparr>) else (H2C_OK, g\<lparr>h_f_phase := PH_SKIP\<rparr>)
      else (H2C_OK, g))"
    unfolding phase_fixed_def Let_def k_def [symmetric] g_def [symmetric] case_prod_beta gf by simp
  have skip: "turn_ok h (H2C_OK, g\<lparr>h_f_phase := PH_SKIP\<rparr>)" "h_f_fix_have h + k \<noteq> ?fl \<Longrightarrow> turn_ok h (H2C_OK, g)"
    using k len by (auto intro!: turn_ok_regs [OF assms(1)] parse_upd [OF p(1)] simp: flow_regs_def g_def assms(2))
  have set: "turn_ok h (fst (fixed_done E g), (snd (fixed_done E g))\<lparr>h_f_fix_have := 0\<rparr>)" if t: "h_f_type h = H2_SETTINGS"
  proof -
    let ?r = "fixed_done E g"
    let ?h = "(snd ?r)\<lparr>h_f_fix_have := 0\<rparr>"
    have nd: "\<not> in_data h" using t by (simp add: in_data_def H2_SETTINGS_def H2_DATA_def)
    have "flow_inv 0 (\<lambda>_. 0) g = flow_inv 0 (\<lambda>_. 0) h" by (rule flow_cong) (simp_all add: g_def flow_regs_def)
    then have f: "flow_inv 0 (\<lambda>_. 0) g" using live not_data_live [OF nd] by simp
    have regs: "parser_regs (snd ?r) = parser_regs g" by simp
    have pr: "h_fh_have ?h = h_fh_have h" "h_f_type ?h = h_f_type h" "h_f_left ?h = h_f_left h"
      using regs by (simp_all add: parser_regs_def g_def)
    have nd2: "\<not> in_data ?h" using nd pr by (simp add: in_data_def)
    have "parse_inv ?h" using p(1) regs len nd2 by (auto simp: parse_inv_def parser_regs_def g_def)
    moreover have "flow_inv 0 (\<lambda>_. 0) ?h" if "fst ?r = H2C_OK"
      using fixed_done_flow [OF f that] flow_cong [of ?h "snd ?r" 0 "\<lambda>_. 0"] by (simp add: flow_regs_def)
    moreover have "length (h_ctl ?h) \<le> H2_CTL_CAP" using ctl_fixed [of g E] ctl by (simp add: g_def)
    moreover have "err_dead (fst ?r, ?h)" using err_dead_fixed [of E g] by (simp add: err_dead_def)
    ultimately show ?thesis using pr assms(1) not_data_live [OF nd2] by (simp add: turn_ok_def mid_frame_def)
  qed
  show ?thesis unfolding def using skip set by simp
qed

lemma turn_count: "fst (payload_turn E h p) \<le> length p" if "p \<noteq> []"
  using that room_left_le(1) by (cases "h_f_phase h") (auto simp: payload_turn_def phase_prio_def phase_body_def phase_fixed_def Let_def case_prod_beta Suc_le_eq)

lemma turn_sound: "mid_frame h \<Longrightarrow> turn_ok h (snd (payload_turn E h p))"
  using padlen_ok prio_ok body_ok fixed_ok
  by (cases "h_f_phase h") (simp_all add: payload_turn_def case_prod_beta turn_ok_def mid_frame_def)

lemma count_sound:
  assumes m: "mid_frame h" and k: "k \<le> h_f_left h"
  shows "turn_ok (h\<lparr>h_f_left := h_f_left h - k\<rparr>) (snd (payload_count E (h_f_type h = H2_DATA) (k, H2C_OK, h)))"
proof (cases "h_f_type h = H2_DATA")
  case False
  let ?h = "h\<lparr>h_f_left := h_f_left h - k\<rparr>"
  have nd: "\<not> in_data h" "\<not> in_data ?h" using False by (simp_all add: in_data_def)
  have "flow_inv 0 (\<lambda>_. 0) ?h = flow_inv 0 (\<lambda>_. 0) h" by (rule flow_cong) (simp_all add: flow_regs_def)
  moreover have "parse_inv ?h = parse_inv h" by (simp add: parse_inv_def in_data_def)
  ultimately have "mid_frame ?h" using m not_data_live [OF nd(1)] not_data_live [OF nd(2)] by (simp add: mid_frame_def)
  then show ?thesis using False by (simp add: payload_count_def turn_ok_def mid_frame_def)
next
  case True
  let ?r = "data_consumed E h k"
  let ?h = "(snd ?r)\<lparr>h_f_left := h_f_left (snd ?r) - k\<rparr>"
  have d: "in_data h" and live: "live h" and ctl: "length (h_ctl h) \<le> H2_CTL_CAP" using m True by (simp_all add: mid_frame_def in_data_def)
  define qs where "qs = (\<lambda>w. if data_stream h = Some w then int (h_f_left h) - int k else 0)"
  have "stream_owed h = owes (data_stream h) k qs" by (rule ext) (simp add: stream_owed_def owes_def qs_def d)
  then have "flow_inv (int (h_f_left h) - int k + int k) (owes (data_stream h) k qs) h" using live d by (simp add: live_def frame_owed_def)
  then have f: "fst ?r = H2C_OK \<Longrightarrow> flow_inv (int (h_f_left h) - int k) qs (snd ?r)" by (rule data_consumed_flow)
  have regs: "parser_regs (snd ?r) = parser_regs h" by simp
  have pr: "h_fh_have ?h = h_fh_have h" "h_f_type ?h = h_f_type h" "h_f_left ?h = h_f_left h - k" "h_last_id ?h = h_last_id h" "h_f_sid ?h = h_f_sid h"
    using regs data_consumed_fields(2) [of E h k] by (simp_all add: parser_regs_def)
  have ds: "data_stream ?h = data_stream h" 
  proof -
    have "data_stream ?h = data_stream (snd ?r)" by (simp add: stream_of_def)
    then show ?thesis using data_consumed_fields(1) [of E h k] by (simp only:)
  qed
  have d2: "in_data ?h" using d pr by (simp add: in_data_def)
  have ok: "live ?h" if "fst ?r = H2C_OK"
  proof -
    have "parse_inv ?h" using live regs pr by (simp add: live_def parse_inv_def parser_regs_def in_data_def)
    moreover have "stream_owed ?h = qs" by (rule ext) (use k d2 in \<open>simp only: stream_owed_def ds pr(3) qs_def of_nat_diff simp_thms\<close>)
    moreover have "frame_owed ?h = int (h_f_left h) - int k" using k d2 pr(3) by (simp add: frame_owed_def of_nat_diff)
    moreover have "flow_inv q qs ?h = flow_inv q qs (snd ?r)" for q qs by (rule flow_cong) (simp_all add: flow_regs_def)
    ultimately show ?thesis using f [OF that] by (simp add: live_def)
  qed
  have c: "length (h_ctl (snd ?r)) \<le> H2_CTL_CAP" by (rule data_consumed_fields(3) [OF ctl])
  have e: "err_dead ?r" by simp
  show ?thesis
  proof (cases "fst ?r = H2C_OK")
    case okr: True
    then have "snd (payload_count E (h_f_type h = H2_DATA) (k, H2C_OK, h)) = (H2C_OK, ?h)" using True by (simp add: payload_count_def case_prod_beta)
    then show ?thesis using ok [OF okr] c pr m by (simp add: turn_ok_def mid_frame_def)
  next
    case False
    then have "snd (payload_count E (h_f_type h = H2_DATA) (k, H2C_OK, h)) = ?r" using True by (simp add: payload_count_def case_prod_beta)
    then show ?thesis using False c e by (simp add: turn_ok_def)
  qed
qed

lemma payload_sound:
  "mid_frame h \<Longrightarrow> length p \<le> h_f_left h \<Longrightarrow> turn_ok (h\<lparr>h_f_left := h_f_left h - length p\<rparr>) (frame_payload E h p)"
proof (induction E h p rule: frame_payload.induct)
  case (1 E h p)
  show ?case
  proof (cases "p = []")
    case True
    then show ?thesis using "1.prems" by (simp add: frame_payload.simps [of E h "[]"] turn_ok_def mid_frame_def)
  next
    case False
    obtain k rc h1 where t: "payload_turn E h p = (k, rc, h1)" by (metis prod.exhaust)
    have k: "k \<le> length p" using turn_count [OF False, of E h] t by simp
    have ok: "turn_ok h (rc, h1)" using turn_sound [OF "1.prems"(1), of E p] t by simp
    obtain rc2 h2 where c: "payload_count E (h_f_type h = H2_DATA) (k, rc, h1) = (k, rc2, h2)"
      by (simp add: payload_count_def case_prod_beta Let_def)
    have ok2: "turn_ok (h\<lparr>h_f_left := h_f_left h - k\<rparr>) (rc2, h2)"
    proof (cases "rc = H2C_OK")
      case True
      then have m: "mid_frame h1" "h_f_left h1 = h_f_left h" "h_f_type h1 = h_f_type h" using ok by (simp_all add: turn_ok_def)
      then have "turn_ok (h1\<lparr>h_f_left := h_f_left h1 - k\<rparr>) (rc2, h2)" using count_sound [OF m(1), of k E] c k "1.prems"(2) True by simp
      then show ?thesis using m by (simp add: turn_ok_def)
    next
      case False
      then have "rc2 = rc" "h2 = h1" using c by (auto simp: payload_count_def)
      then show ?thesis using ok False by (simp add: turn_ok_def)
    qed
    have step: "frame_payload E h p = (if rc2 \<noteq> H2C_OK then (rc2, h2) else frame_payload E h2 (drop k p))"
      using False by (simp add: frame_payload.simps [of E h p] t c)
    show ?thesis
    proof (cases "rc2 = H2C_OK")
      case True
      then have m: "mid_frame h2" "h_f_left h2 = h_f_left h - k" "h_f_type h2 = h_f_type h" using ok2 by (simp_all add: turn_ok_def)
      then have "turn_ok (h2\<lparr>h_f_left := h_f_left h2 - length (drop k p)\<rparr>) (frame_payload E h2 (drop k p))"
        using "1.IH" [OF False _ _ _] c t True k "1.prems"(2) by simp
      moreover have "h_f_left h2 - length (drop k p) = h_f_left h - length p" using m k "1.prems"(2) by simp
      ultimately show ?thesis using m True step by (simp add: turn_ok_def)
    next
      case False
      then show ?thesis using step ok2 by (simp add: turn_ok_def)
    qed
  qed
qed

section \<open>Feeding\<close>

lemma have_regs: "parser_regs h' = parser_regs h \<Longrightarrow> h_fh_have h' = h_fh_have h"
  by (simp add: parser_regs_def)

lemma have_if: "h_fh_have (snd a) = n \<Longrightarrow> h_fh_have (snd b) = n \<Longrightarrow> h_fh_have (snd (if c then a else b)) = n"
  by simp

lemma frame_begin_have: "h_fh_have (snd (frame_begin E h)) = h_fh_have h"
proof -
  have e: "h_fh_have (snd (conn_error E g c)) = h_fh_have g" for g c by (rule have_regs) simp
  have p: "h_fh_have (parse_fh h) = h_fh_have h" by (simp add: parse_fh_def Let_def)
  have "parser_regs (snd (charge_stream E g st)) = parser_regs g" for g st by (simp add: charge_stream_def Let_def split: option.split)
  note c = have_regs [OF this]
  have d: "h_fh_have (snd (begin_data E g)) = h_fh_have g" for g
    unfolding begin_data_def Let_def case_prod_beta by (intro have_if) (simp_all add: e c)
  have b: "h_fh_have (snd (begin_headers E g)) = h_fh_have g" "h_fh_have (snd (begin_cont E g)) = h_fh_have g" for g
    unfolding begin_headers_def begin_cont_def Let_def by (intro have_if; simp add: e)+
  show ?thesis unfolding frame_begin_def Let_def by (intro have_if) (simp_all add: e p d b)
qed

definition at_rest :: "h2_core_t \<Rightarrow> bool" where
  "at_rest h \<longleftrightarrow> live h \<and> length (h_ctl h) \<le> H2_CTL_CAP"

lemma sound_close:
  assumes "sound (rc, h)" "rc = H2C_OK \<Longrightarrow> h_fh_have h \<le> H2_FRAME_HDR_LEN"
  shows "sound (feed_close E rc h)"
  using assms frame_end_sound [of h E] by (auto simp: feed_close_def case_prod_beta sound_def)

lemma header_sound:
  assumes h: "at_rest h" "h_fh_have h < H2_FRAME_HDR_LEN" and "p \<noteq> []" "feed_turn E h p = (rc, h1, p1)"
  shows "sound (rc, h1)" "length p1 < length p"
proof -
  define n where "n = min (length p) (H2_FRAME_HDR_LEN - h_fh_have h)"
  define g where "g = h\<lparr>h_fh := take (h_fh_have h) (h_fh h) @ take n p @ drop (h_fh_have h + n) (h_fh h), h_fh_have := h_fh_have h + n\<rparr>"
  have gf: "h_fh_have g = h_fh_have h + n" by (simp add: g_def)
  have def: "feed_turn E h p = (if h_fh_have h + n < H2_FRAME_HDR_LEN then (H2C_OK, g, drop n p)
      else (fst (frame_begin E g), snd (frame_begin E g), drop n p))"
    using h(2) unfolding feed_turn_def Let_def n_def [symmetric] g_def [symmetric] gf case_prod_beta by simp
  have n: "0 < n" "h_fh_have h + n \<le> H2_FRAME_HDR_LEN" "n \<le> length p" using assms(2,3) by (auto simp: n_def)
  then show "length p1 < length p" using assms(4) unfolding def by (auto split: if_splits)
  have p: "parse_inv h" "length (h_fh h) = 9" "length (h_f_fix h) = 8" and ctl: "length (h_ctl h) \<le> H2_CTL_CAP" and l: "live h"
    using h(1) by (auto simp: at_rest_def live_def parse_inv_def)
  have len: "length (h_fh g) = 9" using n p(2) by (simp add: g_def H2_FRAME_HDR_LEN_def)
  have nd: "\<not> in_data h" using h(2) by (simp add: in_data_def)
  have "flow_inv 0 (\<lambda>_. 0) g = flow_inv 0 (\<lambda>_. 0) h" by (rule flow_cong) (simp_all add: g_def flow_regs_def)
  then have f: "flow_inv 0 (\<lambda>_. 0) g" using l not_data_live [OF nd] by simp
  show "sound (rc, h1)"
  proof (cases "h_fh_have h + n < H2_FRAME_HDR_LEN")
    case True
    then have nd2: "\<not> in_data g" by (simp add: in_data_def gf)
    have "parse_inv g" using p n len nd2 True by (auto simp: parse_inv_def g_def)
    then have "live g" using not_data_live [OF nd2] f by simp
    then show ?thesis using assms(4) True ctl unfolding def by (auto simp: sound_def g_def)
  next
    case False
    then have "fh_ready g" using n len p ctl f by (auto simp: fh_ready_def gf g_def)
    then show ?thesis using frame_begin_sound [of g E] assms(4) False unfolding def by auto
  qed
qed

end
