(* ===== verification/H2_Runs.thy ===== *)
theory H2_Runs
  imports H2_Engine
begin

unbundle bit_operations_syntax

text \<open>
  Whole operations of the HTTP/2 engine and runs of them: the loops end, the invariant holds in every
  state a client can reach, whatever the server sends and whatever the embedder's hooks return.
\<close>

section \<open>Feeding returns\<close>

lemma feed_step_sound:
  assumes "at_rest h" "p \<noteq> []" "feed_turn E h p = (rc, h1, p1)" "feed_close E rc h1 = (rc2, h2)"
  shows "sound (rc2, h2)"
    and "rc2 = H2C_OK \<Longrightarrow> at_rest h2 \<and> 2 * length p1 + of_bool (h_fh_have h2 = H2_FRAME_HDR_LEN) < 2 * length p + of_bool (h_fh_have h = H2_FRAME_HDR_LEN)"
proof -
  have have9: "h_fh_have h \<le> H2_FRAME_HDR_LEN" and l: "live h" and ctl: "length (h_ctl h) \<le> H2_CTL_CAP"
    using assms(1) by (auto simp: at_rest_def live_def parse_inv_def)
  have 1: "sound (rc, h1) \<and> (length p1 < length p \<or> length p1 = length p \<and> h_fh_have h = H2_FRAME_HDR_LEN \<and> h_f_left h1 = 0 \<and> h_fh_have h1 = H2_FRAME_HDR_LEN)"
  proof (cases "h_fh_have h < H2_FRAME_HDR_LEN")
    case True
    then show ?thesis using header_sound [OF assms(1) True assms(2,3)] by simp
  next
    case False
    then have e: "h_fh_have h = H2_FRAME_HDR_LEN" using have9 by simp
    define n where "n = min (length p) (h_f_left h)"
    have r: "frame_payload E h (take n p) = (rc, h1)" "p1 = drop n p"
      using assms(3) e by (auto simp: feed_turn_def n_def Let_def case_prod_beta)
    have m: "mid_frame h" using l e ctl by (simp add: mid_frame_def)
    have "turn_ok (h\<lparr>h_f_left := h_f_left h - n\<rparr>) (rc, h1)" using payload_sound [OF m, of "take n p" E] r(1) by (simp add: n_def)
    then have "sound (rc, h1)" "rc = H2C_OK \<Longrightarrow> h_f_left h1 = h_f_left h - n \<and> h_fh_have h1 = H2_FRAME_HDR_LEN"
      by (auto simp: turn_ok_def mid_frame_def sound_def)
    moreover have "rc = H2C_OK \<and> h1 = h" if "n = 0" using r(1) that by (simp add: frame_payload.simps)
    ultimately show ?thesis using e r(2) assms(2) by (cases "n = 0") (auto simp: n_def min_def split: if_splits)
  qed
  then have h1: "rc = H2C_OK \<Longrightarrow> h_fh_have h1 \<le> H2_FRAME_HDR_LEN" by (auto simp: sound_def live_def parse_inv_def)
  have "sound (feed_close E rc h1)" using 1 h1 by (intro sound_close) auto
  then show s: "sound (rc2, h2)" by (simp add: assms(4))
  assume ok: "rc2 = H2C_OK"
  have "h_fh_have h2 \<noteq> H2_FRAME_HDR_LEN" if "h_f_left h1 = 0" "h_fh_have h1 = H2_FRAME_HDR_LEN"
    using assms(4) ok that by (cases "rc = H2C_OK") (auto simp: feed_close_def case_prod_beta H2_FRAME_HDR_LEN_def)
  then show "at_rest h2 \<and> 2 * length p1 + of_bool (h_fh_have h2 = H2_FRAME_HDR_LEN) < 2 * length p + of_bool (h_fh_have h = H2_FRAME_HDR_LEN)"
    using 1 s ok by (auto simp: sound_def at_rest_def)
qed

lemma feed_loop_sound: "at_rest h \<Longrightarrow> \<exists>r. feed_loop E h p = Some r \<and> sound r"
proof (induction "2 * length p + of_bool (h_fh_have h = H2_FRAME_HDR_LEN)" arbitrary: h p rule: less_induct)
  case less
  show ?case
  proof (cases "p = []")
    case True
    then show ?thesis using less.prems by (simp add: feed_loop.simps sound_def at_rest_def)
  next
    case False
    obtain rc h1 p1 where t: "feed_turn E h p = (rc, h1, p1)" by (metis prod.exhaust)
    obtain rc2 h2 where c: "feed_close E rc h1 = (rc2, h2)" by (metis prod.exhaust)
    note s = feed_step_sound [OF less.prems False t c]
    have step: "feed_loop E h p = (if rc2 = H2C_OK then feed_loop E h2 p1 else Some (rc2, h2))"
      using False by (simp add: feed_loop.simps [of E h p] t c)
    show ?thesis using less.hyps [of p1 h2] s step by (cases "rc2 = H2C_OK") auto
  qed
qed

text \<open>The invariant of the engine between calls.\<close>

definition h2_inv :: "h2_core_t \<Rightarrow> bool" where
  "h2_inv h \<longleftrightarrow> length (h_ctl h) \<le> H2_CTL_CAP \<and> (\<not> h_dead h \<longrightarrow> live h)"

lemma sound_inv: "sound r \<Longrightarrow> h2_inv (snd r)"
  by (auto simp: sound_def h2_inv_def err_dead_def)

lemma inv_sound_flush: "sound r \<Longrightarrow> fst r = H2C_OK \<Longrightarrow> sound (ctl_flush E (snd r))"
  by (rule sound_calm [of _ "snd r"]) (simp_all add: sound_def)

lemma feed_inv:
  assumes "h2_inv h"
  shows "\<exists>r. h2c_feed E h p = Some r \<and> h2_inv (snd r)" "\<exists>r. h2c_feed_staged E h p = Some r \<and> h2_inv (snd r)"
proof -
  have "\<exists>r. feed E h p = Some r \<and> h2_inv (snd r) \<and> (fst r = H2C_OK \<longrightarrow> sound r)"
  proof (cases "h_dead h")
    case True
    then show ?thesis using assms by (simp add: feed_def)
  next
    case False
    then obtain rc g where r: "feed_loop E h p = Some (rc, g)" "sound (rc, g)"
      using feed_loop_sound [of h E p] assms by (auto simp: h2_inv_def at_rest_def)
    then show ?thesis using sound_inv [OF r(2)] False by (auto simp: feed_def)
  qed
  then obtain rc g where r: "feed E h p = Some (rc, g)" "h2_inv g" "rc = H2C_OK \<Longrightarrow> sound (rc, g)" by auto
  then show "\<exists>r. h2c_feed_staged E h p = Some r \<and> h2_inv (snd r)" by (simp add: h2c_feed_staged_def)
  show "\<exists>r. h2c_feed E h p = Some r \<and> h2_inv (snd r)"
    using r sound_inv [OF inv_sound_flush [of "(rc, g)" E]] by (simp add: h2c_feed_def)
qed

section \<open>Sending returns\<close>

text \<open>What \<open>put_data\<close> may change, and the windows it keeps.\<close>

definition send_ok :: "h2_core_t \<Rightarrow> h2_stream_t \<Rightarrow> bool" where
  "send_ok h s \<longleftrightarrow> 0 \<le> h_conn_send_win h \<and> h_conn_send_win h \<le> H2_MAX_WINDOW \<and> s_send_win s \<le> H2_MAX_WINDOW \<and>
     - H2_MAX_WINDOW \<le> s_send_win s - int (h_peer_initial_win h) \<and> int (h_peer_initial_win h) \<le> H2_MAX_WINDOW \<and> s_body_off s \<le> length (s_body s)"

lemma data_len_le:
  "data_len h s cap off \<le> length (s_body s) - s_body_off s" "cap - off \<ge> 9 \<Longrightarrow> off + 9 + data_len h s cap off \<le> cap"
  "data_len h s cap off \<le> h_peer_max_frame h"
  "\<not> data_blocked h s \<Longrightarrow> 0 < data_len h s cap off \<Longrightarrow> int (data_len h s cap off) \<le> h_conn_send_win h \<and> int (data_len h s cap off) \<le> s_send_win s"
proof -
  let ?rem = "length (s_body s) - s_body_off s" and ?win = "min (h_conn_send_win h) (s_send_win s)"
  define m where "m = (if ?rem > 0 then min ?rem (nat ?win) else ?rem)"
  have d: "data_len h s cap off = min (min m (h_peer_max_frame h)) (cap - off - 9)" by (simp add: data_len_def m_def Let_def H2_FRAME_HDR_LEN_def)
  have n: "m \<le> ?rem" by (simp add: m_def)
  have e: "data_len h s cap off \<le> m" "data_len h s cap off \<le> cap - off - 9" unfolding d by simp_all
  show "data_len h s cap off \<le> h_peer_max_frame h" unfolding d by simp
  show "data_len h s cap off \<le> ?rem" "cap - off \<ge> 9 \<Longrightarrow> off + 9 + data_len h s cap off \<le> cap" using n e by linarith+
  assume b: "\<not> data_blocked h s" "0 < data_len h s cap off"
  then have r: "0 < ?rem" using \<open>data_len h s cap off \<le> ?rem\<close> by linarith
  then have "0 < ?win" using b(1) unfolding data_blocked_def by linarith
  moreover have "data_len h s cap off \<le> nat ?win" using r e(1) by (simp add: m_def)
  ultimately show "int (data_len h s cap off) \<le> h_conn_send_win h \<and> int (data_len h s cap off) \<le> s_send_win s" by linarith
qed

lemma send_ok_step:
  assumes "send_ok h s" "\<not> data_blocked h s" "n = data_len h s cap off"
  shows "send_ok (h\<lparr>h_conn_send_win := h_conn_send_win h - int n\<rparr>) (data_sent s n)"
proof (cases "n = 0")
  case True
  then show ?thesis using assms(1) by (simp add: send_ok_def data_sent_def)
next
  case False
  have "n \<le> length (s_body s) - s_body_off s" "int n \<le> h_conn_send_win h" "int n \<le> s_send_win s"
    using data_len_le(1) [of h s cap off] data_len_le(4) [OF assms(2), of cap off] False by (simp_all add: assms(3))
  then show ?thesis using assms(1) by (auto simp: send_ok_def data_sent_def H2_MAX_WINDOW_def)
qed

definition data_goes :: "h2_core_t \<Rightarrow> h2_stream_t \<Rightarrow> nat \<Rightarrow> nat \<Rightarrow> bool" where
  "data_goes h s off cap \<longleftrightarrow> s_open s \<and> \<not> s_local_end s \<and> cap - off \<ge> H2_FRAME_HDR_LEN \<and> \<not> data_blocked h s \<and>
     \<not> (length (s_body s) - s_body_off s > 0 \<and> data_len h s cap off = 0)"

lemma put_data_step:
  "data_goes h s (length b) cap \<Longrightarrow> n = data_len h s cap (length b) \<Longrightarrow>
   put_data h s b cap = put_data (h\<lparr>h_conn_send_win := h_conn_send_win h - int n\<rparr>) (data_sent s n) (b @ data_frame s n) cap"
  by (subst put_data.simps) (simp only: data_goes_def Let_def if_True if_False simp_thms)

lemma put_data_stop: "\<not> data_goes h s (length b) cap \<Longrightarrow> put_data h s b cap = (h, s, b)"
  by (subst put_data.simps) (auto simp: data_goes_def Let_def)

lemma put_data_induct [case_names stop go]:
  assumes "\<And>h s b. \<not> data_goes h s (length b) cap \<Longrightarrow> P h s b (h, s, b)"
    "\<And>h s b n r. data_goes h s (length b) cap \<Longrightarrow> n = data_len h s cap (length b) \<Longrightarrow>
      P (h\<lparr>h_conn_send_win := h_conn_send_win h - int n\<rparr>) (data_sent s n) (b @ data_frame s n) r \<Longrightarrow> P h s b r"
  shows "P h s b (put_data h s b cap)"
proof (induction "cap - length b" arbitrary: h s b rule: less_induct)
  case less
  show ?case
  proof (cases "data_goes h s (length b) cap")
    case True
    let ?n = "data_len h s cap (length b)"
    have "length b < length (b @ data_frame s ?n)" "length b < cap"
      using True by (simp_all add: data_goes_def H2_FRAME_HDR_LEN_def data_frame_def) linarith
    then have "cap - length (b @ data_frame s ?n) < cap - length b" by linarith
    from assms(2) [OF True refl less.hyps [OF this]] show ?thesis by (simp add: put_data_step [OF True refl])
  next
    case False
    then show ?thesis using assms(1) by (simp add: put_data_stop)
  qed
qed

definition put_only :: "h2_core_t \<Rightarrow> h2_stream_t \<Rightarrow> h2_core_t \<times> h2_stream_t \<times> bytes \<Rightarrow> bool" where
  "put_only h s r \<longleftrightarrow> fst r = h\<lparr>h_conn_send_win := h_conn_send_win (fst r)\<rparr> \<and>
     fst (snd r) = s\<lparr>s_body_off := s_body_off (fst (snd r)), s_send_win := s_send_win (fst (snd r)), s_local_end := s_local_end (fst (snd r))\<rparr>"

lemma put_data_only: "put_only h s (put_data h s b cap)"
proof (induction rule: put_data_induct)
  case (stop h s b)
  show ?case by (simp add: put_only_def)
next
  case (go h s b n r)
  have "put_only h s r" if "put_only (h\<lparr>h_conn_send_win := c\<rparr>) (data_sent s n) r" for c
    using that unfolding put_only_def data_sent_def by simp
  then show ?case using go.IH .
qed

lemma put_data_fields:
  assumes "put_data h s b cap = (h', s', b')"
  shows "\<exists>c i j e. h' = h\<lparr>h_conn_send_win := c\<rparr> \<and> s' = s\<lparr>s_body_off := i, s_send_win := j, s_local_end := e\<rparr>"
  using put_data_only [of h s b cap] unfolding assms put_only_def fst_conv snd_conv by blast

lemma put_data_send_ok: "send_ok h s \<Longrightarrow> send_ok (fst (put_data h s b cap)) (fst (snd (put_data h s b cap)))"
  by (rule put_data_induct [where P = "\<lambda>h s b r. send_ok h s \<longrightarrow> send_ok (fst r) (fst (snd r))", THEN mp])
    (simp_all add: send_ok_step data_goes_def)

lemma put_data_length: "length b \<le> cap \<Longrightarrow> length (snd (snd (put_data h s b cap))) \<le> cap"
proof (rule put_data_induct [where P = "\<lambda>h s b r. length b \<le> cap \<longrightarrow> length (snd (snd r)) \<le> cap", THEN mp])
  fix h s b n r assume "data_goes h s (length b) cap" "n = data_len h s cap (length b)" and ih: "length (b @ data_frame s n) \<le> cap \<longrightarrow> length (snd (snd r)) \<le> cap"
  then have "length (b @ data_frame s n) \<le> cap"
    using data_len_le(2) [of cap "length b" h s] by (simp add: data_goes_def H2_FRAME_HDR_LEN_def data_frame_def)
  then show "length b \<le> cap \<longrightarrow> length (snd (snd r)) \<le> cap" using ih by simp
qed simp_all

text \<open>A burst into a buffer with room for one byte of DATA makes progress.\<close>

lemma put_data_off_mono: "s_body_off s \<le> s_body_off (fst (snd (put_data h s b cap))) \<and> (s_local_end s \<longrightarrow> s_local_end (fst (snd (put_data h s b cap))))"
  by (rule put_data_induct [where P = "\<lambda>h s b r. s_body_off s \<le> s_body_off (fst (snd r)) \<and> (s_local_end s \<longrightarrow> s_local_end (fst (snd r)))"])
    (simp_all add: data_sent_def)

lemma put_data_progress:
  assumes "s_open s" "\<not> s_local_end s" "\<not> data_blocked h s" "length b + 10 \<le> cap" "0 < h_peer_max_frame h"
  shows "s_local_end (fst (snd (put_data h s b cap))) \<or> s_body_off s < s_body_off (fst (snd (put_data h s b cap))) \<and> s_body_off s < length (s_body s)"
proof -
  let ?n = "data_len h s cap (length b)"
  have n: "0 < ?n" if "length (s_body s) - s_body_off s > 0"
    using that assms(3-5) by (auto simp: data_len_def Let_def data_blocked_def H2_FRAME_HDR_LEN_def)
  then have go: "data_goes h s (length b) cap" using assms by (auto simp: data_goes_def H2_FRAME_HDR_LEN_def)
  show ?thesis
  proof (cases "length (s_body s) - s_body_off s > 0")
    case True
    then have "s_body_off s < s_body_off (data_sent s ?n)" "s_body_off s < length (s_body s)" using n [OF True] by (simp_all add: data_sent_def)
    then show ?thesis using put_data_off_mono less_le_trans unfolding put_data_step [OF go refl] by blast
  next
    case False
    then have "?n = length (s_body s) - s_body_off s" using data_len_le(1) [of h s cap "length b"] by simp
    then have "s_local_end (data_sent s ?n)" by (simp add: data_sent_def)
    then show ?thesis using put_data_off_mono unfolding put_data_step [OF go refl] by blast
  qed
qed

lemma stream_inv_send:
  assumes "conn_inv q h" "stream_inv a (h_peer_initial_win h) (h_last_id h) s" "s_open s"
  shows "send_ok h s"
  using assms by (simp add: conn_inv_def stream_inv_def send_ok_def)

lemma put_data_of_live:
  assumes l: "live h" and o: "s_open (h2_get w h)"
  shows "live (fst (put_data_of h w b cap))"
proof -
  obtain h1 s1 b1 where r: "put_data h (h2_get w h) b cap = (h1, s1, b1)" by (metis prod.exhaust)
  have f: "conn_inv (frame_owed h) h" "stream_inv (stream_owed h v) (h_peer_initial_win h) (h_last_id h) (h2_get v h)" "ids_differ h" for v
    using l by (auto simp: live_def flow_inv_def)
  have k: "send_ok h1 s1" using put_data_send_ok [OF stream_inv_send [OF f(1,2) o], of b cap] r by simp
  obtain c i j e where c: "h1 = h\<lparr>h_conn_send_win := c\<rparr>" "s1 = (h2_get w h)\<lparr>s_body_off := i, s_send_win := j, s_local_end := e\<rparr>"
    using put_data_fields [OF r] by blast
  let ?g = "h2_put w s1 h1"
  have g: "h2_get v ?g = (if v = w then s1 else h2_get v h)" for v by (simp add: c(1))
  have ds: "data_stream ?g = data_stream h" using c by (cases w) (simp_all add: stream_of_def)
  have fr: "frame_owed ?g = frame_owed h" "parse_inv ?g = parse_inv h" "in_data ?g = in_data h" "h_f_left ?g = h_f_left h"
    using c(1) by (cases w; simp add: frame_owed_def in_data_def parse_inv_def)+
  have so: "stream_owed ?g = stream_owed h" unfolding stream_owed_def ds fr ..
  have "stream_inv (stream_owed h v) (h_peer_initial_win h) (h_last_id h) (h2_get v ?g)" for v
    using f(2) [of v] k c by (cases "v = w") (auto simp: stream_inv_def send_ok_def g)
  moreover have "h_peer_initial_win ?g = h_peer_initial_win h" "h_last_id ?g = h_last_id h" by (simp_all add: c(1))
  moreover have "conn_inv (frame_owed h) ?g" using f(1) k c(1) by (cases w) (auto simp: conn_inv_def send_ok_def)
  moreover have "ids_differ ?g" using f(3) c by (cases w) (auto simp: ids_differ_def)
  ultimately have "live ?g" using l by (simp add: live_def flow_inv_def fr so)
  then show ?thesis by (simp add: put_data_of_def r)
qed

lemma tx_begin_cases:
  assumes "tx_begin E h = (h1, r)"
  shows "calm h h1" "r = Some (cap, b) \<Longrightarrow> b = h_ctl h \<and> h_ctl h1 = [] \<and> 74 \<le> cap" "h_dead h1 = h_dead h" "h_s h1 = h_s h" "h_side h1 = h_side h"
    "flow_regs h1 = flow_regs h"
proof -
  have c: "calm h (h\<lparr>h_io := l, h_ctl := []\<rparr>)" for l by (rule calm_trans [OF calm_upd(1) [of h l] calm_upd(5)])
  show "calm h h1" "r = Some (cap, b) \<Longrightarrow> b = h_ctl h \<and> h_ctl h1 = [] \<and> 74 \<le> cap" "h_dead h1 = h_dead h" "h_s h1 = h_s h" "h_side h1 = h_side h"
    "flow_regs h1 = flow_regs h"
    using assms c by (auto simp: tx_begin_def Let_def H2_CTL_CAP_def H2_FRAME_HDR_LEN_def flow_regs_def split: option.splits if_splits)
qed

lemma tx_end_calm: "calm h (snd (tx_end E h b))" "err_dead (tx_end E h b)" "fst (tx_end E h b) = H2C_OK \<Longrightarrow> h_s (snd (tx_end E h b)) = h_s h"
proof -
  have c: "calm h (h\<lparr>h_io := l, h_dead := True\<rparr>)" for l by (rule calm_trans [OF calm_upd(1) calm_upd(2)])
  show "calm h (snd (tx_end E h b))" "err_dead (tx_end E h b)" "fst (tx_end E h b) = H2C_OK \<Longrightarrow> h_s (snd (tx_end E h b)) = h_s h"
    using c by (auto simp: tx_end_def Let_def err_dead_def)
qed

lemma pump_turn:
  assumes h: "at_rest h" "s_open (h_s h)" "\<not> s_local_end (h_s h)" "\<not> data_blocked h (h_s h)" and t: "tx_begin E h = (h1, Some (cap, b))"
    and p: "put_data_of h1 H2_MAIN b cap = (h2, b2)"
  shows "at_rest h2" "s_local_end (h_s h2) \<or> length (s_body (h_s h2)) - s_body_off (h_s h2) < length (s_body (h_s h)) - s_body_off (h_s h)"
proof -
  note tx = tx_begin_cases [OF t]
  have b: "b = h_ctl h" "h_ctl h1 = []" "74 \<le> cap" using tx(2) [of cap b] by simp_all
  have l1: "live h1" using calm_live [OF tx(1)] h(1) by (simp add: at_rest_def)
  have s1: "h_s h1 = h_s h" by (rule tx)
  have "live h2" using put_data_of_live [OF l1, of H2_MAIN b cap] p s1 h(2) by simp
  moreover obtain g s bb where r: "put_data h1 (h_s h1) b cap = (g, s, bb)" by (metis prod.exhaust)
  have h2: "h2 = g\<lparr>h_s := s\<rparr>" using p r by (simp add: put_data_of_def)
  have g: "h_ctl g = []" "s_body s = s_body (h_s h1)" using put_data_fields [OF r] b(2) by auto
  ultimately show "at_rest h2" by (simp add: at_rest_def h2)
  have "data_blocked h1 (h_s h1) = data_blocked h (h_s h)" "0 < h_peer_max_frame h1"
    using tx(6) s1 l1 by (simp_all add: data_blocked_def flow_regs_def live_def flow_inv_def conn_inv_def H2_MAX_FRAME_def)
  then have "s_local_end s \<or> s_body_off (h_s h1) < s_body_off s \<and> s_body_off (h_s h1) < length (s_body (h_s h1))"
    using put_data_progress [of "h_s h1" h1 b cap] h s1 b r by (simp add: at_rest_def H2_CTL_CAP_def)
  then show "s_local_end (h_s h2) \<or> length (s_body (h_s h2)) - s_body_off (h_s h2) < length (s_body (h_s h)) - s_body_off (h_s h)"
    using g(2) s1 by (auto simp: h2 intro: diff_less_mono2)
qed

lemma pump_stop: "\<not> (s_open (h_s h) \<and> \<not> s_local_end (h_s h) \<and> \<not> data_blocked h (h_s h)) \<Longrightarrow> pump_loop E h = Some (H2C_OK, h)"
  by (subst pump_loop.simps) (simp only: if_False simp_thms)

lemma at_rest_inv: "at_rest h \<Longrightarrow> h2_inv h"
  by (simp add: at_rest_def h2_inv_def)

lemma pump_sound: "at_rest h \<Longrightarrow> \<exists>r. pump_loop E h = Some r \<and> h2_inv (snd r)"
proof (induction "length (s_body (h_s h)) - s_body_off (h_s h)" arbitrary: h rule: less_induct)
  case less
  show ?case
  proof (cases "s_open (h_s h) \<and> \<not> s_local_end (h_s h) \<and> \<not> data_blocked h (h_s h)")
    case False
    then show ?thesis using less.prems at_rest_inv by (simp add: pump_stop)
  next
    case True
    obtain h1 o' where t: "tx_begin E h = (h1, o')" by (metis prod.exhaust)
    note tx = tx_begin_cases [OF t]
    show ?thesis
    proof (cases o')
      case None
      then show ?thesis using True less.prems calm_live [OF tx(1)] ctl_kept [OF tx(1)]
        by (simp add: pump_loop.simps [of E h] t h2_inv_def at_rest_def)
    next
      case (Some cb)
      obtain cap b where cb: "o' = Some (cap, b)" using Some by (cases cb) simp
      obtain h2 b2 where p: "put_data_of h1 H2_MAIN b cap = (h2, b2)" by (metis prod.exhaust)
      obtain rc h3 where e: "tx_end E h2 b2 = (rc, h3)" by (metis prod.exhaust)
      have turn: "at_rest h2" "s_local_end (h_s h2) \<or> length (s_body (h_s h2)) - s_body_off (h_s h2) < length (s_body (h_s h)) - s_body_off (h_s h)"
        using pump_turn [OF less.prems _ _ _ _ p] True t cb by blast+
      have c: "calm h2 h3" "err_dead (rc, h3)" "rc = H2C_OK \<Longrightarrow> h_s h3 = h_s h2" using tx_end_calm [where h = h2 and E = E and b = b2] e by auto
      have r3: "at_rest h3" using turn(1) calm_live [OF c(1)] ctl_kept [OF c(1)] by (simp add: at_rest_def)
      have step: "pump_loop E h = (if rc \<noteq> H2C_OK then Some (rc, h3) else pump_loop E h3)"
        using True by (simp add: pump_loop.simps [of E h] t cb p e)
      show ?thesis
      proof (cases "rc = H2C_OK")
        case ok: True
        show ?thesis
        proof (cases "s_local_end (h_s h3)")
          case True
          then show ?thesis using step ok r3 pump_stop [of h3 E] at_rest_inv by simp
        next
          case False
          then show ?thesis using less.hyps [of h3] turn(2) c(3) r3 step ok by simp
        qed
      next
        case False
        then show ?thesis using step c(2) r3 by (simp add: h2_inv_def at_rest_def err_dead_def)
      qed
    qed
  qed
qed

lemma pump_inv: "h2_inv h \<Longrightarrow> \<exists>r. h2c_pump E h = Some r \<and> h2_inv (snd r)"
  using pump_sound [of h E] by (auto simp: h2c_pump_def h2_inv_def at_rest_def)

lemma cancel_inv: "h2_inv h \<Longrightarrow> h2_inv (snd (h2c_cancel_side E h))"
proof -
  assume i: "h2_inv h"
  let ?u = "ctl_u32 E h H2_RST_STREAM (s_id (h_side h)) H2_CANCEL"
  let ?g = "(snd ?u)\<lparr>h_side := close_stream (h_side (snd ?u)) H2_CANCEL\<rparr>"
  have c: "calm h ?g" using calm_trans [OF calm_u32 calm_put [of H2_SIDE "snd ?u"]] by simp
  have e: "err_dead (fst ?u, ?g)" using err_dead_ctl(3) [of E h] by (simp add: err_dead_def)
  have "h2_inv (snd (ctl_flush E ?g))" "h2_inv ?g" if "\<not> h_dead h"
  proof -
    have l: "live ?g" "length (h_ctl ?g) \<le> H2_CTL_CAP" using calm_live [OF c] ctl_kept [OF c] i that by (simp_all add: h2_inv_def)
    then show "h2_inv ?g" by (simp add: h2_inv_def)
    show "h2_inv (snd (ctl_flush E ?g))" using calm_live [OF calm_flush l(1)] ctl_kept [OF calm_flush l(2)] by (simp add: h2_inv_def)
  qed
  then show ?thesis using i by (simp add: h2c_cancel_side_def Let_def case_prod_beta)
qed

lemma init_inv: "h2_inv h2c_init"
proof -
  have "\<not> in_data h2c_init" "parse_inv h2c_init" by (simp_all add: in_data_def parse_inv_def h2c_init_def H2_FRAME_HDR_LEN_def)
  moreover have "flow_inv 0 (\<lambda>_. 0) h2c_init"
    by (simp add: flow_inv_def conn_inv_def stream_inv_def which_all ids_differ_def h2c_init_def stream_zero_def H2_DEFAULT_WINDOW_def H2_WU_THRESHOLD_def
        H2_MAX_WINDOW_def H2_MAX_FRAME_def)
  ultimately show ?thesis by (simp add: h2_inv_def not_data_live) (simp add: h2c_init_def)
qed

lemma start_inv: "h2_inv h \<Longrightarrow> h2_inv (snd (h2c_start E h))"
proof -
  assume i: "h2_inv h"
  let ?p = "[0, of_nat H2_SET_HEADER_TABLE_SIZE, 0, 0, 0, 0, 0, of_nat H2_SET_ENABLE_PUSH, 0, 0, 0, 0] :: bytes"
  let ?h = "h\<lparr>h_ctl := H2_PREFACE\<rparr>"
  have pre: "length H2_PREFACE = 24" by (simp add: H2_PREFACE_def str_bytes_def)
  have cong: "calm h ?h" using pre by (simp add: calm_def parser_regs_def flow_regs_def which_all H2_CTL_CAP_def)
  let ?f = "ctl_frame E ?h H2_SETTINGS 0 0 ?p"
  have f: "calm h (snd ?f)" by (rule calm_trans [OF cong calm_frame]) simp
  have g: "calm h (snd (ctl_flush E (snd ?f)))" by (rule calm_trans [OF f calm_flush])
  have keep: "h2_inv k" if "calm h k" for k
    using i that calm_live [OF that] ctl_kept [OF that] by (auto simp: h2_inv_def calm_def)
  have last': "h2_inv (k\<lparr>h_settings_unacked := 1, h_started := True\<rparr>)" if "h2_inv k" for k
  proof -
    let ?k = "k\<lparr>h_settings_unacked := 1, h_started := True\<rparr>"
    have "live ?k = live k" by (simp add: live_def parse_inv_def in_data_def flow_inv_def conn_inv_def which_all ids_differ_def frame_owed_def stream_owed_def stream_of_def)
    then show ?thesis using that by (simp add: h2_inv_def)
  qed
  show ?thesis using i keep [OF f] keep [OF g] last' by (simp add: h2c_start_def Let_def case_prod_beta)
qed

section \<open>Opening streams\<close>

lemma open_live:
  assumes l: "live h" and c: "\<not> s_open (h2_get w h)"
  defines "g \<equiv> h\<lparr>h_next_id := h_next_id h + 2, h_last_id := h_next_id h, h_sent_size_update := True\<rparr>"
  shows "live (h2_put w (new_stream g (h_next_id h) r) g)"
proof -
  let ?k = "h2_put w (new_stream g (h_next_id h) r) g"
  have f: "conn_inv (frame_owed h) h" "stream_inv (stream_owed h v) (h_peer_initial_win h) (h_last_id h) (h2_get v h)" "ids_differ h" "parse_inv h" for v
    using l by (auto simp: live_def flow_inv_def)
  have lt: "h_last_id h < h_next_id h" using f(1) by (simp add: conn_inv_def)
  have g: "h2_get v g = h2_get v h" for v by (cases v) (simp_all add: g_def)
  have k: "h2_get v ?k = (if v = w then new_stream g (h_next_id h) r else h2_get v h)" for v by (simp add: g)
  have id: "in_data ?k = in_data h" "h_f_left ?k = h_f_left h" "frame_owed ?k = frame_owed h" "h_peer_initial_win ?k = h_peer_initial_win h" "h_last_id ?k = h_next_id h"
    by (cases w; simp add: g_def in_data_def frame_owed_def)+
  have sid: "h_f_sid h \<noteq> h_next_id h" if "in_data h" using f(4) lt that by (auto simp: parse_inv_def)
  have ids: "ids_differ ?k"
    using f(2) [of H2_MAIN] f(2) [of H2_SIDE] lt f(3) by (cases w) (auto simp: ids_differ_def stream_inv_def new_stream_def g_def)
  have owed: "stream_owed ?k v = stream_owed h v" if "s_open (h2_get v ?k)" for v
  proof (cases "in_data h")
    case True
    have fs: "h_f_sid ?k = h_f_sid h" "h_f_ignore ?k = h_f_ignore h" by (simp_all add: g_def)
    have "(stream_of ?k (h_f_sid h) = Some v) = (stream_of h (h_f_sid h) = Some v)"
      using that c sid [OF True] unfolding stream_of_iff [OF ids] stream_of_iff [OF f(3)] k
      by (cases "v = w") (auto simp: new_stream_def)
    then show ?thesis using fs id by (auto simp: stream_owed_def)
  qed (simp add: stream_owed_def id)
  have new: "stream_owed h w = 0" using c stream_of_SomeD [of h "h_f_sid h" w] by (auto simp: stream_owed_def split: if_splits)
  have init: "int (h_peer_initial_win h) \<le> H2_MAX_WINDOW" using f(1) by (simp add: conn_inv_def)
  have "stream_inv (stream_owed h v) (h_peer_initial_win h) (h_next_id h) (h2_get v ?k)" for v
  proof (cases "v = w")
    case True
    then show ?thesis using new init lt by (simp add: k stream_inv_def new_stream_def g_def stream_zero_def H2_DEFAULT_WINDOW_def H2_MAX_WINDOW_def)
  next
    case False
    then show ?thesis using f(2) [of v] lt by (auto simp: k g stream_inv_def)
  qed
  moreover have "conn_inv (frame_owed h) ?k" using f(1) by (cases w) (auto simp: conn_inv_def g_def)
  moreover have "parse_inv ?k" using f(4) lt by (cases w) (auto simp: parse_inv_def in_data_def g_def)
  ultimately have "flow_inv (frame_owed h) (stream_owed h) ?k \<and> parse_inv ?k" unfolding flow_inv_def id using ids by blast
  then show ?thesis unfolding live_def id using flow_inv_weaken [of "frame_owed h" "stream_owed h" ?k "stream_owed ?k"] owed by blast
qed

text \<open>What opening a stream leaves alone.\<close>

definition same_base :: "h2_core_t \<Rightarrow> h2_core_t \<Rightarrow> bool" where
  "same_base h h' \<longleftrightarrow> parser_regs h' = parser_regs h \<and> h_f_ignore h' = h_f_ignore h \<and> h_ctl h' = h_ctl h \<and> h_dead h' = h_dead h \<and> h_io h' = h_io h \<and>
     (h_conn_recv_win h', h_conn_consumed h', h_peer_initial_win h', h_peer_max_frame h', h_started h') =
     (h_conn_recv_win h, h_conn_consumed h, h_peer_initial_win h, h_peer_max_frame h, h_started h)"

lemma same_base_trans: "same_base a b \<Longrightarrow> same_base b c \<Longrightarrow> same_base a c"
  by (simp add: same_base_def)

lemma same_base_put [simp]: "same_base h (h2_put w s h)"
  by (cases w) (simp_all add: same_base_def parser_regs_def)

lemma open_stream_laws:
  assumes r: "open_stream h w q b cap = (rc, h', b')"
  shows "same_base h h'" "v \<noteq> w \<Longrightarrow> h2_get v h' = h2_get v h" "rc \<noteq> H2C_OK \<Longrightarrow> h' = h \<and> rc = H2C_ERR_SIZE"
    "rc = H2C_OK \<Longrightarrow> live h \<Longrightarrow> \<not> s_open (h2_get w h) \<Longrightarrow> live h'"
proof -
  define g where "g = h\<lparr>h_next_id := h_next_id h + 2, h_last_id := h_next_id h, h_sent_size_update := True\<rparr>"
  define k where "k = h2_put w (new_stream g (h_next_id h) q) g"
  have base: "same_base h k" unfolding k_def by (rule same_base_trans [OF _ same_base_put]) (simp add: same_base_def parser_regs_def g_def)
  have get: "h2_get v k = h2_get v h" if "v \<noteq> w" for v using that by (cases v) (simp_all add: k_def g_def)
  have case_ok: "(rc = H2C_ERR_SIZE \<and> h' = h) \<or> (rc = H2C_OK \<and> (\<exists>x. put_data_of k w x cap = (h', b')))"
    using r unfolding open_stream_def Let_def k_def g_def by (auto simp: case_prod_beta split: if_splits option.splits)
  show "rc \<noteq> H2C_OK \<Longrightarrow> h' = h \<and> rc = H2C_ERR_SIZE" using case_ok by auto
  have ok: "same_base k h' \<and> (\<forall>v. v \<noteq> w \<longrightarrow> h2_get v h' = h2_get v k) \<and> (live k \<longrightarrow> live h')" if "put_data_of k w x cap = (h', b')" for x
  proof -
    obtain h1 s1 b1 where p: "put_data k (h2_get w k) x cap = (h1, s1, b1)" by (metis prod.exhaust)
    have h': "h' = h2_put w s1 h1" using that p by (simp add: put_data_of_def)
    obtain c where c: "h1 = k\<lparr>h_conn_send_win := c\<rparr>" using put_data_fields [OF p] by blast
    have "same_base k h'" unfolding h' by (rule same_base_trans [OF _ same_base_put]) (simp add: c same_base_def parser_regs_def)
    moreover have "s_open (h2_get w k)" by (simp add: k_def new_stream_def)
    moreover have "live k \<Longrightarrow> live h'" using put_data_of_live [of k w x cap] that calculation(2) by simp
    ultimately show ?thesis by (simp add: h' c)
  qed
  show "same_base h h'" using case_ok ok base same_base_trans by (auto simp: same_base_def)
  show "v \<noteq> w \<Longrightarrow> h2_get v h' = h2_get v h" using case_ok ok get by auto
  show "rc = H2C_OK \<Longrightarrow> live h \<Longrightarrow> \<not> s_open (h2_get w h) \<Longrightarrow> live h'"
    using case_ok ok open_live [of h w q] by (auto simp: k_def g_def)
qed

lemma open_pair_laws:
  assumes r: "open_pair h side req b cap = (rc, h', b')" and l: "live h" and c: "\<not> s_open (h_s h)" "side \<noteq> None \<Longrightarrow> \<not> s_open (h_side h)"
  shows "same_base h h'" "rc = H2C_OK \<Longrightarrow> live h'" "rc \<noteq> H2C_OK \<Longrightarrow> h_s h' = h_s h" "side = None \<Longrightarrow> h_side h' = h_side h"
proof -
  obtain rc1 h1 b1 where 1: "(case side of None \<Rightarrow> (H2C_OK, h, b) | Some q \<Rightarrow>
      (let (rc, h, b) = open_stream h H2_SIDE q b cap in (if rc = H2C_OK \<and> \<not> s_local_end (h_side h) then H2C_ERR_SIZE else rc, h, b))) = (rc1, h1, b1)"
    by (rule prod_cases3)
  have a: "same_base h h1 \<and> h_s h1 = h_s h \<and> (rc1 = H2C_OK \<longrightarrow> live h1) \<and> (side = None \<longrightarrow> h_side h1 = h_side h)"
  proof (cases side)
    case None
    then show ?thesis using 1 l by (auto simp: same_base_def)
  next
    case (Some q)
    obtain rc2 h2 b2 where o2: "open_stream h H2_SIDE q b cap = (rc2, h2, b2)" by (metis prod.exhaust)
    note w = open_stream_laws [OF o2]
    have "h1 = h2" "rc1 = H2C_OK \<Longrightarrow> rc2 = H2C_OK" using 1 Some o2 by (auto split: if_splits)
    then show ?thesis using w(1) w(2) [of H2_MAIN] w(4) l c Some by auto
  qed
  have 2: "open_pair h side req b cap = (if rc1 = H2C_OK then open_stream h1 H2_MAIN req b1 cap else (rc1, h1, b1))"
    unfolding open_pair_def 1 by simp
  have "same_base h h' \<and> (rc = H2C_OK \<longrightarrow> live h') \<and> (rc \<noteq> H2C_OK \<longrightarrow> h_s h' = h_s h) \<and> (side = None \<longrightarrow> h_side h' = h_side h)"
  proof (cases "rc1 = H2C_OK")
    case False
    then show ?thesis using r 2 a by simp
  next
    case True
    then have o: "open_stream h1 H2_MAIN req b1 cap = (rc, h', b')" using r 2 by simp
    note w = open_stream_laws [OF o]
    show ?thesis using a True same_base_trans [OF _ w(1)] w(2) [of H2_SIDE] w(3,4) c(1) by auto
  qed
  then show "same_base h h'" "rc = H2C_OK \<Longrightarrow> live h'" "rc \<noteq> H2C_OK \<Longrightarrow> h_s h' = h_s h" "side = None \<Longrightarrow> h_side h' = h_side h" by simp_all
qed

lemma rollback_calm:
  assumes b: "same_base h h'" and s: "h_s h' = h_s h" and d: "\<not> s_open (h_s h)" "sd = stream_zero \<or> sd = h_side h"
  shows "calm h (h'\<lparr>h_side := sd, h_s := (h_s h')\<lparr>s_open := False\<rparr>, h_next_id := h_next_id h, h_last_id := h_last_id h,
     h_sent_size_update := h_sent_size_update h, h_conn_send_win := h_conn_send_win h\<rparr>)"
proof -
  have "kept (h_side h) sd" using d(2) by (auto simp: kept_def stream_zero_def)
  moreover have "kept (h_s h) ((h_s h')\<lparr>s_open := False\<rparr>)" by (simp add: kept_def)
  ultimately show ?thesis using b by (simp add: calm_def same_base_def parser_regs_def flow_regs_def which_all)
qed

lemma request_inv:
  assumes i: "h2_inv h"
  shows "\<exists>r. h2c_request_pair E h side req = Some r \<and> h2_inv (snd r)"
proof -
  define a where "a \<longleftrightarrow> \<not> h_started h \<or> h_dead h \<or> h_goaway h \<or> s_open (h_s h) \<or> (side \<noteq> None \<and> s_open (h_side h))"
  define b where "b \<longleftrightarrow> h_next_id h > (if side \<noteq> None then 0x7ffffffd else 0x7fffffff)"
  define c where "c \<longleftrightarrow> side \<noteq> None \<and> h_peer_max_streams h < 2"
  note def0 = h2c_request_pair_def [of E h side req, folded a_def b_def c_def]
  have refused: ?thesis if "a \<or> b \<or> c" using that i unfolding def0 by (cases a; cases b; cases c) simp_all
  show ?thesis
  proof (cases "a \<or> b \<or> c")
    case True
    then show ?thesis by (rule refused)
  next
    case False
    then have l: "live h" "\<not> h_dead h" "\<not> s_open (h_s h)" "side \<noteq> None \<Longrightarrow> \<not> s_open (h_side h)" and ctl: "length (h_ctl h) \<le> H2_CTL_CAP"
      using i by (auto simp: h2_inv_def a_def)
    obtain h1 o' where t: "tx_begin E h = (h1, o')" by (metis prod.exhaust)
    note tx = tx_begin_cases [OF t]
    have l1: "live h1" "length (h_ctl h1) \<le> H2_CTL_CAP" "\<not> h_dead h1" using calm_live [OF tx(1)] ctl_kept [OF tx(1)] l ctl tx(3) by simp_all
    have def: "h2c_request_pair E h side req = (case (h1, o') of
               (h, None) \<Rightarrow> Some (H2C_ERR_IO, h)
             | (h, Some (cap, c)) \<Rightarrow>
                 (case open_pair h side req c cap of (rc, h', b) \<Rightarrow>
                    if rc \<noteq> H2C_OK
                    then (let h' = (if side \<noteq> None then h'\<lparr>h_side := stream_zero\<rparr> else h');
                              h' = h'\<lparr>h_s := (h_s h')\<lparr>s_open := False\<rparr>, h_next_id := h_next_id h, h_last_id := h_last_id h,
                                      h_sent_size_update := h_sent_size_update h, h_conn_send_win := h_conn_send_win h\<rparr>;
                              (frc, h') = tx_end E h' c
                          in Some (if frc \<noteq> H2C_OK then frc else rc, h'))
                    else (case tx_end E h' b of (rc, h) \<Rightarrow> if rc \<noteq> H2C_OK then Some (rc, h) else h2c_pump E h)))"
      using False unfolding def0 t by (simp only: if_False simp_thms de_Morgan_disj)
    show ?thesis
    proof (cases o')
      case None
      then show ?thesis using l1 unfolding def by (simp add: h2_inv_def)
    next
      case (Some cb)
      obtain cap c where cb: "o' = Some (cap, c)" using Some by (cases cb) simp
      obtain rc h2 b where o2: "open_pair h1 side req c cap = (rc, h2, b)" by (metis prod.exhaust)
      note w = open_pair_laws [OF o2 l1(1)]
      have w: "same_base h1 h2" "rc = H2C_OK \<Longrightarrow> live h2" "rc \<noteq> H2C_OK \<Longrightarrow> h_s h2 = h_s h1" "side = None \<Longrightarrow> h_side h2 = h_side h1"
        using w tx(4,5) l by auto
      have fin: "h2_inv (snd (tx_end E k x))" if "live k" "length (h_ctl k) \<le> H2_CTL_CAP" for k x
        using calm_live [OF tx_end_calm(1) that(1)] ctl_kept [OF tx_end_calm(1) that(2)] by (simp add: h2_inv_def)
      show ?thesis
      proof (cases "rc = H2C_OK")
        case True
        have "length (h_ctl h2) \<le> H2_CTL_CAP" using w(1) l1(2) by (simp add: same_base_def)
        then have e: "h2_inv (snd (tx_end E h2 b))" using fin w(2) True by simp
        obtain rc3 h3 where h3: "tx_end E h2 b = (rc3, h3)" by (metis prod.exhaust)
        have "h2c_request_pair E h side req = (if rc3 \<noteq> H2C_OK then Some (rc3, h3) else h2c_pump E h3)"
          unfolding def cb using True by (simp add: o2 h3)
        then show ?thesis using e pump_inv [of h3 E] h3 by (cases "rc3 = H2C_OK") simp_all
      next
        case False
        define sd where "sd = (if side \<noteq> None then stream_zero else h_side h2)"
        define k where "k = h2\<lparr>h_side := sd, h_s := (h_s h2)\<lparr>s_open := False\<rparr>, h_next_id := h_next_id h1, h_last_id := h_last_id h1,
            h_sent_size_update := h_sent_size_update h1, h_conn_send_win := h_conn_send_win h1\<rparr>"
        have cl: "calm h1 k" unfolding k_def
          using w False l tx(4) by (intro rollback_calm) (auto simp: sd_def)
        have "h2_inv (snd (tx_end E k c))" using fin calm_live [OF cl l1(1)] ctl_kept [OF cl l1(2)] by simp
        moreover have "h2c_request_pair E h side req = Some (if fst (tx_end E k c) \<noteq> H2C_OK then fst (tx_end E k c) else rc, snd (tx_end E k c))"
        proof -
          have "k = (if side \<noteq> None then h2\<lparr>h_side := stream_zero\<rparr> else h2)\<lparr>h_s := (h_s (if side \<noteq> None then h2\<lparr>h_side := stream_zero\<rparr> else h2))\<lparr>s_open := False\<rparr>,
              h_next_id := h_next_id h1, h_last_id := h_last_id h1, h_sent_size_update := h_sent_size_update h1, h_conn_send_win := h_conn_send_win h1\<rparr>"
            by (cases side) (simp_all add: k_def sd_def)
          then show ?thesis unfolding def cb case_prod_beta Let_def using False
            by (simp only: if_True simp_thms fst_conv snd_conv option.case o2)
        qed
        ultimately show ?thesis by simp
      qed
    qed
  qed
qed

section \<open>Runs of the engine\<close>

text \<open>The states a client can reach: the calls of \<open>h2_core.h\<close> in any order, on any received bytes.\<close>

inductive h2_reach :: "h2_embedder \<Rightarrow> h2_core_t \<Rightarrow> bool" for E where
  init: "h2_reach E h2c_init"
| start: "h2_reach E h \<Longrightarrow> h2_reach E (snd (h2c_start E h))"
| request: "h2_reach E h \<Longrightarrow> h2c_request_pair E h side req = Some r \<Longrightarrow> h2_reach E (snd r)"
| cancel: "h2_reach E h \<Longrightarrow> h2_reach E (snd (h2c_cancel_side E h))"
| feed: "h2_reach E h \<Longrightarrow> h2c_feed E h p = Some r \<Longrightarrow> h2_reach E (snd r)"
| feed_staged: "h2_reach E h \<Longrightarrow> h2c_feed_staged E h p = Some r \<Longrightarrow> h2_reach E (snd r)"
| pump: "h2_reach E h \<Longrightarrow> h2c_pump E h = Some r \<Longrightarrow> h2_reach E (snd r)"

lemma h2_reach_inv: "h2_reach E h \<Longrightarrow> h2_inv h"
proof (induction rule: h2_reach.induct)
  case (request h side req r)
  then show ?case using request_inv [of h E side req] by auto
next
  case (feed h p r)
  then show ?case using feed_inv(1) [of h E p] by auto
next
  case (feed_staged h p r)
  then show ?case using feed_inv(2) [of h E p] by auto
next
  case (pump h r)
  then show ?case using pump_inv [of h E] by auto
qed (simp_all add: init_inv start_inv cancel_inv)

text \<open>C18: Flow control is conserved.  In every reachable state of a connection that is not dead, the
  bytes the server may still send (\<open>conn_recv_win\<close>), the bytes consumed but not yet given back and the
  unread bytes of the DATA frame in progress add up to the 65535 of the default window, and fewer than half
  of that is withheld: between frames the server always has at least 32769 bytes of window, so a long
  map stream never stalls.  The same sum holds for each open stream, the windows for sending stay
  within the range of an \<open>int32_t\<close> (the connection's never below 0), and the staging buffer holds at most its 64
  bytes.\<close>

theorem h2_flow_conserved:
  assumes "h2_reach E h" "\<not> h_dead h"
  shows "h_conn_recv_win h + h_conn_consumed h + frame_owed h = 65535 \<and> 0 \<le> h_conn_recv_win h \<and> 0 \<le> h_conn_consumed h \<and> h_conn_consumed h \<le> 32766 \<and>
    (h_fh_have h < 9 \<longrightarrow> 32769 \<le> h_conn_recv_win h) \<and>
    (s_open (h2_get w h) \<longrightarrow> s_recv_win (h2_get w h) + s_consumed (h2_get w h) + stream_owed h w = 65535 \<and> 0 \<le> s_recv_win (h2_get w h) \<and>
       0 \<le> s_consumed (h2_get w h) \<and> - (2 ^ 31) < s_send_win (h2_get w h) \<and> s_send_win (h2_get w h) < 2 ^ 31) \<and>
    0 \<le> h_conn_send_win h \<and> h_conn_send_win h < 2 ^ 31 \<and> length (h_ctl h) \<le> 64"
proof -
  have i: "live h" "length (h_ctl h) \<le> 64" using h2_reach_inv [OF assms(1)] assms(2) by (simp_all add: h2_inv_def H2_CTL_CAP_def)
  then have c: "conn_inv (frame_owed h) h" "stream_inv (stream_owed h w) (h_peer_initial_win h) (h_last_id h) (h2_get w h)" by (simp_all add: live_def flow_inv_def)
  note defs = conn_inv_def H2_DEFAULT_WINDOW_def H2_WU_THRESHOLD_def H2_MAX_WINDOW_def
  have "frame_owed h = 0" if "h_fh_have h < 9" using that by (simp add: frame_owed_def in_data_def H2_FRAME_HDR_LEN_def)
  then show ?thesis using c i(2) by (auto simp: defs stream_inv_def)
qed

text \<open>An embedder that lends 2000 bytes and never fails, and its first request.\<close>

definition calm_embedder :: h2_embedder where
  "calm_embedder = \<lparr>e_send = (\<lambda>_. 0), e_tx_buf = (\<lambda>_. Some 2000), e_tx_send = (\<lambda>_. 0), e_on_data = (\<lambda>_. 0)\<rparr>"

lemma put_data_whole:
  assumes "s_open s" "\<not> s_local_end s" "n = length (s_body s) - s_body_off s" "int n \<le> h_conn_send_win h" "int n \<le> s_send_win s" "n \<le> h_peer_max_frame h"
    "length b + 9 + n \<le> cap"
  shows "put_data h s b cap = (h\<lparr>h_conn_send_win := h_conn_send_win h - int n\<rparr>, data_sent s n, b @ data_frame s n)"
proof -
  have n: "data_len h s cap (length b) = n" using assms(3-7) by (auto simp: data_len_def Let_def H2_FRAME_HDR_LEN_def)
  moreover have "\<not> data_blocked h s" using assms(3-5) by (auto simp: data_blocked_def)
  ultimately have "data_goes h s (length b) cap" using assms by (simp add: data_goes_def H2_FRAME_HDR_LEN_def)
  note step = put_data_step [OF this n [symmetric]]
  have "s_local_end (data_sent s n)" using assms(3) by (simp add: data_sent_def)
  then show ?thesis unfolding step by (intro put_data_stop) (simp add: data_goes_def)
qed

lemma first_request:
  assumes "h_started h" "\<not> h_dead h" "\<not> h_goaway h" "\<not> s_open (h_s h)" "h_next_id h = 1" "h_ctl h = []" "h_conn_send_win h = 65535"
    "h_peer_initial_win h = 65535" "h_peer_max_frame h = 16384" "\<not> h_sent_size_update h"
  shows "\<exists>r. h2c_request_pair calm_embedder h None \<lparr>r_fields = [], r_body = Some [1, 2, 3]\<rparr> = Some r \<and>
     s_open (h_s (snd r)) \<and> \<not> h_dead (snd r) \<and> s_send_win (h_s (snd r)) = 65532"
proof -
  define h1 where "h1 = h\<lparr>h_io := h_io h @ [EvTxBuf], h_ctl := []\<rparr>"
  have t: "tx_begin calm_embedder h = (h1, Some (2000, []))"
    using assms by (simp add: tx_begin_def h1_def calm_embedder_def H2_CTL_CAP_def H2_FRAME_HDR_LEN_def)
  define g where "g = h1\<lparr>h_next_id := 3, h_last_id := 1, h_sent_size_update := True\<rparr>"
  define sn where "sn = new_stream g 1 \<lparr>r_fields = [], r_body = Some [1, 2, 3]\<rparr>"
  define bk where "bk = put_fh 1 H2_HEADERS H2_F_END_HEADERS 1 @ [0x20 :: u8]"
  have len: "length bk = 10" by (simp add: bk_def)
  have sf: "s_open sn" "\<not> s_local_end sn" "s_body sn = [1, 2, 3]" "s_body_off sn = 0" "s_send_win sn = 65535"
    using assms by (simp_all add: sn_def new_stream_def stream_zero_def g_def h1_def)
  have gf: "h_conn_send_win g = 65535" "h_peer_max_frame g = 16384" using assms by (simp_all add: g_def h1_def)
  define k where "k = g\<lparr>h_s := data_sent sn 3, h_conn_send_win := 65532\<rparr>"
  have o: "open_stream h1 H2_MAIN \<lparr>r_fields = [], r_body = Some [1, 2, 3]\<rparr> [] 2000 = (H2C_OK, k, bk @ data_frame sn 3)"
  proof -
    have "put_data (g\<lparr>h_s := sn\<rparr>) sn bk 2000 = ((g\<lparr>h_s := sn\<rparr>)\<lparr>h_conn_send_win := h_conn_send_win (g\<lparr>h_s := sn\<rparr>) - int 3\<rparr>, data_sent sn 3, bk @ data_frame sn 3)"
      by (rule put_data_whole) (simp_all add: sf gf len)
    then have "put_data_of (g\<lparr>h_s := sn\<rparr>) H2_MAIN bk 2000 = (k, bk @ data_frame sn 3)"
      using gf by (simp add: put_data_of_def k_def)
    moreover have "h1\<lparr>h_next_id := Suc (Suc (Suc 0)), h_last_id := Suc 0, h_sent_size_update := True\<rparr> = g" by (simp add: g_def numeral_3_eq_3)
    ultimately show ?thesis using assms
      by (simp add: open_stream_def H2_FRAME_HDR_LEN_def h1_def [symmetric] Let_def bk_def sn_def) (simp add: h1_def)
  qed
  have kf: "s_open (h_s k)" "s_local_end (h_s k)" "\<not> h_dead k" "s_send_win (h_s k) = 65532"
    using assms sf by (simp_all add: k_def g_def h1_def data_sent_def)
  let ?e = "k\<lparr>h_io := h_io k @ [EvTxSend (bk @ data_frame sn 3)]\<rparr>"
  have e: "tx_end calm_embedder k (bk @ data_frame sn 3) = (H2C_OK, ?e)" by (simp add: tx_end_def calm_embedder_def bk_def put_fh_def)
  have "h2c_pump calm_embedder ?e = Some (H2C_OK, ?e)" using kf by (simp add: h2c_pump_def pump_stop)
  then have "h2c_request_pair calm_embedder h None \<lparr>r_fields = [], r_body = Some [1, 2, 3]\<rparr> = Some (H2C_OK, ?e)"
    using assms by (simp add: h2c_request_pair_def t open_pair_def o e)
  then show ?thesis using kf by simp
qed

lemma started_state: "h2c_start calm_embedder h2c_init = (H2C_OK, h2c_init\<lparr>h_io := [EvSend (H2_PREFACE @ put_fh (length [0, 1, 0, 0, 0, 0, 0, 2, 0, 0, 0, 0 :: u8]) H2_SETTINGS 0 0
      @ [0, 1, 0, 0, 0, 0, 0, 2, 0, 0, 0, 0])], h_settings_unacked := 1, h_started := True\<rparr>)"
  by (simp add: h2c_start_def h2c_init_def ctl_frame_def ctl_flush_def calm_embedder_def H2_CTL_CAP_def H2_FRAME_HDR_LEN_def H2_PREFACE_def str_bytes_def
      H2_SET_HEADER_TABLE_SIZE_def H2_SET_ENABLE_PUSH_def)

lemma sample_state: "\<exists>h. h2_reach calm_embedder h \<and> \<not> h_dead h \<and> s_open (h_s h) \<and> s_send_win (h_s h) = 65532"
proof -
  let ?h = "snd (h2c_start calm_embedder h2c_init)"
  have "\<exists>r. h2c_request_pair calm_embedder ?h None \<lparr>r_fields = [], r_body = Some [1, 2, 3]\<rparr> = Some r \<and>
     s_open (h_s (snd r)) \<and> \<not> h_dead (snd r) \<and> s_send_win (h_s (snd r)) = 65532"
    unfolding started_state snd_conv by (rule first_request) (simp_all add: h2c_init_def stream_zero_def H2_DEFAULT_WINDOW_def H2_MAX_FRAME_def)
  then show ?thesis using h2_reach.request [OF h2_reach.start [OF h2_reach.init]] by blast
qed

theorem h2_flow_conserved_witness:
  "\<exists>h. h2_reach calm_embedder h \<and> s_open (h_s h) \<and> s_send_win (h_s h) = 65532 \<and> s_recv_win (h_s h) + s_consumed (h_s h) + stream_owed h H2_MAIN = 65535"
proof -
  obtain h where h: "h2_reach calm_embedder h" "\<not> h_dead h" "s_open (h_s h)" "s_send_win (h_s h) = 65532" using sample_state by blast
  show ?thesis using h2_flow_conserved [OF h(1,2), of H2_MAIN] h by auto
qed

text \<open>C20: Every call of the engine returns.  Whatever state a client reaches, whatever bytes are fed and
  whatever the hooks answer, the loops of \<open>feed\<close>, of \<open>frame_payload\<close> and of \<open>h2c_pump\<close> end: feeding parses
  all its input or fails, and pumping stops because each burst carries at least one byte of the
  body (the 64 bytes that may be staged always leave room for one in the smallest buffer accepted) or ends
  the stream.\<close>

theorem h2_returns:
  assumes "h2_reach E h"
  shows "h2c_feed E h p \<noteq> None \<and> h2c_feed_staged E h p \<noteq> None \<and> h2c_pump E h \<noteq> None \<and> h2c_request_pair E h side req \<noteq> None"
  using h2_reach_inv [OF assms] feed_inv [of h E p] pump_inv [of h E] request_inv [of h E side req] by auto

theorem h2_returns_witness:
  "\<exists>h. h2_reach calm_embedder h \<and> s_open (h_s h) \<and> h2c_feed calm_embedder h (put_fh 0 H2_SETTINGS 0 0) \<noteq> None \<and> h2c_pump calm_embedder h \<noteq> None"
proof -
  obtain h where h: "h2_reach calm_embedder h" "s_open (h_s h)" using sample_state by blast
  show ?thesis using h2_returns [OF h(1), of "put_fh 0 H2_SETTINGS 0 0" None "\<lparr>r_fields = [], r_body = None\<rparr>"] h by blast
qed

end
