(* ===== verification/JSON_Split.thy ===== *)
theory JSON_Split
  imports TL_Prelude
begin

text \<open>
  \<open>jsmn_split.h\<close> and \<open>jsmn_skip.h\<close>: how the netmap and the register answers are cut into values and how
  the token tables of the JSON tokenizer are walked.

  The first half models the splitter: the iterators over the members of an object and the elements of
  an array (positions into the text, 0 for "not a value"), and the byte-at-a-time scanner that the map
  stream uses.  The second half models \<open>jsmn_skip\<close>, which trusts the sizes in the token table, and
  \<open>jsmn_tree_ok\<close>, which says whether that trust is deserved; an access outside the table is \<open>None\<close>.
  The tokenizer itself (\<open>jsmn.h\<close>) is third-party code: any token table is a parameter.
\<close>

section \<open>The splitter\<close>

abbreviation quote :: char where "quote \<equiv> CHR 0x22"
abbreviation backslash :: char where "backslash \<equiv> CHR 0x5C"

definition TL_JSPLIT_MAX_DEPTH :: nat where "TL_JSPLIT_MAX_DEPTH = 64"

record tl_jsplit_kv_t =
  kv_key :: nat  \<comment> \<open>offset of the key's bytes in the text\<close>
  kv_key_len :: nat
  kv_val :: nat
  kv_val_len :: nat

definition tl_jsplit_is_ws :: "char \<Rightarrow> bool" where
  "tl_jsplit_is_ws c \<longleftrightarrow> c = CHR '' '' \<or> c = CHR 0x09 \<or> c = CHR 0x0A \<or> c = CHR 0x0D"

definition open_bracket :: "char \<Rightarrow> bool" where "open_bracket c \<longleftrightarrow> c = CHR ''{'' \<or> c = CHR ''[''"
definition close_bracket :: "char \<Rightarrow> bool" where "close_bracket c \<longleftrightarrow> c = CHR ''}'' \<or> c = CHR '']''"

definition scalar_end :: "char \<Rightarrow> bool" where
  "scalar_end c \<longleftrightarrow> c = CHR '','' \<or> c = CHR ''}'' \<or> c = CHR '']'' \<or> tl_jsplit_is_ws c"

function tl_jsplit_ws :: "string \<Rightarrow> nat \<Rightarrow> nat" where
  "tl_jsplit_ws js pos = (if pos < length js \<and> tl_jsplit_is_ws (js ! pos) then tl_jsplit_ws js (pos + 1) else pos)"
  by auto
termination by (relation "measure (\<lambda>(js, pos). length js - pos)") auto

function string_loop :: "string \<Rightarrow> nat \<Rightarrow> nat" where
  "string_loop js pos = (if pos < length js then
     (if js ! pos = backslash then string_loop js (pos + 2)
      else if js ! pos = quote then pos + 1 else string_loop js (pos + 1)) else 0)"
  by auto
termination by (relation "measure (\<lambda>(js, pos). length js - pos)") auto

definition tl_jsplit_string :: "string \<Rightarrow> nat \<Rightarrow> nat" where
  "tl_jsplit_string js pos = (if pos \<ge> length js \<or> js ! pos \<noteq> quote then 0 else string_loop js (pos + 1))"

declare tl_jsplit_ws.simps [simp del] string_loop.simps [simp del]

lemma string_loop_bounds: "string_loop js pos \<noteq> 0 \<Longrightarrow> pos < string_loop js pos \<and> string_loop js pos \<le> length js"
proof (induction js pos rule: string_loop.induct)
  case (1 js pos)
  show ?case using "1.prems" "1.IH" by (auto simp: string_loop.simps [of js pos] split: if_splits)
qed

lemma jsplit_string_bounds: "tl_jsplit_string js pos \<noteq> 0 \<Longrightarrow> pos + 2 \<le> tl_jsplit_string js pos \<and> tl_jsplit_string js pos \<le> length js"
  using string_loop_bounds [of js "pos + 1"] by (auto simp: tl_jsplit_string_def split: if_splits)

function nest_loop :: "string \<Rightarrow> nat \<Rightarrow> int \<Rightarrow> nat" where
  "nest_loop js pos depth = (if pos < length js then
     (if js ! pos = quote then
        (if tl_jsplit_string js pos = 0 then 0 else nest_loop js (tl_jsplit_string js pos) depth)
      else if open_bracket (js ! pos) then
        (if depth + 1 > int TL_JSPLIT_MAX_DEPTH then 0 else nest_loop js (pos + 1) (depth + 1))
      else if close_bracket (js ! pos) then
        (if depth - 1 = 0 then pos + 1 else if depth - 1 < 0 then 0 else nest_loop js (pos + 1) (depth - 1))
      else nest_loop js (pos + 1) depth) else 0)"
  by auto
termination
proof (relation "measure (\<lambda>(js, pos, depth). length js - pos)", goal_cases)
  case (2 js pos depth)
  then show ?case using jsplit_string_bounds [of js pos] by auto
qed auto

function scalar_loop :: "string \<Rightarrow> nat \<Rightarrow> nat" where
  "scalar_loop js pos = (if pos < length js \<and> \<not> scalar_end (js ! pos) then scalar_loop js (pos + 1) else pos)"
  by auto
termination by (relation "measure (\<lambda>(js, pos). length js - pos)") auto

declare nest_loop.simps [simp del] scalar_loop.simps [simp del]

definition tl_jsplit_value :: "string \<Rightarrow> nat \<Rightarrow> nat" where
  "tl_jsplit_value js pos0 = (let pos = tl_jsplit_ws js pos0 in
     if pos \<ge> length js then 0
     else if js ! pos = quote then tl_jsplit_string js pos
     else if open_bracket (js ! pos) then nest_loop js pos 0
     else (let e = scalar_loop js pos in if e > pos then e else 0))"

text \<open>The start of the next member or element: past the opening bracket or a comma.\<close>

definition next_start :: "char \<Rightarrow> string \<Rightarrow> nat \<Rightarrow> nat option" where
  "next_start opening js pos = (let p = tl_jsplit_ws js pos in
     if p \<ge> length js then None
     else if pos = 0 then
       (if js ! p \<noteq> opening then None else (let q = tl_jsplit_ws js (p + 1) in if q \<ge> length js then None else Some q))
     else if js ! p = CHR '','' then (let q = tl_jsplit_ws js (p + 1) in if q \<ge> length js then None else Some q)
     else Some p)"

datatype 'a jsplit_next = JsplitItem 'a nat | JsplitEnd nat | JsplitErr

definition tl_jsplit_obj_next :: "string \<Rightarrow> nat \<Rightarrow> tl_jsplit_kv_t jsplit_next" where
  "tl_jsplit_obj_next js pos = (case next_start (CHR ''{'') js pos of None \<Rightarrow> JsplitErr | Some p \<Rightarrow>
     if js ! p = CHR ''}'' then JsplitEnd (p + 1)
     else (let kend = tl_jsplit_string js p in if kend = 0 then JsplitErr
     else (let c = tl_jsplit_ws js kend in if c \<ge> length js \<or> js ! c \<noteq> CHR '':'' then JsplitErr
     else (let vstart = tl_jsplit_ws js (c + 1); vend = tl_jsplit_value js vstart in
       if vend = 0 then JsplitErr
       else JsplitItem \<lparr>kv_key = p + 1, kv_key_len = kend - p - 2, kv_val = vstart, kv_val_len = vend - vstart\<rparr> vend))))"

definition tl_jsplit_arr_next :: "string \<Rightarrow> nat \<Rightarrow> (nat \<times> nat) jsplit_next" where
  "tl_jsplit_arr_next js pos = (case next_start (CHR ''['') js pos of None \<Rightarrow> JsplitErr | Some p \<Rightarrow>
     if js ! p = CHR '']'' then JsplitEnd (p + 1)
     else (let vend = tl_jsplit_value js p in
       if vend = 0 then JsplitErr else JsplitItem (p, vend - p) vend))"

definition tl_jsplit_key_is :: "string \<Rightarrow> tl_jsplit_kv_t \<Rightarrow> string \<Rightarrow> bool" where
  "tl_jsplit_key_is js kv nm \<longleftrightarrow> kv_key_len kv = length nm \<and> bytes_at (kv_key kv) (length nm) js = nm"

definition tl_jsplit_val_is_true :: "string \<Rightarrow> tl_jsplit_kv_t \<Rightarrow> bool" where
  "tl_jsplit_val_is_true js kv \<longleftrightarrow> kv_val_len kv = 4 \<and> bytes_at (kv_val kv) 4 js = ''true''"

section \<open>The byte-at-a-time scanner\<close>

datatype jscan_mode = TL_JSCAN_TEXT | TL_JSCAN_STR | TL_JSCAN_ESC | TL_JSCAN_SCALAR
datatype jscan_result = TL_JSCAN_MORE | TL_JSCAN_END | TL_JSCAN_END_BEFORE | TL_JSCAN_ERR

record tl_jsplit_scan_t =
  sc_depth :: u8
  sc_mode :: jscan_mode

definition tl_jsplit_scan_begin :: "char \<Rightarrow> jscan_result \<times> tl_jsplit_scan_t" where
  "tl_jsplit_scan_begin c =
    (if c = quote then (TL_JSCAN_MORE, \<lparr>sc_depth = 0, sc_mode = TL_JSCAN_STR\<rparr>)
     else if open_bracket c then (TL_JSCAN_MORE, \<lparr>sc_depth = 1, sc_mode = TL_JSCAN_TEXT\<rparr>)
     else if c = CHR '','' \<or> close_bracket c then (TL_JSCAN_ERR, \<lparr>sc_depth = 0, sc_mode = TL_JSCAN_TEXT\<rparr>)
     else (TL_JSCAN_MORE, \<lparr>sc_depth = 0, sc_mode = TL_JSCAN_SCALAR\<rparr>))"

definition tl_jsplit_scan_byte :: "tl_jsplit_scan_t \<Rightarrow> char \<Rightarrow> jscan_result \<times> tl_jsplit_scan_t" where
  "tl_jsplit_scan_byte s c = (case sc_mode s of
     TL_JSCAN_SCALAR \<Rightarrow> (if scalar_end c then TL_JSCAN_END_BEFORE else TL_JSCAN_MORE, s)
   | TL_JSCAN_ESC \<Rightarrow> (TL_JSCAN_MORE, s\<lparr>sc_mode := TL_JSCAN_STR\<rparr>)
   | TL_JSCAN_STR \<Rightarrow>
       (if c = backslash then (TL_JSCAN_MORE, s\<lparr>sc_mode := TL_JSCAN_ESC\<rparr>)
        else if c = quote then
          (if sc_depth s = 0 then (TL_JSCAN_END, s) else (TL_JSCAN_MORE, s\<lparr>sc_mode := TL_JSCAN_TEXT\<rparr>))
        else (TL_JSCAN_MORE, s))
   | TL_JSCAN_TEXT \<Rightarrow>
       (if c = quote then (TL_JSCAN_MORE, s\<lparr>sc_mode := TL_JSCAN_STR\<rparr>)
        else if open_bracket c then
          (let s1 = s\<lparr>sc_depth := sc_depth s + 1\<rparr> in
           if unat (sc_depth s1) > TL_JSPLIT_MAX_DEPTH then (TL_JSCAN_ERR, s1) else (TL_JSCAN_MORE, s1))
        else if close_bracket c then
          (let s1 = s\<lparr>sc_depth := sc_depth s - 1\<rparr> in if sc_depth s1 = 0 then (TL_JSCAN_END, s1) else (TL_JSCAN_MORE, s1))
        else (TL_JSCAN_MORE, s)))"

text \<open>The scanner driven over the bytes that follow the first one, \<open>n\<close> the position of the next byte: where
  the value ended, or the state it is left in when the text runs out.\<close>

datatype jscan_run = ScanEnded nat | ScanOpen tl_jsplit_scan_t | ScanBad

fun scan_run :: "tl_jsplit_scan_t \<Rightarrow> string \<Rightarrow> nat \<Rightarrow> jscan_run" where
  "scan_run s [] n = ScanOpen s"
| "scan_run s (c # cs) n = (case tl_jsplit_scan_byte s c of
     (TL_JSCAN_MORE, s1) \<Rightarrow> scan_run s1 cs (n + 1)
   | (TL_JSCAN_END, s1) \<Rightarrow> ScanEnded (n + 1)
   | (TL_JSCAN_END_BEFORE, s1) \<Rightarrow> ScanEnded n
   | (TL_JSCAN_ERR, s1) \<Rightarrow> ScanBad)"

definition scan_value :: "string \<Rightarrow> nat \<Rightarrow> jscan_run" where
  "scan_value js pos = (case tl_jsplit_scan_begin (js ! pos) of
     (TL_JSCAN_MORE, s) \<Rightarrow> scan_run s (drop (pos + 1) js) (pos + 1) | _ \<Rightarrow> ScanBad)"

text \<open>What the caller makes of it: a scalar still open at the end of the text is complete there.\<close>

definition scan_result :: "nat \<Rightarrow> jscan_run \<Rightarrow> nat" where
  "scan_result len r = (case r of ScanEnded e \<Rightarrow> e
     | ScanOpen s \<Rightarrow> if sc_mode s = TL_JSCAN_SCALAR then len else 0 | ScanBad \<Rightarrow> 0)"

section \<open>The scanner finds the ends the splitter finds\<close>

lemma scan_step:
  "p < length js \<Longrightarrow> scan_run s (drop p js) p = (case tl_jsplit_scan_byte s (js ! p) of
     (TL_JSCAN_MORE, s1) \<Rightarrow> scan_run s1 (drop (p + 1) js) (p + 1)
   | (TL_JSCAN_END, s1) \<Rightarrow> ScanEnded (p + 1)
   | (TL_JSCAN_END_BEFORE, s1) \<Rightarrow> ScanEnded p
   | (TL_JSCAN_ERR, s1) \<Rightarrow> ScanBad)"
  by (simp add: Cons_nth_drop_Suc [symmetric] split: prod.split jscan_result.split)

lemma scan_out: "length js \<le> p \<Longrightarrow> scan_run s (drop p js) p = ScanOpen s"
  by simp

lemma scan_string:
  "string_loop js pos = 0 \<Longrightarrow> scan_result n (scan_run \<lparr>sc_depth = d, sc_mode = TL_JSCAN_STR\<rparr> (drop pos js) pos) = 0"
  "string_loop js pos \<noteq> 0 \<Longrightarrow> scan_run \<lparr>sc_depth = d, sc_mode = TL_JSCAN_STR\<rparr> (drop pos js) pos =
     (if d = 0 then ScanEnded (string_loop js pos)
      else scan_run \<lparr>sc_depth = d, sc_mode = TL_JSCAN_TEXT\<rparr> (drop (string_loop js pos) js) (string_loop js pos))"
proof (induction js pos rule: string_loop.induct)
  case (1 js pos)
  note [simp] = string_loop.simps [of js pos] scan_step tl_jsplit_scan_byte_def scan_result_def
  have esc: "Suc pos < length js \<Longrightarrow> scan_run \<lparr>sc_depth = d, sc_mode = TL_JSCAN_ESC\<rparr> (drop (Suc pos) js) (Suc pos) =
    scan_run \<lparr>sc_depth = d, sc_mode = TL_JSCAN_STR\<rparr> (drop (Suc (Suc pos)) js) (Suc (Suc pos))" by simp
  have out: "\<not> Suc pos < length js \<Longrightarrow> string_loop js (Suc (Suc pos)) = 0" by (subst string_loop.simps) simp
  { case 1 then show ?case using "1.IH" esc by (cases "Suc pos < length js") (auto split: if_splits)
  next
    case 2 then show ?case using "1.IH" esc out by (cases "Suc pos < length js") (auto split: if_splits) }
qed

lemma scan_nested:
  assumes "unat d = nat depth" "0 < depth" "depth \<le> 64"
  shows "scan_result (length js) (scan_run \<lparr>sc_depth = d, sc_mode = TL_JSCAN_TEXT\<rparr> (drop pos js) pos) = nest_loop js pos depth"
  using assms
proof (induction js pos depth arbitrary: d rule: nest_loop.induct)
  case (1 js pos depth)
  let ?s = "\<lparr>sc_depth = d, sc_mode = TL_JSCAN_TEXT\<rparr>"
  have up: "unat (d + 1) = unat d + 1" using "1.prems" by (simp add: unat_word_ariths)
  have down: "unat (d - 1) = unat d - 1" using "1.prems" unat_sub [of 1 d] by (simp add: word_le_nat_alt)
  have zero: "d - 1 = 0 \<longleftrightarrow> depth = 1" using down "1.prems" by (auto simp flip: unat_eq_zero)
  consider (out) "\<not> pos < length js" | (quote) "pos < length js" "js ! pos = quote" | (up) "pos < length js" "js ! pos \<noteq> quote" "open_bracket (js ! pos)"
    | (down) "pos < length js" "js ! pos \<noteq> quote" "\<not> open_bracket (js ! pos)" "close_bracket (js ! pos)"
    | (skip) "pos < length js" "js ! pos \<noteq> quote" "\<not> open_bracket (js ! pos)" "\<not> close_bracket (js ! pos)" by blast
  then show ?case
  proof cases
    case out
    then show ?thesis by (subst nest_loop.simps) (simp add: scan_result_def)
  next
    case quote
    have st: "tl_jsplit_string js pos = string_loop js (pos + 1)" using quote by (simp add: tl_jsplit_string_def)
    have "d \<noteq> 0" using "1.prems" by auto
    then show ?thesis using quote scan_string [of js "pos + 1"] "1.IH"(1) "1.prems"
      by (subst nest_loop.simps) (simp add: scan_step tl_jsplit_scan_byte_def st)
  next
    case up
    then show ?thesis using "1.IH"(2) [of "d + 1"] "1.prems" \<open>unat (d + 1) = unat d + 1\<close>
      by (subst nest_loop.simps) (auto simp add: nat_add_distrib scan_step tl_jsplit_scan_byte_def Let_def TL_JSPLIT_MAX_DEPTH_def scan_result_def)
  next
    case down
    then show ?thesis using "1.IH"(3) [of "d - 1"] "1.prems" zero \<open>unat (d - 1) = unat d - 1\<close>
      by (subst nest_loop.simps) (auto simp add: scan_step tl_jsplit_scan_byte_def Let_def scan_result_def nat_diff_distrib)
  next
    case skip
    then show ?thesis using "1.IH"(4) "1.prems"
      by (subst nest_loop.simps) (simp add: scan_step tl_jsplit_scan_byte_def)
  qed
qed

lemma scan_scalar:
  "scan_result (length js) (scan_run \<lparr>sc_depth = 0, sc_mode = TL_JSCAN_SCALAR\<rparr> (drop pos js) pos) =
    (if pos \<le> length js then scalar_loop js pos else length js)"
proof (induction js pos rule: scalar_loop.induct)
  case (1 js pos)
  then show ?case
    by (cases "pos < length js") (subst scalar_loop.simps, simp add: scan_step tl_jsplit_scan_byte_def scan_result_def)+
qed

lemma jsplit_ws_bounds: "pos \<le> tl_jsplit_ws js pos" "tl_jsplit_ws js pos < length js \<Longrightarrow> \<not> tl_jsplit_is_ws (js ! tl_jsplit_ws js pos)"
proof (induction js pos rule: tl_jsplit_ws.induct)
  case (1 js pos)
  { case 1 show ?case using "1.IH"(1) by (auto simp: tl_jsplit_ws.simps [of js pos])
  next
    case 2 then show ?case using "1.IH"(2) by (auto simp: tl_jsplit_ws.simps [of js pos] split: if_splits) }
qed

lemma scalar_loop_bounds: "pos \<le> length js \<Longrightarrow> pos \<le> scalar_loop js pos \<and> scalar_loop js pos \<le> length js"
proof (induction js pos rule: scalar_loop.induct)
  case (1 js pos)
  show ?case using "1.prems" "1.IH" by (auto simp: scalar_loop.simps [of js pos])
qed

lemma jsplit_value_scan:
  "tl_jsplit_value js pos = (let p = tl_jsplit_ws js pos in if p < length js then scan_result (length js) (scan_value js p) else 0)"
proof (cases "tl_jsplit_ws js pos < length js")
  case True
  define p where "p = tl_jsplit_ws js pos"
  have p: "p < length js" "\<not> tl_jsplit_is_ws (js ! p)" using True jsplit_ws_bounds(2) [of js pos] by (auto simp: p_def)
  have v: "tl_jsplit_value js pos = (if js ! p = quote then tl_jsplit_string js p else if open_bracket (js ! p) then nest_loop js p 0
    else if scalar_loop js p > p then scalar_loop js p else 0)" using p by (simp add: tl_jsplit_value_def p_def [symmetric])
  note [simp] = scan_value_def tl_jsplit_scan_begin_def
  have "scan_result (length js) (scan_value js p) = tl_jsplit_value js pos"
  proof (cases "js ! p = quote \<or> open_bracket (js ! p)")
    case True
    have "scan_result (length js) (scan_run \<lparr>sc_depth = 0, sc_mode = TL_JSCAN_STR\<rparr> (drop (Suc p) js) (Suc p)) = string_loop js (Suc p)"
      using scan_string(1) [where d = 0 and js = js and pos = "Suc p"] scan_string(2) [where d = 0 and js = js and pos = "Suc p"]
      by (cases "string_loop js (Suc p) = 0") (auto simp: scan_result_def [of _ "ScanEnded _"])
    then show ?thesis unfolding v using True p scan_nested [of 1 1 js "Suc p"]
      by (auto simp: tl_jsplit_string_def open_bracket_def nest_loop.simps [of js p] TL_JSPLIT_MAX_DEPTH_def)
  next
    case False
    have run: "\<not> scalar_end (js ! p) \<Longrightarrow> scalar_loop js p = scalar_loop js (Suc p)" using p by (simp add: scalar_loop.simps [of js p])
    have "Suc p \<le> length js" using p by simp
    then show ?thesis unfolding v using False p run scan_scalar [of js "Suc p"] scalar_loop_bounds [of "Suc p" js]
      by (auto simp: scalar_loop.simps [of js p] scalar_end_def close_bracket_def scan_result_def)
  qed
  then show ?thesis using p by (simp add: p_def [symmetric])
next
  case False
  then show ?thesis by (simp add: tl_jsplit_value_def)
qed

text \<open>C22: The byte-at-a-time scanner finds exactly the ends that \<open>tl_jsplit_value\<close> finds.  Feeding it the text from the first
  byte that is not white space, it reports the end of the value at the position that \<open>tl_jsplit_value\<close>
  returns, a scalar that runs to the end of the text is complete there, and whatever \<open>tl_jsplit_value\<close> refuses
  (an unterminated string, brackets that never close, nesting beyond 64, an empty scalar) it does not end.  So
  cutting the map stream as it arrives, with no buffer, gives the values that splitting the whole document
  would.\<close>

theorem jscan_is_jsplit:
  "tl_jsplit_value js pos = (let p = tl_jsplit_ws js pos in if p < length js then scan_result (length js) (scan_value js p) else 0)"
  by (rule jsplit_value_scan)

section \<open>Iterating over an object\<close>

text \<open>The members of an object, as a caller of \<open>tl_jsplit_obj_next\<close> collects them: the raw bytes of each key
  and value, and the position behind the closing brace.\<close>

lemma jsplit_value_bounds:
  assumes "tl_jsplit_value js pos \<noteq> 0"
  shows "pos < tl_jsplit_value js pos"
proof -
  have run: "scan_run s cs n = ScanEnded e \<Longrightarrow> n \<le> e" for s cs n e
    by (induction s cs n rule: scan_run.induct) (auto split: prod.splits jscan_result.splits)
  show ?thesis using assms jsplit_ws_bounds(1) [of pos js] unfolding jsplit_value_scan [of js pos]
    by (auto simp: Let_def scan_result_def scan_value_def split: if_splits jscan_run.splits prod.splits jscan_result.splits dest!: run)
qed

lemma obj_next_progress: "tl_jsplit_obj_next js pos = JsplitItem kv p \<Longrightarrow> pos < p \<and> pos < length js"
proof -
  assume a: "tl_jsplit_obj_next js pos = JsplitItem kv p"
  obtain q where q: "next_start (CHR ''{'') js pos = Some q" "tl_jsplit_string js q \<noteq> 0"
      "p = tl_jsplit_value js (tl_jsplit_ws js (tl_jsplit_ws js (tl_jsplit_string js q) + 1))" "p \<noteq> 0"
    using a by (auto simp: tl_jsplit_obj_next_def Let_def split: option.splits if_splits)
  have "pos \<le> q" "pos < length js" using q(1) jsplit_ws_bounds(1) [of pos js] jsplit_ws_bounds(1) [of "tl_jsplit_ws js pos + 1" js]
    by (auto simp: next_start_def Let_def split: if_splits)
  then show ?thesis using q(2,4) jsplit_string_bounds [of js q] jsplit_ws_bounds(1) [of "tl_jsplit_string js q" js]
      jsplit_ws_bounds(1) [of "tl_jsplit_ws js (tl_jsplit_string js q) + 1" js] jsplit_value_bounds unfolding q(3) by fastforce
qed

function obj_members :: "string \<Rightarrow> nat \<Rightarrow> ((string \<times> string) list \<times> nat) option" where
  "obj_members js pos = (case tl_jsplit_obj_next js pos of
     JsplitErr \<Rightarrow> None
   | JsplitEnd p \<Rightarrow> Some ([], p)
   | JsplitItem kv p \<Rightarrow> map_option (apfst (Cons (bytes_at (kv_key kv) (kv_key_len kv) js, bytes_at (kv_val kv) (kv_val_len kv) js))) (obj_members js p))"
  by auto
termination
proof (relation "measure (\<lambda>(js, pos). length js - pos)", goal_cases)
  case (2 js pos kv p)
  then show ?case using obj_next_progress [of js pos kv p] by auto
qed auto

declare obj_members.simps [simp del]

text \<open>The text of an object: white space anywhere, keys without a bare quote, values that are complete.\<close>

fun string_body :: "string \<Rightarrow> bool" where
  "string_body [] = True"
| "string_body (c # cs) = (if c = backslash then (case cs of [] \<Rightarrow> False | d # ds \<Rightarrow> string_body ds) else c \<noteq> quote \<and> string_body cs)"

definition value_text :: "string \<Rightarrow> bool" where
  "value_text v \<longleftrightarrow> v \<noteq> [] \<and> \<not> tl_jsplit_is_ws (hd v) \<and> tl_jsplit_value v 0 = length v"

definition ws_text :: "string \<Rightarrow> bool" where "ws_text w \<longleftrightarrow> list_all tl_jsplit_is_ws w"

record member_text =
  m_before :: string  \<comment> \<open>white space before the comma that precedes it\<close>
  m_lead :: string
  m_key :: string
  m_after_key :: string
  m_colon :: string
  m_val :: string

definition member_ok :: "member_text \<Rightarrow> bool" where
  "member_ok m \<longleftrightarrow> ws_text (m_before m) \<and> ws_text (m_lead m) \<and> string_body (m_key m) \<and> ws_text (m_after_key m) \<and> ws_text (m_colon m) \<and> value_text (m_val m)"

definition put_member :: "member_text \<Rightarrow> string" where
  "put_member m = m_lead m @ [quote] @ m_key m @ [quote] @ m_after_key m @ '':'' @ m_colon m @ m_val m"

fun members_tail :: "string \<Rightarrow> member_text list \<Rightarrow> string" where
  "members_tail w [] = w @ ''}''"
| "members_tail w (m # ms) = m_before m @ '','' @ put_member m @ members_tail w ms"

definition object_text :: "string \<Rightarrow> string \<Rightarrow> member_text list \<Rightarrow> string" where
  "object_text w0 w ms = w0 @ ''{'' @ (case ms of [] \<Rightarrow> w @ ''}'' | m # rest \<Rightarrow> put_member m @ members_tail w rest)"

lemma drop_nth: "drop p js = c # r \<Longrightarrow> p < length js \<and> js ! p = c \<and> drop (Suc p) js = r"
  by (metis Cons_nth_drop_Suc drop_eq_Nil2 linorder_not_le list.distinct(1) list.inject)

lemma drop_shift: "drop p js = x @ r \<Longrightarrow> drop (p + length x) js = r"
  by (metis add.commute append_eq_conv_conj drop_drop)

lemma bytes_at_drop: "drop p js = x @ r \<Longrightarrow> bytes_at p (length x) js = x"
  by (simp add: bytes_at_def)

lemma jsplit_ws_run: "drop p js = w @ c # r \<Longrightarrow> ws_text w \<Longrightarrow> \<not> tl_jsplit_is_ws c \<Longrightarrow> tl_jsplit_ws js p = p + length w"
proof (induction w arbitrary: p)
  case Nil
  then show ?case using drop_nth [of p js c r] by (simp add: tl_jsplit_ws.simps [of js p])
next
  case (Cons a w)
  then have "p < length js" "js ! p = a" "drop (Suc p) js = w @ c # r" using drop_nth [of p js a "w @ c # r"] by auto
  then show ?case using Cons.IH [of "Suc p"] Cons.prems by (simp add: tl_jsplit_ws.simps [of js p] ws_text_def)
qed

lemma jsplit_ws_end: "drop p js = w \<Longrightarrow> p \<le> length js \<Longrightarrow> ws_text w \<Longrightarrow> tl_jsplit_ws js p = length js"
proof (induction w arbitrary: p)
  case (Cons a w)
  then have "p < length js" "js ! p = a" "drop (Suc p) js = w" using drop_nth [of p js a w] by auto
  then show ?case using Cons.IH [of "Suc p"] Cons.prems by (simp add: tl_jsplit_ws.simps [of js p] ws_text_def)
qed (simp add: tl_jsplit_ws.simps)

lemma string_loop_run: "drop p js = k @ quote # r \<Longrightarrow> string_body k \<Longrightarrow> string_loop js p = p + length k + 1"
proof (induction k arbitrary: p rule: string_body.induct)
  case 1
  then show ?case using drop_nth [of p js] by (simp add: string_loop.simps [of js p])
next
  case (2 c cs)
  have p: "p < length js" "js ! p = c" "drop (Suc p) js = cs @ quote # r" using drop_nth [of p js c] "2.prems"(1) by auto
  show ?case
  proof (cases "c = backslash")
    case True
    then obtain d ds where cs: "cs = d # ds" "string_body ds" using "2.prems"(2) by (auto split: list.splits)
    have "drop (Suc (Suc p)) js = ds @ quote # r" using p(3) cs drop_nth [of "Suc p" js d] by auto
    then show ?thesis using "2.IH"(1) [OF True cs(1), of "p + 2"] p cs True by (simp add: string_loop.simps [of js p])
  next
    case False
    then show ?thesis using "2.IH"(2) [OF False, of "p + 1"] p "2.prems"(2) by (simp add: string_loop.simps [of js p])
  qed
qed

lemma scan_append:
  "scan_run s (cs @ ds) n = (case scan_run s cs n of ScanOpen s1 \<Rightarrow> scan_run s1 ds (n + length cs) | r \<Rightarrow> r)"
  by (induction s cs n rule: scan_run.induct) (auto split: prod.splits jscan_result.splits jscan_run.splits)

lemma scan_shift:
  "scan_run s cs (n + k) = (case scan_run s cs n of ScanEnded e \<Rightarrow> ScanEnded (e + k) | r \<Rightarrow> r)"
  by (induction s cs n rule: scan_run.induct) (auto split: prod.splits jscan_result.splits)

lemma jsplit_value_run:
  assumes "drop p js = v @ c # r" "value_text v" "scalar_end c"
  shows "tl_jsplit_value js p = p + length v"
proof -
  obtain a u where v: "v = a # u" using assms(2) by (cases v) (auto simp: value_text_def)
  have p: "p < length js" "js ! p = a" "drop (Suc p) js = u @ c # r" using assms(1) drop_nth [of p js a "u @ c # r"] v by auto
  have nws: "\<not> tl_jsplit_is_ws a" using assms(2) v by (simp add: value_text_def)
  then have ws: "tl_jsplit_ws js p = p" "tl_jsplit_ws v 0 = 0" using p v by (simp_all add: tl_jsplit_ws.simps [of js p] tl_jsplit_ws.simps [of "a # u" 0])
  have whole: "scan_result (length v) (scan_value v 0) = length v"
    using assms(2) ws(2) jsplit_value_scan [of v 0] by (auto simp: value_text_def)
  then obtain s where s: "tl_jsplit_scan_begin a = (TL_JSCAN_MORE, s)" "scan_value v 0 = scan_run s u 1" "scan_value js p = scan_run s (u @ c # r) (p + 1)"
    using v p by (auto simp: scan_value_def scan_result_def split: prod.splits jscan_result.splits)
  have "scan_result (length js) (scan_run s (u @ c # r) (p + 1)) = p + length v"
    using whole assms(3) v scan_shift [of s u 1 p] unfolding s(2) scan_append
    by (auto simp: scan_result_def tl_jsplit_scan_byte_def add.commute split: jscan_run.splits if_splits)
  then show ?thesis unfolding jsplit_value_scan [of js p] using p s(3) by (simp add: ws)
qed

lemma tail_head: "ws_text w \<Longrightarrow> list_all member_ok ms \<Longrightarrow> \<exists>c r. members_tail w ms = c # r \<and> scalar_end c"
proof -
  have "ws_text x \<Longrightarrow> scalar_end d \<Longrightarrow> \<exists>c r. x @ d # z = c # r \<and> scalar_end c" for x d z by (cases x) (auto simp: ws_text_def scalar_end_def)
  then show "ws_text w \<Longrightarrow> list_all member_ok ms \<Longrightarrow> ?thesis" by (cases ms) (auto simp: member_ok_def scalar_end_def)
qed

lemma next_member:
  assumes "next_start (CHR ''{'') js pos = Some p" "member_ok m" "drop p js = drop (length (m_lead m)) (put_member m) @ rest"
    "rest = c # r" "scalar_end c"
  shows "\<exists>kv. tl_jsplit_obj_next js pos = JsplitItem kv (p + length (put_member m) - length (m_lead m)) \<and>
    drop (p + length (put_member m) - length (m_lead m)) js = rest \<and>
    bytes_at (kv_key kv) (kv_key_len kv) js = m_key m \<and> bytes_at (kv_val kv) (kv_val_len kv) js = m_val m"
proof -
  have ok: "string_body (m_key m)" "ws_text (m_after_key m)" "ws_text (m_colon m)" "value_text (m_val m)" using assms(2) by (auto simp: member_ok_def)
  obtain a u where v: "m_val m = a # u" "\<not> tl_jsplit_is_ws a" using ok(4) by (cases "m_val m") (auto simp: value_text_def)
  let ?k = "m_key m" and ?w = "m_after_key m" and ?x = "m_colon m" and ?v = "m_val m"
  define ke c1 vs where "ke = p + length ?k + 2" and "c1 = ke + length ?w" and "vs = c1 + 1 + length ?x"
  have d0: "drop p js = quote # (?k @ quote # ?w @ CHR '':'' # ?x @ ?v @ rest)" using assms(3) by (simp add: put_member_def)
  have d1: "drop (Suc p) js = ?k @ quote # ?w @ CHR '':'' # ?x @ ?v @ rest" and p: "p < length js" "js ! p = quote" using drop_nth [OF d0] by auto
  have d2: "drop ke js = ?w @ CHR '':'' # ?x @ ?v @ rest"
    using drop_shift [of "Suc p" js "?k @ [quote]"] d1 by (simp add: ke_def)
  have d3: "drop c1 js = CHR '':'' # ?x @ ?v @ rest" using drop_shift [OF d2] by (simp add: c1_def)
  have d4: "drop vs js = ?v @ rest" using drop_shift [of "Suc c1" js ?x] drop_nth [OF d3] by (simp add: vs_def)
  have d5: "drop (vs + length ?v) js = rest" using drop_shift [OF d4] .
  have e1: "tl_jsplit_string js p = ke" using string_loop_run [OF d1 ok(1)] p by (simp add: tl_jsplit_string_def ke_def)
  have e2: "tl_jsplit_ws js ke = c1" using jsplit_ws_run [OF d2 ok(2)] by (simp add: c1_def tl_jsplit_is_ws_def)
  have e3: "tl_jsplit_ws js (Suc c1) = vs" using jsplit_ws_run [of "Suc c1" js ?x a] drop_nth [OF d3] ok(3) v by (simp add: vs_def)
  have e4: "tl_jsplit_value js vs = vs + length ?v" using jsplit_value_run [of vs js ?v c r] d4 assms(4,5) ok(4) by simp
  have "tl_jsplit_obj_next js pos = JsplitItem \<lparr>kv_key = Suc p, kv_key_len = length ?k, kv_val = vs, kv_val_len = length ?v\<rparr> (vs + length ?v)"
    using assms(1) p e1 e2 e3 e4 drop_nth [OF d3] v by (simp add: tl_jsplit_obj_next_def Let_def ke_def)
  moreover have "vs + length ?v = p + length (put_member m) - length (m_lead m)" by (simp add: put_member_def vs_def c1_def ke_def)
  ultimately show ?thesis using d5 bytes_at_drop [of "Suc p" js ?k] bytes_at_drop [of vs js ?v] d1 d4 by auto
qed

lemma members_of_tail:
  assumes "drop pos js = members_tail w ms @ z" "0 < pos" "ws_text w" "list_all member_ok ms"
  shows "obj_members js pos = Some (map (\<lambda>m. (m_key m, m_val m)) ms, pos + length (members_tail w ms))"
  using assms
proof (induction ms arbitrary: pos)
  case Nil
  have p: "tl_jsplit_ws js pos = pos + length w" using jsplit_ws_run [of pos js w "CHR ''}''" z] Nil.prems by (simp add: tl_jsplit_is_ws_def)
  have "drop (pos + length w) js = CHR ''}'' # z" using drop_shift [of pos js w] Nil.prems by simp
  then have "tl_jsplit_obj_next js pos = JsplitEnd (pos + length w + 1)"
    using p drop_nth [of "pos + length w" js "CHR ''}''"] Nil.prems by (simp add: tl_jsplit_obj_next_def next_start_def)
  then show ?case by (simp add: obj_members.simps [of js pos])
next
  case (Cons m ms)
  have m: "member_ok m" "ws_text (m_before m)" "ws_text (m_lead m)" using Cons.prems by (auto simp: member_ok_def)
  obtain c r where c: "members_tail w ms @ z = c # r" "scalar_end c" using tail_head [of w ms] Cons.prems by auto
  define q where "q = pos + length (m_before m)"
  have dq: "drop q js = CHR '','' # put_member m @ members_tail w ms @ z" using drop_shift [of pos js "m_before m"] Cons.prems by (simp add: q_def)
  have wq: "tl_jsplit_ws js pos = q" using jsplit_ws_run [of pos js "m_before m" "CHR '',''"] Cons.prems m by (simp add: q_def tl_jsplit_is_ws_def)
  have d1: "drop (Suc q) js = m_lead m @ quote # drop (Suc (length (m_lead m))) (put_member m) @ members_tail w ms @ z"
    using drop_nth [OF dq] by (simp add: put_member_def)
  have w1: "tl_jsplit_ws js (Suc q) = Suc q + length (m_lead m)" using jsplit_ws_run [OF d1 m(3)] by (simp add: tl_jsplit_is_ws_def)
  have d2: "drop (Suc q + length (m_lead m)) js = drop (length (m_lead m)) (put_member m) @ members_tail w ms @ z"
    using drop_shift [OF d1] by (simp add: put_member_def)
  then have "Suc q + length (m_lead m) < length js" using c by (metis append_is_Nil_conv drop_eq_Nil linorder_not_le list.distinct(1))
  then have "next_start (CHR ''{'') js pos = Some (Suc q + length (m_lead m))"
    using wq w1 drop_nth [OF dq] Cons.prems(2) by (simp add: next_start_def Let_def)
  define e where "e = Suc q + length (put_member m)"
  from next_member [OF \<open>next_start (CHR ''{'') js pos = _\<close> m(1) d2 c] obtain kv where "tl_jsplit_obj_next js pos = JsplitItem kv e" "drop e js = members_tail w ms @ z"
    "bytes_at (kv_key kv) (kv_key_len kv) js = m_key m" "bytes_at (kv_val kv) (kv_val_len kv) js = m_val m" 
    by (auto simp: e_def)
  then show ?case using Cons.IH [of e] Cons.prems by (simp add: obj_members.simps [of js pos] e_def q_def)
qed

lemma obj_members_text:
  assumes "ws_text w0" "ws_text w" "list_all member_ok ms"
  shows "obj_members (object_text w0 w ms @ z) 0 = Some (map (\<lambda>m. (m_key m, m_val m)) ms, length (object_text w0 w ms))"
proof -
  define js where "js = object_text w0 w ms @ z"
  define body where "body = (case ms of [] \<Rightarrow> w @ ''}'' | m # rest \<Rightarrow> put_member m @ members_tail w rest)"
  have js: "drop 0 js = w0 @ CHR ''{'' # body @ z" by (simp add: js_def object_text_def body_def)
  have ws: "tl_jsplit_ws js 0 = length w0" using jsplit_ws_run [OF js assms(1)] by (simp add: tl_jsplit_is_ws_def)
  have d: "drop (length w0) js = CHR ''{'' # body @ z" using drop_shift [OF js] by simp
  have "obj_members js 0 = Some (map (\<lambda>m. (m_key m, m_val m)) ms, length w0 + length body + 1)"
  proof (cases ms)
    case Nil
    have b: "drop (Suc (length w0)) js = w @ CHR ''}'' # z" using drop_nth [OF d] Nil by (simp add: body_def)
    have "tl_jsplit_ws js (Suc (length w0)) = Suc (length w0) + length w" using jsplit_ws_run [OF b assms(2)] by (simp add: tl_jsplit_is_ws_def)
    then have "tl_jsplit_obj_next js 0 = JsplitEnd (length w0 + length w + 2)"
      using ws drop_nth [OF d] drop_nth [OF drop_shift [OF b]] by (simp add: tl_jsplit_obj_next_def next_start_def Let_def)
    then show ?thesis using Nil by (simp add: obj_members.simps [of js 0] body_def)
  next
    case (Cons m rest)
    obtain c r where c: "members_tail w rest @ z = c # r" "scalar_end c" using tail_head [of w rest] assms Cons by auto
    have m: "member_ok m" "ws_text (m_lead m)" using assms Cons by (auto simp: member_ok_def)
    have b: "drop (Suc (length w0)) js = m_lead m @ quote # drop (Suc (length (m_lead m))) (put_member m) @ members_tail w rest @ z"
      using drop_nth [OF d] Cons by (simp add: body_def put_member_def)
    have w1: "tl_jsplit_ws js (Suc (length w0)) = Suc (length w0) + length (m_lead m)" using jsplit_ws_run [OF b m(2)] by (simp add: tl_jsplit_is_ws_def)
    have d2: "drop (Suc (length w0) + length (m_lead m)) js = drop (length (m_lead m)) (put_member m) @ members_tail w rest @ z"
      using drop_shift [OF b] by (simp add: put_member_def)
    then have "next_start (CHR ''{'') js 0 = Some (Suc (length w0) + length (m_lead m))"
      using ws w1 drop_nth [OF d] drop_nth [OF drop_shift [OF b]] by (simp add: next_start_def Let_def)
    define e where "e = Suc (length w0) + length (put_member m)"
    from next_member [OF \<open>next_start (CHR ''{'') js 0 = _\<close> m(1) d2 c] obtain kv where "tl_jsplit_obj_next js 0 = JsplitItem kv e" "drop e js = members_tail w rest @ z"
      "bytes_at (kv_key kv) (kv_key_len kv) js = m_key m" "bytes_at (kv_val kv) (kv_val_len kv) js = m_val m" by (auto simp: e_def)
    then show ?thesis using members_of_tail [of e js w rest z] assms Cons by (simp add: obj_members.simps [of js 0] e_def body_def)
  qed
  then show ?thesis by (simp add: js_def object_text_def body_def)
qed

text \<open>Iterating over the text of an object returns its members.  For an object written with any white space
  around its tokens, keys in which quotes are escaped and values of any kind (nested ones too), the iterator
  yields the raw key and value of every member, in order, and then the position just behind the closing brace, whatever follows it; no member is lost, merged with a
  neighbour or cut short.\<close>

theorem jsplit_object_members:
  assumes "ws_text w0" "ws_text w" "list_all member_ok ms"
  shows "obj_members (object_text w0 w ms @ z) 0 = Some (map (\<lambda>m. (m_key m, m_val m)) ms, length (object_text w0 w ms))"
  using assms by (rule obj_members_text)

definition sample_members :: "member_text list" where
  "sample_members = [\<lparr>m_before = [], m_lead = '' '', m_key = ''a'' @ [backslash, quote], m_after_key = [], m_colon = '' '', m_val = ''[{},7]''\<rparr>,
    \<lparr>m_before = '' '', m_lead = [], m_key = ''b'', m_after_key = '' '', m_colon = [], m_val = ''true''\<rparr>]"

lemmas jsplit_eval = tl_jsplit_ws.simps string_loop.simps nest_loop.simps scalar_loop.simps tl_jsplit_string_def tl_jsplit_value_def
  tl_jsplit_is_ws_def open_bracket_def close_bracket_def scalar_end_def TL_JSPLIT_MAX_DEPTH_def

theorem jsplit_object_members_witness:
  "ws_text '' '' \<and> list_all member_ok sample_members \<and>
   map_option fst (obj_members (object_text '' '' [] sample_members @ ''x'') 0) = Some [(''a'' @ [backslash, quote], ''[{},7]''), (''b'', ''true'')]"
proof -
  have "value_text ''[{},7]''" "value_text ''true''" by (simp_all add: value_text_def jsplit_eval)
  then have "ws_text '' ''" "ws_text []" "list_all member_ok sample_members"
    by (auto simp: sample_members_def member_ok_def ws_text_def tl_jsplit_is_ws_def)
  then show ?thesis using jsplit_object_members [of "'' ''" "[]" sample_members "''x''"] by (simp add: sample_members_def)
qed

section \<open>Walking the token table\<close>

datatype jsmntype_t = JSMN_UNDEFINED | JSMN_OBJECT | JSMN_ARRAY | JSMN_STRING | JSMN_PRIMITIVE

record jsmntok_t =
  tok_type :: jsmntype_t
  tok_start :: int
  tok_end :: int
  tok_size :: int

definition JSMN_SKIP_MAX_DEPTH :: nat where "JSMN_SKIP_MAX_DEPTH = 64"

function jsmn_skip_d :: "jsmntok_t list \<Rightarrow> nat \<Rightarrow> nat \<Rightarrow> nat option"
  and skip_values :: "jsmntok_t list \<Rightarrow> nat \<Rightarrow> nat \<Rightarrow> nat \<Rightarrow> nat \<Rightarrow> nat option" where
  "jsmn_skip_d toks i depth =
    (if depth > JSMN_SKIP_MAX_DEPTH then Some (i + 1)
     else if i \<ge> length toks then None
     else if tok_type (toks ! i) = JSMN_OBJECT then skip_values toks 1 (nat (tok_size (toks ! i))) (i + 1) (depth + 1)
     else if tok_type (toks ! i) = JSMN_ARRAY then skip_values toks 0 (nat (tok_size (toks ! i))) (i + 1) (depth + 1)
     else Some (i + 1))"
| "skip_values toks key 0 nxt depth = Some nxt"
| "skip_values toks key (Suc k) nxt depth =
    (case jsmn_skip_d toks (nxt + key) depth of None \<Rightarrow> None | Some e \<Rightarrow> skip_values toks key k e depth)"
  by pat_completeness auto
termination
  by (relation "measures [case_sum (\<lambda>(t, i, d). 2 * (66 - d)) (\<lambda>(t, b, k, n, d). 2 * (66 - d) + 1), case_sum (\<lambda>_. 0) (\<lambda>(t, b, k, n, d). k)]")
    (auto simp: JSMN_SKIP_MAX_DEPTH_def)

definition jsmn_skip :: "jsmntok_t list \<Rightarrow> nat \<Rightarrow> nat option" where
  "jsmn_skip toks i = jsmn_skip_d toks i 0"

text \<open>\<open>jsmn_tree_ok\<close>: \<open>left\<close> is the stack of open containers, innermost first, each with its values still to
  visit times two plus one for an object (a size counts tokens, so the shift stays far from the end of an
  \<open>int\<close>).\<close>

definition is_container :: "jsmntok_t \<Rightarrow> bool" where
  "is_container t \<longleftrightarrow> tok_type t = JSMN_OBJECT \<or> tok_type t = JSMN_ARRAY"

definition left_of :: "jsmntok_t \<Rightarrow> int" where
  "left_of t = tok_size t * 2 + (if tok_type t = JSMN_OBJECT then 1 else 0)"

function tree_loop :: "jsmntok_t list \<Rightarrow> nat \<Rightarrow> int list \<Rightarrow> nat \<Rightarrow> bool"
  and tree_visit :: "jsmntok_t list \<Rightarrow> nat \<Rightarrow> int list \<Rightarrow> nat \<Rightarrow> bool" where
  "tree_loop toks ntok [] i = tree_visit toks ntok [] i"
| "tree_loop toks ntok (l # ls) i =
    (if l < 2 then (if ls = [] then True else tree_loop toks ntok ls i)
     else tree_visit toks ntok ((l - 2) # ls) (if (l - 2) mod 2 = 1 then i + 1 else i))"
| "tree_visit toks ntok left i =
    (if i \<ge> ntok \<or> length left > JSMN_SKIP_MAX_DEPTH then False
     else if is_container (toks ! i) then
       (if tok_size (toks ! i) < 0 then False else tree_loop toks ntok (left_of (toks ! i) # left) (i + 1))
     else if left = [] then True
     else tree_loop toks ntok left (i + 1))"
  by pat_completeness auto
termination
  by (relation "measures [case_sum (\<lambda>(t, n, l, i). 2 * (n - i) + 1) (\<lambda>(t, n, l, i). 2 * (n - i)), case_sum (\<lambda>(t, n, l, i). length l) (\<lambda>_. 0)]") auto

definition jsmn_tree_ok :: "jsmntok_t list \<Rightarrow> nat \<Rightarrow> bool" where
  "jsmn_tree_ok toks ntok = tree_loop toks ntok [] 0"

declare jsmn_skip_d.simps [simp del] tree_visit.simps [simp del]

section \<open>What the walks mean\<close>

text \<open>The tree a token table spells from position \<open>i\<close> on: a scalar, or a container whose values follow
  it, each after its key when it is an object.\<close>

datatype jtree = JScalar | JNode bool "jtree list"

fun tok_count :: "jtree \<Rightarrow> nat" where
  "tok_count JScalar = 1"
| "tok_count (JNode obj ts) = Suc (sum_list (map (\<lambda>t. (if obj then 1 else 0) + tok_count t) ts))"

fun tok_depth :: "jtree \<Rightarrow> nat" where
  "tok_depth JScalar = 0"
| "tok_depth (JNode obj ts) = fold max (map (\<lambda>t. Suc (tok_depth t)) ts) 0"

fun spells :: "jsmntok_t list \<Rightarrow> nat \<Rightarrow> nat \<Rightarrow> jtree \<Rightarrow> bool"
  and spell_values :: "jsmntok_t list \<Rightarrow> nat \<Rightarrow> bool \<Rightarrow> nat \<Rightarrow> jtree list \<Rightarrow> bool" where
  "spells toks n i JScalar \<longleftrightarrow> i < n \<and> \<not> is_container (toks ! i)"
| "spells toks n i (JNode obj ts) \<longleftrightarrow> i < n \<and> tok_type (toks ! i) = (if obj then JSMN_OBJECT else JSMN_ARRAY) \<and>
     tok_size (toks ! i) = int (length ts) \<and> spell_values toks n obj (i + 1) ts"
| "spell_values toks n obj i [] \<longleftrightarrow> True"
| "spell_values toks n obj i (t # ts) \<longleftrightarrow> spells toks n (i + (if obj then 1 else 0)) t \<and>
     spell_values toks n obj (i + (if obj then 1 else 0) + tok_count t) ts"

abbreviation values_count :: "bool \<Rightarrow> jtree list \<Rightarrow> nat" where
  "values_count obj ts \<equiv> sum_list (map (\<lambda>t. (if obj then 1 else 0) + tok_count t) ts)"

lemma fold_max_le: "fold max xs (a::nat) \<le> b \<longleftrightarrow> a \<le> b \<and> (\<forall>x\<in>set xs. x \<le> b)"
  by (induction xs arbitrary: a) auto

lemma tok_depth_node: "tok_depth (JNode obj ts) \<le> b \<longleftrightarrow> (\<forall>t\<in>set ts. Suc (tok_depth t) \<le> b)"
  by (simp add: fold_max_le)

lemma spells_bound: "spells toks n i t \<Longrightarrow> i + tok_count t \<le> n"
  "spell_values toks n obj i ts \<Longrightarrow> i \<le> n \<Longrightarrow> i + values_count obj ts \<le> n"
  by (induction toks n i t and toks n obj i ts rule: spells_spell_values.induct) auto

lemma skip_spelt:
  "spells toks n i t \<Longrightarrow> n \<le> length toks \<Longrightarrow> d + tok_depth t \<le> Suc JSMN_SKIP_MAX_DEPTH \<Longrightarrow> jsmn_skip_d toks i d = Some (i + tok_count t)"
  "spell_values toks n obj i ts \<Longrightarrow> n \<le> length toks \<Longrightarrow> \<forall>t\<in>set ts. d + tok_depth t \<le> Suc JSMN_SKIP_MAX_DEPTH \<Longrightarrow>
     skip_values toks (if obj then 1 else 0) (length ts) i d = Some (i + values_count obj ts)"
proof (induction toks n i t and toks n obj i ts arbitrary: d and d rule: spells_spell_values.induct)
  case (1 toks n i)
  then show ?case by (auto simp: jsmn_skip_d.simps [of toks i d] is_container_def)
next
  case (2 toks n i obj ts)
  show ?case
  proof (cases "d > JSMN_SKIP_MAX_DEPTH")
    case True
    then have "ts = []" using "2.prems"(3) tok_depth_node [of obj ts 0] by (cases ts) (auto simp: Suc_le_eq le_Suc_eq)
    then show ?thesis using True by (simp add: jsmn_skip_d.simps [of toks i d])
  next
    case False
    have "\<forall>t\<in>set ts. Suc d + tok_depth t \<le> Suc JSMN_SKIP_MAX_DEPTH"
      using "2.prems"(3) tok_depth_node [of obj ts "Suc JSMN_SKIP_MAX_DEPTH - d"] False by fastforce
    then show ?thesis using "2.IH" [of "Suc d"] "2.prems" False by (auto simp: jsmn_skip_d.simps [of toks i d] split: if_splits)
  qed
qed auto

text \<open>The open containers that a stack of the loop still has to fill, from position \<open>i\<close> on.\<close>

fun spell_stack :: "jsmntok_t list \<Rightarrow> nat \<Rightarrow> int list \<Rightarrow> nat \<Rightarrow> bool" where
  "spell_stack toks n [] i \<longleftrightarrow> True"
| "spell_stack toks n (l # ls) i \<longleftrightarrow> (\<exists>ts. int (length ts) = l div 2 \<and> (\<forall>t\<in>set ts. Suc (length ls) + tok_depth t \<le> JSMN_SKIP_MAX_DEPTH) \<and>
     spell_values toks n (l mod 2 = 1) i ts \<and> spell_stack toks n ls (i + values_count (l mod 2 = 1) ts))"

text \<open>One value at the front of the innermost container.\<close>

definition spell_front :: "jsmntok_t list \<Rightarrow> nat \<Rightarrow> int list \<Rightarrow> nat \<Rightarrow> bool" where
  "spell_front toks n left i \<longleftrightarrow> (\<exists>t. length left + tok_depth t \<le> JSMN_SKIP_MAX_DEPTH \<and> spells toks n i t \<and> spell_stack toks n left (i + tok_count t))"

lemma spell_stack_next:
  assumes "2 \<le> l"
  shows "spell_stack toks n (l # ls) i \<longleftrightarrow> spell_front toks n ((l - 2) # ls) (if (l - 2) mod 2 = 1 then i + 1 else i)"
proof -
  have l: "l div 2 = (l - 2) div 2 + 1" "l mod 2 = (l - 2) mod 2" "0 \<le> (l - 2) div 2" using assms by presburger+
  let ?b = "(l - 2) mod 2 = 1"
  have len: "int (length ts) = l div 2 \<longleftrightarrow> (\<exists>t us. ts = t # us \<and> int (length us) = (l - 2) div 2)" for ts :: "jtree list"
    using l(1,3) by (cases ts) auto
  show ?thesis unfolding spell_front_def spell_stack.simps len l(2)
    by (fastforce simp: add.assoc)
qed

lemma spell_front_scalar:
  assumes "\<not> is_container (toks ! i)"
  shows "spell_front toks n left i \<longleftrightarrow> i < n \<and> length left \<le> JSMN_SKIP_MAX_DEPTH \<and> spell_stack toks n left (i + 1)"
proof -
  have "spells toks n i t \<longleftrightarrow> t = JScalar \<and> i < n" for t using assms by (cases t) (auto simp: is_container_def)
  then show ?thesis by (auto simp: spell_front_def)
qed

lemma spell_front_container:
  assumes "is_container (toks ! i)" "0 \<le> tok_size (toks ! i)"
  shows "spell_front toks n left i \<longleftrightarrow> i < n \<and> length left \<le> JSMN_SKIP_MAX_DEPTH \<and> spell_stack toks n (left_of (toks ! i) # left) (i + 1)"
proof -
  let ?b = "tok_type (toks ! i) = JSMN_OBJECT"
  have sp: "spells toks n i t \<longleftrightarrow> (\<exists>ts. t = JNode ?b ts \<and> i < n \<and> int (length ts) = tok_size (toks ! i) \<and> spell_values toks n ?b (i + 1) ts)" for t
    using assms(1) by (cases t) (auto simp: is_container_def split: if_splits)
  have l: "left_of (toks ! i) div 2 = tok_size (toks ! i)" "left_of (toks ! i) mod 2 = 1 \<longleftrightarrow> ?b" by (auto simp: left_of_def)
  have dep: "length left + tok_depth (JNode ?b ts) \<le> JSMN_SKIP_MAX_DEPTH \<longleftrightarrow>
      length left \<le> JSMN_SKIP_MAX_DEPTH \<and> (\<forall>t\<in>set ts. Suc (length left) + tok_depth t \<le> JSMN_SKIP_MAX_DEPTH)" for ts
    using tok_depth_node [of ?b ts "JSMN_SKIP_MAX_DEPTH - length left"] by (cases "length left \<le> JSMN_SKIP_MAX_DEPTH") auto
  show ?thesis unfolding spell_front_def sp spell_stack.simps l using dep by fastforce
qed

lemma spell_front_negative: "is_container (toks ! i) \<Longrightarrow> tok_size (toks ! i) < 0 \<Longrightarrow> \<not> spell_front toks n left i"
proof -
  assume a: "is_container (toks ! i)" "tok_size (toks ! i) < 0"
  have "\<not> spells toks n i t" for t using a by (cases t) auto
  then show ?thesis by (auto simp: spell_front_def)
qed

lemma tree_loop_spells:
  "(\<forall>l\<in>set left. 0 \<le> l) \<Longrightarrow> tree_loop toks n left i \<longleftrightarrow> (if left = [] then spell_front toks n [] i else spell_stack toks n left i)"
  "(\<forall>l\<in>set left. 0 \<le> l) \<Longrightarrow> tree_visit toks n left i \<longleftrightarrow> spell_front toks n left i"
proof (induction toks n left i and toks n left i rule: tree_loop_tree_visit.induct)
  case (2 toks ntok l ls i)
  show ?case
  proof (cases "l < 2")
    case True
    then have "l div 2 = 0" using "2.prems" by auto
    then show ?thesis using True "2.IH"(1) "2.prems" by (cases "ls = []") auto
  next
    case False
    then show ?thesis using "2.IH"(2) "2.prems" spell_stack_next [of l toks ntok ls i] by simp
  qed
next
  case (3 toks ntok left i)
  have out: "ntok \<le> i \<or> JSMN_SKIP_MAX_DEPTH < length left \<Longrightarrow> \<not> spell_front toks ntok left i"
  proof -
    have "spells toks ntok i t \<Longrightarrow> i < ntok" for t by (cases t) auto
    then show "ntok \<le> i \<or> JSMN_SKIP_MAX_DEPTH < length left \<Longrightarrow> \<not> spell_front toks ntok left i" by (auto simp: spell_front_def)
  qed
  have pos: "is_container (toks ! i) \<Longrightarrow> \<not> tok_size (toks ! i) < 0 \<Longrightarrow> 0 \<le> left_of (toks ! i)" by (auto simp: left_of_def)
  show ?case unfolding tree_visit.simps [of toks ntok left i]
    using "3.IH" "3.prems" out pos spell_front_scalar [of toks i ntok left] spell_front_container [of toks i ntok left] spell_front_negative [of toks i ntok left]
    by (auto simp: not_le not_less)
qed auto

text \<open>The subtrees of a tree with their positions.\<close>

fun subtrees :: "nat \<Rightarrow> jtree \<Rightarrow> (nat \<times> jtree) list"
  and value_subtrees :: "bool \<Rightarrow> nat \<Rightarrow> jtree list \<Rightarrow> (nat \<times> jtree) list" where
  "subtrees i JScalar = [(i, JScalar)]"
| "subtrees i (JNode obj ts) = (i, JNode obj ts) # value_subtrees obj (i + 1) ts"
| "value_subtrees obj i [] = []"
| "value_subtrees obj i (t # ts) = subtrees (i + (if obj then 1 else 0)) t @ value_subtrees obj (i + (if obj then 1 else 0) + tok_count t) ts"

lemma subtrees_spelt:
  "spells toks n i t \<Longrightarrow> tok_depth t \<le> b \<Longrightarrow> (j, u) \<in> set (subtrees i t) \<Longrightarrow> spells toks n j u \<and> tok_depth u \<le> b"
  "spell_values toks n obj i ts \<Longrightarrow> \<forall>t\<in>set ts. tok_depth t \<le> b \<Longrightarrow> (j, u) \<in> set (value_subtrees obj i ts) \<Longrightarrow> spells toks n j u \<and> tok_depth u \<le> b"
proof (induction toks n i t and toks n obj i ts rule: spells_spell_values.induct)
  case (2 toks n i obj ts)
  have "\<forall>t\<in>set ts. tok_depth t \<le> b" using "2.prems"(2) tok_depth_node [of obj ts b] by fastforce
  then show ?case using 2 by (auto simp del: tok_depth.simps)
qed auto

text \<open>C26: The check of the token table is exact and makes every walk safe.  \<open>jsmn_tree_ok\<close> accepts a table exactly when
  its tokens spell, within the tokens written, a tree nested at most 64 deep whose objects hold key/value pairs; so
  JSON that is valid and nested up to 64 deep is never refused.  On a table it accepts, \<open>jsmn_skip\<close> from any
  value of the tree never reads outside the table and returns exactly the position just past that value, which is
  at most the number of tokens.\<close>

theorem jsmn_walks_safe:
  assumes "ntok \<le> length toks"
  shows "(jsmn_tree_ok toks ntok \<longleftrightarrow> (\<exists>t. tok_depth t \<le> 64 \<and> spells toks ntok 0 t)) \<and>
    (\<forall>t. tok_depth t \<le> 64 \<longrightarrow> spells toks ntok 0 t \<longrightarrow>
      (\<forall>(i, u) \<in> set (subtrees 0 t). jsmn_skip toks i = Some (i + tok_count u) \<and> i + tok_count u \<le> ntok))"
proof (intro conjI allI impI)
  show "jsmn_tree_ok toks ntok \<longleftrightarrow> (\<exists>t. tok_depth t \<le> 64 \<and> spells toks ntok 0 t)"
    by (simp add: jsmn_tree_ok_def tree_loop_spells(2) spell_front_def JSMN_SKIP_MAX_DEPTH_def)
next
  fix t assume t: "tok_depth t \<le> 64" "spells toks ntok 0 t"
  have "jsmn_skip toks i = Some (i + tok_count u) \<and> i + tok_count u \<le> ntok" if "(i, u) \<in> set (subtrees 0 t)" for i u
    using subtrees_spelt(1) [OF t(2,1) that] skip_spelt(1) [of toks ntok i u 0] spells_bound(1) [of toks ntok i u] assms
    by (simp add: jsmn_skip_def JSMN_SKIP_MAX_DEPTH_def)
  then show "\<forall>(i, u) \<in> set (subtrees 0 t). jsmn_skip toks i = Some (i + tok_count u) \<and> i + tok_count u \<le> ntok" by auto
qed

definition tok :: "jsmntype_t \<Rightarrow> int \<Rightarrow> jsmntok_t" where "tok k n = \<lparr>tok_type = k, tok_start = 0, tok_end = 0, tok_size = n\<rparr>"

text \<open>The table of an object with a two-element array: accepted.  The table the tokenizer writes for an object
  with a colon missing, whose size counts key and value apart: refused.\<close>

theorem jsmn_walks_safe_witness:
  "jsmn_skip [tok JSMN_OBJECT 1, tok JSMN_STRING 1, tok JSMN_ARRAY 2, tok JSMN_PRIMITIVE 0, tok JSMN_PRIMITIVE 0] 2 = Some 5 \<and>
   jsmn_tree_ok [tok JSMN_OBJECT 1, tok JSMN_STRING 1, tok JSMN_ARRAY 2, tok JSMN_PRIMITIVE 0, tok JSMN_PRIMITIVE 0] 5 \<and>
   \<not> jsmn_tree_ok [tok JSMN_OBJECT 2, tok JSMN_STRING 0, tok JSMN_PRIMITIVE 0] 3"
proof -
  let ?toks = "[tok JSMN_OBJECT 1, tok JSMN_STRING 1, tok JSMN_ARRAY 2, tok JSMN_PRIMITIVE 0, tok JSMN_PRIMITIVE 0]"
  let ?t = "JNode True [JNode False [JScalar, JScalar]]"
  have t: "tok_depth ?t \<le> 64" "spells ?toks 5 0 ?t" "(2, JNode False [JScalar, JScalar]) \<in> set (subtrees 0 ?t)"
    by (simp_all add: tok_def is_container_def)
  have "\<not> jsmn_tree_ok [tok JSMN_OBJECT 2, tok JSMN_STRING 0, tok JSMN_PRIMITIVE 0] 3"
    by (simp add: jsmn_tree_ok_def tree_visit.simps JSMN_SKIP_MAX_DEPTH_def is_container_def left_of_def tok_def)
  then show ?thesis using jsmn_walks_safe [of 5 ?toks] t by fastforce
qed

end
