(* ===== verification/JSON_Control.thy ===== *)
theory JSON_Control
  imports JSON_Split
begin

text \<open>
  \<open>json_helpers.c\<close> and \<open>register_json.h\<close>: the reader and the writer of the small control documents, the body of
  the RegisterRequest and the verdict on its answer.  A C string is a \<open>string\<close> without its terminating
  NUL; an output buffer is its capacity, the bytes written and the count that runs past the
  capacity.
\<close>

section \<open>The reader\<close>

datatype json_err = JSON_OK | JSON_FAIL | JSON_INVALID_ARG | JSON_INVALID_STATE | JSON_INVALID_SIZE
  | JSON_NOT_FOUND | JSON_INVALID_RESPONSE | JSON_NOT_FINISHED

text \<open>\<open>walk_object\<close> with the value found so far; \<open>key\<close> is \<open>None\<close> for the C \<open>NULL\<close>.\<close>

function walk_loop :: "string \<Rightarrow> nat \<Rightarrow> string option \<Rightarrow> string option \<Rightarrow> json_err + string option" where
  "walk_loop js pos key found = (case tl_jsplit_obj_next js pos of
     JsplitErr \<Rightarrow> Inl JSON_INVALID_RESPONSE
   | JsplitEnd p \<Rightarrow> if tl_jsplit_ws js p \<noteq> length js then Inl JSON_INVALID_RESPONSE else Inr found
   | JsplitItem kv p \<Rightarrow> walk_loop js p key
       (if found = None \<and> key \<noteq> None \<and> tl_jsplit_key_is js kv (the key) then Some (bytes_at (kv_val kv) (kv_val_len kv) js) else found))"
  by auto
termination
proof (relation "measure (\<lambda>(js, pos, key, found). length js - pos)", goal_cases)
  case (2 js pos key found kv p)
  then show ?case using obj_next_progress [of js pos kv p] by auto
qed auto

declare walk_loop.simps [simp del]

definition walk_object :: "string \<Rightarrow> string option \<Rightarrow> json_err + string" where
  "walk_object js key = (case walk_loop js 0 key None of
     Inl e \<Rightarrow> Inl e | Inr None \<Rightarrow> Inl JSON_NOT_FOUND | Inr (Some v) \<Rightarrow> Inr v)"

definition json_check_object :: "string \<Rightarrow> json_err" where
  "json_check_object js = (case walk_object js None of
     Inl JSON_NOT_FOUND \<Rightarrow> JSON_OK | Inl e \<Rightarrow> e | Inr v \<Rightarrow> JSON_OK)"

definition json_get_member :: "string \<Rightarrow> string \<Rightarrow> json_err + string" where
  "json_get_member js key = walk_object js (Some key)"

definition json_get_string :: "string \<Rightarrow> string \<Rightarrow> nat \<Rightarrow> json_err + string" where
  "json_get_string js key out_size =
    (if out_size = 0 then Inl JSON_INVALID_ARG else (case json_get_member js key of
       Inl e \<Rightarrow> Inl e
     | Inr v \<Rightarrow>
        if length v < 2 \<or> hd v \<noteq> quote \<or> last v \<noteq> quote then Inl JSON_INVALID_RESPONSE
        else (let n = length v - 2 in if n + 1 > out_size then Inl JSON_INVALID_SIZE else Inr (bytes_at 1 n v))))"

definition json_get_bool :: "string \<Rightarrow> string \<Rightarrow> json_err + bool" where
  "json_get_bool js key = (case json_get_member js key of
     Inl e \<Rightarrow> Inl e
   | Inr v \<Rightarrow> if v = ''true'' then Inr True else if v = ''false'' then Inr False else Inl JSON_INVALID_RESPONSE)"

section \<open>The writer\<close>

record json_out_t =
  jo_buf :: string
  jo_cap :: nat
  jo_len :: nat

definition json_out_init :: "nat \<Rightarrow> json_out_t" where
  "json_out_init cap = \<lparr>jo_buf = [], jo_cap = cap, jo_len = 0\<rparr>"

definition out_bytes :: "json_out_t \<Rightarrow> string \<Rightarrow> json_out_t" where
  "out_bytes o1 s =
    (let o2 = (if jo_len o1 < jo_cap o1 then o1\<lparr>jo_buf := take (jo_len o1) (jo_buf o1) @ take (jo_cap o1 - 1 - jo_len o1) s\<rparr> else o1)
     in o2\<lparr>jo_len := jo_len o1 + length s\<rparr>)"

definition json_out_raw :: "json_out_t \<Rightarrow> string \<Rightarrow> json_out_t" where
  "json_out_raw o1 s = out_bytes o1 s"

definition hex_digit :: "nat \<Rightarrow> char" where
  "hex_digit n = ''0123456789abcdef'' ! n"

definition escape_char :: "char \<Rightarrow> string option" where
  "escape_char c =
    (if c = quote then Some [backslash, quote]
     else if c = backslash then Some [backslash, backslash]
     else if c = CHR 0x08 then Some [backslash, CHR ''b'']
     else if c = CHR 0x0C then Some [backslash, CHR ''f'']
     else if c = CHR 0x0A then Some [backslash, CHR ''n'']
     else if c = CHR 0x0D then Some [backslash, CHR ''r'']
     else if c = CHR 0x09 then Some [backslash, CHR ''t'']
     else if (of_char c :: nat) \<ge> 32 then None
     else Some ([backslash] @ ''u00'' @ [hex_digit (of_char c div 16), hex_digit (of_char c mod 16)]))"

fun out_str_loop :: "json_out_t \<Rightarrow> string \<Rightarrow> string \<Rightarrow> json_out_t" where
  "out_str_loop o1 run [] = out_bytes o1 run"
| "out_str_loop o1 run (c # cs) = (case escape_char c of
     None \<Rightarrow> out_str_loop o1 (run @ [c]) cs
   | Some esc \<Rightarrow> out_str_loop (out_bytes (out_bytes o1 run) esc) [] cs)"

definition json_out_str :: "json_out_t \<Rightarrow> string \<Rightarrow> json_out_t" where
  "json_out_str o1 s = out_bytes (out_str_loop (out_bytes o1 [quote]) [] s) [quote]"

definition json_out_ok :: "json_out_t \<Rightarrow> bool" where
  "json_out_ok o1 \<longleftrightarrow> jo_cap o1 > 0 \<and> jo_len o1 < jo_cap o1"

section \<open>The register request and its answer\<close>

definition hex_byte :: "u8 \<Rightarrow> string" where
  "hex_byte b = [hex_digit (unat (drop_bit 4 b)), hex_digit (unat (b AND 0x0F))]"

definition register_keyed_hex :: "string \<Rightarrow> bytes \<Rightarrow> string" where
  "register_keyed_hex prefix key = prefix @ concat (map hex_byte (take 32 key))"

text \<open>The decimal digits of the version, written backwards into an 11-byte field.\<close>

function ver_loop :: "nat \<Rightarrow> u32 \<Rightarrow> string \<Rightarrow> string" where
  "ver_loop vn capver acc =
    (let acc1 = char_of (48 + unat (capver mod 10)) # acc; vn1 = vn - 1; rest = capver div 10 in
     if rest \<noteq> 0 \<and> vn1 \<noteq> 0 then ver_loop vn1 rest acc1 else acc1)"
  by auto
termination by (relation "measure (\<lambda>(vn, c, a). vn)") auto

declare ver_loop.simps [simp del]

definition zeros64 :: string where "zeros64 = replicate 64 (CHR ''0'')"

definition quoted :: "string \<Rightarrow> string" where "quoted s = [quote] @ s @ [quote]"

definition register_zeros :: "json_out_t \<Rightarrow> json_out_t" where
  "register_zeros o1 = ((\<lambda>o2. json_out_raw o2 (replicate 16 (CHR ''0''))) ^^ 4) o1"

definition register_build_body :: "u32 \<Rightarrow> bytes \<Rightarrow> string \<Rightarrow> string \<Rightarrow> string option \<Rightarrow> nat \<Rightarrow> json_err + string" where
  "register_build_body capver node_pub hostname ipn_version auth_key out_size =
    (let o1 = json_out_init out_size;
         o2 = json_out_raw o1 (''{'' @ quoted ''Version'' @ '':'');
         o3 = json_out_raw o2 (ver_loop 11 capver []);
         o4 = json_out_raw o3 ('','' @ quoted ''NodeKey'' @ '':'');
         o5 = json_out_str o4 (register_keyed_hex ''nodekey:'' node_pub);
         o6 = json_out_raw o5 ('','' @ quoted ''OldNodeKey'' @ '':'' @ [quote] @ ''nodekey:'');
         o7 = register_zeros o6;
         o8 = json_out_raw o7 ([quote] @ '','' @ quoted ''NLKey'' @ '':'' @ [quote] @ ''nlpub:'');
         o9 = register_zeros o8;
         o10 = json_out_raw o9 ([quote] @ '','' @ quoted ''Followup'' @ '':'' @ quoted [] @ '','' @ quoted ''Expiry'' @ '':'' @ quoted ''0001-01-01T00:00:00Z''
           @ '','' @ quoted ''Hostinfo'' @ '':{'' @ quoted ''OS'' @ '':'' @ quoted ''esp32'' @ '','' @ quoted ''Hostname'' @ '':'');
         o11 = json_out_str o10 hostname;
         o12 = json_out_raw o11 ('','' @ quoted ''IPNVersion'' @ '':'');
         o13 = json_out_str o12 ipn_version;
         o14 = json_out_raw o13 ''}'';
         o15 = (case auth_key of None \<Rightarrow> o14
            | Some k \<Rightarrow> json_out_raw (json_out_str (json_out_raw o14 ('','' @ quoted ''Auth'' @ '':{'' @ quoted ''AuthKey'' @ '':'')) k) ''}'');
         o16 = json_out_raw o15 ''}''
     in if json_out_ok o16 then Inr (take (jo_len o16) (jo_buf o16)) else Inl JSON_INVALID_SIZE)"

definition register_parse_response :: "string \<Rightarrow> nat \<Rightarrow> json_err \<times> string" where
  "register_parse_response js err_cap = (case json_get_bool js ''MachineAuthorized'' of
     Inl e \<Rightarrow>
       if e = JSON_NOT_FOUND then
         (JSON_FAIL, if err_cap > 0 then (case json_get_string js ''Error'' err_cap of Inl _ \<Rightarrow> [] | Inr m \<Rightarrow> m) else [])
       else (JSON_INVALID_RESPONSE, [])
   | Inr authorized \<Rightarrow>
       (if json_get_bool js ''NodeKeyExpired'' = Inr True then JSON_INVALID_STATE
        else if authorized then JSON_OK else JSON_NOT_FINISHED, []))"

definition register_retry_with_auth :: "int \<Rightarrow> json_err \<Rightarrow> bool" where
  "register_retry_with_auth http_status verdict =
    (if verdict = JSON_OK then False else http_status \<noteq> 0 \<and> http_status \<noteq> 429 \<and> http_status \<noteq> 503)"

section \<open>Reading\<close>

lemma key_is_text: "kv_key kv + kv_key_len kv \<le> length js \<Longrightarrow> tl_jsplit_key_is js kv nm \<longleftrightarrow> bytes_at (kv_key kv) (kv_key_len kv) js = nm"
  by (auto simp: tl_jsplit_key_is_def)

lemma obj_next_key:
  assumes "tl_jsplit_obj_next js pos = JsplitItem kv p"
  shows "kv_key kv + kv_key_len kv \<le> length js"
proof -
  obtain q where "kv_key kv = q + 1" "kv_key_len kv = tl_jsplit_string js q - q - 2" "tl_jsplit_string js q \<noteq> 0"
    using assms by (auto simp: tl_jsplit_obj_next_def Let_def split: option.splits if_splits)
  then show ?thesis using jsplit_string_bounds [of js q] by arith
qed

lemma walk_loop_members:
  "walk_loop js pos key found = (case obj_members js pos of None \<Rightarrow> Inl JSON_INVALID_RESPONSE
    | Some (kvs, p) \<Rightarrow> if tl_jsplit_ws js p \<noteq> length js then Inl JSON_INVALID_RESPONSE
        else Inr (if found \<noteq> None then found else (case key of None \<Rightarrow> None | Some k \<Rightarrow> map_of kvs k)))"
proof (induction js pos key found rule: walk_loop.induct)
  case (1 js pos key found)
  show ?case
  proof (cases "tl_jsplit_obj_next js pos")
    case (JsplitItem kv p)
    have k: "tl_jsplit_key_is js kv nm \<longleftrightarrow> bytes_at (kv_key kv) (kv_key_len kv) js = nm" for nm
      using key_is_text obj_next_key JsplitItem by blast
    show ?thesis unfolding walk_loop.simps [of js pos] obj_members.simps [of js pos] JsplitItem
      using "1.IH" [OF JsplitItem] by (cases key) (auto simp: k split: option.splits)
  qed (auto simp: walk_loop.simps [of js pos] obj_members.simps [of js pos] split: option.split)
qed

lemma walk_object_text:
  assumes "ws_text w0" "ws_text w" "list_all member_ok ms" "ws_text w1"
  shows "walk_object (object_text w0 w ms @ w1) key =
    (case key of None \<Rightarrow> Inl JSON_NOT_FOUND
     | Some k \<Rightarrow> (case map_of (map (\<lambda>m. (m_key m, m_val m)) ms) k of None \<Rightarrow> Inl JSON_NOT_FOUND | Some v \<Rightarrow> Inr v))"
proof -
  let ?js = "object_text w0 w ms @ w1"
  have "tl_jsplit_ws ?js (length (object_text w0 w ms)) = length ?js" using jsplit_ws_end [of "length (object_text w0 w ms)" ?js w1] assms(4) by simp
  then show ?thesis unfolding walk_object_def walk_loop_members [of ?js 0] obj_members_text [OF assms(1-3), of w1] by (auto split: option.split)
qed

section \<open>Writing\<close>

text \<open>The writer after \<open>s\<close> went through a buffer of capacity \<open>cap\<close>.\<close>

definition written :: "nat \<Rightarrow> string \<Rightarrow> json_out_t" where
  "written cap s = \<lparr>jo_buf = take (cap - 1) s, jo_cap = cap, jo_len = length s\<rparr>"

lemma out_bytes_written [simp]: "out_bytes (written cap a) b = written cap (a @ b)"
  by (auto simp: out_bytes_def written_def min_def)

lemma out_init_written [simp]: "json_out_init cap = written cap []"
  by (simp add: json_out_init_def written_def)

definition escape :: "string \<Rightarrow> string" where
  "escape s = concat (map (\<lambda>c. case escape_char c of None \<Rightarrow> [c] | Some e \<Rightarrow> e) s)"

lemma out_str_loop_written: "out_str_loop (written cap a) run s = written cap (a @ run @ escape s)"
  by (induction s arbitrary: a run) (auto simp: escape_def split: option.splits)

lemma out_str_written [simp]: "json_out_str (written cap a) s = written cap (a @ quoted (escape s))"
  by (simp add: json_out_str_def out_str_loop_written quoted_def)

lemma out_raw_written [simp]: "json_out_raw (written cap a) b = written cap (a @ b)"
  by (simp add: json_out_raw_def)

lemma out_zeros_written [simp]: "register_zeros (written cap a) = written cap (a @ zeros64)"
proof -
  have "replicate 16 z @ replicate 16 z @ replicate 16 z @ replicate 16 z = replicate 64 z" for z :: char
    by (simp flip: replicate_add)
  then show ?thesis by (simp add: register_zeros_def zeros64_def numeral_eq_Suc funpow_swap1)
qed

lemma escape_plain: "list_all (\<lambda>c. escape_char c = None) s \<Longrightarrow> escape s = s"
  by (induction s) (auto simp: escape_def)

lemma string_body_append: "string_body a \<Longrightarrow> string_body b \<Longrightarrow> string_body (a @ b)"
  by (induction a rule: string_body.induct) (auto split: list.splits if_splits)

lemma hex_digit_mem: "n < 16 \<Longrightarrow> hex_digit n \<in> set ''0123456789abcdef''"
  unfolding hex_digit_def by (rule nth_mem) simp

lemma hex_digit_plain: "n < 16 \<Longrightarrow> hex_digit n \<noteq> quote \<and> hex_digit n \<noteq> backslash"
  using hex_digit_mem [of n] by auto

text \<open>The string a JSON reader makes of the text between the quotes (for code points below 256).\<close>

definition hex_value :: "char \<Rightarrow> nat option" where
  "hex_value c = map_of (zip ''0123456789abcdef'' [0..<16]) c"

fun unescape :: "string \<Rightarrow> string option" where
  "unescape [] = Some []"
| "unescape (c # cs) = (if c \<noteq> backslash then map_option (Cons c) (unescape cs) else (case cs of
     [] \<Rightarrow> None
   | e # ds \<Rightarrow>
      if e = CHR ''u'' then (case ds of z1 # z0 # h # l # es \<Rightarrow>
          (case (hex_value h, hex_value l) of (Some x, Some y) \<Rightarrow>
             if z1 = CHR ''0'' \<and> z0 = CHR ''0'' then map_option (Cons (char_of (16 * x + y))) (unescape es) else None
           | _ \<Rightarrow> None)
        | _ \<Rightarrow> None)
      else (case map_of (zip ([quote, backslash] @ ''/bfnrt'') ([quote, backslash, CHR ''/'', CHR 0x08, CHR 0x0C, CHR 0x0A, CHR 0x0D, CHR 0x09])) e of
          None \<Rightarrow> None | Some d \<Rightarrow> map_option (Cons d) (unescape ds))))"

lemma string_body_escape: "string_body (escape s)"
proof (induction s)
  case (Cons c s)
  have "string_body (case escape_char c of None \<Rightarrow> [c] | Some e \<Rightarrow> e)"
    using hex_digit_plain [of "of_char c div 16"] hex_digit_plain [of "of_char c mod 16"] by (auto simp: escape_char_def not_le)
  then show ?case using Cons by (simp add: escape_def string_body_append)
qed (simp add: escape_def)

lemma hex_value_digit: "n < 16 \<Longrightarrow> hex_value (hex_digit n) = Some n"
  by (auto simp: hex_value_def hex_digit_def numeral_eq_Suc less_Suc_eq upt_rec)

lemma unescape_escape: "unescape (escape s) = Some s"
proof (induction s)
  case (Cons c s)
  have "unescape ((case escape_char c of None \<Rightarrow> [c] | Some e \<Rightarrow> e) @ r) = map_option (Cons c) (unescape r)" for r
  proof (cases "escape_char c")
    case None
    then show ?thesis by (auto simp: escape_char_def split: if_splits)
  next
    case (Some e)
    have hex: "of_char c < (32::nat) \<Longrightarrow> hex_value (hex_digit (of_char c div 16)) = Some (of_char c div 16) \<and> hex_value (hex_digit (of_char c mod 16)) = Some (of_char c mod 16)"
      by (auto intro!: hex_value_digit)
    then show ?thesis using Some by (auto simp: escape_char_def not_le split: if_splits)
  qed
  then show ?case using Cons by (simp add: escape_def)
qed (simp add: escape_def)

section \<open>The body is the document it should be\<close>

text \<open>A text that a walk inside brackets passes without changing its depth.\<close>

definition passes :: "string \<Rightarrow> bool" where
  "passes x \<longleftrightarrow> (\<forall>js p d r. 0 < d \<longrightarrow> drop p js = x @ r \<longrightarrow> nest_loop js p d = nest_loop js (p + length x) d)"

lemma passes_append: "passes a \<Longrightarrow> passes b \<Longrightarrow> passes (a @ b)"
  unfolding passes_def by (metis add.assoc append_assoc drop_shift length_append)

lemma passes_plain: "list_all (\<lambda>c. c \<noteq> quote \<and> \<not> open_bracket c \<and> \<not> close_bracket c) x \<Longrightarrow> passes x"
proof (induction x)
  case (Cons c x)
  have "nest_loop js p d = nest_loop js (p + length [c]) d" if "drop p js = [c] @ r" for js p r and d :: int
    using Cons.prems drop_nth [of p js c r] that by (simp add: nest_loop.simps [of js p d])
  then have "passes [c]" by (simp add: passes_def)
  then show ?case using Cons passes_append [of "[c]" x] by simp
qed (simp add: passes_def)

lemma passes_quoted: "string_body k \<Longrightarrow> passes (quoted k)"
  unfolding passes_def
proof (intro allI impI)
  fix js p and d :: int and r
  assume a: "string_body k" "0 < d" "drop p js = quoted k @ r"
  have p: "p < length js" "js ! p = quote" "drop (Suc p) js = k @ quote # r" using drop_nth [of p js quote] a(3) by (auto simp: quoted_def)
  have "tl_jsplit_string js p = p + length (quoted k)" using string_loop_run [OF p(3) a(1)] p by (simp add: tl_jsplit_string_def quoted_def)
  then show "nest_loop js p d = nest_loop js (p + length (quoted k)) d" using p by (simp add: nest_loop.simps [of js p d] quoted_def)
qed

lemma value_bracketed: "passes x \<Longrightarrow> value_text (''{'' @ x @ ''}'')"
proof -
  let ?v = "''{'' @ x @ ''}''"
  assume "passes x"
  then have "nest_loop ?v 1 1 = nest_loop ?v (1 + length x) 1" by (simp add: passes_def)
  moreover have "nest_loop ?v (1 + length x) 1 = length x + 2"
    by (simp add: nest_loop.simps [of _ "Suc _"] nth_append open_bracket_def close_bracket_def)
  ultimately have "nest_loop ?v 0 0 = length ?v" by (simp add: nest_loop.simps [of _ 0] open_bracket_def TL_JSPLIT_MAX_DEPTH_def)
  moreover have "tl_jsplit_ws ?v 0 = 0" by (simp add: tl_jsplit_ws.simps tl_jsplit_is_ws_def)
  ultimately show ?thesis by (simp add: value_text_def tl_jsplit_value_def tl_jsplit_is_ws_def open_bracket_def)
qed

lemma value_quoted: "string_body k \<Longrightarrow> value_text (quoted k)"
proof -
  assume k: "string_body k"
  have "string_loop (quoted k) 1 = length k + 2" using string_loop_run [of 1 "quoted k" k "[]"] k by (simp add: quoted_def)
  moreover have "tl_jsplit_ws (quoted k) 0 = 0" by (simp add: tl_jsplit_ws.simps tl_jsplit_is_ws_def quoted_def)
  ultimately show ?thesis by (simp add: value_text_def tl_jsplit_value_def tl_jsplit_string_def tl_jsplit_is_ws_def) (simp add: quoted_def tl_jsplit_is_ws_def)
qed

definition is_digit :: "char \<Rightarrow> bool" where "is_digit c \<longleftrightarrow> 48 \<le> (of_char c :: nat) \<and> (of_char c :: nat) \<le> 57"

definition dec_value :: "string \<Rightarrow> nat" where "dec_value s = foldl (\<lambda>n c. 10 * n + (of_char c - 48)) 0 s"

lemma value_digits: "ds \<noteq> [] \<Longrightarrow> list_all is_digit ds \<Longrightarrow> value_text ds"
proof -
  assume ds: "ds \<noteq> []" "list_all is_digit ds"
  have no: "is_digit c \<Longrightarrow> c \<noteq> quote \<and> \<not> open_bracket c \<and> \<not> scalar_end c \<and> \<not> tl_jsplit_is_ws c" for c
    by (auto simp: is_digit_def open_bracket_def scalar_end_def tl_jsplit_is_ws_def)
  have "scalar_loop ds p = length ds" if "p \<le> length ds" for p
    using that
  proof (induction "length ds - p" arbitrary: p)
    case (Suc n)
    then have "p < length ds" "\<not> scalar_end (ds ! p)" using ds(2) no by (auto simp: list_all_length)
    then show ?case using Suc.hyps(1) [of "Suc p"] Suc.hyps(2) by (simp add: scalar_loop.simps [of ds p])
  qed (simp add: scalar_loop.simps)
  moreover have "tl_jsplit_ws ds 0 = 0" using ds no by (cases ds) (auto simp: tl_jsplit_ws.simps)
  ultimately show ?thesis using ds no by (cases ds) (auto simp: value_text_def tl_jsplit_value_def)
qed

lemma ver_digits: "\<exists>ds. ver_loop vn c acc = ds @ acc \<and> ds \<noteq> [] \<and> list_all is_digit ds \<and> (0 < vn \<longrightarrow> unat c < 10 ^ vn \<longrightarrow> dec_value ds = unat c)"
proof (induction vn c acc rule: ver_loop.induct)
  case (1 vn c acc)
  define dg where "dg = (char_of (48 + unat (c mod 10)) :: char)"
  have u: "unat (c mod 10) = unat c mod 10" "unat (c div 10) = unat c div 10" by (simp_all add: unat_mod unat_div)
  have dg: "is_digit dg" "of_char dg - 48 = unat c mod 10" by (simp_all add: dg_def is_digit_def u)
  show ?case
  proof (cases "c div 10 \<noteq> 0 \<and> vn - 1 \<noteq> 0")
    case True
    obtain ds where ds: "ver_loop (vn - 1) (c div 10) (dg # acc) = ds @ dg # acc" "ds \<noteq> []" "list_all is_digit ds"
      "0 < vn - 1 \<longrightarrow> unat (c div 10) < 10 ^ (vn - 1) \<longrightarrow> dec_value ds = unat (c div 10)"
      using "1.IH" [OF _ refl refl True] dg_def by auto
    have run: "ver_loop vn c acc = (ds @ [dg]) @ acc" using True ds(1) by (simp add: ver_loop.simps [of vn c acc] dg_def)
    have small: "unat c < 10 ^ vn \<Longrightarrow> unat c div 10 < 10 ^ (vn - 1)" using True by (cases vn) (auto simp: less_mult_imp_div_less)
    have "unat c < 10 ^ vn \<Longrightarrow> dec_value (ds @ [dg]) = unat c" using ds(4) True small u dg(2) by (simp add: dec_value_def)
    then show ?thesis using run ds(3) dg(1) by (intro exI [of _ "ds @ [dg]"]) auto
  next
    case False
    have run: "ver_loop vn c acc = [dg] @ acc" using False by (auto simp: ver_loop.simps [of vn c acc] dg_def Let_def)
    have "unat c < 10" if "0 < vn" "unat c < 10 ^ vn"
    proof (cases "c div 10 = 0")
      case True then show ?thesis using u(2) by simp
    next
      case no: False then show ?thesis using False that by (cases vn) auto
    qed
    then show ?thesis using run dg by (intro exI [of _ "[dg]"]) (auto simp: dec_value_def)
  qed
qed

abbreviation mem :: "string \<Rightarrow> string \<Rightarrow> member_text" where
  "mem k v \<equiv> \<lparr>m_before = [], m_lead = [], m_key = k, m_after_key = [], m_colon = [], m_val = v\<rparr>"

definition hostinfo_members :: "string \<Rightarrow> string \<Rightarrow> member_text list" where
  "hostinfo_members host ipn = [mem ''OS'' (quoted ''esp32''), mem ''Hostname'' (quoted (escape host)), mem ''IPNVersion'' (quoted (escape ipn))]"

definition auth_members :: "string \<Rightarrow> member_text list" where
  "auth_members k = [mem ''AuthKey'' (quoted (escape k))]"

definition register_members :: "u32 \<Rightarrow> bytes \<Rightarrow> string \<Rightarrow> string \<Rightarrow> string option \<Rightarrow> member_text list" where
  "register_members capver pub host ipn auth =
    [mem ''Version'' (ver_loop 11 capver []), mem ''NodeKey'' (quoted (register_keyed_hex ''nodekey:'' pub)),
     mem ''OldNodeKey'' (quoted (''nodekey:'' @ zeros64)), mem ''NLKey'' (quoted (''nlpub:'' @ zeros64)),
     mem ''Followup'' (quoted []), mem ''Expiry'' (quoted ''0001-01-01T00:00:00Z''),
     mem ''Hostinfo'' (object_text [] [] (hostinfo_members host ipn))] @
    (case auth of None \<Rightarrow> [] | Some k \<Rightarrow> [mem ''Auth'' (object_text [] [] (auth_members k))])"

lemma escape_hex: "escape (register_keyed_hex ''nodekey:'' pub) = register_keyed_hex ''nodekey:'' pub"
proof (rule escape_plain)
  have dig: "n < 16 \<Longrightarrow> escape_char (hex_digit n) = None" for n using hex_digit_mem [of n] by (auto simp: escape_char_def)
  have "unat (drop_bit 4 b) < 16" "unat (b AND 0xF) < 16" for b :: u8
    using word_and_le1 [of b "0xF"] by (auto simp: unat_drop_bit word_le_nat_alt intro: less_mult_imp_div_less)
  then have "list_all (\<lambda>c. escape_char c = None) (hex_byte b)" for b using dig by (simp add: hex_byte_def)
  then show "list_all (\<lambda>c. escape_char c = None) (register_keyed_hex ''nodekey:'' pub)"
    by (simp add: register_keyed_hex_def list_all_iff) (auto simp: escape_char_def)
qed

lemma object_text_text: "object_text [] [] (m # ms) = ''{'' @ put_member m @ concat (map (\<lambda>m. m_before m @ '','' @ put_member m) ms) @ ''}''"
proof -
  have "members_tail [] ms = concat (map (\<lambda>m. m_before m @ '','' @ put_member m) ms) @ ''}''" by (induction ms) auto
  then show ?thesis by (simp add: object_text_def)
qed

lemma register_body_text:
  "register_build_body capver pub host ipn auth cap = (let js = object_text [] [] (register_members capver pub host ipn auth) in
     if length js < cap then Inr js else Inl JSON_INVALID_SIZE)"
  unfolding register_build_body_def Let_def out_init_written out_raw_written out_str_written out_zeros_written escape_hex
  by (cases auth; simp only: option.case out_raw_written out_str_written; simp add: written_def json_out_ok_def register_members_def hostinfo_members_def auth_members_def object_text_text put_member_def quoted_def)

lemma members_ok:
  "list_all member_ok (hostinfo_members host ipn)" "list_all member_ok (auth_members k)" "list_all member_ok (register_members capver pub host ipn auth)"
proof -
  have s: "list_all member_ok [mem k (quoted v)]" if "string_body k" "string_body v" for k v
    using that value_quoted by (simp add: member_ok_def ws_text_def)
  show h: "list_all member_ok (hostinfo_members host ipn)" and a: "list_all member_ok (auth_members k)"for k
    using value_quoted string_body_escape by (simp_all add: hostinfo_members_def auth_members_def member_ok_def ws_text_def)
  have pm: "passes (put_member (mem k (quoted v)))" if "string_body k" "string_body v" for k v
  proof -
    have "passes (quoted k @ '':'' @ quoted v)" using that by (intro passes_append passes_quoted passes_plain) (simp_all add: open_bracket_def close_bracket_def)
    then show ?thesis by (simp add: put_member_def quoted_def)
  qed
  have comma: "passes '',''" by (rule passes_plain) (simp add: open_bracket_def close_bracket_def)
  have hv: "value_text (object_text [] [] (hostinfo_members host ipn))"
  proof -
    have "passes (put_member (mem ''OS'' (quoted ''esp32'')) @ '','' @ put_member (mem ''Hostname'' (quoted (escape host))) @ '','' @ put_member (mem ''IPNVersion'' (quoted (escape ipn))))"
      by (intro passes_append comma pm string_body_escape) simp_all
    then show ?thesis unfolding hostinfo_members_def object_text_text using value_bracketed by fastforce
  qed
  have av: "value_text (object_text [] [] (auth_members k))" for k
    unfolding auth_members_def object_text_text using pm [OF _ string_body_escape, of "''AuthKey''" k] value_bracketed by simp
  obtain ds where ds: "ver_loop 11 capver [] = ds" "ds \<noteq> []" "list_all is_digit ds" using ver_digits [of 11 capver "[]"] by auto
  have z: "string_body (register_keyed_hex ''nodekey:'' pub)" using string_body_escape [of "register_keyed_hex ''nodekey:'' pub"] escape_hex by simp
  have zz: "string_body (''nodekey:'' @ zeros64)" "string_body (''nlpub:'' @ zeros64)" by (simp_all add: zeros64_def numeral_eq_Suc)
  show "list_all member_ok (register_members capver pub host ipn auth)"
    using hv av value_digits [OF ds(2,3)] value_quoted [OF z] zz [THEN value_quoted] value_quoted [of "[]"] value_quoted [of "''0001-01-01T00:00:00Z''"]
    by (cases auth) (simp_all add: register_members_def member_ok_def ws_text_def ds(1))
qed

text \<open>The body of the register request is the document it should be, whatever the strings.  It is refused exactly when
  it does not fit the buffer with its NUL, and otherwise it is one well-formed object whose members are, in order,
  the version (in decimal), the node key in hex, the two all-zero keys, the empty follow-up, the zero expiry, the host info
  and, when an auth key is given, the auth object.  The host name, the version string and the auth key
  arrive intact: their texts are single JSON strings that decode to what was given, so no quote,
  backslash or control byte in them can add a member or end the document.\<close>

theorem register_body_exact:
  "case register_build_body capver pub host ipn auth cap of
     Inl e \<Rightarrow> e = JSON_INVALID_SIZE \<and> cap \<le> length (object_text [] [] (register_members capver pub host ipn auth))
   | Inr js \<Rightarrow> length js < cap \<and> (\<exists>ver info av.
       obj_members js 0 = Some ([(''Version'', ver), (''NodeKey'', quoted (register_keyed_hex ''nodekey:'' pub)),
         (''OldNodeKey'', quoted (''nodekey:'' @ zeros64)), (''NLKey'', quoted (''nlpub:'' @ zeros64)), (''Followup'', quoted []),
         (''Expiry'', quoted ''0001-01-01T00:00:00Z''), (''Hostinfo'', info)] @ (if auth = None then [] else [(''Auth'', av)]), length js) \<and>
       dec_value ver = unat capver \<and>
       obj_members info 0 = Some ([(''OS'', quoted ''esp32''), (''Hostname'', quoted (escape host)), (''IPNVersion'', quoted (escape ipn))], length info) \<and>
       obj_members av 0 = Some ([(''AuthKey'', quoted (escape (case auth of None \<Rightarrow> [] | Some k \<Rightarrow> k)))], length av)) \<and>
     unescape (escape host) = Some host \<and> unescape (escape ipn) = Some ipn \<and>
     unescape (escape (case auth of None \<Rightarrow> [] | Some k \<Rightarrow> k)) = Some (case auth of None \<Rightarrow> [] | Some k \<Rightarrow> k)"
proof -
  define js where "js = object_text [] [] (register_members capver pub host ipn auth)"
  define ver info av where "ver = ver_loop 11 capver []" and "info = object_text [] [] (hostinfo_members host ipn)"
    and "av = object_text [] [] (auth_members (case auth of None \<Rightarrow> [] | Some k \<Rightarrow> k))"
  note whole = obj_members_text [of "[]" "[]" _ "[]", unfolded append_Nil2]
  have nil: "ws_text []" by (simp add: ws_text_def)
  have m: "map (\<lambda>m. (m_key m, m_val m)) (register_members capver pub host ipn auth) =
      [(''Version'', ver), (''NodeKey'', quoted (register_keyed_hex ''nodekey:'' pub)),
         (''OldNodeKey'', quoted (''nodekey:'' @ zeros64)), (''NLKey'', quoted (''nlpub:'' @ zeros64)), (''Followup'', quoted []),
         (''Expiry'', quoted ''0001-01-01T00:00:00Z''), (''Hostinfo'', info)] @ (if auth = None then [] else [(''Auth'', av)])"
    by (cases auth) (simp_all add: register_members_def ver_def info_def av_def)
  have v: "dec_value ver = unat capver" using ver_digits [of 11 capver "[]"] u32_bound [of capver] by (auto simp: ver_def)
  have i: "obj_members info 0 = Some ([(''OS'', quoted ''esp32''), (''Hostname'', quoted (escape host)), (''IPNVersion'', quoted (escape ipn))], length info)"
    unfolding info_def whole [OF nil nil members_ok(1)] by (simp add: hostinfo_members_def)
  have a: "obj_members av 0 = Some ([(''AuthKey'', quoted (escape (case auth of None \<Rightarrow> [] | Some k \<Rightarrow> k)))], length av)"
    unfolding av_def whole [OF nil nil members_ok(2)] by (simp add: auth_members_def)
  have j: "obj_members js 0 = Some (map (\<lambda>m. (m_key m, m_val m)) (register_members capver pub host ipn auth), length js)"
    unfolding js_def by (rule whole [OF nil nil members_ok(3)])
  show ?thesis unfolding register_body_text Let_def js_def [symmetric]
    using j [unfolded m] v i a unescape_escape by (auto simp: not_less)
qed

text \<open>The verdict on a register answer is read correctly.  For an answer that is an object (any layout, any other
  members), the verdict is decided by the first member of each name: a node key reported expired wins over the
  authorisation, only a literal \<open>true\<close> authorises, \<open>false\<close> means waiting for approval, an authorisation of another
  type is refused as malformed, and without one the node is not registered and the answer's error text is
  returned.  The retry with the auth key follows only an answer that did not authorise and is no throttle.\<close>

theorem register_verdict_exact:
  assumes "ws_text w0" "ws_text w" "list_all member_ok ms" "ws_text w1"
  defines "val \<equiv> map_of (map (\<lambda>m. (m_key m, m_val m)) ms)"
  shows "fst (register_parse_response (object_text w0 w ms @ w1) cap) =
      (case val ''MachineAuthorized'' of None \<Rightarrow> JSON_FAIL
       | Some a \<Rightarrow> if a \<noteq> ''true'' \<and> a \<noteq> ''false'' then JSON_INVALID_RESPONSE
           else if val ''NodeKeyExpired'' = Some ''true'' then JSON_INVALID_STATE
           else if a = ''true'' then JSON_OK else JSON_NOT_FINISHED) \<and>
    (val ''MachineAuthorized'' = None \<longrightarrow> val ''Error'' = Some (quoted e) \<longrightarrow> length e < cap \<longrightarrow>
       snd (register_parse_response (object_text w0 w ms @ w1) cap) = e) \<and>
    (register_retry_with_auth status (fst (register_parse_response (object_text w0 w ms @ w1) cap)) \<longrightarrow>
       \<not> (val ''MachineAuthorized'' = Some ''true'' \<and> val ''NodeKeyExpired'' \<noteq> Some ''true'') \<and> status \<notin> {0, 429, 503})"
proof -
  have get: "json_get_member (object_text w0 w ms @ w1) k = (case val k of None \<Rightarrow> Inl JSON_NOT_FOUND | Some v \<Rightarrow> Inr v)" for k
    unfolding json_get_member_def walk_object_text [OF assms(1-4)] val_def by simp
  have b: "json_get_bool (object_text w0 w ms @ w1) k = (case val k of None \<Rightarrow> Inl JSON_NOT_FOUND
     | Some v \<Rightarrow> if v = ''true'' then Inr True else if v = ''false'' then Inr False else Inl JSON_INVALID_RESPONSE)" for k
    by (simp add: json_get_bool_def get split: option.split)
  have s: "val ''Error'' = Some (quoted e) \<Longrightarrow> length e < cap \<Longrightarrow> json_get_string (object_text w0 w ms @ w1) ''Error'' cap = Inr e"
    by (simp add: json_get_string_def get quoted_def Let_def bytes_at_def)
  have fst: "fst (register_parse_response (object_text w0 w ms @ w1) cap) =
      (case val ''MachineAuthorized'' of None \<Rightarrow> JSON_FAIL
       | Some a \<Rightarrow> if a \<noteq> ''true'' \<and> a \<noteq> ''false'' then JSON_INVALID_RESPONSE
           else if val ''NodeKeyExpired'' = Some ''true'' then JSON_INVALID_STATE
           else if a = ''true'' then JSON_OK else JSON_NOT_FINISHED)"
    by (cases "val ''MachineAuthorized''"; cases "val ''NodeKeyExpired''") (simp_all add: register_parse_response_def b)
  then show ?thesis using s by (auto simp: register_parse_response_def b register_retry_with_auth_def split: option.splits if_splits)
qed

theorem register_verdict_exact_witness:
  "fst (register_parse_response (object_text '' '' [] [mem ''X'' ''[1]'', mem ''MachineAuthorized'' ''true''] @ '' '') 64) = JSON_OK"
proof -
  have "value_text ''[1]''" "value_text ''true''" by (simp_all add: value_text_def jsplit_eval)
  then have "list_all member_ok [mem ''X'' ''[1]'', mem ''MachineAuthorized'' ''true'']" "ws_text '' ''" "ws_text []"
    by (auto simp: member_ok_def ws_text_def tl_jsplit_is_ws_def)
  then show ?thesis using register_verdict_exact [of "'' ''" "[]" "[mem ''X'' ''[1]'', mem ''MachineAuthorized'' ''true'']" "'' ''"] by simp
qed

end
