(* ===== verification/TL_Warm.thy ===== *)
theory TL_Warm
  imports TL_Addr
begin

text \<open>
  \<open>tl_warm.h\<close>: the warm start.  The record of the last netmap in flash (its text forms, encoding, what counts as a change, when
  it is written), the crash guard in RTC memory, the decision to start warm, and the state machine of a
  session that runs on the record until a netmap confirms it.

  A C array with its count is a list (at most as long as the array).  Boot seconds are \<open>uint32_t\<close> words, microseconds and
  Unix seconds of type \<open>int64_t\<close> are \<open>int\<close>.  The flash and RTC callbacks are arguments.
\<close>

section \<open>The record\<close>

definition TL_WARM_REC_V1 :: u8 where "TL_WARM_REC_V1 = 1"
definition TL_WARM_TAG_LEN :: nat where "TL_WARM_TAG_LEN = 8"
definition TL_WARM_HDR :: nat where "TL_WARM_HDR = 97"
definition TL_WARM_CIDR_LEN :: nat where "TL_WARM_CIDR_LEN = 5"
definition TL_WARM_EP_LEN :: nat where "TL_WARM_EP_LEN = 6"
definition TL_MAX_PEER_ADDRESSES :: nat where "TL_MAX_PEER_ADDRESSES = 2"
definition TL_MAX_PEER_ENDPOINTS :: nat where "TL_MAX_PEER_ENDPOINTS = 4"
definition TL_ENDPOINT_STRLEN :: nat where "TL_ENDPOINT_STRLEN = 32"
definition TL_CIDR_STRLEN :: nat where "TL_CIDR_STRLEN = 24"
definition TINYLINK_KEY_LEN :: nat where "TINYLINK_KEY_LEN = 32"
definition TL_WARM_BLOB_MIN :: nat where "TL_WARM_BLOB_MIN = TL_WARM_HDR + TL_WARM_CIDR_LEN + TL_WARM_EP_LEN"
definition TL_WARM_BLOB_MAX :: nat where
  "TL_WARM_BLOB_MAX = TL_WARM_HDR + TL_WARM_CIDR_LEN * 2 * TL_MAX_PEER_ADDRESSES + TL_WARM_EP_LEN * TL_MAX_PEER_ENDPOINTS"
definition TL_WARM_SOFT_MIN_US :: i64 where "TL_WARM_SOFT_MIN_US = 3600 * 1000000"

record tl_warm_cidr_t =
  c_ip :: bytes
  c_prefix :: u8

record tl_warm_ep_t =
  e_ip :: bytes
  e_port :: u16

record tl_warm_peer_t =
  wp_id :: u64
  wp_node_pub :: bytes
  wp_disco_pub :: bytes
  wp_has_disco :: bool
  wp_addr :: "tl_warm_cidr_t list"
  wp_ep :: "tl_warm_ep_t list"

record tl_warm_rec_t =
  wr_written :: u32
  wr_self_tag :: bytes
  wr_ctl_tag :: bytes
  wr_self :: "tl_warm_cidr_t list"
  wr_peer :: tl_warm_peer_t

text \<open>The peer as the netmap has it (\<open>netmap.h\<close>): addresses and endpoints as text.\<close>

record tl_peer_t =
  p_id :: u64
  p_node_pub :: bytes
  p_disco_pub :: bytes
  p_has_disco_pub :: bool
  p_home_derp :: int
  p_endpoints :: "bytes list"
  p_addresses :: "bytes list"

definition TL_MAX_PEERS :: nat where "TL_MAX_PEERS = 4"

record tl_peer_patch_t =
  pc_id :: u64
  pc_has_key :: bool
  pc_node_pub :: bytes
  pc_has_disco :: bool
  pc_disco_pub :: bytes
  pc_has_endpoints :: bool
  pc_endpoints :: "bytes list"
  pc_derp_region :: int

record tl_netmap_t =
  map_self_id :: u64
  map_self_addresses :: "bytes list"
  map_self_expired :: bool
  map_self_key_expiry :: i64
  map_peers :: "tl_peer_t list"
  map_peers_is_delta :: bool
  map_removed_ids :: "u64 list"
  map_removed_overflow :: bool
  map_patches :: "tl_peer_patch_t list"
  map_patches_overflow :: bool
  map_derp_regions :: "tl_derp_region_t list"
  map_have_self :: bool
  map_have_derp_map :: bool

definition tl_netmap_clear :: tl_netmap_t where
  "tl_netmap_clear = \<lparr>map_self_id = 0, map_self_addresses = [], map_self_expired = False, map_self_key_expiry = 0, map_peers = [], map_peers_is_delta = False,
     map_removed_ids = [], map_removed_overflow = False, map_patches = [], map_patches_overflow = False, map_derp_regions = [], map_have_self = False, map_have_derp_map = False\<rparr>"

section \<open>Text forms\<close>

definition tl_warm_dec :: "bytes \<Rightarrow> nat \<Rightarrow> nat option" where
  "tl_warm_dec s mx =
    (if s = [] \<or> length s > 5 \<or> (length s > 1 \<and> hd s = 48) then None
     else (case dec_loop 0 s of None \<Rightarrow> None | Some v \<Rightarrow> if v > mx then None else Some v))"

text \<open>\<open>memchr\<close> in a text: what is before the first \<open>c\<close> and what follows it.\<close>

fun split_at :: "u8 \<Rightarrow> bytes \<Rightarrow> (bytes \<times> bytes) option" where
  "split_at c [] = None"
| "split_at c (x # xs) = (if x = c then Some ([], xs) else map_option (apfst (Cons x)) (split_at c xs))"

definition tl_warm_cidr_parse :: "bytes \<Rightarrow> tl_warm_cidr_t option" where
  "tl_warm_cidr_parse s = (if length s \<ge> TL_CIDR_STRLEN then None else (case split_at 47 s of None \<Rightarrow> None | Some (a, p) \<Rightarrow>
     (case tl_ipv4_parse a of None \<Rightarrow> None | Some ip \<Rightarrow>
       if \<not> tl_ipv4_usable ip then None
       else (case tl_warm_dec p 32 of None \<Rightarrow> None | Some n \<Rightarrow> Some \<lparr>c_ip = ip, c_prefix = of_nat n\<rparr>))))"

definition tl_warm_ep_parse :: "bytes \<Rightarrow> tl_warm_ep_t option" where
  "tl_warm_ep_parse s = (if length s \<ge> TL_ENDPOINT_STRLEN then None else (case split_at 58 s of None \<Rightarrow> None | Some (a, p) \<Rightarrow>
     (case tl_ipv4_parse a of None \<Rightarrow> None | Some ip \<Rightarrow>
       if \<not> tl_ipv4_usable ip then None
       else (case tl_warm_dec p 65535 of None \<Rightarrow> None | Some n \<Rightarrow> if n = 0 then None else Some \<lparr>e_ip = ip, e_port = of_nat n\<rparr>))))"

definition tl_warm_cidr_str :: "tl_warm_cidr_t \<Rightarrow> bytes" where
  "tl_warm_cidr_str c = take (TL_CIDR_STRLEN - 1) (tl_ipv4_str (c_ip c) @ [47] @ udec (unat (c_prefix c)))"

definition tl_warm_ep_str :: "tl_warm_ep_t \<Rightarrow> bytes" where
  "tl_warm_ep_str e = take (TL_ENDPOINT_STRLEN - 1) (tl_ipv4_str (e_ip e) @ [58] @ udec (unat (e_port e)))"

section \<open>From and to the netmap\<close>

definition zero_key :: bytes where "zero_key = replicate TINYLINK_KEY_LEN 0"

definition tl_warm_peer_from :: "tl_peer_t \<Rightarrow> tl_warm_peer_t" where
  "tl_warm_peer_from p = \<lparr>wp_id = p_id p, wp_node_pub = p_node_pub p,
     wp_disco_pub = (if p_has_disco_pub p then p_disco_pub p else zero_key), wp_has_disco = p_has_disco_pub p,
     wp_addr = List.map_filter tl_warm_cidr_parse (take TL_MAX_PEER_ADDRESSES (p_addresses p)),
     wp_ep = List.map_filter tl_warm_ep_parse (take TL_MAX_PEER_ENDPOINTS (p_endpoints p))\<rparr>"

definition tl_warm_peer_to :: "tl_warm_peer_t \<Rightarrow> tl_peer_t" where
  "tl_warm_peer_to w = \<lparr>p_id = wp_id w, p_node_pub = wp_node_pub w,
     p_disco_pub = (if wp_has_disco w then wp_disco_pub w else zero_key), p_has_disco_pub = wp_has_disco w, p_home_derp = 0,
     p_endpoints = map tl_warm_ep_str (take TL_MAX_PEER_ENDPOINTS (wp_ep w)),
     p_addresses = map tl_warm_cidr_str (take TL_MAX_PEER_ADDRESSES (wp_addr w))\<rparr>"

definition tl_warm_rec_build :: "bytes list \<Rightarrow> tl_peer_t \<Rightarrow> bytes \<Rightarrow> bytes \<Rightarrow> tl_warm_rec_t" where
  "tl_warm_rec_build self peer self_pub ctl_pub =
    \<lparr>wr_written = 0, wr_self_tag = take TL_WARM_TAG_LEN self_pub, wr_ctl_tag = take TL_WARM_TAG_LEN ctl_pub,
     wr_self = (case self of [] \<Rightarrow> [] | s # ss \<Rightarrow> (case tl_warm_cidr_parse s of None \<Rightarrow> []
        | Some c \<Rightarrow> c # List.map_filter tl_warm_cidr_parse (take (TL_MAX_PEER_ADDRESSES - 1) ss))),
     wr_peer = tl_warm_peer_from peer\<rparr>"

definition tl_warm_rec_storable :: "tl_warm_rec_t \<Rightarrow> bool" where
  "tl_warm_rec_storable r \<longleftrightarrow> 1 \<le> length (wr_self r) \<and> length (wr_self r) \<le> TL_MAX_PEER_ADDRESSES \<and>
     1 \<le> length (wp_ep (wr_peer r)) \<and> length (wp_ep (wr_peer r)) \<le> TL_MAX_PEER_ENDPOINTS \<and> length (wp_addr (wr_peer r)) \<le> TL_MAX_PEER_ADDRESSES"

definition tl_warm_rec_for :: "tl_warm_rec_t \<Rightarrow> bytes \<Rightarrow> bytes \<Rightarrow> bool" where
  "tl_warm_rec_for r self_pub ctl_pub \<longleftrightarrow> wr_self_tag r = take TL_WARM_TAG_LEN self_pub \<and> wr_ctl_tag r = take TL_WARM_TAG_LEN ctl_pub"

section \<open>Encode and decode\<close>

definition tl_warm_put_cidr :: "tl_warm_cidr_t \<Rightarrow> bytes" where
  "tl_warm_put_cidr c = take 4 (c_ip c) @ [c_prefix c]"

definition put_ep :: "tl_warm_ep_t \<Rightarrow> bytes" where
  "put_ep e = take 4 (e_ip e) @ put_le16 (e_port e)"

definition tl_warm_encode :: "tl_warm_rec_t \<Rightarrow> nat \<Rightarrow> bytes option" where
  "tl_warm_encode r cap =
    (if \<not> tl_warm_rec_storable r then None
     else if cap < TL_WARM_HDR + TL_WARM_CIDR_LEN * (length (wr_self r) + length (wp_addr (wr_peer r))) + TL_WARM_EP_LEN * length (wp_ep (wr_peer r)) then None
     else Some ([TL_WARM_REC_V1] @ le_bytes 4 (wr_written r) @ take 8 (wr_self_tag r) @ take 8 (wr_ctl_tag r) @
       [of_nat (length (wr_self r)), of_nat (length (wp_addr (wr_peer r))), of_nat (length (wp_ep (wr_peer r))), if wp_has_disco (wr_peer r) then 1 else 0] @
       le_bytes 8 (wp_id (wr_peer r)) @ take 32 (wp_node_pub (wr_peer r)) @ (if wp_has_disco (wr_peer r) then take 32 (wp_disco_pub (wr_peer r)) else zero_key) @
       concat (map tl_warm_put_cidr (wr_self r)) @ concat (map tl_warm_put_cidr (wp_addr (wr_peer r))) @ concat (map put_ep (wp_ep (wr_peer r)))))"

definition tl_warm_get_cidr :: "bytes \<Rightarrow> tl_warm_cidr_t option" where
  "tl_warm_get_cidr b = (if \<not> tl_ipv4_usable b \<or> b ! 4 > 32 then None else Some \<lparr>c_ip = take 4 b, c_prefix = b ! 4\<rparr>)"

definition get_ep :: "bytes \<Rightarrow> tl_warm_ep_t option" where
  "get_ep b = (let port = get_le16 (drop 4 b) in if \<not> tl_ipv4_usable b \<or> port = 0 then None else Some \<lparr>e_ip = take 4 b, e_port = port\<rparr>)"

text \<open>\<open>n\<close> entries of \<open>w\<close> bytes each, and what follows.\<close>

fun get_list :: "nat \<Rightarrow> (bytes \<Rightarrow> 'a option) \<Rightarrow> nat \<Rightarrow> bytes \<Rightarrow> ('a list \<times> bytes) option" where
  "get_list w get 0 b = Some ([], b)"
| "get_list w get (Suc n) b = (case get (take w b) of None \<Rightarrow> None | Some x \<Rightarrow> map_option (apfst (Cons x)) (get_list w get n (drop w b)))"

definition tl_warm_decode :: "bytes \<Rightarrow> tl_warm_rec_t option" where
  "tl_warm_decode b =
    (if length b < TL_WARM_BLOB_MIN \<or> length b > TL_WARM_BLOB_MAX \<or> b ! 0 \<noteq> TL_WARM_REC_V1 then None
     else (let n_self = unat (b ! 21); n_addr = unat (b ! 22); n_ep = unat (b ! 23) in
     if n_self < 1 \<or> n_self > TL_MAX_PEER_ADDRESSES \<or> n_addr > TL_MAX_PEER_ADDRESSES \<or> n_ep < 1 \<or> n_ep > TL_MAX_PEER_ENDPOINTS \<or>
        b ! 24 AND NOT 1 \<noteq> 0 \<or> length b \<noteq> TL_WARM_HDR + TL_WARM_CIDR_LEN * (n_self + n_addr) + TL_WARM_EP_LEN * n_ep then None
     else (let has_disco = (b ! 24 AND 1 = 1); disco = bytes_at 65 32 b in
     if \<not> has_disco \<and> disco \<noteq> zero_key then None
     else (case get_list TL_WARM_CIDR_LEN tl_warm_get_cidr n_self (drop TL_WARM_HDR b) of None \<Rightarrow> None | Some (self, b1) \<Rightarrow>
       (case get_list TL_WARM_CIDR_LEN tl_warm_get_cidr n_addr b1 of None \<Rightarrow> None | Some (addr, b2) \<Rightarrow>
         (case get_list TL_WARM_EP_LEN get_ep n_ep b2 of None \<Rightarrow> None | Some (ep, b3) \<Rightarrow>
           Some \<lparr>wr_written = le_word (bytes_at 1 4 b), wr_self_tag = bytes_at 5 8 b, wr_ctl_tag = bytes_at 13 8 b, wr_self = self,
             wr_peer = \<lparr>wp_id = le_word (bytes_at 25 8 b), wp_node_pub = bytes_at 33 32 b, wp_disco_pub = disco, wp_has_disco = has_disco, wp_addr = addr, wp_ep = ep\<rparr>\<rparr>))))))"

section \<open>What differs\<close>

definition TL_WARM_D_PEER :: u32 where "TL_WARM_D_PEER = 0x01"
definition TL_WARM_D_KEY :: u32 where "TL_WARM_D_KEY = 0x02"
definition TL_WARM_D_DISCO :: u32 where "TL_WARM_D_DISCO = 0x04"
definition TL_WARM_D_EP :: u32 where "TL_WARM_D_EP = 0x08"
definition TL_WARM_D_ADDR :: u32 where "TL_WARM_D_ADDR = 0x10"
definition TL_WARM_D_SELF0 :: u32 where "TL_WARM_D_SELF0 = 0x20"
definition TL_WARM_D_SELF :: u32 where "TL_WARM_D_SELF = 0x40"
definition TL_WARM_D_IDENT :: u32 where "TL_WARM_D_IDENT = 0x80"
definition TL_WARM_RESTART :: u32 where "TL_WARM_RESTART = TL_WARM_D_PEER OR TL_WARM_D_SELF0 OR TL_WARM_D_IDENT"
definition TL_WARM_HARD :: u32 where
  "TL_WARM_HARD = TL_WARM_D_PEER OR TL_WARM_D_KEY OR TL_WARM_D_ADDR OR TL_WARM_D_SELF0 OR TL_WARM_D_SELF OR TL_WARM_D_IDENT"

definition tl_warm_same_peer :: "tl_warm_peer_t \<Rightarrow> tl_warm_peer_t \<Rightarrow> bool" where
  "tl_warm_same_peer a b \<longleftrightarrow> (if wp_id a \<noteq> 0 then wp_id a = wp_id b else wp_node_pub a = wp_node_pub b)"

text \<open>Some entry that both lists have differs.\<close>

definition entries_differ :: "'a list \<Rightarrow> 'a list \<Rightarrow> bool" where
  "entries_differ xs ys \<longleftrightarrow> list_ex (\<lambda>(x, y). x \<noteq> y) (zip xs ys)"

definition d_if :: "bool \<Rightarrow> u32 \<Rightarrow> u32" where "d_if p b = (if p then b else 0)"

definition tl_warm_diff :: "tl_warm_rec_t \<Rightarrow> tl_warm_rec_t \<Rightarrow> u32" where
  "tl_warm_diff was now = (let a = wr_peer was; b = wr_peer now in
     d_if (wr_self_tag was \<noteq> wr_self_tag now \<or> wr_ctl_tag was \<noteq> wr_ctl_tag now) TL_WARM_D_IDENT OR
     d_if ((wr_self was = []) \<noteq> (wr_self now = []) \<or> (wr_self was \<noteq> [] \<and> hd (wr_self was) \<noteq> hd (wr_self now))) (TL_WARM_D_SELF0 OR TL_WARM_D_SELF) OR
     d_if (length (wr_self was) \<noteq> length (wr_self now)) TL_WARM_D_SELF OR
     d_if (entries_differ (drop 1 (wr_self was)) (drop 1 (wr_self now))) TL_WARM_D_SELF OR
     d_if (\<not> tl_warm_same_peer a b) TL_WARM_D_PEER OR
     d_if (wp_node_pub a \<noteq> wp_node_pub b) TL_WARM_D_KEY OR
     d_if (wp_has_disco a \<noteq> wp_has_disco b \<or> (wp_has_disco a \<and> wp_disco_pub a \<noteq> wp_disco_pub b)) TL_WARM_D_DISCO OR
     d_if (length (wp_addr a) \<noteq> length (wp_addr b)) TL_WARM_D_ADDR OR
     d_if (entries_differ (wp_addr a) (wp_addr b)) TL_WARM_D_ADDR OR
     d_if (length (wp_ep a) \<noteq> length (wp_ep b)) TL_WARM_D_EP OR
     d_if (entries_differ (wp_ep a) (wp_ep b)) TL_WARM_D_EP)"

section \<open>Written only on change\<close>

definition tl_warm_store_due :: "u32 \<Rightarrow> bool \<Rightarrow> bool \<Rightarrow> i64 \<Rightarrow> i64 \<Rightarrow> bool" where
  "tl_warm_store_due diff stored wrote now_us last_us =
    (if \<not> stored then True
     else if diff = 0 then False
     else if diff AND TL_WARM_HARD \<noteq> 0 then True
     else \<not> wrote \<or> now_us - last_us \<ge> TL_WARM_SOFT_MIN_US)"

record tl_warm_nvs_t =
  nv_valid :: bool
  nv_wrote :: bool
  nv_last_us :: i64
  nv_rec :: tl_warm_rec_t

definition TL_WARM_REFRESH_S :: u32 where "TL_WARM_REFRESH_S = 86400"

definition tl_warm_refresh_due :: "u32 \<Rightarrow> u32 \<Rightarrow> bool \<Rightarrow> bool" where
  "tl_warm_refresh_due written now_unix fresh \<longleftrightarrow> fresh \<and> now_unix \<noteq> 0 \<and> (written = 0 \<or> (now_unix \<ge> written \<and> now_unix - written \<ge> TL_WARM_REFRESH_S))"

text \<open>The result (0, 1 or -1), the mirror and the blob written, if any; \<open>ok\<close> is whether the write succeeds.\<close>

definition tl_warm_store :: "tl_warm_nvs_t \<Rightarrow> tl_warm_rec_t \<Rightarrow> u32 \<Rightarrow> i64 \<Rightarrow> bool \<Rightarrow> bool \<Rightarrow> int \<times> tl_warm_nvs_t \<times> bytes option" where
  "tl_warm_store m nxt now_unix now_us fresh ok =
    (if \<not> tl_warm_rec_storable nxt then (-1, m, None)
     else (let d = (if nv_valid m then tl_warm_diff (nv_rec m) nxt else - 1) in
     if \<not> tl_warm_store_due d (nv_valid m) (nv_wrote m) now_us (nv_last_us m) \<and> \<not> (d = 0 \<and> tl_warm_refresh_due (wr_written (nv_rec m)) now_unix fresh) then (0, m, None)
     else (let r = nxt\<lparr>wr_written := now_unix\<rparr> in case tl_warm_encode r TL_WARM_BLOB_MAX of None \<Rightarrow> (-1, m, None)
       | Some b \<Rightarrow> (if ok then 1 else -1, m\<lparr>nv_rec := r, nv_valid := True, nv_wrote := True, nv_last_us := now_us\<rparr>, Some b))))"

section \<open>Age and bound\<close>

definition tl_warm_bound_due :: "u32 \<Rightarrow> u32 \<Rightarrow> u32 \<Rightarrow> bool" where
  "tl_warm_bound_due now_s since_s max_s \<longleftrightarrow> now_s \<ge> since_s \<and> now_s - since_s \<ge> max_s"

definition TL_WARM_MAX_AGE_S :: u32 where "TL_WARM_MAX_AGE_S = 30 * 86400"

definition tl_warm_too_old :: "i64 \<Rightarrow> u32 \<Rightarrow> bool" where
  "tl_warm_too_old now_unix written \<longleftrightarrow> written \<noteq> 0 \<and> now_unix > int (unat written) \<and> now_unix - int (unat written) > int (unat TL_WARM_MAX_AGE_S)"

section \<open>The target peer\<close>

definition tl_warm_ipv4_public :: "bytes \<Rightarrow> bool" where
  "tl_warm_ipv4_public ip =
    (if ip ! 0 = 10 \<or> ip ! 0 = 127 \<or> ip ! 0 = 0 \<or> ip ! 0 \<ge> 224 then False
     else if ip ! 0 = 172 \<and> ip ! 1 AND 0xF0 = 16 then False
     else if ip ! 0 = 192 \<and> ip ! 1 = 168 then False
     else if ip ! 0 = 169 \<and> ip ! 1 = 254 then False
     else True)"

definition tl_warm_peer_reachable :: "tl_peer_t \<Rightarrow> bytes option \<Rightarrow> bool" where
  "tl_warm_peer_reachable p our = list_ex (\<lambda>s. case tl_warm_ep_parse s of None \<Rightarrow> False
     | Some e \<Rightarrow> tl_warm_ipv4_public (e_ip e) \<and> (case our of None \<Rightarrow> True | Some ip \<Rightarrow> e_ip e \<noteq> ip)) (take TL_MAX_PEER_ENDPOINTS (p_endpoints p))"

text \<open>The index picked, and whether the peer there qualified.\<close>

fun target_from :: "nat \<Rightarrow> tl_peer_t list \<Rightarrow> bytes option \<Rightarrow> nat \<times> bool" where
  "target_from i [] our = (0, False)"
| "target_from i (p # ps) our = (if tl_warm_peer_reachable p our then (i, True) else target_from (i + 1) ps our)"

definition tl_warm_target_index :: "tl_peer_t list \<Rightarrow> bytes option \<Rightarrow> nat \<times> bool" where
  "tl_warm_target_index peers our = target_from 0 peers our"

definition tl_warm_addr_moved :: "u32 \<Rightarrow> u32 \<Rightarrow> bool" where
  "tl_warm_addr_moved cur_be next_be \<longleftrightarrow> next_be \<noteq> 0 \<and> next_be \<noteq> cur_be"

definition tl_warm_reg_reused :: "bool \<Rightarrow> bool \<Rightarrow> bool" where
  "tl_warm_reg_reused known retried_with_auth \<longleftrightarrow> known \<and> \<not> retried_with_auth"

section \<open>The crash guard\<close>

definition TL_WARM_RTC_MAGIC :: u32 where "TL_WARM_RTC_MAGIC = 0x544C5732"
definition TL_WARM_RTC_MAX_CRASHES :: u8 where "TL_WARM_RTC_MAX_CRASHES = 2"
definition TL_WARM_RST_POWERON :: int where "TL_WARM_RST_POWERON = 1"
definition TL_WARM_RST_SW :: int where "TL_WARM_RST_SW = 3"

record tl_warm_rtc_t =
  rtc_magic :: u32
  rtc_attempt :: u8
  rtc_skip :: u8
  rtc_crashes :: u8
  rtc_pad :: u8
  rtc_check :: u32

definition tl_warm_rtc_sum :: "tl_warm_rtc_t \<Rightarrow> u32" where
  "tl_warm_rtc_sum r = foldl (\<lambda>h b. (h XOR ucast b) * 16777619) 2166136261
     (le_bytes 4 (rtc_magic r) @ [rtc_attempt r, rtc_skip r, rtc_crashes r, rtc_pad r])"

definition tl_warm_rtc_seal :: "tl_warm_rtc_t \<Rightarrow> tl_warm_rtc_t" where
  "tl_warm_rtc_seal r = (let r1 = r\<lparr>rtc_magic := TL_WARM_RTC_MAGIC\<rparr> in r1\<lparr>rtc_check := tl_warm_rtc_sum r1\<rparr>)"

datatype tl_warm_rtc_verdict_t = TL_WARM_RTC_CLEAN | TL_WARM_RTC_RESTARTED | TL_WARM_RTC_CRASHED | TL_WARM_RTC_OFF

definition rtc_zero :: tl_warm_rtc_t where
  "rtc_zero = \<lparr>rtc_magic = 0, rtc_attempt = 0, rtc_skip = 0, rtc_crashes = 0, rtc_pad = 0, rtc_check = 0\<rparr>"

text \<open>The memory after the boot, the verdict, and whether the record is to be erased.\<close>

definition tl_warm_rtc_boot :: "tl_warm_rtc_t \<Rightarrow> int \<Rightarrow> tl_warm_rtc_t \<times> tl_warm_rtc_verdict_t \<times> bool" where
  "tl_warm_rtc_boot r reset_reason =
    (if reset_reason = TL_WARM_RST_POWERON \<or> rtc_magic r \<noteq> TL_WARM_RTC_MAGIC \<or> rtc_check r \<noteq> tl_warm_rtc_sum r \<or> rtc_attempt r > 1 \<or> rtc_skip r > 1 \<or>
        rtc_crashes r > TL_WARM_RTC_MAX_CRASHES \<or> rtc_pad r \<noteq> 0 then (tl_warm_rtc_seal rtc_zero, TL_WARM_RTC_CLEAN, False)
     else (let crash = (rtc_attempt r \<noteq> 0 \<and> reset_reason \<noteq> TL_WARM_RST_SW); skip = (rtc_skip r \<noteq> 0);
               r1 = (if crash \<and> rtc_crashes r < TL_WARM_RTC_MAX_CRASHES then r\<lparr>rtc_crashes := rtc_crashes r + 1\<rparr> else r);
               r2 = tl_warm_rtc_seal (r1\<lparr>rtc_attempt := 0, rtc_skip := 0\<rparr>)
       in (r2, if rtc_crashes r2 \<ge> TL_WARM_RTC_MAX_CRASHES then TL_WARM_RTC_OFF else if crash then TL_WARM_RTC_CRASHED
               else if skip then TL_WARM_RTC_RESTARTED else TL_WARM_RTC_CLEAN, crash)))"

definition tl_warm_rtc_restart :: "tl_warm_rtc_t \<Rightarrow> tl_warm_rtc_t" where
  "tl_warm_rtc_restart r = tl_warm_rtc_seal (r\<lparr>rtc_attempt := 0, rtc_skip := 1\<rparr>)"

definition tl_warm_rtc_hung :: "tl_warm_rtc_t \<Rightarrow> tl_warm_rtc_t" where
  "tl_warm_rtc_hung r = tl_warm_rtc_restart (if rtc_crashes r < TL_WARM_RTC_MAX_CRASHES then r\<lparr>rtc_crashes := rtc_crashes r + 1\<rparr> else r)"

section \<open>The boot's load\<close>

datatype tl_warm_load_t = TL_WARM_LOAD_NONE | TL_WARM_LOAD_OK | TL_WARM_LOAD_BAD | TL_WARM_LOAD_ERASED | TL_WARM_LOAD_ERASE_FAILED

datatype nvs_read = NvsBlob bytes | NvsNone | NvsTooLong

text \<open>\<open>erase_ok\<close> and \<open>rd\<close> are what the flash callbacks would answer.  The mirror is the decoded record, if there is one.\<close>

definition tl_warm_load :: "tl_warm_rtc_t \<Rightarrow> int \<Rightarrow> bool \<Rightarrow> nvs_read \<Rightarrow> tl_warm_load_t \<times> tl_warm_rtc_t \<times> tl_warm_rtc_verdict_t \<times> tl_warm_rec_t option" where
  "tl_warm_load rtc reset_reason erase_ok rd = (case tl_warm_rtc_boot rtc reset_reason of (rtc1, verdict, erase) \<Rightarrow>
     if erase then (if erase_ok then TL_WARM_LOAD_ERASED else TL_WARM_LOAD_ERASE_FAILED, rtc1, verdict, None)
     else (case rd of NvsNone \<Rightarrow> (TL_WARM_LOAD_NONE, rtc1, verdict, None)
       | NvsTooLong \<Rightarrow> (TL_WARM_LOAD_BAD, rtc1, verdict, None)
       | NvsBlob b \<Rightarrow> (case tl_warm_decode b of None \<Rightarrow> (TL_WARM_LOAD_BAD, rtc1, verdict, None) | Some r \<Rightarrow> (TL_WARM_LOAD_OK, rtc1, verdict, Some r))))"

section \<open>Whether a boot starts warm\<close>

datatype tl_warm_go_t = TL_WARM_GO | TL_WARM_NO_RECORD | TL_WARM_SKIP_CRASH | TL_WARM_SKIP_OFF | TL_WARM_SKIP_RESTART
  | TL_WARM_OTHER_KEYS | TL_WARM_STALE | TL_WARM_NEEDED_AUTH | TL_WARM_LOW_HEAP

record tl_warm_go_in_t =
  gi_rtc :: tl_warm_rtc_verdict_t
  gi_have_rec :: bool
  gi_keys_ok :: bool
  gi_reg_reused :: bool
  gi_heap_ok :: bool
  gi_now_unix :: i64
  gi_written :: u32

definition tl_warm_go :: "tl_warm_go_in_t \<Rightarrow> tl_warm_go_t" where
  "tl_warm_go i =
    (if gi_rtc i = TL_WARM_RTC_CRASHED then TL_WARM_SKIP_CRASH
     else if gi_rtc i = TL_WARM_RTC_OFF then TL_WARM_SKIP_OFF
     else if \<not> gi_have_rec i then TL_WARM_NO_RECORD
     else if gi_rtc i = TL_WARM_RTC_RESTARTED then TL_WARM_SKIP_RESTART
     else if \<not> gi_keys_ok i then TL_WARM_OTHER_KEYS
     else if tl_warm_too_old (gi_now_unix i) (gi_written i) then TL_WARM_STALE
     else if \<not> gi_reg_reused i then TL_WARM_NEEDED_AUTH
     else if \<not> gi_heap_ok i then TL_WARM_LOW_HEAP
     else TL_WARM_GO)"

section \<open>The session's state machine\<close>

datatype warm_state = TL_WARM_ST_OFF | TL_WARM_ST_PENDING | TL_WARM_ST_CONFIRMED

record tl_warm_sm_t =
  sm_state :: warm_state
  sm_seeded :: bool
  sm_restart :: bool
  sm_bound_fired :: bool
  sm_unsettled :: bool
  sm_pending_s :: u32
  sm_written :: u32

record tl_warm_tables_t =
  t_self :: "bytes list"
  t_peers :: "tl_peer_t list"

definition tl_warm_sm_begin :: "tl_warm_rtc_t \<Rightarrow> tl_warm_sm_t \<times> tl_warm_rtc_t" where
  "tl_warm_sm_begin rtc =
    (\<lparr>sm_state = TL_WARM_ST_OFF, sm_seeded = True, sm_restart = False, sm_bound_fired = False, sm_unsettled = False, sm_pending_s = 0, sm_written = 0\<rparr>,
     tl_warm_rtc_seal (rtc\<lparr>rtc_attempt := 1\<rparr>))"

definition tl_warm_seed :: "tl_warm_rec_t \<Rightarrow> tl_warm_tables_t" where
  "tl_warm_seed r = \<lparr>t_self = map tl_warm_cidr_str (take TL_MAX_PEER_ADDRESSES (wr_self r)), t_peers = [tl_warm_peer_to (wr_peer r)]\<rparr>"

definition tl_warm_sm_started :: "tl_warm_sm_t \<Rightarrow> tl_warm_rtc_t \<Rightarrow> tl_warm_tables_t \<Rightarrow> bool \<Rightarrow> u32 \<Rightarrow> u32 \<Rightarrow> tl_warm_sm_t \<times> tl_warm_rtc_t \<times> tl_warm_tables_t" where
  "tl_warm_sm_started sm rtc t ok now_s written =
    (if \<not> ok then (sm\<lparr>sm_state := TL_WARM_ST_OFF, sm_seeded := False\<rparr>, tl_warm_rtc_seal (rtc\<lparr>rtc_attempt := 0\<rparr>), \<lparr>t_self = [], t_peers = []\<rparr>)
     else (sm\<lparr>sm_state := TL_WARM_ST_PENDING, sm_pending_s := now_s + 1, sm_written := written\<rparr>, rtc, t))"

definition tl_warm_sm_frame :: "tl_warm_sm_t \<Rightarrow> tl_warm_tables_t \<Rightarrow> bool \<times> tl_warm_sm_t \<times> tl_warm_tables_t" where
  "tl_warm_sm_frame sm t =
    (let (sm1, t1) = (if sm_seeded sm then (sm\<lparr>sm_seeded := False\<rparr>, \<lparr>t_self = [], t_peers = []\<rparr>) else (sm, t))
     in (sm_state sm1 = TL_WARM_ST_PENDING, sm1, t1))"

datatype tl_warm_act_t = TL_WARM_ACT_COLD | TL_WARM_ACT_WAIT | TL_WARM_ACT_CONFIRM | TL_WARM_ACT_RESTART | TL_WARM_ACT_LATE

definition TL_WARM_WHY_EXPIRED :: u32 where "TL_WARM_WHY_EXPIRED = 0x100"
definition TL_WARM_WHY_EMPTY :: u32 where "TL_WARM_WHY_EMPTY = 0x200"

record tl_warm_nm_t =
  nm_expired :: bool
  nm_have_self :: bool
  nm_self0_moved :: bool
  nm_now :: "tl_warm_rec_t option"

definition warm_restart :: "tl_warm_sm_t \<Rightarrow> u32 \<Rightarrow> tl_warm_act_t \<times> u32 \<times> tl_warm_sm_t" where
  "warm_restart sm why = (TL_WARM_ACT_RESTART, why, sm\<lparr>sm_restart := True, sm_pending_s := 0\<rparr>)"

definition tl_warm_sm_netmap :: "tl_warm_sm_t \<Rightarrow> tl_warm_rec_t \<Rightarrow> tl_warm_nm_t \<Rightarrow> tl_warm_act_t \<times> u32 \<times> tl_warm_sm_t" where
  "tl_warm_sm_netmap sm was i =
    (if sm_state sm \<noteq> TL_WARM_ST_PENDING then (TL_WARM_ACT_COLD, 0, sm)
     else if sm_bound_fired sm then (TL_WARM_ACT_LATE, 0, sm)
     else if nm_expired i then warm_restart sm TL_WARM_WHY_EXPIRED
     else if nm_self0_moved i then warm_restart sm (TL_WARM_D_SELF0 OR TL_WARM_D_SELF)
     else (case nm_now i of
        None \<Rightarrow> if \<not> nm_have_self i then (TL_WARM_ACT_WAIT, 0, sm) else warm_restart sm TL_WARM_WHY_EMPTY
      | Some now \<Rightarrow> (let why = tl_warm_diff was now in
          if why AND TL_WARM_RESTART = 0 then
            (TL_WARM_ACT_CONFIRM, why, sm\<lparr>sm_state := TL_WARM_ST_CONFIRMED, sm_pending_s := 0, sm_unsettled := True\<rparr>)
          else warm_restart sm why)))"

datatype warm_bound = WarmBoundNone | TL_WARM_BOUND_TIME | TL_WARM_BOUND_AGE | TL_WARM_POLL_NETMAP

definition tl_warm_sm_bound :: "tl_warm_sm_t \<Rightarrow> u32 \<Rightarrow> u32 \<Rightarrow> bool \<Rightarrow> i64 \<Rightarrow> warm_bound \<times> tl_warm_sm_t" where
  "tl_warm_sm_bound sm now_s max_s synced now_unix =
    (if sm_state sm \<noteq> TL_WARM_ST_PENDING \<or> sm_pending_s sm = 0 \<or> sm_bound_fired sm then (WarmBoundNone, sm)
     else (let why = (if tl_warm_bound_due now_s (sm_pending_s sm - 1) max_s then TL_WARM_BOUND_TIME
                      else if synced \<and> tl_warm_too_old now_unix (sm_written sm) then TL_WARM_BOUND_AGE else WarmBoundNone)
       in (why, if why \<noteq> WarmBoundNone then sm\<lparr>sm_bound_fired := True, sm_pending_s := 0\<rparr> else sm)))"

definition tl_warm_sm_poll :: "tl_warm_sm_t \<Rightarrow> bool \<Rightarrow> u32 \<Rightarrow> u32 \<Rightarrow> bool \<Rightarrow> i64 \<Rightarrow> warm_bound \<times> tl_warm_sm_t" where
  "tl_warm_sm_poll sm long_poll now_s max_s synced now_unix =
    (if long_poll \<and> sm_restart sm then (TL_WARM_POLL_NETMAP, sm) else tl_warm_sm_bound sm now_s max_s synced now_unix)"

definition tl_warm_sm_cold :: "tl_warm_sm_t \<Rightarrow> tl_warm_sm_t" where
  "tl_warm_sm_cold sm = (if sm_state sm = TL_WARM_ST_OFF then sm\<lparr>sm_state := TL_WARM_ST_CONFIRMED\<rparr> else sm)"

definition tl_warm_sm_seen :: "tl_warm_sm_t \<Rightarrow> bool" where
  "tl_warm_sm_seen sm \<longleftrightarrow> sm_state sm = TL_WARM_ST_CONFIRMED"

definition TL_WARM_FRESH_S :: u32 where "TL_WARM_FRESH_S = 600"

definition tl_warm_sm_fresh :: "tl_warm_sm_t \<Rightarrow> u32 \<Rightarrow> u32 \<Rightarrow> bool" where
  "tl_warm_sm_fresh sm now_s control_rx_s \<longleftrightarrow> tl_warm_sm_seen sm \<and> (now_s \<le> control_rx_s \<or> now_s - control_rx_s < TL_WARM_FRESH_S)"

definition tl_warm_sm_settle :: "tl_warm_sm_t \<Rightarrow> tl_warm_rtc_t \<Rightarrow> int \<Rightarrow> bool \<times> tl_warm_sm_t \<times> tl_warm_rtc_t" where
  "tl_warm_sm_settle sm rtc store_rc =
    (if sm_state sm \<noteq> TL_WARM_ST_CONFIRMED \<or> \<not> sm_unsettled sm \<or> store_rc < 0 then (False, sm, rtc)
     else (True, sm\<lparr>sm_unsettled := False\<rparr>, tl_warm_rtc_seal (rtc\<lparr>rtc_attempt := 0, rtc_crashes := 0\<rparr>)))"

datatype warm_disco = TL_WARM_DISCO_SAME | TL_WARM_DISCO_NEW | TL_WARM_DISCO_GONE

definition tl_warm_disco_delta :: "bytes option \<Rightarrow> bytes option \<Rightarrow> warm_disco" where
  "tl_warm_disco_delta now cur = (case now of
     None \<Rightarrow> if cur \<noteq> None then TL_WARM_DISCO_GONE else TL_WARM_DISCO_SAME
   | Some k \<Rightarrow> if cur = None \<or> Some k \<noteq> cur then TL_WARM_DISCO_NEW else TL_WARM_DISCO_SAME)"

section \<open>The text forms are exact\<close>

definition cidr_ok :: "tl_warm_cidr_t \<Rightarrow> bool" where
  "cidr_ok c \<longleftrightarrow> length (c_ip c) = 4 \<and> tl_ipv4_usable (c_ip c) \<and> c_prefix c \<le> 32"

definition ep_ok :: "tl_warm_ep_t \<Rightarrow> bool" where
  "ep_ok e \<longleftrightarrow> length (e_ip e) = 4 \<and> tl_ipv4_usable (e_ip e) \<and> e_port e \<noteq> 0"

lemma dec_loop_exact: "dec_loop v s = Some w \<longleftrightarrow> list_all digit_byte s \<and> w = foldl (\<lambda>v c. v * 10 + (unat c - 48)) v s"
  by (induction s arbitrary: v) auto

lemma warm_dec_exact:
  assumes "mx < 100000"
  shows "tl_warm_dec s mx = Some v \<longleftrightarrow> s = udec v \<and> v \<le> mx"
proof
  assume a: "tl_warm_dec s mx = Some v"
  then have d: "s \<noteq> []" "\<not> (length s > 1 \<and> hd s = 48)" "dec_loop 0 s = Some v" "v \<le> mx" by (auto simp: tl_warm_dec_def split: if_splits option.splits)
  then have "canonical_dec s" "v = dec_of s" unfolding dec_loop_exact by (auto simp: canonical_dec_def dec_of_def)
  then show "s = udec v \<and> v \<le> mx" using d canonical_udec [of s] by simp
next
  assume a: "s = udec v \<and> v \<le> mx"
  have c: "canonical_dec (udec v)" "dec_of (udec v) = v" using udec_canonical by blast+
  have "length (udec v) \<le> 5" using length_udec [of v 5] a assms by simp
  moreover have "dec_loop 0 (udec v) = Some v" unfolding dec_loop_exact using c by (simp add: canonical_dec_def dec_of_def)
  ultimately show "tl_warm_dec s mx = Some v" using a c by (auto simp: tl_warm_dec_def canonical_dec_def)
qed

lemma split_at_exact: "split_at c s = Some (a, p) \<longleftrightarrow> s = a @ c # p \<and> c \<notin> set a"
proof (induction s arbitrary: a)
  case (Cons x s)
  show ?case using Cons.IH by (cases a) auto
qed simp

lemma udec_digits: "list_all digit_byte (udec n)"
  using udec_canonical [of n] by (simp add: canonical_dec_def)

lemma ipv4_str_bytes: "x \<in> set (tl_ipv4_str ip) \<Longrightarrow> digit_byte x \<or> x = 46"
  using udec_digits by (auto simp: tl_ipv4_str_def list_all_iff)

lemma length_udec8: "length (udec (unat (v :: u8))) \<le> 3"
  using length_udec [of "unat v" 3] u8_bound [of v] by (simp add: less_trans [of _ 256])

lemma u16_bound: "unat (v :: u16) < 65536"
  using unsigned_less [of v] by simp

lemma length_udec16: "length (udec (unat (v :: u16))) \<le> 5"
proof -
  have "unat v < 10 ^ 5" using u16_bound [of v] by simp
  then show ?thesis by (rule length_udec) simp
qed

lemma length_ipv4_str: "length (tl_ipv4_str ip) \<le> 15"
  using length_udec8 [of "ip ! 0"] length_udec8 [of "ip ! 1"] length_udec8 [of "ip ! 2"] length_udec8 [of "ip ! 3"] by (simp add: tl_ipv4_str_def)

lemma cidr_str_eq: "tl_warm_cidr_str c = tl_ipv4_str (c_ip c) @ [47] @ udec (unat (c_prefix c))"
  using length_ipv4_str [of "c_ip c"] length_udec8 [of "c_prefix c"] by (simp add: tl_warm_cidr_str_def TL_CIDR_STRLEN_def)

lemma ep_str_eq: "tl_warm_ep_str e = tl_ipv4_str (e_ip e) @ [58] @ udec (unat (e_port e))"
  using length_ipv4_str [of "e_ip e"] length_udec16 [of "e_port e"] by (simp add: tl_warm_ep_str_def TL_ENDPOINT_STRLEN_def)

lemma not_sep: "47 \<notin> set (tl_ipv4_str ip)" "58 \<notin> set (tl_ipv4_str ip)"
  using ipv4_str_bytes by (force simp: digit_byte_def)+

lemma cidr_parse_exact: "tl_warm_cidr_parse s = Some c \<longleftrightarrow> cidr_ok c \<and> s = tl_warm_cidr_str c"
proof
  assume "tl_warm_cidr_parse s = Some c"
  then obtain a p ip n where "split_at 47 s = Some (a, p)" "tl_ipv4_parse a = Some ip" "tl_ipv4_usable ip" "tl_warm_dec p 32 = Some n" "c = \<lparr>c_ip = ip, c_prefix = of_nat n\<rparr>"
    by (auto simp: tl_warm_cidr_parse_def split: if_splits option.splits)
  then show "cidr_ok c \<and> s = tl_warm_cidr_str c" unfolding split_at_exact ipv4_parse_exact warm_dec_exact [of 32, simplified]
    by (auto simp: cidr_ok_def cidr_str_eq unat_of_nat word_le_nat_alt)
next
  assume a: "cidr_ok c \<and> s = tl_warm_cidr_str c"
  have l: "length s < TL_CIDR_STRLEN" using a length_ipv4_str [of "c_ip c"] length_udec8 [of "c_prefix c"] by (simp add: cidr_str_eq TL_CIDR_STRLEN_def)
  have "split_at 47 s = Some (tl_ipv4_str (c_ip c), udec (unat (c_prefix c)))" using a not_sep by (simp add: split_at_exact cidr_str_eq)
  moreover have "tl_ipv4_parse (tl_ipv4_str (c_ip c)) = Some (c_ip c)" using a by (simp add: ipv4_parse_exact cidr_ok_def)
  moreover have "tl_warm_dec (udec (unat (c_prefix c))) 32 = Some (unat (c_prefix c))" using a by (simp add: warm_dec_exact cidr_ok_def word_le_nat_alt)
  ultimately show "tl_warm_cidr_parse s = Some c" using a l by (simp add: tl_warm_cidr_parse_def cidr_ok_def)
qed

lemma ep_parse_exact: "tl_warm_ep_parse s = Some e \<longleftrightarrow> ep_ok e \<and> s = tl_warm_ep_str e"
proof
  assume "tl_warm_ep_parse s = Some e"
  then obtain a p ip n where *: "split_at 58 s = Some (a, p)" "tl_ipv4_parse a = Some ip" "tl_ipv4_usable ip" "tl_warm_dec p 65535 = Some n" "n \<noteq> 0" "e = \<lparr>e_ip = ip, e_port = of_nat n\<rparr>"
    by (auto simp: tl_warm_ep_parse_def split: if_splits option.splits)
  then have n: "p = udec n" "n \<le> 65535" using warm_dec_exact [of 65535 p n] by simp_all
  then have "unat (of_nat n :: u16) = n" by (simp add: unat_of_nat)
  moreover from this have "of_nat n \<noteq> (0 :: u16)" using *(5) by (metis unat_0)
  ultimately show "ep_ok e \<and> s = tl_warm_ep_str e" using * n unfolding split_at_exact ipv4_parse_exact by (auto simp: ep_ok_def ep_str_eq)
next
  assume a: "ep_ok e \<and> s = tl_warm_ep_str e"
  have l: "length s < TL_ENDPOINT_STRLEN" using a length_ipv4_str [of "e_ip e"] length_udec16 [of "e_port e"] by (simp add: ep_str_eq TL_ENDPOINT_STRLEN_def)
  have "split_at 58 s = Some (tl_ipv4_str (e_ip e), udec (unat (e_port e)))" using a not_sep by (simp add: split_at_exact ep_str_eq)
  moreover have "tl_ipv4_parse (tl_ipv4_str (e_ip e)) = Some (e_ip e)" using a by (simp add: ipv4_parse_exact ep_ok_def)
  moreover have "tl_warm_dec (udec (unat (e_port e))) 65535 = Some (unat (e_port e))" using u16_bound [of "e_port e"] by (subst warm_dec_exact) auto
  ultimately show "tl_warm_ep_parse s = Some e" using a l by (simp add: tl_warm_ep_parse_def ep_ok_def unat_eq_zero)
qed

section \<open>The blob is exact\<close>

definition rec_ok :: "tl_warm_rec_t \<Rightarrow> bool" where
  "rec_ok r \<longleftrightarrow> tl_warm_rec_storable r \<and> length (wr_self_tag r) = 8 \<and> length (wr_ctl_tag r) = 8 \<and> length (wp_node_pub (wr_peer r)) = 32 \<and>
     length (wp_disco_pub (wr_peer r)) = 32 \<and> (\<not> wp_has_disco (wr_peer r) \<longrightarrow> wp_disco_pub (wr_peer r) = zero_key) \<and>
     list_all cidr_ok (wr_self r) \<and> list_all cidr_ok (wp_addr (wr_peer r)) \<and> list_all ep_ok (wp_ep (wr_peer r))"

lemma get_list_exact:
  assumes "\<And>b x. length b = w \<Longrightarrow> get b = Some x \<longleftrightarrow> ok x \<and> b = put x" "\<And>x. ok x \<Longrightarrow> length (put x) = w" "w * n \<le> length b"
  shows "get_list w get n b = Some (xs, r) \<longleftrightarrow> length xs = n \<and> list_all ok xs \<and> b = concat (map put xs) @ r"
  using assms(3)
proof (induction n arbitrary: b xs)
  case (Suc n)
  have l: "length (take w b) = w" "w * n \<le> length (drop w b)" using Suc.prems by auto
  have step: "get_list w get (Suc n) b = Some (xs, r) \<longleftrightarrow> (\<exists>x ys. get (take w b) = Some x \<and> get_list w get n (drop w b) = Some (ys, r) \<and> xs = x # ys)"
    by (auto split: option.splits)
  show ?case unfolding step assms(1) [OF l(1)] Suc.IH [OF l(2)]
  proof
    assume "\<exists>x ys. (ok x \<and> take w b = put x) \<and> (length ys = n \<and> list_all ok ys \<and> drop w b = concat (map put ys) @ r) \<and> xs = x # ys"
    then obtain x ys where x: "ok x" "take w b = put x" "length ys = n" "list_all ok ys" "drop w b = concat (map put ys) @ r" "xs = x # ys" by blast
    have "b = put x @ concat (map put ys) @ r" unfolding x(2) [symmetric] x(5) [symmetric] by simp
    then show "length xs = Suc n \<and> list_all ok xs \<and> b = concat (map put xs) @ r" using x by simp
  next
    assume a: "length xs = Suc n \<and> list_all ok xs \<and> b = concat (map put xs) @ r"
    then obtain x ys where "xs = x # ys" by (cases xs) auto
    then show "\<exists>x ys. (ok x \<and> take w b = put x) \<and> (length ys = n \<and> list_all ok ys \<and> drop w b = concat (map put ys) @ r) \<and> xs = x # ys"
      using a assms(2) [of x] by auto
  qed
qed auto

lemma get_cidr_exact: "length b = 5 \<Longrightarrow> tl_warm_get_cidr b = Some c \<longleftrightarrow> cidr_ok c \<and> b = tl_warm_put_cidr c"
proof -
  assume "length b = 5"
  then obtain x0 x1 x2 x3 x4 where b: "b = [x0, x1, x2, x3, x4]" by (auto simp: numeral_eq_Suc length_Suc_conv)
  show ?thesis
  proof
    assume "tl_warm_get_cidr b = Some c"
    then show "cidr_ok c \<and> b = tl_warm_put_cidr c" using b by (auto simp: tl_warm_get_cidr_def cidr_ok_def tl_warm_put_cidr_def tl_ipv4_usable_def not_less split: if_splits)
  next
    assume a: "cidr_ok c \<and> b = tl_warm_put_cidr c"
    then have "c_ip c = take 4 b" "c_prefix c = b ! 4" by (auto simp: cidr_ok_def tl_warm_put_cidr_def nth_append)
    then show "tl_warm_get_cidr b = Some c" using a b by (auto simp: tl_warm_get_cidr_def cidr_ok_def tl_ipv4_usable_def)
  qed
qed

lemma get_ep_exact: "length b = 6 \<Longrightarrow> get_ep b = Some e \<longleftrightarrow> ep_ok e \<and> b = put_ep e"
proof -
  assume l: "length b = 6"
  then obtain x0 x1 x2 x3 x4 x5 where b: "b = [x0, x1, x2, x3, x4, x5]" by (auto simp: numeral_eq_Suc length_Suc_conv)
  show ?thesis
  proof
    assume "get_ep b = Some e"
    then show "ep_ok e \<and> b = put_ep e" using b put_get_le16 [of "[x4, x5]"]
      by (auto simp: get_ep_def Let_def ep_ok_def put_ep_def tl_ipv4_usable_def split: if_splits)
  next
    assume a: "ep_ok e \<and> b = put_ep e"
    then have "e_ip e = take 4 b" "e_port e = get_le16 (drop 4 b)" by (auto simp: ep_ok_def put_ep_def get_put_le16)
    then show "get_ep b = Some e" using a b by (auto simp: get_ep_def Let_def ep_ok_def tl_ipv4_usable_def)
  qed
qed

lemma slice_step: "bytes_at k n b @ drop (k + n) b = drop k b"
  by (metis add.commute append_take_drop_id bytes_at_def drop_drop)

lemma slice_nth: "k < length b \<Longrightarrow> b ! k # drop (k + 1) b = drop k b"
  by (simp add: Cons_nth_drop_Suc)

lemma blob_split:
  assumes "97 \<le> length b"
  shows "b = [b ! 0] @ bytes_at 1 4 b @ bytes_at 5 8 b @ bytes_at 13 8 b @ [b ! 21, b ! 22, b ! 23, b ! 24] @ bytes_at 25 8 b @ bytes_at 33 32 b @ bytes_at 65 32 b @ drop 97 b"
proof -
  have "b ! 0 # drop 1 b = b" using assms by (cases b) auto
  then show ?thesis using slice_step [of 65 32 b] slice_step [of 33 32 b] slice_step [of 25 8 b] slice_nth [of 24 b] slice_nth [of 23 b] slice_nth [of 22 b] slice_nth [of 21 b]
    slice_step [of 13 8 b] slice_step [of 5 8 b] slice_step [of 1 4 b] assms by simp
qed

lemma blob_fields:
  assumes "length w = 4" "length s = 8" "length c = 8" "length i = 8" "length k = 32" "length d = 32"
    and b: "b = [v] @ w @ s @ c @ [n1, n2, n3, f] @ i @ k @ d @ rest"
  shows "b ! 0 = v" "bytes_at 1 4 b = w" "bytes_at 5 8 b = s" "bytes_at 13 8 b = c" "b ! 21 = n1" "b ! 22 = n2" "b ! 23 = n3" "b ! 24 = f"
    "bytes_at 25 8 b = i" "bytes_at 33 32 b = k" "bytes_at 65 32 b = d" "drop 97 b = rest"
  using assms by (simp_all add: bytes_at_def nth_append)

lemma flag_bit: "(x :: u8) AND NOT 1 = 0 \<Longrightarrow> x = (if x AND 1 = 1 then 1 else 0)"
proof -
  assume "x AND NOT 1 = 0"
  then have "x = x AND 1" by (metis and.commute bit.conj_disj_distrib bit.disj_cancel_right bit.conj_one_right or.right_neutral)
  moreover have "x AND 1 = of_bool (odd x)" by (simp add: and_one_eq mod_2_eq_odd)
  ultimately show ?thesis by (cases "odd x") auto
qed

definition warm_header :: "tl_warm_rec_t \<Rightarrow> bytes" where
  "warm_header r = [TL_WARM_REC_V1] @ le_bytes 4 (wr_written r) @ wr_self_tag r @ wr_ctl_tag r @
       [of_nat (length (wr_self r)), of_nat (length (wp_addr (wr_peer r))), of_nat (length (wp_ep (wr_peer r))), if wp_has_disco (wr_peer r) then 1 else 0] @
       le_bytes 8 (wp_id (wr_peer r)) @ wp_node_pub (wr_peer r) @ wp_disco_pub (wr_peer r)"

definition warm_body :: "tl_warm_rec_t \<Rightarrow> bytes" where
  "warm_body r = concat (map tl_warm_put_cidr (wr_self r)) @ concat (map tl_warm_put_cidr (wp_addr (wr_peer r))) @ concat (map put_ep (wp_ep (wr_peer r)))"

lemma length_puts: "cidr_ok c \<Longrightarrow> length (tl_warm_put_cidr c) = 5" "ep_ok e \<Longrightarrow> length (put_ep e) = 6"
  by (simp_all add: cidr_ok_def ep_ok_def tl_warm_put_cidr_def put_ep_def)

lemma length_concat_puts: "list_all cidr_ok cs \<Longrightarrow> length (concat (map tl_warm_put_cidr cs)) = 5 * length cs" "list_all ep_ok es \<Longrightarrow> length (concat (map put_ep es)) = 6 * length es"
  by (induction cs, auto simp: length_puts) (induction es, auto simp: length_puts)

lemmas warm_sizes = TL_WARM_BLOB_MIN_def TL_WARM_BLOB_MAX_def TL_WARM_HDR_def TL_WARM_CIDR_LEN_def TL_WARM_EP_LEN_def TL_MAX_PEER_ADDRESSES_def TL_MAX_PEER_ENDPOINTS_def TL_WARM_TAG_LEN_def TINYLINK_KEY_LEN_def

lemma encode_eq:
  assumes "rec_ok r" "TL_WARM_BLOB_MAX \<le> cap"
  shows "tl_warm_encode r cap = Some (warm_header r @ warm_body r)"
  using assms by (auto simp: tl_warm_encode_def rec_ok_def warm_header_def warm_body_def tl_warm_rec_storable_def warm_sizes zero_key_def)

lemma length_warm_body: "rec_ok r \<Longrightarrow> length (warm_body r) = 5 * (length (wr_self r) + length (wp_addr (wr_peer r))) + 6 * length (wp_ep (wr_peer r))"
  by (simp add: warm_body_def rec_ok_def length_concat_puts)

lemma decode_eq:
  assumes "tl_warm_decode b = Some r"
  shows "rec_ok r \<and> b = warm_header r @ warm_body r"
proof -
  define ns na ne where "ns = unat (b ! 21)" and "na = unat (b ! 22)" and "ne = unat (b ! 23)"
  define f where "f = (b ! 24 AND 1 = 1)"
  note d = assms [unfolded tl_warm_decode_def Let_def warm_sizes, folded f_def ns_def na_def ne_def]
  have g: "97 \<le> length b" "b ! 0 = TL_WARM_REC_V1" "1 \<le> ns" "ns \<le> 2" "na \<le> 2" "1 \<le> ne" "ne \<le> 4" "b ! 24 AND NOT 1 = 0"
      "length b = 97 + 5 * (ns + na) + 6 * ne" "\<not> f \<longrightarrow> bytes_at 65 32 b = zero_key"
    using d by (auto split: if_splits)
  have "(case get_list 5 tl_warm_get_cidr ns (drop 97 b) of None \<Rightarrow> None | Some (self, b1) \<Rightarrow>
       (case get_list 5 tl_warm_get_cidr na b1 of None \<Rightarrow> None | Some (addr, b2) \<Rightarrow>
         (case get_list 6 get_ep ne b2 of None \<Rightarrow> None | Some (ep, b3) \<Rightarrow>
           Some \<lparr>wr_written = le_word (bytes_at 1 4 b), wr_self_tag = bytes_at 5 8 b, wr_ctl_tag = bytes_at 13 8 b, wr_self = self,
             wr_peer = \<lparr>wp_id = le_word (bytes_at 25 8 b), wp_node_pub = bytes_at 33 32 b, wp_disco_pub = bytes_at 65 32 b, wp_has_disco = f, wp_addr = addr, wp_ep = ep\<rparr>\<rparr>))) = Some r"
    using d by (simp only: split: if_splits) simp_all
  then obtain self b1 addr b2 ep b3 where l: "get_list 5 tl_warm_get_cidr ns (drop 97 b) = Some (self, b1)" "get_list 5 tl_warm_get_cidr na b1 = Some (addr, b2)"
      "get_list 6 get_ep ne b2 = Some (ep, b3)"
    and r: "r = \<lparr>wr_written = le_word (bytes_at 1 4 b), wr_self_tag = bytes_at 5 8 b, wr_ctl_tag = bytes_at 13 8 b, wr_self = self,
             wr_peer = \<lparr>wp_id = le_word (bytes_at 25 8 b), wp_node_pub = bytes_at 33 32 b, wp_disco_pub = bytes_at 65 32 b, wp_has_disco = f, wp_addr = addr, wp_ep = ep\<rparr>\<rparr>"
    by (auto split: option.splits)
  have s: "length self = ns" "list_all cidr_ok self" "drop 97 b = concat (map tl_warm_put_cidr self) @ b1"
    using l(1) g get_list_exact [of 5 tl_warm_get_cidr cidr_ok tl_warm_put_cidr ns "drop 97 b" self b1, OF get_cidr_exact length_puts(1)] by auto
  have b1: "length b1 = 5 * na + 6 * ne" using s g length_concat_puts(1) [OF s(2)] length_drop [of 97 b] by simp
  have a: "length addr = na" "list_all cidr_ok addr" "b1 = concat (map tl_warm_put_cidr addr) @ b2"
    using l(2) b1 get_list_exact [of 5 tl_warm_get_cidr cidr_ok tl_warm_put_cidr na b1 addr b2, OF get_cidr_exact length_puts(1)] by auto
  have b2: "length b2 = 6 * ne" using a b1 length_concat_puts(1) [OF a(2)] by simp
  have e: "length ep = ne" "list_all ep_ok ep" "b2 = concat (map put_ep ep) @ b3"
    using l(3) b2 get_list_exact [of 6 get_ep ep_ok put_ep ne b2 ep b3, OF get_ep_exact length_puts(2)] by auto
  then have "b3 = []" using b2 length_concat_puts(2) [OF e(2)] by simp
  then have body: "drop 97 b = warm_body r" using s a e by (simp add: warm_body_def r)
  have lens: "length (bytes_at 1 4 b) = 4" "length (bytes_at 25 8 b) = 8" using g(1) by simp_all
  have w: "le_bytes 4 (le_word (bytes_at 1 4 b) :: u32) = bytes_at 1 4 b" "le_bytes 8 (le_word (bytes_at 25 8 b) :: u64) = bytes_at 25 8 b"
    using le_bytes_le_word [of "bytes_at 1 4 b", where ?'a = 32] le_bytes_le_word [of "bytes_at 25 8 b", where ?'a = 64] lens by auto
  have "b = warm_header r @ drop 97 b" unfolding warm_header_def
    using blob_split [OF g(1)] g(2) flag_bit [OF g(8)] w s(1) a(1) e(1) by (simp add: r ns_def na_def ne_def f_def)
  moreover have "rec_ok r" using g s a e by (auto simp: rec_ok_def r tl_warm_rec_storable_def warm_sizes)
  ultimately show ?thesis using body by simp
qed

lemma decode_encoded:
  assumes "rec_ok r"
  shows "tl_warm_decode (warm_header r @ warm_body r) = Some r"
proof -
  define b where "b = warm_header r @ warm_body r"
  let ?p = "wr_peer r"
  have ok: "length (wr_self_tag r) = 8" "length (wr_ctl_tag r) = 8" "length (wp_node_pub ?p) = 32" "length (wp_disco_pub ?p) = 32"
      "\<not> wp_has_disco ?p \<longrightarrow> wp_disco_pub ?p = zero_key" "list_all cidr_ok (wr_self r)" "list_all cidr_ok (wp_addr ?p)" "list_all ep_ok (wp_ep ?p)"
    and n: "1 \<le> length (wr_self r)" "length (wr_self r) \<le> 2" "1 \<le> length (wp_ep ?p)" "length (wp_ep ?p) \<le> 4" "length (wp_addr ?p) \<le> 2"
    using assms by (auto simp: rec_ok_def tl_warm_rec_storable_def warm_sizes)
  have lay: "b = [TL_WARM_REC_V1] @ le_bytes 4 (wr_written r) @ wr_self_tag r @ wr_ctl_tag r @ [of_nat (length (wr_self r)), of_nat (length (wp_addr ?p)), of_nat (length (wp_ep ?p)),
      if wp_has_disco ?p then 1 else 0] @ le_bytes 8 (wp_id ?p) @ wp_node_pub ?p @ wp_disco_pub ?p @ warm_body r" by (simp add: b_def warm_header_def)
  note F = blob_fields [OF length_le_bytes ok(1,2) length_le_bytes ok(3,4) lay]
  have u: "unat (b ! 21) = length (wr_self r)" "unat (b ! 22) = length (wp_addr ?p)" "unat (b ! 23) = length (wp_ep ?p)" using F n by (auto simp: unat_of_nat)
  have len: "length b = 97 + 5 * (length (wr_self r) + length (wp_addr ?p)) + 6 * length (wp_ep ?p)" using lay length_warm_body [OF assms] ok by simp
  have body: "warm_body r = concat (map tl_warm_put_cidr (wr_self r)) @ concat (map tl_warm_put_cidr (wp_addr ?p)) @ concat (map put_ep (wp_ep ?p)) @ []" by (simp add: warm_body_def)
  define b1 b2 where "b1 = concat (map tl_warm_put_cidr (wp_addr ?p)) @ concat (map put_ep (wp_ep ?p))" and "b2 = concat (map put_ep (wp_ep ?p))"
  note L = length_concat_puts(1) [OF ok(6)] length_concat_puts(1) [OF ok(7)] length_concat_puts(2) [OF ok(8)]
  have g1: "get_list 5 tl_warm_get_cidr (length (wr_self r)) (warm_body r) = Some (wr_self r, b1)"
    using ok(6) L by (subst get_list_exact [of 5 tl_warm_get_cidr cidr_ok tl_warm_put_cidr, OF get_cidr_exact length_puts(1)]) (auto simp: warm_body_def b1_def)
  have g2: "get_list 5 tl_warm_get_cidr (length (wp_addr ?p)) b1 = Some (wp_addr ?p, b2)"
    using ok(7) L by (subst get_list_exact [of 5 tl_warm_get_cidr cidr_ok tl_warm_put_cidr, OF get_cidr_exact length_puts(1)]) (auto simp: b1_def b2_def)
  have g3: "get_list 6 get_ep (length (wp_ep ?p)) b2 = Some (wp_ep ?p, [])"
    using ok(8) L by (subst get_list_exact [of 6 get_ep ep_ok put_ep, OF get_ep_exact length_puts(2)]) (auto simp: b2_def)
  have fl: "b ! 24 AND NOT 1 = 0" "(b ! 24 AND 1 = 1) = wp_has_disco ?p" using F(8) by auto
  have "tl_warm_decode b = Some r"
    unfolding tl_warm_decode_def Let_def warm_sizes u fl(2) F(12) F(1-4) F(9-11)
    using g1 g2 g3 fl(1) n len ok(5) by (auto simp: warm_sizes)
  then show ?thesis by (simp add: b_def)
qed

lemma map_filter_ok: "list_all (\<lambda>x. f x \<noteq> None) xs \<Longrightarrow> length (List.map_filter f xs) = length xs \<and> map f xs = map Some (List.map_filter f xs)"
  by (induction xs) (auto simp: map_filter_simps)

lemma map_filter_ran: "(\<And>x y. f x = Some y \<Longrightarrow> P y) \<Longrightarrow> list_all P (List.map_filter f xs)"
  by (induction xs) (auto simp: map_filter_simps split: option.split)

lemma rec_build_ok:
  assumes "tl_warm_rec_storable (tl_warm_rec_build self p sp cp)" "length (p_node_pub p) = 32" "length (p_disco_pub p) = 32" "8 \<le> length sp" "8 \<le> length cp"
  shows "rec_ok ((tl_warm_rec_build self p sp cp)\<lparr>wr_written := t\<rparr>)"
proof -
  have "list_all cidr_ok (wr_self (tl_warm_rec_build self p sp cp))"
    using map_filter_ran [of tl_warm_cidr_parse cidr_ok] cidr_parse_exact by (auto simp: tl_warm_rec_build_def split: list.split option.split)
  moreover have "list_all cidr_ok (wp_addr (tl_warm_peer_from p))" "list_all ep_ok (wp_ep (tl_warm_peer_from p))"
    using map_filter_ran [of tl_warm_cidr_parse cidr_ok] map_filter_ran [of tl_warm_ep_parse ep_ok] cidr_parse_exact ep_parse_exact by (auto simp: tl_warm_peer_from_def)
  moreover have "wr_peer (tl_warm_rec_build self p sp cp) = tl_warm_peer_from p" by (simp add: tl_warm_rec_build_def)
  ultimately show ?thesis using assms
    by (auto simp: rec_ok_def tl_warm_rec_storable_def) (auto simp: tl_warm_rec_build_def tl_warm_peer_from_def warm_sizes zero_key_def)
qed

lemma texts_back:
  assumes "list_all (\<lambda>s. parse s \<noteq> None) xs" "\<And>s c. parse s = Some c \<Longrightarrow> s = str c"
  shows "map str (List.map_filter parse xs) = xs"
  using assms by (induction xs) (auto simp: map_filter_simps)

lemma peer_back:
  assumes "length (p_addresses p) \<le> 2" "length (p_endpoints p) \<le> 4" "list_all (\<lambda>s. tl_warm_cidr_parse s \<noteq> None) (p_addresses p)"
    "list_all (\<lambda>s. tl_warm_ep_parse s \<noteq> None) (p_endpoints p)" "p_has_disco_pub p \<or> p_disco_pub p = zero_key"
  shows "tl_warm_peer_to (tl_warm_peer_from p) = p\<lparr>p_home_derp := 0\<rparr>"
proof -
  have "length (List.map_filter tl_warm_cidr_parse (p_addresses p)) \<le> 2" "length (List.map_filter tl_warm_ep_parse (p_endpoints p)) \<le> 4"
    using map_filter_ok [OF assms(3)] map_filter_ok [OF assms(4)] assms(1,2) by auto
  moreover have "map tl_warm_cidr_str (List.map_filter tl_warm_cidr_parse (p_addresses p)) = p_addresses p"
    "map tl_warm_ep_str (List.map_filter tl_warm_ep_parse (p_endpoints p)) = p_endpoints p"
    using texts_back [OF assms(3), of tl_warm_cidr_str] texts_back [OF assms(4), of tl_warm_ep_str] cidr_parse_exact ep_parse_exact by blast+
  ultimately show ?thesis using assms(1,2,5) by (auto simp: tl_warm_peer_to_def tl_warm_peer_from_def warm_sizes)
qed

text \<open>C27: The warm record brings back the netmap.  A record built from a netmap's own addresses and target peer, when it is
  storable at all, is encoded in at most 141 bytes and read back as it was; from it the warm start seeds the
  data plane with the very texts the netmap had (all in Go's canonical form, the list of each not longer
  than its table), so it passes \<open>wg_dataplane_start\<close> what the cold start would have passed.  Decoding is strict: a
  blob reads as a record only if it is the encoding of that record and every address, prefix,
  port, count and flag in it is valid; any other blob reads as no record.\<close>

theorem warm_record_roundtrip:
  fixes t :: u32
  assumes "tl_warm_rec_storable (tl_warm_rec_build self p sp cp)" "length (p_node_pub p) = 32" "length (p_disco_pub p) = 32" "8 \<le> length sp" "8 \<le> length cp"
  defines "r \<equiv> (tl_warm_rec_build self p sp cp)\<lparr>wr_written := t\<rparr>"
  shows "(\<exists>b. tl_warm_encode r TL_WARM_BLOB_MAX = Some b \<and> length b \<le> 141 \<and> tl_warm_decode b = Some r) \<and>
    (length self \<le> 2 \<longrightarrow> length (p_addresses p) \<le> 2 \<longrightarrow> length (p_endpoints p) \<le> 4 \<longrightarrow> p_has_disco_pub p \<or> p_disco_pub p = zero_key \<longrightarrow>
      list_all (\<lambda>s. tl_warm_cidr_parse s \<noteq> None) (self @ p_addresses p) \<longrightarrow> list_all (\<lambda>s. tl_warm_ep_parse s \<noteq> None) (p_endpoints p) \<longrightarrow>
        tl_warm_seed r = \<lparr>t_self = self, t_peers = [p\<lparr>p_home_derp := 0\<rparr>]\<rparr>) \<and>
    (\<forall>b1 r1. tl_warm_decode b1 = Some r1 \<longleftrightarrow> rec_ok r1 \<and> tl_warm_encode r1 TL_WARM_BLOB_MAX = Some b1)"
proof (intro conjI impI allI)
  have ok: "rec_ok r" unfolding r_def using rec_build_ok [OF assms(1-5)] .
  have e: "tl_warm_encode r TL_WARM_BLOB_MAX = Some (warm_header r @ warm_body r)" by (rule encode_eq [OF ok]) simp
  have "length (warm_header r) = 97" using ok by (simp add: warm_header_def rec_ok_def)
  then have "length (warm_header r @ warm_body r) \<le> 141" using length_warm_body [OF ok] ok by (simp add: rec_ok_def tl_warm_rec_storable_def warm_sizes)
  then show "\<exists>b. tl_warm_encode r TL_WARM_BLOB_MAX = Some b \<and> length b \<le> 141 \<and> tl_warm_decode b = Some r" using e decode_encoded [OF ok] by blast
next
  assume a: "length self \<le> 2" "length (p_addresses p) \<le> 2" "length (p_endpoints p) \<le> 4" "p_has_disco_pub p \<or> p_disco_pub p = zero_key"
    "list_all (\<lambda>s. tl_warm_cidr_parse s \<noteq> None) (self @ p_addresses p)" "list_all (\<lambda>s. tl_warm_ep_parse s \<noteq> None) (p_endpoints p)"
  have s: "wr_self (tl_warm_rec_build self p sp cp) = List.map_filter tl_warm_cidr_parse self"
  proof (cases self)
    case (Cons x xs)
    then obtain c where "tl_warm_cidr_parse x = Some c" using a(5) by auto
    then show ?thesis using Cons a(1) by (simp add: tl_warm_rec_build_def map_filter_simps warm_sizes)
  qed (simp add: tl_warm_rec_build_def map_filter_simps)
  have p: "list_all (\<lambda>s. tl_warm_cidr_parse s \<noteq> None) self" "list_all (\<lambda>s. tl_warm_cidr_parse s \<noteq> None) (p_addresses p)" using a(5) by simp_all
  have l: "length (List.map_filter tl_warm_cidr_parse self) \<le> 2" using map_filter_ok [OF p(1)] a(1) by simp
  have "map tl_warm_cidr_str (List.map_filter tl_warm_cidr_parse self) = self" using cidr_parse_exact by (intro texts_back [OF p(1)]) blast
  moreover have "tl_warm_peer_to (wr_peer (tl_warm_rec_build self p sp cp)) = p\<lparr>p_home_derp := 0\<rparr>" using peer_back [OF a(2,3) p(2) a(6,4)] by (simp add: tl_warm_rec_build_def)
  ultimately show "tl_warm_seed r = \<lparr>t_self = self, t_peers = [p\<lparr>p_home_derp := 0\<rparr>]\<rparr>" using s l by (simp add: tl_warm_seed_def r_def warm_sizes)
next
  fix b1 r1
  have "rec_ok r1 \<Longrightarrow> tl_warm_encode r1 TL_WARM_BLOB_MAX = Some (warm_header r1 @ warm_body r1)" by (rule encode_eq) simp_all
  then show "tl_warm_decode b1 = Some r1 \<longleftrightarrow> rec_ok r1 \<and> tl_warm_encode r1 TL_WARM_BLOB_MAX = Some b1"
    using decode_eq [of b1 r1] decode_encoded [of r1] by auto
qed

theorem warm_record_roundtrip_witness:
  "\<exists>b. tl_warm_encode ((tl_warm_rec_build [ascii ''100.64.0.1/32''] \<lparr>p_id = 7, p_node_pub = replicate 32 1, p_disco_pub = zero_key, p_has_disco_pub = False, p_home_derp = 16,
      p_endpoints = [ascii ''198.51.100.7:41641''], p_addresses = [ascii ''100.64.0.2/32'']\<rparr> (replicate 32 3) (replicate 32 4))\<lparr>wr_written := 5\<rparr>) TL_WARM_BLOB_MAX = Some b \<and> length b \<le> 141"
proof -
  let ?p = "\<lparr>p_id = 7, p_node_pub = replicate 32 1, p_disco_pub = zero_key, p_has_disco_pub = False, p_home_derp = 16,
      p_endpoints = [ascii ''198.51.100.7:41641''], p_addresses = [ascii ''100.64.0.2/32'']\<rparr>"
  have ep: "tl_warm_ep_parse (ascii ''198.51.100.7:41641'') = Some \<lparr>e_ip = [198, 51, 100, 7], e_port = 41641\<rparr>"
    by (simp add: ep_parse_exact ep_ok_def ep_str_eq tl_ipv4_usable_def tl_ipv4_str_def udec.simps ascii_def)
  have c: "tl_warm_cidr_parse (ascii ''100.64.0.1/32'') = Some \<lparr>c_ip = [100, 64, 0, 1], c_prefix = 32\<rparr>" "tl_warm_cidr_parse (ascii ''100.64.0.2/32'') = Some \<lparr>c_ip = [100, 64, 0, 2], c_prefix = 32\<rparr>"
    by (simp_all add: cidr_parse_exact cidr_ok_def cidr_str_eq tl_ipv4_usable_def tl_ipv4_str_def udec.simps ascii_def)
  have "tl_warm_rec_storable (tl_warm_rec_build [ascii ''100.64.0.1/32''] ?p (replicate 32 3) (replicate 32 4))"
    by (simp add: tl_warm_rec_storable_def tl_warm_rec_build_def tl_warm_peer_from_def c ep map_filter_simps warm_sizes)
  from warm_record_roundtrip [OF this, of 5] show ?thesis by (auto simp: zero_key_def TINYLINK_KEY_LEN_def)
qed

section \<open>What a difference means\<close>

lemma d_if_and: "d_if p b AND m = d_if p (b AND m)"
  by (simp add: d_if_def)

lemma or_zero: "(x :: u32) OR y = 0 \<longleftrightarrow> x = 0 \<and> y = 0"
  by (metis or_eq_0_iff)

lemma or_and: "(x OR y) AND m = (x AND m) OR (y AND (m :: u32))"
  by (simp add: bit.conj_disj_distrib2)

lemmas warm_bits = TL_WARM_D_PEER_def TL_WARM_D_KEY_def TL_WARM_D_DISCO_def TL_WARM_D_EP_def TL_WARM_D_ADDR_def TL_WARM_D_SELF0_def TL_WARM_D_SELF_def TL_WARM_D_IDENT_def
  TL_WARM_RESTART_def TL_WARM_HARD_def

lemma d_if_zero: "d_if p b = 0 \<longleftrightarrow> \<not> p \<or> b = 0"
  by (simp add: d_if_def)

lemma same_entries: "length xs = length ys \<Longrightarrow> \<not> entries_differ xs ys \<longleftrightarrow> xs = ys"
  by (induction xs ys rule: list_induct2) (auto simp: entries_differ_def)

lemma list_same: "length xs = length ys \<and> \<not> entries_differ xs ys \<longleftrightarrow> xs = ys"
  using same_entries [of xs ys] by auto

lemma diff_restart:
  "tl_warm_diff was now AND TL_WARM_RESTART = 0 \<longleftrightarrow>
    wr_self_tag was = wr_self_tag now \<and> wr_ctl_tag was = wr_ctl_tag now \<and> tl_warm_same_peer (wr_peer was) (wr_peer now) \<and>
    (wr_self was = []) = (wr_self now = []) \<and> (wr_self was \<noteq> [] \<longrightarrow> hd (wr_self was) = hd (wr_self now))"
  unfolding tl_warm_diff_def Let_def or_and or_zero d_if_and d_if_zero by (auto simp: warm_bits)

lemma diff_zero:
  "tl_warm_diff was now = 0 \<longleftrightarrow>
    wr_self_tag was = wr_self_tag now \<and> wr_ctl_tag was = wr_ctl_tag now \<and> wr_self was = wr_self now \<and>
    tl_warm_same_peer (wr_peer was) (wr_peer now) \<and> wp_node_pub (wr_peer was) = wp_node_pub (wr_peer now) \<and>
    wp_has_disco (wr_peer was) = wp_has_disco (wr_peer now) \<and> (wp_has_disco (wr_peer was) \<longrightarrow> wp_disco_pub (wr_peer was) = wp_disco_pub (wr_peer now)) \<and>
    wp_addr (wr_peer was) = wp_addr (wr_peer now) \<and> wp_ep (wr_peer was) = wp_ep (wr_peer now)"
proof -
  have self: "((wr_self was = []) = (wr_self now = []) \<and> (wr_self was \<noteq> [] \<longrightarrow> hd (wr_self was) = hd (wr_self now))) \<and> length (wr_self was) = length (wr_self now) \<and>
      \<not> entries_differ (drop 1 (wr_self was)) (drop 1 (wr_self now)) \<longleftrightarrow> wr_self was = wr_self now"
    using same_entries [of "tl (wr_self was)" "tl (wr_self now)"] by (cases "wr_self was"; cases "wr_self now") auto
  have nz: "TL_WARM_D_IDENT \<noteq> 0" "TL_WARM_D_SELF0 OR TL_WARM_D_SELF \<noteq> 0" "TL_WARM_D_SELF \<noteq> 0" "TL_WARM_D_PEER \<noteq> 0" "TL_WARM_D_KEY \<noteq> 0" "TL_WARM_D_DISCO \<noteq> 0"
    "TL_WARM_D_ADDR \<noteq> 0" "TL_WARM_D_EP \<noteq> 0" by (simp_all add: warm_bits)
  show ?thesis using self list_same [of "wp_addr (wr_peer was)" "wp_addr (wr_peer now)"] list_same [of "wp_ep (wr_peer was)" "wp_ep (wr_peer now)"]
    unfolding tl_warm_diff_def Let_def or_zero d_if_zero by (simp only: nz simp_thms de_Morgan_disj de_Morgan_conj not_not) blast
qed

end
