(* ===== verification/TL_Date.thy ===== *)
theory TL_Date
  imports TL_Prelude
begin

text \<open>
  \<open>tl_date.h\<close>: the RFC 3339 and IMF-fixdate parsers of the control plane's timestamps, and the day count under them.

  The parsers read the text from its front; where the C advances an index, the model passes on the rest of the text.  The fields fit
  \<open>unsigned\<close> (at most four digits), the results \<open>int64_t\<close>.  On top of them \<open>h2_retry_after.h\<close>: what the control plane's
  Retry-After means and how long the driver waits.
\<close>

section \<open>The day count\<close>

text \<open>C division rounds towards zero.\<close>

definition tl_days_from_civil :: "int \<Rightarrow> int \<Rightarrow> int \<Rightarrow> int" where
  "tl_days_from_civil y0 m d =
    (let y = (if m \<le> 2 then y0 - 1 else y0);
         era = (if y \<ge> 0 then y div 400 else - ((399 - y) div 400));
         yoe = y - era * 400;
         doy = (153 * (if m > 2 then m - 3 else m + 9) + 2) div 5 + d - 1;
         doe = yoe * 365 + yoe div 4 - yoe div 100 + doy
     in era * 146097 + doe - 719468)"

section \<open>The parsers\<close>

definition is_digit :: "char \<Rightarrow> bool" where "is_digit c \<longleftrightarrow> 48 \<le> (of_char c :: nat) \<and> (of_char c :: nat) \<le> 57"
definition digit_val :: "char \<Rightarrow> int" where "digit_val c = of_char c - 48"

fun tl_date_digits :: "nat \<Rightarrow> int \<Rightarrow> string \<Rightarrow> (int \<times> string) option" where
  "tl_date_digits 0 v s = Some (v, s)"
| "tl_date_digits (Suc n) v [] = None"
| "tl_date_digits (Suc n) v (c # s) = (if is_digit c then tl_date_digits n (v * 10 + digit_val c) s else None)"

definition tl_date_lit :: "char \<Rightarrow> string \<Rightarrow> string option" where
  "tl_date_lit c s = (case s of [] \<Rightarrow> None | x # r \<Rightarrow> if x = c then Some r else None)"

definition tl_date_fields_ok :: "int \<Rightarrow> int \<Rightarrow> int \<Rightarrow> int \<Rightarrow> int \<Rightarrow> bool" where
  "tl_date_fields_ok mo d h mi se \<longleftrightarrow> 1 \<le> mo \<and> mo \<le> 12 \<and> 1 \<le> d \<and> d \<le> 31 \<and> h \<le> 23 \<and> mi \<le> 59 \<and> se \<le> 60"

text \<open>Three fields with two separators, the shape of both the date and the time.\<close>

definition three_fields :: "nat \<Rightarrow> char \<Rightarrow> string \<Rightarrow> (int \<times> int \<times> int \<times> string) option" where
  "three_fields w c s = (case tl_date_digits w 0 s of None \<Rightarrow> None | Some (a, s1) \<Rightarrow>
     (case tl_date_lit c s1 of None \<Rightarrow> None | Some s2 \<Rightarrow>
     (case tl_date_digits 2 0 s2 of None \<Rightarrow> None | Some (b, s3) \<Rightarrow>
     (case tl_date_lit c s3 of None \<Rightarrow> None | Some s4 \<Rightarrow>
     (case tl_date_digits 2 0 s4 of None \<Rightarrow> None | Some (e, s5) \<Rightarrow> Some (a, b, e, s5))))))"

definition skip_fraction :: "string \<Rightarrow> string option" where
  "skip_fraction s = (case s of [] \<Rightarrow> Some s | x # r \<Rightarrow>
     if x \<noteq> CHR ''.'' then Some s
     else if r = [] \<or> \<not> is_digit (hd r) then None else Some (dropWhile is_digit r))"

definition zone_offset :: "string \<Rightarrow> (int \<times> string) option" where
  "zone_offset s = (case s of [] \<Rightarrow> None | x # r \<Rightarrow>
     if x = CHR ''Z'' \<or> x = CHR ''z'' then Some (0, r)
     else if x = CHR ''+'' \<or> x = CHR ''-'' then
       (case tl_date_digits 2 0 r of None \<Rightarrow> None | Some (oh, s1) \<Rightarrow>
       (case tl_date_lit (CHR '':'') s1 of None \<Rightarrow> None | Some s2 \<Rightarrow>
       (case tl_date_digits 2 0 s2 of None \<Rightarrow> None | Some (om, s3) \<Rightarrow>
          if oh > 23 \<or> om > 59 then None else Some ((if x = CHR ''-'' then -1 else 1) * (oh * 3600 + om * 60), s3))))
     else None)"

definition tl_parse_rfc3339 :: "string \<Rightarrow> int option" where
  "tl_parse_rfc3339 s = (case three_fields 4 (CHR ''-'') s of None \<Rightarrow> None | Some (y, mo, d, s1) \<Rightarrow>
     (case s1 of [] \<Rightarrow> None | t # s2 \<Rightarrow> if t \<noteq> CHR ''T'' \<and> t \<noteq> CHR ''t'' then None else
     (case three_fields 2 (CHR '':'') s2 of None \<Rightarrow> None | Some (h, mi, se, s3) \<Rightarrow>
       if \<not> tl_date_fields_ok mo d h mi se then None else
     (case skip_fraction s3 of None \<Rightarrow> None | Some s4 \<Rightarrow>
     (case zone_offset s4 of None \<Rightarrow> None | Some (off, s5) \<Rightarrow>
       if s5 \<noteq> [] then None else Some (tl_days_from_civil y mo d * 86400 + (h * 3600 + mi * 60 + se) - off))))))"

definition k_days :: "string list" where "k_days = [''Mon'', ''Tue'', ''Wed'', ''Thu'', ''Fri'', ''Sat'', ''Sun'']"
definition k_mons :: "string list" where
  "k_mons = [''Jan'', ''Feb'', ''Mar'', ''Apr'', ''May'', ''Jun'', ''Jul'', ''Aug'', ''Sep'', ''Oct'', ''Nov'', ''Dec'']"

text \<open>The index (from 1) of the month name at the front, 0 for none.\<close>

fun month_from :: "nat \<Rightarrow> string list \<Rightarrow> string \<Rightarrow> nat" where
  "month_from k [] s = 0"
| "month_from k (x # xs) s = (if take 3 s = x then k else month_from (k + 1) xs s)"

definition tl_parse_imf_fixdate :: "string \<Rightarrow> int option" where
  "tl_parse_imf_fixdate s =
    (if length s \<noteq> 29 then None
     else if take 3 s \<notin> set k_days \<or> s ! 3 \<noteq> CHR '','' \<or> s ! 4 \<noteq> CHR '' '' then None
     else (case tl_date_digits 2 0 (drop 5 s) of None \<Rightarrow> None | Some (d, s1) \<Rightarrow>
     (case tl_date_lit (CHR '' '') s1 of None \<Rightarrow> None | Some s2 \<Rightarrow>
       (let mo = month_from 1 k_mons s2 in if mo = 0 then None else
     (case tl_date_lit (CHR '' '') (drop 3 s2) of None \<Rightarrow> None | Some s3 \<Rightarrow>
     (case tl_date_digits 4 0 s3 of None \<Rightarrow> None | Some (y, s4) \<Rightarrow>
     (case tl_date_lit (CHR '' '') s4 of None \<Rightarrow> None | Some s5 \<Rightarrow>
     (case three_fields 2 (CHR '':'') s5 of None \<Rightarrow> None | Some (h, mi, se, s6) \<Rightarrow>
       if take 4 s6 \<noteq> '' GMT'' then None
       else if \<not> tl_date_fields_ok (int mo) d h mi se then None
       else Some (tl_days_from_civil y (int mo) d * 86400 + (h * 3600 + mi * 60 + se))))))))))"

section \<open>The day count is the calendar's\<close>

definition leap_year :: "int \<Rightarrow> bool" where "leap_year y \<longleftrightarrow> (4 dvd y \<and> \<not> 100 dvd y) \<or> 400 dvd y"

definition days_in_month :: "int \<Rightarrow> int \<Rightarrow> int" where
  "days_in_month y m = (if m = 2 then (if leap_year y then 29 else 28) else if m \<in> {4, 6, 9, 11} then 30 else 31)"

definition civil_date :: "int \<Rightarrow> int \<Rightarrow> int \<Rightarrow> bool" where
  "civil_date y m d \<longleftrightarrow> 1 \<le> m \<and> m \<le> 12 \<and> 1 \<le> d \<and> d \<le> days_in_month y m"

definition next_day :: "int \<Rightarrow> int \<Rightarrow> int \<Rightarrow> int \<times> int \<times> int" where
  "next_day y m d = (if d < days_in_month y m then (y, m, d + 1) else if m < 12 then (y, m + 1, 1) else (y + 1, 1, 1))"

text \<open>The days before 1 March of year \<open>y\<close>.\<close>

definition march_days :: "int \<Rightarrow> int" where "march_days y = 365 * y + y div 4 - y div 100 + y div 400"

lemma era_floor: "(if y \<ge> 0 then y div 400 else - ((399 - y) div 400)) = y div (400 :: int)"
proof (cases "y \<ge> 0")
  case False
  have e: "399 - y = 400 * (- (y div 400)) + (399 - y mod 400)" by (simp add: minus_div_mult_eq_mod [symmetric])
  have "(399 - y) div 400 = - (y div 400)" by (rule int_div_pos_eq [OF e]) simp_all
  then show ?thesis using False by simp
qed simp

lemma march_days_eq: "y div 400 * 146097 + ((y - y div 400 * 400) * 365 + (y - y div 400 * 400) div 4 - (y - y div 400 * 400) div 100) = march_days y"
proof -
  define e where "e = y div 400"
  define r where "r = y - e * 400"
  have y: "y = r + e * 100 * 4" "y = r + e * 4 * 100" by (simp_all add: r_def)
  have "y div 4 = e * 100 + r div 4" unfolding y(1) by (rule div_mult_self1) simp
  moreover have "y div 100 = e * 4 + r div 100" unfolding y(2) by (rule div_mult_self1) simp
  ultimately show ?thesis unfolding march_days_def e_def [symmetric] r_def [symmetric] using y(1) by simp
qed

lemma days_eq: "tl_days_from_civil y m d = march_days (if m \<le> 2 then y - 1 else y) + ((153 * (if m > 2 then m - 3 else m + 9) + 2) div 5 + d - 1) - 719468"
  unfolding tl_days_from_civil_def Let_def era_floor march_days_eq [symmetric] by simp

lemma div_pred: "0 < (n :: int) \<Longrightarrow> y div n - (y - 1) div n = (if n dvd y then 1 else 0)"
proof (cases "n dvd y")
  assume n: "0 < n"
  case True
  then obtain q where q: "y = n * q" by blast
  have "(y - 1) div n = q - 1" by (rule int_div_pos_eq [of _ _ _ "n - 1"]) (use n q in \<open>simp_all add: algebra_simps\<close>)
  then show ?thesis using True q n by simp
next
  assume n: "0 < n"
  case False
  then have m: "y mod n \<noteq> 0" by (simp add: dvd_eq_mod_eq_0)
  have e: "y - 1 = n * (y div n) + (y mod n - 1)" by simp
  have "(y - 1) div n = y div n" by (rule int_div_pos_eq [OF e]) (use m n pos_mod_sign [of n y] pos_mod_bound [of n y] in linarith)+
  then show ?thesis using False by simp
qed

lemma march_step: "march_days y - march_days (y - 1) = (if leap_year y then 366 else 365)"
proof -
  have d: "400 dvd y \<Longrightarrow> 100 dvd y" "100 dvd y \<Longrightarrow> 4 dvd y" using dvd_trans [of 100 400 y] dvd_trans [of 4 100 y] by simp_all
  have "march_days y - march_days (y - 1) = 365 + (if 4 dvd y then 1 else 0) - (if 100 dvd y then 1 else 0) + (if 400 dvd y then 1 else 0)"
  proof -
    have "365 * y + p - q + r - (365 * (y - 1) + p' - q' + r') = 365 + (p - p') - (q - q') + (r - r')" for p q r p' q' r' by simp
    then show ?thesis unfolding march_days_def by (simp only: div_pred zero_less_numeral)
  qed
  then show ?thesis using d unfolding leap_year_def by (cases "4 dvd y"; cases "100 dvd y"; cases "400 dvd y") simp_all
qed

text \<open>the day count of a calendar date is zero on 1 January 1970 and grows by one from each date to the next, leap years, month
  ends and year ends included.\<close>

theorem days_from_civil_exact:
  assumes "civil_date y m d" "next_day y m d = (y1, m1, d1)"
  shows "tl_days_from_civil y1 m1 d1 = tl_days_from_civil y m d + 1 \<and> tl_days_from_civil 1970 1 1 = 0"
proof -
  have z: "tl_days_from_civil 1970 1 1 = 0" by (simp add: days_eq march_days_def)
  have "1 \<le> m" "m \<le> 12" using assms(1) by (simp_all add: civil_date_def)
  then have m: "m \<in> {1, 2, 3, 4, 5, 6, 7, 8, 9, 10, 11, 12}" unfolding insert_iff empty_iff by presburger
  have "tl_days_from_civil y1 m1 d1 = tl_days_from_civil y m d + 1"
  proof (cases "d < days_in_month y m")
    case True
    then show ?thesis using assms by (auto simp: next_day_def days_eq)
  next
    case False
    then have d: "d = days_in_month y m" using assms(1) by (simp add: civil_date_def)
    show ?thesis using m assms(2) False d march_step [of y] by (auto simp: next_day_def days_eq days_in_month_def)
  qed
  then show ?thesis using z by simp
qed

theorem days_from_civil_exact_witness: "tl_days_from_civil 2024 3 1 = tl_days_from_civil 2024 2 29 + 1"
  using days_from_civil_exact [of 2024 2 29 2024 3 1] by (simp add: civil_date_def next_day_def days_in_month_def leap_year_def)

lemma rfc3339_example: "tl_parse_rfc3339 ''1970-01-01T00:00:01Z'' = Some 1" "tl_parse_rfc3339 ''2024-02-29T12:00:00.5+02:00'' = Some 1709200800"
  by (simp_all add: tl_parse_rfc3339_def three_fields_def tl_date_digits.simps is_digit_def digit_val_def tl_date_lit_def tl_date_fields_ok_def skip_fraction_def zone_offset_def
      tl_days_from_civil_def numeral_2_eq_2 numeral_eq_Suc)

section \<open>Retry-After\<close>

definition H2_RETRY_AFTER_VALID_MAX_S :: int where "H2_RETRY_AFTER_VALID_MAX_S = 3600"
definition H2_RETRY_AFTER_CAP_MS :: u32 where "H2_RETRY_AFTER_CAP_MS = 300000"
definition H2_RATE_LIMIT_DEFAULT_MS :: u32 where "H2_RATE_LIMIT_DEFAULT_MS = 5000"
definition H2_RATE_LIMIT_JITTER_MS :: u32 where "H2_RATE_LIMIT_JITTER_MS = 5000"

text \<open>The digit loop: \<open>None\<close> for a character that is no digit; the value stops growing once it is past the limit.\<close>

fun retry_digits :: "int \<Rightarrow> string \<Rightarrow> int option" where
  "retry_digits v [] = Some v"
| "retry_digits v (c # s) = (if \<not> is_digit c then None
     else retry_digits (if v \<le> H2_RETRY_AFTER_VALID_MAX_S then v * 10 + digit_val c else v) s)"

definition h2_parse_retry_after_seconds :: "string \<Rightarrow> int \<Rightarrow> int" where
  "h2_parse_retry_after_seconds s now_unix =
    (if s = [] then 0
     else let neg = (hd s = CHR ''-''); r = (if hd s = CHR ''+'' \<or> hd s = CHR ''-'' then tl s else s)
          in if r \<noteq> [] \<and> is_digit (hd r)
             then (case retry_digits 0 r of None \<Rightarrow> 0
                   | Some v \<Rightarrow> if neg \<or> v \<le> 0 \<or> v > H2_RETRY_AFTER_VALID_MAX_S then 0 else v)
             else if now_unix > 0
             then (case tl_parse_imf_fixdate s of None \<Rightarrow> 0
                   | Some t \<Rightarrow> if t - now_unix > 0 \<and> t - now_unix \<le> H2_RETRY_AFTER_VALID_MAX_S then t - now_unix else 0)
             else 0)"

definition h2_rate_limit_wait_ms :: "int \<Rightarrow> bool \<Rightarrow> int \<Rightarrow> u32 \<Rightarrow> u32" where
  "h2_rate_limit_wait_ms status present retry_s rnd =
    (if \<not> (status = 429 \<or> (status = 503 \<and> present)) then 0
     else let ms = (if retry_s > 0 then word_of_int retry_s * 1000 else H2_RATE_LIMIT_DEFAULT_MS + rnd mod H2_RATE_LIMIT_JITTER_MS)
          in if ms > H2_RETRY_AFTER_CAP_MS then H2_RETRY_AFTER_CAP_MS else ms)"

lemmas retry_consts = H2_RETRY_AFTER_VALID_MAX_S_def H2_RETRY_AFTER_CAP_MS_def H2_RATE_LIMIT_DEFAULT_MS_def H2_RATE_LIMIT_JITTER_MS_def

text \<open>The value of a run of digits without the saturation.\<close>

fun digits_value :: "int \<Rightarrow> string \<Rightarrow> int" where
  "digits_value v [] = v"
| "digits_value v (c # s) = digits_value (v * 10 + digit_val c) s"

lemma digit_val_bounds: "is_digit c \<Longrightarrow> 0 \<le> digit_val c \<and> digit_val c \<le> 9"
proof -
  have e: "digit_val c = int (of_char c :: nat) - 48" by (simp add: digit_val_def of_nat_of_char)
  show "is_digit c \<Longrightarrow> 0 \<le> digit_val c \<and> digit_val c \<le> 9" unfolding e is_digit_def by linarith
qed

lemma digits_value_ge: "0 \<le> v \<Longrightarrow> list_all is_digit s \<Longrightarrow> v \<le> digits_value v s"
proof (induction s arbitrary: v)
  case (Cons c s)
  then have "0 \<le> digit_val c" using digit_val_bounds by simp
  then show ?case using Cons.IH [of "v * 10 + digit_val c"] Cons.prems by simp
qed simp

lemma retry_digits_sat: "v > H2_RETRY_AFTER_VALID_MAX_S \<Longrightarrow> list_all is_digit s \<Longrightarrow> retry_digits v s = Some v"
  by (induction s) auto

lemma retry_digits_none: "retry_digits v s = None \<longleftrightarrow> \<not> list_all is_digit s"
  by (induction s arbitrary: v) auto

lemma retry_digits_value:
  assumes "0 \<le> v" "list_all is_digit s"
  shows "\<exists>w. retry_digits v s = Some w \<and> v \<le> w \<and> (if digits_value v s \<le> 3600 then w = digits_value v s else 3600 < w)"
  using assms
proof (induction s arbitrary: v)
  case (Cons c s)
  then have d: "is_digit c" "list_all is_digit s" "0 \<le> digit_val c" using digit_val_bounds by simp_all
  show ?case
  proof (cases "v \<le> 3600")
    case True
    have "\<exists>w. retry_digits (v * 10 + digit_val c) s = Some w \<and> v * 10 + digit_val c \<le> w \<and> (if digits_value (v * 10 + digit_val c) s \<le> 3600 then w = digits_value (v * 10 + digit_val c) s else 3600 < w)"
      using Cons.IH [of "v * 10 + digit_val c"] Cons.prems(1) d by simp
    then show ?thesis using True d Cons.prems(1) by (auto simp: retry_consts)
  next
    case False
    then have "3600 < digits_value v (c # s)" using digits_value_ge [of v "c # s"] Cons.prems by simp
    moreover have "retry_digits v (c # s) = Some v" using False d retry_digits_sat [of v s] by (simp add: retry_consts)
    ultimately show ?thesis using False by simp
  qed
qed simp

text \<open>Delta-seconds are read exactly: the value of the digits when it is within 1 to 3600, and 0 otherwise, however long the
  run of digits is.\<close>

lemma retry_after_delta:
  assumes "s \<noteq> []" "list_all is_digit s"
  shows "h2_parse_retry_after_seconds s now = (if 1 \<le> digits_value 0 s \<and> digits_value 0 s \<le> 3600 then digits_value 0 s else 0)"
proof -
  have h: "is_digit (hd s)" using assms by (cases s) simp_all
  then have n: "hd s \<noteq> CHR ''-''" "hd s \<noteq> CHR ''+''" by (auto simp: is_digit_def)
  obtain w where w: "retry_digits 0 s = Some w" "0 \<le> w" "if digits_value 0 s \<le> 3600 then w = digits_value 0 s else 3600 < w"
    using retry_digits_value [of 0 s] assms(2) by auto
  show ?thesis using assms(1) h n w(1,2) w(3) by (simp add: h2_parse_retry_after_seconds_def Let_def retry_consts split: if_splits)
qed

lemma retry_after_range: "0 \<le> h2_parse_retry_after_seconds s now \<and> h2_parse_retry_after_seconds s now \<le> 3600"
  by (auto simp: h2_parse_retry_after_seconds_def Let_def retry_consts split: option.splits)

text \<open>Whatever the server says, the wait is at most five minutes, and it is positive exactly when the response is a rate limit.\<close>

lemma rate_limit_wait_bounded:
  "h2_rate_limit_wait_ms status p (h2_parse_retry_after_seconds s now) rnd \<le> 300000"
  "0 < h2_rate_limit_wait_ms status p (h2_parse_retry_after_seconds s now) rnd \<longleftrightarrow> status = 429 \<or> (status = 503 \<and> p)"
proof -
  define r where "r = h2_parse_retry_after_seconds s now"
  have r: "0 \<le> r" "r \<le> 3600" using retry_after_range unfolding r_def by blast+
  show "h2_rate_limit_wait_ms status p (h2_parse_retry_after_seconds s now) rnd \<le> 300000"
    unfolding r_def [symmetric] h2_rate_limit_wait_ms_def Let_def retry_consts by (simp only: if_split not_less simp_thms order_refl) (simp add: not_less)
  have a: "0 < (word_of_int r * 1000 :: u32)" if "0 < r"
  proof -
    have "uint (word_of_int r * 1000 :: u32) = r * 1000" using r by (simp add: uint_word_ariths uint_word_of_int mod_pos_pos_trivial)
    then show ?thesis using that by (simp add: word_less_def)
  qed
  have b: "0 < 5000 + rnd mod (5000 :: u32)"
  proof -
    have "unat (rnd mod 5000) < 5000" by (simp add: unat_mod)
    then have "unat (5000 + rnd mod (5000 :: u32)) = 5000 + unat (rnd mod 5000)" by (simp add: unat_word_ariths)
    then show ?thesis by (simp add: word_less_nat_alt)
  qed
  show "0 < h2_rate_limit_wait_ms status p (h2_parse_retry_after_seconds s now) rnd \<longleftrightarrow> status = 429 \<or> (status = 503 \<and> p)"
    unfolding r_def [symmetric] h2_rate_limit_wait_ms_def Let_def retry_consts using a b by (cases "0 < r") simp_all
qed

end
