(* ===== verification/MapResp_Parse.thy ===== *)
theory MapResp_Parse
  imports JSON_Split TL_Warm TL_Date
begin

text \<open>
  The element parsers of \<open>mapreq.c\<close>: what becomes of the self node, a peer, a DERP region, a removed id and a patch
  once the stream has collected its text.

  The tokenizer (\<open>jsmn.h\<close>) is third-party code and a parameter: a function from the text to the number it returns and
  the tokens it wrote.  The parsers walk those tokens; reading a token it did not write (the table keeps the tokens of
  earlier texts), or writing a netmap array beyond its end, is \<open>None\<close>.  A netmap array with its count is a list.  A
  \<open>char\<close> array filled by \<open>tok_copy\<close> is the bytes before its NUL.
\<close>

section \<open>Tokens\<close>

definition SUB_MAX_TOKENS :: int where "SUB_MAX_TOKENS = 640"
definition JSMN_ERROR_INVAL :: int where "JSMN_ERROR_INVAL = -2"

definition tok_is_str :: "jsmntok_t \<Rightarrow> bool" where "tok_is_str t \<longleftrightarrow> tok_type t = JSMN_STRING"
definition tok_is_obj :: "jsmntok_t \<Rightarrow> bool" where "tok_is_obj t \<longleftrightarrow> tok_type t = JSMN_OBJECT"
definition tok_is_arr :: "jsmntok_t \<Rightarrow> bool" where "tok_is_arr t \<longleftrightarrow> tok_type t = JSMN_ARRAY"
definition tok_is_prim :: "jsmntok_t \<Rightarrow> bool" where "tok_is_prim t \<longleftrightarrow> tok_type t = JSMN_PRIMITIVE"

text \<open>The text of a token; the tokenizer keeps both ends within the text it was given.\<close>

definition tok_text :: "string \<Rightarrow> jsmntok_t \<Rightarrow> string" where
  "tok_text js t = take (nat (tok_end t - tok_start t)) (drop (nat (tok_start t)) js)"

definition tok_eq :: "string \<Rightarrow> jsmntok_t \<Rightarrow> string \<Rightarrow> bool" where
  "tok_eq js t s \<longleftrightarrow> tok_end t - tok_start t = int (length s) \<and> tok_text js t = s"

definition tok_copy :: "string \<Rightarrow> jsmntok_t \<Rightarrow> nat \<Rightarrow> string option" where
  "tok_copy js t cap = (if tok_end t - tok_start t < 0 \<or> nat (tok_end t - tok_start t) + 1 > cap then None else Some (tok_text js t))"

definition c_str :: "string \<Rightarrow> bytes" where "c_str s = takeWhile (\<lambda>b. b \<noteq> 0) (ascii s)"

text \<open>\<open>strtoull (.., NULL, 10)\<close> and \<open>atoi\<close>, which is \<open>strtol\<close> on the 32-bit target: both stop at the end of their range.\<close>

definition c_space :: "char \<Rightarrow> bool" where "c_space c \<longleftrightarrow> c = CHR '' '' \<or> 9 \<le> (of_char c :: nat) \<and> (of_char c :: nat) \<le> 13"
definition dec_prefix :: "string \<Rightarrow> int" where "dec_prefix s = digits_value 0 (takeWhile is_digit s)"

definition signed_number :: "string \<Rightarrow> bool \<times> int" where
  "signed_number s0 = (let s = dropWhile c_space s0 in
     case s of [] \<Rightarrow> (False, 0) | c # r \<Rightarrow> if c = CHR ''-'' then (True, dec_prefix r) else if c = CHR ''+'' then (False, dec_prefix r) else (False, dec_prefix s))"

definition strtoull :: "string \<Rightarrow> u64" where
  "strtoull s = (case signed_number s of (neg, v) \<Rightarrow> if v \<ge> 2 ^ 64 then 0xFFFFFFFFFFFFFFFF else if neg then - word_of_int v else word_of_int v)"

definition atoi :: "string \<Rightarrow> int" where
  "atoi s = (case signed_number s of (neg, v) \<Rightarrow> if neg then - min v (2 ^ 31) else min v (2 ^ 31 - 1))"

definition hex_nibble :: "char \<Rightarrow> u8 option" where
  "hex_nibble c = (let n = (of_char c :: u8) in
     if 48 \<le> n \<and> n \<le> 57 then Some (n - 48) else if 97 \<le> n \<and> n \<le> 102 then Some (10 + (n - 97))
     else if 65 \<le> n \<and> n \<le> 70 then Some (10 + (n - 65)) else None)"

fun hex_pairs :: "string \<Rightarrow> bytes option" where
  "hex_pairs (a # b # s) = (case (hex_nibble a, hex_nibble b, hex_pairs s) of
     (Some hi, Some lo, Some r) \<Rightarrow> Some ((push_bit 4 hi OR lo) # r) | _ \<Rightarrow> None)"
| "hex_pairs [] = Some []"
| "hex_pairs [a] = None"

definition parse_keyed_hex :: "string \<Rightarrow> string \<Rightarrow> bytes option" where
  "parse_keyed_hex s prefix =
    (if length s \<noteq> length prefix + 64 \<or> take (length prefix) s \<noteq> prefix then None else hex_pairs (drop (length prefix) s))"

section \<open>Walks\<close>

text \<open>The member loop of every object parser and the element loop of every array parser: \<open>k\<close> values from token \<open>i\<close> on,
  each handed to \<open>f\<close> and then skipped.\<close>

fun obj_walk :: "jsmntok_t list \<Rightarrow> (nat \<Rightarrow> nat \<Rightarrow> 'a \<Rightarrow> 'a option) \<Rightarrow> nat \<Rightarrow> nat \<Rightarrow> 'a \<Rightarrow> 'a option" where
  "obj_walk toks f 0 i a = Some a"
| "obj_walk toks f (Suc k) i a =
    (if i + 1 \<ge> length toks then None
     else case f i (i + 1) a of None \<Rightarrow> None | Some b \<Rightarrow>
       (case jsmn_skip toks (i + 1) of None \<Rightarrow> None | Some e \<Rightarrow> obj_walk toks f k e b))"

fun arr_walk :: "jsmntok_t list \<Rightarrow> (nat \<Rightarrow> 'a \<Rightarrow> 'a option) \<Rightarrow> nat \<Rightarrow> nat \<Rightarrow> 'a \<Rightarrow> 'a option" where
  "arr_walk toks f 0 i a = Some a"
| "arr_walk toks f (Suc k) i a =
    (if i \<ge> length toks then None
     else case f i a of None \<Rightarrow> None | Some b \<Rightarrow>
       (case jsmn_skip toks i of None \<Rightarrow> None | Some e \<Rightarrow> arr_walk toks f k e b))"

definition walk_obj :: "jsmntok_t list \<Rightarrow> (nat \<Rightarrow> nat \<Rightarrow> 'a \<Rightarrow> 'a option) \<Rightarrow> nat \<Rightarrow> 'a \<Rightarrow> 'a option" where
  "walk_obj toks f i a = obj_walk toks f (nat (tok_size (toks ! i))) (i + 1) a"

definition walk_arr :: "jsmntok_t list \<Rightarrow> (nat \<Rightarrow> 'a \<Rightarrow> 'a option) \<Rightarrow> nat \<Rightarrow> 'a \<Rightarrow> 'a option" where
  "walk_arr toks f i a = arr_walk toks f (nat (tok_size (toks ! i))) (i + 1) a"

section \<open>The parsers\<close>

definition address_elem :: "string \<Rightarrow> jsmntok_t list \<Rightarrow> nat \<Rightarrow> nat \<Rightarrow> bytes list \<Rightarrow> bytes list option" where
  "address_elem js toks out_max i kept = Some
    (let t = toks ! i in
     if tok_is_str t \<and> length kept < out_max \<and> CHR '':'' \<notin> set (tok_text js t)
     then (case tok_copy js t TL_CIDR_STRLEN of None \<Rightarrow> kept | Some s \<Rightarrow> kept @ [c_str s]) else kept)"

definition parse_addresses :: "string \<Rightarrow> jsmntok_t list \<Rightarrow> nat \<Rightarrow> nat \<Rightarrow> bytes list \<Rightarrow> bytes list option" where
  "parse_addresses js toks arr_idx out_max old =
    (if \<not> tok_is_arr (toks ! arr_idx) then Some old else walk_arr toks (address_elem js toks out_max) arr_idx [])"

text \<open>The colon count of an endpoint, 99 for a bracketed one.\<close>

fun colons :: "nat \<Rightarrow> string \<Rightarrow> nat" where
  "colons n [] = n"
| "colons n (c # s) = (if c = CHR ''['' \<or> c = CHR '']'' then 99 else colons (if c = CHR '':'' then n + 1 else n) s)"

definition endpoint_elem :: "string \<Rightarrow> jsmntok_t list \<Rightarrow> nat \<Rightarrow> nat \<Rightarrow> bytes list \<Rightarrow> bytes list option" where
  "endpoint_elem js toks out_max i kept = Some
    (let t = toks ! i in
     if tok_is_str t \<and> length kept < out_max \<and> colons 0 (tok_text js t) = 1
     then (case tok_copy js t TL_ENDPOINT_STRLEN of None \<Rightarrow> kept | Some s \<Rightarrow> kept @ [c_str s]) else kept)"

definition parse_endpoints :: "string \<Rightarrow> jsmntok_t list \<Rightarrow> nat \<Rightarrow> nat \<Rightarrow> bytes list \<Rightarrow> bytes list option" where
  "parse_endpoints js toks arr_idx out_max old =
    (if \<not> tok_is_arr (toks ! arr_idx) then Some old else walk_arr toks (endpoint_elem js toks out_max) arr_idx [])"

text \<open>A number through a buffer of \<open>cap\<close> bytes: left alone when it does not fit or is empty.\<close>

definition number_or :: "string \<Rightarrow> jsmntok_t \<Rightarrow> nat \<Rightarrow> (string \<Rightarrow> 'a) \<Rightarrow> 'a \<Rightarrow> 'a" where
  "number_or js t cap conv old = (case tok_copy js t cap of None \<Rightarrow> old | Some s \<Rightarrow> if s = [] then old else conv s)"

definition node_member :: "string \<Rightarrow> jsmntok_t list \<Rightarrow> nat \<Rightarrow> nat \<Rightarrow> tl_netmap_t \<Rightarrow> tl_netmap_t option" where
  "node_member js toks k v out =
    (let key = toks ! k; val = toks ! v in
     if tok_eq js key ''ID'' \<and> tok_is_prim val then Some (out\<lparr>map_self_id := number_or js val 24 strtoull (map_self_id out)\<rparr>)
     else if tok_eq js key ''Addresses'' \<and> tok_is_arr val then
       map_option (\<lambda>l. out\<lparr>map_self_addresses := l\<rparr>) (parse_addresses js toks v TL_MAX_PEER_ADDRESSES (map_self_addresses out))
     else if tok_eq js key ''Expired'' \<and> tok_is_prim val then Some (out\<lparr>map_self_expired := tok_eq js val ''true''\<rparr>)
     else if tok_eq js key ''KeyExpiry'' \<and> tok_is_str val then
       Some (case tl_parse_rfc3339 (tok_text js val) of None \<Rightarrow> out | Some t \<Rightarrow> if t > 0 then out\<lparr>map_self_key_expiry := t\<rparr> else out)
     else Some out)"

definition parse_node_obj :: "string \<Rightarrow> jsmntok_t list \<Rightarrow> nat \<Rightarrow> tl_netmap_t \<Rightarrow> tl_netmap_t option" where
  "parse_node_obj js toks i out =
    (if \<not> tok_is_obj (toks ! i) then Some out
     else map_option (\<lambda>o'. o'\<lparr>map_have_self := True\<rparr>) (walk_obj toks (node_member js toks) i out))"

definition peer_zero :: tl_peer_t where
  "peer_zero = \<lparr>p_id = 0, p_node_pub = zero_key, p_disco_pub = zero_key, p_has_disco_pub = False, p_home_derp = 0, p_endpoints = [], p_addresses = []\<rparr>"

definition peer_member :: "string \<Rightarrow> jsmntok_t list \<Rightarrow> nat \<Rightarrow> nat \<Rightarrow> tl_peer_t \<Rightarrow> tl_peer_t option" where
  "peer_member js toks k v p =
    (let key = toks ! k; val = toks ! v in
     if tok_eq js key ''ID'' \<and> tok_is_prim val then Some (p\<lparr>p_id := number_or js val 24 strtoull (p_id p)\<rparr>)
     else if tok_eq js key ''Key'' \<and> tok_is_str val then
       Some (case parse_keyed_hex (tok_text js val) ''nodekey:'' of None \<Rightarrow> p | Some x \<Rightarrow> p\<lparr>p_node_pub := x\<rparr>)
     else if tok_eq js key ''DiscoKey'' \<and> tok_is_str val then
       Some (case parse_keyed_hex (tok_text js val) ''discokey:'' of None \<Rightarrow> p | Some x \<Rightarrow> p\<lparr>p_disco_pub := x, p_has_disco_pub := True\<rparr>)
     else if tok_eq js key ''HomeDERP'' \<and> tok_is_prim val then Some (p\<lparr>p_home_derp := number_or js val 12 atoi (p_home_derp p)\<rparr>)
     else if tok_eq js key ''Addresses'' \<and> tok_is_arr val then
       map_option (\<lambda>l. p\<lparr>p_addresses := l\<rparr>) (parse_addresses js toks v TL_MAX_PEER_ADDRESSES (p_addresses p))
     else if tok_eq js key ''Endpoints'' \<and> tok_is_arr val then
       map_option (\<lambda>l. p\<lparr>p_endpoints := l\<rparr>) (parse_endpoints js toks v TL_MAX_PEER_ENDPOINTS (p_endpoints p))
     else Some p)"

definition parse_one_peer :: "string \<Rightarrow> jsmntok_t list \<Rightarrow> nat \<Rightarrow> tl_peer_t option" where
  "parse_one_peer js toks i = walk_obj toks (peer_member js toks) i peer_zero"

text \<open>A DERP region: its slots keep what an earlier \<open>Nodes\<close> array of the same object left in them, as in C.\<close>

definition TL_MAX_DERP_NODES :: nat where "TL_MAX_DERP_NODES = 3"
definition TL_DERP_HOSTNAME_LEN :: nat where "TL_DERP_HOSTNAME_LEN = 64"

definition node_zero :: tl_derp_node_t where
  "node_zero = \<lparr>dn_region_id = 0, dn_hostname = [], dn_port = 0, dn_stun_port = 0, dn_ipv4 = no_ipv4\<rparr>"

definition derp_node_member :: "string \<Rightarrow> jsmntok_t list \<Rightarrow> nat \<Rightarrow> nat \<Rightarrow> tl_derp_node_t \<Rightarrow> tl_derp_node_t option" where
  "derp_node_member js toks k v dn = Some
    (let key = toks ! k; val = toks ! v in
     if tok_eq js key ''RegionID'' \<and> tok_is_prim val then dn\<lparr>dn_region_id := number_or js val 12 atoi (dn_region_id dn)\<rparr>
     else if tok_eq js key ''HostName'' \<and> tok_is_str val then
       (case tok_copy js val TL_DERP_HOSTNAME_LEN of None \<Rightarrow> dn | Some s \<Rightarrow> dn\<lparr>dn_hostname := c_str s\<rparr>)
     else if tok_eq js key ''DERPPort'' \<and> tok_is_prim val then dn\<lparr>dn_port := number_or js val 8 (\<lambda>s. word_of_int (atoi s)) (dn_port dn)\<rparr>
     else if tok_eq js key ''IPv4'' \<and> tok_is_str val then
       dn\<lparr>dn_ipv4 := (case tl_ipv4_parse (ascii (tok_text js val)) of None \<Rightarrow> no_ipv4 | Some a \<Rightarrow> a)\<rparr>
     else if tok_eq js key ''STUNPort'' \<and> tok_is_prim val then dn\<lparr>dn_stun_port := tl_stun_port_parse (ascii (tok_text js val))\<rparr>
     else dn)"

type_synonym region_slots = "int \<times> nat \<times> tl_derp_node_t list"

definition derp_node_elem :: "string \<Rightarrow> jsmntok_t list \<Rightarrow> nat \<Rightarrow> nat \<times> tl_derp_node_t list \<Rightarrow> (nat \<times> tl_derp_node_t list) option" where
  "derp_node_elem js toks i st = (case st of (n, slots) \<Rightarrow>
     if tok_is_obj (toks ! i) \<and> n < TL_MAX_DERP_NODES then
       map_option (\<lambda>dn. (n + 1, slots[n := dn])) (walk_obj toks (derp_node_member js toks) i ((slots ! n)\<lparr>dn_stun_port := TL_STUN_DEFAULT_PORT\<rparr>))
     else Some (n, slots))"

definition region_member :: "string \<Rightarrow> jsmntok_t list \<Rightarrow> nat \<Rightarrow> nat \<Rightarrow> region_slots \<Rightarrow> region_slots option" where
  "region_member js toks k v st = (case st of (rid, n, slots) \<Rightarrow>
    (let key = toks ! k; val = toks ! v in
     if tok_eq js key ''RegionID'' \<and> tok_is_prim val then Some (number_or js val 12 atoi rid, n, slots)
     else if tok_eq js key ''Nodes'' \<and> tok_is_arr val then
       map_option (\<lambda>(n', slots'). (rid, n', slots')) (walk_arr toks (derp_node_elem js toks) v (0, slots))
     else Some (rid, n, slots)))"

definition parse_one_derp_region :: "string \<Rightarrow> jsmntok_t list \<Rightarrow> nat \<Rightarrow> tl_derp_region_t option" where
  "parse_one_derp_region js toks i = map_option (\<lambda>(rid, n, slots). \<lparr>dr_region_id = rid, dr_nodes = take n slots\<rparr>)
     (walk_obj toks (region_member js toks) i (0, 0, replicate TL_MAX_DERP_NODES node_zero))"

definition patch_zero :: tl_peer_patch_t where
  "patch_zero = \<lparr>pc_id = 0, pc_has_key = False, pc_node_pub = zero_key, pc_has_disco = False, pc_disco_pub = zero_key, pc_has_endpoints = False, pc_endpoints = [], pc_derp_region = 0\<rparr>"

definition patch_member :: "string \<Rightarrow> jsmntok_t list \<Rightarrow> nat \<Rightarrow> nat \<Rightarrow> tl_peer_patch_t \<Rightarrow> tl_peer_patch_t option" where
  "patch_member js toks k v pc =
    (let key = toks ! k; val = toks ! v in
     if tok_eq js key ''NodeID'' \<and> tok_is_prim val then Some (pc\<lparr>pc_id := number_or js val 24 strtoull (pc_id pc)\<rparr>)
     else if tok_eq js key ''DERPRegion'' \<and> tok_is_prim val then Some (pc\<lparr>pc_derp_region := number_or js val 12 atoi (pc_derp_region pc)\<rparr>)
     else if tok_eq js key ''Endpoints'' \<and> tok_is_arr val then
       map_option (\<lambda>l. pc\<lparr>pc_endpoints := l, pc_has_endpoints := True\<rparr>) (parse_endpoints js toks v TL_MAX_PEER_ENDPOINTS (pc_endpoints pc))
     else if tok_eq js key ''Key'' \<and> tok_is_str val then
       Some (case parse_keyed_hex (tok_text js val) ''nodekey:'' of None \<Rightarrow> pc\<lparr>pc_has_key := False\<rparr> | Some x \<Rightarrow> pc\<lparr>pc_node_pub := x, pc_has_key := True\<rparr>)
     else if tok_eq js key ''DiscoKey'' \<and> tok_is_str val then
       Some (case parse_keyed_hex (tok_text js val) ''discokey:'' of None \<Rightarrow> pc\<lparr>pc_has_disco := False\<rparr> | Some x \<Rightarrow> pc\<lparr>pc_disco_pub := x, pc_has_disco := True\<rparr>)
     else Some pc)"

definition parse_one_patch :: "string \<Rightarrow> jsmntok_t list \<Rightarrow> nat \<Rightarrow> tl_peer_patch_t option" where
  "parse_one_patch js toks i = walk_obj toks (patch_member js toks) i patch_zero"

section \<open>The elements\<close>

text \<open>The tokenizer on one text: what it returns and the tokens it wrote.\<close>

type_synonym jsmn = "string \<Rightarrow> int \<times> jsmntok_t list"

definition sub_parse :: "jsmn \<Rightarrow> string \<Rightarrow> int \<Rightarrow> int \<times> jsmntok_t list \<times> int" where
  "sub_parse jsmn_parse js peak = (case jsmn_parse js of (n, toks) \<Rightarrow>
     (if n \<ge> 1 \<and> \<not> jsmn_tree_ok toks (nat n) then JSMN_ERROR_INVAL else n, toks, max peak n))"

definition elem_node :: "jsmn \<Rightarrow> string \<Rightarrow> tl_netmap_t \<Rightarrow> int \<Rightarrow> (tl_netmap_t \<times> int) option" where
  "elem_node jsmn_parse v out peak = (case sub_parse jsmn_parse v peak of (n, toks, pk) \<Rightarrow>
     if n \<ge> 1 \<and> tok_is_obj (toks ! 0) then map_option (\<lambda>o'. (o', pk)) (parse_node_obj v toks 0 out) else Some (out, pk))"

definition elem_peer :: "jsmn \<Rightarrow> string \<Rightarrow> tl_netmap_t \<Rightarrow> int \<Rightarrow> (tl_netmap_t \<times> int) option" where
  "elem_peer jsmn_parse v out peak = (case sub_parse jsmn_parse v peak of (n, toks, pk) \<Rightarrow>
     if n < 1 \<or> \<not> tok_is_obj (toks ! 0) then Some (out, pk)
     else if length (map_peers out) \<ge> TL_MAX_PEERS then None
     else map_option (\<lambda>p. (out\<lparr>map_peers := map_peers out @ [p]\<rparr>, pk)) (parse_one_peer v toks 0))"

definition TL_MAX_DERP_REGIONS :: nat where "TL_MAX_DERP_REGIONS = 1"
definition TL_MAX_PEERS_REMOVED :: nat where "TL_MAX_PEERS_REMOVED = 8"
definition TL_MAX_PEER_PATCHES :: nat where "TL_MAX_PEER_PATCHES = 4"
definition REMOVED_LIM :: nat where "REMOVED_LIM = 23"

text \<open>\<open>keep\<close> is the configured region (\<open>DERP_KEEP_REGION\<close>).\<close>

definition derp_region_wanted :: "int \<Rightarrow> int \<Rightarrow> bool" where
  "derp_region_wanted keep region_id \<longleftrightarrow> region_id > 0 \<and> region_id = keep"

definition elem_region :: "jsmn \<Rightarrow> int \<Rightarrow> string \<Rightarrow> tl_netmap_t \<Rightarrow> int \<Rightarrow> (tl_netmap_t \<times> int) option" where
  "elem_region jsmn_parse keep v out peak = (case sub_parse jsmn_parse v peak of (n, toks, pk) \<Rightarrow>
     if n < 1 \<or> \<not> tok_is_obj (toks ! 0) then Some (out, pk)
     else if length (map_derp_regions out) \<ge> TL_MAX_DERP_REGIONS then None
     else map_option (\<lambda>r. (if derp_region_wanted keep (dr_region_id r) then out\<lparr>map_derp_regions := map_derp_regions out @ [r]\<rparr> else out, pk))
       (parse_one_derp_region v toks 0))"

definition regions_done :: "tl_netmap_t \<Rightarrow> tl_netmap_t" where
  "regions_done out = out\<lparr>map_have_derp_map := True\<rparr>"

definition elem_removed :: "string \<Rightarrow> tl_netmap_t \<Rightarrow> tl_netmap_t option" where
  "elem_removed v out =
    (if v = [] \<or> length v \<ge> REMOVED_LIM + 1 \<or> \<not> is_digit (hd v) then Some out
     else if length (map_removed_ids out) \<ge> TL_MAX_PEERS_REMOVED then None
     else Some (out\<lparr>map_removed_ids := map_removed_ids out @ [strtoull v]\<rparr>))"

definition patch_relevant :: "tl_peer_patch_t \<Rightarrow> bool" where
  "patch_relevant pc \<longleftrightarrow> pc_id pc \<noteq> 0 \<and> (pc_has_key pc \<or> pc_has_disco pc \<or> pc_has_endpoints pc \<or> pc_derp_region pc \<noteq> 0)"

text \<open>Folding a later patch of the same id into the stored one.\<close>

definition patch_fold :: "tl_peer_patch_t \<Rightarrow> tl_peer_patch_t \<Rightarrow> tl_peer_patch_t" where
  "patch_fold d pc =
    (let d1 = (if pc_has_key pc then d\<lparr>pc_has_key := True, pc_node_pub := pc_node_pub pc\<rparr> else d);
         d2 = (if pc_has_disco pc then d1\<lparr>pc_has_disco := True, pc_disco_pub := pc_disco_pub pc\<rparr> else d1);
         d3 = (if pc_has_endpoints pc then d2\<lparr>pc_has_endpoints := True, pc_endpoints := pc_endpoints pc\<rparr> else d2)
     in if pc_derp_region pc \<noteq> 0 then d3\<lparr>pc_derp_region := pc_derp_region pc\<rparr> else d3)"

fun patch_into :: "tl_peer_patch_t list \<Rightarrow> tl_peer_patch_t \<Rightarrow> tl_peer_patch_t list option" where
  "patch_into [] pc = None"
| "patch_into (d # ds) pc = (if pc_id d = pc_id pc then Some (patch_fold d pc # ds) else map_option ((#) d) (patch_into ds pc))"

definition store_patch :: "tl_peer_patch_t \<Rightarrow> tl_netmap_t \<Rightarrow> tl_netmap_t" where
  "store_patch pc out =
    (if \<not> patch_relevant pc then out
     else case patch_into (map_patches out) pc of Some ps \<Rightarrow> out\<lparr>map_patches := ps\<rparr>
     | None \<Rightarrow> if length (map_patches out) \<ge> TL_MAX_PEER_PATCHES then out\<lparr>map_patches_overflow := True\<rparr>
               else out\<lparr>map_patches := map_patches out @ [pc]\<rparr>)"

definition elem_patch :: "jsmn \<Rightarrow> string \<Rightarrow> tl_netmap_t \<Rightarrow> int \<Rightarrow> (tl_netmap_t \<times> int) option" where
  "elem_patch jsmn_parse v out peak = (case sub_parse jsmn_parse v peak of (n, toks, pk) \<Rightarrow>
     if n < 1 \<or> \<not> tok_is_obj (toks ! 0) then Some (out\<lparr>map_patches_overflow := True\<rparr>, pk)
     else map_option (\<lambda>pc. (store_patch pc out, pk)) (parse_one_patch v toks 0))"

section \<open>The walks stay in the tokens written\<close>

text \<open>No fault, and the result has a property.\<close>

definition yields :: "('a \<Rightarrow> bool) \<Rightarrow> 'a option \<Rightarrow> bool" where
  "yields P x \<longleftrightarrow> (\<exists>c. x = Some c \<and> P c)"

lemma yields_Some [simp]: "yields P (Some c) \<longleftrightarrow> P c"
  by (simp add: yields_def)

lemma yields_map: "yields (\<lambda>x. P (f x)) x \<Longrightarrow> yields P (map_option f x)"
  by (auto simp: yields_def)

lemma yields_mono: "yields Q x \<Longrightarrow> (\<And>c. Q c \<Longrightarrow> P c) \<Longrightarrow> yields P x"
  by (auto simp: yields_def)

lemma yields_if: "(b \<Longrightarrow> yields P x) \<Longrightarrow> (\<not> b \<Longrightarrow> yields P y) \<Longrightarrow> yields P (if b then x else y)"
  by simp

lemma obj_walk_ok:
  assumes "spell_values toks n True i ts" "n \<le> length toks" "\<forall>t\<in>set ts. tok_depth t \<le> 64" "P a"
    and step: "\<And>j t b. spells toks n (j + 1) t \<Longrightarrow> tok_depth t \<le> 64 \<Longrightarrow> P b \<Longrightarrow> yields P (f j (j + 1) b)"
  shows "yields P (obj_walk toks f (length ts) i a)"
  using assms(1,3,4)
proof (induction ts arbitrary: i a)
  case (Cons t ts)
  have t: "spells toks n (i + 1) t" "spell_values toks n True (i + 1 + tok_count t) ts" using Cons.prems(1) by simp_all
  obtain b where b: "f i (i + 1) a = Some b" "P b" using step [OF t(1), of a] Cons.prems by (auto simp: yields_def)
  have e: "jsmn_skip toks (i + 1) = Some (i + 1 + tok_count t)"
    unfolding jsmn_skip_def by (rule skip_spelt(1) [OF t(1) assms(2)]) (use Cons.prems in \<open>simp add: JSMN_SKIP_MAX_DEPTH_def\<close>)
  have "i + 1 < length toks" using spells_bound(1) [OF t(1)] assms(2) by (cases t) auto
  then show ?case using Cons.IH [OF t(2) _ b(2)] Cons.prems(2) b(1) e by simp
qed simp

lemma arr_walk_ok:
  assumes "spell_values toks n False i ts" "n \<le> length toks" "\<forall>t\<in>set ts. tok_depth t \<le> 64" "P a"
    and step: "\<And>j t b. spells toks n j t \<Longrightarrow> tok_depth t \<le> 64 \<Longrightarrow> P b \<Longrightarrow> yields P (f j b)"
  shows "yields P (arr_walk toks f (length ts) i a)"
  using assms(1,3,4)
proof (induction ts arbitrary: i a)
  case (Cons t ts)
  have t: "spells toks n i t" "spell_values toks n False (i + tok_count t) ts" using Cons.prems(1) by simp_all
  obtain b where b: "f i a = Some b" "P b" using step [OF t(1), of a] Cons.prems by (auto simp: yields_def)
  have e: "jsmn_skip toks i = Some (i + tok_count t)"
    unfolding jsmn_skip_def by (rule skip_spelt(1) [OF t(1) assms(2)]) (use Cons.prems in \<open>simp add: JSMN_SKIP_MAX_DEPTH_def\<close>)
  have "i < length toks" using spells_bound(1) [OF t(1)] assms(2) by (cases t) auto
  then show ?case using Cons.IH [OF t(2) _ b(2)] Cons.prems(2) b(1) e by simp
qed simp

lemma node_children: "tok_depth (JNode obj ts) \<le> 64 \<Longrightarrow> \<forall>t\<in>set ts. tok_depth t \<le> 64"
  using tok_depth_node [of obj ts 64] by fastforce

lemma walk_obj_ok:
  assumes "spells toks n i t" "tok_is_obj (toks ! i)" "n \<le> length toks" "tok_depth t \<le> 64" "P a"
    and "\<And>j u b. spells toks n (j + 1) u \<Longrightarrow> tok_depth u \<le> 64 \<Longrightarrow> P b \<Longrightarrow> yields P (f j (j + 1) b)"
  shows "yields P (walk_obj toks f i a)"
proof -
  obtain ts where t: "t = JNode True ts" "tok_size (toks ! i) = int (length ts)" "spell_values toks n True (i + 1) ts"
    using assms(1,2) by (cases t) (auto simp: tok_is_obj_def is_container_def split: if_splits)
  show ?thesis unfolding walk_obj_def t(2) nat_int
    by (rule obj_walk_ok [where P = P, OF t(3) assms(3) _ assms(5)]) (use assms(4,6) t(1) node_children in blast)+
qed

lemma walk_arr_ok:
  assumes "spells toks n i t" "tok_is_arr (toks ! i)" "n \<le> length toks" "tok_depth t \<le> 64" "P a"
    and "\<And>j u b. spells toks n j u \<Longrightarrow> tok_depth u \<le> 64 \<Longrightarrow> P b \<Longrightarrow> yields P (f j b)"
  shows "yields P (walk_arr toks f i a)"
proof -
  obtain ts where t: "t = JNode False ts" "tok_size (toks ! i) = int (length ts)" "spell_values toks n False (i + 1) ts"
    using assms(1,2) by (cases t) (auto simp: tok_is_arr_def is_container_def split: if_splits)
  show ?thesis unfolding walk_arr_def t(2) nat_int
    by (rule arr_walk_ok [where P = P, OF t(3) assms(3) _ assms(5)]) (use assms(4,6) t(1) node_children in blast)+
qed

section \<open>What the parsers store fits\<close>

definition strings_fit :: "nat \<Rightarrow> nat \<Rightarrow> bytes list \<Rightarrow> bool" where
  "strings_fit n cap l \<longleftrightarrow> length l \<le> n \<and> list_all (\<lambda>s. length s < cap) l"

abbreviation addresses_fit :: "bytes list \<Rightarrow> bool" where "addresses_fit \<equiv> strings_fit TL_MAX_PEER_ADDRESSES TL_CIDR_STRLEN"
abbreviation endpoints_fit :: "bytes list \<Rightarrow> bool" where "endpoints_fit \<equiv> strings_fit TL_MAX_PEER_ENDPOINTS TL_ENDPOINT_STRLEN"

definition peer_fits :: "tl_peer_t \<Rightarrow> bool" where
  "peer_fits p \<longleftrightarrow> length (p_node_pub p) = TINYLINK_KEY_LEN \<and> length (p_disco_pub p) = TINYLINK_KEY_LEN \<and> endpoints_fit (p_endpoints p) \<and> addresses_fit (p_addresses p)"

definition node_fits :: "tl_derp_node_t \<Rightarrow> bool" where
  "node_fits d \<longleftrightarrow> length (dn_hostname d) < TL_DERP_HOSTNAME_LEN \<and> length (dn_ipv4 d) = 4"

definition region_fits :: "int \<Rightarrow> tl_derp_region_t \<Rightarrow> bool" where
  "region_fits keep r \<longleftrightarrow> dr_region_id r = keep \<and> 0 < keep \<and> length (dr_nodes r) \<le> TL_MAX_DERP_NODES \<and> list_all node_fits (dr_nodes r)"

definition patch_fits :: "tl_peer_patch_t \<Rightarrow> bool" where
  "patch_fits p \<longleftrightarrow> length (pc_node_pub p) = TINYLINK_KEY_LEN \<and> length (pc_disco_pub p) = TINYLINK_KEY_LEN \<and> endpoints_fit (pc_endpoints p)"

definition netmap_fits :: "int \<Rightarrow> tl_netmap_t \<Rightarrow> bool" where
  "netmap_fits keep nm \<longleftrightarrow> addresses_fit (map_self_addresses nm) \<and> 0 \<le> map_self_key_expiry nm \<and>
     length (map_peers nm) \<le> TL_MAX_PEERS \<and> list_all peer_fits (map_peers nm) \<and>
     length (map_removed_ids nm) \<le> TL_MAX_PEERS_REMOVED \<and>
     length (map_patches nm) \<le> TL_MAX_PEER_PATCHES \<and> list_all patch_fits (map_patches nm) \<and> list_all patch_relevant (map_patches nm) \<and>
     distinct (map pc_id (map_patches nm)) \<and>
     length (map_derp_regions nm) \<le> TL_MAX_DERP_REGIONS \<and> list_all (region_fits keep) (map_derp_regions nm)"

lemma c_str_length: "length (c_str s) \<le> length s"
  using length_takeWhile_le [of _ "ascii s"] by (simp add: c_str_def ascii_def)

lemma tok_copy_fits: "tok_copy js t cap = Some s \<Longrightarrow> length (c_str s) < cap"
  using c_str_length [of s] by (auto simp: tok_copy_def tok_text_def split: if_splits)

lemma strings_fit_nil [simp]: "strings_fit n cap []"
  by (simp add: strings_fit_def)

lemma strings_fit_snoc: "strings_fit n cap l \<Longrightarrow> length l < n \<Longrightarrow> length s < cap \<Longrightarrow> strings_fit n cap (l @ [s])"
  by (simp add: strings_fit_def)

lemma address_elem_fits: "strings_fit n TL_CIDR_STRLEN l \<Longrightarrow> yields (strings_fit n TL_CIDR_STRLEN) (address_elem js toks n i l)"
  using tok_copy_fits by (auto simp: address_elem_def Let_def strings_fit_snoc split: option.split)

lemma endpoint_elem_fits: "strings_fit n TL_ENDPOINT_STRLEN l \<Longrightarrow> yields (strings_fit n TL_ENDPOINT_STRLEN) (endpoint_elem js toks n i l)"
  using tok_copy_fits by (auto simp: endpoint_elem_def Let_def strings_fit_snoc split: option.split)

lemma parse_addresses_fits:
  assumes "spells toks n i t" "n \<le> length toks" "tok_depth t \<le> 64" "tok_is_arr (toks ! i)"
  shows "yields (strings_fit k TL_CIDR_STRLEN) (parse_addresses js toks i k old)"
  using walk_arr_ok [OF assms(1,4,2,3), of "strings_fit k TL_CIDR_STRLEN" "[]" "address_elem js toks k"] address_elem_fits assms(4)
  by (simp add: parse_addresses_def)

lemma parse_endpoints_fits:
  assumes "spells toks n i t" "n \<le> length toks" "tok_depth t \<le> 64" "tok_is_arr (toks ! i)"
  shows "yields (strings_fit k TL_ENDPOINT_STRLEN) (parse_endpoints js toks i k old)"
  using walk_arr_ok [OF assms(1,4,2,3), of "strings_fit k TL_ENDPOINT_STRLEN" "[]" "endpoint_elem js toks k"] endpoint_elem_fits assms(4)
  by (simp add: parse_endpoints_def)

lemma hex_pairs_length: "hex_pairs s = Some b \<Longrightarrow> length s = 2 * length b"
  by (induction s arbitrary: b rule: hex_pairs.induct) (auto split: option.splits)

lemma keyed_hex_length: "parse_keyed_hex s p = Some b \<Longrightarrow> length b = TINYLINK_KEY_LEN"
  using hex_pairs_length [of "drop (length p) s" b] by (auto simp: parse_keyed_hex_def TINYLINK_KEY_LEN_def split: if_splits)

lemma peer_member_fits:
  assumes "spells toks n v t" "n \<le> length toks" "tok_depth t \<le> 64" "peer_fits p"
  shows "yields peer_fits (peer_member js toks k v p)"
  unfolding peer_member_def Let_def using assms(4)
  by (intro yields_if) (auto simp: peer_fits_def keyed_hex_length split: option.split intro!: yields_map
      intro: yields_mono [OF parse_addresses_fits [OF assms(1-3)]] yields_mono [OF parse_endpoints_fits [OF assms(1-3)]])

lemma patch_member_fits:
  assumes "spells toks n v t" "n \<le> length toks" "tok_depth t \<le> 64" "patch_fits p"
  shows "yields patch_fits (patch_member js toks k v p)"
  unfolding patch_member_def Let_def using assms(4)
  by (intro yields_if) (auto simp: patch_fits_def keyed_hex_length split: option.split intro!: yields_map
      intro: yields_mono [OF parse_endpoints_fits [OF assms(1-3)]])

lemma node_member_fits:
  assumes "spells toks n v t" "n \<le> length toks" "tok_depth t \<le> 64" "netmap_fits keep p"
  shows "yields (netmap_fits keep) (node_member js toks k v p)"
  unfolding node_member_def Let_def using assms(4)
  by (intro yields_if) (auto simp: netmap_fits_def split: option.split intro!: yields_map
      intro: yields_mono [OF parse_addresses_fits [OF assms(1-3)]])

lemma ipv4_fields_length: "ipv4_fields n s = Some (b, r) \<Longrightarrow> length b = n"
  by (induction n s arbitrary: b r rule: ipv4_fields.induct) (auto split: option.splits prod.splits if_splits list.splits)

lemma derp_node_member_fits: "node_fits d \<Longrightarrow> yields node_fits (derp_node_member js toks k v d)"
  unfolding derp_node_member_def Let_def using tok_copy_fits
  by (auto simp: node_fits_def no_ipv4_def tl_ipv4_parse_def ipv4_fields_length split: option.split prod.split)

definition slots_fit :: "tl_derp_node_t list \<Rightarrow> bool" where
  "slots_fit l \<longleftrightarrow> length l = TL_MAX_DERP_NODES \<and> list_all node_fits l"

lemma slots_fit_update: "slots_fit l \<Longrightarrow> node_fits d \<Longrightarrow> slots_fit (l[i := d])"
  by (auto simp: slots_fit_def list_all_iff dest!: set_update_subset_insert [THEN subsetD])

lemma derp_node_elem_fits:
  assumes "spells toks n i t" "n \<le> length toks" "tok_depth t \<le> 64" "slots_fit (snd st)"
  shows "yields (\<lambda>st. slots_fit (snd st)) (derp_node_elem js toks i st)"
proof -
  obtain m slots where st: "st = (m, slots)" by (cases st)
  show ?thesis
  proof (cases "tok_is_obj (toks ! i) \<and> m < TL_MAX_DERP_NODES")
    case True
    then have "node_fits (slots ! m)" using assms(4) by (simp add: st slots_fit_def list_all_length)
    then have "node_fits ((slots ! m)\<lparr>dn_stun_port := TL_STUN_DEFAULT_PORT\<rparr>)" by (simp add: node_fits_def)
    then have "yields node_fits (walk_obj toks (derp_node_member js toks) i ((slots ! m)\<lparr>dn_stun_port := TL_STUN_DEFAULT_PORT\<rparr>))"
      by (intro walk_obj_ok [OF assms(1) _ assms(2,3)] derp_node_member_fits) (use True in simp_all)
    then show ?thesis using True assms(4) unfolding derp_node_elem_def st
      by (auto intro!: yields_map elim!: yields_mono simp: slots_fit_update)
  next
    case False
    then show ?thesis using assms(4) by (auto simp: derp_node_elem_def st)
  qed
qed

lemma region_member_fits:
  assumes "spells toks n v t" "n \<le> length toks" "tok_depth t \<le> 64" "slots_fit (snd (snd st))"
  shows "yields (\<lambda>st. slots_fit (snd (snd st))) (region_member js toks k v st)"
proof -
  obtain rid m slots where st: "st = (rid, m, slots)" by (cases st)
  have "yields (\<lambda>st. slots_fit (snd st)) (walk_arr toks (derp_node_elem js toks) v (0, slots))" if "tok_is_arr (toks ! v)"
    by (rule walk_arr_ok [OF assms(1) that assms(2,3)]) (use assms(2,4) derp_node_elem_fits in \<open>auto simp: st\<close>)
  then show ?thesis unfolding region_member_def st prod.case Let_def using assms(4)
    by (intro yields_if) (auto simp: st intro!: yields_map elim!: yields_mono)
qed

section \<open>Every element\<close>

text \<open>What the parsers rely on of the tokenizer: it wrote the tokens it reports.\<close>

definition jsmn_writes :: "jsmn \<Rightarrow> bool" where
  "jsmn_writes jsmn_parse \<longleftrightarrow> (\<forall>s. 1 \<le> fst (jsmn_parse s) \<longrightarrow> int (length (snd (jsmn_parse s))) = fst (jsmn_parse s))"

lemma sub_parse_tree:
  assumes "jsmn_writes jsmn_parse" "sub_parse jsmn_parse v pk = (n, toks, pk')" "1 \<le> n"
  obtains t where "spells toks (length toks) 0 t" "tok_depth t \<le> 64"
proof -
  have p: "jsmn_parse v = (n, toks)" "jsmn_tree_ok toks (nat n)" using assms(2,3) by (auto simp: sub_parse_def JSMN_ERROR_INVAL_def split: prod.splits if_splits)
  have "nat n = length toks" using assms(1,3) p(1) unfolding jsmn_writes_def by (metis fst_conv snd_conv nat_int)
  then have "\<exists>t. tok_depth t \<le> 64 \<and> spells toks (length toks) 0 t"
    using p(2) by (simp add: jsmn_tree_ok_def tree_loop_spells(2) spell_front_def JSMN_SKIP_MAX_DEPTH_def)
  then show ?thesis using that by blast
qed

text \<open>The object at the front of a tokenized text, walked with any member handler that keeps a property.\<close>

lemma front_object_ok:
  assumes "jsmn_writes jsmn_parse" "sub_parse jsmn_parse v pk = (n, toks, pk')" "1 \<le> n" "tok_is_obj (toks ! 0)" "P a"
    and "\<And>k w u b. spells toks (length toks) w u \<Longrightarrow> tok_depth u \<le> 64 \<Longrightarrow> P b \<Longrightarrow> yields P (f k w b)"
  shows "yields P (walk_obj toks f 0 a)"
proof -
  obtain t where "spells toks (length toks) 0 t" "tok_depth t \<le> 64" using sub_parse_tree assms(1-3) by blast
  then show ?thesis using walk_obj_ok [of toks "length toks" 0 t P a f] assms(4-6) by simp
qed

abbreviation out_fits :: "int \<Rightarrow> tl_netmap_t \<times> int \<Rightarrow> bool" where "out_fits keep r \<equiv> netmap_fits keep (fst r)"

lemma elem_node_fits:
  assumes "jsmn_writes jsmn_parse" "netmap_fits keep out"
  shows "yields (out_fits keep) (elem_node jsmn_parse v out pk)"
proof -
  obtain n toks pk' where sp: "sub_parse jsmn_parse v pk = (n, toks, pk')" by (cases "sub_parse jsmn_parse v pk") auto
  have "yields (netmap_fits keep) (walk_obj toks (node_member v toks) 0 out)" if "1 \<le> n" "tok_is_obj (toks ! 0)"
    by (rule front_object_ok [OF assms(1) sp that]) (use assms(2) node_member_fits in auto)
  then show ?thesis unfolding elem_node_def sp prod.case parse_node_obj_def using assms(2)
    by (auto intro!: yields_map elim!: yields_mono simp: netmap_fits_def)
qed

lemma elem_peer_fits:
  assumes "jsmn_writes jsmn_parse" "netmap_fits keep out" "length (map_peers out) < TL_MAX_PEERS"
  shows "yields (out_fits keep) (elem_peer jsmn_parse v out pk)"
proof -
  obtain n toks pk' where sp: "sub_parse jsmn_parse v pk = (n, toks, pk')" by (cases "sub_parse jsmn_parse v pk") auto
  have "yields peer_fits (walk_obj toks (peer_member v toks) 0 peer_zero)" if "1 \<le> n" "tok_is_obj (toks ! 0)"
    by (rule front_object_ok [OF assms(1) sp that]) (use peer_member_fits in \<open>auto simp: peer_fits_def peer_zero_def zero_key_def\<close>)
  then show ?thesis unfolding elem_peer_def sp prod.case parse_one_peer_def using assms(2,3)
    by (auto intro!: yields_map elim!: yields_mono simp: netmap_fits_def)
qed

lemma elem_region_fits:
  assumes "jsmn_writes jsmn_parse" "netmap_fits keep out" "length (map_derp_regions out) < TL_MAX_DERP_REGIONS"
  shows "yields (out_fits keep) (elem_region jsmn_parse keep v out pk)"
proof -
  obtain n toks pk' where sp: "sub_parse jsmn_parse v pk = (n, toks, pk')" by (cases "sub_parse jsmn_parse v pk") auto
  let ?Q = "\<lambda>r. length (dr_nodes r) \<le> TL_MAX_DERP_NODES \<and> list_all node_fits (dr_nodes r)"
  have "yields (\<lambda>st. slots_fit (snd (snd st))) (walk_obj toks (region_member v toks) 0 (0, 0, replicate TL_MAX_DERP_NODES node_zero))" if "1 \<le> n" "tok_is_obj (toks ! 0)"
    by (rule front_object_ok [OF assms(1) sp that])
      (use region_member_fits in \<open>auto simp: slots_fit_def node_fits_def node_zero_def no_ipv4_def TL_DERP_HOSTNAME_LEN_def list_all_iff\<close>)
  then have "yields ?Q (parse_one_derp_region v toks 0)" if "1 \<le> n" "tok_is_obj (toks ! 0)" using that
    unfolding parse_one_derp_region_def by (auto intro!: yields_map elim!: yields_mono simp: slots_fit_def list_all_iff dest!: in_set_takeD)
  then show ?thesis unfolding elem_region_def sp prod.case using assms(2,3)
    by (auto intro!: yields_map elim!: yields_mono simp: netmap_fits_def region_fits_def derp_region_wanted_def)
qed

lemma elem_removed_fits:
  assumes "netmap_fits keep out" "length (map_removed_ids out) < TL_MAX_PEERS_REMOVED"
  shows "yields (netmap_fits keep) (elem_removed v out)"
  using assms by (auto simp: elem_removed_def netmap_fits_def)

lemma patch_fold_fits: "patch_fits d \<Longrightarrow> patch_fits p \<Longrightarrow> patch_fits (patch_fold d p)" "pc_id (patch_fold d p) = pc_id d" "patch_relevant d \<Longrightarrow> patch_relevant (patch_fold d p)"
  by (auto simp: patch_fold_def Let_def patch_fits_def patch_relevant_def)

lemma patch_into_fits:
  "patch_into ps p = Some qs \<Longrightarrow> list_all patch_fits ps \<Longrightarrow> patch_fits p \<Longrightarrow> list_all patch_fits qs"
  "patch_into ps p = Some qs \<Longrightarrow> list_all patch_relevant ps \<Longrightarrow> list_all patch_relevant qs"
  "patch_into ps p = Some qs \<Longrightarrow> map pc_id qs = map pc_id ps"
  "patch_into ps p = None \<Longrightarrow> pc_id p \<notin> pc_id ` set ps"
  by (induction ps arbitrary: qs) (auto simp: patch_fold_fits split: if_splits)

lemma store_patch_fits:
  assumes "netmap_fits keep out" "patch_fits pc"
  shows "netmap_fits keep (store_patch pc out)"
proof (cases "patch_into (map_patches out) pc")
  case None
  then show ?thesis using assms patch_into_fits(4) [OF None] by (auto simp: store_patch_def netmap_fits_def)
next
  case (Some ps)
  have "length ps = length (map_patches out)" using patch_into_fits(3) [OF Some] by (metis length_map)
  then show ?thesis using assms Some patch_into_fits(1-3) [OF Some] by (auto simp: store_patch_def netmap_fits_def)
qed

lemma elem_patch_fits:
  assumes "jsmn_writes jsmn_parse" "netmap_fits keep out"
  shows "yields (out_fits keep) (elem_patch jsmn_parse v out pk)"
proof -
  obtain n toks pk' where sp: "sub_parse jsmn_parse v pk = (n, toks, pk')" by (cases "sub_parse jsmn_parse v pk") auto
  have "yields patch_fits (walk_obj toks (patch_member v toks) 0 patch_zero)" if "1 \<le> n" "tok_is_obj (toks ! 0)"
    by (rule front_object_ok [OF assms(1) sp that]) (use patch_member_fits in \<open>auto simp: patch_fits_def patch_zero_def zero_key_def\<close>)
  moreover have "netmap_fits keep (out\<lparr>map_patches_overflow := True\<rparr>)" using assms(2) by (simp add: netmap_fits_def)
  ultimately show ?thesis unfolding elem_patch_def sp prod.case parse_one_patch_def using assms(2)
    by (auto intro!: yields_map elim!: yields_mono simp: store_patch_fits)
qed

end
