(* ===== verification/TL_Warm_Steps.thy ===== *)
theory TL_Warm_Steps
  imports TL_Warm
begin

text \<open>
  The part of \<open>tinylink.c\<close> that drives the warm start and feeds netmap frames to the data plane: the merge of a frame into the
  peer table (\<open>merge_peers\<close>), the handler of a frame (\<open>long_poll_handler\<close>), the boot's load, the warm start, the polls, the
  store, and the restarts.  One record holds the state that survives resets (RTC memory, flash) and the state of the running boot.

  The steps may come in any order the tasks and the mutex allow; what the platform decides (the reset reason, whether a flash
  write or the bring-up of the data plane succeeds, the clocks, our public address) is an argument of each
  step.  Two fields are history, not state of the program: \<open>v_live\<close>, a warm start has begun and neither settled, failed nor been
  left by a planned restart; and \<open>v_bad\<close>, how many warm starts ended in a crash or a hang since the last one settled or the
  last power-on.  A warm start settles when its session is live and confirmed and its record was stored; the program's own flag for it
  (\<open>sm_unsettled\<close>) and its crash count (in RTC memory) play no part in the history.
\<close>

section \<open>The peer table\<close>

definition peer_matches :: "u64 \<Rightarrow> bytes option \<Rightarrow> tl_peer_t \<Rightarrow> bool" where
  "peer_matches pid node_pub p \<longleftrightarrow> (if pid \<noteq> 0 then p_id p = pid else (case node_pub of None \<Rightarrow> False | Some k \<Rightarrow> p_node_pub p = k))"

fun peer_index_from :: "nat \<Rightarrow> u64 \<Rightarrow> bytes option \<Rightarrow> tl_peer_t list \<Rightarrow> nat option" where
  "peer_index_from j pid k [] = None"
| "peer_index_from j pid k (p # ps) = (if peer_matches pid k p then Some j else peer_index_from (j + 1) pid k ps)"

definition peer_index :: "u64 \<Rightarrow> bytes option \<Rightarrow> tl_peer_t list \<Rightarrow> nat option" where
  "peer_index pid k ps = peer_index_from 0 pid k ps"

definition remove_peer :: "u64 \<Rightarrow> tl_peer_t list \<times> bool \<Rightarrow> tl_peer_t list \<times> bool" where
  "remove_peer pid tc = (case tc of (t, changed) \<Rightarrow>
     if pid = 0 then (t, changed)
     else (case peer_index pid None t of None \<Rightarrow> (t, changed) | Some j \<Rightarrow> (take j t @ drop (j + 1) t, True)))"

definition upsert_peer :: "tl_peer_t \<Rightarrow> tl_peer_t list \<times> bool \<Rightarrow> tl_peer_t list \<times> bool" where
  "upsert_peer p tc = (case tc of (t, changed) \<Rightarrow>
     (case peer_index (p_id p) (Some (p_node_pub p)) t of
        None \<Rightarrow> if length t \<ge> TL_MAX_PEERS then (t, changed) else (t @ [p], True)
      | Some j \<Rightarrow> (t[j := p], True)))"

definition apply_patch :: "tl_peer_patch_t \<Rightarrow> tl_peer_t \<Rightarrow> tl_peer_t \<times> bool" where
  "apply_patch pc p =
    (let c1 = (pc_has_key pc \<and> p_node_pub p \<noteq> pc_node_pub pc);
         p1 = (if c1 then p\<lparr>p_node_pub := pc_node_pub pc\<rparr> else p);
         c2 = (pc_has_disco pc \<and> (\<not> p_has_disco_pub p1 \<or> p_disco_pub p1 \<noteq> pc_disco_pub pc));
         p2 = (if c2 then p1\<lparr>p_disco_pub := pc_disco_pub pc, p_has_disco_pub := True\<rparr> else p1);
         c3 = (pc_has_endpoints pc \<and> p_endpoints p2 \<noteq> pc_endpoints pc);
         p3 = (if c3 then p2\<lparr>p_endpoints := pc_endpoints pc\<rparr> else p2);
         c4 = (pc_derp_region pc \<noteq> 0 \<and> p_home_derp p3 \<noteq> pc_derp_region pc);
         p4 = (if c4 then p3\<lparr>p_home_derp := pc_derp_region pc\<rparr> else p3)
     in (p4, c1 \<or> c2 \<or> c3 \<or> c4))"

definition patch_peer :: "tl_peer_patch_t \<Rightarrow> tl_peer_t list \<times> bool \<Rightarrow> tl_peer_t list \<times> bool" where
  "patch_peer pc tc = (case tc of (t, changed) \<Rightarrow>
     (case peer_index (pc_id pc) None t of None \<Rightarrow> (t, changed)
      | Some j \<Rightarrow> (case apply_patch pc (t ! j) of (p, c) \<Rightarrow> (t[j := p], changed \<or> c))))"

definition merge_peers :: "tl_peer_t list \<Rightarrow> tl_netmap_t \<Rightarrow> tl_peer_t list \<times> bool" where
  "merge_peers t nm =
    (if map_peers nm \<noteq> [] \<and> \<not> map_peers_is_delta nm then (take TL_MAX_PEERS (map_peers nm), True)
     else fold patch_peer (map_patches nm) (fold upsert_peer (map_peers nm) (fold remove_peer (map_removed_ids nm) (t, False))))"

definition self_node_expired :: "tl_netmap_t \<Rightarrow> i64 \<Rightarrow> bool" where
  "self_node_expired nm now =
    (if \<not> map_have_self nm then False
     else if map_self_expired nm then True
     else map_self_key_expiry nm > 0 \<and> map_self_key_expiry nm \<le> now)"

section \<open>The device\<close>

record warm_dev =
  v_rtc :: tl_warm_rtc_t
  v_flash :: "bytes option"
  v_verdict :: tl_warm_rtc_verdict_t
  v_nvs :: tl_warm_nvs_t
  v_sm :: tl_warm_sm_t
  v_tables :: tl_warm_tables_t
  v_stage :: "tl_warm_rec_t option"
  v_started :: bool     \<comment> \<open>\<open>s_dataplane_started\<close>\<close>
  v_gate_shut :: bool   \<comment> \<open>\<open>s_warm_gate_shut\<close>\<close>
  v_busy :: bool        \<comment> \<open>the warm start holds \<open>s_warm_mx\<close>\<close>
  v_running :: bool     \<comment> \<open>false once \<open>esp_restart\<close> was called\<close>
  v_starts :: nat       \<comment> \<open>successful \<open>wg_dataplane_start\<close> calls of this boot\<close>
  v_live :: bool
  v_bad :: nat

type_synonym dev_keys = "bytes \<times> bytes"  \<comment> \<open>our NodeKey and the control key\<close>

definition sm_zero :: tl_warm_sm_t where
  "sm_zero = \<lparr>sm_state = TL_WARM_ST_OFF, sm_seeded = False, sm_restart = False, sm_bound_fired = False, sm_unsettled = False, sm_pending_s = 0, sm_written = 0\<rparr>"

definition rec_zero :: tl_warm_rec_t where
  "rec_zero = \<lparr>wr_written = 0, wr_self_tag = replicate 8 0, wr_ctl_tag = replicate 8 0, wr_self = [],
     wr_peer = \<lparr>wp_id = 0, wp_node_pub = zero_key, wp_disco_pub = zero_key, wp_has_disco = False, wp_addr = [], wp_ep = []\<rparr>\<rparr>"

definition no_tables :: tl_warm_tables_t where "no_tables = \<lparr>t_self = [], t_peers = []\<rparr>"

text \<open>A reset for \<open>reason\<close> and the boot's \<open>warm_load\<close>.\<close>

definition dev_boot :: "int \<Rightarrow> bool \<Rightarrow> warm_dev \<Rightarrow> warm_dev" where
  "dev_boot reason erase_ok v = (case tl_warm_load (v_rtc v) reason erase_ok (case v_flash v of None \<Rightarrow> NvsNone | Some b \<Rightarrow> NvsBlob b) of
     (lr, rtc, verdict, mirror) \<Rightarrow>
      \<lparr>v_rtc = rtc, v_flash = (if lr = TL_WARM_LOAD_ERASED then None else v_flash v), v_verdict = verdict,
       v_nvs = \<lparr>nv_valid = (mirror \<noteq> None), nv_wrote = False, nv_last_us = 0, nv_rec = (case mirror of None \<Rightarrow> rec_zero | Some r \<Rightarrow> r)\<rparr>,
       v_sm = sm_zero, v_tables = no_tables, v_stage = None, v_started = False, v_gate_shut = False, v_busy = False, v_running = True, v_starts = 0,
       v_live = False, v_bad = (if reason = TL_WARM_RST_POWERON then 0 else if v_live v \<and> reason \<noteq> TL_WARM_RST_SW then v_bad v + 1 else v_bad v)\<rparr>)"

text \<open>\<open>tinylink_warm_start\<close> up to the bring-up of the data plane: the gate, the decision, the mark, the seed.\<close>

definition warm_go_in :: "dev_keys \<Rightarrow> bool \<Rightarrow> bool \<Rightarrow> i64 \<Rightarrow> warm_dev \<Rightarrow> tl_warm_go_in_t" where
  "warm_go_in K reg_reused heap_ok now_unix v =
    \<lparr>gi_rtc = v_verdict v, gi_have_rec = nv_valid (v_nvs v),
     gi_keys_ok = (nv_valid (v_nvs v) \<and> tl_warm_rec_for (nv_rec (v_nvs v)) (fst K) (snd K)),
     gi_reg_reused = reg_reused, gi_heap_ok = heap_ok, gi_now_unix = now_unix, gi_written = wr_written (nv_rec (v_nvs v))\<rparr>"

definition warm_start_begin :: "dev_keys \<Rightarrow> bool \<Rightarrow> bool \<Rightarrow> i64 \<Rightarrow> warm_dev \<Rightarrow> warm_dev" where
  "warm_start_begin K reg_reused heap_ok now_unix v =
    (if v_gate_shut v then v
     else if tl_warm_go (warm_go_in K reg_reused heap_ok now_unix v) \<noteq> TL_WARM_GO then v\<lparr>v_gate_shut := True\<rparr>
     else (case tl_warm_sm_begin (v_rtc v) of (sm, rtc) \<Rightarrow>
       v\<lparr>v_gate_shut := True, v_sm := sm, v_rtc := rtc, v_tables := tl_warm_seed (nv_rec (v_nvs v)), v_busy := True, v_live := True\<rparr>))"

text \<open>\<open>wg_dataplane_start\<close> returned (\<open>ok\<close>: it is up).\<close>

definition warm_start_finish :: "bool \<Rightarrow> u32 \<Rightarrow> warm_dev \<Rightarrow> warm_dev" where
  "warm_start_finish ok now_s v = (case tl_warm_sm_started (v_sm v) (v_rtc v) (v_tables v) ok now_s (wr_written (nv_rec (v_nvs v))) of (sm, rtc, t) \<Rightarrow>
     v\<lparr>v_sm := sm, v_rtc := rtc, v_tables := t, v_busy := False, v_started := ok, v_starts := v_starts v + (if ok then 1 else 0), v_live := (ok \<and> v_live v)\<rparr>)"

definition warm_restart_now :: "bool \<Rightarrow> bool \<Rightarrow> warm_dev \<Rightarrow> warm_dev" where
  "warm_restart_now hung erase_ok v =
    v\<lparr>v_rtc := (if hung then tl_warm_rtc_hung (v_rtc v) else tl_warm_rtc_restart (v_rtc v)), v_flash := (if erase_ok then None else v_flash v),
      v_running := False, v_live := False, v_bad := (if hung then v_bad v + 1 else v_bad v)\<rparr>"

definition netmap_rec :: "dev_keys \<Rightarrow> bytes option \<Rightarrow> tl_warm_tables_t \<Rightarrow> tl_warm_rec_t option" where
  "netmap_rec K our t =
    (if t_self t = [] \<or> t_peers t = [] then None
     else Some (tl_warm_rec_build (t_self t) (t_peers t ! fst (tl_warm_target_index (t_peers t) our)) (fst K) (snd K)))"

definition warm_stage :: "dev_keys \<Rightarrow> bytes option \<Rightarrow> warm_dev \<Rightarrow> warm_dev" where
  "warm_stage K our v = (case netmap_rec K our (v_tables v) of None \<Rightarrow> v
     | Some r \<Rightarrow> if tl_warm_rec_storable r then v\<lparr>v_stage := Some r\<rparr> else v)"

definition warm_netmap :: "dev_keys \<Rightarrow> bytes option \<Rightarrow> bool \<Rightarrow> bool \<Rightarrow> bool \<Rightarrow> warm_dev \<Rightarrow> warm_dev" where
  "warm_netmap K our have_self expired self0_moved v =
    (case tl_warm_sm_netmap (v_sm v) (nv_rec (v_nvs v))
        \<lparr>nm_expired = expired, nm_have_self = have_self, nm_self0_moved = self0_moved,
         nm_now = (if expired \<or> self0_moved then None else netmap_rec K our (v_tables v))\<rparr> of
      (act, why, sm) \<Rightarrow> (let v1 = v\<lparr>v_sm := sm\<rparr> in if act = TL_WARM_ACT_CONFIRM then warm_stage K our v1 else v1))"

text \<open>\<open>long_poll_handler\<close> once the gate is shut.  \<open>moved\<close>: our netmap address parses and is not the one the tunnel is attached with;
  \<open>start_ok\<close>: a cold start of the data plane succeeds.\<close>

definition long_poll_handler :: "dev_keys \<Rightarrow> bytes option \<Rightarrow> tl_netmap_t \<Rightarrow> i64 \<Rightarrow> bool \<Rightarrow> bool \<Rightarrow> warm_dev \<Rightarrow> warm_dev" where
  "long_poll_handler K our nm now moved start_ok v =
    (case tl_warm_sm_frame (v_sm v) (v_tables v) of (warm, sm1, t1) \<Rightarrow>
      (let v1 = v\<lparr>v_gate_shut := True, v_sm := sm1, v_tables := t1\<rparr> in
       if self_node_expired nm now then (if warm then warm_netmap K our (map_have_self nm) True False v1 else v1)
       else (let self_in = (map_have_self nm \<and> map_self_addresses nm \<noteq> []);
                 v2 = (if self_in then v1\<lparr>v_tables := t1\<lparr>t_self := map_self_addresses nm\<rparr>\<rparr> else v1) in
         if self_in \<and> v_started v2 \<and> moved then
           (if warm then warm_netmap K our (map_have_self nm) False True v2 else v2\<lparr>v_sm := (v_sm v2)\<lparr>sm_restart := True\<rparr>\<rparr>)
         else (case merge_peers (t_peers (v_tables v2)) nm of (peers, changed) \<Rightarrow>
           (let v3 = v2\<lparr>v_tables := (v_tables v2)\<lparr>t_peers := peers\<rparr>\<rparr> in
            if warm then warm_netmap K our (map_have_self nm) False False v3
            else if \<not> v_started v3 then
              (if t_self (v_tables v3) = [] \<or> t_peers (v_tables v3) = [] \<or> \<not> start_ok then v3
               else warm_stage K our (v3\<lparr>v_started := True, v_starts := v_starts v3 + 1, v_sm := tl_warm_sm_cold (v_sm v3)\<rparr>))
            else if \<not> changed \<and> \<not> map_have_self nm then v3
            else warm_stage K our v3)))))"

definition warm_poll :: "bool \<Rightarrow> u32 \<Rightarrow> u32 \<Rightarrow> bool \<Rightarrow> i64 \<Rightarrow> bool \<Rightarrow> warm_dev \<Rightarrow> warm_dev" where
  "warm_poll long_poll now_s max_s synced now_unix erase_ok v = (case tl_warm_sm_poll (v_sm v) long_poll now_s max_s synced now_unix of (why, sm) \<Rightarrow>
     (let v1 = v\<lparr>v_sm := sm\<rparr> in if why = WarmBoundNone then v1 else warm_restart_now False erase_ok v1))"

definition warm_settles :: "warm_dev \<Rightarrow> int \<Rightarrow> bool" where
  "warm_settles v rc \<longleftrightarrow> v_live v \<and> sm_state (v_sm v) = TL_WARM_ST_CONFIRMED \<and> rc \<ge> 0"

definition warm_persist :: "u32 \<Rightarrow> i64 \<Rightarrow> u32 \<Rightarrow> u32 \<Rightarrow> bool \<Rightarrow> warm_dev \<Rightarrow> warm_dev" where
  "warm_persist now_unix now_us now_s control_rx_s write_ok v = (case v_stage v of None \<Rightarrow> v | Some r \<Rightarrow>
     (case tl_warm_store (v_nvs v) r now_unix now_us (tl_warm_sm_fresh (v_sm v) now_s control_rx_s) write_ok of (rc, nvs, blob) \<Rightarrow>
       (case tl_warm_sm_settle (v_sm v) (v_rtc v) rc of (settled, sm, rtc) \<Rightarrow>
         v\<lparr>v_nvs := nvs, v_flash := (if blob \<noteq> None \<and> write_ok then blob else v_flash v), v_sm := sm, v_rtc := rtc,
           v_live := (v_live v \<and> \<not> warm_settles v rc), v_bad := (if warm_settles v rc then 0 else v_bad v)\<rparr>)))"

section \<open>The steps\<close>

text \<open>\<open>dev_on\<close>: the steps while the power stays on, a reset of any other reason included; \<open>dev_step\<close> adds the power cycle.\<close>

inductive dev_on :: "dev_keys \<Rightarrow> warm_dev \<Rightarrow> warm_dev \<Rightarrow> bool" for K where
  dev_reset: "reason \<noteq> TL_WARM_RST_POWERON \<Longrightarrow> dev_on K v (dev_boot reason erase_ok v)"
| dev_begin: "v_running v \<Longrightarrow> \<not> v_busy v \<Longrightarrow> dev_on K v (warm_start_begin K reg_reused heap_ok now_unix v)"
| dev_finish: "v_running v \<Longrightarrow> v_busy v \<Longrightarrow> now_s + 1 \<noteq> 0 \<Longrightarrow> dev_on K v (warm_start_finish ok now_s v)"
| dev_hung: "v_running v \<Longrightarrow> v_busy v \<Longrightarrow> dev_on K v (warm_restart_now True erase_ok v)"
| dev_frame: "v_running v \<Longrightarrow> \<not> v_busy v \<Longrightarrow> dev_on K v (long_poll_handler K our nm now moved start_ok v)"
| dev_poll: "v_running v \<Longrightarrow> dev_on K v (warm_poll lp now_s max_s synced now_unix erase_ok v)"
| dev_persist: "v_running v \<Longrightarrow> \<not> v_busy v \<Longrightarrow> dev_on K v (warm_persist now_unix now_us now_s rx_s write_ok v)"

inductive dev_step :: "dev_keys \<Rightarrow> warm_dev \<Rightarrow> warm_dev \<Rightarrow> bool" for K where
  step_on: "dev_on K v w \<Longrightarrow> dev_step K v w"
| power_cycle: "dev_step K v (dev_boot TL_WARM_RST_POWERON erase_ok v)"

text \<open>From a power-on with any bytes in RTC memory and any blob in flash.\<close>

inductive dev_reach :: "dev_keys \<Rightarrow> warm_dev \<Rightarrow> bool" for K where
  power_on: "dev_reach K (dev_boot TL_WARM_RST_POWERON erase_ok v)"
| reach_step: "dev_reach K v \<Longrightarrow> dev_step K v w \<Longrightarrow> dev_reach K w"

section \<open>The invariant\<close>

definition rtc_ok :: "tl_warm_rtc_t \<Rightarrow> bool \<Rightarrow> nat \<Rightarrow> bool" where
  "rtc_ok r live bad \<longleftrightarrow> rtc_magic r = TL_WARM_RTC_MAGIC \<and> rtc_check r = tl_warm_rtc_sum r \<and> rtc_attempt r = (if live then 1 else 0) \<and> rtc_skip r \<le> 1 \<and>
     unat (rtc_crashes r) = bad \<and> bad \<le> 2 \<and> (live \<longrightarrow> bad \<le> 1) \<and> rtc_pad r = 0"

lemma sealed:
  "rtc_magic (tl_warm_rtc_seal r) = TL_WARM_RTC_MAGIC" "rtc_check (tl_warm_rtc_seal r) = tl_warm_rtc_sum (tl_warm_rtc_seal r)"
  "rtc_attempt (tl_warm_rtc_seal r) = rtc_attempt r" "rtc_skip (tl_warm_rtc_seal r) = rtc_skip r" "rtc_crashes (tl_warm_rtc_seal r) = rtc_crashes r" "rtc_pad (tl_warm_rtc_seal r) = rtc_pad r"
  by (simp_all add: tl_warm_rtc_seal_def Let_def tl_warm_rtc_sum_def)

lemma crashes_less: "rtc_ok r live bad \<Longrightarrow> rtc_crashes r < TL_WARM_RTC_MAX_CRASHES \<longleftrightarrow> bad \<le> 1"
  by (auto simp: rtc_ok_def word_less_nat_alt TL_WARM_RTC_MAX_CRASHES_def)

lemma rtc_bump:
  assumes "rtc_ok r live bad" "bad \<le> 1"
  shows "unat (rtc_crashes r + 1) = bad + 1"
  using assms by (simp add: rtc_ok_def unat_word_ariths)

lemma rtc_ok_begin: "rtc_ok r live bad \<Longrightarrow> bad \<le> 1 \<Longrightarrow> rtc_ok (tl_warm_rtc_seal (r\<lparr>rtc_attempt := 1\<rparr>)) True bad"
  by (simp add: rtc_ok_def sealed)

lemma rtc_ok_clear: "rtc_ok r live bad \<Longrightarrow> rtc_ok (tl_warm_rtc_seal (r\<lparr>rtc_attempt := 0\<rparr>)) False bad"
  by (simp add: rtc_ok_def sealed)

lemma rtc_ok_settle: "rtc_ok r live bad \<Longrightarrow> rtc_ok (tl_warm_rtc_seal (r\<lparr>rtc_attempt := 0, rtc_crashes := 0\<rparr>)) False 0"
  by (simp add: rtc_ok_def sealed)

lemma rtc_ok_restart: "rtc_ok r live bad \<Longrightarrow> rtc_ok (tl_warm_rtc_restart r) False bad \<and> rtc_skip (tl_warm_rtc_restart r) = 1"
  by (simp add: rtc_ok_def sealed tl_warm_rtc_restart_def)

lemma rtc_ok_hung: "rtc_ok r live bad \<Longrightarrow> bad \<le> 1 \<Longrightarrow> rtc_ok (tl_warm_rtc_hung r) False (bad + 1) \<and> rtc_skip (tl_warm_rtc_hung r) = 1"
proof -
  assume a: "rtc_ok r live bad" "bad \<le> 1"
  then have "rtc_crashes r < TL_WARM_RTC_MAX_CRASHES" using crashes_less by blast
  then show ?thesis using a rtc_bump [OF a] by (simp add: rtc_ok_def sealed tl_warm_rtc_restart_def tl_warm_rtc_hung_def)
qed

lemma rtc_boot_power: "tl_warm_rtc_boot r TL_WARM_RST_POWERON = (tl_warm_rtc_seal rtc_zero, TL_WARM_RTC_CLEAN, False) \<and> rtc_ok (tl_warm_rtc_seal rtc_zero) False 0"
  by (simp add: tl_warm_rtc_boot_def rtc_ok_def sealed rtc_zero_def)

lemma rtc_boot_ok:
  assumes "rtc_ok r live bad" "reason \<noteq> TL_WARM_RST_POWERON"
  defines "crash \<equiv> live \<and> reason \<noteq> TL_WARM_RST_SW"
  defines "bad1 \<equiv> (if crash then bad + 1 else bad)"
  shows "\<exists>r1. tl_warm_rtc_boot r reason = (r1, if bad1 \<ge> 2 then TL_WARM_RTC_OFF else if crash then TL_WARM_RTC_CRASHED
      else if rtc_skip r \<noteq> 0 then TL_WARM_RTC_RESTARTED else TL_WARM_RTC_CLEAN, crash) \<and> rtc_ok r1 False bad1"
proof -
  have valid: "\<not> (reason = TL_WARM_RST_POWERON \<or> rtc_magic r \<noteq> TL_WARM_RTC_MAGIC \<or> rtc_check r \<noteq> tl_warm_rtc_sum r \<or> rtc_attempt r > 1 \<or> rtc_skip r > 1 \<or>
        rtc_crashes r > TL_WARM_RTC_MAX_CRASHES \<or> rtc_pad r \<noteq> 0)"
    using assms(1,2) by (auto simp: rtc_ok_def word_less_nat_alt TL_WARM_RTC_MAX_CRASHES_def word_le_nat_alt)
  have c: "(rtc_attempt r \<noteq> 0 \<and> reason \<noteq> TL_WARM_RST_SW) = crash" using assms(1) by (auto simp: crash_def rtc_ok_def)
  define r1 where "r1 = (if crash then r\<lparr>rtc_crashes := rtc_crashes r + 1\<rparr> else r)"
  define r2 where "r2 = tl_warm_rtc_seal (r1\<lparr>rtc_attempt := 0, rtc_skip := 0\<rparr>)"
  have lt: "crash \<Longrightarrow> rtc_crashes r < TL_WARM_RTC_MAX_CRASHES" "crash \<Longrightarrow> bad \<le> 1" using crashes_less [OF assms(1)] assms(1) by (auto simp: crash_def rtc_ok_def)
  have ok: "rtc_ok r2 False bad1" using assms(1) lt(2) rtc_bump [OF assms(1)] by (auto simp: r2_def r1_def bad1_def rtc_ok_def sealed)
  have "rtc_crashes r2 \<ge> TL_WARM_RTC_MAX_CRASHES \<longleftrightarrow> bad1 \<ge> 2" using crashes_less [OF ok] by auto
  moreover have "(if crash \<and> rtc_crashes r < TL_WARM_RTC_MAX_CRASHES then r\<lparr>rtc_crashes := rtc_crashes r + 1\<rparr> else r) = r1" using lt(1) by (auto simp: r1_def)
  ultimately have "tl_warm_rtc_boot r reason = (r2, if bad1 \<ge> 2 then TL_WARM_RTC_OFF else if crash then TL_WARM_RTC_CRASHED
      else if rtc_skip r \<noteq> 0 then TL_WARM_RTC_RESTARTED else TL_WARM_RTC_CLEAN, crash)"
    unfolding tl_warm_rtc_boot_def c Let_def using valid by (simp only: if_False r2_def [symmetric])
  then show ?thesis using ok by blast
qed

definition sm_ok :: "warm_dev \<Rightarrow> bool" where
  "sm_ok v \<longleftrightarrow> (sm_state (v_sm v) = TL_WARM_ST_PENDING \<longrightarrow> v_live v \<and> v_started v \<and> (sm_restart (v_sm v) \<or> sm_pending_s (v_sm v) \<noteq> 0)) \<and>
     (sm_unsettled (v_sm v) \<longleftrightarrow> v_live v \<and> sm_state (v_sm v) = TL_WARM_ST_CONFIRMED) \<and> (v_live v \<and> \<not> v_busy v \<longrightarrow> v_started v) \<and> \<not> sm_bound_fired (v_sm v) \<and>
     (v_busy v \<longrightarrow> v_live v \<and> \<not> v_started v \<and> sm_state (v_sm v) = TL_WARM_ST_OFF \<and> v_gate_shut v \<and> \<not> sm_unsettled (v_sm v)) \<and>
     (\<not> v_gate_shut v \<longrightarrow> \<not> v_started v \<and> sm_state (v_sm v) = TL_WARM_ST_OFF) \<and>
     v_starts v = (if v_started v then 1 else 0)"

definition dev_inv :: "warm_dev \<Rightarrow> bool" where
  "dev_inv v \<longleftrightarrow> rtc_ok (v_rtc v) (v_live v) (v_bad v) \<and> v_starts v \<le> 1 \<and>
     (v_running v \<longrightarrow> sm_ok v \<and> (v_verdict v = TL_WARM_RTC_CLEAN \<longrightarrow> v_bad v \<le> 1))"

lemma boot_fields:
  "v_sm (dev_boot reason e v) = sm_zero" "v_running (dev_boot reason e v)" "v_starts (dev_boot reason e v) = 0" "\<not> v_started (dev_boot reason e v)"
  "\<not> v_busy (dev_boot reason e v)" "\<not> v_live (dev_boot reason e v)" "\<not> v_gate_shut (dev_boot reason e v)"
  "v_bad (dev_boot reason e v) = (if reason = TL_WARM_RST_POWERON then 0 else if v_live v \<and> reason \<noteq> TL_WARM_RST_SW then v_bad v + 1 else v_bad v)"
  "v_rtc (dev_boot reason e v) = fst (tl_warm_rtc_boot (v_rtc v) reason)" "v_verdict (dev_boot reason e v) = fst (snd (tl_warm_rtc_boot (v_rtc v) reason))"
  by (auto simp: dev_boot_def tl_warm_load_def split: prod.split option.split nvs_read.split)

lemma boot_sm_ok: "sm_ok (dev_boot reason e v)"
  by (simp add: sm_ok_def boot_fields) (simp add: sm_zero_def)

lemma boot_inv: "dev_inv v \<or> reason = TL_WARM_RST_POWERON \<Longrightarrow> dev_inv (dev_boot reason e v)"
proof (cases "reason = TL_WARM_RST_POWERON")
  case True
  then show ?thesis using rtc_boot_power [of "v_rtc v"] boot_sm_ok by (simp add: dev_inv_def boot_fields)
next
  case False
  assume "dev_inv v \<or> reason = TL_WARM_RST_POWERON"
  then have "rtc_ok (v_rtc v) (v_live v) (v_bad v)" using False by (simp add: dev_inv_def)
  from rtc_boot_ok [OF this False] show ?thesis using False boot_sm_ok [of reason e v] by (auto simp: dev_inv_def boot_fields split: if_splits)
qed

lemma restart_inv:
  assumes "dev_inv v" "hung \<longrightarrow> v_live v"
  shows "dev_inv (warm_restart_now hung e v)"
proof -
  have r: "rtc_ok (v_rtc v) (v_live v) (v_bad v)" "v_live v \<longrightarrow> v_bad v \<le> 1" using assms(1) by (auto simp: dev_inv_def rtc_ok_def)
  show ?thesis using assms rtc_ok_restart [OF r(1)] rtc_ok_hung [OF r(1)] r(2) by (auto simp: dev_inv_def warm_restart_now_def)
qed

lemma go_clean: "tl_warm_go i = TL_WARM_GO \<Longrightarrow> gi_rtc i = TL_WARM_RTC_CLEAN"
  by (cases "gi_rtc i") (auto simp: tl_warm_go_def split: if_splits)

lemma begin_inv:
  assumes "dev_inv v" "v_running v" "\<not> v_busy v"
  shows "dev_inv (warm_start_begin K reg heap now v)"
proof (cases "v_gate_shut v \<or> tl_warm_go (warm_go_in K reg heap now v) \<noteq> TL_WARM_GO")
  case True
  then show ?thesis using assms by (auto simp: warm_start_begin_def dev_inv_def sm_ok_def)
next
  case False
  then have "v_verdict v = TL_WARM_RTC_CLEAN" using go_clean [of "warm_go_in K reg heap now v"] by (simp add: warm_go_in_def)
  then have b: "v_bad v \<le> 1" using assms by (simp add: dev_inv_def)
  have "rtc_ok (v_rtc v) (v_live v) (v_bad v)" using assms by (simp add: dev_inv_def)
  then show ?thesis using assms False b rtc_ok_begin [of "v_rtc v" "v_live v" "v_bad v"]
    by (auto simp: warm_start_begin_def tl_warm_sm_begin_def dev_inv_def sm_ok_def)
qed

lemma finish_inv:
  assumes "dev_inv v" "v_running v" "v_busy v" "now_s + 1 \<noteq> 0"
  shows "dev_inv (warm_start_finish ok now_s v)"
proof -
  have r: "rtc_ok (v_rtc v) (v_live v) (v_bad v)" "v_live v" using assms by (auto simp: dev_inv_def sm_ok_def)
  show ?thesis using assms r rtc_ok_clear [OF r(1)] by (auto simp: warm_start_finish_def tl_warm_sm_started_def dev_inv_def sm_ok_def)
qed

lemma stage_fields:
  "v_rtc (warm_stage K our v) = v_rtc v" "v_live (warm_stage K our v) = v_live v" "v_bad (warm_stage K our v) = v_bad v" "v_starts (warm_stage K our v) = v_starts v"
  "v_running (warm_stage K our v) = v_running v" "v_verdict (warm_stage K our v) = v_verdict v" "v_sm (warm_stage K our v) = v_sm v" "v_started (warm_stage K our v) = v_started v"
  "v_busy (warm_stage K our v) = v_busy v" "v_gate_shut (warm_stage K our v) = v_gate_shut v" "v_tables (warm_stage K our v) = v_tables v" "v_nvs (warm_stage K our v) = v_nvs v"
  by (auto simp: warm_stage_def split: option.split)

lemma stage_inv: "dev_inv (warm_stage K our v) = dev_inv v"
  by (simp add: dev_inv_def sm_ok_def stage_fields)

lemma netmap_inv:
  assumes "dev_inv v" "v_running v"
  shows "dev_inv (warm_netmap K our h x s v)"
proof -
  define i where "i = \<lparr>nm_expired = x, nm_have_self = h, nm_self0_moved = s, nm_now = (if x \<or> s then None else netmap_rec K our (v_tables v))\<rparr>"
  obtain act why sm where n: "tl_warm_sm_netmap (v_sm v) (nv_rec (v_nvs v)) i = (act, why, sm)" by (metis prod_cases3)
  have "dev_inv (v\<lparr>v_sm := sm\<rparr>)"
    using assms n by (auto simp: tl_warm_sm_netmap_def warm_restart_def Let_def dev_inv_def sm_ok_def split: if_splits option.splits)
  then show ?thesis by (simp add: warm_netmap_def i_def [symmetric] n Let_def stage_inv)
qed

lemma persist_inv:
  assumes "dev_inv v" "v_running v"
  shows "dev_inv (warm_persist u us s rx ok v)"
proof -
  have r: "rtc_ok (v_rtc v) (v_live v) (v_bad v)" using assms by (simp add: dev_inv_def)
  show ?thesis using assms rtc_ok_settle [OF r]
    by (auto simp: warm_persist_def warm_settles_def tl_warm_sm_settle_def dev_inv_def sm_ok_def split: option.split prod.split)
qed

lemma poll_inv:
  assumes "dev_inv v" "v_running v"
  shows "dev_inv (warm_poll lp now_s max_s synced now_unix e v)"
proof -
  obtain why sm where p: "tl_warm_sm_poll (v_sm v) lp now_s max_s synced now_unix = (why, sm)" by (metis prod.exhaust)
  show ?thesis
  proof (cases "why = WarmBoundNone")
    case True
    then have "sm = v_sm v" using p by (auto simp: tl_warm_sm_poll_def tl_warm_sm_bound_def Let_def split: if_splits)
    then show ?thesis using True p assms(1) by (simp add: warm_poll_def)
  next
    case False
    have r: "rtc_ok (v_rtc v) (v_live v) (v_bad v)" using assms by (simp add: dev_inv_def)
    then show ?thesis using False p assms(1) rtc_ok_restart [OF r] by (auto simp: warm_poll_def Let_def warm_restart_now_def dev_inv_def)
  qed
qed

lemma frame_inv:
  assumes "dev_inv v" "v_running v" "\<not> v_busy v"
  shows "dev_inv (long_poll_handler K our nm now moved start_ok v)"
proof -
  obtain warm sm1 t1 where f: "tl_warm_sm_frame (v_sm v) (v_tables v) = (warm, sm1, t1)" by (metis prod_cases3)
  have sm1: "warm = (sm_state (v_sm v) = TL_WARM_ST_PENDING)" "sm1 = (v_sm v)\<lparr>sm_seeded := False\<rparr>"
    using f by (auto simp: tl_warm_sm_frame_def split: if_splits)
  have base: "dev_inv (v\<lparr>v_gate_shut := True, v_sm := sm1, v_tables := t\<rparr>)" for t
    using assms by (auto simp: dev_inv_def sm_ok_def sm1)
  have nm: "dev_inv (warm_netmap K our h x s (v\<lparr>v_gate_shut := True, v_sm := sm1, v_tables := t\<rparr>))" for h x s t
    using netmap_inv [OF base] assms(2) by simp
  have restart: "dev_inv (v\<lparr>v_gate_shut := True, v_tables := t, v_sm := sm1\<lparr>sm_restart := True\<rparr>\<rparr>)" for t
    using base [of t] assms(2) by (auto simp: dev_inv_def sm_ok_def)
  have cold: "\<not> v_started v \<Longrightarrow> dev_inv (v\<lparr>v_gate_shut := True, v_tables := t, v_started := True, v_starts := v_starts v + 1, v_sm := tl_warm_sm_cold sm1\<rparr>)" for t
    using base [of t] assms(2,3) by (auto simp: dev_inv_def sm_ok_def tl_warm_sm_cold_def)
  show ?thesis unfolding long_poll_handler_def f
    using base nm restart cold by (auto simp: Let_def stage_inv split: prod.split)
qed

lemma on_inv: "dev_on K v w \<Longrightarrow> dev_inv v \<Longrightarrow> dev_inv w"
proof (induction rule: dev_on.induct)
  case (dev_hung v e)
  then show ?case by (intro restart_inv) (auto simp: dev_inv_def sm_ok_def)
qed (auto intro: boot_inv begin_inv finish_inv frame_inv poll_inv persist_inv)

lemma step_inv: "dev_step K v w \<Longrightarrow> dev_inv v \<Longrightarrow> dev_inv w"
  by (erule dev_step.cases) (auto intro: on_inv boot_inv)

lemma reach_dev_inv: "dev_reach K v \<Longrightarrow> dev_inv v"
  by (induction rule: dev_reach.induct) (auto intro: boot_inv step_inv)

section \<open>The merge of a frame into the peer table\<close>

definition nz_ids :: "tl_peer_t list \<Rightarrow> u64 list" where "nz_ids t = filter (\<lambda>i. i \<noteq> 0) (map p_id t)"

lemma peer_index_from_Some: "peer_index_from n pid k t = Some j \<Longrightarrow> n \<le> j \<and> j - n < length t \<and> peer_matches pid k (t ! (j - n))"
proof (induction t arbitrary: n)
  case (Cons p t)
  show ?case
  proof (cases "peer_matches pid k p")
    case False
    then have "n + 1 \<le> j \<and> j - (n + 1) < length t \<and> peer_matches pid k (t ! (j - (n + 1)))" using Cons by simp
    moreover from this have "(p # t) ! (j - n) = t ! (j - (n + 1))" by (simp add: nth_Cons')
    ultimately show ?thesis by auto
  qed (use Cons in auto)
qed simp

lemma peer_index_Some:
  assumes "peer_index pid k t = Some j"
  shows "j < length t \<and> peer_matches pid k (t ! j) \<and> t = take j t @ t ! j # drop (j + 1) t"
  using peer_index_from_Some [of 0 pid k t j] assms by (simp add: peer_index_def id_take_nth_drop)

lemma peer_index_from_None: "peer_index_from n pid k t = None \<longleftrightarrow> (\<forall>p \<in> set t. \<not> peer_matches pid k p)"
  by (induction t arbitrary: n) auto

lemma peer_index_None: "pid \<noteq> 0 \<Longrightarrow> peer_index pid k t = None \<longleftrightarrow> pid \<notin> set (nz_ids t)"
  by (auto simp: peer_index_def peer_index_from_None peer_matches_def nz_ids_def)

lemma nz_ids_split [simp]: "nz_ids (xs @ ys) = nz_ids xs @ nz_ids ys" "nz_ids (p # ys) = (if p_id p = 0 then nz_ids ys else p_id p # nz_ids ys)" "nz_ids [] = []"
  by (auto simp: nz_ids_def)

lemma nz_ids_at:
  assumes "peer_index pid k t = Some j"
  shows "nz_ids t = nz_ids (take j t) @ nz_ids [t ! j] @ nz_ids (drop (j + 1) t)" "nz_ids (t[j := p]) = nz_ids (take j t) @ nz_ids [p] @ nz_ids (drop (j + 1) t)"
    "pid \<noteq> 0 \<Longrightarrow> p_id (t ! j) = pid"
proof -
  have j: "j < length t" "peer_matches pid k (t ! j)" "t = take j t @ t ! j # drop (j + 1) t" using peer_index_Some [OF assms] by blast+
  show "nz_ids t = nz_ids (take j t) @ nz_ids [t ! j] @ nz_ids (drop (j + 1) t)" using arg_cong [OF j(3), of nz_ids] by simp
  show "nz_ids (t[j := p]) = nz_ids (take j t) @ nz_ids [p] @ nz_ids (drop (j + 1) t)" using j(1) by (simp add: upd_conv_take_nth_drop)
  show "pid \<noteq> 0 \<Longrightarrow> p_id (t ! j) = pid" using j(2) by (simp add: peer_matches_def)
qed

text \<open>One removal, one upsert and one patch, on the table and on its nonzero ids.\<close>

lemma remove_peer_ids:
  assumes "distinct (nz_ids t)"
  shows "nz_ids (fst (remove_peer i (t, c))) = removeAll i (nz_ids t) \<and> length (fst (remove_peer i (t, c))) \<le> length t"
proof (cases "i = 0 \<or> peer_index i None t = None")
  case True
  then have "fst (remove_peer i (t, c)) = t" "i \<notin> set (nz_ids t)" using peer_index_None [of i None t] by (auto simp: remove_peer_def nz_ids_def split: option.split)
  then show ?thesis by simp
next
  case False
  then obtain j where j: "i \<noteq> 0" "peer_index i None t = Some j" by auto
  then show ?thesis using assms nz_ids_at(1,3) [OF j(2)] peer_index_Some [OF j(2)] by (auto simp: remove_peer_def)
qed

lemma upsert_peer_ids:
  "length t \<le> length (fst (upsert_peer p (t, c))) \<and> (length t \<le> TL_MAX_PEERS \<longrightarrow> length (fst (upsert_peer p (t, c))) \<le> TL_MAX_PEERS) \<and>
   (distinct (nz_ids t) \<longrightarrow> distinct (nz_ids (fst (upsert_peer p (t, c))))) \<and> set (nz_ids (fst (upsert_peer p (t, c)))) \<subseteq> insert (p_id p) (set (nz_ids t)) \<and>
   (p_id p \<noteq> 0 \<longrightarrow> set (nz_ids t) \<subseteq> set (nz_ids (fst (upsert_peer p (t, c)))) \<and>
     (p_id p \<in> set (nz_ids (fst (upsert_peer p (t, c)))) \<or> length (fst (upsert_peer p (t, c))) \<ge> TL_MAX_PEERS))"
proof (cases "peer_index (p_id p) (Some (p_node_pub p)) t")
  case None
  then show ?thesis using peer_index_None [of "p_id p" "Some (p_node_pub p)" t] by (auto simp: upsert_peer_def)
next
  case (Some j)
  then show ?thesis using nz_ids_at(1,3) [OF Some] nz_ids_at(2) [OF Some, of p] by (auto simp: upsert_peer_def)
qed

lemma patch_keeps: "p_id (fst (apply_patch pc p)) = p_id p" "\<not> snd (apply_patch pc p) \<Longrightarrow> fst (apply_patch pc p) = p"
  by (auto simp: apply_patch_def Let_def)

lemma patch_peer_ids: "nz_ids (fst (patch_peer pc (t, c))) = nz_ids t \<and> length (fst (patch_peer pc (t, c))) = length t"
proof (cases "peer_index (pc_id pc) None t")
  case (Some j)
  then show ?thesis using nz_ids_at(1,2) [OF Some] patch_keeps(1) [of pc "t ! j"] by (auto simp: patch_peer_def split: prod.split)
qed (simp add: patch_peer_def)

lemma step_flag:
  "\<not> snd (remove_peer i (t, c)) \<Longrightarrow> \<not> c \<and> fst (remove_peer i (t, c)) = t"
  "\<not> snd (upsert_peer p (t, c)) \<Longrightarrow> \<not> c \<and> fst (upsert_peer p (t, c)) = t"
  "\<not> snd (patch_peer pc (t, c)) \<Longrightarrow> \<not> c \<and> fst (patch_peer pc (t, c)) = t"
  using patch_keeps(2) [of pc] by (auto simp: remove_peer_def upsert_peer_def patch_peer_def split: option.splits prod.splits if_splits) (metis fst_conv list_update_id snd_conv)+

lemma fold_flag:
  assumes "\<And>x t c. \<not> snd (f x (t, c)) \<Longrightarrow> \<not> c \<and> fst (f x (t, c)) = t" "\<not> snd (fold f xs (t, c))"
  shows "\<not> c \<and> fst (fold f xs (t, c)) = t"
  using assms(2)
proof (induction xs arbitrary: t c)
  case (Cons x xs)
  obtain t1 c1 where f: "f x (t, c) = (t1, c1)" by (metis prod.exhaust)
  then have "\<not> snd (fold f xs (t1, c1))" using Cons.prems by simp
  then have "\<not> c1 \<and> fst (fold f xs (t1, c1)) = t1" by (rule Cons.IH)
  then show ?case using f assms(1) [of x t c] by auto
qed simp

lemma removals_length: "length (fst (fold remove_peer is (t, c))) \<le> length t"
proof (induction "is" arbitrary: t c)
  case (Cons i "is")
  obtain t1 c1 where f: "remove_peer i (t, c) = (t1, c1)" by (metis prod.exhaust)
  then have "length t1 \<le> length t" by (auto simp: remove_peer_def split: if_splits option.splits)
  then show ?case using f Cons.IH [of t1 c1] by simp
qed simp

lemma removals:
  assumes "distinct (nz_ids t)"
  shows "set (nz_ids (fst (fold remove_peer is (t, c)))) = set (nz_ids t) - set is \<and> distinct (nz_ids (fst (fold remove_peer is (t, c))))"
  using assms
proof (induction "is" arbitrary: t c)
  case (Cons i "is")
  obtain t1 c1 where f: "remove_peer i (t, c) = (t1, c1)" by (metis prod.exhaust)
  then have t1: "nz_ids t1 = removeAll i (nz_ids t)" using remove_peer_ids [OF Cons.prems, of i c] by simp_all
  then have "distinct (nz_ids t1)" using Cons.prems by (simp add: distinct_removeAll)
  from Cons.IH [OF this, of c1] show ?case using f t1 by auto
qed simp

lemma upserts:
  "length t \<le> length (fst (fold upsert_peer ps (t, c))) \<and> (length t \<le> TL_MAX_PEERS \<longrightarrow> length (fst (fold upsert_peer ps (t, c))) \<le> TL_MAX_PEERS) \<and>
   (distinct (nz_ids t) \<longrightarrow> distinct (nz_ids (fst (fold upsert_peer ps (t, c))))) \<and> set (nz_ids (fst (fold upsert_peer ps (t, c)))) \<subseteq> set (nz_ids t) \<union> p_id ` set ps \<and>
   ((\<forall>p \<in> set ps. p_id p \<noteq> 0) \<longrightarrow> set (nz_ids t) \<subseteq> set (nz_ids (fst (fold upsert_peer ps (t, c)))) \<and>
     (p_id ` set ps \<subseteq> set (nz_ids (fst (fold upsert_peer ps (t, c)))) \<or> length (fst (fold upsert_peer ps (t, c))) \<ge> TL_MAX_PEERS))"
proof (induction ps arbitrary: t c)
  case (Cons p ps)
  obtain t1 c1 where f: "upsert_peer p (t, c) = (t1, c1)" by (metis prod.exhaust)
  note one = upsert_peer_ids [of t p c, unfolded f fst_conv]
  define r where "r = fst (fold upsert_peer ps (t1, c1))"
  note rest = Cons.IH [of t1 c1, folded r_def]
  have e: "fst (fold upsert_peer (p # ps) (t, c)) = r" using f by (simp add: r_def)
  have i: "p_id ` set (p # ps) = insert (p_id p) (p_id ` set ps)" by simp
  have l: "length t \<le> length t1" "length t1 \<le> length r" using one rest by blast+
  have "(\<forall>q \<in> set (p # ps). p_id q \<noteq> 0) \<longrightarrow> set (nz_ids t) \<subseteq> set (nz_ids r) \<and> (p_id ` set (p # ps) \<subseteq> set (nz_ids r) \<or> TL_MAX_PEERS \<le> length r)"
  proof
    assume "\<forall>q \<in> set (p # ps). p_id q \<noteq> 0"
    then have "p_id p \<noteq> 0" "\<forall>q \<in> set ps. p_id q \<noteq> 0" by simp_all
    then have a: "set (nz_ids t) \<subseteq> set (nz_ids t1)" "set (nz_ids t1) \<subseteq> set (nz_ids r)" "p_id p \<in> set (nz_ids t1) \<or> TL_MAX_PEERS \<le> length t1"
      "p_id ` set ps \<subseteq> set (nz_ids r) \<or> TL_MAX_PEERS \<le> length r" using one rest by blast+
    then show "set (nz_ids t) \<subseteq> set (nz_ids r) \<and> (p_id ` set (p # ps) \<subseteq> set (nz_ids r) \<or> TL_MAX_PEERS \<le> length r)"
      unfolding i using l(2) order_trans [of TL_MAX_PEERS "length t1" "length r"] by blast
  qed
  moreover have "set (nz_ids r) \<subseteq> set (nz_ids t) \<union> p_id ` set (p # ps)" unfolding i using one rest by blast
  ultimately show ?case unfolding e using one rest order_trans [OF l] by blast
qed simp

lemma patches: "nz_ids (fst (fold patch_peer pcs (t, c))) = nz_ids t \<and> length (fst (fold patch_peer pcs (t, c))) = length t"
proof (induction pcs arbitrary: t c)
  case (Cons pc pcs)
  obtain t1 c1 where f: "patch_peer pc (t, c) = (t1, c1)" by (metis prod.exhaust)
  then show ?case using Cons.IH [of t1 c1] patch_peer_ids [of pc t c] by simp
qed simp

text \<open>What a frame makes of a table, written without the loops.  A patch sets the fields it has; the peers that stay are those whose id
  is not removed; a peer the frame brings (the last of its id) stands in for the one of its id; the ids the
  table does not know follow in the order of the frame, as far as the table has room.\<close>

definition patched :: "tl_peer_patch_t \<Rightarrow> tl_peer_t \<Rightarrow> tl_peer_t" where
  "patched pc p = p\<lparr>p_node_pub := (if pc_has_key pc then pc_node_pub pc else p_node_pub p),
     p_disco_pub := (if pc_has_disco pc then pc_disco_pub pc else p_disco_pub p), p_has_disco_pub := (p_has_disco_pub p \<or> pc_has_disco pc),
     p_home_derp := (if pc_derp_region pc \<noteq> 0 then pc_derp_region pc else p_home_derp p),
     p_endpoints := (if pc_has_endpoints pc then pc_endpoints pc else p_endpoints p)\<rparr>"

definition all_patches :: "tl_peer_patch_t list \<Rightarrow> tl_peer_t \<Rightarrow> tl_peer_t" where
  "all_patches pcs p = fold patched (filter (\<lambda>pc. pc_id pc \<noteq> 0 \<and> p_id p = pc_id pc) pcs) p"

definition newest :: "tl_peer_t list \<Rightarrow> u64 \<Rightarrow> tl_peer_t" where "newest ps i = last (filter (\<lambda>q. p_id q = i) ps)"

definition renewed :: "tl_peer_t list \<Rightarrow> tl_peer_t \<Rightarrow> tl_peer_t" where
  "renewed ps p = (if p_id p \<in> set (map p_id ps) then newest ps (p_id p) else p)"

definition fresh_ids :: "tl_peer_t list \<Rightarrow> tl_peer_t list \<Rightarrow> u64 list" where
  "fresh_ids kept ps = filter (\<lambda>i. i \<notin> set (map p_id kept)) (rev (remdups (rev (map p_id ps))))"

definition brought_table :: "tl_peer_t list \<Rightarrow> tl_peer_t list \<Rightarrow> tl_peer_t list" where
  "brought_table kept ps = map (renewed ps) kept @ take (TL_MAX_PEERS - length kept) (map (newest ps) (fresh_ids kept ps))"

definition merged_table :: "tl_peer_t list \<Rightarrow> tl_netmap_t \<Rightarrow> tl_peer_t list" where
  "merged_table t nm =
    (let kept = filter (\<lambda>p. p_id p = 0 \<or> p_id p \<notin> set (map_removed_ids nm)) t
     in map (all_patches (map_patches nm)) (brought_table kept (map_peers nm)))"

lemma patched_apply: "fst (apply_patch pc p) = patched pc p"
  by (cases p) (simp add: apply_patch_def patched_def Let_def)

lemma patched_id [simp]: "p_id (patched pc p) = p_id p"
  by (simp add: patched_def)

lemma index_map:
  assumes "distinct (nz_ids t)" "i \<noteq> 0" "peer_index i k t = Some j"
  shows "t[j := q] = map (\<lambda>p. if p_id p = i then q else p) t" "take j t @ drop (j + 1) t = filter (\<lambda>p. p_id p \<noteq> i) t"
    "t[j := f (t ! j)] = map (\<lambda>p. if p_id p = i then f p else p) t"
proof -
  have j: "j < length t" "t = take j t @ t ! j # drop (j + 1) t" using peer_index_Some [OF assms(3)] by blast+
  have e: "p_id (t ! j) = i" using nz_ids_at(3) [OF assms(3,2)] .
  have "i \<notin> set (nz_ids (take j t))" "i \<notin> set (nz_ids (drop (j + 1) t))" using assms(1,2) nz_ids_at(1) [OF assms(3)] e by (auto)
  then have out: "\<forall>p \<in> set (take j t). p_id p \<noteq> i" "\<forall>p \<in> set (drop (j + 1) t). p_id p \<noteq> i" using assms(2) by (auto simp: nz_ids_def)
  have m: "map (\<lambda>p. if p_id p = i then g p else p) t = take j t @ g (t ! j) # drop (j + 1) t" for g
    by (subst j(2)) (use out e in \<open>simp add: map_idI\<close>)
  show "t[j := q] = map (\<lambda>p. if p_id p = i then q else p) t" "t[j := f (t ! j)] = map (\<lambda>p. if p_id p = i then f p else p) t"
    using m j(1) by (simp_all add: upd_conv_take_nth_drop)
  show "take j t @ drop (j + 1) t = filter (\<lambda>p. p_id p \<noteq> i) t" by (subst (3) j(2)) (use out e in simp)
qed

lemma no_index_map:
  assumes "i \<noteq> 0" "peer_index i k t = None"
  shows "map (\<lambda>p. if p_id p = i then f p else p) t = t" "filter (\<lambda>p. p_id p \<noteq> i) t = t"
  using assms peer_index_None [of i k t] by (auto simp: nz_ids_def intro!: map_idI filter_True)

lemma removals_exact:
  assumes "distinct (nz_ids t)"
  shows "fst (fold remove_peer is (t, c)) = filter (\<lambda>p. p_id p = 0 \<or> p_id p \<notin> set is) t"
  using assms
proof (induction "is" arbitrary: t c)
  case (Cons i "is")
  obtain t1 c1 where f: "remove_peer i (t, c) = (t1, c1)" by (metis prod.exhaust)
  have t1: "t1 = filter (\<lambda>p. p_id p = 0 \<or> p_id p \<noteq> i) t"
  proof (cases "i = 0")
    case True
    then show ?thesis using f by (auto simp: remove_peer_def)
  next
    case False
    then have "filter (\<lambda>p. p_id p = 0 \<or> p_id p \<noteq> i) t = filter (\<lambda>p. p_id p \<noteq> i) t" by (intro filter_cong) auto
    then show ?thesis using f False index_map(2) [OF Cons.prems False] no_index_map(2) [OF False] by (auto simp: remove_peer_def split: option.splits)
  qed
  have "distinct (nz_ids t1)" using remove_peer_ids [OF Cons.prems, of i c] f Cons.prems by (simp add: distinct_removeAll)
  from Cons.IH [OF this, of c1] show ?case using f t1 by (auto intro!: filter_cong)
qed simp

lemma patches_exact:
  assumes "distinct (nz_ids t)"
  shows "fst (fold patch_peer pcs (t, c)) = map (all_patches pcs) t"
  using assms
proof (induction pcs arbitrary: t c)
  case Nil
  then show ?case by (simp add: all_patches_def)
next
  case (Cons pc pcs)
  obtain t1 c1 where f: "patch_peer pc (t, c) = (t1, c1)" by (metis prod.exhaust)
  have t1: "t1 = map (\<lambda>p. if pc_id pc \<noteq> 0 \<and> p_id p = pc_id pc then patched pc p else p) t"
  proof (cases "pc_id pc = 0 \<or> peer_index (pc_id pc) None t = None")
    case True
    then have "peer_index (pc_id pc) None t = None" by (auto simp: peer_index_def peer_index_from_None peer_matches_def)
    then show ?thesis using f no_index_map(1) [of "pc_id pc" None t "patched pc"] by (cases "pc_id pc = 0") (simp_all add: patch_peer_def)
  next
    case False
    then obtain j where j: "pc_id pc \<noteq> 0" "peer_index (pc_id pc) None t = Some j" by auto
    then show ?thesis using f index_map(3) [OF Cons.prems j, of "patched pc"] patched_apply [of pc "t ! j"] by (auto simp: patch_peer_def split: prod.splits)
  qed
  have "distinct (nz_ids t1)" using patch_peer_ids [of pc t c] f Cons.prems by simp
  from Cons.IH [OF this, of c1] show ?case using f t1 by (auto simp: all_patches_def)
qed

text \<open>One more peer brought to the table.\<close>

definition put_in :: "tl_peer_t \<Rightarrow> tl_peer_t \<Rightarrow> tl_peer_t" where "put_in q p = (if p_id p = p_id q then q else p)"

lemma upsert_put:
  assumes "distinct (nz_ids t)" "p_id q \<noteq> 0"
  shows "fst (upsert_peer q (t, c)) = map (put_in q) t @ (if p_id q \<in> set (nz_ids t) \<or> length t \<ge> TL_MAX_PEERS then [] else [q])"
proof (cases "peer_index (p_id q) (Some (p_node_pub q)) t")
  case None
  then have "map (put_in q) t = t" using no_index_map(1) [OF assms(2) None, of "\<lambda>_. q"] by (simp add: put_in_def [abs_def])
  moreover have "p_id q \<notin> set (nz_ids t)" using peer_index_None [OF assms(2)] None by blast
  ultimately show ?thesis using None by (simp add: upsert_peer_def)
next
  case (Some j)
  then have "p_id q \<in> set (nz_ids t)" using peer_index_None [OF assms(2), of "Some (p_node_pub q)" t] by auto
  then show ?thesis using index_map(1) [OF assms(1,2) Some, of q] Some by (simp add: upsert_peer_def put_in_def [abs_def])
qed

lemma newest_snoc: "newest (ps @ [q]) i = (if p_id q = i then q else newest ps i)"
  by (simp add: newest_def)

lemma newest_id: "i \<in> set (map p_id ps) \<Longrightarrow> p_id (newest ps i) = i"
  by (induction ps rule: rev_induct) (auto simp: newest_snoc)

lemma renewed_snoc: "renewed (ps @ [q]) p = put_in q (renewed ps p)"
  using newest_id [of "p_id p" ps] by (auto simp: renewed_def newest_snoc put_in_def)

lemma renewed_id: "p_id (renewed ps p) = p_id p"
  using newest_id [of "p_id p" ps] by (simp add: renewed_def)

lemma fresh_snoc: "fresh_ids kept (ps @ [q]) = fresh_ids kept ps @ (if p_id q \<in> set (map p_id kept) \<or> p_id q \<in> set (map p_id ps) then [] else [p_id q])"
  by (auto simp: fresh_ids_def)

lemma fresh_in: "set (fresh_ids kept ps) = set (map p_id ps) - set (map p_id kept)"
  by (auto simp: fresh_ids_def)

lemma newest_put: "map (newest (ps @ [q])) (fresh_ids kept ps) = map (put_in q) (map (newest ps) (fresh_ids kept ps))"
  using newest_id [of _ ps] by (auto simp: fresh_in newest_snoc put_in_def)

lemma brought_ids: "map p_id (brought_table kept ps) = map p_id kept @ take (TL_MAX_PEERS - length kept) (fresh_ids kept ps)"
proof -
  have "map p_id (map (newest ps) (fresh_ids kept ps)) = fresh_ids kept ps"
    using newest_id [of _ ps] by (auto simp: fresh_in intro!: map_idI)
  then show ?thesis by (simp add: brought_table_def renewed_id take_map [symmetric] comp_def)
qed

lemma brought_snoc:
  assumes "length kept \<le> TL_MAX_PEERS" "p_id q \<noteq> 0"
  shows "brought_table kept (ps @ [q]) = map (put_in q) (brought_table kept ps) @
    (if p_id q \<in> set (nz_ids (brought_table kept ps)) \<or> length (brought_table kept ps) \<ge> TL_MAX_PEERS then [] else [q])"
proof -
  define room where "room = TL_MAX_PEERS - length kept"
  define fr where "fr = fresh_ids kept ps"
  have l: "length (brought_table kept ps) \<ge> TL_MAX_PEERS \<longleftrightarrow> room \<le> length fr" using assms(1) by (auto simp: brought_table_def room_def fr_def)
  have m: "p_id q \<in> set (nz_ids (brought_table kept ps)) \<longleftrightarrow> p_id q \<in> set (map p_id kept) \<or> p_id q \<in> set (take room fr)"
    using assms(2) arg_cong [OF brought_ids [of kept ps], of set] by (auto simp: nz_ids_def room_def fr_def)
  have base: "brought_table kept (ps @ [q]) = map (put_in q) (map (renewed ps) kept) @
      take room (map (put_in q) (map (newest ps) fr) @ (if p_id q \<in> set (map p_id kept) \<or> p_id q \<in> set (map p_id ps) then [] else [q]))"
    by (simp add: brought_table_def room_def fr_def fresh_snoc renewed_snoc newest_put [unfolded map_map] newest_snoc)
  consider "p_id q \<in> set (map p_id kept)" | "p_id q \<notin> set (map p_id kept)" "p_id q \<in> set fr" | "p_id q \<notin> set (map p_id kept)" "p_id q \<notin> set (map p_id ps)"
    by (auto simp: fr_def fresh_in)
  then show ?thesis
  proof cases
    case 1
    then show ?thesis using base m by (simp add: brought_table_def room_def fr_def take_map)
  next
    case 2
    then have "p_id q \<in> set (map p_id ps)" by (simp add: fr_def fresh_in)
    moreover have "p_id q \<in> set (take room fr) \<or> room \<le> length fr" using 2(2) by (metis nat_le_linear take_all)
    ultimately show ?thesis using base m l by (auto simp: brought_table_def room_def fr_def take_map)
  next
    case 3
    then have "p_id q \<notin> set (take room fr)" by (auto simp: fr_def fresh_in dest: in_set_takeD)
    then show ?thesis using base m l 3 by (cases "room \<le> length fr") (auto simp: brought_table_def room_def fr_def take_map)
  qed
qed

lemma upserts_exact:
  assumes "distinct (nz_ids t)" "length t \<le> TL_MAX_PEERS" "\<forall>p \<in> set ps. p_id p \<noteq> 0"
  shows "fst (fold upsert_peer ps (t, c)) = brought_table t ps"
  using assms(3)
proof (induction ps rule: rev_induct)
  case Nil
  show ?case by (simp add: brought_table_def renewed_def [abs_def] fresh_ids_def)
next
  case (snoc q ps)
  obtain t1 c1 where f: "fold upsert_peer ps (t, c) = (t1, c1)" by (metis prod.exhaust)
  then have t1: "t1 = brought_table t ps" using snoc by simp
  have "distinct (nz_ids t1)" using upserts [of t ps c] assms(1) f by simp
  then show ?case using upsert_put [of t1 q c1] brought_snoc [OF assms(2), of q ps] snoc.prems f t1 by simp
qed

text \<open>C25: The merge of a netmap frame into the peer table, exactly.  The table never exceeds its four entries, and when the merge reports no
  change the table is the one it was.  A full set (peers, not a delta) is stored as it came, without comparing its entries, cut at four.
  Any other frame keeps the nonzero ids of the table unique.  If all its peers have ids (a peer without one is matched by key, and
  only the bounds above hold), the table it leaves is the one \<open>merged_table\<close> says, entry by entry and in order: the peers whose id is
  not removed, each replaced by the last peer the frame brings with that id, then the new ids in the order of the frame as far as
  there is room (those that find the table full are dropped), every entry with all the patches of its id applied in turn, a
  patch setting exactly the fields it has.\<close>

theorem merge_peers_sound:
  assumes "length t \<le> TL_MAX_PEERS" "merge_peers t nm = (t', changed)"
  shows "length t' \<le> TL_MAX_PEERS \<and> (\<not> changed \<longrightarrow> t' = t) \<and> (map_peers nm \<noteq> [] \<and> \<not> map_peers_is_delta nm \<longrightarrow> t' = take TL_MAX_PEERS (map_peers nm)) \<and>
    (distinct (nz_ids t) \<and> (map_peers nm = [] \<or> map_peers_is_delta nm) \<longrightarrow>
      distinct (nz_ids t') \<and> ((\<forall>p \<in> set (map_peers nm). p_id p \<noteq> 0) \<longrightarrow> t' = merged_table t nm))"
proof (cases "map_peers nm \<noteq> [] \<and> \<not> map_peers_is_delta nm")
  case True
  then show ?thesis using assms by (auto simp: merge_peers_def)
next
  case False
  obtain t1 c1 where r: "fold remove_peer (map_removed_ids nm) (t, False) = (t1, c1)" by (metis prod.exhaust)
  obtain t2 c2 where u: "fold upsert_peer (map_peers nm) (t1, c1) = (t2, c2)" by (metis prod.exhaust)
  have p: "fold patch_peer (map_patches nm) (t2, c2) = (t', changed)" using assms(2) False r u by (simp add: merge_peers_def)
  note three = upserts [of t1 "map_peers nm" c1, unfolded u fst_conv] patches [of "map_patches nm" t2 c2, unfolded p fst_conv]
  have l1: "length t1 \<le> TL_MAX_PEERS" using removals_length [of "map_removed_ids nm" t False] r assms(1) by simp
  then have len: "length t' \<le> TL_MAX_PEERS" using three by linarith
  have same: "\<not> changed \<longrightarrow> t' = t"
  proof
    assume "\<not> changed"
    then have "\<not> c2 \<and> t' = t2" using fold_flag [of patch_peer "map_patches nm" t2 c2, OF step_flag(3)] p by simp
    moreover from this have "\<not> c1 \<and> t2 = t1" using fold_flag [of upsert_peer "map_peers nm" t1 c1, OF step_flag(2)] u by simp
    moreover from this have "t1 = t" using fold_flag [of remove_peer "map_removed_ids nm" t False, OF step_flag(1)] r by simp
    ultimately show "t' = t" by simp
  qed
  have d: "distinct (nz_ids t1)" "distinct (nz_ids t2)" "distinct (nz_ids t')" if "distinct (nz_ids t)"
    using removals [OF that, of "map_removed_ids nm" False] r three by simp_all
  have "t' = merged_table t nm" if "distinct (nz_ids t)" "\<forall>p \<in> set (map_peers nm). p_id p \<noteq> 0"
    using removals_exact [OF that(1), of "map_removed_ids nm" False] upserts_exact [OF d(1) [OF that(1)] l1 that(2), of c1]
      patches_exact [OF d(2) [OF that(1)], of "map_patches nm" c2] r u p by (simp add: merged_table_def)
  then show ?thesis using False len same d(3) by blast
qed

text \<open>A table of three: the frame removes one, brings a new version of another and three new peers, of which there is room for two,
  and patches the key and the region of the first.\<close>

definition w_peer :: "u64 \<Rightarrow> int \<Rightarrow> tl_peer_t" where
  "w_peer i region = \<lparr>p_id = i, p_node_pub = replicate 32 1, p_disco_pub = zero_key, p_has_disco_pub = False, p_home_derp = region, p_endpoints = [], p_addresses = []\<rparr>"

definition w_frame :: tl_netmap_t where
  "w_frame = tl_netmap_clear\<lparr>map_peers_is_delta := True, map_removed_ids := [7], map_peers := [w_peer 9 20, w_peer 5 21, w_peer 6 22, w_peer 3 23],
     map_patches := [\<lparr>pc_id = 8, pc_has_key = True, pc_node_pub = replicate 32 2, pc_has_disco = False, pc_disco_pub = [], pc_has_endpoints = False, pc_endpoints = [],
       pc_derp_region = 30\<rparr>]\<rparr>"

theorem merge_peers_sound_witness:
  "fst (merge_peers [w_peer 8 1, w_peer 7 2, w_peer 9 3] w_frame) =
     [(w_peer 8 30)\<lparr>p_node_pub := replicate 32 2\<rparr>, w_peer 9 20, w_peer 5 21, w_peer 6 22]"
proof -
  obtain t' changed where m: "merge_peers [w_peer 8 1, w_peer 7 2, w_peer 9 3] w_frame = (t', changed)" by (metis prod.exhaust)
  have "t' = merged_table [w_peer 8 1, w_peer 7 2, w_peer 9 3] w_frame"
    using merge_peers_sound [OF _ m] by (simp add: TL_MAX_PEERS_def nz_ids_def w_peer_def w_frame_def)
  then show ?thesis using m by (simp add: merged_table_def brought_table_def all_patches_def patched_def newest_def renewed_def fresh_ids_def w_peer_def w_frame_def tl_netmap_clear_def TL_MAX_PEERS_def)
qed

section \<open>The properties\<close>

lemma frame_history:
  "v_live (long_poll_handler K our nm now moved start_ok v) = v_live v" "v_bad (long_poll_handler K our nm now moved start_ok v) = v_bad v"
proof -
  have n: "v_live (warm_netmap K our h x s u) = v_live u" "v_bad (warm_netmap K our h x s u) = v_bad u" for h x s u
    by (auto simp: warm_netmap_def Let_def stage_fields split: prod.split)
  then show "v_live (long_poll_handler K our nm now moved start_ok v) = v_live v" "v_bad (long_poll_handler K our nm now moved start_ok v) = v_bad v"
    by (auto simp: long_poll_handler_def Let_def stage_fields split: prod.split)
qed

lemma poll_history: "v_live (warm_poll lp now_s max_s synced now_unix e v) \<Longrightarrow> v_live v" "v_bad (warm_poll lp now_s max_s synced now_unix e v) = v_bad v"
  by (auto simp: warm_poll_def Let_def warm_restart_now_def split: prod.splits if_splits)

lemma live_step:
  assumes "dev_inv v" "dev_step K v w" "v_live w"
  shows "v_bad v \<le> 1"
proof -
  have keep: "v_live v \<Longrightarrow> v_bad v \<le> 1" using assms(1) by (auto simp: dev_inv_def rtc_ok_def)
  have "dev_on K v w" using assms(2,3) by cases (auto simp: boot_fields)
  then show ?thesis
  proof cases
    case (dev_reset reason e)
    then show ?thesis using assms(3) by (simp add: boot_fields)
  next
    case (dev_begin reg heap now)
    then show ?thesis using assms(1,3) keep go_clean [of "warm_go_in K reg heap now v"]
      by (auto simp: warm_start_begin_def warm_go_in_def dev_inv_def split: if_splits)
  next
    case (dev_frame our nm now moved start_ok)
    then show ?thesis using assms(3) keep by (simp add: frame_history)
  next
    case (dev_persist u us s rx ok)
    then show ?thesis using assms(3) keep by (auto simp: warm_persist_def split: option.splits prod.splits)
  next
    case (dev_poll lp now_s max_s synced now_unix e)
    then show ?thesis using assms(3) keep poll_history(1) by blast
  next
    case (dev_finish now_s ok)
    then show ?thesis using assms(3) keep by (auto simp: warm_start_finish_def split: prod.splits)
  next
    case (dev_hung e)
    then show ?thesis using assms(3) by (simp add: warm_restart_now_def)
  qed
qed

text \<open>Once two warm starts ended badly, only a power cycle changes that.\<close>

lemma off_step:
  assumes "dev_inv v" "dev_on K v w" "v_bad v = 2"
  shows "v_bad w = 2"
proof -
  have off: "\<not> v_live v" and sm: "v_running v \<Longrightarrow> sm_ok v" using assms(1,3) by (auto simp: dev_inv_def rtc_ok_def)
  from assms(2) show ?thesis
  proof cases
    case (dev_begin reg heap now)
    then show ?thesis using assms(3) by (simp add: warm_start_begin_def split: prod.split)
  next
    case (dev_hung e)
    then show ?thesis using sm off by (simp add: sm_ok_def)
  next
    case (dev_persist u us s rx ok)
    then show ?thesis using off assms(3) by (simp add: warm_persist_def warm_settles_def split: option.split prod.split)
  qed (use assms(3) off in \<open>auto simp: boot_fields frame_history poll_history warm_start_finish_def split: prod.split\<close>)
qed

lemma off_stays:
  assumes "(dev_on K)\<^sup>*\<^sup>* v w" "dev_inv v" "v_bad v = 2"
  shows "dev_inv w \<and> v_bad w = 2"
  using assms by (induction rule: rtranclp_induct) (auto intro: on_inv off_step)

lemma off_cold:
  assumes "dev_inv v" "v_bad v = 2"
  shows "\<not> v_live v \<and> (v_running v \<longrightarrow> tl_warm_go (warm_go_in K reg heap t v) \<noteq> TL_WARM_GO)"
  using assms go_clean [of "warm_go_in K reg heap t v"] by (auto simp: dev_inv_def rtc_ok_def warm_go_in_def)

text \<open>C23: A fault on the warm path costs at most two boots.  Whatever the order of resets (of any reason), warm starts,
  netmap frames, polls and store passes, and whatever flash and RTC memory held at power-on: at most two warm
  starts end in a crash or a hang between one that settles (or a power-on) and the next, where only a live warm session that a
  netmap confirmed and whose record was stored settles; no step begins a warm start after two have; and once two have, then along
  every run without a power cycle, however long and whatever it stores, that stays so: no warm start is live, and no boot decides for
  one.  In every boot the data plane is brought up at most once, whether warm or cold.\<close>

theorem warm_guard_bounds:
  assumes "dev_reach K v"
  shows "v_bad v \<le> 2 \<and> v_starts v \<le> 1 \<and> (dev_step K v w \<and> v_live w \<longrightarrow> v_bad v \<le> 1) \<and>
    (v_bad v = 2 \<and> (dev_on K)\<^sup>*\<^sup>* v w \<longrightarrow> v_bad w = 2 \<and> \<not> v_live w \<and>
      (v_running w \<longrightarrow> (\<forall>reg heap t. tl_warm_go (warm_go_in K reg heap t w) \<noteq> TL_WARM_GO)))"
proof -
  have inv: "dev_inv v" by (rule reach_dev_inv [OF assms])
  have "v_bad v \<le> 2 \<and> v_starts v \<le> 1" using inv by (auto simp: dev_inv_def rtc_ok_def)
  then show ?thesis using live_step [OF inv] off_stays [OF _ inv] off_cold by blast
qed

lemma netmap_confirms:
  assumes "sm_state (v_sm u) = TL_WARM_ST_PENDING" "sm_state (v_sm (warm_netmap K our h x s u)) = TL_WARM_ST_CONFIRMED"
  shows "\<exists>r. netmap_rec K our (v_tables (warm_netmap K our h x s u)) = Some r \<and> tl_warm_diff (nv_rec (v_nvs u)) r AND TL_WARM_RESTART = 0"
proof -
  define i where "i = \<lparr>nm_expired = x, nm_have_self = h, nm_self0_moved = s, nm_now = (if x \<or> s then None else netmap_rec K our (v_tables u))\<rparr>"
  obtain act why sm where n: "tl_warm_sm_netmap (v_sm u) (nv_rec (v_nvs u)) i = (act, why, sm)" by (metis prod_cases3)
  have sm: "v_sm (warm_netmap K our h x s u) = sm" "v_tables (warm_netmap K our h x s u) = v_tables u"
    by (simp_all add: warm_netmap_def i_def [symmetric] n Let_def stage_fields)
  then have "sm_state sm = TL_WARM_ST_CONFIRMED" using assms(2) by simp
  then obtain r where "nm_now i = Some r" "tl_warm_diff (nv_rec (v_nvs u)) r AND TL_WARM_RESTART = 0"
    using n assms(1) by (auto simp: tl_warm_sm_netmap_def warm_restart_def Let_def split: if_splits option.splits)
  then show ?thesis using sm(2) by (auto simp: i_def split: if_splits)
qed

lemma frame_confirms:
  assumes "sm_state (v_sm v) = TL_WARM_ST_PENDING" "sm_state (v_sm (long_poll_handler K our nm now moved start_ok v)) = TL_WARM_ST_CONFIRMED"
  shows "\<exists>r. netmap_rec K our (v_tables (long_poll_handler K our nm now moved start_ok v)) = Some r \<and> tl_warm_diff (nv_rec (v_nvs v)) r AND TL_WARM_RESTART = 0"
proof -
  obtain sm1 t1 where f: "tl_warm_sm_frame (v_sm v) (v_tables v) = (True, sm1, t1)" "sm_state sm1 = TL_WARM_ST_PENDING"
    using assms(1) by (cases "sm_seeded (v_sm v)") (auto simp: tl_warm_sm_frame_def)
  define P where "P w \<longleftrightarrow> (\<exists>h x s t. w = warm_netmap K our h x s (v\<lparr>v_gate_shut := True, v_sm := sm1, v_tables := t\<rparr>))" for w
  have P: "P (warm_netmap K our h x s (v\<lparr>v_gate_shut := True, v_sm := sm1, v_tables := t\<rparr>))" for h x s t unfolding P_def by blast
  have "P (long_poll_handler K our nm now moved start_ok v)"
    unfolding long_poll_handler_def f(1) by (simp add: Let_def P split: prod.split)
  then obtain h x s t where w: "long_poll_handler K our nm now moved start_ok v = warm_netmap K our h x s (v\<lparr>v_gate_shut := True, v_sm := sm1, v_tables := t\<rparr>)" unfolding P_def by blast
  show ?thesis using netmap_confirms [of "v\<lparr>v_gate_shut := True, v_sm := sm1, v_tables := t\<rparr>" K our h x s] f(2) assms(2) unfolding w by simp
qed

lemma restart_cold:
  assumes "dev_inv v" "v_running v" "hung \<longrightarrow> v_busy v"
  shows "v_verdict (dev_boot TL_WARM_RST_SW e2 (warm_restart_now hung e v)) \<noteq> TL_WARM_RTC_CLEAN"
proof -
  have r: "rtc_ok (v_rtc v) (v_live v) (v_bad v)" and b: "v_busy v \<longrightarrow> v_bad v \<le> 1" using assms by (auto simp: dev_inv_def sm_ok_def rtc_ok_def)
  let ?r = "v_rtc (warm_restart_now hung e v)"
  obtain bad where "rtc_ok ?r False bad" "rtc_skip ?r = 1"
    using rtc_ok_restart [OF r] rtc_ok_hung [OF r] b assms(3) by (cases hung) (auto simp: warm_restart_now_def)
  moreover have "TL_WARM_RST_SW \<noteq> TL_WARM_RST_POWERON" by (simp add: TL_WARM_RST_SW_def TL_WARM_RST_POWERON_def)
  ultimately show ?thesis using rtc_boot_ok [of ?r False bad TL_WARM_RST_SW] by (auto simp: boot_fields split: if_splits)
qed

text \<open>C24: A session started from the record never outlives its reason.  In every reachable state in which the session waits for its
  netmap: the long-poll's next poll after the bound has passed, or after a netmap asked for it, restarts the
  device, and the boot after any such restart (or after a hang) is cold.  A frame lets the session stand only when
  the netmap it completes gives a record under the same keys, with the same attached address and the same target
  peer as the record the session runs on; everything else restarts or keeps waiting.\<close>

theorem warm_session_ends:
  assumes "dev_reach K v" "v_running v" "sm_state (v_sm v) = TL_WARM_ST_PENDING"
  shows "(sm_restart (v_sm v) \<or> tl_warm_bound_due now_s (sm_pending_s (v_sm v) - 1) max_s \<longrightarrow>
      \<not> v_running (warm_poll True now_s max_s synced now_unix erase_ok v) \<and>
      (\<forall>e reg heap t. tl_warm_go (warm_go_in K reg heap t (dev_boot TL_WARM_RST_SW e (warm_poll True now_s max_s synced now_unix erase_ok v))) \<noteq> TL_WARM_GO)) \<and>
    (sm_state (v_sm (long_poll_handler K our nm now moved start_ok v)) = TL_WARM_ST_CONFIRMED \<longrightarrow>
      (\<exists>r. netmap_rec K our (v_tables (long_poll_handler K our nm now moved start_ok v)) = Some r \<and>
        wr_self_tag r = wr_self_tag (nv_rec (v_nvs v)) \<and> wr_ctl_tag r = wr_ctl_tag (nv_rec (v_nvs v)) \<and>
        (wr_self (nv_rec (v_nvs v)) \<noteq> [] \<longrightarrow> wr_self r \<noteq> [] \<and> hd (wr_self r) = hd (wr_self (nv_rec (v_nvs v)))) \<and>
        tl_warm_same_peer (wr_peer (nv_rec (v_nvs v))) (wr_peer r)))"
proof (intro conjI impI)
  have inv: "dev_inv v" "sm_ok v" using reach_dev_inv [OF assms(1)] assms(2) by (auto simp: dev_inv_def)
  assume a: "sm_restart (v_sm v) \<or> tl_warm_bound_due now_s (sm_pending_s (v_sm v) - 1) max_s"
  then obtain why sm where p: "tl_warm_sm_poll (v_sm v) True now_s max_s synced now_unix = (why, sm)" "why \<noteq> WarmBoundNone"
    using inv(2) assms(3) by (cases "sm_restart (v_sm v)") (auto simp: tl_warm_sm_poll_def tl_warm_sm_bound_def Let_def sm_ok_def)
  define u where "u = v\<lparr>v_sm := sm\<rparr>"
  have w: "warm_poll True now_s max_s synced now_unix erase_ok v = warm_restart_now False erase_ok u" using p by (simp add: warm_poll_def u_def)
  then show "\<not> v_running (warm_poll True now_s max_s synced now_unix erase_ok v)" by (simp add: warm_restart_now_def)
  have "v_rtc (warm_restart_now False erase_ok u) = v_rtc (warm_restart_now False erase_ok v)" "v_live (warm_restart_now False erase_ok u) = v_live (warm_restart_now False erase_ok v)"
    by (simp_all add: warm_restart_now_def u_def)
  then have "v_verdict (dev_boot TL_WARM_RST_SW e (warm_restart_now False erase_ok u)) \<noteq> TL_WARM_RTC_CLEAN" for e
    using restart_cold [of v False e erase_ok] inv(1) assms(2) by (simp add: boot_fields)
  then show "\<forall>e reg heap t. tl_warm_go (warm_go_in K reg heap t (dev_boot TL_WARM_RST_SW e (warm_poll True now_s max_s synced now_unix erase_ok v))) \<noteq> TL_WARM_GO"
    unfolding w using go_clean by (force simp: warm_go_in_def)
next
  assume "sm_state (v_sm (long_poll_handler K our nm now moved start_ok v)) = TL_WARM_ST_CONFIRMED"
  from frame_confirms [OF assms(3) this] show "\<exists>r. netmap_rec K our (v_tables (long_poll_handler K our nm now moved start_ok v)) = Some r \<and>
        wr_self_tag r = wr_self_tag (nv_rec (v_nvs v)) \<and> wr_ctl_tag r = wr_ctl_tag (nv_rec (v_nvs v)) \<and>
        (wr_self (nv_rec (v_nvs v)) \<noteq> [] \<longrightarrow> wr_self r \<noteq> [] \<and> hd (wr_self r) = hd (wr_self (nv_rec (v_nvs v)))) \<and>
        tl_warm_same_peer (wr_peer (nv_rec (v_nvs v))) (wr_peer r)" unfolding diff_restart by auto
qed

definition w_keys :: dev_keys where "w_keys = (replicate 32 3, replicate 32 4)"

definition w_rec :: tl_warm_rec_t where
  "w_rec = (tl_warm_rec_build [ascii ''100.64.0.1/32''] \<lparr>p_id = 7, p_node_pub = replicate 32 1, p_disco_pub = zero_key, p_has_disco_pub = False, p_home_derp = 16,
      p_endpoints = [ascii ''198.51.100.7:41641''], p_addresses = [ascii ''100.64.0.2/32'']\<rparr> (replicate 32 3) (replicate 32 4))\<lparr>wr_written := 5\<rparr>"

definition w_dev :: warm_dev where
  "w_dev = \<lparr>v_rtc = rtc_zero, v_flash = Some (warm_header w_rec @ warm_body w_rec), v_verdict = TL_WARM_RTC_OFF,
     v_nvs = \<lparr>nv_valid = False, nv_wrote = False, nv_last_us = 0, nv_rec = rec_zero\<rparr>, v_sm = sm_zero, v_tables = no_tables, v_stage = None,
     v_started = False, v_gate_shut = False, v_busy = False, v_running = False, v_starts = 0, v_live = False, v_bad = 0\<rparr>"

definition w_pending :: warm_dev where
  "w_pending = warm_start_finish True 10 (warm_start_begin w_keys True True 0 (dev_boot TL_WARM_RST_POWERON True w_dev))"

lemma w_decodes: "tl_warm_decode (warm_header w_rec @ warm_body w_rec) = Some w_rec"
proof (rule decode_encoded)
  have ep: "tl_warm_ep_parse (ascii ''198.51.100.7:41641'') = Some \<lparr>e_ip = [198, 51, 100, 7], e_port = 41641\<rparr>"
    by (simp add: ep_parse_exact ep_ok_def ep_str_eq tl_ipv4_usable_def tl_ipv4_str_def udec.simps ascii_def)
  have c: "tl_warm_cidr_parse (ascii ''100.64.0.1/32'') = Some \<lparr>c_ip = [100, 64, 0, 1], c_prefix = 32\<rparr>" "tl_warm_cidr_parse (ascii ''100.64.0.2/32'') = Some \<lparr>c_ip = [100, 64, 0, 2], c_prefix = 32\<rparr>"
    by (simp_all add: cidr_parse_exact cidr_ok_def cidr_str_eq tl_ipv4_usable_def tl_ipv4_str_def udec.simps ascii_def)
  show "rec_ok w_rec" unfolding w_rec_def
    by (rule rec_build_ok) (simp_all add: tl_warm_rec_storable_def tl_warm_rec_build_def tl_warm_peer_from_def c ep map_filter_simps warm_sizes zero_key_def TINYLINK_KEY_LEN_def)
qed

lemma w_booted:
  "v_nvs (dev_boot TL_WARM_RST_POWERON True w_dev) = \<lparr>nv_valid = True, nv_wrote = False, nv_last_us = 0, nv_rec = w_rec\<rparr>"
  by (simp add: dev_boot_def tl_warm_load_def rtc_boot_power w_dev_def w_decodes)

lemma w_goes: "tl_warm_go (warm_go_in w_keys True True 0 (dev_boot TL_WARM_RST_POWERON True w_dev)) = TL_WARM_GO"
  by (simp add: tl_warm_go_def warm_go_in_def tl_warm_too_old_def w_booted boot_fields rtc_boot_power w_keys_def w_rec_def tl_warm_rec_for_def tl_warm_rec_build_def)

lemma w_pending_ok: "dev_reach w_keys w_pending \<and> v_running w_pending \<and> sm_state (v_sm w_pending) = TL_WARM_ST_PENDING \<and> sm_pending_s (v_sm w_pending) = 11"
proof -
  let ?b = "dev_boot TL_WARM_RST_POWERON True w_dev"
  let ?s = "warm_start_begin w_keys True True 0 ?b"
  have s: "v_running ?s" "v_busy ?s" using w_goes by (simp_all add: warm_start_begin_def boot_fields tl_warm_sm_begin_def)
  have "dev_reach w_keys ?s" by (rule reach_step [OF power_on step_on [OF dev_begin]]) (simp_all add: boot_fields)
  then have "dev_reach w_keys w_pending" unfolding w_pending_def by (rule reach_step) (rule step_on, rule dev_finish [OF s], simp)
  then show ?thesis using s(1) by (simp add: w_pending_def warm_start_finish_def tl_warm_sm_started_def)
qed

text \<open>Two crashes during warm starts (resets of reason 4), the erase of the record having failed.\<close>

definition w_crashed :: warm_dev where
  "w_crashed = dev_boot 4 False (warm_start_begin w_keys True True 0 (dev_boot TL_WARM_RST_POWERON True w_dev))"

definition w_crashed2 :: warm_dev where
  "w_crashed2 = dev_boot 4 False (warm_start_begin w_keys True True 0 (dev_boot TL_WARM_RST_SW True w_crashed))"

lemma reach_on: "dev_reach K v \<Longrightarrow> dev_on K v w \<Longrightarrow> dev_reach K w"
  by (rule reach_step [OF _ step_on])

lemma w_crashed2_ok: "dev_reach w_keys w_crashed2 \<and> v_bad w_crashed2 = 2"
proof -
  let ?b = "dev_boot TL_WARM_RST_POWERON True w_dev"
  let ?s = "warm_start_begin w_keys True True 0 ?b"
  let ?c = "dev_boot TL_WARM_RST_SW True w_crashed"
  let ?t = "warm_start_begin w_keys True True 0 ?c"
  have n: "(4 :: int) \<noteq> TL_WARM_RST_POWERON" "(4 :: int) \<noteq> TL_WARM_RST_SW" "TL_WARM_RST_SW \<noteq> TL_WARM_RST_POWERON" by (simp_all add: TL_WARM_RST_POWERON_def TL_WARM_RST_SW_def)
  have b: "v_rtc ?b = tl_warm_rtc_seal rtc_zero" "v_flash ?b = v_flash w_dev" by (simp_all add: dev_boot_def tl_warm_load_def rtc_boot_power w_dev_def w_decodes)
  have s: "v_rtc ?s = tl_warm_rtc_seal ((tl_warm_rtc_seal rtc_zero)\<lparr>rtc_attempt := 1\<rparr>)" "v_live ?s" "v_bad ?s = 0" "v_flash ?s = v_flash w_dev"
    using w_goes b by (simp_all add: warm_start_begin_def tl_warm_sm_begin_def boot_fields)
  have c: "v_rtc w_crashed = tl_warm_rtc_seal ((v_rtc ?s)\<lparr>rtc_crashes := 1, rtc_attempt := 0, rtc_skip := 0\<rparr>)" "v_bad w_crashed = 1" "\<not> v_live w_crashed" "v_flash w_crashed = v_flash w_dev"
    using s n by (simp_all add: w_crashed_def boot_fields dev_boot_def tl_warm_load_def tl_warm_rtc_boot_def sealed rtc_zero_def TL_WARM_RTC_MAX_CRASHES_def)
  have d: "v_verdict ?c = TL_WARM_RTC_CLEAN" "v_nvs ?c = \<lparr>nv_valid = True, nv_wrote = False, nv_last_us = 0, nv_rec = w_rec\<rparr>" "v_bad ?c = 1"
    using c s n by (simp_all add: dev_boot_def tl_warm_load_def tl_warm_rtc_boot_def sealed rtc_zero_def TL_WARM_RTC_MAX_CRASHES_def w_dev_def w_decodes word_le_nat_alt)
  have g: "tl_warm_go (warm_go_in w_keys True True 0 ?c) = TL_WARM_GO"
    by (simp add: tl_warm_go_def warm_go_in_def tl_warm_too_old_def d w_keys_def w_rec_def tl_warm_rec_for_def tl_warm_rec_build_def)
  have t: "v_live ?t" "v_bad ?t = 1" using g d(3) by (simp_all add: warm_start_begin_def tl_warm_sm_begin_def boot_fields)
  have "dev_reach w_keys ?s" by (rule reach_on [OF power_on dev_begin]) (simp_all add: boot_fields)
  then have "dev_reach w_keys w_crashed" unfolding w_crashed_def by (rule reach_on) (rule dev_reset [OF n(1)])
  then have "dev_reach w_keys ?c" by (rule reach_on) (rule dev_reset [OF n(3)])
  then have "dev_reach w_keys ?t" by (rule reach_on) (rule dev_begin, simp_all add: boot_fields)
  then have "dev_reach w_keys w_crashed2" unfolding w_crashed2_def by (rule reach_on) (rule dev_reset [OF n(1)])
  then show ?thesis using t n by (simp add: w_crashed2_def boot_fields)
qed

theorem warm_guard_bounds_witness:
  "v_bad (dev_boot TL_WARM_RST_SW True w_crashed2) = 2 \<and>
   tl_warm_go (warm_go_in w_keys True True 0 (dev_boot TL_WARM_RST_SW True w_crashed2)) \<noteq> TL_WARM_GO"
proof -
  have "dev_on w_keys w_crashed2 (dev_boot TL_WARM_RST_SW True w_crashed2)" by (rule dev_reset) (simp add: TL_WARM_RST_POWERON_def TL_WARM_RST_SW_def)
  then show ?thesis using warm_guard_bounds [of w_keys w_crashed2 "dev_boot TL_WARM_RST_SW True w_crashed2"] w_crashed2_ok by (auto simp: boot_fields)
qed

theorem warm_session_ends_witness:
  "\<not> v_running (warm_poll True 500 120 False 0 True w_pending) \<and>
   tl_warm_go (warm_go_in w_keys True True 0 (dev_boot TL_WARM_RST_SW True (warm_poll True 500 120 False 0 True w_pending))) \<noteq> TL_WARM_GO"
proof -
  have "tl_warm_bound_due 500 (sm_pending_s (v_sm w_pending) - 1) 120" using w_pending_ok by (simp add: tl_warm_bound_due_def)
  then show ?thesis using warm_session_ends [of w_keys w_pending 500 120 False 0 True] w_pending_ok by blast
qed

end
