(* ===== verification/MapResp_Stream.thy ===== *)
theory MapResp_Stream
  imports MapResp_Parse TL_Warm_Steps Feed_Interface
begin

text \<open>
  The streaming parser of \<open>mapreq.c\<close>: a MapResponse is split into the values the data plane reads while its bytes arrive, and
  only the value being collected is stored; around it the framing of the long poll (four size bytes, then the body) and what a
  complete frame does.

  The open containers are a list, the innermost first (\<open>lvl[n - 1]\<close>); the last entry is the top object.  The element
  buffer is the bytes stored in it so far, the key buffer its first twenty bytes; \<open>vlen\<close> and the positions stay
  below the frame cap of 4 MiB and are naturals.  \<open>mj_fault\<close> is not a field of the C struct: it records that an
  element parser touched a token that was not written or the end of a netmap array, which the results below
  exclude.  The tokenizer and the configured DERP region are parameters.
\<close>

section \<open>The state\<close>

definition MAPRESP_LEVELS :: nat where "MAPRESP_LEVELS = 3"
definition MAPRESP_KEY_MAX :: nat where "MAPRESP_KEY_MAX = 20"
definition MAPRESP_FRAME_MAX :: u32 where "MAPRESP_FRAME_MAX = push_bit 20 4"
definition TL_CTRL_MAPRESP_CAP :: nat where "TL_CTRL_MAPRESP_CAP = 8192"

datatype ms_role = MS_TOP | MS_PEERS | MS_PEERS_CHANGED | MS_REMOVED | MS_PATCH | MS_DERPMAP | MS_REGIONS
datatype ms_act = MV_SKIP | MV_NODE | MV_PEER | MV_REMOVED | MV_PATCH | MV_REGION
datatype ms_gram = G_PRE | G_OBJ_FIRST | G_OBJ_AFTER_VAL | G_OBJ_AFTER_COMMA | G_KEY | G_KEY_ESC | G_COLON | G_OBJ_VAL
  | G_ARR_FIRST | G_ARR_AFTER_VAL | G_ARR_AFTER_COMMA | G_VALUE | G_CLOSED

record mapresp_level_t =
  lv_role :: ms_role
  lv_g :: ms_gram
  lv_ext :: tl_jsplit_scan_t

record mapresp_json_t =
  mj_out :: tl_netmap_t
  mj_elem :: string
  mj_elem_cap :: nat
  mj_val :: tl_jsplit_scan_t
  mj_vact :: ms_act
  mj_vlen :: nat
  mj_vlim :: nat
  mj_lvl :: "mapresp_level_t list"
  mj_key_len :: nat
  mj_key :: string
  mj_regions_seen :: nat
  mj_done :: bool
  mj_err :: bool
  mj_pos :: nat
  mj_err_pos :: nat
  mj_elem_peak :: nat
  mj_tok_peak :: int
  mj_n_oversized :: nat
  mj_fault :: bool

definition ms_is_obj :: "ms_role \<Rightarrow> bool" where
  "ms_is_obj role \<longleftrightarrow> role = MS_TOP \<or> role = MS_DERPMAP \<or> role = MS_REGIONS"

definition ms_fail :: "mapresp_json_t \<Rightarrow> mapresp_json_t" where
  "ms_fail m = (if mj_err m then m else m\<lparr>mj_err := True, mj_err_pos := mj_pos m\<rparr>)"

definition ms_key_is :: "mapresp_json_t \<Rightarrow> string \<Rightarrow> bool" where
  "ms_key_is m nm \<longleftrightarrow> mj_key_len m = length nm \<and> take (length nm) (mj_key m) = nm"

definition ms_key_add :: "mapresp_json_t \<Rightarrow> char \<Rightarrow> mapresp_json_t" where
  "ms_key_add m c = m\<lparr>mj_key := (if mj_key_len m < MAPRESP_KEY_MAX then mj_key m @ [c] else mj_key m),
     mj_key_len := (if mj_key_len m < 255 then mj_key_len m + 1 else mj_key_len m)\<rparr>"

text \<open>The innermost container and its grammar state.\<close>

definition ms_inner :: "mapresp_json_t \<Rightarrow> mapresp_level_t" where "ms_inner m = hd (mj_lvl m)"

definition set_g :: "ms_gram \<Rightarrow> mapresp_json_t \<Rightarrow> mapresp_json_t" where
  "set_g g m = m\<lparr>mj_lvl := (ms_inner m)\<lparr>lv_g := g\<rparr> # tl (mj_lvl m)\<rparr>"

definition after_val :: "ms_role \<Rightarrow> ms_gram" where
  "after_val role = (if ms_is_obj role then G_OBJ_AFTER_VAL else G_ARR_AFTER_VAL)"

section \<open>One byte\<close>

definition set_out :: "mapresp_json_t \<Rightarrow> tl_netmap_t option \<Rightarrow> mapresp_json_t" where
  "set_out m r = (case r of None \<Rightarrow> m\<lparr>mj_fault := True\<rparr> | Some out \<Rightarrow> m\<lparr>mj_out := out\<rparr>)"

definition set_out_peak :: "mapresp_json_t \<Rightarrow> (tl_netmap_t \<times> int) option \<Rightarrow> mapresp_json_t" where
  "set_out_peak m r = (case r of None \<Rightarrow> m\<lparr>mj_fault := True\<rparr> | Some (out, pk) \<Rightarrow> m\<lparr>mj_out := out, mj_tok_peak := pk\<rparr>)"

definition ms_element :: "jsmn \<Rightarrow> int \<Rightarrow> mapresp_json_t \<Rightarrow> mapresp_json_t" where
  "ms_element jsmn_parse keep m =
    (let out = mj_out m; v = mj_elem m; pk = mj_tok_peak m in
     if mj_vlen m > mj_vlim m then
       (if mj_vact m = MV_REMOVED then m
        else (let m1 = m\<lparr>mj_n_oversized := mj_n_oversized m + 1\<rparr> in
          if mj_vact m = MV_PATCH then m1\<lparr>mj_out := out\<lparr>map_patches_overflow := True\<rparr>\<rparr> else m1))
     else (case mj_vact m of
         MV_NODE \<Rightarrow> set_out_peak m (elem_node jsmn_parse v out pk)
       | MV_PEER \<Rightarrow> set_out_peak m (elem_peer jsmn_parse v out pk)
       | MV_REMOVED \<Rightarrow> set_out m (elem_removed v out)
       | MV_PATCH \<Rightarrow> set_out_peak m (elem_patch jsmn_parse v out pk)
       | MV_REGION \<Rightarrow> set_out_peak m (elem_region jsmn_parse keep v out pk)
       | MV_SKIP \<Rightarrow> m))"

definition ms_store :: "mapresp_json_t \<Rightarrow> char \<Rightarrow> mapresp_json_t" where
  "ms_store m c = m\<lparr>mj_elem := (if mj_vlen m < mj_vlim m then mj_elem m @ [c] else mj_elem m), mj_vlen := mj_vlen m + 1\<rparr>"

definition ms_value_end :: "jsmn \<Rightarrow> int \<Rightarrow> mapresp_json_t \<Rightarrow> mapresp_json_t" where
  "ms_value_end jsmn_parse keep m =
    (let m1 = set_g (after_val (lv_role (ms_inner m))) m in
     if mj_vact m1 = MV_SKIP then m1
     else ms_element jsmn_parse keep
       (if mj_vact m1 \<noteq> MV_REMOVED \<and> mj_vlen m1 > mj_elem_peak m1 then m1\<lparr>mj_elem_peak := mj_vlen m1\<rparr> else m1))"

text \<open>What the first byte of a value leads to: descend into a container, or collect (or skip) the value; the netmap and the
  region count as the dispatch leaves them.\<close>

datatype ms_start = Descend ms_role | Collect ms_act

definition ms_dispatch :: "mapresp_json_t \<Rightarrow> char \<Rightarrow> ms_start \<times> tl_netmap_t \<times> nat" where
  "ms_dispatch m c = (let out = mj_out m; seen = mj_regions_seen m in
    case lv_role (ms_inner m) of
      MS_TOP \<Rightarrow>
        (if c = CHR ''{'' \<and> ms_key_is m ''Node'' then Collect MV_NODE
         else if c = CHR ''['' \<and> ms_key_is m ''Peers'' then Descend MS_PEERS
         else if c = CHR ''['' \<and> ms_key_is m ''PeersChanged'' then Descend MS_PEERS_CHANGED
         else if c = CHR ''['' \<and> ms_key_is m ''PeersRemoved'' then Descend MS_REMOVED
         else if c = CHR ''['' \<and> ms_key_is m ''PeersChangedPatch'' then Descend MS_PATCH
         else if c = CHR ''{'' \<and> ms_key_is m ''DERPMap'' then Descend MS_DERPMAP
         else Collect MV_SKIP, out, seen)
    | MS_PEERS \<Rightarrow> (Collect (if length (map_peers out) < TL_MAX_PEERS then MV_PEER else MV_SKIP), out, seen)
    | MS_PEERS_CHANGED \<Rightarrow> (Collect (if length (map_peers out) < TL_MAX_PEERS then MV_PEER else MV_SKIP), out, seen)
    | MS_REMOVED \<Rightarrow>
        (if length (map_removed_ids out) \<ge> TL_MAX_PEERS_REMOVED then (Collect MV_SKIP, out\<lparr>map_removed_overflow := True\<rparr>, seen)
         else (Collect MV_REMOVED, out, seen))
    | MS_PATCH \<Rightarrow> (Collect (if c = CHR ''{'' then MV_PATCH else MV_SKIP), out, seen)
    | MS_DERPMAP \<Rightarrow> (if c = CHR ''{'' \<and> ms_key_is m ''Regions'' then Descend MS_REGIONS else Collect MV_SKIP, out, seen)
    | MS_REGIONS \<Rightarrow> (Collect (if length (map_derp_regions out) < TL_MAX_DERP_REGIONS then MV_REGION else MV_SKIP), out, seen + 1))"

definition ms_descend :: "ms_role \<Rightarrow> char \<Rightarrow> mapresp_json_t \<Rightarrow> mapresp_json_t" where
  "ms_descend sub c m =
    (if length (mj_lvl m) \<ge> MAPRESP_LEVELS then ms_fail m
     else (let m1 = m\<lparr>mj_lvl := \<lparr>lv_role = sub, lv_g = (if c = CHR ''{'' then G_OBJ_FIRST else G_ARR_FIRST),
                                lv_ext = snd (tl_jsplit_scan_begin c)\<rparr> # mj_lvl m\<rparr> in
       if sub = MS_PEERS \<or> sub = MS_PEERS_CHANGED then m1\<lparr>mj_out := (mj_out m1)\<lparr>map_peers := []\<rparr>\<rparr>
       else if sub = MS_DERPMAP then m1\<lparr>mj_out := (mj_out m1)\<lparr>map_derp_regions := []\<rparr>\<rparr>
       else if sub = MS_REGIONS then m1\<lparr>mj_regions_seen := 0\<rparr>
       else m1))"

definition ms_collect :: "ms_act \<Rightarrow> char \<Rightarrow> mapresp_json_t \<Rightarrow> mapresp_json_t" where
  "ms_collect act c m = (case tl_jsplit_scan_begin c of (r, sc) \<Rightarrow>
     if r \<noteq> TL_JSCAN_MORE then ms_fail (m\<lparr>mj_val := sc\<rparr>)
     else ms_store ((set_g G_VALUE m)\<lparr>mj_val := sc, mj_vact := act, mj_vlen := 0, mj_elem := [],
       mj_vlim := (if act = MV_SKIP then 0 else if act = MV_REMOVED then REMOVED_LIM else mj_elem_cap m)\<rparr>) c)"

definition ms_value_start :: "mapresp_json_t \<Rightarrow> char \<Rightarrow> mapresp_json_t" where
  "ms_value_start m c = (case ms_dispatch m c of (st, out, seen) \<Rightarrow>
     (let m1 = m\<lparr>mj_out := out, mj_regions_seen := seen\<rparr> in
      case st of Descend sub \<Rightarrow> ms_descend sub c m1 | Collect act \<Rightarrow> ms_collect act c m1))"

definition ms_close :: "mapresp_json_t \<Rightarrow> mapresp_json_t" where
  "ms_close m =
    (if length (mj_lvl m) = 1 then m\<lparr>mj_done := True\<rparr>
     else (let role = lv_role (ms_inner m); out = mj_out m in
       set_g G_CLOSED (m\<lparr>mj_out := (if role = MS_PEERS then out\<lparr>map_peers_is_delta := False\<rparr>
          else if role = MS_PEERS_CHANGED then out\<lparr>map_peers_is_delta := True\<rparr>
          else if role = MS_REGIONS then regions_done out else out)\<rparr>)))"

text \<open>The grammar of members, outside a value.\<close>

definition obj_member :: "mapresp_json_t \<Rightarrow> char \<Rightarrow> mapresp_json_t" where
  "obj_member m c =
    (if tl_jsplit_is_ws c then m
     else if c = CHR ''}'' then ms_close m
     else if c = quote then (set_g G_KEY m)\<lparr>mj_key_len := 0, mj_key := []\<rparr>
     else ms_fail m)"

definition arr_member :: "mapresp_json_t \<Rightarrow> char \<Rightarrow> mapresp_json_t" where
  "arr_member m c = (if tl_jsplit_is_ws c then m else if c = CHR '']'' then ms_close m else ms_value_start m c)"

definition ms_member :: "mapresp_json_t \<Rightarrow> char \<Rightarrow> mapresp_json_t" where
  "ms_member m c = (case lv_g (ms_inner m) of
     G_PRE \<Rightarrow> (if tl_jsplit_is_ws c then m else if c = CHR ''{'' then set_g G_OBJ_FIRST m else ms_fail m)
   | G_OBJ_AFTER_VAL \<Rightarrow> (if c = CHR '','' then set_g G_OBJ_AFTER_COMMA m else obj_member m c)
   | G_OBJ_FIRST \<Rightarrow> obj_member m c
   | G_OBJ_AFTER_COMMA \<Rightarrow> obj_member m c
   | G_KEY \<Rightarrow> (if c = quote then set_g G_COLON m else ms_key_add (if c = backslash then set_g G_KEY_ESC m else m) c)
   | G_KEY_ESC \<Rightarrow> ms_key_add (set_g G_KEY m) c
   | G_COLON \<Rightarrow> (if tl_jsplit_is_ws c then m else if c = CHR '':'' then set_g G_OBJ_VAL m else ms_fail m)
   | G_OBJ_VAL \<Rightarrow> (if tl_jsplit_is_ws c then m else ms_value_start m c)
   | G_ARR_AFTER_VAL \<Rightarrow> (if c = CHR '','' then set_g G_ARR_AFTER_COMMA m else arr_member m c)
   | G_ARR_FIRST \<Rightarrow> arr_member m c
   | G_ARR_AFTER_COMMA \<Rightarrow> arr_member m c
   | G_VALUE \<Rightarrow> m
   | G_CLOSED \<Rightarrow> m)"

text \<open>\<open>ms_grammar\<close>: a value consumes its bytes; the delimiter that ends a scalar belongs to the container, whose state is an
  \<open>AFTER_VAL\<close> one by then (so the member grammar never sees \<open>G_VALUE\<close>).\<close>

definition ms_grammar :: "jsmn \<Rightarrow> int \<Rightarrow> mapresp_json_t \<Rightarrow> char \<Rightarrow> mapresp_json_t" where
  "ms_grammar jsmn_parse keep m c =
    (if lv_g (ms_inner m) = G_VALUE then
       (case tl_jsplit_scan_byte (mj_val m) c of (r, sc) \<Rightarrow> (let m1 = m\<lparr>mj_val := sc\<rparr> in
          case r of TL_JSCAN_ERR \<Rightarrow> ms_fail m1
          | TL_JSCAN_END_BEFORE \<Rightarrow> ms_member (ms_value_end jsmn_parse keep m1) c
          | TL_JSCAN_END \<Rightarrow> ms_value_end jsmn_parse keep (ms_store m1 c)
          | TL_JSCAN_MORE \<Rightarrow> ms_store m1 c))
     else ms_member m c)"

text \<open>The extents of the containers below the top object, from the outermost in; the flags say whose extent ends at this byte.\<close>

fun ext_feed :: "mapresp_level_t list \<Rightarrow> char \<Rightarrow> mapresp_level_t list \<times> bool list \<times> bool" where
  "ext_feed [] c = ([], [], False)"
| "ext_feed [L] c = ([L], [], False)"
| "ext_feed (L # P # Ls) c = (case ext_feed (P # Ls) c of (Ls', es, err) \<Rightarrow>
     if err then (L # Ls', es, True)
     else (case tl_jsplit_scan_byte (lv_ext L) c of (r, sc) \<Rightarrow>
       (L\<lparr>lv_ext := sc\<rparr> # Ls', if r = TL_JSCAN_ERR then es else (r = TL_JSCAN_END) # es, r = TL_JSCAN_ERR)))"

fun ms_pop :: "mapresp_level_t list \<Rightarrow> bool list \<Rightarrow> mapresp_level_t list \<times> bool list" where
  "ms_pop (L # P # Ls) (e # es) =
    (if lv_g L = G_CLOSED \<and> e then ms_pop (P\<lparr>lv_g := after_val (lv_role P)\<rparr> # Ls) es else (L # P # Ls, e # es))"
| "ms_pop Ls es = (Ls, es)"

definition ms_byte :: "jsmn \<Rightarrow> int \<Rightarrow> mapresp_json_t \<Rightarrow> char \<Rightarrow> mapresp_json_t" where
  "ms_byte jsmn_parse keep m c = (case ext_feed (mj_lvl m) c of (Ls, ended, err) \<Rightarrow>
     (let m0 = m\<lparr>mj_lvl := Ls\<rparr> in
      if err then ms_fail m0
      else (let m1 = ms_grammar jsmn_parse keep m0 c in
        if mj_err m1 then m1
        else (case (if length (mj_lvl m1) \<le> length (mj_lvl m) then ms_pop (mj_lvl m1) ended else (mj_lvl m1, ended)) of (Ls', ended') \<Rightarrow>
          (let m2 = m1\<lparr>mj_lvl := Ls'\<rparr> in if True \<in> set ended' then ms_fail m2 else m2)))))"

section \<open>A body\<close>

definition json_zero :: tl_jsplit_scan_t where "json_zero = \<lparr>sc_depth = 0, sc_mode = TL_JSCAN_TEXT\<rparr>"

definition mapresp_json_begin :: "nat \<Rightarrow> mapresp_json_t" where
  "mapresp_json_begin cap = \<lparr>mj_out = tl_netmap_clear, mj_elem = [], mj_elem_cap = cap, mj_val = json_zero, mj_vact = MV_SKIP, mj_vlen = 0, mj_vlim = 0,
     mj_lvl = [\<lparr>lv_role = MS_TOP, lv_g = G_PRE, lv_ext = json_zero\<rparr>], mj_key_len = 0, mj_key = [], mj_regions_seen = 0, mj_done = False, mj_err = False,
     mj_pos = 0, mj_err_pos = 0, mj_elem_peak = 0, mj_tok_peak = 0, mj_n_oversized = 0, mj_fault = False\<rparr>"

definition k_ms_special :: "u8 list" where
  "k_ms_special = [0xff, 0xff, 0xff, 0xff, 0x05, 0x10, 0, 0, 0, 0, 0, 0x38, 0, 0, 0, 0x28] @ replicate 16 0"

definition ms_special :: "char \<Rightarrow> bool" where
  "ms_special c = (let b = (of_char c :: u8) in drop_bit (unat (b AND 7)) (k_ms_special ! unat (drop_bit 3 b)) AND 1 \<noteq> 0)"

definition ms_inert_run :: "mapresp_json_t \<Rightarrow> string \<Rightarrow> nat" where
  "ms_inert_run m p =
    (if lv_g (ms_inner m) \<noteq> G_VALUE \<or> sc_mode (mj_val m) = TL_JSCAN_ESC \<or> (\<exists>L \<in> set (butlast (mj_lvl m)). sc_mode (lv_ext L) = TL_JSCAN_ESC) then 0
     else if sc_mode (mj_val m) = TL_JSCAN_STR \<and> (\<forall>L \<in> set (butlast (mj_lvl m)). sc_mode (lv_ext L) = TL_JSCAN_STR)
     then length (takeWhile (\<lambda>c. c \<noteq> quote \<and> c \<noteq> backslash) p)
     else length (takeWhile (\<lambda>c. \<not> ms_special c) p))"

text \<open>A run copied at once.\<close>

definition ms_copy :: "mapresp_json_t \<Rightarrow> string \<Rightarrow> mapresp_json_t" where
  "ms_copy m run = m\<lparr>mj_elem := (if mj_vlen m < mj_vlim m then mj_elem m @ take (mj_vlim m - mj_vlen m) run else mj_elem m),
     mj_vlen := mj_vlen m + length run, mj_pos := mj_pos m + length run\<rparr>"

definition ms_step :: "jsmn \<Rightarrow> int \<Rightarrow> mapresp_json_t \<Rightarrow> char \<Rightarrow> mapresp_json_t" where
  "ms_step jsmn_parse keep m c = (let m1 = ms_byte jsmn_parse keep m c in m1\<lparr>mj_pos := mj_pos m1 + 1\<rparr>)"

function mapresp_json_feed :: "jsmn \<Rightarrow> int \<Rightarrow> mapresp_json_t \<Rightarrow> string \<Rightarrow> mapresp_json_t" where
  "mapresp_json_feed jsmn_parse keep m data =
    (if data = [] \<or> mj_err m \<or> mj_done m then m
     else (let run = ms_inert_run m data in
       if run > 0 then mapresp_json_feed jsmn_parse keep (ms_copy m (take run data)) (drop run data)
       else mapresp_json_feed jsmn_parse keep (ms_step jsmn_parse keep m (hd data)) (tl data)))"
  by pat_completeness auto
termination by (relation "measure (\<lambda>(_, _, _, data). length data)") auto

declare mapresp_json_feed.simps [simp del]

definition mapresp_json_end :: "mapresp_json_t \<Rightarrow> mapresp_json_t" where
  "mapresp_json_end m = (if \<not> mj_done m then ms_fail m else m)"

definition mapresp_parse :: "jsmn \<Rightarrow> int \<Rightarrow> string \<Rightarrow> mapresp_json_t" where
  "mapresp_parse jsmn_parse keep json = mapresp_json_end (mapresp_json_feed jsmn_parse keep (mapresp_json_begin TL_CTRL_MAPRESP_CAP) json)"

section \<open>The fast path changes nothing\<close>

text \<open>The reference: one byte after the other.\<close>

fun feed_bytes :: "jsmn \<Rightarrow> int \<Rightarrow> mapresp_json_t \<Rightarrow> string \<Rightarrow> mapresp_json_t" where
  "feed_bytes jsmn_parse keep m [] = m"
| "feed_bytes jsmn_parse keep m (c # cs) = (if mj_err m \<or> mj_done m then m else feed_bytes jsmn_parse keep (ms_step jsmn_parse keep m c) cs)"

lemma feed_bytes_stopped: "mj_err m \<or> mj_done m \<Longrightarrow> feed_bytes jsmn_parse keep m cs = m"
  by (cases cs) auto

lemma feed_bytes_append: "feed_bytes jsmn_parse keep m (xs @ ys) = feed_bytes jsmn_parse keep (feed_bytes jsmn_parse keep m xs) ys"
  by (induction xs arbitrary: m) (auto simp: feed_bytes_stopped)

lemma special_bytes: "ms_special c" if "c = quote \<or> c = backslash \<or> open_bracket c \<or> close_bracket c \<or> scalar_end c"
proof -
  have "ms_special quote" "ms_special backslash" "ms_special (CHR ''{'')" "ms_special (CHR ''['')" "ms_special (CHR ''}'')" "ms_special (CHR '']'')"
    "ms_special (CHR '','')" "ms_special (CHR '' '')" "ms_special (CHR 0x09)" "ms_special (CHR 0x0A)" "ms_special (CHR 0x0D)"
    by (simp_all add: ms_special_def k_ms_special_def)
  then show ?thesis using that unfolding open_bracket_def close_bracket_def scalar_end_def tl_jsplit_is_ws_def by blast
qed

text \<open>A byte that no scan reacts to.\<close>

definition inert_byte :: "tl_jsplit_scan_t \<Rightarrow> char \<Rightarrow> bool" where
  "inert_byte s c \<longleftrightarrow> tl_jsplit_scan_byte s c = (TL_JSCAN_MORE, s)"

lemma inert_plain: "sc_mode s \<noteq> TL_JSCAN_ESC \<Longrightarrow> \<not> ms_special c \<Longrightarrow> inert_byte s c"
  using special_bytes [of c] by (cases "sc_mode s") (auto simp: inert_byte_def tl_jsplit_scan_byte_def)

lemma inert_string: "sc_mode s = TL_JSCAN_STR \<Longrightarrow> c \<noteq> quote \<Longrightarrow> c \<noteq> backslash \<Longrightarrow> inert_byte s c"
  by (simp add: inert_byte_def tl_jsplit_scan_byte_def)

definition all_inert :: "mapresp_json_t \<Rightarrow> char \<Rightarrow> bool" where
  "all_inert m c \<longleftrightarrow> lv_g (ms_inner m) = G_VALUE \<and> inert_byte (mj_val m) c \<and> (\<forall>L \<in> set (butlast (mj_lvl m)). inert_byte (lv_ext L) c)"

lemma inert_run_bytes: "\<forall>c \<in> set (take (ms_inert_run m p) p). all_inert m c"
proof -
  have tw: "take (length (takeWhile P p)) p = takeWhile P p" for P :: "char \<Rightarrow> bool" by (metis takeWhile_eq_take)
  show ?thesis using inert_plain inert_string unfolding ms_inert_run_def all_inert_def by (auto simp: tw dest!: set_takeWhileD)
qed

lemma ext_feed_inert:
  "\<forall>L \<in> set (butlast Ls). inert_byte (lv_ext L) c \<Longrightarrow> \<exists>es. ext_feed Ls c = (Ls, es, False) \<and> True \<notin> set es"
  by (induction Ls c rule: ext_feed.induct) (auto simp: inert_byte_def)

lemma pop_open: "lv_g (hd Ls) \<noteq> G_CLOSED \<Longrightarrow> ms_pop Ls es = (Ls, es)"
  by (cases "(Ls, es)" rule: ms_pop.cases) auto

lemma ms_step_inert:
  assumes "all_inert m c" "\<not> mj_err m"
  shows "ms_step jsmn_parse keep m c = ms_copy m [c]"
proof -
  obtain es where es: "ext_feed (mj_lvl m) c = (mj_lvl m, es, False)" "True \<notin> set es" using ext_feed_inert assms(1) by (metis all_inert_def)
  have g: "ms_grammar jsmn_parse keep (m\<lparr>mj_lvl := mj_lvl m\<rparr>) c = ms_store m c"
    using assms(1) by (simp add: ms_grammar_def all_inert_def inert_byte_def)
  have l: "mj_lvl (ms_store m c) = mj_lvl m" "mj_err (ms_store m c) = mj_err m" by (simp_all add: ms_store_def)
  have "ms_pop (mj_lvl m) es = (mj_lvl m, es)" using assms(1) by (intro pop_open) (simp add: all_inert_def ms_inner_def)
  then have "ms_byte jsmn_parse keep m c = (ms_store m c)\<lparr>mj_lvl := mj_lvl m\<rparr>"
    unfolding ms_byte_def es(1) prod.case Let_def if_False g l using assms(2) es(2) by simp
  then show ?thesis by (simp add: ms_step_def ms_store_def ms_copy_def Let_def)
qed

lemma copy_fields [simp]: "mj_lvl (ms_copy m s) = mj_lvl m" "mj_val (ms_copy m s) = mj_val m" "mj_err (ms_copy m s) = mj_err m" "mj_done (ms_copy m s) = mj_done m"
  by (simp_all add: ms_copy_def)

lemma copy_inert [simp]: "all_inert (ms_copy m s) c = all_inert m c"
  by (simp add: all_inert_def ms_inner_def)

lemma copy_nil [simp]: "ms_copy m [] = m"
  by (simp add: ms_copy_def)

lemma copy_append: "ms_copy (ms_copy m [c]) s = ms_copy m (c # s)"
  by (cases "mj_vlen m < mj_vlim m") (auto simp: ms_copy_def take_Cons')

lemma feed_inert:
  assumes "\<forall>c \<in> set xs. all_inert m c" "\<not> mj_err m" "\<not> mj_done m"
  shows "feed_bytes jsmn_parse keep m xs = ms_copy m xs"
  using assms
proof (induction xs arbitrary: m)
  case (Cons c xs)
  then show ?case using ms_step_inert [of m c jsmn_parse keep] Cons.IH [of "ms_copy m [c]"] by (simp add: copy_append)
qed simp

lemma feed_is_bytes: "mapresp_json_feed jsmn_parse keep m data = feed_bytes jsmn_parse keep m data"
proof (induction jsmn_parse keep m data rule: mapresp_json_feed.induct)
  case (1 jsmn_parse keep m data)
  define run where "run = ms_inert_run m data"
  show ?case
  proof (cases "data = [] \<or> mj_err m \<or> mj_done m")
    case True
    then show ?thesis by (subst mapresp_json_feed.simps) (auto simp: feed_bytes_stopped)
  next
    case False
    have f: "mapresp_json_feed jsmn_parse keep m data =
        (if run > 0 then mapresp_json_feed jsmn_parse keep (ms_copy m (take run data)) (drop run data)
         else mapresp_json_feed jsmn_parse keep (ms_step jsmn_parse keep m (hd data)) (tl data))"
      using False by (subst mapresp_json_feed.simps) (simp add: run_def Let_def)
    show ?thesis
    proof (cases "run > 0")
      case True
      have "feed_bytes jsmn_parse keep m (take run data @ drop run data) = feed_bytes jsmn_parse keep (ms_copy m (take run data)) (drop run data)"
        unfolding feed_bytes_append using feed_inert [of "take run data" m] inert_run_bytes [of m data] False by (simp add: run_def)
      then show ?thesis using f True "1.IH"(1) [OF False run_def True] by simp
    next
      case n: False
      then show ?thesis using f "1.IH"(2) [OF False run_def n] False by (cases data) auto
    qed
  qed
qed

lemma feed_append: "mapresp_json_feed jsmn_parse keep m (xs @ ys) = mapresp_json_feed jsmn_parse keep (mapresp_json_feed jsmn_parse keep m xs) ys"
  by (simp add: feed_is_bytes feed_bytes_append)

interpretation json_feed: byte_feed "feed_bytes jsmn_parse keep" "mapresp_json_feed jsmn_parse keep" for jsmn_parse keep
  by unfold_locales (simp add: feed_is_bytes feed_bytes_append)

section \<open>Everything stays in its buffer\<close>

text \<open>The containers that can be open: the top object, in it one of the arrays or the DERP map, in that the regions.\<close>

definition open_roles :: "ms_role list \<Rightarrow> bool" where
  "open_roles rs \<longleftrightarrow> rs = [MS_TOP] \<or> (\<exists>r. rs = [r, MS_TOP] \<and> r \<noteq> MS_TOP \<and> r \<noteq> MS_REGIONS) \<or> rs = [MS_REGIONS, MS_DERPMAP, MS_TOP]"

definition may_descend :: "ms_role \<Rightarrow> ms_role \<Rightarrow> bool" where
  "may_descend r sub \<longleftrightarrow> (r = MS_TOP \<and> sub \<noteq> MS_TOP \<and> sub \<noteq> MS_REGIONS) \<or> (r = MS_DERPMAP \<and> sub = MS_REGIONS)"

definition act_ok :: "ms_act \<Rightarrow> tl_netmap_t \<Rightarrow> bool" where
  "act_ok act out \<longleftrightarrow> (act = MV_PEER \<longrightarrow> length (map_peers out) < TL_MAX_PEERS) \<and> (act = MV_REMOVED \<longrightarrow> length (map_removed_ids out) < TL_MAX_PEERS_REMOVED) \<and>
     (act = MV_REGION \<longrightarrow> length (map_derp_regions out) < TL_MAX_DERP_REGIONS)"

definition ms_base :: "int \<Rightarrow> nat \<Rightarrow> mapresp_json_t \<Rightarrow> bool" where
  "ms_base keep cap m \<longleftrightarrow> open_roles (map lv_role (mj_lvl m)) \<and> netmap_fits keep (mj_out m) \<and> \<not> mj_fault m \<and> mj_elem_cap m = cap \<and> REMOVED_LIM \<le> cap \<and>
     length (mj_elem m) = min (mj_vlen m) (mj_vlim m) \<and> mj_vlim m \<le> cap \<and> length (mj_key m) = min (mj_key_len m) MAPRESP_KEY_MAX"

definition ms_inv :: "int \<Rightarrow> nat \<Rightarrow> mapresp_json_t \<Rightarrow> bool" where
  "ms_inv keep cap m \<longleftrightarrow> ms_base keep cap m \<and> (lv_g (ms_inner m) = G_VALUE \<longrightarrow> act_ok (mj_vact m) (mj_out m))"

lemma open_roles_cons: "open_roles (map lv_role Ls) \<Longrightarrow> \<exists>L Ps. Ls = L # Ps"
  by (cases Ls) (auto simp: open_roles_def)

lemma open_roles_bounds: "open_roles rs \<Longrightarrow> 1 \<le> length rs \<and> length rs \<le> MAPRESP_LEVELS"
  by (auto simp: open_roles_def MAPRESP_LEVELS_def)

lemma open_roles_descend: "open_roles (r # rs) \<Longrightarrow> may_descend r sub \<Longrightarrow> open_roles (sub # r # rs) \<and> length (r # rs) < MAPRESP_LEVELS"
  by (auto simp: open_roles_def may_descend_def MAPRESP_LEVELS_def)

lemma open_roles_pop: "open_roles (r # q # rs) \<Longrightarrow> open_roles (q # rs)"
  by (auto simp: open_roles_def)

lemma fail_inv [simp]: "ms_inv keep cap (ms_fail m) = ms_inv keep cap m"
  by (simp add: ms_fail_def ms_inv_def ms_base_def ms_inner_def)

lemma set_g_fields [simp]:
  "mj_out (set_g g m) = mj_out m" "mj_vact (set_g g m) = mj_vact m" "lv_g (ms_inner (set_g g m)) = g" "lv_role (ms_inner (set_g g m)) = lv_role (ms_inner m)"
  "mj_key_len (set_g g m) = mj_key_len m" "mj_key (set_g g m) = mj_key m" "mj_elem_cap (set_g g m) = mj_elem_cap m" "mj_err (set_g g m) = mj_err m"
  "mj_vlen (set_g g m) = mj_vlen m" "mj_vlim (set_g g m) = mj_vlim m"
  by (simp_all add: set_g_def ms_inner_def)

lemma set_g_base: "ms_base keep cap m \<Longrightarrow> ms_base keep cap (set_g g m)"
  using open_roles_cons [of "mj_lvl m"] by (auto simp: ms_base_def set_g_def ms_inner_def)

lemma set_g_inv: "ms_base keep cap m \<Longrightarrow> g \<noteq> G_VALUE \<Longrightarrow> ms_inv keep cap (set_g g m)"
  by (simp add: ms_inv_def set_g_base)

lemma inv_base: "ms_inv keep cap m \<Longrightarrow> ms_base keep cap m"
  by (simp add: ms_inv_def)

lemma store_inv: "ms_inv keep cap m \<Longrightarrow> ms_inv keep cap (ms_store m c)"
  by (auto simp: ms_inv_def ms_base_def ms_store_def ms_inner_def)

lemma key_add_inv: "ms_inv keep cap m \<Longrightarrow> ms_inv keep cap (ms_key_add m c)"
  by (auto simp: ms_inv_def ms_base_def ms_key_add_def ms_inner_def MAPRESP_KEY_MAX_def)

lemma set_out_base: "ms_base keep cap m \<Longrightarrow> yields (netmap_fits keep) r \<Longrightarrow> ms_base keep cap (set_out m r)"
  by (auto simp: ms_base_def set_out_def yields_def)

lemma set_out_peak_base: "ms_base keep cap m \<Longrightarrow> yields (out_fits keep) r \<Longrightarrow> ms_base keep cap (set_out_peak m r)"
  by (auto simp: ms_base_def set_out_peak_def yields_def)

lemma overflow_fits: "netmap_fits keep out \<Longrightarrow> netmap_fits keep (out\<lparr>map_patches_overflow := True\<rparr>)" "netmap_fits keep out \<Longrightarrow> netmap_fits keep (out\<lparr>map_removed_overflow := True\<rparr>)"
  "netmap_fits keep out \<Longrightarrow> netmap_fits keep (out\<lparr>map_peers := []\<rparr>)" "netmap_fits keep out \<Longrightarrow> netmap_fits keep (out\<lparr>map_derp_regions := []\<rparr>)"
  "netmap_fits keep out \<Longrightarrow> netmap_fits keep (out\<lparr>map_peers_is_delta := b\<rparr>)" "netmap_fits keep out \<Longrightarrow> netmap_fits keep (regions_done out)"
  by (simp_all add: netmap_fits_def regions_done_def)

lemma element_base:
  assumes "jsmn_writes jsmn_parse" "ms_base keep cap m" "act_ok (mj_vact m) (mj_out m)"
  shows "ms_base keep cap (ms_element jsmn_parse keep m)"
proof (cases "mj_vlen m > mj_vlim m")
  case True
  then show ?thesis using assms(2) by (auto simp: ms_element_def Let_def ms_base_def overflow_fits)
next
  case False
  have fit: "netmap_fits keep (mj_out m)" using assms(2) by (simp add: ms_base_def)
  note es = elem_node_fits [OF assms(1) fit] elem_peer_fits [OF assms(1) fit] elem_removed_fits [OF fit] elem_patch_fits [OF assms(1) fit] elem_region_fits [OF assms(1) fit]
  show ?thesis using False assms(2,3) unfolding ms_element_def Let_def
    by (cases "mj_vact m") (simp_all add: act_ok_def es set_out_base set_out_peak_base)
qed

lemma element_inner [simp]: "mj_lvl (ms_element jsmn_parse keep m) = mj_lvl m"
  by (auto simp: ms_element_def Let_def set_out_def set_out_peak_def split: ms_act.split option.split)

lemma value_end_inv:
  assumes "jsmn_writes jsmn_parse" "ms_inv keep cap m" "lv_g (ms_inner m) = G_VALUE"
  shows "ms_inv keep cap (ms_value_end jsmn_parse keep m)"
proof -
  define g where "g = after_val (lv_role (ms_inner m))"
  have g: "g \<noteq> G_VALUE" by (simp add: g_def after_val_def)
  define m1 where "m1 = set_g g m"
  define m2 where "m2 = (if mj_vact m1 \<noteq> MV_REMOVED \<and> mj_vlen m1 > mj_elem_peak m1 then m1\<lparr>mj_elem_peak := mj_vlen m1\<rparr> else m1)"
  have b1: "ms_inv keep cap m1" unfolding m1_def by (rule set_g_inv [OF inv_base [OF assms(2)] g])
  have b: "ms_base keep cap m2" using inv_base [OF b1] by (auto simp: m2_def ms_base_def)
  have a: "act_ok (mj_vact m2) (mj_out m2)" using assms(2,3) by (auto simp: m2_def m1_def ms_inv_def)
  have i: "lv_g (ms_inner m2) = g" by (simp add: m2_def m1_def ms_inner_def set_g_def)
  have "ms_inv keep cap (ms_element jsmn_parse keep m2)"
    using element_base [OF assms(1) b a] i g by (simp add: ms_inv_def ms_inner_def)
  then show ?thesis using b1 unfolding ms_value_end_def Let_def g_def [symmetric] m1_def [symmetric] m2_def [symmetric] by simp
qed

lemma descend_inv:
  assumes "ms_base keep cap m" "may_descend (lv_role (ms_inner m)) sub"
  shows "ms_inv keep cap (ms_descend sub c m)"
proof -
  obtain L Ps where l: "mj_lvl m = L # Ps" using open_roles_cons assms(1) by (fastforce simp: ms_base_def)
  have r: "open_roles (sub # lv_role L # map lv_role Ps)" "length (L # Ps) < MAPRESP_LEVELS"
    using open_roles_descend [of "lv_role L" "map lv_role Ps" sub] assms by (simp_all add: ms_base_def l ms_inner_def)
  show ?thesis using assms(1) r unfolding ms_descend_def Let_def ms_inv_def ms_base_def l ms_inner_def
    by (auto simp: overflow_fits)
qed

lemma collect_inv:
  assumes "ms_base keep cap m" "lv_g (ms_inner m) \<noteq> G_VALUE" "act_ok act (mj_out m)"
  shows "ms_inv keep cap (ms_collect act c m)"
proof -
  obtain r sc where sb: "tl_jsplit_scan_begin c = (r, sc)" by fastforce
  have cap: "mj_elem_cap m = cap" "REMOVED_LIM \<le> cap" using assms(1) by (simp_all add: ms_base_def)
  have "ms_inv keep cap (m\<lparr>mj_val := sc\<rparr>)" using assms(1,2) by (simp add: ms_inv_def ms_base_def ms_inner_def)
  moreover have "ms_inv keep cap ((set_g G_VALUE m)\<lparr>mj_val := sc, mj_vact := act, mj_vlen := 0, mj_elem := [],
       mj_vlim := (if act = MV_SKIP then 0 else if act = MV_REMOVED then REMOVED_LIM else mj_elem_cap m)\<rparr>)"
    using set_g_base [OF assms(1), of G_VALUE] assms(3) cap by (simp add: ms_inv_def ms_base_def ms_inner_def)
  ultimately show ?thesis unfolding ms_collect_def sb prod.case by (simp add: store_inv)
qed

text \<open>What the dispatch of a value can do.\<close>

lemma dispatch_ok:
  assumes "ms_dispatch m c = (st, out, seen)" "netmap_fits keep (mj_out m)"
  shows "netmap_fits keep out \<and> (case st of Descend sub \<Rightarrow> may_descend (lv_role (ms_inner m)) sub | Collect act \<Rightarrow> act_ok act out)"
  using assms by (cases "lv_role (ms_inner m)") (auto simp: ms_dispatch_def Let_def overflow_fits may_descend_def act_ok_def split: if_splits)

lemma value_start_inv:
  assumes "ms_base keep cap m" "lv_g (ms_inner m) \<noteq> G_VALUE"
  shows "ms_inv keep cap (ms_value_start m c)"
proof -
  obtain st out seen where d: "ms_dispatch m c = (st, out, seen)" by (cases "ms_dispatch m c") auto
  have o: "netmap_fits keep out" "case st of Descend sub \<Rightarrow> may_descend (lv_role (ms_inner m)) sub | Collect act \<Rightarrow> act_ok act out"
    using dispatch_ok [OF d] assms(1) by (auto simp: ms_base_def)
  define m1 where "m1 = m\<lparr>mj_out := out, mj_regions_seen := seen\<rparr>"
  have m1: "ms_base keep cap m1" "ms_inner m1 = ms_inner m" "mj_out m1 = out" using assms(1) o(1) by (simp_all add: m1_def ms_base_def ms_inner_def)
  show ?thesis unfolding ms_value_start_def d prod.case Let_def m1_def [symmetric]
    using o(2) descend_inv [OF m1(1)] collect_inv [OF m1(1)] m1(2,3) assms(2) by (cases st) auto
qed

lemma close_inv:
  assumes "ms_base keep cap m" "lv_g (ms_inner m) \<noteq> G_VALUE"
  shows "ms_inv keep cap (ms_close m)"
proof (cases "length (mj_lvl m) = 1")
  case True
  then show ?thesis using assms by (simp add: ms_close_def ms_inv_def ms_base_def ms_inner_def)
next
  case False
  have "ms_base keep cap (m\<lparr>mj_out := (if lv_role (ms_inner m) = MS_PEERS then (mj_out m)\<lparr>map_peers_is_delta := False\<rparr>
          else if lv_role (ms_inner m) = MS_PEERS_CHANGED then (mj_out m)\<lparr>map_peers_is_delta := True\<rparr>
          else if lv_role (ms_inner m) = MS_REGIONS then regions_done (mj_out m) else mj_out m)\<rparr>)"
    using assms(1) by (simp add: ms_base_def overflow_fits)
  then show ?thesis unfolding ms_close_def Let_def using False set_g_inv by simp
qed

lemma inv_outside: "ms_base keep cap m \<Longrightarrow> lv_g (ms_inner m) \<noteq> G_VALUE \<Longrightarrow> ms_inv keep cap m"
  by (simp add: ms_inv_def)

lemma key_start_inv: "ms_base keep cap m \<Longrightarrow> ms_inv keep cap ((set_g G_KEY m)\<lparr>mj_key_len := 0, mj_key := []\<rparr>)"
  using set_g_base [of keep cap m G_KEY] by (simp add: ms_inv_def ms_base_def ms_inner_def set_g_def)

lemma member_inv:
  assumes "ms_base keep cap m" "lv_g (ms_inner m) \<noteq> G_VALUE"
  shows "ms_inv keep cap (obj_member m c)" "ms_inv keep cap (arr_member m c)" "ms_inv keep cap (ms_member m c)"
proof -
  note rules = inv_outside [OF assms] close_inv [OF assms] value_start_inv [OF assms] key_start_inv [OF assms(1)] set_g_inv [OF assms(1)]
  show o: "ms_inv keep cap (obj_member m c)" by (simp add: obj_member_def rules)
  show a: "ms_inv keep cap (arr_member m c)" by (simp add: arr_member_def rules)
  show "ms_inv keep cap (ms_member m c)" unfolding ms_member_def using o a
    by (cases "lv_g (ms_inner m)") (auto simp: rules key_add_inv)
qed

lemma after_end: "lv_g (ms_inner (ms_value_end jsmn_parse keep m)) \<noteq> G_VALUE"
proof -
  have "lv_g (ms_inner (ms_element jsmn_parse keep m1)) = lv_g (ms_inner m1)" for m1 by (simp add: ms_inner_def)
  moreover have "lv_g (ms_inner (m1\<lparr>mj_elem_peak := x\<rparr>)) = lv_g (ms_inner m1)" for m1 x by (simp add: ms_inner_def)
  ultimately show ?thesis unfolding ms_value_end_def Let_def by (auto simp: after_val_def)
qed

lemma grammar_inv:
  assumes "jsmn_writes jsmn_parse" "ms_inv keep cap m"
  shows "ms_inv keep cap (ms_grammar jsmn_parse keep m c)"
proof (cases "lv_g (ms_inner m) = G_VALUE")
  case False
  then show ?thesis using member_inv(3) inv_base [OF assms(2)] by (simp add: ms_grammar_def)
next
  case True
  obtain r sc where s: "tl_jsplit_scan_byte (mj_val m) c = (r, sc)" by fastforce
  define m1 where "m1 = m\<lparr>mj_val := sc\<rparr>"
  have m1: "ms_inv keep cap m1" "lv_g (ms_inner m1) = G_VALUE" "lv_g (ms_inner (ms_store m1 c)) = G_VALUE"
    using assms(2) True by (simp_all add: m1_def ms_inv_def ms_base_def ms_inner_def ms_store_def)
  have "ms_inv keep cap (ms_member (ms_value_end jsmn_parse keep m1) c)"
    by (rule member_inv(3) [OF inv_base [OF value_end_inv [OF assms(1) m1(1,2)]] after_end])
  then show ?thesis unfolding ms_grammar_def s prod.case Let_def m1_def [symmetric]
    using True m1 store_inv [OF m1(1)] value_end_inv [OF assms(1) store_inv [OF m1(1)] m1(3)] by (cases r) simp_all
qed

lemma ext_feed_keeps: "map lv_role (fst (ext_feed Ls c)) = map lv_role Ls" "map lv_g (fst (ext_feed Ls c)) = map lv_g Ls"
  by (induction Ls c rule: ext_feed.induct) (auto split: prod.split)

lemma pop_keeps:
  "open_roles (map lv_role Ls) \<Longrightarrow> open_roles (map lv_role (fst (ms_pop Ls es))) \<and> (fst (ms_pop Ls es) = Ls \<or> lv_g (hd (fst (ms_pop Ls es))) \<noteq> G_VALUE)"
proof (induction Ls es rule: ms_pop.induct)
  case (1 L P Ls e es)
  have "open_roles (map lv_role (P\<lparr>lv_g := after_val (lv_role P)\<rparr> # Ls))" using open_roles_pop "1.prems" by auto
  then show ?case using "1.IH" "1.prems" by (auto simp: after_val_def)
qed auto

lemma relevel_inv:
  assumes "ms_inv keep cap m" "open_roles (map lv_role Ls)" "Ls = mj_lvl m \<or> lv_g (hd Ls) = lv_g (hd (mj_lvl m)) \<or> lv_g (hd Ls) \<noteq> G_VALUE"
  shows "ms_inv keep cap (m\<lparr>mj_lvl := Ls\<rparr>)"
  using assms by (auto simp: ms_inv_def ms_base_def ms_inner_def)

lemma byte_inv:
  assumes "jsmn_writes jsmn_parse" "ms_inv keep cap m"
  shows "ms_inv keep cap (ms_byte jsmn_parse keep m c)"
proof -
  obtain Ls es err where e: "ext_feed (mj_lvl m) c = (Ls, es, err)" by (cases "ext_feed (mj_lvl m) c") auto
  have o: "open_roles (map lv_role (mj_lvl m))" using assms(2) by (simp add: ms_inv_def ms_base_def)
  have k: "map lv_role Ls = map lv_role (mj_lvl m)" "map lv_g Ls = map lv_g (mj_lvl m)" using ext_feed_keeps [of "mj_lvl m" c] e by simp_all
  have "lv_g (hd Ls) = lv_g (hd (mj_lvl m))" using k(2) open_roles_cons [OF o] by (cases Ls) auto
  then have i0: "ms_inv keep cap (m\<lparr>mj_lvl := Ls\<rparr>)" by (intro relevel_inv [OF assms(2)]) (simp_all add: k(1) o)
  define m1 where "m1 = ms_grammar jsmn_parse keep (m\<lparr>mj_lvl := Ls\<rparr>) c"
  have i1: "ms_inv keep cap m1" unfolding m1_def by (rule grammar_inv [OF assms(1) i0])
  have o1: "open_roles (map lv_role (mj_lvl m1))" using i1 by (simp add: ms_inv_def ms_base_def)
  have pop: "ms_inv keep cap (m1\<lparr>mj_lvl := fst (ms_pop (mj_lvl m1) es)\<rparr>)"
    using pop_keeps [OF o1, of es] by (intro relevel_inv [OF i1]) auto
  have same: "ms_inv keep cap (m1\<lparr>mj_lvl := mj_lvl m1\<rparr>)" using i1 by simp
  show ?thesis unfolding ms_byte_def e prod.case Let_def m1_def [symmetric] using i0 i1 pop same by (auto split: prod.split)
qed

lemma json_step_inv: "jsmn_writes jsmn_parse \<Longrightarrow> ms_inv keep cap m \<Longrightarrow> ms_inv keep cap (ms_step jsmn_parse keep m c)"
  using byte_inv [of jsmn_parse keep cap m c] by (simp add: ms_step_def Let_def ms_inv_def ms_base_def ms_inner_def)

lemma json_feed_inv: "jsmn_writes jsmn_parse \<Longrightarrow> ms_inv keep cap m \<Longrightarrow> ms_inv keep cap (feed_bytes jsmn_parse keep m cs)"
  by (induction cs arbitrary: m) (auto simp: json_step_inv)

lemma json_begin_inv: "REMOVED_LIM \<le> cap \<Longrightarrow> ms_inv keep cap (mapresp_json_begin cap)"
  by (simp add: ms_inv_def ms_base_def mapresp_json_begin_def open_roles_def netmap_fits_def tl_netmap_clear_def ms_inner_def)

end
