(* ===== verification/MapResp_Frames.thy ===== *)
theory MapResp_Frames
  imports MapResp_Stream
begin

text \<open>
  The long poll of \<open>mapreq.c\<close>: the framing of MapResponses in the bytes of the HTTP/2 stream, cut anywhere
  (\<open>mapresp_stream_feed\<close>), and what a complete frame does (\<open>stream_frame\<close>).  The frame callback and the handler of a netmap are
  functions on a state of the caller, and so is what else they do (log lines, the mark that control is alive).  Before the first
  frame the parser state is the one that opens a body; the C code zeroes it and opens it with the frame, before it is read.
\<close>

section \<open>The framing\<close>

record mapresp_stream_t =
  st_hdr :: bytes
  st_in_body :: bool
  st_body_size :: u32
  st_body_have :: u32
  st_json :: mapresp_json_t
  st_elem_cap :: nat

text \<open>The bytes as the characters the parser reads.\<close>

definition text_of :: "bytes \<Rightarrow> string" where "text_of bs = map (\<lambda>b. char_of (unat b)) bs"

definition mapresp_stream_init :: "nat \<Rightarrow> mapresp_stream_t" where
  "mapresp_stream_init cap = \<lparr>st_hdr = [], st_in_body = False, st_body_size = 0, st_body_have = 0, st_json = mapresp_json_begin cap, st_elem_cap = cap\<rparr>"

type_synonym 'u mapresp_frame_fn = "mapresp_stream_t \<Rightarrow> 'u \<Rightarrow> int \<times> 'u"

definition stream_frame_end :: "'u mapresp_frame_fn \<Rightarrow> mapresp_stream_t \<Rightarrow> 'u \<Rightarrow> mapresp_stream_t \<times> 'u \<times> int" where
  "stream_frame_end on_frame ms u =
    (if st_in_body ms \<and> st_body_have ms = st_body_size ms then
       (let ms1 = ms\<lparr>st_in_body := False, st_json := mapresp_json_end (st_json ms)\<rparr> in
        case on_frame ms1 u of (rc, u1) \<Rightarrow> (ms1, u1, if rc \<noteq> 0 then -1 else 0))
     else (ms, u, 0))"

text \<open>One turn of the loop over the data that is left: a size byte, or what there is of the body.\<close>

definition stream_turn :: "jsmn \<Rightarrow> int \<Rightarrow> 'u mapresp_frame_fn \<Rightarrow> mapresp_stream_t \<Rightarrow> bytes \<Rightarrow> 'u \<Rightarrow> bytes \<times> mapresp_stream_t \<times> 'u \<times> int" where
  "stream_turn jsmn_parse keep on_frame ms data u =
    (if \<not> st_in_body ms then
       (let hdr = st_hdr ms @ [hd data] in
        if length hdr < 4 then (tl data, ms\<lparr>st_hdr := hdr\<rparr>, u, 0)
        else (let body_size = le_word hdr; ms1 = ms\<lparr>st_hdr := [], st_body_size := body_size\<rparr> in
          if body_size > MAPRESP_FRAME_MAX then (tl data, ms1, u, -1)
          else (tl data, stream_frame_end on_frame (ms1\<lparr>st_body_have := 0, st_in_body := True, st_json := mapresp_json_begin (st_elem_cap ms)\<rparr>) u)))
     else
       (let n = min (length data) (unat (st_body_size ms - st_body_have ms)) in
        (drop n data, stream_frame_end on_frame (ms\<lparr>st_json := mapresp_json_feed jsmn_parse keep (st_json ms) (text_of (take n data)),
           st_body_have := st_body_have ms + of_nat n\<rparr>) u)))"

definition turn_measure :: "bytes \<Rightarrow> mapresp_stream_t \<Rightarrow> nat" where
  "turn_measure data ms = 2 * length data + (if st_in_body ms then 1 else 0)"

lemma stream_frame_end_body: "st_in_body (fst (stream_frame_end on_frame ms u)) \<longleftrightarrow> st_in_body ms \<and> st_body_have ms \<noteq> st_body_size ms"
  by (auto simp: stream_frame_end_def Let_def split: prod.split)

lemma stream_turn_decreases:
  assumes "data \<noteq> []" "stream_turn jsmn_parse keep on_frame ms data u = (data1, ms1, u1, rc)"
  shows "turn_measure data1 ms1 < turn_measure data ms"
proof (cases "st_in_body ms")
  case False
  then have "data1 = tl data" using assms(2) by (auto simp: stream_turn_def Let_def split: if_splits)
  moreover have "length data = Suc (length (tl data))" using assms(1) by simp
  ultimately show ?thesis using False by (simp add: turn_measure_def)
next
  case True
  define n where "n = min (length data) (unat (st_body_size ms - st_body_have ms))"
  define m1 where "m1 = ms\<lparr>st_json := mapresp_json_feed jsmn_parse keep (st_json ms) (text_of (take n data)), st_body_have := st_body_have ms + of_nat n\<rparr>"
  have t: "data1 = drop n data" "ms1 = fst (stream_frame_end on_frame m1 u)"
    using assms(2) True unfolding stream_turn_def Let_def n_def [symmetric] m1_def [symmetric] by auto
  show ?thesis
  proof (cases "n = 0")
    case z: True
    then have "st_body_size ms = st_body_have ms" using assms(1) by (auto simp: n_def min_def unat_eq_zero split: if_splits)
    then have "\<not> st_in_body ms1" unfolding t(2) stream_frame_end_body by (simp add: m1_def z)
    then show ?thesis using True t(1) z by (simp add: turn_measure_def)
  next
    case False
    then show ?thesis using True t(1) assms(1) by (auto simp: turn_measure_def n_def)
  qed
qed

function mapresp_stream_feed :: "jsmn \<Rightarrow> int \<Rightarrow> 'u mapresp_frame_fn \<Rightarrow> mapresp_stream_t \<Rightarrow> bytes \<Rightarrow> 'u \<Rightarrow> mapresp_stream_t \<times> 'u \<times> int" where
  "mapresp_stream_feed jsmn_parse keep on_frame ms data u =
    (if data = [] then (ms, u, 0)
     else case stream_turn jsmn_parse keep on_frame ms data u of (data1, ms1, u1, rc) \<Rightarrow>
       if rc \<noteq> 0 then (ms1, u1, rc) else mapresp_stream_feed jsmn_parse keep on_frame ms1 data1 u1)"
  by pat_completeness auto
termination
  by (relation "measure (\<lambda>(_, _, _, ms, data, _). turn_measure data ms)") (auto intro: stream_turn_decreases [OF _ sym])

declare mapresp_stream_feed.simps [simp del]

text \<open>The chunks the HTTP/2 layer delivers, until one stops the stream.\<close>

fun stream_chunks :: "jsmn \<Rightarrow> int \<Rightarrow> 'u mapresp_frame_fn \<Rightarrow> mapresp_stream_t \<Rightarrow> bytes list \<Rightarrow> 'u \<Rightarrow> mapresp_stream_t \<times> 'u \<times> int" where
  "stream_chunks jsmn_parse keep on_frame ms [] u = (ms, u, 0)"
| "stream_chunks jsmn_parse keep on_frame ms (d # ds) u = (case mapresp_stream_feed jsmn_parse keep on_frame ms d u of (ms1, u1, rc) \<Rightarrow>
     if rc \<noteq> 0 then (ms1, u1, rc) else stream_chunks jsmn_parse keep on_frame ms1 ds u1)"

section \<open>A frame\<close>

text \<open>\<open>stream_frame\<close>: \<open>on_netmap\<close> answers whether the stream is to be recycled.\<close>

type_synonym 'u mapreq_handler = "tl_netmap_t \<Rightarrow> 'u \<Rightarrow> bool \<times> 'u"

definition netmap_empty :: "tl_netmap_t \<Rightarrow> bool" where
  "netmap_empty nm \<longleftrightarrow> \<not> map_have_self nm \<and> map_peers nm = [] \<and> map_removed_ids nm = [] \<and> map_patches nm = [] \<and> \<not> map_have_derp_map nm"

definition stream_frame :: "'u mapreq_handler \<Rightarrow> 'u mapresp_frame_fn" where
  "stream_frame on_netmap ms u = (let j = st_json ms; nm = mj_out j in
     if mj_err j then (0, u)
     else if map_patches_overflow nm \<or> map_removed_overflow nm then (-1, u)
     else if netmap_empty nm then (0, u)
     else case on_netmap nm u of (recycle, u1) \<Rightarrow> (if recycle then -1 else 0, u1))"

section \<open>Framing is exact, however the bytes are cut\<close>

definition stream_ok :: "mapresp_stream_t \<Rightarrow> bool" where
  "stream_ok ms \<longleftrightarrow> length (st_hdr ms) < 4 \<and> (st_in_body ms \<longrightarrow> st_body_have ms < st_body_size ms)"

lemma feed_nil [simp]: "mapresp_stream_feed jsmn_parse keep on_frame ms [] u = (ms, u, 0)"
  by (subst mapresp_stream_feed.simps) simp

lemma feed_cons:
  "mapresp_stream_feed jsmn_parse keep on_frame ms (c # cs) u = (case stream_turn jsmn_parse keep on_frame ms (c # cs) u of (data1, ms1, u1, rc) \<Rightarrow>
     if rc \<noteq> 0 then (ms1, u1, rc) else mapresp_stream_feed jsmn_parse keep on_frame ms1 data1 u1)"
  by (subst mapresp_stream_feed.simps) simp

lemma text_of_append [simp]: "text_of (xs @ ys) = text_of xs @ text_of ys"
  by (simp add: text_of_def)

text \<open>A size byte, and a body byte that is not the last one: no callback.\<close>

lemma turn_header_rest:
  "\<not> st_in_body ms \<Longrightarrow> stream_turn jsmn_parse keep on_frame ms (c # cs) u = (cs, snd (stream_turn jsmn_parse keep on_frame ms [c] u)) \<and>
     fst (stream_turn jsmn_parse keep on_frame ms [c] u) = []"
  by (simp add: stream_turn_def Let_def)

abbreviation body_take :: "jsmn \<Rightarrow> int \<Rightarrow> mapresp_stream_t \<Rightarrow> bytes \<Rightarrow> mapresp_stream_t" where
  "body_take jsmn_parse keep ms d \<equiv> ms\<lparr>st_json := mapresp_json_feed jsmn_parse keep (st_json ms) (text_of d), st_body_have := st_body_have ms + of_nat (length d)\<rparr>"

lemma turn_body:
  assumes "st_in_body ms"
  shows "stream_turn jsmn_parse keep on_frame ms data u =
    (let n = min (length data) (unat (st_body_size ms - st_body_have ms)) in (drop n data, stream_frame_end on_frame (body_take jsmn_parse keep ms (take n data)) u))"
  using assms by (simp add: stream_turn_def Let_def)

lemma body_take_take: "body_take jsmn_parse keep (body_take jsmn_parse keep ms xs) ys = body_take jsmn_parse keep ms (xs @ ys)"
  by (simp add: feed_append add.assoc)

lemma word_left:
  fixes hv sz :: u32
  assumes "hv < sz" "n \<le> unat (sz - hv)"
  shows "unat (hv + of_nat n) = unat hv + n" "unat (sz - (hv + of_nat n)) = unat (sz - hv) - n" "hv + of_nat n = sz \<longleftrightarrow> n = unat (sz - hv)"
proof -
  have d: "unat (sz - hv) = unat sz - unat hv" using assms(1) by (simp add: unat_sub)
  have b: "unat sz < 2 ^ 32" by (rule u32_bound)
  have lt: "unat hv < unat sz" using assms(1) by (simp add: word_less_nat_alt)
  have n: "unat (of_nat n :: u32) = n" using assms(2) d b by (simp add: unat_of_nat)
  show e: "unat (hv + of_nat n) = unat hv + n" using assms(2) d b lt n by (simp add: unat_word_ariths)
  have le: "hv + of_nat n \<le> sz" using e assms(2) d lt by (simp add: word_le_nat_alt)
  show "unat (sz - (hv + of_nat n)) = unat (sz - hv) - n" using unat_sub [OF le] e d by simp
  show "hv + of_nat n = sz \<longleftrightarrow> n = unat (sz - hv)" unfolding word_unat_eq_iff e d using lt by linarith
qed

lemma feed_split:
  assumes "stream_ok ms"
  shows "mapresp_stream_feed jsmn_parse keep on_frame ms (c # cs) u =
    (case mapresp_stream_feed jsmn_parse keep on_frame ms [c] u of (ms1, u1, rc) \<Rightarrow>
       if rc \<noteq> 0 then (ms1, u1, rc) else mapresp_stream_feed jsmn_parse keep on_frame ms1 cs u1)"
proof (cases "st_in_body ms")
  case False
  then show ?thesis using turn_header_rest [OF False, of jsmn_parse keep on_frame c cs u] turn_header_rest [OF False, of jsmn_parse keep on_frame c "[]" u]
    by (cases "stream_turn jsmn_parse keep on_frame ms [c] u") (auto simp: feed_cons)
next
  case True
  define k where "k = unat (st_body_size ms - st_body_have ms)"
  have lt: "st_body_have ms < st_body_size ms" using assms True by (simp add: stream_ok_def)
  then have k: "1 \<le> k" unfolding k_def by (metis One_nat_def Suc_leI eq_iff_diff_eq_0 gr0I less_irrefl unat_eq_zero)
  define m1 where "m1 = body_take jsmn_parse keep ms [c]"
  have one: "stream_turn jsmn_parse keep on_frame ms [c] u = ([], stream_frame_end on_frame m1 u)"
    unfolding turn_body [OF True] Let_def k_def [symmetric] m1_def using k by (simp add: min_def)
  show ?thesis
  proof (cases "k = 1 \<or> cs = []")
    case e: True
    have "stream_turn jsmn_parse keep on_frame ms (c # cs) u = (cs, stream_frame_end on_frame m1 u)"
      unfolding turn_body [OF True] Let_def k_def [symmetric] m1_def using e k by (auto simp: min_def)
    then show ?thesis using one by (cases "stream_frame_end on_frame m1 u") (simp add: feed_cons)
  next
    case more: False
    then have k2: "2 \<le> k" "cs \<noteq> []" using k by auto
    have w: "st_body_have ms + 1 \<noteq> st_body_size ms" "unat (st_body_size ms - (st_body_have ms + 1)) = k - 1"
      using word_left [OF lt, of 1] k more unfolding k_def by auto
    have f1: "stream_frame_end on_frame m1 u = (m1, u, 0)" "st_in_body m1" "unat (st_body_size m1 - st_body_have m1) = k - 1"
      using w True by (simp_all add: stream_frame_end_def m1_def)
    have t: "stream_turn jsmn_parse keep on_frame ms (c # cs) u = stream_turn jsmn_parse keep on_frame m1 cs u"
    proof -
      define n where "n = min (length cs) (k - 1)"
      have n: "min (length (c # cs)) k = Suc n" using k2(1) unfolding n_def by (cases k) auto
      have "body_take jsmn_parse keep ms (c # take n cs) = body_take jsmn_parse keep m1 (take n cs)"
        unfolding m1_def body_take_take by simp
      then show ?thesis unfolding turn_body [OF True] turn_body [OF f1(2)] Let_def k_def [symmetric] f1(3) n n_def [symmetric] by simp
    qed
    have "mapresp_stream_feed jsmn_parse keep on_frame ms (c # cs) u = mapresp_stream_feed jsmn_parse keep on_frame m1 cs u"
      using k2(2) t by (cases cs) (simp_all add: feed_cons)
    then show ?thesis using one f1(1) by (simp add: feed_cons)
  qed
qed

lemma stream_frame_end_ok: "length (st_hdr ms) < 4 \<Longrightarrow> (st_in_body ms \<Longrightarrow> st_body_have ms \<le> st_body_size ms) \<Longrightarrow> stream_ok (fst (stream_frame_end on_frame ms u))"
  by (auto simp: stream_frame_end_def Let_def stream_ok_def split: prod.split)

lemma turn_ok:
  assumes "stream_ok ms" "stream_turn jsmn_parse keep on_frame ms data u = (data1, ms1, u1, rc)" "rc = 0"
  shows "stream_ok ms1"
proof (cases "st_in_body ms")
  case False
  define hdr where "hdr = st_hdr ms @ [hd data]"
  define ms2 where "ms2 = ms\<lparr>st_hdr := [], st_body_size := le_word hdr, st_body_have := 0, st_in_body := True, st_json := mapresp_json_begin (st_elem_cap ms)\<rparr>"
  have "stream_ok (fst (stream_frame_end on_frame ms2 u))" by (rule stream_frame_end_ok) (simp_all add: ms2_def)
  then show ?thesis using assms False unfolding stream_turn_def Let_def hdr_def [symmetric] ms2_def
    by (auto simp: stream_ok_def split: if_splits)
next
  case True
  define n where "n = min (length data) (unat (st_body_size ms - st_body_have ms))"
  define m1 where "m1 = body_take jsmn_parse keep ms (take n data)"
  have lt: "st_body_have ms < st_body_size ms" using assms(1) True by (simp add: stream_ok_def)
  have len: "min (length data) n = n" by (simp add: n_def)
  have "unat (st_body_have ms + of_nat n) \<le> unat (st_body_size ms)"
    using word_left(1) [OF lt, of n] unat_sub [OF less_imp_le [OF lt]] lt by (simp add: n_def word_less_nat_alt)
  then have le: "st_body_have m1 \<le> st_body_size m1" by (simp add: m1_def len word_le_nat_alt)
  have "ms1 = fst (stream_frame_end on_frame m1 u)" using assms(2) unfolding turn_body [OF True] Let_def n_def [symmetric] m1_def [symmetric] by auto
  moreover have "length (st_hdr m1) < 4" using assms(1) by (simp add: m1_def stream_ok_def)
  ultimately show ?thesis using stream_frame_end_ok [of m1] le by simp
qed

lemma feed_ok:
  "stream_ok ms \<Longrightarrow> mapresp_stream_feed jsmn_parse keep on_frame ms data u = (ms1, u1, 0) \<Longrightarrow> stream_ok ms1"
proof (induction jsmn_parse keep on_frame ms data u rule: mapresp_stream_feed.induct)
  case (1 jsmn_parse keep on_frame ms data u)
  show ?case
  proof (cases "data = []")
    case False
    obtain data2 ms2 u2 rc where t: "stream_turn jsmn_parse keep on_frame ms data u = (data2, ms2, u2, rc)" by (metis prod_cases4)
    then have rc: "rc = 0" "mapresp_stream_feed jsmn_parse keep on_frame ms2 data2 u2 = (ms1, u1, 0)"
      using "1.prems"(2) False by (simp_all add: mapresp_stream_feed.simps [of jsmn_parse keep on_frame ms data u] split: if_splits)
    then show ?thesis using "1.IH" [OF False t [symmetric] refl refl] turn_ok [OF "1.prems"(1) t] by simp
  qed (use "1.prems" in auto)
qed

lemma feed_cut:
  "stream_ok ms \<Longrightarrow> mapresp_stream_feed jsmn_parse keep on_frame ms (xs @ ys) u =
    (case mapresp_stream_feed jsmn_parse keep on_frame ms xs u of (ms1, u1, rc) \<Rightarrow>
       if rc \<noteq> 0 then (ms1, u1, rc) else mapresp_stream_feed jsmn_parse keep on_frame ms1 ys u1)"
proof (induction xs arbitrary: ms u)
  case (Cons c cs)
  obtain ms1 u1 rc where o: "mapresp_stream_feed jsmn_parse keep on_frame ms [c] u = (ms1, u1, rc)" by (metis prod_cases3)
  have "rc = 0 \<Longrightarrow> stream_ok ms1" using feed_ok [OF Cons.prems] o by simp
  then show ?case using feed_split [OF Cons.prems, of jsmn_parse keep on_frame c "cs @ ys" u] feed_split [OF Cons.prems, of jsmn_parse keep on_frame c cs u] Cons.IH o by auto
qed simp

text \<open>The stream from its start, and one more chunk.\<close>

definition stream_after :: "jsmn \<Rightarrow> int \<Rightarrow> 'u mapresp_frame_fn \<Rightarrow> nat \<Rightarrow> 'u \<Rightarrow> bytes \<Rightarrow> mapresp_stream_t \<times> 'u \<times> int" where
  "stream_after jsmn_parse keep on_frame cap u bs = mapresp_stream_feed jsmn_parse keep on_frame (mapresp_stream_init cap) bs u"

definition stream_more :: "jsmn \<Rightarrow> int \<Rightarrow> 'u mapresp_frame_fn \<Rightarrow> mapresp_stream_t \<times> 'u \<times> int \<Rightarrow> bytes \<Rightarrow> mapresp_stream_t \<times> 'u \<times> int" where
  "stream_more jsmn_parse keep on_frame r d = (case r of (ms, u, rc) \<Rightarrow> if rc \<noteq> 0 then (ms, u, rc) else mapresp_stream_feed jsmn_parse keep on_frame ms d u)"

lemma init_ok: "stream_ok (mapresp_stream_init cap)"
  by (simp add: stream_ok_def mapresp_stream_init_def)

interpretation stream_pieces: byte_feed "stream_after jsmn_parse keep on_frame cap" "stream_more jsmn_parse keep on_frame" for jsmn_parse keep on_frame cap
  by unfold_locales (simp add: stream_after_def stream_more_def feed_cut [OF init_ok])

lemma chunks_more: "stream_chunks jsmn_parse keep on_frame ms ds u = foldl (stream_more jsmn_parse keep on_frame) (ms, u, 0) ds"
proof (induction ds arbitrary: ms u)
  case (Cons d ds)
  have stop: "rc \<noteq> 0 \<Longrightarrow> foldl (stream_more jsmn_parse keep on_frame) (ms1, u1, rc) ds = (ms1, u1, rc)" for ms1 u1 rc
    by (induction ds) (simp_all add: stream_more_def)
  obtain ms1 u1 rc where o: "mapresp_stream_feed jsmn_parse keep on_frame ms d u = (ms1, u1, rc)" by (metis prod_cases3)
  then have "stream_more jsmn_parse keep on_frame (ms, u, 0) d = (ms1, u1, rc)" by (simp add: stream_more_def)
  then show ?case using Cons.IH [of ms1 u1] stop [of rc ms1 u1] o by (cases "rc = 0") simp_all
qed simp

lemma chunks_concat: "stream_chunks jsmn_parse keep on_frame (mapresp_stream_init cap) chunks u = stream_after jsmn_parse keep on_frame cap u (concat chunks)"
  using stream_pieces.feed_pieces [of jsmn_parse keep on_frame cap u "[]" chunks] by (simp add: chunks_more stream_after_def)

section \<open>Frame by frame\<close>

definition frame_bytes :: "bytes \<Rightarrow> bytes" where "frame_bytes b = le_bytes 4 (of_nat (length b) :: u32) @ b"

definition body_fits :: "bytes \<Rightarrow> bool" where "body_fits b \<longleftrightarrow> length b \<le> unat MAPRESP_FRAME_MAX"

text \<open>What the callback sees for a body: the byte-by-byte parse of it.\<close>

definition frame_seen :: "jsmn \<Rightarrow> int \<Rightarrow> nat \<Rightarrow> bytes \<Rightarrow> mapresp_stream_t" where
  "frame_seen jsmn_parse keep cap b = \<lparr>st_hdr = [], st_in_body = False, st_body_size = of_nat (length b), st_body_have = of_nat (length b),
     st_json = mapresp_json_end (feed_bytes jsmn_parse keep (mapresp_json_begin cap) (text_of b)), st_elem_cap = cap\<rparr>"

fun deliver :: "jsmn \<Rightarrow> int \<Rightarrow> nat \<Rightarrow> 'u mapresp_frame_fn \<Rightarrow> bytes list \<Rightarrow> 'u \<Rightarrow> 'u \<times> int" where
  "deliver jsmn_parse keep cap on_frame [] u = (u, 0)"
| "deliver jsmn_parse keep cap on_frame (b # bs) u = (case on_frame (frame_seen jsmn_parse keep cap b) u of (rc, u1) \<Rightarrow>
     if rc \<noteq> 0 then (u1, -1) else deliver jsmn_parse keep cap on_frame bs u1)"

definition stream_idle :: "nat \<Rightarrow> mapresp_stream_t \<Rightarrow> bool" where
  "stream_idle cap ms \<longleftrightarrow> st_hdr ms = [] \<and> \<not> st_in_body ms \<and> st_elem_cap ms = cap"

lemma idle_ok: "stream_idle cap ms \<Longrightarrow> stream_ok ms"
  by (simp add: stream_idle_def stream_ok_def)

lemma seen_idle: "stream_idle cap (frame_seen jsmn_parse keep cap b)"
  by (simp add: frame_seen_def stream_idle_def)

definition body_open :: "nat \<Rightarrow> bytes \<Rightarrow> mapresp_stream_t" where
  "body_open cap b = \<lparr>st_hdr = [], st_in_body = True, st_body_size = of_nat (length b), st_body_have = 0, st_json = mapresp_json_begin cap, st_elem_cap = cap\<rparr>"

text \<open>Three size bytes are only stored; the fourth opens the body.\<close>

lemma feed_size_bytes:
  assumes "stream_idle cap ms" "length hs \<le> 3"
  shows "mapresp_stream_feed jsmn_parse keep on_frame ms hs u = (ms\<lparr>st_hdr := hs\<rparr>, u, 0)"
  using assms(2)
proof (induction hs rule: rev_induct)
  case Nil
  then show ?case using assms(1) by (simp add: stream_idle_def)
next
  case (snoc h hs)
  then show ?case using feed_cut [OF idle_ok [OF assms(1)], of jsmn_parse keep on_frame hs "[h]" u] assms(1)
    by (simp add: feed_cons stream_turn_def stream_idle_def)
qed

lemma feed_size:
  assumes "stream_idle cap ms" "body_fits b"
  shows "mapresp_stream_feed jsmn_parse keep on_frame ms (le_bytes 4 (of_nat (length b) :: u32)) u = stream_frame_end on_frame (body_open cap b) u"
proof -
  define sz where "sz = (of_nat (length b) :: u32)"
  define hs where "hs = butlast (le_bytes 4 sz)"
  have h: "le_bytes 4 sz = hs @ [last (le_bytes 4 sz)]" unfolding hs_def by (rule append_butlast_last_id [symmetric]) (metis length_le_bytes list.size(3) zero_neq_numeral)
  have l: "length hs = 3" by (simp add: hs_def)
  have w: "le_word (hs @ [last (le_bytes 4 sz)]) = sz" unfolding h [symmetric] by simp
  have "unat sz = length b" using assms(2) u32_bound [of MAPRESP_FRAME_MAX] by (simp add: sz_def body_fits_def unat_of_nat)
  then have m: "\<not> sz > MAPRESP_FRAME_MAX" using assms(2) by (simp add: body_fits_def word_less_nat_alt)
  have r: "ms\<lparr>st_hdr := [], st_body_size := sz, st_body_have := 0, st_in_body := True, st_json := mapresp_json_begin cap\<rparr> = body_open cap b"
    using assms(1) by (intro mapresp_stream_t.equality) (simp_all add: stream_idle_def body_open_def sz_def)
  have "stream_turn jsmn_parse keep on_frame (ms\<lparr>st_hdr := hs\<rparr>) [last (le_bytes 4 sz)] u = ([], stream_frame_end on_frame (body_open cap b) u)"
    using assms(1) l w m r by (simp add: stream_turn_def Let_def stream_idle_def)
  then have "mapresp_stream_feed jsmn_parse keep on_frame (ms\<lparr>st_hdr := hs\<rparr>) [last (le_bytes 4 sz)] u = stream_frame_end on_frame (body_open cap b) u"
    by (cases "stream_frame_end on_frame (body_open cap b) u") (simp add: feed_cons)
  then show ?thesis unfolding sz_def [symmetric] using feed_cut [OF idle_ok [OF assms(1)], of jsmn_parse keep on_frame hs "[last (le_bytes 4 sz)]" u] h
      feed_size_bytes [OF assms(1), of hs jsmn_parse keep on_frame u] l by simp
qed

lemma unat_length: "body_fits b \<Longrightarrow> unat (of_nat (length b) :: u32) = length b"
  using u32_bound [of MAPRESP_FRAME_MAX] by (simp add: body_fits_def unat_of_nat)

lemma open_pending: "body_fits b \<Longrightarrow> b \<noteq> [] \<Longrightarrow> stream_frame_end on_frame (body_open cap b) u = (body_open cap b, u, 0)"
proof -
  assume b: "body_fits b" "b \<noteq> []"
  have "(0 :: u32) \<noteq> of_nat (length b)" using unat_length [OF b(1)] b(2) by (metis length_0_conv unat_0)
  then show ?thesis by (simp add: stream_frame_end_def body_open_def)
qed

lemma feed_body_part:
  assumes "body_fits b" "d \<noteq> []" "length d \<le> length b"
  shows "mapresp_stream_feed jsmn_parse keep on_frame (body_open cap b) d u = stream_frame_end on_frame (body_take jsmn_parse keep (body_open cap b) d) u"
proof -
  have "stream_turn jsmn_parse keep on_frame (body_open cap b) d u = ([], stream_frame_end on_frame (body_take jsmn_parse keep (body_open cap b) d) u)"
    using assms(3) unat_length [OF assms(1)] by (subst turn_body) (simp_all add: body_open_def)
  then show ?thesis using assms(2) by (cases d; cases "stream_frame_end on_frame (body_take jsmn_parse keep (body_open cap b) d) u") (simp_all add: feed_cons)
qed

lemma feed_frame:
  assumes "stream_idle cap ms" "body_fits b"
  shows "mapresp_stream_feed jsmn_parse keep on_frame ms (frame_bytes b) u =
    (case on_frame (frame_seen jsmn_parse keep cap b) u of (rc, u1) \<Rightarrow> (frame_seen jsmn_parse keep cap b, u1, if rc \<noteq> 0 then -1 else 0))"
proof -
  note cut = feed_cut [OF idle_ok [OF assms(1)], of jsmn_parse keep on_frame "le_bytes 4 (of_nat (length b) :: u32)" b u] and sz = feed_size [OF assms, of jsmn_parse keep on_frame u]
  show ?thesis
  proof (cases "b = []")
    case True
    then show ?thesis using sz by (auto simp: frame_bytes_def stream_frame_end_def body_open_def frame_seen_def text_of_def split: prod.split)
  next
    case False
    have "stream_frame_end on_frame (body_take jsmn_parse keep (body_open cap b) b) u =
        (case on_frame (frame_seen jsmn_parse keep cap b) u of (rc, u1) \<Rightarrow> (frame_seen jsmn_parse keep cap b, u1, if rc \<noteq> 0 then -1 else 0))"
      by (simp add: stream_frame_end_def body_open_def frame_seen_def feed_is_bytes Let_def)
    then show ?thesis using cut sz open_pending [OF assms(2) False, of on_frame cap u] feed_body_part [OF assms(2) False, of jsmn_parse keep on_frame cap u]
      by (simp add: frame_bytes_def)
  qed
qed

lemma feed_partial:
  assumes "stream_idle cap ms" "body_fits b" "k < length (frame_bytes b)"
  shows "\<exists>ms1. mapresp_stream_feed jsmn_parse keep on_frame ms (take k (frame_bytes b)) u = (ms1, u, 0)"
proof (cases "k \<le> 3")
  case True
  then show ?thesis using feed_size_bytes [OF assms(1), of "take k (frame_bytes b)" jsmn_parse keep on_frame u] by simp
next
  case False
  define d where "d = take (k - 4) b"
  have k: "take k (frame_bytes b) = le_bytes 4 (of_nat (length b) :: u32) @ d" using False by (simp add: frame_bytes_def d_def)
  have d: "length d < length b" using assms(3) False by (auto simp: d_def frame_bytes_def)
  have b: "b \<noteq> []" using d by auto
  have "(of_nat (length d) :: u32) \<noteq> of_nat (length b)"
  proof -
    have "body_fits d" using d assms(2) by (simp add: body_fits_def)
    then show ?thesis using unat_length [of d] unat_length [OF assms(2)] d by (metis less_irrefl)
  qed
  then have "stream_frame_end on_frame (body_take jsmn_parse keep (body_open cap b) d) u = (body_take jsmn_parse keep (body_open cap b) d, u, 0)"
    by (simp add: stream_frame_end_def body_open_def)
  then have "\<exists>ms1. mapresp_stream_feed jsmn_parse keep on_frame (body_open cap b) d u = (ms1, u, 0)"
    using feed_body_part [OF assms(2), of d jsmn_parse keep on_frame cap u] d by (cases "d = []") auto
  then show ?thesis unfolding k using feed_cut [OF idle_ok [OF assms(1)], of jsmn_parse keep on_frame "le_bytes 4 (of_nat (length b) :: u32)" d u]
      feed_size [OF assms(1,2), of jsmn_parse keep on_frame u] open_pending [OF assms(2) b, of on_frame cap u] by auto
qed

lemma feed_frames:
  assumes "stream_idle cap ms" "list_all body_fits bodies" "\<And>ms u. stream_idle cap ms \<Longrightarrow> \<exists>ms1. mapresp_stream_feed jsmn_parse keep on_frame ms rest u = (ms1, u, 0)"
  shows "snd (mapresp_stream_feed jsmn_parse keep on_frame ms (concat (map frame_bytes bodies) @ rest) u) = deliver jsmn_parse keep cap on_frame bodies u"
  using assms(1,2)
proof (induction bodies arbitrary: ms u)
  case Nil
  then show ?case using assms(3) [of ms u] by auto
next
  case (Cons b bs)
  obtain rc u1 where f: "on_frame (frame_seen jsmn_parse keep cap b) u = (rc, u1)" by fastforce
  then show ?case using feed_cut [OF idle_ok [OF Cons.prems(1)], of jsmn_parse keep on_frame "frame_bytes b" "concat (map frame_bytes bs) @ rest" u]
      feed_frame [OF Cons.prems(1), of b jsmn_parse keep on_frame u] Cons.prems(2) Cons.IH [OF seen_idle, of jsmn_parse keep b u1] by simp
qed

lemma init_idle: "stream_idle cap (mapresp_stream_init cap)"
  by (simp add: stream_idle_def mapresp_stream_init_def)

section \<open>Patches of one frame\<close>

lemma apply_patch_fields:
  "p_id (fst (apply_patch d q)) = p_id q" "p_addresses (fst (apply_patch d q)) = p_addresses q"
  "p_node_pub (fst (apply_patch d q)) = (if pc_has_key d then pc_node_pub d else p_node_pub q)"
  "p_disco_pub (fst (apply_patch d q)) = (if pc_has_disco d then pc_disco_pub d else p_disco_pub q)"
  "p_endpoints (fst (apply_patch d q)) = (if pc_has_endpoints d then pc_endpoints d else p_endpoints q)"
  "p_home_derp (fst (apply_patch d q)) = (if pc_derp_region d \<noteq> 0 then pc_derp_region d else p_home_derp q)"
  by (simp_all add: apply_patch_def Let_def)

lemma apply_patch_disco: "p_has_disco_pub (fst (apply_patch d q)) = (pc_has_disco d \<or> p_has_disco_pub q)"
  by (cases "pc_has_disco d") (simp_all add: apply_patch_def Let_def)

text \<open>Folding two patches for the same node into one entry is applying them one after the other.\<close>

lemma patch_fold_applies: "fst (apply_patch (patch_fold d p) q) = fst (apply_patch p (fst (apply_patch d q)))"
  by (rule tl_peer_t.equality) (simp_all add: apply_patch_fields apply_patch_disco patch_fold_def Let_def)

section \<open>The properties\<close>

text \<open>C19: The long poll reads its frames exactly, however the HTTP/2 layer cuts the bytes.  For any bodies within the frame cap
  and any cut of their frames into chunks, with any part of a further frame behind them, the frame callback runs
  once per body, in order, on the result of parsing that body one byte after the other (the copying of whole runs
  changes nothing), until it asks to stop; then the stream ends with -1, and otherwise it goes on.\<close>

theorem mapresp_frames_exact:
  assumes "list_all body_fits bodies" "body_fits nxt" "k < length (frame_bytes nxt)" "concat chunks = concat (map frame_bytes bodies) @ take k (frame_bytes nxt)"
  shows "snd (stream_chunks jsmn_parse keep on_frame (mapresp_stream_init cap) chunks u) = deliver jsmn_parse keep cap on_frame bodies u"
  unfolding chunks_concat stream_after_def assms(4)
  by (rule feed_frames [OF init_idle assms(1)]) (rule feed_partial [OF _ assms(2,3)])

text \<open>A callback that counts the frames that parse: the keep-alive \<open>{}\<close>, a body cut short and an empty body, sent as one
  chunk and byte by byte.\<close>

definition count_ok :: "nat mapresp_frame_fn" where
  "count_ok ms u = (0, if mj_err (st_json ms) then u else u + 1)"

definition no_tokens :: jsmn where "no_tokens s = (-3, [])"

lemmas stream_eval = mapresp_json_begin_def ms_step_def ms_byte_def ms_grammar_def ms_member_def obj_member_def ms_inner_def set_g_def ms_close_def
  tl_jsplit_is_ws_def mapresp_json_end_def ms_fail_def frame_seen_def

theorem mapresp_frames_exact_witness:
  "snd (stream_chunks no_tokens 16 count_ok (mapresp_stream_init 8192) [[2, 0, 0, 0, 123, 125, 1, 0], [0, 0], [123, 0, 0, 0, 0, 9]] 0) = (1, 0)"
proof -
  have "list_all body_fits [[123, 125], [123], []]" "body_fits (replicate 9 0)" "1 < length (frame_bytes (replicate 9 0))"
    "concat [[2, 0, 0, 0, 123, 125, 1, 0], [0, 0], [123, 0, 0, 0, 0, 9]] = concat (map frame_bytes [[123, 125], [123], []]) @ take 1 (frame_bytes (replicate 9 0))"
    by (simp_all add: body_fits_def MAPRESP_FRAME_MAX_def frame_bytes_def le_bytes_def upt_rec)
  note e = mapresp_frames_exact [OF this, of no_tokens 16 count_ok 8192 0]
  have t: "text_of [123, 125] = [CHR ''{'', CHR ''}'']" "text_of [123] = [CHR ''{'']" "text_of [] = []" by (simp_all add: text_of_def char_of_def bit_0)
  have "deliver no_tokens 16 8192 count_ok [[123, 125], [123], []] 0 = (1, 0)" by (simp add: count_ok_def t stream_eval)
  then show ?thesis using e by simp
qed

text \<open>What every state of the stream keeps, whatever the bytes are.\<close>

definition stream_fits :: "int \<Rightarrow> nat \<Rightarrow> mapresp_stream_t \<Rightarrow> bool" where
  "stream_fits keep cap ms \<longleftrightarrow> ms_inv keep cap (st_json ms) \<and> st_elem_cap ms = cap"

text \<open>A netmap that \<open>stream_frame\<close> hands on.\<close>

definition netmap_ready :: "int \<Rightarrow> tl_netmap_t \<Rightarrow> bool" where
  "netmap_ready keep nm \<longleftrightarrow> netmap_fits keep nm \<and> \<not> map_patches_overflow nm \<and> \<not> map_removed_overflow nm \<and> \<not> netmap_empty nm"

lemma frame_keeps:
  assumes "\<And>nm u. netmap_ready keep nm \<Longrightarrow> I u \<Longrightarrow> I (snd (on_netmap nm u))" "stream_fits keep cap ms" "I u"
  shows "I (snd (stream_frame on_netmap ms u))"
proof -
  have "netmap_fits keep (mj_out (st_json ms))" using assms(2) by (simp add: stream_fits_def ms_inv_def ms_base_def)
  then show ?thesis using assms(1) [of "mj_out (st_json ms)" u] assms(3) by (auto simp: stream_frame_def Let_def netmap_ready_def split: prod.split)
qed

lemma stream_frame_end_keeps:
  assumes "\<And>ms u. stream_fits keep cap ms \<Longrightarrow> I u \<Longrightarrow> I (snd (on_frame ms u))" "stream_fits keep cap ms" "I u"
    "stream_frame_end on_frame ms u = (ms1, u1, rc)"
  shows "stream_fits keep cap ms1 \<and> I u1"
proof -
  define ms2 where "ms2 = ms\<lparr>st_in_body := False, st_json := mapresp_json_end (st_json ms)\<rparr>"
  have "stream_fits keep cap ms2" using assms(2) by (simp add: stream_fits_def ms2_def mapresp_json_end_def)
  then show ?thesis using assms unfolding stream_frame_end_def Let_def ms2_def [symmetric] by (fastforce split: if_splits prod.splits)
qed

lemma turn_keeps:
  assumes "jsmn_writes jsmn_parse" "REMOVED_LIM \<le> cap" "\<And>ms u. stream_fits keep cap ms \<Longrightarrow> I u \<Longrightarrow> I (snd (on_frame ms u))"
    "stream_fits keep cap ms" "I u" "stream_turn jsmn_parse keep on_frame ms data u = (data1, ms1, u1, rc)"
  shows "stream_fits keep cap ms1 \<and> I u1"
proof (cases "st_in_body ms")
  case False
  define ms2 where "ms2 hdr = ms\<lparr>st_hdr := [], st_body_size := le_word hdr, st_body_have := 0, st_in_body := True, st_json := mapresp_json_begin (st_elem_cap ms)\<rparr>" for hdr
  have f: "stream_fits keep cap (ms2 hdr)" for hdr using json_begin_inv [OF assms(2)] assms(4) by (simp add: ms2_def stream_fits_def)
  have h: "stream_fits keep cap (ms\<lparr>st_hdr := x\<rparr>)" "stream_fits keep cap (ms\<lparr>st_hdr := x, st_body_size := z\<rparr>)" for x z
    using assms(4) by (simp_all add: stream_fits_def)
  define hdr where "hdr = st_hdr ms @ [hd data]"
  have t: "stream_turn jsmn_parse keep on_frame ms data u = (if length hdr < 4 then (tl data, ms\<lparr>st_hdr := hdr\<rparr>, u, 0)
      else if le_word hdr > MAPRESP_FRAME_MAX then (tl data, ms\<lparr>st_hdr := [], st_body_size := le_word hdr\<rparr>, u, -1) else (tl data, stream_frame_end on_frame (ms2 hdr) u))"
    using False by (simp add: stream_turn_def Let_def hdr_def ms2_def)
  consider (short) "length hdr < 4" | (big) "\<not> length hdr < 4" "le_word hdr > MAPRESP_FRAME_MAX" | (body) "\<not> length hdr < 4" "\<not> le_word hdr > MAPRESP_FRAME_MAX" by blast
  then show ?thesis
  proof cases
    case short
    then show ?thesis using assms(5,6) h(1) [of hdr] t by simp
  next
    case big
    then show ?thesis using assms(5,6) h(2) t by auto
  next
    case body
    then have "stream_frame_end on_frame (ms2 hdr) u = (ms1, u1, rc)" using assms(6) t by simp
    then show ?thesis using stream_frame_end_keeps [where I = I and on_frame = on_frame, OF _ f [of hdr] assms(5)] assms(3) by blast
  qed
next
  case True
  define n where "n = min (length data) (unat (st_body_size ms - st_body_have ms))"
  define m1 where "m1 = body_take jsmn_parse keep ms (take n data)"
  have "stream_fits keep cap m1" using assms(4) json_feed_inv [OF assms(1)] by (simp add: m1_def stream_fits_def feed_is_bytes)
  moreover have "stream_frame_end on_frame m1 u = (ms1, u1, rc)" using assms(6) unfolding turn_body [OF True] Let_def n_def [symmetric] m1_def [symmetric] by auto
  ultimately show ?thesis using stream_frame_end_keeps [where I = I and on_frame = on_frame, OF _ _ assms(5)] assms(3) by blast
qed

lemma feed_keeps:
  assumes "jsmn_writes jsmn_parse" "REMOVED_LIM \<le> cap" "\<And>ms u. stream_fits keep cap ms \<Longrightarrow> I u \<Longrightarrow> I (snd (on_frame ms u))"
  shows "stream_fits keep cap ms \<Longrightarrow> I u \<Longrightarrow> mapresp_stream_feed jsmn_parse keep on_frame ms data u = (ms1, u1, rc) \<Longrightarrow> stream_fits keep cap ms1 \<and> I u1"
  using assms
proof (induction jsmn_parse keep on_frame ms data u rule: mapresp_stream_feed.induct)
  case (1 jsmn_parse keep on_frame ms data u)
  show ?case
  proof (cases "data = []")
    case False
    obtain data2 ms2 u2 rc2 where t: "stream_turn jsmn_parse keep on_frame ms data u = (data2, ms2, u2, rc2)" by (metis prod_cases4)
    have k: "stream_fits keep cap ms2 \<and> I u2" by (rule turn_keeps [OF "1.prems"(4,5,6,1,2) t])
    show ?thesis
    proof (cases "rc2 = 0")
      case True
      then have "mapresp_stream_feed jsmn_parse keep on_frame ms2 data2 u2 = (ms1, u1, rc)"
        using "1.prems"(3) False t by (simp add: mapresp_stream_feed.simps [of jsmn_parse keep on_frame ms data u])
      then show ?thesis using "1.IH" [OF False t [symmetric] refl refl] True k "1.prems"(4-6) by blast
    next
      case n: False
      then show ?thesis using "1.prems"(3) False t k by (simp add: mapresp_stream_feed.simps [of jsmn_parse keep on_frame ms data u])
    qed
  qed (use "1.prems" in auto)
qed

text \<open>C21: Whatever bytes the server sends, in whatever chunks, the long poll stays inside its buffers and hands on only
  well-formed netmaps.  With a tokenizer that wrote the tokens it reports, the element parsers never touch a token that
  was not written nor the end of a netmap array; at most three containers are open, the element and key buffers are
  never exceeded; and every netmap the handler gets has at most 4 peers, 8 removed ids and 4 patches with distinct ids
  and something to apply, keys of 32 bytes, texts that fit their arrays with the NUL, no DERP region but the configured one,
  no overflow flag and something in it.  So any property that the handler keeps on such netmaps holds at the end.\<close>

theorem long_poll_well_typed:
  assumes "jsmn_writes jsmn_parse" "REMOVED_LIM \<le> cap" "\<And>nm v. netmap_ready keep nm \<Longrightarrow> I v \<Longrightarrow> I (snd (on_netmap nm v))" "I u"
    "stream_chunks jsmn_parse keep (stream_frame on_netmap) (mapresp_stream_init cap) chunks u = (ms, u1, rc)"
  shows "I u1 \<and> \<not> mj_fault (st_json ms) \<and> netmap_fits keep (mj_out (st_json ms)) \<and> length (mj_lvl (st_json ms)) \<in> {1..MAPRESP_LEVELS} \<and>
    length (mj_elem (st_json ms)) \<le> cap \<and> length (mj_key (st_json ms)) \<le> MAPRESP_KEY_MAX"
proof -
  have "stream_fits keep cap (mapresp_stream_init cap)" using json_begin_inv [OF assms(2)] by (simp add: stream_fits_def mapresp_stream_init_def)
  moreover have "mapresp_stream_feed jsmn_parse keep (stream_frame on_netmap) (mapresp_stream_init cap) (concat chunks) u = (ms, u1, rc)"
    using assms(5) by (simp add: chunks_concat stream_after_def)
  moreover have "I (snd (stream_frame on_netmap ms' v))" if "stream_fits keep cap ms'" "I v" for ms' v by (rule frame_keeps [OF assms(3) that])
  ultimately have k: "stream_fits keep cap ms \<and> I u1" using feed_keeps [where on_frame = "stream_frame on_netmap" and I = I, OF assms(1,2)] assms(4) by blast
  then have b: "ms_base keep cap (st_json ms)" by (simp add: stream_fits_def ms_inv_def)
  have "length (mj_lvl (st_json ms)) \<in> {1..MAPRESP_LEVELS}" using b open_roles_bounds [of "map lv_role (mj_lvl (st_json ms))"] by (simp add: ms_base_def)
  moreover have "length (mj_elem (st_json ms)) \<le> cap" "length (mj_key (st_json ms)) \<le> MAPRESP_KEY_MAX" using b unfolding ms_base_def by linarith+
  ultimately show ?thesis using k b by (simp add: ms_base_def)
qed

text \<open>The peer table of the device, merged with every netmap: it never holds more than four peers, each of them fitting its
  record.\<close>

definition merge_handler :: "tl_peer_t list mapreq_handler" where
  "merge_handler nm t = (False, fst (merge_peers t nm))"

definition table_fits :: "tl_peer_t list \<Rightarrow> bool" where
  "table_fits t \<longleftrightarrow> length t \<le> TL_MAX_PEERS \<and> list_all peer_fits t"

lemma apply_patch_fits: "patch_fits d \<Longrightarrow> peer_fits q \<Longrightarrow> peer_fits (fst (apply_patch d q))"
  by (simp add: peer_fits_def patch_fits_def apply_patch_fields)

lemma table_update: "table_fits t \<Longrightarrow> peer_fits q \<Longrightarrow> table_fits (t[j := q])"
  by (auto simp: table_fits_def list_all_iff dest!: set_update_subset_insert [THEN subsetD])

lemma remove_table: "table_fits (fst tc) \<Longrightarrow> table_fits (fst (remove_peer i tc))"
  by (auto simp: remove_peer_def table_fits_def list_all_iff split: prod.split option.split dest!: in_set_takeD in_set_dropD)

lemma upsert_table: "table_fits (fst tc) \<Longrightarrow> peer_fits p \<Longrightarrow> table_fits (fst (upsert_peer p tc))"
  by (auto simp: upsert_peer_def table_update split: prod.split option.split) (auto simp: table_fits_def)

lemma patch_table: "table_fits (fst tc) \<Longrightarrow> patch_fits p \<Longrightarrow> table_fits (fst (patch_peer p tc))"
proof -
  assume a: "table_fits (fst tc)" "patch_fits p"
  obtain t c where tc: "tc = (t, c)" by (cases tc)
  show ?thesis
  proof (cases "peer_index (pc_id p) None t")
    case (Some j)
    then have "j < length t" using peer_index_from_Some [of 0 "pc_id p" None t j] by (simp add: peer_index_def)
    then have "peer_fits (fst (apply_patch p (t ! j)))" using a apply_patch_fits by (simp add: tc table_fits_def list_all_length)
    then show ?thesis using a(1) Some table_update by (auto simp: patch_peer_def tc split: prod.split)
  qed (use a(1) in \<open>simp add: patch_peer_def tc\<close>)
qed

lemma fold_table: "(\<And>x tc. x \<in> set xs \<Longrightarrow> table_fits (fst tc) \<Longrightarrow> table_fits (fst (f x tc))) \<Longrightarrow> table_fits (fst tc) \<Longrightarrow> table_fits (fst (fold f xs tc))"
  by (induction xs arbitrary: tc) auto

lemma merge_table:
  assumes "table_fits t" "netmap_fits keep nm"
  shows "table_fits (fst (merge_peers t nm))"
proof (cases "map_peers nm \<noteq> [] \<and> \<not> map_peers_is_delta nm")
  case True
  then show ?thesis using assms(2) by (auto simp: merge_peers_def table_fits_def netmap_fits_def list_all_iff dest: in_set_takeD)
next
  case False
  have p: "peer_fits p" if "p \<in> set (map_peers nm)" for p using assms(2) that by (simp add: netmap_fits_def list_all_iff)
  have q: "patch_fits d" if "d \<in> set (map_patches nm)" for d using assms(2) that by (simp add: netmap_fits_def list_all_iff)
  have "table_fits (fst (fold remove_peer (map_removed_ids nm) (t, False)))" by (rule fold_table) (use assms(1) remove_table in auto)
  then have "table_fits (fst (fold upsert_peer (map_peers nm) (fold remove_peer (map_removed_ids nm) (t, False))))" by (rule fold_table [rotated]) (use upsert_table p in auto)
  then have "table_fits (fst (fold patch_peer (map_patches nm) (fold upsert_peer (map_peers nm) (fold remove_peer (map_removed_ids nm) (t, False)))))"
    by (rule fold_table [rotated]) (use patch_table q in auto)
  then show ?thesis unfolding merge_peers_def if_not_P [OF False] .
qed

theorem long_poll_well_typed_witness:
  "let r = stream_chunks no_tokens 16 (stream_frame merge_handler) (mapresp_stream_init 8192) [[2, 0, 0, 0, 123], [125]] []
   in table_fits (fst (snd r)) \<and> \<not> mj_fault (st_json (fst r))"
proof -
  have j: "jsmn_writes no_tokens" by (simp add: jsmn_writes_def no_tokens_def)
  have "table_fits (snd (merge_handler nm t))" if "netmap_ready 16 nm" "table_fits t" for nm t
    using merge_table [of t 16 nm] that by (simp add: merge_handler_def netmap_ready_def)
  from long_poll_well_typed [where I = table_fits and on_netmap = merge_handler, OF j _ this, where cap = 8192 and u = "[]" and chunks = "[[2, 0, 0, 0, 123], [125]]"]
  show ?thesis by (cases "stream_chunks no_tokens 16 (stream_frame merge_handler) (mapresp_stream_init 8192) [[2, 0, 0, 0, 123], [125]] []")
      (simp add: REMOVED_LIM_def table_fits_def)
qed

end
