(* ===== verification/DERP.thy ===== *)
theory DERP
  imports TL_Addr TLS_IO Crypto_NaclBox
begin

text \<open>
  The DERP relay client: the codec and the receive loop of \<open>derp.c\<close>, and the login of \<open>derp_client.c\<close>.

  The TLS connection is the transcript of its polls (\<open>TLS_IO\<close>).  The callbacks of the loop (the event callback and the frame
  sender) are functions on a state of the caller's.  \<open>x25519\<close> is the scalar multiplication.
\<close>

section \<open>Frames\<close>

definition DERP_MAGIC :: bytes where "DERP_MAGIC = [0x44, 0x45, 0x52, 0x50, 0xf0, 0x9f, 0x94, 0x91]"

definition DERP_MAGIC_LEN :: nat where "DERP_MAGIC_LEN = 8"
definition DERP_KEY_LEN :: nat where "DERP_KEY_LEN = 32"
definition DERP_NONCE_LEN :: nat where "DERP_NONCE_LEN = 24"
definition DERP_TAG_LEN :: nat where "DERP_TAG_LEN = 16"
definition DERP_FRAME_HDR_LEN :: nat where "DERP_FRAME_HDR_LEN = 5"
definition DERP_PING_LEN :: nat where "DERP_PING_LEN = 8"
definition DERP_MAX_PACKET :: nat where "DERP_MAX_PACKET = 64 * 1024"

lemmas derp_lens [simp] = DERP_MAGIC_LEN_def DERP_KEY_LEN_def DERP_NONCE_LEN_def DERP_TAG_LEN_def DERP_FRAME_HDR_LEN_def DERP_PING_LEN_def

definition DERP_FRAME_SERVER_KEY :: u8 where "DERP_FRAME_SERVER_KEY = 0x01"
definition DERP_FRAME_CLIENT_INFO :: u8 where "DERP_FRAME_CLIENT_INFO = 0x02"
definition DERP_FRAME_SERVER_INFO :: u8 where "DERP_FRAME_SERVER_INFO = 0x03"
definition DERP_FRAME_SEND_PACKET :: u8 where "DERP_FRAME_SEND_PACKET = 0x04"
definition DERP_FRAME_RECV_PACKET :: u8 where "DERP_FRAME_RECV_PACKET = 0x05"
definition DERP_FRAME_KEEPALIVE :: u8 where "DERP_FRAME_KEEPALIVE = 0x06"
definition DERP_FRAME_PEER_GONE :: u8 where "DERP_FRAME_PEER_GONE = 0x08"
definition DERP_FRAME_PEER_PRESENT :: u8 where "DERP_FRAME_PEER_PRESENT = 0x09"
definition DERP_FRAME_PING :: u8 where "DERP_FRAME_PING = 0x12"
definition DERP_FRAME_PONG :: u8 where "DERP_FRAME_PONG = 0x13"
definition DERP_FRAME_HEALTH :: u8 where "DERP_FRAME_HEALTH = 0x14"
definition DERP_FRAME_RESTARTING :: u8 where "DERP_FRAME_RESTARTING = 0x15"

lemmas derp_types = DERP_FRAME_SERVER_KEY_def DERP_FRAME_CLIENT_INFO_def DERP_FRAME_SERVER_INFO_def DERP_FRAME_SEND_PACKET_def
  DERP_FRAME_RECV_PACKET_def DERP_FRAME_KEEPALIVE_def DERP_FRAME_PEER_GONE_def DERP_FRAME_PEER_PRESENT_def DERP_FRAME_PING_def
  DERP_FRAME_PONG_def DERP_FRAME_HEALTH_def DERP_FRAME_RESTARTING_def

definition get_u32_be :: "bytes \<Rightarrow> u32" where
  "get_u32_be p = push_bit 24 (ucast (p ! 0)) OR push_bit 16 (ucast (p ! 1)) OR push_bit 8 (ucast (p ! 2)) OR ucast (p ! 3)"

definition derp_write_frame_header :: "u8 \<Rightarrow> u32 \<Rightarrow> bytes" where
  "derp_write_frame_header ty len = ty # put_u32_be len"

definition derp_read_frame_header :: "bytes \<Rightarrow> (u8 \<times> u32) option" where
  "derp_read_frame_header buf = (if length buf < DERP_FRAME_HDR_LEN then None else Some (buf ! 0, get_u32_be (drop 1 buf)))"

section \<open>The login's frames\<close>

definition derp_parse_server_key :: "bytes \<Rightarrow> bytes option" where
  "derp_parse_server_key payload =
    (if length payload < DERP_MAGIC_LEN + DERP_KEY_LEN then None
     else if take DERP_MAGIC_LEN payload \<noteq> DERP_MAGIC then None
     else Some (bytes_at DERP_MAGIC_LEN DERP_KEY_LEN payload))"

record derp_login_key_t =
  lk_client_pub :: bytes
  lk_server_pub :: bytes
  lk_k :: bytes
  lk_valid :: bool

definition derp_login_key_forget :: derp_login_key_t where
  "derp_login_key_forget = \<lparr>lk_client_pub = replicate 32 0, lk_server_pub = replicate 32 0, lk_k = replicate 32 0, lk_valid = False\<rparr>"

text \<open>Whether there is a key, the cache after the call, and whether it was computed.\<close>

definition derp_login_key :: "(bytes \<Rightarrow> bytes \<Rightarrow> bytes) \<Rightarrow> derp_login_key_t \<Rightarrow> bytes \<Rightarrow> bytes \<Rightarrow> bytes \<Rightarrow> bool \<times> derp_login_key_t \<times> bool" where
  "derp_login_key x25519 c client_pub client_priv server_pub =
    (if lk_valid c \<and> lk_client_pub c = client_pub \<and> lk_server_pub c = server_pub then (True, c, False)
     else (case nacl_box_compute_shared x25519 server_pub client_priv of
        None \<Rightarrow> (False, derp_login_key_forget, True)
      | Some k \<Rightarrow> (True, \<lparr>lk_client_pub = client_pub, lk_server_pub = server_pub, lk_k = k, lk_valid = True\<rparr>, True)))"

definition k_client_info_json :: bytes where "k_client_info_json = ascii ''{\"version\":2,\"CanAckPings\":true}''"

definition derp_build_client_info_k :: "nat \<Rightarrow> bytes \<Rightarrow> bytes \<Rightarrow> bytes \<Rightarrow> bytes option" where
  "derp_build_client_info_k cap client_pub k nonce =
    (if cap < DERP_KEY_LEN + DERP_NONCE_LEN + DERP_TAG_LEN + length k_client_info_json then None
     else (case nacl_box_after_shared k_client_info_json nonce k of None \<Rightarrow> None | Some b \<Rightarrow> Some (client_pub @ nonce @ b)))"

definition derp_build_client_info :: "(bytes \<Rightarrow> bytes \<Rightarrow> bytes) \<Rightarrow> nat \<Rightarrow> bytes \<Rightarrow> bytes \<Rightarrow> bytes \<Rightarrow> bytes \<Rightarrow> bytes option" where
  "derp_build_client_info x25519 cap client_pub client_priv server_pub nonce =
    (case nacl_box_compute_shared x25519 server_pub client_priv of None \<Rightarrow> None | Some k \<Rightarrow> derp_build_client_info_k cap client_pub k nonce)"

text \<open>\<open>json_scan_int\<close>: the search for the quoted key, then the number.  The C accumulates in an \<open>int\<close>; the model's number does not
  overflow, and the two agree below \<open>2 ^ 31\<close>.\<close>

definition skip_sep :: "bytes \<Rightarrow> bytes" where "skip_sep s = dropWhile (\<lambda>c. c = 32 \<or> c = 58 \<or> c = 9) s"

definition scan_number :: "bytes \<Rightarrow> int" where
  "scan_number s =
    (let neg = (s \<noteq> [] \<and> hd s = 45);
         ds = takeWhile digit_byte (if neg then tl s else s);
         n = foldl (\<lambda>n c. n * 10 + (int (unat c) - 48)) 0 ds
     in if neg then - n else n)"

fun scan_key :: "bytes \<Rightarrow> bytes \<Rightarrow> int" where
  "scan_key key [] = 0"
| "scan_key key (c # js) =
    (if length (c # js) < length key + 2 then 0
     else if c = 34 \<and> take (length key) js = key \<and> js ! length key = 34 then scan_number (skip_sep (drop (length key + 1) js))
     else scan_key key js)"

definition json_scan_int :: "bytes \<Rightarrow> bytes \<Rightarrow> int" where
  "json_scan_int js key = (if length js < length key + 3 then 0 else scan_key key js)"

text \<open>The version the server reports, \<open>None\<close> for a refused payload.\<close>

definition derp_parse_server_info_k :: "bytes \<Rightarrow> bytes \<Rightarrow> int option" where
  "derp_parse_server_info_k payload k =
    (if length payload < DERP_NONCE_LEN + DERP_TAG_LEN then None
     else if length payload - DERP_NONCE_LEN - DERP_TAG_LEN > 256 then None
     else (case nacl_box_open_after_shared (drop DERP_NONCE_LEN payload) (take DERP_NONCE_LEN payload) k of
        None \<Rightarrow> None | Some pt \<Rightarrow> Some (json_scan_int pt (ascii ''version''))))"

definition derp_parse_server_info :: "(bytes \<Rightarrow> bytes \<Rightarrow> bytes) \<Rightarrow> bytes \<Rightarrow> bytes \<Rightarrow> bytes \<Rightarrow> int option" where
  "derp_parse_server_info x25519 payload client_priv server_pub =
    (case nacl_box_compute_shared x25519 server_pub client_priv of None \<Rightarrow> None | Some k \<Rightarrow> derp_parse_server_info_k payload k)"

section \<open>The other frames\<close>

definition derp_build_send_packet :: "nat \<Rightarrow> bytes \<Rightarrow> bytes \<Rightarrow> bytes option" where
  "derp_build_send_packet cap dst_pub packet =
    (if length packet > DERP_MAX_PACKET then None else if cap < DERP_KEY_LEN + length packet then None else Some (dst_pub @ packet))"

definition derp_parse_recv_packet :: "bytes \<Rightarrow> (bytes \<times> bytes) option" where
  "derp_parse_recv_packet payload = (if length payload < DERP_KEY_LEN then None else Some (take DERP_KEY_LEN payload, drop DERP_KEY_LEN payload))"

definition derp_parse_ping_or_pong :: "bytes \<Rightarrow> bytes option" where
  "derp_parse_ping_or_pong payload = (if length payload < DERP_PING_LEN then None else Some (take DERP_PING_LEN payload))"

definition derp_build_note_preferred :: "bool \<Rightarrow> bytes" where
  "derp_build_note_preferred is_home = [if is_home then 1 else 0]"

definition derp_parse_peer_gone :: "bytes \<Rightarrow> (bytes \<times> u8) option" where
  "derp_parse_peer_gone payload =
    (if length payload < DERP_KEY_LEN then None
     else Some (take DERP_KEY_LEN payload, if length payload > DERP_KEY_LEN then payload ! DERP_KEY_LEN else 0))"

definition derp_parse_restarting :: "bytes \<Rightarrow> (u32 \<times> u32) option" where
  "derp_parse_restarting payload = (if length payload < 8 then None else Some (get_u32_be payload, get_u32_be (drop 4 payload)))"

section \<open>The receive loop\<close>

datatype derp_event_t =
    DERP_EVT_RECV_PACKET bytes bytes
  | DERP_EVT_PEER_PRESENT bytes
  | DERP_EVT_PEER_GONE bytes u8
  | DERP_EVT_HEALTH bytes
  | DERP_EVT_RESTARTING u32 u32
  | DERP_EVT_KEEPALIVE

datatype derp_act = ActEvent derp_event_t | ActRestart derp_event_t | ActPong bytes | ActSkip | ActUnexpected

definition derp_dispatch :: "u8 \<Rightarrow> bytes \<Rightarrow> derp_act" where
  "derp_dispatch ty p =
    (if ty = DERP_FRAME_RECV_PACKET then
       (if length p < DERP_KEY_LEN then ActSkip else ActEvent (DERP_EVT_RECV_PACKET (take DERP_KEY_LEN p) (drop DERP_KEY_LEN p)))
     else if ty = DERP_FRAME_PEER_PRESENT then (if length p < DERP_KEY_LEN then ActSkip else ActEvent (DERP_EVT_PEER_PRESENT (take DERP_KEY_LEN p)))
     else if ty = DERP_FRAME_PEER_GONE then
       (if length p < DERP_KEY_LEN then ActSkip
        else ActEvent (DERP_EVT_PEER_GONE (take DERP_KEY_LEN p) (if length p > DERP_KEY_LEN then p ! DERP_KEY_LEN else 0)))
     else if ty = DERP_FRAME_HEALTH then ActEvent (DERP_EVT_HEALTH p)
     else if ty = DERP_FRAME_RESTARTING then
       (case derp_parse_restarting p of None \<Rightarrow> ActRestart (DERP_EVT_RESTARTING 0 0) | Some (rc_ms, tot_ms) \<Rightarrow> ActRestart (DERP_EVT_RESTARTING rc_ms tot_ms))
     else if ty = DERP_FRAME_KEEPALIVE then ActEvent DERP_EVT_KEEPALIVE
     else if ty = DERP_FRAME_PING then (case derp_parse_ping_or_pong p of None \<Rightarrow> ActSkip | Some echo \<Rightarrow> ActPong echo)
     else if ty = DERP_FRAME_PONG then ActSkip
     else if ty = DERP_FRAME_SERVER_KEY \<or> ty = DERP_FRAME_SERVER_INFO then ActUnexpected
     else ActSkip)"

text \<open>\<open>cb\<close> returns whether to stop, \<open>send\<close> whether the frame was written.  The value the loop returns with, \<open>None\<close> to go on.\<close>

definition derp_handle :: "(derp_event_t \<Rightarrow> 'c \<Rightarrow> bool \<times> 'c) \<Rightarrow> (u8 \<Rightarrow> bytes \<Rightarrow> 'c \<Rightarrow> bool \<times> 'c) \<Rightarrow> u8 \<Rightarrow> bytes \<Rightarrow> 'c \<Rightarrow> int option \<times> 'c" where
  "derp_handle cb send ty p c = (case derp_dispatch ty p of
      ActEvent e \<Rightarrow> (case cb e c of (stop, c1) \<Rightarrow> (if stop then Some 0 else None, c1))
    | ActRestart e \<Rightarrow> (Some (-2), snd (cb e c))
    | ActPong echo \<Rightarrow> (case send DERP_FRAME_PONG echo c of (ok, c1) \<Rightarrow> (if ok then None else Some (-1), c1))
    | ActSkip \<Rightarrow> (None, c)
    | ActUnexpected \<Rightarrow> (Some (-4), c))"

datatype 'c derp_end = DerpRet int 'c | DerpWaits 'c

text \<open>The next frame; \<open>FrameEnd\<close> carries the value the loop returns.\<close>

datatype derp_next = FrameGot u8 bytes "io_poll list" | FrameEnd int | FrameWaits

definition derp_next_frame :: "nat \<Rightarrow> nat \<Rightarrow> io_poll list \<Rightarrow> derp_next" where
  "derp_next_frame frame_cap max_idle ps = (case tls_io_read_full DERP_FRAME_HDR_LEN max_idle ps of
      ReadFail e \<Rightarrow> FrameEnd (-1)
    | ReadWaits \<Rightarrow> FrameWaits
    | ReadDone hdr r \<Rightarrow> (case derp_read_frame_header hdr of
         None \<Rightarrow> FrameEnd (-3)
       | Some (ty, plen) \<Rightarrow>
           if unat plen > frame_cap then FrameEnd (-1)
           else if plen = 0 then FrameGot ty [] r
           else (case tls_io_read_full (unat plen) max_idle r of
              ReadFail e \<Rightarrow> FrameEnd (-1) | ReadWaits \<Rightarrow> FrameWaits | ReadDone p r1 \<Rightarrow> FrameGot ty p r1)))"

lemma next_frame_shrinks: "derp_next_frame cap mi ps = FrameGot ty p r \<Longrightarrow> length (poll_data r) < length (poll_data ps)"
proof -
  have d: "length (poll_data ps) = need + length (poll_data r)" if "tls_io_read_full need mi ps = ReadDone a r" for need a r ps
    using read_loop_data [of need mi 0 "[]" ps a r] that unfolding tls_io_read_full_def by (metis append_Nil le0 length_append list.size(3))
  show "derp_next_frame cap mi ps = FrameGot ty p r \<Longrightarrow> length (poll_data r) < length (poll_data ps)"
    by (auto simp: derp_next_frame_def split: io_read.splits option.splits if_splits dest!: d)
qed

function derp_loop :: "(derp_event_t \<Rightarrow> 'c \<Rightarrow> bool \<times> 'c) \<Rightarrow> (u8 \<Rightarrow> bytes \<Rightarrow> 'c \<Rightarrow> bool \<times> 'c) \<Rightarrow> nat \<Rightarrow> nat \<Rightarrow> io_poll list \<Rightarrow> 'c \<Rightarrow> 'c derp_end" where
  "derp_loop cb send cap mi ps c = (case derp_next_frame cap mi ps of
      FrameEnd rc \<Rightarrow> DerpRet rc c
    | FrameWaits \<Rightarrow> DerpWaits c
    | FrameGot ty p r \<Rightarrow> (case derp_handle cb send ty p c of (Some rc, c1) \<Rightarrow> DerpRet rc c1 | (None, c1) \<Rightarrow> derp_loop cb send cap mi r c1))"
  by pat_completeness auto
termination by (relation "measure (\<lambda>(cb, send, cap, mi, ps, c). length (poll_data ps))") (auto simp: next_frame_shrinks)

declare derp_loop.simps [simp del]

definition derp_run_loop :: "(derp_event_t \<Rightarrow> 'c \<Rightarrow> bool \<times> 'c) \<Rightarrow> (u8 \<Rightarrow> bytes \<Rightarrow> 'c \<Rightarrow> bool \<times> 'c) \<Rightarrow> nat \<Rightarrow> nat \<Rightarrow> io_poll list \<Rightarrow> 'c \<Rightarrow> 'c derp_end" where
  "derp_run_loop cb send frame_cap max_idle ps c =
    (if frame_cap < DERP_KEY_LEN + DERP_PING_LEN then DerpRet (-5) c else derp_loop cb send frame_cap max_idle ps c)"

section \<open>The login\<close>

text \<open>\<open>read_upgrade_response\<close>: one byte per read.  The bytes read and the rest of the transcript.\<close>

function upgrade_loop :: "nat \<Rightarrow> nat \<Rightarrow> nat \<Rightarrow> bytes \<Rightarrow> io_poll list \<Rightarrow> io_read" where
  "upgrade_loop buf_size max_idle idle got [] = (if length got \<ge> buf_size - 1 then ReadDone got [] else ReadWaits)"
| "upgrade_loop buf_size max_idle idle got (PollWant # ps) =
    (if length got \<ge> buf_size - 1 then ReadDone got (PollWant # ps)
     else if idle + 1 \<ge> max_idle then ReadFail IoIdle else upgrade_loop buf_size max_idle (idle + 1) got ps)"
| "upgrade_loop buf_size max_idle idle got (PollErr e # ps) =
    (if length got \<ge> buf_size - 1 then ReadDone got (PollErr e # ps) else ReadFail (IoErr e))"
| "upgrade_loop buf_size max_idle idle got (PollData [] # ps) =
    (if length got \<ge> buf_size - 1 then ReadDone got (PollData [] # ps) else ReadFail (IoErr 0))"
| "upgrade_loop buf_size max_idle idle got (PollData [b] # ps) =
    (if length got \<ge> buf_size - 1 then ReadDone got (PollData [b] # ps)
     else if length got + 1 \<ge> 4 \<and> drop (length got - 3) (got @ [b]) = [13, 10, 13, 10] then ReadDone (got @ [b]) ps
     else upgrade_loop buf_size max_idle 0 (got @ [b]) ps)"
| "upgrade_loop buf_size max_idle idle got (PollData (b # b2 # d) # ps) =
    (if length got \<ge> buf_size - 1 then ReadDone got (PollData (b # b2 # d) # ps)
     else if length got + 1 \<ge> 4 \<and> drop (length got - 3) (got @ [b]) = [13, 10, 13, 10] then ReadDone (got @ [b]) (PollData (b2 # d) # ps)
     else upgrade_loop buf_size max_idle 0 (got @ [b]) (PollData (b2 # d) # ps))"
  by pat_completeness auto
termination by (relation "measure (\<lambda>(buf_size, max_idle, idle, got, ps). length ps + length (poll_data ps))") auto

definition read_upgrade_response :: "nat \<Rightarrow> nat \<Rightarrow> io_poll list \<Rightarrow> io_read" where
  "read_upgrade_response buf_size max_idle ps = (case upgrade_loop buf_size max_idle 0 [] ps of
      ReadDone buf r \<Rightarrow>
        if length buf \<ge> buf_size - 1 then ReadFail (IoErr 0)
        else if take 13 buf \<noteq> ascii ''HTTP/1.1 101 '' \<and> take 13 buf \<noteq> ascii ''HTTP/1.0 101 '' then ReadFail (IoErr 0)
        else ReadDone buf r
    | x \<Rightarrow> x)"

definition DERP_LOGIN_BUF_LEN :: nat where "DERP_LOGIN_BUF_LEN = 256"

text \<open>\<open>read_one_frame\<close> is the frame reader of the loop with the login's buffer.\<close>

definition read_one_frame :: "nat \<Rightarrow> nat \<Rightarrow> io_poll list \<Rightarrow> derp_next" where
  "read_one_frame pcap idle ps = derp_next_frame pcap idle ps"

definition crlf :: bytes where "crlf = [13, 10]"

definition derp_request :: "bytes \<Rightarrow> bytes" where
  "derp_request host = ascii ''GET /derp HTTP/1.1'' @ crlf @ ascii ''Host: '' @ host @ crlf @ ascii ''Upgrade: DERP'' @ crlf @
     ascii ''Connection: Upgrade'' @ crlf @ ascii ''User-Agent: tinylink/0.1'' @ crlf @ crlf"

datatype login_end = LoginOk bytes int "io_poll list" | LoginFail | LoginWaits

text \<open>The end of the login, the key cache after it, and what went out on the wire.\<close>

definition derp_login_reply :: "nat \<Rightarrow> derp_login_key_t \<Rightarrow> bytes \<Rightarrow> io_poll list \<Rightarrow> login_end \<times> derp_login_key_t" where
  "derp_login_reply idle c server_pub ps = (case read_one_frame DERP_LOGIN_BUF_LEN idle ps of
      FrameEnd rc \<Rightarrow> (LoginFail, c)
    | FrameWaits \<Rightarrow> (LoginWaits, c)
    | FrameGot ty p r \<Rightarrow>
        if ty \<noteq> DERP_FRAME_SERVER_INFO then (LoginFail, c)
        else (case derp_parse_server_info_k p (lk_k c) of None \<Rightarrow> (LoginFail, derp_login_key_forget) | Some v \<Rightarrow> (LoginOk server_pub v r, c)))"

definition derp_login_keyed :: "(bytes \<Rightarrow> bytes \<Rightarrow> bytes) \<Rightarrow> nat \<Rightarrow> bytes \<Rightarrow> bytes \<Rightarrow> bytes \<Rightarrow> derp_login_key_t \<Rightarrow> bytes \<Rightarrow> io_poll list \<Rightarrow> io_wpoll list \<Rightarrow>
    login_end \<times> derp_login_key_t \<times> bytes" where
  "derp_login_keyed x25519 idle client_priv client_pub nonce cache server_pub ps ws =
    (case derp_login_key x25519 cache client_pub client_priv server_pub of (ok, c, computed) \<Rightarrow>
      if \<not> ok then (LoginFail, c, [])
      else (case derp_build_client_info_k 136 client_pub (lk_k c) nonce of
         None \<Rightarrow> (LoginFail, c, [])
       | Some info \<Rightarrow> (case tls_io_write_full (derp_write_frame_header DERP_FRAME_CLIENT_INFO (of_nat (length info)) @ info) idle ws of
           (w, None, _) \<Rightarrow> (LoginWaits, c, w)
         | (w, Some (Some e), _) \<Rightarrow> (LoginFail, c, w)
         | (w, Some None, _) \<Rightarrow> (case derp_login_reply idle c server_pub ps of (l, c1) \<Rightarrow> (l, c1, w)))))"

definition derp_login :: "(bytes \<Rightarrow> bytes \<Rightarrow> bytes) \<Rightarrow> bytes \<Rightarrow> nat \<Rightarrow> bytes \<Rightarrow> bytes \<Rightarrow> bytes \<Rightarrow> derp_login_key_t \<Rightarrow> io_poll list \<Rightarrow> io_wpoll list \<Rightarrow>
    login_end \<times> derp_login_key_t \<times> bytes" where
  "derp_login x25519 host idle client_priv client_pub nonce cache ps ws =
    (if length (derp_request host) \<ge> 256 then (LoginFail, cache, [])
     else (case tls_io_write_full (derp_request host) idle ws of
        (w, None, _) \<Rightarrow> (LoginWaits, cache, w)
      | (w, Some (Some e), _) \<Rightarrow> (LoginFail, cache, w)
      | (w, Some None, ws1) \<Rightarrow> (case read_upgrade_response DERP_LOGIN_BUF_LEN idle ps of
          ReadFail e \<Rightarrow> (LoginFail, cache, w)
        | ReadWaits \<Rightarrow> (LoginWaits, cache, w)
        | ReadDone resp r \<Rightarrow> (case read_one_frame DERP_LOGIN_BUF_LEN idle r of
            FrameEnd rc \<Rightarrow> (LoginFail, cache, w)
          | FrameWaits \<Rightarrow> (LoginWaits, cache, w)
          | FrameGot ty p r1 \<Rightarrow>
              if ty \<noteq> DERP_FRAME_SERVER_KEY then (LoginFail, cache, w)
              else (case derp_parse_server_key p of
                 None \<Rightarrow> (LoginFail, cache, w)
               | Some server_pub \<Rightarrow> (case derp_login_keyed x25519 idle client_priv client_pub nonce cache server_pub r1 ws1 of
                   (l, c, w1) \<Rightarrow> (l, c, w @ w1)))))))"

section \<open>Frames on the wire\<close>

definition derp_frame :: "u8 \<Rightarrow> bytes \<Rightarrow> bytes" where
  "derp_frame ty p = derp_write_frame_header ty (of_nat (length p)) @ p"

lemma get_put_u32_be [simp, tl_codec]: "get_u32_be (put_u32_be v @ r) = v"
proof -
  have "get_u32_be (put_u32_be v @ r) = be_word (put_u32_be v)"
    by (simp add: put_u32_be_def get_u32_be_def be_word_def push_bit_or or.commute or.left_commute or.assoc)
  then show ?thesis by (simp add: put_u32_be_eq)
qed

lemma header_roundtrip: "derp_read_frame_header (derp_write_frame_header ty n @ r) = Some (ty, n)"
  by (simp add: derp_read_frame_header_def derp_write_frame_header_def)

lemma length_header [simp]: "length (derp_write_frame_header ty n) = 5"
  by (simp add: derp_write_frame_header_def)

lemma length_derp_frame [simp]: "length (derp_frame ty p) = 5 + length p"
  by (simp add: derp_frame_def)

text \<open>A whole frame on a calm transport is read as it was written, however it was cut.\<close>

lemma read_full_calm:
  assumes "calm mi 0 ps" "poll_data ps = a @ b"
  shows "\<exists>r. tls_io_read_full (length a) mi ps = ReadDone a r \<and> poll_data r = b \<and> calm mi 0 r"
  using read_loop_calm [of mi 0 ps "[]" "length a"] assms by (simp add: tls_io_read_full_def)

lemma next_frame_got:
  assumes "calm mi 0 ps" "poll_data ps = derp_frame ty p @ b" "length p \<le> cap" "length p < 2 ^ 32"
  shows "\<exists>r. derp_next_frame cap mi ps = FrameGot ty p r \<and> poll_data r = b \<and> calm mi 0 r"
proof -
  let ?h = "derp_write_frame_header ty (of_nat (length p))"
  obtain r where r: "tls_io_read_full 5 mi ps = ReadDone ?h r" "poll_data r = p @ b" "calm mi 0 r"
    using read_full_calm [OF assms(1), of ?h "p @ b"] assms(2) by (auto simp: derp_frame_def)
  obtain r1 where r1: "tls_io_read_full (length p) mi r = ReadDone p r1" "poll_data r1 = b" "calm mi 0 r1" using read_full_calm [OF r(3,2)] by blast
  have h: "derp_read_frame_header ?h = Some (ty, of_nat (length p))" using header_roundtrip [of ty _ "[]"] by simp
  have u: "unat (of_nat (length p) :: u32) = length p" using assms(4) by (simp add: unat_of_nat)
  then have z: "(of_nat (length p) :: u32) = 0 \<longleftrightarrow> p = []" by (metis length_0_conv unat_eq_zero)
  show ?thesis
  proof (cases "p = []")
    case True
    then show ?thesis using r h by (auto simp: derp_next_frame_def)
  next
    case False
    then show ?thesis using r r1 h u z assms(3) by (auto simp: derp_next_frame_def)
  qed
qed

lemma next_frame_waits:
  assumes "calm mi 0 ps" "poll_data ps = take n (derp_frame ty p)" "n < length (derp_frame ty p)" "length p \<le> cap" "length p < 2 ^ 32"
  shows "derp_next_frame cap mi ps = FrameWaits \<and> (0 < mi \<longrightarrow> derp_next_frame cap mi (ps @ replicate mi PollWant) = FrameEnd (-1))"
proof (cases "n < 5")
  case True
  then have "length (poll_data ps) < 5" using assms(2) by simp
  then show ?thesis using read_loop_waits [OF assms(1), of "[]" 5] read_loop_dies [OF assms(1), of "[]" 5] by (simp add: derp_next_frame_def tls_io_read_full_def)
next
  case False
  let ?h = "derp_write_frame_header ty (of_nat (length p))"
  have "poll_data ps = ?h @ take (n - 5) p" using assms(2) False by (simp add: derp_frame_def)
  then obtain r where r: "tls_io_read_full 5 mi ps = ReadDone ?h r" "poll_data r = take (n - 5) p" "calm mi 0 r" using read_full_calm [OF assms(1), of ?h] by auto
  have more: "tls_io_read_full 5 mi (ps @ replicate mi PollWant) = ReadDone ?h (r @ replicate mi PollWant)"
    using r(1) read_loop_more unfolding tls_io_read_full_def by blast
  have h: "derp_read_frame_header ?h = Some (ty, of_nat (length p))" using header_roundtrip [of ty _ "[]"] by simp
  have u: "unat (of_nat (length p) :: u32) = length p" using assms(5) by (simp add: unat_of_nat)
  have l: "length (poll_data r) < length p" using r(2) assms(3) False by simp
  then have z: "(of_nat (length p) :: u32) \<noteq> 0" using u by (metis not_less0 unat_0)
  have w: "tls_io_read_full (length p) mi r = ReadWaits" "0 < mi \<Longrightarrow> tls_io_read_full (length p) mi (r @ replicate mi PollWant) = ReadFail IoIdle"
    using read_loop_waits [OF r(3), of "[]" "length p"] read_loop_dies [OF r(3), of "[]" "length p"] l by (simp_all add: tls_io_read_full_def)
  then show ?thesis using r(1) more h u z assms(4) by (auto simp: derp_next_frame_def)
qed

text \<open>The reference: the frames in order, one handler call each.\<close>

fun derp_frames :: "(derp_event_t \<Rightarrow> 'c \<Rightarrow> bool \<times> 'c) \<Rightarrow> (u8 \<Rightarrow> bytes \<Rightarrow> 'c \<Rightarrow> bool \<times> 'c) \<Rightarrow> (u8 \<times> bytes) list \<Rightarrow> 'c \<Rightarrow> 'c derp_end" where
  "derp_frames cb send [] c = DerpWaits c"
| "derp_frames cb send ((ty, p) # fs) c = (case derp_handle cb send ty p c of (Some rc, c1) \<Rightarrow> DerpRet rc c1 | (None, c1) \<Rightarrow> derp_frames cb send fs c1)"

lemma derp_loop_waits:
  assumes "\<forall>(ty, p) \<in> set fs. length p \<le> cap \<and> length p < 2 ^ 32" "calm mi 0 ps"
    "poll_data ps = concat (map (\<lambda>(ty, p). derp_frame ty p) fs) @ take n (derp_frame ty0 p0)" "n < length (derp_frame ty0 p0)" "length p0 \<le> cap" "length p0 < 2 ^ 32"
  shows "derp_loop cb send cap mi ps c = derp_frames cb send fs c"
  using assms(1-3)
proof (induction fs arbitrary: ps c)
  case Nil
  then show ?case using next_frame_waits [OF Nil(2) _ assms(4-6)] by (simp add: derp_loop.simps)
next
  case (Cons f fs)
  obtain ty p where f: "f = (ty, p)" by (cases f)
  have d: "poll_data ps = derp_frame ty p @ concat (map (\<lambda>(ty, p). derp_frame ty p) fs) @ take n (derp_frame ty0 p0)" using Cons.prems(3) f by simp
  have p: "length p \<le> cap" "length p < 2 ^ 32" "\<forall>(ty, p) \<in> set fs. length p \<le> cap \<and> length p < 2 ^ 32" using Cons.prems(1) f by auto
  obtain r where r: "derp_next_frame cap mi ps = FrameGot ty p r" "poll_data r = concat (map (\<lambda>(ty, p). derp_frame ty p) fs) @ take n (derp_frame ty0 p0)" "calm mi 0 r"
    using next_frame_got [OF Cons.prems(2) d p(1,2)] by blast
  show ?case using r(1) Cons.IH [OF p(3) r(3,2)] f by (simp add: derp_loop.simps [of cb send cap mi ps] split: prod.split option.split)
qed

lemma next_frame_more:
  assumes "derp_next_frame cap mi ps = FrameGot ty p r"
  shows "derp_next_frame cap mi (ps @ qs) = FrameGot ty p (r @ qs)"
proof -
  have more: "tls_io_read_full n mi xs = ReadDone a y \<Longrightarrow> tls_io_read_full n mi (xs @ qs) = ReadDone a (y @ qs)" for n xs a y
    using read_loop_more unfolding tls_io_read_full_def by blast
  obtain hdr r1 plen where h: "tls_io_read_full 5 mi ps = ReadDone hdr r1" "derp_read_frame_header hdr = Some (ty, plen)"
      "\<not> cap < unat plen" "if plen = 0 then p = [] \<and> r = r1 else tls_io_read_full (unat plen) mi r1 = ReadDone p r"
    using assms by (auto simp: derp_next_frame_def split: io_read.splits option.splits if_splits)
  then show ?thesis using more [OF h(1)] more [of "unat plen" r1 p r] by (simp add: derp_next_frame_def split: if_splits)
qed

lemma derp_loop_dies:
  assumes "\<forall>(ty, p) \<in> set fs. length p \<le> cap \<and> length p < 2 ^ 32" "calm mi 0 ps"
    "poll_data ps = concat (map (\<lambda>(ty, p). derp_frame ty p) fs) @ take n (derp_frame ty0 p0)" "n < length (derp_frame ty0 p0)" "length p0 \<le> cap" "length p0 < 2 ^ 32"
    "0 < mi" "derp_frames cb send fs c = DerpWaits c1"
  shows "derp_loop cb send cap mi (ps @ replicate mi PollWant) c = DerpRet (-1) c1"
  using assms(1-3,8)
proof (induction fs arbitrary: ps c)
  case Nil
  then show ?case using next_frame_waits [OF Nil(2) _ assms(4-6)] assms(7) by (simp add: derp_loop.simps)
next
  case (Cons f fs)
  obtain ty p where f: "f = (ty, p)" by (cases f)
  have d: "poll_data ps = derp_frame ty p @ concat (map (\<lambda>(ty, p). derp_frame ty p) fs) @ take n (derp_frame ty0 p0)" using Cons.prems(3) f by simp
  have p: "length p \<le> cap" "length p < 2 ^ 32" "\<forall>(ty, p) \<in> set fs. length p \<le> cap \<and> length p < 2 ^ 32" using Cons.prems(1) f by auto
  obtain r where r: "derp_next_frame cap mi ps = FrameGot ty p r" "poll_data r = concat (map (\<lambda>(ty, p). derp_frame ty p) fs) @ take n (derp_frame ty0 p0)" "calm mi 0 r"
    using next_frame_got [OF Cons.prems(2) d p(1,2)] by blast
  obtain c2 where h: "derp_handle cb send ty p c = (None, c2)" "derp_frames cb send fs c2 = DerpWaits c1"
    using Cons.prems(4) f by (auto split: prod.splits option.splits)
  show ?case using next_frame_more [OF r(1), of "replicate mi PollWant"] Cons.IH [OF p(3) r(3,2) h(2)] h(1) by (simp add: derp_loop.simps [of cb send cap mi "ps @ replicate mi PollWant"])
qed

text \<open>C34: The relay's receive loop is exact on any cut of the stream.  When the bytes that arrive are whole frames, each within the
  frame buffer, followed by part of one more, then however TLS cuts them into reads and whatever pauses lie
  between them (shorter than the idle budget), the loop makes exactly the handler calls of the frames in order,
  and waits for the rest.  A stream that then stays silent for the budget ends the loop with -1, in the same state.\<close>

theorem derp_loop_exact:
  assumes "40 \<le> cap" "\<forall>(ty, p) \<in> set fs. length p \<le> cap \<and> length p < 2 ^ 32" "calm mi 0 ps"
    "poll_data ps = concat (map (\<lambda>(ty, p). derp_frame ty p) fs) @ take n (derp_frame ty0 p0)" "n < length (derp_frame ty0 p0)" "length p0 \<le> cap" "length p0 < 2 ^ 32"
  shows "derp_run_loop cb send cap mi ps c = derp_frames cb send fs c \<and>
    (0 < mi \<and> derp_frames cb send fs c = DerpWaits c1 \<longrightarrow> derp_run_loop cb send cap mi (ps @ replicate mi PollWant) c = DerpRet (-1) c1)"
  using assms(1) derp_loop_waits [OF assms(2-7), of cb send c] derp_loop_dies [OF assms(2-7), of cb send c c1] by (simp add: derp_run_loop_def)

theorem derp_loop_exact_witness:
  "derp_run_loop (\<lambda>e es. (False, es @ [e])) (\<lambda>ty p es. (True, es @ [DERP_EVT_HEALTH p])) 64 2
     [PollData [0x12, 0], PollWant, PollData [0, 0, 8, 1, 2, 3, 4, 5], PollData [6, 7, 8, 6, 0, 0, 0, 0, 5]] [] =
   DerpWaits [DERP_EVT_HEALTH [1, 2, 3, 4, 5, 6, 7, 8], DERP_EVT_KEEPALIVE]"
  using derp_loop_exact [of 64 "[(0x12, [1, 2, 3, 4, 5, 6, 7, 8]), (6, [])]" 2
     "[PollData [0x12, 0], PollWant, PollData [0, 0, 8, 1, 2, 3, 4, 5], PollData [6, 7, 8, 6, 0, 0, 0, 0, 5]]" 1 5 "[]"
     "\<lambda>e es. (False, es @ [e])" "\<lambda>ty p es. (True, es @ [DERP_EVT_HEALTH p])" "[]"]
  by (simp add: derp_frame_def derp_write_frame_header_def put_u32_be_def derp_handle_def derp_dispatch_def derp_types derp_parse_ping_or_pong_def)

section \<open>The login against a server\<close>

text \<open>\<open>x\<close> ends with the blank line that ends a header block, and has none before.\<close>

definition header_block :: "bytes \<Rightarrow> bool" where
  "header_block x \<longleftrightarrow> (\<forall>n \<le> length x. 4 \<le> n \<longrightarrow> (drop (n - 4) (take n x) = [13, 10, 13, 10] \<longleftrightarrow> n = length x)) \<and> 4 \<le> length x"

lemma header_block_step:
  assumes "header_block (got @ b # a)"
  shows "(length got + 1 \<ge> 4 \<and> drop (length got - 3) (got @ [b]) = [13, 10, 13, 10]) \<longleftrightarrow> a = []"
proof (cases "3 \<le> length got")
  case True
  have "drop (Suc (length got) - 4) (take (Suc (length got)) (got @ b # a)) = [13, 10, 13, 10] \<longleftrightarrow> Suc (length got) = length (got @ b # a)"
    using assms True unfolding header_block_def by (elim conjE allE [of _ "Suc (length got)"]) simp
  then show ?thesis using True by (simp add: numeral_eq_Suc)
next
  case False
  then show ?thesis using assms by (auto simp: header_block_def)
qed

lemma header_block_simple:
  assumes "13 \<notin> set p"
  shows "header_block (p @ [13, 10, 13, 10])"
proof -
  let ?x = "p @ [13, 10, 13, 10]"
  have "n = length ?x" if "4 \<le> n" "n \<le> length ?x" "drop (n - 4) (take n ?x) = [13, 10, 13, 10]" for n
  proof (rule ccontr)
    assume "n \<noteq> length ?x"
    then have "n - 4 < length p" using that by simp
    then have "?x ! (n - 4) = p ! (n - 4)" by (simp add: nth_append)
    moreover have "?x ! (n - 4) = drop (n - 4) (take n ?x) ! 0" using nth_drop [of "n - 4" "take n ?x" 0] nth_take [of "n - 4" n ?x] that(1,2) by (simp del: take_append drop_append)
    ultimately show False using assms that(3) \<open>n - 4 < length p\<close> by (metis nth_Cons_0 nth_mem)
  qed
  then show ?thesis by (auto simp: header_block_def)
qed

lemma upgrade_calm:
  "calm mi idle ps \<Longrightarrow> 0 < mi \<Longrightarrow> poll_data ps = a @ b \<Longrightarrow> a \<noteq> [] \<Longrightarrow> header_block (got @ a) \<Longrightarrow> length (got @ a) \<le> bs - 1 \<Longrightarrow>
     \<exists>r. upgrade_loop bs mi idle got ps = ReadDone (got @ a) r \<and> poll_data r = b \<and> calm mi 0 r"
proof (induction bs mi idle got ps arbitrary: a rule: upgrade_loop.induct)
  case (5 bs mi idle got x ps)
  then obtain a1 where a: "a = x # a1" "poll_data ps = a1 @ b" by (cases a) auto
  note st = header_block_step [of got x a1]
  show ?case
  proof (cases "a1 = []")
    case True
    then show ?thesis using 5(2-) a st by auto
  next
    case False
    then have "\<not> (length got + 1 \<ge> 4 \<and> drop (length got - 3) (got @ [x]) = [13, 10, 13, 10])" using st 5(6) a by auto
    then show ?thesis using 5(1) [of a1] 5(2-) a False by auto
  qed
next
  case (6 bs mi idle got x y d ps)
  then obtain a1 where a: "a = x # a1" "y # d @ poll_data ps = a1 @ b" by (cases a) auto
  note st = header_block_step [of got x a1]
  show ?case
  proof (cases "a1 = []")
    case True
    then show ?thesis using 6(2-) a st by auto
  next
    case False
    then have "\<not> (length got + 1 \<ge> 4 \<and> drop (length got - 3) (got @ [x]) = [13, 10, 13, 10])" using st 6(6) a by auto
    then show ?thesis using 6(1) [of a1] 6(2-) a False by auto
  qed
next
  case (2 bs mi idle got ps)
  then have "length got < bs - 1" by (cases a) auto
  then show ?case using 2 by auto
qed auto

lemma upgrade_response_ok:
  assumes "calm mi 0 ps" "0 < mi" "poll_data ps = resp @ b" "header_block resp" "take 13 resp = ascii ''HTTP/1.1 101 ''" "length resp < 255"
  shows "\<exists>r. read_upgrade_response DERP_LOGIN_BUF_LEN mi ps = ReadDone resp r \<and> poll_data r = b \<and> calm mi 0 r"
proof -
  have "resp \<noteq> []" using assms(4) by (auto simp: header_block_def)
  then obtain r where "upgrade_loop 256 mi 0 [] ps = ReadDone resp r" "poll_data r = b" "calm mi 0 r"
    using upgrade_calm [OF assms(1-3), of "[]" 256] assms(4,6) by auto
  then show ?thesis using assms(5,6) by (simp add: read_upgrade_response_def DERP_LOGIN_BUF_LEN_def)
qed

text \<open>The cache only ever holds the key a computation would give for the device's private key.\<close>

definition login_key_ok :: "(bytes \<Rightarrow> bytes \<Rightarrow> bytes) \<Rightarrow> bytes \<Rightarrow> bytes \<Rightarrow> derp_login_key_t \<Rightarrow> bool" where
  "login_key_ok x25519 client_pub client_priv c \<longleftrightarrow>
     (lk_valid c \<and> lk_client_pub c = client_pub \<longrightarrow> nacl_box_compute_shared x25519 (lk_server_pub c) client_priv = Some (lk_k c))"

lemma login_key_exact:
  assumes "login_key_ok x25519 client_pub client_priv c"
  shows "case derp_login_key x25519 c client_pub client_priv server_pub of (ok, c1, computed) \<Rightarrow>
    login_key_ok x25519 client_pub client_priv c1 \<and> nacl_box_compute_shared x25519 server_pub client_priv = (if ok then Some (lk_k c1) else None)"
  using assms by (auto simp: derp_login_key_def login_key_ok_def derp_login_key_forget_def split: option.split)

lemma length_client_json: "length k_client_info_json = 32"
  by (simp add: k_client_info_json_def ascii_def)

lemma login_keeps_cache:
  assumes "login_key_ok x25519 client_pub client_priv c" "derp_login x25519 host idle client_priv client_pub nonce c ps ws = (l, c1, w)"
  shows "login_key_ok x25519 client_pub client_priv c1"
proof -
  have f: "login_key_ok x25519 client_pub client_priv derp_login_key_forget" by (simp add: login_key_ok_def derp_login_key_forget_def)
  have reply: "login_key_ok x25519 client_pub client_priv c \<Longrightarrow> derp_login_reply idle c s ps = (l, c1) \<Longrightarrow> login_key_ok x25519 client_pub client_priv c1" for c s ps l c1
    using f by (auto simp: derp_login_reply_def split: derp_next.splits if_splits option.splits)
  have keyed: "derp_login_keyed x25519 idle client_priv client_pub nonce c s ps ws = (l, c1, w) \<Longrightarrow> login_key_ok x25519 client_pub client_priv c1" for s ps ws l c1 w
    using login_key_exact [OF assms(1), of s] by (auto simp: derp_login_keyed_def split: prod.splits if_splits option.splits dest: reply)
  show ?thesis using assms by (auto simp: derp_login_def split: prod.splits if_splits option.splits io_read.splits derp_next.splits dest: keyed)
qed

text \<open>C35: A DERP login with an honest server completes, whatever the key cache holds from earlier logins.  When the server
  answers the upgrade with a 101, sends its key and a sealed ServerInfo (in any cut, with pauses below the
  budget), and the two writes go out: the login ends with that server key and the version the ServerInfo names, leaves
  the transport after the ServerInfo, and puts on the wire the upgrade request and one ClientInfo frame whose
  box the server opens to the client's JSON.\<close>

theorem derp_login_completes:
  assumes "login_key_ok x25519 client_pub client_priv c" "length (derp_request host) < 256" "calm idle 0 ps" "0 < idle"
    "poll_data ps = resp @ derp_frame DERP_FRAME_SERVER_KEY (DERP_MAGIC @ server_pub @ fut) @ derp_frame DERP_FRAME_SERVER_INFO (snonce @ sbox) @ rest"
    "header_block resp" "take 13 resp = ascii ''HTTP/1.1 101 ''" "length resp < 255"
    "length server_pub = 32" "length fut \<le> 216" "length snonce = 24" "length sbox \<le> 232" "length client_pub = 32" "length nonce = 24"
    "x25519 client_priv server_pub = x25519 server_priv client_pub" "nacl_box x25519 js snonce client_pub server_priv = Some sbox"
    "tls_io_write_full (derp_request host) idle ws = (w1, Some None, ws1)"
    "\<And>f. length f = 109 \<Longrightarrow> \<exists>ws2. tls_io_write_full f idle ws1 = (f, Some None, ws2)"
  shows "\<exists>r c1 box. derp_login x25519 host idle client_priv client_pub nonce c ps ws =
      (LoginOk server_pub (json_scan_int js (ascii ''version'')) r, c1, derp_request host @ derp_frame DERP_FRAME_CLIENT_INFO (client_pub @ nonce @ box)) \<and>
    poll_data r = rest \<and> nacl_box_open x25519 box nonce client_pub server_priv = Some k_client_info_json"
proof -
  have box_eq: "nacl_box_compute_shared x25519 server_pub client_priv = box_beforenm x25519 client_pub server_priv"
    using assms(15) by (simp add: nacl_box_compute_shared_def box_beforenm_def curve25519_dh_def curve25519_scalarmult_def)
  obtain k where k: "box_beforenm x25519 client_pub server_priv = Some k" "nacl_box_after_shared js snonce k = Some sbox"
    using assms(16) by (auto simp: nacl_box_def split: option.splits)
  obtain c1 computed where lk: "derp_login_key x25519 c client_pub client_priv server_pub = (True, c1, computed)" "lk_k c1 = k"
    using login_key_exact [OF assms(1), of server_pub] k(1) box_eq by (auto split: prod.splits if_splits)
  obtain box where box: "nacl_box_after_shared k_client_info_json nonce k = Some box" by (simp add: nacl_box_after_shared_eq length_client_json)
  then have lbox: "length box = 48" using nacl.length_seal [OF box] length_client_json by simp
  have info: "derp_build_client_info_k 136 client_pub k nonce = Some (client_pub @ nonce @ box)" using box by (simp add: derp_build_client_info_k_def length_client_json)
  define f where "f = derp_frame DERP_FRAME_CLIENT_INFO (client_pub @ nonce @ box)"
  have "length f = 109" using assms(13,14) lbox by (simp add: f_def)
  then obtain ws2 where w2: "tls_io_write_full f idle ws1 = (f, Some None, ws2)" using assms(18) by blast
  have w1: "w1 = derp_request host" using write_loop_prefix [of "derp_request host" idle 0 ws] assms(17) unfolding tls_io_write_full_def by fastforce
  obtain r1 where r1: "read_upgrade_response DERP_LOGIN_BUF_LEN idle ps = ReadDone resp r1" "calm idle 0 r1"
      "poll_data r1 = derp_frame DERP_FRAME_SERVER_KEY (DERP_MAGIC @ server_pub @ fut) @ derp_frame DERP_FRAME_SERVER_INFO (snonce @ sbox) @ rest"
    using upgrade_response_ok [OF assms(3,4,5,6,7,8)] by blast
  have m: "length DERP_MAGIC = 8" by (simp add: DERP_MAGIC_def)
  obtain r2 where r2: "read_one_frame DERP_LOGIN_BUF_LEN idle r1 = FrameGot DERP_FRAME_SERVER_KEY (DERP_MAGIC @ server_pub @ fut) r2" "calm idle 0 r2"
      "poll_data r2 = derp_frame DERP_FRAME_SERVER_INFO (snonce @ sbox) @ rest"
    using next_frame_got [OF r1(2,3), of 256] assms(9,10) m by (auto simp: read_one_frame_def DERP_LOGIN_BUF_LEN_def)
  obtain r3 where r3: "read_one_frame DERP_LOGIN_BUF_LEN idle r2 = FrameGot DERP_FRAME_SERVER_INFO (snonce @ sbox) r3" "poll_data r3 = rest"
    using next_frame_got [OF r2(2,3), of 256] assms(11,12) by (auto simp: read_one_frame_def DERP_LOGIN_BUF_LEN_def)
  have sk: "derp_parse_server_key (DERP_MAGIC @ server_pub @ fut) = Some server_pub" using m assms(9) by (simp add: derp_parse_server_key_def bytes_at_def)
  have si: "derp_parse_server_info_k (snonce @ sbox) k = Some (json_scan_int js (ascii ''version''))"
    using nacl.unseal_seal [OF k(2)] nacl.length_seal [OF k(2)] assms(11,12) by (simp add: derp_parse_server_info_k_def)
  have reply: "derp_login_reply idle c1 server_pub r2 = (LoginOk server_pub (json_scan_int js (ascii ''version'')) r3, c1)"
    using r3(1) si lk(2) by (simp add: derp_login_reply_def)
  have keyed: "derp_login_keyed x25519 idle client_priv client_pub nonce c server_pub r2 ws1 = (LoginOk server_pub (json_scan_int js (ascii ''version'')) r3, c1, f)"
    using lk info w2 reply by (simp add: derp_login_keyed_def f_def derp_frame_def)
  have "derp_login x25519 host idle client_priv client_pub nonce c ps ws = (LoginOk server_pub (json_scan_int js (ascii ''version'')) r3, c1, derp_request host @ f)"
    using assms(2,17) w1 r1(1) r2(1) sk keyed by (simp add: derp_login_def)
  moreover have "nacl_box_open x25519 box nonce client_pub server_priv = Some k_client_info_json" using k(1) nacl.unseal_seal [OF box] by (simp add: nacl_box_open_def)
  ultimately show ?thesis using r3(2) unfolding f_def by blast
qed

definition w_resp :: bytes where "w_resp = ascii ''HTTP/1.1 101 Up'' @ crlf @ crlf"

lemma w_resp_ok: "header_block w_resp" "take 13 w_resp = ascii ''HTTP/1.1 101 ''" "length w_resp < 255"
proof -
  have p: "ascii ''HTTP/1.1 101 Up'' = [72, 84, 84, 80, 47, 49, 46, 49, 32, 49, 48, 49, 32, 85, 112]" by (simp add: ascii_def)
  show "header_block w_resp" using header_block_simple [of "ascii ''HTTP/1.1 101 Up''"] unfolding p by (simp add: w_resp_def p crlf_def)
  show "take 13 w_resp = ascii ''HTTP/1.1 101 ''" "length w_resp < 255" by (simp_all add: w_resp_def crlf_def ascii_def)
qed

lemma w_version: "json_scan_int (ascii ''{\"version\":2}'') (ascii ''version'') = 2"
  by code_simp

lemma w_write: "length f = n \<Longrightarrow> 0 < n \<Longrightarrow> n \<le> 300 \<Longrightarrow> tls_io_write_full f 4 (PutSome 300 # ws) = (f, Some None, ws)"
  by (cases ws) (auto simp: tls_io_write_full_def)

theorem derp_login_completes_witness:
  "\<exists>ps r c1 w. derp_login (\<lambda>a b. map2 (+) a b) (ascii ''derp.example'') 4 (replicate 32 1) (replicate 32 1) (replicate 24 7) derp_login_key_forget ps [PutSome 300, PutSome 300] =
     (LoginOk (replicate 32 2) 2 r, c1, w) \<and> poll_data r = [9]"
proof -
  let ?x = "\<lambda>a b :: bytes. map2 (+) a b" and ?js = "ascii ''{\"version\":2}''" and ?req = "derp_request (ascii ''derp.example'')"
  have h: "?x (replicate 32 1) (replicate 32 2) = ?x (replicate 32 2) (replicate 32 1)" "length (?x (replicate 32 2) (replicate 32 1)) = 32"
      "?x (replicate 32 2) (replicate 32 1) \<noteq> replicate 32 0" by (simp_all add: zip_replicate)
  have js: "length ?js = 13" by (simp add: ascii_def)
  have "box_beforenm ?x (replicate 32 1) (replicate 32 2) \<noteq> None"
    using dh_zero [of ?x "replicate 32 2" "replicate 32 1"] h(2,3) by (auto simp: box_beforenm_def split: option.splits)
  then obtain sbox where sbox: "nacl_box ?x ?js (replicate 24 5) (replicate 32 1) (replicate 32 2) = Some sbox"
    using js by (auto simp: nacl_box_def nacl_box_after_shared_eq)
  then obtain k where "nacl_box_after_shared ?js (replicate 24 5) k = Some sbox" by (auto simp: nacl_box_def split: option.splits)
  from nacl.length_seal [OF this] have lsbox: "length sbox = 29" using js by simp
  have lreq: "length ?req = 104" by (simp add: derp_request_def ascii_def crlf_def)
  let ?ps = "[PollData (w_resp @ derp_frame DERP_FRAME_SERVER_KEY (DERP_MAGIC @ replicate 32 2 @ []) @ derp_frame DERP_FRAME_SERVER_INFO (replicate 24 5 @ sbox) @ [9])]"
  have "login_key_ok ?x (replicate 32 1) (replicate 32 1) derp_login_key_forget" by (simp add: login_key_ok_def derp_login_key_forget_def)
  from derp_login_completes [OF this, of "ascii ''derp.example''" 4 ?ps w_resp "replicate 32 2" "[]" "replicate 24 5" sbox "[9]" "replicate 24 7" "replicate 32 2" ?js
      "[PutSome 300, PutSome 300]" ?req "[PutSome 300]"]
  have "\<exists>r c1 box. derp_login ?x (ascii ''derp.example'') 4 (replicate 32 1) (replicate 32 1) (replicate 24 7) derp_login_key_forget ?ps [PutSome 300, PutSome 300] =
      (LoginOk (replicate 32 2) (json_scan_int ?js (ascii ''version'')) r, c1, ?req @ derp_frame DERP_FRAME_CLIENT_INFO (replicate 32 1 @ replicate 24 7 @ box)) \<and> poll_data r = [9]"
    using w_resp_ok lreq lsbox sbox h(1) w_write [of ?req 104 "[PutSome 300]"] w_write [of _ 109 "[]"] by auto
  then show ?thesis unfolding w_version by blast
qed

end
