(* ===== verification/DERP_WLock.thy ===== *)
theory DERP_WLock
  imports DERP
begin

text \<open>
  The write lock of the DERP connection (\<open>derp_wlock.h\<close>) and the two tasks that use it (\<open>derp_client.c\<close>): any number of writers, and the
  supervisor, which alone connects and closes, and which writes too (its pongs) while it runs the receive loop.

  Every load and store of the shared \<open>connected\<close> and \<open>gen\<close>, every take and give of the mutex, and every call on the TLS context is one
  step, and the steps of the tasks interleave in any order.  The atomics are acquire/release on two variables
  with one writer at a time, so the interleavings of the steps are what the hardware can show.  A wait may end without the lock at any
  time (the slice ran out), a write may take any part of the bytes, want a retry, or fail.

  History, not state of the program: \<open>wl_news\<close> counts the calls of \<open>derp_wl_new_conn\<close>, \<open>wl_opens\<close> the TLS contexts; \<open>wl_out k\<close> is the byte
  stream on TLS context \<open>k\<close>, to which every write call appends the bytes it took, whoever makes it; \<open>wl_wire k\<close> lists the frames in the
  order in which they were begun on \<open>k\<close>, with the \<open>wl_news\<close> each set out at and the number of bytes written since it was begun and
  before the next one was; \<open>wl_born k\<close> is the \<open>wl_news\<close> at which \<open>k\<close> was opened.
\<close>

section \<open>The watchdog feeds of a wait\<close>

datatype wl_feed = WlFeed | WlOverdue u32 | WlQuiet

definition derp_wl_waited :: "u32 \<Rightarrow> u32 \<Rightarrow> u32 \<Rightarrow> u32 \<times> wl_feed" where
  "derp_wl_waited waited ms fed_max_ms =
    (if waited \<ge> fed_max_ms then (waited, WlQuiet)
     else (let waited1 = (if ms > fed_max_ms - waited then fed_max_ms else waited + ms)
           in (waited1, if waited1 < fed_max_ms then WlFeed else WlOverdue waited1)))"

section \<open>The state\<close>

text \<open>Where a writer is.  It carries its frame, \<open>no_wait\<close>, the \<open>gen\<close> it loaded and the \<open>wl_news\<close> at that load.\<close>

record wl_frame =
  fr_bytes :: bytes
  fr_no_wait :: bool
  fr_gen :: u32
  fr_set_out :: nat

datatype wpc =
    WIdle
  | WAdmit wl_frame       \<comment> \<open>\<open>gen\<close> is loaded, \<open>connected\<close> comes next\<close>
  | WTake wl_frame        \<comment> \<open>before \<open>derp_wl_take\<close>\<close>
  | WMiss wl_frame        \<comment> \<open>the take failed\<close>
  | WMiss2 wl_frame       \<comment> \<open>\<open>connected\<close> still read true\<close>
  | WHeld wl_frame        \<comment> \<open>the lock is taken\<close>
  | WHeld2 wl_frame       \<comment> \<open>\<open>connected\<close> read true under the lock\<close>
  | WSelect wl_frame      \<comment> \<open>\<open>socket_writable_now\<close>\<close>
  | WPoll wl_frame nat    \<comment> \<open>so many bytes are out; before \<open>derp_wl_may_write\<close>\<close>
  | WPut wl_frame nat     \<comment> \<open>before \<open>esp_tls_conn_write\<close>\<close>
  | WFailed               \<comment> \<open>before the load of \<open>derp_wl_write_failed\<close>\<close>
  | WFailed2              \<comment> \<open>before its store\<close>
  | WGive                 \<comment> \<open>before \<open>derp_wl_give\<close>\<close>

datatype spc =
    SOff
  | SNew                  \<comment> \<open>\<open>connected\<close> is false, \<open>gen\<close> comes next\<close>
  | SOpen                 \<comment> \<open>before \<open>open_tls\<close>\<close>
  | SLogin                \<comment> \<open>in the login\<close>
  | SRun                  \<comment> \<open>logged in, in \<open>derp_client_run\<close>\<close>
  | SGrace                \<comment> \<open>closing: \<open>connected\<close> is false, the first take\<close>
  | SCut                  \<comment> \<open>closing: the conn is cut, the takes in slices\<close>
  | SDestroy              \<comment> \<open>closing: the lock is held\<close>
  | SGive

record derp_wl =
  wl_lock :: "nat option"
  wl_connected :: bool
  wl_gen :: u32
  wl_tls :: "nat option"
  wl_pc :: "nat \<Rightarrow> wpc"
  wl_sup :: spc
  wl_news :: nat
  wl_opens :: nat
  wl_wire :: "nat \<Rightarrow> (wl_frame \<times> nat) list"
  wl_out :: "nat \<Rightarrow> bytes"
  wl_born :: "nat \<Rightarrow> nat"

definition goto :: "nat \<Rightarrow> wpc \<Rightarrow> derp_wl \<Rightarrow> derp_wl" where
  "goto t p s = s\<lparr>wl_pc := (wl_pc s)(t := p)\<rparr>"

section \<open>A writer\<close>

text \<open>The frame of \<open>write_frame_locked\<close>: header, key, payload.\<close>

definition wl_start :: "nat \<Rightarrow> u8 \<Rightarrow> bytes \<Rightarrow> bytes \<Rightarrow> bool \<Rightarrow> derp_wl \<Rightarrow> derp_wl" where
  "wl_start t ty key payload no_wait s =
     goto t (WAdmit \<lparr>fr_bytes = derp_frame ty (key @ payload), fr_no_wait = no_wait, fr_gen = wl_gen s, fr_set_out = wl_news s\<rparr>) s"

definition begin_frame :: "nat \<Rightarrow> wl_frame \<Rightarrow> derp_wl \<Rightarrow> derp_wl" where
  "begin_frame t f s = (goto t (WPoll f 0) s)\<lparr>wl_wire := (case wl_tls s of None \<Rightarrow> wl_wire s | Some k \<Rightarrow> (wl_wire s)(k := wl_wire s k @ [(f, 0)]))\<rparr>"

text \<open>A write call took \<open>m\<close> bytes at offset \<open>n\<close> of the frame.\<close>

fun bump_last :: "nat \<Rightarrow> (wl_frame \<times> nat) list \<Rightarrow> (wl_frame \<times> nat) list" where
  "bump_last m [] = []"
| "bump_last m [(f, n)] = [(f, n + m)]"
| "bump_last m (e # e' # w) = e # bump_last m (e' # w)"

definition wl_put_bytes :: "nat \<Rightarrow> wl_frame \<Rightarrow> nat \<Rightarrow> nat \<Rightarrow> derp_wl \<Rightarrow> derp_wl" where
  "wl_put_bytes t f n m s = (goto t (if n + m = length (fr_bytes f) then WGive else WPoll f (n + m)) s)\<lparr>
     wl_wire := (case wl_tls s of None \<Rightarrow> wl_wire s | Some k \<Rightarrow> (wl_wire s)(k := bump_last m (wl_wire s k))),
     wl_out := (case wl_tls s of None \<Rightarrow> wl_out s | Some k \<Rightarrow> (wl_out s)(k := wl_out s k @ take m (drop n (fr_bytes f))))\<rparr>"

inductive wl_write :: "nat \<Rightarrow> derp_wl \<Rightarrow> derp_wl \<Rightarrow> bool" for t where
  w_start: "wl_pc s t = WIdle \<Longrightarrow> wl_write t s (wl_start t ty key payload no_wait s)"
| w_admit: "wl_pc s t = WAdmit f \<Longrightarrow> wl_write t s (goto t (if wl_connected s then WTake f else WIdle) s)"
| w_take: "wl_pc s t = WTake f \<Longrightarrow> wl_lock s = None \<Longrightarrow> wl_write t s ((goto t (WHeld f) s)\<lparr>wl_lock := Some t\<rparr>)"
| w_miss: "wl_pc s t = WTake f \<Longrightarrow> wl_lock s \<noteq> None \<Longrightarrow> wl_write t s (goto t (WMiss f) s)"
| w_missed: "wl_pc s t = WMiss f \<Longrightarrow> wl_write t s (goto t (if wl_connected s then WMiss2 f else WIdle) s)"
| w_missed2: "wl_pc s t = WMiss2 f \<Longrightarrow> wl_write t s (goto t (if wl_gen s \<noteq> fr_gen f \<or> fr_no_wait f then WIdle else WTake f) s)"
| w_held: "wl_pc s t = WHeld f \<Longrightarrow> wl_write t s (goto t (if wl_connected s then WHeld2 f else WGive) s)"
| w_held2: "wl_pc s t = WHeld2 f \<Longrightarrow> wl_write t s (if wl_gen s \<noteq> fr_gen f then goto t WGive s else if fr_no_wait f then goto t (WSelect f) s else begin_frame t f s)"
| w_select: "wl_pc s t = WSelect f \<Longrightarrow> wl_write t s (if writable then begin_frame t f s else goto t WGive s)"
| w_poll: "wl_pc s t = WPoll f n \<Longrightarrow> wl_write t s (goto t (if wl_connected s then WPut f n else WFailed) s)"
| w_put: "wl_pc s t = WPut f n \<Longrightarrow> 0 < m \<Longrightarrow> n + m \<le> length (fr_bytes f) \<Longrightarrow> wl_write t s (wl_put_bytes t f n m s)"
| w_want: "wl_pc s t = WPut f n \<Longrightarrow> wl_write t s (goto t (WPoll f n) s)"
| w_error: "wl_pc s t = WPut f n \<Longrightarrow> wl_write t s (goto t WFailed s)"
| w_failed: "wl_pc s t = WFailed \<Longrightarrow> wl_write t s (goto t (if wl_connected s then WFailed2 else WGive) s)"
| w_failed2: "wl_pc s t = WFailed2 \<Longrightarrow> wl_write t s ((goto t WGive s)\<lparr>wl_connected := False\<rparr>)"
| w_give: "wl_pc s t = WGive \<Longrightarrow> wl_write t s ((goto t WIdle s)\<lparr>wl_lock := None\<rparr>)"

section \<open>The supervisor\<close>

text \<open>Task 0.  \<open>connect_on\<close> may run twice after one \<open>derp_wl_new_conn\<close> (the address, then the name); \<open>open_tls\<close> may leave no context.\<close>

inductive wl_supervise :: "derp_wl \<Rightarrow> derp_wl \<Rightarrow> bool" where
  s_new: "wl_sup s = SOff \<Longrightarrow> wl_supervise s (s\<lparr>wl_connected := False, wl_sup := SNew\<rparr>)"
| s_gen: "wl_sup s = SNew \<Longrightarrow> wl_supervise s (s\<lparr>wl_gen := wl_gen s + 1, wl_news := wl_news s + 1, wl_tls := None, wl_sup := SOpen\<rparr>)"
| s_open: "wl_sup s = SOpen \<Longrightarrow> wl_supervise s (s\<lparr>wl_tls := Some (wl_opens s), wl_opens := wl_opens s + 1, wl_born := (wl_born s)(wl_opens s := wl_news s), wl_sup := SLogin\<rparr>)"
| s_no_tls: "wl_sup s = SOpen \<Longrightarrow> wl_supervise s (s\<lparr>wl_connected := False, wl_sup := SGrace\<rparr>)"
| s_fail: "wl_sup s = SLogin \<Longrightarrow> wl_supervise s (s\<lparr>wl_connected := False, wl_sup := SGrace\<rparr>)"
| s_up: "wl_sup s = SLogin \<Longrightarrow> wl_supervise s (s\<lparr>wl_connected := True, wl_sup := SRun\<rparr>)"
| s_close: "wl_sup s = SRun \<Longrightarrow> wl_pc s 0 = WIdle \<Longrightarrow> wl_supervise s (s\<lparr>wl_connected := False, wl_sup := SGrace\<rparr>)"
| s_lock: "wl_sup s = SGrace \<or> wl_sup s = SCut \<Longrightarrow> wl_lock s = None \<Longrightarrow> wl_supervise s (s\<lparr>wl_lock := Some 0, wl_sup := SDestroy\<rparr>)"
| s_cut: "wl_sup s = SGrace \<Longrightarrow> wl_lock s \<noteq> None \<Longrightarrow> wl_supervise s (s\<lparr>wl_sup := SCut\<rparr>)"
| s_destroy: "wl_sup s = SDestroy \<Longrightarrow> wl_supervise s (s\<lparr>wl_tls := None, wl_sup := SGive\<rparr>)"
| s_give: "wl_sup s = SGive \<Longrightarrow> next = SOff \<or> next = SOpen \<Longrightarrow> wl_supervise s (s\<lparr>wl_lock := None, wl_sup := next\<rparr>)"

inductive wl_step :: "derp_wl \<Rightarrow> derp_wl \<Rightarrow> bool" where
  step_writer: "t \<noteq> 0 \<Longrightarrow> wl_write t s s' \<Longrightarrow> wl_step s s'"
| step_pong: "wl_sup s = SRun \<Longrightarrow> wl_write 0 s s' \<Longrightarrow> wl_step s s'"
| step_sup: "wl_supervise s s' \<Longrightarrow> wl_step s s'"

definition wl_init :: derp_wl where
  "wl_init = \<lparr>wl_lock = None, wl_connected = False, wl_gen = 0, wl_tls = None, wl_pc = (\<lambda>_. WIdle), wl_sup = SOff, wl_news = 0, wl_opens = 0,
     wl_wire = (\<lambda>_. []), wl_out = (\<lambda>_. []), wl_born = (\<lambda>_. 0)\<rparr>"

inductive wl_reach :: "derp_wl \<Rightarrow> bool" where
  wl_begin: "wl_reach wl_init"
| wl_next: "wl_reach s \<Longrightarrow> wl_step s s' \<Longrightarrow> wl_reach s'"

inductive_cases wl_stepE: "wl_step s s'"

section \<open>The invariant\<close>

text \<open>Points at which a writer holds the lock, and those past the checks under it.\<close>

fun holds_lock :: "wpc \<Rightarrow> bool" where
  "holds_lock WIdle = False"
| "holds_lock (WAdmit f) = False"
| "holds_lock (WTake f) = False"
| "holds_lock (WMiss f) = False"
| "holds_lock (WMiss2 f) = False"
| "holds_lock _ = True"

fun in_frame :: "wpc \<Rightarrow> (wl_frame \<times> nat) option" where
  "in_frame (WPoll f n) = Some (f, n)"
| "in_frame (WPut f n) = Some (f, n)"
| "in_frame _ = None"

fun uses_conn :: "wpc \<Rightarrow> bool" where
  "uses_conn (WHeld2 f) = True"
| "uses_conn (WSelect f) = True"
| "uses_conn (WPoll f n) = True"
| "uses_conn (WPut f n) = True"
| "uses_conn WFailed = True"
| "uses_conn WFailed2 = True"
| "uses_conn _ = False"

fun the_frame :: "wpc \<Rightarrow> wl_frame option" where
  "the_frame (WAdmit f) = Some f"
| "the_frame (WTake f) = Some f"
| "the_frame (WMiss f) = Some f"
| "the_frame (WMiss2 f) = Some f"
| "the_frame (WHeld f) = Some f"
| "the_frame (WHeld2 f) = Some f"
| "the_frame (WSelect f) = Some f"
| "the_frame (WPoll f n) = Some f"
| "the_frame (WPut f n) = Some f"
| "the_frame _ = None"

text \<open>The frames of a connection are whole, but for the last one.\<close>

definition whole :: "wl_frame \<times> nat \<Rightarrow> bool" where "whole e \<longleftrightarrow> snd e = length (fr_bytes (fst e))"

definition wire_ok :: "(wl_frame \<times> nat) list \<Rightarrow> bool" where
  "wire_ok w \<longleftrightarrow> (\<forall>e \<in> set (butlast w). whole e) \<and> (\<forall>e \<in> set w. snd e \<le> length (fr_bytes (fst e)))"

definition sup_ok :: "derp_wl \<Rightarrow> bool" where
  "sup_ok s \<longleftrightarrow> (wl_connected s \<longrightarrow> wl_sup s = SRun) \<and> (wl_sup s = SRun \<or> wl_sup s = SLogin \<longrightarrow> wl_tls s \<noteq> None) \<and>
     (wl_sup s \<in> {SOff, SNew, SOpen, SGive} \<longrightarrow> wl_tls s = None) \<and>
     (wl_pc s 0 \<noteq> WIdle \<longrightarrow> wl_sup s = SRun) \<and> (\<forall>k. wl_tls s = Some k \<longrightarrow> k < wl_opens s \<and> wl_born s k = wl_news s) \<and>
     (\<forall>k \<ge> wl_opens s. wl_wire s k = []) \<and> (\<forall>k. wl_sup s = SLogin \<and> wl_tls s = Some k \<longrightarrow> wl_wire s k = []) \<and> wl_gen s = of_nat (wl_news s)"

definition lock_ok :: "derp_wl \<Rightarrow> bool" where
  "lock_ok s \<longleftrightarrow> (\<forall>t. holds_lock (wl_pc s t) \<longleftrightarrow> wl_lock s = Some t \<and> \<not> (t = 0 \<and> wl_sup s \<in> {SDestroy, SGive})) \<and>
     (wl_sup s \<in> {SDestroy, SGive} \<longrightarrow> wl_lock s = Some 0)"

definition conn_ok :: "derp_wl \<Rightarrow> bool" where
  "conn_ok s \<longleftrightarrow> (\<forall>t. uses_conn (wl_pc s t) \<longrightarrow> wl_sup s \<in> {SRun, SGrace, SCut} \<and> wl_tls s \<noteq> None)"

text \<open>A frame is a header and a body; a wire record accounts for so many bytes of the stream.\<close>

definition is_frame :: "wl_frame \<Rightarrow> bool" where "is_frame f \<longleftrightarrow> (\<exists>ty body. fr_bytes f = derp_frame ty body)"

definition wire_data :: "(wl_frame \<times> nat) list \<Rightarrow> bytes" where "wire_data w = concat (map (\<lambda>e. take (snd e) (fr_bytes (fst e))) w)"

text \<open>The writer past its checks set out on this connection; its frame is the last on the wire.\<close>

definition writer_ok :: "derp_wl \<Rightarrow> nat \<Rightarrow> bool" where
  "writer_ok s t \<longleftrightarrow> (\<forall>f. the_frame (wl_pc s t) = Some f \<longrightarrow> fr_gen f = of_nat (fr_set_out f) \<and> fr_set_out f \<le> wl_news s \<and> is_frame f) \<and>
     (\<forall>f. wl_pc s t = WSelect f \<longrightarrow> fr_set_out f = wl_news s) \<and>
     (\<forall>f k. (wl_pc s t = WHeld2 f \<or> wl_pc s t = WSelect f) \<and> wl_tls s = Some k \<longrightarrow> wl_wire s k = [] \<or> whole (last (wl_wire s k))) \<and>
     (\<forall>f n k. in_frame (wl_pc s t) = Some (f, n) \<and> wl_tls s = Some k \<longrightarrow> wl_wire s k \<noteq> [] \<and> last (wl_wire s k) = (f, n) \<and> n < length (fr_bytes f))"

definition stream_ok :: "derp_wl \<Rightarrow> nat \<Rightarrow> bool" where
  "stream_ok s k \<longleftrightarrow> wire_ok (wl_wire s k) \<and> wl_out s k = wire_data (wl_wire s k) \<and> (\<forall>e \<in> set (wl_wire s k). fr_set_out (fst e) = wl_born s k \<and> is_frame (fst e))"

definition wire_inv :: "derp_wl \<Rightarrow> bool" where
  "wire_inv s \<longleftrightarrow> (\<forall>k. stream_ok s k) \<and>
     (\<forall>k. wl_tls s = Some k \<and> wl_connected s \<and> wl_wire s k \<noteq> [] \<and> \<not> whole (last (wl_wire s k)) \<longrightarrow>
        (\<exists>t. wl_lock s = Some t \<and> (in_frame (wl_pc s t) = Some (last (wl_wire s k)) \<or> wl_pc s t = WFailed \<or> wl_pc s t = WFailed2)))"

definition wl_inv :: "derp_wl \<Rightarrow> bool" where
  "wl_inv s \<longleftrightarrow> sup_ok s \<and> lock_ok s \<and> conn_ok s \<and> (\<forall>t. writer_ok s t) \<and> wire_inv s"

lemma wl_inv_init: "wl_inv wl_init"
  by (simp add: wl_inv_def wl_init_def sup_ok_def lock_ok_def conn_ok_def writer_ok_def wire_inv_def stream_ok_def wire_data_def wire_ok_def)

lemma bump_last_eq: "w \<noteq> [] \<Longrightarrow> last w = (f, n) \<Longrightarrow> bump_last m w = butlast w @ [(f, n + m)]"
  by (induction m w rule: bump_last.induct) auto

lemma goto_fields [simp]:
  "wl_sup (goto t p s) = wl_sup s" "wl_tls (goto t p s) = wl_tls s" "wl_gen (goto t p s) = wl_gen s" "wl_news (goto t p s) = wl_news s" "wl_opens (goto t p s) = wl_opens s"
  "wl_born (goto t p s) = wl_born s" "wl_connected (goto t p s) = wl_connected s" "wl_lock (goto t p s) = wl_lock s" "wl_wire (goto t p s) = wl_wire s"
  "wl_pc (goto t p s) = (wl_pc s)(t := p)" "wl_out (goto t p s) = wl_out s"
  by (simp_all add: goto_def)

lemma begin_fields [simp]:
  "wl_sup (begin_frame t f s) = wl_sup s" "wl_tls (begin_frame t f s) = wl_tls s" "wl_gen (begin_frame t f s) = wl_gen s" "wl_news (begin_frame t f s) = wl_news s"
  "wl_opens (begin_frame t f s) = wl_opens s" "wl_born (begin_frame t f s) = wl_born s" "wl_connected (begin_frame t f s) = wl_connected s" "wl_lock (begin_frame t f s) = wl_lock s"
  "wl_pc (begin_frame t f s) = (wl_pc s)(t := WPoll f 0)"
  "wl_wire (begin_frame t f s) = (case wl_tls s of None \<Rightarrow> wl_wire s | Some k \<Rightarrow> (wl_wire s)(k := wl_wire s k @ [(f, 0)]))"
  "wl_out (begin_frame t f s) = wl_out s"
  by (simp_all add: begin_frame_def)

lemma put_fields [simp]:
  "wl_sup (wl_put_bytes t f n m s) = wl_sup s" "wl_tls (wl_put_bytes t f n m s) = wl_tls s" "wl_gen (wl_put_bytes t f n m s) = wl_gen s" "wl_news (wl_put_bytes t f n m s) = wl_news s"
  "wl_opens (wl_put_bytes t f n m s) = wl_opens s" "wl_born (wl_put_bytes t f n m s) = wl_born s" "wl_connected (wl_put_bytes t f n m s) = wl_connected s" "wl_lock (wl_put_bytes t f n m s) = wl_lock s"
  "wl_pc (wl_put_bytes t f n m s) = (wl_pc s)(t := if n + m = length (fr_bytes f) then WGive else WPoll f (n + m))"
  "wl_wire (wl_put_bytes t f n m s) = (case wl_tls s of None \<Rightarrow> wl_wire s | Some k \<Rightarrow> (wl_wire s)(k := bump_last m (wl_wire s k)))"
  "wl_out (wl_put_bytes t f n m s) = (case wl_tls s of None \<Rightarrow> wl_out s | Some k \<Rightarrow> (wl_out s)(k := wl_out s k @ take m (drop n (fr_bytes f))))"
  by (simp_all add: wl_put_bytes_def)

text \<open>What one step of a writer leaves alone, and what it does to the lock and the connection flag.\<close>

lemma write_frame:
  assumes "wl_write t s s'"
  shows "wl_sup s' = wl_sup s \<and> wl_tls s' = wl_tls s \<and> wl_gen s' = wl_gen s \<and> wl_news s' = wl_news s \<and> wl_opens s' = wl_opens s \<and> wl_born s' = wl_born s \<and>
    (\<forall>u. u \<noteq> t \<longrightarrow> wl_pc s' u = wl_pc s u) \<and> (wl_connected s' \<longrightarrow> wl_connected s)"
  using assms by cases (simp_all add: wl_start_def)

lemma write_lock:
  assumes "wl_write t s s'"
  shows "wl_lock s' = wl_lock s \<and> holds_lock (wl_pc s' t) = holds_lock (wl_pc s t) \<or>
    wl_lock s = None \<and> wl_lock s' = Some t \<and> holds_lock (wl_pc s' t) \<and> \<not> holds_lock (wl_pc s t) \<or>
    wl_lock s' = None \<and> holds_lock (wl_pc s t) \<and> \<not> holds_lock (wl_pc s' t)"
  using assms by cases (simp_all add: wl_start_def)

lemma write_uses:
  assumes "wl_write t s s'" "uses_conn (wl_pc s' t)"
  shows "uses_conn (wl_pc s t) \<or> wl_connected s"
  using assms by cases (simp_all add: wl_start_def split: if_splits)

lemma write_wire:
  assumes "wl_write t s s'"
  shows "wl_wire s' = wl_wire s \<and> wl_out s' = wl_out s \<or>
    (\<exists>f. begin_frame t f s = s' \<and> (wl_pc s t = WHeld2 f \<and> wl_gen s = fr_gen f \<or> wl_pc s t = WSelect f)) \<or>
    (\<exists>f n m. wl_put_bytes t f n m s = s' \<and> wl_pc s t = WPut f n \<and> 0 < m \<and> n + m \<le> length (fr_bytes f))"
  using assms by cases (auto simp: wl_start_def)

lemma write_sup_ok:
  assumes "wl_write t s s'" "sup_ok s" "t = 0 \<longrightarrow> wl_sup s = SRun" "conn_ok s"
  shows "sup_ok s'"
proof -
  have f: "wl_sup s' = wl_sup s" "wl_tls s' = wl_tls s" "wl_gen s' = wl_gen s" "wl_news s' = wl_news s" "wl_opens s' = wl_opens s" "wl_born s' = wl_born s"
    "\<And>u. u \<noteq> t \<Longrightarrow> wl_pc s' u = wl_pc s u" "wl_connected s' \<Longrightarrow> wl_connected s" using write_frame [OF assms(1)] by simp_all
  have "\<forall>k \<ge> wl_opens s. wl_wire s' k = []"
    using write_wire [OF assms(1)] assms(2) by (auto simp: sup_ok_def split: option.splits)
  moreover have "wl_sup s = SLogin \<longrightarrow> wl_wire s' = wl_wire s"
  proof
    assume "wl_sup s = SLogin"
    then have "\<not> uses_conn (wl_pc s t)" using assms(4) unfolding conn_ok_def by auto
    then show "wl_wire s' = wl_wire s" using write_wire [OF assms(1)] by auto
  qed
  moreover have "wl_pc s' 0 \<noteq> WIdle \<longrightarrow> wl_sup s = SRun" using f(7) [of 0] assms(2,3) unfolding sup_ok_def by metis
  ultimately show ?thesis using f(1-6,8) assms(2) unfolding sup_ok_def by simp
qed

lemma write_lock_ok:
  assumes "wl_write t s s'" "lock_ok s" "t = 0 \<longrightarrow> wl_sup s = SRun"
  shows "lock_ok s'"
proof -
  have f: "wl_sup s' = wl_sup s" "wl_tls s' = wl_tls s" "wl_gen s' = wl_gen s" "wl_news s' = wl_news s" "wl_opens s' = wl_opens s" "wl_born s' = wl_born s"
    "\<And>u. u \<noteq> t \<Longrightarrow> wl_pc s' u = wl_pc s u" "wl_connected s' \<Longrightarrow> wl_connected s" using write_frame [OF assms(1)] by simp_all
  have d: "\<not> (t = 0 \<and> wl_sup s \<in> {SDestroy, SGive})" using assms(3) by auto
  have ht: "holds_lock (wl_pc s t) \<longleftrightarrow> wl_lock s = Some t" using assms(2) d unfolding lock_ok_def by blast
  have hu: "holds_lock (wl_pc s' u) \<longleftrightarrow> wl_lock s = Some u \<and> \<not> (u = 0 \<and> wl_sup s \<in> {SDestroy, SGive})" if "u \<noteq> t" for u
    using assms(2) f(7) [OF that] unfolding lock_ok_def by simp
  have sd: "wl_sup s \<in> {SDestroy, SGive} \<longrightarrow> wl_lock s = Some 0" using assms(2) unfolding lock_ok_def by blast
  from write_lock [OF assms(1)] show ?thesis
  proof (elim disjE conjE)
    assume same: "wl_lock s' = wl_lock s" "holds_lock (wl_pc s' t) = holds_lock (wl_pc s t)"
    then show ?thesis unfolding lock_ok_def f(1) using ht hu d sd by metis
  next
    assume take: "wl_lock s = None" "wl_lock s' = Some t" "holds_lock (wl_pc s' t)"
    have "holds_lock (wl_pc s' u) \<longleftrightarrow> Some t = Some u \<and> \<not> (u = 0 \<and> wl_sup s \<in> {SDestroy, SGive})" for u
      using hu [of u] take d by (cases "u = t") auto
    moreover have "wl_sup s \<notin> {SDestroy, SGive}" using sd take by auto
    ultimately show ?thesis unfolding lock_ok_def f(1) take(2) by blast
  next
    assume give: "wl_lock s' = None" "holds_lock (wl_pc s t)" "\<not> holds_lock (wl_pc s' t)"
    then have l: "wl_lock s = Some t" using ht by blast
    have "\<not> holds_lock (wl_pc s' u)" for u using hu [of u] l give(3) by (cases "u = t") auto
    moreover have "wl_sup s \<notin> {SDestroy, SGive}" using sd l d by auto
    ultimately show ?thesis unfolding lock_ok_def f(1) give(1) by blast
  qed
qed

lemma write_conn_ok:
  assumes "wl_write t s s'" "conn_ok s" "sup_ok s"
  shows "conn_ok s'"
proof -
  have f: "wl_sup s' = wl_sup s" "wl_tls s' = wl_tls s" "wl_gen s' = wl_gen s" "wl_news s' = wl_news s" "wl_opens s' = wl_opens s" "wl_born s' = wl_born s"
    "\<And>u. u \<noteq> t \<Longrightarrow> wl_pc s' u = wl_pc s u" "wl_connected s' \<Longrightarrow> wl_connected s" using write_frame [OF assms(1)] by simp_all
  have "wl_sup s \<in> {SRun, SGrace, SCut} \<and> wl_tls s \<noteq> None" if "uses_conn (wl_pc s' u)" for u
  proof (cases "u = t")
    case True
    then have "uses_conn (wl_pc s t) \<or> wl_connected s" using write_uses [OF assms(1)] that by blast
    then show ?thesis using assms(2,3) unfolding conn_ok_def sup_ok_def by blast
  next
    case False
    then show ?thesis using that f(7) [OF False] assms(2) unfolding conn_ok_def by metis
  qed
  then show ?thesis unfolding conn_ok_def f(1,2) by blast
qed

lemma wire_ok_snoc: "wire_ok w \<Longrightarrow> w = [] \<or> whole (last w) \<Longrightarrow> n \<le> length (fr_bytes f) \<Longrightarrow> wire_ok (w @ [(f, n)])"
  by (cases w rule: rev_cases) (auto simp: wire_ok_def butlast_append)

lemma wire_ok_last: "wire_ok w \<Longrightarrow> n \<le> length (fr_bytes f) \<Longrightarrow> wire_ok (butlast w @ [(f, n)])"
  by (cases w rule: rev_cases) (auto simp: wire_ok_def whole_def)

lemma same_conn:
  assumes "sup_ok s" "writer_ok s t" "wl_pc s t = WHeld2 f \<and> wl_gen s = fr_gen f \<or> wl_pc s t = WSelect f" "wl_news s < 2 ^ 32"
  shows "fr_set_out f = wl_news s"
proof (cases "wl_pc s t = WSelect f")
  case False
  then have g: "of_nat (wl_news s) = (of_nat (fr_set_out f) :: u32)" "fr_set_out f \<le> wl_news s" using assms by (auto simp: sup_ok_def writer_ok_def)
  then have "unat (of_nat (wl_news s) :: u32) = unat (of_nat (fr_set_out f) :: u32)" by simp
  then show ?thesis using g(2) assms(4) by (simp add: unat_of_nat)
qed (use assms(2) in \<open>simp add: writer_ok_def\<close>)

lemma held_clean:
  assumes "wl_inv s" "wl_pc s t = WHeld f" "wl_connected s" "wl_tls s = Some k"
  shows "wl_wire s k = [] \<or> whole (last (wl_wire s k))"
proof (rule ccontr)
  assume "\<not> ?thesis"
  then obtain t0 where t0: "wl_lock s = Some t0" "in_frame (wl_pc s t0) = Some (last (wl_wire s k)) \<or> wl_pc s t0 = WFailed \<or> wl_pc s t0 = WFailed2"
    using assms unfolding wl_inv_def wire_inv_def by blast
  have "holds_lock (wl_pc s t)" using assms(2) by simp
  then have "t0 = t" using t0(1) assms(1) unfolding wl_inv_def lock_ok_def by (metis option.inject)
  then show False using t0(2) assms(2) by simp
qed

lemma frame_nonempty: "is_frame f \<Longrightarrow> fr_bytes f \<noteq> []"
  by (auto simp: is_frame_def dest: arg_cong [of _ _ length])

lemma write_self_ok:
  assumes "wl_write t s s'" "wl_inv s" "wl_news s < 2 ^ 32"
  shows "writer_ok s' t"
proof -
  have w: "writer_ok s t" and so: "sup_ok s" using assms(2) by (auto simp: wl_inv_def)
  from assms(1) show ?thesis
  proof cases
    case (w_start ty key payload no_wait)
    then show ?thesis using so by (auto simp: writer_ok_def wl_start_def sup_ok_def is_frame_def)
  next
    case (w_held f)
    then show ?thesis using w held_clean [OF assms(2), of t f] by (auto simp: writer_ok_def)
  next
    case (w_held2 f)
    then show ?thesis using w same_conn [OF so w _ assms(3), of f] by (auto simp: writer_ok_def frame_nonempty)
  next
    case (w_select f writable)
    then show ?thesis using w by (auto simp: writer_ok_def frame_nonempty)
  next
    case (w_put f n m)
    then show ?thesis using w by (auto simp: writer_ok_def bump_last_eq)
  qed (use w in \<open>auto simp: writer_ok_def\<close>)
qed

lemma write_other_ok:
  assumes "wl_write t s s'" "wl_inv s" "u \<noteq> t"
  shows "writer_ok s' u"
proof -
  have w: "writer_ok s u" and l: "lock_ok s" using assms(2) by (auto simp: wl_inv_def)
  have f: "wl_tls s' = wl_tls s" "wl_news s' = wl_news s" "wl_pc s' u = wl_pc s u" using write_frame [OF assms(1)] assms(3) by simp_all
  show ?thesis
  proof (cases "holds_lock (wl_pc s u)")
    case True
    then have "\<not> holds_lock (wl_pc s t)" using l assms(3) unfolding lock_ok_def by (metis option.inject)
    then have x: "wl_wire s' = wl_wire s" using write_wire [OF assms(1)] by auto
    show ?thesis using w unfolding writer_ok_def f x .
  next
    case False
    then have "in_frame (wl_pc s u) = None" "\<And>f. wl_pc s u \<noteq> WHeld2 f" "\<And>f. wl_pc s u \<noteq> WSelect f" by (cases "wl_pc s u"; simp)+
    then show ?thesis using w f unfolding writer_ok_def by simp
  qed
qed

lemma stream_begin:
  assumes "stream_ok s k" "wl_tls s = Some k" "wl_wire s k = [] \<or> whole (last (wl_wire s k))" "fr_set_out f = wl_born s k" "is_frame f"
  shows "stream_ok (begin_frame t f s) k"
  using assms wire_ok_snoc [of "wl_wire s k" 0 f] by (auto simp: stream_ok_def wire_data_def)

lemma stream_put:
  assumes "stream_ok s k" "wl_tls s = Some k" "wl_wire s k \<noteq> []" "last (wl_wire s k) = (f, n)" "n + m \<le> length (fr_bytes f)"
  shows "stream_ok (wl_put_bytes t f n m s) k"
proof -
  have w: "wl_wire s k = butlast (wl_wire s k) @ [(f, n)]" using append_butlast_last_id [OF assms(3)] assms(4) by simp
  have e: "fr_set_out f = wl_born s k \<and> is_frame f" using last_in_set [OF assms(3)] assms(1,4) by (fastforce simp: stream_ok_def)
  have o: "wl_out s k = wire_data (butlast (wl_wire s k)) @ take n (fr_bytes f)"
    using assms(1) arg_cong [OF w, of wire_data] by (simp add: stream_ok_def wire_data_def)
  have "wl_out (wl_put_bytes t f n m s) k = wire_data (wl_wire (wl_put_bytes t f n m s) k)"
    using assms(2,3,4) by (simp add: bump_last_eq o wire_data_def take_add)
  moreover have "\<forall>x \<in> set (butlast (wl_wire s k)). fr_set_out (fst x) = wl_born s k \<and> is_frame (fst x)" using assms(1) by (auto simp: stream_ok_def dest: in_set_butlastD)
  ultimately show ?thesis using assms e wire_ok_last [of "wl_wire s k" "n + m" f] by (simp add: stream_ok_def bump_last_eq)
qed

lemma stream_same: "stream_ok s k \<Longrightarrow> wl_wire s' k = wl_wire s k \<Longrightarrow> wl_out s' k = wl_out s k \<Longrightarrow> wl_born s' k = wl_born s k \<Longrightarrow> stream_ok s' k"
  by (simp add: stream_ok_def)

lemma write_stream_ok:
  assumes "wl_write t s s'" "wl_inv s" "wl_news s < 2 ^ 32"
  shows "stream_ok s' k"
proof -
  have w: "writer_ok s t" and so: "sup_ok s" and i: "stream_ok s k" using assms(2) by (auto simp: wl_inv_def wire_inv_def)
  have b: "wl_born s' k = wl_born s k" using write_frame [OF assms(1)] by simp
  from write_wire [OF assms(1)] consider "wl_wire s' = wl_wire s \<and> wl_out s' = wl_out s"
    | f where "begin_frame t f s = s'" "wl_pc s t = WHeld2 f \<and> wl_gen s = fr_gen f \<or> wl_pc s t = WSelect f"
    | f n m where "wl_put_bytes t f n m s = s'" "wl_pc s t = WPut f n" "n + m \<le> length (fr_bytes f)" by blast
  then show ?thesis
  proof cases
    case 1
    then show ?thesis using stream_same [OF i] b by simp
  next
    case (2 f)
    show ?thesis
    proof (cases "wl_tls s = Some k")
      case True
      have "fr_set_out f = wl_born s k" using same_conn [OF so w 2(2) assms(3)] so True by (simp add: sup_ok_def)
      moreover have "wl_wire s k = [] \<or> whole (last (wl_wire s k))" "is_frame f" using w 2(2) True unfolding writer_ok_def by auto
      ultimately show ?thesis using stream_begin [OF i True] 2(1) by blast
    next
      case False
      then show ?thesis using 2(1) by (intro stream_same [OF i _ _ b]) (auto split: option.split)
    qed
  next
    case (3 f n m)
    show ?thesis
    proof (cases "wl_tls s = Some k")
      case True
      then have "wl_wire s k \<noteq> []" "last (wl_wire s k) = (f, n)" using w 3(2) by (auto simp: writer_ok_def)
      then show ?thesis using stream_put [OF i True _ _ 3(3)] 3(1) by blast
    next
      case False
      then show ?thesis using 3(1) by (intro stream_same [OF i _ _ b]) (auto split: option.split)
    qed
  qed
qed

lemma write_tail:
  assumes "wl_write t s s'" "wl_inv s" "t = 0 \<longrightarrow> wl_sup s = SRun" "wl_tls s = Some k" "wl_connected s'" "wl_wire s' k \<noteq> []" "\<not> whole (last (wl_wire s' k))"
  shows "\<exists>t. wl_lock s' = Some t \<and> (in_frame (wl_pc s' t) = Some (last (wl_wire s' k)) \<or> wl_pc s' t = WFailed \<or> wl_pc s' t = WFailed2)"
proof -
  have lk: "holds_lock (wl_pc s t) \<Longrightarrow> wl_lock s = Some t" using assms(2) unfolding wl_inv_def lock_ok_def by blast
  have new: ?thesis if "begin_frame t f s = s'" "wl_pc s t = WHeld2 f \<or> wl_pc s t = WSelect f" for f
  proof -
    have "wl_lock s' = Some t" using that lk by auto
    then show ?thesis using that(1) assms(4) by (intro exI [of _ t]) auto
  qed
  have put: ?thesis if b: "wl_put_bytes t f n m s = s'" "wl_pc s t = WPut f n" for f n m
  proof -
    have "writer_ok s t" using assms(2) by (simp add: wl_inv_def)
    then have l: "wl_wire s k \<noteq> []" "last (wl_wire s k) = (f, n)" using b(2) assms(4) by (auto simp: writer_ok_def)
    have "wl_lock s' = Some t" using b lk by auto
    then show ?thesis using b(1) assms(4,7) l by (intro exI [of _ t]) (auto simp: whole_def bump_last_eq)
  qed
  from write_wire [OF assms(1)] show ?thesis
  proof (elim disjE exE conjE)
    assume x: "wl_wire s' = wl_wire s"
    have "wl_connected s" using write_frame [OF assms(1)] assms(5) by blast
    then obtain u where u: "wl_lock s = Some u" "in_frame (wl_pc s u) = Some (last (wl_wire s k)) \<or> wl_pc s u = WFailed \<or> wl_pc s u = WFailed2"
      using assms(2,4,6,7) unfolding x wl_inv_def wire_inv_def by blast
    show ?thesis
    proof (cases "u = t")
      case False
      then have "\<not> holds_lock (wl_pc s t)" using lk u(1) by auto
      then have "wl_lock s' = wl_lock s" using write_lock [OF assms(1)] u(1) by auto
      moreover have "wl_pc s' u = wl_pc s u" using write_frame [OF assms(1)] False by blast
      ultimately show ?thesis using u unfolding x by metis
    next
      case True
      from assms(1) show ?thesis
      proof cases
        case (w_put f n m)
        then show ?thesis using put by simp
      qed (use u True assms(5) x in \<open>auto split: option.splits if_splits\<close>)
    qed
  qed (use new put in auto)
qed

lemma write_inv:
  assumes "wl_write t s s'" "wl_inv s" "t = 0 \<longrightarrow> wl_sup s = SRun" "wl_news s < 2 ^ 32"
  shows "wl_inv s'"
proof -
  have i: "sup_ok s" "lock_ok s" "conn_ok s" using assms(2) by (auto simp: wl_inv_def)
  have f: "wl_tls s' = wl_tls s" "wl_born s' = wl_born s" using write_frame [OF assms(1)] by simp_all
  have "writer_ok s' u" for u using write_self_ok [OF assms(1,2,4)] write_other_ok [OF assms(1,2)] by (cases "u = t") auto
  moreover have "wire_inv s'" unfolding wire_inv_def f using write_stream_ok [OF assms(1,2,4)] write_tail [OF assms(1-3)] by blast
  ultimately show ?thesis unfolding wl_inv_def
    using write_sup_ok [OF assms(1) i(1) assms(3) i(3)] write_lock_ok [OF assms(1) i(2) assms(3)] write_conn_ok [OF assms(1) i(3,1)] by blast
qed

lemma uses_holds: "uses_conn p \<Longrightarrow> holds_lock p"
  by (cases p) auto

lemma in_frame_uses: "in_frame p = Some e \<Longrightarrow> uses_conn p" "p = WHeld2 f \<Longrightarrow> uses_conn p" "p = WSelect f \<Longrightarrow> uses_conn p"
  by (cases p; simp)+

lemma supervise_inv:
  assumes "wl_supervise s s'" "wl_inv s"
  shows "wl_inv s'"
proof -
  have so: "sup_ok s" and lo: "lock_ok s" and co: "conn_ok s" and wo: "\<And>t. writer_ok s t" and wi: "wire_inv s" using assms(2) by (auto simp: wl_inv_def)
  have pc: "wl_pc s' = wl_pc s" using assms(1) by cases simp_all
  have zero: "wl_sup s \<noteq> SRun \<Longrightarrow> wl_pc s 0 = WIdle" using so unfolding sup_ok_def by blast
  have "sup_ok s'" using assms(1) by cases (use so in \<open>auto simp: sup_ok_def\<close>)
  moreover have "lock_ok s'"
    using assms(1) by cases (use lo zero in \<open>auto simp: lock_ok_def\<close>)
  moreover have idle: "\<not> uses_conn (wl_pc s t)" if "wl_sup s \<notin> {SRun, SGrace, SCut} \<or> wl_lock s = None" for t
    using that co uses_holds [of "wl_pc s t"] lo unfolding conn_ok_def lock_ok_def by fastforce
  moreover have "conn_ok s'"
    using assms(1) by cases (use co idle in \<open>auto simp: conn_ok_def\<close>)
  moreover have "writer_ok s' t" for t
  proof (cases "uses_conn (wl_pc s t)")
    case True
    then have a: "wl_sup s \<in> {SRun, SGrace, SCut}" "wl_lock s \<noteq> None" using idle by blast+
    have "wl_tls s' = wl_tls s \<and> wl_news s' = wl_news s \<and> wl_wire s' = wl_wire s" using assms(1) by cases (use a in simp_all)
    then have e: "wl_tls s' = wl_tls s" "wl_news s' = wl_news s" "wl_wire s' = wl_wire s" by simp_all
    show ?thesis using wo [of t] unfolding writer_ok_def pc e .
  next
    case False
    have "wl_news s \<le> wl_news s'" using assms(1) by cases auto
    moreover have "\<And>f. wl_pc s t \<noteq> WHeld2 f" "\<And>f. wl_pc s t \<noteq> WSelect f" "in_frame (wl_pc s t) = None"
      using False in_frame_uses by (metis not_None_eq)+
    ultimately show ?thesis using wo [of t] pc unfolding writer_ok_def by (auto intro: order_trans)
  qed
  moreover have "wire_inv s'"
    using assms(1) by cases (use wi so in \<open>auto simp: wire_inv_def stream_ok_def sup_ok_def wire_ok_def\<close>)
  ultimately show ?thesis unfolding wl_inv_def by blast
qed

lemma news_mono: "wl_step s s' \<Longrightarrow> wl_news s \<le> wl_news s'"
  by (erule wl_stepE; (drule write_frame, simp | erule wl_supervise.cases, simp_all))

lemma reach_wl_inv: "wl_reach s \<Longrightarrow> wl_news s < 2 ^ 32 \<Longrightarrow> wl_inv s"
proof (induction rule: wl_reach.induct)
  case wl_begin
  show ?case by (rule wl_inv_init)
next
  case (wl_next s s')
  have n: "wl_news s < 2 ^ 32" using news_mono [OF wl_next.hyps(2)] wl_next.prems by simp
  then have i: "wl_inv s" by (rule wl_next.IH)
  from wl_next.hyps(2) show ?case
  proof cases
    case (step_writer t)
    then show ?thesis using write_inv [OF _ i _ n] by blast
  next
    case step_pong
    then show ?thesis using write_inv [OF _ i _ n] by blast
  qed (rule supervise_inv [OF _ i])
qed

section \<open>The properties\<close>

text \<open>C5: Frames on the relay connection never mix, and nothing follows a broken one.  In every interleaving of any number of writers with the
  supervisor's pongs, connects and closes (below \<open>2 ^ 32\<close> connects), for each TLS context: the byte stream the write
  calls put on it is the frames begun on it, in the order in which they were begun, every one of them whole except that the last may be cut
  (its first so many bytes are out); each of them is a header with its body and was written on the connection
  it set out for; a task that touches the TLS context finds it alive and is alone in doing so;
  and while the connection takes frames and the lock is free, no frame is cut.\<close>

theorem derp_frames_never_mix:
  assumes "wl_reach s" "wl_news s < 2 ^ 32"
  shows "wl_out s k = concat (map (\<lambda>e. take (snd e) (fr_bytes (fst e))) (wl_wire s k)) \<and>
    (\<forall>e \<in> set (butlast (wl_wire s k)). snd e = length (fr_bytes (fst e))) \<and>
    (\<forall>e \<in> set (wl_wire s k). snd e \<le> length (fr_bytes (fst e)) \<and> fr_set_out (fst e) = wl_born s k \<and> (\<exists>ty body. fr_bytes (fst e) = derp_frame ty body)) \<and>
    (uses_conn (wl_pc s t) \<and> uses_conn (wl_pc s u) \<longrightarrow> t = u \<and> wl_lock s = Some t \<and> wl_tls s \<noteq> None \<and> wl_sup s \<noteq> SDestroy) \<and>
    (wl_tls s = Some k \<and> wl_connected s \<and> wl_lock s = None \<longrightarrow> (\<forall>e \<in> set (wl_wire s k). snd e = length (fr_bytes (fst e))))"
proof (intro conjI impI)
  have i: "wl_inv s" by (rule reach_wl_inv [OF assms])
  then have st: "stream_ok s k" and w: "wire_ok (wl_wire s k)" by (auto simp: wl_inv_def wire_inv_def stream_ok_def)
  show "wl_out s k = concat (map (\<lambda>e. take (snd e) (fr_bytes (fst e))) (wl_wire s k))" using st by (simp add: stream_ok_def wire_data_def)
  show "\<forall>e \<in> set (butlast (wl_wire s k)). snd e = length (fr_bytes (fst e))" using w by (simp add: wire_ok_def whole_def)
  show "\<forall>e \<in> set (wl_wire s k). snd e \<le> length (fr_bytes (fst e)) \<and> fr_set_out (fst e) = wl_born s k \<and> (\<exists>ty body. fr_bytes (fst e) = derp_frame ty body)"
    using st by (simp add: stream_ok_def wire_ok_def is_frame_def)
  {
    assume u: "uses_conn (wl_pc s t) \<and> uses_conn (wl_pc s u)"
    then have "wl_lock s = Some t" "wl_lock s = Some u" using i uses_holds unfolding wl_inv_def lock_ok_def by blast+
    then show "t = u" "wl_lock s = Some t" by simp_all
    have "wl_sup s \<in> {SRun, SGrace, SCut}" "wl_tls s \<noteq> None" using i u unfolding wl_inv_def conn_ok_def by blast+
    then show "wl_tls s \<noteq> None" "wl_sup s \<noteq> SDestroy" by auto
  }
  assume a: "wl_tls s = Some k \<and> wl_connected s \<and> wl_lock s = None"
  then have "wl_wire s k = [] \<or> whole (last (wl_wire s k))" using i unfolding wl_inv_def wire_inv_def by (metis option.distinct(1))
  then show "\<forall>e \<in> set (wl_wire s k). snd e = length (fr_bytes (fst e))"
    using w append_butlast_last_id [of "wl_wire s k"] unfolding wire_ok_def whole_def by (metis Un_iff empty_iff empty_set set_ConsD set_append)
qed

text \<open>How many steps the holder of the lock takes at most until it gives it back, once the connection is closing.\<close>

fun steps_left :: "wpc \<Rightarrow> nat" where
  "steps_left (WHeld f) = 7"
| "steps_left (WHeld2 f) = 6"
| "steps_left (WSelect f) = 5"
| "steps_left (WPut f n) = 5"
| "steps_left (WPoll f n) = 4"
| "steps_left WFailed = 3"
| "steps_left WFailed2 = 2"
| "steps_left WGive = 1"
| "steps_left _ = 0"

lemma write_progress:
  assumes "wl_write t s s'" "holds_lock (wl_pc s t)" "\<not> wl_connected s"
  shows "steps_left (wl_pc s' t) < steps_left (wl_pc s t)"
  using assms(1) by cases (use assms(2,3) in simp_all)

text \<open>C36: A close always gets the lock.  In every reachable state in which the supervisor is closing and a writer holds the lock: every
  step of that writer brings it strictly closer to giving the lock back, at most seven steps in all, whatever the
  transport answers; no step of anyone else moves it away from there or takes the lock from it; and no step sets the
  connection up again before the close has the lock.\<close>

theorem derp_close_gets_lock:
  assumes "wl_reach s" "wl_news s < 2 ^ 32" "wl_sup s = SGrace \<or> wl_sup s = SCut" "wl_lock s = Some t" "wl_step s s'"
  shows "holds_lock (wl_pc s t) \<and> steps_left (wl_pc s t) \<le> 7 \<and> \<not> wl_connected s' \<and> (wl_sup s' = SGrace \<or> wl_sup s' = SCut) \<and>
    (steps_left (wl_pc s' t) < steps_left (wl_pc s t) \<or> wl_pc s' t = wl_pc s t \<and> wl_lock s' = Some t \<and> \<not> wl_write t s s') \<and>
    (steps_left (wl_pc s' t) = 0 \<longleftrightarrow> wl_lock s' = None)"
proof -
  have i: "wl_inv s" by (rule reach_wl_inv [OF assms(1,2)])
  have c: "\<not> wl_connected s" using i assms(3) by (auto simp: wl_inv_def sup_ok_def)
  have l: "lock_ok s" using i by (simp add: wl_inv_def)
  have "wl_sup s \<notin> {SDestroy, SGive}" using assms(3) by auto
  then have h: "holds_lock (wl_pc s t)" using l assms(4) unfolding lock_ok_def by blast
  have z: "holds_lock p \<longleftrightarrow> 0 < steps_left p" for p by (cases p) auto
  have seven: "steps_left p \<le> 7" for p by (cases p) auto
  have sup: "\<not> wl_connected s' \<and> (wl_sup s' = SGrace \<or> wl_sup s' = SCut)"
    using assms(5)
  proof cases
    case step_sup
    then show ?thesis by cases (use c assms(3,4) in auto)
  qed (use write_frame c assms(3) in \<open>metis+\<close>)
  have mine: "steps_left (wl_pc s' t) < steps_left (wl_pc s t) \<and> (steps_left (wl_pc s' t) = 0 \<longleftrightarrow> wl_lock s' = None)" if "wl_write t s s'"
    using write_progress [OF that h c] write_lock [OF that] z h assms(4) by auto
  have other: "wl_pc s' t = wl_pc s t \<and> wl_lock s' = Some t" if "wl_write u s s'" "u \<noteq> t" for u
  proof -
    have "wl_lock s \<noteq> Some u" using assms(4) that(2) by simp
    then have "\<not> holds_lock (wl_pc s u)" using l unfolding lock_ok_def by blast
    then show ?thesis using write_lock [OF that(1)] write_frame [OF that(1)] that(2) assms(4) by auto
  qed
  have stay: "wl_pc s' t = wl_pc s t \<and> wl_lock s' = Some t" if n: "\<not> wl_write t s s'"
    using assms(5)
  proof cases
    case (step_writer u)
    then show ?thesis using other n by blast
  next
    case step_pong
    then show ?thesis using assms(3) by auto
  next
    case step_sup
    then show ?thesis by cases (use assms(3,4) in auto)
  qed
  have "steps_left (wl_pc s' t) = 0 \<longleftrightarrow> wl_lock s' = None"
  proof (cases "wl_write t s s'")
    case False
    then show ?thesis using stay z h by auto
  qed (use mine in blast)
  then show ?thesis using h seven sup mine stay by blast
qed

section \<open>A bound on the feeds\<close>

text \<open>The waits of one call, in order: what each one does to the watchdog.\<close>

fun wl_waits :: "u32 \<Rightarrow> u32 list \<Rightarrow> u32 \<Rightarrow> wl_feed list" where
  "wl_waits waited [] fed_max_ms = []"
| "wl_waits waited (ms # rest) fed_max_ms = (case derp_wl_waited waited ms fed_max_ms of (waited1, a) \<Rightarrow> a # wl_waits waited1 rest fed_max_ms)"

lemma waits_quiet: "fed \<le> waited \<Longrightarrow> wl_waits waited ms fed = replicate (length ms) WlQuiet"
  by (induction ms) (simp_all add: derp_wl_waited_def)

text \<open>A wait is fed while its total stays below the limit; then it is reported once and never fed again, so a lock
  that is never given back ends in the watchdog.\<close>

lemma feeds_bounded:
  "waited \<le> fed \<Longrightarrow> \<exists>n. wl_waits waited ms fed = replicate n WlFeed @ (if n < length ms then (if waited < fed then WlOverdue fed else WlQuiet) # replicate (length ms - n - 1) WlQuiet else []) \<and>
    n \<le> length ms \<and> (0 < n \<longrightarrow> unat waited + sum_list (map unat (take n ms)) < unat fed)"
proof (induction ms arbitrary: waited)
  case (Cons m ms)
  show ?case
  proof (cases "waited < fed")
    case False
    then have "waited = fed" using Cons.prems by simp
    then show ?thesis using waits_quiet [of fed fed "m # ms"] by (intro exI [of _ 0]) simp
  next
    case True
    show ?thesis
    proof (cases "unat waited + unat m < unat fed")
      case fits: True
      have u: "unat (waited + m) = unat waited + unat m" using fits u32_bound [of fed] by (simp add: unat_word_ariths)
      have "unat (fed - waited) = unat fed - unat waited" using True by (simp add: unat_sub less_imp_le)
      then have a: "\<not> fed - waited < m" using fits by (simp add: word_less_nat_alt)
      have lt: "waited + m < fed" using fits u by (simp add: word_less_nat_alt)
      obtain n where n: "wl_waits (waited + m) ms fed = replicate n WlFeed @ (if n < length ms then WlOverdue fed # replicate (length ms - n - 1) WlQuiet else [])"
        "n \<le> length ms" "0 < n \<longrightarrow> unat (waited + m) + sum_list (map unat (take n ms)) < unat fed" using Cons.IH [OF less_imp_le [OF lt]] unfolding if_P [OF lt] by blast
      have "derp_wl_waited waited m fed = (waited + m, WlFeed)" using True a lt by (simp add: derp_wl_waited_def)
      then show ?thesis using n u fits True by (intro exI [of _ "Suc n"]) auto
    next
      case over: False
      have "derp_wl_waited waited m fed = (fed, WlOverdue fed)"
      proof -
        have s: "unat (fed - waited) = unat fed - unat waited" using True by (simp add: unat_sub less_imp_le)
        have "\<not> fed - waited < m \<Longrightarrow> waited + m = fed"
        proof -
          assume "\<not> fed - waited < m"
          then have "unat m = unat (fed - waited)" using over s by (simp add: word_less_nat_alt)
          then show "waited + m = fed" by (metis add_diff_cancel_left' diff_add_cancel unsigned_word_eqI add.commute)
        qed
        then show ?thesis using True by (auto simp: derp_wl_waited_def Let_def)
      qed
      then show ?thesis using waits_quiet [of fed fed ms] True by (intro exI [of _ 0]) simp
    qed
  qed
qed simp

section \<open>Witnesses\<close>

definition w_opened :: derp_wl where
  "w_opened = wl_init\<lparr>wl_connected := True, wl_gen := 1, wl_news := 1, wl_tls := Some 0, wl_opens := 1, wl_born := (wl_born wl_init)(0 := 1), wl_sup := SRun\<rparr>"

lemma w_opened_reach: "wl_reach w_opened"
proof -
  define s1 where "s1 = wl_init\<lparr>wl_connected := False, wl_sup := SNew\<rparr>"
  define s2 where "s2 = s1\<lparr>wl_gen := wl_gen s1 + 1, wl_news := wl_news s1 + 1, wl_tls := None, wl_sup := SOpen\<rparr>"
  define s3 where "s3 = s2\<lparr>wl_tls := Some (wl_opens s2), wl_opens := wl_opens s2 + 1, wl_born := (wl_born s2)(wl_opens s2 := wl_news s2), wl_sup := SLogin\<rparr>"
  have "wl_reach s1" unfolding s1_def by (rule wl_next [OF wl_begin step_sup [OF s_new]]) (simp add: wl_init_def)
  then have "wl_reach s2" unfolding s2_def by (rule wl_next) (rule step_sup [OF s_gen], simp add: s1_def)
  then have "wl_reach s3" unfolding s3_def by (rule wl_next) (rule step_sup [OF s_open], simp add: s2_def)
  then have "wl_reach (s3\<lparr>wl_connected := True, wl_sup := SRun\<rparr>)" by (rule wl_next) (rule step_sup [OF s_up], simp add: s3_def)
  moreover have "s3\<lparr>wl_connected := True, wl_sup := SRun\<rparr> = w_opened" by (simp add: s3_def s2_def s1_def w_opened_def wl_init_def)
  ultimately show ?thesis by simp
qed

text \<open>Two writers: the frame of the first is out and the lock given back; three bytes of the frame of the second are out.\<close>

lemma reach_writer: "wl_reach s \<Longrightarrow> t \<noteq> 0 \<Longrightarrow> wl_write t s s' \<Longrightarrow> wl_reach s'"
  by (rule wl_next [OF _ step_writer])

lemma goto_twice [simp]: "goto t p (goto t q s) = goto t p s"
  by (simp add: goto_def)

lemma reach_first_put:
  assumes "wl_reach s" "t \<noteq> 0" "wl_pc s t = WIdle" "wl_connected s" "wl_lock s = None"
    "f = \<lparr>fr_bytes = derp_frame ty ([] @ body), fr_no_wait = False, fr_gen = wl_gen s, fr_set_out = wl_news s\<rparr>" "0 < m" "m \<le> length (fr_bytes f)"
  shows "wl_reach ((wl_put_bytes t f 0 m (begin_frame t f s))\<lparr>wl_lock := Some t\<rparr>)"
proof -
  note n = reach_writer [OF _ assms(2)]
  have "wl_reach (goto t (WAdmit f) s)" using n [OF assms(1) w_start [OF assms(3), of ty "[]" body False]] by (simp add: wl_start_def assms(6))
  then have "wl_reach (goto t (WTake f) s)" using n [OF _ w_admit, of "goto t (WAdmit f) s" f] assms(4) by simp
  then have "wl_reach ((goto t (WHeld f) s)\<lparr>wl_lock := Some t\<rparr>)" using n [OF _ w_take, of "goto t (WTake f) s" f] assms(5) by simp
  then have "wl_reach (goto t (WHeld2 f) ((goto t (WHeld f) s)\<lparr>wl_lock := Some t\<rparr>))" using n [OF _ w_held, of _ f] assms(4) by fastforce
  then have "wl_reach (begin_frame t f (goto t (WHeld2 f) ((goto t (WHeld f) s)\<lparr>wl_lock := Some t\<rparr>)))"
    using n [OF _ w_held2, of "goto t (WHeld2 f) ((goto t (WHeld f) s)\<lparr>wl_lock := Some t\<rparr>)" f] by (simp add: assms(6))
  moreover have "begin_frame t f (goto t (WHeld2 f) ((goto t (WHeld f) s)\<lparr>wl_lock := Some t\<rparr>)) = (begin_frame t f s)\<lparr>wl_lock := Some t\<rparr>"
    by (cases s; cases "wl_tls s") (simp_all add: begin_frame_def goto_def)
  ultimately have "wl_reach ((begin_frame t f s)\<lparr>wl_lock := Some t\<rparr>)" by simp
  then have "wl_reach (goto t (WPut f 0) ((begin_frame t f s)\<lparr>wl_lock := Some t\<rparr>))" using n [OF _ w_poll, of "(begin_frame t f s)\<lparr>wl_lock := Some t\<rparr>" f 0] assms(4) by simp
  then have "wl_reach (wl_put_bytes t f 0 m (goto t (WPut f 0) ((begin_frame t f s)\<lparr>wl_lock := Some t\<rparr>)))"
    using n [OF _ w_put, of "goto t (WPut f 0) ((begin_frame t f s)\<lparr>wl_lock := Some t\<rparr>)" f 0 m] assms(7,8) by simp
  moreover have "wl_put_bytes t f 0 m (goto t (WPut f 0) ((begin_frame t f s)\<lparr>wl_lock := Some t\<rparr>)) = (wl_put_bytes t f 0 m (begin_frame t f s))\<lparr>wl_lock := Some t\<rparr>"
    by (cases s; cases "wl_tls s") (simp_all add: begin_frame_def wl_put_bytes_def goto_def)
  ultimately show ?thesis by simp
qed

definition w_fr :: wl_frame where "w_fr = \<lparr>fr_bytes = derp_frame 6 ([] @ []), fr_no_wait = False, fr_gen = 1, fr_set_out = 1\<rparr>"

definition w_fr2 :: wl_frame where "w_fr2 = \<lparr>fr_bytes = derp_frame 4 ([] @ [1, 2]), fr_no_wait = False, fr_gen = 1, fr_set_out = 1\<rparr>"

definition w_two :: derp_wl where
  "w_two = w_opened\<lparr>wl_lock := Some 2, wl_pc := (wl_pc w_opened)(2 := WPoll w_fr2 3), wl_wire := (wl_wire w_opened)(0 := [(w_fr, 5), (w_fr2, 3)]),
     wl_out := (wl_out w_opened)(0 := derp_frame 6 [] @ take 3 (derp_frame 4 [1, 2]))\<rparr>"

lemma w_two_reach: "wl_reach w_two"
proof -
  define a where "a = (wl_put_bytes 1 w_fr 0 5 (begin_frame 1 w_fr w_opened))\<lparr>wl_lock := Some 1\<rparr>"
  define b where "b = (goto 1 WIdle a)\<lparr>wl_lock := None\<rparr>"
  have "wl_reach a" unfolding a_def by (rule reach_first_put [OF w_opened_reach, where ty = 6 and body = "[]"]) (simp_all add: w_opened_def wl_init_def w_fr_def)
  then have b: "wl_reach b" unfolding b_def by (rule reach_writer [of _ 1]) (simp, rule w_give, simp add: a_def w_fr_def)
  have "wl_reach ((wl_put_bytes 2 w_fr2 0 3 (begin_frame 2 w_fr2 b))\<lparr>wl_lock := Some 2\<rparr>)"
    by (rule reach_first_put [OF b, where ty = 4 and body = "[1, 2]"]) (simp_all add: b_def a_def w_opened_def wl_init_def w_fr2_def)
  moreover have "(wl_put_bytes 2 w_fr2 0 3 (begin_frame 2 w_fr2 b))\<lparr>wl_lock := Some 2\<rparr> = w_two"
    by (simp add: b_def a_def w_two_def wl_put_bytes_def begin_frame_def goto_def w_opened_def wl_init_def w_fr_def w_fr2_def fun_eq_iff)
  ultimately show ?thesis by simp
qed

theorem derp_frames_never_mix_witness:
  "wl_wire w_two 0 = [(w_fr, 5), (w_fr2, 3)] \<and> wl_out w_two 0 = derp_frame 6 [] @ take 3 (derp_frame 4 [1, 2]) \<and>
   fr_set_out w_fr = wl_born w_two 0 \<and> fr_set_out w_fr2 = wl_born w_two 0 \<and> wl_lock w_two = Some 2 \<and> wl_tls w_two \<noteq> None"
proof -
  have "wl_wire w_two 0 = [(w_fr, 5), (w_fr2, 3)]" "wl_news w_two < 2 ^ 32" "wl_born w_two 0 = 1" "uses_conn (wl_pc w_two 2)" by (simp_all add: w_two_def w_opened_def)
  then show ?thesis using derp_frames_never_mix [OF w_two_reach, of 0 2 2] by (simp add: w_fr_def w_fr2_def)
qed

text \<open>A writer has the lock when the close begins.\<close>

definition w_closing :: derp_wl where
  "w_closing = w_opened\<lparr>wl_connected := False, wl_sup := SGrace, wl_lock := Some 1, wl_pc := (wl_pc w_opened)(1 := WHeld w_fr)\<rparr>"

lemma w_closing_reach: "wl_reach w_closing"
proof -
  define a where "a = goto 1 (WAdmit w_fr) w_opened"
  define b where "b = goto 1 (WTake w_fr) a"
  define c where "c = (goto 1 (WHeld w_fr) b)\<lparr>wl_lock := Some 1\<rparr>"
  have "wl_start 1 6 [] [] False w_opened = a" by (simp add: a_def wl_start_def w_fr_def w_opened_def)
  then have "wl_write 1 w_opened a" using w_start [of w_opened 1 6 "[]" "[]" False] by (simp add: w_opened_def wl_init_def)
  then have "wl_reach a" using wl_next [OF w_opened_reach] step_writer [of 1] by auto
  moreover have "wl_write 1 a b" using w_admit [of a 1 w_fr] by (simp add: a_def b_def w_opened_def)
  ultimately have "wl_reach b" using wl_next step_writer [of 1] by auto
  moreover have "wl_write 1 b c" unfolding c_def by (rule w_take) (simp_all add: b_def a_def w_opened_def wl_init_def)
  ultimately have "wl_reach c" using wl_next step_writer [of 1] by auto
  moreover have "wl_supervise c (c\<lparr>wl_connected := False, wl_sup := SGrace\<rparr>)" by (rule s_close) (simp_all add: c_def b_def a_def w_opened_def wl_init_def)
  moreover have "c\<lparr>wl_connected := False, wl_sup := SGrace\<rparr> = w_closing" by (simp add: c_def b_def a_def goto_def w_closing_def w_opened_def wl_init_def)
  ultimately show ?thesis using wl_next step_sup by metis
qed

theorem derp_close_gets_lock_witness:
  "steps_left (wl_pc (goto 1 WGive w_closing) 1) < steps_left (wl_pc w_closing 1)"
proof -
  have "wl_pc w_closing 1 = WHeld w_fr" by (simp add: w_closing_def)
  then have w: "wl_write 1 w_closing (goto 1 WGive w_closing)" using w_held [of w_closing 1 w_fr] by (simp add: w_closing_def)
  have "wl_news w_closing < 2 ^ 32" "wl_sup w_closing = SGrace \<or> wl_sup w_closing = SCut" "wl_lock w_closing = Some 1" by (simp_all add: w_closing_def w_opened_def)
  from derp_close_gets_lock [OF w_closing_reach this step_writer [OF _ w]] w show ?thesis by auto
qed

end
