(* ===== verification/Disco_Handler.thy ===== *)
theory Disco_Handler
  imports Disco
begin

unbundle bit_operations_syntax

text \<open>
  \<open>disco_handler.c\<close>: what is done with an incoming DISCO frame.  The optional output
  parameters of the C functions are the fields of a record, \<open>None\<close> where the code leaves the
  caller's variable alone; the random nonce \<open>esp_fill_random\<close> draws for the reply is an argument.
\<close>

section \<open>The code\<close>

definition DISCO_HANDLER_REPLY_MAX :: nat where "DISCO_HANDLER_REPLY_MAX = 128"
definition DISCO_PONG_PLAINTEXT_MAX :: nat where "DISCO_PONG_PLAINTEXT_MAX = 32"
definition DISCO_OPEN_PLAINTEXT_MAX :: nat where "DISCO_OPEN_PLAINTEXT_MAX = 256"

lemmas handler_lens [simp] = DISCO_HANDLER_REPLY_MAX_def DISCO_PONG_PLAINTEXT_MAX_def DISCO_OPEN_PLAINTEXT_MAX_def

record disco_out =
  out_reply :: "bytes option"
  out_type :: "u8 option"
  out_peer_disco_pub :: "bytes option"
  out_txid :: "bytes option"
  gated :: bool

definition no_out :: disco_out where
  "no_out = \<lparr>out_reply = None, out_type = None, out_peer_disco_pub = None, out_txid = None, gated = False\<rparr>"

record disco_peer_key_t =
  has_pub :: bool
  k_valid :: bool
  pk_pub :: bytes
  pk_k :: bytes

datatype disco_gate_t = DISCO_GATE_DROP | DISCO_GATE_K | DISCO_GATE_PRIV

definition disco_gate :: "bytes \<Rightarrow> disco_peer_key_t \<Rightarrow> disco_gate_t" where
  "disco_gate frame peer =
     (if \<not> has_pub peer then DISCO_GATE_PRIV
      else if length frame < DISCO_MAGIC_LEN + DISCO_KEY_LEN then DISCO_GATE_DROP
      else if bytes_at DISCO_MAGIC_LEN DISCO_KEY_LEN frame \<noteq> pk_pub peer then DISCO_GATE_DROP
      else if k_valid peer then DISCO_GATE_K else DISCO_GATE_PRIV)"

text \<open>\<open>shared_k = Some k\<close> is the cached box key; with \<open>None\<close> the private key is used.\<close>

definition finish_disco_recv :: "(bytes \<Rightarrow> bytes \<Rightarrow> bytes) \<Rightarrow> nat \<Rightarrow> bytes \<Rightarrow> bytes \<Rightarrow> bytes option \<Rightarrow> bytes \<Rightarrow> bytes \<Rightarrow> bytes \<Rightarrow> disco_out" where
  "finish_disco_recv x25519 out_cap pt peer_disco_pub shared_k my_disco_priv my_disco_pub nonce =
     (let ou = no_out\<lparr>out_peer_disco_pub := Some peer_disco_pub\<rparr>
      in case disco_parse pt of
           None \<Rightarrow> ou
         | Some msg \<Rightarrow>
             (case body msg of
                DISCO_CALLMEMAYBE es \<Rightarrow> ou\<lparr>out_type := Some DISCO_TYPE_CALLMEMAYBE\<rparr>
              | DISCO_PONG m \<Rightarrow> ou\<lparr>out_type := Some DISCO_TYPE_PONG, out_txid := Some (pong_txid m)\<rparr>
              | DISCO_PING m \<Rightarrow>
                  let ou = ou\<lparr>out_type := Some DISCO_TYPE_PING, out_txid := Some (ping_txid m)\<rparr>;
                      pong = \<lparr>pong_txid = ping_txid m, src_addr = replicate 16 0, src_port = 0\<rparr>
                  in case disco_encode_pong DISCO_PONG_PLAINTEXT_MAX pong of
                       None \<Rightarrow> ou
                     | Some inner \<Rightarrow>
                         ou\<lparr>out_reply := (case shared_k of
                               Some k \<Rightarrow> disco_seal_with_shared out_cap inner nonce my_disco_pub k
                             | None \<Rightarrow> disco_seal x25519 out_cap inner nonce my_disco_pub peer_disco_pub my_disco_priv)\<rparr>))"

definition disco_handle_recv :: "(bytes \<Rightarrow> bytes \<Rightarrow> bytes) \<Rightarrow> nat \<Rightarrow> bytes \<Rightarrow> bytes \<Rightarrow> bytes \<Rightarrow> bytes \<Rightarrow> disco_out" where
  "disco_handle_recv x25519 out_cap frame my_disco_priv my_disco_pub nonce =
     (if out_cap < DISCO_HANDLER_REPLY_MAX then no_out
      else if \<not> disco_looks_like frame then no_out
      else case disco_open x25519 DISCO_OPEN_PLAINTEXT_MAX frame my_disco_priv of
             None \<Rightarrow> no_out
           | Some (pt, peer_disco_pub) \<Rightarrow>
               if length pt = 0 then no_out
               else finish_disco_recv x25519 out_cap pt peer_disco_pub None my_disco_priv my_disco_pub nonce)"

definition disco_handle_recv_with_shared :: "(bytes \<Rightarrow> bytes \<Rightarrow> bytes) \<Rightarrow> nat \<Rightarrow> bytes \<Rightarrow> bytes \<Rightarrow> bytes \<Rightarrow> bytes \<Rightarrow> disco_out" where
  "disco_handle_recv_with_shared x25519 out_cap frame shared_k my_disco_pub nonce =
     (if out_cap < DISCO_HANDLER_REPLY_MAX then no_out
      else if \<not> disco_looks_like frame then no_out
      else case disco_open_with_shared DISCO_OPEN_PLAINTEXT_MAX frame shared_k of
             None \<Rightarrow> no_out
           | Some (pt, peer_disco_pub) \<Rightarrow>
               if length pt = 0 then no_out
               else finish_disco_recv x25519 out_cap pt peer_disco_pub (Some shared_k) [] my_disco_pub nonce)"

definition disco_handle_recv_from_peer :: "(bytes \<Rightarrow> bytes \<Rightarrow> bytes) \<Rightarrow> nat \<Rightarrow> bytes \<Rightarrow> disco_peer_key_t \<Rightarrow> bytes \<Rightarrow> bytes \<Rightarrow> bytes \<Rightarrow> disco_out" where
  "disco_handle_recv_from_peer x25519 out_cap frame peer my_disco_priv my_disco_pub nonce =
     (if \<not> disco_looks_like frame then no_out
      else case disco_gate frame peer of
             DISCO_GATE_DROP \<Rightarrow> no_out\<lparr>gated := True\<rparr>
           | DISCO_GATE_K \<Rightarrow> disco_handle_recv_with_shared x25519 out_cap frame (pk_k peer) my_disco_pub nonce
           | DISCO_GATE_PRIV \<Rightarrow> disco_handle_recv x25519 out_cap frame my_disco_priv my_disco_pub nonce)"

section \<open>The two ways to open and seal agree\<close>

lemma open_sender: "disco_open x cap frame priv = Some (pt, s) \<Longrightarrow> s = bytes_at 6 32 frame"
  by (auto simp: disco_open_def Let_def split: if_splits option.splits)

lemma disco_open_shared:
  assumes "box_beforenm x (bytes_at 6 32 frame) priv = Some k"
  shows "disco_open x cap frame priv = disco_open_with_shared cap frame k"
  using assms by (simp add: disco_open_def disco_open_with_shared_def nacl_box_open_def Let_def)

lemma disco_seal_shared:
  assumes "box_beforenm x pub priv = Some k"
  shows "disco_seal x cap pt nonce me pub priv = disco_seal_with_shared cap pt nonce me k"
  using assms by (simp add: disco_seal_def disco_seal_with_shared_def nacl_box_def)

lemma finish_shared:
  assumes "box_beforenm x pub priv = Some k"
  shows "finish_disco_recv x cap pt pub (Some k) priv' me nonce = finish_disco_recv x cap pt pub None priv me nonce"
  by (simp add: finish_disco_recv_def disco_seal_shared [OF assms] Let_def cong: option.case_cong disco_body.case_cong)

lemma handle_recv_shared:
  assumes "box_beforenm x (bytes_at 6 32 frame) priv = Some k"
  shows "disco_handle_recv_with_shared x cap frame k me nonce = disco_handle_recv x cap frame priv me nonce"
proof (cases "disco_open x 256 frame priv")
  case None
  then show ?thesis
    using disco_open_shared [OF assms, of 256] by (simp add: disco_handle_recv_def disco_handle_recv_with_shared_def)
next
  case (Some r)
  then obtain pt s where r: "disco_open x 256 frame priv = Some (pt, s)" by (cases r) simp
  have "box_beforenm x s priv = Some k" using assms open_sender [OF r] by simp
  then show ?thesis
    using r disco_open_shared [OF assms, of 256] finish_shared
    by (simp add: disco_handle_recv_def disco_handle_recv_with_shared_def)
qed

section \<open>Answering a ping\<close>

lemma pong_encoded:
  assumes "length t = 12"
  obtains inner where
    "disco_encode_pong 32 \<lparr>pong_txid = t, src_addr = replicate 16 0, src_port = 0\<rparr> = Some inner" "length inner = 32"
    "disco_parse inner = Some \<lparr>version = 0, body = DISCO_PONG \<lparr>pong_txid = t, src_addr = replicate 16 0, src_port = 0\<rparr>\<rparr>"
proof -
  let ?m = "\<lparr>pong_txid = t, src_addr = replicate 16 0, src_port = 0\<rparr>"
  obtain inner where i: "disco_encode_pong 32 ?m = Some inner" by (simp add: disco_encode_pong_def)
  moreover have "length inner = 32" using i assms by (auto simp: disco_encode_pong_def)
  moreover have "disco_parse inner = Some \<lparr>version = 0, body = DISCO_PONG ?m\<rparr>"
    using parse_pong [of ?m, OF _ i] assms by simp
  ultimately show ?thesis using that by blast
qed

lemma seal_opens:
  assumes "box_beforenm x b_pub a_priv = Some k" "box_beforenm x a_pub b_priv = Some k"
    "length a_pub = 32" "length nonce = 24" "length pt \<le> 256" "length pt \<le> pcap" "78 + length pt \<le> cap"
  obtains wire where "disco_seal x cap pt nonce a_pub b_pub a_priv = Some wire"
    "disco_open x pcap wire b_priv = Some (pt, a_pub)" "disco_looks_like wire"
proof -
  obtain box where box: "nacl_box_after_shared pt nonce k = Some box"
    using assms(5) by (simp add: nacl_box_after_shared_eq)
  let ?w = "disco_frame a_pub nonce box"
  have "disco_seal x cap pt nonce a_pub b_pub a_priv = Some ?w"
    using assms box by (simp add: disco_seal_shared [OF assms(1)] disco_seal_with_shared_def put_seal_header_frame)
  moreover have "disco_open x pcap ?w b_priv = Some (pt, a_pub)"
    unfolding disco_open_iff using assms box by (auto simp: nacl_box_def)
  ultimately show ?thesis using that disco_frame_fields(2) [OF assms(3,4)] by blast
qed

text \<open>A DISCO ping is answered: when the scalar multiplication commutes for the two parties
  and their box key exists, the handler given any frame its peer sealed around an encoded ping
  (with or without a node key, any padding up to the handler's limit) reports the ping, its
  transaction id and the peer's key, and its reply is a frame which the peer opens, from our key, to a
  pong that carries the ping's transaction id.\<close>

theorem disco_ping_answered:
  assumes "x25519 a_priv b_pub = x25519 b_priv a_pub" "nacl_box_compute_shared x25519 b_pub a_priv = Some k"
    "length a_pub = 32" "length b_pub = 32" "length n1 = 24" "length n2 = 24"
    "disco_body_ok (DISCO_PING m)" "disco_encode_ping cap1 m = Some pt" "length pt \<le> 256"
    "disco_seal x25519 cap2 pt n1 a_pub b_pub a_priv = Some frame" "128 \<le> out_cap"
  shows "\<exists>reply inner. disco_handle_recv x25519 out_cap frame b_priv b_pub n2 =
      \<lparr>out_reply = Some reply, out_type = Some DISCO_TYPE_PING, out_peer_disco_pub = Some a_pub,
       out_txid = Some (ping_txid m), gated = False\<rparr> \<and>
    disco_open x25519 32 reply a_priv = Some (inner, b_pub) \<and>
    disco_parse inner = Some \<lparr>version = 0, body = DISCO_PONG
      \<lparr>pong_txid = ping_txid m, src_addr = replicate 16 0, src_port = 0\<rparr>\<rparr>"
proof -
  have kb: "box_beforenm x25519 b_pub a_priv = Some k" "box_beforenm x25519 a_pub b_priv = Some k"
    using assms(1,2) by (simp_all add: nacl_box_compute_shared_def box_beforenm_def curve25519_dh_def curve25519_scalarmult_def)
  have cap2: "78 + length pt \<le> cap2" using assms(10) by (auto simp: disco_seal_def Let_def split: if_splits)
  have op: "disco_open x25519 256 frame b_priv = Some (pt, a_pub)" "disco_looks_like frame"
    using seal_opens [OF kb assms(3,5,9,9) cap2] assms(10) by (metis option.inject)+
  have parse: "disco_parse pt = Some \<lparr>version = 0, body = DISCO_PING m\<rparr>" by (rule parse_ping [OF assms(7,8)])
  have ne: "pt \<noteq> []" using parse by (auto simp: disco_parse_def)
  have "length (ping_txid m) = 12" using assms(7) by simp
  then obtain inner where inner:
    "disco_encode_pong 32 \<lparr>pong_txid = ping_txid m, src_addr = replicate 16 0, src_port = 0\<rparr> = Some inner" "length inner = 32"
    "disco_parse inner = Some \<lparr>version = 0, body = DISCO_PONG \<lparr>pong_txid = ping_txid m, src_addr = replicate 16 0, src_port = 0\<rparr>\<rparr>"
    by (rule pong_encoded)
  have cap: "length inner \<le> 256" "length inner \<le> 32" "78 + length inner \<le> out_cap" using inner(2) assms(11) by simp_all
  obtain reply where reply: "disco_seal x25519 out_cap inner n2 b_pub a_pub b_priv = Some reply"
    "disco_open x25519 32 reply a_priv = Some (inner, b_pub)"
    using seal_opens [OF kb(2,1) assms(4,6) cap] by metis
  have "disco_handle_recv x25519 out_cap frame b_priv b_pub n2 =
      \<lparr>out_reply = Some reply, out_type = Some DISCO_TYPE_PING, out_peer_disco_pub = Some a_pub,
       out_txid = Some (ping_txid m), gated = False\<rparr>"
    using op ne assms(11) inner(1) reply(1) parse
    by (simp add: disco_handle_recv_def finish_disco_recv_def no_out_def Let_def)
  then show ?thesis using reply(2) inner(3) by blast
qed

theorem disco_ping_answered_witness:
  "let x = (\<lambda>a b. map2 (+) a b); pt = [1, 0] @ replicate 12 9 in
     \<exists>frame reply inner. disco_seal x 200 pt (replicate 24 7) (replicate 32 4) (replicate 32 5) (replicate 32 4) = Some frame \<and>
       out_reply (disco_handle_recv x 128 frame (replicate 32 5) (replicate 32 5) (replicate 24 8)) = Some reply \<and>
       disco_open x 32 reply (replicate 32 4) = Some (inner, replicate 32 5)"
proof -
  let ?x = "\<lambda>a b :: bytes. map2 (+) a b"
  let ?a = "replicate 32 4 :: bytes" and ?b = "replicate 32 5 :: bytes"
  let ?n1 = "replicate 24 7 :: bytes" and ?n2 = "replicate 24 8 :: bytes"
  let ?m = "\<lparr>ping_txid = replicate 12 9, ping_node_key = replicate 32 0, has_node_key = False, padding = 0\<rparr>"
  let ?pt = "[1, 0] @ replicate 12 9 :: bytes"
  have z: "?x ?a ?b \<noteq> replicate 32 0" "length (?x ?a ?b) = 32" by (simp_all add: zip_replicate)
  obtain k where k: "nacl_box_compute_shared ?x ?b ?a = Some k"
    using dh_zero [of ?x ?a ?b] z by (auto simp: nacl_box_compute_shared_def box_beforenm_def split: option.splits)
  have c: "?x ?a ?b = ?x ?b ?a" by (simp add: zip_replicate)
  have l: "length ?a = 32" "length ?b = 32" "length ?n1 = 24" "length ?n2 = 24" by simp_all
  have m: "disco_body_ok (DISCO_PING ?m)" "disco_encode_ping 100 ?m = Some ?pt"
    by (simp_all add: disco_encode_ping_def DISCO_TYPE_PING_def)
  have pl: "length ?pt \<le> 256" by simp
  have kb: "box_beforenm ?x ?b ?a = Some k" using k by (simp add: nacl_box_compute_shared_def)
  obtain frame where f: "disco_seal ?x 200 ?pt ?n1 ?a ?b ?a = Some frame"
    unfolding disco_seal_shared [OF kb] by (auto simp: disco_seal_with_shared_def nacl_box_after_shared_eq)
  have "\<exists>reply inner. disco_handle_recv ?x 128 frame ?b ?b ?n2 =
      \<lparr>out_reply = Some reply, out_type = Some DISCO_TYPE_PING, out_peer_disco_pub = Some ?a,
       out_txid = Some (ping_txid ?m), gated = False\<rparr> \<and>
    disco_open ?x 32 reply ?a = Some (inner, ?b) \<and>
    disco_parse inner = Some \<lparr>version = 0, body = DISCO_PONG \<lparr>pong_txid = ping_txid ?m, src_addr = replicate 16 0, src_port = 0\<rparr>\<rparr>"
    by (rule disco_ping_answered [of ?x ?a ?b ?b ?a, OF c k l m pl f order_refl])
  then obtain reply inner where r: "out_reply (disco_handle_recv ?x 128 frame ?b ?b ?n2) = Some reply"
    "disco_open ?x 32 reply ?a = Some (inner, ?b)"
    by (metis disco_out.select_convs(1))
  show ?thesis unfolding Let_def using f r by blast
qed

text \<open>The peer gate and the cached key are sound optimisations: with the active peer's key
  known, a frame that names another sender is dropped unopened, and every other frame
  gets exactly the reply and the outputs of \<open>disco_handle_recv\<close> with the private key, whether or not
  a box key is cached, provided a cached key is the one derived from the peer's key.\<close>

theorem disco_from_peer_gate:
  assumes "has_pub peer" "k_valid peer \<longrightarrow> nacl_box_compute_shared x25519 (pk_pub peer) my_priv = Some (pk_k peer)"
  shows "disco_handle_recv_from_peer x25519 out_cap frame peer my_priv my_pub nonce =
    (if disco_looks_like frame \<and> bytes_at 6 32 frame \<noteq> pk_pub peer then no_out\<lparr>gated := True\<rparr>
     else disco_handle_recv x25519 out_cap frame my_priv my_pub nonce)"
proof (cases "disco_looks_like frame")
  case False
  then show ?thesis by (simp add: disco_handle_recv_from_peer_def disco_handle_recv_def)
next
  case True
  then have len: "\<not> length frame < 38" by (auto simp: disco_looks_like_def split: if_splits)
  have "disco_handle_recv_with_shared x25519 out_cap frame (pk_k peer) my_pub nonce =
      disco_handle_recv x25519 out_cap frame my_priv my_pub nonce"
    if "k_valid peer" "bytes_at 6 32 frame = pk_pub peer"
    using assms(2) that by (intro handle_recv_shared) (simp add: nacl_box_compute_shared_def)
  then show ?thesis
    using True len assms(1) by (simp add: disco_handle_recv_from_peer_def disco_gate_def)
qed

theorem disco_from_peer_gate_witness:
  "let peer = \<lparr>has_pub = True, k_valid = False, pk_pub = replicate 32 4, pk_k = replicate 32 0\<rparr>;
       frame = disco_frame (replicate 32 1) (replicate 24 2) (replicate 18 3)
   in disco_handle_recv_from_peer (\<lambda>a b. map2 (+) a b) 128 frame peer [] [] [] = no_out\<lparr>gated := True\<rparr>"
proof -
  let ?peer = "\<lparr>has_pub = True, k_valid = False, pk_pub = replicate 32 4, pk_k = replicate 32 0\<rparr>"
  let ?f = "disco_frame (replicate 32 1) (replicate 24 2) (replicate 18 3)"
  have "bytes_at 6 32 ?f = replicate 32 1" "disco_looks_like ?f" by (simp_all add: disco_frame_fields)
  moreover have "replicate 32 1 \<noteq> (replicate 32 4 :: bytes)" by simp
  ultimately show ?thesis
    using disco_from_peer_gate [of ?peer "\<lambda>a b. map2 (+) a b" "[]" 128 ?f "[]" "[]"] by (simp add: Let_def)
qed

end
