(* ===== verification/Disco_Prober.thy ===== *)
theory Disco_Prober
  imports TL_Prelude
begin

unbundle bit_operations_syntax

text \<open>
  \<open>disco_prober.c\<close>: the table of outstanding DISCO pings.  Both operations run under one
  critical section, so each is one step on the table.  Times are microseconds of the monotonic
  clock.
\<close>

section \<open>The code\<close>

definition DISCO_PROBER_TABLE_SIZE :: nat where "DISCO_PROBER_TABLE_SIZE = 16"
definition DISCO_PROBER_TIMEOUT_MS :: i64 where "DISCO_PROBER_TIMEOUT_MS = 5000"

record prober_slot =
  ps_txid :: bytes
  ps_dst_v4_be :: u32
  ps_dst_port :: u16
  ps_sent_us :: i64
  ps_valid :: bool

definition slot_zero :: prober_slot where
  "slot_zero = \<lparr>ps_txid = replicate 12 0, ps_dst_v4_be = 0, ps_dst_port = 0, ps_sent_us = 0, ps_valid = False\<rparr>"

definition disco_prober_init :: "prober_slot list" where
  "disco_prober_init = replicate DISCO_PROBER_TABLE_SIZE slot_zero"

text \<open>The search loop of \<open>disco_prober_record\<close>: a free or expired slot, else the oldest.\<close>

function prober_find :: "prober_slot list \<Rightarrow> i64 \<Rightarrow> nat \<Rightarrow> nat \<Rightarrow> nat" where
  "prober_find tbl thr i oldest =
     (if i \<ge> length tbl then oldest
      else if \<not> ps_valid (tbl ! i) then i
      else if ps_sent_us (tbl ! i) < thr then i
      else prober_find tbl thr (Suc i) (if ps_sent_us (tbl ! i) < ps_sent_us (tbl ! oldest) then i else oldest))"
  by pat_completeness auto
termination by (relation "measure (\<lambda>(tbl, thr, i, oldest). length tbl - i)") auto

definition disco_prober_record :: "prober_slot list \<Rightarrow> bytes \<Rightarrow> u32 \<Rightarrow> u16 \<Rightarrow> i64 \<Rightarrow> prober_slot list" where
  "disco_prober_record tbl txid dst_v4_be dst_port now_us =
     (let expiry_threshold_us = now_us - DISCO_PROBER_TIMEOUT_MS * 1000;
          target = prober_find tbl expiry_threshold_us 0 0
      in tbl[target := \<lparr>ps_txid = txid, ps_dst_v4_be = dst_v4_be, ps_dst_port = dst_port, ps_sent_us = now_us, ps_valid = True\<rparr>])"

text \<open>The loop of \<open>disco_prober_take\<close>: when the matched ping was sent, and the table.\<close>

function prober_scan :: "prober_slot list \<Rightarrow> bytes \<Rightarrow> u32 \<Rightarrow> u16 \<Rightarrow> i64 \<Rightarrow> nat \<Rightarrow> i64 option \<times> prober_slot list" where
  "prober_scan tbl txid src_v4_be src_port thr i =
     (if i \<ge> length tbl then (None, tbl)
      else if \<not> ps_valid (tbl ! i) then prober_scan tbl txid src_v4_be src_port thr (Suc i)
      else if ps_txid (tbl ! i) \<noteq> txid then prober_scan tbl txid src_v4_be src_port thr (Suc i)
      else if ps_dst_v4_be (tbl ! i) \<noteq> src_v4_be \<or> ps_dst_port (tbl ! i) \<noteq> src_port then (None, tbl)
      else (if ps_sent_us (tbl ! i) \<ge> thr then Some (ps_sent_us (tbl ! i)) else None, tbl[i := slot_zero]))"
  by pat_completeness auto
termination by (relation "measure (\<lambda>(tbl, txid, a, p, thr, i). length tbl - i)") auto

definition disco_prober_take :: "prober_slot list \<Rightarrow> bytes \<Rightarrow> u32 \<Rightarrow> u16 \<Rightarrow> i64 \<Rightarrow> i64 option \<times> prober_slot list" where
  "disco_prober_take tbl txid src_v4_be src_port now_us =
     prober_scan tbl txid src_v4_be src_port (now_us - DISCO_PROBER_TIMEOUT_MS * 1000) 0"

definition disco_prober_match_and_remove :: "prober_slot list \<Rightarrow> bytes \<Rightarrow> u32 \<Rightarrow> u16 \<Rightarrow> i64 \<Rightarrow> bool \<times> prober_slot list" where
  "disco_prober_match_and_remove tbl txid src_v4_be src_port now_us =
     (case disco_prober_take tbl txid src_v4_be src_port now_us of (r, tbl') \<Rightarrow> (r \<noteq> None, tbl'))"

declare prober_find.simps [simp del] prober_scan.simps [simp del]

section \<open>The searches\<close>

definition slot_free :: "i64 \<Rightarrow> prober_slot \<Rightarrow> bool" where
  "slot_free thr s \<longleftrightarrow> \<not> ps_valid s \<or> ps_sent_us s < thr"

lemma prober_find_spec:
  assumes "oldest < length tbl" "\<forall>j<i. \<not> slot_free thr (tbl ! j)"
    "\<forall>j<i. ps_sent_us (tbl ! oldest) \<le> ps_sent_us (tbl ! j)" "i \<le> length tbl"
  shows "prober_find tbl thr i oldest < length tbl \<and>
    (if \<exists>j<length tbl. slot_free thr (tbl ! j) then slot_free thr (tbl ! prober_find tbl thr i oldest)
     else \<forall>j<length tbl. ps_sent_us (tbl ! prober_find tbl thr i oldest) \<le> ps_sent_us (tbl ! j))"
  using assms
proof (induction tbl thr i oldest rule: prober_find.induct)
  case (1 tbl thr i oldest)
  consider "i = length tbl" | "i < length tbl" "slot_free thr (tbl ! i)" | "i < length tbl" "\<not> slot_free thr (tbl ! i)"
    using 1(5) by linarith
  then show ?case
  proof cases
    case a: 1
    then have "prober_find tbl thr i oldest = oldest" by (subst prober_find.simps) simp
    then show ?thesis using a 1(2-4) by simp
  next
    case b: 2
    then have "prober_find tbl thr i oldest = i" by (simp add: prober_find.simps [of tbl thr i] slot_free_def)
    then show ?thesis using b by auto
  next
    case c: 3
    let ?o = "if ps_sent_us (tbl ! i) < ps_sent_us (tbl ! oldest) then i else oldest"
    have step: "prober_find tbl thr i oldest = prober_find tbl thr (Suc i) ?o"
      using c by (simp add: prober_find.simps [of tbl thr i] slot_free_def)
    have "\<forall>j<Suc i. ps_sent_us (tbl ! ?o) \<le> ps_sent_us (tbl ! j)"
      using 1(4) by (auto simp: less_Suc_eq)
    moreover have "\<forall>j<Suc i. \<not> slot_free thr (tbl ! j)" using 1(3) c by (auto simp: less_Suc_eq)
    moreover have "?o < length tbl" "Suc i \<le> length tbl" using c 1(2) by auto
    moreover have "\<not> length tbl \<le> i" "\<not> \<not> ps_valid (tbl ! i)" "\<not> ps_sent_us (tbl ! i) < thr"
      using c by (simp_all add: slot_free_def)
    ultimately show ?thesis unfolding step by (intro 1(1))
  qed
qed

lemma record_spec:
  assumes "tbl \<noteq> []"
  obtains i where "i < length tbl"
    "disco_prober_record tbl txid a p now = tbl[i := \<lparr>ps_txid = txid, ps_dst_v4_be = a, ps_dst_port = p, ps_sent_us = now, ps_valid = True\<rparr>]"
    "if \<exists>j<length tbl. slot_free (now - 5000000) (tbl ! j) then slot_free (now - 5000000) (tbl ! i)
     else \<forall>j<length tbl. ps_sent_us (tbl ! i) \<le> ps_sent_us (tbl ! j)"
proof -
  let ?i = "prober_find tbl (now - 5000000) 0 0"
  have "?i < length tbl \<and> (if \<exists>j<length tbl. slot_free (now - 5000000) (tbl ! j) then slot_free (now - 5000000) (tbl ! ?i)
     else \<forall>j<length tbl. ps_sent_us (tbl ! ?i) \<le> ps_sent_us (tbl ! j))"
    using assms by (intro prober_find_spec) simp_all
  then show ?thesis
    using that [of ?i] by (simp add: disco_prober_record_def DISCO_PROBER_TIMEOUT_MS_def Let_def)
qed

text \<open>The first valid slot with the transaction id decides.\<close>

definition slot_has :: "bytes \<Rightarrow> prober_slot \<Rightarrow> bool" where
  "slot_has txid s \<longleftrightarrow> ps_valid s \<and> ps_txid s = txid"

lemma prober_scan_none:
  "\<forall>j<length tbl. i \<le> j \<longrightarrow> \<not> slot_has txid (tbl ! j) \<Longrightarrow> prober_scan tbl txid a p thr i = (None, tbl)"
proof (induction tbl txid a p thr i rule: prober_scan.induct)
  case (1 tbl txid a p thr i)
  show ?case
  proof (cases "i \<ge> length tbl")
    case False
    then have "\<not> slot_has txid (tbl ! i)" using 1(3) by simp
    then show ?thesis using 1 False
      by (subst prober_scan.simps) (auto simp: slot_has_def)
  qed (subst prober_scan.simps, simp)
qed

lemma prober_scan_hit:
  assumes "k < length tbl" "i \<le> k" "slot_has txid (tbl ! k)" "\<forall>j<k. i \<le> j \<longrightarrow> \<not> slot_has txid (tbl ! j)"
  shows "prober_scan tbl txid a p thr i =
    (if ps_dst_v4_be (tbl ! k) \<noteq> a \<or> ps_dst_port (tbl ! k) \<noteq> p then (None, tbl)
     else (if ps_sent_us (tbl ! k) \<ge> thr then Some (ps_sent_us (tbl ! k)) else None, tbl[k := slot_zero]))"
  using assms
proof (induction tbl txid a p thr i rule: prober_scan.induct)
  case (1 tbl txid a p thr i)
  show ?case
  proof (cases "i = k")
    case True
    then show ?thesis using 1(3,5) by (subst prober_scan.simps) (simp add: slot_has_def)
  next
    case False
    then have lt: "i < k" "\<not> slot_has txid (tbl ! i)" using 1(4,6) by auto
    have "prober_scan tbl txid a p thr i = prober_scan tbl txid a p thr (Suc i)"
      using lt 1(3) by (subst prober_scan.simps) (auto simp: slot_has_def)
    then show ?thesis using 1 lt by (cases "ps_valid (tbl ! i)") (auto simp: slot_has_def)
  qed
qed

section \<open>Properties\<close>

definition slot_live :: "i64 \<Rightarrow> prober_slot \<Rightarrow> bool" where
  "slot_live now s \<longleftrightarrow> ps_valid s \<and> now - 5000000 \<le> ps_sent_us s"

text \<open>Recording a ping costs no live one while there is room: when some slot is unused or
  expired, every ping still in flight keeps its slot; only when all sixteen are in flight is
  one replaced, and it is one of those sent first.  The new ping is in the table afterwards.\<close>

theorem prober_record_keeps_live:
  assumes "tbl \<noteq> []"
  shows "\<exists>i < length tbl.
    disco_prober_record tbl txid a p now = tbl[i := \<lparr>ps_txid = txid, ps_dst_v4_be = a, ps_dst_port = p, ps_sent_us = now, ps_valid = True\<rparr>] \<and>
    (if \<exists>s \<in> set tbl. \<not> slot_live now s then \<not> slot_live now (tbl ! i)
     else \<forall>s \<in> set tbl. ps_sent_us (tbl ! i) \<le> ps_sent_us s)"
proof -
  have free: "slot_free (now - 5000000) s \<longleftrightarrow> \<not> slot_live now s" for s
    by (auto simp: slot_free_def slot_live_def)
  obtain i where "i < length tbl"
    "disco_prober_record tbl txid a p now = tbl[i := \<lparr>ps_txid = txid, ps_dst_v4_be = a, ps_dst_port = p, ps_sent_us = now, ps_valid = True\<rparr>]"
    "if \<exists>j<length tbl. \<not> slot_live now (tbl ! j) then \<not> slot_live now (tbl ! i)
     else \<forall>j<length tbl. ps_sent_us (tbl ! i) \<le> ps_sent_us (tbl ! j)"
    using record_spec [OF assms, of txid a p now] unfolding free by metis
  then show ?thesis by (auto simp: set_conv_nth split: if_splits)
qed

theorem prober_record_keeps_live_witness:
  "\<exists>i < 16. disco_prober_record disco_prober_init [1] 7 9 100 =
     disco_prober_init[i := \<lparr>ps_txid = [1], ps_dst_v4_be = 7, ps_dst_port = 9, ps_sent_us = 100, ps_valid = True\<rparr>]"
  using prober_record_keeps_live [of disco_prober_init "[1]" 7 9 100]
  by (auto simp: disco_prober_init_def DISCO_PROBER_TABLE_SIZE_def)

text \<open>A pong is accepted once, in time and from the probed address only: right after a ping
  with a fresh transaction id is recorded, a pong with that id from another address or port is
  refused and leaves the table as it was; from the probed address it is accepted with the time
  the ping was sent if it arrives within five seconds; either way the slot is consumed, so that
  the same pong is never accepted again.\<close>

theorem prober_accepts_once:
  assumes "tbl \<noteq> []" "\<forall>s \<in> set tbl. ps_valid s \<longrightarrow> ps_txid s \<noteq> txid"
  shows "let tbl1 = disco_prober_record tbl txid a p now;
           (r, tbl2) = disco_prober_take tbl1 txid a' p' t
         in if a' = a \<and> p' = p
            then (r = (if t \<le> now + 5000000 then Some now else None)) \<and>
                 (\<forall>a'' p'' t'. disco_prober_take tbl2 txid a'' p'' t' = (None, tbl2))
            else r = None \<and> tbl2 = tbl1"
proof -
  let ?s = "\<lparr>ps_txid = txid, ps_dst_v4_be = a, ps_dst_port = p, ps_sent_us = now, ps_valid = True\<rparr>"
  obtain i where i: "i < length tbl" "disco_prober_record tbl txid a p now = tbl[i := ?s]"
    using record_spec [OF assms(1), of txid a p now] by metis
  have old: "\<not> slot_has txid (tbl ! j)" if "j < length tbl" for j
    using assms(2) that by (auto simp: slot_has_def)
  have hit: "slot_has txid (tbl[i := ?s] ! i)" using i(1) by (simp add: slot_has_def)
  have before: "\<forall>j<i. 0 \<le> j \<longrightarrow> \<not> slot_has txid (tbl[i := ?s] ! j)" using i(1) old by simp
  have tk: "disco_prober_take (tbl[i := ?s]) txid a' p' t =
      (if a \<noteq> a' \<or> p \<noteq> p' then (None, tbl[i := ?s])
       else (if now \<ge> t - 5000000 then Some now else None, tbl[i := slot_zero]))"
    using prober_scan_hit [OF _ _ hit before, of a' p' "t - 5000000"] i(1)
    by (simp add: disco_prober_take_def DISCO_PROBER_TIMEOUT_MS_def)
  have "\<forall>j<length (tbl[i := slot_zero]). 0 \<le> j \<longrightarrow> \<not> slot_has txid (tbl[i := slot_zero] ! j)"
    using old i(1) by (auto simp: nth_list_update slot_has_def slot_zero_def)
  then have "disco_prober_take (tbl[i := slot_zero]) txid a'' p'' t' = (None, tbl[i := slot_zero])" for a'' p'' t'
    unfolding disco_prober_take_def by (rule prober_scan_none)
  then show ?thesis unfolding i(2) Let_def tk by auto
qed

theorem prober_accepts_once_witness:
  "let tbl1 = disco_prober_record disco_prober_init [1] 7 9 100;
       (r, tbl2) = disco_prober_take tbl1 [1] 7 9 2000
   in r = Some 100 \<and> fst (disco_prober_take tbl2 [1] 7 9 2001) = None"
  using prober_accepts_once [of disco_prober_init "[1]" 7 9 100 7 9 2000]
  by (auto simp: disco_prober_init_def DISCO_PROBER_TABLE_SIZE_def slot_zero_def Let_def split: prod.splits)

end
