(* ===== verification/STUN_Boot.thy ===== *)
theory STUN_Boot
  imports TL_Prelude
begin

text \<open>
  \<open>stun_boot.h\<close> and the two tasks of \<open>tinylink.c\<close> that use it: the boot STUN probe, which reads the WireGuard socket until the
  receive task exists, and the main task, which waits for the probe briefly and then gives up on it.

  A step is one section under \<open>s_stun_boot_mx\<close>, or one semaphore call.  What the network decides (DNS, a datagram, a timeout) is left open.
\<close>

section \<open>The hand-off\<close>

datatype stun_boot_state_t = STUN_BOOT_IDLE | STUN_BOOT_RESOLVING | STUN_BOOT_ON_SOCKET | STUN_BOOT_DONE | STUN_BOOT_ABANDONED

definition stun_boot_claim :: "stun_boot_state_t \<Rightarrow> bool \<times> stun_boot_state_t" where
  "stun_boot_claim s = (if s \<noteq> STUN_BOOT_RESOLVING then (False, s) else (True, STUN_BOOT_ON_SOCKET))"

definition stun_boot_may_read :: "stun_boot_state_t \<Rightarrow> bool" where
  "stun_boot_may_read s \<longleftrightarrow> s = STUN_BOOT_ON_SOCKET"

definition stun_boot_publish :: "stun_boot_state_t \<Rightarrow> bool \<times> stun_boot_state_t" where
  "stun_boot_publish s = (if s \<noteq> STUN_BOOT_ON_SOCKET then (False, s) else (True, STUN_BOOT_DONE))"

definition stun_boot_finish :: "stun_boot_state_t \<Rightarrow> bool \<times> stun_boot_state_t" where
  "stun_boot_finish s = (if s = STUN_BOOT_ABANDONED then (False, s) else (True, STUN_BOOT_DONE))"

definition stun_boot_give_up :: "stun_boot_state_t \<Rightarrow> bool \<times> stun_boot_state_t" where
  "stun_boot_give_up s = (if s = STUN_BOOT_DONE then (True, s) else (False, STUN_BOOT_ABANDONED))"

section \<open>The tasks\<close>

text \<open>Where the probe (\<open>stun_boot_run\<close>, \<open>stun_boot_exchange\<close>) and the main task (\<open>stun_boot_join\<close>) stand.\<close>

datatype probe_pc = P_RESOLVE | P_EXCHANGE | P_FINISH | P_SIGNAL | P_FREE | P_END
datatype join_pc = J_WAIT | J_GIVE_UP | J_TAKE | J_DELETE | J_OUT

text \<open>The semaphore \<open>done\<close>: whether it was given and not taken, how often it was deleted, whether it was touched after that.  \<open>b_reads\<close> counts
  the probe's reads of the socket, \<open>b_valid\<close> is \<open>s_stun_result.valid\<close>, \<open>b_reprobe\<close> \<open>s_stun_reprobe_now\<close>.\<close>

record stun_boot =
  b_state :: stun_boot_state_t
  b_probe :: probe_pc
  b_join :: join_pc
  b_given :: bool
  b_deleted :: nat
  b_misuse :: bool
  b_reads :: nat
  b_valid :: bool
  b_reprobe :: bool

text \<open>\<open>tinylink_stun_probe_start\<close>.\<close>

definition stun_boot_start :: stun_boot where
  "stun_boot_start = \<lparr>b_state = STUN_BOOT_RESOLVING, b_probe = P_RESOLVE, b_join = J_WAIT, b_given = False, b_deleted = 0, b_misuse = False,
     b_reads = 0, b_valid = False, b_reprobe = False\<rparr>"

definition touch_done :: "stun_boot \<Rightarrow> stun_boot" where
  "touch_done b = (if b_deleted b \<noteq> 0 then b\<lparr>b_misuse := True\<rparr> else b)"

definition probe_claim :: "stun_boot \<Rightarrow> stun_boot" where
  "probe_claim b = (case stun_boot_claim (b_state b) of (mine, s) \<Rightarrow> b\<lparr>b_state := s, b_probe := if mine then P_EXCHANGE else P_FINISH\<rparr>)"

text \<open>One locked read; \<open>matched\<close>: a datagram came and it is the answer.\<close>

definition probe_read :: "bool \<Rightarrow> stun_boot \<Rightarrow> stun_boot" where
  "probe_read matched b =
    (if \<not> stun_boot_may_read (b_state b) then b\<lparr>b_probe := P_FINISH\<rparr>
     else (let b1 = b\<lparr>b_reads := b_reads b + 1\<rparr> in
       if \<not> matched then b1
       else (case stun_boot_publish (b_state b1) of (ok, s) \<Rightarrow>
         if ok then b1\<lparr>b_state := s, b_valid := True, b_probe := P_FINISH\<rparr> else b1\<lparr>b_state := s\<rparr>)))"

definition probe_finish :: "stun_boot \<Rightarrow> stun_boot" where
  "probe_finish b = (case stun_boot_finish (b_state b) of (awaited, s) \<Rightarrow> b\<lparr>b_state := s, b_probe := if awaited then P_SIGNAL else P_FREE\<rparr>)"

definition join_give_up :: "stun_boot \<Rightarrow> stun_boot" where
  "join_give_up b = (case stun_boot_give_up (b_state b) of (finished, s) \<Rightarrow>
     b\<lparr>b_state := s, b_join := if finished then J_TAKE else J_OUT, b_reprobe := if finished then b_reprobe b else b_reprobe b \<or> \<not> b_valid b\<rparr>)"

definition delete_done :: "stun_boot \<Rightarrow> stun_boot" where
  "delete_done b = touch_done b\<lparr>b_deleted := b_deleted b + 1\<rparr>"

inductive stun_boot_step :: "stun_boot \<Rightarrow> stun_boot \<Rightarrow> bool" where
  no_server: "b_probe b = P_RESOLVE \<Longrightarrow> stun_boot_step b (b\<lparr>b_probe := P_FINISH\<rparr>)"
| claim: "b_probe b = P_RESOLVE \<Longrightarrow> stun_boot_step b (probe_claim b)"
| read: "b_probe b = P_EXCHANGE \<Longrightarrow> stun_boot_step b (probe_read matched b)"
| timeout: "b_probe b = P_EXCHANGE \<Longrightarrow> stun_boot_step b (b\<lparr>b_probe := P_FINISH\<rparr>)"
| finish: "b_probe b = P_FINISH \<Longrightarrow> stun_boot_step b (probe_finish b)"
| signal: "b_probe b = P_SIGNAL \<Longrightarrow> stun_boot_step b ((touch_done b)\<lparr>b_given := True, b_probe := P_END\<rparr>)"
| free: "b_probe b = P_FREE \<Longrightarrow> stun_boot_step b ((delete_done b)\<lparr>b_probe := P_END\<rparr>)"
| taken: "b_join b = J_WAIT \<Longrightarrow> b_given b \<Longrightarrow> stun_boot_step b ((touch_done b)\<lparr>b_given := False, b_join := J_DELETE\<rparr>)"
| wait_over: "b_join b = J_WAIT \<Longrightarrow> \<not> b_given b \<Longrightarrow> stun_boot_step b ((touch_done b)\<lparr>b_join := J_GIVE_UP\<rparr>)"
| give_up: "b_join b = J_GIVE_UP \<Longrightarrow> stun_boot_step b (join_give_up b)"
| take: "b_join b = J_TAKE \<Longrightarrow> b_given b \<Longrightarrow> stun_boot_step b ((touch_done b)\<lparr>b_given := False, b_join := J_DELETE\<rparr>)"
| delete: "b_join b = J_DELETE \<Longrightarrow> stun_boot_step b ((delete_done b)\<lparr>b_join := J_OUT, b_reprobe := b_reprobe b \<or> \<not> b_valid b\<rparr>)"

inductive stun_boot_reach :: "stun_boot \<Rightarrow> bool" where
  start: "stun_boot_reach stun_boot_start"
| step: "stun_boot_reach b \<Longrightarrow> stun_boot_step b b1 \<Longrightarrow> stun_boot_reach b1"

inductive_cases stun_boot_stepE: "stun_boot_step b b1"

section \<open>The invariant\<close>

text \<open>Which places of the two tasks go together.\<close>

definition boot_inv :: "stun_boot \<Rightarrow> bool" where
  "boot_inv b \<longleftrightarrow> \<not> b_misuse b \<and>
    (b_probe b = P_RESOLVE \<longrightarrow> b_state b \<in> {STUN_BOOT_RESOLVING, STUN_BOOT_ABANDONED}) \<and>
    (b_probe b = P_EXCHANGE \<longrightarrow> b_state b \<in> {STUN_BOOT_ON_SOCKET, STUN_BOOT_ABANDONED}) \<and>
    (b_probe b = P_SIGNAL \<longrightarrow> b_state b = STUN_BOOT_DONE) \<and>
    (b_probe b = P_FREE \<longrightarrow> b_state b = STUN_BOOT_ABANDONED) \<and>
    (b_probe b = P_END \<longrightarrow> b_state b \<in> {STUN_BOOT_DONE, STUN_BOOT_ABANDONED}) \<and>
    (b_state b = STUN_BOOT_ABANDONED \<longrightarrow> b_join b = J_OUT \<and> \<not> b_given b \<and> b_deleted b = (if b_probe b = P_END then 1 else 0)) \<and>
    (b_state b \<noteq> STUN_BOOT_ABANDONED \<longrightarrow> b_deleted b = (if b_join b = J_OUT then 1 else 0) \<and>
      (b_join b = J_OUT \<longrightarrow> b_probe b = P_END) \<and> (b_join b \<in> {J_DELETE, J_OUT} \<longrightarrow> \<not> b_given b \<and> b_probe b = P_END) \<and>
      (b_join b \<in> {J_WAIT, J_GIVE_UP, J_TAKE} \<longrightarrow> b_given b = (b_probe b = P_END)) \<and>
      (b_join b = J_TAKE \<longrightarrow> b_state b = STUN_BOOT_DONE)) \<and>
    (b_state b = STUN_BOOT_ABANDONED \<longrightarrow> \<not> b_valid b) \<and> (b_valid b \<longrightarrow> b_state b = STUN_BOOT_DONE) \<and>
    (b_join b = J_OUT \<longrightarrow> b_reprobe b = (\<not> b_valid b)) \<and> (b_join b \<noteq> J_OUT \<longrightarrow> \<not> b_reprobe b)"

lemmas boot_defs = probe_claim_def stun_boot_claim_def probe_read_def stun_boot_may_read_def stun_boot_publish_def probe_finish_def stun_boot_finish_def
  join_give_up_def stun_boot_give_up_def touch_done_def delete_done_def

lemma boot_inv_step:
  assumes "stun_boot_step b b1" "boot_inv b"
  shows "boot_inv b1"
  using assms(1)
proof (cases rule: stun_boot_step.cases)
  case (read matched)
  then show ?thesis using assms(2) by (cases "b_state b"; cases matched; cases "b_join b"; simp add: boot_inv_def boot_defs)
next
  case claim
  then show ?thesis using assms(2) by (cases "b_state b"; cases "b_join b"; simp add: boot_inv_def boot_defs)
next
  case finish
  then show ?thesis using assms(2) by (cases "b_state b"; cases "b_join b"; simp add: boot_inv_def boot_defs)
next
  case give_up
  then show ?thesis using assms(2) by (cases "b_state b"; cases "b_probe b"; simp add: boot_inv_def boot_defs)
next
  case delete
  then show ?thesis using assms(2) by (cases "b_state b"; cases "b_probe b"; simp add: boot_inv_def boot_defs)
next
  case take
  then show ?thesis using assms(2) by (cases "b_state b"; cases "b_probe b"; simp add: boot_inv_def boot_defs)
next
  case taken
  then show ?thesis using assms(2) by (cases "b_state b"; cases "b_probe b"; simp add: boot_inv_def boot_defs)
next
  case wait_over
  then show ?thesis using assms(2) by (cases "b_state b"; cases "b_probe b"; simp add: boot_inv_def boot_defs)
qed (use assms(2) in \<open>(cases "b_state b"; cases "b_join b"; simp add: boot_inv_def boot_defs)+\<close>)

lemma boot_inv_reach: "stun_boot_reach b \<Longrightarrow> boot_inv b"
proof (induction rule: stun_boot_reach.induct)
  case start
  show ?case by (simp add: boot_inv_def stun_boot_start_def)
next
  case (step b b1)
  then show ?case using boot_inv_step by blast
qed

lemma boot_quiet:
  assumes "stun_boot_step b b1" "boot_inv b" "b_join b = J_OUT"
  shows "b_reads b1 = b_reads b \<and> b_valid b1 = b_valid b \<and> b_join b1 = J_OUT"
  using assms(1)
proof (cases rule: stun_boot_step.cases)
  case (read matched)
  then show ?thesis using assms(2,3) by (cases "b_state b"; simp add: boot_inv_def boot_defs)
qed (use assms(3) in \<open>simp_all add: boot_defs\<close>)

text \<open>The probe is never stuck, and a main task that waits waits for a probe that runs.\<close>

lemma boot_probe_runs: "b_probe b \<noteq> P_END \<Longrightarrow> \<exists>b1. stun_boot_step b b1 \<and> b_probe b1 \<noteq> b_probe b"
proof (cases "b_probe b")
  case P_RESOLVE
  then show ?thesis using no_server [of b] by (intro exI [of _ "b\<lparr>b_probe := P_FINISH\<rparr>"]) simp
next
  case P_EXCHANGE
  then show ?thesis using timeout [of b] by (intro exI [of _ "b\<lparr>b_probe := P_FINISH\<rparr>"]) simp
next
  case P_FINISH
  then show ?thesis using finish [of b] by (intro exI [of _ "probe_finish b"]) (simp add: boot_defs)
next
  case P_SIGNAL
  then show ?thesis using signal [of b] by (intro exI [of _ "(touch_done b)\<lparr>b_given := True, b_probe := P_END\<rparr>"]) simp
next
  case P_FREE
  then show ?thesis using free [of b] by (intro exI [of _ "(delete_done b)\<lparr>b_probe := P_END\<rparr>"]) simp
qed simp

lemma boot_join_runs:
  assumes "boot_inv b" "b_join b \<noteq> J_OUT" "b_join b = J_TAKE \<longrightarrow> b_probe b = P_END"
  shows "\<exists>b1. stun_boot_step b b1 \<and> b_join b1 \<noteq> b_join b"
proof (cases "b_join b")
  case J_WAIT
  then show ?thesis using taken [of b] wait_over [of b]
    by (cases "b_given b") (fastforce intro: exI [of _ "(touch_done b)\<lparr>b_given := False, b_join := J_DELETE\<rparr>"] exI [of _ "(touch_done b)\<lparr>b_join := J_GIVE_UP\<rparr>"])+
next
  case J_GIVE_UP
  then show ?thesis using give_up [of b] by (intro exI [of _ "join_give_up b"]) (auto simp: boot_defs)
next
  case J_TAKE
  then have "b_given b" using assms(1,3) by (auto simp: boot_inv_def)
  then show ?thesis using take [of b] J_TAKE by (intro exI [of _ "(touch_done b)\<lparr>b_given := False, b_join := J_DELETE\<rparr>"]) simp
next
  case J_DELETE
  then show ?thesis using delete [of b] by (intro exI [of _ "(delete_done b)\<lparr>b_join := J_OUT, b_reprobe := b_reprobe b \<or> \<not> b_valid b\<rparr>"]) simp
qed (use assms(2) in simp)

text \<open>C30: The boot probe and the receive task never read the WireGuard socket together.  In every interleaving, once the main task has left the join
  (after which the receive task may start), the probe reads nothing and publishes nothing; the main task then asks for a new probe exactly when
  no endpoint was published.  The completion semaphore is deleted at most once, never touched after that, and deleted once both are through.  And
  neither side can hang: the probe always has a next step, and the main task waits without one only for the signal of a probe that is still running.\<close>

theorem stun_boot_handoff:
  assumes "stun_boot_reach b"
  shows "(\<forall>b1. stun_boot_step b b1 \<longrightarrow> b_join b = J_OUT \<longrightarrow> b_join b1 = J_OUT \<and> b_reads b1 = b_reads b \<and> b_valid b1 = b_valid b) \<and>
    (b_join b = J_OUT \<longrightarrow> b_reprobe b = (\<not> b_valid b)) \<and>
    \<not> b_misuse b \<and> b_deleted b \<le> 1 \<and> (b_probe b = P_END \<and> b_join b = J_OUT \<longrightarrow> b_deleted b = 1) \<and>
    (b_probe b \<noteq> P_END \<longrightarrow> (\<exists>b1. stun_boot_step b b1 \<and> b_probe b1 \<noteq> b_probe b)) \<and>
    (b_join b \<noteq> J_OUT \<longrightarrow> (\<exists>b1. stun_boot_step b b1 \<and> b_join b1 \<noteq> b_join b) \<or> (b_join b = J_TAKE \<and> b_probe b \<noteq> P_END))"
proof -
  have inv: "boot_inv b" using boot_inv_reach [OF assms] .
  have "\<not> b_misuse b \<and> b_deleted b \<le> 1 \<and> (b_probe b = P_END \<and> b_join b = J_OUT \<longrightarrow> b_deleted b = 1) \<and> (b_join b = J_OUT \<longrightarrow> b_reprobe b = (\<not> b_valid b))"
    using inv by (cases "b_state b = STUN_BOOT_ABANDONED") (auto simp: boot_inv_def)
  then show ?thesis using boot_quiet [OF _ inv] boot_probe_runs boot_join_runs [OF inv] by blast
qed

text \<open>The answer comes after the wait is over: the main task gives up first, the probe finds itself off the socket and frees the semaphore.\<close>

definition demo_abandoned :: stun_boot where
  "demo_abandoned = (probe_read True (join_give_up ((touch_done (probe_claim stun_boot_start))\<lparr>b_join := J_GIVE_UP\<rparr>)))"

theorem stun_boot_handoff_witness:
  "demo_abandoned = \<lparr>b_state = STUN_BOOT_ABANDONED, b_probe = P_FINISH, b_join = J_OUT, b_given = False, b_deleted = 0, b_misuse = False, b_reads = 0, b_valid = False, b_reprobe = True\<rparr> \<and>
   (\<exists>b1. stun_boot_step demo_abandoned b1 \<and> b_probe b1 \<noteq> P_FINISH)"
proof -
  have r: "stun_boot_reach demo_abandoned"
    unfolding demo_abandoned_def
    by (intro stun_boot_reach.step [OF _ read] stun_boot_reach.step [OF _ give_up] stun_boot_reach.step [OF _ wait_over] stun_boot_reach.step [OF _ claim] stun_boot_reach.start)
      (simp_all add: stun_boot_start_def boot_defs)
  have v: "demo_abandoned = \<lparr>b_state = STUN_BOOT_ABANDONED, b_probe = P_FINISH, b_join = J_OUT, b_given = False, b_deleted = 0, b_misuse = False, b_reads = 0, b_valid = False, b_reprobe = True\<rparr>"
    by code_simp
  show ?thesis using stun_boot_handoff [OF r] by (auto simp: v)
qed

end
