(* ===== verification/TLM_Sched.thy ===== *)
theory TLM_Sched
  imports TL_Prelude
begin

text \<open>
  \<open>tlm_sched.h\<close>: when the telemetry task wakes.  Samples lie on a fixed grid; the housekeeping and the STUN re-probe share a sample's
  wake when one falls shortly before they are due.  Instants are microseconds of the boot clock.
\<close>

section \<open>The code\<close>

definition TLM_EARLY_MAX_US :: int where "TLM_EARLY_MAX_US = 10 * 1000 * 1000"
definition TLM_SLACK_MAX_US :: int where "TLM_SLACK_MAX_US = 1000 * 1000"
definition TLM_HOLD_MAX_US :: int where "TLM_HOLD_MAX_US = 2 * 1000 * 1000"
definition TLM_HOLD_POLL_US :: int where "TLM_HOLD_POLL_US = 100 * 1000"

definition tlm_slack_us :: "i64 \<Rightarrow> i64" where
  "tlm_slack_us period_us = (let s = if period_us > 0 then period_us div 16 else 0 in if s < TLM_SLACK_MAX_US then s else TLM_SLACK_MAX_US)"

function grid_loop :: "i64 \<Rightarrow> i64 \<Rightarrow> i64 \<Rightarrow> i64" where
  "grid_loop period_us floor_us nxt = (if period_us > 0 \<and> nxt < floor_us then grid_loop period_us floor_us (nxt + period_us) else nxt)"
  by pat_completeness auto
termination by (relation "measure (\<lambda>(_, floor_us, nxt). nat (floor_us - nxt))") auto

declare grid_loop.simps [simp del]

definition tlm_next_on_grid :: "i64 \<Rightarrow> i64 \<Rightarrow> i64 \<Rightarrow> i64" where
  "tlm_next_on_grid prev_us period_us now_us =
    (if prev_us \<le> 0 \<or> period_us \<le> 0 then now_us + (if period_us > 0 then period_us else 0)
     else grid_loop period_us (now_us + period_us div 2) (prev_us + period_us))"

definition tlm_early_us :: "bool \<Rightarrow> i64 \<Rightarrow> i64" where
  "tlm_early_us sampling period_us =
    (if \<not> sampling \<or> period_us \<le> 0 then TLM_SLACK_MAX_US else if period_us < TLM_EARLY_MAX_US then period_us else TLM_EARLY_MAX_US)"

definition tlm_due :: "i64 \<Rightarrow> i64 \<Rightarrow> i64 \<Rightarrow> bool" where
  "tlm_due now_us due_us early_us \<longleftrightarrow> now_us \<ge> due_us - early_us"

definition tlm_wake_at :: "i64 \<Rightarrow> i64 \<Rightarrow> i64 \<Rightarrow> i64" where
  "tlm_wake_at due_us anchor_us early_us = (if anchor_us \<le> due_us \<and> due_us - anchor_us \<le> early_us then anchor_us else due_us)"

definition tlm_hold :: "bool \<Rightarrow> i64 \<Rightarrow> i64 \<Rightarrow> bool" where
  "tlm_hold session_up now_us due_us \<longleftrightarrow> \<not> session_up \<and> now_us - due_us < TLM_HOLD_MAX_US"

section \<open>The grid\<close>

lemma grid_loop_spec:
  "period > 0 \<Longrightarrow> \<exists>k. grid_loop period floor_us nxt = nxt + int k * period \<and> floor_us \<le> grid_loop period floor_us nxt \<and>
     (k > 0 \<longrightarrow> grid_loop period floor_us nxt < floor_us + period)"
proof (induction period floor_us nxt rule: grid_loop.induct)
  case (1 period floor_us nxt)
  show ?case
  proof (cases "nxt < floor_us")
    case True
    then obtain k where k: "grid_loop period floor_us (nxt + period) = nxt + period + int k * period" "floor_us \<le> grid_loop period floor_us (nxt + period)"
        "k > 0 \<longrightarrow> grid_loop period floor_us (nxt + period) < floor_us + period"
      using "1.IH" "1.prems" by blast
    have e: "grid_loop period floor_us nxt = grid_loop period floor_us (nxt + period)" using True "1.prems" by (subst grid_loop.simps) simp
    show ?thesis
      by (intro exI [of _ "Suc k"]) (use k e True in \<open>cases "k = 0"; simp add: algebra_simps\<close>)
  next
    case False
    then show ?thesis by (intro exI [of _ 0]) (simp add: grid_loop.simps [of period floor_us nxt])
  qed
qed

text \<open>The next sample lies on the grid of the last one, at least half a period ahead; an instant is skipped only when it would come sooner, so
  the next one is less than a period and a half ahead unless the grid's own next instant is later.\<close>

theorem sample_grid:
  assumes "0 < prev_us" "0 < period_us"
  shows "\<exists>k > 0. tlm_next_on_grid prev_us period_us now_us = prev_us + int k * period_us \<and>
    now_us + period_us div 2 \<le> tlm_next_on_grid prev_us period_us now_us \<and>
    (k > 1 \<longrightarrow> tlm_next_on_grid prev_us period_us now_us < now_us + period_us div 2 + period_us)"
proof -
  obtain k where "grid_loop period_us (now_us + period_us div 2) (prev_us + period_us) = prev_us + period_us + int k * period_us"
      "now_us + period_us div 2 \<le> grid_loop period_us (now_us + period_us div 2) (prev_us + period_us)"
      "k > 0 \<longrightarrow> grid_loop period_us (now_us + period_us div 2) (prev_us + period_us) < now_us + period_us div 2 + period_us"
    using grid_loop_spec [OF assms(2)] by blast
  then show ?thesis using assms by (intro exI [of _ "Suc k"]) (simp add: tlm_next_on_grid_def algebra_simps)
qed

text \<open>Work is never late: its wake is not after its instant, the work counts as due there, and at most the allowance early.\<close>

theorem wake_on_time:
  "tlm_wake_at due_us anchor_us (tlm_early_us sampling period_us) \<le> due_us \<and>
   tlm_due (tlm_wake_at due_us anchor_us (tlm_early_us sampling period_us)) due_us (tlm_early_us sampling period_us) \<and>
   due_us - tlm_wake_at due_us anchor_us (tlm_early_us sampling period_us) \<le> TLM_EARLY_MAX_US"
  by (auto simp: tlm_wake_at_def tlm_early_us_def tlm_due_def TLM_EARLY_MAX_US_def TLM_SLACK_MAX_US_def)

end
