(* ===== verification/Spec2Isabelle.thy ===== *)
theory Spec2Isabelle
  imports WG_Demux WG_Transport_Steps WG_Handshake WG_Timers WG_Rescue WG_Path TS2021_Dial HPACK_Huffman H2_Runs JSON_Control MapResp_Frames DERP_WLock Disco_Handler Disco_Prober STUN STUN_Boot TLM_Sched
begin

text \<open>
  A verification of tinylink, a Tailscale node for ESP32 microcontrollers written in C (\<open>components/tinylink\<close>).

  \<^bold>\<open>The program.\<close>  A node keeps one control connection (\<open>ts2021_client.c\<close>): an HTTP/1.1 upgrade over :80 or TLS :443, a Noise IK handshake
  (\<open>noise_ik.c\<close>), Noise records, and on them an HTTP/2 client (\<open>h2_core.c\<close>, \<open>hpack.c\<close>) that registers the node
  (\<open>register_json.h\<close>, \<open>json_helpers.c\<close>) and holds a long poll whose MapResponses (\<open>mapreq.c\<close>) are merged into the peer table and kept in flash
  for the next boot (\<open>tinylink.c\<close>, \<open>tl_warm.h\<close>, \<open>tl_addr.h\<close>).  Its data plane is a WireGuard initiator (\<open>wg_handshake.c\<close>, \<open>wg_transport.c\<close>)
  over one UDP socket (\<open>wg_demux.c\<close>) and a DERP relay (\<open>derp.c\<close>, \<open>derp_client.c\<close>).  Which of the two paths carries a packet is the state
  machine of \<open>wg_path.h\<close>, fed by DISCO pings (\<open>disco.c\<close>, \<open>disco_handler.c\<close>, \<open>disco_prober.c\<close>) and STUN (\<open>stun.c\<close>); \<open>wg_rescue.h\<close>
  sends what went to a silent path once more.  The primitives are in \<open>crypto/\<close>.

  \<^bold>\<open>Theories and sources.\<close>
  \<^item> \<open>TL_Prelude\<close>: integer types, byte-order codecs, slices, and the collections \<open>tl_codec\<close> and \<open>tl_bits\<close> of lemmas on them.
  \<^item> \<open>Crypto_ChaCha20\<close>, \<open>Crypto_Poly1305\<close>, \<open>Crypto_Poly1305_Tag\<close>, \<open>Crypto_AEAD\<close>, \<open>Crypto_Blake2s\<close>, \<open>Crypto_HKDF\<close>, \<open>Crypto_NaclBox\<close>: the files of
    \<open>crypto/\<close> with their limbs, counters and buffers, and their equality with the definitions of RFC 8439, RFC 7693, RFC 5869 and NaCl.
  \<^item> \<open>WG_Replay\<close>, \<open>WG_Transport\<close>, \<open>WG_Transport_Steps\<close>: \<open>wg_transport.c\<close>, first call by call, then as interleaved locked calls of several
    tasks.  \<open>WG_Tai64n\<close>: the handshake timestamps of \<open>wg_proto.c\<close> and their reserve in flash.  \<open>WG_Handshake\<close>: \<open>wg_handshake.c\<close> and a responder
    written from the WireGuard paper.
  \<^item> \<open>WG_Path\<close>, \<open>WG_Timers\<close>, \<open>WG_Rescue\<close>, \<open>WG_Demux\<close>: \<open>wg_path.h\<close>, \<open>wg_timers.h\<close>, \<open>wg_rescue.h\<close>, \<open>wg_demux.c\<close>.
  \<^item> \<open>Disco\<close>, \<open>Disco_Handler\<close>, \<open>Disco_Prober\<close>, \<open>STUN\<close>: the files of the same names.  \<open>STUN_Boot\<close>: \<open>stun_boot.h\<close> with the
    boot probe and the main task of \<open>tinylink.c\<close> as interleaved steps.  \<open>TLM_Sched\<close>: \<open>tlm_sched.h\<close>.
  \<^item> \<open>Noise_IK\<close>: \<open>noise_ik.c\<close>.  \<open>TLS_IO\<close>: the loops of \<open>tls_io.c\<close>.  \<open>TS2021\<close>, \<open>TS2021_Dial\<close>: \<open>ts2021_client.c\<close>, records and early payload, and
    handshake and dial policy.
  \<^item> \<open>HPACK\<close>, \<open>HPACK_Laws\<close>, \<open>HPACK_Huffman\<close>: \<open>hpack.c\<close>.  \<open>H2_Core\<close>, \<open>H2_Laws\<close>, \<open>H2_Engine\<close>, \<open>H2_Runs\<close>: \<open>h2_core.c\<close>, its invariant, its
    loops, its runs against any server.
  \<^item> \<open>JSON_Split\<close>, \<open>JSON_Control\<close>: \<open>jsmn_split.h\<close>, \<open>jsmn_skip.h\<close>, \<open>json_helpers.c\<close>, \<open>register_json.h\<close>.  \<open>MapResp_Parse\<close>, \<open>MapResp_Stream\<close>,
    \<open>MapResp_Frames\<close>: \<open>mapreq.c\<close>, element parsers, streaming parser, long poll.
  \<^item> \<open>TL_Addr\<close>, \<open>TL_Date\<close>, \<open>TL_Warm\<close>, \<open>TL_Warm_Steps\<close>: \<open>tl_addr.h\<close>, \<open>tl_date.h\<close> with \<open>h2_retry_after.h\<close>, \<open>tl_warm.h\<close>, and the part of
    \<open>tinylink.c\<close> that merges netmaps and drives the warm start.
  \<^item> \<open>DERP\<close>, \<open>DERP_WLock\<close>: \<open>derp.c\<close> and the login of \<open>derp_client.c\<close>; \<open>derp_wlock.h\<close> and its tasks as interleaved steps.
  \<^item> This theory: what the components send is routed to its own handler on the other side.

  A C struct is a \<open>record\<close> with the fields of the struct, a function one definition of the same name.  Fixed-width integers are words where they can wrap
  (\<open>u8\<close> to \<open>u64\<close>), the microsecond clock is an integer.  A buffer with its length is a list; capacities stay arguments, and that
  every write fits is proved where the code relies on it.  An error is a constructor of a result type or \<open>None\<close>.

  \<^bold>\<open>Interfaces.\<close>  \<open>aead_scheme\<close> (\<open>AEAD_Interface\<close>) is what transports, handshakes and DISCO need of a sealed box; it is interpreted on
  ChaCha20-Poly1305 (\<open>cc20\<close>) and on the NaCl box (\<open>nacl\<close>).  \<open>replay_filter\<close> (\<open>WG_Replay\<close>) is what the transport needs of a replay window;
  it is interpreted on the ring of \<open>wg_transport.c\<close> (\<open>wg_window\<close>).  \<open>byte_feed\<close> (\<open>Feed_Interface\<close>) is the promise that a consumer does not depend on how its
  input was cut; it is interpreted on Poly1305 (\<open>poly_feed\<close>), the MapResponse parser (\<open>json_feed\<close>) and the long poll (\<open>stream_pieces\<close>).

  \<^bold>\<open>What is shown.\<close>  The primitives compute the functions of their standards for every input.  A keypair hands out each nonce once (so no key and nonce
  come twice while the keypairs have different keys) and a packet is accepted at most once in every interleaving of the tasks; both handshakes agree with a responder that follows the protocol and
  accept nothing else; timestamps grow across reboots.  The path machine sends direct only on evidence, notices silence in time, and has its
  copies sent by the relay.  The HTTP/2 engine returns and conserves its windows whatever the server sends; HPACK, MapResponses and DERP
  frames mean the same however they are cut; parsers stay inside their buffers.  The control connection comes up only with the server of the pinned key, skips
  the early payload exactly, and dials by its policy.  A netmap frame leaves exactly the peer table it
  describes.  Two failed warm starts turn the warm start off until a power cycle.  The DERP writers never mix frames, and a close always
  gets the lock.  The boot probe is off the socket before the receive task may read it.

  \<^bold>\<open>Parameters and bounds.\<close>  The scalar multiplication is a parameter \<open>x25519\<close>; where two sides have to agree, \<open>x25519_laws\<close> states that it commutes
  and has no low-order results on honest keys.  The tokenizer \<open>jsmn_parse\<close> (third-party) is a parameter, with the well-formedness of its tokens as a
  hypothesis where an element is walked.  Callbacks are functions on the caller's state; random bytes and the clock are arguments.  A transport
  is the transcript of what its polls return, so every cut, delay, error and end of it is covered; a call that has not returned at the end
  of the transcript waits.  Loops that the peer can keep going (the early payload, the DERP loop, the HTTP/2 pump) carry fuel or are partial
  functions, with the fuel that suffices, or termination, proved.  Generations and connection counts are below \<open>2 ^ 32\<close> where that is stated.

  \<^bold>\<open>Not modelled.\<close>  Field arithmetic of Curve25519 (\<open>crypto/curve25519_fiat32.c\<close>, generated and verified by fiat-crypto); lwIP and ESP-IDF glue
  (\<open>wg_netif.c\<close>, \<open>wg_lwip.c\<close>, \<open>wg_dataplane.c\<close>, the sockets of \<open>tls_io.c\<close>, opening a TLS transport, \<open>tls_resume.c\<close>, \<open>tls_offer.c\<close>,
  \<open>tls_x25519.c\<close>); the request wrappers of \<open>h2_client.c\<close>, \<open>register.c\<close>, \<open>control_key.c\<close> and the rest of \<open>tinylink.c\<close> (tasks, logging, flash I/O);
  key storage, telemetry and sensors; the application under \<open>main/\<close>; benches, tests and tools.  Timing and side channels, the scrubbing of
  secrets and stack use are outside the model.
\<close>

section \<open>What is sent is routed to its own handler\<close>

lemma disco_seal_routed:
  assumes "disco_seal x25519 cap pt nonce spub rpub priv = Some f" "2 \<le> length pt" "length nonce = 24" "length spub = 32"
  shows "wg_demux_classify f = WG_DEMUX_DISCO"
proof -
  obtain box where box: "nacl_box x25519 pt nonce rpub priv = Some box" "f = disco_frame spub nonce box"
    using assms by (auto simp: disco_seal_def Let_def put_seal_header_frame split: if_splits option.splits)
  have "length box = length pt + 16" using box(1) nacl.length_seal by (auto simp: nacl_box_def split: option.splits)
  then show ?thesis unfolding classify_disco using disco_frame_fields [OF assms(4,3)] assms(2) by (simp add: box(2))
qed

lemma stun_routed:
  assumes "length txid = 12"
  shows "wg_demux_classify (stun_build_request txid) = WG_DEMUX_STUN" "wg_demux_classify (stun_success txid attrs tail) = WG_DEMUX_STUN"
  using assms unfolding classify_stun
  by (simp_all add: stun_build_request_def stun_success_def stun_is_def Let_def STUN_HEADER_LEN_def STUN_TXID_LEN_def bytes_at_def put_u16_be_def STUN_MAGIC_COOKIE_def)

lemma handshake_routed:
  assumes "mi_message_type m = WG_MSG_INITIATION" "length (initiation_bytes m) = 148" "length (mi_reserved m) = 3"
    "le_bytes 4 (mi_sender_index m) \<noteq> STUN_MAGIC_COOKIE"
  shows "wg_demux_classify (initiation_bytes m) = WG_DEMUX_HANDSHAKE_INIT"
proof -
  have "bytes_at 4 4 (initiation_bytes m) = le_bytes 4 (mi_sender_index m)"
    using assms(3) by (simp add: initiation_bytes_def initiation_macd_def bytes_at_def)
  then show ?thesis unfolding classify_wg using assms
    by (simp add: stun_is_def initiation_bytes_def [of m] initiation_macd_def WG_MSG_INITIATION_def)
qed

lemma response_routed:
  assumes "mr_message_type r = WG_MSG_RESPONSE" "response_ok r"
  shows "wg_demux_classify (response_bytes r) = WG_DEMUX_HANDSHAKE_RESP"
  unfolding classify_wg using assms by (simp add: response_ok_def response_bytes_def response_macd_def WG_MSG_RESPONSE_def)

text \<open>C37: The datagrams of the protocols that share the socket reach their own handler: an encrypted
  transport packet, a sealed DISCO message, a STUN binding request and any STUN success
  response, a well-formed handshake response, and a handshake initiation unless its sender index
  happens to read as the STUN cookie.\<close>

theorem demux_routes_own:
  assumes "wg_transport_encrypt al s n p = (Some wire, s')"
    "disco_seal x25519 cap pt nonce spub rpub priv = Some f" "2 \<le> length pt" "length nonce = 24" "length spub = 32"
    "length txid = 12" "mr_message_type r = WG_MSG_RESPONSE" "response_ok r"
    "mi_message_type m = WG_MSG_INITIATION" "length (initiation_bytes m) = 148" "length (mi_reserved m) = 3"
    "le_bytes 4 (mi_sender_index m) \<noteq> STUN_MAGIC_COOKIE"
  shows "map wg_demux_classify [wire, f, stun_build_request txid, stun_success txid attrs tail, response_bytes r, initiation_bytes m]
    = [WG_DEMUX_TRANSPORT, WG_DEMUX_DISCO, WG_DEMUX_STUN, WG_DEMUX_STUN, WG_DEMUX_HANDSHAKE_RESP, WG_DEMUX_HANDSHAKE_INIT]"
proof -
  have "wg_demux_classify wire = WG_DEMUX_TRANSPORT"
    unfolding classify_wg using assms(1) by (auto simp: encrypt_Some packet_fields WG_MSG_TRANSPORT_def)
  then show ?thesis using disco_seal_routed [OF assms(2-5)] stun_routed [OF assms(6)] response_routed [OF assms(7,8)] handshake_routed [OF assms(9-12)]
    by simp
qed

theorem demux_routes_own_witness:
  "\<exists>wire f. fst (wg_transport_encrypt True end_a 64 [1, 2, 3]) = Some wire \<and>
     disco_seal toy_x25519 200 [1, 0, 7] (replicate 24 5) (replicate 32 6) (replicate 32 3) (replicate 32 1) = Some f \<and>
     map wg_demux_classify [wire, f, stun_build_request (replicate 12 4)] = [WG_DEMUX_TRANSPORT, WG_DEMUX_DISCO, WG_DEMUX_STUN]"
proof -
  let ?w = "transport_packet 9 0 (replicate 32 1) [1, 2, 3]"
  let ?r = "\<lparr>mr_message_type = WG_MSG_RESPONSE, mr_reserved = [0, 0, 0], mr_sender_index = 1, mr_receiver_index = 2,
      mr_ephemeral = replicate 32 0, mr_encrypted_nothing = replicate 16 0, mr_mac1 = replicate 16 0, mr_mac2 = replicate 16 0\<rparr>"
  let ?m = "\<lparr>mi_message_type = WG_MSG_INITIATION, mi_reserved = [0, 0, 0], mi_sender_index = 0, mi_ephemeral = replicate 32 0,
      mi_encrypted_static = replicate 48 0, mi_encrypted_timestamp = replicate 28 0, mi_mac1 = replicate 16 0, mi_mac2 = replicate 16 0\<rparr>"
  have w: "wg_transport_encrypt True end_a 64 [1, 2, 3] = (Some ?w, end_a\<lparr>send_counter := 1\<rparr>)"
    by (simp add: encrypt_Some end_a_def wg_transport_session_init_def new_gen_def Let_def WG_COUNTER_REJECT_AT_def)
  have "curve25519_dh toy_x25519 (replicate 32 1) (replicate 32 3) = Some (replicate 32 3)" by code_simp
  then obtain f where f: "disco_seal toy_x25519 200 [1, 0, 7] (replicate 24 5) (replicate 32 6) (replicate 32 3) (replicate 32 1) = Some f"
    by (simp add: disco_seal_def nacl_box_def box_beforenm_def nacl_box_after_shared_eq)
  have z: "le_bytes 4 (0 :: u32) \<noteq> STUN_MAGIC_COOKIE" by code_simp
  have r: "response_ok ?r" "length (initiation_bytes ?m) = 148" by (simp_all add: response_ok_def initiation_bytes_def initiation_macd_def)
  show ?thesis
    using demux_routes_own [OF w f, of "replicate 12 4" ?r ?m "[]" "[]"] w f z r by simp
qed

end
